(* ===== verification/Prelude.thy ===== *)
theory Prelude
  imports Main "HOL-Library.Word" "HOL-Library.Signed_Division"
begin

text \<open>
  Shared vocabulary of the development: names for the C integer types, C's usual
  arithmetic promotions with undefined behaviour as \<open>None\<close>, the byte-addressed
  memory with little-endian loads and stores, and the lemmas on powers of two,
  lists and memories that the components use.
\<close>

unbundle bit_operations_syntax

section \<open>Names of the C types\<close>

type_synonym u8 = "8 word"
type_synonym u16 = "16 word"
type_synonym u32 = "32 word"
type_synonym u64 = "64 word"

text \<open>On the modelled platform (linux/amd64) \<open>size_t\<close>, \<open>uintptr_t\<close>, \<open>pointer\<close> and
  \<open>uintmax_t\<close> are all 64 bits wide.\<close>

type_synonym size_t = "64 word"
type_synonym pointer = "64 word"

named_theorems cdefs \<open>definitions of straight-line C operations, unfolded by the component proofs\<close>
named_theorems mem_simps \<open>loads after stores\<close>

section \<open>Integer promotions\<close>

text \<open>Operands narrower than \<open>int\<close> are promoted to the 32-bit \<open>int\<close>. A signed result
  out of range of the promoted type is undefined behaviour.\<close>

definition promoted :: "nat \<Rightarrow> nat" where
  "promoted n = max 32 n"

definition sfits :: "nat \<Rightarrow> int \<Rightarrow> bool" where
  "sfits n v \<longleftrightarrow> - (2 ^ (n - 1)) \<le> v \<and> v < 2 ^ (n - 1)"

definition c_signed :: "nat \<Rightarrow> int \<Rightarrow> int option" where
  "c_signed n v = (if sfits (promoted n) v then Some v else None)"

definition c_unsigned :: "nat \<Rightarrow> int \<Rightarrow> int option" where
  "c_unsigned n v =
    (if n < 32 then c_signed n v else Some (v mod 2 ^ n))"

lemma promoted_ge [simp]: "n \<le> promoted n" "32 \<le> promoted n"
  by (simp_all add: promoted_def)

lemma sfits_mono: "sfits m v \<Longrightarrow> m \<le> n \<Longrightarrow> sfits n v"
proof -
  assume a: "sfits m v" "m \<le> n"
  have "(2::int) ^ (m - 1) \<le> 2 ^ (n - 1)"
    using a(2) by (intro power_increasing) auto
  with a(1) show ?thesis unfolding sfits_def by linarith
qed

lemma sfits_promoted: "sfits n v \<Longrightarrow> sfits (promoted n) v"
  by (rule sfits_mono) auto

lemma c_signed_fits: "sfits n v \<Longrightarrow> c_signed n v = Some v"
  by (simp add: c_signed_def sfits_promoted)

lemma sfits_sint [simp]: "sfits LENGTH('a) (sint (x :: 'a::len word))"
  using sint_ge [of x] sint_lt [of x] by (auto simp: sfits_def)

lemma sint_word_of_int_fits:
  "sfits LENGTH('a::len) v \<Longrightarrow> sint (word_of_int v :: 'a word) = v"
  by (simp add: sfits_def sint_sbintrunc' signed_take_bit_int_eq_self)

section \<open>Results\<close>

text \<open>\<open>Inl\<close> an error, \<open>Inr\<close> a value.\<close>

fun bindE :: "'e + 'a \<Rightarrow> ('a \<Rightarrow> 'e + 'b) \<Rightarrow> 'e + 'b" where
  "bindE (Inl e) f = Inl e"
| "bindE (Inr a) f = f a"

fun liftO :: "'e \<Rightarrow> 'a option \<Rightarrow> 'e + 'a" where
  "liftO e None = Inl e"
| "liftO e (Some a) = Inr a"

lemma bindE_Inr_iff: "bindE r f = Inr b \<longleftrightarrow> (\<exists>a. r = Inr a \<and> f a = Inr b)"
  by (cases r) auto

lemma liftO_Inr_iff [simp]: "liftO e r = Inr b \<longleftrightarrow> r = Some b"
  by (cases r) auto

section \<open>Powers of two and alignment\<close>

definition is_pow2 :: "u64 \<Rightarrow> bool" where
  "is_pow2 b \<longleftrightarrow> (\<exists>k<64. b = push_bit k 1)"

lemma push_bit_1_eq: "push_bit k (1::u64) = 2 ^ k"
  by (simp add: push_bit_eq_mult)

lemma uint_pow2: "k < 64 \<Longrightarrow> uint (2 ^ k :: u64) = 2 ^ k"
  by (rule uint_2p) (simp add: word_gt_0)

lemma unat_pow2: "k < 64 \<Longrightarrow> unat (2 ^ k :: u64) = 2 ^ k"
  by (simp add: uint_pow2 unat_eq_nat_uint)

lemma neg_pow2_is_not_mask: "- (2 ^ k) = (NOT (mask k) :: u64)"
  by (simp add: mask_eq_exp_minus_1 not_eq_complement)

lemma and_not_mask_eq: "(a :: u64) AND NOT (mask k) = a - take_bit k a"
proof -
  have "a = (a AND NOT (mask k)) OR (a AND mask k)"
    by (metis (no_types, lifting) and.right_neutral bit.conj_disj_distrib bit.disj_cancel_left)
  also have "\<dots> = (a AND NOT (mask k)) + (a AND mask k)"
    by (rule disjunctive_add [symmetric]) (simp add: bit_simps)
  finally show ?thesis
    by (metis add_diff_cancel_right' take_bit_eq_mask)
qed

lemma unat_take_bit: "unat (take_bit k (a :: u64)) = unat a mod 2 ^ k"
  by (simp only: unsigned_take_bit_eq take_bit_nat_def)

lemma unat_and_neg_pow2:
  "unat ((a :: u64) AND - (2 ^ k)) = unat a - unat a mod 2 ^ k"
proof -
  have "take_bit k a \<le> a"
    by (simp add: word_le_nat_alt unat_take_bit)
  then show ?thesis
    by (simp add: neg_pow2_is_not_mask and_not_mask_eq unat_sub unat_take_bit)
qed

section \<open>Indices modulo a capacity\<close>

lemma mod_add_lt:
  fixes a b n :: nat
  assumes "a < n" "b < n"
  shows "(a + b) mod n = (if a + b < n then a + b else a + b - n)"
  using assms by (simp add: mod_if)

lemma mod_add_inj:
  fixes a i j n :: nat
  assumes "a < n" "i < n" "j < n" "(a + i) mod n = (a + j) mod n"
  shows "i = j"
  using assms by (auto simp: mod_add_lt split: if_splits)

section \<open>Byte-addressed memory\<close>

type_synonym mem = "64 word \<Rightarrow> 8 word"

definition load_bytes :: "mem \<Rightarrow> 64 word \<Rightarrow> nat \<Rightarrow> 8 word list" where
  "load_bytes m a n = map (\<lambda>i. m (a + of_nat i)) [0..<n]"

fun store_bytes :: "mem \<Rightarrow> 64 word \<Rightarrow> 8 word list \<Rightarrow> mem" where
  "store_bytes m a [] = m"
| "store_bytes m a (b # bs) = store_bytes (m(a := b)) (a + 1) bs"

text \<open>Little-endian order, as on amd64.\<close>

fun word_of_bytes :: "8 word list \<Rightarrow> 'a::len word" where
  "word_of_bytes [] = 0"
| "word_of_bytes (b # bs) = ucast b OR push_bit 8 (word_of_bytes bs)"

definition bytes_of_word :: "nat \<Rightarrow> 'a::len word \<Rightarrow> 8 word list" where
  "bytes_of_word n w = map (\<lambda>i. ucast (drop_bit (8 * i) w)) [0..<n]"

definition load32 :: "mem \<Rightarrow> pointer \<Rightarrow> u32" where
  "load32 m a = word_of_bytes (load_bytes m a 4)"

definition load64 :: "mem \<Rightarrow> pointer \<Rightarrow> u64" where
  "load64 m a = word_of_bytes (load_bytes m a 8)"

definition store32 :: "mem \<Rightarrow> pointer \<Rightarrow> u32 \<Rightarrow> mem" where
  "store32 m a w = store_bytes m a (bytes_of_word 4 w)"

definition store64 :: "mem \<Rightarrow> pointer \<Rightarrow> u64 \<Rightarrow> mem" where
  "store64 m a w = store_bytes m a (bytes_of_word 8 w)"

text \<open>\<open>off a b\<close> is the distance from \<open>a\<close> up to \<open>b\<close> on the address circle; two
  regions are disjoint when each starts past the end of the other.\<close>

abbreviation (input) off :: "64 word \<Rightarrow> 64 word \<Rightarrow> nat" where
  "off a b \<equiv> unat (b - a)"

definition disjnt_regions :: "pointer \<Rightarrow> nat \<Rightarrow> pointer \<Rightarrow> nat \<Rightarrow> bool" where
  "disjnt_regions a n b k \<longleftrightarrow> n \<le> off a b \<and> k \<le> off b a"

lemma off_compl: "a \<noteq> b \<Longrightarrow> off a b + off b a = 2 ^ 64"
proof -
  assume "a \<noteq> b"
  then have ne: "unat a \<noteq> unat b" by (simp add: word_unat_eq_iff)
  have "unat a < 2 ^ 64" "unat b < 2 ^ 64" 
    using unsigned_less [of a, where ?'a = nat] unsigned_less [of b, where ?'a = nat] by simp_all
  moreover have "unat (b - a) = (if unat a \<le> unat b then unat b - unat a else unat b + 2^64 - unat a)"
     "unat (a - b) = (if unat b \<le> unat a then unat a - unat b else unat a + 2^64 - unat b)"
    using unat_sub_if' [of b a] unat_sub_if' [of a b] by simp_all
  ultimately show ?thesis using ne by (simp split: if_splits)
qed

lemma store_bytes_other:
  "length bs \<le> off a x \<Longrightarrow> length bs \<le> 2 ^ 63 \<Longrightarrow> store_bytes m a bs x = m x"
proof (induction bs arbitrary: m a)
  case (Cons b bs)
  then have ne: "x \<noteq> a" by auto
  then have "off (a + 1) x = off a x - 1"
    using unat_sub [of 1 "x - a"] by (simp add: word_le_nat_alt diff_diff_eq [symmetric] unat_gt_0 Suc_le_eq)
  with Cons ne show ?case by simp
qed simp

lemma store_bytes_nth:
  "i < length bs \<Longrightarrow> length bs \<le> 2 ^ 63 \<Longrightarrow> store_bytes m a bs (a + of_nat i) = bs ! i"
proof (induction bs arbitrary: m a i)
  case (Cons b bs)
  show ?case
  proof (cases i)
    case 0
    have "off (a + 1) a = 2 ^ 64 - 1"
      by (simp add: unsigned_minus_1_eq_mask mask_eq_exp_minus_1)
    with 0 Cons.prems show ?thesis
      by (simp add: store_bytes_other)
  next
    case (Suc j)
    with Cons.IH [of j "m(a := b)" "a + 1"] Cons.prems show ?thesis
      by (simp add: add.assoc del: fun_upd_apply)
  qed
qed simp

lemma load_bytes_store_same:
  "length bs = n \<Longrightarrow> n \<le> 2 ^ 63 \<Longrightarrow> load_bytes (store_bytes m a bs) a n = bs"
  by (rule nth_equalityI) (auto simp: load_bytes_def store_bytes_nth)

lemma load_bytes_store_disjnt:
  assumes "disjnt_regions a (length bs) b n" "length bs \<le> 2 ^ 63"
  shows "load_bytes (store_bytes m a bs) b n = load_bytes m b n"
proof -
  have "length bs \<le> off a (b + of_nat i)" if "i < n" for i
  proof (cases "a = b")
    case True
    with assms that show ?thesis by (simp add: disjnt_regions_def)
  next
    case False
    have *: "length bs \<le> off a b" "n \<le> off b a"
      using assms(1) by (simp_all add: disjnt_regions_def)
    have lt: "off a b + i < 2 ^ 64"
      using off_compl [OF False] * that by linarith
    then have i: "unat (of_nat i :: u64) = i"
      by (simp add: unsigned_of_nat take_bit_nat_eq_self)
    have "off a (b + of_nat i) = unat ((b - a) + of_nat i)"
      by (simp add: algebra_simps)
    also have "\<dots> = off a b + i"
      using lt i unat_add_lem [of "b - a" "of_nat i"] by simp
    finally show ?thesis using * by linarith
  qed
  then show ?thesis using assms(2) by (simp add: load_bytes_def store_bytes_other)
qed

lemma bit_word_of_bytes:
  "bit (word_of_bytes bs :: 'a::len word) i \<longleftrightarrow>
    i < LENGTH('a) \<and> i < 8 * length bs \<and> bit (bs ! (i div 8)) (i mod 8)"
proof (induction bs arbitrary: i)
  case (Cons b bs)
  show ?case
  proof (cases "i < 8")
    case True
    then show ?thesis by (auto simp: bit_simps)
  next
    case False
    have "i div 8 = Suc ((i - 8) div 8)" "i mod 8 = (i - 8) mod 8"
      using False by (simp_all add: le_div_geq le_mod_geq)
    moreover have "\<not> bit b i" using False bit_imp_le_length [of b i] by auto
    ultimately show ?thesis using False Cons.IH [of "i - 8"]
      by (auto simp: bit_simps)
  qed
qed simp

lemma length_bytes_of_word [simp]: "length (bytes_of_word n w) = n"
  by (simp add: bytes_of_word_def)

lemma length_load_bytes [simp]: "length (load_bytes m a n) = n"
  by (simp add: load_bytes_def)

lemma word_of_bytes_of_word:
  "LENGTH('a) = 8 * n \<Longrightarrow> word_of_bytes (bytes_of_word n w) = (w :: 'a::len word)"
  by (rule bit_eqI)
     (auto simp: bit_word_of_bytes bytes_of_word_def bit_simps less_mult_imp_div_less mult.commute)

lemma load64_store64_same [simp, mem_simps]: "load64 (store64 m a w) a = w"
  by (simp add: load64_def store64_def load_bytes_store_same word_of_bytes_of_word)

lemma load32_store32_same [simp, mem_simps]: "load32 (store32 m a w) a = w"
  by (simp add: load32_def store32_def load_bytes_store_same word_of_bytes_of_word)

lemma load64_store64_disjnt [mem_simps]:
  "disjnt_regions a 8 b 8 \<Longrightarrow> load64 (store64 m a w) b = load64 m b"
  by (simp add: load64_def store64_def load_bytes_store_disjnt)

lemma store64_other: "8 \<le> off a x \<Longrightarrow> store64 m a w x = m x"
  by (simp add: store64_def store_bytes_other)

lemma store32_other: "4 \<le> off a x \<Longrightarrow> store32 m a w x = m x"
  by (simp add: store32_def store_bytes_other)

lemma load64_cong: "(\<And>i. i < 8 \<Longrightarrow> m (a + of_nat i) = m' (a + of_nat i)) \<Longrightarrow> load64 m a = load64 m' a"
  unfolding load64_def load_bytes_def by (intro arg_cong [of _ _ word_of_bytes] map_cong) auto

lemma bytes_of_word_of_bytes:
  assumes "length bs = n" "LENGTH('a) = 8 * n"
  shows "bytes_of_word n (word_of_bytes bs :: 'a::len word) = bs"
proof (rule nth_equalityI)
  fix i assume "i < length (bytes_of_word n (word_of_bytes bs :: 'a word))"
  then have i: "i < n" by simp
  show "bytes_of_word n (word_of_bytes bs :: 'a word) ! i = bs ! i"
  proof (rule bit_word_eqI)
    fix j :: nat assume "j < LENGTH(8)"
    then have "(8 * i + j) div 8 = i" "(8 * i + j) mod 8 = j" "8 * i + j < 8 * n" "j < 8"
      using i by auto
    then show "bit (bytes_of_word n (word_of_bytes bs :: 'a word) ! i) j = bit (bs ! i) j"
      using i assms
      by (simp add: bytes_of_word_def bit_word_of_bytes bit_unsigned_iff bit_drop_bit_eq)
  qed
qed (use assms in simp)

lemma store_load_bytes: "n \<le> 2 ^ 63 \<Longrightarrow> store_bytes m a (load_bytes m a n) = m"
proof
  fix x assume n: "n \<le> 2 ^ 63"
  show "store_bytes m a (load_bytes m a n) x = m x"
  proof (cases "off a x < n")
    case True
    moreover have "x = a + of_nat (off a x)" by simp
    ultimately show ?thesis
      using store_bytes_nth [of "off a x" "load_bytes m a n" m a] n
      by (simp add: load_bytes_def)
  next
    case False
    then show ?thesis using n by (simp add: store_bytes_other)
  qed
qed

lemma store64_load64 [simp]: "store64 m a (load64 m a) = m"
  by (simp add: store64_def load64_def bytes_of_word_of_bytes store_load_bytes)

lemma store64_store64 [simp]: "store64 (store64 m a v) a w = store64 m a w"
proof
  fix x
  show "store64 (store64 m a v) a w x = store64 m a w x"
  proof (cases "off a x < 8")
    case True
    define i where "i = off a x"
    have i: "i < 8" "x = a + of_nat i"
      using True by (simp_all add: i_def)
    then show ?thesis
      using store_bytes_nth [of i "bytes_of_word 8 w" _ a] by (simp add: store64_def)
  qed (simp add: store64_other)
qed

section \<open>Copying memory\<close>

text \<open>\<open>memcpy\<close> of the C library, for regions that do not overlap, and the wrapper of
  \<open>gc/virtual-memory.c\<close>.\<close>

definition memcpy :: "mem \<Rightarrow> pointer \<Rightarrow> pointer \<Rightarrow> u64 \<Rightarrow> mem" where
  "memcpy m dst src n = (\<lambda>a. if a - dst < n then m (src + (a - dst)) else m a)"

definition GC_memcpy :: "pointer \<Rightarrow> pointer \<Rightarrow> u64 \<Rightarrow> mem \<Rightarrow> mem" where
  "GC_memcpy src dst n m = (if src = dst then m else memcpy m dst src n)"

lemma memcpy_other: "unat n \<le> off dst x \<Longrightarrow> memcpy m dst src n x = m x"
  by (simp add: memcpy_def word_less_nat_alt)

lemma unat_of_nat_small: "k < 2 ^ 64 \<Longrightarrow> unat (of_nat k :: u64) = k"
  by (simp add: unat_of_nat)

lemma unat_of_nat_lt: "k < unat (n :: u64) \<Longrightarrow> unat (of_nat k :: u64) = k"
  using unsigned_less [of n, where ?'a = nat] by (simp add: unat_of_nat_small)

lemma load_bytes_memcpy: "load_bytes (memcpy m dst src n) dst (unat n) = load_bytes m src (unat n)"
  unfolding load_bytes_def
  by (intro map_cong refl) (simp add: memcpy_def word_less_nat_alt unat_of_nat_lt)

lemma load_bytes_take: "k \<le> n \<Longrightarrow> take k (load_bytes m a n) = load_bytes m a k"
  by (simp add: load_bytes_def take_map)

lemma load_bytes_drop: "drop k (load_bytes m a n) = load_bytes m (a + of_nat k) (n - k)"
  unfolding load_bytes_def drop_map drop_upt
  by (rule nth_equalityI) (simp_all add: add.assoc)

lemma load_bytes_cong: "(\<And>i. i < n \<Longrightarrow> m (a + of_nat i) = m' (a + of_nat i)) \<Longrightarrow> load_bytes m a n = load_bytes m' a n"
  unfolding load_bytes_def by (intro map_cong) auto

text \<open>A region is left alone by a change of another region that is disjoint.\<close>

lemma off_shift:
  assumes "i < n" "disjnt_regions a k b n"
  shows "off a (b + of_nat i) = off a b + i"
proof (cases "a = b")
  case True
  then show ?thesis using assms by (simp add: disjnt_regions_def)
next
  case False
  have lt: "off a b + i < 2 ^ 64"
    using off_compl [OF False] assms by (simp add: disjnt_regions_def)
  moreover have "i < 2 ^ 64" using lt by linarith
  then have "unat (of_nat i :: u64) = i" by (simp add: unat_of_nat_small)
  ultimately have "unat ((b - a) + of_nat i) = off a b + i"
    using unat_add_lem [of "b - a" "of_nat i :: u64"] by simp
  moreover have "b + of_nat i - a = (b - a) + of_nat i" by (simp add: algebra_simps)
  ultimately show ?thesis by metis
qed

lemma off_offset: "i < n \<Longrightarrow> disjnt_regions a k b n \<Longrightarrow> k \<le> off a (b + of_nat i)"
  using off_shift [of i n a k b] by (simp add: disjnt_regions_def)

lemma off_plus:
  assumes "i \<le> off f x"
  shows "off (f + of_nat i) x = off f x - i"
proof -
  have "unat (of_nat i :: u64) = i"
    using assms unsigned_less [of "x - f", where ?'a = nat] by (auto simp: unat_of_nat_small)
  moreover from this have "of_nat i \<le> x - f" using assms by (simp add: word_le_nat_alt)
  ultimately show ?thesis by (simp add: diff_diff_add [symmetric] unat_sub)
qed

lemma disjnt_sym: "disjnt_regions a n b k \<longleftrightarrow> disjnt_regions b k a n"
  by (auto simp: disjnt_regions_def)

lemma disjnt_sub:
  assumes "disjnt_regions a n b k" "i + n' \<le> n" "j + k' \<le> k" "0 < n'" "0 < k'"
  shows "disjnt_regions (a + of_nat i) n' (b + of_nat j) k'"
proof -
  have "off a (b + of_nat j) = off a b + j" "off b (a + of_nat i) = off b a + i"
    using assms off_shift [of j k a n b] off_shift [of i n b k a] by (auto simp: disjnt_sym [of a])
  moreover have ge: "n \<le> off a b" "k \<le> off b a" using assms(1) by (auto simp: disjnt_regions_def)
  ultimately have "off (a + of_nat i) (b + of_nat j) = off a b + j - i" "off (b + of_nat j) (a + of_nat i) = off b a + i - j"
    using assms(2-) off_plus [of i "b + of_nat j" a] off_plus [of j "a + of_nat i" b] by auto
  moreover have "n' \<le> off a b + j - i" "k' \<le> off b a + i - j" using ge assms(2,3) by linarith+
  ultimately show ?thesis unfolding disjnt_regions_def by simp
qed

lemma load_bytes_frame:
  "(\<And>x. k \<le> off a x \<Longrightarrow> m' x = m x) \<Longrightarrow> disjnt_regions a k b n \<Longrightarrow> load_bytes m' b n = load_bytes m b n"
  using off_offset by (intro load_bytes_cong) blast

lemma load64_frame:
  "(\<And>x. k \<le> off a x \<Longrightarrow> m' x = m x) \<Longrightarrow> disjnt_regions a k b 8 \<Longrightarrow> load64 m' b = load64 m b"
  unfolding load64_def by (metis load_bytes_frame)

lemma load64_memcpy: "disjnt_regions dst (unat n) b 8 \<Longrightarrow> load64 (memcpy m dst src n) b = load64 m b"
  by (rule load64_frame [OF memcpy_other])

text \<open>Words at constant distances from a base.\<close>

lemma disjnt_offsets:
  assumes "i + a \<le> j" "j + b \<le> 2 ^ 64" "0 < a" "0 < b"
  shows "disjnt_regions (p + of_nat i) a (p + of_nat j) b" "disjnt_regions (p + of_nat j) b (p + of_nat i) a"
proof -
  have "unat (of_nat (j - i) :: u64) = j - i" using assms by (intro unat_of_nat_small) simp
  moreover have "p + of_nat j - (p + of_nat i) = of_nat (j - i)" using assms(1) by (simp add: of_nat_diff)
  ultimately have 1: "off (p + of_nat i) (p + of_nat j) = j - i" by simp
  have "a \<le> j - i \<and> b \<le> off (p + of_nat j) (p + of_nat i)"
  proof (cases "i = j")
    case True
    then show ?thesis using assms by (auto simp: disjnt_regions_def)
  next
    case False
    then have "p + of_nat i \<noteq> p + of_nat j" using 1 assms(1) by auto
    from off_compl [OF this] 1 assms show ?thesis by linarith
  qed
  then show "disjnt_regions (p + of_nat i) a (p + of_nat j) b" "disjnt_regions (p + of_nat j) b (p + of_nat i) a"
    using 1 by (auto simp: disjnt_regions_def)
qed

end
