(* ===== verification/Word_Arith.thy ===== *)
theory Word_Arith
  imports Prelude
begin

text \<open>
  The word primitives of the basis library: \<open>basis/Word/Word-ops.h\<close>,
  \<open>basis/Word/Word-check.h\<close>, \<open>basis/Word/Word-consts.h\<close> and the word coercions of
  \<open>basis/coerce.h\<close>. The C macros instantiate each operation at sizes 8, 16, 32
  and 64; here an operation is polymorphic in the width \<open>LENGTH('a)\<close>. A signed
  \<open>WordS\<close> argument is a word read by \<open>sint\<close>, an unsigned \<open>WordU\<close> one a word read by
  \<open>uint\<close>. \<open>None\<close> is undefined behaviour of the C operation: overflow of the
  promoted signed type, division by zero, a shift by the promoted width or more.
\<close>

section \<open>Constants and conversions\<close>

definition WordS_max :: "'a::len itself \<Rightarrow> int" where
  "WordS_max _ = 2 ^ (LENGTH('a) - 1) - 1"

definition WordS_min :: "'a::len itself \<Rightarrow> int" where
  "WordS_min _ = - (2 ^ (LENGTH('a) - 1))"

definition Word_max :: "'a::len itself \<Rightarrow> int" where
  "Word_max _ = 2 ^ LENGTH('a) - 1"

text \<open>\<open>WordS_extd\<close> and \<open>WordU_extd\<close> convert to any other size, by sign or zero
  extension or by truncation.\<close>

definition WordS_extd :: "'a::len word \<Rightarrow> 'b::len word" where
  "WordS_extd x = word_of_int (sint x)"

definition WordU_extd :: "'a::len word \<Rightarrow> 'b::len word" where
  "WordU_extd x = word_of_int (uint x)"

section \<open>Word-ops.h\<close>

text \<open>An operator applied to the promoted operands, its value converted back.\<close>

definition ret_signed :: "int \<Rightarrow> 'a::len word option" where
  "ret_signed v = map_option word_of_int (c_signed LENGTH('a) v)"

definition ret_unsigned :: "int \<Rightarrow> 'a::len word option" where
  "ret_unsigned v = map_option word_of_int (c_unsigned LENGTH('a) v)"

definition Word_add :: "'a::len word \<Rightarrow> 'a word \<Rightarrow> 'a word option" where
  "Word_add w1 w2 = ret_unsigned (uint w1 + uint w2)"

definition Word_sub :: "'a::len word \<Rightarrow> 'a word \<Rightarrow> 'a word option" where
  "Word_sub w1 w2 = ret_unsigned (uint w1 - uint w2)"

definition WordU_mul :: "'a::len word \<Rightarrow> 'a word \<Rightarrow> 'a word option" where
  "WordU_mul w1 w2 = ret_unsigned (uint w1 * uint w2)"

definition WordS_mul :: "'a::len word \<Rightarrow> 'a word \<Rightarrow> 'a word option" where
  "WordS_mul w1 w2 = ret_signed (sint w1 * sint w2)"

definition Word_neg :: "'a::len word \<Rightarrow> 'a word option" where
  "Word_neg w = ret_unsigned (- uint w)"

definition Word_andb :: "'a::len word \<Rightarrow> 'a word \<Rightarrow> 'a word" where
  "Word_andb w1 w2 = w1 AND w2"

definition Word_orb :: "'a::len word \<Rightarrow> 'a word \<Rightarrow> 'a word" where
  "Word_orb w1 w2 = w1 OR w2"

definition Word_xorb :: "'a::len word \<Rightarrow> 'a word \<Rightarrow> 'a word" where
  "Word_xorb w1 w2 = w1 XOR w2"

definition Word_notb :: "'a::len word \<Rightarrow> 'a word" where
  "Word_notb w = NOT w"

definition WordU_quot :: "'a::len word \<Rightarrow> 'a word \<Rightarrow> 'a word option" where
  "WordU_quot w1 w2 = (if w2 = 0 then None else ret_unsigned (uint w1 div uint w2))"

definition WordU_rem :: "'a::len word \<Rightarrow> 'a word \<Rightarrow> 'a word option" where
  "WordU_rem w1 w2 = (if w2 = 0 then None else ret_unsigned (uint w1 mod uint w2))"

text \<open>C's division truncates towards zero; the remainder is undefined where the
  quotient is not representable.\<close>

definition WordS_quot :: "'a::len word \<Rightarrow> 'a word \<Rightarrow> 'a word option" where
  "WordS_quot w1 w2 = (if w2 = 0 then None else ret_signed (sint w1 sdiv sint w2))"

definition WordS_rem :: "'a::len word \<Rightarrow> 'a word \<Rightarrow> 'a word option" where
  "WordS_rem w1 w2 = (if w2 = 0 then None else
    (case c_signed LENGTH('a) (sint w1 sdiv sint w2) of
      None \<Rightarrow> None
    | Some _ \<Rightarrow> Some (word_of_int (sint w1 smod sint w2))))"

text \<open>Comparisons.\<close>

definition Word_equal :: "'a::len word \<Rightarrow> 'a word \<Rightarrow> bool" where
  "Word_equal w1 w2 \<longleftrightarrow> w1 = w2"

definition WordU_lt :: "'a::len word \<Rightarrow> 'a word \<Rightarrow> bool" where
  "WordU_lt w1 w2 \<longleftrightarrow> uint w1 < uint w2"

definition WordU_le :: "'a::len word \<Rightarrow> 'a word \<Rightarrow> bool" where
  "WordU_le w1 w2 \<longleftrightarrow> uint w1 \<le> uint w2"

definition WordU_gt :: "'a::len word \<Rightarrow> 'a word \<Rightarrow> bool" where
  "WordU_gt w1 w2 \<longleftrightarrow> uint w1 > uint w2"

definition WordU_ge :: "'a::len word \<Rightarrow> 'a word \<Rightarrow> bool" where
  "WordU_ge w1 w2 \<longleftrightarrow> uint w1 \<ge> uint w2"

definition WordS_lt :: "'a::len word \<Rightarrow> 'a word \<Rightarrow> bool" where
  "WordS_lt w1 w2 \<longleftrightarrow> sint w1 < sint w2"

definition WordS_le :: "'a::len word \<Rightarrow> 'a word \<Rightarrow> bool" where
  "WordS_le w1 w2 \<longleftrightarrow> sint w1 \<le> sint w2"

definition WordS_gt :: "'a::len word \<Rightarrow> 'a word \<Rightarrow> bool" where
  "WordS_gt w1 w2 \<longleftrightarrow> sint w1 > sint w2"

definition WordS_ge :: "'a::len word \<Rightarrow> 'a word \<Rightarrow> bool" where
  "WordS_ge w1 w2 \<longleftrightarrow> sint w1 \<ge> sint w2"

text \<open>Shifts: the count is a 32-bit word. Left shifts are of the promoted value,
  truncated back (gcc defines the shifted-out bits of a promoted value).\<close>

definition shift_ok :: "nat \<Rightarrow> u32 \<Rightarrow> bool" where
  "shift_ok n w2 \<longleftrightarrow> unat w2 < promoted n"

definition Word_lshift :: "'a::len word \<Rightarrow> u32 \<Rightarrow> 'a word option" where
  "Word_lshift w1 w2 =
    (if shift_ok LENGTH('a) w2 then Some (push_bit (unat w2) w1) else None)"

definition WordU_rshift :: "'a::len word \<Rightarrow> u32 \<Rightarrow> 'a word option" where
  "WordU_rshift w1 w2 =
    (if shift_ok LENGTH('a) w2 then Some (drop_bit (unat w2) w1) else None)"

definition WordS_rshift :: "'a::len word \<Rightarrow> u32 \<Rightarrow> 'a word option" where
  "WordS_rshift w1 w2 =
    (if shift_ok LENGTH('a) w2 then Some (word_of_int (sint w1 div 2 ^ unat w2)) else None)"

text \<open>The rotations shift by \<open>w2\<close> and by \<open>size - w2\<close>, computed in 32 bits, and the
  result of the disjunction is truncated.\<close>

definition Word_rol :: "'a::len word \<Rightarrow> u32 \<Rightarrow> 'a word option" where
  "Word_rol w1 w2 =
    (let k = of_nat LENGTH('a) - w2 in
     if shift_ok LENGTH('a) k \<and> shift_ok LENGTH('a) w2
     then Some (drop_bit (unat k) w1 OR push_bit (unat w2) w1) else None)"

definition Word_ror :: "'a::len word \<Rightarrow> u32 \<Rightarrow> 'a word option" where
  "Word_ror w1 w2 =
    (let k = of_nat LENGTH('a) - w2 in
     if shift_ok LENGTH('a) w2 \<and> shift_ok LENGTH('a) k
     then Some (drop_bit (unat w2) w1 OR push_bit (unat k) w1) else None)"

text \<open>A 64-bit word at a 4-byte aligned address, accessed as two 32-bit halves.\<close>

definition Word64_fetch :: "mem \<Rightarrow> pointer \<Rightarrow> u64" where
  "Word64_fetch m wp =
    (let ws0 = load32 m wp; ws1 = load32 m (wp + 4) in
     ucast ws0 OR push_bit 32 (ucast ws1))"

definition Word64_store :: "mem \<Rightarrow> pointer \<Rightarrow> u64 \<Rightarrow> mem" where
  "Word64_store m wp w =
    (let m = store32 m wp (ucast w) in store32 m (wp + 4) (ucast (drop_bit 32 w)))"

definition Word64_move :: "mem \<Rightarrow> pointer \<Rightarrow> pointer \<Rightarrow> mem" where
  "Word64_move m dst src = (let w = Word64_fetch m src in Word64_store m dst w)"

section \<open>Word-check.h\<close>

text \<open>Each body computes its bound in the promoted type, without the operation whose
  overflow it tests. \<open>Some True\<close> is the \<open>doOverflow\<close> branch.\<close>

definition WordS_addCheckOverflows :: "'a::len word \<Rightarrow> 'a word \<Rightarrow> bool option" where
  "WordS_addCheckOverflows x y =
    (if sint x \<ge> 0
     then map_option (\<lambda>d. sint y > d) (c_signed LENGTH('a) (WordS_max TYPE('a) - sint x))
     else map_option (\<lambda>d. sint y < d) (c_signed LENGTH('a) (WordS_min TYPE('a) - sint x)))"

definition WordU_addCheckOverflows :: "'a::len word \<Rightarrow> 'a word \<Rightarrow> bool option" where
  "WordU_addCheckOverflows x y =
    map_option (\<lambda>d. uint y > d) (c_unsigned LENGTH('a) (Word_max TYPE('a) - uint x))"

definition WordS_mulCheckOverflows :: "'a::len word \<Rightarrow> 'a word \<Rightarrow> bool option" where
  "WordS_mulCheckOverflows x y =
    (let mx = word_of_int (WordS_max TYPE('a)) :: 'a word;
         mn = word_of_int (WordS_min TYPE('a)) :: 'a word in
     if x = 0 \<or> y = 0 then Some False
     else if sint x > 0 then
       (if sint y > 0 then map_option (\<lambda>q. sint x > sint q) (WordS_quot mx y)
        else map_option (\<lambda>q. sint y < sint q) (WordS_quot mn x))
     else
       (if sint y > 0 then map_option (\<lambda>q. sint x < sint q) (WordS_quot mn y)
        else map_option (\<lambda>q. sint y < sint q) (WordS_quot mx x)))"

definition WordU_mulCheckOverflows :: "'a::len word \<Rightarrow> 'a word \<Rightarrow> bool option" where
  "WordU_mulCheckOverflows x y =
    (if x = 0 \<or> y = 0 then Some False
     else map_option (\<lambda>q. uint x > uint q)
       (WordU_quot (word_of_int (Word_max TYPE('a)) :: 'a word) y))"

definition WordS_negCheckOverflows :: "'a::len word \<Rightarrow> bool" where
  "WordS_negCheckOverflows x \<longleftrightarrow> sint x = WordS_min TYPE('a)"

definition WordS_subCheckOverflows :: "'a::len word \<Rightarrow> 'a word \<Rightarrow> bool option" where
  "WordS_subCheckOverflows c x =
    (if sint c \<ge> 0
     then map_option (\<lambda>d. sint x < d) (c_signed LENGTH('a) (sint c - WordS_max TYPE('a)))
     else map_option (\<lambda>d. sint x > d) (c_signed LENGTH('a) (sint c - WordS_min TYPE('a))))"

definition WordS_subCheckBodyXC :: "'a::len word \<Rightarrow> 'a word \<Rightarrow> bool option" where
  "WordS_subCheckBodyXC x c =
    (if sint c \<le> 0
     then map_option (\<lambda>d. sint x > d) (c_signed LENGTH('a) (WordS_max TYPE('a) + sint c))
     else map_option (\<lambda>d. sint x < d) (c_signed LENGTH('a) (WordS_min TYPE('a) + sint c)))"

section \<open>Lemmas\<close>

lemmas word_consts = WordS_max_def WordS_min_def Word_max_def

lemma sint_bounds:
  "WordS_min TYPE('a) \<le> sint (x :: 'a::len word)" "sint x \<le> WordS_max TYPE('a)"
  using sfits_sint [of x] by (simp_all add: sfits_def word_consts)

lemma sfits_iff: "sfits LENGTH('a::len) v \<longleftrightarrow> WordS_min TYPE('a) \<le> v \<and> v \<le> WordS_max TYPE('a)"
  by (auto simp: sfits_def word_consts)

lemma WordS_max_min: "WordS_max TYPE('a::len) = - WordS_min TYPE('a) - 1" "WordS_min TYPE('a) < 0"
  by (simp_all add: word_consts)

lemma uint_bounds: "0 \<le> uint (x :: 'a::len word)" "uint x \<le> Word_max TYPE('a)"
  using uint_lt2p [of x] by (simp_all add: word_consts)

lemma c_signed_sfits: "WordS_min TYPE('a::len) \<le> v \<Longrightarrow> v \<le> WordS_max TYPE('a) \<Longrightarrow>
    c_signed LENGTH('a) v = Some v"
  by (rule c_signed_fits) (simp add: sfits_iff)

lemma c_unsigned_fits:
  assumes "0 \<le> v" "v \<le> Word_max TYPE('a::len)"
  shows "c_unsigned LENGTH('a) v = Some v"
proof (cases "LENGTH('a) < 32")
  case True
  then have "(2::int) ^ LENGTH('a) \<le> 2 ^ 31" by (intro power_increasing) auto
  then show ?thesis using assms True
    by (auto simp: c_unsigned_def c_signed_def sfits_def promoted_def word_consts)
qed (use assms in \<open>auto simp: c_unsigned_def word_consts\<close>)

lemma sint_const:
  "sint (word_of_int (WordS_max TYPE('a)) :: 'a::len word) = WordS_max TYPE('a)"
  "sint (word_of_int (WordS_min TYPE('a)) :: 'a::len word) = WordS_min TYPE('a)"
  using WordS_max_min [where 'a = 'a]
  by (auto simp only: sfits_iff intro!: sint_word_of_int_fits)

lemma uint_const: "uint (word_of_int (Word_max TYPE('a)) :: 'a::len word) = Word_max TYPE('a)"
  by (simp add: word_consts unsigned_minus_1_eq_mask mask_eq_exp_minus_1)

lemma sint_eq_0: "sint (x :: 'a::len word) = 0 \<longleftrightarrow> x = 0"
  by (metis signed_0 signed_word_eqI)

text \<open>Truncating division by cases on the signs.\<close>

lemma sdiv_pp: "(0::int) \<le> a \<Longrightarrow> 0 < b \<Longrightarrow> a sdiv b = a div b"
  by (cases "a = 0") (auto simp: signed_divide_int_def sgn_if)

lemma sdiv_pn: "(0::int) \<le> a \<Longrightarrow> b < 0 \<Longrightarrow> a sdiv b = - (a div - b)"
  by (cases "a = 0") (auto simp: signed_divide_int_def sgn_if)

lemma sdiv_np: "a < (0::int) \<Longrightarrow> 0 < b \<Longrightarrow> a sdiv b = - (- a div b)"
  by (auto simp: signed_divide_int_def sgn_if)

lemma div_self_bounds: "(0::int) \<le> a \<Longrightarrow> 0 < b \<Longrightarrow> 0 \<le> a div b \<and> a div b \<le> a"
  using zdiv_mono2 [of a 1 b] by (simp add: pos_imp_zdiv_nonneg_iff)

lemma WordS_quot_fits:
  fixes w1 w2 :: "'a::len word"
  assumes "w2 \<noteq> 0" "sfits LENGTH('a) (sint w1 sdiv sint w2)"
  shows "\<exists>q. WordS_quot w1 w2 = Some q \<and> sint q = sint w1 sdiv sint w2"
  using assms by (simp add: WordS_quot_def ret_signed_def c_signed_fits sint_word_of_int_fits)

lemma gt_div_iff:
  fixes a x y :: int
  assumes "0 < y"
  shows "a div y < x \<longleftrightarrow> a < x * y"
proof
  assume "a div y < x"
  then have "(a div y + 1) * y \<le> x * y"
    using assms by (intro mult_right_mono) auto
  then show "a < x * y"
    using div_mult_mod_eq [of a y] pos_mod_bound [OF assms, of a]
    unfolding distrib_right mult_1 by linarith
next
  assume lt: "a < x * y"
  show "a div y < x"
  proof (rule ccontr)
    assume "\<not> a div y < x"
    then have "x * y \<le> (a div y) * y" using assms by (intro mult_right_mono) auto
    then show False
      using lt div_mult_mod_eq [of a y] pos_mod_sign [OF assms, of a] by linarith
  qed
qed

section \<open>Overflow checks\<close>

lemma WordS_add_check:
  "WordS_addCheckOverflows x y = Some (\<not> sfits LENGTH('a) (sint (x :: 'a::len word) + sint y))"
  using sint_bounds [of x] sint_bounds [of y] WordS_max_min [where 'a = 'a]
  by (auto simp: WordS_addCheckOverflows_def c_signed_sfits sfits_iff)

lemma WordS_sub_check:
  "WordS_subCheckOverflows c x = Some (\<not> sfits LENGTH('a) (sint (c :: 'a::len word) - sint x))"
  using sint_bounds [of x] sint_bounds [of c] WordS_max_min [where 'a = 'a]
  by (auto simp: WordS_subCheckOverflows_def c_signed_sfits sfits_iff)

lemma WordS_sub_check_XC:
  "WordS_subCheckBodyXC x c = Some (\<not> sfits LENGTH('a) (sint (x :: 'a::len word) - sint c))"
  using sint_bounds [of x] sint_bounds [of c] WordS_max_min [where 'a = 'a]
  by (auto simp: WordS_subCheckBodyXC_def c_signed_sfits sfits_iff)

lemma WordU_add_check:
  "WordU_addCheckOverflows x y = Some (uint (x :: 'a::len word) + uint y > Word_max TYPE('a))"
  using uint_bounds [of x] uint_bounds [of y]
  by (auto simp: WordU_addCheckOverflows_def c_unsigned_fits)

lemma WordU_mul_check:
  fixes x y :: "'a::len word"
  shows "WordU_mulCheckOverflows x y = Some (uint x * uint y > Word_max TYPE('a))"
proof (cases "x = 0 \<or> y = 0")
  case True
  then have "\<not> uint x * uint y > Word_max TYPE('a)"
    using order_trans [OF uint_bounds(1) [of x] uint_bounds(2) [of x]] by auto
  with True show ?thesis by (simp add: WordU_mulCheckOverflows_def)
next
  case False
  then have pos: "0 < uint x" "0 < uint y"
    using uint_bounds [of x] uint_bounds [of y] by (auto simp: order_less_le uint_0_iff)
  have q: "0 \<le> Word_max TYPE('a) div uint y" "Word_max TYPE('a) div uint y \<le> Word_max TYPE('a)"
    using div_self_bounds [of "Word_max TYPE('a)" "uint y"] uint_bounds(2) [of y] pos by auto
  have "WordU_quot (word_of_int (Word_max TYPE('a)) :: 'a word) y =
      Some (word_of_int (Word_max TYPE('a) div uint y))"
    using False q by (simp add: WordU_quot_def ret_unsigned_def uint_const c_unsigned_fits)
  moreover have "uint (word_of_int (Word_max TYPE('a) div uint y) :: 'a word) = Word_max TYPE('a) div uint y"
    using q by (auto simp: uint_word_of_int word_consts)
  ultimately show ?thesis
    using False pos by (simp add: WordU_mulCheckOverflows_def gt_div_iff)
qed

lemma mul_check_bounds:
  fixes x y M :: int
  assumes "- M - 1 \<le> x" "x \<le> M" "- M - 1 \<le> y" "y \<le> M" "0 \<le> M"
  shows "0 < x \<Longrightarrow> 0 < y \<Longrightarrow> x > M sdiv y \<longleftrightarrow> \<not> x * y \<le> M"
    "0 < x \<Longrightarrow> y < 0 \<Longrightarrow> y < (- M - 1) sdiv x \<longleftrightarrow> \<not> - M - 1 \<le> x * y"
    "x < 0 \<Longrightarrow> 0 < y \<Longrightarrow> x < (- M - 1) sdiv y \<longleftrightarrow> \<not> - M - 1 \<le> x * y"
    "x < 0 \<Longrightarrow> y < 0 \<Longrightarrow> y < M sdiv x \<longleftrightarrow> \<not> x * y \<le> M"
  using gt_div_iff [of y M x] gt_div_iff [of x "1 + M" "- y"] gt_div_iff [of y "1 + M" "- x"]
    gt_div_iff [of "- x" M "- y"] assms
  by (auto simp: sdiv_pp sdiv_pn sdiv_np mult.commute)

lemma sdiv_max_fits:
  fixes M :: int
  assumes "0 \<le> M" "y \<noteq> 0"
  shows "- M - 1 \<le> M sdiv y \<and> M sdiv y \<le> M"
  using div_self_bounds [of M y] div_self_bounds [of M "- y"] assms
  by (cases "0 < y") (auto simp: sdiv_pp sdiv_pn)

lemma sdiv_min_fits:
  fixes M :: int
  assumes "0 \<le> M" "0 < y"
  shows "- M - 1 \<le> (- M - 1) sdiv y \<and> (- M - 1) sdiv y \<le> M"
  using div_self_bounds [of "1 + M" y] assms by (auto simp: sdiv_np)

lemma WordS_quot_max:
  fixes y :: "'a::len word"
  assumes "y \<noteq> 0"
  shows "\<exists>q. WordS_quot (word_of_int (WordS_max TYPE('a)) :: 'a word) y = Some q \<and>
    sint q = WordS_max TYPE('a) sdiv sint y"
proof -
  have "sfits LENGTH('a) (WordS_max TYPE('a) sdiv sint y)"
    using sdiv_max_fits [of "WordS_max TYPE('a)" "sint y"] WordS_max_min [where 'a = 'a] assms
    by (auto simp: sfits_iff sint_eq_0)
  then show ?thesis
    by (rule WordS_quot_fits [OF assms, of "word_of_int (WordS_max TYPE('a))", unfolded sint_const])
qed

lemma WordS_quot_min:
  fixes y :: "'a::len word"
  assumes "0 < sint y"
  shows "\<exists>q. WordS_quot (word_of_int (WordS_min TYPE('a)) :: 'a word) y = Some q \<and>
    sint q = WordS_min TYPE('a) sdiv sint y"
proof -
  have "y \<noteq> 0" using assms by auto
  moreover have "sfits LENGTH('a) (WordS_min TYPE('a) sdiv sint y)"
    using sdiv_min_fits [of "WordS_max TYPE('a)" "sint y"] WordS_max_min [where 'a = 'a] assms
    by (auto simp: sfits_iff)
  ultimately show ?thesis
    using WordS_quot_fits [of y "word_of_int (WordS_min TYPE('a))", unfolded sint_const] by blast
qed

lemma WordS_mul_check:
  fixes x y :: "'a::len word"
  shows "WordS_mulCheckOverflows x y = Some (\<not> sfits LENGTH('a) (sint x * sint y))"
proof -
  let ?M = "WordS_max TYPE('a)"
  note M = WordS_max_min [where 'a = 'a]
  have min: "WordS_min TYPE('a) = - ?M - 1" using M by simp
  have M0: "0 \<le> ?M" using M by simp
  have fits: "sfits LENGTH('a) v \<longleftrightarrow> - ?M - 1 \<le> v \<and> v \<le> ?M" for v
    by (simp only: sfits_iff min)
  have bnds: "- ?M - 1 \<le> sint x" "sint x \<le> ?M" "- ?M - 1 \<le> sint y" "sint y \<le> ?M"
    using sint_bounds [of x] sint_bounds [of y] M by auto
  consider "x = 0 \<or> y = 0" | "0 < sint x" "0 < sint y" | "0 < sint x" "sint y < 0"
    | "sint x < 0" "0 < sint y" | "sint x < 0" "sint y < 0"
    using sint_eq_0 [of x] sint_eq_0 [of y] by linarith
  then show ?thesis
  proof cases
    case 1
    then show ?thesis using M0 by (auto simp: WordS_mulCheckOverflows_def Let_def fits)
  next
    case 2
    then obtain q where "WordS_quot (word_of_int ?M :: 'a word) y = Some q" "sint q = ?M sdiv sint y"
      using 2 WordS_quot_max [of y] by (cases "y = 0") auto
    moreover have "- ?M - 1 \<le> sint x * sint y"
      using mult_nonneg_nonneg [of "sint x" "sint y"] 2 M0 by linarith
    ultimately show ?thesis using 2 mul_check_bounds(1) [OF bnds M0] M0
      by (auto simp: WordS_mulCheckOverflows_def Let_def fits)
  next
    case 3
    then obtain q where "WordS_quot (word_of_int (WordS_min TYPE('a)) :: 'a word) x = Some q"
        "sint q = (- ?M - 1) sdiv sint x"
      using 3 WordS_quot_min [of x] min by auto
    moreover have "sint x * sint y \<le> ?M"
      using mult_nonneg_nonpos [of "sint x" "sint y"] 3 M0 by linarith
    ultimately show ?thesis using 3 mul_check_bounds(2) [OF bnds M0] M0
      by (auto simp: WordS_mulCheckOverflows_def Let_def fits)
  next
    case 4
    then obtain q where "WordS_quot (word_of_int (WordS_min TYPE('a)) :: 'a word) y = Some q"
        "sint q = (- ?M - 1) sdiv sint y"
      using 4 WordS_quot_min [of y] min by auto
    moreover have "sint x * sint y \<le> ?M"
      using mult_nonpos_nonneg [of "sint x" "sint y"] 4 M0 by linarith
    ultimately show ?thesis using 4 mul_check_bounds(3) [OF bnds M0] M0
      by (auto simp: WordS_mulCheckOverflows_def Let_def fits)
  next
    case 5
    then obtain q where "WordS_quot (word_of_int ?M :: 'a word) x = Some q" "sint q = ?M sdiv sint x"
      using 5 WordS_quot_max [of x] by (cases "x = 0") auto
    moreover have "- ?M - 1 \<le> sint x * sint y"
      using mult_nonpos_nonpos [of "sint x" "sint y"] 5 M0 by linarith
    ultimately show ?thesis using 5 mul_check_bounds(4) [OF bnds M0] M0
      by (auto simp: WordS_mulCheckOverflows_def Let_def fits)
  qed
qed

lemma WordS_neg_check:
  "WordS_negCheckOverflows x \<longleftrightarrow> \<not> sfits LENGTH('a) (- sint (x :: 'a::len word))"
  using sint_bounds [of x] WordS_max_min [where 'a = 'a]
  by (auto simp: WordS_negCheckOverflows_def sfits_iff)

section \<open>Division\<close>

lemma sdiv_fits:
  fixes x y M :: int
  assumes "- M - 1 \<le> x" "x \<le> M" "0 \<le> M" "\<not> (x = - M - 1 \<and> y = -1)"
  shows "- M - 1 \<le> x sdiv y \<and> x sdiv y \<le> M"
proof -
  have r: "- \<bar>x\<bar> \<le> x sdiv y" "x sdiv y \<le> \<bar>x\<bar>"
    using sdiv_int_range [of x y] by auto
  have "x sdiv y \<noteq> M + 1"
  proof
    assume e: "x sdiv y = M + 1"
    then have "x = - M - 1" using r assms(1,2) by linarith
    then show False using e assms(3,4) int_sdiv_negated_is_minus1 [of x y] by auto
  qed
  then show ?thesis using r assms(1-3) by linarith
qed

lemma smod_fits:
  fixes x y M :: int
  assumes "- M - 1 \<le> y" "y \<le> M" "y \<noteq> 0"
  shows "- M - 1 \<le> x smod y \<and> x smod y \<le> M"
  using smod_int_range [of y x] assms by auto

lemma WordS_quot_rem_Some:
  fixes x y :: "'a::len word"
  assumes "y \<noteq> 0" "\<not> (sint x = WordS_min TYPE('a) \<and> sint y = -1)"
  shows "\<exists>q. WordS_quot x y = Some q \<and> sint q = sint x sdiv sint y"
    "\<exists>r. WordS_rem x y = Some r \<and> sint r = sint x smod sint y"
proof -
  let ?M = "WordS_max TYPE('a)"
  have fits: "sfits LENGTH('a) v \<longleftrightarrow> - ?M - 1 \<le> v \<and> v \<le> ?M" for v
    using WordS_max_min(1) [where 'a = 'a] by (auto simp: sfits_iff)
  have "0 \<le> ?M" using WordS_max_min [where 'a = 'a] by auto
  then have q: "sfits LENGTH('a) (sint x sdiv sint y)"
    using fits assms sdiv_fits [of ?M "sint x" "sint y"] sfits_sint [of x] WordS_max_min(1) [where 'a = 'a]
    by auto
  moreover have r: "sfits LENGTH('a) (sint x smod sint y)"
    using fits assms(1) smod_fits [of ?M "sint y" "sint x"] sfits_sint [of y] by (simp add: sint_eq_0)
  ultimately show "\<exists>q. WordS_quot x y = Some q \<and> sint q = sint x sdiv sint y"
    "\<exists>r. WordS_rem x y = Some r \<and> sint r = sint x smod sint y"
    using assms(1) by (simp_all add: WordS_quot_fits WordS_rem_def c_signed_fits sint_word_of_int_fits)
qed

section \<open>Rotations\<close>

lemma rol_count:
  assumes "LENGTH('a::len) \<le> 64" "unat (k :: u32) < LENGTH('a)"
  shows "unat (of_nat LENGTH('a) - k) = LENGTH('a) - unat k"
proof -
  have "unat (of_nat LENGTH('a) :: u32) = LENGTH('a)"
    using assms(1) by (simp add: unsigned_of_nat take_bit_nat_eq_self)
  with assms(2) show ?thesis by (simp add: unat_sub word_le_nat_alt)
qed

lemma bit_rotated:
  fixes w :: "'a::len word"
  assumes "0 < j" "j < LENGTH('a)"
  shows "drop_bit (LENGTH('a) - j) w OR push_bit j w = word_rotl j w"
proof (rule bit_word_eqI)
  fix n assume n: "n < LENGTH('a)"
  show "bit (drop_bit (LENGTH('a) - j) w OR push_bit j w) n = bit (word_rotl j w) n"
  proof (cases "n < j")
    case True
    then have "(n + (LENGTH('a) - j)) mod LENGTH('a) = LENGTH('a) - j + n"
      using assms by simp
    then show ?thesis using True assms n
      by (simp add: bit_word_rotl_iff bit_simps)
  next
    case False
    then have "n + LENGTH('a) - j = (n - j) + LENGTH('a)"
      using assms by simp
    then have "(n + LENGTH('a) - j) mod LENGTH('a) = n - j"
      using n by (simp del: add_diff_assoc add_diff_assoc2)
    then show ?thesis using False assms n bit_imp_le_length [of w "LENGTH('a) - j + n"]
      by (auto simp: bit_word_rotl_iff bit_simps)
  qed
qed

lemma Word_rol_rotl:
  assumes "LENGTH('a::len) \<le> 64" "0 < unat k" "unat k < LENGTH('a)"
  shows "Word_rol w k = Some (word_rotl (unat k) (w :: 'a word))"
  using assms bit_rotated [of "unat k" w]
  by (auto simp: Word_rol_def rol_count shift_ok_def promoted_def Let_def)

lemma Word_ror_rotl:
  assumes "LENGTH('a::len) \<le> 64" "0 < unat k" "unat k < LENGTH('a)"
  shows "Word_ror w k = Some (word_rotl (LENGTH('a) - unat k) (w :: 'a word))"
  using assms bit_rotated [of "LENGTH('a) - unat k" w]
  by (auto simp: Word_ror_def rol_count shift_ok_def promoted_def Let_def)

lemma rotl_rotl:
  assumes "0 < j" "j < LENGTH('a::len)"
  shows "word_rotl (LENGTH('a) - j) (word_rotl j w) = (w :: 'a word)"
proof (rule bit_word_eqI)
  fix n assume n: "n < LENGTH('a)"
  have "((n + j) mod LENGTH('a) + (LENGTH('a) - j)) mod LENGTH('a) =
      (n + j + (LENGTH('a) - j)) mod LENGTH('a)"
    by (rule mod_add_left_eq)
  also have "\<dots> = n" using assms n by simp
  finally have "((n + j) mod LENGTH('a) + LENGTH('a) - j) mod LENGTH('a) = n"
    using assms by simp
  then show "bit (word_rotl (LENGTH('a) - j) (word_rotl j w)) n = bit w n"
    using assms n by (simp add: bit_word_rotl_iff)
qed

section \<open>Misaligned 64-bit access\<close>

lemma bytes_of_halves:
  "bytes_of_word 8 (w :: u64) =
    bytes_of_word 4 (ucast w :: u32) @ bytes_of_word 4 (ucast (drop_bit 32 w) :: u32)"
  by (rule nth_equalityI)
     (auto simp: bytes_of_word_def nth_append bit_eq_iff bit_simps diff_mult_distrib2)

lemma store_bytes_append:
  "store_bytes m a (xs @ ys) = store_bytes (store_bytes m a xs) (a + of_nat (length xs)) ys"
  by (induction xs arbitrary: m a) (simp_all add: algebra_simps)

lemma Word64_store_store64: "Word64_store m p w = store64 m p w"
  by (simp add: Word64_store_def store32_def store64_def bytes_of_halves store_bytes_append Let_def)

lemma sub_32_div:
  fixes n :: nat
  assumes "32 \<le> n"
  shows "(n - 32) div 8 = n div 8 - 4" "(n - 32) mod 8 = n mod 8"
proof -
  obtain k where "n = k + 4 * 8" using assms le_Suc_ex [of 32 n] by (auto simp: add.commute)
  then show "(n - 32) div 8 = n div 8 - 4" "(n - 32) mod 8 = n mod 8"
    using mod_mult_self1 [of k 4 8] by simp_all
qed

lemma ucast_word_of_bytes:
  "length bs = 4 \<Longrightarrow> ucast (word_of_bytes bs :: u32) = (word_of_bytes bs :: u64)"
  by (rule bit_word_eqI) (auto simp: bit_word_of_bytes bit_simps)

lemma word_of_bytes_append:
  assumes "length xs = 4"
  shows "(word_of_bytes (xs @ ys) :: u64) =
    ucast (word_of_bytes xs :: u32) OR push_bit 32 (word_of_bytes ys)"
proof (rule bit_word_eqI)
  fix n :: nat
  assume n: "n < LENGTH(64)"
  show "bit (word_of_bytes (xs @ ys) :: u64) n =
    bit (ucast (word_of_bytes xs :: u32) OR push_bit 32 (word_of_bytes ys) :: u64) n"
  proof (cases "n < 32")
    case True
    then have "n div 8 < 4" by simp
    then show ?thesis using True n assms
      by (simp add: bit_word_of_bytes nth_append bit_or_iff bit_push_bit_iff bit_unsigned_iff)
  next
    case False
    then have d: "\<not> n div 8 < 4" "32 \<le> n" by auto
    from d(2) have l: "n - 32 < 8 * length ys \<longleftrightarrow> n < 32 + 8 * length ys" by linarith
    have "bit (word_of_bytes (xs @ ys) :: u64) n \<longleftrightarrow>
        n < 32 + 8 * length ys \<and> bit (ys ! (n div 8 - 4)) (n mod 8)"
      using d n assms by (simp add: bit_word_of_bytes nth_append)
    moreover have "bit (push_bit 32 (word_of_bytes ys) :: u64) n \<longleftrightarrow>
        n < 32 + 8 * length ys \<and> bit (ys ! (n div 8 - 4)) (n mod 8)"
      unfolding bit_push_bit_iff bit_word_of_bytes sub_32_div [OF d(2)] l using d n by auto
    moreover have "\<not> bit (ucast (word_of_bytes xs :: u32) :: u64) n"
      using False by (simp add: bit_unsigned_iff bit_word_of_bytes)
    ultimately show ?thesis by (simp only: bit_or_iff simp_thms)
  qed
qed

lemma load_bytes_halves:
  "load_bytes m a 8 = load_bytes m a 4 @ load_bytes m (a + 4) 4"
  by (simp add: load_bytes_def upt_rec algebra_simps)

lemma Word64_fetch_load64: "Word64_fetch m p = load64 m p"
  by (simp add: Word64_fetch_def load64_def load32_def load_bytes_halves word_of_bytes_append
      ucast_word_of_bytes)

section \<open>Properties\<close>

text \<open>On every pair of operands, the signed overflow checks of \<open>Word-check.h\<close> are
  free of undefined behaviour and answer exactly whether the mathematical result is out
  of range of the type.\<close>

theorem WordS_checks_exact:
  fixes x y :: "'a::len word"
  shows "WordS_addCheckOverflows x y = Some (\<not> sfits LENGTH('a) (sint x + sint y)) \<and>
    WordS_subCheckOverflows x y = Some (\<not> sfits LENGTH('a) (sint x - sint y)) \<and>
    WordS_subCheckBodyXC x y = Some (\<not> sfits LENGTH('a) (sint x - sint y)) \<and>
    WordS_mulCheckOverflows x y = Some (\<not> sfits LENGTH('a) (sint x * sint y)) \<and>
    (WordS_negCheckOverflows x \<longleftrightarrow> \<not> sfits LENGTH('a) (- sint x))"
  by (simp add: WordS_add_check WordS_sub_check WordS_sub_check_XC WordS_mul_check WordS_neg_check)

text \<open>The unsigned checks answer exactly whether the sum or the product exceeds
  the largest value of the type.\<close>

theorem WordU_checks_exact:
  fixes x y :: "'a::len word"
  shows "WordU_addCheckOverflows x y = Some (2 ^ LENGTH('a) \<le> uint x + uint y) \<and>
    WordU_mulCheckOverflows x y = Some (2 ^ LENGTH('a) \<le> uint x * uint y)"
  by (auto simp: WordU_add_check WordU_mul_check Word_max_def)

text \<open>Signed division is defined except for a zero divisor and for the smallest
  value divided by \<open>-1\<close>, and there truncates towards zero: quotient and remainder
  recompose the dividend, the remainder is smaller than the divisor and has the sign
  of the dividend.\<close>

theorem WordS_quot_rem_correct:
  fixes x y :: "'a::len word"
  assumes "y \<noteq> 0" "\<not> (sint x = WordS_min TYPE('a) \<and> sint y = -1)"
  shows "\<exists>q r. WordS_quot x y = Some q \<and> WordS_rem x y = Some r \<and>
    sint x = sint q * sint y + sint r \<and> \<bar>sint r\<bar> < \<bar>sint y\<bar> \<and> 0 \<le> sint x * sint r"
proof -
  obtain q r where "WordS_quot x y = Some q" "WordS_rem x y = Some r"
    and q: "sint q = sint x sdiv sint y" and r: "sint r = sint x smod sint y"
    using WordS_quot_rem_Some [OF assms] by blast
  moreover have "sint x = sint q * sint y + sint r"
    by (simp add: q r sdiv_mult_smod_eq)
  moreover have "\<bar>sint r\<bar> < \<bar>sint y\<bar>"
    using smod_int_range [of "sint y" "sint x"] assms(1) by (auto simp: r sint_eq_0)
  moreover have "0 \<le> sint x * sint r"
  proof -
    have "sint x * sint r = \<bar>sint x\<bar> * (\<bar>sint x\<bar> mod \<bar>sint y\<bar>)"
      unfolding r signed_modulo_int_def mult.assoc [symmetric] by (simp add: mult_sgn_abs abs_sgn)
    then show ?thesis using assms(1) by (simp add: sint_eq_0)
  qed
  ultimately show ?thesis by blast
qed

lemma WordS_quot_rem_correct_witness:
  "\<exists>q r. WordS_quot (-7 :: 32 word) 2 = Some q \<and> WordS_rem (-7 :: 32 word) 2 = Some r \<and>
    sint (-7 :: 32 word) = sint q * sint (2 :: 32 word) + sint r \<and>
    \<bar>sint r\<bar> < \<bar>sint (2 :: 32 word)\<bar> \<and> 0 \<le> sint (-7 :: 32 word) * sint r"
  by (rule WordS_quot_rem_correct) simp_all

text \<open>A rotation by a non-zero count below the size is the mathematical rotation,
  and \<open>ror\<close> undoes \<open>rol\<close>.\<close>

theorem Word_rol_ror_correct:
  fixes w :: "'a::len word"
  assumes "LENGTH('a) \<le> 64" "0 < unat k" "unat k < LENGTH('a)"
  shows "Word_rol w k = Some (word_rotl (unat k) w) \<and>
    Word_ror (word_rotl (unat k) w) k = Some w"
  using assms by (simp add: Word_rol_rotl Word_ror_rotl rotl_rotl)

lemma Word_rol_ror_correct_witness:
  "Word_rol (0x81 :: 8 word) 3 = Some (word_rotl (unat (3 :: u32)) 0x81) \<and>
    Word_ror (word_rotl (unat (3 :: u32)) (0x81 :: 8 word)) 3 = Some 0x81"
  by (rule Word_rol_ror_correct) simp_all

text \<open>A rotation by zero is undefined at sizes 32 and 64, where the other shift is
  by the full width, and the identity at sizes 8 and 16.\<close>

theorem Word_rol_zero:
  "Word_rol (w32 :: 32 word) 0 = None \<and> Word_ror w32 0 = None \<and>
   Word_rol (w64 :: 64 word) 0 = None \<and> Word_ror w64 0 = None \<and>
   Word_rol (w8 :: 8 word) 0 = Some w8 \<and> Word_ror w8 0 = Some w8 \<and>
   Word_rol (w16 :: 16 word) 0 = Some w16 \<and> Word_ror w16 0 = Some w16"
proof -
  have "drop_bit 8 w8 = 0" "push_bit 8 w8 = 0" "drop_bit 16 w16 = 0" "push_bit 16 w16 = 0"
    by (simp_all add: bit_eq_iff bit_simps)
  then show ?thesis
    by (simp add: Word_rol_def Word_ror_def shift_ok_def promoted_def Let_def)
qed

text \<open>The misaligned 64-bit accesses, done as two 32-bit halves, are the ordinary
  little-endian 64-bit accesses, so a \<open>move\<close> makes the destination read what the
  source read.\<close>

theorem Word64_misaligned_correct:
  "Word64_fetch m p = load64 m p \<and> Word64_store m p w = store64 m p w \<and>
    Word64_fetch (Word64_move m dst src) dst = Word64_fetch m src"
  by (simp add: Word64_fetch_load64 Word64_store_store64 Word64_move_def Let_def)

end
