(* ===== verification/To_String.thy ===== *)
theory To_String
  imports Prelude
begin

text \<open>
  Decimal formatting with thousands separators: \<open>util/to-string.c\<close>. Each formatter
  owns five static buffers of \<open>BUF_SIZE\<close> characters and cycles through them; it
  fills a buffer from its right end, with an index that the C code never checks.
  A write outside the buffer is \<open>None\<close>, so a result \<open>Some\<close> says the index
  stayed inside.
\<close>

section \<open>Buffers\<close>

definition BUF_SIZE :: int where
  "BUF_SIZE = 81"

record comma_state =
  bufs :: "char list list"
  bufIndex :: nat

definition comma_init :: comma_state where
  "comma_init = \<lparr> bufs = replicate 5 (replicate (nat BUF_SIZE) (CHR 0x00)), bufIndex = 0 \<rparr>"

definition boolToString :: "bool \<Rightarrow> string" where
  "boolToString b = (if b then ''TRUE'' else ''FALSE'')"

definition buf_put :: "char list \<Rightarrow> int \<Rightarrow> char \<Rightarrow> char list option" where
  "buf_put buf i c = (if 0 \<le> i \<and> i < int (length buf) then Some (buf[nat i := c]) else None)"

text \<open>\<open>buf[i--] = c\<close>\<close>

definition push_left :: "char \<Rightarrow> char list \<times> int \<Rightarrow> (char list \<times> int) option" where
  "push_left c bi = map_option (\<lambda>buf. (buf, snd bi - 1)) (buf_put (fst bi) (snd bi) c)"

definition digit :: "nat \<Rightarrow> char" where
  "digit d = char_of (d + of_char CHR ''0'')"

section \<open>The formatters\<close>

function comma_loop :: "nat \<Rightarrow> char list \<times> int \<Rightarrow> (char list \<times> int) option" where
  "comma_loop m bi =
    (if m > 0 then
       Option.bind (push_left (digit (m mod 10)) bi) (\<lambda>bi.
         let m = m div 10 in
         if snd bi mod 4 = 0 \<and> m > 0
         then Option.bind (push_left (CHR '','') bi) (comma_loop m)
         else comma_loop m bi)
     else Some bi)"
  by pat_completeness auto
termination by (relation "measure fst") auto

declare comma_loop.simps [simp del]

text \<open>\<open>strncpy (buf + o, s, strlen (s) + 1)\<close>\<close>

fun put_string :: "char list \<Rightarrow> int \<Rightarrow> string \<Rightarrow> char list option" where
  "put_string buf i [] = buf_put buf i (CHR 0x00)"
| "put_string buf i (c # cs) = Option.bind (buf_put buf i c) (\<lambda>buf. put_string buf (i + 1) cs)"

definition INTMAX_MIN_text :: string where
  "INTMAX_MIN_text = ''-9,223,372,036,854,775,808''"

text \<open>The result is the number of the buffer and the offset of the text in it.\<close>

definition uintmaxToCommaString :: "64 word \<Rightarrow> comma_state \<Rightarrow> ((nat \<times> nat) \<times> comma_state) option" where
  "uintmaxToCommaString n s =
    (let k = bufIndex s; buf = bufs s ! k; i = BUF_SIZE - 1 in
     Option.bind (push_left (CHR 0x00) (buf, i)) (\<lambda>bi.
     Option.bind (if unat n = 0 then push_left (CHR ''0'') bi else comma_loop (unat n) bi) (\<lambda>(buf, i).
     Some ((k, nat (i + 1)), \<lparr> bufs = (bufs s)[k := buf], bufIndex = (k + 1) mod 5 \<rparr>))))"

text \<open>The three branches of \<open>intmaxToCommaString\<close> that fill the buffer; the smallest
  value has its text in the code because it cannot be negated.\<close>

definition intmax_body :: "int \<Rightarrow> char list \<times> int \<Rightarrow> (char list \<times> int) option" where
  "intmax_body n bi =
    (if n = 0 then push_left (CHR ''0'') bi
     else if n = - (2 ^ 63) then
       map_option (\<lambda>buf. (buf, 0)) (put_string (fst bi) 1 INTMAX_MIN_text)
     else
       (let m = if n > 0 then n else - n in
        Option.bind (comma_loop (nat m) bi) (\<lambda>bi.
        if n < 0 then push_left (CHR ''-'') bi else Some bi)))"

definition intmaxToCommaString :: "64 word \<Rightarrow> comma_state \<Rightarrow> ((nat \<times> nat) \<times> comma_state) option" where
  "intmaxToCommaString n s =
    (let k = bufIndex s; buf = bufs s ! k; i = BUF_SIZE - 1 in
     Option.bind (push_left (CHR 0x00) (buf, i)) (\<lambda>bi.
     Option.bind (intmax_body (sint n) bi) (\<lambda>(buf, i).
     Some ((k, nat (i + 1)), \<lparr> bufs = (bufs s)[k := buf], bufIndex = (k + 1) mod 5 \<rparr>))))"

section \<open>What a reader of the result sees\<close>

definition c_string :: "char list \<Rightarrow> string" where
  "c_string cs = takeWhile (\<lambda>c. c \<noteq> CHR 0x00) cs"

definition text_at :: "comma_state \<Rightarrow> nat \<times> nat \<Rightarrow> string" where
  "text_at s p = c_string (drop (snd p) (bufs s ! fst p))"

definition comma_wf :: "comma_state \<Rightarrow> bool" where
  "comma_wf s \<longleftrightarrow> bufIndex s < 5 \<and> length (bufs s) = 5 \<and>
    (\<forall>b \<in> set (bufs s). length b = nat BUF_SIZE)"

section \<open>The decimal notation\<close>

fun decimal :: "nat \<Rightarrow> string" where
  "decimal n = (if n < 10 then [digit n] else decimal (n div 10) @ [digit (n mod 10)])"

declare decimal.simps [simp del]

definition group3 :: "nat \<Rightarrow> string" where
  "group3 k = [digit (k div 100), digit (k div 10 mod 10), digit (k mod 10)]"

fun with_commas :: "nat \<Rightarrow> string" where
  "with_commas n =
    (if n < 1000 then decimal n else with_commas (n div 1000) @ '','' @ group3 (n mod 1000))"

declare with_commas.simps [simp del]

definition signed_commas :: "int \<Rightarrow> string" where
  "signed_commas v = (if v < 0 then ''-'' @ with_commas (nat (- v)) else with_commas (nat v))"

section \<open>Writing from the right\<close>

text \<open>\<open>shows_text bi n t\<close>: the buffer has length \<open>n\<close> and holds the text \<open>t\<close> from the
  position right of the index on.\<close>

definition shows_text :: "char list \<times> int \<Rightarrow> nat \<Rightarrow> string \<Rightarrow> bool" where
  "shows_text bi n t \<longleftrightarrow> length (fst bi) = n \<and> -1 \<le> snd bi \<and> snd bi < int n \<and>
    drop (nat (snd bi + 1)) (fst bi) = t"

lemma push_left_shows:
  assumes "shows_text bi n t" "0 \<le> snd bi"
  shows "\<exists>bi'. push_left c bi = Some bi' \<and> snd bi' = snd bi - 1 \<and> shows_text bi' n (c # t)"
proof -
  let ?i = "nat (snd bi)"
  have i: "?i < length (fst bi)" "snd bi = int ?i"
    using assms by (auto simp: shows_text_def)
  then have "drop ?i ((fst bi)[?i := c]) = c # drop (Suc ?i) (fst bi)"
    by (simp add: Cons_nth_drop_Suc [symmetric])
  moreover have "nat (snd bi + 1) = Suc ?i" using assms(2) by linarith
  ultimately show ?thesis
    using assms i by (auto simp: push_left_def buf_put_def shows_text_def)
qed

lemma comma_loop_digit:
  assumes "0 < m" "shows_text bi n t" "0 \<le> snd bi" "(snd bi - 1) mod 4 \<noteq> 0 \<or> m div 10 = 0"
  shows "\<exists>bi'. comma_loop m bi = comma_loop (m div 10) bi' \<and> snd bi' = snd bi - 1 \<and>
    shows_text bi' n (digit (m mod 10) # t)"
  using push_left_shows [OF assms(2,3), of "digit (m mod 10)"] assms(1,4)
  by (subst comma_loop.simps) (auto simp: Let_def)

lemma comma_loop_comma:
  assumes "0 < m div 10" "shows_text bi n t" "1 \<le> snd bi" "(snd bi - 1) mod 4 = 0"
  shows "\<exists>bi'. comma_loop m bi = comma_loop (m div 10) bi' \<and> snd bi' = snd bi - 2 \<and>
    shows_text bi' n (CHR '','' # digit (m mod 10) # t)"
proof -
  obtain bi1 where 1: "push_left (digit (m mod 10)) bi = Some bi1" "snd bi1 = snd bi - 1"
      "shows_text bi1 n (digit (m mod 10) # t)"
    using push_left_shows [OF assms(2)] assms(3) by force
  obtain bi2 where 2: "push_left (CHR '','') bi1 = Some bi2" "snd bi2 = snd bi1 - 1"
      "shows_text bi2 n (CHR '','' # digit (m mod 10) # t)"
    using push_left_shows [OF 1(3)] 1(2) assms(3) by force
  have "0 < m" using assms(1) by (metis div_0 not_gr_zero)
  then have "comma_loop m bi = comma_loop (m div 10) bi2"
    using 1 2 assms(1,4) by (subst comma_loop.simps) (simp add: Let_def)
  with 2 1 show ?thesis by (intro exI [of _ bi2]) simp
qed

lemma comma_loop_0: "comma_loop 0 bi = Some bi"
  by (simp add: comma_loop.simps)

lemma digits_of_group:
  fixes m :: nat
  shows "m mod 1000 div 100 = m div 10 div 10 mod 10" "m mod 1000 div 10 mod 10 = m div 10 mod 10"
    "m mod 1000 mod 10 = m mod 10"
proof -
  have "m mod 1000 = 100 * (m div 100 mod 10) + m mod 100"
    using mod_mult2_eq [of m 100 10] by simp
  then show "m mod 1000 div 100 = m div 10 div 10 mod 10" by (simp add: div_mult2_eq [symmetric])
  have "m mod 1000 = 10 * (m div 10 mod 100) + m mod 10"
    using mod_mult2_eq [of m 10 100] by simp
  then have "m mod 1000 div 10 = m div 10 mod 100" by simp
  then show "m mod 1000 div 10 mod 10 = m div 10 mod 10"
    using mod_mod_cancel [of 10 100 "m div 10"] by simp
  show "m mod 1000 mod 10 = m mod 10"
    using mod_mod_cancel [of 10 1000 m] by simp
qed

text \<open>One group of three digits, the separator included.\<close>

lemma comma_loop_group:
  assumes "1000 \<le> m" "shows_text bi n t" "3 \<le> snd bi" "snd bi mod 4 = 3"
  shows "\<exists>bi'. comma_loop m bi = comma_loop (m div 1000) bi' \<and> snd bi' = snd bi - 4 \<and>
    shows_text bi' n ('','' @ group3 (m mod 1000) @ t)"
proof -
  have md: "(snd bi - 1) mod 4 = 2" "(snd bi - 1 - 1) mod 4 = 1" "(snd bi - 1 - 1 - 1) mod 4 = 0"
    using assms(4) by presburger+
  obtain b1 where 1: "comma_loop m bi = comma_loop (m div 10) b1" "snd b1 = snd bi - 1"
      "shows_text b1 n (digit (m mod 10) # t)"
    using comma_loop_digit [OF _ assms(2), of m] assms md by force
  obtain b2 where 2: "comma_loop (m div 10) b1 = comma_loop (m div 10 div 10) b2" "snd b2 = snd b1 - 1"
      "shows_text b2 n (digit (m div 10 mod 10) # digit (m mod 10) # t)"
    using comma_loop_digit [OF _ 1(3), of "m div 10"] 1(2) assms md by force
  have d3: "m div 10 div 10 div 10 = m div 1000" by (simp add: div_mult2_eq [symmetric])
  have "0 < m div 1000" using assms(1) by (simp add: div_greater_zero_iff)
  then have d0: "0 < m div 10 div 10 div 10" by (simp only: d3)
  have i2: "1 \<le> snd b2" "(snd b2 - 1) mod 4 = 0" using 1(2) 2(2) assms(3) md(3) by simp_all
  obtain b3 where 3: "comma_loop (m div 10 div 10) b2 = comma_loop (m div 1000) b3"
      "snd b3 = snd b2 - 2"
      "shows_text b3 n (CHR '','' # digit (m div 10 div 10 mod 10) # digit (m div 10 mod 10) # digit (m mod 10) # t)"
    using comma_loop_comma [OF d0 2(3) i2, unfolded d3] by blast
  have d: "m mod 1000 div 100 = m div 10 div 10 mod 10" "m mod 1000 div 10 mod 10 = m div 10 mod 10"
      "m mod 1000 mod 10 = m mod 10"
    by (rule digits_of_group)+
  show ?thesis
    using 1 2 3 by (intro exI [of _ b3]) (simp add: group3_def d)
qed

lemma comma_loop_last:
  assumes "0 < m" "m < 1000" "shows_text bi n t" "snd bi mod 4 = 3" "int (length (decimal m)) \<le> snd bi + 1"
  shows "\<exists>bi'. comma_loop m bi = Some bi' \<and> shows_text bi' n (decimal m @ t) \<and>
    snd bi' = snd bi - int (length (decimal m))"
proof -
  have md: "(snd bi - 1) mod 4 = 2" "(snd bi - 1 - 1) mod 4 = 1" "(snd bi - 1 - 1 - 1) mod 4 = 0"
    using assms(4) by presburger+
  have i0: "0 \<le> snd bi" using assms(5) by (subst (asm) decimal.simps) (auto split: if_splits)
  obtain b1 where 1: "comma_loop m bi = comma_loop (m div 10) b1" "snd b1 = snd bi - 1"
      "shows_text b1 n (digit (m mod 10) # t)"
    using comma_loop_digit [OF assms(1) assms(3)] i0 md by force
  show ?thesis
  proof (cases "m < 10")
    case True
    then show ?thesis using 1 by (simp add: comma_loop_0 decimal.simps [of m])
  next
    case False
    then have 10: "0 < m div 10" "m div 10 < 100" using assms(2) by auto
    have l2: "int (length (decimal (m div 10))) \<le> snd b1 + 1"
      using assms(5) False 1(2) by (simp add: decimal.simps [of m])
    then have "0 \<le> snd b1" by (subst (asm) decimal.simps) (auto split: if_splits)
    then obtain b2 where 2: "comma_loop (m div 10) b1 = comma_loop (m div 10 div 10) b2"
        "snd b2 = snd b1 - 1" "shows_text b2 n (digit (m div 10 mod 10) # digit (m mod 10) # t)"
      using comma_loop_digit [OF 10(1) 1(3)] 1(2) md by force
    show ?thesis
    proof (cases "m < 100")
      case True
      then have "m div 10 < 10" by simp
      then show ?thesis using 1 2 False
        by (simp add: comma_loop_0 decimal.simps [of m] decimal.simps [of "m div 10"])
    next
      case ge: False
      then have 100: "0 < m div 10 div 10" "m div 10 div 10 div 10 = 0" "m div 10 div 10 < 10"
        "\<not> m div 10 < 10"
        using assms(2) by auto
      have "0 \<le> snd b2"
        using l2 100 2(2) by (simp add: decimal.simps [of "m div 10"] decimal.simps [of "m div 10 div 10"])
      then obtain b3 where "comma_loop (m div 10 div 10) b2 = Some b3" "snd b3 = snd b2 - 1"
          "shows_text b3 n (digit (m div 10 div 10) # digit (m div 10 mod 10) # digit (m mod 10) # t)"
        using comma_loop_digit [OF 100(1) 2(3)] 100 by (force simp: comma_loop_0)
      then show ?thesis using 1 2 False 100
        by (simp add: decimal.simps [of m] decimal.simps [of "m div 10"] decimal.simps [of "m div 10 div 10"])
    qed
  qed
qed

lemma comma_loop_shows:
  assumes "0 < m" "shows_text bi n t" "snd bi mod 4 = 3" "int (length (with_commas m)) \<le> snd bi + 1"
  shows "\<exists>bi'. comma_loop m bi = Some bi' \<and> shows_text bi' n (with_commas m @ t) \<and>
    snd bi' = snd bi - int (length (with_commas m))"
  using assms
proof (induction m arbitrary: bi t rule: with_commas.induct)
  case (1 m)
  show ?case
  proof (cases "m < 1000")
    case True
    then show ?thesis using comma_loop_last [of m bi n t] 1 by (simp add: with_commas.simps [of m])
  next
    case False
    have l: "length (with_commas m) = length (with_commas (m div 1000)) + 4"
      using False by (simp add: with_commas.simps [of m] group3_def)
    then obtain b where b: "comma_loop m bi = comma_loop (m div 1000) b" "snd b = snd bi - 4"
        "shows_text b n ('','' @ group3 (m mod 1000) @ t)"
      using comma_loop_group [OF _ 1(3), of m] False 1(4,5) by auto
    have "snd b mod 4 = 3" using b(2) 1(4) by presburger
    moreover have "0 < m div 1000" using False by (simp add: div_greater_zero_iff)
    moreover have "int (length (with_commas (m div 1000))) \<le> snd b + 1" using b(2) 1(5) l by simp
    ultimately obtain b' where "comma_loop (m div 1000) b = Some b'"
        "shows_text b' n (with_commas (m div 1000) @ '','' @ group3 (m mod 1000) @ t)"
        "snd b' = snd b - int (length (with_commas (m div 1000)))"
      using 1(1) [OF False _ b(3)] by blast
    then show ?thesis
      using False b(1,2) l by (intro exI [of _ b']) (simp add: with_commas.simps [of m])
  qed
qed

section \<open>Lengths and characters of the notation\<close>

lemma length_decimal: "n < 1000 \<Longrightarrow> length (decimal n) \<le> 3"
  by (subst decimal.simps, subst decimal.simps, subst decimal.simps) auto

lemma length_with_commas: "n < 1000 ^ k \<Longrightarrow> 0 < k \<Longrightarrow> length (with_commas n) + 1 \<le> 4 * k"
proof (induction k arbitrary: n)
  case (Suc k)
  show ?case
  proof (cases "n < 1000")
    case True
    then show ?thesis using length_decimal by (subst with_commas.simps) (fastforce)
  next
    case False
    then have "0 < k" using Suc.prems by (cases k) auto
    moreover have "n div 1000 < 1000 ^ k"
      using Suc.prems(1) by (simp add: div_less_iff_less_mult mult.commute)
    ultimately show ?thesis
      using Suc.IH [of "n div 1000"] False by (subst with_commas.simps) (simp add: group3_def)
  qed
qed simp

lemma length_with_commas_64: "n \<le> 2 ^ 64 \<Longrightarrow> length (with_commas n) \<le> 27"
  using length_with_commas [of n 7] by simp

lemma digit_not_nul: "d < 10 \<Longrightarrow> digit d \<noteq> CHR 0x00"
proof
  assume "d < 10" "digit d = CHR 0x00"
  then have "of_char (digit d) = (0 :: nat)" by simp
  with \<open>d < 10\<close> show False by (simp add: digit_def)
qed

lemma decimal_not_nul: "CHR 0x00 \<notin> set (decimal n)"
  using digit_not_nul
  by (induction n rule: decimal.induct) (subst decimal.simps, auto simp: eq_commute [of "CHR 0x00"])

lemma with_commas_not_nul: "CHR 0x00 \<notin> set (with_commas n)"
proof (induction n rule: with_commas.induct)
  case (1 n)
  have "CHR 0x00 \<notin> set (group3 (n mod 1000))"
    using digit_not_nul by (auto simp: group3_def eq_commute [of "CHR 0x00"] div_less_iff_less_mult)
  then show ?case using 1 decimal_not_nul by (subst with_commas.simps) auto
qed

lemma with_commas_0: "with_commas 0 = ''0''"
  by (simp add: with_commas.simps decimal.simps digit_def char_of_eq_iff)

lemma c_string_text: "CHR 0x00 \<notin> set t \<Longrightarrow> c_string (t @ CHR 0x00 # r) = t"
  by (induction t) (auto simp: c_string_def)

section \<open>The formatters write the notation\<close>

lemma start_shows:
  assumes "comma_wf s"
  shows "\<exists>bi. push_left (CHR 0x00) (bufs s ! bufIndex s, BUF_SIZE - 1) = Some bi \<and>
    snd bi = 79 \<and> shows_text bi 81 [CHR 0x00]"
proof -
  have "length (bufs s ! bufIndex s) = 81"
    using assms by (simp add: comma_wf_def BUF_SIZE_def)
  then have "shows_text (bufs s ! bufIndex s, 80) 81 []"
    by (simp add: shows_text_def)
  from push_left_shows [OF this] show ?thesis by (auto simp: BUF_SIZE_def)
qed

lemma finish_text:
  assumes "comma_wf s" "shows_text bi 81 (t @ CHR 0x00 # r)" "CHR 0x00 \<notin> set t"
  shows "text_at \<lparr> bufs = (bufs s)[bufIndex s := fst bi], bufIndex = j \<rparr>
      (bufIndex s, nat (snd bi + 1)) = t"
  using assms c_string_text [of t r] by (simp add: text_at_def comma_wf_def shows_text_def)

lemma finish_wf:
  assumes "comma_wf s" "shows_text bi 81 t" "j < 5"
  shows "comma_wf \<lparr> bufs = (bufs s)[bufIndex s := fst bi], bufIndex = j \<rparr>"
  using assms by (auto simp: comma_wf_def shows_text_def BUF_SIZE_def dest!: set_update_subset_insert [THEN subsetD])

lemma comma_loop_79:
  assumes "0 < m" "m \<le> 2 ^ 64" "snd bi = 79" "shows_text bi 81 t"
  shows "\<exists>bi'. comma_loop m bi = Some bi' \<and> shows_text bi' 81 (with_commas m @ t) \<and> 52 \<le> snd bi'"
proof -
  have "length (with_commas m) \<le> 27" using assms(2) by (rule length_with_commas_64)
  then show ?thesis
    using comma_loop_shows [OF assms(1,4)] assms(3) by force
qed

lemma put_string_drop:
  "i + length t < length buf \<Longrightarrow> \<exists>b. put_string buf (int i) t = Some b \<and> length b = length buf \<and>
    take i b = take i buf \<and> drop i b = t @ CHR 0x00 # drop (i + length t + 1) buf"
proof (induction t arbitrary: buf i)
  case Nil
  then show ?case by (simp add: buf_put_def Cons_nth_drop_Suc [symmetric])
next
  case (Cons c t)
  have "Suc i + length t < length (buf[i := c])" using Cons.prems by simp
  from Cons.IH [OF this] obtain b where b: "put_string (buf[i := c]) (int (Suc i)) t = Some b"
      "length b = length buf" "take (Suc i) b = take (Suc i) (buf[i := c])"
      "drop (Suc i) b = t @ CHR 0x00 # drop (Suc i + length t + 1) (buf[i := c])"
    by auto
  have "take i b = take i buf"
    using arg_cong [OF b(3), of "take i"] by (simp add: min_def)
  moreover have "b ! i = c"
    using arg_cong [OF b(3), of "\<lambda>l. l ! i"] Cons.prems by simp
  then have "drop i b = c # drop (Suc i) b"
    using b(2) Cons.prems by (metis Cons_nth_drop_Suc add_lessD1)
  ultimately show ?case
    using b Cons.prems by (simp add: buf_put_def add.commute)
qed

lemma put_string_shows:
  assumes "length buf = 81"
  shows "\<exists>b r. put_string buf 1 INTMAX_MIN_text = Some b \<and>
    shows_text (b, 0) 81 (INTMAX_MIN_text @ CHR 0x00 # r)"
  using put_string_drop [of 1 INTMAX_MIN_text buf] assms
  by (auto simp: INTMAX_MIN_text_def shows_text_def)

lemma signed_commas_min: "signed_commas (- (2 ^ 63)) = INTMAX_MIN_text"
  by (simp add: signed_commas_def with_commas.simps decimal.simps group3_def digit_def char_of_eq_iff
      INTMAX_MIN_text_def)

lemma zero_79:
  assumes "snd bi = 79" "shows_text bi 81 t"
  shows "\<exists>b. push_left (CHR ''0'') bi = Some b \<and> shows_text b 81 (with_commas 0 @ t)"
  using push_left_shows [OF assms(2), of "CHR ''0''"] assms(1) unfolding with_commas_0 by auto

lemma uintmax_formats:
  assumes "comma_wf s"
  shows "\<exists>p s'. uintmaxToCommaString n s = Some (p, s') \<and> fst p = bufIndex s \<and>
    bufIndex s' = (bufIndex s + 1) mod 5 \<and> (\<forall>k. k \<noteq> fst p \<longrightarrow> bufs s' ! k = bufs s ! k) \<and>
    comma_wf s' \<and> text_at s' p = with_commas (unat n)"
proof -
  obtain bi where bi: "push_left (CHR 0x00) (bufs s ! bufIndex s, BUF_SIZE - 1) = Some bi"
      "snd bi = 79" "shows_text bi 81 [CHR 0x00]"
    using start_shows [OF assms] by blast
  have "\<exists>b. (if unat n = 0 then push_left (CHR ''0'') bi else comma_loop (unat n) bi) = Some b \<and>
      shows_text b 81 (with_commas (unat n) @ [CHR 0x00])"
    using zero_79 [OF bi(2,3)] comma_loop_79 [of "unat n", OF _ _ bi(2,3)]
      unsigned_less [of n, where ?'a = nat]
    by (cases "unat n = 0") (simp_all, blast)
  then obtain b where b: "(if unat n = 0 then push_left (CHR ''0'') bi else comma_loop (unat n) bi) = Some b"
      "shows_text b 81 (with_commas (unat n) @ [CHR 0x00])" by blast
  show ?thesis
    using bi(1) b finish_text [OF assms b(2) with_commas_not_nul] finish_wf [OF assms b(2)]
    by (cases b) (simp add: uintmaxToCommaString_def Let_def)
qed

lemma intmax_formats:
  assumes "comma_wf s"
  shows "\<exists>p s'. intmaxToCommaString n s = Some (p, s') \<and> fst p = bufIndex s \<and>
    bufIndex s' = (bufIndex s + 1) mod 5 \<and> (\<forall>k. k \<noteq> fst p \<longrightarrow> bufs s' ! k = bufs s ! k) \<and>
    comma_wf s' \<and> text_at s' p = signed_commas (sint n)"
proof -
  obtain bi where bi: "push_left (CHR 0x00) (bufs s ! bufIndex s, BUF_SIZE - 1) = Some bi"
      "snd bi = 79" "shows_text bi 81 [CHR 0x00]"
    using start_shows [OF assms] by blast
  let ?v = "sint n"
  have rng: "- (2 ^ 63) \<le> ?v" "?v < 2 ^ 63" using sfits_sint [of n] by (simp_all add: sfits_def)
  have body: "\<exists>b r. intmax_body ?v bi = Some b \<and> shows_text b 81 (signed_commas ?v @ CHR 0x00 # r)"
  proof -
    consider "?v = 0" | "?v = - (2 ^ 63)" | "0 < ?v" | "?v < 0" "?v \<noteq> - (2 ^ 63)" by linarith
    then show ?thesis
    proof cases
      case 1
      then show ?thesis using zero_79 [OF bi(2,3)] by (auto simp: signed_commas_def intmax_body_def)
    next
      case 2
      have "length (fst bi) = 81" using bi(3) by (simp add: shows_text_def)
      from put_string_shows [OF this] show ?thesis
        using 2 signed_commas_min by (auto simp: intmax_body_def)
    next
      case 3
      then have "0 < nat ?v" "nat ?v \<le> 2 ^ 64" using rng by auto
      from comma_loop_79 [OF this bi(2,3)] show ?thesis using 3 by (auto simp: signed_commas_def intmax_body_def)
    next
      case 4
      then have "0 < nat (- ?v)" "nat (- ?v) \<le> 2 ^ 64" using rng by auto
      from comma_loop_79 [OF this bi(2,3)] obtain b where b: "comma_loop (nat (- ?v)) bi = Some b"
          "shows_text b 81 (with_commas (nat (- ?v)) @ [CHR 0x00])" "52 \<le> snd b" by blast
      from push_left_shows [OF b(2), of "CHR ''-''"] b(3) obtain b' where
          "push_left (CHR ''-'') b = Some b'"
          "shows_text b' 81 (CHR ''-'' # with_commas (nat (- ?v)) @ [CHR 0x00])" by auto
      then show ?thesis using 4 b(1) by (auto simp: signed_commas_def intmax_body_def)
    qed
  qed
  then obtain b r where b: "intmax_body ?v bi = Some b" "shows_text b 81 (signed_commas ?v @ CHR 0x00 # r)"
    by blast
  have nul: "CHR 0x00 \<notin> set (signed_commas ?v)"
    using with_commas_not_nul by (simp add: signed_commas_def)
  show ?thesis
    using bi(1) b(1) finish_text [OF assms b(2) nul] finish_wf [OF assms b(2)]
    by (cases b) (simp add: intmaxToCommaString_def Let_def)
qed

text \<open>A sequence of calls.\<close>

fun uintmax_calls :: "64 word list \<Rightarrow> comma_state \<Rightarrow> comma_state option" where
  "uintmax_calls [] s = Some s"
| "uintmax_calls (n # ns) s = Option.bind (uintmaxToCommaString n s) (\<lambda>(p, s). uintmax_calls ns s)"

lemma cycle_distance:
  fixes i k :: nat
  assumes "i < 5" "k < 5" "k \<noteq> i"
  shows "(k + 5 - (i + 1) mod 5) mod 5 = (k + 5 - i) mod 5 - 1"
proof -
  have "i \<in> {0, 1, 2, 3, 4}" "k \<in> {0, 1, 2, 3, 4}" using assms by auto
  then show ?thesis using assms(3) by (elim insertE emptyE; simp)
qed

lemma calls_keep:
  assumes "comma_wf s" "k < 5" "(k + 5 - bufIndex s) mod 5 \<ge> length ns"
  shows "\<exists>s'. uintmax_calls ns s = Some s' \<and> bufs s' ! k = bufs s ! k"
  using assms
proof (induction ns arbitrary: s)
  case (Cons n ns)
  obtain p s1 where 1: "uintmaxToCommaString n s = Some (p, s1)" "fst p = bufIndex s"
      "bufIndex s1 = (bufIndex s + 1) mod 5" "\<forall>k. k \<noteq> fst p \<longrightarrow> bufs s1 ! k = bufs s ! k" "comma_wf s1"
    using uintmax_formats [OF Cons.prems(1), of n] by blast
  have i5: "bufIndex s < 5" using Cons.prems(1) by (simp add: comma_wf_def)
  have ne: "k \<noteq> bufIndex s" using Cons.prems(3) by auto
  have "(k + 5 - bufIndex s1) mod 5 = (k + 5 - bufIndex s) mod 5 - 1"
    unfolding 1(3) by (rule cycle_distance [OF i5 Cons.prems(2) ne])
  then have "length ns \<le> (k + 5 - bufIndex s1) mod 5"
    using Cons.prems(3) by (cases "(k + 5 - bufIndex s) mod 5") auto
  from Cons.IH [OF 1(5) Cons.prems(2) this] show ?case using 1 ne by auto
qed simp

lemma comma_init_wf: "comma_wf comma_init"
  by (simp add: comma_wf_def comma_init_def BUF_SIZE_def)

section \<open>Properties\<close>

text \<open>Both formatters stay inside their 81-character buffer for every argument
  and return the decimal notation with a comma between groups of three digits and a
  minus sign for a negative argument, the smallest one included.\<close>

theorem CommaString_correct:
  assumes "comma_wf s"
  shows "(\<exists>p s'. uintmaxToCommaString n s = Some (p, s') \<and> comma_wf s' \<and>
      text_at s' p = with_commas (unat n)) \<and>
    (\<exists>p s'. intmaxToCommaString n s = Some (p, s') \<and> comma_wf s' \<and>
      text_at s' p = signed_commas (sint n))"
  using uintmax_formats [OF assms, of n] intmax_formats [OF assms, of n] by blast

lemma CommaString_correct_witness:
  "(\<exists>p s'. uintmaxToCommaString (-1234567) comma_init = Some (p, s') \<and> comma_wf s' \<and>
      text_at s' p = with_commas (unat (-1234567 :: 64 word))) \<and>
    (\<exists>p s'. intmaxToCommaString (-1234567) comma_init = Some (p, s') \<and> comma_wf s' \<and>
      text_at s' p = signed_commas (sint (-1234567 :: 64 word)))"
  by (rule CommaString_correct [OF comma_init_wf])

text \<open>A returned text stays readable through the next four calls of the formatter,
  which cycles through five static buffers.\<close>

theorem CommaString_five_live:
  assumes "comma_wf s" "uintmaxToCommaString n s = Some (p, s1)" "length ns \<le> 4"
  shows "\<exists>s2. uintmax_calls ns s1 = Some s2 \<and> text_at s2 p = with_commas (unat n)"
proof -
  have 1: "fst p = bufIndex s" "bufIndex s1 = (bufIndex s + 1) mod 5" "comma_wf s1"
      "text_at s1 p = with_commas (unat n)"
    using uintmax_formats [OF assms(1), of n] assms(2) by auto
  have k: "bufIndex s < 5" using assms(1) by (simp add: comma_wf_def)
  then have "bufIndex s \<in> {0, 1, 2, 3, 4}" by auto
  then have "(fst p + 5 - bufIndex s1) mod 5 = 4" unfolding 1 by (elim insertE emptyE) simp_all
  then show ?thesis
    using calls_keep [OF 1(3), of "fst p" ns] assms(3) 1 k by (auto simp: text_at_def)
qed

lemma CommaString_five_live_witness:
  "\<exists>p s1 s2. uintmaxToCommaString 1000 comma_init = Some (p, s1) \<and>
    uintmax_calls [1, 2, 3, 4] s1 = Some s2 \<and> text_at s2 p = with_commas (unat (1000 :: 64 word))"
  using uintmax_formats [OF comma_init_wf, of 1000]
    CommaString_five_live [OF comma_init_wf, of 1000 _ _ "[1, 2, 3, 4]"] by fastforce

end
