(* ===== verification/Align.thy ===== *)
theory Align
  imports Prelude
begin

text \<open>
  Alignment: \<open>util/align.h\<close> and \<open>gc/align.c\<close>. Sizes and addresses are 64-bit words
  and every addition wraps, as \<open>size_t\<close> and \<open>uintmax_t\<close> do. Each C function
  asserts that its second argument is a power of two; the assertion is off in
  the modelled build, so its condition (\<open>align_arg\<close>) is a hypothesis of the lemmas and
  not a check of the model.
\<close>

section \<open>util/align.h\<close>

definition isAligned :: "size_t \<Rightarrow> size_t \<Rightarrow> bool" where
  "isAligned a b \<longleftrightarrow> 0 = a mod b"

definition isAlignedMax :: "u64 \<Rightarrow> u64 \<Rightarrow> bool" where
  "isAlignedMax a b \<longleftrightarrow> 0 = a mod b"

definition align_arg :: "size_t \<Rightarrow> bool" where
  "align_arg b \<longleftrightarrow> b \<ge> 1 \<and> b = (b AND - b)"

definition alignDown :: "size_t \<Rightarrow> size_t \<Rightarrow> size_t" where
  "alignDown a b = a AND - b"

definition alignMaxDown :: "u64 \<Rightarrow> u64 \<Rightarrow> u64" where
  "alignMaxDown a b = a AND - b"

definition align :: "size_t \<Rightarrow> size_t \<Rightarrow> size_t" where
  "align a b = (a + (b - 1)) AND - b"

definition alignMax :: "u64 \<Rightarrow> u64 \<Rightarrow> u64" where
  "alignMax a b = (a + (b - 1)) AND - b"

section \<open>gc/align.c\<close>

definition GC_NORMAL_HEADER_SIZE :: size_t where
  "GC_NORMAL_HEADER_SIZE = 8"

definition alignWithExtra :: "size_t \<Rightarrow> size_t \<Rightarrow> size_t \<Rightarrow> size_t" where
  "alignWithExtra alignment bytes extra = align (bytes + extra) alignment - extra"

definition isFrontierAligned :: "size_t \<Rightarrow> pointer \<Rightarrow> bool" where
  "isFrontierAligned alignment p \<longleftrightarrow> isAligned (p + GC_NORMAL_HEADER_SIZE) alignment"

definition alignFrontier :: "size_t \<Rightarrow> pointer \<Rightarrow> pointer" where
  "alignFrontier alignment p = alignWithExtra alignment p GC_NORMAL_HEADER_SIZE"

section \<open>What the assertion says\<close>

lemma lowest_bit:
  "b \<noteq> 0 \<Longrightarrow> \<exists>k<64. bit (b :: u64) k \<and> (\<forall>j<k. \<not> bit b j)"
proof -
  assume "b \<noteq> 0"
  then obtain i where i: "bit b i" by (auto simp: bit_eq_iff)
  define k where "k = (LEAST i. bit b i)"
  have "bit b k" unfolding k_def by (rule LeastI [of "bit b", OF i])
  moreover have "\<forall>j<k. \<not> bit b j" unfolding k_def by (auto dest: not_less_Least)
  moreover have "k < 64" using \<open>bit b k\<close> bit_imp_le_length [of b k] by simp
  ultimately show ?thesis by blast
qed

lemma minus_one_low_bits:
  assumes "bit (b :: u64) k" "\<forall>j<k. \<not> bit b j"
  shows "b - 1 = (b AND NOT (mask (Suc k))) OR mask k"
proof -
  let ?c = "b AND NOT (mask (Suc k))"
  have "b = ?c OR 2 ^ k"
    using assms bit_imp_le_length [OF assms(1)]
    by (intro bit_eqI) (auto simp: bit_simps less_Suc_eq not_less dest: le_neq_implies_less)
  also have "\<dots> = ?c + 2 ^ k"
    by (rule disjunctive_add [symmetric]) (auto simp: bit_simps)
  finally have "b - 1 = ?c + (2 ^ k - 1)" by simp
  also have "\<dots> = ?c + mask k" by (simp add: mask_eq_exp_minus_1)
  also have "\<dots> = ?c OR mask k" by (rule disjunctive_add) (auto simp: bit_simps)
  finally show ?thesis .
qed

lemma align_arg_pow2: "align_arg b \<longleftrightarrow> (\<exists>k<64. b = 2 ^ k)"
proof
  assume "align_arg b"
  then have b: "b \<noteq> 0" "b = b AND - b" by (auto simp: align_arg_def)
  from lowest_bit [OF b(1)] obtain k where k: "k < 64" "bit b k" "\<forall>j<k. \<not> bit b j" by blast
  have "b = b AND NOT (b - 1)"
    using b(2) by (simp only: minus_eq_not_minus_1 [symmetric])
  then have no: "\<not> (bit b j \<and> bit (b - 1) j)" for j
    using bit_and_iff [of b "NOT (b - 1)" j] bit_not_iff [of "b - 1" j] by auto
  have "bit b j \<longleftrightarrow> j = k" for j
  proof
    assume j: "bit b j"
    then have "k \<le> j" using k(3) by (meson not_less)
    moreover have "bit (b - 1) j" if "k < j"
      unfolding minus_one_low_bits [OF k(2,3)]
      using that j bit_imp_le_length [OF j] by (simp add: bit_simps)
    ultimately show "j = k" using no [of j] j by (cases "k = j") auto
  qed (simp add: k)
  then show "\<exists>k<64. b = 2 ^ k"
    using k by (intro exI [of _ k] conjI bit_eqI) (auto simp: bit_simps)
next
  assume "\<exists>k<64. b = 2 ^ k"
  then obtain k where k: "k < 64" "b = 2 ^ k" by blast
  have "2 ^ k AND - (2 ^ k) = (2 ^ k :: u64)"
    unfolding neg_pow2_is_not_mask by (rule bit_eqI) (auto simp: bit_simps)
  moreover have "(2 ^ k :: u64) \<ge> 1"
    using k(1) by (simp add: word_le_nat_alt unat_pow2)
  ultimately show "align_arg b" by (simp add: align_arg_def k)
qed

section \<open>Rounding\<close>

lemma isAligned_unat: "isAligned a b \<longleftrightarrow> unat a mod unat b = 0"
  unfolding isAligned_def word_unat_eq_iff unat_mod by auto

lemma unat_alignDown:
  "align_arg b \<Longrightarrow> unat (alignDown a b) = unat a div unat b * unat b"
  by (auto simp: align_arg_pow2 alignDown_def unat_and_neg_pow2 unat_pow2 minus_mod_eq_div_mult)

lemma alignMaxDown_eq: "alignMaxDown = alignDown"
  by (simp add: alignMaxDown_def alignDown_def fun_eq_iff)

lemma alignMax_eq: "alignMax = align"
  by (simp add: alignMax_def align_def fun_eq_iff)

lemma align_alignDown: "align a b = alignDown (a + (b - 1)) b"
  by (simp add: align_def alignDown_def)

lemma align_arg_bounds: "align_arg b \<Longrightarrow> 0 < unat b \<and> unat b dvd 2 ^ 64"
  using le_imp_power_dvd [of _ 64 "2 :: nat"] by (auto simp: align_arg_pow2 unat_pow2 simp del: power_numeral)

lemma unat_align:
  assumes "align_arg b" "unat a + unat b \<le> 2 ^ 64"
  shows "unat (align a b) = (unat a + unat b - 1) div unat b * unat b"
proof -
  have b: "1 \<le> b" "0 < unat b" using assms(1) align_arg_bounds by (auto simp: align_arg_def)
  then have "unat (b - 1) = unat b - 1" by (simp add: unat_sub)
  with b assms(2) have "unat (a + (b - 1)) = unat a + unat b - 1"
    using unat_add_lem [of a "b - 1"] by (simp; linarith)
  then show ?thesis using assms(1) by (simp add: align_alignDown unat_alignDown)
qed

lemma round_up_least:
  fixes a b c :: nat
  assumes "0 < b" "a \<le> c" "b dvd c"
  shows "(a + b - 1) div b * b \<le> c"
proof -
  from assms(3) obtain q where c: "c = q * b" by (auto simp: dvd_def mult.commute)
  have "(a + b - 1) div b < Suc q"
    using assms c by (subst div_less_iff_less_mult) auto
  then show ?thesis by (simp add: c)
qed

lemma round_up_ge:
  fixes a b :: nat
  assumes "0 < b"
  shows "a \<le> (a + b - 1) div b * b" "(a + b - 1) div b * b < a + b"
proof -
  have "(a + b - 1) div b * b + (a + b - 1) mod b = a + b - 1"
    by (rule div_mult_mod_eq)
  moreover have "(a + b - 1) mod b < b" using assms by simp
  ultimately show "a \<le> (a + b - 1) div b * b" "(a + b - 1) div b * b < a + b"
    using assms by linarith+
qed

lemmas round_simps = isAligned_unat unat_align unat_alignDown word_le_nat_alt

lemma isAligned_align:
  "align_arg b \<Longrightarrow> isAligned (align a b) b"
  by (simp add: isAligned_unat align_alignDown unat_alignDown)

lemma align_ge: "align_arg b \<Longrightarrow> unat a + unat b \<le> 2 ^ 64 \<Longrightarrow> a \<le> align a b"
  using round_up_ge [of "unat b" "unat a"] align_arg_bounds [of b] by (simp add: round_simps)

lemma align_lt: "align_arg b \<Longrightarrow> unat a + unat b \<le> 2 ^ 64 \<Longrightarrow> unat (align a b) < unat a + unat b"
  using round_up_ge [of "unat b" "unat a"] align_arg_bounds [of b] by (simp add: round_simps)

lemma align_le:
  "align_arg b \<Longrightarrow> unat a + unat b \<le> 2 ^ 64 \<Longrightarrow> isAligned c b \<Longrightarrow> a \<le> c \<Longrightarrow> align a b \<le> c"
  using round_up_least [of "unat b" "unat a" "unat c"] align_arg_bounds [of b]
  by (simp add: round_simps mod_eq_0_iff_dvd)

lemma alignDown_greatest:
  assumes "align_arg b"
  shows "isAligned (alignDown a b) b" "alignDown a b \<le> a"
    "isAligned c b \<Longrightarrow> c \<le> a \<Longrightarrow> c \<le> alignDown a b"
proof -
  show "isAligned (alignDown a b) b" "alignDown a b \<le> a"
    using assms by (simp_all add: round_simps)
  assume "isAligned c b" "c \<le> a"
  then obtain q where "unat c = q * unat b" "q * unat b \<le> unat a"
    by (auto simp: round_simps mod_eq_0_iff_dvd dvd_def mult.commute)
  moreover then have "q \<le> unat a div unat b"
    using align_arg_bounds [OF assms] by (simp add: less_eq_div_iff_mult_less_eq)
  ultimately show "c \<le> alignDown a b" using assms by (simp add: round_simps)
qed

lemma alignWithExtra_spec:
  assumes "align_arg A" "unat bytes + unat extra + unat A \<le> 2 ^ 64"
  shows "isAligned (alignWithExtra A bytes extra + extra) A"
    "bytes \<le> alignWithExtra A bytes extra"
    "unat (alignWithExtra A bytes extra) < unat bytes + unat A"
proof -
  let ?r = "align (bytes + extra) A"
  have s: "unat (bytes + extra) = unat bytes + unat extra"
    using assms align_arg_bounds [of A] unat_add_lem [of bytes extra] by simp
  have r: "bytes + extra \<le> ?r" "unat ?r < unat bytes + unat extra + unat A"
    using align_ge [OF assms(1), of "bytes + extra"] align_lt [OF assms(1), of "bytes + extra"]
      assms(2) by (simp_all add: s)
  then have "extra \<le> ?r" by (simp add: word_le_nat_alt s)
  then have "unat (?r - extra) = unat ?r - unat extra" by (rule unat_sub)
  with r show "bytes \<le> alignWithExtra A bytes extra"
    "unat (alignWithExtra A bytes extra) < unat bytes + unat A"
    by (auto simp: alignWithExtra_def word_le_nat_alt s)
  show "isAligned (alignWithExtra A bytes extra + extra) A"
    using assms by (simp add: alignWithExtra_def isAligned_align)
qed

section \<open>Properties\<close>

text \<open>\<open>align\<close> returns the least multiple of the alignment that is at least its
  argument, whenever rounding up does not pass the top of the address space.\<close>

theorem align_correct:
  assumes "align_arg b" "unat a + unat b \<le> 2 ^ 64"
  shows "isAligned (align a b) b \<and> a \<le> align a b \<and>
    (\<forall>c. isAligned c b \<longrightarrow> a \<le> c \<longrightarrow> align a b \<le> c)"
  using assms by (blast intro: isAligned_align align_ge align_le)

lemma align_correct_witness:
  "isAligned (align 13 8) 8 \<and> 13 \<le> align 13 8 \<and>
    align 13 8 \<le> 24 \<and> align 13 8 = 16"
proof -
  have "align_arg 8" "align 13 8 = 16" "isAligned 24 8"
    by (simp_all add: align_arg_def align_def isAligned_def)
  then show ?thesis using align_correct [of 8 13] by simp
qed

text \<open>\<open>alignFrontier\<close> moves a frontier forward by less than the alignment to a
  place where an object that starts with a normal header has an aligned body.\<close>

theorem alignFrontier_correct:
  assumes "align_arg A" "unat p + 8 + unat A \<le> 2 ^ 64"
  shows "isFrontierAligned A (alignFrontier A p) \<and> p \<le> alignFrontier A p \<and>
    unat (alignFrontier A p) < unat p + unat A"
  using alignWithExtra_spec [of A p 8] assms
  by (simp add: isFrontierAligned_def alignFrontier_def GC_NORMAL_HEADER_SIZE_def)

lemma alignFrontier_correct_witness:
  "isFrontierAligned 8 (alignFrontier 8 1003) \<and> 1003 \<le> alignFrontier 8 1003 \<and>
    unat (alignFrontier 8 1003) < 1003 + 8"
proof -
  have "align_arg 8" by (simp add: align_arg_def)
  then show ?thesis using alignFrontier_correct [of 8 1003] by simp
qed

end
