(* ===== verification/Object_Model.thy ===== *)
theory Object_Model
  imports Align
begin

text \<open>
  Objects in memory: \<open>gc/model.h\<close>, \<open>gc/objptr.c\<close>, \<open>gc/pointer.c\<close>, \<open>gc/object.h\<close> and
  \<open>gc/object.c\<close>, \<open>gc/array.c\<close>, \<open>gc/frame.c\<close>, \<open>gc/stack.c\<close>, \<open>gc/object-size.c\<close>,
  \<open>gc/thread.c\<close>, \<open>gc/weak.c\<close> and the read barrier \<open>fixFwdObjptr\<close> of \<open>gc/forward.c\<close>.
  Memory is a map from 64-bit addresses to bytes; a C struct at an address is
  read and written field by field at the offsets of the amd64 layout. An index
  out of a static table is \<open>None\<close>, and so is a loop over memory that does not end.
\<close>

section \<open>Pointers and object pointers\<close>

type_synonym objptr = "64 word"
type_synonym GC_header = "64 word"

definition GC_MODEL_OBJPTR_SHIFT :: nat where "GC_MODEL_OBJPTR_SHIFT = 0"
definition GC_MODEL_OBJPTR_BASE :: bool where "GC_MODEL_OBJPTR_BASE = False"
definition GC_MODEL_MINALIGN_SHIFT :: nat where
  "GC_MODEL_MINALIGN_SHIFT = max 2 (GC_MODEL_OBJPTR_SHIFT + 1)"

definition OBJPTR_SIZE :: size_t where "OBJPTR_SIZE = 8"
definition BOGUS_OBJPTR :: objptr where "BOGUS_OBJPTR = 1"
definition BOGUS_POINTER :: pointer where "BOGUS_POINTER = 1"

definition isObjptr :: "objptr \<Rightarrow> bool" where
  "isObjptr p \<longleftrightarrow>
    (let shift = GC_MODEL_MINALIGN_SHIFT - GC_MODEL_OBJPTR_SHIFT;
         mask = NOT (push_bit shift (NOT 0)) in
     0 = (p AND mask))"

definition isPointer :: "pointer \<Rightarrow> bool" where
  "isPointer p \<longleftrightarrow> (let mask = NOT (push_bit GC_MODEL_MINALIGN_SHIFT (NOT 0)) in 0 = (p AND mask))"

definition objptrToPointer :: "objptr \<Rightarrow> pointer \<Rightarrow> pointer" where
  "objptrToPointer op B =
    (let B' = (if GC_MODEL_OBJPTR_BASE then B else 0) in push_bit GC_MODEL_OBJPTR_SHIFT op + B')"

definition pointerToObjptr :: "pointer \<Rightarrow> pointer \<Rightarrow> objptr" where
  "pointerToObjptr p B =
    (let B' = (if GC_MODEL_OBJPTR_BASE then B else 0) in drop_bit GC_MODEL_OBJPTR_SHIFT (p - B'))"

definition storeObjptrFromPointer :: "mem \<Rightarrow> pointer \<Rightarrow> pointer \<Rightarrow> pointer \<Rightarrow> mem" where
  "storeObjptrFromPointer m opp p B = store64 m opp (pointerToObjptr p B)"

section \<open>Headers\<close>

definition GC_HEADER_SIZE :: size_t where "GC_HEADER_SIZE = 8"
definition GC_ARRAY_LENGTH_SIZE :: size_t where "GC_ARRAY_LENGTH_SIZE = 8"
definition GC_ARRAY_COUNTER_SIZE :: size_t where "GC_ARRAY_COUNTER_SIZE = 8"
definition GC_ARRAY_HEADER_SIZE :: size_t where
  "GC_ARRAY_HEADER_SIZE = GC_ARRAY_COUNTER_SIZE + GC_ARRAY_LENGTH_SIZE + GC_HEADER_SIZE"
definition GC_STACK_HEADER_SIZE :: size_t where "GC_STACK_HEADER_SIZE = GC_HEADER_SIZE"
definition GC_SMALL_GAP_SIZE_SIZE :: size_t where "GC_SMALL_GAP_SIZE_SIZE = 4"
definition GC_BONUS_SLOP :: size_t where "GC_BONUS_SLOP = GC_HEADER_SIZE + GC_SMALL_GAP_SIZE_SIZE"

definition TYPE_INDEX_BITS :: nat where "TYPE_INDEX_BITS = 16"
definition TYPE_INDEX_MASK :: GC_header where "TYPE_INDEX_MASK = 0x0001FFFE"
definition TYPE_INDEX_SHIFT :: nat where "TYPE_INDEX_SHIFT = 1"
definition VIRGIN_MASK :: GC_header where "VIRGIN_MASK = 0x00060000"
definition VIRGIN_SHIFT :: nat where "VIRGIN_SHIFT = 17"
definition LIFT_MASK :: GC_header where "LIFT_MASK = 0x00080000"
definition LIFT_SHIFT :: nat where "LIFT_SHIFT = 19"
definition COUNTER_MASK :: GC_header where "COUNTER_MASK = 0x7FF00000"
definition COUNTER_SHIFT :: nat where "COUNTER_SHIFT = 20"
definition MARK_MASK :: GC_header where "MARK_MASK = 0x80000000"
definition GC_VALID_HEADER_MASK :: GC_header where "GC_VALID_HEADER_MASK = 0x1"
definition GC_FORWARDED :: GC_header where "GC_FORWARDED = NOT 0"

datatype GC_objectTypeTag =
  ARRAY_TAG | NORMAL_TAG | STACK_TAG | WEAK_TAG | HEADER_ONLY_TAG | FILL_TAG

definition objectTypeTagToString :: "GC_objectTypeTag \<Rightarrow> string" where
  "objectTypeTagToString tag = (case tag of
     ARRAY_TAG \<Rightarrow> ''ARRAY'' | NORMAL_TAG \<Rightarrow> ''NORMAL'' | STACK_TAG \<Rightarrow> ''STACK''
   | WEAK_TAG \<Rightarrow> ''WEAK'' | HEADER_ONLY_TAG \<Rightarrow> ''HEADER_ONLY'' | FILL_TAG \<Rightarrow> ''FILL'')"

record GC_objectType =
  tag :: GC_objectTypeTag
  hasIdentity :: bool
  bytesNonObjptrs :: u16
  numObjptrs :: u16
  hasIdentityTransitive :: bool
  isUnbounded :: bool

definition STACK_TYPE_INDEX :: u32 where "STACK_TYPE_INDEX = 0"
definition THREAD_TYPE_INDEX :: u32 where "THREAD_TYPE_INDEX = 1"
definition WEAK_GONE_TYPE_INDEX :: u32 where "WEAK_GONE_TYPE_INDEX = 2"
definition WORD8_VECTOR_TYPE_INDEX :: u32 where "WORD8_VECTOR_TYPE_INDEX = 3"
definition HEADER_ONLY_TYPE_INDEX :: u32 where "HEADER_ONLY_TYPE_INDEX = 7"
definition FILL_TYPE_INDEX :: u32 where "FILL_TYPE_INDEX = 8"

text \<open>The shift is done in 32 bits before the result is widened to a header.\<close>

definition buildHeaderFromTypeIndex :: "u32 \<Rightarrow> GC_header" where
  "buildHeaderFromTypeIndex t = ucast (1 OR push_bit 1 t)"

definition GC_STACK_HEADER :: GC_header where
  "GC_STACK_HEADER = buildHeaderFromTypeIndex STACK_TYPE_INDEX"
definition GC_THREAD_HEADER :: GC_header where
  "GC_THREAD_HEADER = buildHeaderFromTypeIndex THREAD_TYPE_INDEX"
definition GC_WEAK_GONE_HEADER :: GC_header where
  "GC_WEAK_GONE_HEADER = buildHeaderFromTypeIndex WEAK_GONE_TYPE_INDEX"
definition GC_WORD8_VECTOR_HEADER :: GC_header where
  "GC_WORD8_VECTOR_HEADER = buildHeaderFromTypeIndex WORD8_VECTOR_TYPE_INDEX"
definition GC_HEADER_ONLY_HEADER :: GC_header where
  "GC_HEADER_ONLY_HEADER = buildHeaderFromTypeIndex HEADER_ONLY_TYPE_INDEX"
definition GC_FILL_HEADER :: GC_header where
  "GC_FILL_HEADER = buildHeaderFromTypeIndex FILL_TYPE_INDEX"

definition getHeaderp :: "pointer \<Rightarrow> pointer" where
  "getHeaderp p = p - GC_HEADER_SIZE"

definition getHeader :: "mem \<Rightarrow> pointer \<Rightarrow> GC_header" where
  "getHeader m p = load64 m (getHeaderp p)"

definition objectTypeIndex :: "GC_header \<Rightarrow> nat" where
  "objectTypeIndex header =
    (let header = header AND NOT (LIFT_MASK OR VIRGIN_MASK) in
     unat (ucast (drop_bit TYPE_INDEX_SHIFT (header AND TYPE_INDEX_MASK)) :: u32))"

text \<open>An access to \<open>objectTypes\<close> outside the table is undefined. The out-parameters
  of \<open>splitHeader\<close> are the fields of the entry it selects.\<close>

definition splitHeader :: "GC_objectType list \<Rightarrow> GC_header \<Rightarrow> GC_objectType option" where
  "splitHeader types header =
    (let i = objectTypeIndex header in if i < length types then Some (types ! i) else None)"

definition objectHasIdentity :: "GC_objectType list \<Rightarrow> GC_header \<Rightarrow> bool option" where
  "objectHasIdentity types header =
    (let i = objectTypeIndex header in
     if i < length types then Some (hasIdentity (types ! i)) else None)"

definition objectHasIdentityTransitive :: "GC_objectType list \<Rightarrow> GC_header \<Rightarrow> bool option" where
  "objectHasIdentityTransitive types header =
    (let i = objectTypeIndex header in
     if i < length types then Some (hasIdentityTransitive (types ! i)) else None)"

definition advanceToObjectData :: "mem \<Rightarrow> pointer \<Rightarrow> pointer" where
  "advanceToObjectData m p =
    (let header = load64 m p in
     if header = 0 then p + GC_ARRAY_HEADER_SIZE else p + GC_NORMAL_HEADER_SIZE)"

section \<open>Static data of the compiled program\<close>

datatype GC_frameKind = C_FRAME | ML_FRAME

text \<open>\<open>offsets\<close> is the array the C field points to; its element 0 is the number of
  offsets that follow.\<close>

record GC_frameLayout =
  kind :: GC_frameKind
  offsets :: "u16 list"
  size :: u16

text \<open>The fields of \<open>GC_state\<close> that the compiler emits. \<open>returnAddressToFrameIndex\<close>
  points to generated code and is a parameter of the model.\<close>

record gc_static =
  objectTypes :: "GC_objectType list"
  alignment :: size_t
  maxFrameSize :: u32
  frameLayouts :: "GC_frameLayout list"
  returnAddressToFrameIndex :: "u64 \<Rightarrow> u32"

section \<open>The read barrier\<close>

text \<open>\<open>fixFwdObjptr\<close> applied to a local variable, and to a slot in memory. A cycle of
  forwarding pointers makes it loop.\<close>

partial_function (option) fixFwd_val_loop :: "mem \<Rightarrow> pointer \<Rightarrow> objptr \<Rightarrow> objptr option" where
  "fixFwd_val_loop m B op =
    (if isObjptr op \<and> getHeader m (objptrToPointer op B) = GC_FORWARDED
     then fixFwd_val_loop m B (load64 m (objptrToPointer op B)) else Some op)"

definition fixFwdObjptr_val :: "mem \<Rightarrow> pointer \<Rightarrow> objptr \<Rightarrow> objptr option" where
  "fixFwdObjptr_val m B op =
    (if isObjptr op \<and> \<not> op = 0 then fixFwd_val_loop m B op else Some op)"

partial_function (option) fixFwd_loop :: "mem \<Rightarrow> pointer \<Rightarrow> pointer \<Rightarrow> pointer \<Rightarrow> mem option" where
  "fixFwd_loop m B opp p =
    (if isObjptr (load64 m opp) \<and> getHeader m p = GC_FORWARDED
     then fixFwd_loop (store64 m opp (load64 m p)) B opp
       (objptrToPointer (load64 (store64 m opp (load64 m p)) opp) B)
     else Some m)"

definition fixFwdObjptr :: "mem \<Rightarrow> pointer \<Rightarrow> pointer \<Rightarrow> mem option" where
  "fixFwdObjptr m B opp =
    (if isObjptr (load64 m opp) \<and> \<not> load64 m opp = 0
     then fixFwd_loop m B opp (objptrToPointer (load64 m opp) B) else Some m)"

definition fixFwdObjptrAndFetch :: "mem \<Rightarrow> pointer \<Rightarrow> pointer \<Rightarrow> (mem \<times> objptr) option" where
  "fixFwdObjptrAndFetch m B opp = map_option (\<lambda>m. (m, load64 m opp)) (fixFwdObjptr m B opp)"

definition fetchObjptrToPointer :: "mem \<Rightarrow> pointer \<Rightarrow> pointer \<Rightarrow> (mem \<times> pointer) option" where
  "fetchObjptrToPointer m opp B =
    map_option (\<lambda>m. (m, objptrToPointer (load64 m opp) B)) (fixFwdObjptr m B opp)"

definition getBeginningOfObject :: "gc_static \<Rightarrow> pointer \<Rightarrow> mem \<Rightarrow> pointer \<Rightarrow> pointer option" where
  "getBeginningOfObject g start m p =
    Option.bind (fixFwdObjptr_val m start (pointerToObjptr p start)) (\<lambda>op.
    Option.bind (splitHeader (objectTypes g) (getHeader m op)) (\<lambda>ty.
    Some (if tag ty = ARRAY_TAG then p - GC_ARRAY_HEADER_SIZE else p - GC_NORMAL_HEADER_SIZE)))"

section \<open>Arrays\<close>

definition getArrayLengthp :: "pointer \<Rightarrow> pointer" where
  "getArrayLengthp a = a - GC_HEADER_SIZE - GC_ARRAY_LENGTH_SIZE"

definition getArrayLength :: "mem \<Rightarrow> pointer \<Rightarrow> u64" where
  "getArrayLength m a = load64 m (getArrayLengthp a)"

definition getArrayCounterp :: "pointer \<Rightarrow> pointer" where
  "getArrayCounterp a = a - GC_HEADER_SIZE - GC_ARRAY_LENGTH_SIZE - GC_ARRAY_COUNTER_SIZE"

definition getArrayCounter :: "mem \<Rightarrow> pointer \<Rightarrow> u64" where
  "getArrayCounter m a = load64 m (getArrayCounterp a)"

text \<open>The bytes of one element, or of a normal object: \<open>bytesNonObjptrs + numObjptrs * OBJPTR_SIZE\<close>.\<close>

definition elementBytes :: "GC_objectType \<Rightarrow> size_t" where
  "elementBytes ty = ucast (bytesNonObjptrs ty) + ucast (numObjptrs ty) * OBJPTR_SIZE"

definition indexArrayAtObjptrIndex ::
    "gc_static \<Rightarrow> mem \<Rightarrow> pointer \<Rightarrow> u64 \<Rightarrow> u32 \<Rightarrow> pointer option" where
  "indexArrayAtObjptrIndex g m a arrayIndex objptrIndex =
    map_option (\<lambda>ty. a + arrayIndex * elementBytes ty + ucast (bytesNonObjptrs ty)
      + ucast objptrIndex * OBJPTR_SIZE) (splitHeader (objectTypes g) (getHeader m a))"

section \<open>Frames and stacks\<close>

definition getFrameIndexFromReturnAddress :: "gc_static \<Rightarrow> u64 \<Rightarrow> u32" where
  "getFrameIndexFromReturnAddress g ra = returnAddressToFrameIndex g ra"

definition getFrameLayoutFromFrameIndex :: "gc_static \<Rightarrow> u32 \<Rightarrow> GC_frameLayout option" where
  "getFrameLayoutFromFrameIndex g findex =
    (if unat findex < length (frameLayouts g) then Some (frameLayouts g ! unat findex) else None)"

definition getFrameLayoutFromReturnAddress :: "gc_static \<Rightarrow> u64 \<Rightarrow> GC_frameLayout option" where
  "getFrameLayoutFromReturnAddress g ra =
    getFrameLayoutFromFrameIndex g (getFrameIndexFromReturnAddress g ra)"

text \<open>The fields of \<open>struct GC_stack\<close>: \<open>markTop\<close> at 0, \<open>markIndex\<close> at 8, \<open>reserved\<close> at
  16, \<open>used\<close> at 24, \<open>thread\<close> at 32, \<open>isParasitic\<close> at 40; 48 bytes in all.\<close>

definition sizeof_GC_stack :: size_t where "sizeof_GC_stack = 48"
definition stack_reserved :: "mem \<Rightarrow> pointer \<Rightarrow> size_t" where "stack_reserved m stk = load64 m (stk + 16)"
definition stack_used :: "mem \<Rightarrow> pointer \<Rightarrow> size_t" where "stack_used m stk = load64 m (stk + 24)"
definition stack_thread :: "mem \<Rightarrow> pointer \<Rightarrow> objptr" where "stack_thread m stk = load64 m (stk + 32)"

definition isStackEmpty :: "mem \<Rightarrow> pointer \<Rightarrow> bool" where
  "isStackEmpty m stk \<longleftrightarrow> 0 = stack_used m stk"

definition isStackReservedAligned :: "gc_static \<Rightarrow> size_t \<Rightarrow> bool" where
  "isStackReservedAligned g reserved \<longleftrightarrow>
    isAligned (GC_STACK_HEADER_SIZE + sizeof_GC_stack + reserved) (alignment g)"

definition sizeofStackSlop :: "gc_static \<Rightarrow> size_t" where
  "sizeofStackSlop g = ucast (2 * maxFrameSize g)"

definition getStackBottom :: "pointer \<Rightarrow> pointer" where
  "getStackBottom stk = stk + sizeof_GC_stack"

definition getStackTop :: "mem \<Rightarrow> pointer \<Rightarrow> pointer" where
  "getStackTop m stk = getStackBottom stk + stack_used m stk"

definition getStackLimitPlusSlop :: "mem \<Rightarrow> pointer \<Rightarrow> pointer" where
  "getStackLimitPlusSlop m stk = getStackBottom stk + stack_reserved m stk"

definition getStackLimit :: "gc_static \<Rightarrow> mem \<Rightarrow> pointer \<Rightarrow> pointer" where
  "getStackLimit g m stk = getStackLimitPlusSlop m stk - sizeofStackSlop g"

definition GC_RETURNADDRESS_SIZE :: size_t where "GC_RETURNADDRESS_SIZE = 8"

definition getCachedStackTopFrameIndex :: "gc_static \<Rightarrow> mem \<Rightarrow> pointer \<Rightarrow> u32" where
  "getCachedStackTopFrameIndex g m stackTop =
    getFrameIndexFromReturnAddress g (load64 m (stackTop - GC_RETURNADDRESS_SIZE))"

definition getCachedStackTopFrameLayout :: "gc_static \<Rightarrow> mem \<Rightarrow> pointer \<Rightarrow> GC_frameLayout option" where
  "getCachedStackTopFrameLayout g m stackTop =
    getFrameLayoutFromFrameIndex g (getCachedStackTopFrameIndex g m stackTop)"

definition getStackTopFrameIndex :: "gc_static \<Rightarrow> mem \<Rightarrow> pointer \<Rightarrow> u32" where
  "getStackTopFrameIndex g m stk =
    getFrameIndexFromReturnAddress g (load64 m (getStackTop m stk - GC_RETURNADDRESS_SIZE))"

definition getStackTopFrameLayout :: "gc_static \<Rightarrow> mem \<Rightarrow> pointer \<Rightarrow> GC_frameLayout option" where
  "getStackTopFrameLayout g m stk = getFrameLayoutFromFrameIndex g (getStackTopFrameIndex g m stk)"

definition getStackTopFrameSize :: "gc_static \<Rightarrow> mem \<Rightarrow> pointer \<Rightarrow> u16 option" where
  "getStackTopFrameSize g m stk = map_option size (getStackTopFrameLayout g m stk)"

definition alignStackReserved :: "gc_static \<Rightarrow> size_t \<Rightarrow> size_t" where
  "alignStackReserved g reserved =
    alignWithExtra (alignment g) reserved (GC_STACK_HEADER_SIZE + sizeof_GC_stack)"

definition sizeofStackWithHeader :: "size_t \<Rightarrow> size_t" where
  "sizeofStackWithHeader reserved = GC_STACK_HEADER_SIZE + sizeof_GC_stack + reserved"

definition sizeofStackInitialReserved :: "gc_static \<Rightarrow> size_t" where
  "sizeofStackInitialReserved g = alignStackReserved g (sizeofStackSlop g)"

definition sizeofStackMinimumReserved :: "gc_static \<Rightarrow> mem \<Rightarrow> pointer \<Rightarrow> size_t option" where
  "sizeofStackMinimumReserved g m stk =
    map_option (\<lambda>fs. alignStackReserved g (stack_used m stk + sizeofStackSlop g - ucast fs))
      (getStackTopFrameSize g m stk)"

section \<open>Object sizes\<close>

definition sizeofArrayNoHeader :: "gc_static \<Rightarrow> u64 \<Rightarrow> GC_objectType \<Rightarrow> size_t" where
  "sizeofArrayNoHeader g numElements ty =
    (let result = numElements * elementBytes ty;
         result = (if result < OBJPTR_SIZE then OBJPTR_SIZE else result) in
     alignWithExtra (alignment g) result GC_ARRAY_HEADER_SIZE)"

definition sizeofStackNoHeader :: "mem \<Rightarrow> pointer \<Rightarrow> size_t" where
  "sizeofStackNoHeader m stk = sizeof_GC_stack + stack_reserved m stk"

text \<open>The two loops at the start of \<open>sizeofObject\<close>: along the forwarding pointers, and
  along the header slots that mark-compact has threaded.\<close>

partial_function (option) skipForwarded :: "mem \<Rightarrow> pointer \<Rightarrow> pointer \<Rightarrow> pointer option" where
  "skipForwarded m B p =
    (if getHeader m p = GC_FORWARDED then skipForwarded m B (objptrToPointer (load64 m p) B)
     else Some p)"

partial_function (option) skipThreaded :: "mem \<Rightarrow> GC_header \<Rightarrow> GC_header option" where
  "skipThreaded m header =
    (if header AND 1 = 0 then skipThreaded m (load64 m header) else Some header)"

text \<open>Header and body bytes by tag; the stack case reads the original pointer, whose
  \<open>reserved\<close> field survives forwarding.\<close>

definition objectBytesByTag :: "gc_static \<Rightarrow> mem \<Rightarrow> GC_objectType \<Rightarrow> pointer \<Rightarrow> pointer \<Rightarrow> size_t \<times> size_t" where
  "objectBytesByTag g m ty p oldP =
    (if tag ty = NORMAL_TAG \<or> tag ty = WEAK_TAG then (GC_NORMAL_HEADER_SIZE, elementBytes ty)
     else if tag ty = ARRAY_TAG then
       (GC_ARRAY_HEADER_SIZE, sizeofArrayNoHeader g (getArrayLength m p) ty)
     else if tag ty = STACK_TAG then (GC_STACK_HEADER_SIZE, sizeofStackNoHeader m oldP)
     else if tag ty = HEADER_ONLY_TAG then (GC_HEADER_SIZE, 0)
     else (GC_HEADER_SIZE, GC_SMALL_GAP_SIZE_SIZE + ucast (load32 m p)))"

definition sizeofObject :: "gc_static \<Rightarrow> pointer \<Rightarrow> mem \<Rightarrow> pointer \<Rightarrow> size_t option" where
  "sizeofObject g B m oldP =
    Option.bind (skipForwarded m B oldP) (\<lambda>p.
    Option.bind (skipThreaded m (getHeader m p)) (\<lambda>header.
    Option.bind (splitHeader (objectTypes g) header) (\<lambda>ty.
    let (headerBytes, objectBytes) = objectBytesByTag g m ty p oldP in
    Some (headerBytes + objectBytes))))"

definition sizeofObjectNoHeader :: "gc_static \<Rightarrow> pointer \<Rightarrow> mem \<Rightarrow> pointer \<Rightarrow> size_t option" where
  "sizeofObjectNoHeader g B m oldP =
    Option.bind (skipForwarded m B oldP) (\<lambda>p.
    Option.bind (skipThreaded m (getHeader m p)) (\<lambda>header.
    Option.bind (splitHeader (objectTypes g) header) (\<lambda>ty.
    Some (snd (objectBytesByTag g m ty p oldP)))))"

definition sizeofObjectHeader :: "gc_static \<Rightarrow> GC_header \<Rightarrow> size_t option" where
  "sizeofObjectHeader g header =
    map_option (\<lambda>ty. if tag ty = ARRAY_TAG then GC_ARRAY_HEADER_SIZE else GC_NORMAL_HEADER_SIZE)
      (splitHeader (objectTypes g) header)"

section \<open>Threads and weak objects\<close>

definition sizeof_GC_thread :: size_t where "sizeof_GC_thread = 24"
definition sizeof_GC_weak :: size_t where "sizeof_GC_weak = 16"
definition BOGUS_EXN_STACK :: size_t where "BOGUS_EXN_STACK = - 1"

definition sizeofThread :: "gc_static \<Rightarrow> size_t" where
  "sizeofThread g = align (GC_NORMAL_HEADER_SIZE + sizeof_GC_thread) (alignment g)"

definition offsetofThread :: "gc_static \<Rightarrow> size_t" where
  "offsetofThread g = sizeofThread g - (GC_NORMAL_HEADER_SIZE + sizeof_GC_thread)"

definition sizeofWeak :: "gc_static \<Rightarrow> size_t" where
  "sizeofWeak g = align (GC_NORMAL_HEADER_SIZE + sizeof_GC_weak) (alignment g)"

definition offsetofWeak :: "gc_static \<Rightarrow> size_t" where
  "offsetofWeak g = sizeofWeak g - (GC_NORMAL_HEADER_SIZE + sizeof_GC_weak)"

definition GC_weakCanGet :: "mem \<Rightarrow> pointer \<Rightarrow> bool" where
  "GC_weakCanGet m p \<longleftrightarrow> GC_WEAK_GONE_HEADER \<noteq> getHeader m p"

text \<open>\<open>weak->objptr\<close> is at offset 8 of the packed struct.\<close>

definition GC_weakGet :: "gc_static \<Rightarrow> pointer \<Rightarrow> mem \<Rightarrow> pointer \<Rightarrow> pointer" where
  "GC_weakGet g start m p =
    (let weak = p + offsetofWeak g in objptrToPointer (load64 m (weak + 8)) start)"

text \<open>The one-word slots of \<open>thread.c\<close> for a saved closure and a thread identity.\<close>

definition GC_testSavedClosure :: "objptr \<Rightarrow> bool" where
  "GC_testSavedClosure savedClosure \<longleftrightarrow> savedClosure \<noteq> BOGUS_OBJPTR"

definition GC_getSavedClosure :: "pointer \<Rightarrow> objptr \<Rightarrow> pointer \<times> objptr" where
  "GC_getSavedClosure start savedClosure = (objptrToPointer savedClosure start, BOGUS_OBJPTR)"

definition GC_setSavedClosure :: "pointer \<Rightarrow> pointer \<Rightarrow> objptr" where
  "GC_setSavedClosure start p = pointerToObjptr p start"

definition GC_testThreadId :: "objptr \<Rightarrow> bool" where
  "GC_testThreadId pacmlThreadId \<longleftrightarrow> pacmlThreadId \<noteq> BOGUS_OBJPTR"

definition GC_getThreadId :: "mem \<Rightarrow> pointer \<Rightarrow> objptr \<Rightarrow> (pointer \<times> objptr) option" where
  "GC_getThreadId m start pacmlThreadId =
    map_option (\<lambda>op. (objptrToPointer op start, op)) (fixFwdObjptr_val m start pacmlThreadId)"

definition GC_setThreadId :: "pointer \<Rightarrow> pointer \<Rightarrow> objptr" where
  "GC_setThreadId start p = pointerToObjptr p start"

section \<open>Pointers: lemmas\<close>

lemmas ptr_defs = objptrToPointer_def pointerToObjptr_def GC_MODEL_OBJPTR_SHIFT_def
  GC_MODEL_OBJPTR_BASE_def

lemma objptrToPointer_id [simp]: "objptrToPointer op B = op"
  by (simp add: ptr_defs)

lemma pointerToObjptr_id [simp]: "pointerToObjptr p B = p"
  by (simp add: ptr_defs)

lemma low_mask: "NOT (push_bit k (NOT 0)) = (mask k :: u64)"
  by (rule bit_word_eqI) (auto simp: bit_simps)

lemma isObjptr_eq: "isObjptr p \<longleftrightarrow> unat p mod 4 = 0"
proof -
  have "isObjptr p \<longleftrightarrow> take_bit 2 p = 0"
    unfolding isObjptr_def Let_def low_mask GC_MODEL_MINALIGN_SHIFT_def GC_MODEL_OBJPTR_SHIFT_def
    by (auto simp: take_bit_eq_mask numeral_2_eq_2)
  then show ?thesis
    using unat_take_bit [of 2 p] by (simp add: word_unat_eq_iff)
qed

lemma isPointer_isObjptr: "isPointer p = isObjptr p"
  by (simp add: isPointer_def isObjptr_def GC_MODEL_OBJPTR_SHIFT_def)

lemma bogus_not_objptr [simp]: "\<not> isObjptr BOGUS_OBJPTR"
  by (simp add: isObjptr_eq BOGUS_OBJPTR_def)

section \<open>Headers: lemmas\<close>

text \<open>The bits of a header that the collectors and the write barrier use.\<close>

definition header_flags :: GC_header where
  "header_flags = LIFT_MASK OR VIRGIN_MASK OR COUNTER_MASK OR MARK_MASK"

lemma bit_TYPE_INDEX_MASK: "bit TYPE_INDEX_MASK n \<longleftrightarrow> 1 \<le> n \<and> n < 17"
proof -
  have *: "TYPE_INDEX_MASK = push_bit 1 (mask 16)"
    by (simp add: TYPE_INDEX_MASK_def mask_eq_exp_minus_1 push_bit_eq_mult)
  show ?thesis
    unfolding * bit_push_bit_iff bit_mask_iff by auto
qed

lemma type_index_bits: "drop_bit 1 (h AND TYPE_INDEX_MASK) = take_bit 16 (drop_bit 1 h)"
  by (intro bit_word_eqI) (auto simp: bit_simps bit_TYPE_INDEX_MASK)

lemma objectTypeIndex_eq: "objectTypeIndex h = unat (take_bit 16 (drop_bit 1 h))"
proof -
  have *: "(h AND NOT (LIFT_MASK OR VIRGIN_MASK)) AND TYPE_INDEX_MASK = h AND TYPE_INDEX_MASK"
    by (simp add: LIFT_MASK_def VIRGIN_MASK_def TYPE_INDEX_MASK_def and.assoc)
  have "objectTypeIndex h = unat (ucast (drop_bit 1 (h AND TYPE_INDEX_MASK)) :: u32)"
    unfolding objectTypeIndex_def TYPE_INDEX_SHIFT_def Let_def * by (rule refl)
  also have "\<dots> = unat (take_bit 16 (drop_bit 1 h))"
    unfolding type_index_bits unsigned_ucast_eq unsigned_take_bit_eq take_bit_take_bit by simp
  finally show ?thesis .
qed

lemma header_flags_eq: "header_flags = push_bit 17 (mask 15)"
  by (simp add: header_flags_def LIFT_MASK_def VIRGIN_MASK_def COUNTER_MASK_def MARK_MASK_def
      mask_eq_exp_minus_1 push_bit_eq_mult)

lemma objectTypeIndex_flags:
  assumes "f AND NOT header_flags = 0"
  shows "objectTypeIndex (h OR f) = objectTypeIndex h"
proof -
  have "\<not> bit f j" if "j < 17" for j
    using that arg_cong [OF assms, of "\<lambda>w. bit w j"]
    by (auto simp: header_flags_eq bit_simps dest: bit_imp_le_length)
  then have "take_bit 16 (drop_bit 1 (h OR f)) = take_bit 16 (drop_bit 1 h)"
    by (intro bit_word_eqI) (auto simp: bit_simps)
  then show ?thesis by (simp add: objectTypeIndex_eq)
qed

lemma objectTypeIndex_build:
  assumes "unat t < 2 ^ TYPE_INDEX_BITS"
  shows "objectTypeIndex (buildHeaderFromTypeIndex t) = unat t"
proof -
  have "take_bit 16 t = t"
    using assms by (simp add: word_unat_eq_iff unsigned_take_bit_eq take_bit_nat_eq_self TYPE_INDEX_BITS_def)
  then have t16: "bit t n \<Longrightarrow> n < 16" for n
    using bit_take_bit_iff [of 16 t n] by auto
  have "bit (buildHeaderFromTypeIndex t) (Suc n) \<longleftrightarrow> bit t n" for n
    unfolding buildHeaderFromTypeIndex_def bit_unsigned_iff bit_or_iff bit_push_bit_iff
    using t16 [of n] by auto
  then have "take_bit 16 (drop_bit 1 (buildHeaderFromTypeIndex t)) = ucast t"
    using t16 by (intro bit_word_eqI) (auto simp: bit_take_bit_iff bit_drop_bit_eq bit_unsigned_iff)
  then show ?thesis
    using unsigned_less [of t, where ?'a = nat]
    by (simp add: objectTypeIndex_eq unsigned_ucast_eq take_bit_nat_eq_self)
qed

lemma build_valid: "buildHeaderFromTypeIndex t AND 1 = 1"
  by (simp add: buildHeaderFromTypeIndex_def and_one_eq odd_iff_mod_2_eq_one [symmetric])
     (simp add: bit_simps flip: bit_0)

section \<open>The read barrier: lemmas\<close>

definition forwarded :: "mem \<Rightarrow> objptr \<Rightarrow> bool" where
  "forwarded m op \<longleftrightarrow> isObjptr op \<and> getHeader m op = GC_FORWARDED"

text \<open>\<open>fwd_path m n op r\<close>: following \<open>n\<close> forwarding pointers from \<open>op\<close> ends at \<open>r\<close>.\<close>

primrec fwd_path :: "mem \<Rightarrow> nat \<Rightarrow> objptr \<Rightarrow> objptr \<Rightarrow> bool" where
  "fwd_path m 0 op r \<longleftrightarrow> op = r \<and> \<not> forwarded m r"
| "fwd_path m (Suc n) op r \<longleftrightarrow> forwarded m op \<and> fwd_path m n (load64 m op) r"

lemma fixFwd_val_loop_path: "fwd_path m n op r \<Longrightarrow> fixFwd_val_loop m B op = Some r"
proof (induction n arbitrary: op)
  case 0
  then show ?case by (subst fixFwd_val_loop.simps) (auto simp: forwarded_def)
next
  case (Suc n)
  then show ?case by (subst fixFwd_val_loop.simps) (simp add: forwarded_def)
qed

lemma fixFwd_val_loop_Some:
  assumes "fixFwd_val_loop m B op = Some r"
  shows "\<exists>n. fwd_path m n op r"
proof (rule fixFwd_val_loop.raw_induct [of "\<lambda>m B op r. \<exists>n. fwd_path m n op r", OF _ assms])
  fix loop m B op r
  assume 1: "\<And>m B op r. loop m B op = Some r \<Longrightarrow> \<exists>n. fwd_path m n op r"
    "(if isObjptr op \<and> getHeader m (objptrToPointer op B) = GC_FORWARDED
      then loop m B (load64 m (objptrToPointer op B)) else Some op) = Some r"
  show "\<exists>n. fwd_path m n op r"
  proof (cases "forwarded m op")
    case True
    then have "loop m B (load64 m op) = Some r"
      using 1(2) by (simp add: forwarded_def)
    from 1(1) [OF this] obtain n where "fwd_path m n (load64 m op) r" ..
    with True have "fwd_path m (Suc n) op r" by simp
    then show ?thesis ..
  next
    case False
    then have "fwd_path m 0 op r" using 1(2) by (auto simp: forwarded_def split: if_splits)
    then show ?thesis ..
  qed
qed

lemma fixFwd_val_loop_iff: "fixFwd_val_loop m B op = Some r \<longleftrightarrow> (\<exists>n. fwd_path m n op r)"
  using fixFwd_val_loop_path fixFwd_val_loop_Some by blast

lemma fwd_path_end: "fwd_path m n op r \<Longrightarrow> \<not> forwarded m r"
  by (induction n arbitrary: op) auto

lemma fwd_path_not_forwarded: "\<not> forwarded m op \<Longrightarrow> fwd_path m n op r \<longleftrightarrow> n = 0 \<and> r = op"
  by (cases n) auto

text \<open>The memory version agrees with it when the slot is apart from the headers and
  first words of the objects on the path.\<close>

primrec path_apart :: "mem \<Rightarrow> pointer \<Rightarrow> nat \<Rightarrow> objptr \<Rightarrow> bool" where
  "path_apart m opp 0 op \<longleftrightarrow> disjnt_regions opp 8 (op - 8) 8"
| "path_apart m opp (Suc n) op \<longleftrightarrow> disjnt_regions opp 8 (op - 8) 8 \<and>
     disjnt_regions opp 8 op 8 \<and> path_apart m opp n (load64 m op)"

lemma getHeader_store_apart:
  "disjnt_regions opp 8 (op - 8) 8 \<Longrightarrow> getHeader (store64 m opp w) op = getHeader m op"
  by (simp add: getHeader_def getHeaderp_def GC_HEADER_SIZE_def load64_store64_disjnt)

lemma fixFwd_loop_path:
  "fwd_path m n op r \<Longrightarrow> path_apart m opp n op \<Longrightarrow>
    fixFwd_loop (store64 m opp op) B opp op = Some (store64 m opp r)"
proof (induction n arbitrary: op)
  case 0
  then show ?case
    by (subst fixFwd_loop.simps) (auto simp: forwarded_def getHeader_store_apart)
next
  case (Suc n)
  then have "load64 (store64 m opp op) op = load64 m op"
    by (simp add: load64_store64_disjnt)
  with Suc show ?case
    by (subst fixFwd_loop.simps) (simp add: forwarded_def getHeader_store_apart)
qed

lemma fixFwdObjptr_path:
  assumes "isObjptr (load64 m opp)" "load64 m opp \<noteq> 0"
    "fwd_path m n (load64 m opp) r" "path_apart m opp n (load64 m opp)"
  shows "fixFwdObjptr m B opp = Some (store64 m opp r)"
  using fixFwd_loop_path [OF assms(3,4), of B] assms(1,2) by (simp add: fixFwdObjptr_def)

section \<open>Sizes: lemmas\<close>

lemma elementBytes_unat:
  "unat (elementBytes ty) = unat (bytesNonObjptrs ty) + unat (numObjptrs ty) * 8"
proof -
  have lt: "unat (bytesNonObjptrs ty) < 2 ^ 16" "unat (numObjptrs ty) < 2 ^ 16"
    using unsigned_less [of "bytesNonObjptrs ty", where ?'a = nat]
      unsigned_less [of "numObjptrs ty", where ?'a = nat] by simp_all
  then have "unat (ucast (numObjptrs ty) * OBJPTR_SIZE) = unat (numObjptrs ty) * 8"
    using unat_mult_lem [of "ucast (numObjptrs ty) :: u64" OBJPTR_SIZE]
    by (simp add: OBJPTR_SIZE_def unsigned_ucast_eq take_bit_nat_eq_self)
  then show ?thesis
    using lt unat_add_lem [of "ucast (bytesNonObjptrs ty) :: u64" "ucast (numObjptrs ty) * OBJPTR_SIZE"]
    by (simp add: elementBytes_def unsigned_ucast_eq take_bit_nat_eq_self)
qed

lemma sizeofArray_bounds:
  assumes "align_arg (alignment g)"
    "unat n * unat (elementBytes ty) + 32 + unat (alignment g) \<le> 2 ^ 64"
  shows "isAligned (GC_ARRAY_HEADER_SIZE + sizeofArrayNoHeader g n ty) (alignment g)"
    "unat n * unat (elementBytes ty) \<le> unat (sizeofArrayNoHeader g n ty)"
    "8 \<le> unat (sizeofArrayNoHeader g n ty)"
proof -
  let ?d = "n * elementBytes ty"
  let ?r = "if ?d < OBJPTR_SIZE then OBJPTR_SIZE else ?d"
  have d: "unat ?d = unat n * unat (elementBytes ty)"
    using assms(2) unat_mult_lem [of n "elementBytes ty"] by simp
  have r: "unat ?r = max 8 (unat ?d)"
    by (auto simp: OBJPTR_SIZE_def word_less_nat_alt)
  have "unat ?r + unat GC_ARRAY_HEADER_SIZE + unat (alignment g) \<le> 2 ^ 64"
    using assms(2) unfolding r d
    by (simp add: GC_ARRAY_HEADER_SIZE_def GC_ARRAY_LENGTH_SIZE_def GC_ARRAY_COUNTER_SIZE_def GC_HEADER_SIZE_def)
  note ae = alignWithExtra_spec [OF assms(1) this]
  have eq: "sizeofArrayNoHeader g n ty = alignWithExtra (alignment g) ?r GC_ARRAY_HEADER_SIZE"
    by (simp add: sizeofArrayNoHeader_def Let_def)
  show "isAligned (GC_ARRAY_HEADER_SIZE + sizeofArrayNoHeader g n ty) (alignment g)"
    using ae(1) by (simp only: eq add.commute)
  have "unat ?r \<le> unat (sizeofArrayNoHeader g n ty)"
    using ae(2) unfolding eq word_le_nat_alt .
  then show "unat n * unat (elementBytes ty) \<le> unat (sizeofArrayNoHeader g n ty)"
    "8 \<le> unat (sizeofArrayNoHeader g n ty)"
    unfolding r d by auto
qed

lemma array_slot_bounds:
  fixes i n k q b :: nat
  assumes "i < n" "k < q"
  shows "i * (b + q * 8) + b + k * 8 + 8 \<le> n * (b + q * 8)"
proof -
  have "(i + 1) * (b + q * 8) \<le> n * (b + q * 8)"
    using assms(1) by (intro mult_right_mono) auto
  moreover have "k * 8 + 8 \<le> q * 8" using assms(2) by simp
  ultimately show ?thesis by (simp only: distrib_right mult_1)
qed

lemma skipForwarded_end: "getHeader m p \<noteq> GC_FORWARDED \<Longrightarrow> skipForwarded m B p = Some p"
  by (subst skipForwarded.simps) simp

lemma skipForwarded_path:
  "fwd_path m n p r \<Longrightarrow> isObjptr r \<Longrightarrow> skipForwarded m B p = Some r"
proof (induction n arbitrary: p)
  case 0
  then show ?case by (subst skipForwarded.simps) (auto simp: forwarded_def)
next
  case (Suc n)
  then show ?case by (subst skipForwarded.simps) (simp add: forwarded_def)
qed

lemma skipThreaded_end: "header AND 1 \<noteq> 0 \<Longrightarrow> skipThreaded m header = Some header"
  by (subst skipThreaded.simps) simp

section \<open>Properties\<close>

text \<open>Whatever the lift, virgin, counter and mark bits of a header are, \<open>splitHeader\<close>
  selects the object type the header was built from, and a built header is valid and
  not the forwarding mark.\<close>

theorem splitHeader_built:
  assumes "unat t < 2 ^ TYPE_INDEX_BITS" "f AND NOT header_flags = 0"
  shows "splitHeader types (buildHeaderFromTypeIndex t OR f) =
      (if unat t < length types then Some (types ! unat t) else None) \<and>
    buildHeaderFromTypeIndex t AND GC_VALID_HEADER_MASK = 1 \<and>
    buildHeaderFromTypeIndex t \<noteq> GC_FORWARDED"
proof -
  have "\<not> bit (buildHeaderFromTypeIndex t) 63"
    unfolding buildHeaderFromTypeIndex_def bit_unsigned_iff
    using bit_imp_le_length [where n = 63 and w = "1 OR push_bit 1 t"] by auto
  then have "buildHeaderFromTypeIndex t \<noteq> GC_FORWARDED"
    by (auto simp: GC_FORWARDED_def)
  then show ?thesis
    using objectTypeIndex_flags [OF assms(2)] objectTypeIndex_build [OF assms(1)] build_valid
    by (simp add: splitHeader_def Let_def GC_VALID_HEADER_MASK_def)
qed

definition demo_array_type :: GC_objectType where
  "demo_array_type = \<lparr> tag = ARRAY_TAG, hasIdentity = False, bytesNonObjptrs = 4, numObjptrs = 2,
     hasIdentityTransitive = False, isUnbounded = True \<rparr>"

lemma splitHeader_built_witness:
  "splitHeader [demo_array_type] (buildHeaderFromTypeIndex 0 OR LIFT_MASK) =
      (if unat (0 :: u32) < length [demo_array_type] then Some ([demo_array_type] ! unat (0 :: u32)) else None) \<and>
    buildHeaderFromTypeIndex 0 AND GC_VALID_HEADER_MASK = 1 \<and>
    buildHeaderFromTypeIndex 0 \<noteq> GC_FORWARDED"
  by (rule splitHeader_built)
     (simp_all add: TYPE_INDEX_BITS_def header_flags_def LIFT_MASK_def VIRGIN_MASK_def
       COUNTER_MASK_def MARK_MASK_def)

text \<open>C39: The read barrier on a local variable returns a pointer exactly when some number
  of forwarding steps ends at an object that is not forwarded, and then returns that
  object; on a cycle of forwarding pointers it does not return.\<close>

theorem fixFwdObjptr_val_iff:
  assumes "isObjptr op" "op \<noteq> 0"
  shows "(fixFwdObjptr_val m B op = Some r \<longleftrightarrow> (\<exists>n. fwd_path m n op r)) \<and>
    (fixFwdObjptr_val m B op = None \<longleftrightarrow> (\<nexists>n r. fwd_path m n op r))"
proof -
  have "fixFwdObjptr_val m B op = fixFwd_val_loop m B op"
    using assms by (simp add: fixFwdObjptr_val_def)
  then show ?thesis
    using fixFwd_val_loop_iff [of m B op] by (metis not_None_eq)
qed

text \<open>A memory with an object at 1000 that is forwarded to 2000.\<close>

definition demo_fwd_mem :: mem where
  "demo_fwd_mem = store64 (store64 (\<lambda>_. 0) 992 GC_FORWARDED) 1000 2000"

lemma demo_zero_load: "load64 (\<lambda>_. 0) a = 0"
  by (rule bit_word_eqI) (simp add: load64_def bit_word_of_bytes load_bytes_def)

lemma demo_fwd_path: "fwd_path demo_fwd_mem 1 1000 2000"
  by (simp add: forwarded_def demo_fwd_mem_def getHeader_def getHeaderp_def GC_HEADER_SIZE_def
      isObjptr_eq load64_store64_disjnt disjnt_regions_def demo_zero_load GC_FORWARDED_def)

lemma fixFwdObjptr_val_iff_witness:
  "fixFwdObjptr_val demo_fwd_mem 0 1000 = Some 2000"
proof -
  have "isObjptr 1000" "(1000 :: objptr) \<noteq> 0" by (simp_all add: isObjptr_eq)
  from fixFwdObjptr_val_iff [OF this, THEN conjunct1, of demo_fwd_mem 0 2000] demo_fwd_path
  show ?thesis by blast
qed

text \<open>C29: Run on a slot in memory that lies apart from the objects it goes through, the
  read barrier changes nothing but the slot, which then holds an object that is not
  forwarded; running it again changes nothing.\<close>

theorem fixFwdObjptr_correct:
  assumes "isObjptr (load64 m opp)" "load64 m opp \<noteq> 0"
    "fwd_path m n (load64 m opp) r" "path_apart m opp n (load64 m opp)"
    "disjnt_regions opp 8 (r - 8) 8"
  shows "fixFwdObjptr m B opp = Some (store64 m opp r) \<and>
    \<not> forwarded (store64 m opp r) (load64 (store64 m opp r) opp) \<and>
    fixFwdObjptr (store64 m opp r) B opp = Some (store64 m opp r)"
proof -
  have r: "\<not> forwarded m r" using fwd_path_end [OF assms(3)] .
  then have nf: "\<not> forwarded (store64 m opp r) r"
    using assms(5) by (simp add: forwarded_def getHeader_store_apart)
  moreover have "fixFwd_loop (store64 m opp r) B opp r = Some (store64 m opp r)"
    using nf by (subst fixFwd_loop.simps) (auto simp: forwarded_def)
  ultimately show ?thesis
    using fixFwdObjptr_path [OF assms(1-4), of B] by (simp add: fixFwdObjptr_def)
qed

lemma fixFwdObjptr_correct_witness:
  "fixFwdObjptr (store64 demo_fwd_mem 5000 1000) 0 5000 =
    Some (store64 (store64 demo_fwd_mem 5000 1000) 5000 2000)"
proof -
  let ?m = "store64 demo_fwd_mem 5000 1000"
  have "fwd_path ?m 1 1000 2000"
    by (simp add: forwarded_def demo_fwd_mem_def getHeader_def getHeaderp_def GC_HEADER_SIZE_def
        isObjptr_eq load64_store64_disjnt disjnt_regions_def demo_zero_load GC_FORWARDED_def)
  moreover have "path_apart ?m 5000 1 1000"
    by (simp add: demo_fwd_mem_def disjnt_regions_def load64_store64_disjnt)
  ultimately show ?thesis
    using fixFwdObjptr_correct [of ?m 5000 1 2000 0]
    by (simp add: isObjptr_eq disjnt_regions_def)
qed

text \<open>An array's size with its header is a multiple of the alignment, and its body
  holds all the elements and a forwarding pointer; every object pointer slot that
  \<open>indexArrayAtObjptrIndex\<close> computes for an index in range lies inside the body.\<close>

theorem array_layout:
  assumes "align_arg (alignment g)" "splitHeader (objectTypes g) (getHeader m a) = Some ty"
    "unat n * unat (elementBytes ty) + 32 + unat (alignment g) \<le> 2 ^ 64"
    "i < n" "ucast k < numObjptrs ty"
    "unat k < 2 ^ 16"
  shows "isAligned (GC_ARRAY_HEADER_SIZE + sizeofArrayNoHeader g n ty) (alignment g) \<and>
    OBJPTR_SIZE \<le> sizeofArrayNoHeader g n ty \<and>
    (\<exists>slot. indexArrayAtObjptrIndex g m a i k = Some slot \<and>
      off a slot + 8 \<le> unat (sizeofArrayNoHeader g n ty))"
proof -
  let ?b = "unat (bytesNonObjptrs ty)" and ?q = "unat (numObjptrs ty)"
  let ?o = "i * elementBytes ty + ucast (bytesNonObjptrs ty) + ucast k * OBJPTR_SIZE"
  have k: "unat k < ?q"
    using assms(5,6) by (simp add: word_less_nat_alt unsigned_ucast_eq take_bit_nat_eq_self)
  have i: "unat i < unat n" using assms(4) by (simp add: word_less_nat_alt)
  note sb = sizeofArray_bounds [OF assms(1,3)]
  have "unat i * (?b + ?q * 8) + ?b + unat k * 8 + 8 \<le> unat n * (?b + ?q * 8)"
    by (rule array_slot_bounds [OF i k])
  then have bound: "unat i * unat (elementBytes ty) + ?b + unat k * 8 + 8 \<le> unat n * unat (elementBytes ty)"
    by (simp only: elementBytes_unat)
  have "unat ?o = unat i * unat (elementBytes ty) + ?b + unat k * 8"
  proof -
    have lim: "unat i * unat (elementBytes ty) + ?b + unat k * 8 < 2 ^ 64"
      using bound assms(3) by linarith
    have 1: "unat (i * elementBytes ty) = unat i * unat (elementBytes ty)"
      using lim unat_mult_lem [of i "elementBytes ty"] by simp
    have 2: "unat (i * elementBytes ty + ucast (bytesNonObjptrs ty)) = unat i * unat (elementBytes ty) + ?b"
      using lim 1 unat_add_lem [of "i * elementBytes ty" "ucast (bytesNonObjptrs ty)"]
        unsigned_less [of "bytesNonObjptrs ty", where ?'a = nat]
      by (simp add: unsigned_ucast_eq take_bit_nat_eq_self)
    have 3: "unat (ucast k * OBJPTR_SIZE) = unat k * 8"
      using assms(6) unat_mult_lem [of "ucast k" OBJPTR_SIZE]
      by (simp add: OBJPTR_SIZE_def unsigned_ucast_eq take_bit_nat_eq_self)
    show ?thesis
      using lim 2 3 unat_add_lem [of "i * elementBytes ty + ucast (bytesNonObjptrs ty)" "ucast k * OBJPTR_SIZE"]
      by simp
  qed
  with bound sb(2) have "unat ?o + 8 \<le> unat (sizeofArrayNoHeader g n ty)" by linarith
  moreover have "indexArrayAtObjptrIndex g m a i k = Some (a + ?o)"
    using assms(2) by (simp add: indexArrayAtObjptrIndex_def add.assoc)
  ultimately show ?thesis
    using sb(1,3) by (auto simp: OBJPTR_SIZE_def word_le_nat_alt)
qed

definition demo_static :: gc_static where
  "demo_static = \<lparr> objectTypes = [demo_array_type], alignment = 8, maxFrameSize = 100,
     frameLayouts = [\<lparr> kind = ML_FRAME, offsets = [0], size = 24 \<rparr>],
     returnAddressToFrameIndex = (\<lambda>_. 0) \<rparr>"

lemma demo_split: "splitHeader (objectTypes demo_static) 1 = Some demo_array_type"
  by (simp add: splitHeader_def objectTypeIndex_eq demo_static_def)

lemma array_layout_witness:
  "\<exists>slot. indexArrayAtObjptrIndex demo_static (store64 (\<lambda>_. 0) 992 1) 1000 4 1 = Some slot \<and>
      off 1000 slot + 8 \<le> unat (sizeofArrayNoHeader demo_static 10 demo_array_type)"
proof -
  have "align_arg (alignment demo_static)" by (simp add: demo_static_def align_arg_def)
  moreover have "splitHeader (objectTypes demo_static) (getHeader (store64 (\<lambda>_. 0) 992 1) 1000) =
      Some demo_array_type"
    by (simp add: getHeader_def getHeaderp_def GC_HEADER_SIZE_def demo_split)
  moreover have "unat (10 :: u64) * unat (elementBytes demo_array_type) + 32 +
      unat (alignment demo_static) \<le> 2 ^ 64"
    by (simp add: elementBytes_unat demo_array_type_def demo_static_def)
  ultimately show ?thesis
    using array_layout [of demo_static "store64 (\<lambda>_. 0) 992 1" 1000 demo_array_type 10 4 1]
    by (simp add: demo_array_type_def)
qed

text \<open>\<open>sizeofObject\<close> called on a forwarded object that is not a stack answers for
  the object at the end of the forwarding path.\<close>

theorem sizeofObject_forwarded:
  assumes "fwd_path m n p r" "isObjptr r" "getHeader m r AND 1 \<noteq> 0"
    "splitHeader (objectTypes g) (getHeader m r) = Some ty" "tag ty \<noteq> STACK_TAG"
  shows "sizeofObject g B m p = sizeofObject g B m r \<and> sizeofObject g B m r \<noteq> None"
proof -
  have "\<not> forwarded m r" using fwd_path_end [OF assms(1)] .
  then have "skipForwarded m B r = Some r"
    using assms(2) by (intro skipForwarded_end) (simp add: forwarded_def)
  then show ?thesis
    using assms by (simp add: sizeofObject_def skipForwarded_path skipThreaded_end
        objectBytesByTag_def split_beta)
qed

lemma sizeofObject_forwarded_witness:
  "sizeofObject demo_static 0 (store64 demo_fwd_mem 1992 1) 1000 =
    sizeofObject demo_static 0 (store64 demo_fwd_mem 1992 1) 2000"
proof -
  let ?m = "store64 demo_fwd_mem 1992 1"
  have "fwd_path ?m 1 1000 2000"
    by (simp add: forwarded_def demo_fwd_mem_def getHeader_def getHeaderp_def GC_HEADER_SIZE_def
        isObjptr_eq load64_store64_disjnt disjnt_regions_def GC_FORWARDED_def)
  moreover have h: "getHeader ?m 2000 = 1"
    by (simp add: getHeader_def getHeaderp_def GC_HEADER_SIZE_def)
  ultimately show ?thesis
    using sizeofObject_forwarded [of ?m 1 1000 2000 demo_static demo_array_type 0] demo_split
    by (simp add: isObjptr_eq demo_array_type_def)
qed

text \<open>The reserve that \<open>sizeofStackMinimumReserved\<close> computes keeps the stack object
  aligned and leaves, above the bytes in use, the slop less the topmost frame.\<close>

theorem sizeofStackMinimumReserved_correct:
  assumes "align_arg (alignment g)" "getStackTopFrameSize g m stk = Some fs"
    "unat (fs :: u16) \<le> unat (stack_used m stk)"
    "unat (stack_used m stk) + unat (sizeofStackSlop g) + 56 + unat (alignment g) \<le> 2 ^ 64"
  shows "\<exists>R. sizeofStackMinimumReserved g m stk = Some R \<and> isStackReservedAligned g R \<and>
    unat (stack_used m stk) + unat (sizeofStackSlop g) \<le> unat R + unat fs"
proof -
  let ?u = "stack_used m stk" and ?s = "sizeofStackSlop g"
  let ?n = "?u + ?s - ucast fs"
  have us: "unat (?u + ?s) = unat ?u + unat ?s"
    using assms(4) unat_add_lem [of ?u ?s] by simp
  have f: "unat (ucast fs :: u64) = unat fs"
    using unsigned_less [of fs, where ?'a = nat]
    by (simp add: unsigned_ucast_eq take_bit_nat_eq_self)
  then have "(ucast fs :: u64) \<le> ?u + ?s"
    using assms(3) by (simp add: word_le_nat_alt us)
  then have n: "unat ?n = unat ?u + unat ?s - unat fs"
    by (simp add: unat_sub us f)
  then have "unat ?n + unat (GC_STACK_HEADER_SIZE + sizeof_GC_stack) + unat (alignment g) \<le> 2 ^ 64"
    using assms(4) by (simp add: GC_STACK_HEADER_SIZE_def GC_HEADER_SIZE_def sizeof_GC_stack_def)
  from alignWithExtra_spec [OF assms(1) this] n show ?thesis
    using assms(2)
    by (auto simp: sizeofStackMinimumReserved_def alignStackReserved_def isStackReservedAligned_def
        add.commute word_le_nat_alt)
qed

lemma sizeofStackMinimumReserved_correct_witness:
  "\<exists>R. sizeofStackMinimumReserved demo_static (store64 (\<lambda>_. 0) 1024 96) 1000 = Some R \<and>
    isStackReservedAligned demo_static R \<and>
    unat (stack_used (store64 (\<lambda>_. 0) 1024 96) 1000) + unat (sizeofStackSlop demo_static) \<le>
      unat R + unat (24 :: u16)"
  by (rule sizeofStackMinimumReserved_correct)
     (simp_all add: demo_static_def align_arg_def getStackTopFrameSize_def getStackTopFrameLayout_def
       getFrameLayoutFromFrameIndex_def getStackTopFrameIndex_def getFrameIndexFromReturnAddress_def
       stack_used_def sizeofStackSlop_def)

text \<open>\<open>GC_weakCanGet\<close> compares the whole header word: once the write barrier has set
  the lift bit in the header of a weak object that is gone, it answers that the object
  can be got, although the header still selects the type of weak objects that are gone.\<close>

lemma GC_weakCanGet_lifted:
  assumes "getHeader m p = GC_WEAK_GONE_HEADER OR LIFT_MASK"
  shows "GC_weakCanGet m p \<and>
    splitHeader types (getHeader m p) = splitHeader types GC_WEAK_GONE_HEADER"
proof -
  have "LIFT_MASK AND NOT header_flags = 0"
    by (simp add: header_flags_def LIFT_MASK_def VIRGIN_MASK_def COUNTER_MASK_def MARK_MASK_def)
  then have "splitHeader types (getHeader m p) = splitHeader types GC_WEAK_GONE_HEADER"
    by (simp add: splitHeader_def objectTypeIndex_flags assms)
  moreover have "GC_weakCanGet m p"
    by (simp add: GC_weakCanGet_def assms GC_WEAK_GONE_HEADER_def buildHeaderFromTypeIndex_def
        WEAK_GONE_TYPE_INDEX_def LIFT_MASK_def)
  ultimately show ?thesis by blast
qed

end
