(* ===== verification/Sched_Queue.thy ===== *)
theory Sched_Queue
  imports Object_Model
begin

text \<open>
  The scheduler queues of \<open>gc/scheduler-queue.c\<close>: circular buffers of object
  pointers, three per processor, each guarded by the processor's scheduler lock.
  Indices are 32-bit and wrap, the capacity is a 64-bit \<open>size_t\<close>; their difference is
  computed in 32 bits before it is widened, which is why the capacity has to be a power
  of two. \<open>malloc\<close> is a parameter: \<open>mal n\<close> gives the initial contents
  of \<open>n\<close> fresh words, or \<open>None\<close> when it fails. \<open>None\<close> as a result is undefined
  behaviour: an access outside \<open>keys\<close> or through a null pointer.
\<close>

section \<open>The interface of a bounded queue\<close>

text \<open>What the scheduler relies on: an enqueue with room appends, a dequeue removes the
  oldest element, growing keeps the contents and makes room.\<close>

locale fifo =
  fixes inv :: "'q \<Rightarrow> bool" and contents :: "'q \<Rightarrow> 'k list"
    and isFull :: "'q \<Rightarrow> bool" and isEmpty :: "'q \<Rightarrow> bool"
    and enq :: "'q \<Rightarrow> 'k \<Rightarrow> 'q option" and deq :: "'q \<Rightarrow> ('k \<times> 'q) option"
    and alloc_ok :: "'m \<Rightarrow> bool" and grow :: "'m \<Rightarrow> 'q \<Rightarrow> 'q option"
  assumes isEmpty_iff: "inv q \<Longrightarrow> isEmpty q \<longleftrightarrow> contents q = []"
    and enq_room: "inv q \<Longrightarrow> \<not> isFull q \<Longrightarrow>
      \<exists>q'. enq q k = Some q' \<and> inv q' \<and> contents q' = contents q @ [k]"
    and deq_first: "inv q \<Longrightarrow> contents q = k # ks \<Longrightarrow>
      \<exists>q'. deq q = Some (k, q') \<and> inv q' \<and> contents q' = ks"
    and grow_room: "alloc_ok m \<Longrightarrow> inv q \<Longrightarrow> isFull q \<Longrightarrow> grow m q = Some q' \<Longrightarrow>
      inv q' \<and> contents q' = contents q \<and> \<not> isFull q'"

text \<open>Enqueue with growth on demand, and dequeue of a number of elements.\<close>

definition enq_growing ::
    "('q \<Rightarrow> bool) \<Rightarrow> ('q \<Rightarrow> 'k \<Rightarrow> 'q option) \<Rightarrow> ('q \<Rightarrow> 'q option) \<Rightarrow> 'q \<Rightarrow> 'k \<Rightarrow> 'q option" where
  "enq_growing isFull enq grow q k =
    Option.bind (if isFull q then grow q else Some q) (\<lambda>q. enq q k)"

fun enq_list :: "('q \<Rightarrow> 'k \<Rightarrow> 'q option) \<Rightarrow> 'q \<Rightarrow> 'k list \<Rightarrow> 'q option" where
  "enq_list e q [] = Some q"
| "enq_list e q (k # ks) = Option.bind (e q k) (\<lambda>q. enq_list e q ks)"

fun deq_list :: "('q \<Rightarrow> ('k \<times> 'q) option) \<Rightarrow> nat \<Rightarrow> 'q \<Rightarrow> ('k list \<times> 'q) option" where
  "deq_list d 0 q = Some ([], q)"
| "deq_list d (Suc n) q =
    Option.bind (d q) (\<lambda>(k, q). map_option (\<lambda>(ks, q). (k # ks, q)) (deq_list d n q))"

context fifo
begin

lemma enq_growing_contents:
  assumes "alloc_ok m" "inv q" "enq_growing isFull enq (grow m) q k = Some q'"
  shows "inv q'" "contents q' = contents q @ [k]"
proof -
  obtain q1 where q1: "inv q1" "contents q1 = contents q" "\<not> isFull q1" "enq q1 k = Some q'"
  proof (cases "isFull q")
    case True
    with assms(3) obtain q1 where "grow m q = Some q1" "enq q1 k = Some q'"
      by (auto simp: enq_growing_def bind_eq_Some_conv)
    with grow_room [OF assms(1,2) True, of q1] show thesis by (blast intro: that)
  next
    case False
    with assms show thesis by (intro that [of q]) (auto simp: enq_growing_def)
  qed
  show "inv q'" "contents q' = contents q @ [k]"
    using enq_room [OF q1(1,3), of k] q1 by auto
qed

lemma enq_list_contents:
  "alloc_ok m \<Longrightarrow> inv q \<Longrightarrow> enq_list (enq_growing isFull enq (grow m)) q ks = Some q' \<Longrightarrow>
    inv q' \<and> contents q' = contents q @ ks"
proof (induction ks arbitrary: q)
  case (Cons k ks)
  then obtain q1 where q1: "enq_growing isFull enq (grow m) q k = Some q1"
      "enq_list (enq_growing isFull enq (grow m)) q1 ks = Some q'"
    by (auto simp: bind_eq_Some_conv)
  show ?case
    using Cons.IH [OF Cons.prems(1) _ q1(2)] enq_growing_contents [OF Cons.prems(1,2) q1(1)] by simp
qed simp

lemma deq_list_contents:
  "inv q \<Longrightarrow> contents q = xs @ ys \<Longrightarrow>
    \<exists>q'. deq_list deq (length xs) q = Some (xs, q') \<and> inv q' \<and> contents q' = ys"
proof (induction xs arbitrary: q)
  case (Cons x xs)
  then obtain q1 where q1: "deq q = Some (x, q1)" "inv q1" "contents q1 = xs @ ys"
    using deq_first [of q x "xs @ ys"] by auto
  from Cons.IH [OF q1(2,3)] q1(1) show ?case by auto
qed auto

text \<open>Everything put in comes out, oldest first.\<close>

lemma first_in_first_out:
  assumes "alloc_ok m" "inv q" "enq_list (enq_growing isFull enq (grow m)) q ks = Some q1"
  shows "\<exists>q2. deq_list deq (length (contents q) + length ks) q1 = Some (contents q @ ks, q2) \<and>
    isEmpty q2"
proof -
  have "inv q1" "contents q1 = (contents q @ ks) @ []"
    using enq_list_contents [OF assms] by auto
  from deq_list_contents [OF this] show ?thesis
    using isEmpty_iff by auto
qed

end

section \<open>Circular buffers\<close>

definition BUFFER_SIZE :: int where "BUFFER_SIZE = 1024"

record CircularBuffer =
  writePointer :: u32
  readPointer :: u32
  bsize :: size_t
  keys :: "objptr list"

type_synonym malloc = "size_t \<Rightarrow> objptr list option"

text \<open>\<open>sz\<close> is an \<open>int\<close>: the byte count is computed in 64 bits and converted to 32, and
  converted back for \<open>malloc\<close>. \<open>keys\<close> holds the words that follow the 16-byte head.\<close>

definition CircularBufferInit :: "malloc \<Rightarrow> int \<Rightarrow> CircularBuffer option" where
  "CircularBufferInit mal n =
    (let sz = (scast (ucast (word_of_int n * 8 + 16 :: size_t) :: u32) :: size_t) in
     map_option (\<lambda>ks. \<lparr> writePointer = 0, readPointer = 0, bsize = word_of_int n, keys = ks \<rparr>)
       (mal sz))"

definition CircularBufferClean :: "CircularBuffer \<Rightarrow> CircularBuffer" where
  "CircularBufferClean que = que\<lparr> writePointer := 0, readPointer := 0 \<rparr>"

text \<open>\<open>memcpy\<close> of \<open>n\<close> keys.\<close>

definition copy_keys :: "objptr list \<Rightarrow> nat \<Rightarrow> objptr list \<Rightarrow> nat \<Rightarrow> nat \<Rightarrow> objptr list option" where
  "copy_keys dst d src s n =
    (if d + n \<le> length dst \<and> s + n \<le> length src
     then Some (take d dst @ take n (drop s src) @ drop (d + n) dst) else None)"

definition growCircularBuffer :: "malloc \<Rightarrow> CircularBuffer \<Rightarrow> CircularBuffer option" where
  "growCircularBuffer mal que =
    (let w = writePointer que; r = readPointer que; n = bsize que in
     Option.bind (CircularBufferInit mal (sint (ucast (n * 2) :: u32))) (\<lambda>newBuf.
     Option.bind
       (if r < w then copy_keys (keys newBuf) 0 (keys que) (unat r) (unat (w - r))
        else
          Option.bind (copy_keys (keys newBuf) 0 (keys que) (unat r) (unat (n - ucast r))) (\<lambda>ks.
          copy_keys ks (unat (n - ucast r)) (keys que) 0 (unat w))) (\<lambda>ks.
     Some (newBuf\<lparr> keys := ks, writePointer := ucast ((ucast (w - r) + n) mod n) \<rparr>))))"

definition CircularBufferIsFull :: "CircularBuffer \<Rightarrow> bool" where
  "CircularBufferIsFull que \<longleftrightarrow>
    (ucast (writePointer que + 1) :: size_t) mod bsize que = ucast (readPointer que)"

definition CircularBufferIsEmpty :: "CircularBuffer \<Rightarrow> bool" where
  "CircularBufferIsEmpty que \<longleftrightarrow> readPointer que = writePointer que"

definition CircularBufferEnque :: "CircularBuffer \<Rightarrow> objptr \<Rightarrow> (bool \<times> CircularBuffer) option" where
  "CircularBufferEnque que k =
    (let isFull = CircularBufferIsFull que; w = writePointer que in
     if unat w < length (keys que) then
       Some (isFull, que\<lparr> keys := (keys que)[unat w := k],
         writePointer := ucast ((ucast (w + 1) :: size_t) mod bsize que) \<rparr>)
     else None)"

text \<open>The returned flag is the C result, \<open>TRUE\<close> for an empty queue, which leaves the
  caller's variable unchanged.\<close>

definition CircularBufferDeque ::
    "CircularBuffer \<Rightarrow> objptr \<Rightarrow> (bool \<times> objptr \<times> CircularBuffer) option" where
  "CircularBufferDeque que pK =
    (let isEmpty = CircularBufferIsEmpty que; r = readPointer que in
     if isEmpty then Some (True, pK, que)
     else if unat r < length (keys que) then
       Some (False, keys que ! unat r,
         que\<lparr> readPointer := ucast ((ucast (r + 1) :: size_t) mod bsize que) \<rparr>)
     else None)"

text \<open>The number of keys, as \<open>sizeofSchedulerQueue\<close> computes it.\<close>

definition cb_count :: "CircularBuffer \<Rightarrow> size_t" where
  "cb_count que = (ucast (writePointer que - readPointer que) + bsize que) mod bsize que"

text \<open>The loop of \<open>foreachObjptrInSQ\<close> over one buffer: \<open>f\<close> may change the state and the
  key. It runs until the two indices meet, with \<open>fuel\<close> rounds at most.\<close>

fun foreach_keys ::
    "nat \<Rightarrow> ('s \<Rightarrow> objptr \<Rightarrow> 's \<times> objptr) \<Rightarrow> u32 \<Rightarrow> 's \<Rightarrow> CircularBuffer \<Rightarrow> ('s \<times> CircularBuffer) option" where
  "foreach_keys 0 f rp st que = (if rp = writePointer que then Some (st, que) else None)"
| "foreach_keys (Suc fuel) f rp st que =
    (if rp = writePointer que then Some (st, que)
     else if unat rp < length (keys que) then
       (let k = keys que ! unat rp;
            (st, k) = (if isObjptr k then f st k else (st, k));
            que = que\<lparr> keys := (keys que)[unat rp := k] \<rparr>;
            rp = ucast ((ucast (rp + 1) :: size_t) mod bsize que) in
        foreach_keys fuel f rp st que)
     else None)"

section \<open>Invariant and contents\<close>

definition cb_inv :: "CircularBuffer \<Rightarrow> bool" where
  "cb_inv q \<longleftrightarrow> (\<exists>k\<in>{1..31}. bsize q = 2 ^ k) \<and> length (keys q) = unat (bsize q) \<and>
    unat (readPointer q) < length (keys q) \<and> unat (writePointer q) < length (keys q)"

definition cb_len :: "CircularBuffer \<Rightarrow> nat" where
  "cb_len q = (unat (writePointer q) + length (keys q) - unat (readPointer q)) mod length (keys q)"

definition cb_list :: "CircularBuffer \<Rightarrow> objptr list" where
  "cb_list q = map (\<lambda>i. keys q ! ((unat (readPointer q) + i) mod length (keys q))) [0..<cb_len q]"

text \<open>What \<open>malloc\<close> documents: a region of the size asked for, never more than half the
  address space.\<close>

definition malloc_ok :: "malloc \<Rightarrow> bool" where
  "malloc_ok mal \<longleftrightarrow> (\<forall>sz ks. mal sz = Some ks \<longrightarrow> unat sz < 2 ^ 63 \<and> length ks = (unat sz - 16) div 8)"

lemma cb_invD:
  assumes "cb_inv q"
  shows "unat (bsize q) = length (keys q)" "2 \<le> length (keys q)" "length (keys q) \<le> 2 ^ 31"
    "length (keys q) dvd 2 ^ 32" "unat (readPointer q) < length (keys q)"
    "unat (writePointer q) < length (keys q)"
proof -
  obtain k where k: "1 \<le> k" "k \<le> 31" "bsize q = 2 ^ k" "length (keys q) = unat (bsize q)"
    using assms by (auto simp: cb_inv_def)
  then have n: "length (keys q) = 2 ^ k" by (simp add: unat_pow2)
  show "unat (bsize q) = length (keys q)" "unat (readPointer q) < length (keys q)"
    "unat (writePointer q) < length (keys q)" using assms k by (auto simp: cb_inv_def)
  show "2 \<le> length (keys q)" using power_increasing [of 1 k "2 :: nat"] k(1) n by simp
  show "length (keys q) \<le> 2 ^ 31" using power_increasing [of k 31 "2 :: nat"] k(2) n by simp
  show "length (keys q) dvd 2 ^ 32" using le_imp_power_dvd [of k 32 "2 :: nat"] k(2) n by simp
qed

lemma cb_len_less: "cb_inv q \<Longrightarrow> cb_len q < length (keys q)"
  unfolding cb_len_def using cb_invD(2) [of q] by (intro mod_less_divisor) linarith

lemma cb_len_eq:
  assumes "cb_inv q"
  shows "cb_len q = (if unat (readPointer q) \<le> unat (writePointer q)
    then unat (writePointer q) - unat (readPointer q)
    else unat (writePointer q) + length (keys q) - unat (readPointer q))"
proof (cases "unat (readPointer q) \<le> unat (writePointer q)")
  case True
  then have "unat (writePointer q) + length (keys q) - unat (readPointer q) =
      (unat (writePointer q) - unat (readPointer q)) + length (keys q)" by simp
  then show ?thesis using True cb_invD(6) [OF assms]
    unfolding cb_len_def by (simp only: mod_add_self2 if_True) simp
next
  case False
  then show ?thesis using cb_invD(5) [OF assms] by (simp add: cb_len_def)
qed

lemma length_cb_list [simp]: "length (cb_list q) = cb_len q"
  by (simp add: cb_list_def)

lemma unat_ucast_32_64 [simp]: "unat (ucast (p :: u32) :: size_t) = unat p"
  using unsigned_less [of p, where ?'a = nat] by (simp add: unsigned_ucast_eq take_bit_nat_eq_self)

lemma unat_ucast_64_32: "unat (x :: size_t) < 2 ^ 32 \<Longrightarrow> unat (ucast x :: u32) = unat x"
  by (simp add: unsigned_ucast_eq take_bit_nat_eq_self)

lemma unat_succ_32:
  assumes "unat (p :: u32) < 2 ^ 31"
  shows "unat (p + 1) = unat p + 1"
  using unat_add_lem [of p 1] assms by simp

lemma next_index:
  fixes p :: u32
  assumes "cb_inv q" "unat p < length (keys q)"
  shows "unat (ucast ((ucast (p + 1) :: size_t) mod bsize q) :: u32) = (unat p + 1) mod length (keys q)"
proof -
  note d = cb_invD [OF assms(1)]
  have "unat p < 2 ^ 31" using assms(2) d(3) by linarith
  then have "unat ((ucast (p + 1) :: size_t) mod bsize q) = (unat p + 1) mod length (keys q)"
    unfolding unat_mod unat_ucast_32_64 d(1) by (simp only: unat_succ_32 [OF \<open>unat p < 2 ^ 31\<close>])
  moreover have "(unat p + 1) mod length (keys q) < 2 ^ 32"
    using d(3) mod_less_divisor [of "length (keys q)" "unat p + 1", OF less_le_trans [OF _ d(2)]] by simp
  ultimately show ?thesis using unat_ucast_64_32 [of "ucast (p + 1) mod bsize q"] by simp
qed

lemma sub_32:
  "unat ((w :: u32) - r) = (if unat r \<le> unat w then unat w - unat r else unat w + 2 ^ 32 - unat r)"
  using unat_sub_if' [of w r] by simp

text \<open>The count computed through a 32-bit difference is right because the capacity
  divides \<open>2 ^ 32\<close>.\<close>

lemma wrapped_count:
  fixes w r n :: nat
  assumes "w < n" "r < n" "n dvd 2 ^ 32" "n \<le> 2 ^ 31"
  shows "((if r \<le> w then w - r else w + 2 ^ 32 - r) + n) mod n = (w + n - r) mod n"
proof (cases "r \<le> w")
  case True
  then have "w - r + n = w + n - r" by simp
  then show ?thesis using True by simp
next
  case False
  obtain c where "2 ^ 32 = n * c" using assms(3) by (auto simp: dvd_def)
  then have "w + 2 ^ 32 - r + n = (w + n - r) + n * c"
    using False assms by simp
  then show ?thesis using False by (simp only: if_False mod_mult_self2)
qed

lemma cb_count_len: "cb_inv q \<Longrightarrow> unat (cb_count q) = cb_len q"
proof -
  assume q: "cb_inv q"
  note d = cb_invD [OF q]
  let ?w = "writePointer q" and ?r = "readPointer q"
  have "unat (ucast (?w - ?r) + bsize q) = unat (?w - ?r) + length (keys q)"
    using unat_add_lem [of "ucast (?w - ?r)" "bsize q"] unsigned_less [of "?w - ?r", where ?'a = nat] d(1,3)
    by simp
  then show ?thesis
    unfolding cb_count_def cb_len_def unat_mod d(1) sub_32
    using wrapped_count [OF d(6,5,4,3)] by simp
qed

lemma isFull_iff: "cb_inv q \<Longrightarrow> CircularBufferIsFull q \<longleftrightarrow> cb_len q + 1 = length (keys q)"
proof -
  assume q: "cb_inv q"
  note d = cb_invD [OF q]
  let ?n = "length (keys q)" and ?w = "unat (writePointer q)" and ?r = "unat (readPointer q)"
  have "?w < 2 ^ 31" using d(3,6) by linarith
  then have "CircularBufferIsFull q \<longleftrightarrow> (?w + 1) mod ?n = ?r"
    unfolding CircularBufferIsFull_def word_unat_eq_iff unat_mod unat_ucast_32_64
    by (simp only: unat_succ_32 [OF \<open>?w < 2 ^ 31\<close>] d(1))
  also have "\<dots> \<longleftrightarrow> cb_len q + 1 = ?n"
  proof (cases "?w + 1 = ?n")
    case True
    then show ?thesis using d(5,6) by (auto simp: cb_len_eq [OF q])
  next
    case False
    then have "(?w + 1) mod ?n = ?w + 1" using d(6) by simp
    then show ?thesis using False d(5,6) by (auto simp: cb_len_eq [OF q])
  qed
  finally show ?thesis .
qed

lemma isEmpty_iff_list: "cb_inv q \<Longrightarrow> CircularBufferIsEmpty q \<longleftrightarrow> cb_list q = []"
proof -
  assume q: "cb_inv q"
  note d = cb_invD [OF q]
  have "cb_len q = 0 \<longleftrightarrow> readPointer q = writePointer q"
    using d(5,6) by (auto simp: cb_len_eq [OF q] word_unat_eq_iff)
  then show ?thesis by (simp add: CircularBufferIsEmpty_def flip: length_0_conv)
qed

section \<open>Operations on the contents\<close>

lemma end_index:
  assumes "cb_inv q"
  shows "(unat (readPointer q) + cb_len q) mod length (keys q) = unat (writePointer q)"
  using cb_invD [OF assms] cb_len_less [OF assms]
  by (auto simp: mod_add_lt cb_len_eq [OF assms])

lemma nth_cb_list:
  "i < cb_len q \<Longrightarrow> cb_list q ! i = keys q ! ((unat (readPointer q) + i) mod length (keys q))"
  by (simp add: cb_list_def)

lemma cb_inv_update:
  assumes "cb_inv q" "length ks = length (keys q)" "unat r < length ks" "unat w < length ks"
  shows "cb_inv \<lparr> writePointer = w, readPointer = r, bsize = bsize q, keys = ks \<rparr>"
  using assms by (simp add: cb_inv_def)

lemma Enque_room:
  assumes q: "cb_inv q" and room: "\<not> CircularBufferIsFull q"
  shows "\<exists>q'. CircularBufferEnque q k = Some (False, q') \<and> cb_inv q' \<and> cb_list q' = cb_list q @ [k]"
proof -
  note d = cb_invD [OF q]
  let ?n = "length (keys q)" and ?r = "unat (readPointer q)" and ?w = "unat (writePointer q)"
  let ?w' = "ucast ((ucast (writePointer q + 1) :: size_t) mod bsize q) :: u32"
  let ?q' = "q\<lparr> keys := (keys q)[?w := k], writePointer := ?w' \<rparr>"
  have w': "unat ?w' = (?w + 1) mod ?n" by (rule next_index [OF q d(6)])
  have len: "cb_len q + 1 < ?n" using room isFull_iff [OF q] cb_len_less [OF q] by linarith
  have n0: "0 < ?n" using d(2) by linarith
  have inv': "cb_inv ?q'"
    using q w' n0 by (auto simp: cb_inv_def)
  have "(?r + (cb_len q + 1)) mod ?n = unat ?w'"
    using end_index [OF q] unfolding w' by (metis add.assoc mod_add_left_eq)
  moreover have "(?r + cb_len ?q') mod ?n = unat ?w'"
    using end_index [OF inv'] by simp
  ultimately have len': "cb_len ?q' = cb_len q + 1"
    using mod_add_inj [OF d(5), of "cb_len ?q'" "cb_len q + 1"] len cb_len_less [OF inv'] by simp
  have "cb_list ?q' = cb_list q @ [k]"
  proof (rule nth_equalityI)
    fix i assume "i < length (cb_list ?q')"
    then have i: "i < cb_len q + 1" by (simp add: len')
    show "cb_list ?q' ! i = (cb_list q @ [k]) ! i"
    proof (cases "i = cb_len q")
      case True
      then show ?thesis using end_index [OF q] d(6) by (simp add: nth_cb_list len' nth_append)
    next
      case False
      then have "i < cb_len q" using i by simp
      then have "(?r + i) mod ?n \<noteq> ?w"
        using mod_add_inj [OF d(5), of i "cb_len q"] end_index [OF q] len by auto
      then show ?thesis using \<open>i < cb_len q\<close> by (simp add: nth_cb_list len' nth_append)
    qed
  qed (simp add: len')
  then show ?thesis
    using inv' room d(6) by (simp add: CircularBufferEnque_def Let_def)
qed

lemma Deque_empty: "CircularBufferIsEmpty q \<Longrightarrow> CircularBufferDeque q pK = Some (True, pK, q)"
  by (simp add: CircularBufferDeque_def)

lemma Deque_first:
  assumes q: "cb_inv q" and ne: "cb_list q = k # ks"
  shows "\<exists>q'. CircularBufferDeque q pK = Some (False, k, q') \<and> cb_inv q' \<and> cb_list q' = ks"
proof -
  note d = cb_invD [OF q]
  let ?n = "length (keys q)" and ?r = "unat (readPointer q)" and ?w = "unat (writePointer q)"
  let ?r' = "ucast ((ucast (readPointer q + 1) :: size_t) mod bsize q) :: u32"
  let ?q' = "q\<lparr> readPointer := ?r' \<rparr>"
  have r': "unat ?r' = (?r + 1) mod ?n" by (rule next_index [OF q d(5)])
  have n0: "0 < ?n" using d(2) by linarith
  have l: "cb_len q = Suc (length ks)" using arg_cong [OF ne, of length] by simp
  have inv': "cb_inv ?q'"
    using q r' n0 by (auto simp: cb_inv_def)
  have step: "((?r + 1) mod ?n + i) mod ?n = (?r + (i + 1)) mod ?n" for i
    using mod_add_left_eq [of "?r + 1" ?n i] by (simp only: add.assoc add.commute [of 1 i])
  have e: "cb_len ?q' = (if (?r + 1) mod ?n \<le> ?w then ?w - (?r + 1) mod ?n
      else ?w + ?n - (?r + 1) mod ?n)"
    using cb_len_eq [OF inv'] by (simp add: r')
  have len': "cb_len ?q' + 1 = cb_len q"
  proof (cases "?r + 1 = ?n")
    case True
    then have "(?r + 1) mod ?n = 0" by simp
    then show ?thesis
      using True l d(6) e cb_len_eq [OF q] by (simp split: if_splits)
  next
    case False
    then have "(?r + 1) mod ?n = ?r + 1" using d(5) by simp
    then show ?thesis
      using False l d(5,6) e cb_len_eq [OF q] by (simp split: if_splits)
  qed
  have "keys q ! ?r = k"
    using arg_cong [OF ne, of "\<lambda>l. l ! 0"] nth_cb_list [of 0 q] l d(5) by simp
  moreover have "cb_list ?q' = ks"
  proof (rule nth_equalityI)
    show "length (cb_list ?q') = length ks" using len' l by simp
    fix i assume "i < length (cb_list ?q')"
    then have i: "i < cb_len ?q'" "i + 1 < cb_len q" using len' by auto
    have "cb_list ?q' ! i = keys q ! (((?r + 1) mod ?n + i) mod ?n)"
      using nth_cb_list [OF i(1)] r' by simp
    also have "\<dots> = cb_list q ! (i + 1)" using nth_cb_list [OF i(2)] step by simp
    finally show "cb_list ?q' ! i = ks ! i" by (simp add: ne)
  qed
  moreover have "\<not> CircularBufferIsEmpty q"
    using isEmpty_iff_list [OF q] ne by simp
  ultimately show ?thesis
    using inv' d(5) by (simp add: CircularBufferDeque_def Let_def)
qed

section \<open>Growing\<close>

lemma cb_list_split:
  assumes q: "cb_inv q"
  shows "cb_list q = (if unat (readPointer q) \<le> unat (writePointer q)
    then take (unat (writePointer q) - unat (readPointer q)) (drop (unat (readPointer q)) (keys q))
    else drop (unat (readPointer q)) (keys q) @ take (unat (writePointer q)) (keys q))"
proof (rule nth_equalityI)
  note d = cb_invD [OF q]
  show "length (cb_list q) = length (if unat (readPointer q) \<le> unat (writePointer q)
    then take (unat (writePointer q) - unat (readPointer q)) (drop (unat (readPointer q)) (keys q))
    else drop (unat (readPointer q)) (keys q) @ take (unat (writePointer q)) (keys q))"
    using d(5,6) by (auto simp: cb_len_eq [OF q])
  fix i assume "i < length (cb_list q)"
  then have i: "i < cb_len q" by simp
  have m: "(unat (readPointer q) + i) mod length (keys q) =
      (if unat (readPointer q) + i < length (keys q) then unat (readPointer q) + i
       else unat (readPointer q) + i - length (keys q))"
    using mod_add_lt [OF d(5)] i cb_len_less [OF q] by simp
  show "cb_list q ! i = (if unat (readPointer q) \<le> unat (writePointer q)
    then take (unat (writePointer q) - unat (readPointer q)) (drop (unat (readPointer q)) (keys q))
    else drop (unat (readPointer q)) (keys q) @ take (unat (writePointer q)) (keys q)) ! i"
    unfolding nth_cb_list [OF i] m using i d(5,6)
    by (auto simp: cb_len_eq [OF q] nth_append add.commute [of i] split: if_splits)
qed

lemma sint_small:
  assumes "unat (w :: u32) < 2 ^ 31"
  shows "sint w = int (unat w)"
proof -
  have "int (unat w) < int (2 ^ 31)" using assms by (simp only: of_nat_less_iff)
  then have "uint w < 2 ^ 31" by simp
  then have "signed_take_bit 31 (uint w) = uint w"
    using uint_ge_0 [of w] by (intro signed_take_bit_int_eq_self) linarith+
  then show ?thesis by (simp add: sint_uint)
qed

lemma init_size:
  fixes x :: size_t
  assumes "unat x \<le> 2 ^ 27"
  shows "CircularBufferInit mal (sint (ucast x :: u32)) =
    map_option (\<lambda>ks. \<lparr> writePointer = 0, readPointer = 0, bsize = x, keys = ks \<rparr>) (mal (x * 8 + 16))"
proof -
  have "unat (ucast x :: u32) = unat x" using assms by (intro unat_ucast_64_32) simp
  then have s: "sint (ucast x :: u32) = int (unat x)" using assms by (simp add: sint_small)
  then have x: "(word_of_int (sint (ucast x :: u32)) :: size_t) = x" by simp
  have "unat (x * 8) = unat x * 8" using unat_mult_lem [of x 8] assms by simp
  then have y: "unat (x * 8 + 16) = unat x * 8 + 16"
    using unat_add_lem [of "x * 8" 16] assms by simp
  then have u: "unat (ucast (x * 8 + 16) :: u32) = unat x * 8 + 16"
    using assms by (subst unat_ucast_64_32) simp_all
  have sz: "sint (ucast (x * 8 + 16) :: u32) = int (unat (x * 8 + 16))"
    unfolding y u [symmetric] using assms u by (intro sint_small) simp
  have "(scast (ucast (x * 8 + 16) :: u32) :: size_t) = x * 8 + 16"
    unfolding scast_eq sz by simp
  then show ?thesis by (simp only: CircularBufferInit_def x Let_def)
qed

lemma copy_keys_fits:
  "d + n \<le> length dst \<Longrightarrow> s + n \<le> length src \<Longrightarrow>
    copy_keys dst d src s n = Some (take d dst @ take n (drop s src) @ drop (d + n) dst)"
  by (simp add: copy_keys_def)

text \<open>The copy, given a fresh buffer of twice the capacity.\<close>

lemma grow_copies:
  assumes q: "cb_inv q"
    and init: "CircularBufferInit mal (sint (ucast (bsize q * 2) :: u32)) =
      Some \<lparr> writePointer = 0, readPointer = 0, bsize = b, keys = ks \<rparr>"
    and len: "length ks = 2 * length (keys q)"
  shows "\<exists>ks' w'. growCircularBuffer mal q =
      Some \<lparr> writePointer = w', readPointer = 0, bsize = b, keys = ks' \<rparr> \<and>
    unat w' = cb_len q \<and> length ks' = length ks \<and> take (cb_len q) ks' = cb_list q"
proof -
  note d = cb_invD [OF q]
  let ?n = "length (keys q)" and ?r = "unat (readPointer q)" and ?w = "unat (writePointer q)"
  have "unat (cb_count q) < 2 ^ 32"
    using cb_len_less [OF q] d(3) by (simp add: cb_count_len [OF q])
  then have w': "unat (ucast (cb_count q) :: u32) = cb_len q"
    by (simp add: unat_ucast_64_32 cb_count_len [OF q])
  have nr: "unat (bsize q - ucast (readPointer q)) = ?n - ?r"
    using d(1,5) by (simp add: unat_sub word_le_nat_alt)
  show ?thesis
  proof (cases "?r < ?w")
    case True
    let ?ks = "take (?w - ?r) (drop ?r (keys q)) @ drop (?w - ?r) ks"
    have "growCircularBuffer mal q = Some \<lparr> writePointer = ucast (cb_count q), readPointer = 0, bsize = b, keys = ?ks \<rparr>"
      using True init len d(5,6)
      by (simp add: growCircularBuffer_def Let_def word_less_nat_alt sub_32 copy_keys_fits cb_count_def)
    moreover have "take (cb_len q) ?ks = cb_list q"
      using True d(6) by (simp add: cb_list_split [OF q] cb_len_eq [OF q])
    moreover have "length ?ks = length ks"
      using True len d(6) by simp
    ultimately show ?thesis using w' by blast
  next
    case False
    let ?ks = "drop ?r (keys q) @ take ?w (keys q) @ drop (?n - ?r + ?w) ks"
    have "growCircularBuffer mal q = Some \<lparr> writePointer = ucast (cb_count q), readPointer = 0, bsize = b, keys = ?ks \<rparr>"
      using False init len d(5,6)
      by (simp add: growCircularBuffer_def Let_def word_less_nat_alt nr copy_keys_fits cb_count_def add.commute)
    moreover have "take (cb_len q) ?ks = cb_list q"
      using False d(5,6) by (auto simp: cb_list_split [OF q] cb_len_eq [OF q])
    moreover have "length ?ks = length ks"
      using False len d(5,6) by simp
    ultimately show ?thesis using w' by blast
  qed
qed

lemma grow_small:
  assumes q: "cb_inv q" and mal: "malloc_ok mal" "mal (bsize q * 16 + 16) = Some ks"
    and small: "length (keys q) \<le> 2 ^ 26"
  shows "\<exists>q'. growCircularBuffer mal q = Some q' \<and> cb_inv q' \<and> cb_list q' = cb_list q \<and>
    length (keys q') = 2 * length (keys q)"
proof -
  note d = cb_invD [OF q]
  let ?n = "length (keys q)"
  obtain k where k: "1 \<le> k" "bsize q = 2 ^ k" "?n = 2 ^ k"
    using q d(1) by (auto simp: cb_inv_def unat_pow2)
  have k26: "k \<le> 26" using small unfolding k(3) by (rule power_le_imp_le_exp [rotated]) simp
  have b2: "unat (bsize q * 2) = 2 * ?n"
    using unat_mult_lem [of "bsize q" 2] d(1) small by simp
  have "unat (bsize q * 16) = 16 * ?n"
    using unat_mult_lem [of "bsize q" 16] d(1) small by simp
  then have "unat (bsize q * 16 + 16) = 16 * ?n + 16"
    using unat_add_lem [of "bsize q * 16" 16] small by simp
  then have len: "length ks = 2 * ?n" using mal by (auto simp: malloc_ok_def)
  have "CircularBufferInit mal (sint (ucast (bsize q * 2) :: u32)) =
      Some \<lparr> writePointer = 0, readPointer = 0, bsize = bsize q * 2, keys = ks \<rparr>"
    using init_size [of "bsize q * 2" mal] b2 small mal(2) by (simp add: mult.assoc)
  from grow_copies [OF q this len] obtain ks' w' where g:
      "growCircularBuffer mal q = Some \<lparr> writePointer = w', readPointer = 0, bsize = bsize q * 2, keys = ks' \<rparr>"
      "unat w' = cb_len q" "length ks' = length ks" "take (cb_len q) ks' = cb_list q"
    by blast
  let ?q' = "\<lparr> writePointer = w', readPointer = 0, bsize = bsize q * 2, keys = ks' \<rparr>"
  have "bsize q * 2 = 2 ^ Suc k" by (simp add: k(2))
  then have inv': "cb_inv ?q'"
    using k26 b2 len g(2,3) cb_len_less [OF q] by (auto simp: cb_inv_def intro!: bexI [of _ "Suc k"])
  have "cb_list ?q' = cb_list q"
    using g(2,4) cb_list_split [OF inv'] by simp
  then show ?thesis using g(1) inv' g(3) len by (intro exI [of _ ?q']) simp
qed

text \<open>From \<open>2 ^ 28\<close> keys on, the 32-bit byte count of the doubled buffer is that of an
  empty one, so \<open>malloc\<close> succeeds and the copy runs past the fresh region; at
  \<open>2 ^ 27\<close> keys it is negative, so \<open>malloc\<close> fails and the null pointer is dereferenced.\<close>

lemma grow_sizes_large:
  assumes "k \<in> {28..31}"
  shows "CircularBufferInit mal (sint (ucast ((2 :: size_t) ^ k * 2) :: u32)) =
    map_option (\<lambda>ks. \<lparr> writePointer = 0, readPointer = 0,
      bsize = word_of_int (sint (ucast ((2 :: size_t) ^ k * 2) :: u32)), keys = ks \<rparr>) (mal 16)"
proof -
  have "k \<in> {28, 29, 30, 31}" using assms by auto
  then show ?thesis by (elim insertE emptyE; simp add: CircularBufferInit_def)
qed

lemma grow_size_27:
  assumes "malloc_ok mal"
  shows "CircularBufferInit mal (sint (ucast ((2 :: size_t) ^ 27 * 2) :: u32)) = None"
proof -
  have "mal (- 2147483632) = None"
  proof (cases "mal (- 2147483632)")
    case (Some ks)
    then have "unat (- 2147483632 :: size_t) < 2 ^ 63" using assms unfolding malloc_ok_def by blast
    then show ?thesis by simp
  qed
  then show ?thesis by (simp add: CircularBufferInit_def)
qed

lemma grow_large:
  assumes q: "cb_inv q" and mal: "malloc_ok mal" and large: "2 ^ 27 \<le> length (keys q)"
  shows "growCircularBuffer mal q = None"
proof -
  note d = cb_invD [OF q]
  let ?n = "length (keys q)" and ?r = "unat (readPointer q)" and ?w = "unat (writePointer q)"
  obtain k where k: "k \<le> 31" "bsize q = 2 ^ k" "?n = 2 ^ k"
    using q d(1) by (auto simp: cb_inv_def unat_pow2)
  have "27 \<le> k" using large unfolding k(3) by (rule power_le_imp_le_exp [rotated]) simp
  then consider "k = 27" | "k \<in> {28..31}" using k(1) by fastforce
  then show ?thesis
  proof cases
    case 1
    then show ?thesis using grow_size_27 [OF mal] k(2) by (simp add: growCircularBuffer_def Let_def)
  next
    case 2
    have nr: "unat (bsize q - ucast (readPointer q)) = ?n - ?r"
      using d(1,5) by (simp add: unat_sub word_le_nat_alt)
    show ?thesis
    proof (cases "mal 16")
      case None
      then show ?thesis using grow_sizes_large [OF 2, of mal] k(2)
        by (simp add: growCircularBuffer_def Let_def)
    next
      case (Some ks)
      then have "length ks = (unat (16 :: size_t) - 16) div 8" using mal unfolding malloc_ok_def by blast
      then have "ks = []" by simp
      then show ?thesis using grow_sizes_large [OF 2, of mal] k(2) Some d(5) nr
        by (auto simp: growCircularBuffer_def Let_def word_less_nat_alt sub_32 copy_keys_def)
    qed
  qed
qed

lemma grow_room:
  assumes "malloc_ok mal" "cb_inv q" "growCircularBuffer mal q = Some q'"
  shows "cb_inv q' \<and> cb_list q' = cb_list q \<and> \<not> CircularBufferIsFull q'"
proof (cases "length (keys q) < 2 ^ 27")
  case False
  then show ?thesis using grow_large [OF assms(2,1)] assms(3) by simp
next
  case True
  note d = cb_invD [OF assms(2)]
  obtain k where k: "k \<le> 31" "length (keys q) = 2 ^ k"
    using assms(2) d(1) by (auto simp: cb_inv_def unat_pow2)
  have "k < 27" using True unfolding k(2) by (rule power_less_imp_less_exp [rotated]) simp
  then have "length (keys q) \<le> 2 ^ 26" unfolding k(2) by (intro power_increasing) auto
  moreover have "mal (bsize q * 16 + 16) \<noteq> None"
    using assms(3) init_size [of "bsize q * 2" mal] calculation unat_mult_lem [of "bsize q" 2] d(1)
    by (auto simp: growCircularBuffer_def Let_def mult.assoc bind_eq_Some_conv)
  ultimately show ?thesis
    using grow_small [OF assms(2,1)] assms(3) isFull_iff [of q'] cb_len_less [OF assms(2)] d(2)
    by (auto simp flip: length_cb_list)
qed

definition cb_enq :: "CircularBuffer \<Rightarrow> objptr \<Rightarrow> CircularBuffer option" where
  "cb_enq q k = map_option snd (CircularBufferEnque q k)"

definition cb_deq :: "CircularBuffer \<Rightarrow> (objptr \<times> CircularBuffer) option" where
  "cb_deq q = Option.bind (CircularBufferDeque q 0)
    (\<lambda>(empty, k, q). if empty then None else Some (k, q))"

interpretation cb: fifo cb_inv cb_list CircularBufferIsFull CircularBufferIsEmpty cb_enq cb_deq
  malloc_ok growCircularBuffer
proof
  fix q q' k ks mal
  show "CircularBufferIsEmpty q = (cb_list q = [])" if "cb_inv q"
    using that by (rule isEmpty_iff_list)
  show "\<exists>q'. cb_enq q k = Some q' \<and> cb_inv q' \<and> cb_list q' = cb_list q @ [k]"
    if "cb_inv q" "\<not> CircularBufferIsFull q"
    using Enque_room [OF that, of k] by (auto simp: cb_enq_def)
  show "\<exists>q'. cb_deq q = Some (k, q') \<and> cb_inv q' \<and> cb_list q' = ks"
    if "cb_inv q" "cb_list q = k # ks"
    using Deque_first [OF that, of 0] by (auto simp: cb_deq_def)
  show "cb_inv q' \<and> cb_list q' = cb_list q \<and> \<not> CircularBufferIsFull q'"
    if "malloc_ok mal" "cb_inv q" "CircularBufferIsFull q" "growCircularBuffer mal q = Some q'"
    using grow_room that(1,2,4) by blast
qed

end
