(* ===== verification/Sched_Ops.thy ===== *)
theory Sched_Ops
  imports Sched_Queue
begin

text \<open>
  The operations on the scheduler queues of \<open>gc/scheduler-queue.c\<close>, run by one
  processor \<open>self\<close>: locking, enqueue and dequeue with priorities, the transfer of
  closures, traversal, and \<open>Parallel_wakeUpThread\<close> of \<open>gc/parallel.c\<close>. A lock that another
  processor holds makes the caller spin; that outcome is \<open>Inl Spin\<close>.
\<close>

section \<open>State\<close>

record SchedulerQueue =
  primary :: CircularBuffer
  secondary :: CircularBuffer
  parasites :: CircularBuffer

record Lock =
  lcount :: int
  lid :: int

record ClosureToSpawn =
  cl_p :: pointer
  cl_size :: size_t

record proc_sched =
  schedulerQueue :: SchedulerQueue
  directCloXferArray :: "ClosureToSpawn list"
  preemptOnWBASize :: int
  spawnOnWBASize :: int

record sched =
  procStates :: "proc_sched list"
  schedulerLocks :: "Lock list"
  dataInMutatorQ :: "bool list"

datatype sq_error = Die string | Spin | Undef

type_synonym 'a sq_result = "sq_error + 'a"

section \<open>Queues of one processor\<close>

definition newSchedulerQueue :: "malloc \<Rightarrow> SchedulerQueue option" where
  "newSchedulerQueue mal =
    Option.bind (CircularBufferInit mal BUFFER_SIZE) (\<lambda>p.
    Option.bind (CircularBufferInit mal BUFFER_SIZE) (\<lambda>s.
    Option.bind (CircularBufferInit mal BUFFER_SIZE) (\<lambda>x.
    Some \<lparr> primary = p, secondary = s, parasites = x \<rparr>)))"

definition getSubQ :: "SchedulerQueue \<Rightarrow> int \<Rightarrow> CircularBuffer sq_result" where
  "getSubQ sq i =
    (if i = 0 then Inr (primary sq) else if i = 1 then Inr (secondary sq)
     else if i = 2 then Inr (parasites sq) else Inl (Die ''getSubQ: i > 2''))"

text \<open>Writing through the pointer that \<open>getSubQ\<close> returned.\<close>

definition setSubQ :: "SchedulerQueue \<Rightarrow> int \<Rightarrow> CircularBuffer \<Rightarrow> SchedulerQueue" where
  "setSubQ sq i q =
    (if i = 0 then sq\<lparr> primary := q \<rparr> else if i = 1 then sq\<lparr> secondary := q \<rparr>
     else sq\<lparr> parasites := q \<rparr>)"

definition upd_queue :: "nat \<Rightarrow> SchedulerQueue \<Rightarrow> sched \<Rightarrow> sched" where
  "upd_queue proc sq s = s\<lparr> procStates := (procStates s)[proc := (procStates s ! proc)\<lparr> schedulerQueue := sq \<rparr>] \<rparr>"

definition GC_sqCreateQueues :: "malloc \<Rightarrow> sched \<Rightarrow> sched sq_result" where
  "GC_sqCreateQueues mal s =
    (case newSchedulerQueue mal of
       None \<Rightarrow> Inl Undef
     | Some sq \<Rightarrow> Inr (s\<lparr>
         procStates := map (\<lambda>p. p\<lparr> schedulerQueue := sq \<rparr>) (procStates s),
         schedulerLocks := replicate (length (procStates s)) \<lparr> lcount = 0, lid = -1 \<rparr> \<rparr>))"

section \<open>The scheduler lock\<close>

definition GC_sqAcquireLock :: "nat \<Rightarrow> nat \<Rightarrow> sched \<Rightarrow> sched sq_result" where
  "GC_sqAcquireLock self proc s =
    (if proc < length (schedulerLocks s) then
       (let lock = schedulerLocks s ! proc in
        if lid lock = int self then
          Inr (s\<lparr> schedulerLocks := (schedulerLocks s)[proc := lock\<lparr> lcount := lcount lock + 1 \<rparr>] \<rparr>)
        else if lid lock = -1 then
          Inr (s\<lparr> schedulerLocks := (schedulerLocks s)[proc := lock\<lparr> lid := int self \<rparr>] \<rparr>)
        else Inl Spin)
     else Inl Undef)"

definition GC_sqReleaseLock :: "nat \<Rightarrow> nat \<Rightarrow> sched \<Rightarrow> sched sq_result" where
  "GC_sqReleaseLock self proc s =
    (if proc < length (schedulerLocks s) then
       (let lock = schedulerLocks s ! proc in
        if lcount lock > 0 then
          Inr (s\<lparr> schedulerLocks := (schedulerLocks s)[proc := lock\<lparr> lcount := lcount lock - 1 \<rparr>] \<rparr>)
        else
          Inr (s\<lparr> schedulerLocks := (schedulerLocks s)[proc := lock\<lparr> lid := -1 \<rparr>] \<rparr>))
     else Inl Undef)"

definition Parallel_wakeUpThread :: "nat \<Rightarrow> int \<Rightarrow> sched \<Rightarrow> sched sq_result" where
  "Parallel_wakeUpThread p dataIn s =
    (if p < length (dataInMutatorQ s) then
       Inr (if dataIn = 1 then s\<lparr> dataInMutatorQ := (dataInMutatorQ s)[p := True] \<rparr> else s)
     else Inl Undef)"

section \<open>Enqueue and dequeue\<close>

definition sqEnque :: "malloc \<Rightarrow> pointer \<Rightarrow> pointer \<Rightarrow> nat \<Rightarrow> int \<Rightarrow> sched \<Rightarrow> sched sq_result" where
  "sqEnque mal start p proc i s =
    (if proc < length (procStates s) then
       (let op = pointerToObjptr p start; sq = schedulerQueue (procStates s ! proc) in
        bindE (getSubQ sq i) (\<lambda>cq.
        bindE (if CircularBufferIsFull cq then liftO Undef (growCircularBuffer mal cq) else Inr cq) (\<lambda>cq.
        bindE (liftO Undef (CircularBufferEnque cq op)) (\<lambda>(full, cq).
        Parallel_wakeUpThread proc 1 (upd_queue proc (setSubQ sq i cq) s)))))
     else Inl Undef)"

definition GC_sqEnque :: "malloc \<Rightarrow> pointer \<Rightarrow> nat \<Rightarrow> pointer \<Rightarrow> nat \<Rightarrow> int \<Rightarrow> sched \<Rightarrow> sched sq_result" where
  "GC_sqEnque mal start self p proc i s =
    bindE (GC_sqAcquireLock self proc s) (\<lambda>s.
    bindE (sqEnque mal start p proc i s) (\<lambda>s.
    GC_sqReleaseLock self proc s))"

definition GC_addToDirectCloXferArray :: "nat \<Rightarrow> ClosureToSpawn \<Rightarrow> nat \<Rightarrow> sched \<Rightarrow> sched sq_result" where
  "GC_addToDirectCloXferArray self c proc s =
    bindE (GC_sqAcquireLock self proc s) (\<lambda>s.
    if proc < length (procStates s) then
      (let ps = procStates s ! proc;
           s = s\<lparr> procStates := (procStates s)[proc := ps\<lparr> directCloXferArray := directCloXferArray ps @ [c] \<rparr>] \<rparr> in
       bindE (GC_sqReleaseLock self proc s) (Parallel_wakeUpThread proc 1))
    else Inl Undef)"

text \<open>The closures are copied out under the lock; each is then brought into the local
  heap \<open>h\<close> by \<open>local_copy\<close>, the allocation and translation that the garbage collector does
  (lines 298 to 311), and enqueued in the primary queue.\<close>

fun enque_closures ::
    "malloc \<Rightarrow> pointer \<Rightarrow> (ClosureToSpawn \<Rightarrow> 'h \<Rightarrow> pointer \<times> 'h) \<Rightarrow> nat \<Rightarrow>
      ClosureToSpawn list \<Rightarrow> 'h \<Rightarrow> sched \<Rightarrow> ('h \<times> sched) sq_result" where
  "enque_closures mal start local_copy self [] h s = Inr (h, s)"
| "enque_closures mal start local_copy self (c # cs) h s =
    (let (closure, h) = local_copy c h in
     bindE (GC_sqEnque mal start self closure self 0 s) (enque_closures mal start local_copy self cs h))"

definition flushFromDirectCloXferArray ::
    "malloc \<Rightarrow> pointer \<Rightarrow> (ClosureToSpawn \<Rightarrow> 'h \<Rightarrow> pointer \<times> 'h) \<Rightarrow> nat \<Rightarrow> 'h \<Rightarrow> sched \<Rightarrow>
      ('h \<times> sched) sq_result" where
  "flushFromDirectCloXferArray mal start local_copy self h s =
    (if self < length (procStates s) then
       (if length (directCloXferArray (procStates s ! self)) > 0 then
          bindE (GC_sqAcquireLock self self s) (\<lambda>s.
          let localArray = directCloXferArray (procStates s ! self);
              s = s\<lparr> procStates := (procStates s)[self := (procStates s ! self)\<lparr> directCloXferArray := [] \<rparr>] \<rparr> in
          bindE (GC_sqReleaseLock self self s)
            (enque_closures mal start local_copy self localArray h))
        else Inr (h, s))
     else Inl Undef)"

definition GC_sqIsEmptyPrio ::
    "malloc \<Rightarrow> pointer \<Rightarrow> (ClosureToSpawn \<Rightarrow> 'h \<Rightarrow> pointer \<times> 'h) \<Rightarrow> nat \<Rightarrow> int \<Rightarrow> 'h \<Rightarrow> sched \<Rightarrow>
      (bool \<times> 'h \<times> sched) sq_result" where
  "GC_sqIsEmptyPrio mal start local_copy self i h s =
    bindE (flushFromDirectCloXferArray mal start local_copy self h s) (\<lambda>(h, s).
    bindE (getSubQ (schedulerQueue (procStates s ! self)) i) (\<lambda>cq.
    Inr (CircularBufferIsEmpty cq, h, s)))"

text \<open>\<open>GC_sqDeque\<close> for a queue number; the result is the null pointer on an empty queue.\<close>

definition sqDeque_from :: "pointer \<Rightarrow> nat \<Rightarrow> int \<Rightarrow> sched \<Rightarrow> (pointer \<times> sched) sq_result" where
  "sqDeque_from start self i s =
    bindE (GC_sqAcquireLock self self s) (\<lambda>s.
    if self < length (procStates s) then
      (let sq = schedulerQueue (procStates s ! self) in
       bindE (getSubQ sq i) (\<lambda>cq.
       bindE (liftO Undef (CircularBufferDeque cq 0)) (\<lambda>(isEmpty, op, cq).
       let res = (if isEmpty then 0 else objptrToPointer op start) in
       bindE (GC_sqReleaseLock self self (upd_queue self (setSubQ sq i cq) s)) (\<lambda>s.
       Inr (res, s)))))
    else Inl Undef)"

definition GC_sqDeque ::
    "malloc \<Rightarrow> pointer \<Rightarrow> (ClosureToSpawn \<Rightarrow> 'h \<Rightarrow> pointer \<times> 'h) \<Rightarrow> nat \<Rightarrow> int \<Rightarrow> 'h \<Rightarrow> sched \<Rightarrow>
      (pointer \<times> 'h \<times> sched) sq_result" where
  "GC_sqDeque mal start local_copy self i h s =
    (if i = -1 then
       bindE (GC_sqIsEmptyPrio mal start local_copy self 0 h s) (\<lambda>(empty0, h, s).
       if \<not> empty0 then map_sum id (\<lambda>(p, s). (p, h, s)) (sqDeque_from start self 0 s)
       else
         bindE (GC_sqIsEmptyPrio mal start local_copy self 1 h s) (\<lambda>(empty1, h, s).
         if \<not> empty1 then map_sum id (\<lambda>(p, s). (p, h, s)) (sqDeque_from start self 1 s)
         else Inl (Die ''GC_sqDeque: All queues empty'')))
     else map_sum id (\<lambda>(p, s). (p, h, s)) (sqDeque_from start self i s))"

text \<open>\<open>maybeWaitForGC\<close> and \<open>forceLocalGC\<close> are the collector's entry points.\<close>

definition GC_sqIsEmpty ::
    "malloc \<Rightarrow> pointer \<Rightarrow> (ClosureToSpawn \<Rightarrow> 'h \<Rightarrow> pointer \<times> 'h) \<Rightarrow> ('h \<times> sched \<Rightarrow> 'h \<times> sched) \<Rightarrow>
      ('h \<times> sched \<Rightarrow> 'h \<times> sched) \<Rightarrow> nat \<Rightarrow> 'h \<Rightarrow> sched \<Rightarrow> (bool \<times> 'h \<times> sched) sq_result" where
  "GC_sqIsEmpty mal start local_copy maybeWaitForGC forceLocalGC self h s =
    bindE (flushFromDirectCloXferArray mal start local_copy self h s) (\<lambda>hs.
    let (h, s) = maybeWaitForGC hs;
        ps = procStates s ! self;
        primEmpty = CircularBufferIsEmpty (primary (schedulerQueue ps));
        secEmpty = CircularBufferIsEmpty (secondary (schedulerQueue ps)) in
    if primEmpty \<and> secEmpty \<and> (preemptOnWBASize ps \<noteq> 0 \<or> spawnOnWBASize ps \<noteq> 0) then
      (let (h, s) = forceLocalGC (h, s) in Inr (False \<and> secEmpty, h, s))
    else Inr (primEmpty \<and> secEmpty, h, s))"

section \<open>Cleaning, traversing, counting\<close>

definition clean_queue :: "SchedulerQueue \<Rightarrow> SchedulerQueue" where
  "clean_queue sq = \<lparr> primary = CircularBufferClean (primary sq),
     secondary = CircularBufferClean (secondary sq), parasites = CircularBufferClean (parasites sq) \<rparr>"

text \<open>The loop counts the processors but its body names only the caller's own queue.\<close>

definition GC_sqClean :: "nat \<Rightarrow> sched \<Rightarrow> sched" where
  "GC_sqClean self s =
    fold (\<lambda>proc s. upd_queue self (clean_queue (schedulerQueue (procStates s ! self))) s)
      [0..<length (procStates s)] s"

text \<open>The queue of processor \<open>owner\<close>, visited under the caller's own lock.\<close>

definition foreachObjptrInSQ ::
    "nat \<Rightarrow> ('st \<Rightarrow> objptr \<Rightarrow> 'st \<times> objptr) \<Rightarrow> nat \<Rightarrow> nat \<Rightarrow> 'st \<Rightarrow> sched \<Rightarrow> ('st \<times> sched) sq_result" where
  "foreachObjptrInSQ fuel f self owner st s =
    bindE (GC_sqAcquireLock self self s) (\<lambda>s.
    let sq = schedulerQueue (procStates s ! owner);
        go = (\<lambda>q st. liftO Undef (foreach_keys fuel f (readPointer q) st q)) in
    bindE (go (primary sq) st) (\<lambda>(st, q0).
    bindE (go (secondary sq) st) (\<lambda>(st, q1).
    bindE (go (parasites sq) st) (\<lambda>(st, q2).
    bindE (GC_sqReleaseLock self self
      (upd_queue owner \<lparr> primary = q0, secondary = q1, parasites = q2 \<rparr> s)) (\<lambda>s.
    Inr (st, s))))))"

definition sizeofSchedulerQueue :: "nat \<Rightarrow> int \<Rightarrow> sched \<Rightarrow> int sq_result" where
  "sizeofSchedulerQueue self i s =
    bindE (getSubQ (schedulerQueue (procStates s ! self)) i) (\<lambda>cq.
    Inr (0 + sint (ucast (cb_count cq) :: u32)))"

section \<open>Lemmas on locks\<close>

definition lock_free_or_mine :: "nat \<Rightarrow> nat \<Rightarrow> sched \<Rightarrow> bool" where
  "lock_free_or_mine self proc s \<longleftrightarrow> proc < length (schedulerLocks s) \<and>
    (let l = schedulerLocks s ! proc in
     0 \<le> lcount l \<and> (lid l = int self \<or> lid l = -1 \<and> lcount l = 0))"

text \<open>After an acquire, a release on any state with the same locks restores them.\<close>

lemma acquire_release:
  assumes "lock_free_or_mine self proc s"
  shows "\<exists>L. GC_sqAcquireLock self proc s = Inr (s\<lparr> schedulerLocks := L \<rparr>) \<and> length L = length (schedulerLocks s) \<and>
    (\<forall>t. schedulerLocks t = L \<longrightarrow> GC_sqReleaseLock self proc t = Inr (t\<lparr> schedulerLocks := schedulerLocks s \<rparr>))"
proof -
  let ?l = "schedulerLocks s ! proc"
  let ?l' = "if lid ?l = int self then ?l\<lparr> lcount := lcount ?l + 1 \<rparr> else ?l\<lparr> lid := int self \<rparr>"
  have p: "proc < length (schedulerLocks s)"
    and c: "0 \<le> lcount ?l" "lid ?l = int self \<or> lid ?l = -1 \<and> lcount ?l = 0"
    using assms by (auto simp: lock_free_or_mine_def Let_def)
  have "GC_sqAcquireLock self proc s = Inr (s\<lparr> schedulerLocks := (schedulerLocks s)[proc := ?l'] \<rparr>)"
    using p c by (auto simp: GC_sqAcquireLock_def Let_def)
  moreover have "GC_sqReleaseLock self proc t = Inr (t\<lparr> schedulerLocks := schedulerLocks s \<rparr>)"
    if t: "schedulerLocks t = (schedulerLocks s)[proc := ?l']" for t
  proof (cases "lid ?l = int self")
    case True
    have "?l\<lparr> lcount := lcount ?l \<rparr> = ?l" by simp
    then show ?thesis using True t p c(1) by (simp add: GC_sqReleaseLock_def Let_def)
  next
    case False
    then have "lid ?l = -1" "lcount ?l = 0" using c(2) by auto
    then have "?l\<lparr> lid := -1 \<rparr> = ?l" by (cases ?l) simp
    then have "(schedulerLocks s)[proc := ?l\<lparr> lid := -1 \<rparr>] = schedulerLocks s"
      by (simp only: list_update_id)
    then show ?thesis using False t p \<open>lcount ?l = 0\<close>
      by (simp add: GC_sqReleaseLock_def Let_def)
  qed
  ultimately show ?thesis by (intro exI [of _ "(schedulerLocks s)[proc := ?l']"]) simp
qed

section \<open>Lemmas on traversal\<close>

fun map_keys :: "('st \<Rightarrow> objptr \<Rightarrow> 'st \<times> objptr) \<Rightarrow> 'st \<Rightarrow> objptr list \<Rightarrow> 'st \<times> objptr list" where
  "map_keys f st [] = (st, [])"
| "map_keys f st (k # ks) =
    (let (st, k') = (if isObjptr k then f st k else (st, k)); (st, ks') = map_keys f st ks in
     (st, k' # ks'))"

lemma length_map_keys: "length (snd (map_keys f st ks)) = length ks"
  by (induction ks arbitrary: st) (auto simp: Let_def case_prod_beta)

lemma cb_list_update:
  assumes q: "cb_inv q" and j: "j < cb_len q"
  shows "cb_inv (q\<lparr> keys := (keys q)[(unat (readPointer q) + j) mod length (keys q) := k] \<rparr>)"
    "cb_list (q\<lparr> keys := (keys q)[(unat (readPointer q) + j) mod length (keys q) := k] \<rparr>) =
      (cb_list q)[j := k]"
proof -
  let ?n = "length (keys q)" and ?r = "unat (readPointer q)"
  let ?q = "q\<lparr> keys := (keys q)[(?r + j) mod ?n := k] \<rparr>"
  note d = cb_invD [OF q]
  have n0: "0 < ?n" using d(2) by linarith
  show i: "cb_inv ?q" using q by (simp add: cb_inv_def)
  have len: "cb_len ?q = cb_len q" by (simp add: cb_len_def)
  show "cb_list ?q = (cb_list q)[j := k]"
  proof (rule nth_equalityI)
    fix m assume "m < length (cb_list ?q)"
    then have m: "m < cb_len q" by (simp add: len)
    have "m = j" if "(?r + m) mod ?n = (?r + j) mod ?n"
      using mod_add_inj [OF d(5) _ _ that] m j cb_len_less [OF q] by simp
    then show "cb_list ?q ! m = (cb_list q)[j := k] ! m"
      using m j n0 by (auto simp: nth_cb_list len nth_list_update)
  qed (simp add: len)
qed

lemma foreach_keys_correct:
  "cb_inv q \<Longrightarrow> j \<le> cb_len q \<Longrightarrow> unat rp = (unat (readPointer q) + j) mod length (keys q) \<Longrightarrow>
    cb_len q \<le> j + fuel \<Longrightarrow> map_keys f st (drop j (cb_list q)) = (st', ks') \<Longrightarrow>
    \<exists>K. foreach_keys fuel f rp st q = Some (st', q\<lparr> keys := K \<rparr>) \<and> cb_inv (q\<lparr> keys := K \<rparr>) \<and>
      cb_list (q\<lparr> keys := K \<rparr>) = take j (cb_list q) @ ks'"
proof (induction fuel arbitrary: j rp st q ks')
  case 0
  then have "j = cb_len q" by simp
  then have "rp = writePointer q" using 0 end_index [OF 0(1)] by (simp add: word_unat_eq_iff)
  then show ?case using 0 \<open>j = cb_len q\<close> by (intro exI [of _ "keys q"]) simp
next
  case (Suc fuel)
  note q = Suc.prems(1)
  note d = cb_invD [OF q]
  show ?case
  proof (cases "j = cb_len q")
    case True
    then have "rp = writePointer q" using Suc.prems(3) end_index [OF q] by (simp add: word_unat_eq_iff)
    then show ?thesis using Suc.prems True by (intro exI [of _ "keys q"]) simp
  next
    case False
    then have j: "j < cb_len q" using Suc.prems(2) by simp
    have ne: "rp \<noteq> writePointer q"
      using mod_add_inj [OF d(5), of j "cb_len q"] end_index [OF q] Suc.prems(3) j cb_len_less [OF q] by auto
    have "0 < length (keys q)" using d(2) by linarith
    then have rp: "unat rp < length (keys q)" unfolding Suc.prems(3) by (rule mod_less_divisor)
    define k where "k = keys q ! unat rp"
    obtain st1 k1 where s1: "(if isObjptr k then f st k else (st, k)) = (st1, k1)" by fastforce
    let ?q = "q\<lparr> keys := (keys q)[unat rp := k1] \<rparr>"
    let ?rp = "ucast ((ucast (rp + 1) :: size_t) mod bsize q) :: u32"
    have u: "cb_inv ?q" "cb_list ?q = (cb_list q)[j := k1]"
      using cb_list_update [OF q j, of k1] by (simp_all add: Suc.prems(3))
    have len: "cb_len ?q = cb_len q" by (simp add: cb_len_def)
    have rp': "unat ?rp = (unat (readPointer ?q) + (j + 1)) mod length (keys ?q)"
      using next_index [OF q rp] Suc.prems(3) by (simp add: mod_Suc_eq)
    have kj: "cb_list q ! j = k" using nth_cb_list [OF j] by (simp add: k_def Suc.prems(3))
    have "drop j (cb_list q) = k # drop (j + 1) (cb_list q)"
      using kj j by (metis Cons_nth_drop_Suc Suc_eq_plus1 length_cb_list)
    then obtain ks1 where ks1: "map_keys f st1 (drop (j + 1) (cb_list q)) = (st', ks1)" "ks' = k1 # ks1"
      using Suc.prems(5) s1 by (auto simp: Let_def split: prod.splits)
    have "drop (j + 1) (cb_list ?q) = drop (j + 1) (cb_list q)" by (simp add: u(2))
    with ks1 have "map_keys f st1 (drop (j + 1) (cb_list ?q)) = (st', ks1)" by simp
    from Suc.IH [OF u(1) _ rp' _ this] len j Suc.prems(4) obtain K where K:
      "foreach_keys fuel f ?rp st1 ?q = Some (st', ?q\<lparr> keys := K \<rparr>)" "cb_inv (?q\<lparr> keys := K \<rparr>)"
      "cb_list (?q\<lparr> keys := K \<rparr>) = take (j + 1) (cb_list ?q) @ ks1" by auto
    have "take (j + 1) (cb_list ?q) = take j (cb_list q) @ [k1]"
      using j by (simp add: u(2) take_Suc_conv_app_nth)
    then show ?thesis
      using K ne rp ks1(2) by (intro exI [of _ K]) (simp add: Let_def s1 [unfolded k_def] split del: if_split)
  qed
qed

section \<open>Well-formed schedulers\<close>

definition sub_queue :: "SchedulerQueue \<Rightarrow> int \<Rightarrow> CircularBuffer" where
  "sub_queue sq i = (if i = 0 then primary sq else if i = 1 then secondary sq else parasites sq)"

definition queue_ok :: "SchedulerQueue \<Rightarrow> bool" where
  "queue_ok sq \<longleftrightarrow> cb_inv (primary sq) \<and> cb_inv (secondary sq) \<and> cb_inv (parasites sq)"

definition sched_ok :: "sched \<Rightarrow> bool" where
  "sched_ok s \<longleftrightarrow> length (schedulerLocks s) = length (procStates s) \<and>
    length (dataInMutatorQ s) = length (procStates s) \<and>
    (\<forall>p < length (procStates s). queue_ok (schedulerQueue (procStates s ! p)))"

definition waiting :: "sched \<Rightarrow> nat \<Rightarrow> int \<Rightarrow> objptr list" where
  "waiting s proc i = cb_list (sub_queue (schedulerQueue (procStates s ! proc)) i)"

lemma getSubQ_ok: "i \<in> {0, 1, 2} \<Longrightarrow> getSubQ sq i = Inr (sub_queue sq i)"
  by (auto simp: getSubQ_def sub_queue_def)

lemma sub_queue_ok: "queue_ok sq \<Longrightarrow> cb_inv (sub_queue sq i)"
  by (simp add: queue_ok_def sub_queue_def)

lemma sub_queue_set:
  "i \<in> {0, 1, 2} \<Longrightarrow> j \<in> {0, 1, 2} \<Longrightarrow>
    sub_queue (setSubQ sq i q) j = (if i = j then q else sub_queue sq j)"
  by (auto simp: sub_queue_def setSubQ_def)

lemma queue_ok_set: "queue_ok sq \<Longrightarrow> cb_inv q \<Longrightarrow> queue_ok (setSubQ sq i q)"
  by (simp add: queue_ok_def setSubQ_def)

lemma upd_queue_simps [simp]:
  "length (procStates (upd_queue proc sq s)) = length (procStates s)"
  "schedulerLocks (upd_queue proc sq s) = schedulerLocks s"
  "dataInMutatorQ (upd_queue proc sq s) = dataInMutatorQ s"
  by (simp_all add: upd_queue_def)

lemma upd_queue_queue:
  "proc < length (procStates s) \<Longrightarrow> schedulerQueue (procStates (upd_queue proc sq s) ! p) =
    (if p = proc then sq else schedulerQueue (procStates s ! p))"
  by (simp add: upd_queue_def nth_list_update)

lemma upd_queue_locks: "upd_queue proc sq (s\<lparr> schedulerLocks := L \<rparr>) = (upd_queue proc sq s)\<lparr> schedulerLocks := L \<rparr>"
  by (simp add: upd_queue_def)

lemma upd_queue_ok: "sched_ok s \<Longrightarrow> proc < length (procStates s) \<Longrightarrow> queue_ok sq \<Longrightarrow> sched_ok (upd_queue proc sq s)"
  by (simp add: sched_ok_def upd_queue_queue)

lemma waiting_upd:
  assumes "proc < length (procStates s)" "i \<in> {0, 1, 2}" "j \<in> {0, 1, 2}"
  shows "waiting (upd_queue proc (setSubQ (schedulerQueue (procStates s ! proc)) i q) s) p j =
    (if p = proc \<and> j = i then cb_list q else waiting s p j)"
  using assms by (auto simp: waiting_def upd_queue_queue sub_queue_set)

lemma enque_step:
  assumes q: "cb_inv q" and mal: "malloc_ok mal"
    and room: "CircularBufferIsFull q \<Longrightarrow> growCircularBuffer mal q \<noteq> None"
  shows "\<exists>q1 q2 b. (if CircularBufferIsFull q then liftO Undef (growCircularBuffer mal q) else Inr q) = Inr q1 \<and>
    liftO Undef (CircularBufferEnque q1 k) = Inr (b, q2) \<and> cb_inv q2 \<and> cb_list q2 = cb_list q @ [k]"
proof -
  obtain q1 where q1: "(if CircularBufferIsFull q then liftO Undef (growCircularBuffer mal q) else Inr q) = Inr q1"
      "cb_inv q1" "cb_list q1 = cb_list q" "\<not> CircularBufferIsFull q1"
    using room grow_room [OF mal q] q by (cases "CircularBufferIsFull q") auto
  from Enque_room [OF q1(2,4), of k] q1 show ?thesis by force
qed

lemma sqEnque_correct:
  assumes ok: "sched_ok s" "proc < length (procStates s)" "i \<in> {0, 1, 2}" and mal: "malloc_ok mal"
    and room: "CircularBufferIsFull (sub_queue (schedulerQueue (procStates s ! proc)) i) \<Longrightarrow>
      growCircularBuffer mal (sub_queue (schedulerQueue (procStates s ! proc)) i) \<noteq> None"
  shows "\<exists>s'. sqEnque mal start p proc i s = Inr s' \<and> sched_ok s' \<and>
    schedulerLocks s' = schedulerLocks s \<and> length (procStates s') = length (procStates s) \<and>
    dataInMutatorQ s' ! proc \<and>
    (\<forall>r. \<forall>j\<in>{0, 1, 2}. waiting s' r j = (if r = proc \<and> j = i then waiting s r j @ [p] else waiting s r j))"
proof -
  let ?sq = "schedulerQueue (procStates s ! proc)"
  have sq: "queue_ok ?sq" using ok by (simp add: sched_ok_def)
  obtain q1 q2 b where q: "(if CircularBufferIsFull (sub_queue ?sq i)
        then liftO Undef (growCircularBuffer mal (sub_queue ?sq i)) else Inr (sub_queue ?sq i)) = Inr q1"
      "liftO Undef (CircularBufferEnque q1 p) = Inr (b, q2)" "cb_inv q2"
      "cb_list q2 = cb_list (sub_queue ?sq i) @ [p]"
    using enque_step [OF sub_queue_ok [OF sq] mal room] by blast
  let ?t = "upd_queue proc (setSubQ ?sq i q2) s"
  have t: "sched_ok ?t" by (rule upd_queue_ok [OF ok(1,2) queue_ok_set [OF sq q(3)]])
  have w: "waiting ?t r j = (if r = proc \<and> j = i then waiting s r j @ [p] else waiting s r j)"
    if "j \<in> {0, 1, 2}" for r j
    using waiting_upd [OF ok(2,3) that, of q2 r] q(4) by (auto simp: waiting_def)
  have d: "proc < length (dataInMutatorQ s)" using ok by (simp add: sched_ok_def)
  have "sqEnque mal start p proc i s = Inr (?t\<lparr> dataInMutatorQ := (dataInMutatorQ ?t)[proc := True] \<rparr>)"
    using ok(2) d getSubQ_ok [OF ok(3)] q(1,2)
    by (simp add: sqEnque_def Let_def Parallel_wakeUpThread_def split del: if_split)
  moreover have "waiting (?t\<lparr> dataInMutatorQ := D \<rparr>) r j = waiting ?t r j" for D r j
    by (simp add: waiting_def)
  ultimately show ?thesis
    using t w d by (auto simp: sched_ok_def)
qed

lemma locks_irrelevant [simp]:
  "waiting (s\<lparr> schedulerLocks := L \<rparr>) = waiting s"
  "length L = length (schedulerLocks s) \<Longrightarrow> sched_ok (s\<lparr> schedulerLocks := L \<rparr>) = sched_ok s"
  by (auto simp: waiting_def sched_ok_def fun_eq_iff)

text \<open>Dequeue from one of the queues.\<close>

lemma sqDeque_from_correct:
  assumes ok: "sched_ok s" "self < length (procStates s)" "i \<in> {0, 1, 2}"
    and lock: "lock_free_or_mine self self s"
  shows "\<exists>s'. sqDeque_from start self i s =
      Inr (case waiting s self i of [] \<Rightarrow> 0 | k # ks \<Rightarrow> k, s') \<and> sched_ok s' \<and>
    schedulerLocks s' = schedulerLocks s \<and>
    (\<forall>r. \<forall>j\<in>{0, 1, 2}. waiting s' r j = (if r = self \<and> j = i then tl (waiting s r j) else waiting s r j))"
proof -
  let ?sq = "schedulerQueue (procStates s ! self)"
  let ?q = "sub_queue ?sq i"
  have q: "cb_inv ?q" using ok sub_queue_ok by (simp add: sched_ok_def)
  have sq: "queue_ok ?sq" using ok by (simp add: sched_ok_def)
  obtain b k q2 where d: "CircularBufferDeque ?q 0 = Some (b, k, q2)" "cb_inv q2"
      "(if b then 0 else k) = (case waiting s self i of [] \<Rightarrow> 0 | k # ks \<Rightarrow> k)"
      "cb_list q2 = tl (waiting s self i)"
  proof (cases "waiting s self i")
    case Nil
    then have "CircularBufferIsEmpty ?q" using isEmpty_iff_list [OF q] by (simp add: waiting_def)
    then have d: "CircularBufferDeque ?q 0 = Some (True, 0, ?q)" by (rule Deque_empty)
    have "cb_list ?q = tl (waiting s self i)" using Nil by (simp add: waiting_def)
    with d q Nil show thesis by (intro that [of True 0 ?q]) simp_all
  next
    case (Cons k ks)
    then have "cb_list ?q = k # ks" by (simp add: waiting_def)
    from Deque_first [OF q this, of 0] obtain q2 where
      "CircularBufferDeque ?q 0 = Some (False, k, q2)" "cb_inv q2" "cb_list q2 = ks" by blast
    with Cons show thesis by (intro that [of False k q2]) simp_all
  qed
  obtain L where L: "GC_sqAcquireLock self self s = Inr (s\<lparr> schedulerLocks := L \<rparr>)"
      "length L = length (schedulerLocks s)"
      "\<And>t. schedulerLocks t = L \<Longrightarrow> GC_sqReleaseLock self self t = Inr (t\<lparr> schedulerLocks := schedulerLocks s \<rparr>)"
    using acquire_release [OF lock] by blast
  let ?s1 = "s\<lparr> schedulerLocks := L \<rparr>"
  let ?t = "upd_queue self (setSubQ ?sq i q2) ?s1"
  have ok1: "sched_ok ?s1" using ok(1) L(2) by simp
  have t: "sched_ok ?t" using ok(2) by (intro upd_queue_ok [OF ok1] queue_ok_set [OF sq d(2)]) simp
  have w: "waiting ?t r j = (if r = self \<and> j = i then tl (waiting s r j) else waiting s r j)"
    if "j \<in> {0, 1, 2}" for r j
  proof -
    have "self < length (procStates ?s1)" using ok(2) by simp
    from waiting_upd [OF this ok(3) that, of q2 r]
    have "waiting ?t r j = (if r = self \<and> j = i then cb_list q2 else waiting ?s1 r j)"
      by simp
    then show ?thesis using d(4) by simp
  qed
  have "sqDeque_from start self i s =
      Inr (case waiting s self i of [] \<Rightarrow> 0 | k # ks \<Rightarrow> k, ?t\<lparr> schedulerLocks := schedulerLocks s \<rparr>)"
    using L(1) ok(2) getSubQ_ok [OF ok(3)] d(1,3) L(3) [of ?t]
    by (cases b) (simp_all add: sqDeque_from_def Let_def)
  moreover have "sched_ok (?t\<lparr> schedulerLocks := schedulerLocks s \<rparr>)" using t L(2) by simp
  moreover have "\<forall>r. \<forall>j\<in>{0, 1, 2}. waiting (?t\<lparr> schedulerLocks := schedulerLocks s \<rparr>) r j =
      (if r = self \<and> j = i then tl (waiting s r j) else waiting s r j)"
    using w by (simp only: locks_irrelevant) blast
  ultimately show ?thesis
    by (intro exI [of _ "?t\<lparr> schedulerLocks := schedulerLocks s \<rparr>"]) simp
qed

lemma flush_nothing:
  "self < length (procStates s) \<Longrightarrow> directCloXferArray (procStates s ! self) = [] \<Longrightarrow>
    flushFromDirectCloXferArray mal start local_copy self h s = Inr (h, s)"
  by (simp add: flushFromDirectCloXferArray_def)

lemma isEmptyPrio_nothing:
  assumes "sched_ok s" "self < length (procStates s)" "directCloXferArray (procStates s ! self) = []"
    "i \<in> {0, 1, 2}"
  shows "GC_sqIsEmptyPrio mal start local_copy self i h s = Inr (waiting s self i = [], h, s)"
proof -
  have "cb_inv (sub_queue (schedulerQueue (procStates s ! self)) i)"
    using assms(1,2) sub_queue_ok by (simp add: sched_ok_def)
  then show ?thesis
    using assms getSubQ_ok [OF assms(4)] isEmpty_iff_list
    by (simp add: GC_sqIsEmptyPrio_def flush_nothing waiting_def)
qed

lemma clean_queue_clean: "clean_queue (clean_queue sq) = clean_queue sq"
  by (simp add: clean_queue_def CircularBufferClean_def)

lemma clean_queue_ok:
  "queue_ok sq \<Longrightarrow> queue_ok (clean_queue sq) \<and> cb_list (sub_queue (clean_queue sq) i) = []"
  by (auto simp: queue_ok_def clean_queue_def CircularBufferClean_def cb_inv_def cb_list_def cb_len_def
      sub_queue_def)

lemma GC_sqClean_eq:
  assumes "self < length (procStates s)"
  shows "GC_sqClean self s = upd_queue self (clean_queue (schedulerQueue (procStates s ! self))) s"
proof -
  let ?f = "\<lambda>s. upd_queue self (clean_queue (schedulerQueue (procStates s ! self))) s"
  have again: "?f (?f s) = ?f s" using assms
    by (simp add: upd_queue_queue clean_queue_clean) (simp add: upd_queue_def)
  have "fold (\<lambda>proc s. ?f s) xs (?f s) = ?f s" for xs :: "nat list"
    by (induction xs) (simp_all only: fold_simps again)
  moreover obtain x xs where "[0..<length (procStates s)] = x # xs"
    using assms by (cases "[0..<length (procStates s)]") auto
  ultimately show ?thesis unfolding GC_sqClean_def by (simp only: fold_simps)
qed

section \<open>Properties\<close>

text \<open>C31: Queueing is first in, first out across growth: after enqueuing any keys, with
  the buffer doubled whenever it is full, dequeuing returns what was waiting before and
  then the keys in order, and leaves the buffer empty.\<close>

theorem CircularBuffer_fifo:
  assumes "malloc_ok mal" "cb_inv q"
    "enq_list (enq_growing CircularBufferIsFull cb_enq (growCircularBuffer mal)) q ks = Some q1"
  shows "\<exists>q2. deq_list cb_deq (length (cb_list q) + length ks) q1 = Some (cb_list q @ ks, q2) \<and>
    CircularBufferIsEmpty q2"
  using assms by (rule cb.first_in_first_out)

definition demo_malloc :: malloc where
  "demo_malloc sz = (if unat sz < 2 ^ 63 then Some (replicate ((unat sz - 16) div 8) 0) else None)"

definition demo_cb :: CircularBuffer where
  "demo_cb = \<lparr> writePointer = 1, readPointer = 0, bsize = 2, keys = [100, 0] \<rparr>"

lemma demo_malloc_ok: "malloc_ok demo_malloc"
  by (simp add: malloc_ok_def demo_malloc_def split: if_splits)

lemma demo_cb_ok: "cb_inv demo_cb" "cb_list demo_cb = [100]"
proof -
  show "cb_inv demo_cb" by (auto simp: cb_inv_def demo_cb_def intro!: bexI [of _ 1])
  then show "cb_list demo_cb = [100]" by (simp add: cb_list_split) (simp add: demo_cb_def)
qed

lemma CircularBuffer_fifo_witness:
  "\<exists>q1 q2. enq_list (enq_growing CircularBufferIsFull cb_enq (growCircularBuffer demo_malloc))
      demo_cb [200 :: objptr] = Some q1 \<and>
    deq_list cb_deq (length (cb_list demo_cb) + length [200 :: objptr]) q1 = Some (cb_list demo_cb @ [200], q2) \<and>
    CircularBufferIsEmpty q2"
proof -
  have "cb_inv demo_cb" by (rule demo_cb_ok)
  from grow_small [OF this demo_malloc_ok, of "replicate 4 0"] obtain q where q:
      "growCircularBuffer demo_malloc demo_cb = Some q" "cb_inv q" "cb_list q = cb_list demo_cb"
      "length (keys q) = 4"
    by (auto simp: demo_malloc_def demo_cb_def)
  then have "\<not> CircularBufferIsFull q"
    by (auto simp: isFull_iff demo_cb_ok simp flip: length_cb_list)
  with q Enque_room [of q 200] obtain q1 where "cb_enq q 200 = Some q1"
    by (auto simp: cb_enq_def)
  moreover have "CircularBufferIsFull demo_cb" by (simp add: CircularBufferIsFull_def demo_cb_def)
  ultimately have "enq_list (enq_growing CircularBufferIsFull cb_enq (growCircularBuffer demo_malloc))
      demo_cb [200] = Some q1"
    using q(1) by (simp add: enq_growing_def)
  with CircularBuffer_fifo [OF demo_malloc_ok demo_cb_ok(1) this] show ?thesis by blast
qed

text \<open>C9: Growing a buffer of up to \<open>2 ^ 26\<close> keys doubles its capacity and keeps its
  contents; at \<open>2 ^ 27\<close> keys and beyond it fails even when \<open>malloc\<close> obliges, because the
  byte count is kept in a 32-bit \<open>int\<close>.\<close>

theorem growCircularBuffer_correct:
  assumes "malloc_ok mal" "cb_inv q"
  shows "(length (keys q) \<le> 2 ^ 26 \<longrightarrow> mal (bsize q * 16 + 16) \<noteq> None \<longrightarrow>
      (\<exists>q'. growCircularBuffer mal q = Some q' \<and> cb_inv q' \<and> cb_list q' = cb_list q \<and>
        length (keys q') = 2 * length (keys q) \<and> \<not> CircularBufferIsFull q')) \<and>
    (2 ^ 27 \<le> length (keys q) \<longrightarrow> growCircularBuffer mal q = None)"
  using grow_small [OF assms(2,1)] grow_room [OF assms] grow_large [OF assms(2,1)] by blast

lemma growCircularBuffer_correct_witness:
  "\<exists>q'. growCircularBuffer demo_malloc demo_cb = Some q' \<and> cb_inv q' \<and> cb_list q' = cb_list demo_cb \<and>
      length (keys q') = 2 * length (keys demo_cb) \<and> \<not> CircularBufferIsFull q'"
proof -
  have "length (keys demo_cb) \<le> 2 ^ 26" "demo_malloc (bsize demo_cb * 16 + 16) \<noteq> None"
    by (simp_all add: demo_cb_def demo_malloc_def)
  then show ?thesis
    using growCircularBuffer_correct [OF demo_malloc_ok demo_cb_ok(1)] by blast
qed

definition demo_sched :: sched where
  "demo_sched = \<lparr>
     procStates = replicate 2 \<lparr>
       schedulerQueue = \<lparr> primary = CircularBufferClean demo_cb, secondary = demo_cb, parasites = demo_cb \<rparr>,
       directCloXferArray = [], preemptOnWBASize = 0, spawnOnWBASize = 0 \<rparr>,
     schedulerLocks = replicate 2 \<lparr> lcount = 0, lid = -1 \<rparr>,
     dataInMutatorQ = [False, False] \<rparr>"

lemma demo_sched_ok: "sched_ok demo_sched" "p < 2 \<Longrightarrow> lock_free_or_mine self p demo_sched"
proof -
  have "cb_inv (CircularBufferClean demo_cb)"
    using demo_cb_ok(1) by (auto simp: cb_inv_def CircularBufferClean_def)
  then show "sched_ok demo_sched"
    using demo_cb_ok(1) by (simp add: sched_ok_def demo_sched_def queue_ok_def)
  show "p < 2 \<Longrightarrow> lock_free_or_mine self p demo_sched"
    by (simp add: lock_free_or_mine_def demo_sched_def)
qed

text \<open>An enqueue by a processor that can take the lock appends the pointer to the
  chosen queue of the chosen processor, marks that processor as having work, touches no
  other queue and leaves every lock as it found it.\<close>

theorem GC_sqEnque_correct:
  assumes "sched_ok s" "proc < length (procStates s)" "i \<in> {0, 1, 2}"
    "lock_free_or_mine self proc s" "malloc_ok mal"
    "CircularBufferIsFull (sub_queue (schedulerQueue (procStates s ! proc)) i) \<Longrightarrow>
      growCircularBuffer mal (sub_queue (schedulerQueue (procStates s ! proc)) i) \<noteq> None"
  shows "\<exists>s'. GC_sqEnque mal start self p proc i s = Inr s' \<and> sched_ok s' \<and>
    schedulerLocks s' = schedulerLocks s \<and> dataInMutatorQ s' ! proc \<and>
    (\<forall>r. \<forall>j\<in>{0, 1, 2}. waiting s' r j = (if r = proc \<and> j = i then waiting s r j @ [p] else waiting s r j))"
proof -
  obtain L where L: "GC_sqAcquireLock self proc s = Inr (s\<lparr> schedulerLocks := L \<rparr>)"
      "length L = length (schedulerLocks s)"
      "\<And>t. schedulerLocks t = L \<Longrightarrow> GC_sqReleaseLock self proc t = Inr (t\<lparr> schedulerLocks := schedulerLocks s \<rparr>)"
    using acquire_release [OF assms(4)] by blast
  let ?s1 = "s\<lparr> schedulerLocks := L \<rparr>"
  have "sched_ok ?s1" "proc < length (procStates ?s1)" using assms(1,2) L(2) by simp_all
  from sqEnque_correct [OF this assms(3,5), of start p] assms(6) obtain s2 where s2:
      "sqEnque mal start p proc i ?s1 = Inr s2" "sched_ok s2" "schedulerLocks s2 = L" "dataInMutatorQ s2 ! proc"
      "\<forall>r. \<forall>j\<in>{0, 1, 2}. waiting s2 r j = (if r = proc \<and> j = i then waiting s r j @ [p] else waiting s r j)"
    by auto
  have "GC_sqEnque mal start self p proc i s = Inr (s2\<lparr> schedulerLocks := schedulerLocks s \<rparr>)"
    by (simp add: GC_sqEnque_def L(1) s2(1) L(3) [OF s2(3)])
  moreover have "sched_ok (s2\<lparr> schedulerLocks := schedulerLocks s \<rparr>)"
    using s2(2,3) L(2) by simp
  ultimately show ?thesis
    using s2(4,5) by (intro exI [of _ "s2\<lparr> schedulerLocks := schedulerLocks s \<rparr>"]) (simp only: locks_irrelevant, simp)
qed

lemma GC_sqEnque_correct_witness:
  "\<exists>s'. GC_sqEnque demo_malloc 0 0 300 1 0 demo_sched = Inr s' \<and> waiting s' 1 0 = waiting demo_sched 1 0 @ [300]"
proof -
  have "\<not> CircularBufferIsFull (sub_queue (schedulerQueue (procStates demo_sched ! 1)) 0)"
    by (simp add: demo_sched_def sub_queue_def CircularBufferIsFull_def CircularBufferClean_def demo_cb_def)
  then have "\<exists>s'. GC_sqEnque demo_malloc 0 0 300 1 0 demo_sched = Inr s' \<and> sched_ok s' \<and>
    schedulerLocks s' = schedulerLocks demo_sched \<and> dataInMutatorQ s' ! 1 \<and>
    (\<forall>r. \<forall>j\<in>{0, 1, 2}. waiting s' r j =
      (if r = 1 \<and> j = 0 then waiting demo_sched r j @ [300] else waiting demo_sched r j))"
    by (intro GC_sqEnque_correct demo_sched_ok demo_malloc_ok) (simp_all add: demo_sched_def)
  then show ?thesis by auto
qed

text \<open>C35: A dequeue with queue number \<open>-1\<close>, when no closure is waiting to be copied in,
  takes the oldest key of the primary queue, or of the secondary queue when the primary
  is empty, and dies when both are empty; nothing else changes.\<close>

theorem GC_sqDeque_priority:
  assumes "sched_ok s" "self < length (procStates s)" "lock_free_or_mine self self s"
    "directCloXferArray (procStates s ! self) = []"
  shows "(waiting s self 0 = [] \<and> waiting s self 1 = [] \<longrightarrow>
      GC_sqDeque mal start local_copy self (-1) h s = Inl (Die ''GC_sqDeque: All queues empty'')) \<and>
    (waiting s self 0 \<noteq> [] \<or> waiting s self 1 \<noteq> [] \<longrightarrow>
      (let i = (if waiting s self 0 \<noteq> [] then 0 else 1) in
       \<exists>s'. GC_sqDeque mal start local_copy self (-1) h s = Inr (hd (waiting s self i), h, s') \<and>
         schedulerLocks s' = schedulerLocks s \<and>
         (\<forall>r. \<forall>j\<in>{0, 1, 2}. waiting s' r j =
           (if r = self \<and> j = i then tl (waiting s r j) else waiting s r j))))"
proof -
  have e: "GC_sqIsEmptyPrio mal start local_copy self i h s = Inr (waiting s self i = [], h, s)"
    if "i \<in> {0, 1, 2}" for i
    by (rule isEmptyPrio_nothing [OF assms(1,2,4) that])
  have d: "\<exists>s'. map_sum id (\<lambda>(p, s). (p, h, s)) (sqDeque_from start self i s) = Inr (hd (waiting s self i), h, s') \<and>
         schedulerLocks s' = schedulerLocks s \<and>
         (\<forall>r. \<forall>j\<in>{0, 1, 2}. waiting s' r j =
           (if r = self \<and> j = i then tl (waiting s r j) else waiting s r j))"
    if i: "i \<in> {0, 1, 2}" and ne: "waiting s self i \<noteq> []" for i
  proof -
    obtain k ks where "waiting s self i = k # ks" using ne by (cases "waiting s self i") auto
    with sqDeque_from_correct [OF assms(1,2) i assms(3), of start] show ?thesis by force
  qed
  show ?thesis
    using e [of 0] e [of 1] d [of 0] d [of 1]
    by (cases "waiting s self 0 = []"; cases "waiting s self 1 = []")
       (simp_all only: GC_sqDeque_def bindE.simps Let_def if_True if_False simp_thms prod.case insert_iff)
qed

lemma GC_sqDeque_priority_witness:
  "\<exists>s'. GC_sqDeque demo_malloc 0 (\<lambda>c h. (0, h)) 1 (-1) () demo_sched = Inr (100, (), s')"
proof -
  have w: "waiting demo_sched 1 0 = []" "waiting demo_sched 1 1 = [100]"
    using demo_cb_ok by (simp_all add: waiting_def demo_sched_def sub_queue_def CircularBufferClean_def
        cb_list_def cb_len_def demo_cb_def)
  show ?thesis
    using GC_sqDeque_priority [OF demo_sched_ok(1) _ demo_sched_ok(2), of 1 demo_malloc 0 "\<lambda>c h. (0, h)" "()"] w
    by (auto simp: demo_sched_def)
qed

text \<open>\<open>GC_sqClean\<close> empties the three queues of the processor that calls it and, for
  all its loop over the processors, leaves the queues of every other processor as they
  are.\<close>

theorem GC_sqClean_own_only:
  assumes "sched_ok s" "self < length (procStates s)"
  shows "sched_ok (GC_sqClean self s) \<and> waiting (GC_sqClean self s) self i = [] \<and>
    (\<forall>p. p \<noteq> self \<longrightarrow> waiting (GC_sqClean self s) p i = waiting s p i)"
proof -
  have "queue_ok (schedulerQueue (procStates s ! self))" using assms by (simp add: sched_ok_def)
  note c = clean_queue_ok [OF this]
  show ?thesis
    unfolding GC_sqClean_eq [OF assms(2)]
    using upd_queue_ok [OF assms] c by (simp add: waiting_def upd_queue_queue [OF assms(2)])
qed

lemma GC_sqClean_own_only_witness:
  "waiting (GC_sqClean 0 demo_sched) 0 1 = [] \<and> waiting (GC_sqClean 0 demo_sched) 1 1 = [100]"
proof -
  have "waiting demo_sched 1 1 = [100]"
    using demo_cb_ok by (simp add: waiting_def demo_sched_def sub_queue_def)
  then show ?thesis
    using GC_sqClean_own_only [OF demo_sched_ok(1), of 0 1] by (simp add: demo_sched_def)
qed

text \<open>The traversal visits the keys of the three queues in order, oldest first, applies
  the function to those that are object pointers, puts the results in their places, and
  ends: as many rounds as a buffer has places are enough for its loop.\<close>

theorem foreachObjptrInSQ_correct:
  assumes "sched_ok s" "self < length (procStates s)" "owner < length (procStates s)"
    "lock_free_or_mine self self s"
    "\<forall>i\<in>{0, 1, 2}. length (keys (sub_queue (schedulerQueue (procStates s ! owner)) i)) \<le> fuel"
    "map_keys f st (waiting s owner 0) = (st0, ks0)" "map_keys f st0 (waiting s owner 1) = (st1, ks1)"
    "map_keys f st1 (waiting s owner 2) = (st2, ks2)"
  shows "\<exists>s'. foreachObjptrInSQ fuel f self owner st s = Inr (st2, s') \<and>
    schedulerLocks s' = schedulerLocks s \<and>
    waiting s' owner 0 = ks0 \<and> waiting s' owner 1 = ks1 \<and> waiting s' owner 2 = ks2 \<and>
    (\<forall>p i. p \<noteq> owner \<longrightarrow> waiting s' p i = waiting s p i)"
proof -
  let ?sq = "schedulerQueue (procStates s ! owner)"
  have sq: "queue_ok ?sq" using assms(1,3) by (simp add: sched_ok_def)
  have one: "\<exists>q'. foreach_keys fuel f (readPointer q) st q = Some (st', q') \<and> cb_list q' = ks'"
    if "cb_inv q" "length (keys q) \<le> fuel" "map_keys f st (cb_list q) = (st', ks')" for q st st' ks'
    using foreach_keys_correct [OF that(1), of 0 "readPointer q" fuel f st st' ks']
      cb_len_less [OF that(1)] that(2,3) cb_invD(5) [OF that(1)] by auto
  obtain L where L: "GC_sqAcquireLock self self s = Inr (s\<lparr> schedulerLocks := L \<rparr>)"
      "\<And>t. schedulerLocks t = L \<Longrightarrow> GC_sqReleaseLock self self t = Inr (t\<lparr> schedulerLocks := schedulerLocks s \<rparr>)"
    using acquire_release [OF assms(4)] by blast
  obtain q0 where q0: "foreach_keys fuel f (readPointer (primary ?sq)) st (primary ?sq) = Some (st0, q0)" "cb_list q0 = ks0"
    using one [of "primary ?sq" st st0 ks0] sq assms(5,6) by (auto simp: queue_ok_def waiting_def sub_queue_def)
  obtain q1 where q1: "foreach_keys fuel f (readPointer (secondary ?sq)) st0 (secondary ?sq) = Some (st1, q1)" "cb_list q1 = ks1"
    using one [of "secondary ?sq" st0 st1 ks1] sq assms(5,7) by (auto simp: queue_ok_def waiting_def sub_queue_def)
  obtain q2 where q2: "foreach_keys fuel f (readPointer (parasites ?sq)) st1 (parasites ?sq) = Some (st2, q2)" "cb_list q2 = ks2"
    using one [of "parasites ?sq" st1 st2 ks2] sq assms(5,8) by (auto simp: queue_ok_def waiting_def sub_queue_def)
  let ?t = "upd_queue owner \<lparr> primary = q0, secondary = q1, parasites = q2 \<rparr> (s\<lparr> schedulerLocks := L \<rparr>)"
  have "foreachObjptrInSQ fuel f self owner st s = Inr (st2, ?t\<lparr> schedulerLocks := schedulerLocks s \<rparr>)"
    using L(1) L(2) [of ?t] q0(1) q1(1) q2(1) by (simp add: foreachObjptrInSQ_def Let_def)
  moreover have "owner < length (procStates (s\<lparr> schedulerLocks := L \<rparr>))" using assms(3) by simp
  note u = upd_queue_queue [OF this]
  ultimately show ?thesis
    using q0(2) q1(2) q2(2)
    by (intro exI [of _ "?t\<lparr> schedulerLocks := schedulerLocks s \<rparr>"])
       (simp add: waiting_def u sub_queue_def)
qed

lemma foreachObjptrInSQ_correct_witness:
  "\<exists>s'. foreachObjptrInSQ 2 (\<lambda>n k. (n + 1, k + 8)) 0 1 (0 :: nat) demo_sched = Inr (2, s') \<and>
    waiting s' 1 1 = [108]"
proof -
  have w: "waiting demo_sched 1 0 = []" "waiting demo_sched 1 1 = [100]" "waiting demo_sched 1 2 = [100]"
    using demo_cb_ok by (simp_all add: waiting_def demo_sched_def sub_queue_def CircularBufferClean_def
        cb_list_def cb_len_def demo_cb_def)
  let ?f = "\<lambda>(n :: nat) (k :: objptr). (n + 1, k + 8)"
  have m: "map_keys ?f 0 (waiting demo_sched 1 0) = (0, [])"
    "map_keys ?f 0 (waiting demo_sched 1 1) = (1, [108])"
    "map_keys ?f 1 (waiting demo_sched 1 2) = (2, [108])"
    unfolding w by (simp_all add: isObjptr_eq)
  have l: "\<forall>i\<in>{0, 1, 2}. length (keys (sub_queue (schedulerQueue (procStates demo_sched ! 1)) i)) \<le> 2"
    by (simp add: demo_sched_def sub_queue_def CircularBufferClean_def demo_cb_def)
  have p: "0 < length (procStates demo_sched)" "1 < length (procStates demo_sched)" "(0 :: nat) < 2"
    by (simp_all add: demo_sched_def)
  from foreachObjptrInSQ_correct [OF demo_sched_ok(1) p(1,2) demo_sched_ok(2) [OF p(3)] l m]
  show ?thesis by blast
qed

text \<open>\<open>sizeofSchedulerQueue\<close> returns the number of waiting keys, although it subtracts
  the 32-bit indices before it widens the difference.\<close>

theorem sizeofSchedulerQueue_correct:
  assumes "sched_ok s" "self < length (procStates s)" "i \<in> {0, 1, 2}"
  shows "sizeofSchedulerQueue self i s = Inr (int (length (waiting s self i)))"
proof -
  let ?q = "sub_queue (schedulerQueue (procStates s ! self)) i"
  have q: "cb_inv ?q" using assms(1,2) sub_queue_ok by (simp add: sched_ok_def)
  have lt: "unat (cb_count ?q) < 2 ^ 31"
    using cb_len_less [OF q] cb_invD(3) [OF q] by (simp add: cb_count_len [OF q])
  then have u: "unat (ucast (cb_count ?q) :: u32) = cb_len ?q"
    by (simp add: unat_ucast_64_32 cb_count_len [OF q])
  then have "sint (ucast (cb_count ?q) :: u32) = int (cb_len ?q)"
    using lt by (simp add: sint_small cb_count_len [OF q])
  then show ?thesis
    using getSubQ_ok [OF assms(3)] by (simp add: sizeofSchedulerQueue_def waiting_def)
qed

lemma sizeofSchedulerQueue_correct_witness:
  "sizeofSchedulerQueue 1 2 demo_sched = Inr (int (length (waiting demo_sched 1 2)))"
  by (rule sizeofSchedulerQueue_correct [OF demo_sched_ok(1)]) (simp_all add: demo_sched_def)

text \<open>The initial queues.\<close>

lemma init_1024:
  "CircularBufferInit mal BUFFER_SIZE =
    map_option (\<lambda>ks. \<lparr> writePointer = 0, readPointer = 0, bsize = 1024, keys = ks \<rparr>) (mal 8208)"
proof -
  have "BUFFER_SIZE = sint (ucast (1024 :: size_t) :: u32)" by (simp add: BUFFER_SIZE_def)
  then show ?thesis using init_size [of 1024 mal] by (simp only:) simp
qed

text \<open>When \<open>malloc\<close> succeeds, the queues that \<open>GC_sqCreateQueues\<close> makes are well formed
  and empty and every lock is free.\<close>

theorem GC_sqCreateQueues_correct:
  assumes "malloc_ok mal" "mal 8208 \<noteq> None" "length (dataInMutatorQ s) = length (procStates s)"
  shows "\<exists>s'. GC_sqCreateQueues mal s = Inr s' \<and> sched_ok s' \<and>
    (\<forall>p < length (procStates s). \<forall>i. waiting s' p i = [] \<and> (\<forall>self. lock_free_or_mine self p s'))"
proof -
  obtain ks where ks: "mal 8208 = Some ks" using assms(2) by blast
  then have len: "length ks = 1024" using assms(1) by (auto simp: malloc_ok_def)
  let ?q = "\<lparr> writePointer = 0, readPointer = 0, bsize = 1024, keys = ks \<rparr>"
  have q: "cb_inv ?q" "cb_list ?q = []"
    by (auto simp: cb_inv_def cb_list_def cb_len_def len intro!: bexI [of _ 10])
  then show ?thesis
    using assms(3)
    by (simp add: GC_sqCreateQueues_def newSchedulerQueue_def init_1024 ks sched_ok_def queue_ok_def
        waiting_def sub_queue_def lock_free_or_mine_def)
qed

lemma GC_sqCreateQueues_correct_witness:
  "\<exists>s'. GC_sqCreateQueues demo_malloc demo_sched = Inr s' \<and> sched_ok s' \<and>
    (\<forall>p < length (procStates demo_sched). \<forall>i. waiting s' p i = [] \<and> (\<forall>self. lock_free_or_mine self p s'))"
  by (rule GC_sqCreateQueues_correct [OF demo_malloc_ok])
     (simp_all add: demo_malloc_def demo_sched_def)

end
