(* ===== verification/Hash_Cons.thy ===== *)
theory Hash_Cons
  imports Object_Model "HOL-Library.Multiset"
begin

text \<open>
  Hash consing of objects: \<open>gc/hash-cons.c\<close>. The table is a list of (hash, object)
  slots with open addressing and double hashing; a null object pointer marks a free
  slot. Probing is a loop without a bound in the code; here it has fuel, and \<open>None\<close> is
  fuel run out or an access outside the table. \<open>calloc\<close> is a parameter that says
  whether the allocation of a number of elements succeeds.
\<close>

section \<open>The table\<close>

type_synonym GC_hash = "32 word"

record hashElement =
  e_hash :: GC_hash
  e_object :: pointer

record hashTable =
  elements :: "hashElement list"
  elementsIsInHeap :: bool
  elementsLengthCur :: u32
  elementsLengthMax :: u32
  elementsLengthMaxLog2 :: u32
  mayInsert :: bool

text \<open>\<open>floor (((sqrt (5.0) - 1.0) / 2.0) * (double)0x100000000llu)\<close>\<close>

definition hash_mult :: u64 where "hash_mult = 2654435769"

definition first_slot :: "GC_hash \<Rightarrow> u32 \<Rightarrow> u32" where
  "first_slot hash log2 = drop_bit (unat (32 - log2)) (ucast (hash_mult * ucast hash) :: u32)"

definition first_probe :: "u32 \<Rightarrow> u32" where
  "first_probe slot = (if 1 = slot mod 2 then slot else slot - 1)"

text \<open>The largest power of two that fits, from 64 on: the shifts are of 32-bit words. The
  loop is given fuel because the shifted word can become 0.\<close>

fun largest_pow2 :: "nat \<Rightarrow> u32 \<Rightarrow> u32 \<Rightarrow> u32 \<Rightarrow> (u32 \<times> u32) option" where
  "largest_pow2 0 lim len log2 = None"
| "largest_pow2 (Suc fuel) lim len log2 =
    (if len \<le> lim then largest_pow2 fuel lim (push_bit 1 len) (log2 + 1)
     else Some (drop_bit 1 len, log2 - 1))"

definition zero_elements :: "u32 \<Rightarrow> hashElement list" where
  "zero_elements n = replicate (unat n) \<lparr> e_hash = 0, e_object = 0 \<rparr>"

text \<open>A region found in a heap holds arbitrary hashes, \<open>junk\<close>; only the object fields are
  cleared. \<open>calloc_safe\<close> does not fail.\<close>

definition allocHashTable :: "nat \<Rightarrow> (nat \<Rightarrow> GC_hash) \<Rightarrow> pointer \<Rightarrow> pointer \<Rightarrow> hashTable option" where
  "allocHashTable fuel junk regionStart regionEnd =
    (let avail = ucast ((regionEnd - regionStart) div 16) :: u32 in
     if avail < 64 then
       Some \<lparr> elements = zero_elements 64, elementsIsInHeap = False, elementsLengthCur = 0,
         elementsLengthMax = 64, elementsLengthMaxLog2 = 6, mayInsert = True \<rparr>
     else map_option (\<lambda>(len, log2).
       \<lparr> elements = map (\<lambda>i. \<lparr> e_hash = junk i, e_object = 0 \<rparr>) [0..<unat len],
         elementsIsInHeap = True, elementsLengthCur = 0, elementsLengthMax = len,
         elementsLengthMaxLog2 = log2, mayInsert = True \<rparr>) (largest_pow2 fuel avail 64 6))"

section \<open>Insertion\<close>

text \<open>The comparison of two objects with equal hashes: headers, then the words up to
  \<open>max\<close> (32 bits at a time), then the lengths if they are arrays.\<close>

definition same_object ::
    "GC_objectType list \<Rightarrow> mem \<Rightarrow> pointer \<Rightarrow> pointer \<Rightarrow> pointer \<Rightarrow> bool option" where
  "same_object types m object other mx =
    (if object = other then Some True
     else if getHeader m object \<noteq> getHeader m other then Some False
     else if \<not> list_all (\<lambda>i. load32 m (object + 4 * of_nat i) = load32 m (other + 4 * of_nat i))
       [0..<(if object < mx then (unat (mx - object) + 3) div 4 else 0)] then Some False
     else map_option (\<lambda>ty. \<not> (tag ty = ARRAY_TAG \<and> getArrayLength m object \<noteq> getArrayLength m other))
       (splitHeader types (getHeader m object)))"

fun look ::
    "nat \<Rightarrow> GC_objectType list \<Rightarrow> mem \<Rightarrow> GC_hash \<Rightarrow> pointer \<Rightarrow> pointer \<Rightarrow> bool \<Rightarrow> u32 \<Rightarrow> u32 \<Rightarrow> hashTable \<Rightarrow>
      (pointer \<times> hashTable) option" where
  "look 0 types m hash object mx mightBeThere probe slot t = None"
| "look (Suc fuel) types m hash object mx mightBeThere probe slot t =
    (if unat slot < length (elements t) then
       (let e = elements t ! unat slot;
            lookNext = look fuel types m hash object mx mightBeThere probe
              ((slot + probe) mod elementsLengthMax t) t in
        if e_object e = 0 then
          (if \<not> mayInsert t then Some (object, t)
           else Some (object, t\<lparr>
             elements := (elements t)[unat slot := \<lparr> e_hash = hash, e_object = object \<rparr>],
             elementsLengthCur := elementsLengthCur t + 1 \<rparr>))
        else if hash \<noteq> e_hash e then lookNext
        else if \<not> mightBeThere then lookNext
        else (case same_object types m object (e_object e) mx of
            None \<Rightarrow> None
          | Some True \<Rightarrow> Some (e_object e, t)
          | Some False \<Rightarrow> lookNext))
     else None)"

definition insertHashTableElem ::
    "nat \<Rightarrow> GC_objectType list \<Rightarrow> mem \<Rightarrow> hashTable \<Rightarrow> GC_hash \<Rightarrow> pointer \<Rightarrow> pointer \<Rightarrow> bool \<Rightarrow>
      (pointer \<times> hashTable) option" where
  "insertHashTableElem fuel types m t hash object mx mightBeThere =
    (let slot = first_slot hash (elementsLengthMaxLog2 t); probe = first_probe slot in
     look fuel types m hash object mx mightBeThere probe slot t)"

text \<open>The insertion loop of \<open>growHashTableMaybe\<close>.\<close>

fun reinsert :: "nat \<Rightarrow> GC_objectType list \<Rightarrow> mem \<Rightarrow> hashElement list \<Rightarrow> hashTable \<Rightarrow> hashTable option" where
  "reinsert fuel types m [] t = Some t"
| "reinsert fuel types m (e # es) t =
    (if e_object e = 0 then reinsert fuel types m es t
     else Option.bind (insertHashTableElem fuel types m t (e_hash e) (e_object e) 0 False)
       (\<lambda>(_, t). reinsert fuel types m es t))"

definition growHashTableMaybe ::
    "(u32 \<Rightarrow> bool) \<Rightarrow> nat \<Rightarrow> GC_objectType list \<Rightarrow> mem \<Rightarrow> hashTable \<Rightarrow> hashTable option" where
  "growHashTableMaybe calloc fuel types m t =
    (if \<not> mayInsert t \<or> elementsLengthCur t * 2 \<le> elementsLengthMax t then Some t
     else
       (let newMax = elementsLengthMax t * 2 in
        if \<not> calloc newMax then Some (t\<lparr> mayInsert := False \<rparr>)
        else map_option (\<lambda>t. t\<lparr> elementsIsInHeap := False \<rparr>)
          (reinsert fuel types m (elements t)
            (t\<lparr> elements := zero_elements newMax, elementsLengthMax := newMax,
               elementsLengthMaxLog2 := elementsLengthMaxLog2 t + 1 \<rparr>))))"

text \<open>The hash of the words of an object.\<close>

definition object_hash :: "mem \<Rightarrow> GC_header \<Rightarrow> pointer \<Rightarrow> pointer \<Rightarrow> GC_hash" where
  "object_hash m header object mx =
    fold (\<lambda>i h. h * 31 + load32 m (object + 4 * of_nat i))
      [0..<(if object < mx then (unat (mx - object) + 3) div 4 else 0)] (ucast header)"

definition object_end :: "gc_static \<Rightarrow> mem \<Rightarrow> GC_objectType \<Rightarrow> pointer \<Rightarrow> pointer" where
  "object_end g m ty object = object +
    (if tag ty = ARRAY_TAG then sizeofArrayNoHeader g (getArrayLength m object) ty else elementBytes ty)"

text \<open>The last component is the number of bytes counted as hash-consed.\<close>

definition hashConsPointer ::
    "(u32 \<Rightarrow> bool) \<Rightarrow> nat \<Rightarrow> gc_static \<Rightarrow> mem \<Rightarrow> pointer \<Rightarrow> bool \<Rightarrow> hashTable \<Rightarrow>
      (pointer \<times> hashTable \<times> size_t) option" where
  "hashConsPointer calloc fuel g m object countBytes t =
    (let header = getHeader m object in
     Option.bind (splitHeader (objectTypes g) header) (\<lambda>ty.
     if hasIdentity ty then Some (object, t, 0)
     else
       (let mx = object_end g m ty object; hash = object_hash m header object mx in
        Option.bind (insertHashTableElem fuel (objectTypes g) m t hash object mx True) (\<lambda>(res, t).
        Option.bind (growHashTableMaybe calloc fuel (objectTypes g) m t) (\<lambda>t.
        Some (res, t,
          if countBytes \<and> res \<noteq> object
          then (mx - object) + (if tag ty = ARRAY_TAG then GC_ARRAY_HEADER_SIZE else GC_NORMAL_HEADER_SIZE)
          else 0))))))"

section \<open>Probing reaches every slot\<close>

lemma probe_odd: "odd (unat (first_probe slot))"
proof -
  have *: "slot mod 2 = 1 \<longleftrightarrow> odd (unat slot)"
    by (simp add: word_unat_eq_iff unat_mod odd_iff_mod_2_eq_one)
  show ?thesis
  proof (cases "odd (unat slot)")
    case True
    then show ?thesis using * by (simp add: first_probe_def)
  next
    case False
    then have p: "first_probe slot = slot - 1" using * by (auto simp: first_probe_def)
    show ?thesis
    proof (cases "slot = 0")
      case True
      with p have "first_probe slot = - 1" by simp
      then show ?thesis by (simp add: unsigned_minus_1_eq_mask mask_eq_exp_minus_1)
    next
      case nz: False
      then have "1 \<le> slot" by (simp add: word_le_nat_alt unat_gt_0 Suc_le_eq)
      then have "unat (slot - 1) = unat slot - 1" by (simp add: unat_sub)
      then show ?thesis using False nz by (simp add: p unat_gt_0)
    qed
  qed
qed

lemma probe_inj:
  fixes s p n i j :: nat
  assumes "odd p" "n = 2 ^ k" "i \<le> j" "j < n" "(s + i * p) mod n = (s + j * p) mod n"
  shows "i = j"
proof -
  have "n dvd (s + j * p) - (s + i * p)"
    using assms(3,5) by (subst mod_eq_dvd_iff_nat [symmetric]) simp_all
  also have "(s + j * p) - (s + i * p) = (j - i) * p"
    using assms(3) by (simp add: diff_mult_distrib)
  finally have "n dvd (j - i) * p" .
  moreover have "coprime n p" using assms(1,2) by simp
  ultimately have "n dvd j - i" by (simp add: coprime_dvd_mult_left_iff)
  then show ?thesis using assms(3,4) dvd_imp_le [of n "j - i"] by (cases "j = i") auto
qed

lemma probe_cover:
  fixes s p n k :: nat
  assumes "odd p" "n = 2 ^ k" "x < n"
  shows "\<exists>j < n. (s + j * p) mod n = x"
proof -
  have "inj_on (\<lambda>j. (s + j * p) mod n) {0..<n}"
  proof (rule inj_onI)
    fix i j assume "i \<in> {0..<n}" "j \<in> {0..<n}" "(s + i * p) mod n = (s + j * p) mod n"
    then show "i = j"
      using probe_inj [OF assms(1,2), of i j s] probe_inj [OF assms(1,2), of j i s]
      by (cases "i \<le> j") auto
  qed
  moreover have "(\<lambda>j. (s + j * p) mod n) ` {0..<n} \<subseteq> {0..<n}" using assms(3) by auto
  ultimately have "(\<lambda>j. (s + j * p) mod n) ` {0..<n} = {0..<n}"
    by (intro card_subset_eq) (auto simp: card_image)
  moreover have "x \<in> {0..<n}" using assms(3) by simp
  ultimately show ?thesis by (metis (no_types, lifting) atLeastLessThan_iff imageE)
qed

section \<open>Well-formed tables\<close>

definition table_ok :: "hashTable \<Rightarrow> bool" where
  "table_ok t \<longleftrightarrow> (\<exists>k\<in>{1..31}. elementsLengthMax t = 2 ^ k \<and> elementsLengthMaxLog2 t = of_nat k) \<and>
    length (elements t) = unat (elementsLengthMax t)"

definition used_slots :: "hashElement list \<Rightarrow> nat" where
  "used_slots es = length (filter (\<lambda>e. e_object e \<noteq> 0) es)"

lemma unat_pow2_32: "k < 32 \<Longrightarrow> unat (2 ^ k :: u32) = 2 ^ k"
proof -
  assume "k < 32"
  then have "uint (2 ^ k :: u32) = 2 ^ k" by (intro uint_2p) (simp add: word_gt_0)
  then show ?thesis by (simp add: unat_eq_nat_uint)
qed

lemma table_okD:
  assumes "table_ok t"
  obtains k where "1 \<le> k" "k \<le> 31" "length (elements t) = 2 ^ k" "unat (elementsLengthMax t) = 2 ^ k"
    "unat (elementsLengthMaxLog2 t) = k"
  using assms by (auto simp: table_ok_def unat_pow2_32 unsigned_of_nat take_bit_nat_eq_self)

lemma next_slot:
  fixes slot probe len :: u32
  assumes "unat len = 2 ^ k" "k \<le> 31"
  shows "unat ((slot + probe) mod len) = (unat slot + unat probe) mod 2 ^ k"
proof -
  have "(2 :: nat) ^ k dvd 2 ^ 32" using assms(2) by (intro le_imp_power_dvd) simp
  then show ?thesis
    by (simp add: unat_mod assms(1) unat_word_ariths mod_mod_cancel)
qed

lemma first_slot_in:
  assumes "table_ok t"
  shows "unat (first_slot hash (elementsLengthMaxLog2 t)) < length (elements t)"
proof -
  obtain k where k: "1 \<le> k" "k \<le> 31" "length (elements t) = 2 ^ k" "unat (elementsLengthMaxLog2 t) = k"
    using table_okD [OF assms] by blast
  let ?w = "ucast (hash_mult * ucast hash) :: u32"
  have "elementsLengthMaxLog2 t \<le> 32" using k by (simp add: word_le_nat_alt)
  then have "unat (32 - elementsLengthMaxLog2 t) = 32 - k" using k(4) by (simp add: unat_sub)
  moreover have "unat ?w < 2 ^ k * 2 ^ (32 - k)"
    using unsigned_less [of ?w, where ?'a = nat] k(2) by (simp flip: power_add)
  ultimately have "unat ?w div 2 ^ (32 - k) < 2 ^ k" and "unat (32 - elementsLengthMaxLog2 t) = 32 - k"
    by (simp_all add: div_less_iff_less_mult)
  then show ?thesis
    by (simp only: first_slot_def k(3) unat_drop_bit_eq) (simp only: drop_bit_eq_div)
qed

lemma look_terminates:
  assumes k: "unat (elementsLengthMax t) = 2 ^ k" "k \<le> 31" "length (elements t) = 2 ^ k"
    and cmp: "mightBeThere \<longrightarrow> (\<forall>e \<in> set (elements t). e_object e \<noteq> 0 \<longrightarrow> same_object types m object (e_object e) mx \<noteq> None)"
  shows "unat slot < 2 ^ k \<Longrightarrow> j < fuel \<Longrightarrow>
    e_object (elements t ! ((unat slot + j * unat probe) mod 2 ^ k)) = 0 \<Longrightarrow>
    look fuel types m hash object mx mightBeThere probe slot t \<noteq> None"
proof (induction fuel arbitrary: slot j)
  case (Suc fuel)
  let ?e = "elements t ! unat slot"
  let ?next = "(slot + probe) mod elementsLengthMax t"
  show ?case
  proof (cases "e_object ?e = 0")
    case True
    then show ?thesis using Suc.prems(1) k(3) by (simp add: Let_def)
  next
    case False
    then have "j \<noteq> 0" using Suc.prems(1,3) by (intro notI) simp
    then obtain j' where j': "j = Suc j'" "j' < fuel" using Suc.prems(2) by (cases j) auto
    have n: "unat ?next = (unat slot + unat probe) mod 2 ^ k" by (rule next_slot [OF k(1,2)])
    then have "(unat ?next + j' * unat probe) mod 2 ^ k = (unat slot + j * unat probe) mod 2 ^ k"
      by (simp add: j'(1) mod_add_left_eq add.assoc)
    moreover have "unat ?next < 2 ^ k" using n by simp
    ultimately have IH: "look fuel types m hash object mx mightBeThere probe ?next t \<noteq> None"
      using Suc.IH [of ?next j'] j'(2) Suc.prems(3) by simp
    have "mightBeThere \<longrightarrow> same_object types m object (e_object ?e) mx \<noteq> None"
      using cmp False Suc.prems(1) k(3) by simp
    then show ?thesis
      using IH False Suc.prems(1) k(3) by (auto simp: Let_def split: option.splits bool.splits)
  qed
qed simp

text \<open>What a search that ends has done.\<close>

definition look_result ::
    "GC_objectType list \<Rightarrow> mem \<Rightarrow> GC_hash \<Rightarrow> pointer \<Rightarrow> pointer \<Rightarrow> bool \<Rightarrow> hashTable \<Rightarrow> pointer \<times> hashTable \<Rightarrow> bool" where
  "look_result types m hash object mx mightBeThere t rt \<longleftrightarrow>
    (\<not> mayInsert t \<and> rt = (object, t)) \<or>
    (mayInsert t \<and> fst rt = object \<and> (\<exists>i < length (elements t). e_object (elements t ! i) = 0 \<and>
      snd rt = t\<lparr> elements := (elements t)[i := \<lparr> e_hash = hash, e_object = object \<rparr>],
        elementsLengthCur := elementsLengthCur t + 1 \<rparr>)) \<or>
    (mightBeThere \<and> snd rt = t \<and> (\<exists>e \<in> set (elements t). fst rt = e_object e \<and> e_object e \<noteq> 0 \<and>
      e_hash e = hash \<and> same_object types m object (e_object e) mx = Some True))"

lemma look_correct:
  "look fuel types m hash object mx mightBeThere probe slot t = Some rt \<Longrightarrow>
    look_result types m hash object mx mightBeThere t rt"
proof (induction fuel arbitrary: slot)
  case (Suc fuel)
  let ?e = "elements t ! unat slot"
  have in_range: "unat slot < length (elements t)" using Suc.prems by (auto split: if_splits)
  show ?case
  proof (cases "e_object ?e = 0")
    case True
    then show ?thesis using Suc.prems in_range
      by (auto simp: look_result_def Let_def split: if_splits)
  next
    case False
    show ?thesis
    proof (cases "hash = e_hash ?e \<and> mightBeThere \<and> same_object types m object (e_object ?e) mx = Some True")
      case True
      then show ?thesis using Suc.prems in_range False
        by (auto simp: look_result_def Let_def intro!: bexI [of _ ?e])
    next
      case no: False
      then have "look fuel types m hash object mx mightBeThere probe ((slot + probe) mod elementsLengthMax t) t = Some rt"
        using Suc.prems in_range False by (auto simp: Let_def split: if_splits option.splits bool.splits)
      then show ?thesis by (rule Suc.IH)
    qed
  qed
qed simp

text \<open>A second search for the object just inserted finds it.\<close>

lemma look_again:
  assumes "look fuel types m hash object mx True probe slot t = Some (object, t')" "object \<noteq> 0" "t' \<noteq> t"
  shows "look fuel types m hash object mx True probe slot t' = Some (object, t')"
  using assms(1)
proof (induction fuel arbitrary: slot)
  case (Suc fuel)
  let ?e = "elements t ! unat slot"
  have in_range: "unat slot < length (elements t)" using Suc.prems by (auto split: if_splits)
  obtain i where i: "i < length (elements t)" "e_object (elements t ! i) = 0"
      "t' = t\<lparr> elements := (elements t)[i := \<lparr> e_hash = hash, e_object = object \<rparr>],
        elementsLengthCur := elementsLengthCur t + 1 \<rparr>"
    using look_correct [OF Suc.prems] assms(3) by (auto simp: look_result_def)
  show ?case
  proof (cases "e_object ?e = 0")
    case True
    then have "t' = t\<lparr> elements := (elements t)[unat slot := \<lparr> e_hash = hash, e_object = object \<rparr>],
        elementsLengthCur := elementsLengthCur t + 1 \<rparr>"
      using Suc.prems in_range assms(3) by (auto simp: Let_def split: if_splits)
    then show ?thesis using in_range assms(2) by (simp add: Let_def same_object_def)
  next
    case False
    then have ne: "unat slot \<noteq> i" using i(2) by auto
    have "look fuel types m hash object mx True probe ((slot + probe) mod elementsLengthMax t) t = Some (object, t')"
      and no: "\<not> (hash = e_hash ?e \<and> same_object types m object (e_object ?e) mx = Some True)"
        "hash = e_hash ?e \<longrightarrow> same_object types m object (e_object ?e) mx \<noteq> None"
      using Suc.prems in_range False assms(3) by (auto simp: Let_def split: if_splits option.splits bool.splits)
    then have "look fuel types m hash object mx True probe ((slot + probe) mod elementsLengthMax t) t' = Some (object, t')"
      by (intro Suc.IH)
    then show ?thesis
      using False no in_range ne by (auto simp: i(3) Let_def split: option.splits bool.splits)
  qed
qed simp

section \<open>What is in the table is found\<close>

text \<open>The slots that a search for \<open>hash\<close> looks at, one after the other.\<close>

definition probe_index :: "hashTable \<Rightarrow> GC_hash \<Rightarrow> nat \<Rightarrow> nat" where
  "probe_index t hash j = (let slot = first_slot hash (elementsLengthMaxLog2 t) in
    (unat slot + j * unat (first_probe slot)) mod length (elements t))"

text \<open>Every entry is on its way, with no free slot before it.\<close>

definition findable :: "hashTable \<Rightarrow> bool" where
  "findable t \<longleftrightarrow> (\<forall>i<length (elements t). e_object (elements t ! i) \<noteq> 0 \<longrightarrow>
    (\<exists>j. i = probe_index t (e_hash (elements t ! i)) j \<and>
      (\<forall>l<j. e_object (elements t ! probe_index t (e_hash (elements t ! i)) l) \<noteq> 0)))"

definition equal_entry ::
    "GC_objectType list \<Rightarrow> mem \<Rightarrow> GC_hash \<Rightarrow> pointer \<Rightarrow> pointer \<Rightarrow> hashElement \<Rightarrow> bool" where
  "equal_entry types m hash object mx e \<longleftrightarrow>
    e_object e \<noteq> 0 \<and> e_hash e = hash \<and> same_object types m object (e_object e) mx = Some True"

definition with_entry :: "nat \<Rightarrow> GC_hash \<Rightarrow> pointer \<Rightarrow> hashTable \<Rightarrow> hashTable" where
  "with_entry i hash object t = t\<lparr> elements := (elements t)[i := \<lparr> e_hash = hash, e_object = object \<rparr>],
     elementsLengthCur := elementsLengthCur t + 1 \<rparr>"

text \<open>A search stops at the first slot that is free or holds an equal object.\<close>

lemma look_first:
  assumes k: "unat (elementsLengthMax t) = 2 ^ k" "k \<le> 31" "length (elements t) = 2 ^ k"
  shows "look fuel types m hash object mx mightBeThere probe slot t = Some (r, t') \<Longrightarrow> unat slot < 2 ^ k \<Longrightarrow>
    \<exists>j. (\<forall>l<j. e_object (elements t ! ((unat slot + l * unat probe) mod 2 ^ k)) \<noteq> 0 \<and>
        \<not> (mightBeThere \<and> equal_entry types m hash object mx (elements t ! ((unat slot + l * unat probe) mod 2 ^ k)))) \<and>
      (if e_object (elements t ! ((unat slot + j * unat probe) mod 2 ^ k)) = 0
       then r = object \<and> t' = (if mayInsert t then with_entry ((unat slot + j * unat probe) mod 2 ^ k) hash object t else t)
       else mightBeThere \<and> equal_entry types m hash object mx (elements t ! ((unat slot + j * unat probe) mod 2 ^ k)) \<and>
         r = e_object (elements t ! ((unat slot + j * unat probe) mod 2 ^ k)) \<and> t' = t)"
proof (induction fuel arbitrary: slot)
  case (Suc fuel)
  let ?e = "elements t ! unat slot"
  let ?next = "(slot + probe) mod elementsLengthMax t"
  show ?case
  proof (cases "e_object ?e = 0 \<or> mightBeThere \<and> equal_entry types m hash object mx ?e")
    case True
    then show ?thesis
      using Suc.prems k(3)
      by (intro exI [of _ 0]) (auto simp: Let_def equal_entry_def with_entry_def split: if_splits)
  next
    case False
    then have go: "look fuel types m hash object mx mightBeThere probe ?next t = Some (r, t')"
      using Suc.prems k(3) by (auto simp: Let_def equal_entry_def split: if_splits option.splits bool.splits)
    have n: "unat ?next = (unat slot + unat probe) mod 2 ^ k" by (rule next_slot [OF k(1,2)])
    have idx: "(unat ?next + l * unat probe) mod 2 ^ k = (unat slot + Suc l * unat probe) mod 2 ^ k" for l
      by (simp add: n mod_add_left_eq add.assoc)
    have "unat ?next < 2 ^ k" using n by simp
    from Suc.IH [OF go this] obtain j where
      j: "\<forall>l<j. e_object (elements t ! ((unat slot + Suc l * unat probe) mod 2 ^ k)) \<noteq> 0 \<and>
        \<not> (mightBeThere \<and> equal_entry types m hash object mx (elements t ! ((unat slot + Suc l * unat probe) mod 2 ^ k)))"
      "if e_object (elements t ! ((unat slot + Suc j * unat probe) mod 2 ^ k)) = 0
       then r = object \<and> t' = (if mayInsert t then with_entry ((unat slot + Suc j * unat probe) mod 2 ^ k) hash object t else t)
       else mightBeThere \<and> equal_entry types m hash object mx (elements t ! ((unat slot + Suc j * unat probe) mod 2 ^ k)) \<and>
         r = e_object (elements t ! ((unat slot + Suc j * unat probe) mod 2 ^ k)) \<and> t' = t"
      unfolding idx by blast
    have "e_object (elements t ! ((unat slot + l * unat probe) mod 2 ^ k)) \<noteq> 0 \<and>
        \<not> (mightBeThere \<and> equal_entry types m hash object mx (elements t ! ((unat slot + l * unat probe) mod 2 ^ k)))"
      if "l < Suc j" for l
    proof (cases l)
      case 0
      then show ?thesis using False Suc.prems(2) by simp
    next
      case (Suc l')
      then show ?thesis using j(1) that by blast
    qed
    then show ?thesis using j(2) by (intro exI [of _ "Suc j"]) blast
  qed
qed simp

lemma probe_index_with_entry [simp]: "probe_index (with_entry i hash object t) = probe_index t"
  by (simp add: fun_eq_iff probe_index_def with_entry_def)

lemma findable_with_entry:
  assumes f: "findable t" and i: "i = probe_index t hash j" "e_object (elements t ! i) = 0" "i < length (elements t)"
    and before: "\<forall>l<j. e_object (elements t ! probe_index t hash l) \<noteq> 0"
  shows "findable (with_entry i hash object t)"
  unfolding findable_def probe_index_with_entry
proof (intro allI impI)
  let ?t = "with_entry i hash object t"
  have el: "elements ?t = (elements t)[i := \<lparr> e_hash = hash, e_object = object \<rparr>]" by (simp add: with_entry_def)
  have still: "e_object (elements ?t ! x) \<noteq> 0" if "e_object (elements t ! x) \<noteq> 0" for x
    using that i(2) by (cases "x = i") (auto simp: el)
  fix x assume x: "x < length (elements ?t)" "e_object (elements ?t ! x) \<noteq> 0"
  show "\<exists>j. x = probe_index t (e_hash (elements ?t ! x)) j \<and>
      (\<forall>l<j. e_object (elements ?t ! probe_index t (e_hash (elements ?t ! x)) l) \<noteq> 0)"
  proof (cases "x = i")
    case True
    then have "e_hash (elements ?t ! x) = hash" using i(3) by (simp add: el)
    then show ?thesis using True i(1) before still by (intro exI [of _ j]) simp
  next
    case False
    then have same: "elements ?t ! x = elements t ! x" by (simp add: el)
    moreover have "x < length (elements t)" using x(1) by (simp add: el)
    ultimately obtain j' where "x = probe_index t (e_hash (elements t ! x)) j'"
        "\<forall>l<j'. e_object (elements t ! probe_index t (e_hash (elements t ! x)) l) \<noteq> 0"
      using f x(2) unfolding findable_def by auto
    then show ?thesis using same still by (intro exI [of _ j']) simp
  qed
qed

lemma insert_outcome:
  assumes ok: "table_ok t" "findable t"
    and ins: "insertHashTableElem fuel types m t hash object mx mightBeThere = Some (r, t')"
  shows "table_ok t' \<and> findable t' \<and>
    (if mightBeThere \<and> (\<exists>e\<in>set (elements t). equal_entry types m hash object mx e)
     then t' = t \<and> (\<exists>e\<in>set (elements t). equal_entry types m hash object mx e \<and> r = e_object e)
     else r = object \<and>
       (if mayInsert t then \<exists>i<length (elements t). e_object (elements t ! i) = 0 \<and> t' = with_entry i hash object t else t' = t))"
proof -
  obtain k where k: "1 \<le> k" "k \<le> 31" "length (elements t) = 2 ^ k" "unat (elementsLengthMax t) = 2 ^ k"
    using table_okD [OF ok(1)] by blast
  let ?slot = "first_slot hash (elementsLengthMaxLog2 t)" and ?hit = "\<lambda>e. mightBeThere \<and> equal_entry types m hash object mx e"
  let ?i = "probe_index t hash"
  have "unat ?slot < 2 ^ k" using first_slot_in [OF ok(1)] k(3) by simp
  from look_first [OF k(4,2,3) ins [unfolded insertHashTableElem_def Let_def] this] obtain j where
    j: "\<forall>l<j. e_object (elements t ! ?i l) \<noteq> 0 \<and> \<not> ?hit (elements t ! ?i l)"
    "if e_object (elements t ! ?i j) = 0 then r = object \<and> t' = (if mayInsert t then with_entry (?i j) hash object t else t)
     else ?hit (elements t ! ?i j) \<and> r = e_object (elements t ! ?i j) \<and> t' = t"
    by (auto simp: probe_index_def Let_def k(3))
  have inr: "?i l < length (elements t)" for l by (simp add: probe_index_def Let_def k(3))
  show ?thesis
  proof (cases "e_object (elements t ! ?i j) = 0")
    case True
    have "\<not> ?hit e" if e: "e \<in> set (elements t)" for e
    proof
      assume h: "?hit e"
      obtain x where x: "x < length (elements t)" "e = elements t ! x" using e by (metis in_set_conv_nth)
      then obtain l where l: "x = ?i l" "\<forall>l'<l. e_object (elements t ! ?i l') \<noteq> 0"
        using ok(2) h unfolding findable_def equal_entry_def by auto
      then have "l < j" using True h x(2) by (metis equal_entry_def linorder_neqE_nat)
      then show False using j(1) h l(1) x(2) by simp
    qed
    then have no: "\<not> (mightBeThere \<and> (\<exists>e\<in>set (elements t). equal_entry types m hash object mx e))" by blast
    have r: "r = object" "t' = (if mayInsert t then with_entry (?i j) hash object t else t)" using j(2) True by simp_all
    have "findable (with_entry (?i j) hash object t)"
      using j(1) by (intro findable_with_entry [OF ok(2) refl True inr]) blast
    moreover have "table_ok (with_entry (?i j) hash object t)" using ok(1) by (simp add: table_ok_def with_entry_def)
    ultimately have inv: "table_ok t' \<and> findable t'" using r(2) ok by simp
    have "r = object \<and> (if mayInsert t then \<exists>i<length (elements t). e_object (elements t ! i) = 0 \<and> t' = with_entry i hash object t else t' = t)"
      using r True inr by (cases "mayInsert t") auto
    with inv show ?thesis unfolding if_not_P [OF no] by blast
  next
    case False
    then have r: "?hit (elements t ! ?i j)" "r = e_object (elements t ! ?i j)" "t' = t" using j(2) by simp_all
    have e: "elements t ! ?i j \<in> set (elements t)" using inr by simp
    then have yes: "mightBeThere \<and> (\<exists>e\<in>set (elements t). equal_entry types m hash object mx e)" using r(1) by blast
    show ?thesis unfolding if_P [OF yes] using ok r e by blast
  qed
qed

lemma reinsert_findable:
  "table_ok t \<Longrightarrow> findable t \<Longrightarrow> reinsert fuel types m es t = Some t' \<Longrightarrow> table_ok t' \<and> findable t'"
proof (induction es arbitrary: t)
  case (Cons e es)
  show ?case
  proof (cases "e_object e = 0")
    case False
    then obtain r t1 where t1: "insertHashTableElem fuel types m t (e_hash e) (e_object e) 0 False = Some (r, t1)"
        "reinsert fuel types m es t1 = Some t'"
      using Cons.prems(3) by (auto simp: bind_eq_Some_conv)
    then show ?thesis using Cons.IH [of t1] insert_outcome [OF Cons.prems(1,2) t1(1)] by blast
  qed (use Cons in simp)
qed simp

text \<open>The three operations on tables keep this invariant.\<close>

lemma findable_empty: "(\<And>e. e \<in> set (elements t) \<Longrightarrow> e_object e = 0) \<Longrightarrow> findable t"
  by (auto simp: findable_def)

section \<open>Allocation\<close>

lemma push_pow2: "push_bit 1 (2 ^ k :: u32) = 2 ^ Suc k"
  by (simp add: push_bit_eq_mult)

lemma drop_pow2:
  assumes "1 \<le> k" "k < 32"
  shows "drop_bit 1 (2 ^ k :: u32) = 2 ^ (k - 1)"
proof -
  have "unat (drop_bit 1 (2 ^ k :: u32)) = drop_bit 1 (2 ^ k)"
    using assms by (simp only: unat_drop_bit_eq unat_pow2_32)
  also have "\<dots> = 2 ^ (k - 1)" using assms(1) by (cases k) (simp_all add: drop_bit_Suc)
  also have "\<dots> = unat (2 ^ (k - 1) :: u32)" using assms by (subst unat_pow2_32) simp_all
  finally show ?thesis by (rule word_unat_eq_iff [THEN iffD2])
qed

lemma largest_pow2_some:
  assumes "unat lim < 2 ^ 31"
  shows "1 \<le> k \<Longrightarrow> k \<le> 31 \<Longrightarrow> (k = 1 \<or> 2 ^ (k - 1) \<le> unat lim) \<Longrightarrow> 31 - k < fuel \<Longrightarrow>
    \<exists>j. largest_pow2 fuel lim (2 ^ k) (of_nat k) = Some (2 ^ j, of_nat j) \<and> k - 1 \<le> j \<and> j \<le> 30 \<and>
      unat lim < 2 ^ Suc j \<and> (j = 0 \<or> 2 ^ j \<le> unat lim)"
proof (induction fuel arbitrary: k)
  case (Suc fuel)
  have pw: "unat (2 ^ k :: u32) = 2 ^ k" using Suc.prems(2) by (intro unat_pow2_32) simp
  show ?case
  proof (cases "2 ^ k \<le> unat lim")
    case True
    then have "(2 :: nat) ^ k < 2 ^ 31" using assms by simp
    then have k: "k < 31" by (rule power_less_imp_less_exp [rotated]) simp
    have "(of_nat k :: u32) + 1 = of_nat (Suc k)" by simp
    then have "largest_pow2 (Suc fuel) lim (2 ^ k) (of_nat k) = largest_pow2 fuel lim (2 ^ Suc k) (of_nat (Suc k))"
      using True pw by (simp only: largest_pow2.simps word_le_nat_alt push_pow2 if_True)
    moreover have "31 - Suc k < fuel" using k Suc.prems(4) by linarith
    then obtain j where "largest_pow2 fuel lim (2 ^ Suc k) (of_nat (Suc k)) = Some (2 ^ j, of_nat j)"
        "Suc k - 1 \<le> j" "j \<le> 30" "unat lim < 2 ^ Suc j" "j = 0 \<or> 2 ^ j \<le> unat lim"
      using Suc.IH [of "Suc k"] k True by (auto simp del: largest_pow2.simps of_nat_Suc power_Suc)
    ultimately show ?thesis by (intro exI [of _ j]) (simp del: largest_pow2.simps)
  next
    case False
    have "(of_nat k :: u32) - 1 = of_nat (k - 1)" using Suc.prems(1) by (simp add: of_nat_diff)
    then have "largest_pow2 (Suc fuel) lim (2 ^ k) (of_nat k) = Some (2 ^ (k - 1), of_nat (k - 1))"
      using False pw Suc.prems(1,2) drop_pow2 [of k] by (simp only: largest_pow2.simps word_le_nat_alt if_False)
    then show ?thesis
      using False Suc.prems(1,2,3) by (intro exI [of _ "k - 1"]) (auto simp del: largest_pow2.simps)
  qed
qed simp

lemma largest_pow2_zero: "largest_pow2 fuel lim 0 log2 = None"
  by (induction fuel arbitrary: log2) (simp_all add: push_bit_eq_mult)

lemma largest_pow2_none:
  "2 ^ 31 \<le> unat lim \<Longrightarrow> k \<le> 31 \<Longrightarrow> largest_pow2 fuel lim (2 ^ k) log2 = None"
proof (induction fuel arbitrary: k log2)
  case (Suc fuel)
  have "(2 :: nat) ^ k \<le> 2 ^ 31" using Suc.prems(2) by (intro power_increasing) simp_all
  then have "(2 ^ k :: u32) \<le> lim" using Suc.prems by (simp add: word_le_nat_alt unat_pow2_32)
  then have "largest_pow2 (Suc fuel) lim (2 ^ k) log2 = largest_pow2 fuel lim (2 ^ Suc k) (log2 + 1)"
    by (simp only: largest_pow2.simps push_pow2 if_True)
  also have "\<dots> = None"
  proof (cases "k = 31")
    case True
    then have "(2 ^ Suc k :: u32) = 0" by simp
    then show ?thesis by (simp only: largest_pow2_zero)
  next
    case False
    then show ?thesis using Suc.IH [of "Suc k"] Suc.prems by (simp del: power_Suc)
  qed
  finally show ?case .
qed simp

section \<open>Growing\<close>

text \<open>The occupied slots, as a multiset of hashes and objects.\<close>

definition entries :: "hashElement list \<Rightarrow> (GC_hash \<times> pointer) multiset" where
  "entries es = mset (map (\<lambda>e. (e_hash e, e_object e)) (filter (\<lambda>e. e_object e \<noteq> 0) es))"

lemma size_entries: "size_class.size (entries es) = used_slots es"
  by (induction es) (simp_all add: entries_def used_slots_def)

lemma entries_Cons: "entries (e # es) =
    (if e_object e = 0 then entries es else add_mset (e_hash e, e_object e) (entries es))"
  by (simp add: entries_def)

lemma entries_update:
  "i < length es \<Longrightarrow> e_object (es ! i) = 0 \<Longrightarrow> e_object e \<noteq> 0 \<Longrightarrow>
    entries (es[i := e]) = add_mset (e_hash e, e_object e) (entries es)"
  by (induction es arbitrary: i) (auto simp: entries_Cons split: nat.split)

lemma entries_zero [simp]: "entries (zero_elements n) = {#}"
  by (simp add: entries_def zero_elements_def)

lemma used_slots_free: "used_slots es < length es \<Longrightarrow> \<exists>i < length es. e_object (es ! i) = 0"
proof (rule ccontr)
  assume "used_slots es < length es" and "\<not> (\<exists>i < length es. e_object (es ! i) = 0)"
  then have "filter (\<lambda>e. e_object e \<noteq> 0) es = es" by (auto simp: filter_id_conv in_set_conv_nth)
  with \<open>used_slots es < length es\<close> show False by (simp add: used_slots_def)
qed

lemma insert_terminates:
  assumes ok: "table_ok t" and free: "\<exists>i < length (elements t). e_object (elements t ! i) = 0"
    and cmp: "mightBeThere \<longrightarrow> (\<forall>e \<in> set (elements t). e_object e \<noteq> 0 \<longrightarrow> same_object types m object (e_object e) mx \<noteq> None)"
    and fuel: "length (elements t) \<le> fuel"
  shows "insertHashTableElem fuel types m t hash object mx mightBeThere \<noteq> None"
proof -
  obtain k where k: "k \<le> 31" "length (elements t) = 2 ^ k" "unat (elementsLengthMax t) = 2 ^ k"
    using table_okD [OF ok] by blast
  let ?slot = "first_slot hash (elementsLengthMaxLog2 t)"
  obtain i where i: "i < 2 ^ k" "e_object (elements t ! i) = 0" using free k(2) by auto
  obtain j where j: "j < 2 ^ k" "(unat ?slot + j * unat (first_probe ?slot)) mod 2 ^ k = i"
    using probe_cover [OF probe_odd refl i(1), of "unat ?slot" ?slot] by blast
  show ?thesis unfolding insertHashTableElem_def Let_def
    using look_terminates [OF k(3,1,2) cmp, of ?slot j fuel "first_probe ?slot"] first_slot_in [OF ok, of hash] i j fuel k(2)
    by simp
qed

text \<open>Insertion without comparison, as \<open>growHashTableMaybe\<close> does it.\<close>

lemma reinsert_one:
  assumes ok: "table_ok t" and may: "mayInsert t" and obj: "object \<noteq> 0"
    and room: "used_slots (elements t) < length (elements t)" and fuel: "length (elements t) \<le> fuel"
  obtains t' where "insertHashTableElem fuel types m t hash object 0 False = Some (object, t')"
    "table_ok t'" "mayInsert t'" "elementsLengthMax t' = elementsLengthMax t"
    "elementsIsInHeap t' = elementsIsInHeap t" "length (elements t') = length (elements t)"
    "entries (elements t') = add_mset (hash, object) (entries (elements t))"
    "elementsLengthCur t' = elementsLengthCur t + 1"
proof -
  obtain r t' where ins: "insertHashTableElem fuel types m t hash object 0 False = Some (r, t')"
    using insert_terminates [OF ok used_slots_free [OF room] _ fuel, where hash = hash and object = object
      and mx = 0 and types = types and m = m and mightBeThere = False] by auto
  then have "look_result types m hash object 0 False t (r, t')"
    unfolding insertHashTableElem_def Let_def by (rule look_correct)
  then obtain i where i: "r = object" "i < length (elements t)" "e_object (elements t ! i) = 0"
      "t' = t\<lparr> elements := (elements t)[i := \<lparr> e_hash = hash, e_object = object \<rparr>],
        elementsLengthCur := elementsLengthCur t + 1 \<rparr>"
    using may by (auto simp: look_result_def)
  show thesis
    by (rule that [of t']) (use ins i ok may obj in \<open>simp_all add: table_ok_def entries_update\<close>)
qed

lemma reinsert_correct:
  "table_ok t \<Longrightarrow> mayInsert t \<Longrightarrow> used_slots es + used_slots (elements t) \<le> length (elements t) \<Longrightarrow>
    length (elements t) \<le> fuel \<Longrightarrow>
    \<exists>t'. reinsert fuel types m es t = Some t' \<and> table_ok t' \<and> mayInsert t' \<and>
      elementsLengthMax t' = elementsLengthMax t \<and>
      entries (elements t') = entries es + entries (elements t) \<and>
      elementsLengthCur t' = elementsLengthCur t + of_nat (used_slots es)"
proof (induction es arbitrary: t)
  case Nil
  then show ?case by (simp add: entries_def used_slots_def)
next
  case (Cons e es)
  show ?case
  proof (cases "e_object e = 0")
    case True
    then show ?thesis using Cons by (simp add: entries_Cons used_slots_def)
  next
    case False
    then have used: "used_slots (e # es) = Suc (used_slots es)" by (simp add: used_slots_def)
    then have "used_slots (elements t) < length (elements t)" using Cons.prems(3) by simp
    then obtain t1 where t1: "insertHashTableElem fuel types m t (e_hash e) (e_object e) 0 False = Some (e_object e, t1)"
      "table_ok t1" "mayInsert t1" "elementsLengthMax t1 = elementsLengthMax t"
      "length (elements t1) = length (elements t)"
      "entries (elements t1) = add_mset (e_hash e, e_object e) (entries (elements t))"
      "elementsLengthCur t1 = elementsLengthCur t + 1"
      using reinsert_one [OF Cons.prems(1,2) False _ Cons.prems(4)] by metis
    have "used_slots (elements t1) = Suc (used_slots (elements t))"
      using t1(6) by (simp flip: size_entries)
    then have "\<exists>t'. reinsert fuel types m es t1 = Some t' \<and> table_ok t' \<and> mayInsert t' \<and>
      elementsLengthMax t' = elementsLengthMax t1 \<and>
      entries (elements t') = entries es + entries (elements t1) \<and>
      elementsLengthCur t' = elementsLengthCur t1 + of_nat (used_slots es)"
      using Cons.prems t1 used by (intro Cons.IH) simp_all
    then show ?thesis using False t1 used by (auto simp: entries_Cons)
  qed
qed

text \<open>C37: The room of a region is its number of elements in 32 bits. The table allocated in a region with room for fewer than \<open>2^31\<close> elements is well formed and
  empty, has a power of two of at least 64 slots and, when it is placed in the region, fits
  there and takes more than half of the room. With room for \<open>2^31\<close> elements or more the
  doubled length becomes 0 in its 32 bits and the search for the length never ends.\<close>

theorem allocHashTable_correct:
  fixes regionStart regionEnd :: pointer
  defines "avail \<equiv> unat (ucast ((regionEnd - regionStart) div 16) :: u32)"
  shows "(avail < 2 ^ 31 \<longrightarrow> (\<exists>t. allocHashTable 27 junk regionStart regionEnd = Some t \<and>
      table_ok t \<and> used_slots (elements t) = 0 \<and> 64 \<le> unat (elementsLengthMax t) \<and>
      (elementsIsInHeap t \<longleftrightarrow> 64 \<le> avail) \<and>
      (elementsIsInHeap t \<longrightarrow> length (elements t) \<le> avail \<and> avail < 2 * length (elements t)))) \<and>
    (2 ^ 31 \<le> avail \<longrightarrow> (\<forall>fuel. allocHashTable fuel junk regionStart regionEnd = None))"
proof (intro conjI impI allI)
  let ?lim = "ucast ((regionEnd - regionStart) div 16) :: u32"
  have small: "?lim < 64 \<longleftrightarrow> avail < 64" by (simp add: avail_def word_less_nat_alt)
  {
    assume lim: "avail < 2 ^ 31"
    show "\<exists>t. allocHashTable 27 junk regionStart regionEnd = Some t \<and>
      table_ok t \<and> used_slots (elements t) = 0 \<and> 64 \<le> unat (elementsLengthMax t) \<and>
      (elementsIsInHeap t \<longleftrightarrow> 64 \<le> avail) \<and>
      (elementsIsInHeap t \<longrightarrow> length (elements t) \<le> avail \<and> avail < 2 * length (elements t))"
    proof (cases "avail < 64")
      case True
      then show ?thesis using small
        by (auto simp: allocHashTable_def Let_def table_ok_def zero_elements_def used_slots_def intro!: bexI [of _ 6])
    next
      case False
      then have le: "64 \<le> ?lim" using small by (simp add: not_less)
      have "largest_pow2 (Suc 26) ?lim 64 6 = largest_pow2 26 ?lim (2 ^ 7) (of_nat 7)"
        unfolding largest_pow2.simps(2) if_P [OF le] by (simp add: push_bit_eq_mult)
      then have start: "largest_pow2 27 ?lim 64 6 = largest_pow2 26 ?lim (2 ^ 7) (of_nat 7)"
        by (simp only: eval_nat_numeral BitM.simps Suc_eq_plus1)
      obtain j where j: "largest_pow2 26 ?lim (2 ^ 7) (of_nat 7) = Some (2 ^ j, of_nat j)"
          "6 \<le> j" "j \<le> 30" "avail < 2 ^ Suc j" "2 ^ j \<le> avail"
        using largest_pow2_some [of ?lim 7 26] lim False by (auto simp: avail_def simp del: of_nat_numeral)
      have "(2 :: nat) ^ 6 \<le> 2 ^ j" using j(2) by (intro power_increasing) simp_all
      then have ge: "64 \<le> (2 :: nat) ^ j" by simp
      let ?t = "\<lparr> elements = map (\<lambda>i. \<lparr> e_hash = junk i, e_object = 0 \<rparr>) [0..<2 ^ j],
        elementsIsInHeap = True, elementsLengthCur = 0, elementsLengthMax = 2 ^ j,
        elementsLengthMaxLog2 = of_nat j, mayInsert = True \<rparr>"
      have u: "unat (2 ^ j :: u32) = 2 ^ j" using j(3) by (intro unat_pow2_32) simp
      have "allocHashTable 27 junk regionStart regionEnd = Some ?t"
        unfolding allocHashTable_def Let_def start j(1) using small False by (simp only: if_False option.map prod.case u)
      moreover have "table_ok ?t"
        unfolding table_ok_def using j(2,3) u by (intro conjI bexI [of _ j]) simp_all
      ultimately show ?thesis
        using False ge j(4,5) u by (intro exI [of _ ?t]) (simp add: used_slots_def)
    qed
  next
    fix fuel
    assume "2 ^ 31 \<le> avail"
    then have "\<not> avail < 64" and none: "largest_pow2 fuel ?lim 64 6 = None"
      using largest_pow2_none [of ?lim 6 fuel 6] by (simp_all add: avail_def)
    then show "allocHashTable fuel junk regionStart regionEnd = None"
      using small by (simp add: allocHashTable_def Let_def)
  }
qed

text \<open>C13: A search in a well-formed hash table with a free slot ends: whatever the hash,
  double hashing reaches the free slot in as many probes as the table has slots, so that
  fuel is enough. The table never holds an entry that a search would miss (\<open>findable\<close>), and that stays so.
  If an equal object with this hash is anywhere in the table and may be there, one comes back and
  the table is unchanged. Otherwise the object itself comes back; when insertion is allowed
  it has taken a free slot and the count has gone up by one, and when it is not the table is unchanged.\<close>

theorem insertHashTableElem_correct:
  assumes "table_ok t" and "findable t" and "\<exists>i < length (elements t). e_object (elements t ! i) = 0"
    and "mightBeThere \<longrightarrow> (\<forall>e \<in> set (elements t). e_object e \<noteq> 0 \<longrightarrow> same_object types m object (e_object e) mx \<noteq> None)"
    and "length (elements t) \<le> fuel"
  shows "\<exists>r t'. insertHashTableElem fuel types m t hash object mx mightBeThere = Some (r, t') \<and>
    table_ok t' \<and> findable t' \<and>
    (if mightBeThere \<and> (\<exists>e\<in>set (elements t). equal_entry types m hash object mx e)
     then t' = t \<and> (\<exists>e\<in>set (elements t). equal_entry types m hash object mx e \<and> r = e_object e)
     else r = object \<and>
       (if mayInsert t
        then \<exists>i<length (elements t). e_object (elements t ! i) = 0 \<and>
          t' = t\<lparr> elements := (elements t)[i := \<lparr> e_hash = hash, e_object = object \<rparr>],
            elementsLengthCur := elementsLengthCur t + 1 \<rparr>
        else t' = t))"
proof -
  obtain r t' where "insertHashTableElem fuel types m t hash object mx mightBeThere = Some (r, t')"
    using insert_terminates [OF assms(1,3,4,5), where hash = hash] by auto
  then show ?thesis using insert_outcome [OF assms(1,2)] unfolding with_entry_def by blast
qed

text \<open>Growing keeps it as well.\<close>

lemma growHashTableMaybe_findable:
  assumes "table_ok t" "findable t" "unat (elementsLengthMax t) \<le> 2 ^ 29" "growHashTableMaybe calloc fuel types m t = Some t'"
  shows "findable t'"
proof -
  obtain k where k: "1 \<le> k" "k \<le> 31" "elementsLengthMax t = 2 ^ k" "elementsLengthMaxLog2 t = of_nat k"
    "length (elements t) = unat (elementsLengthMax t)" using assms(1) by (auto simp: table_ok_def)
  let ?t0 = "t\<lparr> elements := zero_elements (elementsLengthMax t * 2), elementsLengthMax := elementsLengthMax t * 2,
    elementsLengthMaxLog2 := elementsLengthMaxLog2 t + 1 \<rparr>"
  have small: "(2 :: nat) ^ k \<le> 2 ^ 29" using assms(3) k(2,3) unat_pow2_32 [of k] by simp
  then have "k \<le> 29" by (rule power_le_imp_le_exp [rotated]) simp
  then have "table_ok ?t0"
    using k by (auto simp: table_ok_def zero_elements_def intro!: bexI [of _ "Suc k"])
  moreover have "findable ?t0" by (rule findable_empty) (auto simp: zero_elements_def)
  ultimately have "findable t1" if "reinsert fuel types m (elements t) ?t0 = Some t1" for t1
    using reinsert_findable that by blast
  moreover have "findable (t\<lparr>mayInsert := False\<rparr>) = findable t" "findable (t1\<lparr>elementsIsInHeap := False\<rparr>) = findable t1" for t1
    by (simp_all add: findable_def probe_index_def)
  ultimately show ?thesis using assms(2,4) by (auto simp: growHashTableMaybe_def Let_def split: if_splits)
qed

text \<open>Hash consing is idempotent: once an object has been put in the table, a later
  insertion of the same object with the same hash finds it and leaves the table as it is.\<close>

theorem insertHashTableElem_idempotent:
  assumes "insertHashTableElem fuel types m t hash object mx True = Some (object, t')"
    and "object \<noteq> 0" and "t' \<noteq> t"
  shows "insertHashTableElem fuel types m t' hash object mx True = Some (object, t')"
proof -
  have "look_result types m hash object mx True t (object, t')"
    using assms(1) unfolding insertHashTableElem_def Let_def by (rule look_correct)
  then have "elementsLengthMaxLog2 t' = elementsLengthMaxLog2 t"
    using assms(3) by (auto simp: look_result_def)
  then show ?thesis
    using look_again [OF _ assms(2,3)] assms(1) by (simp add: insertHashTableElem_def Let_def)
qed

text \<open>C32: Growing a well-formed table whose count is exact (and at most \<open>2^29\<close>
  slots) ends, doubles the table and keeps exactly its entries. But the count is not
  reset before the entries are inserted again, so that the new count is the old count plus
  the number of entries: for a table whose count was right it is twice the number of
  entries, which makes the next call grow the table again.\<close>

theorem growHashTableMaybe_correct:
  assumes "table_ok t" and "mayInsert t" and "unat (elementsLengthMax t) \<le> 2 ^ 29"
    and "unat (elementsLengthCur t) = used_slots (elements t)"
    and "elementsLengthMax t < elementsLengthCur t * 2"
    and "calloc (elementsLengthMax t * 2)" and "2 * length (elements t) \<le> fuel"
  shows "\<exists>t'. growHashTableMaybe calloc fuel types m t = Some t' \<and> table_ok t' \<and>
    elementsLengthMax t' = 2 * elementsLengthMax t \<and> entries (elements t') = entries (elements t) \<and>
    unat (elementsLengthCur t') = 2 * used_slots (elements t') \<and>
    elementsLengthMax t' < elementsLengthCur t' * 2"
proof -
  obtain k where k: "1 \<le> k" "k \<le> 31" "length (elements t) = 2 ^ k"
      "elementsLengthMax t = 2 ^ k" "elementsLengthMaxLog2 t = of_nat k"
    using assms(1) by (auto simp: table_ok_def unat_pow2_32)
  have "(2 :: nat) ^ k \<le> 2 ^ 29" using assms(3) k(2,4) by (simp add: unat_pow2_32)
  then have k30: "k \<le> 29" by (rule power_le_imp_le_exp [rotated]) simp
  have used: "used_slots (elements t) \<le> 2 ^ k" "unat (elementsLengthCur t) \<le> 2 ^ k"
    using assms(4) k(3) by (simp_all add: used_slots_def flip: k(3))
  have pw: "(2 :: nat) ^ k \<le> 2 ^ 29" using k30 by (intro power_increasing) simp_all
  have cur: "unat (elementsLengthCur t * 2) = 2 * used_slots (elements t)"
    using used pw assms(4) by (simp add: unat_word_ariths)
  have big: "2 ^ k < 2 * used_slots (elements t)"
    using assms(5) cur k(2,4) by (simp add: word_less_nat_alt unat_pow2_32)
  define t0 where "t0 = t\<lparr> elements := zero_elements (2 ^ Suc k), elementsLengthMax := 2 ^ Suc k,
    elementsLengthMaxLog2 := of_nat (Suc k) \<rparr>"
  have len0: "length (elements t0) = 2 ^ Suc k"
    using k30 by (simp add: t0_def zero_elements_def unat_pow2_32 del: power_Suc)
  have ok0: "table_ok t0"
    using k30 len0 by (auto simp: table_ok_def t0_def unat_pow2_32 simp del: power_Suc intro!: bexI [of _ "Suc k"])
  have "used_slots (elements t0) = 0" by (simp add: t0_def flip: size_entries)
  then obtain t' where t': "reinsert fuel types m (elements t) t0 = Some t'" "table_ok t'"
      "elementsLengthMax t' = elementsLengthMax t0"
      "entries (elements t') = entries (elements t) + entries (elements t0)"
      "elementsLengthCur t' = elementsLengthCur t0 + of_nat (used_slots (elements t))"
    using reinsert_correct [OF ok0, of "elements t" fuel types m] assms(2,7) used len0 k(3)
    by (auto simp: t0_def)
  have same: "used_slots (elements t') = used_slots (elements t)"
    using t'(4) by (simp add: t0_def flip: size_entries)
  have cur': "unat (elementsLengthCur t') = 2 * used_slots (elements t)"
    using t'(5) used pw assms(4) by (simp add: t0_def unat_word_ariths unsigned_of_nat take_bit_nat_eq_self)
  have "unat (elementsLengthCur t' * 2) = 4 * used_slots (elements t)"
    using used pw cur' by (simp add: unat_word_ariths)
  moreover have "unat (elementsLengthMax t') = 2 ^ Suc k"
    using t'(3) k30 by (simp add: t0_def unat_pow2_32 del: power_Suc)
  ultimately have again: "elementsLengthMax t' < elementsLengthCur t' * 2"
    using big by (simp add: word_less_nat_alt)
  have "growHashTableMaybe calloc fuel types m t = Some (t'\<lparr> elementsIsInHeap := False \<rparr>)"
    using assms(2,5,6) t'(1) by (simp add: growHashTableMaybe_def Let_def t0_def k(4,5) not_le algebra_simps)
  then show ?thesis
    using t' same cur' again by (auto simp: table_ok_def t0_def k(4))
qed

text \<open>An object list for the witnesses: type 0 is an ordinary object of 8 bytes.\<close>

definition demo_types :: "GC_objectType list" where
  "demo_types = [\<lparr> tag = NORMAL_TAG, hasIdentity = False, bytesNonObjptrs = 8, numObjptrs = 0,
     hasIdentityTransitive = False, isUnbounded = False \<rparr>]"

definition demo_table :: "hashElement list \<Rightarrow> hashTable" where
  "demo_table es = \<lparr> elements = es, elementsIsInHeap = False, elementsLengthCur = of_nat (used_slots es),
     elementsLengthMax = 4, elementsLengthMaxLog2 = 2, mayInsert = True \<rparr>"

lemma demo_table_ok: "length es = 4 \<Longrightarrow> table_ok (demo_table es)"
  by (auto simp: table_ok_def demo_table_def intro!: bexI [of _ 2])

lemma allocHashTable_correct_witness:
  "(\<exists>t. allocHashTable 27 (\<lambda>_. 0) 0 1600 = Some t \<and> table_ok t \<and> length (elements t) \<le> 100 \<and>
      100 < 2 * length (elements t)) \<and>
    (\<forall>fuel. allocHashTable fuel (\<lambda>_. 0) 0 34359738368 = None)"
  using allocHashTable_correct [of 1600 0 "\<lambda>_. 0"] allocHashTable_correct [of 34359738368 0 "\<lambda>_. 0"] by auto

text \<open>An object of eight bytes of zeros is already in the table: it is found.\<close>

lemma insertHashTableElem_correct_witness:
  "insertHashTableElem 4 demo_types (\<lambda>_. 0) (demo_table [\<lparr> e_hash = 0, e_object = 0 \<rparr>, \<lparr> e_hash = 7, e_object = 4000 \<rparr>,
      \<lparr> e_hash = 0, e_object = 0 \<rparr>, \<lparr> e_hash = 0, e_object = 0 \<rparr>]) 7 8000 8008 True =
    Some (4000, demo_table [\<lparr> e_hash = 0, e_object = 0 \<rparr>, \<lparr> e_hash = 7, e_object = 4000 \<rparr>,
      \<lparr> e_hash = 0, e_object = 0 \<rparr>, \<lparr> e_hash = 0, e_object = 0 \<rparr>])"
proof -
  let ?es = "[\<lparr> e_hash = 0, e_object = 0 \<rparr>, \<lparr> e_hash = 7, e_object = 4000 \<rparr>, \<lparr> e_hash = 0, e_object = 0 \<rparr>, \<lparr> e_hash = 0, e_object = 0 \<rparr>]"
  let ?t = "demo_table ?es"
  have el: "elements ?t = ?es" by (simp add: demo_table_def)
  have z: "load64 (\<lambda>_. 0) x = 0" "load32 (\<lambda>_. 0) x = 0" for x
    by (rule demo_zero_load, rule bit_word_eqI) (simp add: load32_def bit_word_of_bytes load_bytes_def)
  have s: "same_object demo_types (\<lambda>_. 0) 8000 y 8008 = Some True" for y
    by (simp add: same_object_def getHeader_def z list_all_iff splitHeader_def objectTypeIndex_def demo_types_def)
  have f: "findable ?t"
    unfolding findable_def
  proof (intro allI impI)
    fix i assume "i < length (elements ?t)" "e_object (elements ?t ! i) \<noteq> 0"
    then have i: "i = 1" by (auto simp: el less_Suc_eq numeral_2_eq_2 numeral_3_eq_3 nth_Cons' split: if_splits)
    have "probe_index ?t 7 0 = 1" by (simp add: probe_index_def demo_table_def first_slot_def hash_mult_def)
    then show "\<exists>j. i = probe_index ?t (e_hash (elements ?t ! i)) j \<and>
        (\<forall>l<j. e_object (elements ?t ! probe_index ?t (e_hash (elements ?t ! i)) l) \<noteq> 0)"
      using i by (intro exI [of _ 0]) (simp add: el)
  qed
  have eq: "equal_entry demo_types (\<lambda>_. 0) 7 8000 8008 e \<longleftrightarrow> e = \<lparr> e_hash = 7, e_object = 4000 \<rparr>" if "e \<in> set ?es" for e
    using that s by (auto simp: equal_entry_def)
  have d: "equal_entry demo_types (\<lambda>_. 0) 7 8000 8008 \<lparr> e_hash = 7, e_object = 4000 \<rparr>" using s by (simp add: equal_entry_def)
  then have yes: "True \<and> (\<exists>e\<in>set (elements ?t). equal_entry demo_types (\<lambda>_. 0) 7 8000 8008 e)"
    unfolding el by (intro conjI TrueI bexI [of _ "\<lparr> e_hash = 7, e_object = 4000 \<rparr>"]) simp_all
  have ok: "table_ok ?t" by (rule demo_table_ok) simp
  have free: "\<exists>i<length (elements ?t). e_object (elements ?t ! i) = 0" unfolding el by (intro exI [of _ 0]) simp
  have cmp: "True \<longrightarrow> (\<forall>e\<in>set (elements ?t). e_object e \<noteq> 0 \<longrightarrow>
      same_object demo_types (\<lambda>_. 0) 8000 (e_object e) 8008 \<noteq> None)"
    by (simp add: s)
  have fuel: "length (elements ?t) \<le> 4" by (simp add: el)
  have four: "equal_entry demo_types (\<lambda>_. 0) 7 8000 8008 e \<Longrightarrow> e \<in> set (elements ?t) \<Longrightarrow> e_object e = 4000" for e
    using eq [of e] unfolding el by simp
  obtain r t' where ins: "insertHashTableElem 4 demo_types (\<lambda>_. 0) ?t 7 8000 8008 True = Some (r, t')"
      "t' = ?t \<and> (\<exists>e\<in>set (elements ?t). equal_entry demo_types (\<lambda>_. 0) 7 8000 8008 e \<and> r = e_object e)"
    using insertHashTableElem_correct [OF ok f free cmp fuel, of 7] unfolding if_P [OF yes]
    by (elim exE conjE) (rule that, assumption, rule conjI, assumption+)
  from ins(2) obtain e where "t' = ?t" "e \<in> set (elements ?t)" "equal_entry demo_types (\<lambda>_. 0) 7 8000 8008 e" "r = e_object e"
    by (elim conjE bexE)
  then show ?thesis using ins(1) four [of e] by simp
qed

lemma demo_first_slot: "first_slot 7 2 = 1"
  by (simp add: first_slot_def hash_mult_def)

lemma insertHashTableElem_idempotent_witness:
  "\<exists>t'. insertHashTableElem (Suc 3) demo_types (\<lambda>_. 0) t' 7 8000 8008 True = Some (8000, t')"
proof -
  let ?t = "demo_table (zero_elements 4)"
  let ?t' = "?t\<lparr> elements := (elements ?t)[1 := \<lparr> e_hash = 7, e_object = 8000 \<rparr>], elementsLengthCur := 1 \<rparr>"
  have "insertHashTableElem (Suc 3) demo_types (\<lambda>_. 0) ?t 7 8000 8008 True = Some (8000, ?t')"
    unfolding insertHashTableElem_def Let_def look.simps
    by (simp add: demo_first_slot demo_table_def zero_elements_def used_slots_def)
  moreover have "?t' \<noteq> ?t" by (simp add: demo_table_def used_slots_def zero_elements_def)
  ultimately show ?thesis
    using insertHashTableElem_idempotent [of "Suc 3" demo_types "\<lambda>_. 0" ?t 7 8000 8008 ?t'] by auto
qed

lemma growHashTableMaybe_correct_witness:
  "\<exists>t'. growHashTableMaybe (\<lambda>_. True) 8 demo_types (\<lambda>_. 0)
      (demo_table (replicate 3 \<lparr> e_hash = 5, e_object = 8000 \<rparr> @ [\<lparr> e_hash = 0, e_object = 0 \<rparr>])) = Some t' \<and>
    unat (elementsLengthCur t') = 6"
proof -
  let ?es = "replicate 3 \<lparr> e_hash = 5, e_object = 8000 \<rparr> @ [\<lparr> e_hash = 0, e_object = 0 \<rparr>]"
  have used: "used_slots ?es = 3" by (simp add: used_slots_def)
  have el: "elements (demo_table ?es) = ?es" by (simp add: demo_table_def)
  have "\<exists>t'. growHashTableMaybe (\<lambda>_. True) 8 demo_types (\<lambda>_. 0) (demo_table ?es) = Some t' \<and> table_ok t' \<and>
    elementsLengthMax t' = 2 * elementsLengthMax (demo_table ?es) \<and>
    entries (elements t') = entries (elements (demo_table ?es)) \<and>
    unat (elementsLengthCur t') = 2 * used_slots (elements t') \<and> elementsLengthMax t' < elementsLengthCur t' * 2"
  proof (rule growHashTableMaybe_correct)
    show "table_ok (demo_table ?es)" by (rule demo_table_ok) simp
  qed (simp_all only: el used, simp_all add: demo_table_def used)
  then obtain t' where t': "growHashTableMaybe (\<lambda>_. True) 8 demo_types (\<lambda>_. 0) (demo_table ?es) = Some t'"
      "entries (elements t') = entries ?es" "unat (elementsLengthCur t') = 2 * used_slots (elements t')"
    unfolding el by blast
  moreover have "used_slots (elements t') = used_slots ?es" using t'(2) by (simp flip: size_entries)
  ultimately show ?thesis using used by auto
qed

end
