(* ===== verification/Heap.thy ===== *)
theory Heap
  imports Object_Model
begin

text \<open>
  The heaps of a processor, \<open>gc/heap.h\<close>, \<open>gc/generational.h\<close> and the parts of
  \<open>gc/gc_state.h\<close> and \<open>gc/controls.h\<close> that the heap code reads, and the predicates of
  \<open>gc/heap_predicates.c\<close>. Fields of \<open>struct GC_heap\<close> whose names other structs share
  carry the prefix \<open>h_\<close>. A \<open>GC_heap\<close> argument of the code is one of the heaps the
  state points to, or the local variable \<open>newHeap\<close> of \<open>growHeap\<close>.
\<close>

section \<open>State\<close>

datatype GC_heapKind = LOCAL_HEAP | SHARED_HEAP

record GC_heap =
  h_kind :: GC_heapKind
  nursery :: pointer
  oldGenSize :: size_t
  h_size :: size_t
  h_start :: pointer
  withMapsSize :: size_t
  availableSize :: size_t
  h_frontier :: pointer

record GC_generationalMaps =
  cardMap :: pointer
  cardMapAbsolute :: pointer
  cardMapLength :: size_t
  crossMap :: pointer
  crossMapLength :: size_t
  crossMapValidSize :: size_t

record GC_controls =
  fixedHeap :: size_t
  maxHeapLocal :: size_t
  maxHeapShared :: size_t
  mayPageHeap :: bool

record GC_state =
  frontier :: pointer
  limitPlusSlop :: pointer
  sharedFrontier :: pointer
  sharedLimitPlusSlop :: pointer
  canMinor :: bool
  mutatorMarksCards :: bool
  generationalMaps :: GC_generationalMaps
  controls :: GC_controls
  pageSize :: size_t
  ram :: size_t
  maxHeapSize :: size_t
  maxSharedHeapSize :: size_t
  heap :: GC_heap
  secondaryLocalHeap :: GC_heap
  sharedHeap :: GC_heap
  secondarySharedHeap :: GC_heap

section \<open>gc/heap_predicates.c\<close>

definition isPointerInHeap :: "GC_heap \<Rightarrow> pointer \<Rightarrow> bool" where
  "isPointerInHeap h p \<longleftrightarrow> \<not> isPointer p \<or> (h_start h \<le> p \<and> p < h_start h + h_size h)"

text \<open>The next two read only the kind of their heap argument: a secondary heap is
  answered for by the primary heap of its kind.\<close>

definition isPointerInOldGen :: "GC_state \<Rightarrow> GC_heap \<Rightarrow> pointer \<Rightarrow> bool" where
  "isPointerInOldGen s h p \<longleftrightarrow> \<not> isPointer p \<or>
    (if h_kind h = SHARED_HEAP
     then h_start (sharedHeap s) \<le> p \<and> p < h_start (sharedHeap s) + oldGenSize (sharedHeap s)
     else h_start (heap s) \<le> p \<and> p < h_start (heap s) + oldGenSize (heap s))"

definition isPointerInNursery :: "GC_state \<Rightarrow> GC_heap \<Rightarrow> pointer \<Rightarrow> bool" where
  "isPointerInNursery s h p \<longleftrightarrow> \<not> isPointer p \<or>
    (if h_kind h = SHARED_HEAP
     then nursery (sharedHeap s) \<le> p \<and> p < h_frontier (sharedHeap s)
     else nursery (heap s) \<le> p \<and> p < h_frontier (heap s))"

definition isPointerInFromSpace :: "GC_state \<Rightarrow> GC_heap \<Rightarrow> pointer \<Rightarrow> bool" where
  "isPointerInFromSpace s h p \<longleftrightarrow> isPointerInOldGen s h p \<or> isPointerInNursery s h p"

definition isObjptrInHeap :: "GC_heap \<Rightarrow> objptr \<Rightarrow> bool" where
  "isObjptrInHeap h op \<longleftrightarrow>
    (if \<not> isObjptr op then True else isPointerInHeap h (objptrToPointer op (h_start h)))"

definition isObjptrInOldGen :: "GC_state \<Rightarrow> GC_heap \<Rightarrow> objptr \<Rightarrow> bool" where
  "isObjptrInOldGen s h op \<longleftrightarrow>
    (if \<not> isObjptr op then True else isPointerInOldGen s h (objptrToPointer op (h_start (heap s))))"

definition isObjptrInNursery :: "GC_state \<Rightarrow> GC_heap \<Rightarrow> objptr \<Rightarrow> bool" where
  "isObjptrInNursery s h op \<longleftrightarrow>
    (if \<not> isObjptr op then True else isPointerInNursery s h (objptrToPointer op (h_start (heap s))))"

definition isObjptrInFromSpace :: "GC_state \<Rightarrow> GC_heap \<Rightarrow> objptr \<Rightarrow> bool" where
  "isObjptrInFromSpace s h op \<longleftrightarrow> isObjptrInOldGen s h op \<or> isObjptrInNursery s h op"

definition hasHeapBytesFree :: "GC_state \<Rightarrow> GC_heap \<Rightarrow> size_t \<Rightarrow> size_t \<Rightarrow> bool" where
  "hasHeapBytesFree s h oldGen nurseryBytes \<longleftrightarrow>
    (if h_kind h = LOCAL_HEAP then
       (let total = oldGenSize (heap s) + oldGen
              + (if canMinor s then 2 else 1) * (frontier s - nursery (heap s)) in
        total \<le> h_size (heap s) \<and>
        h_start (heap s) + oldGenSize (heap s) + oldGen \<le> nursery (heap s) \<and>
        nurseryBytes \<le> limitPlusSlop s - frontier s)
     else
       (let total = oldGenSize (sharedHeap s) + oldGen
              + (if canMinor s then 2 else 1) * (h_frontier (sharedHeap s) - nursery (sharedHeap s)) in
        total \<le> availableSize (sharedHeap s) \<and>
        h_start (sharedHeap s) + oldGenSize (sharedHeap s) + oldGen \<le> nursery (sharedHeap s) \<and>
        nurseryBytes \<le> sharedLimitPlusSlop s - sharedFrontier s))"

definition isHeapInit :: "GC_heap \<Rightarrow> bool" where
  "isHeapInit h \<longleftrightarrow> 0 = h_size h"

definition isObjectLifted :: "GC_header \<Rightarrow> bool" where
  "isObjectLifted header \<longleftrightarrow> \<not> header = GC_FORWARDED \<and> header AND LIFT_MASK \<noteq> 0"

text \<open>The local heaps of all processors, in the order of \<open>procStates\<close>.\<close>

definition isPointerInAnyLocalHeap :: "GC_heap list \<Rightarrow> pointer \<Rightarrow> bool" where
  "isPointerInAnyLocalHeap heaps p \<longleftrightarrow> list_ex (\<lambda>h. isPointerInHeap h p) heaps"

section \<open>Free space\<close>

text \<open>The local heap is laid out as the picture in \<open>gc/heap.h\<close> has it.\<close>

definition local_layout :: "GC_state \<Rightarrow> bool" where
  "local_layout s \<longleftrightarrow>
    unat (h_start (heap s)) + unat (h_size (heap s)) < 2 ^ 63 \<and>
    unat (h_start (heap s)) + unat (oldGenSize (heap s)) \<le> unat (nursery (heap s)) \<and>
    nursery (heap s) \<le> frontier s \<and> frontier s \<le> limitPlusSlop s \<and>
    unat (limitPlusSlop s) \<le> unat (h_start (heap s)) + unat (h_size (heap s))"

text \<open>A positive answer of \<open>hasHeapBytesFree\<close> for the local heap keeps its promise for any
  request below \<open>2^62\<close> bytes: the bytes asked of the old generation fit between it and the
  nursery, the bytes asked of the nursery fit below the limit, and if minor collections are
  possible there remains room to copy the whole allocated nursery into the old generation.
  No sum wraps around.\<close>

theorem hasHeapBytesFree_sound:
  assumes "local_layout s" and "h_kind h = LOCAL_HEAP" and "unat oldGen < 2 ^ 62"
    and "hasHeapBytesFree s h oldGen nurseryBytes"
  shows "unat (h_start (heap s)) + unat (oldGenSize (heap s)) + unat oldGen \<le> unat (nursery (heap s)) \<and>
    unat (frontier s) + unat nurseryBytes \<le> unat (limitPlusSlop s) \<and>
    unat (oldGenSize (heap s)) + unat oldGen
      + (if canMinor s then 2 else 1) * (unat (frontier s) - unat (nursery (heap s))) \<le> unat (h_size (heap s))"
proof -
  let ?st = "h_start (heap s)" and ?old = "oldGenSize (heap s)" and ?n = "nursery (heap s)"
  have lay: "unat ?st + unat (h_size (heap s)) < 2 ^ 63" "unat ?st + unat ?old \<le> unat ?n"
    "unat ?n \<le> unat (frontier s)" "unat (frontier s) \<le> unat (limitPlusSlop s)"
    "unat (limitPlusSlop s) \<le> unat ?st + unat (h_size (heap s))"
    using assms(1) by (simp_all add: local_layout_def word_le_nat_alt)
  have used: "unat (frontier s - ?n) = unat (frontier s) - unat ?n"
    using lay by (simp add: unat_sub word_le_nat_alt)
  have room: "unat (limitPlusSlop s - frontier s) = unat (limitPlusSlop s) - unat (frontier s)"
    using lay by (simp add: unat_sub word_le_nat_alt)
  have old: "unat ?old < 2 ^ 63" "unat (frontier s) - unat ?n < 2 ^ 63" "unat ?st + unat ?old < 2 ^ 63"
    using lay by linarith+
  have sum: "unat (?st + ?old + oldGen) = unat ?st + unat ?old + unat oldGen"
    using old assms(3) by (simp add: unat_word_ariths)
  let ?t = "?old + oldGen + (if canMinor s then 2 else 1) * (frontier s - ?n)"
  have free: "?t \<le> h_size (heap s)" "?st + ?old + oldGen \<le> ?n" "nurseryBytes \<le> limitPlusSlop s - frontier s"
    using assms(2,4) by (auto simp: hasHeapBytesFree_def Let_def)
  have a: "unat ?st + unat ?old + unat oldGen \<le> unat ?n" using free(2) sum by (simp add: word_le_nat_alt)
  have b: "unat (frontier s) + unat nurseryBytes \<le> unat (limitPlusSlop s)"
    using free(3) [unfolded word_le_nat_alt room] lay(4) by linarith
  have two: "unat ((if canMinor s then 2 else 1) * (frontier s - ?n)) =
      (if canMinor s then 2 else 1) * (unat (frontier s) - unat ?n)"
    using used old(2) by (simp add: unat_word_ariths)
  have "unat ?old + unat oldGen + 2 * (unat (frontier s) - unat ?n) < 2 ^ 64"
  proof -
    have "unat ?old + unat oldGen + (unat (frontier s) - unat ?n) \<le> unat (frontier s)" using a lay(3) by linarith
    moreover have "unat (frontier s) < 2 ^ 63" using lay by linarith
    ultimately show ?thesis using old(2) by simp
  qed
  then have "unat ?t = unat ?old + unat oldGen + (if canMinor s then 2 else 1) * (unat (frontier s) - unat ?n)"
    using two by (simp only: unat_word_ariths) (auto split: if_splits)
  then show ?thesis using a b free(1) by (simp add: word_le_nat_alt)
qed

text \<open>A state for the witnesses: a heap of 1024 bytes at 4096 whose old generation has 256.\<close>

definition demo_heap :: "GC_heapKind \<Rightarrow> pointer \<Rightarrow> size_t \<Rightarrow> GC_heap" where
  "demo_heap k st n = \<lparr> h_kind = k, nursery = st + n, oldGenSize = n div 4, h_size = n, h_start = st,
     withMapsSize = n + 8192, availableSize = n, h_frontier = st + n \<rparr>"

definition demo_state :: GC_state where
  "demo_state = \<lparr> frontier = 5120, limitPlusSlop = 5120, sharedFrontier = 0, sharedLimitPlusSlop = 0,
     canMinor = True, mutatorMarksCards = True,
     generationalMaps = \<lparr> cardMap = 5120, cardMapAbsolute = 5104, cardMapLength = 4096, crossMap = 9216,
       crossMapLength = 4096, crossMapValidSize = 0 \<rparr>,
     controls = \<lparr> fixedHeap = 0, maxHeapLocal = 0, maxHeapShared = 0, mayPageHeap = False \<rparr>,
     pageSize = 4096, ram = 1048576, maxHeapSize = 0, maxSharedHeapSize = 0,
     heap = demo_heap LOCAL_HEAP 4096 1024, secondaryLocalHeap = demo_heap LOCAL_HEAP 0 0,
     sharedHeap = demo_heap SHARED_HEAP 0 0, secondarySharedHeap = demo_heap SHARED_HEAP 0 0 \<rparr>"

lemma hasHeapBytesFree_sound_witness:
  "hasHeapBytesFree demo_state (heap demo_state) 512 0 \<and> (4096 :: nat) + 256 + 512 \<le> 5120"
proof -
  have "hasHeapBytesFree demo_state (heap demo_state) 512 0" "local_layout demo_state"
    "h_kind (heap demo_state) = LOCAL_HEAP"
    by (simp_all add: hasHeapBytesFree_def local_layout_def demo_state_def demo_heap_def)
  moreover from hasHeapBytesFree_sound [OF this(2,3) _ this(1)]
  have "(4096 :: nat) + 256 + 512 \<le> 5120" by (simp add: demo_state_def demo_heap_def)
  ultimately show ?thesis by blast
qed

end
