(* ===== verification/Generational.thy ===== *)
theory Generational
  imports Heap
begin

text \<open>
  The card map and the cross map of \<open>gc/generational.c\<close>. Both are byte arrays behind
  the heap in the same memory as the objects; \<open>isCrossMapOk\<close>, which the code compiles
  under \<open>ASSERT\<close> only, is the slow way of computing the cross map and serves as the
  specification of \<open>updateCrossMap\<close>. The loops over the objects of the old generation
  may not end on a heap that is not well formed; their result is an option.
\<close>

section \<open>Indices and marks\<close>

definition CARD_SIZE_LOG2 :: nat where "CARD_SIZE_LOG2 = 8"
definition CARD_SIZE :: size_t where "CARD_SIZE = push_bit CARD_SIZE_LOG2 1"
definition CROSS_MAP_EMPTY :: u8 where "CROSS_MAP_EMPTY = 255"
definition CROSS_MAP_OFFSET_SCALE :: size_t where "CROSS_MAP_OFFSET_SCALE = 4"
definition CARD_MAP_ELEM_SIZE :: size_t where "CARD_MAP_ELEM_SIZE = 1"
definition CROSS_MAP_ELEM_SIZE :: size_t where "CROSS_MAP_ELEM_SIZE = 1"

definition sizeToCardMapIndex :: "size_t \<Rightarrow> size_t" where
  "sizeToCardMapIndex z = drop_bit CARD_SIZE_LOG2 z"

definition cardMapIndexToSize :: "size_t \<Rightarrow> size_t" where
  "cardMapIndexToSize i = push_bit CARD_SIZE_LOG2 i"

definition pointerToCardMapIndexAbsolute :: "pointer \<Rightarrow> size_t" where
  "pointerToCardMapIndexAbsolute p = drop_bit CARD_SIZE_LOG2 p"

definition pointerToCardMapAddr :: "GC_state \<Rightarrow> pointer \<Rightarrow> pointer" where
  "pointerToCardMapAddr s p = cardMapAbsolute (generationalMaps s) + pointerToCardMapIndexAbsolute p"

definition sizeToCrossMapIndex :: "size_t \<Rightarrow> size_t" where
  "sizeToCrossMapIndex z = drop_bit CARD_SIZE_LOG2 z"

definition isCardMarked :: "GC_state \<Rightarrow> mem \<Rightarrow> pointer \<Rightarrow> bool" where
  "isCardMarked s m p \<longleftrightarrow> m (pointerToCardMapAddr s p) \<noteq> 0"

definition markCard :: "GC_state \<Rightarrow> mem \<Rightarrow> pointer \<Rightarrow> mem" where
  "markCard s m p =
    (if mutatorMarksCards s \<and> \<not> isPointerInHeap (sharedHeap s) p
     then m(pointerToCardMapAddr s p := 1) else m)"

definition markIntergenerationalPointer :: "GC_state \<Rightarrow> mem \<Rightarrow> pointer \<Rightarrow> mem" where
  "markIntergenerationalPointer s m pp =
    (if mutatorMarksCards s \<and> isPointerInOldGen s (heap s) pp
       \<and> isPointerInNursery s (heap s) (load64 m pp)
     then markCard s m pp else m)"

definition markIntergenerationalObjptr :: "GC_state \<Rightarrow> mem \<Rightarrow> pointer \<Rightarrow> mem" where
  "markIntergenerationalObjptr s m opp =
    (if mutatorMarksCards s \<and> isPointerInOldGen s (heap s) opp
       \<and> isObjptrInNursery s (heap s) (load64 m opp)
     then markCard s m opp else m)"

text \<open>The pointer difference may wrap around.\<close>

definition setCardMapAbsolute :: "GC_state \<Rightarrow> GC_state" where
  "setCardMapAbsolute s =
    (if \<not> mutatorMarksCards s then s
     else s\<lparr> generationalMaps := (generationalMaps s)\<lparr> cardMapAbsolute :=
       cardMap (generationalMaps s) - pointerToCardMapIndexAbsolute (h_start (heap s)) \<rparr> \<rparr>)"

definition getCrossMapCardStart :: "GC_state \<Rightarrow> pointer \<Rightarrow> pointer" where
  "getCrossMapCardStart s p =
    (if p = h_start (heap s) then h_start (heap s) else (p - 1) - ((p - 1) mod CARD_SIZE))"

section \<open>Sizes of the maps\<close>

definition sizeofCardMap :: "GC_state \<Rightarrow> size_t \<Rightarrow> size_t" where
  "sizeofCardMap s heapSize =
    (if \<not> mutatorMarksCards s then 0
     else align (sizeToCardMapIndex heapSize * CARD_MAP_ELEM_SIZE) (pageSize s))"

definition lenofCardMap :: "size_t \<Rightarrow> size_t" where
  "lenofCardMap cardMapSize = cardMapSize div CARD_MAP_ELEM_SIZE"

definition sizeofCrossMap :: "GC_state \<Rightarrow> size_t \<Rightarrow> size_t" where
  "sizeofCrossMap s heapSize =
    (if \<not> mutatorMarksCards s then 0
     else align (sizeToCrossMapIndex heapSize * CROSS_MAP_ELEM_SIZE) (pageSize s))"

definition lenofCrossMap :: "size_t \<Rightarrow> size_t" where
  "lenofCrossMap crossMapSize = crossMapSize div CROSS_MAP_ELEM_SIZE"

definition sizeofCardMapAndCrossMap :: "GC_state \<Rightarrow> size_t \<Rightarrow> size_t" where
  "sizeofCardMapAndCrossMap s heapSize = sizeofCardMap s heapSize + sizeofCrossMap s heapSize"

section \<open>Clearing and placing the maps\<close>

definition memset :: "mem \<Rightarrow> pointer \<Rightarrow> u8 \<Rightarrow> size_t \<Rightarrow> mem" where
  "memset m p c n = (\<lambda>a. if a - p < n then c else m a)"

definition clearCardMap :: "GC_state \<Rightarrow> mem \<Rightarrow> mem" where
  "clearCardMap s m = memset m (cardMap (generationalMaps s)) 0
    (cardMapLength (generationalMaps s) * CARD_MAP_ELEM_SIZE)"

definition clearCrossMap :: "GC_state \<Rightarrow> mem \<Rightarrow> GC_state \<times> mem" where
  "clearCrossMap s m =
    (s\<lparr> generationalMaps := (generationalMaps s)\<lparr> crossMapValidSize := 0 \<rparr> \<rparr>,
     memset m (crossMap (generationalMaps s)) CROSS_MAP_EMPTY
       (crossMapLength (generationalMaps s) * CROSS_MAP_ELEM_SIZE))"

definition clearCardMapAndCrossMap :: "GC_state \<Rightarrow> mem \<Rightarrow> GC_state \<times> mem" where
  "clearCardMapAndCrossMap s m = clearCrossMap s (clearCardMap s m)"

definition setCardMapAndCrossMap :: "GC_state \<Rightarrow> mem \<Rightarrow> GC_state \<times> mem" where
  "setCardMapAndCrossMap s m =
    (if \<not> mutatorMarksCards s then
       (s\<lparr> generationalMaps := (generationalMaps s)\<lparr> cardMapLength := 0, cardMap := 0,
          cardMapAbsolute := 0, crossMapLength := 0, crossMap := 0 \<rparr> \<rparr>, m)
     else
       (let cardMapSize = sizeofCardMap s (h_size (heap s));
            crossMapSize = sizeofCrossMap s (h_size (heap s));
            s = s\<lparr> generationalMaps := (generationalMaps s)\<lparr>
              cardMapLength := lenofCardMap cardMapSize,
              crossMapLength := lenofCrossMap crossMapSize,
              cardMap := h_start (heap s) + h_size (heap s),
              crossMap := h_start (heap s) + h_size (heap s) + cardMapSize \<rparr> \<rparr>
        in clearCardMapAndCrossMap (setCardMapAbsolute s) m))"

section \<open>The cross map\<close>

definition crossMap_get :: "GC_state \<Rightarrow> mem \<Rightarrow> size_t \<Rightarrow> u8" where
  "crossMap_get s m i = m (crossMap (generationalMaps s) + i)"

definition crossMap_set :: "GC_state \<Rightarrow> mem \<Rightarrow> size_t \<Rightarrow> u8 \<Rightarrow> mem" where
  "crossMap_set s m i v = m(crossMap (generationalMaps s) + i := v)"

text \<open>The array that \<open>isCrossMapOk\<close> allocates is a map from indices.\<close>

partial_function (option) crossMap_slow ::
    "gc_static \<Rightarrow> GC_state \<Rightarrow> mem \<Rightarrow> pointer \<Rightarrow> pointer \<Rightarrow> (size_t \<Rightarrow> u8) \<Rightarrow> ((size_t \<Rightarrow> u8) \<times> size_t) option" where
  "crossMap_slow g s m back front cmap =
    (let cardStart = getCrossMapCardStart s front;
         cardIndex = sizeToCardMapIndex (cardStart - h_start (heap s));
         cmap = cmap(cardIndex := ucast ((front - cardStart) div CROSS_MAP_OFFSET_SCALE)) in
     if front < back then
       Option.bind (sizeofObject g (h_start (heap s)) m (advanceToObjectData m front)) (\<lambda>sz.
         crossMap_slow g s m back (front + sz) cmap)
     else Some (cmap, cardIndex))"

definition isCrossMapOk :: "gc_static \<Rightarrow> GC_state \<Rightarrow> mem \<Rightarrow> bool option" where
  "isCrossMapOk g s m =
    map_option (\<lambda>(cmap, cardIndex). \<forall>i\<in>{0..<unat cardIndex}. cmap (of_nat i) = crossMap_get s m (of_nat i))
      (crossMap_slow g s m (h_start (heap s) + oldGenSize (heap s))
        (alignFrontier (alignment g) (h_start (heap s))) (\<lambda>_. CROSS_MAP_EMPTY))"

text \<open>The loop of \<open>updateCrossMap\<close>. The cast in the last store binds tighter than the
  division, so that the difference is cut to 8 bits before it is scaled.\<close>

partial_function (option) updateCrossMap_loop ::
    "gc_static \<Rightarrow> GC_state \<Rightarrow> pointer \<Rightarrow> mem \<Rightarrow> size_t \<Rightarrow> pointer \<Rightarrow> pointer \<Rightarrow> mem option" where
  "updateCrossMap_loop g s oldGenEnd m cardIndex cardStart objectStart =
    Option.bind (sizeofObject g (h_start (heap s)) m (advanceToObjectData m objectStart)) (\<lambda>sz.
    let nextObject = objectStart + sz;
        (m, cardIndex, cardStart) =
          (if nextObject > cardStart + CARD_SIZE then
             (let i = sizeToCardMapIndex (nextObject - 1 - h_start (heap s)) in
              (crossMap_set s m cardIndex (ucast ((objectStart - cardStart) div CROSS_MAP_OFFSET_SCALE)),
               i, h_start (heap s) + cardMapIndexToSize i))
           else (m, cardIndex, cardStart)) in
    if nextObject < oldGenEnd then updateCrossMap_loop g s oldGenEnd m cardIndex cardStart nextObject
    else Some (crossMap_set s m cardIndex
      ((ucast (oldGenEnd - cardStart) :: u8) div ucast CROSS_MAP_OFFSET_SCALE)))"

definition updateCrossMap :: "gc_static \<Rightarrow> GC_state \<Rightarrow> mem \<Rightarrow> (GC_state \<times> mem) option" where
  "updateCrossMap g s m =
    (if crossMapValidSize (generationalMaps s) = oldGenSize (heap s) then Some (s, m)
     else
       (let start = h_start (heap s);
            oldGenEnd = start + oldGenSize (heap s);
            objectStart = start + crossMapValidSize (generationalMaps s);
            (cardIndex, objectStart) =
              (if objectStart = start then (0, alignFrontier (alignment g) objectStart)
               else (sizeToCardMapIndex (objectStart - 1 - start), objectStart)) in
        map_option (\<lambda>m.
          (s\<lparr> generationalMaps := (generationalMaps s)\<lparr> crossMapValidSize := oldGenSize (heap s) \<rparr> \<rparr>, m))
        (updateCrossMap_loop g s oldGenEnd m cardIndex (start + cardMapIndexToSize cardIndex) objectStart)))"

section \<open>Addresses of cards\<close>

lemma unat_index: "unat (drop_bit CARD_SIZE_LOG2 (z :: u64)) = unat z div 256"
  by (simp only: CARD_SIZE_LOG2_def unat_drop_bit_eq) (simp add: drop_bit_eq_div)

lemma CARD_SIZE_eq: "CARD_SIZE = 256"
  by (simp add: CARD_SIZE_def CARD_SIZE_LOG2_def push_bit_eq_mult)

lemmas index_defs = sizeToCardMapIndex_def cardMapIndexToSize_def pointerToCardMapIndexAbsolute_def
  sizeToCrossMapIndex_def

text \<open>A pointer \<open>d\<close> bytes past a card boundary that does not wrap around.\<close>

lemma card_index_shift:
  assumes "isAligned st CARD_SIZE" "st \<le> p"
  shows "drop_bit CARD_SIZE_LOG2 p - drop_bit CARD_SIZE_LOG2 st = drop_bit CARD_SIZE_LOG2 (p - st)"
proof (rule word_unat_eq_iff [THEN iffD2])
  have a: "unat st mod 256 = 0" using assms(1) by (simp add: isAligned_unat CARD_SIZE_eq)
  have le: "unat st \<le> unat p" using assms(2) by (simp add: word_le_nat_alt)
  have "drop_bit CARD_SIZE_LOG2 st \<le> drop_bit CARD_SIZE_LOG2 p"
    using le by (simp add: word_le_nat_alt unat_index div_le_mono)
  then have "unat (drop_bit CARD_SIZE_LOG2 p - drop_bit CARD_SIZE_LOG2 st) = unat p div 256 - unat st div 256"
    by (simp add: unat_sub unat_index)
  also have "\<dots> = (unat p - unat st) div 256"
  proof -
    obtain q where q: "unat st = 256 * q" using a by (auto simp: mod_eq_0_iff_dvd dvd_def)
    obtain r where r: "unat p = 256 * q + r" using le q by (auto simp: le_iff_add)
    show ?thesis by (simp only: q r) simp
  qed
  finally show "unat (drop_bit CARD_SIZE_LOG2 p - drop_bit CARD_SIZE_LOG2 st) =
      unat (drop_bit CARD_SIZE_LOG2 (p - st))"
    using assms(2) by (simp add: unat_index unat_sub)
qed

text \<open>A pointer into the local heap.\<close>

definition in_heap :: "GC_heap \<Rightarrow> pointer \<Rightarrow> bool" where
  "in_heap h p \<longleftrightarrow> h_start h \<le> p \<and> unat p < unat (h_start h) + unat (h_size h)"

definition card_of :: "GC_heap \<Rightarrow> pointer \<Rightarrow> size_t" where
  "card_of h p = drop_bit CARD_SIZE_LOG2 (p - h_start h)"

lemma card_of_unat: "unat (card_of h p) = off (h_start h) p div 256"
  by (simp add: card_of_def unat_index)

lemma card_of_lt:
  assumes "in_heap h p" "isAligned (h_size h) CARD_SIZE"
  shows "card_of h p < drop_bit CARD_SIZE_LOG2 (h_size h)"
proof -
  have "off (h_start h) p < unat (h_size h)"
    using assms(1) by (simp add: in_heap_def unat_sub less_diff_conv2 word_le_nat_alt)
  moreover have "256 dvd unat (h_size h)"
    using assms(2) by (simp add: isAligned_unat CARD_SIZE_eq mod_eq_0_iff_dvd)
  ultimately show ?thesis
    by (auto simp: word_less_nat_alt card_of_unat unat_index dvd_def less_mult_imp_div_less mult.commute)
qed

lemma index_small: "unat (drop_bit CARD_SIZE_LOG2 (z :: u64)) < 2 ^ 56"
  using unsigned_less [of z, where ?'a = nat] by (simp add: unat_index div_less_iff_less_mult)

lemma map_size_bounds:
  fixes z :: u64
  assumes "align_arg (pageSize s)" "unat (pageSize s) \<le> 2 ^ 32"
  defines "n \<equiv> align (drop_bit CARD_SIZE_LOG2 z) (pageSize s)"
  shows "drop_bit CARD_SIZE_LOG2 z \<le> n" "unat n < 2 ^ 57"
proof -
  have "unat (drop_bit CARD_SIZE_LOG2 z) + unat (pageSize s) \<le> 2 ^ 56 + 2 ^ 32"
    using index_small [of z] assms(2) by linarith
  then have fits: "unat (drop_bit CARD_SIZE_LOG2 z) + unat (pageSize s) \<le> 2 ^ 64" by simp
  show "drop_bit CARD_SIZE_LOG2 z \<le> n" unfolding n_def by (rule align_ge [OF assms(1) fits])
  show "unat n < 2 ^ 57"
    using align_lt [OF assms(1) fits] index_small [of z] assms(2) by (simp add: n_def)
qed

lemma memset_eq: "memset m p c n a = (if a - p < n then c else m a)"
  by (simp add: memset_def)

lemma memset_in: "i < n \<Longrightarrow> memset m p c n (p + i) = c"
  by (simp add: memset_def)

text \<open>A byte of a region is not touched by filling the region after it.\<close>

lemma memset_after:
  assumes "i < n" "unat n + unat k < 2 ^ 64"
  shows "memset m (p + n) c k (p + i) = m (p + i)"
proof -
  have "i \<noteq> n" using assms(1) by auto
  then have "unat (i - n) = 2 ^ 64 - unat (n - i)" using off_compl [of i n] by linarith
  moreover have "unat (n - i) \<le> unat n" using assms(1) by (simp add: unat_sub)
  ultimately have "\<not> i - n < k" using assms(2) by (simp add: word_less_nat_alt)
  then show ?thesis by (simp add: memset_def)
qed

lemma setCardMapAndCrossMap_eq:
  assumes "mutatorMarksCards s"
  defines "k \<equiv> align (drop_bit CARD_SIZE_LOG2 (h_size (heap s))) (pageSize s)"
  defines "c \<equiv> h_start (heap s) + h_size (heap s)"
  shows "setCardMapAndCrossMap s m =
    (s\<lparr> generationalMaps := \<lparr> cardMap = c, cardMapAbsolute = c - drop_bit CARD_SIZE_LOG2 (h_start (heap s)),
       cardMapLength = k, crossMap = c + k, crossMapLength = k, crossMapValidSize = 0 \<rparr> \<rparr>,
     memset (memset m c 0 k) (c + k) CROSS_MAP_EMPTY k)"
  using assms(1)
  by (simp add: setCardMapAndCrossMap_def Let_def sizeofCardMap_def sizeofCrossMap_def index_defs
      CARD_MAP_ELEM_SIZE_def CROSS_MAP_ELEM_SIZE_def lenofCardMap_def lenofCrossMap_def setCardMapAbsolute_def
      clearCardMapAndCrossMap_def clearCardMap_def clearCrossMap_def k_def c_def)

text \<open>C33: \<open>setCardMapAndCrossMap\<close> gives every card of the heap a byte of its own in the card map,
  although \<open>cardMapAbsolute\<close> may have wrapped around: the byte of a pointer is the one at
  its card number in the array behind the heap, inside the map. At first no card is
  marked and the whole cross map is empty; marking a pointer then marks exactly the
  pointers of its card.\<close>

theorem setCardMapAndCrossMap_marks:
  assumes "mutatorMarksCards s" and "align_arg (pageSize s)" and "unat (pageSize s) \<le> 2 ^ 32"
    and "isAligned (h_start (heap s)) CARD_SIZE" and "isAligned (h_size (heap s)) CARD_SIZE"
    and "setCardMapAndCrossMap s m = (s', m')"
    and "in_heap (heap s) p" and "in_heap (heap s) q" and "\<not> isPointerInHeap (sharedHeap s) p"
  shows "pointerToCardMapAddr s' p = h_start (heap s) + h_size (heap s) + card_of (heap s) p \<and>
    card_of (heap s) p < cardMapLength (generationalMaps s') \<and>
    \<not> isCardMarked s' m' p \<and>
    (\<forall>i < crossMapLength (generationalMaps s'). crossMap_get s' m' i = CROSS_MAP_EMPTY) \<and>
    (isCardMarked s' (markCard s' m' p) q \<longleftrightarrow> card_of (heap s) p = card_of (heap s) q)"
proof -
  define k where "k = align (drop_bit CARD_SIZE_LOG2 (h_size (heap s))) (pageSize s)"
  define c where "c = h_start (heap s) + h_size (heap s)"
  have eq: "s' = s\<lparr> generationalMaps := \<lparr> cardMap = c, cardMapAbsolute = c - drop_bit CARD_SIZE_LOG2 (h_start (heap s)),
       cardMapLength = k, crossMap = c + k, crossMapLength = k, crossMapValidSize = 0 \<rparr> \<rparr>"
     "m' = memset (memset m c 0 k) (c + k) CROSS_MAP_EMPTY k"
    using assms(6) setCardMapAndCrossMap_eq [OF assms(1), of m] by (simp_all add: k_def c_def)
  have k: "drop_bit CARD_SIZE_LOG2 (h_size (heap s)) \<le> k" "unat k < 2 ^ 57"
    using map_size_bounds [OF assms(2,3), of "h_size (heap s)"] by (simp_all add: k_def)
  have addr: "pointerToCardMapAddr s' r = c + card_of (heap s) r" if "in_heap (heap s) r" for r
    using card_index_shift [OF assms(4), of r] that
    by (simp add: pointerToCardMapAddr_def eq(1) index_defs card_of_def in_heap_def algebra_simps)
  have lt: "card_of (heap s) r < k" if "in_heap (heap s) r" for r
    using card_of_lt [OF that assms(5)] k(1) by simp
  have clear: "m' (c + card_of (heap s) r) = 0" if "in_heap (heap s) r" for r
    using lt [OF that] k(2) by (simp add: eq(2) memset_after memset_in)
  have "crossMap_get s' m' i = CROSS_MAP_EMPTY" if "i < k" for i
    using that by (simp add: crossMap_get_def eq memset_in)
  moreover have "isCardMarked s' (markCard s' m' p) q \<longleftrightarrow> card_of (heap s) p = card_of (heap s) q"
    using assms(1,7-9) addr clear by (simp add: isCardMarked_def markCard_def eq(1) [symmetric]) (simp add: eq(1))
  ultimately show ?thesis
    using addr [OF assms(7)] lt [OF assms(7)] clear [OF assms(7)] by (simp add: isCardMarked_def eq(1) c_def)
qed

section \<open>Object boundaries\<close>

text \<open>The size of the object at \<open>p\<close> is \<open>sz\<close> in every memory that differs from this one in
  the cross map only: the objects are elsewhere. A walk goes from object to object.\<close>

definition same_outside :: "pointer \<Rightarrow> size_t \<Rightarrow> mem \<Rightarrow> mem \<Rightarrow> bool" where
  "same_outside x n m m' \<longleftrightarrow> (\<forall>a. \<not> a - x < n \<longrightarrow> m' a = m a)"

definition object_size_is :: "gc_static \<Rightarrow> GC_state \<Rightarrow> mem \<Rightarrow> pointer \<Rightarrow> size_t \<Rightarrow> bool" where
  "object_size_is g s m p sz \<longleftrightarrow>
    (\<forall>m'. same_outside (crossMap (generationalMaps s)) (crossMapLength (generationalMaps s)) m m' \<longrightarrow>
      sizeofObject g (h_start (heap s)) m' (advanceToObjectData m' p) = Some sz)"

fun heap_walk :: "gc_static \<Rightarrow> GC_state \<Rightarrow> mem \<Rightarrow> pointer \<Rightarrow> pointer list \<Rightarrow> bool" where
  "heap_walk g s m p [] \<longleftrightarrow> True"
| "heap_walk g s m p (q # qs) \<longleftrightarrow> object_size_is g s m p (q - p) \<and> p < q \<and> heap_walk g s m q qs"

text \<open>The card of an object boundary, where a boundary at the start of a card counts for the
  card before, and its entry; the cross map of a list of boundaries keeps the last one of
  each card.\<close>

definition xcard :: "GC_heap \<Rightarrow> pointer \<Rightarrow> nat" where
  "xcard h p = (off (h_start h) p - 1) div 256"

definition xstart :: "GC_heap \<Rightarrow> pointer \<Rightarrow> pointer" where
  "xstart h p = h_start h + of_nat (256 * xcard h p)"

definition xoffset :: "GC_heap \<Rightarrow> pointer \<Rightarrow> u8" where
  "xoffset h p = ucast ((p - xstart h p) div CROSS_MAP_OFFSET_SCALE)"

definition xmap :: "GC_heap \<Rightarrow> pointer list \<Rightarrow> (nat \<Rightarrow> u8) \<Rightarrow> nat \<Rightarrow> u8" where
  "xmap h ps f = fold (\<lambda>p f. f(xcard h p := xoffset h p)) ps f"

lemma xmap_simps [simp]: "xmap h [] f = f" "xmap h (p # ps) f = xmap h ps (f(xcard h p := xoffset h p))"
  "xmap h (ps @ qs) f = xmap h qs (xmap h ps f)"
  by (simp_all add: xmap_def)

lemma xmap_last: "ps \<noteq> [] \<Longrightarrow> xmap h ps f (xcard h (last ps)) = xoffset h (last ps)"
  by (induction ps rule: rev_induct) simp_all

text \<open>The entries of the cross map are right up to the last boundary seen; the entry of its
  card may still change.\<close>

definition cross_valid :: "GC_state \<Rightarrow> mem \<Rightarrow> pointer list \<Rightarrow> bool" where
  "cross_valid s m ps \<longleftrightarrow> (\<forall>i < unat (crossMapLength (generationalMaps s)). i \<noteq> xcard (heap s) (last ps) \<longrightarrow>
    crossMap_get s m (of_nat i) = xmap (heap s) ps (\<lambda>_. CROSS_MAP_EMPTY) i)"

lemma same_outside_trans: "same_outside x n m m1 \<Longrightarrow> same_outside x n m1 m2 \<Longrightarrow> same_outside x n m m2"
  by (simp add: same_outside_def)

lemma object_size_is_outside:
  "object_size_is g s m p sz \<Longrightarrow>
    same_outside (crossMap (generationalMaps s)) (crossMapLength (generationalMaps s)) m m1 \<Longrightarrow>
    object_size_is g s m1 p sz"
  unfolding object_size_is_def using same_outside_trans by blast

lemma heap_walk_outside:
  "heap_walk g s m p qs \<Longrightarrow>
    same_outside (crossMap (generationalMaps s)) (crossMapLength (generationalMaps s)) m m1 \<Longrightarrow>
    heap_walk g s m1 p qs"
  by (induction qs arbitrary: p) (auto intro: object_size_is_outside)

lemma object_size_is_size:
  "object_size_is g s m p sz \<Longrightarrow> sizeofObject g (h_start (heap s)) m (advanceToObjectData m p) = Some sz"
  by (simp add: object_size_is_def same_outside_def)

lemma heap_walk_le: "heap_walk g s m p qs \<Longrightarrow> qs \<noteq> [] \<Longrightarrow> p < last qs"
proof (induction qs arbitrary: p)
  case (Cons q qs)
  then show ?case by (cases "qs = []") (auto dest: less_trans)
qed simp

lemma heap_walk_append: "heap_walk g s m p (ps @ qs) \<longleftrightarrow> heap_walk g s m p ps \<and> heap_walk g s m (last (p # ps)) qs"
  by (induction ps arbitrary: p) auto

lemma crossMap_get_set:
  "crossMap_get s (crossMap_set s m i v) j = (if j = i then v else crossMap_get s m j)"
  by (simp add: crossMap_get_def crossMap_set_def)

lemma crossMap_set_outside:
  "i < crossMapLength (generationalMaps s) \<Longrightarrow>
    same_outside (crossMap (generationalMaps s)) (crossMapLength (generationalMaps s)) m (crossMap_set s m i v)"
  by (auto simp: same_outside_def crossMap_set_def)

section \<open>Arithmetic of cards\<close>

lemma off_unat: "st \<le> p \<Longrightarrow> off st p = unat p - unat st" for st p :: u64
  by (simp add: unat_sub)

lemma xcard_mono: "h_start h \<le> p \<Longrightarrow> p \<le> q \<Longrightarrow> xcard h p \<le> xcard h q"
  by (simp add: xcard_def off_unat word_le_nat_alt div_le_mono diff_le_mono)

lemma xcard_small: "256 * xcard h p \<le> off (h_start h) p"
proof -
  have "256 * ((off (h_start h) p - 1) div 256) \<le> off (h_start h) p - 1" by simp
  then show ?thesis unfolding xcard_def by (rule le_trans) simp
qed

lemma unat_of_nat_le: "n \<le> unat (w :: u64) \<Longrightarrow> unat (of_nat n :: u64) = n"
  using unsigned_less [of w, where ?'a = nat] by (simp add: unsigned_of_nat take_bit_nat_eq_self)

lemma xcard_small': "xcard h p \<le> off (h_start h) p"
  using xcard_small [of h p] by simp

lemma unat_xcard: "unat (of_nat (xcard h p) :: u64) = xcard h p"
  "unat (of_nat (256 * xcard h p) :: u64) = 256 * xcard h p"
  using unat_of_nat_le [OF xcard_small', of h p] unat_of_nat_le [OF xcard_small, of h p] by simp_all

lemma xcard_index:
  assumes "h_start h < p"
  shows "sizeToCardMapIndex (p - 1 - h_start h) = of_nat (xcard h p)"
proof (rule word_unat_eq_iff [THEN iffD2])
  have "1 \<le> p - h_start h" using assms by (simp add: word_le_nat_alt Suc_le_eq unat_gt_0)
  then have "unat ((p - h_start h) - 1) = off (h_start h) p - 1" by (simp add: unat_sub)
  moreover have "p - 1 - h_start h = (p - h_start h) - 1" by simp
  ultimately have "unat (sizeToCardMapIndex (p - 1 - h_start h)) = (off (h_start h) p - 1) div 256"
    by (simp only: sizeToCardMapIndex_def unat_index)
  then show "unat (sizeToCardMapIndex (p - 1 - h_start h)) = unat (of_nat (xcard h p) :: u64)"
    by (simp only: unat_xcard) (simp only: xcard_def)
qed

lemma index_size: "cardMapIndexToSize (of_nat n) = of_nat (256 * n)"
  by (simp add: cardMapIndexToSize_def CARD_SIZE_LOG2_def push_bit_eq_mult)

lemma unat_xstart:
  assumes "h_start h \<le> p"
  shows "unat (xstart h p) = unat (h_start h) + 256 * xcard h p" "xstart h p \<le> p"
proof -
  have "unat (h_start h) + 256 * xcard h p \<le> unat p"
    using xcard_small [of h p] assms by (simp add: off_unat word_le_nat_alt)
  then show *: "unat (xstart h p) = unat (h_start h) + 256 * xcard h p"
    using unsigned_less [of p, where ?'a = nat] unat_add_lem [of "h_start h" "of_nat (256 * xcard h p)"]
    by (simp only: xstart_def unat_xcard) simp
  then show "xstart h p \<le> p" using \<open>unat (h_start h) + 256 * xcard h p \<le> unat p\<close> by (simp add: word_le_nat_alt)
qed

text \<open>The next boundary is past the end of the card exactly when its card is a later one.\<close>

lemma past_card:
  assumes "h_start h \<le> p" "p < q" "unat q + 256 < 2 ^ 64"
  shows "xstart h p + CARD_SIZE < q \<longleftrightarrow> xcard h p < xcard h q"
proof -
  have "unat (xstart h p) + 256 < 2 ^ 64"
    using unat_xstart(2) [OF assms(1)] assms(2,3) by (simp add: word_le_nat_alt word_less_nat_alt)
  then have "unat (xstart h p + CARD_SIZE) = unat (h_start h) + 256 * xcard h p + 256"
    using unat_xstart(1) [OF assms(1)] unat_add_lem [of "xstart h p" 256] by (simp add: CARD_SIZE_eq)
  then have "xstart h p + CARD_SIZE < q \<longleftrightarrow> 256 * Suc (xcard h p) < off (h_start h) q"
    using assms(1,2) by (simp add: word_less_nat_alt word_le_nat_alt off_unat less_diff_conv algebra_simps)
  also have "\<dots> \<longleftrightarrow> Suc (xcard h p) * 256 \<le> off (h_start h) q - 1"
    by (cases "off (h_start h) q") (simp_all only: less_Suc_eq_le mult.commute, simp_all)
  also have "\<dots> \<longleftrightarrow> Suc (xcard h p) \<le> xcard h q" by (simp add: xcard_def less_eq_div_iff_mult_less_eq)
  finally show ?thesis by (simp add: Suc_le_eq)
qed

lemma getCrossMapCardStart_eq:
  assumes "isAligned (h_start (heap s)) CARD_SIZE" "h_start (heap s) \<le> p"
  shows "getCrossMapCardStart s p = xstart (heap s) p"
proof (cases "p = h_start (heap s)")
  case True
  then show ?thesis by (simp add: getCrossMapCardStart_def xstart_def xcard_def)
next
  case False
  obtain a where a: "unat (h_start (heap s)) = 256 * a"
    using assms(1) by (auto simp: isAligned_unat CARD_SIZE_eq mod_eq_0_iff_dvd dvd_def)
  have "unat (h_start (heap s)) < unat p" using False assms(2) by (simp add: word_le_nat_alt word_unat_eq_iff)
  then obtain d where d: "unat p = 256 * a + Suc d" using a less_iff_Suc_add by auto
  then have p1: "unat (p - 1) = 256 * a + d" by (simp add: unat_sub word_le_nat_alt)
  have "unat ((p - 1) - (p - 1) mod CARD_SIZE) = unat (p - 1) - unat (p - 1) mod 256"
    by (simp add: unat_sub unat_mod CARD_SIZE_eq word_le_nat_alt)
  also have "\<dots> = 256 * ((256 * a + d) div 256)" unfolding p1 by (rule minus_mod_eq_mult_div)
  also have "\<dots> = 256 * a + 256 * xcard (heap s) p"
    using assms(2) by (simp add: xcard_def off_unat a d)
  also have "\<dots> = unat (xstart (heap s) p)" using unat_xstart(1) [OF assms(2)] a by simp
  finally show ?thesis using False by (simp add: getCrossMapCardStart_def word_unat_eq_iff)
qed

section \<open>The cross map is right\<close>

lemma xcard_lt: "xcard h p < 2 ^ 56"
  using unsigned_less [of "p - h_start h", where ?'a = nat] by (simp add: xcard_def div_less_iff_less_mult)

lemma of_nat_card_eq: "i < 2 ^ 56 \<Longrightarrow> j < 2 ^ 56 \<Longrightarrow> (of_nat i :: u64) = of_nat j \<longleftrightarrow> i = j"
  by (simp add: word_unat_eq_iff unsigned_of_nat take_bit_nat_eq_self)

lemma index_xstart: "sizeToCardMapIndex (xstart h p - h_start h) = of_nat (xcard h p)"
proof (rule word_unat_eq_iff [THEN iffD2])
  have "xstart h p - h_start h = of_nat (256 * xcard h p)" by (simp add: xstart_def)
  then have "unat (sizeToCardMapIndex (xstart h p - h_start h)) = (256 * xcard h p) div 256"
    by (simp only: sizeToCardMapIndex_def unat_index unat_xcard)
  then show "unat (sizeToCardMapIndex (xstart h p - h_start h)) = unat (of_nat (xcard h p) :: u64)"
    by (simp add: unat_xcard)
qed

lemma crossMap_slow_correct:
  assumes st: "isAligned (h_start (heap s)) CARD_SIZE"
  shows "h_start (heap s) \<le> p \<Longrightarrow> heap_walk g s m p qs \<Longrightarrow> last (p # qs) = back \<Longrightarrow>
    \<forall>i<2 ^ 56. cm (of_nat i) = f i \<Longrightarrow>
    \<exists>cm'. crossMap_slow g s m back p cm = Some (cm', of_nat (xcard (heap s) back)) \<and>
      (\<forall>i<2 ^ 56. cm' (of_nat i) = xmap (heap s) (p # qs) f i)"
proof (induction qs arbitrary: p cm f)
  case Nil
  let ?cm = "cm(of_nat (xcard (heap s) p) := xoffset (heap s) p)"
  have "crossMap_slow g s m back p cm = Some (?cm, of_nat (xcard (heap s) back))"
    using Nil.prems getCrossMapCardStart_eq [OF st Nil.prems(1)]
    by (subst crossMap_slow.simps) (simp add: Let_def index_xstart xoffset_def)
  then show ?case using Nil.prems(4) by (auto simp: of_nat_card_eq [simplified] xcard_lt [simplified])
next
  case (Cons q qs)
  let ?cm = "cm(of_nat (xcard (heap s) p) := xoffset (heap s) p)"
  let ?f = "f(xcard (heap s) p := xoffset (heap s) p)"
  have walk: "object_size_is g s m p (q - p)" "p < q" "heap_walk g s m q qs" using Cons.prems(2) by simp_all
  have "p < back" using heap_walk_le [OF Cons.prems(2)] Cons.prems(3) by simp
  then have "crossMap_slow g s m back p cm = crossMap_slow g s m back q ?cm"
    using getCrossMapCardStart_eq [OF st Cons.prems(1)] object_size_is_size [OF walk(1)]
    by (subst crossMap_slow.simps) (simp add: Let_def index_xstart xoffset_def)
  moreover have "\<forall>i<2 ^ 56. ?cm (of_nat i) = ?f i"
    using Cons.prems(4) by (auto simp: of_nat_card_eq [simplified] xcard_lt [simplified])
  then have "\<exists>cm'. crossMap_slow g s m back q ?cm = Some (cm', of_nat (xcard (heap s) back)) \<and>
      (\<forall>i<2 ^ 56. cm' (of_nat i) = xmap (heap s) (q # qs) ?f i)"
    using Cons.prems walk by (intro Cons.IH) auto
  ultimately show ?case by simp
qed

text \<open>The entry of the last boundary that the code stores, cut to 8 bits too early.\<close>

definition last_entry :: "GC_heap \<Rightarrow> pointer \<Rightarrow> u8" where
  "last_entry h e = (ucast (e - xstart h e) :: u8) div 4"

lemma cross_valid_step:
  assumes "cross_valid s m ps" "ps \<noteq> []" "xcard (heap s) (last ps) = xcard (heap s) q"
  shows "cross_valid s m (ps @ [q])"
  using assms by (simp add: cross_valid_def)

lemma cross_valid_set:
  assumes "cross_valid s m ps" "ps \<noteq> []"
  shows "cross_valid s (crossMap_set s m (of_nat (xcard (heap s) (last ps))) (xoffset (heap s) (last ps))) (ps @ [q])"
  unfolding cross_valid_def
proof (intro allI impI)
  fix i assume i: "i < unat (crossMapLength (generationalMaps s))" "i \<noteq> xcard (heap s) (last (ps @ [q]))"
  let ?c = "xcard (heap s) (last ps)"
  have "unat (of_nat i :: u64) = i" "unat (of_nat ?c :: u64) = ?c"
    using i(1) unat_of_nat_le [of i "crossMapLength (generationalMaps s)"] unat_xcard(1) by simp_all
  then have "(of_nat i :: u64) = of_nat ?c \<longleftrightarrow> i = ?c" by (auto simp: word_unat_eq_iff)
  then show "crossMap_get s (crossMap_set s m (of_nat ?c) (xoffset (heap s) (last ps))) (of_nat i) =
      xmap (heap s) (ps @ [q]) (\<lambda>_. CROSS_MAP_EMPTY) i"
    using assms i xmap_last [OF assms(2), of "heap s"] by (auto simp: crossMap_get_set cross_valid_def)
qed

lemma updateCrossMap_loop_correct:
  assumes walk: "heap_walk g s m p qs" "qs \<noteq> []" "last qs = e" and p: "h_start (heap s) \<le> p"
    and ps: "ps \<noteq> []" "last ps = p" "cross_valid s m ps"
    and e: "unat e + 256 < 2 ^ 64" "xcard (heap s) e < unat (crossMapLength (generationalMaps s))"
  shows "\<exists>m'. updateCrossMap_loop g s e m (of_nat (xcard (heap s) p)) (xstart (heap s) p) p = Some m' \<and>
    same_outside (crossMap (generationalMaps s)) (crossMapLength (generationalMaps s)) m m' \<and>
    cross_valid s m' (ps @ qs) \<and> crossMap_get s m' (of_nat (xcard (heap s) e)) = last_entry (heap s) e"
  using walk p ps
proof (induction qs arbitrary: p m ps)
  case (Cons q qs)
  let ?h = "heap s" and ?len = "crossMapLength (generationalMaps s)" and ?x = "crossMap (generationalMaps s)"
  have w: "object_size_is g s m p (q - p)" "p < q" "heap_walk g s m q qs" using Cons.prems(1) by simp_all
  have "q \<le> e" using heap_walk_le [OF w(3)] Cons.prems(3) by (cases "qs = []") auto
  have start: "h_start ?h \<le> q" "h_start ?h < q" using Cons.prems(4) w(2) by auto
  have "unat q + 256 < 2 ^ 64" using e(1) \<open>q \<le> e\<close> by (simp add: word_le_nat_alt)
  note past = past_card [OF Cons.prems(4) w(2) this]
  have cards: "xcard ?h p \<le> xcard ?h q" "xcard ?h q \<le> xcard ?h e"
    using xcard_mono Cons.prems(4) w(2) start(1) \<open>q \<le> e\<close> by (auto simp: order.strict_implies_order)
  have idx: "(of_nat (xcard ?h r) :: u64) < ?len" if "xcard ?h r \<le> xcard ?h e" for r
    using that e(2) by (simp add: word_less_nat_alt unat_xcard)
  define m1 where "m1 = (if xcard ?h p < xcard ?h q then crossMap_set s m (of_nat (xcard ?h p)) (xoffset ?h p) else m)"
  have out1: "same_outside ?x ?len m m1"
    using crossMap_set_outside [OF idx] cards by (simp add: m1_def) (simp add: same_outside_def)
  have valid1: "cross_valid s m1 (ps @ [q])"
    using cross_valid_set [OF Cons.prems(7,5)] cross_valid_step [OF Cons.prems(7,5)] cards(1) Cons.prems(6)
    by (simp add: m1_def)
  have size: "sizeofObject g (h_start ?h) m (advanceToObjectData m p) = Some (q - p)"
    by (rule object_size_is_size [OF w(1)])
  have moved: "(if q > xstart ?h p + CARD_SIZE then
      (let i = sizeToCardMapIndex (q - 1 - h_start ?h) in
        (crossMap_set s m (of_nat (xcard ?h p)) (ucast ((p - xstart ?h p) div CROSS_MAP_OFFSET_SCALE)),
         i, h_start ?h + cardMapIndexToSize i))
      else (m, of_nat (xcard ?h p), xstart ?h p)) = (m1, of_nat (xcard ?h q), xstart ?h q)"
  proof (cases "xcard ?h p < xcard ?h q")
    case True
    then have "xstart ?h p + CARD_SIZE < q" using past by simp
    then show ?thesis using True
      by (simp only: if_True Let_def xcard_index [OF start(2)] index_size xstart_def [symmetric]
          xoffset_def [symmetric] m1_def)
  next
    case False
    then have "\<not> xstart ?h p + CARD_SIZE < q" "xcard ?h q = xcard ?h p" using past cards(1) by simp_all
    then show ?thesis by (simp add: m1_def xstart_def)
  qed
  have step: "updateCrossMap_loop g s e m (of_nat (xcard ?h p)) (xstart ?h p) p =
    (if q < e then updateCrossMap_loop g s e m1 (of_nat (xcard ?h q)) (xstart ?h q) q
     else Some (crossMap_set s m1 (of_nat (xcard ?h q)) ((ucast (e - xstart ?h q) :: u8) div ucast CROSS_MAP_OFFSET_SCALE)))"
    by (subst updateCrossMap_loop.simps)
      (simp only: size Option.bind.simps Let_def add_diff_cancel_left' diff_add_cancel add.commute [of p] moved [unfolded Let_def] prod.case)
  show ?case
  proof (cases "qs = []")
    case True
    then have qe: "q = e" using Cons.prems(3) by simp
    let ?m' = "crossMap_set s m1 (of_nat (xcard ?h e)) (last_entry ?h e)"
    have "updateCrossMap_loop g s e m (of_nat (xcard ?h p)) (xstart ?h p) p = Some ?m'"
      unfolding step by (simp add: qe last_entry_def CROSS_MAP_OFFSET_SCALE_def)
    moreover have "same_outside ?x ?len m ?m'"
      using same_outside_trans [OF out1 crossMap_set_outside [OF idx]] by simp
    moreover have "cross_valid s ?m' (ps @ [q])"
      unfolding cross_valid_def
    proof (intro allI impI)
      fix i assume i: "i < unat ?len" "i \<noteq> xcard ?h (last (ps @ [q]))"
      have "(of_nat i :: u64) \<noteq> of_nat (xcard ?h e)"
        using i unat_of_nat_le [of i ?len] unat_xcard(1) [of ?h e] by (auto simp: qe word_unat_eq_iff)
      then show "crossMap_get s ?m' (of_nat i) = xmap ?h (ps @ [q]) (\<lambda>_. CROSS_MAP_EMPTY) i"
        using valid1 i by (simp add: crossMap_get_set cross_valid_def)
    qed
    ultimately show ?thesis using True by (auto simp: crossMap_get_set)
  next
    case False
    then have lt: "q < e" using heap_walk_le [OF w(3) False] Cons.prems(3) by simp
    have "\<exists>m'. updateCrossMap_loop g s e m1 (of_nat (xcard ?h q)) (xstart ?h q) q = Some m' \<and>
      same_outside ?x ?len m1 m' \<and> cross_valid s m' ((ps @ [q]) @ qs) \<and>
      crossMap_get s m' (of_nat (xcard ?h e)) = last_entry ?h e"
      using heap_walk_outside [OF w(3) out1] False Cons.prems(3) start(1) valid1 by (intro Cons.IH) auto
    then show ?thesis unfolding step using lt same_outside_trans [OF out1] by auto
  qed
qed simp

text \<open>The slow computation on the result agrees before the last card.\<close>

lemma isCrossMapOk_valid:
  assumes "isAligned (h_start (heap s)) CARD_SIZE" "h_start (heap s) \<le> p"
    "p = alignFrontier (alignment g) (h_start (heap s))"
    "heap_walk g s m p ps" "last (p # ps) = h_start (heap s) + oldGenSize (heap s)" "cross_valid s m (p # ps)"
    "xcard (heap s) (last (p # ps)) < unat (crossMapLength (generationalMaps s))"
  shows "isCrossMapOk g s m = Some True"
proof -
  let ?e = "last (p # ps)"
  obtain cm where cm: "crossMap_slow g s m ?e p (\<lambda>_. CROSS_MAP_EMPTY) = Some (cm, of_nat (xcard (heap s) ?e))"
      "\<forall>i<2 ^ 56. cm (of_nat i) = xmap (heap s) (p # ps) (\<lambda>_. CROSS_MAP_EMPTY) i"
    using crossMap_slow_correct [OF assms(1,2,4) refl, of "\<lambda>_. CROSS_MAP_EMPTY" "\<lambda>_. CROSS_MAP_EMPTY"] by auto
  have "cm (of_nat i) = crossMap_get s m (of_nat i)" if "i < xcard (heap s) ?e" for i
    using that cm(2) assms(6,7) xcard_lt [of "heap s" ?e] by (simp add: cross_valid_def del: xmap_simps)
  then show ?thesis using cm(1) by (simp add: isCrossMapOk_def assms(3) [symmetric] assms(5) [symmetric] unat_xcard)
qed

lemma last_entry_eq:
  assumes "h_start h < e"
  shows "last_entry h e = (if 256 dvd off (h_start h) e then 0 else xoffset h e)"
proof -
  let ?d = "off (h_start h) e"
  have pos: "0 < ?d" using assms by (simp add: unat_gt_0)
  have le: "h_start h \<le> e" using assms by simp
  have D: "off (xstart h e) e = ?d - 256 * ((?d - 1) div 256)"
    using unat_xstart [OF le] off_unat [OF le] unat_sub [of "xstart h e" e] by (simp add: xcard_def)
  define k where "k = (?d - 1) div 256"
  define r where "r = (?d - 1) mod 256"
  have "?d - 1 = 256 * k + r" unfolding k_def r_def by (simp only: mult_div_mod_eq)
  then have kr: "?d = 256 * k + Suc r" "r < 256" using pos by (linarith, simp add: r_def)
  have Dr: "off (xstart h e) e = Suc r" 
  proof -
    have "off (xstart h e) e = ?d - 256 * k" using D by (simp only: k_def)
    then show ?thesis using kr(1) by linarith
  qed
  have dv: "256 dvd ?d \<longleftrightarrow> Suc r = 256"
  proof -
    have "256 dvd ?d \<longleftrightarrow> 256 dvd Suc r" by (simp only: kr(1) dvd_add_right_iff dvd_triv_left)
    also have "\<dots> \<longleftrightarrow> Suc r = 256" using kr(2) by (auto dest: dvd_imp_le)
    finally show ?thesis .
  qed
  let ?D = "e - xstart h e"
  have cut: "unat (ucast ?D :: u8) = Suc r mod 256"
    by (simp add: unsigned_ucast_eq take_bit_nat_def Dr)
  have off: "unat (xoffset h e) = Suc r div 4"
    using kr(2) by (simp add: xoffset_def CROSS_MAP_OFFSET_SCALE_def unsigned_ucast_eq take_bit_nat_def unat_div Dr)
  have last: "unat (last_entry h e) = (Suc r mod 256) div 4"
    by (simp add: last_entry_def unat_div cut)
  show ?thesis
  proof (cases "Suc r = 256")
    case True
    then show ?thesis using last dv by (simp add: word_unat_eq_iff)
  next
    case False
    then show ?thesis using last off dv kr(2) by (simp add: word_unat_eq_iff)
  qed
qed

text \<open>C11: \<open>updateCrossMap\<close> is correct: from a cross map that is right up to the boundaries \<open>ps\<close>
  seen before, it ends, touches nothing but the cross map, and leaves a map that is right
  up to the end of the old generation, so that the slow recomputation of \<open>isCrossMapOk\<close>
  agrees with it and the next incremental update can start from it. The one entry that
  differs from the definition is the last one when the old generation ends at the end of a
  card: it should be 64 and is 0, because the code casts before it divides.\<close>

theorem updateCrossMap_correct:
  assumes "isAligned (h_start (heap s)) CARD_SIZE"
    and "p0 = alignFrontier (alignment g) (h_start (heap s))" and "h_start (heap s) \<le> p0"
    and "xcard (heap s) p0 = 0"
    and "ps \<noteq> []" and "hd ps = p0" and "qs \<noteq> []" and "heap_walk g s m p0 (tl ps @ qs)"
    and "last ps = (if crossMapValidSize (generationalMaps s) = 0 then p0
      else h_start (heap s) + crossMapValidSize (generationalMaps s))"
    and "last qs = h_start (heap s) + oldGenSize (heap s)"
    and "unat (last qs) + 256 < 2 ^ 64"
    and "xcard (heap s) (last qs) < unat (crossMapLength (generationalMaps s))"
    and "cross_valid s m ps"
  shows "\<exists>s' m'. updateCrossMap g s m = Some (s', m') \<and>
    s' = s\<lparr> generationalMaps := (generationalMaps s)\<lparr> crossMapValidSize := oldGenSize (heap s) \<rparr> \<rparr> \<and>
    same_outside (crossMap (generationalMaps s)) (crossMapLength (generationalMaps s)) m m' \<and>
    cross_valid s' m' (ps @ qs) \<and> isCrossMapOk g s' m' = Some True \<and>
    crossMap_get s' m' (of_nat (xcard (heap s) (last qs))) =
      (if isAligned (oldGenSize (heap s)) CARD_SIZE then 0 else xoffset (heap s) (last qs))"
proof -
  let ?h = "heap s" and ?v = "crossMapValidSize (generationalMaps s)"
  define p where "p = last ps"
  have walk: "heap_walk g s m p0 (tl ps)" "heap_walk g s m p qs"
    using assms(5,6,8) by (cases ps; simp add: heap_walk_append p_def)+
  have p0p: "p0 \<le> p"
    using heap_walk_le [OF walk(1)] assms(5,6) by (cases ps; cases "tl ps = []") (auto simp: p_def)
  have pe: "p < last qs" using heap_walk_le [OF walk(2) assms(7)] .
  have st: "h_start ?h \<le> p" "h_start ?h < last qs" using assms(3) p0p pe by auto
  have "?v \<noteq> oldGenSize ?h"
  proof
    assume "?v = oldGenSize ?h"
    then show False using assms(9,10) pe st(2) by (auto simp: p_def split: if_splits)
  qed
  moreover have "(if h_start ?h + ?v = h_start ?h then (0, alignFrontier (alignment g) (h_start ?h + ?v))
      else (sizeToCardMapIndex (h_start ?h + ?v - 1 - h_start ?h), h_start ?h + ?v)) =
    (of_nat (xcard ?h p), p)"
  proof (cases "?v = 0")
    case True
    then show ?thesis using assms(2,4,9) by (simp add: p_def)
  next
    case False
    then have pv: "h_start ?h + ?v = p" using assms(9) by (simp add: p_def)
    have "h_start ?h \<noteq> p" using False by (simp flip: pv)
    then have "h_start ?h < p" using st(1) by (rule order.not_eq_order_implies_strict)
    then show ?thesis unfolding pv using \<open>h_start ?h \<noteq> p\<close> by (simp add: xcard_index)
  qed
  ultimately have upd: "updateCrossMap g s m = map_option (\<lambda>m.
      (s\<lparr> generationalMaps := (generationalMaps s)\<lparr> crossMapValidSize := oldGenSize ?h \<rparr> \<rparr>, m))
    (updateCrossMap_loop g s (last qs) m (of_nat (xcard ?h p)) (xstart ?h p) p)"
    by (simp add: updateCrossMap_def Let_def assms(10) index_size xstart_def)
  obtain m' where m': "updateCrossMap_loop g s (last qs) m (of_nat (xcard ?h p)) (xstart ?h p) p = Some m'"
      "same_outside (crossMap (generationalMaps s)) (crossMapLength (generationalMaps s)) m m'"
      "cross_valid s m' (ps @ qs)" "crossMap_get s m' (of_nat (xcard ?h (last qs))) = last_entry ?h (last qs)"
    using updateCrossMap_loop_correct [OF walk(2) assms(7) refl st(1) assms(5) p_def [symmetric] assms(13,11,12)] by blast
  let ?s' = "s\<lparr> generationalMaps := (generationalMaps s)\<lparr> crossMapValidSize := oldGenSize ?h \<rparr> \<rparr>"
  have same: "cross_valid ?s' m'' xs = cross_valid s m'' xs" "crossMap_get ?s' m'' i = crossMap_get s m'' i"
    "heap_walk g ?s' m'' x xs = heap_walk g s m'' x xs" for m'' xs i x
  proof -
    show "cross_valid ?s' m'' xs = cross_valid s m'' xs" "crossMap_get ?s' m'' i = crossMap_get s m'' i"
      by (simp_all add: cross_valid_def crossMap_get_def)
    show "heap_walk g ?s' m'' x xs = heap_walk g s m'' x xs"
      by (induction xs arbitrary: x) (simp_all add: object_size_is_def)
  qed
  have eqs: "p0 # (tl ps @ qs) = ps @ qs" using assms(5,6) by (cases ps) auto
  then have lasts: "last (p0 # (tl ps @ qs)) = last qs" using assms(7) by simp
  have "isCrossMapOk g ?s' m' = Some True"
  proof (rule isCrossMapOk_valid [where p = p0 and ps = "tl ps @ qs"])
    show "heap_walk g ?s' m' p0 (tl ps @ qs)" unfolding same by (rule heap_walk_outside [OF assms(8) m'(2)])
    show "cross_valid ?s' m' (p0 # (tl ps @ qs))" unfolding eqs same by (rule m'(3))
    show "last (p0 # (tl ps @ qs)) = h_start (heap ?s') + oldGenSize (heap ?s')"
      unfolding lasts by (simp add: assms(10))
    show "xcard (heap ?s') (last (p0 # (tl ps @ qs))) < unat (crossMapLength (generationalMaps ?s'))"
      unfolding lasts using assms(12) by simp
  qed (use assms(1-3) in simp_all)
  moreover have "last_entry ?h (last qs) = (if isAligned (oldGenSize ?h) CARD_SIZE then 0 else xoffset ?h (last qs))"
    using last_entry_eq [OF st(2)] assms(10) by (simp add: isAligned_unat CARD_SIZE_eq mod_eq_0_iff_dvd)
  ultimately show ?thesis using upd m' same by auto
qed

section \<open>Witnesses\<close>

text \<open>A heap of 1024 bytes at 4096 whose old generation is one object of 256 bytes.\<close>

definition demo_gen_static :: gc_static where
  "demo_gen_static = \<lparr> objectTypes = [\<lparr> tag = NORMAL_TAG, hasIdentity = False, bytesNonObjptrs = 248,
     numObjptrs = 0, hasIdentityTransitive = False, isUnbounded = False \<rparr>], alignment = 8,
     maxFrameSize = 100, frameLayouts = [], returnAddressToFrameIndex = (\<lambda>_. 0) \<rparr>"

definition demo_gen_mem :: mem where
  "demo_gen_mem a = (if a = 4096 then 1 else if a - 9216 < 4096 then 255 else 0)"

lemma setCardMapAndCrossMap_marks_witness:
  "\<exists>s' m'. setCardMapAndCrossMap demo_state demo_gen_mem = (s', m') \<and>
    isCardMarked s' (markCard s' m' 4100) 4200 \<and> \<not> isCardMarked s' (markCard s' m' 4100) 4400"
proof -
  obtain s' m' where s': "setCardMapAndCrossMap demo_state demo_gen_mem = (s', m')" by fastforce
  have ag: "align_arg (pageSize demo_state)" unfolding align_arg_pow2
    by (rule exI [of _ 12]) (simp add: demo_state_def)
  have in1: "in_heap (heap demo_state) 4100" "in_heap (heap demo_state) 4200" "in_heap (heap demo_state) 4400"
    by (simp_all add: in_heap_def demo_state_def demo_heap_def)
  have al: "isAligned (h_start (heap demo_state)) CARD_SIZE" "isAligned (h_size (heap demo_state)) CARD_SIZE"
    by (simp_all add: isAligned_unat CARD_SIZE_eq demo_state_def demo_heap_def)
  have sh: "\<not> isPointerInHeap (sharedHeap demo_state) 4100"
    by (simp add: isPointerInHeap_def isPointer_def GC_MODEL_MINALIGN_SHIFT_def GC_MODEL_OBJPTR_SHIFT_def
        demo_state_def demo_heap_def mask_eq_exp_minus_1)
  have c: "card_of (heap demo_state) 4100 = 0" "card_of (heap demo_state) 4200 = 0" "card_of (heap demo_state) 4400 = 1"
    by (simp_all add: card_of_def CARD_SIZE_LOG2_def demo_state_def demo_heap_def)
  have pg: "mutatorMarksCards demo_state" "unat (pageSize demo_state) \<le> 2 ^ 32" by (simp_all add: demo_state_def)
  show ?thesis
    using setCardMapAndCrossMap_marks [OF pg(1) ag pg(2) al s' in1(1) in1(2) sh]
      setCardMapAndCrossMap_marks [OF pg(1) ag pg(2) al s' in1(1) in1(3) sh] c s' by auto
qed

lemma demo_gen_size: "object_size_is demo_gen_static demo_state demo_gen_mem 4096 256"
  unfolding object_size_is_def
proof (intro allI impI)
  fix m'
  assume out: "same_outside (crossMap (generationalMaps demo_state)) (crossMapLength (generationalMaps demo_state))
    demo_gen_mem m'"
  have low: "m' a = demo_gen_mem a" if "a < 9216" for a
  proof -
    have "unat a < 9216" using that by (simp add: word_less_nat_alt)
    then have "\<not> a - 9216 < 4096" by (simp add: word_less_nat_alt unat_sub_if')
    then show ?thesis using out by (simp add: same_outside_def demo_state_def)
  qed
  have "load64 m' 4096 = load64 demo_gen_mem 4096"
    by (intro load64_cong low) (simp add: word_less_nat_alt unat_word_ariths unsigned_of_nat take_bit_nat_eq_self)
  also have "\<dots> = 1" by (simp add: load64_def load_bytes_def demo_gen_mem_def upt_rec)
  finally have h: "load64 m' 4096 = 1" .
  then have "skipForwarded m' 4096 4104 = Some 4104"
    by (intro skipForwarded_end) (simp add: getHeader_def getHeaderp_def GC_HEADER_SIZE_def GC_FORWARDED_def)
  moreover have "skipThreaded m' 1 = Some 1" by (intro skipThreaded_end) simp
  moreover have "splitHeader (objectTypes demo_gen_static) 1 = Some (objectTypes demo_gen_static ! 0)"
    by (simp add: splitHeader_def objectTypeIndex_eq demo_gen_static_def)
  ultimately show "sizeofObject demo_gen_static (h_start (heap demo_state)) m' (advanceToObjectData m' 4096) = Some 256"
    using h by (simp add: sizeofObject_def advanceToObjectData_def GC_NORMAL_HEADER_SIZE_def demo_state_def demo_heap_def
        getHeader_def getHeaderp_def GC_HEADER_SIZE_def objectBytesByTag_def elementBytes_def demo_gen_static_def)
qed

lemma updateCrossMap_correct_witness:
  "\<exists>s' m'. updateCrossMap demo_gen_static demo_state demo_gen_mem = Some (s', m') \<and>
    isCrossMapOk demo_gen_static s' m' = Some True \<and> crossMap_get s' m' 0 = 0"
proof -
  let ?g = demo_gen_static and ?s = demo_state and ?m = demo_gen_mem
  have st: "h_start (heap ?s) = 4096" by (simp add: demo_state_def demo_heap_def)
  have xc: "xcard (heap ?s) 4096 = 0" "xcard (heap ?s) 4352 = 0" by (simp_all add: xcard_def st)
  have p0: "4096 = alignFrontier (alignment ?g) (h_start (heap ?s))"
    by (simp add: st demo_gen_static_def alignFrontier_def alignWithExtra_def align_def GC_NORMAL_HEADER_SIZE_def)
  have walk: "heap_walk ?g ?s ?m 4096 (tl [4096] @ [4352])"
    using demo_gen_size by simp
  have valid: "cross_valid ?s ?m [4096]"
    unfolding cross_valid_def
  proof (intro allI impI)
    fix i assume "i < unat (crossMapLength (generationalMaps ?s))" "i \<noteq> xcard (heap ?s) (last [4096])"
    then have "0 < i" "i < 4096" using xc by (simp_all add: demo_state_def)
    then have "(of_nat i :: u64) < 4096"
      by (simp add: word_less_nat_alt unsigned_of_nat take_bit_nat_eq_self)
    moreover have "unat (9216 + of_nat i :: u64) = 9216 + i"
      using \<open>i < 4096\<close> by (simp add: unat_word_ariths unsigned_of_nat take_bit_nat_eq_self)
    then have "9216 + of_nat i \<noteq> (4096 :: u64)" by (simp only: word_unat_eq_iff) simp
    ultimately show "crossMap_get ?s ?m (of_nat i) = xmap (heap ?s) [4096] (\<lambda>_. CROSS_MAP_EMPTY) i"
      using \<open>0 < i\<close> xc by (simp add: crossMap_get_def demo_gen_mem_def CROSS_MAP_EMPTY_def) (simp add: demo_state_def)
  qed
  have "\<exists>s' m'. updateCrossMap ?g ?s ?m = Some (s', m') \<and>
    s' = ?s\<lparr> generationalMaps := (generationalMaps ?s)\<lparr> crossMapValidSize := oldGenSize (heap ?s) \<rparr> \<rparr> \<and>
    same_outside (crossMap (generationalMaps ?s)) (crossMapLength (generationalMaps ?s)) ?m m' \<and>
    cross_valid s' m' ([4096] @ [4352]) \<and> isCrossMapOk ?g s' m' = Some True \<and>
    crossMap_get s' m' (of_nat (xcard (heap ?s) (last [4352]))) =
      (if isAligned (oldGenSize (heap ?s)) CARD_SIZE then 0 else xoffset (heap ?s) (last [4352]))"
    by (rule updateCrossMap_correct [of ?s 4096])
      (use p0 walk valid xc in \<open>simp_all add: st\<close>, simp_all add: demo_state_def demo_heap_def isAligned_unat CARD_SIZE_eq)
  then show ?thesis using xc by (auto simp: demo_state_def demo_heap_def isAligned_unat CARD_SIZE_eq)
qed

end
