(* ===== verification/Heap_Resize.thy ===== *)
theory Heap_Resize
  imports Generational
begin

text \<open>
  Creating, growing, shrinking and releasing heaps: \<open>gc/heap.c\<close>. The system calls are
  parameters over a state of the operating system that includes the memory; a heap
  argument of the code is a reference to one of the heaps of the state or to the local
  variable \<open>newHeap\<close> of \<open>growHeap\<close>. The loops that back off are partial: \<open>None\<close> is a
  loop that does not end. \<open>die\<close> is the left side of a sum. The call of
  \<open>translateHeap\<close> that ends \<open>growHeap\<close> is recorded in the state, not carried out.
\<close>

section \<open>State and system calls\<close>

record 'o vm =
  GC_mmapAnon :: "pointer \<Rightarrow> size_t \<Rightarrow> mem \<times> 'o \<Rightarrow> pointer \<times> mem \<times> 'o"
  GC_mremap :: "pointer \<Rightarrow> size_t \<Rightarrow> size_t \<Rightarrow> mem \<times> 'o \<Rightarrow> pointer \<times> mem \<times> 'o"
  GC_release :: "pointer \<Rightarrow> size_t \<Rightarrow> mem \<times> 'o \<Rightarrow> mem \<times> 'o"
  GC_diskBack_write :: "pointer \<Rightarrow> size_t \<Rightarrow> mem \<times> 'o \<Rightarrow> mem \<times> 'o"
  GC_diskBack_read :: "pointer \<Rightarrow> size_t \<Rightarrow> mem \<times> 'o \<Rightarrow> mem \<times> 'o"
  GC_diskBack_close :: "mem \<times> 'o \<Rightarrow> mem \<times> 'o"

datatype heap_ref = Heap | SecondaryLocal | Shared | SecondaryShared | NewHeap

record 'o heaps =
  gc :: GC_state
  newHeap :: GC_heap
  os :: "mem \<times> 'o"
  translation :: "(heap_ref \<times> pointer \<times> pointer \<times> size_t) option"

fun getHeap :: "heap_ref \<Rightarrow> 'o heaps \<Rightarrow> GC_heap" where
  "getHeap Heap s = heap (gc s)"
| "getHeap SecondaryLocal s = secondaryLocalHeap (gc s)"
| "getHeap Shared s = sharedHeap (gc s)"
| "getHeap SecondaryShared s = secondarySharedHeap (gc s)"
| "getHeap NewHeap s = newHeap s"

fun setHeap :: "heap_ref \<Rightarrow> GC_heap \<Rightarrow> 'o heaps \<Rightarrow> 'o heaps" where
  "setHeap Heap h s = s\<lparr> gc := (gc s)\<lparr> heap := h \<rparr> \<rparr>"
| "setHeap SecondaryLocal h s = s\<lparr> gc := (gc s)\<lparr> secondaryLocalHeap := h \<rparr> \<rparr>"
| "setHeap Shared h s = s\<lparr> gc := (gc s)\<lparr> sharedHeap := h \<rparr> \<rparr>"
| "setHeap SecondaryShared h s = s\<lparr> gc := (gc s)\<lparr> secondarySharedHeap := h \<rparr> \<rparr>"
| "setHeap NewHeap h s = s\<lparr> newHeap := h \<rparr>"

text \<open>\<open>(void*)-1\<close>\<close>

definition MAP_FAILED :: pointer where "MAP_FAILED = NOT 0"

definition initHeap :: "GC_heapKind \<Rightarrow> GC_heap" where
  "initHeap k = \<lparr> h_kind = k, nursery = 0, oldGenSize = 0, h_size = 0, h_start = 0,
     withMapsSize = 0, availableSize = 0, h_frontier = 0 \<rparr>"

section \<open>Sizes\<close>

datatype die = Fixed_heap_full size_t | Max_heap_full size_t | Unable_to_allocate size_t

text \<open>The size wanted comes from a choice in floating point by the ratios of live data,
  a parameter; the limits of the command line cut it.\<close>

definition sizeofHeapDesired ::
    "(size_t \<Rightarrow> size_t \<Rightarrow> size_t) \<Rightarrow> GC_state \<Rightarrow> size_t \<Rightarrow> size_t \<Rightarrow> GC_heapKind \<Rightarrow> die + size_t" where
  "sizeofHeapDesired wanted s liveSize currentSize k =
    (let maxHeap = (if k = LOCAL_HEAP then maxHeapLocal (controls s) else maxHeapShared (controls s));
         fixed = fixedHeap (controls s);
         liveSize = align liveSize (pageSize s);
         res = wanted liveSize currentSize in
     if fixed > 0 then
       (let res = (if res > fixed div 2 then fixed else fixed div 2) in
        if res < liveSize then Inl (Fixed_heap_full fixed) else Inr res)
     else if maxHeap > 0 then
       (let res = (if res > maxHeap then maxHeap else res) in
        if res < liveSize then Inl (Max_heap_full maxHeap) else Inr res)
     else Inr res)"

section \<open>Releasing and shrinking\<close>

definition releaseHeap :: "'o vm \<Rightarrow> heap_ref \<Rightarrow> 'o heaps \<Rightarrow> 'o heaps" where
  "releaseHeap v r s =
    (let h = getHeap r s in
     if 0 = h_start h then s
     else setHeap r (initHeap (h_kind h)) (s\<lparr> os := GC_release v (h_start h) (withMapsSize h) (os s) \<rparr>))"

definition shrinkHeap :: "'o vm \<Rightarrow> heap_ref \<Rightarrow> size_t \<Rightarrow> 'o heaps \<Rightarrow> 'o heaps" where
  "shrinkHeap v r keepSize s =
    (if 0 = keepSize then releaseHeap v r s
     else
       (let h = getHeap r s; keepSize = align keepSize (pageSize (gc s)) in
        if keepSize < h_size h then
          (let keepWithMapsSize = keepSize + sizeofCardMapAndCrossMap (gc s) keepSize in
           setHeap r (h\<lparr> h_size := keepSize, withMapsSize := keepWithMapsSize \<rparr>)
             (s\<lparr> os := GC_release v (h_start h + keepWithMapsSize) (withMapsSize h - keepWithMapsSize) (os s) \<rparr>))
        else s))"

section \<open>Backing off\<close>

text \<open>The step by which \<open>createHeap\<close> and \<open>remapHeap\<close> reduce the size after a failure, and
  the do-while loop around an attempt to get memory. All arithmetic is of \<open>size_t\<close>.\<close>

definition backoff_of :: "size_t \<Rightarrow> size_t \<Rightarrow> size_t \<Rightarrow> size_t" where
  "backoff_of page desiredSize minSize =
    (let backoff = (desiredSize - minSize) div 16;
         backoff = (if 0 = backoff then 1 else backoff) in
     align backoff page)"

definition next_size :: "size_t \<Rightarrow> size_t \<Rightarrow> size_t \<Rightarrow> size_t" where
  "next_size minSize backoff newSize =
    (let nextSize = newSize - backoff in
     if nextSize < minSize \<and> minSize < newSize then minSize else nextSize)"

partial_function (option) backoff_loop ::
    "(size_t \<Rightarrow> 'w \<Rightarrow> pointer option \<times> 'w) \<Rightarrow> size_t \<Rightarrow> size_t \<Rightarrow> size_t \<Rightarrow> 'w \<Rightarrow>
      ((pointer \<times> size_t) option \<times> 'w) option" where
  "backoff_loop attempt minSize backoff newSize w =
    (case attempt newSize w of
       (Some p, w) \<Rightarrow> Some (Some (p, newSize), w)
     | (None, w) \<Rightarrow>
         (let newSize = next_size minSize backoff newSize in
          if newSize \<ge> minSize then backoff_loop attempt minSize backoff newSize w
          else Some (None, w)))"

section \<open>Creating\<close>

text \<open>\<open>ADDRESS_BITS\<close> is 48. \<open>direction\<close> is a local variable set in every round, and only
  turned right before the function returns.\<close>

definition mmap_address :: "bool \<Rightarrow> nat \<Rightarrow> pointer" where
  "mmap_address direction i =
    (let step = push_bit 43 1; address_end = push_bit 48 1;
         address = of_nat i * step;
         address = (if direction then address_end - address else address) in
     if i = 32 then 0 else address)"

fun mmap_loop :: "'o vm \<Rightarrow> bool \<Rightarrow> size_t \<Rightarrow> nat list \<Rightarrow> mem \<times> 'o \<Rightarrow> pointer option \<times> mem \<times> 'o" where
  "mmap_loop v direction n [] w = (None, w)"
| "mmap_loop v direction n (i # is) w =
    (let (newStart, w) = GC_mmapAnon v (mmap_address direction i) n w in
     if newStart \<noteq> MAP_FAILED then (Some newStart, w) else mmap_loop v direction n is w)"

definition create_attempt :: "'o vm \<Rightarrow> GC_state \<Rightarrow> size_t \<Rightarrow> mem \<times> 'o \<Rightarrow> pointer option \<times> mem \<times> 'o" where
  "create_attempt v s newSize w =
    mmap_loop v True (newSize + sizeofCardMapAndCrossMap s newSize) [1..<33] w"

text \<open>What a successful attempt writes: the heap and the largest size seen.\<close>

definition isSharedRef :: "heap_ref \<Rightarrow> bool" where
  "isSharedRef r \<longleftrightarrow> r = Shared \<or> r = SecondaryShared"

definition record_heap :: "heap_ref \<Rightarrow> pointer \<Rightarrow> size_t \<Rightarrow> 'o heaps \<Rightarrow> 'o heaps" where
  "record_heap r newStart newSize s =
    (let s = setHeap r ((getHeap r s)\<lparr> h_start := newStart, h_size := newSize,
           withMapsSize := newSize + sizeofCardMapAndCrossMap (gc s) newSize \<rparr>) s;
         s = (if \<not> isSharedRef r \<and> newSize > maxHeapSize (gc s)
              then s\<lparr> gc := (gc s)\<lparr> maxHeapSize := newSize \<rparr> \<rparr> else s)
     in if isSharedRef r \<and> newSize > maxSharedHeapSize (gc s)
        then s\<lparr> gc := (gc s)\<lparr> maxSharedHeapSize := newSize \<rparr> \<rparr> else s)"

definition finish_attempts ::
    "heap_ref \<Rightarrow> 'o heaps \<Rightarrow> (pointer \<times> size_t) option \<times> mem \<times> 'o \<Rightarrow> bool \<times> 'o heaps" where
  "finish_attempts r s res =
    (case res of
       (Some (newStart, newSize), w) \<Rightarrow> (True, record_heap r newStart newSize (s\<lparr> os := w \<rparr>))
     | (None, w) \<Rightarrow> (False, s\<lparr> os := w \<rparr>))"

definition createHeap ::
    "'o vm \<Rightarrow> heap_ref \<Rightarrow> size_t \<Rightarrow> size_t \<Rightarrow> 'o heaps \<Rightarrow> (bool \<times> 'o heaps) option" where
  "createHeap v r desiredSize minSize s =
    (let page = pageSize (gc s);
         desiredSize = (if desiredSize < minSize then minSize else desiredSize);
         minSize = align minSize page; desiredSize = align desiredSize page in
     map_option (finish_attempts r s)
       (backoff_loop (create_attempt v (gc s)) minSize (backoff_of page desiredSize minSize) desiredSize (os s)))"

definition createHeapSecondary :: "'o vm \<Rightarrow> size_t \<Rightarrow> 'o heaps \<Rightarrow> (bool \<times> 'o heaps) option" where
  "createHeapSecondary v desiredSize s =
    (let c = controls (gc s) in
     if (fixedHeap c > 0 \<and> h_size (heap (gc s)) + desiredSize > fixedHeap c)
       \<or> (maxHeapLocal c > 0 \<and> h_size (heap (gc s)) + desiredSize > maxHeapLocal c)
     then Some (False, s)
     else createHeap v SecondaryLocal desiredSize (oldGenSize (heap (gc s))) s)"

definition createSharedHeapSecondary :: "'o vm \<Rightarrow> size_t \<Rightarrow> 'o heaps \<Rightarrow> (bool \<times> 'o heaps) option" where
  "createSharedHeapSecondary v desiredSize s =
    (let c = controls (gc s) in
     if (fixedHeap c > 0 \<and> h_size (sharedHeap (gc s)) + desiredSize > fixedHeap c)
       \<or> (maxHeapShared c > 0 \<and> h_size (sharedHeap (gc s)) + desiredSize > maxHeapShared c)
     then Some (False, s)
     else createHeap v SecondaryShared desiredSize (oldGenSize (sharedHeap (gc s))) s)"

text \<open>Linux has \<open>mremap\<close>.\<close>

definition remap_attempt ::
    "'o vm \<Rightarrow> GC_state \<Rightarrow> GC_heap \<Rightarrow> size_t \<Rightarrow> mem \<times> 'o \<Rightarrow> pointer option \<times> mem \<times> 'o" where
  "remap_attempt v s h newSize w =
    (let (newStart, w) = GC_mremap v (h_start h) (h_size h + sizeofCardMapAndCrossMap s (h_size h))
           (newSize + sizeofCardMapAndCrossMap s newSize) w in
     (if newStart \<noteq> MAP_FAILED then Some newStart else None, w))"

definition remapHeap ::
    "'o vm \<Rightarrow> heap_ref \<Rightarrow> size_t \<Rightarrow> size_t \<Rightarrow> 'o heaps \<Rightarrow> (bool \<times> 'o heaps) option" where
  "remapHeap v r desiredSize minSize s =
    (let page = pageSize (gc s); minSize = align minSize page; desiredSize = align desiredSize page in
     map_option (finish_attempts r s)
       (backoff_loop (remap_attempt v (gc s) (getHeap r s)) minSize
         (backoff_of page desiredSize minSize) desiredSize (os s)))"

section \<open>Growing\<close>

definition COPY_CHUNK_SIZE :: size_t where "COPY_CHUNK_SIZE = 0x2000000"

definition copy_os :: "pointer \<Rightarrow> pointer \<Rightarrow> size_t \<Rightarrow> 'o heaps \<Rightarrow> 'o heaps" where
  "copy_os src dst n s = s\<lparr> os := (GC_memcpy src dst n (fst (os s)), snd (os s)) \<rparr>"

text \<open>The loop at label \<open>copy\<close>: from the end down, giving back the space behind each chunk.\<close>

function grow_copy :: "'o vm \<Rightarrow> heap_ref \<Rightarrow> pointer \<Rightarrow> pointer \<Rightarrow> size_t \<Rightarrow> 'o heaps \<Rightarrow> 'o heaps" where
  "grow_copy v r from to remaining s =
    (if remaining < COPY_CHUNK_SIZE then
       releaseHeap v r (copy_os (h_start (getHeap r s)) (h_start (newHeap s)) remaining s)
     else
       (let remaining = remaining - COPY_CHUNK_SIZE;
            from = from - COPY_CHUNK_SIZE; to = to - COPY_CHUNK_SIZE in
        grow_copy v r from to remaining
          (shrinkHeap v r remaining (copy_os from to COPY_CHUNK_SIZE s))))"
  by pat_completeness auto

termination
  by (relation "measure (\<lambda>(v, r, from, to, remaining, s). unat remaining)")
    (auto simp: COPY_CHUNK_SIZE_def unat_sub word_le_nat_alt not_less)

declare grow_copy.simps [simp del]

text \<open>The path over the disk: the live bytes are written, the heap is released, and they are
  read into the heap that the system gives then.\<close>

definition grow_paged :: "'o vm \<Rightarrow> heap_ref \<Rightarrow> size_t \<Rightarrow> size_t \<Rightarrow> size_t \<Rightarrow> 'o heaps \<Rightarrow> (die + 'o heaps) option" where
  "grow_paged v r liveSize desiredSize minSize s =
    (let s = s\<lparr> os := GC_diskBack_write v (h_start (getHeap r s)) liveSize (os s) \<rparr>;
         s = releaseHeap v r s in
     Option.bind (createHeap v r desiredSize minSize s) (\<lambda>(ok, s).
       if ok then
         (let w = GC_diskBack_read v (h_start (getHeap r s)) liveSize (os s);
              s = s\<lparr> os := GC_diskBack_close v w \<rparr> in
          Some (Inr (setHeap r ((getHeap r s)\<lparr> oldGenSize := liveSize \<rparr>) s)))
       else Some (Inl (Unable_to_allocate minSize))))"

text \<open>The four ways of \<open>growHeap\<close> when the heap could not be remapped.\<close>

definition grow_without_remap ::
    "'o vm \<Rightarrow> heap_ref \<Rightarrow> bool \<Rightarrow> size_t \<Rightarrow> size_t \<Rightarrow> size_t \<Rightarrow> 'o heaps \<Rightarrow> (die + 'o heaps) option" where
  "grow_without_remap v r useCurrent liveSize desiredSize minSize s =
    (let s = (if \<not> useCurrent then shrinkHeap v r liveSize s else s);
         s = s\<lparr> newHeap := initHeap (h_kind (getHeap r s)) \<rparr> in
     Option.bind (createHeap v NewHeap desiredSize minSize s) (\<lambda>(ok, s).
       if ok then
         (let from = h_start (getHeap r s) + liveSize; to = h_start (newHeap s) + liveSize;
              s = grow_copy v r from to liveSize (shrinkHeap v r liveSize s);
              s = s\<lparr> newHeap := (newHeap s)\<lparr> oldGenSize := liveSize \<rparr> \<rparr> in
          Some (Inr (setHeap r (newHeap s) s)))
       else if useCurrent then Some (Inr s)
       else if mayPageHeap (controls (gc s)) then
         grow_paged v r liveSize desiredSize minSize s
       else Some (Inl (Unable_to_allocate minSize))))"

definition growHeap :: "'o vm \<Rightarrow> heap_ref \<Rightarrow> size_t \<Rightarrow> size_t \<Rightarrow> 'o heaps \<Rightarrow> (die + 'o heaps) option" where
  "growHeap v r desiredSize minSize s =
    (let h = getHeap r s;
         useCurrent = (minSize \<le> h_size h);
         minSize = (if useCurrent then desiredSize div 2 + h_size h div 2 else minSize);
         origStart = h_start h; liveSize = oldGenSize h in
     Option.bind (remapHeap v r desiredSize minSize s) (\<lambda>(ok, s).
     Option.bind (if ok then Some (Inr s)
       else grow_without_remap v r useCurrent liveSize desiredSize minSize s) (\<lambda>res.
     Some (map_sum id (\<lambda>s.
       if origStart = h_start (getHeap r s) then s
       else s\<lparr> translation := Some (r, origStart, h_start (getHeap r s), oldGenSize (getHeap r s)) \<rparr>) res))))"

section \<open>Resizing\<close>

definition resizeHeap ::
    "(size_t \<Rightarrow> size_t \<Rightarrow> size_t) \<Rightarrow> 'o vm \<Rightarrow> heap_ref \<Rightarrow> size_t \<Rightarrow> 'o heaps \<Rightarrow> (die + 'o heaps) option" where
  "resizeHeap wanted v r minSize s =
    (case sizeofHeapDesired wanted (gc s) minSize (h_size (getHeap r s))
            (if r = Shared then SHARED_HEAP else LOCAL_HEAP) of
       Inl e \<Rightarrow> Some (Inl e)
     | Inr desiredSize \<Rightarrow>
         if desiredSize \<le> h_size (getHeap r s) then Some (Inr (shrinkHeap v r desiredSize s))
         else growHeap v r desiredSize minSize
           (releaseHeap v (if r = Shared then SecondaryShared else SecondaryLocal) s))"

definition resize_secondary :: "'o vm \<Rightarrow> heap_ref \<Rightarrow> size_t \<Rightarrow> 'o heaps \<Rightarrow> 'o heaps option" where
  "resize_secondary v r primarySize s =
    (let secondarySize = h_size (getHeap r s) in
     if 0 = secondarySize then Some s
     else if 2 * primarySize > ram (gc s) then Some (releaseHeap v r s)
     else if secondarySize < primarySize then
       map_option (\<lambda>(ok, s). if ok then s else releaseHeap v r s)
         (remapHeap v r primarySize primarySize s)
     else if secondarySize > primarySize then Some (shrinkHeap v r primarySize s)
     else Some s)"

definition resizeLocalHeapSecondary :: "'o vm \<Rightarrow> 'o heaps \<Rightarrow> 'o heaps option" where
  "resizeLocalHeapSecondary v s = resize_secondary v SecondaryLocal (h_size (heap (gc s))) s"

definition resizeSharedHeapSecondary :: "'o vm \<Rightarrow> size_t \<Rightarrow> 'o heaps \<Rightarrow> 'o heaps option" where
  "resizeSharedHeapSecondary v primarySize s = resize_secondary v SecondaryShared primarySize s"

section \<open>Attempts that back off\<close>

lemma isAligned_minus:
  assumes "align_arg p" "isAligned a p" "isAligned b p"
  shows "isAligned (a - b) p"
proof (cases "b \<le> a")
  case True
  then show ?thesis using assms(2,3) by (simp add: isAligned_unat unat_sub mod_eq_0_iff_dvd)
next
  case False
  then have "unat (a - b) = unat a + 2 ^ 64 - unat b" by (simp add: unat_sub_if' word_le_nat_alt)
  then show ?thesis using assms align_arg_bounds [OF assms(1)]
    by (simp only: isAligned_unat mod_eq_0_iff_dvd) (simp add: dvd_diff_nat)
qed

lemma next_size_aligned:
  assumes "align_arg p" "isAligned m p" "isAligned b p" "isAligned n p"
  shows "isAligned (next_size m b n) p"
  using assms by (simp add: next_size_def Let_def isAligned_minus)

locale attempts =
  fixes attempt :: "size_t \<Rightarrow> 'w \<Rightarrow> pointer option \<times> 'w"
    and inv :: "'w \<Rightarrow> bool"
    and granted :: "size_t \<Rightarrow> pointer \<Rightarrow> 'w \<Rightarrow> bool"
  assumes failure: "attempt n w = (None, w') \<Longrightarrow> inv w \<Longrightarrow> inv w'"
    and success: "attempt n w = (Some p, w') \<Longrightarrow> inv w \<Longrightarrow> granted n p w'"
begin

text \<open>Whatever the loop returns was granted, for a size that is a multiple of the page if
  the sizes it started with are.\<close>

definition outcome :: "size_t \<Rightarrow> (pointer \<times> size_t) option \<times> 'w \<Rightarrow> bool" where
  "outcome page r \<longleftrightarrow> (case r of
     (None, w) \<Rightarrow> inv w
   | (Some (p, n), w) \<Rightarrow> granted n p w \<and> isAligned n page)"

lemma result:
  assumes "backoff_loop attempt m b n w = Some r" "align_arg page"
    "inv w" "isAligned m page" "isAligned b page" "isAligned n page"
  shows "outcome page r"
proof -
  have "attempt = attempt \<longrightarrow> inv w \<longrightarrow> isAligned m page \<longrightarrow> isAligned b page \<longrightarrow> isAligned n page \<longrightarrow> outcome page r"
  proof (rule backoff_loop.raw_induct [of "\<lambda>att m b n w r. att = attempt \<longrightarrow> inv w \<longrightarrow> isAligned m page \<longrightarrow>
      isAligned b page \<longrightarrow> isAligned n page \<longrightarrow> outcome page r", OF _ assms(1)], intro impI)
    fix bl att m b n w r
    assume IH: "\<And>att m b n w r. bl att m b n w = Some r \<Longrightarrow> att = attempt \<longrightarrow> inv w \<longrightarrow> isAligned m page \<longrightarrow>
        isAligned b page \<longrightarrow> isAligned n page \<longrightarrow> outcome page r"
      and eq: "(case att n w of (Some p, w) \<Rightarrow> Some (Some (p, n), w)
        | (None, w) \<Rightarrow> (let newSize = next_size m b n in if newSize \<ge> m then bl att m b newSize w else Some (None, w))) = Some r"
      and att: "att = attempt" and w: "inv w" and al: "isAligned m page" "isAligned b page" "isAligned n page"
    obtain res w' where res: "attempt n w = (res, w')" by fastforce
    show "outcome page r"
    proof (cases res)
      case None
      have "inv w'" using failure res w None by simp
      moreover have "isAligned (next_size m b n) page" by (rule next_size_aligned [OF assms(2) al])
      ultimately show ?thesis
        using eq IH [of attempt m b "next_size m b n" w' r] None res att al
        by (auto simp: Let_def outcome_def split: if_splits)
    next
      case (Some p)
      then show ?thesis using eq success res w al att by (auto simp: outcome_def)
    qed
  qed
  then show ?thesis using assms by simp
qed

text \<open>The loop ends when the step is positive and not larger than the least size; if it
  fails, the last attempt was at that size.\<close>

lemma returns:
  assumes "0 < b" "b \<le> m"
  shows "m \<le> n \<Longrightarrow> \<exists>res w'. backoff_loop attempt m b n w = Some (res, w') \<and>
    (case res of None \<Rightarrow> \<exists>w0. attempt m w0 = (None, w') | Some (p, n') \<Rightarrow> m \<le> n' \<and> n' \<le> n)"
proof (induction "unat n" arbitrary: n w rule: less_induct)
  case less
  obtain res w' where res: "attempt n w = (res, w')" by fastforce
  show ?case
  proof (cases res)
    case (Some p)
    then show ?thesis using res less.prems by (subst backoff_loop.simps) simp
  next
    case None
    have bn: "b \<le> n" using assms(2) less.prems by simp
    then have next_lt: "n - b < n" using assms(1) by (simp add: word_less_nat_alt unat_sub word_le_nat_alt)
    let ?n = "next_size m b n"
    show ?thesis
    proof (cases "n = m")
      case True
      then have "?n < m" using next_lt by (simp add: next_size_def)
      then show ?thesis using True res None by (subst backoff_loop.simps) (auto simp: Let_def)
    next
      case False
      then have "m < n" using less.prems by simp
      then have n': "m \<le> ?n" "?n < n" using next_lt by (auto simp: next_size_def Let_def)
      then have "unat ?n < unat n" by (simp add: word_less_nat_alt)
      from less.hyps [OF this n'(1), of w'] obtain res' w'' where
        IH: "backoff_loop attempt m b ?n w' = Some (res', w'')"
          "case res' of None \<Rightarrow> \<exists>w0. attempt m w0 = (None, w'') | Some (p, n') \<Rightarrow> m \<le> n' \<and> n' \<le> ?n" by blast
      have "backoff_loop attempt m b n w = Some (res', w'')"
        using res None n' IH(1) by (subst backoff_loop.simps) (simp add: Let_def)
      then show ?thesis using IH(2) n'(2) by (cases res') auto
    qed
  qed
qed

end

section \<open>The system calls\<close>

text \<open>What the code relies on: a call that fails changes no memory, a fresh mapping changes
  only itself, a release only what it gives back, and remapping keeps the contents.\<close>

definition vm_ok :: "'o vm \<Rightarrow> bool" where
  "vm_ok v \<longleftrightarrow>
    (\<forall>a n w w'. GC_mmapAnon v a n w = (MAP_FAILED, w') \<longrightarrow> fst w' = fst w) \<and>
    (\<forall>a n w p w' x. GC_mmapAnon v a n w = (p, w') \<longrightarrow> p \<noteq> MAP_FAILED \<longrightarrow> n \<le> x - p \<longrightarrow> fst w' x = fst w x) \<and>
    (\<forall>a n w x. n \<le> x - a \<longrightarrow> fst (GC_release v a n w) x = fst w x) \<and>
    (\<forall>a n n' w w'. GC_mremap v a n n' w = (MAP_FAILED, w') \<longrightarrow> fst w' = fst w) \<and>
    (\<forall>a n n' w p w' i. GC_mremap v a n n' w = (p, w') \<longrightarrow> p \<noteq> MAP_FAILED \<longrightarrow> i < n \<longrightarrow> i < n' \<longrightarrow>
      fst w' (p + i) = fst w (a + i))"

lemma vm_okD:
  assumes "vm_ok v"
  shows "GC_mmapAnon v a n w = (MAP_FAILED, w') \<Longrightarrow> fst w' = fst w"
    and "GC_mmapAnon v a n w = (p, w') \<Longrightarrow> p \<noteq> MAP_FAILED \<Longrightarrow> n \<le> x - p \<Longrightarrow> fst w' x = fst w x"
    and "n \<le> x - a \<Longrightarrow> fst (GC_release v a n w) x = fst w x"
    and "GC_mremap v a n n' w = (MAP_FAILED, w') \<Longrightarrow> fst w' = fst w"
    and "GC_mremap v a n n' w = (p, w') \<Longrightarrow> p \<noteq> MAP_FAILED \<Longrightarrow> i < n \<Longrightarrow> i < n' \<Longrightarrow> fst w' (p + i) = fst w (a + i)"
proof -
  note ok = assms [unfolded vm_ok_def]
  note ok2 = ok [THEN conjunct2]
  note ok3 = ok2 [THEN conjunct2]
  note ok4 = ok3 [THEN conjunct2]
  show "GC_mmapAnon v a n w = (MAP_FAILED, w') \<Longrightarrow> fst w' = fst w" by (rule ok [THEN conjunct1, rule_format])
  show "GC_mmapAnon v a n w = (p, w') \<Longrightarrow> p \<noteq> MAP_FAILED \<Longrightarrow> n \<le> x - p \<Longrightarrow> fst w' x = fst w x"
    by (rule ok2 [THEN conjunct1, rule_format])
  show "n \<le> x - a \<Longrightarrow> fst (GC_release v a n w) x = fst w x" by (rule ok3 [THEN conjunct1, rule_format])
  show "GC_mremap v a n n' w = (MAP_FAILED, w') \<Longrightarrow> fst w' = fst w" by (rule ok4 [THEN conjunct1, rule_format])
  show "GC_mremap v a n n' w = (p, w') \<Longrightarrow> p \<noteq> MAP_FAILED \<Longrightarrow> i < n \<Longrightarrow> i < n' \<Longrightarrow> fst w' (p + i) = fst w (a + i)"
    by (rule ok4 [THEN conjunct2, rule_format])
qed

text \<open>For the loss of data it also matters which bytes are mapped and what is on the disk: these
  are a view of the state of the system. A fresh mapping has no byte that was mapped, a release
  unmaps only what it gives back, a call that fails changes nothing, and what has been
  written to the disk is read back.\<close>

record 'o os_view =
  mapped :: "'o \<Rightarrow> pointer set"
  on_disk :: "'o \<Rightarrow> size_t \<Rightarrow> u8"

definition os_ok :: "'o os_view \<Rightarrow> 'o vm \<Rightarrow> bool" where
  "os_ok V v \<longleftrightarrow>
    (\<forall>a n w w'. GC_mmapAnon v a n w = (MAP_FAILED, w') \<longrightarrow> mapped V (snd w') = mapped V (snd w)) \<and>
    (\<forall>a n w p w' x. GC_mmapAnon v a n w = (p, w') \<longrightarrow> p \<noteq> MAP_FAILED \<longrightarrow> x - p < n \<longrightarrow> x \<notin> mapped V (snd w)) \<and>
    (\<forall>a n w p w'. GC_mmapAnon v a n w = (p, w') \<longrightarrow> on_disk V (snd w') = on_disk V (snd w)) \<and>
    (\<forall>a n w x. x \<in> mapped V (snd w) \<longrightarrow> n \<le> x - a \<longrightarrow> x \<in> mapped V (snd (GC_release v a n w))) \<and>
    (\<forall>a n w. on_disk V (snd (GC_release v a n w)) = on_disk V (snd w)) \<and>
    (\<forall>a n n' w w'. GC_mremap v a n n' w = (MAP_FAILED, w') \<longrightarrow>
      mapped V (snd w') = mapped V (snd w) \<and> on_disk V (snd w') = on_disk V (snd w)) \<and>
    (\<forall>a n w i. i < n \<longrightarrow> on_disk V (snd (GC_diskBack_write v a n w)) i = fst w (a + i)) \<and>
    (\<forall>a n w i. i < n \<longrightarrow> fst (GC_diskBack_read v a n w) (a + i) = on_disk V (snd w) i) \<and>
    (\<forall>w. fst (GC_diskBack_close v w) = fst w)"

lemma os_okD:
  assumes "os_ok V v"
  shows "GC_mmapAnon v a n w = (MAP_FAILED, w') \<Longrightarrow> mapped V (snd w') = mapped V (snd w)"
    and "GC_mmapAnon v a n w = (p, w') \<Longrightarrow> p \<noteq> MAP_FAILED \<Longrightarrow> x - p < n \<Longrightarrow> x \<notin> mapped V (snd w)"
    and "GC_mmapAnon v a n w = (p, w') \<Longrightarrow> on_disk V (snd w') = on_disk V (snd w)"
    and "x \<in> mapped V (snd w) \<Longrightarrow> n \<le> x - a \<Longrightarrow> x \<in> mapped V (snd (GC_release v a n w))"
    and "on_disk V (snd (GC_release v a n w)) = on_disk V (snd w)"
    and "GC_mremap v a n n' w = (MAP_FAILED, w') \<Longrightarrow> mapped V (snd w') = mapped V (snd w) \<and> on_disk V (snd w') = on_disk V (snd w)"
    and "i < n \<Longrightarrow> on_disk V (snd (GC_diskBack_write v a n w)) i = fst w (a + i)"
    and "i < n \<Longrightarrow> fst (GC_diskBack_read v a n w) (a + i) = on_disk V (snd w) i"
    and "fst (GC_diskBack_close v w) = fst w"
proof -
  note ok = assms [unfolded os_ok_def]
  note ok2 = ok [THEN conjunct2]
  note ok3 = ok2 [THEN conjunct2]
  note ok4 = ok3 [THEN conjunct2]
  note ok5 = ok4 [THEN conjunct2]
  note ok6 = ok5 [THEN conjunct2]
  note ok7 = ok6 [THEN conjunct2]
  note ok8 = ok7 [THEN conjunct2]
  show "GC_mmapAnon v a n w = (MAP_FAILED, w') \<Longrightarrow> mapped V (snd w') = mapped V (snd w)"
    by (rule ok [THEN conjunct1, rule_format])
  show "GC_mmapAnon v a n w = (p, w') \<Longrightarrow> p \<noteq> MAP_FAILED \<Longrightarrow> x - p < n \<Longrightarrow> x \<notin> mapped V (snd w)"
    by (rule ok2 [THEN conjunct1, rule_format])
  show "GC_mmapAnon v a n w = (p, w') \<Longrightarrow> on_disk V (snd w') = on_disk V (snd w)"
    by (rule ok3 [THEN conjunct1, rule_format])
  show "x \<in> mapped V (snd w) \<Longrightarrow> n \<le> x - a \<Longrightarrow> x \<in> mapped V (snd (GC_release v a n w))"
    by (rule ok4 [THEN conjunct1, rule_format])
  show "on_disk V (snd (GC_release v a n w)) = on_disk V (snd w)" by (rule ok5 [THEN conjunct1, rule_format])
  show "GC_mremap v a n n' w = (MAP_FAILED, w') \<Longrightarrow> mapped V (snd w') = mapped V (snd w) \<and> on_disk V (snd w') = on_disk V (snd w)"
    by (rule ok6 [THEN conjunct1, rule_format])
  show "i < n \<Longrightarrow> on_disk V (snd (GC_diskBack_write v a n w)) i = fst w (a + i)" by (rule ok7 [THEN conjunct1, rule_format])
  show "i < n \<Longrightarrow> fst (GC_diskBack_read v a n w) (a + i) = on_disk V (snd w) i" by (rule ok8 [THEN conjunct1, rule_format])
  show "fst (GC_diskBack_close v w) = fst w" by (rule ok8 [THEN conjunct2, rule_format])
qed

definition same_os :: "'o os_view \<Rightarrow> 'o vm \<Rightarrow> mem \<times> 'o \<Rightarrow> mem \<times> 'o \<Rightarrow> bool" where
  "same_os V v w0 w \<longleftrightarrow> (os_ok V v \<longrightarrow> mapped V (snd w) = mapped V (snd w0) \<and> on_disk V (snd w) = on_disk V (snd w0))"

definition fresh_at :: "'o os_view \<Rightarrow> 'o vm \<Rightarrow> GC_state \<Rightarrow> mem \<times> 'o \<Rightarrow> size_t \<Rightarrow> pointer \<Rightarrow> mem \<times> 'o \<Rightarrow> bool" where
  "fresh_at V v s w0 n p w \<longleftrightarrow> (os_ok V v \<longrightarrow> on_disk V (snd w) = on_disk V (snd w0) \<and>
    (\<forall>x. x - p < n + sizeofCardMapAndCrossMap s n \<longrightarrow> x \<notin> mapped V (snd w0)))"

definition same_mem :: "'o vm \<Rightarrow> mem \<Rightarrow> mem \<times> 'o \<Rightarrow> bool" where
  "same_mem v m w \<longleftrightarrow> (vm_ok v \<longrightarrow> fst w = m)"

definition mapped_at :: "'o vm \<Rightarrow> GC_state \<Rightarrow> mem \<Rightarrow> size_t \<Rightarrow> pointer \<Rightarrow> mem \<times> 'o \<Rightarrow> bool" where
  "mapped_at v s m n p w \<longleftrightarrow> p \<noteq> MAP_FAILED \<and>
    (\<exists>a w0. GC_mmapAnon v a (n + sizeofCardMapAndCrossMap s n) w0 = (p, w)) \<and>
    (vm_ok v \<longrightarrow> (\<forall>x. n + sizeofCardMapAndCrossMap s n \<le> x - p \<longrightarrow> fst w x = m x))"

definition remapped_at :: "'o vm \<Rightarrow> GC_state \<Rightarrow> GC_heap \<Rightarrow> mem \<Rightarrow> size_t \<Rightarrow> pointer \<Rightarrow> mem \<times> 'o \<Rightarrow> bool" where
  "remapped_at v s h m n p w \<longleftrightarrow> p \<noteq> MAP_FAILED \<and>
    (vm_ok v \<longrightarrow> (\<forall>i. i < h_size h + sizeofCardMapAndCrossMap s (h_size h) \<longrightarrow>
      i < n + sizeofCardMapAndCrossMap s n \<longrightarrow> fst w (p + i) = m (h_start h + i)))"

lemma mmap_loop_None:
  "mmap_loop v d n is w = (None, w') \<Longrightarrow> same_mem v m w \<Longrightarrow> same_mem v m w'"
proof (induction "is" arbitrary: w)
  case (Cons i "is")
  obtain p w1 where w1: "GC_mmapAnon v (mmap_address d i) n w = (p, w1)" by (cases "GC_mmapAnon v (mmap_address d i) n w")
  with Cons.prems(1) have "p = MAP_FAILED" "mmap_loop v d n is w1 = (None, w')" by (auto split: if_splits)
  moreover from this have "same_mem v m w1" using w1 Cons.prems(2) vm_okD(1) by (fastforce simp: same_mem_def)
  ultimately show ?case using Cons.IH by blast
qed simp

text \<open>The system refuses \<open>n\<close> bytes at each of these addresses, one after the other.\<close>

fun refused :: "'o vm \<Rightarrow> size_t \<Rightarrow> pointer list \<Rightarrow> mem \<times> 'o \<Rightarrow> mem \<times> 'o \<Rightarrow> bool" where
  "refused v n [] w w' \<longleftrightarrow> w' = w"
| "refused v n (a # as) w w' \<longleftrightarrow> fst (GC_mmapAnon v a n w) = MAP_FAILED \<and> refused v n as (snd (GC_mmapAnon v a n w)) w'"

lemma mmap_loop_refused:
  "mmap_loop v d n is w = (None, w') \<Longrightarrow> refused v n (map (mmap_address d) is) w w'"
  by (induction "is" arbitrary: w) (auto split: if_splits prod.splits)

lemma mmap_addresses: "map (mmap_address True) [1..<33] = map (\<lambda>i. 2 ^ 48 - of_nat i * 2 ^ 43) [1..<32] @ [0]"
proof -
  have "[1..<33] = [1..<32] @ [32 :: nat]" by (simp flip: upt_Suc_append)
  moreover have "map (mmap_address True) [1..<32] = map (\<lambda>i. 2 ^ 48 - of_nat i * 2 ^ 43) [1..<32]"
    by (rule map_cong) (simp_all add: mmap_address_def Let_def push_bit_eq_mult)
  ultimately show ?thesis by (simp add: mmap_address_def Let_def)
qed

lemma mmap_loop_Some:
  "mmap_loop v d n is w = (Some p, w') \<Longrightarrow> same_mem v m w \<Longrightarrow>
    p \<noteq> MAP_FAILED \<and> (\<exists>a w0. GC_mmapAnon v a n w0 = (p, w') \<and> same_mem v m w0)"
proof (induction "is" arbitrary: w)
  case (Cons i "is")
  obtain q w1 where w1: "GC_mmapAnon v (mmap_address d i) n w = (q, w1)" by (cases "GC_mmapAnon v (mmap_address d i) n w")
  show ?case
  proof (cases "q = MAP_FAILED")
    case True
    then have "same_mem v m w1" using w1 Cons.prems(2) vm_okD(1) by (fastforce simp: same_mem_def)
    then show ?thesis using Cons True w1 by auto
  next
    case False
    then have "p = q" "w' = w1" using Cons.prems(1) w1 by auto
    then show ?thesis using False w1 Cons.prems(2) by blast
  qed
qed simp

interpretation create: attempts "create_attempt v s" "same_mem v m" "mapped_at v s m" for v s m
proof
  fix n w w' assume "create_attempt v s n w = (None, w')" "same_mem v m w"
  then show "same_mem v m w'" unfolding create_attempt_def by (rule mmap_loop_None)
next
  fix n w p w' assume "create_attempt v s n w = (Some p, w')" "same_mem v m w"
  then show "mapped_at v s m n p w'"
    using mmap_loop_Some [of v True _ _ w p w' m] vm_okD(2)
    unfolding create_attempt_def mapped_at_def same_mem_def by metis
qed

interpretation remap: attempts "remap_attempt v s h" "same_mem v m" "remapped_at v s h m" for v s h m
proof
  fix n w w' assume "remap_attempt v s h n w = (None, w')" "same_mem v m w"
  then show "same_mem v m w'"
    using vm_okD(4) by (fastforce simp: remap_attempt_def same_mem_def split: if_splits prod.splits)
next
  fix n w p w' assume "remap_attempt v s h n w = (Some p, w')" "same_mem v m w"
  then show "remapped_at v s h m n p w'"
    using vm_okD(5) by (fastforce simp: remap_attempt_def same_mem_def remapped_at_def split: if_splits prod.splits)
qed

lemma mmap_loop_os:
  "mmap_loop v d n is w = (r, w') \<Longrightarrow> same_os V v w0 w \<Longrightarrow>
    (case r of None \<Rightarrow> same_os V v w0 w'
     | Some p \<Rightarrow> os_ok V v \<longrightarrow> on_disk V (snd w') = on_disk V (snd w0) \<and> (\<forall>x. x - p < n \<longrightarrow> x \<notin> mapped V (snd w0)))"
proof (induction "is" arbitrary: w)
  case (Cons i "is")
  obtain q w1 where w1: "GC_mmapAnon v (mmap_address d i) n w = (q, w1)" by (cases "GC_mmapAnon v (mmap_address d i) n w")
  show ?case
  proof (cases "q = MAP_FAILED")
    case True
    have "same_os V v w0 w1"
      unfolding same_os_def
    proof
      assume ok: "os_ok V v"
      show "mapped V (snd w1) = mapped V (snd w0) \<and> on_disk V (snd w1) = on_disk V (snd w0)"
        using os_okD(1) [OF ok w1 [unfolded True]] os_okD(3) [OF ok w1] Cons.prems(2) ok by (simp add: same_os_def)
    qed
    then show ?thesis using Cons True w1 by auto
  next
    case False
    then have q: "r = Some q" "w' = w1" using Cons.prems(1) w1 by auto
    have "x \<notin> mapped V (snd w)" if "os_ok V v" "x - q < n" for x using os_okD(2) [OF that(1) w1 False that(2)] .
    moreover have "on_disk V (snd w1) = on_disk V (snd w)" if "os_ok V v" using os_okD(3) [OF that w1] .
    ultimately show ?thesis using q Cons.prems(2) by (simp add: same_os_def)
  qed
qed auto

interpretation create_os: attempts "create_attempt v s" "same_os V v w0" "fresh_at V v s w0" for v s V w0
proof
  fix n w w' assume "create_attempt v s n w = (None, w')" "same_os V v w0 w"
  then show "same_os V v w0 w'" using mmap_loop_os [of v True _ _ w None w' V w0] by (simp add: create_attempt_def)
next
  fix n w p w' assume "create_attempt v s n w = (Some p, w')" "same_os V v w0 w"
  then show "fresh_at V v s w0 n p w'"
    using mmap_loop_os [of v True _ _ w "Some p" w' V w0] by (simp add: create_attempt_def fresh_at_def)
qed

interpretation remap_os: attempts "remap_attempt v s h" "same_os V v w0" "\<lambda>_ _ _. True" for v s h V w0
proof
  fix n w w' assume "remap_attempt v s h n w = (None, w')" "same_os V v w0 w"
  then show "same_os V v w0 w'"
    using os_okD(6) [of V v] by (fastforce simp: remap_attempt_def same_os_def split: if_splits prod.splits)
qed simp

section \<open>Properties of creation\<close>

lemma getHeap_setHeap [simp]: "getHeap r (setHeap r h s) = h"
  by (cases r) simp_all

lemma getHeap_record [simp]: "getHeap r (record_heap r p n s) = (getHeap r s)\<lparr> h_start := p, h_size := n,
    withMapsSize := n + sizeofCardMapAndCrossMap (gc s) n \<rparr>"
  by (cases r) (simp_all add: record_heap_def Let_def isSharedRef_def)

lemma getHeap_os [simp]: "getHeap r (s\<lparr> os := w \<rparr>) = getHeap r s"
  by (cases r) simp_all

lemma os_record [simp]: "os (record_heap r p n s) = os s"
  by (cases r) (simp_all add: record_heap_def Let_def isSharedRef_def)

lemma backoff_of_pos:
  assumes "align_arg page" "unat page \<le> 2 ^ 32"
  shows "0 < backoff_of page d m" "isAligned (backoff_of page d m) page"
proof -
  let ?b = "(if 0 = (d - m) div 16 then 1 else (d - m) div 16)"
  have "unat ((d - m) div 16) \<le> 2 ^ 60"
    using unsigned_less [of "d - m", where ?'a = nat] by (simp add: unat_div)
  then have "unat ?b + unat page \<le> 2 ^ 64" using assms(2) by simp
  from align_ge [OF assms(1) this] have "?b \<le> backoff_of page d m" by (simp add: backoff_of_def Let_def)
  moreover have "0 < ?b" by (simp add: word_neq_0_conv)
  ultimately show "0 < backoff_of page d m" by (rule order.strict_trans2 [rotated])
  show "isAligned (backoff_of page d m) page" using assms(1) by (simp add: backoff_of_def Let_def isAligned_align)
qed

text \<open>C34: \<open>createHeap\<close> returns, provided its back-off step is not larger than the least size:
  with a heap of a size between the rounded least and desired sizes, a whole number of
  pages, mapped together with its card and cross maps, or, with the heap as it was, after
  the system has refused the least size with its maps at each of the addresses that are tried,
  the 31 from \<open>2^48 - 2^43\<close> down in steps of \<open>2^43\<close> and the null one.\<close>

theorem createHeap_correct:
  assumes "align_arg (pageSize (gc s))" and "unat (pageSize (gc s)) \<le> 2 ^ 32"
    and "unat (max desiredSize minSize) + unat (pageSize (gc s)) \<le> 2 ^ 64"
    and "m = align minSize (pageSize (gc s))"
    and "d = align (max desiredSize minSize) (pageSize (gc s))"
    and "backoff_of (pageSize (gc s)) d m \<le> m"
  shows "\<exists>ok s'. createHeap v r desiredSize minSize s = Some (ok, s') \<and>
    (if ok then m \<le> h_size (getHeap r s') \<and> h_size (getHeap r s') \<le> d \<and>
       isAligned (h_size (getHeap r s')) (pageSize (gc s)) \<and>
       withMapsSize (getHeap r s') = h_size (getHeap r s') + sizeofCardMapAndCrossMap (gc s) (h_size (getHeap r s')) \<and>
       h_start (getHeap r s') \<noteq> MAP_FAILED \<and>
       (\<exists>a w. GC_mmapAnon v a (withMapsSize (getHeap r s')) w = (h_start (getHeap r s'), os s'))
     else getHeap r s' = getHeap r s \<and>
       (\<exists>w. refused v (m + sizeofCardMapAndCrossMap (gc s) m)
         (map (\<lambda>i. 2 ^ 48 - of_nat i * 2 ^ 43) [1..<32] @ [0]) w (os s')))"
proof -
  let ?page = "pageSize (gc s)" and ?att = "create_attempt v (gc s)"
  let ?b = "backoff_of ?page d m"
  have fits: "unat minSize + unat ?page \<le> 2 ^ 64"
    using assms(3) by (simp add: max_def word_le_nat_alt split: if_splits)
  have al: "isAligned m ?page" "isAligned d ?page" using assms(1,4,5) by (simp_all add: isAligned_align)
  have md: "m \<le> d"
    unfolding assms(4) using align_ge [OF assms(1,3)] assms(5) al(2)
    by (intro align_le [OF assms(1) fits]) auto
  note b = backoff_of_pos [OF assms(1,2), of d m]
  obtain res w' where loop: "backoff_loop ?att m ?b d (os s) = Some (res, w')"
      "case res of None \<Rightarrow> \<exists>w0. ?att m w0 = (None, w') | Some (p, n') \<Rightarrow> m \<le> n' \<and> n' \<le> d"
    using create.returns [OF b(1) assms(6) md, of v "gc s" "os s"] by blast
  have call: "createHeap v r desiredSize minSize s = Some (finish_attempts r s (res, w'))"
  proof -
    have "(if desiredSize < minSize then minSize else desiredSize) = max desiredSize minSize"
      by (auto simp: max_def)
    then show ?thesis
      unfolding createHeap_def Let_def by (simp only: assms(4,5) [symmetric] loop(1) option.map)
  qed
  have out: "create.outcome v (fst (os s)) (gc s) ?page (res, w')"
    using create.result [OF loop(1) assms(1) _ al(1) b(2) al(2), of "fst (os s)"] by (simp add: same_mem_def)
  show ?thesis
  proof (cases res)
    case None
    then obtain w0 where "?att m w0 = (None, w')" using loop(2) by auto
    then have "refused v (m + sizeofCardMapAndCrossMap (gc s) m) (map (mmap_address True) [1..<33]) w0 w'"
      unfolding create_attempt_def by (rule mmap_loop_refused)
    note ref = this [unfolded mmap_addresses]
    have "createHeap v r desiredSize minSize s = Some (False, s\<lparr> os := w' \<rparr>)"
      using call None by (simp add: finish_attempts_def)
    moreover have "os (s\<lparr> os := w' \<rparr>) = w'" by simp
    ultimately show ?thesis
      using ref by (intro exI [of _ False] exI [of _ "s\<lparr> os := w' \<rparr>"]) (simp only: if_False getHeap_os, blast)
  next
    case (Some pn)
    then obtain p n where pn: "res = Some (p, n)" by (cases pn) simp
    then have "m \<le> n" "n \<le> d" "mapped_at v (gc s) (fst (os s)) n p w'" "isAligned n ?page"
      using loop(2) out by (simp_all add: create.outcome_def)
    then show ?thesis
      using call pn by (auto simp: finish_attempts_def mapped_at_def)
  qed
qed

fun sizes_tried :: "nat \<Rightarrow> size_t \<Rightarrow> size_t \<Rightarrow> size_t \<Rightarrow> size_t list" where
  "sizes_tried 0 m b n = [n]"
| "sizes_tried (Suc k) m b n = n # sizes_tried k m b (next_size m b n)"

text \<open>The condition on the back-off step is needed. When the least size is a small
  fraction of the desired one, the subtraction wraps around: from a thousand pages down
  to one, the seventeenth size tried is eight pages short of \<open>2^64\<close>, and the least size
  is never tried.\<close>

theorem createHeap_backoff_wraps:
  "last (sizes_tried 16 4096 (backoff_of 4096 4096000 4096) 4096000) = - 32768 \<and>
    4096 \<notin> set (sizes_tried 16 4096 (backoff_of 4096 4096000 4096) 4096000)"
proof -
  have b: "backoff_of 4096 4096000 4096 = 258048" by (simp add: backoff_of_def align_def)
  have n: "next_size 4096 258048 x = x - 258048" if "262144 \<le> x" for x
    using that by (auto simp: next_size_def word_less_nat_alt word_le_nat_alt unat_sub)
  have "sizes_tried 16 4096 258048 4096000 = [4096000, 3837952, 3579904, 3321856, 3063808, 2805760, 2547712, 2289664, 2031616, 1773568, 1515520, 1257472, 999424, 741376, 483328, 225280, - 32768]"
    by (simp only: eval_nat_numeral(2,3) numeral_eq_Suc pred_numeral_simps BitM.simps sizes_tried.simps) (simp add: n next_size_def)
  then show ?thesis unfolding b by simp
qed

section \<open>Sizes of the maps\<close>

lemma align_mono:
  assumes "align_arg b" "a \<le> a'" "unat a' + unat b \<le> 2 ^ 64"
  shows "align a b \<le> align a' b"
proof -
  have "unat a \<le> unat a'" using assms(2) by (simp add: word_le_nat_alt)
  then have "(unat a + unat b - 1) div unat b * unat b \<le> (unat a' + unat b - 1) div unat b * unat b"
    by (intro mult_le_mono1 div_le_mono) simp
  then show ?thesis using assms \<open>unat a \<le> unat a'\<close> by (simp add: word_le_nat_alt unat_align)
qed

lemma maps_bounds:
  assumes "align_arg (pageSize s)" "unat (pageSize s) \<le> 2 ^ 32"
  shows "unat (sizeofCardMapAndCrossMap s z) < 2 ^ 58"
    and "z \<le> z' \<Longrightarrow> sizeofCardMapAndCrossMap s z \<le> sizeofCardMapAndCrossMap s z'"
proof -
  let ?k = "\<lambda>z. align (drop_bit CARD_SIZE_LOG2 z) (pageSize s)"
  have eq: "sizeofCardMapAndCrossMap s z = (if mutatorMarksCards s then ?k z + ?k z else 0)" for z
    by (simp add: sizeofCardMapAndCrossMap_def sizeofCardMap_def sizeofCrossMap_def index_defs
        CARD_MAP_ELEM_SIZE_def CROSS_MAP_ELEM_SIZE_def)
  have k: "unat (?k z) < 2 ^ 57" for z by (rule map_size_bounds(2) [OF assms])
  have sum: "unat (?k z + ?k z) = 2 * unat (?k z)" for z
    using k [of z] unat_add_lem [of "?k z" "?k z"] by simp
  show "unat (sizeofCardMapAndCrossMap s z) < 2 ^ 58" using k [of z] sum [of z] by (simp add: eq)
  assume le: "z \<le> z'"
  have "unat (drop_bit CARD_SIZE_LOG2 z') + unat (pageSize s) \<le> 2 ^ 64"
    using index_small [of z'] assms(2) by simp
  moreover have "drop_bit CARD_SIZE_LOG2 z \<le> drop_bit CARD_SIZE_LOG2 z'"
    using le by (simp add: word_le_nat_alt unat_index div_le_mono)
  ultimately have "?k z \<le> ?k z'" by (intro align_mono [OF assms(1)])
  then show "sizeofCardMapAndCrossMap s z \<le> sizeofCardMapAndCrossMap s z'"
    using sum [of z] sum [of z'] by (simp add: eq word_le_nat_alt)
qed

section \<open>What shrinking keeps\<close>

text \<open>A heap that is mapped together with its maps.\<close>

definition heap_sized :: "GC_state \<Rightarrow> GC_heap \<Rightarrow> bool" where
  "heap_sized s h \<longleftrightarrow> unat (h_size h) \<le> 2 ^ 62 \<and> withMapsSize h = h_size h + sizeofCardMapAndCrossMap s (h_size h)"

definition page_ok :: "GC_state \<Rightarrow> bool" where
  "page_ok s \<longleftrightarrow> align_arg (pageSize s) \<and> unat (pageSize s) \<le> 2 ^ 32"

lemma page_setHeap [simp]: "page_ok (gc (setHeap r h s)) = page_ok (gc s)"
  "heap_sized (gc (setHeap r h s)) = heap_sized (gc s)"
  by (cases r; simp add: page_ok_def heap_sized_def fun_eq_iff sizeofCardMapAndCrossMap_def
      sizeofCardMap_def sizeofCrossMap_def)+

lemma os_setHeap [simp]: "os (setHeap r h s) = os s"
  by (cases r) simp_all

lemma newHeap_setHeap [simp]: "r \<noteq> NewHeap \<Longrightarrow> newHeap (setHeap r h s) = newHeap s"
  by (cases r) simp_all

lemma total_size:
  assumes "page_ok s" "unat z \<le> 2 ^ 62"
  shows "unat (z + sizeofCardMapAndCrossMap s z) = unat z + unat (sizeofCardMapAndCrossMap s z)"
    "unat (z + sizeofCardMapAndCrossMap s z) < 2 ^ 63"
  using assms maps_bounds(1) [of s z] unat_add_lem [of z "sizeofCardMapAndCrossMap s z"]
  by (simp_all add: page_ok_def)

text \<open>Bytes below what is kept and bytes beyond the mapping survive.\<close>

lemma released_part:
  fixes a x k w :: u64
  assumes "k \<le> w" "x - a < k \<or> w \<le> x - a"
  shows "w - k \<le> x - (a + k)"
proof -
  have eq: "x - (a + k) = (x - a) - k" by (simp add: algebra_simps)
  have wk: "unat (w - k) = unat w - unat k" using assms(1) by (rule unat_sub)
  show ?thesis
  proof (cases "x - a < k")
    case True
    then have "unat ((x - a) - k) = unat (x - a) + 2 ^ 64 - unat k"
      by (simp add: unat_sub_if' word_less_nat_alt)
    then show ?thesis unfolding eq word_le_nat_alt wk using unsigned_less [of w, where ?'a = nat] by simp
  next
    case False
    then have "w \<le> x - a" "k \<le> x - a" using assms by auto
    then show ?thesis unfolding eq word_le_nat_alt wk by (simp add: unat_sub word_le_nat_alt)
  qed
qed

lemma releaseHeap_mem:
  "vm_ok v \<Longrightarrow> withMapsSize (getHeap r s) \<le> x - h_start (getHeap r s) \<Longrightarrow>
    fst (os (releaseHeap v r s)) x = fst (os s) x"
  by (simp add: releaseHeap_def Let_def vm_okD(3))

lemma shrinkHeap_mem:
  assumes "vm_ok v" "page_ok (gc s)" "heap_sized (gc s) (getHeap r s)"
    "keep \<le> h_size (getHeap r s)"
    "x - h_start (getHeap r s) < keep \<or> withMapsSize (getHeap r s) \<le> x - h_start (getHeap r s)"
  shows "fst (os (shrinkHeap v r keep s)) x = fst (os s) x"
proof (cases "keep = 0")
  case True
  then show ?thesis using assms(1,5) by (simp add: shrinkHeap_def releaseHeap_mem)
next
  case False
  let ?h = "getHeap r s" and ?K = "align keep (pageSize (gc s))"
  show ?thesis
  proof (cases "?K < h_size ?h")
    case True
    let ?KW = "?K + sizeofCardMapAndCrossMap (gc s) ?K"
    have page: "align_arg (pageSize (gc s))" "unat (pageSize (gc s)) \<le> 2 ^ 32" using assms(2) by (simp_all add: page_ok_def)
    have size: "unat (h_size ?h) \<le> 2 ^ 62" "withMapsSize ?h = h_size ?h + sizeofCardMapAndCrossMap (gc s) (h_size ?h)"
      using assms(3) by (simp_all add: heap_sized_def)
    have "unat keep \<le> 2 ^ 62" using assms(4) size(1) by (simp add: word_le_nat_alt)
    then have kK: "keep \<le> ?K" using page by (intro align_ge) simp_all
    have K62: "unat ?K \<le> 2 ^ 62" using True size(1) by (simp add: word_less_nat_alt)
    have "sizeofCardMapAndCrossMap (gc s) ?K \<le> sizeofCardMapAndCrossMap (gc s) (h_size ?h)"
      using True by (intro maps_bounds(2) [OF page]) simp
    then have KW: "?KW \<le> withMapsSize ?h" "?K \<le> ?KW"
      using True total_size [OF assms(2) K62] total_size [OF assms(2) size(1)] size(2)
      by (simp_all add: word_le_nat_alt word_less_nat_alt)
    then have "withMapsSize ?h - ?KW \<le> x - (h_start ?h + ?KW)"
      using assms(5) kK by (intro released_part) auto
    then show ?thesis using True False vm_okD(3) [OF assms(1)] by (simp add: shrinkHeap_def Let_def)
  qed (simp add: shrinkHeap_def Let_def False)
qed

lemma shrinkHeap_heap:
  fixes v :: "'o vm"
  assumes "page_ok (gc s)" "heap_sized (gc s) (getHeap r s)" "keep \<noteq> 0"
  defines "s' \<equiv> shrinkHeap v r keep s"
  shows "h_start (getHeap r s') = h_start (getHeap r s)" "heap_sized (gc s') (getHeap r s')"
    "withMapsSize (getHeap r s') \<le> withMapsSize (getHeap r s)" "h_kind (getHeap r s') = h_kind (getHeap r s)"
    "keep \<le> h_size (getHeap r s) \<Longrightarrow> keep \<le> h_size (getHeap r s')"
proof -
  let ?h = "getHeap r s" and ?K = "align keep (pageSize (gc s))"
  have page: "align_arg (pageSize (gc s))" "unat (pageSize (gc s)) \<le> 2 ^ 32" using assms(1) by (simp_all add: page_ok_def)
  have size: "unat (h_size ?h) \<le> 2 ^ 62" "withMapsSize ?h = h_size ?h + sizeofCardMapAndCrossMap (gc s) (h_size ?h)"
    using assms(2) by (simp_all add: heap_sized_def)
  obtain w where shrunk: "?K < h_size ?h \<Longrightarrow>
      s' = setHeap r (?h\<lparr> h_size := ?K, withMapsSize := ?K + sizeofCardMapAndCrossMap (gc s) ?K \<rparr>) (s\<lparr> os := w \<rparr>)"
    using assms(3) by (auto simp: s'_def shrinkHeap_def Let_def)
  have same: "s' = s" if "\<not> ?K < h_size ?h"
    using that assms(3) by (simp add: s'_def shrinkHeap_def Let_def)
  have K62: "unat ?K \<le> 2 ^ 62" if "?K < h_size ?h" using that size(1) by (simp add: word_less_nat_alt)
  have le: "?K + sizeofCardMapAndCrossMap (gc s) ?K \<le> withMapsSize ?h" if "?K < h_size ?h"
    using that total_size [OF assms(1) K62 [OF that]] total_size [OF assms(1) size(1)] size(2)
      maps_bounds(2) [OF page, of ?K "h_size ?h"] by (simp add: word_le_nat_alt word_less_nat_alt)
  show "h_start (getHeap r s') = h_start ?h" "h_kind (getHeap r s') = h_kind ?h"
    using shrunk same by (cases "?K < h_size ?h"; simp)+
  show "withMapsSize (getHeap r s') \<le> withMapsSize ?h"
    using shrunk same le by (cases "?K < h_size ?h") simp_all
  show "heap_sized (gc s') (getHeap r s')"
  proof (cases "?K < h_size ?h")
    case True
    have "heap_sized (gc s') = heap_sized (gc s)" unfolding shrunk [OF True] by simp
    then show ?thesis using True K62 [OF True] by (simp add: shrunk) (simp add: heap_sized_def)
  qed (simp add: same assms(2))
  assume "keep \<le> h_size ?h"
  then have "unat keep + unat (pageSize (gc s)) \<le> 2 ^ 64" using size(1) page(2) by (simp add: word_le_nat_alt)
  then have "keep \<le> ?K" by (rule align_ge [OF page(1)])
  then show "keep \<le> h_size (getHeap r s')"
    using shrunk same \<open>keep \<le> h_size ?h\<close> by (cases "?K < h_size ?h") simp_all
qed

text \<open>The bytes of a heap and of its maps are mapped, and those that shrinking keeps stay mapped.\<close>

definition heap_mapped :: "'o os_view \<Rightarrow> heap_ref \<Rightarrow> 'o heaps \<Rightarrow> bool" where
  "heap_mapped V r s \<longleftrightarrow> (\<forall>i<withMapsSize (getHeap r s). h_start (getHeap r s) + i \<in> mapped V (snd (os s)))"

lemma shrinkHeap_mapped:
  assumes "os_ok V v" "page_ok (gc s)" "heap_sized (gc s) (getHeap r s)" "keep \<noteq> 0" "heap_mapped V r s"
  shows "heap_mapped V r (shrinkHeap v r keep s)"
proof -
  let ?h = "getHeap r s" and ?K = "align keep (pageSize (gc s))"
  let ?KW = "?K + sizeofCardMapAndCrossMap (gc s) ?K"
  show ?thesis
  proof (cases "?K < h_size ?h")
    case True
    have le: "?KW \<le> withMapsSize ?h"
      using shrinkHeap_heap(3) [OF assms(2-4), of v] True assms(4) by (simp add: shrinkHeap_def Let_def)
    have "h_start ?h + i \<in> mapped V (snd (GC_release v (h_start ?h + ?KW) (withMapsSize ?h - ?KW) (os s)))" if "i < ?KW" for i
    proof -
      have "withMapsSize ?h - ?KW \<le> (h_start ?h + i) - (h_start ?h + ?KW)"
        using le that by (intro released_part) auto
      moreover have "h_start ?h + i \<in> mapped V (snd (os s))" using assms(5) le that by (auto simp: heap_mapped_def)
      ultimately show ?thesis by (intro os_okD(4) [OF assms(1)])
    qed
    then show ?thesis using True assms(4) by (simp add: shrinkHeap_def Let_def heap_mapped_def)
  qed (use assms in \<open>simp add: shrinkHeap_def Let_def\<close>)
qed

section \<open>Growing keeps the data\<close>

lemma disjnt_far:
  assumes "disjnt_regions a n b k" "unat i < k"
  shows "n \<le> off a (b + i)"
proof (cases "a = b")
  case True
  then show ?thesis using assms by (simp add: disjnt_regions_def)
next
  case False
  have "off a b + unat i < 2 ^ 64"
    using off_compl [OF False] assms by (simp add: disjnt_regions_def)
  then have "unat ((b - a) + i) = off a b + unat i" using unat_add_lem [of "b - a" i] by simp
  moreover have eq: "b + i - a = (b - a) + i" by simp
  ultimately have "off a (b + i) = off a b + unat i" by (simp only: eq)
  then show ?thesis using assms(1) by (simp only: disjnt_regions_def) simp
qed

lemma copy_os_mem: "fst (os (copy_os src dst n s)) x =
    (if x - dst < n then fst (os s) (src + (x - dst)) else fst (os s) x)"
  by (simp add: copy_os_def GC_memcpy_def memcpy_def)

lemma copy_os_simps [simp]: "getHeap r (copy_os src dst n s) = getHeap r s" "newHeap (copy_os src dst n s) = newHeap s"
  "gc (copy_os src dst n s) = gc s"
  by (simp_all add: copy_os_def)

lemma newHeap_shrink [simp]: "r \<noteq> NewHeap \<Longrightarrow> newHeap (shrinkHeap v r keep s) = newHeap s"
  "r \<noteq> NewHeap \<Longrightarrow> newHeap (releaseHeap v r s) = newHeap s"
  by (simp_all add: shrinkHeap_def releaseHeap_def Let_def)

lemma page_shrink [simp]: "page_ok (gc (shrinkHeap v r keep s)) = page_ok (gc s)"
  "page_ok (gc (releaseHeap v r s)) = page_ok (gc s)"
  by (simp_all add: shrinkHeap_def releaseHeap_def Let_def)

lemma releaseHeap_start: "h_start (getHeap r (releaseHeap v r s)) = 0"
  by (simp add: releaseHeap_def Let_def initHeap_def)

text \<open>The heap at \<open>r\<close> during the copying: what is left of the old mapping, or released.\<close>

definition copying :: "heap_ref \<Rightarrow> pointer \<Rightarrow> nat \<Rightarrow> size_t \<Rightarrow> 'o heaps \<Rightarrow> bool" where
  "copying r cur W remaining s \<longleftrightarrow> page_ok (gc s) \<and>
    (remaining = 0 \<and> h_start (getHeap r s) = 0 \<or>
     h_start (getHeap r s) = cur \<and> heap_sized (gc s) (getHeap r s) \<and>
       unat (withMapsSize (getHeap r s)) \<le> W \<and> remaining \<le> h_size (getHeap r s))"

lemma copying_shrink:
  assumes "copying r cur W R s" "R' \<le> R"
  shows "copying r cur W R' (shrinkHeap v r R' s)"
proof (cases "R' = 0")
  case True
  then show ?thesis using assms(1) by (simp add: copying_def shrinkHeap_def releaseHeap_start)
next
  case False
  then have "R \<noteq> 0" using assms(2) by auto
  then show ?thesis
    using assms False shrinkHeap_heap [of s r R' v] by (auto simp: copying_def word_le_nat_alt)
qed

lemma shrink_copying_mem:
  assumes "vm_ok v" "copying r cur W R s" "R' \<le> R" "x - cur < R' \<or> W \<le> off cur x"
  shows "fst (os (shrinkHeap v r R' s)) x = fst (os s) x"
proof (cases "h_start (getHeap r s) = 0 \<and> R' = 0")
  case True
  then show ?thesis by (simp add: shrinkHeap_def releaseHeap_def)
next
  case False
  then have "\<not> (R = 0 \<and> h_start (getHeap r s) = 0)" using assms(3) by auto
  then show ?thesis using assms by (intro shrinkHeap_mem) (auto simp: copying_def word_le_nat_alt)
qed

lemma grow_copy_data:
  assumes vm: "vm_ok v" and r: "r \<noteq> NewHeap" and new: "new = h_start (newHeap s)"
    and disj: "disjnt_regions new (unat L) cur W" and LW: "unat L \<le> W"
  shows "R \<le> L \<Longrightarrow> copying r cur W R s \<Longrightarrow> new = h_start (newHeap s) \<Longrightarrow>
    \<forall>i<R. fst (os s) (cur + i) = orig i \<Longrightarrow> \<forall>i<L. R \<le> i \<longrightarrow> fst (os s) (new + i) = orig i \<Longrightarrow>
    newHeap (grow_copy v r (cur + R) (new + R) R s) = newHeap s \<and>
    (\<forall>i<L. fst (os (grow_copy v r (cur + R) (new + R) R s)) (new + i) = orig i)"
proof (induction "unat R" arbitrary: R s rule: less_induct)
  case less
  have far: "W \<le> off cur (new + i)" if "i < L" for i
    using disjnt_far [of cur W new "unat L" i] disj that by (simp add: disjnt_sym word_less_nat_alt)
  have far': "unat L \<le> off new (cur + i)" if "i < L" for i
    using disjnt_far [OF disj, of i] that LW by (simp add: word_less_nat_alt)
  show ?case
  proof (cases "R < COPY_CHUNK_SIZE")
    case True
    let ?s = "copy_os (h_start (getHeap r s)) new R s"
    have last: "grow_copy v r (cur + R) (new + R) R s = releaseHeap v r ?s"
      using True less.prems(3) by (subst grow_copy.simps) simp
    have copied: "fst (os ?s) (new + i) = orig i" if "i < L" for i
      using that less.prems(2,4,5) by (auto simp: copy_os_mem copying_def not_less)
    have "fst (os (releaseHeap v r ?s)) (new + i) = fst (os ?s) (new + i)" if "i < L" for i
    proof (cases "h_start (getHeap r s) = 0")
      case True
      then show ?thesis by (simp add: releaseHeap_def)
    next
      case False
      then have "withMapsSize (getHeap r s) \<le> (new + i) - h_start (getHeap r s)"
        using less.prems(2) far [OF that] by (auto simp: copying_def word_le_nat_alt)
      then show ?thesis by (intro releaseHeap_mem [OF vm]) simp
    qed
    then show ?thesis unfolding last using copied r by simp
  next
    case False
    let ?C = COPY_CHUNK_SIZE
    have CR: "?C \<le> R" "0 < ?C" "R \<noteq> 0" using False by (auto simp: COPY_CHUNK_SIZE_def)
    let ?R = "R - ?C"
    let ?s1 = "copy_os (cur + ?R) (new + ?R) ?C s"
    let ?s2 = "shrinkHeap v r ?R ?s1"
    have uR: "unat ?R = unat R - unat ?C" using CR(1) by (rule unat_sub)
    have lt: "unat ?R < unat R" "?R \<le> R" using CR uR by (simp_all add: word_le_nat_alt word_less_nat_alt)
    have step: "grow_copy v r (cur + R) (new + R) R s = grow_copy v r (cur + ?R) (new + ?R) ?R ?s2"
      using False by (subst grow_copy.simps) (simp add: Let_def add_diff_eq)
    have cop: "copying r cur W R ?s1" using less.prems(2) by (simp add: copying_def)
    have lower: "fst (os ?s1) (cur + i) = orig i" if "i < ?R" for i
    proof -
      have iL: "i < L" "i < R" using that lt(2) less.prems(1) by auto
      have "\<not> cur + i - (new + ?R) < ?C"
      proof
        assume a: "cur + i - (new + ?R) < ?C"
        define t where "t = cur + i - (new + ?R)"
        have t: "unat t < unat ?C" using a by (simp add: t_def word_less_nat_alt)
        have "unat t + unat ?R < unat R" using t uR CR(1) by (simp add: word_le_nat_alt)
        moreover from this have "unat (t + ?R) = unat t + unat ?R"
          using unat_add_lem [of t ?R] unsigned_less [of R, where ?'a = nat] by simp
        ultimately have "unat (t + ?R) < unat R" by simp
        moreover have "cur + i - new = t + ?R" by (simp add: t_def)
        ultimately have "off new (cur + i) < unat R" by simp
        then show False using far' [OF iL(1)] less.prems(1) by (simp add: word_le_nat_alt)
      qed
      then show ?thesis using less.prems(4) iL by (simp add: copy_os_mem)
    qed
    have upper: "fst (os ?s1) (new + i) = orig i" if "i < L" "?R \<le> i" for i
    proof -
      have eq: "new + i - (new + ?R) = i - ?R" by simp
      show ?thesis
      proof (cases "i < R")
        case True
        then have "i - ?R < ?C" using that(2) uR CR(1) by (simp add: word_less_nat_alt word_le_nat_alt unat_sub)
        then show ?thesis using less.prems(4) True by (simp add: copy_os_mem eq)
      next
        case ge: False
        then have "\<not> i - ?R < ?C" using that(2) uR CR(1) by (simp add: word_less_nat_alt word_le_nat_alt unat_sub)
        moreover have "R \<le> i" using ge by simp
        ultimately show ?thesis using less.prems(5) that(1) by (simp add: copy_os_mem eq del: not_less)
      qed
    qed
    have shrunk: "fst (os ?s2) x = fst (os ?s1) x" if "x - cur < ?R \<or> W \<le> off cur x" for x
      by (rule shrink_copying_mem [OF vm cop lt(2) that])
    have "newHeap (grow_copy v r (cur + ?R) (new + ?R) ?R ?s2) = newHeap ?s2 \<and>
      (\<forall>i<L. fst (os (grow_copy v r (cur + ?R) (new + ?R) ?R ?s2)) (new + i) = orig i)"
    proof (rule less.hyps [OF lt(1)])
      show "?R \<le> L" using lt(2) less.prems(1) by simp
      show "copying r cur W ?R ?s2" by (rule copying_shrink [OF cop lt(2)])
      show "new = h_start (newHeap ?s2)" using less.prems(3) r by simp
      show "\<forall>i<?R. fst (os ?s2) (cur + i) = orig i" using shrunk lower by simp
      show "\<forall>i<L. ?R \<le> i \<longrightarrow> fst (os ?s2) (new + i) = orig i" using shrunk far upper by simp
    qed
    then show ?thesis unfolding step using r by simp
  qed
qed

text \<open>Both ways of getting memory, when the back-off cannot wrap around.\<close>

definition sizes_ok :: "GC_state \<Rightarrow> size_t \<Rightarrow> size_t \<Rightarrow> bool" where
  "sizes_ok s d m \<longleftrightarrow> page_ok s \<and> unat d \<le> 2 ^ 61 \<and> m \<le> d \<and>
    backoff_of (pageSize s) (align d (pageSize s)) (align m (pageSize s)) \<le> align m (pageSize s)"

lemma sizes_okD:
  assumes "sizes_ok s d m"
  defines "m' \<equiv> align m (pageSize s)" and "d' \<equiv> align d (pageSize s)"
  shows "m \<le> m'" "m' \<le> d'" "unat d' \<le> 2 ^ 62" "isAligned m' (pageSize s)" "isAligned d' (pageSize s)"
    "0 < backoff_of (pageSize s) d' m'" "isAligned (backoff_of (pageSize s) d' m') (pageSize s)"
    "backoff_of (pageSize s) d' m' \<le> m'"
proof -
  have page: "align_arg (pageSize s)" "unat (pageSize s) \<le> 2 ^ 32" and d: "unat d \<le> 2 ^ 61" "m \<le> d"
    using assms(1) by (simp_all add: sizes_ok_def page_ok_def)
  have fits: "unat d + unat (pageSize s) \<le> 2 ^ 64" "unat m + unat (pageSize s) \<le> 2 ^ 64"
    using d page(2) by (simp_all add: word_le_nat_alt)
  show "m \<le> m'" unfolding m'_def by (rule align_ge [OF page(1) fits(2)])
  show "m' \<le> d'" unfolding m'_def d'_def by (rule align_mono [OF page(1) d(2) fits(1)])
  show "unat d' \<le> 2 ^ 62" using align_lt [OF page(1) fits(1)] d(1) page(2) by (simp add: d'_def)
  show "isAligned m' (pageSize s)" "isAligned d' (pageSize s)" using page(1) by (simp_all add: m'_def d'_def isAligned_align)
  show "0 < backoff_of (pageSize s) d' m'" "isAligned (backoff_of (pageSize s) d' m') (pageSize s)"
    by (rule backoff_of_pos [OF page])+
  show "backoff_of (pageSize s) d' m' \<le> m'" using assms(1) by (simp add: sizes_ok_def m'_def d'_def)
qed

lemma createHeap_cases:
  assumes "sizes_ok (gc s) d m"
  obtains w where "createHeap v r d m s = Some (False, s\<lparr> os := w \<rparr>)" "same_mem v (fst (os s)) w" "same_os V v (os s) w"
  | p n w where "createHeap v r d m s = Some (True, record_heap r p n (s\<lparr> os := w \<rparr>))"
    "m \<le> n" "unat n \<le> 2 ^ 62" "mapped_at v (gc s) (fst (os s)) n p w" "fresh_at V v (gc s) (os s) n p w"
proof -
  note ok = sizes_okD [OF assms]
  let ?m = "align m (pageSize (gc s))" and ?d = "align d (pageSize (gc s))"
  let ?b = "backoff_of (pageSize (gc s)) ?d ?m" and ?att = "create_attempt v (gc s)"
  obtain res w' where loop: "backoff_loop ?att ?m ?b ?d (os s) = Some (res, w')"
      "case res of None \<Rightarrow> \<exists>w0. ?att ?m w0 = (None, w') | Some (p, n') \<Rightarrow> ?m \<le> n' \<and> n' \<le> ?d"
    using create.returns [OF ok(6,8,2), of v "gc s" "os s"] by blast
  have page: "align_arg (pageSize (gc s))" using assms by (simp add: sizes_ok_def page_ok_def)
  from create.result [OF loop(1) page _ ok(4,7,5), of "fst (os s)"]
  have out: "create.outcome v (fst (os s)) (gc s) (pageSize (gc s)) (res, w')" by (simp add: same_mem_def)
  from create_os.result [OF loop(1) page _ ok(4,7,5), of V "os s"]
  have view: "create_os.outcome V v (os s) (gc s) (pageSize (gc s)) (res, w')" by (simp add: same_os_def)
  have "(if d < m then m else d) = d" using assms by (auto simp: sizes_ok_def)
  then have call: "createHeap v r d m s = Some (finish_attempts r s (res, w'))"
    unfolding createHeap_def Let_def by (simp only: loop(1) option.map)
  show thesis
  proof (cases res)
    case None
    then show thesis
      using that(1) [of w'] call out view by (simp add: finish_attempts_def create.outcome_def create_os.outcome_def)
  next
    case (Some pn)
    then obtain p n where pn: "res = Some (p, n)" by (cases pn) simp
    then have "?m \<le> n" "n \<le> ?d" "mapped_at v (gc s) (fst (os s)) n p w'" "fresh_at V v (gc s) (os s) n p w'"
      using loop(2) out view by (simp_all add: create.outcome_def create_os.outcome_def)
    moreover have "m \<le> n" using ok(1) \<open>?m \<le> n\<close> by simp
    moreover have "unat n \<le> 2 ^ 62" using ok(3) \<open>n \<le> ?d\<close> by (simp add: word_le_nat_alt)
    ultimately show thesis using that(2) [of p n w'] call pn by (simp add: finish_attempts_def)
  qed
qed

lemma remapHeap_cases:
  assumes "sizes_ok (gc s) d m"
  obtains w where "remapHeap v r d m s = Some (False, s\<lparr> os := w \<rparr>)" "same_mem v (fst (os s)) w" "same_os V v (os s) w"
  | p n w where "remapHeap v r d m s = Some (True, record_heap r p n (s\<lparr> os := w \<rparr>))"
    "m \<le> n" "unat n \<le> 2 ^ 62" "remapped_at v (gc s) (getHeap r s) (fst (os s)) n p w"
proof -
  note ok = sizes_okD [OF assms]
  let ?m = "align m (pageSize (gc s))" and ?d = "align d (pageSize (gc s))"
  let ?b = "backoff_of (pageSize (gc s)) ?d ?m" and ?att = "remap_attempt v (gc s) (getHeap r s)"
  obtain res w' where loop: "backoff_loop ?att ?m ?b ?d (os s) = Some (res, w')"
      "case res of None \<Rightarrow> \<exists>w0. ?att ?m w0 = (None, w') | Some (p, n') \<Rightarrow> ?m \<le> n' \<and> n' \<le> ?d"
    using remap.returns [OF ok(6,8,2), of v "gc s" "getHeap r s" "os s"] by blast
  have page: "align_arg (pageSize (gc s))" using assms by (simp add: sizes_ok_def page_ok_def)
  from remap.result [OF loop(1) page _ ok(4,7,5), of "fst (os s)"]
  have out: "remap.outcome v (fst (os s)) (gc s) (getHeap r s) (pageSize (gc s)) (res, w')" by (simp add: same_mem_def)
  from remap_os.result [OF loop(1) page _ ok(4,7,5), of V "os s"]
  have view: "remap_os.outcome V v (os s) (pageSize (gc s)) (res, w')" by (simp add: same_os_def)
  have call: "remapHeap v r d m s = Some (finish_attempts r s (res, w'))"
    unfolding remapHeap_def Let_def by (simp only: loop(1) option.map)
  show thesis
  proof (cases res)
    case None
    then show thesis
      using that(1) [of w'] call out view by (simp add: finish_attempts_def remap.outcome_def remap_os.outcome_def)
  next
    case (Some pn)
    then obtain p n where pn: "res = Some (p, n)" by (cases pn) simp
    then have "?m \<le> n" "n \<le> ?d" "remapped_at v (gc s) (getHeap r s) (fst (os s)) n p w'"
      using loop(2) out by (simp_all add: remap.outcome_def)
    moreover have "m \<le> n" using ok(1) \<open>?m \<le> n\<close> by simp
    moreover have "unat n \<le> 2 ^ 62" using ok(3) \<open>n \<le> ?d\<close> by (simp add: word_le_nat_alt)
    ultimately show thesis using that(2) [of p n w'] call pn by (simp add: finish_attempts_def)
  qed
qed

lemma controls_setHeap [simp]: "controls (gc (setHeap r h s)) = controls (gc s)"
  by (cases r) simp_all

lemma controls_shrink [simp]: "controls (gc (shrinkHeap v r keep s)) = controls (gc s)"
  by (simp add: shrinkHeap_def releaseHeap_def Let_def)

lemma sizes_ok_gc:
  "pageSize g = pageSize (gc s) \<Longrightarrow> sizes_ok g d m = sizes_ok (gc s) d m"
  by (simp add: sizes_ok_def page_ok_def)

lemma pageSize_setHeap [simp]: "pageSize (gc (setHeap r h s)) = pageSize (gc s)"
  by (cases r) simp_all

lemma pageSize_shrink [simp]: "pageSize (gc (shrinkHeap v r keep s)) = pageSize (gc s)"
  by (simp add: shrinkHeap_def releaseHeap_def Let_def)

lemma getHeap_newHeap [simp]: "r \<noteq> NewHeap \<Longrightarrow> getHeap r (s\<lparr> newHeap := h \<rparr>) = getHeap r s"
  "getHeap NewHeap (s\<lparr> newHeap := h \<rparr>) = h"
  by (cases r) simp_all

lemma getHeap_translation [simp]: "getHeap r (s\<lparr> translation := t \<rparr>) = getHeap r s"
  by (cases r) simp_all

lemma copying_newHeap: "r \<noteq> NewHeap \<Longrightarrow> copying r cur W R (s\<lparr> newHeap := h \<rparr>) = copying r cur W R s"
  by (simp add: copying_def)

lemma record_NewHeap: "r \<noteq> NewHeap \<Longrightarrow> getHeap r (record_heap NewHeap p n s) = getHeap r s"
  by (cases r) (simp_all add: record_heap_def Let_def isSharedRef_def)

lemma copying_record: "r \<noteq> NewHeap \<Longrightarrow> copying r cur W R (record_heap NewHeap p n s) = copying r cur W R s"
  by (simp add: copying_def record_NewHeap)
    (simp add: record_heap_def Let_def isSharedRef_def page_ok_def heap_sized_def sizeofCardMapAndCrossMap_def
      sizeofCardMap_def sizeofCrossMap_def)

lemma newHeap_record: "newHeap (record_heap NewHeap p n s) = (newHeap s)\<lparr> h_start := p, h_size := n,
    withMapsSize := n + sizeofCardMapAndCrossMap (gc s) n \<rparr>"
  by (simp add: record_heap_def Let_def isSharedRef_def)

text \<open>The path through a new mapping.\<close>

lemma grow_new_mapping:
  assumes vm: "vm_ok v" and r: "r \<noteq> NewHeap" and cop: "copying r cur W L s"
    and p: "mapped_at v (gc s) (fst (os s)) n p w" and L: "L \<le> n" "unat n \<le> 2 ^ 62" "unat L \<le> W"
    and fresh: "disjnt_regions p (unat (n + sizeofCardMapAndCrossMap (gc s) n)) cur W"
    and orig: "\<forall>i<L. fst (os s) (cur + i) = orig i"
    and start: "L \<noteq> 0 \<Longrightarrow> h_start (getHeap r s) = cur"
  defines "s1 \<equiv> shrinkHeap v r L (record_heap NewHeap p n (s\<lparr> os := w \<rparr>))"
  defines "s2 \<equiv> grow_copy v r (h_start (getHeap r (record_heap NewHeap p n (s\<lparr> os := w \<rparr>))) + L) (p + L) L s1"
  shows "newHeap s2 = (newHeap s)\<lparr> h_start := p, h_size := n, withMapsSize := n + sizeofCardMapAndCrossMap (gc s) n \<rparr>"
    and "\<forall>i<L. fst (os s2) (p + i) = orig i"
proof -
  let ?s0 = "record_heap NewHeap p n (s\<lparr> os := w \<rparr>)"
  have page: "page_ok (gc s)" using cop by (simp add: copying_def)
  have nL: "unat L \<le> unat (n + sizeofCardMapAndCrossMap (gc s) n)"
    using total_size(1) [OF page L(2)] L(1) by (simp add: word_le_nat_alt)
  have disj: "disjnt_regions p (unat L) cur W" using fresh nL by (simp add: disjnt_regions_def)
  have cop0: "copying r cur W L ?s0" using cop r by (simp add: copying_record) (simp add: copying_def)
  have mem0: "fst (os ?s0) (cur + i) = orig i" if "i < L" for i
  proof -
    have "unat i < W" using that L(3) by (simp add: word_less_nat_alt)
    from disjnt_far [OF fresh this] have "n + sizeofCardMapAndCrossMap (gc s) n \<le> cur + i - p"
      by (simp add: word_le_nat_alt)
    then show ?thesis using p vm orig that by (simp add: mapped_at_def)
  qed
  have new1: "newHeap s1 = (newHeap s)\<lparr> h_start := p, h_size := n, withMapsSize := n + sizeofCardMapAndCrossMap (gc s) n \<rparr>"
    using r by (simp add: s1_def newHeap_record)
  have mem1: "\<forall>i<L. fst (os s1) (cur + i) = orig i"
    using mem0 by (simp add: s1_def shrink_copying_mem [OF vm cop0])
  have cop1: "copying r cur W L s1" unfolding s1_def by (rule copying_shrink [OF cop0]) simp
  have from_eq: "h_start (getHeap r ?s0) + L = cur + L" if "L \<noteq> 0"
    using start [OF that] r by (simp add: record_NewHeap)
  have s2: "s2 = grow_copy v r (cur + L) (p + L) L s1"
  proof (cases "L = 0")
    case True
    then show ?thesis unfolding s2_def
      by (subst (1 2) grow_copy.simps) (simp add: COPY_CHUNK_SIZE_def)
  qed (simp add: s2_def from_eq)
  have "newHeap s2 = newHeap s1 \<and> (\<forall>i<L. fst (os s2) (p + i) = orig i)"
    unfolding s2 using new1 by (intro grow_copy_data [OF vm r _ disj L(3) _ cop1 _ mem1]) auto
  then show "newHeap s2 = (newHeap s)\<lparr> h_start := p, h_size := n, withMapsSize := n + sizeofCardMapAndCrossMap (gc s) n \<rparr>"
    "\<forall>i<L. fst (os s2) (p + i) = orig i" using new1 by simp_all
qed

lemma newHeap_grow_copy: "r \<noteq> NewHeap \<Longrightarrow> newHeap (grow_copy v r from to R s) = newHeap s"
proof (induction v r "from" to R s rule: grow_copy.induct)
  case (1 v r "from" to R s)
  then show ?case by (subst grow_copy.simps) (simp add: Let_def)
qed

text \<open>The live bytes of a heap, and where they are.\<close>

definition live_at :: "'o os_view \<Rightarrow> heap_ref \<Rightarrow> pointer \<Rightarrow> size_t \<Rightarrow> (size_t \<Rightarrow> u8) \<Rightarrow> 'o heaps \<Rightarrow> bool" where
  "live_at V r cur L orig s \<longleftrightarrow> page_ok (gc s) \<and> (L \<noteq> 0 \<longrightarrow> h_start (getHeap r s) = cur \<and>
    heap_sized (gc s) (getHeap r s) \<and> L \<le> h_size (getHeap r s) \<and> heap_mapped V r s) \<and>
    (\<forall>i<L. fst (os s) (cur + i) = orig i)"

lemma live_at_newHeap: "r \<noteq> NewHeap \<Longrightarrow> live_at V r cur L orig (s\<lparr> newHeap := h \<rparr>) = live_at V r cur L orig s"
  by (simp add: live_at_def heap_mapped_def)

lemma live_at_os:
  "live_at V r cur L orig s \<Longrightarrow> fst w = fst (os s) \<Longrightarrow> mapped V (snd w) = mapped V (snd (os s)) \<Longrightarrow>
    live_at V r cur L orig (s\<lparr> os := w \<rparr>)"
proof -
  assume w: "fst w = fst (os s)" "mapped V (snd w) = mapped V (snd (os s))" and "live_at V r cur L orig s"
  moreover have "heap_mapped V r (s\<lparr> os := w \<rparr>) = heap_mapped V r s" using w by (simp add: heap_mapped_def)
  ultimately show ?thesis by (simp add: live_at_def)
qed

lemma live_at_shrink:
  assumes "vm_ok v" "os_ok V v" "live_at V r cur L orig s"
  shows "live_at V r cur L orig (shrinkHeap v r L s)"
proof (cases "L = 0")
  case False
  then have l: "page_ok (gc s)" "h_start (getHeap r s) = cur" "heap_sized (gc s) (getHeap r s)" "L \<le> h_size (getHeap r s)"
      "heap_mapped V r s" "\<forall>i<L. fst (os s) (cur + i) = orig i"
    using assms(3) by (simp_all add: live_at_def)
  have "fst (os (shrinkHeap v r L s)) (cur + i) = orig i" if "i < L" for i
    using shrinkHeap_mem [OF assms(1) l(1,3,4), of "cur + i"] that l(2,6) by simp
  then show ?thesis
    using shrinkHeap_heap [OF l(1,3) False] shrinkHeap_mapped [OF assms(2) l(1,3) False l(5)] l by (simp add: live_at_def)
qed (use assms(3) in \<open>simp add: live_at_def\<close>)

lemma fresh_disjnt:
  assumes "\<forall>x. x - p < n \<longrightarrow> x \<notin> M" "\<forall>i<k. a + i \<in> M" "0 < n" "0 < k"
  shows "disjnt_regions p (unat n) a (unat k)"
proof -
  have "\<not> a - p < n" using assms(1) assms(2) [rule_format, of 0] assms(4) by auto
  moreover have "\<not> p - a < k" using assms(1) [rule_format, of p] assms(2) [rule_format, of "p - a"] assms(3) by auto
  ultimately show ?thesis by (simp add: disjnt_regions_def word_le_nat_alt not_less)
qed

lemma grow_to_new:
  fixes s :: "'o heaps"
  assumes vm: "vm_ok v" and os: "os_ok V v" and r: "r \<noteq> NewHeap" and live: "live_at V r cur L orig s"
    and p: "mapped_at v (gc s) (fst (os s)) n p w" "fresh_at V v (gc s) (os s) n p w" and n: "L \<le> n" "unat n \<le> 2 ^ 62"
  defines "s0 \<equiv> record_heap NewHeap p n (s\<lparr> os := w \<rparr>)"
  defines "s2 \<equiv> grow_copy v r (h_start (getHeap r s0) + L) (p + L) L (shrinkHeap v r L s0)"
  shows "newHeap s2 = (newHeap s)\<lparr> h_start := p, h_size := n, withMapsSize := n + sizeofCardMapAndCrossMap (gc s) n \<rparr>"
    and "\<forall>i<L. fst (os s2) (p + i) = orig i"
proof -
  show "newHeap s2 = (newHeap s)\<lparr> h_start := p, h_size := n, withMapsSize := n + sizeofCardMapAndCrossMap (gc s) n \<rparr>"
    unfolding s2_def s0_def using r by (simp add: newHeap_grow_copy newHeap_record)
  show "\<forall>i<L. fst (os s2) (p + i) = orig i"
  proof (cases "L = 0")
    case False
    let ?W = "withMapsSize (getHeap r s)" and ?N = "n + sizeofCardMapAndCrossMap (gc s) n"
    have l: "page_ok (gc s)" "h_start (getHeap r s) = cur" "heap_sized (gc s) (getHeap r s)" "L \<le> h_size (getHeap r s)"
        "heap_mapped V r s" "\<forall>i<L. fst (os s) (cur + i) = orig i"
      using live False by (simp_all add: live_at_def)
    have W: "unat L \<le> unat ?W"
      using total_size(1) [OF l(1), of "h_size (getHeap r s)"] l(3,4) by (simp add: heap_sized_def word_le_nat_alt)
    have "0 < unat L" using False by (simp add: unat_gt_0)
    moreover have "unat L \<le> unat ?N" using total_size(1) [OF l(1) n(2)] n(1) by (simp add: word_le_nat_alt)
    ultimately have pos: "0 < ?N" "0 < ?W" using W by (simp_all add: word_less_nat_alt)
    have "disjnt_regions p (unat ?N) cur (unat ?W)"
      using p(2) os l(2,5) by (intro fresh_disjnt [OF _ _ pos]) (simp_all add: fresh_at_def heap_mapped_def)
    moreover have "copying r cur (unat ?W) L s" using l by (simp add: copying_def)
    ultimately show ?thesis
      using grow_new_mapping(2) [OF vm r _ p(1) n W _ l(6,2)] by (simp add: s2_def s0_def)
  qed simp
qed

text \<open>What growing must deliver: the live bytes at the start of the heap, in at least the
  size asked for unless the current heap was large enough.\<close>

definition grown :: "heap_ref \<Rightarrow> size_t \<Rightarrow> size_t \<Rightarrow> size_t \<Rightarrow> (size_t \<Rightarrow> u8) \<Rightarrow> 'o heaps \<Rightarrow> bool" where
  "grown r L M m orig s \<longleftrightarrow> oldGenSize (getHeap r s) = L \<and>
    (M \<le> h_size (getHeap r s) \<or> m \<le> h_size (getHeap r s)) \<and>
    (\<forall>i<L. fst (os s) (h_start (getHeap r s) + i) = orig i)"

lemma grow_paged_keeps:
  fixes s :: "'o heaps"
  assumes os: "os_ok V v" and live: "live_at V r cur L orig s" and sizes: "sizes_ok (gc s) d m"
  shows "\<exists>res. grow_paged v r L d m s = Some res \<and> (case res of Inl e \<Rightarrow> True | Inr s' \<Rightarrow> grown r L M m orig s')"
proof -
  define s1 where "s1 = s\<lparr> os := GC_diskBack_write v (h_start (getHeap r s)) L (os s) \<rparr>"
  define s2 where "s2 = releaseHeap v r s1"
  have disk: "on_disk V (snd (os s2)) i = orig i" if i: "i < L" for i
  proof -
    have "L \<noteq> 0" using i by auto
    then have "h_start (getHeap r s) = cur" "fst (os s) (cur + i) = orig i" using live i by (simp_all add: live_at_def)
    then have "on_disk V (snd (os s1)) i = orig i"
      using os_okD(7) [OF os i, of "h_start (getHeap r s)" "os s"] by (simp add: s1_def)
    then show ?thesis by (simp add: s2_def releaseHeap_def Let_def os_okD(5) [OF os])
  qed
  have gp: "grow_paged v r L d m s = Option.bind (createHeap v r d m s2) (\<lambda>(ok, s).
       if ok then
         (let w = GC_diskBack_read v (h_start (getHeap r s)) L (os s);
              s = s\<lparr> os := GC_diskBack_close v w \<rparr> in
          Some (Inr (setHeap r ((getHeap r s)\<lparr> oldGenSize := L \<rparr>) s)))
       else Some (Inl (Unable_to_allocate m)))"
    by (simp only: grow_paged_def Let_def s1_def [symmetric] s2_def [symmetric])
  have "pageSize (gc s2) = pageSize (gc s)" by (simp add: s2_def s1_def releaseHeap_def Let_def)
  then have sizes2: "sizes_ok (gc s2) d m" using sizes sizes_ok_gc [of "gc s2" s] by simp
  show ?thesis
  proof (rule createHeap_cases [OF sizes2, of v r V])
    fix w assume c: "createHeap v r d m s2 = Some (False, s2\<lparr> os := w \<rparr>)"
    show ?thesis by (intro exI [of _ "Inl (Unable_to_allocate m)"]) (simp add: gp c)
  next
    fix p n w
    let ?s = "record_heap r p n (s2\<lparr> os := w \<rparr>)"
    let ?w = "GC_diskBack_close v (GC_diskBack_read v p L w)"
    let ?t = "setHeap r ((getHeap r ?s)\<lparr> oldGenSize := L \<rparr>) (?s\<lparr> os := ?w \<rparr>)"
    assume c: "createHeap v r d m s2 = Some (True, ?s)" "m \<le> n" and f: "fresh_at V v (gc s2) (os s2) n p w"
    have eq: "grow_paged v r L d m s = Some (Inr ?t)" by (simp add: gp c(1) Let_def)
    have "fst ?w (p + i) = orig i" if "i < L" for i
      using os_okD(8) [OF os that, of p w] f os disk [OF that] by (simp add: os_okD(9) [OF os] fresh_at_def)
    then have "grown r L M m orig ?t" using c(2) by (simp add: grown_def)
    then show ?thesis using eq by (intro exI [of _ "Inr ?t"]) simp
  qed
qed

lemma grow_without_remap_keeps:
  fixes s :: "'o heaps"
  assumes vm: "vm_ok v" and os: "os_ok V v" and r: "r \<noteq> NewHeap"
    and live: "live_at V r (h_start (getHeap r s)) L orig s"
    and L: "L = oldGenSize (getHeap r s)" "L \<le> m"
    and sizes: "sizes_ok (gc s) d m"
    and use: "use \<longleftrightarrow> M \<le> h_size (getHeap r s)"
  shows "\<exists>res. grow_without_remap v r use L d m s = Some res \<and>
    (case res of Inl e \<Rightarrow> \<not> use | Inr s' \<Rightarrow> grown r L M m orig s')"
proof -
  let ?cur = "h_start (getHeap r s)"
  define s1 where "s1 = (if \<not> use then shrinkHeap v r L s else s)"
  define s2 where "s2 = s1\<lparr> newHeap := initHeap (h_kind (getHeap r s1)) \<rparr>"
  have "live_at V r ?cur L orig s1" using live live_at_shrink [OF vm os live] by (simp add: s1_def)
  then have live2: "live_at V r ?cur L orig s2" using r by (simp add: live_at_newHeap s2_def)
  have gc2: "controls (gc s2) = controls (gc s)" "pageSize (gc s2) = pageSize (gc s)" by (simp_all add: s2_def s1_def)
  then have sizes2: "sizes_ok (gc s2) d m" using sizes sizes_ok_gc [of "gc s2" s] by simp
  note grow = grow_without_remap_def Let_def s1_def [symmetric] s2_def [symmetric]
  show ?thesis
  proof (rule createHeap_cases [OF sizes2, of v NewHeap V])
    fix w
    let ?s = "s2\<lparr> os := w \<rparr>"
    assume c: "createHeap v NewHeap d m s2 = Some (False, ?s)" and same: "same_mem v (fst (os s2)) w" "same_os V v (os s2) w"
    show ?thesis
    proof (cases use)
      case True
      have "grown r L M m orig ?s"
        using True use L(1) r same(1) vm live2 by (simp add: grown_def s2_def s1_def same_mem_def live_at_def)
      then show ?thesis unfolding grow c using True by (intro exI [of _ "Inr ?s"]) simp
    next
      case False
      show ?thesis
      proof (cases "mayPageHeap (controls (gc s))")
        case True
        have "live_at V r ?cur L orig ?s"
          using same vm os by (intro live_at_os [OF live2]) (simp_all add: same_mem_def same_os_def)
        moreover have "sizes_ok (gc ?s) d m" using sizes2 by simp
        ultimately obtain res where "grow_paged v r L d m ?s = Some res"
            "case res of Inl e \<Rightarrow> True | Inr s' \<Rightarrow> grown r L M m orig s'"
          using grow_paged_keeps [OF os] by blast
        moreover have "grow_without_remap v r use L d m s = grow_paged v r L d m ?s"
          unfolding grow c using False True gc2(1) by simp
        ultimately show ?thesis using False by (intro exI [of _ res]) (simp split: sum.splits)
      next
        case np: False
        then show ?thesis
          unfolding grow c using False gc2(1) by (intro exI [of _ "Inl (Unable_to_allocate m)"]) simp
      qed
    qed
  next
    fix p n w
    let ?s3 = "record_heap NewHeap p n (s2\<lparr> os := w \<rparr>)"
    assume c: "createHeap v NewHeap d m s2 = Some (True, ?s3)" "m \<le> n" "unat n \<le> 2 ^ 62"
      and p: "mapped_at v (gc s2) (fst (os s2)) n p w" "fresh_at V v (gc s2) (os s2) n p w"
    define s4 where "s4 = grow_copy v r (h_start (getHeap r ?s3) + L) (p + L) L (shrinkHeap v r L ?s3)"
    define s5 where "s5 = s4\<lparr> newHeap := (newHeap s4)\<lparr> oldGenSize := L \<rparr> \<rparr>"
    have "L \<le> n" using L(2) c(2) by simp
    note new4 = grow_to_new [OF vm os r live2 p this c(3), folded s4_def]
    have "h_start (newHeap ?s3) = p" by (simp add: newHeap_record)
    then have "grow_without_remap v r use L d m s = Some (Inr (setHeap r (newHeap s5) s5))"
      using c(1) unfolding grow by (simp add: s4_def s5_def)
    moreover have "grown r L M m orig (setHeap r (newHeap s5) s5)"
      using new4 c(2) by (simp add: grown_def s5_def)
    ultimately show ?thesis by (intro exI [of _ "Inr (setHeap r (newHeap s5) s5)"]) simp
  qed
qed

text \<open>C8: \<open>growHeap\<close> returns and never loses live data: with system calls that behave as
  documented (\<open>vm_ok\<close>, \<open>os_ok\<close>: a fresh mapping has no byte that is mapped at that moment),
  a heap that is mapped, and a back-off that cannot wrap around (\<open>sizes_ok\<close>), it either dies for lack of memory,
  which it does only when the heap was too small, or leaves a heap whose live bytes are the
  old ones, wherever it has moved: remapped, kept as it was, copied chunk by chunk from
  the end while the space behind is given back, or, where paging is allowed, written to the disk
  and read back. Its size is the one asked for or more, and if it has moved the translation of the
  pointers is asked for.\<close>

theorem growHeap_keeps_data:
  assumes "vm_ok v" and "r \<noteq> NewHeap" and "heap_sized (gc s) (getHeap r s)"
    and "m = (if minSize \<le> h_size (getHeap r s) then desiredSize div 2 + h_size (getHeap r s) div 2 else minSize)"
    and "sizes_ok (gc s) desiredSize m"
    and "L = oldGenSize (getHeap r s)" and "L \<le> h_size (getHeap r s)" and "L \<le> m"
    and "os_ok V v" and "heap_mapped V r s"
  shows "\<exists>res. growHeap v r desiredSize minSize s = Some res \<and>
    (case res of
       Inl e \<Rightarrow> h_size (getHeap r s) < minSize
     | Inr s' \<Rightarrow> grown r L minSize m (\<lambda>i. fst (os s) (h_start (getHeap r s) + i)) s' \<and>
         (h_start (getHeap r s') \<noteq> h_start (getHeap r s) \<longrightarrow>
           translation s' = Some (r, h_start (getHeap r s), h_start (getHeap r s'), L)))"
proof -
  let ?h = "getHeap r s" and ?orig = "\<lambda>i. fst (os s) (h_start (getHeap r s) + i)"
  let ?use = "minSize \<le> h_size ?h"
  let ?moved = "\<lambda>s'. if h_start ?h = h_start (getHeap r s') then s'
    else s'\<lparr> translation := Some (r, h_start ?h, h_start (getHeap r s'), oldGenSize (getHeap r s')) \<rparr>"
  have grow: "growHeap v r desiredSize minSize s = Option.bind (remapHeap v r desiredSize m s) (\<lambda>(ok, s).
     Option.bind (if ok then Some (Inr s) else grow_without_remap v r ?use L desiredSize m s)
       (\<lambda>res. Some (map_sum id ?moved res)))"
    by (simp only: growHeap_def Let_def assms(4,6))
  have fin: "grown r L minSize m ?orig (?moved s') \<and> (h_start (getHeap r (?moved s')) \<noteq> h_start ?h \<longrightarrow>
      translation (?moved s') = Some (r, h_start ?h, h_start (getHeap r (?moved s')), L))"
    if "grown r L minSize m ?orig s'" for s'
    using that by (simp add: grown_def)
  show ?thesis
  proof (rule remapHeap_cases [OF assms(5), of v r V])
    fix w
    let ?s = "s\<lparr> os := w \<rparr>"
    assume rm: "remapHeap v r desiredSize m s = Some (False, ?s)"
      and same: "same_mem v (fst (os s)) w" "same_os V v (os s) w"
    have live: "live_at V r (h_start (getHeap r ?s)) L ?orig ?s"
      using assms same by (simp add: live_at_def same_mem_def same_os_def heap_mapped_def sizes_ok_def)
    have "\<exists>res. grow_without_remap v r ?use L desiredSize m ?s = Some res \<and>
      (case res of Inl e \<Rightarrow> \<not> ?use | Inr s' \<Rightarrow> grown r L minSize m ?orig s')"
      by (rule grow_without_remap_keeps [OF assms(1,9,2) live]) (use assms in simp_all)
    then obtain res where res: "grow_without_remap v r ?use L desiredSize m ?s = Some res"
      "case res of Inl e \<Rightarrow> \<not> ?use | Inr s' \<Rightarrow> grown r L minSize m ?orig s'" by blast
    have eq: "growHeap v r desiredSize minSize s = Some (map_sum id ?moved res)"
      unfolding grow rm by (simp add: res(1))
    show ?thesis
    proof (cases res)
      case (Inl e)
      then show ?thesis using eq res(2) by (simp add: not_le)
    next
      case (Inr b)
      then have "grown r L minSize m ?orig b" using res(2) by simp
      note moved = fin [OF this]
      have "growHeap v r desiredSize minSize s = Some (Inr (?moved b))"
        unfolding eq Inr by (simp only: map_sum.simps)
      from conjI [OF this moved] show ?thesis by (intro exI [of _ "Inr (?moved b)"]) (unfold sum.case)
    qed
  next
    fix p n w
    let ?s = "record_heap r p n (s\<lparr> os := w \<rparr>)"
    assume rm: "remapHeap v r desiredSize m s = Some (True, ?s)" "m \<le> n" "unat n \<le> 2 ^ 62"
      and p: "remapped_at v (gc s) ?h (fst (os s)) n p w"
    have pok: "page_ok (gc s)" using assms(5) by (simp add: sizes_ok_def)
    have "L \<le> n" using assms(8) rm(2) by simp
    then have bound: "unat L \<le> unat (n + sizeofCardMapAndCrossMap (gc s) n)"
      "unat L \<le> unat (h_size ?h + sizeofCardMapAndCrossMap (gc s) (h_size ?h))"
      using total_size(1) [OF pok rm(3)] total_size(1) [OF pok, of "h_size ?h"] assms(3,7)
      by (simp_all add: heap_sized_def word_le_nat_alt)
    have "fst w (p + i) = ?orig i" if "i < L" for i
      using p assms(1) bound that by (simp add: remapped_at_def word_less_nat_alt)
    then have "grown r L minSize m ?orig ?s" using rm(2) assms(6) by (simp add: grown_def)
    note moved = fin [OF this]
    have "growHeap v r desiredSize minSize s = Some (Inr (?moved ?s))"
      unfolding grow rm(1) by (simp only: Option.bind.simps prod.case if_True map_sum.simps)
    from conjI [OF this moved] show ?thesis by (intro exI [of _ "Inr (?moved ?s)"]) (unfold sum.case)
  qed
qed

section \<open>Witnesses\<close>

text \<open>A system that maps everything up to a gigabyte at \<open>2^32\<close>, cannot remap, and has a disk.\<close>

definition demo_vm :: "(size_t \<Rightarrow> u8) vm" where
  "demo_vm = \<lparr> GC_mmapAnon = (\<lambda>a n w. (if n \<le> 1073741824 then 4294967296 else MAP_FAILED, w)),
     GC_mremap = (\<lambda>a n n' w. (MAP_FAILED, w)), GC_release = (\<lambda>a n w. w),
     GC_diskBack_write = (\<lambda>a n (m, disk). (m, \<lambda>i. m (a + i))),
     GC_diskBack_read = (\<lambda>a n (m, disk). (\<lambda>x. if x - a < n then disk (x - a) else m x, disk)),
     GC_diskBack_close = (\<lambda>w. w) \<rparr>"

definition demo_view :: "(size_t \<Rightarrow> u8) os_view" where
  "demo_view = \<lparr> mapped = (\<lambda>_. {x. x < 1048576}), on_disk = (\<lambda>disk. disk) \<rparr>"

definition demo_heaps :: "(size_t \<Rightarrow> u8) heaps" where
  "demo_heaps = \<lparr> gc = demo_state, newHeap = initHeap LOCAL_HEAP, os = (demo_gen_mem, \<lambda>_. 0), translation = None \<rparr>"

lemma demo_page: "pageSize (gc demo_heaps) = 4096" "align_arg (4096 :: u64)" "page_ok (gc demo_heaps)"
proof -
  show "pageSize (gc demo_heaps) = 4096" by (simp add: demo_heaps_def demo_state_def)
  moreover show "align_arg (4096 :: u64)" unfolding align_arg_pow2 by (rule exI [of _ 12]) simp
  ultimately show "page_ok (gc demo_heaps)" by (simp add: page_ok_def)
qed

lemma demo_vm_ok: "vm_ok demo_vm"
  by (simp add: vm_ok_def demo_vm_def)

lemma demo_os_ok: "os_ok demo_view demo_vm"
proof -
  have "\<not> x < 1048576" if "x - 4294967296 < n" "n \<le> 1073741824" for x n :: u64
  proof
    assume "x < 1048576"
    then have "unat (x - 4294967296) = unat x + 2 ^ 64 - 4294967296"
      by (subst unat_sub_if') (simp add: word_less_nat_alt word_le_nat_alt)
    then show False using that by (simp add: word_less_nat_alt word_le_nat_alt)
  qed
  then show ?thesis by (auto simp: os_ok_def demo_vm_def demo_view_def split: if_splits)
qed

lemma demo_backoff: "backoff_of 4096 8192 4096 = 4096" "align 8192 4096 = (8192 :: u64)" "align 4096 4096 = (4096 :: u64)"
  by (simp_all add: backoff_of_def align_def)

lemma createHeap_correct_witness:
  "\<exists>ok s'. createHeap demo_vm SecondaryLocal 8192 4096 demo_heaps = Some (ok, s')"
  using createHeap_correct [of demo_heaps 8192 4096 4096 8192 demo_vm SecondaryLocal] demo_page demo_backoff
  by (auto simp: max_def)

lemma growHeap_keeps_data_witness:
  "\<exists>res. growHeap demo_vm Heap 8192 4096 demo_heaps = Some res"
proof -
  have maps: "sizeofCardMapAndCrossMap demo_state 1024 = 8192"
    by (simp add: sizeofCardMapAndCrossMap_def sizeofCardMap_def sizeofCrossMap_def index_defs CARD_SIZE_LOG2_def
        CARD_MAP_ELEM_SIZE_def CROSS_MAP_ELEM_SIZE_def demo_state_def align_def)
  have h: "getHeap Heap demo_heaps = demo_heap LOCAL_HEAP 4096 1024" "gc demo_heaps = demo_state"
    by (simp_all add: demo_heaps_def demo_state_def)
  have sized: "heap_sized (gc demo_heaps) (getHeap Heap demo_heaps)"
    unfolding h heap_sized_def by (simp add: demo_heap_def maps)
  have sizes: "sizes_ok (gc demo_heaps) 8192 4096"
    using demo_page demo_backoff by (simp add: sizes_ok_def)
  have map: "heap_mapped demo_view Heap demo_heaps"
  proof -
    have "4096 + i < 1048576" if "i < 9216" for i :: u64
    proof -
      have "unat (4096 + i) = 4096 + unat i" using that unat_add_lem [of 4096 i] by (simp add: word_less_nat_alt)
      then show ?thesis using that by (simp add: word_less_nat_alt)
    qed
    then show ?thesis unfolding heap_mapped_def h by (simp add: demo_heap_def demo_view_def)
  qed
  have "4096 = (if 4096 \<le> h_size (getHeap Heap demo_heaps)
      then 8192 div 2 + h_size (getHeap Heap demo_heaps) div 2 else 4096)"
    "oldGenSize (getHeap Heap demo_heaps) \<le> h_size (getHeap Heap demo_heaps)"
    "oldGenSize (getHeap Heap demo_heaps) \<le> 4096"
    unfolding h by (simp_all add: demo_heap_def)
  then show ?thesis
    using growHeap_keeps_data [OF demo_vm_ok _ sized _ sizes refl _ _ demo_os_ok map, of 4096] by blast
qed

end
