(* ===== verification/Critical_Section.thy ===== *)
theory Critical_Section
  imports Prelude
begin

text \<open>
  How the processors synchronise: initialisation and the critical section of
  \<open>gc/processor.c\<close>, in which the processors run one after the other once all have come,
  and the locks and atomic operations of \<open>gc/parallel.c\<close>. Every atomic access to a shared
  variable is a step of its own of one processor, and the steps of the processors
  interleave in any order; a test of a spin loop that fails is no step.
\<close>

section \<open>gc/processor.c\<close>

text \<open>Where a processor is. \<open>Boot\<close> and \<open>BootCS\<close>: processor 0 alone, before
  \<open>Proc_signalInitialization\<close>, outside and inside a section; \<open>Signal1\<close> to \<open>Signal3\<close>: it has
  made that many of the four assignments there; \<open>WaitBegin\<close> and \<open>WaitAll\<close>: in the two spin
  loops of \<open>Proc_waitForInitialization\<close>, the second one also that of
  \<open>Proc_signalInitialization\<close>; \<open>Entered p\<close>: the increment of \<open>Proc_criticalCount\<close> gave \<open>p\<close>;
  \<open>Waiting\<close>: in the spin loop for its turn; \<open>InCS\<close>: between \<open>Proc_beginCriticalSection\<close> and
  \<open>Proc_endCriticalSection\<close>; \<open>Ended p\<close>: the increment of \<open>Proc_criticalTicket\<close> gave \<open>p\<close>;
  \<open>Resetting\<close>: between the two resets; \<open>Leaving\<close>: in the last spin loop; \<open>Out\<close>: elsewhere.\<close>

datatype proc_pc =
    Boot | BootCS | Signal1 | Signal2 | Signal3 | WaitBegin | WaitAll | Out
  | Entered int | Waiting | InCS | Ended int | Resetting | Leaving

record proc_state =
  Proc_beginInit :: bool
  Proc_initialized :: int
  Proc_criticalCount :: int
  Proc_criticalTicket :: int
  pc :: "nat \<Rightarrow> proc_pc"

text \<open>\<open>__sync_add_and_fetch\<close> on an \<open>int32_t\<close> wraps around.\<close>

definition incr32 :: "int \<Rightarrow> int" where
  "incr32 x = sint (word_of_int (x + 1) :: 32 word)"

definition Proc_isInitialized :: "nat \<Rightarrow> proc_state \<Rightarrow> bool" where
  "Proc_isInitialized numberOfProcs s \<longleftrightarrow> Proc_initialized s = int numberOfProcs"

definition Proc_threadInSection :: "proc_state \<Rightarrow> bool" where
  "Proc_threadInSection s \<longleftrightarrow> Proc_criticalCount s > 0"

definition Proc_executingInSection :: "proc_state \<Rightarrow> bool" where
  "Proc_executingInSection s \<longleftrightarrow> Proc_criticalTicket s \<ge> 0"

definition goto :: "nat \<Rightarrow> proc_pc \<Rightarrow> proc_state \<Rightarrow> proc_state" where
  "goto i l s = s\<lparr>pc := (pc s)(i := l)\<rparr>"

definition Proc_init :: proc_state where
  "Proc_init = \<lparr> Proc_beginInit = False, Proc_initialized = 0, Proc_criticalCount = 0,
     Proc_criticalTicket = 0, pc = (\<lambda>i. if i = 0 then Boot else WaitBegin) \<rparr>"

text \<open>The timers that the first and last processors run, and the wake-up calls of the first
  one, change none of these variables.\<close>

inductive proc_step :: "nat \<Rightarrow> nat \<Rightarrow> proc_state \<Rightarrow> proc_state \<Rightarrow> bool" for N i where
  boot_begin: "pc s i = Boot \<Longrightarrow> \<not> Proc_isInitialized N s \<Longrightarrow>
    proc_step N i s (goto i BootCS (s\<lparr>Proc_criticalCount := 1\<rparr>))"
| boot_end: "pc s i = BootCS \<Longrightarrow> \<not> Proc_isInitialized N s \<Longrightarrow>
    proc_step N i s (goto i Boot (s\<lparr>Proc_criticalCount := 0\<rparr>))"
| signal_ticket: "pc s i = Boot \<Longrightarrow> proc_step N i s (goto i Signal1 (s\<lparr>Proc_criticalTicket := - 1\<rparr>))"
| signal_count: "pc s i = Signal1 \<Longrightarrow> proc_step N i s (goto i Signal2 (s\<lparr>Proc_criticalCount := 0\<rparr>))"
| signal_self: "pc s i = Signal2 \<Longrightarrow> proc_step N i s (goto i Signal3 (s\<lparr>Proc_initialized := 1\<rparr>))"
| signal_begin: "pc s i = Signal3 \<Longrightarrow> proc_step N i s (goto i WaitAll (s\<lparr>Proc_beginInit := True\<rparr>))"
| check_in: "pc s i = WaitBegin \<Longrightarrow> Proc_beginInit s \<Longrightarrow>
    proc_step N i s (goto i WaitAll (s\<lparr>Proc_initialized := incr32 (Proc_initialized s)\<rparr>))"
| ready: "pc s i = WaitAll \<Longrightarrow> Proc_isInitialized N s \<Longrightarrow> proc_step N i s (goto i Out s)"
| arrive: "pc s i = Out \<Longrightarrow> Proc_isInitialized N s \<Longrightarrow>
    proc_step N i s (goto i (Entered (incr32 (Proc_criticalCount s)))
      (s\<lparr>Proc_criticalCount := incr32 (Proc_criticalCount s)\<rparr>))"
| open_section: "pc s i = Entered p \<Longrightarrow> p = int N \<Longrightarrow>
    proc_step N i s (goto i Waiting (s\<lparr>Proc_criticalTicket := 0\<rparr>))"
| not_last: "pc s i = Entered p \<Longrightarrow> p \<noteq> int N \<Longrightarrow> proc_step N i s (goto i Waiting s)"
| my_turn: "pc s i = Waiting \<Longrightarrow> Proc_criticalTicket s = int i \<Longrightarrow> proc_step N i s (goto i InCS s)"
| pass_on: "pc s i = InCS \<Longrightarrow> Proc_isInitialized N s \<Longrightarrow>
    proc_step N i s (goto i (Ended (incr32 (Proc_criticalTicket s)))
      (s\<lparr>Proc_criticalTicket := incr32 (Proc_criticalTicket s)\<rparr>))"
| reset_count: "pc s i = Ended p \<Longrightarrow> p = int N \<Longrightarrow>
    proc_step N i s (goto i Resetting (s\<lparr>Proc_criticalCount := 0\<rparr>))"
| reset_ticket: "pc s i = Resetting \<Longrightarrow>
    proc_step N i s (goto i Leaving (s\<lparr>Proc_criticalTicket := - 1\<rparr>))"
| not_last_out: "pc s i = Ended p \<Longrightarrow> p \<noteq> int N \<Longrightarrow> proc_step N i s (goto i Leaving s)"
| depart: "pc s i = Leaving \<Longrightarrow> Proc_criticalTicket s < 0 \<Longrightarrow> proc_step N i s (goto i Out s)"

inductive proc_reachable :: "nat \<Rightarrow> proc_state \<Rightarrow> bool" for N where
  proc_start: "proc_reachable N Proc_init"
| proc_next: "proc_reachable N s \<Longrightarrow> i < N \<Longrightarrow> proc_step N i s s' \<Longrightarrow> proc_reachable N s'"

lemmas proc_simps = goto_def Proc_isInitialized_def Proc_threadInSection_def Proc_executingInSection_def

lemma incr32_eq: "- (2 ^ 31) \<le> x \<Longrightarrow> x < 2 ^ 31 - 1 \<Longrightarrow> incr32 x = x + 1"
  unfolding incr32_def by (rule sint_word_of_int_fits) (simp add: sfits_def)

section \<open>The invariant\<close>

definition arrived :: "nat \<Rightarrow> proc_pc \<Rightarrow> bool" where
  "arrived N l \<longleftrightarrow> l = Waiting \<or> (\<exists>p. l = Entered p)"

definition finished :: "nat \<Rightarrow> proc_pc \<Rightarrow> bool" where
  "finished N l \<longleftrightarrow> l = Leaving \<or> (\<exists>p. l = Ended p \<and> p \<noteq> int N)"

definition away :: "nat \<Rightarrow> proc_pc \<Rightarrow> bool" where
  "away N l \<longleftrightarrow> finished N l \<or> l = Out \<or> l = WaitAll"

lemmas pc_simps = arrived_def finished_def away_def

text \<open>Before all processors have checked in.\<close>

definition booting :: "nat \<Rightarrow> proc_state \<Rightarrow> bool" where
  "booting N s \<longleftrightarrow>
    (\<forall>i. 0 < i \<and> i < N \<longrightarrow> pc s i = WaitBegin \<or> pc s i = WaitAll \<and> Proc_beginInit s) \<and>
    (if Proc_beginInit s
     then pc s 0 = WaitAll \<and> Proc_initialized s = int (card {i. i < N \<and> pc s i = WaitAll}) \<and>
       Proc_initialized s < int N \<and> Proc_criticalTicket s = - 1 \<and> Proc_criticalCount s = 0
     else pc s 0 \<in> {Boot, BootCS, Signal1, Signal2, Signal3} \<and>
       Proc_initialized s = (if pc s 0 = Signal3 then 1 else 0) \<and>
       (pc s 0 \<in> {Signal1, Signal2, Signal3} \<longrightarrow> Proc_criticalTicket s = - 1) \<and>
       (pc s 0 \<in> {Signal2, Signal3} \<longrightarrow> Proc_criticalCount s = 0))"

text \<open>No section is open; some processors wait for the others.\<close>

definition gathering :: "nat \<Rightarrow> proc_state \<Rightarrow> bool" where
  "gathering N s \<longleftrightarrow> Proc_initialized s = int N \<and> Proc_criticalTicket s = - 1 \<and>
    (\<forall>i<N. arrived N (pc s i) \<or> away N (pc s i)) \<and>
    Proc_criticalCount s = int (card {i. i < N \<and> arrived N (pc s i)}) \<and>
    (\<forall>i<N. \<forall>p. pc s i = Entered p \<longrightarrow> p \<le> Proc_criticalCount s) \<and>
    (Proc_criticalCount s = int N \<longrightarrow> (\<exists>i<N. pc s i = Entered (int N))) \<and>
    (\<forall>i<N. \<forall>j<N. pc s i = Entered (int N) \<longrightarrow> pc s j = Entered (int N) \<longrightarrow> i = j)"

text \<open>All have come, and processor number \<open>ticket\<close> has its turn.\<close>

definition running :: "nat \<Rightarrow> proc_state \<Rightarrow> bool" where
  "running N s \<longleftrightarrow> Proc_initialized s = int N \<and> Proc_criticalCount s = int N \<and>
    0 \<le> Proc_criticalTicket s \<and> Proc_criticalTicket s < int N \<and>
    (\<forall>i<N. (int i < Proc_criticalTicket s \<longrightarrow> finished N (pc s i)) \<and>
      (int i = Proc_criticalTicket s \<longrightarrow> arrived N (pc s i) \<and> pc s i \<noteq> Entered (int N) \<or> pc s i = InCS) \<and>
      (Proc_criticalTicket s < int i \<longrightarrow> arrived N (pc s i) \<and> pc s i \<noteq> Entered (int N)))"

text \<open>All turns are over; one processor resets the variables.\<close>

definition closing :: "nat \<Rightarrow> proc_state \<Rightarrow> bool" where
  "closing N s \<longleftrightarrow> Proc_initialized s = int N \<and> Proc_criticalTicket s = int N \<and>
    (\<exists>k<N. (pc s k = Ended (int N) \<and> Proc_criticalCount s = int N \<or>
        pc s k = Resetting \<and> Proc_criticalCount s = 0) \<and>
      (\<forall>i<N. i \<noteq> k \<longrightarrow> finished N (pc s i)))"

definition proc_inv :: "nat \<Rightarrow> proc_state \<Rightarrow> bool" where
  "proc_inv N s \<longleftrightarrow> booting N s \<or> gathering N s \<or> running N s \<or> closing N s"

lemma proc_inv_init: "1 \<le> N \<Longrightarrow> proc_inv N Proc_init"
  by (auto simp: proc_inv_def booting_def Proc_init_def)

lemma card_insert_step:
  assumes "i < (N :: nat)" "\<not> P i" "Q i" "\<And>j. j < N \<Longrightarrow> j \<noteq> i \<Longrightarrow> Q j \<longleftrightarrow> P j"
  shows "card {j. j < N \<and> Q j} = Suc (card {j. j < N \<and> P j})"
proof -
  have "{j. j < N \<and> Q j} = insert i {j. j < N \<and> P j}" using assms by auto
  then show ?thesis using assms(2) by simp
qed

lemma card_full:
  assumes "card {j. j < (N :: nat) \<and> P j} = N" "j < N"
  shows "P j"
proof -
  have "{j. j < N \<and> P j} = {..<N}" using assms(1) by (intro card_subset_eq) auto
  then show ?thesis using assms(2) by auto
qed

lemma card_le_N: "card {j. j < (N :: nat) \<and> P j} \<le> N"
  using card_mono [of "{..<N}" "{j. j < N \<and> P j}"] by auto

text \<open>Steps from each phase.\<close>

lemma booting_step:
  assumes "booting N s" "i < N" "N < 2 ^ 31" "proc_step N i s s'"
  shows "proc_inv N s'"
  using assms(4)
proof cases
  case check_in
  then have b: "pc s 0 = WaitAll" "Proc_initialized s = int (card {i. i < N \<and> pc s i = WaitAll})"
    "Proc_initialized s < int N" "Proc_criticalTicket s = - 1" "Proc_criticalCount s = 0"
    using assms(1) by (auto simp: booting_def)
  let ?s = "s\<lparr>Proc_initialized := Proc_initialized s + 1, pc := (pc s)(i := WaitAll)\<rparr>"
  have s': "s' = ?s"
    using check_in b assms(3) incr32_eq [of "Proc_initialized s"] by (simp add: goto_def)
  have c: "Proc_initialized ?s = int (card {j. j < N \<and> pc ?s j = WaitAll})"
    using card_insert_step [OF assms(2), of "\<lambda>j. pc s j = WaitAll" "\<lambda>j. pc ?s j = WaitAll"] check_in b(2)
    by simp
  have w: "\<forall>j. 0 < j \<and> j < N \<longrightarrow> pc ?s j = WaitBegin \<or> pc ?s j = WaitAll"
    using assms(1) by (auto simp: booting_def)
  show ?thesis
  proof (cases "Proc_initialized ?s < int N")
    case True
    then have "booting N ?s" using w c b check_in by (simp add: booting_def)
    then show ?thesis by (simp add: s' proc_inv_def)
  next
    case False
    then have full: "card {j. j < N \<and> pc ?s j = WaitAll} = N" using c b(3) by simp
    have all: "\<forall>j<N. pc ?s j = WaitAll" using card_full [OF full] by blast
    have "Proc_initialized ?s = int N" using False b(3) by simp
    then have "gathering N ?s"
      using all b assms(2) by (auto simp: gathering_def pc_simps split: if_splits)
    then show ?thesis by (simp add: s' proc_inv_def)
  qed
next
  case ready
  have "Proc_beginInit s"
    using assms(1,2) ready by (cases "i = 0") (auto simp: booting_def split: if_splits)
  then show ?thesis using assms(1) ready by (simp add: booting_def Proc_isInitialized_def)
next
  case signal_begin
  then have b: "i = 0" "\<not> Proc_beginInit s" "Proc_initialized s = 1" "Proc_criticalTicket s = - 1"
    "Proc_criticalCount s = 0"
    using assms(1,2) by (cases "i = 0"; force simp: booting_def split: if_splits)+
  then have w: "pc s' j = (if j = 0 then WaitAll else WaitBegin)" if "j < N" for j
    using assms(1) that signal_begin by (auto simp: booting_def goto_def)
  have f: "Proc_initialized s' = 1" "Proc_criticalTicket s' = - 1" "Proc_criticalCount s' = 0" "Proc_beginInit s'"
    using b signal_begin by (simp_all add: goto_def)
  have "{j. j < N \<and> pc s' j = WaitAll} = {0}" using w assms(2) by (auto split: if_splits)
  then have c: "card {j. j < N \<and> pc s' j = WaitAll} = 1" by simp
  show ?thesis
  proof (cases "N = 1")
    case True
    then have "gathering N s'" using f w by (auto simp: gathering_def pc_simps)
    then show ?thesis by (simp add: proc_inv_def)
  next
    case False
    then have "booting N s'" using f c w assms(2) by (auto simp: booting_def)
    then show ?thesis by (simp add: proc_inv_def)
  qed
qed (use assms(1,2) in \<open>(cases "i = 0"; force simp: booting_def proc_inv_def goto_def split: if_splits)+\<close>)

lemma card_same:
  "(\<And>j. j < N \<Longrightarrow> Q j \<longleftrightarrow> P j) \<Longrightarrow> card {j. j < (N :: nat) \<and> Q j} = card {j. j < N \<and> P j}"
  by (intro arg_cong [of _ _ card]) auto

lemma gathering_keep:
  assumes "gathering N s" "i < N" "s' = s\<lparr>pc := (pc s)(i := l)\<rparr>"
    "arrived N l \<longleftrightarrow> arrived N (pc s i)" "arrived N l \<or> away N l" "\<And>p. l \<noteq> Entered p" "pc s i \<noteq> Entered (int N)"
  shows "gathering N s'"
proof -
  have p: "pc s' j = (if j = i then l else pc s j)" for j by (simp add: assms(3))
  have e: "pc s' j = Entered q \<longleftrightarrow> j \<noteq> i \<and> pc s j = Entered q" for j q by (simp add: p assms(6))
  have f: "Proc_initialized s' = Proc_initialized s" "Proc_criticalTicket s' = Proc_criticalTicket s"
    "Proc_criticalCount s' = Proc_criticalCount s" by (simp_all add: assms(3))
  note g = assms(1) [unfolded gathering_def]
  have c: "card {j. j < N \<and> arrived N (pc s' j)} = card {j. j < N \<and> arrived N (pc s j)}"
    using assms(4) by (intro card_same) (simp add: p)
  have "\<exists>j<N. pc s j = Entered (int N) \<and> j \<noteq> i" if "Proc_criticalCount s = int N"
    using g that assms(7) by metis
  moreover have "arrived N (pc s' j) \<or> away N (pc s' j)" if "j < N" for j
    using g that assms(5) by (simp add: p)
  ultimately show ?thesis
    unfolding gathering_def e f c using g by meson
qed

lemma gathering_step:
  assumes "gathering N s" "i < N" "N < 2 ^ 31" "proc_step N i s s'"
  shows "proc_inv N s'"
proof -
  let ?A = "{j. j < N \<and> arrived N (pc s j)}"
  have g: "Proc_criticalTicket s = - 1" "Proc_criticalCount s = int (card ?A)"
    "arrived N (pc s i) \<or> away N (pc s i)" "\<And>p. pc s i = Entered p \<Longrightarrow> p \<le> Proc_criticalCount s"
    using assms(1,2) by (auto simp: gathering_def)
  have keep: "gathering N s' \<Longrightarrow> ?thesis" by (simp add: proc_inv_def)
  show ?thesis
    using assms(4)
  proof cases
    case ready
    then show ?thesis
      by (intro keep gathering_keep [OF assms(1,2), of _ Out]) (auto simp: goto_def pc_simps)
  next
    case arrive
    let ?c = "Proc_criticalCount s + 1"
    have na: "\<not> arrived N (pc s i)" using arrive by (simp add: pc_simps)
    then have lt: "card ?A < N"
      using card_full [of N "\<lambda>j. arrived N (pc s j)" i] card_le_N [of N "\<lambda>j. arrived N (pc s j)"] assms(2)
      by (meson le_neq_implies_less)
    then have s': "s' = s\<lparr>Proc_criticalCount := ?c, pc := (pc s)(i := Entered ?c)\<rparr>"
      using arrive g(2) assms(3) incr32_eq [of "Proc_criticalCount s"] by (simp add: goto_def)
    have "card {j. j < N \<and> arrived N (pc s' j)} = Suc (card ?A)"
      using na assms(2) by (intro card_insert_step) (auto simp: s' pc_simps)
    moreover have "pc s j \<noteq> Entered (int N)" if "j < N" for j
      using assms(1) that lt g(2) by (fastforce simp: gathering_def)
    moreover have "pc s' j = Entered q \<longleftrightarrow> j = i \<and> q = ?c \<or> j \<noteq> i \<and> pc s j = Entered q" for j q
      by (auto simp: s')
    moreover have "arrived N (pc s' j) \<or> away N (pc s' j)" if "j < N" for j
      using assms(1) that by (simp add: s' gathering_def pc_simps)
    moreover have "p \<le> ?c" if "j < N" "pc s j = Entered p" for j p
      using assms(1) that by (fastforce simp: gathering_def)
    moreover have "Proc_initialized s' = int N" "Proc_criticalTicket s' = - 1" "Proc_criticalCount s' = ?c"
      using assms(1) by (simp_all add: s' gathering_def)
    ultimately have "gathering N s'"
      unfolding gathering_def using assms(2) g(2) by auto
    then show ?thesis by (rule keep)
  next
    case (open_section p)
    have "int N \<le> int (card ?A)" using g(2,4) open_section by auto
    then have full: "card ?A = N" using card_le_N [of N "\<lambda>j. arrived N (pc s j)"] by simp
    have all: "arrived N (pc s j)" if "j < N" for j
      by (rule card_full [OF full that])
    have "pc s j \<noteq> Entered (int N)" if "j < N" "j \<noteq> i" for j
      using assms(1,2) that open_section unfolding gathering_def by blast
    then have "arrived N (pc s' j) \<and> pc s' j \<noteq> Entered (int N)" if "j < N" for j
      using all [OF that] that open_section by (auto simp: goto_def arrived_def)
    moreover have "Proc_initialized s' = int N" "Proc_criticalCount s' = int N" "Proc_criticalTicket s' = 0"
      using g(2) full open_section assms(1) by (simp_all add: goto_def gathering_def)
    ultimately have "running N s'"
      using assms(2) by (simp add: running_def)
    then show ?thesis by (simp add: proc_inv_def)
  next
    case (not_last p)
    then show ?thesis
      by (intro keep gathering_keep [OF assms(1,2), of _ Waiting]) (auto simp: goto_def pc_simps)
  next
    case (not_last_out p)
    then show ?thesis
      by (intro keep gathering_keep [OF assms(1,2), of _ Leaving]) (auto simp: goto_def pc_simps)
  next
    case depart
    then show ?thesis
      by (intro keep gathering_keep [OF assms(1,2), of _ Out]) (auto simp: goto_def pc_simps)
  qed (use g in \<open>auto simp: pc_simps\<close>)
qed

lemma running_step:
  assumes "running N s" "i < N" "N < 2 ^ 31" "proc_step N i s s'"
  shows "proc_inv N s'"
proof -
  let ?t = "Proc_criticalTicket s"
  have r: "0 \<le> ?t" "?t < int N" "Proc_criticalCount s = int N" "Proc_initialized s = int N"
    using assms(1) by (simp_all add: running_def)
  have cases: "finished N (pc s i) \<and> int i < ?t \<or>
      (arrived N (pc s i) \<and> pc s i \<noteq> Entered (int N) \<or> pc s i = InCS) \<and> int i = ?t \<or>
      arrived N (pc s i) \<and> pc s i \<noteq> Entered (int N) \<and> ?t < int i"
    using assms(1,2) unfolding running_def by (meson linorder_cases)
  show ?thesis
    using assms(4)
  proof cases
    case pass_on
    then have i: "int i = ?t" using cases by (auto simp: pc_simps)
    then have s': "s' = s\<lparr>Proc_criticalTicket := ?t + 1, pc := (pc s)(i := Ended (?t + 1))\<rparr>"
      using pass_on r assms(3) incr32_eq [of ?t] by (simp add: goto_def)
    show ?thesis
    proof (cases "?t + 1 = int N")
      case True
      have "finished N (pc s j)" if "j < N" "j \<noteq> i" for j
      proof -
        have "int j < ?t" using that True i by auto
        then show ?thesis using assms(1) that(1) by (simp add: running_def)
      qed
      then have "closing N s'"
        unfolding closing_def s' using True r assms(2) by (auto intro!: exI [of _ i])
      then show ?thesis by (simp add: proc_inv_def)
    next
      case False
      then have "running N s'"
        using assms(1) i r unfolding running_def s' by (auto simp: pc_simps)
      then show ?thesis by (simp add: proc_inv_def)
    qed
  qed (use cases assms(1) r in \<open>auto simp: proc_inv_def running_def goto_def pc_simps\<close>)
qed

lemma closing_step:
  assumes "closing N s" "i < N" "proc_step N i s s'"
  shows "proc_inv N s'"
proof -
  obtain k where k: "k < N" "pc s k = Ended (int N) \<and> Proc_criticalCount s = int N \<or>
      pc s k = Resetting \<and> Proc_criticalCount s = 0"
    "\<And>j. j < N \<Longrightarrow> j \<noteq> k \<Longrightarrow> finished N (pc s j)"
    using assms(1) unfolding closing_def by blast
  have c: "Proc_initialized s = int N" "Proc_criticalTicket s = int N" using assms(1) by (simp_all add: closing_def)
  show ?thesis
    using assms(3)
  proof cases
    case (reset_count p)
    then have "i = k" using k(3) assms(2) by (force simp: pc_simps)
    then have "closing N s'"
      using reset_count k c by (auto simp: closing_def goto_def intro!: exI [of _ k])
    then show ?thesis by (simp add: proc_inv_def)
  next
    case reset_ticket
    then have i: "i = k" using k(3) assms(2) by (force simp: pc_simps)
    then have "Proc_criticalCount s = 0" using k(2) reset_ticket by auto
    moreover have "away N (pc s' j) \<and> \<not> arrived N (pc s' j)" if "j < N" for j
      using k(3) [OF that] i reset_ticket by (auto simp: goto_def pc_simps)
    ultimately have "gathering N s'"
      using c reset_ticket assms(2) by (simp add: gathering_def goto_def pc_simps)
    then show ?thesis by (simp add: proc_inv_def)
  next
    case (not_last_out p)
    then have "i \<noteq> k" using k(2) by auto
    then have "closing N s'"
      using not_last_out k c unfolding closing_def by (auto simp: goto_def pc_simps intro!: exI [of _ k])
    then show ?thesis by (simp add: proc_inv_def)
  next
    case my_turn
    then show ?thesis using assms(2) c by simp
  qed (use k c assms(2) in \<open>auto simp: pc_simps\<close>, (metis k(3) assms(2) proc_pc.distinct)+)
qed

lemma proc_reachable_inv:
  assumes "proc_reachable N s" "1 \<le> N" "N < 2 ^ 31"
  shows "proc_inv N s"
  using assms(1)
proof induction
  case proc_start
  show ?case using assms(2) by (rule proc_inv_init)
next
  case (proc_next s i s')
  then show ?case
    using booting_step [of N s i s'] gathering_step [of N s i s'] running_step [of N s i s']
      closing_step [of N s i s'] assms(3) by (auto simp: proc_inv_def [of N s])
qed

section \<open>Progress\<close>

text \<open>How far a processor is from leaving: every step but an arrival brings it closer.\<close>

fun rank :: "nat \<Rightarrow> proc_pc \<Rightarrow> nat" where
  "rank N Out = 0"
| "rank N Leaving = 1"
| "rank N Resetting = 2"
| "rank N (Ended p) = 3"
| "rank N InCS = 4"
| "rank N Waiting = 5"
| "rank N (Entered p) = 6"
| "rank N WaitAll = 1"
| "rank N WaitBegin = 2"
| "rank N Signal3 = 2"
| "rank N Signal2 = 3"
| "rank N Signal1 = 4"
| "rank N Boot = 5"
| "rank N BootCS = 6"

definition total_rank :: "nat \<Rightarrow> proc_state \<Rightarrow> nat" where
  "total_rank N s = (\<Sum>j<N. rank N (pc s j))"

lemma step_rank:
  assumes "proc_step N i s s'" "pc s i \<noteq> Out" "pc s' i \<noteq> BootCS"
  shows "rank N (pc s' i) < rank N (pc s i) \<and> (\<forall>j. j \<noteq> i \<longrightarrow> pc s' j = pc s j)"
  using assms by cases (auto simp: goto_def)

lemma step_total_rank:
  assumes "proc_step N i s s'" "i < N" "pc s i \<noteq> Out" "pc s' i \<noteq> BootCS"
  shows "total_rank N s' < total_rank N s"
proof -
  have "rank N (pc s' j) \<le> rank N (pc s j)" for j
    using step_rank [OF assms(1,3,4)] by (cases "j = i") auto
  then show ?thesis
    unfolding total_rank_def using step_rank [OF assms(1,3,4)] assms(2)
    by (intro sum_strict_mono_ex1) auto
qed

text \<open>\<open>moves N s\<close>: some processor can make a step other than entering a section.\<close>

definition moves :: "nat \<Rightarrow> proc_state \<Rightarrow> bool" where
  "moves N s \<longleftrightarrow> (\<exists>i<N. \<exists>s'. proc_step N i s s' \<and> total_rank N s' < total_rank N s)"

lemma movesI:
  assumes "i < N" "proc_step N i s s'" "pc s i \<noteq> Out" "pc s' i \<noteq> BootCS"
  shows "moves N s"
  using step_total_rank [OF assms(2,1,3,4)] assms(1,2) by (auto simp: moves_def)

lemma booting_moves:
  assumes "booting N s" "1 \<le> N"
  shows "moves N s"
proof (cases "Proc_beginInit s")
  case True
  have "\<exists>i<N. pc s i \<noteq> WaitAll"
  proof (rule ccontr)
    assume "\<not> ?thesis"
    then have "{i. i < N \<and> pc s i = WaitAll} = {..<N}" by auto
    then show False using assms(1) True by (auto simp: booting_def)
  qed
  then obtain i where i: "i < N" "pc s i = WaitBegin"
    using assms(1) True unfolding booting_def by (metis neq0_conv)
  show ?thesis by (rule movesI [OF i(1) check_in]) (use i True in \<open>simp_all add: goto_def\<close>)
next
  case False
  then have "pc s 0 \<in> {Boot, BootCS, Signal1, Signal2, Signal3}" "Proc_initialized s = (if pc s 0 = Signal3 then 1 else 0)"
    using assms(1) by (simp_all add: booting_def)
  then consider "pc s 0 = Boot" | "pc s 0 = BootCS" "\<not> Proc_isInitialized N s" | "pc s 0 = Signal1" | "pc s 0 = Signal2" | "pc s 0 = Signal3"
    using assms(2) by (auto simp: Proc_isInitialized_def)
  then show ?thesis
    by cases (use assms(2) in \<open>auto simp: goto_def intro: movesI [of 0, OF _ signal_ticket] movesI [of 0, OF _ boot_end]
      movesI [of 0, OF _ signal_count] movesI [of 0, OF _ signal_self] movesI [of 0, OF _ signal_begin]\<close>)
qed

lemma gathering_moves:
  assumes "gathering N s" "1 \<le> N" "\<forall>i<N. pc s i \<noteq> Out"
  shows "moves N s"
proof -
  have "\<exists>i<N. pc s i \<noteq> Waiting"
  proof (rule ccontr)
    assume "\<not> ?thesis"
    then have w: "\<forall>i<N. pc s i = Waiting" by simp
    then have "{i. i < N \<and> arrived N (pc s i)} = {..<N}" by (auto simp: arrived_def)
    then have "Proc_criticalCount s = int N" using assms(1) by (simp add: gathering_def)
    then show False using assms(1) w by (auto simp: gathering_def)
  qed
  then obtain i where i: "i < N" "pc s i \<noteq> Waiting" by blast
  then have "arrived N (pc s i) \<or> away N (pc s i)" "Proc_criticalTicket s < 0" "Proc_isInitialized N s"
    using assms(1) by (simp_all add: gathering_def Proc_isInitialized_def)
  then consider p where "pc s i = Entered p" "p = int N" | p where "pc s i = Entered p" "p \<noteq> int N"
    | "pc s i = Leaving" "Proc_criticalTicket s < 0" | p where "pc s i = Ended p" "p \<noteq> int N"
    | "pc s i = WaitAll" "Proc_isInitialized N s"
    using i assms(3) by (auto simp: pc_simps)
  then show ?thesis
  proof cases
    case 1
    show ?thesis by (rule movesI [OF i(1) open_section [OF 1]]) (simp_all add: goto_def 1)
  next
    case 2
    show ?thesis by (rule movesI [OF i(1) not_last [OF 2]]) (simp_all add: goto_def 2)
  next
    case 3
    show ?thesis by (rule movesI [OF i(1) depart [OF 3]]) (simp_all add: goto_def 3)
  next
    case 4
    show ?thesis by (rule movesI [OF i(1) not_last_out [OF 4]]) (simp_all add: goto_def 4)
  next
    case 5
    show ?thesis by (rule movesI [OF i(1) ready [OF 5]]) (simp_all add: goto_def 5)
  qed
qed

lemma running_moves:
  assumes "running N s"
  shows "moves N s"
proof -
  define i where "i = nat (Proc_criticalTicket s)"
  have t: "Proc_criticalTicket s = int i" "i < N" using assms by (auto simp: running_def i_def nat_less_iff)
  then have init: "Proc_isInitialized N s"
    and "arrived N (pc s i) \<and> pc s i \<noteq> Entered (int N) \<or> pc s i = InCS"
    using assms by (simp_all add: running_def Proc_isInitialized_def)
  then consider p where "pc s i = Entered p" "p \<noteq> int N" | "pc s i = Waiting" | "pc s i = InCS"
    by (auto simp: arrived_def)
  then show ?thesis
  proof cases
    case 1
    show ?thesis by (rule movesI [OF t(2) not_last [OF 1]]) (simp_all add: goto_def 1)
  next
    case 2
    show ?thesis by (rule movesI [OF t(2) my_turn [OF 2 t(1)]]) (simp_all add: goto_def 2)
  next
    case 3
    show ?thesis by (rule movesI [OF t(2) pass_on [OF 3 init]]) (simp_all add: goto_def 3)
  qed
qed

lemma closing_moves:
  assumes "closing N s"
  shows "moves N s"
proof -
  obtain k where k: "k < N" "pc s k = Ended (int N) \<or> pc s k = Resetting"
    using assms unfolding closing_def by blast
  from k(2) show ?thesis
  proof
    assume e: "pc s k = Ended (int N)"
    show ?thesis by (rule movesI [OF k(1) reset_count [OF e refl]]) (simp_all add: goto_def e)
  next
    assume e: "pc s k = Resetting"
    show ?thesis by (rule movesI [OF k(1) reset_ticket [OF e]]) (simp_all add: goto_def e)
  qed
qed

section \<open>Locks and atomic operations of gc/parallel.c\<close>

text \<open>One of the words \<open>Parallel_mutexes[p]\<close>. \<open>Spinning\<close> is before the test of the spin loop
  (the possible wait for a collection does not touch the word), \<open>Trying\<close> between a test that
  saw it free and the compare-and-swap.\<close>

datatype lock_pc = Idle | Spinning | Trying | Holding

record lock_state =
  mutex :: int
  lpc :: "nat \<Rightarrow> lock_pc"

definition Parallel_initResources :: lock_state where
  "Parallel_initResources = \<lparr> mutex = - 1, lpc = (\<lambda>_. Idle) \<rparr>"

inductive lock_step :: "nat \<Rightarrow> lock_state \<Rightarrow> lock_state \<Rightarrow> bool" for i where
  lock_call: "lpc s i = Idle \<Longrightarrow> lock_step i s (s\<lparr>lpc := (lpc s)(i := Spinning)\<rparr>)"
| lock_again: "lpc s i = Spinning \<Longrightarrow> mutex s \<ge> 0 \<Longrightarrow> lock_step i s s"
| lock_seen_free: "lpc s i = Spinning \<Longrightarrow> \<not> mutex s \<ge> 0 \<Longrightarrow> lock_step i s (s\<lparr>lpc := (lpc s)(i := Trying)\<rparr>)"
| lock_swapped: "lpc s i = Trying \<Longrightarrow> mutex s = - 1 \<Longrightarrow>
    lock_step i s (s\<lparr>mutex := int i, lpc := (lpc s)(i := Holding)\<rparr>)"
| lock_failed: "lpc s i = Trying \<Longrightarrow> mutex s \<noteq> - 1 \<Longrightarrow> lock_step i s (s\<lparr>lpc := (lpc s)(i := Spinning)\<rparr>)"
| unlock_swapped: "lpc s i \<in> {Idle, Holding} \<Longrightarrow> mutex s = int i \<Longrightarrow>
    lock_step i s (s\<lparr>mutex := - 1, lpc := (lpc s)(i := Idle)\<rparr>)"
| unlock_refused: "lpc s i \<in> {Idle, Holding} \<Longrightarrow> mutex s \<noteq> int i \<Longrightarrow> lock_step i s s"

inductive lock_reachable :: "lock_state \<Rightarrow> bool" where
  lock_start: "lock_reachable Parallel_initResources"
| lock_next: "lock_reachable s \<Longrightarrow> lock_step i s s' \<Longrightarrow> lock_reachable s'"

lemma lock_inv:
  assumes "lock_reachable s"
  shows "(lpc s i = Holding \<longleftrightarrow> mutex s = int i) \<and> - 1 \<le> mutex s"
  using assms
proof (induction arbitrary: i)
  case lock_start
  show ?case by (simp add: Parallel_initResources_def)
next
  case (lock_next s j s')
  from lock_next.hyps(2) show ?case
    by cases (use lock_next.IH [of i] lock_next.IH [of j] in \<open>auto simp: fun_upd_def\<close>)
qed

definition Parallel_fetchAndAdd :: "pointer \<Rightarrow> u32 \<Rightarrow> mem \<Rightarrow> u32 \<times> mem" where
  "Parallel_fetchAndAdd p v m = (load32 m p, store32 m p (load32 m p + v))"

definition Parallel_compareAndSwap :: "pointer \<Rightarrow> u32 \<Rightarrow> u32 \<Rightarrow> mem \<Rightarrow> bool \<times> mem" where
  "Parallel_compareAndSwap p old new m =
    (if load32 m p = old then (True, store32 m p new) else (False, m))"

definition Parallel_vCompareAndSwap :: "pointer \<Rightarrow> u32 \<Rightarrow> u32 \<Rightarrow> mem \<Rightarrow> u32 \<times> mem" where
  "Parallel_vCompareAndSwap p old new m =
    (load32 m p, if load32 m p = old then store32 m p new else m)"

section \<open>Properties\<close>

text \<open>C1: At any time at most one processor is between \<open>Proc_beginCriticalSection\<close> and
  \<open>Proc_endCriticalSection\<close>, and when one is, every other processor is in these functions
  too: those with a lower number have had their turn and wait in the second one, those with a
  higher number wait in the first one. No increment of the counters overflows.\<close>

theorem critical_section_exclusive:
  assumes "proc_reachable N s" "1 \<le> N" "N < 2 ^ 31" "i < N" "pc s i = InCS"
  shows "Proc_criticalTicket s = int i \<and> Proc_criticalCount s = int N \<and> Proc_executingInSection s \<and>
    (\<forall>j<N. j \<noteq> i \<longrightarrow> pc s j \<noteq> InCS) \<and> (\<forall>j<i. finished N (pc s j)) \<and>
    (\<forall>j<N. i < j \<longrightarrow> arrived N (pc s j))"
proof -
  have inv: "proc_inv N s" using proc_reachable_inv [OF assms(1-3)] .
  have "\<not> booting N s"
    using assms(4,5) unfolding booting_def by (cases "i = 0") (auto split: if_splits)
  moreover have "\<not> gathering N s" using assms(4,5) by (auto simp: gathering_def pc_simps)
  moreover have "\<not> closing N s"
    using assms(4,5) unfolding closing_def by (cases s) (fastforce simp: finished_def)
  ultimately have r: "running N s" using inv by (auto simp: proc_inv_def)
  then have t: "Proc_criticalTicket s = int i"
    using assms(4,5) unfolding running_def pc_simps by (metis linorder_cases proc_pc.distinct)
  have "pc s j \<noteq> InCS" if "j < N" "j \<noteq> i" for j
    using r that t unfolding running_def pc_simps by (metis of_nat_less_iff linorder_neqE_nat proc_pc.distinct)
  then show ?thesis using r t assms(4) by (auto simp: running_def Proc_executingInSection_def)
qed

text \<open>A run of two processors to the first section.\<close>

definition demo_proc :: "bool \<Rightarrow> int \<Rightarrow> int \<Rightarrow> int \<Rightarrow> proc_pc \<Rightarrow> proc_pc \<Rightarrow> proc_state" where
  "demo_proc b n c t p q = \<lparr> Proc_beginInit = b, Proc_initialized = n, Proc_criticalCount = c,
     Proc_criticalTicket = t, pc = (\<lambda>_. WaitBegin)(0 := p, 1 := q) \<rparr>"

lemma demo_goto: "goto 0 l (demo_proc b n c t p q) = demo_proc b n c t l q"
  "goto (Suc 0) l (demo_proc b n c t p q) = demo_proc b n c t p l"
  by (simp_all add: goto_def demo_proc_def fun_upd_twist)

lemma demo_proc_simps:
  "pc (demo_proc b n c t p q) 0 = p" "pc (demo_proc b n c t p q) (Suc 0) = q"
  "demo_proc b n c t p q\<lparr>Proc_beginInit := b'\<rparr> = demo_proc b' n c t p q"
  "demo_proc b n c t p q\<lparr>Proc_initialized := n'\<rparr> = demo_proc b n' c t p q"
  "demo_proc b n c t p q\<lparr>Proc_criticalCount := c'\<rparr> = demo_proc b n c' t p q"
  "demo_proc b n c t p q\<lparr>Proc_criticalTicket := t'\<rparr> = demo_proc b n c t' p q"
  "Proc_beginInit (demo_proc b n c t p q) = b" "Proc_initialized (demo_proc b n c t p q) = n"
  "Proc_criticalCount (demo_proc b n c t p q) = c" "Proc_criticalTicket (demo_proc b n c t p q) = t"
  by (simp_all add: demo_proc_def)

lemmas demo_run = demo_goto demo_proc_simps Proc_isInitialized_def incr32_eq

lemma demo_reachable: "proc_reachable 2 (demo_proc True 2 2 0 InCS Waiting)"
proof -
  have "Proc_init = demo_proc False 0 0 0 Boot WaitBegin" by (auto simp: Proc_init_def demo_proc_def)
  then have "proc_reachable 2 (demo_proc False 0 0 0 Boot WaitBegin)" by (metis proc_start)
  from proc_next [OF this _ signal_ticket, of 0] have "proc_reachable 2 (demo_proc False 0 0 (- 1) Signal1 WaitBegin)"
    by (simp add: demo_run)
  from proc_next [OF this _ signal_count, of 0] have "proc_reachable 2 (demo_proc False 0 0 (- 1) Signal2 WaitBegin)"
    by (simp add: demo_run)
  from proc_next [OF this _ signal_self, of 0] have "proc_reachable 2 (demo_proc False 1 0 (- 1) Signal3 WaitBegin)"
    by (simp add: demo_run)
  from proc_next [OF this _ signal_begin, of 0] have "proc_reachable 2 (demo_proc True 1 0 (- 1) WaitAll WaitBegin)"
    by (simp add: demo_run)
  from proc_next [OF this _ check_in, of 1] have "proc_reachable 2 (demo_proc True 2 0 (- 1) WaitAll WaitAll)"
    by (simp add: demo_run)
  from proc_next [OF this _ ready, of 0] have "proc_reachable 2 (demo_proc True 2 0 (- 1) Out WaitAll)"
    by (simp add: demo_run)
  from proc_next [OF this _ ready, of 1] have "proc_reachable 2 (demo_proc True 2 0 (- 1) Out Out)"
    by (simp add: demo_run)
  from proc_next [OF this _ arrive, of 0] have "proc_reachable 2 (demo_proc True 2 1 (- 1) (Entered 1) Out)"
    by (simp add: demo_run)
  from proc_next [OF this _ arrive, of 1] have "proc_reachable 2 (demo_proc True 2 2 (- 1) (Entered 1) (Entered 2))"
    by (simp add: demo_run)
  from proc_next [OF this _ not_last, of 0] have "proc_reachable 2 (demo_proc True 2 2 (- 1) Waiting (Entered 2))"
    by (simp add: demo_run)
  from proc_next [OF this _ open_section, of 1] have "proc_reachable 2 (demo_proc True 2 2 0 Waiting Waiting)"
    by (simp add: demo_run)
  from proc_next [OF this _ my_turn, of 0] show ?thesis by (simp add: demo_run)
qed

lemma critical_section_exclusive_witness:
  "pc (demo_proc True 2 2 0 InCS Waiting) 0 = InCS \<and> Proc_executingInSection (demo_proc True 2 2 0 InCS Waiting)"
  using critical_section_exclusive [OF demo_reachable, of 0] by (simp add: demo_run)

text \<open>C28: The processors do not block one another: as long as no processor is outside the
  section functions, some processor can make a step that brings it closer to being outside,
  so that after at most six such steps for each processor one of them is.\<close>

theorem critical_section_progress:
  assumes "proc_reachable N s" "1 \<le> N" "N < 2 ^ 31" "\<forall>i<N. pc s i \<noteq> Out"
  shows "(\<exists>i<N. \<exists>s'. proc_step N i s s' \<and> total_rank N s' < total_rank N s) \<and> total_rank N s \<le> 6 * N"
proof -
  have "moves N s"
    using proc_reachable_inv [OF assms(1-3)] booting_moves gathering_moves running_moves closing_moves assms(2,4)
    by (auto simp: proc_inv_def)
  moreover have "rank N l \<le> 6" for l by (cases l) auto
  then have "total_rank N s \<le> 6 * N"
    unfolding total_rank_def using sum_bounded_above [of "{..<N}" "\<lambda>j. rank N (pc s j)" 6] by simp
  ultimately show ?thesis by (simp add: moves_def)
qed

lemma critical_section_progress_witness:
  "\<exists>i<2. \<exists>s'. proc_step 2 i (demo_proc True 2 2 0 InCS Waiting) s' \<and>
    total_rank 2 s' < total_rank 2 (demo_proc True 2 2 0 InCS Waiting)"
proof -
  have "\<forall>i<2. pc (demo_proc True 2 2 0 InCS Waiting) i \<noteq> Out"
    by (auto simp: demo_run less_2_cases_iff)
  then show ?thesis using critical_section_progress [OF demo_reachable] by simp
qed

text \<open>C38: A lock of \<open>Parallel_lock\<close> is held by at most one processor, the one whose number its word
  holds, and a call of \<open>Parallel_unlock\<close> by another processor changes nothing.\<close>

theorem Parallel_lock_exclusive:
  assumes "lock_reachable s" "lpc s i = Holding"
  shows "mutex s = int i \<and> (\<forall>j. lpc s j = Holding \<longrightarrow> j = i) \<and>
    (\<forall>j s'. j \<noteq> i \<longrightarrow> lpc s j = Idle \<longrightarrow> lock_step j s s' \<longrightarrow> mutex s' = int i)"
proof -
  have m: "mutex s = int i" using lock_inv [OF assms(1), of i] assms(2) by simp
  have "mutex s' = int i" if "j \<noteq> i" "lpc s j = Idle" "lock_step j s s'" for j s'
    using that(3) by cases (use m that in auto)
  then show ?thesis using m lock_inv [OF assms(1)] by auto
qed

lemma Parallel_lock_exclusive_witness:
  "\<exists>s. lock_reachable s \<and> lpc s 3 = Holding \<and> mutex s = 3"
proof -
  let ?s = "\<lparr> mutex = 3, lpc = (\<lambda>_. Idle)(3 := Holding) \<rparr>"
  from lock_next [OF lock_start lock_call, of 3]
  have "lock_reachable \<lparr> mutex = - 1, lpc = (\<lambda>_. Idle)(3 := Spinning) \<rparr>" by (simp add: Parallel_initResources_def)
  from lock_next [OF this lock_seen_free, of 3]
  have "lock_reachable \<lparr> mutex = - 1, lpc = (\<lambda>_. Idle)(3 := Trying) \<rparr>" by simp
  from lock_next [OF this lock_swapped, of 3] have "lock_reachable ?s" by simp
  with Parallel_lock_exclusive [OF this, of 3] show ?thesis by (intro exI [of _ ?s]) simp
qed

end
