(* ===== verification/Foreach.thy ===== *)
theory Foreach
  imports Heap "HOL-Library.Monad_Syntax"
begin

text \<open>
  The walks over objects, ranges of objects and stacks of \<open>gc/foreach.c\<close>, their clients in
  \<open>gc/translate.c\<close> and \<open>gc/call-stack.c\<close>, and \<open>fillGap\<close> of \<open>gc/garbage-collection.c\<close>. The
  function a walk applies may change the memory and the state, so every walk passes a
  \<open>world\<close> along. \<open>None\<close> is a walk that does not end or leaves the static tables.
\<close>

section \<open>State\<close>

record GC_translateState =
  tr_from :: pointer
  tr_to :: pointer
  tr_size :: size_t

text \<open>What the walks read and no client changes: the static tables, \<open>*s->heap\<close>, the start of
  the shared heap, the global \<open>skipStackToThreadTracing\<close>, the translation in progress and
  the answer of \<open>Proc_executingInSection\<close>.\<close>

record foreach_env =
  static :: gc_static
  local_heap :: GC_heap
  shared_start :: pointer
  skipStackToThreadTracing :: bool
  translateState :: GC_translateState
  executingInSection :: bool

text \<open>What a walk may change. \<open>rangeListCurrent\<close> is the linked list of ranges to skip from the
  current node on; \<open>rest\<close> is the part of \<open>GC_state\<close> that only the client touches.\<close>

record 'a world =
  wmem :: mem
  rangeListCurrent :: "(pointer \<times> pointer) list"
  rest :: 'a

type_synonym 'a foreachObjptrFun = "pointer \<Rightarrow> 'a world \<Rightarrow> 'a world option"

section \<open>One object\<close>

definition callIfIsObjptr :: "'a foreachObjptrFun \<Rightarrow> 'a foreachObjptrFun" where
  "callIfIsObjptr f opp w = (if isObjptr (load64 (wmem w) opp) then f opp w else Some w)"

text \<open>The loops \<open>for ( ; p < max; p += OBJPTR_SIZE)\<close>, and over the elements of a mixed array;
  \<open>act\<close> is the body.\<close>

partial_function (option) ptr_loop ::
    "'a foreachObjptrFun \<Rightarrow> pointer \<Rightarrow> pointer \<Rightarrow> 'a world \<Rightarrow> (pointer \<times> 'a world) option" where
  "ptr_loop act limit p w =
    (if p < limit
     then do { w \<leftarrow> act p w; ptr_loop act limit (p + OBJPTR_SIZE) w }
     else Some (p, w))"

partial_function (option) elem_loop ::
    "'a foreachObjptrFun \<Rightarrow> size_t \<Rightarrow> size_t \<Rightarrow> pointer \<Rightarrow> pointer \<Rightarrow> 'a world \<Rightarrow> (pointer \<times> 'a world) option" where
  "elem_loop act bytesNon bytesObjptrs limit p w =
    (if p < limit
     then do {
       (p, w) \<leftarrow> ptr_loop act (p + bytesNon + bytesObjptrs) (p + bytesNon) w;
       elem_loop act bytesNon bytesObjptrs limit p w }
     else Some (p, w))"

text \<open>\<open>frameOffsets[0]\<close> is the number of offsets that follow.\<close>

definition frame_offsets :: "GC_frameLayout \<Rightarrow> u16 list option" where
  "frame_offsets layout = (case offsets layout of
     [] \<Rightarrow> None
   | n # os \<Rightarrow> if unat n \<le> length os then Some (take (unat n) os) else None)"

primrec foreach_slots :: "'a foreachObjptrFun \<Rightarrow> pointer list \<Rightarrow> 'a world \<Rightarrow> 'a world option" where
  "foreach_slots act [] w = Some w"
| "foreach_slots act (opp # opps) w = do { w \<leftarrow> act opp w; foreach_slots act opps w }"

partial_function (option) frame_loop ::
    "gc_static \<Rightarrow> 'a foreachObjptrFun \<Rightarrow> pointer \<Rightarrow> pointer \<Rightarrow> 'a world \<Rightarrow> 'a world option" where
  "frame_loop g f bottom tp w =
    (if bottom < tp
     then do {
       layout \<leftarrow> getFrameLayoutFromReturnAddress g (load64 (wmem w) (tp - GC_RETURNADDRESS_SIZE));
       os \<leftarrow> frame_offsets layout;
       w \<leftarrow> foreach_slots (callIfIsObjptr f) (map (\<lambda>o'. tp - ucast (size layout) + ucast o') os) w;
       frame_loop g f bottom (tp - ucast (size layout)) w }
     else Some w)"

definition foreach_array ::
    "gc_static \<Rightarrow> 'a foreachObjptrFun \<Rightarrow> GC_objectType \<Rightarrow> pointer \<Rightarrow> 'a world \<Rightarrow> (pointer \<times> 'a world) option" where
  "foreach_array g f ty p w =
    (let dataBytes = getArrayLength (wmem w) p * elementBytes ty in
     if dataBytes < OBJPTR_SIZE
     then Some (p + alignWithExtra (alignment g) OBJPTR_SIZE GC_ARRAY_HEADER_SIZE, w)
     else if numObjptrs ty = 0
     then Some (p + alignWithExtra (alignment g) dataBytes GC_ARRAY_HEADER_SIZE, w)
     else do {
       (q, w) \<leftarrow> (if bytesNonObjptrs ty = 0 then ptr_loop (callIfIsObjptr f) (p + dataBytes) p w
         else elem_loop (callIfIsObjptr f) (ucast (bytesNonObjptrs ty)) (ucast (numObjptrs ty) * OBJPTR_SIZE) (p + dataBytes) p w);
       Some (q - dataBytes + alignWithExtra (alignment g) dataBytes GC_ARRAY_HEADER_SIZE, w) })"

definition foreach_stack ::
    "foreach_env \<Rightarrow> 'a foreachObjptrFun \<Rightarrow> pointer \<Rightarrow> 'a world \<Rightarrow> (pointer \<times> 'a world) option" where
  "foreach_stack e f p w =
    (let bottom = getStackBottom p; tp = getStackTop (wmem w) p in
     do {
       w \<leftarrow> (if \<not> skipStackToThreadTracing e then callIfIsObjptr f (p + 32) w
         else if \<not> isObjptrInHeap (local_heap e) (stack_thread (wmem w) p)
         then Some (w\<lparr>wmem := store64 (wmem w) (p + 32) BOGUS_OBJPTR\<rparr>) else Some w);
       w \<leftarrow> frame_loop (static e) f bottom tp w;
       Some (p + (sizeof_GC_stack + stack_reserved (wmem w) p), w) })"

definition foreachObjptrInObject ::
    "foreach_env \<Rightarrow> 'a foreachObjptrFun \<Rightarrow> bool \<Rightarrow> pointer \<Rightarrow> 'a world \<Rightarrow> (pointer \<times> 'a world) option" where
  "foreachObjptrInObject e f skipWeaks p w = do {
     ty \<leftarrow> splitHeader (objectTypes (static e)) (getHeader (wmem w) p);
     case tag ty of
       NORMAL_TAG \<Rightarrow> (let p = p + ucast (bytesNonObjptrs ty) in
         ptr_loop (callIfIsObjptr f) (p + ucast (numObjptrs ty) * OBJPTR_SIZE) p w)
     | WEAK_TAG \<Rightarrow> (let p = p + ucast (bytesNonObjptrs ty) in
         if numObjptrs ty = 1
         then do {
           w \<leftarrow> (if \<not> skipWeaks then callIfIsObjptr f p w else Some w);
           Some (p + OBJPTR_SIZE, w) }
         else Some (p, w))
     | ARRAY_TAG \<Rightarrow> foreach_array (static e) f ty p w
     | STACK_TAG \<Rightarrow> foreach_stack e f p w
     | HEADER_ONLY_TAG \<Rightarrow> Some (p, w)
     | FILL_TAG \<Rightarrow> Some (p + GC_SMALL_GAP_SIZE_SIZE + ucast (load32 (wmem w) p), w) }"

section \<open>Filling gaps\<close>

text \<open>Inside an object of type \<open>FILL_TAG\<close> the number of bytes is cut to 32 bits.
  A gap that no filler fits makes the program exit (\<open>None\<close>).\<close>

definition fillGap :: "pointer \<Rightarrow> pointer \<Rightarrow> mem \<Rightarrow> (mem \<times> size_t) option" where
  "fillGap start end' m =
    (let diff = end' - start in
     if diff = 0 then Some (m, 0)
     else if start \<noteq> 0 then
       (if diff \<ge> GC_ARRAY_HEADER_SIZE + OBJPTR_SIZE then
          (let m = store64 m start 0;
               start = start + GC_ARRAY_COUNTER_SIZE;
               m = store64 m start (diff - GC_ARRAY_HEADER_SIZE);
               start = start + GC_ARRAY_LENGTH_SIZE in
           Some (store64 m start GC_WORD8_VECTOR_HEADER, diff))
        else if diff = GC_HEADER_SIZE then Some (store64 m start GC_HEADER_ONLY_HEADER, diff)
        else if diff \<ge> GC_BONUS_SLOP then
          (let m = store64 m start GC_FILL_HEADER;
               start = start + GC_HEADER_SIZE in
           Some (store32 m start (ucast (diff - (GC_HEADER_SIZE + GC_SMALL_GAP_SIZE_SIZE))), diff))
        else None)
     else Some (m, 0))"

section \<open>Translation of one pointer\<close>

definition translating :: "GC_translateState \<Rightarrow> pointer \<Rightarrow> bool" where
  "translating t p \<longleftrightarrow> tr_from t \<le> p \<and> p < tr_from t + tr_size t"

definition translateObjptrInRange :: "GC_translateState \<Rightarrow> 'a foreachObjptrFun" where
  "translateObjptrInRange t opp w =
    (let p = objptrToPointer (load64 (wmem w) opp) (tr_from t) in
     if translating t p
     then Some (w\<lparr>wmem := store64 (wmem w) opp (pointerToObjptr (p - tr_from t + tr_to t) (tr_to t))\<rparr>)
     else Some w)"

definition translateObjptrLocal :: "GC_heap \<Rightarrow> GC_translateState \<Rightarrow> 'a foreachObjptrFun" where
  "translateObjptrLocal shared t opp w =
    (let p = objptrToPointer (load64 (wmem w) opp) (tr_from t) in
     if isPointerInHeap shared p then Some w
     else Some (w\<lparr>wmem := store64 (wmem w) opp (pointerToObjptr (p - tr_from t + tr_to t) (tr_to t))\<rparr>))"

text \<open>The \<open>do\<close> loop of \<open>translateObjptrShared\<close>, run on a slot in memory and on a local
  variable; it returns the pointer \<open>p\<close> of its last round.\<close>

partial_function (option) translateShared_loop ::
    "foreach_env \<Rightarrow> pointer \<Rightarrow> mem \<Rightarrow> (pointer \<times> mem) option" where
  "translateShared_loop e opp m =
    (let p = objptrToPointer (load64 m opp) (shared_start e);
         t = translateState e;
         moved = translating t p;
         p = (if moved then p - tr_from t + tr_to t else p);
         m = (if moved then store64 m opp (pointerToObjptr p (tr_to t)) else m) in
     if getHeader m p = GC_FORWARDED then translateShared_loop e opp (store64 m opp (load64 m p))
     else Some (p, m))"

partial_function (option) translateShared_val_loop ::
    "foreach_env \<Rightarrow> mem \<Rightarrow> objptr \<Rightarrow> (pointer \<times> objptr) option" where
  "translateShared_val_loop e m op =
    (let p = objptrToPointer op (shared_start e);
         t = translateState e;
         moved = translating t p;
         p = (if moved then p - tr_from t + tr_to t else p);
         op = (if moved then pointerToObjptr p (tr_to t) else op) in
     if getHeader m p = GC_FORWARDED then translateShared_val_loop e m (load64 m p)
     else Some (p, op))"

partial_function (option) translateShared_mem :: "foreach_env \<Rightarrow> pointer \<Rightarrow> mem \<Rightarrow> mem option" where
  "translateShared_mem e opp m = do {
     (p, m) \<leftarrow> translateShared_loop e opp m;
     ty \<leftarrow> splitHeader (objectTypes (static e)) (getHeader m p);
     if tag ty = STACK_TAG then translateShared_mem e (p + 32) m else Some m }"

definition translateObjptrShared :: "foreach_env \<Rightarrow> 'a foreachObjptrFun" where
  "translateObjptrShared e opp w =
    map_option (\<lambda>m. w\<lparr>wmem := m\<rparr>) (translateShared_mem e opp (wmem w))"

definition translateObjptrShared_val :: "foreach_env \<Rightarrow> objptr \<Rightarrow> mem \<Rightarrow> (objptr \<times> mem) option" where
  "translateObjptrShared_val e op m = do {
     (p, op) \<leftarrow> translateShared_val_loop e m op;
     ty \<leftarrow> splitHeader (objectTypes (static e)) (getHeader m p);
     m \<leftarrow> (if tag ty = STACK_TAG then translateShared_mem e (p + 32) m else Some m);
     Some (op, m) }"

section \<open>Ranges of objects\<close>

text \<open>The \<open>do\<close> loop over the forwarding pointers of a forwarded object at \<open>p\<close>; it stores
  every pointer it reads back to \<open>*p\<close> and returns the object at the end.\<close>

partial_function (option) chase_forwarded ::
    "foreach_env \<Rightarrow> pointer \<Rightarrow> objptr \<Rightarrow> mem \<Rightarrow> (pointer \<times> mem) option" where
  "chase_forwarded e p op m =
    (let op = load64 m op; realP = objptrToPointer op (shared_start e) in
     do {
       (op, m) \<leftarrow> (if tr_from (translateState e) \<noteq> BOGUS_POINTER \<and> executingInSection e
         then translateObjptrShared_val e realP m else Some (op, m));
       let realP = (if tr_from (translateState e) \<noteq> BOGUS_POINTER \<and> executingInSection e then op else realP);
       let m = store64 m p op;
       if getHeader m realP = GC_FORWARDED then chase_forwarded e p op m else Some (realP, m) })"

definition skip_forwarded :: "foreach_env \<Rightarrow> pointer \<Rightarrow> mem \<Rightarrow> (pointer \<times> mem) option" where
  "skip_forwarded e p m = do {
     (realP, m) \<leftarrow> chase_forwarded e p p m;
     ty \<leftarrow> splitHeader (objectTypes (static e)) (getHeader m realP);
     n \<leftarrow> sizeofObjectNoHeader (static e) (shared_start e) m (if tag ty = STACK_TAG then p else realP);
     Some (p + n, m) }"

definition skip_range :: "pointer \<Rightarrow> 'a world \<Rightarrow> pointer \<times> 'a world" where
  "skip_range front w = (case rangeListCurrent w of
     [] \<Rightarrow> (front, w)
   | (start, end') # next' \<Rightarrow> if start = front then (end', w\<lparr>rangeListCurrent := next'\<rparr>) else (front, w))"

text \<open>One round of the inner loop. A skipped range is not followed by a new test of
  \<open>front < b\<close>.\<close>

definition range_step ::
    "foreach_env \<Rightarrow> 'a foreachObjptrFun \<Rightarrow> bool \<Rightarrow> bool \<Rightarrow> pointer \<Rightarrow> 'a world \<Rightarrow> (pointer \<times> 'a world) option" where
  "range_step e f skipWeaks fillForwarded front w =
    (let (front, w) = skip_range front w; p = advanceToObjectData (wmem w) front in
     if getHeader (wmem w) p = GC_FORWARDED
     then do {
       (front', m) \<leftarrow> skip_forwarded e p (wmem w);
       m \<leftarrow> (if fillForwarded then map_option fst (fillGap front front' m) else Some m);
       Some (front', w\<lparr>wmem := m\<rparr>) }
     else foreachObjptrInObject e f skipWeaks p w)"

text \<open>\<open>back\<close> reads \<open>*back\<close>, which the client may raise; the inner loop tests a copy \<open>b\<close>.\<close>

partial_function (option) range_loop ::
    "foreach_env \<Rightarrow> 'a foreachObjptrFun \<Rightarrow> bool \<Rightarrow> bool \<Rightarrow> ('a world \<Rightarrow> pointer) \<Rightarrow> pointer \<Rightarrow> pointer \<Rightarrow>
     'a world \<Rightarrow> (pointer \<times> 'a world) option" where
  "range_loop e f skipWeaks fillForwarded back b front w =
    (if front < b
     then do {
       (front, w) \<leftarrow> range_step e f skipWeaks fillForwarded front w;
       range_loop e f skipWeaks fillForwarded back b front w }
     else if front < back w then range_loop e f skipWeaks fillForwarded back (back w) front w
     else Some (front, w))"

definition foreachObjptrInRangeWithFill ::
    "foreach_env \<Rightarrow> 'a foreachObjptrFun \<Rightarrow> bool \<Rightarrow> bool \<Rightarrow> ('a world \<Rightarrow> pointer) \<Rightarrow> pointer \<Rightarrow>
     'a world \<Rightarrow> (pointer \<times> 'a world) option" where
  "foreachObjptrInRangeWithFill e f skipWeaks fillForwarded back front w =
    range_loop e f skipWeaks fillForwarded back (back w) front w"

definition foreachObjptrInRange ::
    "foreach_env \<Rightarrow> 'a foreachObjptrFun \<Rightarrow> bool \<Rightarrow> ('a world \<Rightarrow> pointer) \<Rightarrow> pointer \<Rightarrow>
     'a world \<Rightarrow> (pointer \<times> 'a world) option" where
  "foreachObjptrInRange e f skipWeaks back front w =
    foreachObjptrInRangeWithFill e f skipWeaks False back front w"

text \<open>\<open>f\<close> answers whether to go on.\<close>

partial_function (option) foreachObjectInRange ::
    "foreach_env \<Rightarrow> (pointer \<Rightarrow> 'a world \<Rightarrow> (bool \<times> 'a world) option) \<Rightarrow> pointer \<Rightarrow> pointer \<Rightarrow>
     'a world \<Rightarrow> 'a world option" where
  "foreachObjectInRange e f back front w =
    (if front < back
     then (let (front, w) = skip_range front w; p = advanceToObjectData (wmem w) front in
       if getHeader (wmem w) p = GC_FORWARDED
       then do {
         (front, m) \<leftarrow> skip_forwarded e p (wmem w);
         foreachObjectInRange e f back front (w\<lparr>wmem := m\<rparr>) }
       else do {
         (toContinue, w) \<leftarrow> f p w;
         if \<not> toContinue then Some w
         else do {
           n \<leftarrow> sizeofObject (static e) (shared_start e) (wmem w) p;
           foreachObjectInRange e f back (front + n) w } })
     else Some w)"

definition translateRange ::
    "foreach_env \<Rightarrow> pointer \<Rightarrow> pointer \<Rightarrow> size_t \<Rightarrow> 'a world \<Rightarrow> 'a world option" where
  "translateRange e from' to n w =
    (if from' = to then Some w
     else (let t = \<lparr> tr_from = from', tr_to = to, tr_size = n \<rparr>; limit = to + n in
       map_option snd (foreachObjptrInRange (e\<lparr>translateState := t\<rparr>) (translateObjptrInRange t) False
         (\<lambda>_. limit) (alignFrontier (alignment (static e)) to) w)))"

section \<open>Stack frames\<close>

text \<open>\<open>die\<close> is the left side of the sum.\<close>

datatype die_frame = Bad_frame_index pointer u64 u32

partial_function (option) foreachStackFrame ::
    "gc_static \<Rightarrow> (u32 \<Rightarrow> 'a world \<Rightarrow> 'a world) \<Rightarrow> pointer \<Rightarrow> pointer \<Rightarrow> 'a world \<Rightarrow> (die_frame + 'a world) option" where
  "foreachStackFrame g f bottom tp w =
    (if bottom < tp
     then (let returnAddress = load64 (wmem w) (tp - GC_RETURNADDRESS_SIZE);
               findex = getFrameIndexFromReturnAddress g returnAddress in
       if \<not> unat findex < length (frameLayouts g) then Some (Inl (Bad_frame_index tp returnAddress findex))
       else foreachStackFrame g f bottom (tp - ucast (size (frameLayouts g ! unat findex))) (f findex w))
     else Some (Inr w))"

text \<open>\<open>callStackState\<close>: the number of frames and the array to fill.\<close>

definition numStackFramesAux :: "u32 \<Rightarrow> (u32 \<times> pointer) world \<Rightarrow> (u32 \<times> pointer) world" where
  "numStackFramesAux i w = w\<lparr>rest := (fst (rest w) + 1, snd (rest w))\<rparr>"

definition callStackAux :: "u32 \<Rightarrow> (u32 \<times> pointer) world \<Rightarrow> (u32 \<times> pointer) world" where
  "callStackAux i w =
    w\<lparr>wmem := store32 (wmem w) (snd (rest w) + ucast (fst (rest w)) * 4) i,
      rest := (fst (rest w) + 1, snd (rest w))\<rparr>"

definition GC_numStackFrames ::
    "gc_static \<Rightarrow> pointer \<Rightarrow> pointer \<Rightarrow> (u32 \<times> pointer) world \<Rightarrow> (die_frame + u32 \<times> (u32 \<times> pointer) world) option" where
  "GC_numStackFrames g stk stackTop w =
    map_option (map_sum id (\<lambda>w. (fst (rest w), w)))
      (foreachStackFrame g numStackFramesAux (getStackBottom stk) stackTop (w\<lparr>rest := (0, snd (rest w))\<rparr>))"

definition GC_callStack ::
    "gc_static \<Rightarrow> pointer \<Rightarrow> pointer \<Rightarrow> pointer \<Rightarrow> (u32 \<times> pointer) world \<Rightarrow> (die_frame + (u32 \<times> pointer) world) option" where
  "GC_callStack g stk stackTop p w =
    foreachStackFrame g callStackAux (getStackBottom stk) stackTop (w\<lparr>rest := (0, p)\<rparr>)"

section \<open>Slots: lemmas\<close>

text \<open>The addresses of the word at \<open>a\<close>, and memories that agree on a set of addresses.\<close>

definition word8 :: "pointer \<Rightarrow> pointer set" where
  "word8 a = {x. off a x < 8}"

definition agree :: "pointer set \<Rightarrow> mem \<Rightarrow> mem \<Rightarrow> bool" where
  "agree S m m' \<longleftrightarrow> (\<forall>x\<in>S. m x = m' x)"

lemma agree_mono: "agree T m m' \<Longrightarrow> S \<subseteq> T \<Longrightarrow> agree S m m'"
  by (auto simp: agree_def)

lemma agree_refl [simp]: "agree S m m"
  by (simp add: agree_def)

lemma agree_trans: "agree S m m' \<Longrightarrow> agree S m' m'' \<Longrightarrow> agree S m m''"
  by (simp add: agree_def)

lemma agree_Un [simp]: "agree (S \<union> T) m m' \<longleftrightarrow> agree S m m' \<and> agree T m m'"
  by (auto simp: agree_def)

lemma word8_nth: "i < 8 \<Longrightarrow> a + of_nat i \<in> word8 a"
  by (simp add: word8_def unsigned_of_nat take_bit_nat_eq_self)

lemma agree_load64: "agree (word8 a) m m' \<Longrightarrow> load64 m a = load64 m' a"
  by (rule load64_cong) (simp add: agree_def word8_nth)

lemma agree_load32: "agree {x. off a x < 4} m m' \<Longrightarrow> load32 m a = load32 m' a"
  unfolding load32_def load_bytes_def agree_def
  by (intro arg_cong [of _ _ word_of_bytes] map_cong) (auto simp: unsigned_of_nat take_bit_nat_eq_self)

lemma word8_disjnt: "disjnt_regions a 8 b 8 \<longleftrightarrow> word8 a \<inter> word8 b = {}"
proof
  assume d: "disjnt_regions a 8 b 8"
  have False if x: "off a x < 8" "off b x < 8" for x
  proof (cases "a = b")
    case True
    then show ?thesis using d by (simp add: disjnt_regions_def)
  next
    case False
    have "unat a < 2 ^ 64" "unat b < 2 ^ 64" "unat x < 2 ^ 64"
      using unsigned_less [of a, where ?'a = nat] unsigned_less [of b, where ?'a = nat]
        unsigned_less [of x, where ?'a = nat] by simp_all
    then show ?thesis
      using d x by (auto simp: disjnt_regions_def unat_sub_if' split: if_splits)
  qed
  then show "word8 a \<inter> word8 b = {}" by (auto simp: word8_def)
next
  assume "word8 a \<inter> word8 b = {}"
  moreover have "a \<in> word8 a" "b \<in> word8 b" by (simp_all add: word8_def)
  ultimately have "a \<notin> word8 b" "b \<notin> word8 a" by blast+
  then show "disjnt_regions a 8 b 8" by (simp add: disjnt_regions_def word8_def)
qed

lemma store64_agree: "word8 a \<inter> S = {} \<Longrightarrow> agree S (store64 m a v) m"
  unfolding agree_def word8_def by (metis (mono_tags, lifting) disjoint_iff mem_Collect_eq not_less store64_other)

lemma foreach_slots_append:
  "foreach_slots f (xs @ ys) w = do { w \<leftarrow> foreach_slots f xs w; foreach_slots f ys w }"
  by (induction xs arbitrary: w) simp_all

text \<open>The slots of an array of \<open>n\<close> elements with \<open>b\<close> bytes of other data and \<open>q\<close> pointers.\<close>

definition ptr_slots :: "pointer \<Rightarrow> nat \<Rightarrow> pointer list" where
  "ptr_slots p n = map (\<lambda>i. p + of_nat (8 * i)) [0..<n]"

definition array_slots :: "nat \<Rightarrow> nat \<Rightarrow> pointer \<Rightarrow> nat \<Rightarrow> pointer list" where
  "array_slots b q p n = concat (map (\<lambda>i. ptr_slots (p + of_nat (i * (b + 8 * q) + b)) q) [0..<n])"

lemma ptr_slots_Suc: "ptr_slots p (Suc n) = p # ptr_slots (p + 8) n"
proof -
  have "map (\<lambda>i. p + of_nat (8 * i)) [Suc 0..<Suc n] = map (\<lambda>i. p + 8 + of_nat (8 * i)) [0..<n]"
    unfolding map_Suc_upt [symmetric] by (simp add: add.assoc)
  then show ?thesis
    unfolding ptr_slots_def by (subst upt_conv_Cons) simp_all
qed

lemma ptr_slots_add: "ptr_slots p (m + n) = ptr_slots p m @ ptr_slots (p + of_nat (8 * m)) n"
  by (induction m arbitrary: p) (simp_all add: ptr_slots_Suc add.assoc, simp add: ptr_slots_def)

lemma array_slots_Suc:
  "array_slots b q p (Suc n) = ptr_slots (p + of_nat b) q @ array_slots b q (p + of_nat (b + 8 * q)) n"
proof -
  have "[0..<Suc n] = 0 # map Suc [0..<n]" by (simp add: map_Suc_upt upt_conv_Cons del: upt_Suc)
  then show ?thesis
    unfolding array_slots_def by (simp add: o_def algebra_simps del: upt_Suc)
qed

lemma array_slots_pointers: "array_slots 0 q p n = ptr_slots p (n * q)"
  by (induction n arbitrary: p)
     (simp_all add: array_slots_Suc ptr_slots_add, simp_all add: array_slots_def ptr_slots_def)

lemma unat_step:
  fixes p :: pointer
  assumes "unat p + k < 2 ^ 64"
  shows "unat (p + of_nat k) = unat p + k"
  using assms unat_add_lem [of p "of_nat k"] by (simp add: unsigned_of_nat take_bit_nat_eq_self)

lemma ptr_loop_slots:
  "unat p + 8 * n < 2 ^ 64 \<Longrightarrow>
    ptr_loop f (p + of_nat (8 * n)) p w =
      map_option (Pair (p + of_nat (8 * n))) (foreach_slots f (ptr_slots p n) w)"
proof (induction n arbitrary: p w)
  case 0
  then show ?case by (subst ptr_loop.simps) (simp add: ptr_slots_def)
next
  case (Suc n)
  have lt: "p < p + of_nat (8 * Suc n)"
    using Suc.prems unat_step [of p "8 * Suc n"] by (simp add: word_less_nat_alt)
  have p8: "unat (p + 8) = unat p + 8" using Suc.prems unat_step [of p 8] by simp
  have "ptr_loop f (p + of_nat (8 * Suc n)) (p + 8) v =
      map_option (Pair (p + of_nat (8 * Suc n))) (foreach_slots f (ptr_slots (p + 8) n) v)" for v
    using Suc.IH [of "p + 8" v] Suc.prems p8 by (simp add: add.assoc)
  with lt show ?case
    by (subst ptr_loop.simps) (simp add: ptr_slots_Suc OBJPTR_SIZE_def split: bind_split)
qed

lemma elem_loop_slots:
  "unat p + n * (b + 8 * q) < 2 ^ 64 \<Longrightarrow> 0 < b + q \<Longrightarrow>
    elem_loop f (of_nat b) (of_nat (8 * q)) (p + of_nat (n * (b + 8 * q))) p w =
      map_option (Pair (p + of_nat (n * (b + 8 * q)))) (foreach_slots f (array_slots b q p n) w)"
proof (induction n arbitrary: p w)
  case 0
  then show ?case by (subst elem_loop.simps) (simp add: array_slots_def)
next
  case (Suc n)
  let ?z = "b + 8 * q"
  have sum: "unat p + ?z + n * ?z < 2 ^ 64" using Suc.prems(1) by (simp add: algebra_simps)
  have lt: "p < p + of_nat (Suc n * ?z)"
    using Suc.prems unat_step [of p "Suc n * ?z"] by (simp add: word_less_nat_alt)
  have b: "unat (p + of_nat b) = unat p + b" using sum by (intro unat_step) linarith
  have z: "unat (p + of_nat ?z) = unat p + ?z" using sum by (intro unat_step) linarith
  have "ptr_loop f (p + of_nat b + of_nat (8 * q)) (p + of_nat b) w =
      map_option (Pair (p + of_nat ?z)) (foreach_slots f (ptr_slots (p + of_nat b) q) w)"
    using ptr_loop_slots [of "p + of_nat b" q f w] b sum by (simp add: add.assoc)
  moreover have "elem_loop f (of_nat b) (of_nat (8 * q)) (p + of_nat (Suc n * ?z)) (p + of_nat ?z) v =
      map_option (Pair (p + of_nat (Suc n * ?z))) (foreach_slots f (array_slots b q (p + of_nat ?z) n) v)" for v
    using Suc.IH [of "p + of_nat ?z" v] sum z Suc.prems(2) by (simp add: algebra_simps)
  ultimately show ?case
    using lt by (subst elem_loop.simps)
      (simp add: array_slots_Suc foreach_slots_append map_option_case split: bind_split option.split)
qed

section \<open>Shapes\<close>

text \<open>What a walk should do, read off the memory it starts in: the slots it visits, in order,
  the addresses it reads on its way, and where it ends. First the frames of a stack.\<close>

inductive frames_shape ::
    "gc_static \<Rightarrow> mem \<Rightarrow> pointer \<Rightarrow> pointer \<Rightarrow> pointer list \<Rightarrow> pointer set \<Rightarrow> bool" for g m bottom where
  frames_nil: "frames_shape g m bottom bottom [] {}"
| frames_cons: "frames_shape g m bottom tp (map (\<lambda>o'. tp - ucast (size l) + ucast o') os @ slots)
      (word8 (tp - 8) \<union> meta)"
  if "bottom < tp" "getFrameLayoutFromReturnAddress g (load64 m (tp - 8)) = Some l"
    "frame_offsets l = Some os" "frames_shape g m bottom (tp - ucast (size l)) slots meta"

inductive object_shape ::
    "gc_static \<Rightarrow> bool \<Rightarrow> mem \<Rightarrow> pointer \<Rightarrow> pointer list \<Rightarrow> pointer set \<Rightarrow> pointer \<Rightarrow> bool" for g skipWeaks m p where
  normal_shape: "object_shape g skipWeaks m p (ptr_slots (p + ucast (bytesNonObjptrs ty)) (unat (numObjptrs ty)))
      (word8 (p - 8)) (p + elementBytes ty)"
  if "splitHeader (objectTypes g) (getHeader m p) = Some ty" "tag ty = NORMAL_TAG"
    "unat p + unat (elementBytes ty) < 2 ^ 64"
| weak_shape: "object_shape g skipWeaks m p (if skipWeaks then [] else ptr_slots (p + ucast (bytesNonObjptrs ty)) (unat (numObjptrs ty)))
      (word8 (p - 8)) (p + elementBytes ty)"
  if "splitHeader (objectTypes g) (getHeader m p) = Some ty" "tag ty = WEAK_TAG" "numObjptrs ty \<le> 1"
| array_shape: "object_shape g skipWeaks m p
      (array_slots (unat (bytesNonObjptrs ty)) (unat (numObjptrs ty)) p (unat (getArrayLength m p)))
      (word8 (p - 8) \<union> word8 (p - 16)) (p + sizeofArrayNoHeader g (getArrayLength m p) ty)"
  if "splitHeader (objectTypes g) (getHeader m p) = Some ty" "tag ty = ARRAY_TAG"
    "unat p + unat (getArrayLength m p) * unat (elementBytes ty) < 2 ^ 64"
| stack_shape: "object_shape g skipWeaks m p ((p + 32) # slots)
      (word8 (p - 8) \<union> word8 (p + 16) \<union> word8 (p + 24) \<union> meta) (p + sizeofStackNoHeader m p)"
  if "splitHeader (objectTypes g) (getHeader m p) = Some ty" "tag ty = STACK_TAG"
    "frames_shape g m (getStackBottom p) (getStackTop m p) slots meta"
| header_only_shape: "object_shape g skipWeaks m p [] (word8 (p - 8)) p"
  if "splitHeader (objectTypes g) (getHeader m p) = Some ty" "tag ty = HEADER_ONLY_TAG"
| fill_shape: "object_shape g skipWeaks m p [] (word8 (p - 8) \<union> {x. off p x < 4})
      (p + (GC_SMALL_GAP_SIZE_SIZE + ucast (load32 m p)))"
  if "splitHeader (objectTypes g) (getHeader m p) = Some ty" "tag ty = FILL_TAG"

inductive objects_shape ::
    "gc_static \<Rightarrow> bool \<Rightarrow> mem \<Rightarrow> pointer \<Rightarrow> pointer \<Rightarrow> pointer list \<Rightarrow> pointer set \<Rightarrow> bool" for g skipWeaks m b where
  objects_nil: "objects_shape g skipWeaks m b b [] {}"
| objects_cons: "objects_shape g skipWeaks m b front (slots @ slots') (word8 front \<union> word8 (p - 8) \<union> meta \<union> meta')"
  if "front < b" "advanceToObjectData m front = p" "getHeader m p \<noteq> GC_FORWARDED"
    "object_shape g skipWeaks m p slots meta next'" "objects_shape g skipWeaks m b next' slots' meta'"

text \<open>The end of an object is where \<open>sizeofObjectNoHeader\<close> puts it.\<close>

lemma object_shape_end:
  assumes "object_shape g skipWeaks m p slots meta next'"
    "getHeader m p \<noteq> GC_FORWARDED" "getHeader m p AND 1 \<noteq> 0"
  shows "map_option (\<lambda>n. p + n) (sizeofObjectNoHeader g B m p) = Some next'"
  using assms(1) assms(2,3)
  by cases (simp_all add: sizeofObjectNoHeader_def skipForwarded_end skipThreaded_end objectBytesByTag_def)

section \<open>Walks with a client that writes only its slot\<close>

definition slots_apart :: "pointer list \<Rightarrow> pointer set \<Rightarrow> bool" where
  "slots_apart slots S \<longleftrightarrow> (\<forall>a\<in>set slots. word8 a \<inter> S = {})"

lemma slots_apart_simps [simp]:
  "slots_apart [] S" "slots_apart (a # as) S \<longleftrightarrow> word8 a \<inter> S = {} \<and> slots_apart as S"
  "slots_apart (as @ bs) S \<longleftrightarrow> slots_apart as S \<and> slots_apart bs S"
  "slots_apart as (S \<union> T) \<longleftrightarrow> slots_apart as S \<and> slots_apart as T"
  by (auto simp: slots_apart_def)

lemma getHeader_agree: "agree (word8 (p - 8)) m m' \<Longrightarrow> getHeader m p = getHeader m' p"
  by (simp add: getHeader_def getHeaderp_def GC_HEADER_SIZE_def agree_load64)

lemma getArrayLength_agree: "agree (word8 (p - 16)) m m' \<Longrightarrow> getArrayLength m p = getArrayLength m' p"
  using agree_load64 [of "p - 16" m m']
  by (simp add: getArrayLength_def getArrayLengthp_def GC_HEADER_SIZE_def GC_ARRAY_LENGTH_SIZE_def)

lemma elementBytes_nat: "elementBytes ty = of_nat (unat (bytesNonObjptrs ty) + 8 * unat (numObjptrs ty))"
  by (simp add: elementBytes_def OBJPTR_SIZE_def mult.commute)

lemma array_slots_none: "q = 0 \<or> n = 0 \<Longrightarrow> array_slots b q p n = []"
  by (auto simp: array_slots_def ptr_slots_def)

lemma array_loop_slots:
  assumes "unat p + unat n * unat (elementBytes ty) < 2 ^ 64" "0 < unat (numObjptrs ty)"
  shows "(if bytesNonObjptrs ty = 0 then ptr_loop f (p + n * elementBytes ty) p w
      else elem_loop f (ucast (bytesNonObjptrs ty)) (ucast (numObjptrs ty) * OBJPTR_SIZE) (p + n * elementBytes ty) p w) =
    map_option (Pair (p + n * elementBytes ty))
      (foreach_slots f (array_slots (unat (bytesNonObjptrs ty)) (unat (numObjptrs ty)) p (unat n)) w)"
proof -
  let ?b = "unat (bytesNonObjptrs ty)" and ?q = "unat (numObjptrs ty)" and ?d = "n * elementBytes ty"
  have d: "unat ?d = unat n * (?b + 8 * ?q)"
    using assms(1) unat_mult_lem [of n "elementBytes ty"] by (simp add: elementBytes_unat mult.commute)
  then have dw: "?d = of_nat (unat n * (?b + 8 * ?q))" by (simp flip: d)
  have lim: "unat p + unat n * (?b + 8 * ?q) < 2 ^ 64"
    using assms(1) by (simp add: elementBytes_unat mult.commute)
  have "ptr_loop f (p + ?d) p w = map_option (Pair (p + ?d)) (foreach_slots f (array_slots ?b ?q p (unat n)) w)"
    if "bytesNonObjptrs ty = 0"
    using ptr_loop_slots [of p "unat n * ?q" f w] lim that
    by (simp add: dw array_slots_pointers mult.left_commute mult.commute)
  moreover have "elem_loop f (ucast (bytesNonObjptrs ty)) (ucast (numObjptrs ty) * OBJPTR_SIZE) (p + ?d) p w =
      map_option (Pair (p + ?d)) (foreach_slots f (array_slots ?b ?q p (unat n)) w)"
    using elem_loop_slots [of p "unat n" ?b ?q f w] lim assms(2)
    by (simp add: dw OBJPTR_SIZE_def mult.commute)
  ultimately show ?thesis by simp
qed

lemma foreach_array_slots:
  assumes "n = getArrayLength (wmem w) p" "unat p + unat n * unat (elementBytes ty) < 2 ^ 64"
  shows "foreach_array g f ty p w = map_option (Pair (p + sizeofArrayNoHeader g n ty))
    (foreach_slots (callIfIsObjptr f) (array_slots (unat (bytesNonObjptrs ty)) (unat (numObjptrs ty)) p (unat n)) w)"
proof (cases "n * elementBytes ty < OBJPTR_SIZE \<or> numObjptrs ty = 0")
  case True
  have "unat (n * elementBytes ty) = unat n * (unat (bytesNonObjptrs ty) + 8 * unat (numObjptrs ty))"
    using assms(2) unat_mult_lem [of n "elementBytes ty"] by (simp add: elementBytes_unat mult.commute)
  with True have "unat (numObjptrs ty) = 0 \<or> unat n = 0"
    by (auto simp: OBJPTR_SIZE_def word_less_nat_alt mult_less_cancel2 split: nat.splits)
      (cases "unat n"; cases "unat (numObjptrs ty)"; simp)
  with True show ?thesis
    by (auto simp: foreach_array_def Let_def assms(1) [symmetric] array_slots_none sizeofArrayNoHeader_def)
next
  case False
  then have "0 < unat (numObjptrs ty)" by (simp add: unat_gt_0)
  from array_loop_slots [OF assms(2) this, of "callIfIsObjptr f" w] False show ?thesis
    by (simp add: foreach_array_def Let_def assms(1) [symmetric] sizeofArrayNoHeader_def map_option_case
        split: bind_split option.split if_splits)
qed

locale slot_local =
  fixes f :: "pointer \<Rightarrow> 'a world \<Rightarrow> 'a world option"
  assumes other_mem: "f opp w = Some w' \<Longrightarrow> 8 \<le> off opp x \<Longrightarrow> wmem w' x = wmem w x"
    and same_ranges: "f opp w = Some w' \<Longrightarrow> rangeListCurrent w' = rangeListCurrent w"
begin

lemma call_agree: "callIfIsObjptr f opp w = Some w' \<Longrightarrow> word8 opp \<inter> S = {} \<Longrightarrow> agree S (wmem w) (wmem w')"
  using other_mem [of opp w w'] unfolding agree_def callIfIsObjptr_def word8_def
  by (auto split: if_splits) (metis disjoint_iff mem_Collect_eq not_less)

lemma call_ranges: "callIfIsObjptr f opp w = Some w' \<Longrightarrow> rangeListCurrent w' = rangeListCurrent w"
  using same_ranges [of opp w w'] by (auto simp: callIfIsObjptr_def split: if_splits)

lemma slots_agree:
  "foreach_slots (callIfIsObjptr f) slots w = Some w' \<Longrightarrow> slots_apart slots S \<Longrightarrow> agree S (wmem w) (wmem w')"
proof (induction slots arbitrary: w)
  case (Cons a slots)
  then show ?case by (auto simp: bind_eq_Some_conv intro: agree_trans dest: call_agree)
qed simp

lemma slots_ranges: "foreach_slots (callIfIsObjptr f) slots w = Some w' \<Longrightarrow> rangeListCurrent w' = rangeListCurrent w"
  by (induction slots arbitrary: w) (auto simp: bind_eq_Some_conv dest!: call_ranges)

lemma frame_loop_shape:
  "frames_shape g m bottom tp slots meta \<Longrightarrow> agree meta m (wmem w) \<Longrightarrow> slots_apart slots meta \<Longrightarrow>
    frame_loop g f bottom tp w = foreach_slots (callIfIsObjptr f) slots w"
proof (induction arbitrary: w rule: frames_shape.induct)
  case frames_nil
  then show ?case by (subst frame_loop.simps) simp
next
  case (frames_cons tp l os slots meta)
  let ?now = "map (\<lambda>o'. tp - ucast (size l) + ucast o') os"
  have "frame_loop g f bottom (tp - ucast (size l)) v = foreach_slots (callIfIsObjptr f) slots v"
    if "foreach_slots (callIfIsObjptr f) ?now w = Some v" for v
  proof (rule frames_cons.IH)
    show "agree meta m (wmem v)"
      using slots_agree [OF that, of meta] frames_cons.prems by (auto intro: agree_trans)
  qed (use frames_cons.prems in simp)
  moreover have "load64 (wmem w) (tp - 8) = load64 m (tp - 8)"
    using frames_cons.prems(1) by (auto dest: agree_load64)
  ultimately show ?case
    using frames_cons.hyps
    by (subst frame_loop.simps) (auto simp: foreach_slots_append GC_RETURNADDRESS_SIZE_def cong: Option.bind_cong split: bind_split)
qed

lemma object_walk:
  assumes "object_shape (static e) skipWeaks m p slots meta next'" "\<not> skipStackToThreadTracing e"
    "agree meta m (wmem w)" "slots_apart slots meta"
  shows "foreachObjptrInObject e f skipWeaks p w = map_option (Pair next') (foreach_slots (callIfIsObjptr f) slots w)"
  using assms(1)
proof cases
  case (normal_shape ty)
  have "getHeader (wmem w) p = getHeader m p"
    using assms(3) normal_shape by (auto simp: getHeader_agree)
  moreover have "unat (p + ucast (bytesNonObjptrs ty)) + 8 * unat (numObjptrs ty) < 2 ^ 64"
    using normal_shape(6) unat_step [of p "unat (bytesNonObjptrs ty)"] by (simp add: elementBytes_unat)
  ultimately show ?thesis
    using normal_shape ptr_loop_slots [of "p + ucast (bytesNonObjptrs ty)" "unat (numObjptrs ty)" "callIfIsObjptr f" w]
    by (simp add: foreachObjptrInObject_def Let_def OBJPTR_SIZE_def elementBytes_nat mult.commute add.assoc)
next
  case (weak_shape ty)
  have "getHeader (wmem w) p = getHeader m p"
    using assms(3) weak_shape by (auto simp: getHeader_agree)
  moreover have "numObjptrs ty = 0 \<or> numObjptrs ty = 1"
    using weak_shape(6) by (auto simp: word_le_nat_alt word_unat_eq_iff)
  ultimately show ?thesis
    using weak_shape
    by (auto simp: foreachObjptrInObject_def Let_def elementBytes_def OBJPTR_SIZE_def ptr_slots_def add.assoc
        map_option_case split: bind_split option.split)
next
  case (array_shape ty)
  have "getHeader (wmem w) p = getHeader m p" "getArrayLength (wmem w) p = getArrayLength m p"
    using assms(3) array_shape by (auto simp: getHeader_agree getArrayLength_agree)
  then show ?thesis
    using array_shape foreach_array_slots [of "getArrayLength m p" w p ty "static e" f]
    by (simp add: foreachObjptrInObject_def)
next
  case (stack_shape ty fslots fmeta)
  have "getHeader (wmem w) p = getHeader m p" "getStackTop (wmem w) p = getStackTop m p"
    using assms(3) stack_shape by (auto simp: getHeader_agree getStackTop_def stack_used_def agree_load64 dest: agree_load64)
  moreover have "frame_loop (static e) f (getStackBottom p) (getStackTop m p) v = foreach_slots (callIfIsObjptr f) fslots v"
    if "callIfIsObjptr f (p + 32) w = Some v" for v
    using stack_shape(6) call_agree [OF that, of fmeta] assms(3,4) stack_shape
    by (intro frame_loop_shape [where m = m and meta = fmeta]) (auto intro: agree_trans)
  moreover have "stack_reserved (wmem v) p = stack_reserved m p"
    if "foreach_slots (callIfIsObjptr f) slots w = Some v" for v
    using slots_agree [OF that, of "word8 (p + 16)"] assms(3,4) stack_shape
    by (auto simp: stack_reserved_def dest!: agree_load64)
  ultimately show ?thesis
    using stack_shape assms(2)
    by (auto simp: foreachObjptrInObject_def foreach_stack_def Let_def sizeofStackNoHeader_def map_option_case
        split: bind_split option.split)
next
  case (header_only_shape ty)
  then show ?thesis
    using assms(3) by (auto simp: foreachObjptrInObject_def getHeader_agree dest!: getHeader_agree)
next
  case (fill_shape ty)
  then show ?thesis
    using assms(3) by (auto simp: foreachObjptrInObject_def add.assoc dest!: getHeader_agree agree_load32)
qed

lemma range_step_object:
  assumes "rangeListCurrent w = []" "getHeader (wmem w) (advanceToObjectData (wmem w) front) \<noteq> GC_FORWARDED"
  shows "range_step e f skipWeaks fillForwarded front w =
    foreachObjptrInObject e f skipWeaks (advanceToObjectData (wmem w) front) w"
  using assms by (simp add: range_step_def skip_range_def)

lemma range_walk:
  "objects_shape (static e) skipWeaks m b front slots meta \<Longrightarrow> \<not> skipStackToThreadTracing e \<Longrightarrow>
    agree meta m (wmem w) \<Longrightarrow> slots_apart slots meta \<Longrightarrow> rangeListCurrent w = [] \<Longrightarrow>
    range_loop e f skipWeaks fillForwarded (\<lambda>_. b) b front w =
      map_option (Pair b) (foreach_slots (callIfIsObjptr f) slots w)"
proof (induction arbitrary: w rule: objects_shape.induct)
  case objects_nil
  then show ?case by (subst range_loop.simps) simp
next
  case (objects_cons front p slots meta next' slots' meta')
  have "load64 m front = load64 (wmem w) front"
    using objects_cons.prems(2) by (auto intro: agree_load64)
  then have p: "advanceToObjectData (wmem w) front = p"
    using objects_cons.hyps(2) by (simp add: advanceToObjectData_def)
  have "getHeader (wmem w) p = getHeader m p"
    using objects_cons.prems(2) by (auto simp: getHeader_agree)
  then have "range_step e f skipWeaks fillForwarded front w =
      map_option (Pair next') (foreach_slots (callIfIsObjptr f) slots w)"
    using objects_cons.hyps p objects_cons.prems
    by (subst range_step_object) (auto intro!: object_walk)
  moreover have "range_loop e f skipWeaks fillForwarded (\<lambda>_. b) b next' v =
      map_option (Pair b) (foreach_slots (callIfIsObjptr f) slots' v)" if "foreach_slots (callIfIsObjptr f) slots w = Some v" for v
  proof (rule objects_cons.IH)
    show "agree meta' m (wmem v)"
      using slots_agree [OF that, of meta'] objects_cons.prems by (auto intro: agree_trans)
    show "rangeListCurrent v = []" using slots_ranges [OF that] objects_cons.prems by simp
  qed (use objects_cons.prems in simp_all)
  ultimately show ?case
    using objects_cons.hyps(1)
    by (subst range_loop.simps) (auto simp: foreach_slots_append map_option_case split: bind_split option.split)
qed

end

text \<open>An action whose effect on a slot depends on the contents of the slot only.\<close>

lemma foreach_slots_update:
  assumes "\<And>opp w. act opp w = Some (w\<lparr>wmem := store64 (wmem w) opp (h (load64 (wmem w) opp))\<rparr>)"
  shows "sorted_wrt (\<lambda>a b. disjnt_regions a 8 b 8) slots \<Longrightarrow>
    \<exists>w'. foreach_slots act slots w = Some w' \<and>
      (\<forall>a\<in>set slots. load64 (wmem w') a = h (load64 (wmem w) a)) \<and>
      (\<forall>x. (\<forall>a\<in>set slots. x \<notin> word8 a) \<longrightarrow> wmem w' x = wmem w x)"
proof (induction slots arbitrary: w)
  case (Cons a slots)
  let ?v = "w\<lparr>wmem := store64 (wmem w) a (h (load64 (wmem w) a))\<rparr>"
  obtain w' where w': "foreach_slots act slots ?v = Some w'"
    "\<forall>b\<in>set slots. load64 (wmem w') b = h (load64 (wmem ?v) b)"
    "\<forall>x. (\<forall>b\<in>set slots. x \<notin> word8 b) \<longrightarrow> wmem w' x = wmem ?v x"
    using Cons.IH [of ?v] Cons.prems by auto
  have apart: "\<forall>b\<in>set slots. disjnt_regions a 8 b 8" using Cons.prems by simp
  have "agree (word8 a) (wmem w') (wmem ?v)"
    unfolding agree_def using w'(3) apart word8_disjnt by fast
  then have "load64 (wmem w') a = h (load64 (wmem w) a)" by (simp add: agree_load64)
  moreover have "load64 (wmem w') b = h (load64 (wmem w) b)" if "b \<in> set slots" for b
    using w'(2) apart that by (simp add: load64_store64_disjnt)
  moreover have "wmem w' x = wmem w x" if "x \<notin> word8 a" "\<forall>b\<in>set slots. x \<notin> word8 b" for x
    using w'(3) that by (simp add: word8_def store64_other)
  ultimately show ?case
    using w'(1) by (intro exI [of _ w']) (simp add: assms [of a w])
qed simp

text \<open>A client whose effect on a slot depends on the contents of the slot only.\<close>

locale slot_update = slot_local +
  fixes t :: "objptr \<Rightarrow> objptr"
  assumes update: "isObjptr (load64 (wmem w) opp) \<Longrightarrow>
    f opp w = Some (w\<lparr>wmem := store64 (wmem w) opp (t (load64 (wmem w) opp))\<rparr>)"
begin

abbreviation updated :: "objptr \<Rightarrow> objptr" where
  "updated v \<equiv> (if isObjptr v then t v else v)"

lemma call_update:
  "callIfIsObjptr f opp w = Some (w\<lparr>wmem := store64 (wmem w) opp (updated (load64 (wmem w) opp))\<rparr>)"
  by (simp add: callIfIsObjptr_def update)

lemmas slots_update = foreach_slots_update [of "callIfIsObjptr f" updated, OF call_update]

lemma range_update:
  assumes "objects_shape (static e) skipWeaks (wmem w) b front slots meta" "\<not> skipStackToThreadTracing e"
    "slots_apart slots meta" "rangeListCurrent w = []" "sorted_wrt (\<lambda>a b. disjnt_regions a 8 b 8) slots"
  shows "\<exists>w'. range_loop e f skipWeaks fillForwarded (\<lambda>_. b) b front w = Some (b, w') \<and>
      (\<forall>a\<in>set slots. load64 (wmem w') a = updated (load64 (wmem w) a)) \<and>
      (\<forall>x. (\<forall>a\<in>set slots. x \<notin> word8 a) \<longrightarrow> wmem w' x = wmem w x)"
  using slots_update [OF assms(5), of w] range_walk [OF assms(1,2) _ assms(3,4)] by auto

end

section \<open>The clients\<close>

definition translated :: "GC_translateState \<Rightarrow> objptr \<Rightarrow> objptr" where
  "translated t v = (if translating t v then v - tr_from t + tr_to t else v)"

lemma world_same [simp]: "w\<lparr>wmem := wmem w\<rparr> = w"
  by simp

lemma translateObjptrInRange_eq:
  "translateObjptrInRange t opp w =
    Some (w\<lparr>wmem := store64 (wmem w) opp (translated t (load64 (wmem w) opp))\<rparr>)"
  by (simp add: translateObjptrInRange_def translated_def)

interpretation in_range: slot_update "translateObjptrInRange t" "translated t" for t
  by unfold_locales (auto simp: translateObjptrInRange_eq store64_other)

definition translated_local :: "GC_heap \<Rightarrow> GC_translateState \<Rightarrow> objptr \<Rightarrow> objptr" where
  "translated_local shared t v = (if isPointerInHeap shared v then v else v - tr_from t + tr_to t)"

lemma translateObjptrLocal_eq:
  "translateObjptrLocal shared t opp w =
    Some (w\<lparr>wmem := store64 (wmem w) opp (translated_local shared t (load64 (wmem w) opp))\<rparr>)"
  by (simp add: translateObjptrLocal_def translated_local_def)

interpretation in_local: slot_update "translateObjptrLocal shared t" "translated_local shared t" for shared t
  by unfold_locales (auto simp: translateObjptrLocal_eq store64_other)

text \<open>The read barrier as a client, as \<open>garbage-collection.c\<close> and \<open>reclaim.c\<close> use it.\<close>

definition fixFwd_client :: "pointer \<Rightarrow> 'a foreachObjptrFun" where
  "fixFwd_client B opp w = map_option (\<lambda>m. w\<lparr>wmem := m\<rparr>) (fixFwdObjptr (wmem w) B opp)"

lemma fixFwd_loop_other:
  assumes "fixFwd_loop m B opp p = Some m'" "8 \<le> off opp x"
  shows "m' x = m x"
proof -
  have "8 \<le> off opp x \<longrightarrow> m' x = m x"
  proof (rule fixFwd_loop.raw_induct [of "\<lambda>m B opp p m'. 8 \<le> off opp x \<longrightarrow> m' x = m x", OF _ assms(1)])
    fix loop m B opp p m'
    assume 1: "\<And>m B opp p m'. loop m B opp p = Some m' \<Longrightarrow> 8 \<le> off opp x \<longrightarrow> m' x = m x"
      "(if isObjptr (load64 m opp) \<and> getHeader m p = GC_FORWARDED
        then loop (store64 m opp (load64 m p)) B opp
          (objptrToPointer (load64 (store64 m opp (load64 m p)) opp) B) else Some m) = Some m'"
    show "8 \<le> off opp x \<longrightarrow> m' x = m x"
      using 1(1) [of "store64 m opp (load64 m p)"] 1(2) by (auto simp: store64_other split: if_splits)
  qed
  then show ?thesis using assms(2) by simp
qed

interpretation fixFwd: slot_local "fixFwd_client B" for B
  by unfold_locales
    (auto simp: fixFwd_client_def fixFwdObjptr_def fixFwd_loop_other split: if_splits)

section \<open>Filling gaps: lemmas\<close>

text \<open>The entries that every program's type table has for the fillers.\<close>

definition std_types :: "gc_static \<Rightarrow> bool" where
  "std_types g \<longleftrightarrow>
    (\<exists>ty. splitHeader (objectTypes g) GC_WORD8_VECTOR_HEADER = Some ty \<and> tag ty = ARRAY_TAG \<and>
      bytesNonObjptrs ty = 1 \<and> numObjptrs ty = 0) \<and>
    (\<exists>ty. splitHeader (objectTypes g) GC_HEADER_ONLY_HEADER = Some ty \<and> tag ty = HEADER_ONLY_TAG) \<and>
    (\<exists>ty. splitHeader (objectTypes g) GC_FILL_HEADER = Some ty \<and> tag ty = FILL_TAG)"

lemmas filler_headers = GC_WORD8_VECTOR_HEADER_def GC_HEADER_ONLY_HEADER_def GC_FILL_HEADER_def
  buildHeaderFromTypeIndex_def WORD8_VECTOR_TYPE_INDEX_def HEADER_ONLY_TYPE_INDEX_def FILL_TYPE_INDEX_def
  GC_FORWARDED_def

lemmas header_sizes = GC_HEADER_SIZE_def GC_ARRAY_HEADER_SIZE_def GC_ARRAY_COUNTER_SIZE_def
  GC_ARRAY_LENGTH_SIZE_def GC_NORMAL_HEADER_SIZE_def OBJPTR_SIZE_def GC_BONUS_SLOP_def
  GC_SMALL_GAP_SIZE_SIZE_def

lemma one_object:
  assumes "start < end'" "advanceToObjectData m start = p" "getHeader m p \<noteq> GC_FORWARDED"
    "object_shape g skipWeaks m p [] meta end'"
  shows "\<exists>meta. objects_shape g skipWeaks m end' start [] meta"
  using objects_cons [OF assms objects_nil] by auto

lemma align_aligned:
  assumes "align_arg b" "isAligned a b" "unat a + unat b \<le> 2 ^ 64"
  shows "align a b = a"
  using align_le [OF assms(1,3,2) order_refl] align_ge [OF assms(1,3)] by simp

lemma byte_vector_size:
  assumes "align_arg (alignment g)" "isAligned d (alignment g)" "unat d + unat (alignment g) \<le> 2 ^ 64"
    "32 \<le> d" "bytesNonObjptrs ty = 1" "numObjptrs ty = 0"
  shows "sizeofArrayNoHeader g (d - 24) ty = d - 24"
proof -
  have "\<not> d - 24 < 8"
    using assms(4) by (simp add: word_less_nat_alt word_le_nat_alt unat_sub)
  then show ?thesis
    using align_aligned [OF assms(1-3)] assms(5,6)
    by (simp add: sizeofArrayNoHeader_def Let_def elementBytes_def alignWithExtra_def header_sizes)
qed

lemma fill_array:
  assumes "std_types g" "align_arg (alignment g)" "isAligned (end' - start) (alignment g)"
    "unat (alignment g) \<le> 8" "start \<noteq> 0" "start < end'" "unat end' < 2 ^ 63" "32 \<le> end' - start"
  shows "\<exists>m' meta. fillGap start end' m = Some (m', end' - start) \<and>
    objects_shape g skipWeaks m' end' start [] meta \<and>
    (\<forall>x. unat (end' - start) \<le> off start x \<longrightarrow> m' x = m x)"
proof -
  let ?d = "end' - start"
  define m' where "m' = store64 (store64 (store64 m start 0) (start + 8) (?d - 24)) (start + 16) GC_WORD8_VECTOR_HEADER"
  obtain ty where ty: "splitHeader (objectTypes g) GC_WORD8_VECTOR_HEADER = Some ty" "tag ty = ARRAY_TAG"
      "bytesNonObjptrs ty = 1" "numObjptrs ty = 0"
    using assms(1) by (auto simp: std_types_def)
  have d: "unat ?d = unat end' - unat start" "32 \<le> unat ?d" "unat (?d - 24) = unat ?d - 24"
    using assms(6,8) by (simp_all add: unat_sub word_le_nat_alt word_less_nat_alt)
  have ptrs: "getArrayLengthp (start + 24) = start + 8" "getHeaderp (start + 24) = start + 16"
    by (simp_all add: getArrayLengthp_def getHeaderp_def header_sizes add.commute)
  have loads: "load64 m' start = 0" "getArrayLength m' (start + 24) = ?d - 24"
      "getHeader m' (start + 24) = GC_WORD8_VECTOR_HEADER"
    by (simp_all add: m'_def getArrayLength_def getHeader_def ptrs load64_store64_disjnt disjnt_regions_def)
  have "sizeofArrayNoHeader g (?d - 24) ty = ?d - 24"
    using assms d ty by (intro byte_vector_size) simp_all
  moreover have "unat (start + 24) + unat (?d - 24) < 2 ^ 64"
    using unat_step [of start 24] d assms(7) by simp
  ultimately have "object_shape g skipWeaks m' (start + 24) [] (word8 (16 + start) \<union> word8 (8 + start)) end'"
    using array_shape [of g m' "start + 24" ty skipWeaks] ty loads
    by (simp add: elementBytes_def array_slots_none)
  then have "\<exists>meta. objects_shape g skipWeaks m' end' start [] meta"
    using loads by (intro one_object [OF assms(6) _ _ ])
      (simp_all add: advanceToObjectData_def header_sizes, simp_all add: filler_headers)
  moreover have "fillGap start end' m = Some (m', ?d)"
    using assms(5,8) d by (auto simp: fillGap_def Let_def header_sizes m'_def add.commute)
  moreover have "m' x = m x" if "unat ?d \<le> off start x" for x
  proof -
    have "32 \<le> off start x" using that d by linarith
    then have "8 \<le> off (start + 8) x" "8 \<le> off (start + 16) x"
      using unat_sub [of 8 "x - start"] unat_sub [of 16 "x - start"]
      by (simp_all add: word_le_nat_alt diff_diff_eq)
    with \<open>32 \<le> off start x\<close> show ?thesis by (simp add: m'_def store64_other)
  qed
  ultimately show ?thesis by blast
qed

lemma fill_small:
  assumes "std_types g" "isAligned (end' - start) (alignment g)"
    "alignment g = 4 \<or> alignment g = 8" "start \<noteq> 0" "start < end'" "\<not> 32 \<le> end' - start" "end' - start \<noteq> 4"
  shows "\<exists>m' meta. fillGap start end' m = Some (m', end' - start) \<and>
    objects_shape g skipWeaks m' end' start [] meta \<and>
    (\<forall>x. unat (end' - start) \<le> off start x \<longrightarrow> m' x = m x)"
proof (cases "end' - start = 8")
  case True
  let ?m = "store64 m start GC_HEADER_ONLY_HEADER"
  obtain ty where ty: "splitHeader (objectTypes g) GC_HEADER_ONLY_HEADER = Some ty" "tag ty = HEADER_ONLY_TAG"
    using assms(1) by (auto simp: std_types_def)
  have e: "end' = start + 8" using True by (simp add: algebra_simps)
  have "object_shape g skipWeaks ?m end' [] (word8 (end' - 8)) end'"
    by (rule header_only_shape) (use ty in \<open>simp_all add: e getHeader_def getHeaderp_def header_sizes\<close>)
  moreover have "advanceToObjectData ?m start = end'" "getHeader ?m end' \<noteq> GC_FORWARDED"
    by (simp_all add: e advanceToObjectData_def getHeader_def getHeaderp_def header_sizes, simp_all add: filler_headers)
  ultimately have "\<exists>meta. objects_shape g skipWeaks ?m end' start [] meta"
    using assms(5) by (intro one_object)
  moreover have "fillGap start end' m = Some (?m, end' - start)"
    using True assms(4) by (simp add: fillGap_def Let_def header_sizes)
  ultimately show ?thesis using True by (auto simp: store64_other)
next
  case False
  let ?d = "end' - start"
  have small: "unat ?d mod 4 = 0" "unat ?d < 32"
    using assms(2,3,6) by (auto simp: isAligned_unat word_le_nat_alt mod_eq_0_iff_dvd intro: dvd_trans [of 4 8])
  have "unat ?d \<noteq> 0" "unat ?d \<noteq> 4" "unat ?d \<noteq> 8"
    using assms(5,7) False by (auto simp: word_unat_eq_iff unat_sub_if' word_less_nat_alt split: if_splits)
  then have d: "12 \<le> unat ?d" using small by presburger
  let ?m = "store32 (store64 m start GC_FILL_HEADER) (start + 8) (ucast (?d - 12))"
  obtain ty where ty: "splitHeader (objectTypes g) GC_FILL_HEADER = Some ty" "tag ty = FILL_TAG"
    using assms(1) by (auto simp: std_types_def)
  have "load64 ?m start = load64 (store64 m start GC_FILL_HEADER) start"
    unfolding load64_def store32_def
    by (subst load_bytes_store_disjnt) (simp_all add: disjnt_regions_def)
  then have h: "load64 ?m start = GC_FILL_HEADER" by simp
  have "unat (?d - 12) < 2 ^ 32" using d small by (simp add: unat_sub word_le_nat_alt)
  then have l: "(ucast (load32 ?m (start + 8)) :: u64) = ?d - 12"
    by (simp add: word_unat_eq_iff unsigned_ucast_eq unat_take_bit)
  have "object_shape g skipWeaks ?m (start + 8) [] (word8 (start + 8 - 8) \<union> {x. off (start + 8) x < 4})
      (start + 8 + (GC_SMALL_GAP_SIZE_SIZE + ucast (load32 ?m (start + 8))))"
    by (rule fill_shape) (use ty h in \<open>simp_all add: getHeader_def getHeaderp_def header_sizes\<close>)
  then have "object_shape g skipWeaks ?m (start + 8) [] (word8 (start + 8 - 8) \<union> {x. off (start + 8) x < 4}) end'"
    unfolding l by (simp add: header_sizes)
  moreover have "advanceToObjectData ?m start = start + 8" "getHeader ?m (start + 8) \<noteq> GC_FORWARDED"
    by (simp_all add: h advanceToObjectData_def getHeader_def getHeaderp_def header_sizes, simp_all add: filler_headers)
  ultimately have "\<exists>meta. objects_shape g skipWeaks ?m end' start [] meta"
    using assms(5) by (intro one_object)
  moreover have "fillGap start end' m = Some (?m, ?d)"
    using False d small assms(4) by (auto simp: fillGap_def Let_def header_sizes word_le_nat_alt)
  moreover have "?m x = m x" if "unat ?d \<le> off start x" for x
  proof -
    have "12 \<le> off start x" using that d by linarith
    then have "4 \<le> off (start + 8) x"
      using unat_sub [of 8 "x - start"] by (simp add: word_le_nat_alt diff_diff_eq)
    with \<open>12 \<le> off start x\<close> show ?thesis by (simp add: store32_other store64_other)
  qed
  ultimately show ?thesis by blast
qed

section \<open>Stack frames: lemmas\<close>

text \<open>The frame indices of a stack, from the top down, and the addresses read on the way.\<close>

inductive frame_indices ::
    "gc_static \<Rightarrow> mem \<Rightarrow> pointer \<Rightarrow> pointer \<Rightarrow> u32 list \<Rightarrow> pointer set \<Rightarrow> bool" for g m bottom where
  indices_nil: "frame_indices g m bottom bottom [] {}"
| indices_cons: "frame_indices g m bottom tp (i # is) (word8 (tp - 8) \<union> meta)"
  if "bottom < tp" "i = getFrameIndexFromReturnAddress g (load64 m (tp - 8))" "unat i < length (frameLayouts g)"
    "frame_indices g m bottom (tp - ucast (size (frameLayouts g ! unat i))) is meta"

lemma frame_walk:
  assumes "\<And>k i w. k < n \<Longrightarrow> I k w \<Longrightarrow> I (Suc k) (f i w) \<and> agree S (wmem w) (wmem (f i w))"
  shows "frame_indices g m bottom tp is meta \<Longrightarrow> meta \<subseteq> S \<Longrightarrow> agree S m (wmem w) \<Longrightarrow> I k w \<Longrightarrow>
    k + length is \<le> n \<Longrightarrow> foreachStackFrame g f bottom tp w = Some (Inr (fold f is w))"
proof (induction arbitrary: k w rule: frame_indices.induct)
  case indices_nil
  then show ?case by (subst foreachStackFrame.simps) simp
next
  case (indices_cons tp i "is" meta)
  have "agree (word8 (tp - 8)) m (wmem w)"
    using indices_cons.prems by (auto simp: agree_def)
  then have "getFrameIndexFromReturnAddress g (load64 (wmem w) (tp - GC_RETURNADDRESS_SIZE)) = i"
    using indices_cons.hyps(2) by (simp add: GC_RETURNADDRESS_SIZE_def agree_load64)
  moreover have "foreachStackFrame g f bottom (tp - ucast (size (frameLayouts g ! unat i))) (f i w) =
      Some (Inr (fold f is (f i w)))"
    using indices_cons.prems assms [of k w i] by (intro indices_cons.IH [of _ "Suc k"]) (auto intro: agree_trans)
  ultimately show ?case
    using indices_cons.hyps by (subst foreachStackFrame.simps) (simp add: Let_def)
qed

lemma count_frames:
  "fold numStackFramesAux is w = w\<lparr>rest := (fst (rest w) + of_nat (length is), snd (rest w))\<rparr>"
  by (induction "is" arbitrary: w) (simp_all add: numStackFramesAux_def)

definition fill_frames :: "u32 list \<Rightarrow> pointer \<Rightarrow> nat \<Rightarrow> mem \<Rightarrow> mem" where
  "fill_frames is p k m = fst (fold (\<lambda>i (m, j). (store32 m (p + ucast (of_nat j :: u32) * 4) i, Suc j)) is (m, k))"

lemma fill_frames_Cons: "fill_frames (i # is) p k m = fill_frames is p (Suc k) (store32 m (p + ucast (of_nat k :: u32) * 4) i)"
  by (simp add: fill_frames_def)

lemma callStack_fold:
  "rest w = (of_nat k, p) \<Longrightarrow> fold callStackAux is w =
    w\<lparr>wmem := fill_frames is p k (wmem w), rest := (of_nat (k + length is), p)\<rparr>"
proof (induction "is" arbitrary: w k)
  case Nil
  then show ?case by (simp add: fill_frames_def)
next
  case (Cons i "is")
  have "rest (callStackAux i w) = (of_nat (Suc k), p)" using Cons.prems by (simp add: callStackAux_def)
  from Cons.IH [OF this] show ?case
    using Cons.prems by (simp add: callStackAux_def fill_frames_Cons)
qed

lemma frame_slot: "k < 2 ^ 32 \<Longrightarrow> p + ucast (of_nat k :: u32) * 4 = p + of_nat (4 * k)"
  by (simp add: word_unat_eq_iff unsigned_ucast_eq unsigned_of_nat take_bit_nat_eq_self mult.commute)

lemma unat_of_nat_u64: "n < 2 ^ 64 \<Longrightarrow> unat (of_nat n :: u64) = n"
  by (simp add: unsigned_of_nat take_bit_nat_eq_self)

lemma fill_frames_other:
  "k + length is < 2 ^ 32 \<Longrightarrow> 4 * (k + length is) \<le> off p x \<or> off p x < 4 * k \<Longrightarrow>
    fill_frames is p k m x = m x"
proof (induction "is" arbitrary: k m)
  case Nil
  then show ?case by (simp add: fill_frames_def)
next
  case (Cons i "is")
  have k: "unat (of_nat (4 * k) :: u64) = 4 * k"
    using Cons.prems(1) by (intro unat_of_nat_u64) simp
  have "unat ((x - p) - of_nat (4 * k)) =
      (if 4 * k \<le> off p x then off p x - 4 * k else off p x + 2 ^ 64 - 4 * k)"
    using unat_sub_if' [of "x - p" "of_nat (4 * k)"] unfolding k by (simp del: of_nat_mult)
  moreover have "off (p + of_nat (4 * k)) x = unat ((x - p) - of_nat (4 * k))"
    by (simp only: diff_diff_eq)
  ultimately have "4 \<le> off (p + of_nat (4 * k)) x"
    using Cons.prems by auto
  then have "store32 m (p + of_nat (4 * k)) i x = m x" by (rule store32_other)
  moreover have "fill_frames is p (Suc k) m' x = m' x" for m'
    using Cons.prems by (intro Cons.IH) auto
  ultimately show ?case
    using Cons.prems by (simp add: fill_frames_Cons frame_slot del: of_nat_mult)
qed

lemma load32_cong: "(\<And>i. i < 4 \<Longrightarrow> m (a + of_nat i) = m' (a + of_nat i)) \<Longrightarrow> load32 m a = load32 m' a"
  unfolding load32_def load_bytes_def by (intro arg_cong [of _ _ word_of_bytes] map_cong) auto

lemma fill_frames_nth:
  "k + length is < 2 ^ 32 \<Longrightarrow> j < length is \<Longrightarrow>
    load32 (fill_frames is p k m) (p + of_nat (4 * (k + j))) = is ! j"
proof (induction "is" arbitrary: k j m)
  case (Cons i "is")
  show ?case
  proof (cases j)
    case 0
    have "load32 (fill_frames is p (Suc k) m') (p + of_nat (4 * k)) = load32 m' (p + of_nat (4 * k))" for m'
    proof (rule load32_cong)
      fix d :: nat assume d: "d < 4"
      have "p + of_nat (4 * k) + of_nat d - p = of_nat (4 * k + d)" by simp
      then have "off p (p + of_nat (4 * k) + of_nat d) = 4 * k + d"
        using Cons.prems(1) d by (simp only:) (intro unat_of_nat_u64, simp)
      then show "fill_frames is p (Suc k) m' (p + of_nat (4 * k) + of_nat d) = m' (p + of_nat (4 * k) + of_nat d)"
        using Cons.prems(1) d by (intro fill_frames_other) (simp_all del: of_nat_mult)
    qed
    then show ?thesis
      using Cons.prems 0 by (simp add: fill_frames_Cons frame_slot del: of_nat_mult)
  next
    case (Suc j')
    then show ?thesis
      using Cons.IH [of "Suc k" j'] Cons.prems by (simp add: fill_frames_Cons del: of_nat_mult)
  qed
qed simp

section \<open>Properties\<close>

text \<open>C10: For a client that writes only its slot, \<open>foreachObjptrInObject\<close> visits the object
  pointers of the object and nothing else, in order, whatever the client makes of them, and
  returns the end of the object, which is where \<open>sizeofObjectNoHeader\<close> puts it. The slots are
  those after the other data of a normal object, those of every element of an array, the
  thread of a stack and the live slots of each of its frames from the top down, and the
  pointer of a weak object unless weak objects are skipped.\<close>

theorem foreachObjptrInObject_correct:
  assumes "\<And>opp w w' x. f opp w = Some w' \<Longrightarrow> 8 \<le> off opp x \<Longrightarrow> wmem w' x = wmem w x"
    and "\<And>opp w w'. f opp w = Some w' \<Longrightarrow> rangeListCurrent w' = rangeListCurrent w"
    and "object_shape (static e) skipWeaks (wmem w) p slots meta next'" "slots_apart slots meta"
    and "\<not> skipStackToThreadTracing e"
    and "getHeader (wmem w) p \<noteq> GC_FORWARDED" "getHeader (wmem w) p AND 1 \<noteq> 0"
  shows "foreachObjptrInObject e f skipWeaks p w = map_option (Pair next') (foreach_slots (callIfIsObjptr f) slots w) \<and>
    map_option (\<lambda>n. p + n) (sizeofObjectNoHeader (static e) B (wmem w) p) = Some next'"
proof -
  have "slot_local f" by (rule slot_local.intro) (use assms(1,2) in blast)+
  from slot_local.object_walk [OF this assms(3,5) agree_refl assms(4)]
    object_shape_end [OF assms(3,6,7)]
  show ?thesis by blast
qed

text \<open>An environment and a world for the witnesses: at 4096 an array of one element with four
  bytes of data and two object pointers, the first into the range at 8192.\<close>

definition demo_env :: foreach_env where
  "demo_env = \<lparr> static = demo_static, local_heap = demo_heap LOCAL_HEAP 4096 1024, shared_start = 0,
     skipStackToThreadTracing = False, translateState = \<lparr> tr_from = 8192, tr_to = 4096, tr_size = 48 \<rparr>,
     executingInSection = False \<rparr>"

definition demo_world :: "unit world" where
  "demo_world = \<lparr> wmem = store64 (store64 (store64 (store64 (\<lambda>_. 0) 4104 1) 4112 1) 4124 8200) 4132 3,
     rangeListCurrent = [], rest = () \<rparr>"

lemma demo_loads:
  "load64 (wmem demo_world) 4096 = 0" "load64 (wmem demo_world) 4104 = 1" "load64 (wmem demo_world) 4112 = 1"
  "load64 (wmem demo_world) 4124 = 8200" "load64 (wmem demo_world) 4132 = 3"
  by (simp_all add: demo_world_def load64_store64_disjnt disjnt_regions_def demo_zero_load)

lemma demo_header: "getHeader (wmem demo_world) 4120 = 1" "getArrayLength (wmem demo_world) 4120 = 1"
  by (simp_all add: getHeader_def getHeaderp_def getArrayLength_def getArrayLengthp_def header_sizes demo_loads)

lemma demo_object:
  "object_shape demo_static skipWeaks (wmem demo_world) 4120 [4124, 4132] (word8 4112 \<union> word8 4104) 4144"
proof -
  have "sizeofArrayNoHeader demo_static 1 demo_array_type = 24"
    by (simp add: sizeofArrayNoHeader_def Let_def elementBytes_def demo_array_type_def demo_static_def
        alignWithExtra_def align_def header_sizes)
  then show ?thesis
    using array_shape [of demo_static "wmem demo_world" 4120 demo_array_type skipWeaks]
    by (simp add: demo_header demo_split demo_array_type_def elementBytes_unat array_slots_def ptr_slots_def upt_rec)
qed

lemma word8_apart: "8 \<le> off a b \<Longrightarrow> 8 \<le> off b a \<Longrightarrow> word8 a \<inter> word8 b = {}"
  using word8_disjnt [of a b] by (simp add: disjnt_regions_def)

lemma demo_apart: "slots_apart [4124, 4132] (word8 4112 \<union> word8 4104)"
  by (simp add: word8_apart)

lemma foreachObjptrInObject_correct_witness:
  "foreachObjptrInObject demo_env (fixFwd_client 0) True 4120 demo_world =
    map_option (Pair 4144) (foreach_slots (callIfIsObjptr (fixFwd_client 0)) [4124, 4132] demo_world)"
proof -
  have "static demo_env = demo_static" "\<not> skipStackToThreadTracing demo_env" by (simp_all add: demo_env_def)
  then show ?thesis
    using foreachObjptrInObject_correct [of "fixFwd_client 0" demo_env True demo_world 4120 "[4124, 4132]"
        "word8 4112 \<union> word8 4104" 4144] demo_object demo_apart demo_header
    by (simp add: fixFwd.other_mem fixFwd.same_ranges GC_FORWARDED_def)
qed

text \<open>C7: \<open>translateRange\<close>, run on objects that were moved from \<open>from\<close> to \<open>to\<close>, makes every object
  pointer of theirs that led into the old range lead to the same place of the new one, leaves
  every other object pointer and every other byte of memory alone, and returns.\<close>

theorem translateRange_correct:
  assumes "objects_shape (static e) False (wmem w) (to + n) (alignFrontier (alignment (static e)) to) slots meta"
    and "slots_apart slots meta" "sorted_wrt (\<lambda>a b. disjnt_regions a 8 b 8) slots"
    and "from' \<noteq> to" "rangeListCurrent w = []" "\<not> skipStackToThreadTracing e"
  shows "\<exists>w'. translateRange e from' to n w = Some w' \<and>
    (\<forall>a\<in>set slots. load64 (wmem w') a =
      (let v = load64 (wmem w) a in
       if isObjptr v \<and> from' \<le> v \<and> v < from' + n then v - from' + to else v)) \<and>
    (\<forall>x. (\<forall>a\<in>set slots. x \<notin> word8 a) \<longrightarrow> wmem w' x = wmem w x)"
proof -
  let ?t = "\<lparr> tr_from = from', tr_to = to, tr_size = n \<rparr>" and ?e = "e\<lparr>translateState := \<lparr> tr_from = from', tr_to = to, tr_size = n \<rparr>\<rparr>"
  from in_range.range_update [where e = ?e and t = ?t and w = w and slots = slots and meta = meta] assms
  obtain w' where w': "range_loop ?e (translateObjptrInRange ?t) False False (\<lambda>_. to + n) (to + n)
      (alignFrontier (alignment (static e)) to) w = Some (to + n, w')"
    "\<forall>a\<in>set slots. load64 (wmem w') a =
      (if isObjptr (load64 (wmem w) a) then translated ?t (load64 (wmem w) a) else load64 (wmem w) a)"
    "\<forall>x. (\<forall>a\<in>set slots. x \<notin> word8 a) \<longrightarrow> wmem w' x = wmem w x"
    by fastforce
  then have "translateRange e from' to n w = Some w'"
    using assms(4) by (simp add: translateRange_def Let_def foreachObjptrInRange_def foreachObjptrInRangeWithFill_def)
  then show ?thesis
    using w'(2,3) by (auto simp: translated_def translating_def Let_def)
qed

lemma demo_range:
  "objects_shape demo_static skipWeaks (wmem demo_world) 4144 4096 [4124, 4132]
    (word8 4096 \<union> word8 4112 \<union> (word8 4112 \<union> word8 4104))"
proof -
  have "advanceToObjectData (wmem demo_world) 4096 = 4120"
    by (simp add: advanceToObjectData_def demo_loads header_sizes)
  then show ?thesis
    using objects_cons [OF _ _ _ demo_object objects_nil, of 4096 skipWeaks]
    by (simp add: demo_header GC_FORWARDED_def)
qed

lemma translateRange_correct_witness:
  "\<exists>w'. translateRange demo_env 8192 4096 48 demo_world = Some w' \<and>
    load64 (wmem w') 4124 = 4104 \<and> load64 (wmem w') 4132 = 3"
proof -
  have "alignFrontier (alignment demo_static) 4096 = 4096"
    by (simp add: alignFrontier_def alignWithExtra_def align_def demo_static_def header_sizes)
  moreover have "static demo_env = demo_static" "\<not> skipStackToThreadTracing demo_env"
    "rangeListCurrent demo_world = []" by (simp_all add: demo_env_def demo_world_def)
  ultimately have "\<exists>w'. translateRange demo_env 8192 4096 48 demo_world = Some w' \<and>
      (\<forall>a\<in>set [4124, 4132]. load64 (wmem w') a =
        (let v = load64 (wmem demo_world) a in
         if isObjptr v \<and> 8192 \<le> v \<and> v < 8192 + 48 then v - 8192 + 4096 else v)) \<and>
      (\<forall>x. (\<forall>a\<in>set [4124, 4132]. x \<notin> word8 a) \<longrightarrow> wmem w' x = wmem demo_world x)"
    using demo_range [of False]
    by (intro translateRange_correct [of _ _ _ _ _ "word8 4096 \<union> word8 4112 \<union> (word8 4112 \<union> word8 4104)"])
       (simp_all add: word8_apart disjnt_regions_def)
  then show ?thesis by (auto simp: demo_loads isObjptr_eq)
qed

text \<open>C36: \<open>fillGap\<close> turns an aligned gap in the heap into one object without object pointers that
  ends where the gap ends, so that walks pass over it, and writes nothing outside the gap.
  Only a gap of four bytes, which 8-byte alignment rules out, makes the program exit.\<close>

theorem fillGap_correct:
  assumes "std_types g" "alignment g = 4 \<or> alignment g = 8" "isAligned (end' - start) (alignment g)"
    and "start \<noteq> 0" "start < end'" "unat end' < 2 ^ 63"
  shows "(fillGap start end' m = None \<longleftrightarrow> end' - start = 4) \<and>
    (end' - start \<noteq> 4 \<longrightarrow> (\<exists>m' meta. fillGap start end' m = Some (m', end' - start) \<and>
      objects_shape g skipWeaks m' end' start [] meta \<and>
      (\<forall>x. unat (end' - start) \<le> off start x \<longrightarrow> m' x = m x)))"
proof -
  have al: "align_arg (alignment g)" "unat (alignment g) \<le> 8"
    using assms(2) by (auto simp: align_arg_def)
  have 2: "\<exists>m' meta. fillGap start end' m = Some (m', end' - start) \<and>
      objects_shape g skipWeaks m' end' start [] meta \<and>
      (\<forall>x. unat (end' - start) \<le> off start x \<longrightarrow> m' x = m x)" if "end' - start \<noteq> 4"
    using fill_array [OF assms(1) al(1) assms(3) al(2) assms(4-6)]
      fill_small [OF assms(1,3,2,4,5) _ that] by blast
  moreover have "fillGap start end' m = None" if "end' - start = 4"
    using that assms(4) by (simp add: fillGap_def header_sizes)
  ultimately show ?thesis by force
qed

definition demo_filler_types :: "GC_objectType list" where
  "demo_filler_types = replicate 3 demo_array_type @
     [demo_array_type\<lparr>bytesNonObjptrs := 1, numObjptrs := 0\<rparr>] @ replicate 3 demo_array_type @
     [demo_array_type\<lparr>tag := HEADER_ONLY_TAG\<rparr>, demo_array_type\<lparr>tag := FILL_TAG\<rparr>]"

lemma demo_filler_split:
  "splitHeader demo_filler_types GC_WORD8_VECTOR_HEADER = Some (demo_array_type\<lparr>bytesNonObjptrs := 1, numObjptrs := 0\<rparr>)"
  "splitHeader demo_filler_types GC_HEADER_ONLY_HEADER = Some (demo_array_type\<lparr>tag := HEADER_ONLY_TAG\<rparr>)"
  "splitHeader demo_filler_types GC_FILL_HEADER = Some (demo_array_type\<lparr>tag := FILL_TAG\<rparr>)"
  unfolding filler_headers(1-3) splitHeader_def Let_def
  by (simp_all only: objectTypeIndex_build TYPE_INDEX_BITS_def WORD8_VECTOR_TYPE_INDEX_def
      HEADER_ONLY_TYPE_INDEX_def FILL_TYPE_INDEX_def)
     (simp_all add: objectTypeIndex_build TYPE_INDEX_BITS_def demo_filler_types_def nth_append)

lemma demo_std_types: "std_types (demo_static\<lparr>objectTypes := demo_filler_types\<rparr>)"
  by (simp add: std_types_def demo_filler_split demo_array_type_def)

lemma fillGap_correct_witness:
  "\<exists>m' meta. fillGap 4096 4160 (\<lambda>_. 0) = Some (m', 64) \<and>
    objects_shape (demo_static\<lparr>objectTypes := demo_filler_types\<rparr>) True m' 4160 4096 [] meta"
proof -
  have "alignment (demo_static\<lparr>objectTypes := demo_filler_types\<rparr>) = 8" by (simp add: demo_static_def)
  then show ?thesis
    using fillGap_correct [OF demo_std_types, of 4160 4096 "\<lambda>_. 0" True] by (auto simp: isAligned_def)
qed

text \<open>\<open>GC_numStackFrames\<close> counts the frames of the stack, and \<open>GC_callStack\<close> fills the array
  it is given with their indices from the top of the stack down and writes nothing else,
  if the array lies apart from the return addresses.\<close>

theorem GC_callStack_correct:
  assumes "frame_indices g (wmem w) (getStackBottom stk) stackTop is meta"
    and "length is < 2 ^ 32" "\<forall>x\<in>meta. 4 * length is \<le> off p x"
  shows "GC_numStackFrames g stk stackTop w =
      Some (Inr (of_nat (length is), w\<lparr>rest := (of_nat (length is), snd (rest w))\<rparr>)) \<and>
    (\<exists>w'. GC_callStack g stk stackTop p w = Some (Inr w') \<and> rest w' = (of_nat (length is), p) \<and>
      (\<forall>j<length is. load32 (wmem w') (p + of_nat (4 * j)) = is ! j) \<and>
      (\<forall>x. 4 * length is \<le> off p x \<longrightarrow> wmem w' x = wmem w x))"
proof -
  let ?w = "w\<lparr>rest := (0, snd (rest w))\<rparr>" and ?v = "w\<lparr>rest := (0, p)\<rparr>"
  have "foreachStackFrame g numStackFramesAux (getStackBottom stk) stackTop ?w =
      Some (Inr (fold numStackFramesAux is ?w))"
    by (rule frame_walk [where I = "\<lambda>_ _. True" and k = 0 and S = meta and n = "length is", OF _ assms(1)])
       (simp_all add: numStackFramesAux_def)
  then have "GC_numStackFrames g stk stackTop w =
      Some (Inr (of_nat (length is), w\<lparr>rest := (of_nat (length is), snd (rest w))\<rparr>))"
    by (simp add: GC_numStackFrames_def count_frames)
  moreover have "foreachStackFrame g callStackAux (getStackBottom stk) stackTop ?v =
      Some (Inr (fold callStackAux is ?v))"
  proof (rule frame_walk [where I = "\<lambda>k w. rest w = (of_nat k, p)" and k = 0 and S = meta and n = "length is", OF _ assms(1)])
    fix k i and u :: "(u32 \<times> pointer) world"
    assume k: "k < length is" "rest u = (of_nat k, p)"
    have "agree meta (wmem u) (fill_frames [i] p k (wmem u))"
      unfolding agree_def using assms(2,3) k(1) by (auto intro!: fill_frames_other [symmetric])
    then show "rest (callStackAux i u) = (of_nat (Suc k), p) \<and> agree meta (wmem u) (wmem (callStackAux i u))"
      using k(2) by (simp add: callStackAux_def fill_frames_def)
  qed simp_all
  then have "GC_callStack g stk stackTop p w =
      Some (Inr (?v\<lparr>wmem := fill_frames is p 0 (wmem w), rest := (of_nat (length is), p)\<rparr>))"
    using callStack_fold [of ?v 0 p "is"] by (simp add: GC_callStack_def)
  ultimately show ?thesis
    using assms(2) fill_frames_nth [of 0 "is" _ p "wmem w"] fill_frames_other [where k = 0 and p = p and m = "wmem w"]
    by auto
qed

text \<open>A stack with one frame of 24 bytes whose return address is 7.\<close>

lemma GC_callStack_correct_witness:
  "\<exists>w'. GC_callStack demo_static 1000 1072 4096
      \<lparr> wmem = store64 (\<lambda>_. 0) 1064 7, rangeListCurrent = [], rest = (5, 0) \<rparr> = Some (Inr w') \<and>
    rest w' = (1, 4096) \<and> load32 (wmem w') 4096 = 0"
proof -
  let ?w = "\<lparr> wmem = store64 (\<lambda>_. 0) 1064 7, rangeListCurrent = [], rest = (5, 0) \<rparr> :: (u32 \<times> pointer) world"
  have "frame_indices demo_static (wmem ?w) (getStackBottom 1000) 1072 [0] (word8 1064 \<union> {})"
    using indices_cons [of 1048 1072 0 demo_static "wmem ?w" "[]" "{}"] indices_nil [of demo_static "wmem ?w" 1048]
    by (simp add: demo_static_def getStackBottom_def sizeof_GC_stack_def getFrameIndexFromReturnAddress_def)
  moreover have "4 \<le> off 4096 x" if "off 1064 x < 8" for x :: pointer
  proof -
    have "x - 4096 = (x - 1064) - 3032" by simp
    then show ?thesis using that by (simp only: unat_sub_if') (auto split: if_splits)
  qed
  ultimately have "GC_numStackFrames demo_static 1000 1072 ?w =
      Some (Inr (of_nat (length [0 :: u32]), ?w\<lparr>rest := (of_nat (length [0 :: u32]), snd (rest ?w))\<rparr>)) \<and>
    (\<exists>w'. GC_callStack demo_static 1000 1072 4096 ?w = Some (Inr w') \<and> rest w' = (of_nat (length [0 :: u32]), 4096) \<and>
      (\<forall>j<length [0 :: u32]. load32 (wmem w') (4096 + of_nat (4 * j)) = [0] ! j) \<and>
      (\<forall>x. 4 * length [0 :: u32] \<le> off 4096 x \<longrightarrow> wmem w' x = wmem ?w x))"
    by (intro GC_callStack_correct) (auto simp: word8_def)
  then show ?thesis by auto
qed

end
