(* ===== verification/Allocation.thy ===== *)
theory Allocation
  imports Foreach
begin

text \<open>
  Allocation: objects, stacks and threads of \<open>gc/new-object.c\<close> and arrays of
  \<open>gc/array-allocate.c\<close>. Statistics and profiling counters are left out. The collections
  an allocation may run are parameters whose contract is the assertion that follows them
  in the code; a branch that an assertion excludes is \<open>None\<close>.
\<close>

section \<open>gc/new-object.c\<close>

definition newObject ::
    "GC_header \<Rightarrow> size_t \<Rightarrow> bool \<Rightarrow> bool \<Rightarrow> GC_state \<times> mem \<Rightarrow> (pointer \<times> GC_state \<times> mem) option" where
  "newObject header bytesRequested allocInOldGen allocInSharedHeap sm =
    (let (s, m) = sm in
     if allocInOldGen then
       (let h = heap s;
            p = h_start h + oldGenSize h;
            s = s\<lparr>heap := h\<lparr>oldGenSize := oldGenSize h + bytesRequested\<rparr>\<rparr> in
        Some (p + GC_NORMAL_HEADER_SIZE, s, store64 m p header))
     else if allocInSharedHeap then None
     else
       (let p = frontier s; s = s\<lparr>frontier := frontier s + bytesRequested\<rparr> in
        Some (p + GC_NORMAL_HEADER_SIZE, s, store64 m p header)))"

definition newStack :: "size_t \<Rightarrow> bool \<Rightarrow> bool \<Rightarrow> GC_state \<times> mem \<Rightarrow> (pointer \<times> GC_state \<times> mem) option" where
  "newStack reserved allocInOldGen allocInSharedHeap sm =
    map_option (\<lambda>(stack, s, m).
      (stack, s, (store64 (store64 (store64 m (stack + 16) reserved) (stack + 24) 0) (stack + 32) BOGUS_OBJPTR)
        (stack + 40 := 0)))
      (newObject GC_STACK_HEADER (sizeofStackWithHeader reserved) allocInOldGen allocInSharedHeap sm)"

definition GC_weakNew :: "gc_static \<Rightarrow> GC_header \<Rightarrow> pointer \<Rightarrow> GC_state \<times> mem \<Rightarrow> (pointer \<times> GC_state \<times> mem) option" where
  "GC_weakNew g header p sm =
    map_option (\<lambda>(res, s, m).
      (res, s, store64 m (res + offsetofWeak g + 8) (pointerToObjptr p (h_start (heap s)))))
      (newObject header (sizeofWeak g) False False sm)"

text \<open>\<open>newThread\<close> after the call that ensures the space. A thread has \<open>bytesNeeded\<close> at 0,
  \<open>exnStack\<close> at 8 and \<open>stack\<close> at 16.\<close>

definition newThread_objects :: "gc_static \<Rightarrow> size_t \<Rightarrow> GC_state \<times> mem \<Rightarrow> (pointer \<times> GC_state \<times> mem) option" where
  "newThread_objects g reserved sm = do {
     (stack, s, m) \<leftarrow> newStack reserved False False sm;
     (res, s, m) \<leftarrow> newObject GC_THREAD_HEADER (sizeofThread g) False False (s, m);
     let thread = res + offsetofThread g;
         m = store64 m thread 0;
         m = store64 m (thread + 8) BOGUS_EXN_STACK;
         m = store64 m (thread + 16) (pointerToObjptr stack (h_start (heap s)));
         m = store64 m (stack + 32) (pointerToObjptr thread (h_start (heap s))) in
     Some (thread, s, m) }"

definition setFrontier :: "gc_static \<Rightarrow> GC_state \<Rightarrow> pointer \<Rightarrow> GC_state" where
  "setFrontier g s p = s\<lparr>frontier := alignFrontier (alignment g) p\<rparr>"

definition setSharedFrontier :: "gc_static \<Rightarrow> GC_state \<Rightarrow> pointer \<Rightarrow> GC_state" where
  "setSharedFrontier g s p = s\<lparr>sharedFrontier := alignFrontier (alignment g) p\<rparr>"

section \<open>gc/array-allocate.c\<close>

text \<open>The macros around an allocation in the old generation, \<open>performGC\<close> for bytes of the old
  generation and of the nursery, and \<open>ensureHasHeapBytesFreeAndOrInvariantForMutator\<close>.\<close>

record gc_calls =
  enter_local :: "GC_state \<times> mem \<Rightarrow> GC_state \<times> mem"
  performGC :: "size_t \<Rightarrow> size_t \<Rightarrow> GC_state \<times> mem \<Rightarrow> GC_state \<times> mem"
  ensure_bytes :: "size_t \<Rightarrow> GC_state \<times> mem \<Rightarrow> GC_state \<times> mem"
  leave_local :: "GC_state \<times> mem \<Rightarrow> GC_state \<times> mem"

datatype die_array = Array_too_large u64

text \<open>The size of the array with its header, and that size aligned; \<open>SIZE_MAX\<close> is \<open>2 ^ 64 - 1\<close>.\<close>

definition array_sizes :: "gc_static \<Rightarrow> GC_objectType \<Rightarrow> u64 \<Rightarrow> die_array + size_t \<times> size_t" where
  "array_sizes g ty numElements =
    (let arraySizeMax = elementBytes ty * numElements + GC_ARRAY_HEADER_SIZE;
         arraySizeAlignedMax = alignMax arraySizeMax (alignment g) in
     if arraySizeAlignedMax \<ge> - 1 then Inl (Array_too_large arraySizeAlignedMax)
     else if arraySizeAlignedMax < GC_ARRAY_HEADER_SIZE + OBJPTR_SIZE
     then Inr (GC_ARRAY_HEADER_SIZE, align (GC_ARRAY_HEADER_SIZE + OBJPTR_SIZE) (alignment g))
     else Inr (arraySizeMax, arraySizeAlignedMax))"

text \<open>Where the array goes: the old generation for a large one, else the nursery.\<close>

definition array_place ::
    "gc_calls \<Rightarrow> size_t \<Rightarrow> size_t \<Rightarrow> size_t \<Rightarrow> GC_state \<times> mem \<Rightarrow> pointer \<times> GC_state \<times> mem" where
  "array_place c oldGenArraySize ensureBytesFree arraySizeAligned sm =
    (if arraySizeAligned \<ge> oldGenArraySize then
       (let (s, m) = enter_local c sm;
            (s, m) = (if \<not> hasHeapBytesFree s (heap s) arraySizeAligned ensureBytesFree
              then performGC c arraySizeAligned ensureBytesFree (s, m) else (s, m));
            h = heap s in
        (h_start h + oldGenSize h, s\<lparr>heap := h\<lparr>oldGenSize := oldGenSize h + arraySizeAligned\<rparr>\<rparr>, m))
     else
       (let (s, m) = sm;
            bytesRequested = arraySizeAligned + ensureBytesFree;
            (s, m) = (if \<not> hasHeapBytesFree s (heap s) 0 bytesRequested
              then ensure_bytes c bytesRequested (s, m) else (s, m)) in
        (frontier s, s\<lparr>frontier := frontier s + arraySizeAligned\<rparr>, m)))"

definition store_bogus :: "pointer \<Rightarrow> unit world \<Rightarrow> unit world option" where
  "store_bogus p w = Some (w\<lparr>wmem := store64 (wmem w) p BOGUS_OBJPTR\<rparr>)"

definition array_init ::
    "GC_objectType \<Rightarrow> u64 \<Rightarrow> GC_header \<Rightarrow> pointer \<Rightarrow> size_t \<Rightarrow> mem \<Rightarrow> (pointer \<times> mem) option" where
  "array_init ty numElements header p arraySize m =
    (let limit = p + arraySize;
         m = store64 m p 0;
         p = p + GC_ARRAY_COUNTER_SIZE;
         m = store64 m p numElements;
         p = p + GC_ARRAY_LENGTH_SIZE;
         m = store64 m p header;
         p = p + GC_HEADER_SIZE;
         w = \<lparr> wmem = m, rangeListCurrent = [], rest = () \<rparr> in
     if 1 \<le> numObjptrs ty \<and> 0 < numElements then
       map_option (\<lambda>(_, w). (p, wmem w))
         (if bytesNonObjptrs ty = 0 then ptr_loop store_bogus limit p w
          else elem_loop store_bogus (ucast (bytesNonObjptrs ty)) (ucast (numObjptrs ty) * OBJPTR_SIZE) limit p w)
     else Some (p, m))"

definition GC_arrayAllocate ::
    "gc_calls \<Rightarrow> gc_static \<Rightarrow> size_t \<Rightarrow> size_t \<Rightarrow> u64 \<Rightarrow> GC_header \<Rightarrow> GC_state \<times> mem \<Rightarrow>
     (die_array + pointer \<times> GC_state \<times> mem) option" where
  "GC_arrayAllocate c g oldGenArraySize ensureBytesFree numElements header sm = do {
     ty \<leftarrow> splitHeader (objectTypes g) header;
     case array_sizes g ty numElements of
       Inl e \<Rightarrow> Some (Inl e)
     | Inr (arraySize, arraySizeAligned) \<Rightarrow>
         (let (p, s, m) = array_place c oldGenArraySize ensureBytesFree arraySizeAligned sm in
          do {
            (result, m) \<leftarrow> array_init ty numElements header p arraySize m;
            let (s, m) = (if arraySizeAligned \<ge> oldGenArraySize then leave_local c (s, m) else (s, m)) in
            Some (Inr (result, s, m)) }) }"

section \<open>Sizes: lemmas\<close>

lemma align_mono_between:
  assumes "align_arg b" "x \<le> y" "y \<le> align x b" "unat y + unat b \<le> 2 ^ 64"
  shows "align x b = align y b"
proof (rule order_antisym)
  have x: "unat x + unat b \<le> 2 ^ 64" using assms(2,4) by (simp add: word_le_nat_alt)
  show "align x b \<le> align y b"
    using align_le [OF assms(1) x isAligned_align [OF assms(1), of y]] align_ge [OF assms(1,4)] assms(2) by simp
  show "align y b \<le> align x b"
    using align_le [OF assms(1,4) isAligned_align [OF assms(1), of x] assms(3)] .
qed

text \<open>Without wrap-around the aligned size is that of \<open>sizeofArrayNoHeader\<close> and the header.\<close>

lemma array_sizes_correct:
  assumes "align_arg (alignment g)" "unat n * unat (elementBytes ty) + 33 + unat (alignment g) \<le> 2 ^ 64"
  shows "array_sizes g ty n = Inr
    (if n * elementBytes ty < 8 \<and> align (n * elementBytes ty + 24) (alignment g) < 32 then 24 else n * elementBytes ty + 24,
     24 + sizeofArrayNoHeader g n ty)"
proof -
  let ?a = "alignment g" and ?d = "n * elementBytes ty"
  have d: "unat ?d = unat n * unat (elementBytes ty)"
    using assms(2) unat_mult_lem [of n "elementBytes ty"] by simp
  have d24: "unat (?d + 24) = unat ?d + 24" using assms(2) d unat_step [of ?d 24] by simp
  have room: "unat (?d + 24) + unat ?a \<le> 2 ^ 64" using assms(2) d d24 by simp
  have lt: "unat (align (?d + 24) ?a) < 2 ^ 64 - 1"
    using align_lt [OF assms(1) room] d d24 assms(2) by linarith
  then have small: "\<not> align (?d + 24) ?a \<ge> - 1"
    by (simp add: word_le_nat_alt unsigned_minus_1_eq_mask mask_eq_exp_minus_1)
  have e: "24 + (align x ?a - 24) = align x ?a" for x :: u64 by simp
  have def: "array_sizes g ty n = Inr (if align (?d + 24) ?a < 32 then (24, align 32 ?a) else (?d + 24, align (?d + 24) ?a))"
    using small by (simp add: array_sizes_def Let_def alignMax_eq header_sizes mult.commute)
  have ge: "?d + 24 \<le> align (?d + 24) ?a" using align_ge [OF assms(1) room] .
  show ?thesis
  proof (cases "?d < 8")
    case True
    then have le32: "?d + 24 \<le> 32" using d24 by (simp add: word_le_nat_alt word_less_nat_alt)
    have "align (?d + 24) ?a = align 32 ?a" if "\<not> align (?d + 24) ?a < 32"
      using that assms(2) by (intro align_mono_between [OF assms(1) le32]) auto
    then show ?thesis
      using True unfolding def by (simp add: sizeofArrayNoHeader_def Let_def alignWithExtra_def header_sizes)
  next
    case False
    then have "32 \<le> ?d + 24" using d24 by (simp add: word_le_nat_alt word_less_nat_alt)
    then have "\<not> align (?d + 24) ?a < 32" using ge by simp
    then show ?thesis
      using False unfolding def by (simp add: sizeofArrayNoHeader_def Let_def alignWithExtra_def header_sizes)
  qed
qed

section \<open>Slots of an array: lemmas\<close>

primrec array_offsets :: "nat \<Rightarrow> nat \<Rightarrow> nat \<Rightarrow> nat list" where
  "array_offsets b q 0 = []"
| "array_offsets b q (Suc n) = map (\<lambda>k. b + 8 * k) [0..<q] @ map (\<lambda>o'. b + 8 * q + o') (array_offsets b q n)"

lemma array_slots_offsets: "array_slots b q p n = map (\<lambda>o'. p + of_nat o') (array_offsets b q n)"
proof (induction n arbitrary: p)
  case 0
  show ?case by (simp add: array_slots_def)
next
  case (Suc n)
  show ?case by (simp add: array_slots_Suc Suc.IH ptr_slots_def add.assoc)
qed

lemma array_offsets_bound: "o' \<in> set (array_offsets b q n) \<Longrightarrow> o' + 8 \<le> n * (b + 8 * q)"
  by (induction n arbitrary: o') auto

lemma array_offsets_apart: "sorted_wrt (\<lambda>x y. x + 8 \<le> y) (array_offsets b q n)"
proof (induction n)
  case (Suc n)
  have "sorted_wrt (\<lambda>x y. x + 8 \<le> y) (map (\<lambda>k. b + 8 * k) [0..<q])"
    by (simp add: sorted_wrt_iff_nth_less)
  then show ?case
    using Suc by (auto simp: sorted_wrt_append sorted_wrt_map)
qed simp

lemma offsets_disjnt:
  assumes "i + 8 \<le> j" "j + 8 \<le> 2 ^ 64"
  shows "disjnt_regions (p + of_nat i) 8 (p + of_nat j) 8"
proof -
  have "unat (of_nat (j - i) :: u64) = j - i" using assms by (intro unat_of_nat_u64) simp
  moreover have "p + of_nat j - (p + of_nat i) = of_nat (j - i)" using assms(1) by (simp add: of_nat_diff)
  ultimately have 1: "off (p + of_nat i) (p + of_nat j) = j - i" by simp
  then have "p + of_nat i \<noteq> p + of_nat j" using assms(1) by auto
  from off_compl [OF this] 1 assms show ?thesis unfolding disjnt_regions_def by linarith
qed

lemma array_slots_disjnt:
  assumes "n * (b + 8 * q) \<le> 2 ^ 64"
  shows "sorted_wrt (\<lambda>a b. disjnt_regions a 8 b 8) (array_slots b q p n)"
  unfolding array_slots_offsets sorted_wrt_map
proof (rule sorted_wrt_mono_rel [OF _ array_offsets_apart])
  fix x y assume "x \<in> set (array_offsets b q n)" "y \<in> set (array_offsets b q n)" "x + 8 \<le> y"
  then show "disjnt_regions (p + of_nat x) 8 (p + of_nat y) 8"
    using array_offsets_bound [of y b q n] assms by (intro offsets_disjnt) auto
qed

lemma array_offsets_aligned:
  "o' \<in> set (array_offsets b q n) \<Longrightarrow> o' + 8 \<le> N \<Longrightarrow> N < 2 ^ 64 \<Longrightarrow> off p (p + of_nat o' :: u64) = o'"
  using unat_of_nat_u64 [of o'] by simp

definition header_mem :: "mem \<Rightarrow> pointer \<Rightarrow> u64 \<Rightarrow> GC_header \<Rightarrow> mem" where
  "header_mem m p n header = store64 (store64 (store64 m p 0) (p + 8) n) (p + 16) header"

lemma header_mem_loads:
  "load64 (header_mem m p n header) p = 0" "load64 (header_mem m p n header) (p + 8) = n"
  "load64 (header_mem m p n header) (p + 16) = header"
  by (simp_all add: header_mem_def load64_store64_disjnt disjnt_regions_def)

lemma header_mem_other: "24 \<le> off p x \<Longrightarrow> header_mem m p n header x = m x"
proof -
  assume x: "24 \<le> off p x"
  have "off (p + of_nat k) x = off p x - k" if "k \<le> 16" for k
  proof -
    have "of_nat k \<le> x - p" using x that unat_of_nat_u64 [of k] by (simp add: word_le_nat_alt)
    then show ?thesis
      using that unat_of_nat_u64 [of k] by (simp add: diff_diff_add [symmetric] unat_sub)
  qed
  from this [of 8] this [of 16] x show ?thesis by (simp add: header_mem_def store64_other)
qed

lemma array_init_slots:
  assumes "unat p + 24 + unat n * unat (elementBytes ty) < 2 ^ 64"
    "unat (numObjptrs ty) \<noteq> 0 \<Longrightarrow> n \<noteq> 0 \<Longrightarrow> arraySize = n * elementBytes ty + 24"
  shows "array_init ty n header p arraySize m =
    map_option (\<lambda>w. (p + 24, wmem w))
      (foreach_slots store_bogus (array_slots (unat (bytesNonObjptrs ty)) (unat (numObjptrs ty)) (p + 24) (unat n))
        \<lparr> wmem = header_mem m p n header, rangeListCurrent = [], rest = () \<rparr>)"
    (is "_ = map_option _ (foreach_slots _ _ ?w)")
proof (cases "1 \<le> numObjptrs ty \<and> 0 < n")
  case True
  then have q: "0 < unat (numObjptrs ty)" "0 < unat n" by (auto simp: word_less_nat_alt word_le_nat_alt)
  have "unat (p + 24) = unat p + 24" using assms(1) unat_step [of p 24] by simp
  moreover have "p + arraySize = p + 24 + n * elementBytes ty" using assms(2) q True by (auto simp: add.commute)
  ultimately have "p + arraySize = p + 24 + n * elementBytes ty" "unat (p + 24) + unat n * unat (elementBytes ty) < 2 ^ 64"
    using assms(1) by simp_all
  note loop = array_loop_slots [OF this(2) q(1), of store_bogus, folded this(1)]
  have "array_init ty n header p arraySize m = map_option (\<lambda>(_, w). (p + 24, wmem w))
      (if bytesNonObjptrs ty = 0 then ptr_loop store_bogus (p + arraySize) (p + 24) ?w
       else elem_loop store_bogus (ucast (bytesNonObjptrs ty)) (ucast (numObjptrs ty) * OBJPTR_SIZE) (p + arraySize) (p + 24) ?w)"
    using True by (simp add: array_init_def Let_def header_sizes header_mem_def add.assoc)
  then show ?thesis unfolding loop by (simp add: option.map_comp o_def)
next
  case False
  then have "unat (numObjptrs ty) = 0 \<or> unat n = 0" by (auto simp: word_less_nat_alt word_le_nat_alt)
  with False show ?thesis
    by (auto simp: array_init_def Let_def header_sizes header_mem_def array_slots_none add.assoc)
qed

lemma array_init_correct:
  assumes "unat p + 24 + unat n * unat (elementBytes ty) < 2 ^ 64"
    "unat (numObjptrs ty) \<noteq> 0 \<Longrightarrow> n \<noteq> 0 \<Longrightarrow> arraySize = n * elementBytes ty + 24"
  shows "\<exists>m'. array_init ty n header p arraySize m = Some (p + 24, m') \<and>
    (\<forall>a\<in>set (array_slots (unat (bytesNonObjptrs ty)) (unat (numObjptrs ty)) (p + 24) (unat n)).
      load64 m' a = BOGUS_OBJPTR) \<and>
    load64 m' p = 0 \<and> load64 m' (p + 8) = n \<and> load64 m' (p + 16) = header \<and>
    (\<forall>x. 24 + unat n * unat (elementBytes ty) \<le> off p x \<longrightarrow> m' x = m x)"
proof -
  let ?b = "unat (bytesNonObjptrs ty)" and ?q = "unat (numObjptrs ty)" and ?N = "unat n * unat (elementBytes ty)"
  let ?slots = "array_slots ?b ?q (p + 24) (unat n)"
  let ?w = "\<lparr> wmem = header_mem m p n header, rangeListCurrent = [], rest = () \<rparr>"
  have N: "unat n * (?b + 8 * ?q) = ?N" by (simp add: elementBytes_unat)
  have act: "store_bogus a w = Some (w\<lparr>wmem := store64 (wmem w) a ((\<lambda>_. BOGUS_OBJPTR) (load64 (wmem w) a))\<rparr>)" for a w
    by (simp add: store_bogus_def)
  have "unat n * (?b + 8 * ?q) \<le> 2 ^ 64" using assms(1) unfolding N by linarith
  then have "sorted_wrt (\<lambda>a b. disjnt_regions a 8 b 8) ?slots" by (rule array_slots_disjnt)
  from foreach_slots_update [of store_bogus "\<lambda>_. BOGUS_OBJPTR", OF act this, of ?w] obtain w' where w':
    "foreach_slots store_bogus ?slots ?w = Some w'" "\<forall>a\<in>set ?slots. load64 (wmem w') a = BOGUS_OBJPTR"
    "\<forall>x. (\<forall>a\<in>set ?slots. x \<notin> word8 a) \<longrightarrow> wmem w' x = header_mem m p n header x" by auto
  have slot: "24 \<le> off p x \<and> off p x < 24 + ?N" if a: "a \<in> set ?slots" and x: "x \<in> word8 a" for a x
  proof -
    obtain k where k: "a = p + 24 + of_nat k" "k + 8 \<le> ?N"
      using a array_offsets_bound [of _ ?b ?q "unat n", unfolded N] unfolding array_slots_offsets set_map by blast
    define d where "d = off a x"
    have "x = a + of_nat d" by (simp add: d_def)
    then have "x - p = of_nat (24 + k + d)" by (simp add: k(1))
    moreover have "d < 8" using x by (simp add: word8_def d_def)
    then have "24 + k + d < 2 ^ 64" using k(2) assms(1) by linarith
    ultimately have "off p x = 24 + k + d" using unat_of_nat_u64 [of "24 + k + d"] by simp
    then show ?thesis using \<open>d < 8\<close> k(2) by simp
  qed
  have keep: "wmem w' x = header_mem m p n header x" if "off p x < 24 \<or> 24 + ?N \<le> off p x" for x
    using w'(3) slot that by (meson leD not_le)
  have head: "load64 (wmem w') (p + of_nat k) = load64 (header_mem m p n header) (p + of_nat k)" if "k \<le> 16" for k
  proof (intro load64_cong keep disjI1)
    fix i :: nat assume "i < 8"
    then show "off p (p + of_nat k + of_nat i) < 24"
      using that unat_of_nat_u64 [of "k + i"] by (simp add: add.assoc)
  qed
  have "load64 (wmem w') p = 0" "load64 (wmem w') (p + 8) = n" "load64 (wmem w') (p + 16) = header"
    using head [of 0] head [of 8] head [of 16] by (simp_all add: header_mem_loads)
  moreover have "wmem w' x = m x" if "24 + ?N \<le> off p x" for x
    using keep that by (simp add: header_mem_other)
  ultimately show ?thesis
    using array_init_slots [OF assms] w'(1,2) by (intro exI [of _ "wmem w'"]) simp
qed

section \<open>Properties\<close>

text \<open>C30: An allocation whose size does not wrap returns the object after the three header words
  of an area of \<open>sizeofArrayNoHeader\<close> and the header, aligned: at the old frontier of the
  nursery, or at the end of the old generation for an array of \<open>oldGenArraySize\<close> bytes and more.
  Counter, length and header are set, every pointer slot of every element is
  \<open>BOGUS_OBJPTR\<close>, and nothing outside the area changes.\<close>

theorem GC_arrayAllocate_correct:
  assumes "splitHeader (objectTypes g) header = Some ty" "align_arg (alignment g)"
    "unat n * unat (elementBytes ty) + 33 + unat (alignment g) \<le> 2 ^ 64"
    "area = 24 + sizeofArrayNoHeader g n ty"
    "array_place c oldGenArraySize ensureBytesFree area sm = (p, s, m)"
    "unat p + 24 + unat n * unat (elementBytes ty) < 2 ^ 64"
  shows "\<exists>m'. GC_arrayAllocate c g oldGenArraySize ensureBytesFree n header sm =
      Some (Inr (p + 24, if area \<ge> oldGenArraySize then leave_local c (s, m') else (s, m'))) \<and>
    (if area \<ge> oldGenArraySize then p + area = h_start (heap s) + oldGenSize (heap s) else p + area = frontier s) \<and>
    load64 m' p = 0 \<and> getArrayLength m' (p + 24) = n \<and> getHeader m' (p + 24) = header \<and>
    (\<forall>a\<in>set (array_slots (unat (bytesNonObjptrs ty)) (unat (numObjptrs ty)) (p + 24) (unat n)).
      load64 m' a = BOGUS_OBJPTR) \<and>
    (\<forall>x. 24 + unat n * unat (elementBytes ty) \<le> off p x \<longrightarrow> m' x = m x)"
proof -
  define arraySize where "arraySize =
    (if n * elementBytes ty < 8 \<and> align (n * elementBytes ty + 24) (alignment g) < 32 then 24 else n * elementBytes ty + 24)"
  have sizes: "array_sizes g ty n = Inr (arraySize, area)"
    unfolding arraySize_def assms(4) by (rule array_sizes_correct [OF assms(2,3)])
  have "unat (n * elementBytes ty) = unat n * unat (elementBytes ty)"
    using assms(3) unat_mult_lem [of n "elementBytes ty"] by simp
  then have bytes: "arraySize = n * elementBytes ty + 24" if "unat (numObjptrs ty) \<noteq> 0" "n \<noteq> 0"
  proof -
    have "1 \<le> unat n" "1 \<le> unat (numObjptrs ty)" using that by (simp_all add: Suc_le_eq unat_gt_0)
    then have "1 \<le> unat n" "8 \<le> unat (elementBytes ty)" by (simp_all add: elementBytes_unat)
    then have "8 \<le> unat (n * elementBytes ty)"
      using \<open>unat (n * elementBytes ty) = _\<close> mult_le_mono [of 1 "unat n" 8] by simp
    then show ?thesis by (simp add: arraySize_def word_less_nat_alt)
  qed
  obtain m' where m': "array_init ty n header p arraySize m = Some (p + 24, m')"
    "\<forall>a\<in>set (array_slots (unat (bytesNonObjptrs ty)) (unat (numObjptrs ty)) (p + 24) (unat n)).
      load64 m' a = BOGUS_OBJPTR"
    "load64 m' p = 0" "load64 m' (p + 8) = n" "load64 m' (p + 16) = header"
    "\<forall>x. 24 + unat n * unat (elementBytes ty) \<le> off p x \<longrightarrow> m' x = m x"
    using array_init_correct [OF assms(6) bytes, of header m] by auto
  have "getArrayLength m' (p + 24) = n" "getHeader m' (p + 24) = header"
    using m'(4,5) [simplified add.commute] by (simp_all add: getArrayLength_def getArrayLengthp_def getHeader_def getHeaderp_def header_sizes add.commute)
  moreover have "if area \<ge> oldGenArraySize then p + area = h_start (heap s) + oldGenSize (heap s) else p + area = frontier s"
    using assms(5) by (auto simp: array_place_def Let_def split: prod.splits if_splits)
  moreover have "GC_arrayAllocate c g oldGenArraySize ensureBytesFree n header sm =
      Some (Inr (p + 24, if area \<ge> oldGenArraySize then leave_local c (s, m') else (s, m')))"
    by (simp add: GC_arrayAllocate_def assms(1,5) sizes m'(1) split: prod.splits)
  ultimately show ?thesis using m'(2,3,6) by (intro exI [of _ m'] conjI ballI allI impI) simp_all
qed

definition demo_calls :: gc_calls where
  "demo_calls = \<lparr> enter_local = \<lambda>sm. sm, performGC = \<lambda>_ _ sm. sm, ensure_bytes = \<lambda>_ sm. sm,
     leave_local = \<lambda>sm. sm \<rparr>"

lemma demo_area: "24 + sizeofArrayNoHeader demo_static 2 demo_array_type = (64 :: u64)"
  by (simp add: sizeofArrayNoHeader_def Let_def alignWithExtra_def header_sizes elementBytes_nat demo_array_type_def
      demo_static_def align_def)

lemma demo_place:
  "array_place demo_calls 64 0 64 (demo_state, m) =
    (4352, demo_state\<lparr>heap := heap demo_state\<lparr>oldGenSize := 320\<rparr>\<rparr>, m)"
  by (simp add: array_place_def demo_calls_def hasHeapBytesFree_def demo_state_def demo_heap_def)

lemma GC_arrayAllocate_correct_witness:
  "\<exists>m'. GC_arrayAllocate demo_calls demo_static 64 0 2 1 (demo_state, \<lambda>_. 0) =
      Some (Inr (4376, demo_state\<lparr>heap := heap demo_state\<lparr>oldGenSize := 320\<rparr>\<rparr>, m')) \<and>
    getArrayLength m' 4376 = 2 \<and> getHeader m' 4376 = 1 \<and> load64 m' 4408 = BOGUS_OBJPTR"
proof -
  have "align_arg (alignment demo_static)" by (simp add: demo_static_def align_arg_def)
  moreover have b: "unat (elementBytes demo_array_type) = 20" by (simp add: elementBytes_unat demo_array_type_def)
  moreover have "unat (alignment demo_static) = 8" by (simp add: demo_static_def)
  ultimately obtain m' where m':
    "GC_arrayAllocate demo_calls demo_static 64 0 2 1 (demo_state, \<lambda>_. 0) = Some (Inr (4352 + 24,
      if 64 \<le> (64 :: u64) then leave_local demo_calls (demo_state\<lparr>heap := heap demo_state\<lparr>oldGenSize := 320\<rparr>\<rparr>, m')
      else (demo_state\<lparr>heap := heap demo_state\<lparr>oldGenSize := 320\<rparr>\<rparr>, m')))"
    "getArrayLength m' (4352 + 24) = 2" "getHeader m' (4352 + 24) = 1"
    "\<forall>a\<in>set (array_slots 4 2 (4352 + 24) 2). load64 m' a = BOGUS_OBJPTR"
    using GC_arrayAllocate_correct [OF demo_split _ _ demo_area [symmetric] demo_place [of "\<lambda>_. 0"]]
    by (auto simp: demo_array_type_def)
  then have "load64 m' 4408 = BOGUS_OBJPTR"
    by (simp add: array_slots_def ptr_slots_def upt_rec numeral_2_eq_2)
  with m' show ?thesis by (intro exI [of _ m']) (simp add: demo_calls_def)
qed

text \<open>C40: The byte count of an array is the product of two 64-bit numbers, computed before the test
  against \<open>SIZE_MAX\<close>: an array of \<open>2 ^ 61\<close> elements of eight bytes passes the test and gets the
  area of an empty array, while its length word says \<open>2 ^ 61\<close>.\<close>

theorem array_sizes_wraps:
  assumes "align_arg (alignment g)" "unat (alignment g) \<le> 2 ^ 32" "elementBytes ty = 8"
  shows "array_sizes g ty 0x2000000000000000 = array_sizes g ty 0 \<and>
    array_sizes g ty 0 = Inr (24, 24 + sizeofArrayNoHeader g 0 ty) \<and>
    unat (0x2000000000000000 :: u64) * unat (elementBytes ty) = 2 ^ 64"
proof -
  have "(8 :: u64) * 0x2000000000000000 = 0" by (simp add: word_unat_eq_iff)
  then have "elementBytes ty * 0x2000000000000000 = elementBytes ty * 0" unfolding assms(3) by simp
  then have "array_sizes g ty 0x2000000000000000 = array_sizes g ty 0" unfolding array_sizes_def by (simp only:)
  moreover have "array_sizes g ty 0 = Inr (24, 24 + sizeofArrayNoHeader g 0 ty)"
    using assms(2) array_sizes_correct [OF assms(1), of 0 ty] by simp
  ultimately show ?thesis by (simp add: assms(3))
qed

lemma array_sizes_wraps_witness:
  "array_sizes demo_static (demo_array_type\<lparr>bytesNonObjptrs := 8, numObjptrs := 0\<rparr>) 0x2000000000000000 =
    array_sizes demo_static (demo_array_type\<lparr>bytesNonObjptrs := 8, numObjptrs := 0\<rparr>) 0"
proof -
  let ?ty = "demo_array_type\<lparr>bytesNonObjptrs := 8, numObjptrs := 0\<rparr>"
  have "align_arg (alignment demo_static)" "unat (alignment demo_static) \<le> 2 ^ 32"
    by (simp_all add: demo_static_def align_arg_def)
  moreover have "elementBytes ?ty = 8" by (simp add: elementBytes_nat)
  ultimately show ?thesis using array_sizes_wraps [of demo_static ?ty] by blast
qed

text \<open>A new weak object, aligned to 4 or 8 bytes, yields the pointer it was made for.\<close>

lemma GC_weakNew_get:
  assumes "GC_weakNew g header p (s, m) = Some (res, s', m')" "alignment g = 4 \<or> alignment g = 8"
  shows "GC_weakGet g B m' res = p" "getHeader m' res = header" "frontier s' = res - 8 + sizeofWeak g"
proof -
  have eq: "res = frontier s + 8" "m' = store64 (store64 m (frontier s) header) (res + offsetofWeak g + 8) p"
    "frontier s' = frontier s + sizeofWeak g"
    using assms(1) by (auto simp: GC_weakNew_def newObject_def Let_def header_sizes)
  have "offsetofWeak g = 0"
    using assms(2) by (auto simp: offsetofWeak_def sizeofWeak_def align_def sizeof_GC_weak_def header_sizes)
  moreover have "disjnt_regions (frontier s + 16) 8 (frontier s) 8"
    using disjnt_offsets(2) [of 0 8 16 8 "frontier s"] by simp
  ultimately show "GC_weakGet g B m' res = p" "getHeader m' res = header" "frontier s' = res - 8 + sizeofWeak g"
    using eq by (simp_all add: GC_weakGet_def getHeader_def getHeaderp_def header_sizes add.commute load64_store64_disjnt)
qed

end
