(* ===== verification/Int_Inf.thy ===== *)
theory Int_Inf
  imports Allocation
begin

text \<open>
  Arbitrary-precision integers, \<open>gc/int-inf.c\<close> and \<open>gc/int-inf.h\<close>. An \<open>IntInf.int\<close> is a
  small integer of 63 bits tagged with a low 1 bit, or a pointer to a sign word followed by
  64-bit limbs. The arithmetic itself is GMP's: its functions are parameters, and what the
  code relies on is stated for the binary operations and the comparison as the predicates \<open>gmp_binop\<close> and \<open>gmp_cmp\<close>.
\<close>

section \<open>State\<close>

text \<open>\<open>__mpz_struct\<close>; the two C \<open>int\<close> fields are words read by \<open>sint\<close>.\<close>

record mpz =
  mp_alloc :: u32
  mp_size :: u32
  mp_d :: pointer

type_synonym mpz_unop = "mpz \<Rightarrow> mpz \<Rightarrow> mem \<Rightarrow> mpz \<times> mem"
type_synonym mpz_binop = "mpz \<Rightarrow> mpz \<Rightarrow> mpz \<Rightarrow> mem \<Rightarrow> mpz \<times> mem"
type_synonym mpz_shop = "mpz \<Rightarrow> mpz \<Rightarrow> u64 \<Rightarrow> mem \<Rightarrow> mpz \<times> mem"

text \<open>The functions of GMP that the code calls.\<close>

record gmp =
  mpz_add :: mpz_binop
  mpz_and :: mpz_binop
  mpz_gcd :: mpz_binop
  mpz_mul :: mpz_binop
  mpz_tdiv_q :: mpz_binop
  mpz_ior :: mpz_binop
  mpz_tdiv_r :: mpz_binop
  mpz_sub :: mpz_binop
  mpz_xor :: mpz_binop
  mpz_neg :: mpz_unop
  mpz_com :: mpz_unop
  mpz_fdiv_q_2exp :: mpz_shop
  mpz_mul_2exp :: mpz_shop
  mpz_cmp :: "mpz \<Rightarrow> mpz \<Rightarrow> mem \<Rightarrow> u32"
  mpz_get_str :: "pointer \<Rightarrow> u32 \<Rightarrow> mpz \<Rightarrow> mem \<Rightarrow> mem"

definition WORD64_VECTOR_TYPE_INDEX :: u32 where "WORD64_VECTOR_TYPE_INDEX = 6"
definition GC_INTINF_HEADER :: GC_header where
  "GC_INTINF_HEADER = buildHeaderFromTypeIndex WORD64_VECTOR_TYPE_INDEX"
definition GC_STRING8_HEADER :: GC_header where
  "GC_STRING8_HEADER = GC_WORD8_VECTOR_HEADER"

section \<open>Small integers\<close>

definition isSmall :: "objptr \<Rightarrow> bool" where
  "isSmall arg \<longleftrightarrow> arg AND 1 \<noteq> 0"

definition isEitherSmall :: "objptr \<Rightarrow> objptr \<Rightarrow> bool" where
  "isEitherSmall arg1 arg2 \<longleftrightarrow> (arg1 OR arg2) AND 1 \<noteq> 0"

definition areSmall :: "objptr \<Rightarrow> objptr \<Rightarrow> bool" where
  "areSmall arg1 arg2 \<longleftrightarrow> (arg1 AND arg2) AND 1 \<noteq> 0"

section \<open>Arguments and results\<close>

text \<open>In \<open>struct GC_intInf\<close>: \<open>counter\<close> at 0, \<open>length\<close> at 8, \<open>header\<close> at 16, \<open>isneg\<close> at 24,
  \<open>limbs\<close> from 32 on.\<close>

definition toBignum :: "objptr \<Rightarrow> pointer" where
  "toBignum arg = arg - 24"

text \<open>A limb is as wide as an object pointer, so the loop over \<open>LIMBS_PER_OBJPTR\<close> limbs
  runs once; \<open>space\<close> is the address of the caller's array.\<close>

definition LIMBS_PER_OBJPTR :: nat where "LIMBS_PER_OBJPTR = 1"

definition fillIntInfArg :: "objptr \<Rightarrow> pointer \<Rightarrow> mem \<Rightarrow> mpz \<times> mem" where
  "fillIntInfArg arg space m =
    (if isSmall arg then
       (if arg = 1 then (\<lparr> mp_alloc = of_nat (LIMBS_PER_OBJPTR + 1), mp_size = 0, mp_d = space \<rparr>, m)
        else
          (let highBitMask = push_bit 63 1 in
           if arg AND highBitMask \<noteq> 0
           then (\<lparr> mp_alloc = of_nat (LIMBS_PER_OBJPTR + 1), mp_size = - of_nat LIMBS_PER_OBJPTR, mp_d = space \<rparr>,
                 store64 m space (- (drop_bit 1 arg OR highBitMask)))
           else (\<lparr> mp_alloc = of_nat (LIMBS_PER_OBJPTR + 1), mp_size = of_nat LIMBS_PER_OBJPTR, mp_d = space \<rparr>,
                 store64 m space (drop_bit 1 arg))))
     else
       (let bp = toBignum arg; al = ucast (load64 m (bp + 8) - 1) in
        (\<lparr> mp_alloc = al, mp_size = (if load64 m (bp + 24) \<noteq> 0 then - al else al), mp_d = bp + 32 \<rparr>, m)))"

definition initIntInfRes :: "GC_state \<Rightarrow> mpz" where
  "initIntInfRes s =
    (let bp = sharedFrontier s;
         nlimbs = (sharedLimitPlusSlop s - (bp + 32)) div 8 in
     \<lparr> mp_alloc = ucast (min nlimbs 0x7FFFFFFF), mp_size = 0, mp_d = bp + 32 \<rparr>)"

definition finiIntInfRes :: "gc_static \<Rightarrow> mpz \<Rightarrow> GC_state \<times> mem \<Rightarrow> objptr \<times> GC_state \<times> mem" where
  "finiIntInfRes g res sm =
    (let (s, m) = sm;
         bp = mp_d res - 32;
         isneg = sint (mp_size res) < 0;
         m = store64 m (bp + 24) (if isneg then 1 else 0);
         n = (if isneg then - mp_size res else mp_size res);
         limb = (if n = 0 then 0 else load64 m (bp + 32));
         ans = (if isneg then - limb else limb);
         val = (if isneg then limb - 1 else limb) in
     if sint n \<le> 1 \<and> val < push_bit 62 1 then (push_bit 1 ans OR 1, s, m)
     else
       (let s = setSharedFrontier g s (bp + 32 + scast n * 8);
            m = store64 m bp 0;
            m = store64 m (bp + 8) (scast (n + 1));
            m = store64 m (bp + 16) GC_INTINF_HEADER in
        (pointerToObjptr (bp + 24) (h_start (sharedHeap s)), s, m)))"

section \<open>Operations\<close>

text \<open>\<open>lsp\<close> and \<open>rsp\<close> are the addresses of the two local arrays.\<close>

definition binary ::
    "gc_static \<Rightarrow> pointer \<Rightarrow> pointer \<Rightarrow> objptr \<Rightarrow> objptr \<Rightarrow> mpz_binop \<Rightarrow> GC_state \<times> mem \<Rightarrow> objptr \<times> GC_state \<times> mem" where
  "binary g lsp rsp lhs rhs binop sm =
    (let (s, m) = sm;
         resmpz = initIntInfRes s;
         (lhsmpz, m) = fillIntInfArg lhs lsp m;
         (rhsmpz, m) = fillIntInfArg rhs rsp m;
         (resmpz, m) = binop resmpz lhsmpz rhsmpz m in
     finiIntInfRes g resmpz (s, m))"

definition unary :: "gc_static \<Rightarrow> pointer \<Rightarrow> objptr \<Rightarrow> mpz_unop \<Rightarrow> GC_state \<times> mem \<Rightarrow> objptr \<times> GC_state \<times> mem" where
  "unary g sp arg unop sm =
    (let (s, m) = sm;
         resmpz = initIntInfRes s;
         (argmpz, m) = fillIntInfArg arg sp m;
         (resmpz, m) = unop resmpz argmpz m in
     finiIntInfRes g resmpz (s, m))"

definition shary ::
    "gc_static \<Rightarrow> pointer \<Rightarrow> objptr \<Rightarrow> u32 \<Rightarrow> mpz_shop \<Rightarrow> GC_state \<times> mem \<Rightarrow> objptr \<times> GC_state \<times> mem" where
  "shary g sp arg shift shop sm =
    (let (s, m) = sm;
         resmpz = initIntInfRes s;
         (argmpz, m) = fillIntInfArg arg sp m;
         (resmpz, m) = shop resmpz argmpz (ucast shift) m in
     finiIntInfRes g resmpz (s, m))"

definition IntInf_add where "IntInf_add gm g lsp rsp lhs rhs = binary g lsp rsp lhs rhs (mpz_add gm)"
definition IntInf_andb where "IntInf_andb gm g lsp rsp lhs rhs = binary g lsp rsp lhs rhs (mpz_and gm)"
definition IntInf_gcd where "IntInf_gcd gm g lsp rsp lhs rhs = binary g lsp rsp lhs rhs (mpz_gcd gm)"
definition IntInf_mul where "IntInf_mul gm g lsp rsp lhs rhs = binary g lsp rsp lhs rhs (mpz_mul gm)"
definition IntInf_quot where "IntInf_quot gm g lsp rsp lhs rhs = binary g lsp rsp lhs rhs (mpz_tdiv_q gm)"
definition IntInf_orb where "IntInf_orb gm g lsp rsp lhs rhs = binary g lsp rsp lhs rhs (mpz_ior gm)"
definition IntInf_rem where "IntInf_rem gm g lsp rsp lhs rhs = binary g lsp rsp lhs rhs (mpz_tdiv_r gm)"
definition IntInf_sub where "IntInf_sub gm g lsp rsp lhs rhs = binary g lsp rsp lhs rhs (mpz_sub gm)"
definition IntInf_xorb where "IntInf_xorb gm g lsp rsp lhs rhs = binary g lsp rsp lhs rhs (mpz_xor gm)"
definition IntInf_neg where "IntInf_neg gm g sp arg = unary g sp arg (mpz_neg gm)"
definition IntInf_notb where "IntInf_notb gm g sp arg = unary g sp arg (mpz_com gm)"
definition IntInf_arshift where "IntInf_arshift gm g sp arg shift = shary g sp arg shift (mpz_fdiv_q_2exp gm)"
definition IntInf_lshift where "IntInf_lshift gm g sp arg shift = shary g sp arg shift (mpz_mul_2exp gm)"

definition IntInf_compare :: "gmp \<Rightarrow> pointer \<Rightarrow> pointer \<Rightarrow> objptr \<Rightarrow> objptr \<Rightarrow> mem \<Rightarrow> int \<times> mem" where
  "IntInf_compare gm lsp rsp lhs rhs m =
    (let (lhsmpz, m) = fillIntInfArg lhs lsp m;
         (rhsmpz, m) = fillIntInfArg rhs rsp m;
         res = sint (mpz_cmp gm lhsmpz rhsmpz m) in
     (if res < 0 then -1 else if res > 0 then 1 else 0, m))"

definition IntInf_equal :: "gmp \<Rightarrow> pointer \<Rightarrow> pointer \<Rightarrow> objptr \<Rightarrow> objptr \<Rightarrow> mem \<Rightarrow> bool \<times> mem" where
  "IntInf_equal gm lsp rsp lhs rhs m =
    (if lhs = rhs then (True, m)
     else if isEitherSmall lhs rhs then (False, m)
     else (let (c, m) = IntInf_compare gm lsp rsp lhs rhs m in (0 = c, m)))"

section \<open>Strings\<close>

partial_function (option) strlen_loop :: "mem \<Rightarrow> pointer \<Rightarrow> size_t \<Rightarrow> size_t option" where
  "strlen_loop m p n = (if m (p + n) = 0 then Some n else strlen_loop m p (n + 1))"

text \<open>\<open>c + ('A' - 'a')\<close> for the lower-case letters; \<open>i\<close> is an \<open>unsigned int\<close>.\<close>

definition upcase :: "u8 \<Rightarrow> u8" where
  "upcase c = (if 97 \<le> sint c \<and> sint c \<le> 122 then c - 32 else c)"

partial_function (option) upcase_loop :: "pointer \<Rightarrow> size_t \<Rightarrow> u32 \<Rightarrow> mem \<Rightarrow> mem option" where
  "upcase_loop p n i m =
    (if ucast i < n then upcase_loop p n (i + 1) (m(p + ucast i := upcase (m (p + ucast i)))) else Some m)"

text \<open>\<open>struct GC_string8\<close> has the layout of \<open>GC_intInf\<close>: characters at 24.\<close>

definition IntInf_toString ::
    "gmp \<Rightarrow> gc_static \<Rightarrow> pointer \<Rightarrow> objptr \<Rightarrow> u32 \<Rightarrow> GC_state \<times> mem \<Rightarrow> (objptr \<times> GC_state \<times> mem) option" where
  "IntInf_toString gm g space arg base sm =
    (let (s, m) = sm;
         (argmpz, m) = fillIntInfArg arg space m;
         sp = frontier s;
         m = mpz_get_str gm (sp + 24) base argmpz m in
     do {
       n \<leftarrow> strlen_loop m (sp + 24) 0;
       let m = (if m (sp + 24) = 45 then m(sp + 24 := 126) else m);
       m \<leftarrow> (if 0 < sint base then upcase_loop (sp + 24) n 0 m else Some m);
       let s = setFrontier g s (sp + 24 + n);
       let m = store64 m sp 0;
       let m = store64 m (sp + 8) n;
       let m = store64 m (sp + 16) GC_STRING8_HEADER;
       Some (pointerToObjptr (sp + 24) (h_start (heap s)), s, m) })"

section \<open>Values\<close>

definition bytes :: "pointer \<Rightarrow> nat \<Rightarrow> pointer set" where
  "bytes a n = {x. off a x < n}"

primrec limbs_val :: "mem \<Rightarrow> pointer \<Rightarrow> nat \<Rightarrow> int" where
  "limbs_val m d 0 = 0"
| "limbs_val m d (Suc n) = uint (load64 m d) + 2 ^ 64 * limbs_val m (d + 8) n"

definition mpz_limbs :: "mpz \<Rightarrow> nat" where
  "mpz_limbs z = nat \<bar>sint (mp_size z)\<bar>"

definition mpz_val :: "mem \<Rightarrow> mpz \<Rightarrow> int" where
  "mpz_val m z = (if sint (mp_size z) < 0 then - 1 else 1) * limbs_val m (mp_d z) (mpz_limbs z)"

text \<open>The highest limb is not 0, as GMP keeps it.\<close>

definition mpz_ok :: "mem \<Rightarrow> mpz \<Rightarrow> bool" where
  "mpz_ok m z \<longleftrightarrow> mpz_limbs z < 2 ^ 31 - 1 \<and>
    (mpz_limbs z \<noteq> 0 \<longrightarrow> load64 m (mp_d z + of_nat (8 * (mpz_limbs z - 1))) \<noteq> 0)"

definition small_range :: "int \<Rightarrow> bool" where
  "small_range v \<longleftrightarrow> - (2 ^ 62) \<le> v \<and> v < 2 ^ 62"

definition intInf_limbs :: "mem \<Rightarrow> objptr \<Rightarrow> nat" where
  "intInf_limbs m arg = unat (load64 m (arg - 16)) - 1"

definition intInf_val :: "mem \<Rightarrow> objptr \<Rightarrow> int" where
  "intInf_val m arg =
    (if isSmall arg then sint arg div 2
     else (if load64 m arg \<noteq> 0 then - 1 else 1) * limbs_val m (arg + 8) (intInf_limbs m arg))"

text \<open>A bignum is canonical: no leading zero limb, and too large to be small.\<close>

definition intInf_ok :: "mem \<Rightarrow> objptr \<Rightarrow> bool" where
  "intInf_ok m arg \<longleftrightarrow> isSmall arg \<or>
    (1 \<le> unat (load64 m (arg - 16)) \<and> 1 \<le> intInf_limbs m arg \<and> intInf_limbs m arg < 2 ^ 31 - 1 \<and>
     load64 m (arg + 8 + of_nat (8 * (intInf_limbs m arg - 1))) \<noteq> 0 \<and>
     \<not> small_range (intInf_val m arg))"

section \<open>Values: lemmas\<close>

lemma isSmall_odd: "isSmall arg \<longleftrightarrow> odd (uint arg)"
proof -
  have "isSmall arg \<longleftrightarrow> bit arg 0"
    unfolding isSmall_def by (simp add: and_one_eq odd_iff_mod_2_eq_one [symmetric] bit_0)
  then show ?thesis by (simp add: bit_uint_iff flip: bit_0)
qed

lemma isSmall_parity: "isSmall arg \<longleftrightarrow> odd arg"
  unfolding isSmall_def by (simp add: and_one_eq odd_iff_mod_2_eq_one [symmetric])

lemma sint_cases: "sint (x :: u64) = (if uint x < 2 ^ 63 then uint x else uint x - 2 ^ 64)"
proof -
  have "sint x = (uint x + 2 ^ 63) mod 2 ^ 64 - 2 ^ 63"
    by (simp add: sint_uint signed_take_bit_eq_take_bit_shift take_bit_eq_mod)
  moreover have "0 \<le> uint x" "uint x < 2 ^ 64" using uint_lt2p [of x] by simp_all
  ultimately show ?thesis
    by (cases "uint x < 2 ^ 63") (simp_all add: mod_pos_pos_trivial mod_pos_geq)
qed

lemma bit63: "bit (x :: u64) 63 \<longleftrightarrow> 2 ^ 63 \<le> uint x"
proof -
  have "bit x 63 \<longleftrightarrow> odd (uint x div 2 ^ 63)"
    using bit_uint_iff [of x 63] by (simp add: bit_iff_odd)
  moreover have "uint x div 2 ^ 63 = (if uint x < 2 ^ 63 then 0 else 1)"
    using uint_lt2p [of x] by (simp add: div_pos_geq div_pos_pos_trivial)
  ultimately show ?thesis by auto
qed

lemma bit_hi: "bit (push_bit 63 1 :: u64) n \<longleftrightarrow> n = 63"
  unfolding bit_push_bit_iff bit_1_iff by auto

lemma limbs_val_nonneg: "0 \<le> limbs_val m d n"
  by (induction n arbitrary: d) auto

lemma limbs_val_cong:
  "agree (bytes d (8 * n)) m m' \<Longrightarrow> 8 * n < 2 ^ 64 \<Longrightarrow> limbs_val m d n = limbs_val m' d n"
proof (induction n arbitrary: d)
  case (Suc n)
  have "word8 d \<subseteq> bytes d (8 * Suc n)" by (auto simp: word8_def bytes_def)
  then have 1: "load64 m d = load64 m' d"
    using Suc.prems(1) by (intro agree_load64) (auto simp: agree_def)
  have "bytes (d + 8) (8 * n) \<subseteq> bytes d (8 * Suc n)"
  proof
    fix x assume x: "x \<in> bytes (d + 8) (8 * n)"
    have "x - d = (x - (d + 8)) + of_nat 8" by simp
    moreover have "unat (x - (d + 8)) + 8 < 2 ^ 64" using x Suc.prems(2) by (simp add: bytes_def)
    ultimately have "off d x = off (d + 8) x + 8" using unat_step [of "x - (d + 8)" 8] by metis
    then show "x \<in> bytes d (8 * Suc n)" using x by (simp add: bytes_def)
  qed
  then have "limbs_val m (d + 8) n = limbs_val m' (d + 8) n"
    using Suc.prems by (intro Suc.IH) (auto simp: agree_def)
  with 1 show ?case by simp
qed simp

lemma limbs_val_top:
  "load64 m (d + of_nat (8 * n)) \<noteq> 0 \<Longrightarrow> 2 ^ (64 * n) \<le> limbs_val m d (Suc n)"
proof (induction n arbitrary: d)
  case 0
  then have "uint (load64 m d) \<noteq> 0" by (simp add: uint_0_iff)
  then have "0 < uint (load64 m d)" using uint_ge_0 [of "load64 m d"] by linarith
  then show ?case by (simp add: int_one_le_iff_zero_less)
next
  case (Suc n)
  have "2 ^ (64 * n) \<le> limbs_val m (d + 8) (Suc n)"
    using Suc.prems by (intro Suc.IH) (simp add: add.assoc)
  then have "2 ^ 64 * 2 ^ (64 * n) \<le> 2 ^ 64 * limbs_val m (d + 8) (Suc n)" by simp
  moreover have "(2 :: int) ^ (64 * Suc n) = 2 ^ 64 * 2 ^ (64 * n)"
    by (simp only: power_add [symmetric] mult_Suc_right)
  moreover have "limbs_val m d (Suc (Suc n)) = uint (load64 m d) + 2 ^ 64 * limbs_val m (d + 8) (Suc n)" by simp
  ultimately show ?case using uint_ge_0 [of "load64 m d"] by linarith
qed

text \<open>The two halves of the conversion of a small integer.\<close>

lemma uint_drop1: "uint (drop_bit 1 (x :: u64)) = uint x div 2"
  unfolding drop_bit_eq_div by (simp add: uint_div)

lemma small_neg:
  assumes "bit (arg :: objptr) 63" "odd (uint arg)"
  shows "uint (- (drop_bit 1 arg OR push_bit 63 1)) = - (sint arg div 2)"
    "- (drop_bit 1 arg OR push_bit 63 1) \<noteq> 0"
proof -
  let ?x = "drop_bit 1 arg OR push_bit 63 1"
  have hi: "2 ^ 63 \<le> uint arg" "uint arg < 2 ^ 64" using assms(1) uint_lt2p [of arg] by (simp_all add: bit63)
  have "?x = drop_bit 1 arg + push_bit 63 1"
    using bit_imp_le_length [of arg 64]
    by (intro disjunctive_add [symmetric]) (unfold bit_hi bit_drop_bit_eq, auto)
  then have "uint ?x = (uint (drop_bit 1 arg) + 2 ^ 63) mod 2 ^ 64"
    by (simp only: uint_word_ariths) simp
  then have "uint ?x = (uint arg div 2 + 2 ^ 63) mod 2 ^ 64"
    unfolding uint_drop1 .
  then have x: "uint ?x = uint arg div 2 + 2 ^ 63" using hi by (simp add: mod_pos_pos_trivial)
  have "0 \<le> uint arg div 2" using uint_ge_0 [of arg] by (simp add: pos_imp_zdiv_nonneg_iff)
  moreover have "(0 :: int) < 2 ^ 63" by simp
  ultimately have "uint ?x \<noteq> 0" unfolding x by linarith
  then have "?x \<noteq> 0" by (simp only: uint_0_iff not_False_eq_True)
  then have "uint (- ?x) = 2 ^ 64 - uint ?x"
    using uint_lt2p [of ?x] by (simp add: uint_word_ariths zmod_zminus1_eq_if uint_0_iff)
  moreover have "sint arg div 2 = uint arg div 2 - 2 ^ 63"
    using hi by (simp add: sint_cases)
  ultimately show "uint (- ?x) = - (sint arg div 2)" using x by simp
  show "- ?x \<noteq> 0" using \<open>?x \<noteq> 0\<close> by simp
qed

lemma small_pos:
  assumes "\<not> bit (arg :: objptr) 63" "odd (uint arg)" "arg \<noteq> 1"
  shows "uint (drop_bit 1 arg) = sint arg div 2" "drop_bit 1 arg \<noteq> 0"
proof -
  have lo: "uint arg < 2 ^ 63" using assms(1) by (simp add: bit63)
  then show "uint (drop_bit 1 arg) = sint arg div 2" unfolding uint_drop1 by (simp add: sint_cases)
  have "uint arg \<noteq> 1" using assms(3) by (metis uint_1 word_uint_eqI)
  then have "uint arg div 2 \<noteq> 0" using assms(2) uint_ge_0 [of arg] by (auto elim!: oddE)
  then show "drop_bit 1 arg \<noteq> 0" by (metis uint_drop1 uint_0_iff)
qed

text \<open>Where the limbs of an argument are: in the caller's array, or in the heap.\<close>

definition intInf_region :: "mem \<Rightarrow> objptr \<Rightarrow> pointer set" where
  "intInf_region m arg = (if isSmall arg then {} else bytes (arg - 16) (24 + 8 * intInf_limbs m arg))"

lemma fillIntInfArg_small:
  assumes "isSmall arg" "fillIntInfArg arg space m = (z, m')"
  shows "mpz_val m' z = intInf_val m arg" "mpz_ok m' z" "agree (- word8 space) m m'"
    "mp_d z = space" "mpz_limbs z \<le> 1"
proof -
  have "mpz_val m' z = intInf_val m arg \<and> mpz_ok m' z \<and> agree (- word8 space) m m' \<and>
    mp_d z = space \<and> mpz_limbs z \<le> 1"
  proof -
    have odd: "odd (uint arg)" using assms(1) by (simp add: isSmall_odd)
    consider "arg = 1" | "arg \<noteq> 1" "bit arg 63" | "arg \<noteq> 1" "\<not> bit arg 63" by blast
    then show ?thesis
    proof cases
      case 1
      then show ?thesis
        using assms by (auto simp: fillIntInfArg_def mpz_val_def mpz_limbs_def mpz_ok_def intInf_val_def)
    next
      case 2
      have "bit (arg AND push_bit 63 1) 63" unfolding bit_and_iff bit_hi using 2 by simp
      then have "arg AND push_bit 63 1 \<noteq> 0" by (intro notI) simp
      then have eq: "z = \<lparr> mp_alloc = 2, mp_size = - 1, mp_d = space \<rparr>"
        "m' = store64 m space (- (drop_bit 1 arg OR push_bit 63 1))"
        using assms 2 by (auto simp: fillIntInfArg_def Let_def LIMBS_PER_OBJPTR_def)
      have "mpz_limbs z = 1" by (simp add: eq mpz_limbs_def)
      then show ?thesis
        using small_neg [OF 2(2) odd] assms(1) store64_agree [of space "- word8 space" m]
        by (auto simp: eq mpz_val_def mpz_ok_def intInf_val_def agree_def)
    next
      case 3
      have "arg AND push_bit 63 1 = 0"
        using 3 by (intro bit_word_eqI) (unfold bit_and_iff bit_hi, auto)
      then have eq: "z = \<lparr> mp_alloc = 2, mp_size = 1, mp_d = space \<rparr>"
        "m' = store64 m space (drop_bit 1 arg)"
        using assms 3 by (auto simp: fillIntInfArg_def Let_def LIMBS_PER_OBJPTR_def)
      have "mpz_limbs z = 1" by (simp add: eq mpz_limbs_def)
      then show ?thesis
        using small_pos [OF 3(2) odd 3(1)] assms(1) store64_agree [of space "- word8 space" m]
        by (auto simp: eq mpz_val_def mpz_ok_def intInf_val_def agree_def)
    qed
  qed
  then show "mpz_val m' z = intInf_val m arg" "mpz_ok m' z" "agree (- word8 space) m m'"
    "mp_d z = space" "mpz_limbs z \<le> 1" by simp_all
qed

lemma fillIntInfArg_big:
  assumes "\<not> isSmall arg" "intInf_ok m arg" "fillIntInfArg arg space m = (z, m')"
  shows "m' = m" "mpz_val m z = intInf_val m arg" "mpz_ok m z" "mp_d z = arg + 8"
    "mpz_limbs z = intInf_limbs m arg"
proof -
  let ?al = "ucast (load64 m (arg - 16) - 1) :: u32" and ?n = "intInf_limbs m arg"
  have ok: "1 \<le> unat (load64 m (arg - 16))" "1 \<le> ?n" "?n < 2 ^ 31 - 1"
      "load64 m (arg + 8 + of_nat (8 * (?n - 1))) \<noteq> 0"
    using assms(1,2) unfolding intInf_ok_def by blast+
  have z: "z = \<lparr> mp_alloc = ?al, mp_size = (if load64 m arg \<noteq> 0 then - ?al else ?al), mp_d = arg + 8 \<rparr>" "m' = m"
    using assms(1,3) by (auto simp: fillIntInfArg_def toBignum_def Let_def)
  have un: "unat ?al = ?n"
    using ok(1,3) by (simp add: unsigned_ucast_eq unat_take_bit unat_sub word_le_nat_alt intInf_limbs_def
        take_bit_nat_eq_self)
  have "sint ?al = (uint ?al + 2 ^ 31) mod 2 ^ 32 - 2 ^ 31"
    by (simp add: sint_uint signed_take_bit_eq_take_bit_shift take_bit_eq_mod)
  moreover have ui: "uint ?al = int ?n" using un by (simp add: uint_nat)
  ultimately have pos: "sint ?al = int ?n" using ok(3) by (simp add: mod_pos_pos_trivial)
  have "sint (- ?al) = (uint (- ?al) + 2 ^ 31) mod 2 ^ 32 - 2 ^ 31"
    by (simp add: sint_uint signed_take_bit_eq_take_bit_shift take_bit_eq_mod)
  moreover have "uint (- ?al) = 2 ^ 32 - int ?n"
    using ui ok(2,3) by (simp add: uint_word_ariths zmod_zminus1_eq_if)
  ultimately have neg: "sint (- ?al) = - int ?n" using ok(2,3) by (simp add: mod_pos_geq)
  show "m' = m" "mp_d z = arg + 8" using z by simp_all
  show n: "mpz_limbs z = ?n" by (simp add: mpz_limbs_def z(1) pos neg)
  show "mpz_ok m z" unfolding mpz_ok_def n unfolding z(1) mpz.simps using ok(3,4) by blast
  show "mpz_val m z = intInf_val m arg"
    using assms(1) ok(2) n by (auto simp: mpz_val_def intInf_val_def z(1) pos neg)
qed

section \<open>Results: lemmas\<close>

lemma sint_minus32: "- (2 ^ 31) < sint (x :: u32) \<Longrightarrow> sint (- x) = - sint x"
  using sint_lt [of x] by (simp add: sint_word_ariths signed_take_bit_int_eq_self)

text \<open>What \<open>finiIntInfRes\<close> makes of the sign and size of a result.\<close>

lemma fini_size:
  assumes "mpz_ok m z"
  shows "sint (if sint (mp_size z) < 0 then - mp_size z else mp_size z) = int (mpz_limbs z)"
    "(if sint (mp_size z) < 0 then - mp_size z else mp_size z) = of_nat (mpz_limbs z)"
proof -
  let ?n = "if sint (mp_size z) < 0 then - mp_size z else mp_size z"
  have "mpz_limbs z < 2 ^ 31 - 1" using assms by (simp add: mpz_ok_def)
  then have "- (2 ^ 31) < sint (mp_size z)" by (auto simp: mpz_limbs_def)
  then show 1: "sint ?n = int (mpz_limbs z)" by (auto simp: mpz_limbs_def sint_minus32)
  have "?n = word_of_int (sint ?n)" by simp
  then show "?n = of_nat (mpz_limbs z)" by (simp only: 1 of_int_of_nat_eq)
qed

lemma small_result:
  assumes "small_range v"
  shows "isSmall (push_bit 1 (word_of_int v) OR 1)" "sint (push_bit 1 (word_of_int v) OR 1 :: objptr) div 2 = v"
proof -
  let ?r = "push_bit 1 (word_of_int v) OR 1 :: objptr"
  have "?r = push_bit 1 (word_of_int v) + 1"
    by (intro disjunctive_add [symmetric]) (unfold bit_push_bit_iff bit_1_iff, auto)
  then have "?r = word_of_int (2 * v + 1)" by (simp add: push_bit_eq_mult)
  moreover have "sfits 64 (2 * v + 1)" using assms by (auto simp: small_range_def sfits_def)
  ultimately have r: "sint ?r = 2 * v + 1"
    using sint_word_of_int_fits [where 'a = 64, of "2 * v + 1"] by simp
  then show "sint ?r div 2 = v" by simp
  have "odd (sint ?r)" using r by simp
  then have "odd (uint ?r)" by (auto simp: sint_cases split: if_splits)
  then show "isSmall ?r" unfolding isSmall_odd .
qed

lemma mpz_val_small:
  assumes "mpz_ok m z"
  shows "small_range (mpz_val m z) \<longleftrightarrow>
    mpz_limbs z = 0 \<or> mpz_limbs z = 1 \<and>
      (if sint (mp_size z) < 0 then load64 m (mp_d z) - 1 else load64 m (mp_d z)) < push_bit 62 1"
proof -
  let ?l = "load64 m (mp_d z)"
  have hi: "uint (push_bit 62 1 :: u64) = 2 ^ 62" by (simp add: push_bit_eq_mult)
  consider "mpz_limbs z = 0" | "mpz_limbs z = 1" | k where "mpz_limbs z = Suc (Suc k)"
    by (metis One_nat_def not0_implies_Suc)
  then show ?thesis
  proof cases
    case 1
    then show ?thesis by (simp add: mpz_val_def small_range_def)
  next
    case 2
    have nz: "?l \<noteq> 0" using assms 2 by (simp add: mpz_ok_def)
    then have "0 < uint ?l" using uint_ge_0 [of ?l] by (simp add: uint_0_iff order.strict_iff_order)
    then have "uint (?l - 1) = uint ?l - 1"
      using uint_lt2p [of ?l] by (simp add: uint_word_ariths mod_pos_pos_trivial)
    then show ?thesis
      using 2 \<open>0 < uint ?l\<close> unfolding word_less_def hi by (auto simp: mpz_val_def small_range_def)
  next
    case 3
    have "load64 m (mp_d z + of_nat (8 * Suc k)) \<noteq> 0" using assms 3 by (simp add: mpz_ok_def del: of_nat_Suc)
    from limbs_val_top [OF this] have "2 ^ (64 * Suc k) \<le> limbs_val m (mp_d z) (mpz_limbs z)" by (simp only: 3)
    moreover have "(2 :: int) ^ 64 \<le> 2 ^ (64 * Suc k)" by (rule power_increasing) auto
    ultimately have "2 ^ 64 \<le> limbs_val m (mp_d z) (mpz_limbs z)" by linarith
    then show ?thesis using 3 by (auto simp: mpz_val_def small_range_def)
  qed
qed

lemma off_behind:
  fixes a x :: pointer and j :: nat
  assumes "off (a + of_nat j) x + j < 2 ^ 64"
  shows "off a x = off (a + of_nat j) x + j"
proof -
  have "x - a = (x - (a + of_nat j)) + of_nat j" by (simp only: diff_diff_eq [symmetric] diff_add_cancel)
  then show ?thesis using unat_step [OF assms] by simp
qed

lemma word8_bytes: "j + 8 \<le> n \<Longrightarrow> n \<le> 2 ^ 64 \<Longrightarrow> word8 (a + of_nat j) \<subseteq> bytes a n"
  using off_behind [where a = a and j = j] by (fastforce simp: word8_def bytes_def)

lemma word8_before:
  assumes "x \<in> word8 (d - of_nat k)" "8 \<le> k" "k \<le> 2 ^ 63"
  shows "2 ^ 64 - k \<le> off d x"
proof -
  have k: "unat (of_nat k :: u64) = k" using assms(3) by (intro unat_of_nat_u64) simp
  define y where "y = x - (d - of_nat k)"
  have "unat (y - of_nat k) = (if k \<le> unat y then unat y - k else unat y + 2 ^ 64 - k)"
    using unat_sub_if' [of y "of_nat k"] unfolding k by simp
  moreover have "x - d = y - of_nat k" by (simp add: y_def)
  moreover have "unat y < 8" using assms(1) by (simp add: word8_def y_def)
  ultimately show ?thesis using assms(2) by simp
qed

definition intInf_header_stores :: "mem \<Rightarrow> pointer \<Rightarrow> u64 \<Rightarrow> u64 \<Rightarrow> mem" where
  "intInf_header_stores m d neg len =
    store64 (store64 (store64 (store64 m (d - 8) neg) (d - 32) 0) (d - 24) len) (d - 16) GC_INTINF_HEADER"

lemma header_stores_loads:
  "load64 (intInf_header_stores m d neg len) (d - 8) = neg"
  "load64 (intInf_header_stores m d neg len) (d - 24) = len"
  "getHeader (intInf_header_stores m d neg len) (d - 8) = GC_INTINF_HEADER"
  by (simp_all add: intInf_header_stores_def getHeader_def getHeaderp_def GC_HEADER_SIZE_def
      load64_store64_disjnt disjnt_regions_def)

lemma header_stores_agree:
  assumes "n + 32 \<le> 2 ^ 64"
  shows "agree (bytes d n) m (intInf_header_stores m d neg len)"
    "agree (- bytes (d - 32) 32) m (intInf_header_stores m d neg len)"
proof -
  have *: "intInf_header_stores m d neg len x = m x"
    if "x \<notin> word8 (d - 8)" "x \<notin> word8 (d - 16)" "x \<notin> word8 (d - 24)" "x \<notin> word8 (d - 32)" for x
    using that by (simp add: intInf_header_stores_def word8_def store64_other)
  have "x \<notin> word8 (d - of_nat k)" if "x \<in> bytes d n" "8 \<le> k" "k \<le> 32" for x k
    using word8_before [of x d k] that assms by (auto simp: bytes_def)
  from this [of _ 8] this [of _ 16] this [of _ 24] this [of _ 32]
  show "agree (bytes d n) m (intInf_header_stores m d neg len)"
    using * by (auto simp: agree_def)
  have "x \<notin> word8 (d - 8)" "x \<notin> word8 (d - 16)" "x \<notin> word8 (d - 24)" "x \<notin> word8 (d - 32)"
    if "x \<notin> bytes (d - 32) 32" for x
    using that word8_bytes [of 0 32 "d - 32"] word8_bytes [of 8 32 "d - 32"]
      word8_bytes [of 16 32 "d - 32"] word8_bytes [of 24 32 "d - 32"] by auto
  then show "agree (- bytes (d - 32) 32) m (intInf_header_stores m d neg len)"
    using * by (auto simp: agree_def)
qed

lemma limbs_zero:
  assumes "mpz_ok m z"
  shows "of_nat (mpz_limbs z) = (0 :: u32) \<longleftrightarrow> mpz_limbs z = 0"
proof
  assume 0: "of_nat (mpz_limbs z) = (0 :: u32)"
  show "mpz_limbs z = 0"
    using fini_size(1) [OF assms] unfolding fini_size(2) [OF assms] 0 by simp
qed simp

lemma limbs_widened:
  assumes "mpz_ok m z"
  shows "scast (of_nat (mpz_limbs z) :: u32) = (of_nat (mpz_limbs z) :: u64)"
    "scast (of_nat (mpz_limbs z) + 1 :: u32) = (of_nat (mpz_limbs z + 1) :: u64)"
proof -
  have "sint (of_nat k :: u32) = int k" if "k < 2 ^ 31" for k
    using sint_word_of_int_fits [where 'a = 32, of "int k"] that by (simp add: sfits_def)
  then have w: "scast (of_nat k :: u32) = (of_nat k :: u64)" if "k < 2 ^ 31" for k
    using that by (simp only: scast_eq of_int_of_nat_eq)
  have "mpz_limbs z < 2 ^ 31 - 1" using assms by (simp add: mpz_ok_def)
  then have "mpz_limbs z < 2 ^ 31" "mpz_limbs z + 1 < 2 ^ 31" by simp_all
  note w [OF this(1)] w [OF this(2)]
  moreover have "(of_nat (mpz_limbs z) + 1 :: u32) = of_nat (mpz_limbs z + 1)" by simp
  ultimately show "scast (of_nat (mpz_limbs z) :: u32) = (of_nat (mpz_limbs z) :: u64)"
    "scast (of_nat (mpz_limbs z) + 1 :: u32) = (of_nat (mpz_limbs z + 1) :: u64)"
    by (simp_all only:)
qed

definition limb0 :: "mem \<Rightarrow> mpz \<Rightarrow> u64" where
  "limb0 m z = (if mpz_limbs z = 0 then 0 else load64 m (mp_d z))"

lemma finiIntInfRes_eq:
  assumes "mpz_ok m z"
  shows "finiIntInfRes g z (s, m) =
    (let neg = sint (mp_size z) < 0; sign = (if neg then 1 else 0) in
     if mpz_limbs z \<le> 1 \<and> (if neg then limb0 m z - 1 else limb0 m z) < push_bit 62 1
     then (push_bit 1 (if neg then - limb0 m z else limb0 m z) OR 1, s, store64 m (mp_d z - 8) sign)
     else (mp_d z - 8, s\<lparr>sharedFrontier := alignFrontier (alignment g) (mp_d z + of_nat (8 * mpz_limbs z))\<rparr>,
       intInf_header_stores m (mp_d z) sign (of_nat (mpz_limbs z + 1))))"
proof -
  have l: "limb0 (store64 m (mp_d z - 8) w) z = limb0 m z" for w
    by (simp add: limb0_def load64_store64_disjnt disjnt_regions_def)
  have si: "sint (of_nat (mpz_limbs z) :: u32) = int (mpz_limbs z)"
    using fini_size(1) [OF assms] unfolding fini_size(2) [OF assms] .
  have p: "mp_d z - 32 + 24 = mp_d z - 8" "mp_d z - 32 + 32 = mp_d z" "mp_d z - 32 + 8 = mp_d z - 24"
    "mp_d z - 32 + 16 = mp_d z - 16" by simp_all
  have n: "int (mpz_limbs z) \<le> 1 \<longleftrightarrow> mpz_limbs z \<le> 1" by linarith
  have o: "(of_nat (mpz_limbs z) :: u64) * 8 = of_nat (8 * mpz_limbs z)" by (simp add: mult.commute)
  show ?thesis
    unfolding finiIntInfRes_def Let_def prod.case fini_size(2) [OF assms] limbs_zero [OF assms] p si n
      limbs_widened [OF assms] o setSharedFrontier_def pointerToObjptr_id limb0_def [symmetric] l intInf_header_stores_def
    by (rule refl)
qed

text \<open>The two outcomes.\<close>

lemma finiIntInfRes_small:
  assumes "mpz_ok m z" "small_range (mpz_val m z)" "finiIntInfRes g z (s, m) = (ret, s', m')"
  shows "isSmall ret" "intInf_val m' ret = mpz_val m z" "s' = s" "agree (- bytes (mp_d z - 32) 32) m m'"
proof -
  let ?neg = "sint (mp_size z) < 0"
  let ?m1 = "store64 m (mp_d z - 8) (if ?neg then 1 else 0)"
  note ms = mpz_val_small [OF assms(1), THEN iffD1, OF assms(2)]
  have neg: "mpz_limbs z = 0 \<Longrightarrow> \<not> ?neg" by (auto simp: mpz_limbs_def)
  have "mpz_limbs z \<le> 1 \<and> (if ?neg then limb0 m z - 1 else limb0 m z) < push_bit 62 1"
    using ms neg by (auto simp: limb0_def)
  moreover have "(if ?neg then - limb0 m z else limb0 m z) = word_of_int (mpz_val m z)"
    using ms neg by (auto simp: mpz_val_def limb0_def)
  ultimately have "(ret, s', m') = (push_bit 1 (word_of_int (mpz_val m z)) OR 1, s, ?m1)"
    unfolding assms(3) [symmetric] finiIntInfRes_eq [OF assms(1)] Let_def by (simp only: if_True simp_thms)
  then have eq: "ret = push_bit 1 (word_of_int (mpz_val m z)) OR 1" "s' = s" "m' = ?m1" by (simp_all only: prod.inject)
  show "isSmall ret" unfolding eq by (rule small_result [OF assms(2)])
  then show "intInf_val m' ret = mpz_val m z"
    unfolding intInf_val_def using small_result(2) [OF assms(2)] eq(1) by (simp only: if_True)
  show "s' = s" by (rule eq)
  have "word8 (mp_d z - 8) \<subseteq> bytes (mp_d z - 32) 32"
    using word8_bytes [of 24 32 "mp_d z - 32"] by simp
  then have "word8 (mp_d z - 8) \<inter> - bytes (mp_d z - 32) 32 = {}" by auto
  from store64_agree [OF this] show "agree (- bytes (mp_d z - 32) 32) m m'"
    unfolding eq agree_def by simp
qed

lemma finiIntInfRes_big:
  assumes "mpz_ok m z" "\<not> small_range (mpz_val m z)" "finiIntInfRes g z (s, m) = (ret, s', m')"
    "unat (mp_d z) mod 2 = 0"
  shows "ret = mp_d z - 8" "\<not> isSmall ret" "intInf_ok m' ret" "intInf_val m' ret = mpz_val m z"
    "s' = s\<lparr>sharedFrontier := alignFrontier (alignment g) (mp_d z + of_nat (8 * mpz_limbs z))\<rparr>"
    "agree (- bytes (mp_d z - 32) 32) m m'" "getHeader m' ret = GC_INTINF_HEADER"
proof -
  let ?neg = "sint (mp_size z) < 0" and ?L = "mpz_limbs z" and ?d = "mp_d z"
  have L: "?L < 2 ^ 31 - 1" "1 \<le> ?L" "load64 m (?d + of_nat (8 * (?L - 1))) \<noteq> 0"
    using assms(1,2) mpz_val_small [OF assms(1)] unfolding mpz_ok_def by auto
  let ?m' = "intInf_header_stores m ?d (if ?neg then 1 else 0) (of_nat (?L + 1))"
  let ?s' = "s\<lparr>sharedFrontier := alignFrontier (alignment g) (?d + of_nat (8 * ?L))\<rparr>"
  have "\<not> (?L \<le> 1 \<and> (if ?neg then limb0 m z - 1 else limb0 m z) < push_bit 62 1)"
    using mpz_val_small [OF assms(1)] assms(2) L(2) by (auto simp: limb0_def)
  then have "(ret, s', m') = (?d - 8, ?s', ?m')"
    unfolding assms(3) [symmetric] finiIntInfRes_eq [OF assms(1)] Let_def by (simp only: if_False simp_thms)
  then have eq: "ret = ?d - 8" "s' = ?s'" "m' = ?m'" by (simp_all only: prod.inject)
  show "ret = ?d - 8" "s' = ?s'" by (rule eq)+
  show "getHeader m' ret = GC_INTINF_HEADER" unfolding eq by (rule header_stores_loads(3))
  show "agree (- bytes (?d - 32) 32) m m'" unfolding eq by (rule header_stores_agree(2) [where n = 0]) simp
  have "\<not> isSmall ?d" using assms(4) unfolding isSmall_odd uint_nat even_of_nat even_iff_mod_2_eq_zero [of "unat _"] by simp
  then have "even (?d - 8)" by (simp add: isSmall_parity)
  then show ns: "\<not> isSmall ret" by (simp add: isSmall_parity eq(1))
  have len: "load64 m' (ret - 16) = of_nat (?L + 1)" by (simp only: eq) (simp add: header_stores_loads)
  then have limbs: "intInf_limbs m' ret = ?L"
    using L(1) unfolding intInf_limbs_def by (simp add: unat_of_nat_u64 [simplified] del: of_nat_add of_nat_Suc)
  have ag: "agree (bytes ?d (8 * ?L)) m m'"
    unfolding eq using L(1) by (intro header_stores_agree(1)) simp
  then have v: "limbs_val m' (ret + 8) ?L = limbs_val m ?d ?L"
    using L(1) limbs_val_cong [OF ag] by (simp add: eq(1))
  have neg: "load64 m' ret \<noteq> 0 \<longleftrightarrow> ?neg" by (simp only: eq header_stores_loads) simp
  show val: "intInf_val m' ret = mpz_val m z"
    using ns by (simp add: intInf_val_def limbs v neg mpz_val_def)
  have "word8 (?d + of_nat (8 * (?L - 1))) \<subseteq> bytes ?d (8 * ?L)"
    using L(1,2) by (intro word8_bytes) auto
  then have "load64 m' (?d + of_nat (8 * (?L - 1))) = load64 m (?d + of_nat (8 * (?L - 1)))"
    using ag by (intro agree_load64 [symmetric]) (auto simp: agree_def)
  moreover have "ret + 8 = ?d" by (simp add: eq(1))
  moreover have "1 \<le> unat (load64 m' (ret - 16))"
    using L(1) unfolding len by (simp add: unat_of_nat_u64 [simplified] del: of_nat_add of_nat_Suc)
  ultimately show "intInf_ok m' ret"
    unfolding intInf_ok_def limbs val using L assms(2) by (simp del: of_nat_mult of_nat_diff)
qed

section \<open>What the code relies on of GMP\<close>

text \<open>GMP documents that a function whose result has enough allocated limbs, \<open>need\<close> for the
  limbs of its operands, works in place: it sets the limbs and the size of the result,
  leaves no high zero limb, and changes no other memory. \<open>op\<close> is \<open>None\<close> where the
  function is undefined, as division by zero.\<close>

definition limb_bytes :: "mpz \<Rightarrow> pointer set" where
  "limb_bytes z = bytes (mp_d z) (8 * mpz_limbs z)"

definition gmp_result :: "mpz \<Rightarrow> nat \<Rightarrow> mem \<Rightarrow> int \<Rightarrow> mpz \<times> mem \<Rightarrow> bool" where
  "gmp_result r n m v rm' \<longleftrightarrow> (let (r', m') = rm' in
     mp_d r' = mp_d r \<and> mpz_limbs r' \<le> n \<and> mpz_ok m' r' \<and> mpz_val m' r' = v \<and>
     agree (- bytes (mp_d r) (8 * n)) m m')"

definition gmp_binop :: "(nat \<Rightarrow> nat \<Rightarrow> nat) \<Rightarrow> (int \<Rightarrow> int \<Rightarrow> int option) \<Rightarrow> mpz_binop \<Rightarrow> bool" where
  "gmp_binop need op f \<longleftrightarrow> (\<forall>r a b m v n. mpz_ok m a \<longrightarrow> mpz_ok m b \<longrightarrow>
     op (mpz_val m a) (mpz_val m b) = Some v \<longrightarrow>
     need (mpz_limbs a) (mpz_limbs b) \<le> n \<longrightarrow> n \<le> unat (mp_alloc r) \<longrightarrow>
     bytes (mp_d r) (8 * n) \<inter> (limb_bytes a \<union> limb_bytes b) = {} \<longrightarrow>
     gmp_result r n m v (f r a b m))"

definition gmp_cmp :: "(mpz \<Rightarrow> mpz \<Rightarrow> mem \<Rightarrow> u32) \<Rightarrow> bool" where
  "gmp_cmp f \<longleftrightarrow> (\<forall>a b m. mpz_ok m a \<longrightarrow> mpz_ok m b \<longrightarrow>
     sgn (sint (f a b m)) = sgn (mpz_val m a - mpz_val m b))"

section \<open>Arguments: lemmas\<close>

definition arg_limbs :: "mem \<Rightarrow> objptr \<Rightarrow> nat" where
  "arg_limbs m arg = (if isSmall arg then 1 else intInf_limbs m arg)"

lemma bytes_mono: "j + k \<le> n \<Longrightarrow> n \<le> 2 ^ 64 \<Longrightarrow> bytes (a + of_nat j) k \<subseteq> bytes a n"
  using off_behind [where a = a and j = j] by (fastforce simp: bytes_def)

lemma fillIntInfArg_spec:
  assumes "intInf_ok m arg" "fillIntInfArg arg space m = (z, m')"
  shows "mpz_val m' z = intInf_val m arg" "mpz_ok m' z" "agree (- word8 space) m m'"
    "limb_bytes z \<subseteq> word8 space \<union> intInf_region m arg" "mpz_limbs z \<le> arg_limbs m arg"
proof -
  have "mpz_val m' z = intInf_val m arg \<and> mpz_ok m' z \<and> agree (- word8 space) m m' \<and>
    limb_bytes z \<subseteq> word8 space \<union> intInf_region m arg \<and> mpz_limbs z \<le> arg_limbs m arg"
  proof (cases "isSmall arg")
    case True
    note f = fillIntInfArg_small [OF True assms(2)]
    have "limb_bytes z \<subseteq> word8 space" using f(4,5) by (auto simp: limb_bytes_def bytes_def word8_def)
    then show ?thesis using True f by (auto simp: arg_limbs_def)
  next
    case False
    note f = fillIntInfArg_big [OF False assms]
    have "intInf_limbs m arg < 2 ^ 31 - 1" using assms(1) False unfolding intInf_ok_def by blast
    then have "limb_bytes z \<subseteq> intInf_region m arg"
      using False bytes_mono [of 24 "8 * intInf_limbs m arg" "24 + 8 * intInf_limbs m arg" "arg - 16"]
      by (simp add: limb_bytes_def intInf_region_def f add.commute)
    then show ?thesis using False f by (auto simp: arg_limbs_def)
  qed
  then show "mpz_val m' z = intInf_val m arg" "mpz_ok m' z" "agree (- word8 space) m m'"
    "limb_bytes z \<subseteq> word8 space \<union> intInf_region m arg" "mpz_limbs z \<le> arg_limbs m arg" by blast+
qed

lemma mpz_cong:
  assumes "agree (limb_bytes z) m m'" "mpz_ok m z"
  shows "mpz_val m' z = mpz_val m z" "mpz_ok m' z"
proof -
  have L: "mpz_limbs z < 2 ^ 31 - 1" using assms(2) by (simp add: mpz_ok_def)
  then have "limbs_val m (mp_d z) (mpz_limbs z) = limbs_val m' (mp_d z) (mpz_limbs z)"
    using assms(1) by (intro limbs_val_cong) (simp_all add: limb_bytes_def)
  then show "mpz_val m' z = mpz_val m z" by (simp add: mpz_val_def)
  have "load64 m' (mp_d z + of_nat (8 * (mpz_limbs z - 1))) = load64 m (mp_d z + of_nat (8 * (mpz_limbs z - 1)))"
    if "mpz_limbs z \<noteq> 0"
    using that L word8_bytes [of "8 * (mpz_limbs z - 1)" "8 * mpz_limbs z" "mp_d z"]
    by (intro agree_load64 [symmetric] agree_mono [OF assms(1)]) (simp add: limb_bytes_def)
  then show "mpz_ok m' z" using assms(2) unfolding mpz_ok_def by metis
qed

lemma intInf_cong:
  assumes "agree (intInf_region m arg) m m'" "intInf_ok m arg"
  shows "intInf_val m' arg = intInf_val m arg" "intInf_ok m' arg" "intInf_region m' arg = intInf_region m arg"
    "arg_limbs m' arg = arg_limbs m arg"
proof -
  have "intInf_val m' arg = intInf_val m arg \<and> intInf_ok m' arg \<and> intInf_region m' arg = intInf_region m arg \<and>
    arg_limbs m' arg = arg_limbs m arg"
  proof (cases "isSmall arg")
    case True
    then show ?thesis by (simp add: intInf_val_def intInf_ok_def intInf_region_def arg_limbs_def)
  next
    case False
    let ?n = "intInf_limbs m arg"
    have ok: "1 \<le> ?n" "?n < 2 ^ 31 - 1" using assms(2) False unfolding intInf_ok_def by blast+
    have ag: "agree (bytes (arg - 16) (24 + 8 * ?n)) m m'" using assms(1) False by (simp add: intInf_region_def)
    have w: "load64 m' (arg - 16 + of_nat j) = load64 m (arg - 16 + of_nat j)" if "j + 8 \<le> 24 + 8 * ?n" for j
      using that ok word8_bytes [of j "24 + 8 * ?n" "arg - 16"]
      by (intro agree_load64 [symmetric] agree_mono [OF ag]) simp
    have l: "load64 m' (arg - 16) = load64 m (arg - 16)" "load64 m' arg = load64 m arg"
      using w [of 0] w [of 16] by simp_all
    have "arg + 8 + of_nat (8 * (?n - 1)) = arg - 16 + of_nat (24 + 8 * (?n - 1))" by simp
    moreover have "load64 m' (arg - 16 + of_nat (24 + 8 * (?n - 1))) = load64 m (arg - 16 + of_nat (24 + 8 * (?n - 1)))"
      using ok by (intro w) simp
    ultimately have t: "load64 m' (arg + 8 + of_nat (8 * (?n - 1))) = load64 m (arg + 8 + of_nat (8 * (?n - 1)))"
      by (simp only:)
    have n: "intInf_limbs m' arg = ?n" by (simp add: intInf_limbs_def l)
    have "agree (bytes (arg + 8) (8 * ?n)) m m'"
      using ok bytes_mono [of 24 "8 * ?n" "24 + 8 * ?n" "arg - 16"]
      by (intro agree_mono [OF ag]) (simp add: add.commute)
    then have "limbs_val m (arg + 8) ?n = limbs_val m' (arg + 8) ?n" using ok by (intro limbs_val_cong) simp_all
    then have v: "intInf_val m' arg = intInf_val m arg" using False by (simp add: intInf_val_def l n)
    have "intInf_ok m' arg" using assms(2) unfolding intInf_ok_def n t v l .
    then show ?thesis using v by (simp add: intInf_region_def n arg_limbs_def)
  qed
  then show "intInf_val m' arg = intInf_val m arg" "intInf_ok m' arg" "intInf_region m' arg = intInf_region m arg"
    "arg_limbs m' arg = arg_limbs m arg" by blast+
qed

text \<open>Both arguments together.\<close>

lemma fill_both:
  assumes "intInf_ok m lhs" "intInf_ok m rhs"
    "fillIntInfArg lhs lsp m = (l, m1)" "fillIntInfArg rhs rsp m1 = (r, m2)"
    "word8 lsp \<inter> (word8 rsp \<union> intInf_region m rhs) = {}" "word8 rsp \<inter> intInf_region m lhs = {}"
  shows "mpz_val m2 l = intInf_val m lhs" "mpz_ok m2 l" "mpz_val m2 r = intInf_val m rhs" "mpz_ok m2 r"
    "agree (- (word8 lsp \<union> word8 rsp)) m m2"
    "limb_bytes l \<union> limb_bytes r \<subseteq> word8 lsp \<union> word8 rsp \<union> intInf_region m lhs \<union> intInf_region m rhs"
    "mpz_limbs l \<le> arg_limbs m lhs" "mpz_limbs r \<le> arg_limbs m rhs"
proof -
  note f1 = fillIntInfArg_spec [OF assms(1,3)]
  have "agree (intInf_region m rhs) m m1" using assms(5) by (intro agree_mono [OF f1(3)]) blast
  note c = intInf_cong [OF this assms(2)]
  note f2 = fillIntInfArg_spec [OF c(2) assms(4)]
  have "agree (limb_bytes l) m1 m2" using f1(4) assms(5,6) by (intro agree_mono [OF f2(3)]) blast
  note d = mpz_cong [OF this f1(2)]
  show "mpz_val m2 l = intInf_val m lhs" "mpz_ok m2 l" using d f1(1) by simp_all
  show "mpz_val m2 r = intInf_val m rhs" "mpz_ok m2 r" using f2(1,2) c(1) by simp_all
  show "agree (- (word8 lsp \<union> word8 rsp)) m m2" using f1(3) f2(3) by (auto simp: agree_def)
  show "limb_bytes l \<union> limb_bytes r \<subseteq> word8 lsp \<union> word8 rsp \<union> intInf_region m lhs \<union> intInf_region m rhs"
    using f1(4) f2(4) c(3) by blast
  show "mpz_limbs l \<le> arg_limbs m lhs" "mpz_limbs r \<le> arg_limbs m rhs" using f1(5) f2(5) c(4) by simp_all
qed

lemma fini_result:
  assumes "gmp_result (initIntInfRes s) n m v (z, m1)" "unat (sharedFrontier s) mod 2 = 0"
    "finiIntInfRes g z (s, m1) = (ret, s', m')" "32 + 8 * n \<le> 2 ^ 64"
  shows "intInf_ok m' ret" "intInf_val m' ret = v" "small_range v \<Longrightarrow> isSmall ret \<and> s' = s"
    "\<not> small_range v \<Longrightarrow> \<exists>k\<le>n. s' = s\<lparr>sharedFrontier := alignFrontier (alignment g) (sharedFrontier s + of_nat (32 + 8 * k))\<rparr>"
    "agree (- bytes (sharedFrontier s) (32 + 8 * n)) m m'"
proof -
  have r: "mp_d z = sharedFrontier s + 32" "mpz_limbs z \<le> n" "mpz_ok m1 z" "mpz_val m1 z = v"
    "agree (- bytes (sharedFrontier s + 32) (8 * n)) m m1"
    using assms(1) by (simp_all add: gmp_result_def initIntInfRes_def Let_def)
  have "\<not> isSmall (sharedFrontier s)"
    using assms(2) unfolding isSmall_odd uint_nat even_of_nat even_iff_mod_2_eq_zero [of "unat _"] by simp
  then have "\<not> isSmall (mp_d z)" by (simp add: r(1) isSmall_parity)
  then have par: "unat (mp_d z) mod 2 = 0"
    unfolding isSmall_odd uint_nat even_of_nat by (simp add: even_iff_mod_2_eq_zero)
  have "intInf_ok m' ret \<and> intInf_val m' ret = v \<and> agree (- bytes (mp_d z - 32) 32) m1 m'"
    using finiIntInfRes_small [OF r(3) _ assms(3)] finiIntInfRes_big [OF r(3) _ assms(3) par]
    by (cases "small_range v") (auto simp: r(4) intInf_ok_def)
  moreover have "bytes (sharedFrontier s + 32) (8 * n) \<subseteq> bytes (sharedFrontier s) (32 + 8 * n)"
    using bytes_mono [of 32 "8 * n" "32 + 8 * n" "sharedFrontier s"] assms(4) by simp
  moreover have "bytes (sharedFrontier s) 32 \<subseteq> bytes (sharedFrontier s) (32 + 8 * n)" by (auto simp: bytes_def)
  ultimately show "intInf_ok m' ret" "intInf_val m' ret = v" "agree (- bytes (sharedFrontier s) (32 + 8 * n)) m m'"
    using r(5) by (simp_all add: r(1)) (meson Compl_subset_Compl_iff agree_mono agree_trans)
  show "small_range v \<Longrightarrow> isSmall ret \<and> s' = s"
    using finiIntInfRes_small [OF r(3) _ assms(3)] by (simp add: r(4))
  show "\<exists>k\<le>n. s' = s\<lparr>sharedFrontier := alignFrontier (alignment g) (sharedFrontier s + of_nat (32 + 8 * k))\<rparr>"
    if "\<not> small_range v"
    using finiIntInfRes_big(5) [OF r(3) _ assms(3) par] that r(2)
    by (intro exI [of _ "mpz_limbs z"]) (simp add: r(1,4) add.assoc)
qed

section \<open>Properties\<close>

text \<open>C12: A binary operation on canonical integers returns the canonical integer of the exact
  mathematical result, whatever the mixture of small and large operands, if the GMP
  function keeps its documentation and there is room for its limbs. A result from
  \<open>- 2 ^ 62\<close> to \<open>2 ^ 62 - 1\<close> is returned as a small integer and takes no space of the heap;
  a larger one moves the frontier past its limbs. Nothing outside the area that may hold
  the result and the two local arrays is written.\<close>

theorem IntInf_binary_correct:
  assumes "gmp_binop need op f" and "\<And>i j i' j'. i \<le> i' \<Longrightarrow> j \<le> j' \<Longrightarrow> need i j \<le> need i' j'"
    and "intInf_ok m lhs" "intInf_ok m rhs" "op (intInf_val m lhs) (intInf_val m rhs) = Some v"
    and "n = need (arg_limbs m lhs) (arg_limbs m rhs)" "n \<le> unat (mp_alloc (initIntInfRes s))" "32 + 8 * n \<le> 2 ^ 64"
    and "unat (sharedFrontier s) mod 2 = 0"
    and "word8 lsp \<inter> (word8 rsp \<union> intInf_region m rhs) = {}" "word8 rsp \<inter> intInf_region m lhs = {}"
    and "bytes (sharedFrontier s) (32 + 8 * n) \<inter>
      (word8 lsp \<union> word8 rsp \<union> intInf_region m lhs \<union> intInf_region m rhs) = {}"
  shows "\<exists>ret s' m'. binary g lsp rsp lhs rhs f (s, m) = (ret, s', m') \<and>
    intInf_ok m' ret \<and> intInf_val m' ret = v \<and>
    (if small_range v then isSmall ret \<and> s' = s
     else \<exists>k\<le>n. s' = s\<lparr>sharedFrontier := alignFrontier (alignment g) (sharedFrontier s + of_nat (32 + 8 * k))\<rparr>) \<and>
    agree (- (bytes (sharedFrontier s) (32 + 8 * n) \<union> word8 lsp \<union> word8 rsp)) m m'"
proof -
  obtain l m1 where l: "fillIntInfArg lhs lsp m = (l, m1)" by force
  obtain r m2 where r: "fillIntInfArg rhs rsp m1 = (r, m2)" by force
  obtain z m3 where z: "f (initIntInfRes s) l r m2 = (z, m3)" by force
  obtain ret s' m' where ret: "finiIntInfRes g z (s, m3) = (ret, s', m')" by (metis prod_cases3)
  note args = fill_both [OF assms(3,4) l r assms(10,11)]
  have "need (mpz_limbs l) (mpz_limbs r) \<le> n" unfolding assms(6) by (rule assms(2) [OF args(7,8)])
  moreover have "bytes (mp_d (initIntInfRes s)) (8 * n) \<subseteq> bytes (sharedFrontier s) (32 + 8 * n)"
    using bytes_mono [of 32 "8 * n" "32 + 8 * n" "sharedFrontier s"] assms(8)
    by (simp add: initIntInfRes_def Let_def)
  then have "bytes (mp_d (initIntInfRes s)) (8 * n) \<inter> (limb_bytes l \<union> limb_bytes r) = {}"
    using args(6) assms(12) by blast
  ultimately have "gmp_result (initIntInfRes s) n m2 v (f (initIntInfRes s) l r m2)"
    using assms(1,5,7) args(1-4) unfolding gmp_binop_def by metis
  note res = fini_result [OF this [unfolded z] assms(9) ret assms(8)]
  have "binary g lsp rsp lhs rhs f (s, m) = (ret, s', m')"
    by (simp add: binary_def Let_def l r z ret)
  moreover have "agree (- (bytes (sharedFrontier s) (32 + 8 * n) \<union> word8 lsp \<union> word8 rsp)) m m'"
    using args(5) res(5) by (auto simp: agree_def)
  ultimately show ?thesis
    using res(1-4) by (intro exI [of _ ret] exI [of _ s'] exI [of _ m'] conjI) (auto split: if_split)
qed

text \<open>An addition for results below \<open>2 ^ 64\<close> that keeps GMP's documentation.\<close>

definition demo_op :: "int \<Rightarrow> int \<Rightarrow> int option" where
  "demo_op x y = (if 0 \<le> x + y \<and> x + y < 2 ^ 64 then Some (x + y) else None)"

definition demo_add :: mpz_binop where
  "demo_add r a b m =
    (let v = mpz_val m a + mpz_val m b in
     (r\<lparr>mp_size := (if v = 0 then 0 else 1)\<rparr>, store64 m (mp_d r) (word_of_int v)))"

lemma demo_add_gmp: "gmp_binop (\<lambda>_ _. 1) demo_op demo_add"
proof -
  have "gmp_result r n m v (demo_add r a b m)"
    if "demo_op (mpz_val m a) (mpz_val m b) = Some v" "1 \<le> n" for r a b m v n
  proof -
    have v: "mpz_val m a + mpz_val m b = v" "0 \<le> v" "v < 2 ^ 64"
      using that(1) by (auto simp: demo_op_def split: if_splits)
    have u: "uint (word_of_int v :: u64) = v" using v(2,3) by (simp add: uint_word_of_int mod_pos_pos_trivial)
    then have nz: "(word_of_int v :: u64) = 0 \<longleftrightarrow> v = 0" by (metis uint_0_iff)
    have "word8 (mp_d r) \<subseteq> bytes (mp_d r) (8 * n)" using that(2) by (auto simp: word8_def bytes_def)
    then have "word8 (mp_d r) \<inter> - bytes (mp_d r) (8 * n) = {}" by auto
    then have "agree (- bytes (mp_d r) (8 * n)) m (store64 m (mp_d r) (word_of_int v))"
      using store64_agree [of "mp_d r" "- bytes (mp_d r) (8 * n)" m] unfolding agree_def by metis
    moreover have "demo_add r a b m = (r\<lparr>mp_size := (if v = 0 then 0 else 1)\<rparr>, store64 m (mp_d r) (word_of_int v))"
      unfolding demo_add_def Let_def v(1) ..
    ultimately show ?thesis
      using that(2) nz u by (auto simp: gmp_result_def mpz_limbs_def mpz_ok_def mpz_val_def)
  qed
  then show ?thesis unfolding gmp_binop_def by blast
qed

text \<open>\<open>2 ^ 61 + 2 ^ 61\<close> is the smallest integer that is not small.\<close>

lemma IntInf_binary_correct_witness:
  "\<exists>ret s' m'. binary demo_static 4096 8192 (2 ^ 62 + 1) (2 ^ 62 + 1) demo_add
      (demo_state\<lparr>sharedFrontier := 65536, sharedLimitPlusSlop := 131072\<rparr>, \<lambda>_. 0) = (ret, s', m') \<and>
    \<not> isSmall ret \<and> intInf_val m' ret = 2 ^ 62"
proof -
  let ?s = "demo_state\<lparr>sharedFrontier := 65536, sharedLimitPlusSlop := 131072\<rparr>"
  let ?x = "2 ^ 62 + 1 :: objptr"
  have small: "isSmall ?x" by (simp add: isSmall_parity)
  have val: "intInf_val (\<lambda>_. 0) ?x = 2 ^ 61"
  proof -
    have "uint ?x = 2 ^ 62 + 1" by simp
    then show ?thesis using small by (simp add: intInf_val_def sint_cases)
  qed
  have region: "intInf_region (\<lambda>_. 0) ?x = {}" using small by (simp add: intInf_region_def)
  have apart: "bytes 65536 40 \<inter> (word8 4096 \<union> word8 8192) = {}"
  proof -
    have "off 65536 x \<ge> 40" if "off a x < 8" "a = 4096 \<or> a = 8192" for x a :: pointer
    proof -
      have "x - 65536 = (x - a) - (65536 - a)" by simp
      moreover have "unat (65536 - a) = 61440 \<or> unat (65536 - a) = 57344" using that(2) by auto
      ultimately show ?thesis using that(1) by (simp only: unat_sub_if') auto
    qed
    then show ?thesis by (fastforce simp: bytes_def word8_def not_less [symmetric])
  qed
  have "\<exists>ret s' m'. binary demo_static 4096 8192 ?x ?x demo_add (?s, \<lambda>_. 0) = (ret, s', m') \<and>
    intInf_ok m' ret \<and> intInf_val m' ret = 2 ^ 62 \<and>
    (if small_range (2 ^ 62) then isSmall ret \<and> s' = ?s
     else \<exists>k\<le>1. s' = ?s\<lparr>sharedFrontier := alignFrontier (alignment demo_static) (sharedFrontier ?s + of_nat (32 + 8 * k))\<rparr>) \<and>
    agree (- (bytes (sharedFrontier ?s) (32 + 8 * 1) \<union> word8 4096 \<union> word8 8192)) (\<lambda>_. 0) m'"
  proof (rule IntInf_binary_correct [OF demo_add_gmp])
    show "demo_op (intInf_val (\<lambda>_. 0) ?x) (intInf_val (\<lambda>_. 0) ?x) = Some (2 ^ 62)"
      unfolding val by (simp add: demo_op_def)
    show "1 \<le> unat (mp_alloc (initIntInfRes ?s))" by (simp add: initIntInfRes_def min_def)
    show "bytes (sharedFrontier ?s) (32 + 8 * 1) \<inter>
      (word8 4096 \<union> word8 8192 \<union> intInf_region (\<lambda>_. 0) ?x \<union> intInf_region (\<lambda>_. 0) ?x) = {}"
      using apart unfolding region by simp
    show "word8 4096 \<inter> (word8 8192 \<union> intInf_region (\<lambda>_. 0) ?x) = {}"
      unfolding region by (simp add: word8_apart)
  qed (use small region in \<open>simp_all add: intInf_ok_def\<close>)
  moreover have "\<not> small_range (2 ^ 62)" by (simp add: small_range_def)
  moreover have "\<not> isSmall ret" if "intInf_val m' ret = 2 ^ 62" for ret m'
  proof
    assume "isSmall ret"
    then have "sint ret div 2 = 2 ^ 62" using that by (simp add: intInf_val_def)
    then show False using sint_lt [of ret] by simp
  qed
  ultimately show ?thesis by blast
qed

text \<open>\<open>IntInf_compare\<close> returns the sign of the difference of the two integers, and
  \<open>IntInf_equal\<close> decides their equality, although it answers false without looking at the
  limbs when one of two different words is small: canonical integers have one form each.\<close>

theorem IntInf_equal_correct:
  assumes "gmp_cmp (mpz_cmp gm)" "intInf_ok m lhs" "intInf_ok m rhs"
    and "word8 lsp \<inter> (word8 rsp \<union> intInf_region m rhs) = {}" "word8 rsp \<inter> intInf_region m lhs = {}"
  shows "fst (IntInf_compare gm lsp rsp lhs rhs m) = sgn (intInf_val m lhs - intInf_val m rhs) \<and>
    (fst (IntInf_equal gm lsp rsp lhs rhs m) \<longleftrightarrow> intInf_val m lhs = intInf_val m rhs)"
proof -
  obtain l m1 where l: "fillIntInfArg lhs lsp m = (l, m1)" by force
  obtain r m2 where r: "fillIntInfArg rhs rsp m1 = (r, m2)" by force
  note args = fill_both [OF assms(2,3) l r assms(4,5)]
  have "sgn (sint (mpz_cmp gm l r m2)) = sgn (intInf_val m lhs - intInf_val m rhs)"
    using assms(1) args(1-4) unfolding gmp_cmp_def by metis
  then have c: "fst (IntInf_compare gm lsp rsp lhs rhs m) = sgn (intInf_val m lhs - intInf_val m rhs)"
    by (auto simp: IntInf_compare_def l r Let_def sgn_if split: if_splits)
  have small: "small_range (intInf_val m x)" if "isSmall x" for x
    using that sint_lt [of x] sint_ge [of x] by (auto simp: intInf_val_def small_range_def)
  have inj: "x = y" if "isSmall x" "isSmall y" "intInf_val m x = intInf_val m y" for x y
  proof -
    have "odd (sint x)" "odd (sint y)" using that(1,2) by (auto simp: isSmall_odd sint_cases split: if_splits)
    then have "sint x = sint y" using that by (auto simp: intInf_val_def elim!: oddE)
    then show ?thesis by (rule signed_word_eqI)
  qed
  have "isEitherSmall lhs rhs \<longleftrightarrow> isSmall lhs \<or> isSmall rhs"
    unfolding isEitherSmall_def isSmall_parity and_one_eq
    by (simp add: odd_iff_mod_2_eq_one [symmetric] even_or_iff)
  moreover have "intInf_val m lhs \<noteq> intInf_val m rhs" if "lhs \<noteq> rhs" "isSmall lhs \<or> isSmall rhs"
    using that inj small assms(2,3) unfolding intInf_ok_def by metis
  ultimately have "fst (IntInf_equal gm lsp rsp lhs rhs m) \<longleftrightarrow> intInf_val m lhs = intInf_val m rhs"
    using c by (auto simp: IntInf_equal_def split_beta sgn_if)
  with c show ?thesis by blast
qed

definition demo_gmp :: gmp where
  "demo_gmp = \<lparr> mpz_add = demo_add, mpz_and = demo_add, mpz_gcd = demo_add, mpz_mul = demo_add,
     mpz_tdiv_q = demo_add, mpz_ior = demo_add, mpz_tdiv_r = demo_add, mpz_sub = demo_add,
     mpz_xor = demo_add, mpz_neg = (\<lambda>r a m. (r, m)), mpz_com = (\<lambda>r a m. (r, m)),
     mpz_fdiv_q_2exp = (\<lambda>r a n m. (r, m)), mpz_mul_2exp = (\<lambda>r a n m. (r, m)),
     mpz_cmp = (\<lambda>a b m. word_of_int (sgn (mpz_val m a - mpz_val m b))),
     mpz_get_str = (\<lambda>p b z m. m) \<rparr>"

lemma IntInf_equal_correct_witness:
  "fst (IntInf_compare demo_gmp 4096 8192 7 9 (\<lambda>_. 0)) = -1 \<and> \<not> fst (IntInf_equal demo_gmp 4096 8192 7 9 (\<lambda>_. 0))"
proof -
  have "gmp_cmp (mpz_cmp demo_gmp)" by (auto simp: gmp_cmp_def demo_gmp_def sgn_if)
  moreover have small: "isSmall 7" "isSmall 9" by (simp_all add: isSmall_parity)
  moreover have "intInf_val (\<lambda>_. 0) 7 = 3" "intInf_val (\<lambda>_. 0) 9 = 4" using small by (simp_all add: intInf_val_def)
  ultimately show ?thesis
    using IntInf_equal_correct [of demo_gmp "\<lambda>_. 0" 7 9 4096 8192]
    by (simp add: intInf_ok_def intInf_region_def word8_apart)
qed

end
