(* ===== verification/Shared_Alloc.thy ===== *)
theory Shared_Alloc
  imports Foreach
begin

text \<open>
  Chunks of the nursery: \<open>allocChunkInSharedHeap\<close> and \<open>maybeSatisfyAllocationRequestLocally\<close>
  of \<open>gc/garbage-collection.c\<close>, and the loop of \<open>setGCStateCurrentSharedHeap\<close>
  (\<open>gc/gc_state.c\<close>) that gives every processor its first chunk. The processors take chunks of
  the shared heap without a lock, by a compare-and-swap of the frontier of the heap; their
  steps interleave in any order.
\<close>

section \<open>State\<close>

text \<open>The fields of one processor (\<open>sharedStart\<close>, \<open>sharedFrontier\<close>, \<open>sharedLimitPlusSlop\<close>,
  \<open>sharedLimit\<close>, and likewise for the local heap), and what is constant between collections.\<close>

record chunk =
  ch_start :: pointer
  ch_frontier :: pointer
  ch_limitPlusSlop :: pointer
  ch_limit :: pointer

record alloc_env =
  heap_start :: pointer
  heap_available :: size_t
  allocChunkSize :: size_t

definition GC_HEAP_LIMIT_SLOP :: size_t where "GC_HEAP_LIMIT_SLOP = 512"

section \<open>One attempt\<close>

text \<open>What one round of the loop decides from its only read of the heap's frontier: the request
  is satisfied, there is no space, or these are the new frontier of the heap, the new
  frontier and the new start of the processor. The old gap is filled before the swap.\<close>

datatype chunk_decision =
    Satisfied
  | No_space
  | Swap (new_heap: pointer) (new_proc: pointer) (new_start: pointer)

definition chunk_decide ::
    "alloc_env \<Rightarrow> chunk \<Rightarrow> pointer \<Rightarrow> size_t \<Rightarrow> mem \<Rightarrow> (chunk_decision \<times> mem) option" where
  "chunk_decide e c oldFrontier bytesRequested m =
    (if bytesRequested + GC_BONUS_SLOP > heap_start e + heap_available e - oldFrontier then Some (No_space, m)
     else if oldFrontier = ch_limitPlusSlop c + GC_BONUS_SLOP
     then Some (Swap (ch_frontier c + bytesRequested + GC_BONUS_SLOP) (ch_frontier c) (ch_start c), m)
     else map_option (\<lambda>(m, _). (Swap (oldFrontier + bytesRequested + GC_BONUS_SLOP) oldFrontier oldFrontier, m))
       (fillGap (ch_frontier c) (ch_limitPlusSlop c + GC_BONUS_SLOP) m))"

definition take_chunk :: "pointer \<Rightarrow> pointer \<Rightarrow> pointer \<Rightarrow> chunk" where
  "take_chunk newHeapFrontier newProcFrontier newStart =
    \<lparr> ch_start = newStart, ch_frontier = newProcFrontier,
      ch_limitPlusSlop = newHeapFrontier - GC_BONUS_SLOP,
      ch_limit = newHeapFrontier - GC_BONUS_SLOP - GC_HEAP_LIMIT_SLOP \<rparr>"

text \<open>The request is rounded up to a chunk only in the shared heap. \<open>None\<close>: \<open>fillGap\<close> exits.\<close>

definition shared_round ::
    "alloc_env \<Rightarrow> chunk \<Rightarrow> pointer \<Rightarrow> size_t \<Rightarrow> mem \<Rightarrow> (size_t \<times> chunk_decision \<times> mem) option" where
  "shared_round e c oldFrontier bytesRequested m =
    (if bytesRequested \<le> ch_limitPlusSlop c - ch_frontier c then Some (bytesRequested, Satisfied, m)
     else
       (let bytesRequested = (if bytesRequested < allocChunkSize e then allocChunkSize e else bytesRequested) in
        map_option (Pair bytesRequested) (chunk_decide e c oldFrontier bytesRequested m)))"

text \<open>No other processor changes the frontier of a local heap, so there the swap succeeds.\<close>

definition maybeSatisfyAllocationRequestLocally ::
    "alloc_env \<Rightarrow> size_t \<Rightarrow> pointer \<times> chunk \<times> mem \<Rightarrow> (pointer \<times> chunk \<times> mem) option" where
  "maybeSatisfyAllocationRequestLocally e nurseryBytesRequested = (\<lambda>(heapFrontier, c, m).
    if nurseryBytesRequested \<le> ch_limitPlusSlop c - ch_frontier c then Some (heapFrontier, c, m)
    else map_option (\<lambda>(d, m). case d of
        Swap newHeapFrontier newProcFrontier newStart \<Rightarrow>
          (newHeapFrontier, take_chunk newHeapFrontier newProcFrontier newStart, m)
      | _ \<Rightarrow> (heapFrontier, c, m)) (chunk_decide e c heapFrontier nurseryBytesRequested m))"

section \<open>The processors\<close>

text \<open>\<open>Mutator\<close>: outside; \<open>Trying n\<close>: before a round of the loop; \<open>Swapping n old h p s\<close>: before
  the compare-and-swap; \<open>Got n\<close>: returned \<open>FALSE\<close>; \<open>Collecting n\<close>: calls \<open>performSharedGC\<close>.\<close>

datatype alloc_pc =
    Mutator | Trying size_t | Swapping size_t pointer pointer pointer pointer | Got size_t | Collecting size_t

record alloc_state =
  gfrontier :: pointer
  chunks :: "nat \<Rightarrow> chunk"
  apc :: "nat \<Rightarrow> alloc_pc"
  amem :: mem

definition at_pc :: "nat \<Rightarrow> alloc_pc \<Rightarrow> alloc_state \<Rightarrow> alloc_state" where
  "at_pc i l s = s\<lparr>apc := (apc s)(i := l)\<rparr>"

text \<open>The loop of \<open>setGCStateCurrentSharedHeap\<close>: each processor gets room for the bytes that its
  thread needs and the bonus slop; it returns the frontier of the heap.\<close>

fun place_chunks :: "pointer \<Rightarrow> size_t list \<Rightarrow> chunk list \<times> pointer" where
  "place_chunks front [] = ([], front)"
| "place_chunks front (bytesNeeded # needs) =
    (let lps = front + bytesNeeded;
         (cs, f) = place_chunks (lps + GC_BONUS_SLOP) needs in
     (\<lparr> ch_start = front, ch_frontier = front, ch_limitPlusSlop = lps,
        ch_limit = lps - GC_HEAP_LIMIT_SLOP \<rparr> # cs, f))"

text \<open>A round of the loop reads shared data once, so it is one step. A processor outside takes
  objects from its own chunk and writes them. Requests are sizes of objects.\<close>

inductive alloc_step :: "alloc_env \<Rightarrow> nat \<Rightarrow> alloc_state \<Rightarrow> alloc_state \<Rightarrow> bool" for e i where
  alloc_call: "apc s i = Mutator \<Longrightarrow> unat n < 2 ^ 62 \<Longrightarrow> alloc_step e i s (at_pc i (Trying n) s)"
| alloc_use: "apc s i \<in> {Mutator, Got n} \<Longrightarrow> ch_frontier (chunks s i) \<le> f \<Longrightarrow> f \<le> ch_limitPlusSlop (chunks s i) \<Longrightarrow>
    (\<And>x. \<not> (ch_frontier (chunks s i) \<le> x \<and> x < f) \<Longrightarrow> m x = amem s x) \<Longrightarrow>
    alloc_step e i s (at_pc i Mutator (s\<lparr>chunks := (chunks s)(i := (chunks s i)\<lparr>ch_frontier := f\<rparr>), amem := m\<rparr>))"
| alloc_satisfied: "apc s i = Trying n \<Longrightarrow>
    shared_round e (chunks s i) (gfrontier s) n (amem s) = Some (n', Satisfied, m) \<Longrightarrow>
    alloc_step e i s (at_pc i (Got n') (s\<lparr>amem := m\<rparr>))"
| alloc_no_space: "apc s i = Trying n \<Longrightarrow>
    shared_round e (chunks s i) (gfrontier s) n (amem s) = Some (n', No_space, m) \<Longrightarrow>
    alloc_step e i s (at_pc i (Collecting (n' + GC_BONUS_SLOP)) (s\<lparr>amem := m\<rparr>))"
| alloc_try: "apc s i = Trying n \<Longrightarrow>
    shared_round e (chunks s i) (gfrontier s) n (amem s) = Some (n', Swap h p st, m) \<Longrightarrow>
    alloc_step e i s (at_pc i (Swapping n' (gfrontier s) h p st) (s\<lparr>amem := m\<rparr>))"
| alloc_swapped: "apc s i = Swapping n old h p st \<Longrightarrow> gfrontier s = old \<Longrightarrow>
    alloc_step e i s (at_pc i (Got n) (s\<lparr>gfrontier := h, chunks := (chunks s)(i := take_chunk h p st)\<rparr>))"
| alloc_contended: "apc s i = Swapping n old h p st \<Longrightarrow> gfrontier s \<noteq> old \<Longrightarrow>
    alloc_step e i s (at_pc i (Trying n) s)"

definition alloc_init :: "pointer \<Rightarrow> size_t list \<Rightarrow> mem \<Rightarrow> alloc_state" where
  "alloc_init base needs m =
    (let (cs, f) = place_chunks base needs in
     \<lparr> gfrontier = f, chunks = (\<lambda>i. cs ! i), apc = (\<lambda>_. Mutator), amem = m \<rparr>)"

inductive alloc_reachable :: "alloc_env \<Rightarrow> pointer \<Rightarrow> size_t list \<Rightarrow> alloc_state \<Rightarrow> bool" for e base needs where
  alloc_start: "alloc_reachable e base needs (alloc_init base needs m)"
| alloc_next: "alloc_reachable e base needs s \<Longrightarrow> i < length needs \<Longrightarrow> alloc_step e i s s' \<Longrightarrow>
    alloc_reachable e base needs s'"

section \<open>The invariant\<close>

text \<open>The heap ends within the address space, and the first chunks fit in it.\<close>

definition heap_end :: "alloc_env \<Rightarrow> nat" where
  "heap_end e = unat (heap_start e) + unat (heap_available e)"

definition env_ok :: "alloc_env \<Rightarrow> pointer \<Rightarrow> size_t list \<Rightarrow> bool" where
  "env_ok e base needs \<longleftrightarrow> heap_end e < 2 ^ 62 \<and> unat (allocChunkSize e) < 2 ^ 62 \<and>
    unat base + sum_list (map (\<lambda>n. unat n + 12) needs) \<le> heap_end e"

definition chunk_lo :: "chunk \<Rightarrow> nat" where "chunk_lo c = unat (ch_start c)"
definition chunk_hi :: "chunk \<Rightarrow> nat" where "chunk_hi c = unat (ch_limitPlusSlop c) + 12"

definition chunk_ok :: "chunk \<Rightarrow> bool" where
  "chunk_ok c \<longleftrightarrow> ch_start c \<le> ch_frontier c \<and> ch_frontier c \<le> ch_limitPlusSlop c"

definition apart :: "chunk \<Rightarrow> chunk \<Rightarrow> bool" where
  "apart c d \<longleftrightarrow> chunk_hi c \<le> chunk_lo d \<or> chunk_hi d \<le> chunk_lo c"

fun pc_ok :: "alloc_env \<Rightarrow> pointer \<Rightarrow> chunk \<Rightarrow> alloc_pc \<Rightarrow> bool" where
  "pc_ok e F c (Trying n) \<longleftrightarrow> unat n < 2 ^ 62"
| "pc_ok e F c (Got n) \<longleftrightarrow> n \<le> ch_limitPlusSlop c - ch_frontier c"
| "pc_ok e F c (Swapping n old h p st) \<longleftrightarrow> unat n < 2 ^ 62 \<and> old \<le> F \<and> old < h \<and> unat h \<le> heap_end e \<and>
    unat h = unat p + unat n + 12 \<and>
    (st = ch_start c \<and> p = ch_frontier c \<and> unat old = chunk_hi c \<or> st = old \<and> p = old)"
| "pc_ok e F c _ \<longleftrightarrow> True"

definition alloc_inv :: "alloc_env \<Rightarrow> nat \<Rightarrow> alloc_state \<Rightarrow> bool" where
  "alloc_inv e N s \<longleftrightarrow> unat (gfrontier s) \<le> heap_end e \<and>
    (\<forall>i<N. chunk_ok (chunks s i) \<and> chunk_hi (chunks s i) \<le> unat (gfrontier s) \<and>
      pc_ok e (gfrontier s) (chunks s i) (apc s i)) \<and>
    (\<forall>i<N. \<forall>j<N. i \<noteq> j \<longrightarrow> apart (chunks s i) (chunks s j))"


lemma bonus [simp]: "GC_BONUS_SLOP = 12"
  by (simp add: GC_BONUS_SLOP_def header_sizes)

lemma unat_add_small: "unat (a :: u64) + unat b < 2 ^ 64 \<Longrightarrow> unat (a + b) = unat a + unat b"
  by (rule unat_add_lem [THEN iffD1]) simp

lemma unat_room: "a \<le> (b :: u64) \<Longrightarrow> unat (b - a) = unat b - unat a"
  by (simp add: unat_sub)

text \<open>What a round gives, in natural numbers.\<close>

lemma chunk_decide_swap:
  "chunk_decide e c old k m = Some (Swap h p st, m') \<Longrightarrow>
    \<not> k + 12 > heap_start e + heap_available e - old \<and>
    (old = ch_limitPlusSlop c + 12 \<and> h = ch_frontier c + k + 12 \<and> p = ch_frontier c \<and> st = ch_start c \<or>
     h = old + k + 12 \<and> p = old \<and> st = old)"
  unfolding chunk_decide_def bonus
  by (cases "k + 12 > heap_start e + heap_available e - old"; cases "old = ch_limitPlusSlop c + 12") auto

lemma chunk_decide_ok:
  assumes d: "chunk_decide e c old k m = Some (Swap h p st, m')"
    and "chunk_ok c" "chunk_hi c \<le> unat old" "unat old \<le> heap_end e" "heap_end e < 2 ^ 62"
    "unat k < 2 ^ 62" "\<not> k \<le> ch_limitPlusSlop c - ch_frontier c"
  shows "pc_ok e old c (Swapping k old h p st)"
proof -
  have fin: "\<not> k + 12 > heap_start e + heap_available e - old"
    using chunk_decide_swap [OF d] by blast
  have "unat (heap_start e + heap_available e) = heap_end e"
    using assms(5) unat_add_small [of "heap_start e" "heap_available e"] by (simp add: heap_end_def)
  moreover have "old \<le> heap_start e + heap_available e" using calculation assms(4) by (simp add: word_le_nat_alt)
  ultimately have room: "unat (heap_start e + heap_available e - old) = heap_end e - unat old"
    by (simp add: unat_room)
  have k12: "unat (k + 12) = unat k + 12" using assms(6) unat_add_small [of k 12] by simp
  then have sz: "unat k + 12 \<le> heap_end e - unat old" using fin room by (simp add: word_less_nat_alt not_less)
  consider "old = ch_limitPlusSlop c + 12" "h = ch_frontier c + k + 12" "p = ch_frontier c" "st = ch_start c"
    | "h = old + k + 12" "p = old" "st = old"
    using chunk_decide_swap [OF d] by blast
  then show ?thesis
  proof cases
    case 1
    have "unat (ch_limitPlusSlop c) < 2 ^ 62" using assms(3,4,5) by (simp add: chunk_hi_def)
    then have o: "unat old = chunk_hi c" using 1(1) unat_add_small [of "ch_limitPlusSlop c" 12] by (simp add: chunk_hi_def)
    have f: "unat (ch_frontier c) \<le> unat (ch_limitPlusSlop c)" using assms(2) by (simp add: chunk_ok_def word_le_nat_alt)
    have "unat (ch_limitPlusSlop c) - unat (ch_frontier c) < unat k"
      using assms(2,7) by (simp add: chunk_ok_def unat_room word_less_nat_alt not_le)
    then have gt: "unat (ch_limitPlusSlop c) < unat (ch_frontier c) + unat k" using f by simp
    have "unat (ch_frontier c) + (unat k + 12) < 2 ^ 64" using f sz o assms(4,5) by (simp add: chunk_hi_def)
    then have h: "unat h = unat (ch_frontier c) + unat k + 12"
      using 1(2) k12 unat_add_small [of "ch_frontier c" "k + 12"] by (simp add: add.assoc)
    have "unat h \<le> heap_end e" using h f sz o assms(4) by (simp add: chunk_hi_def)
    moreover have "old < h" using h gt o by (simp add: word_less_nat_alt chunk_hi_def)
    ultimately show ?thesis using h 1 o assms(6) by simp
  next
    case 2
    have "unat old + (unat k + 12) < 2 ^ 64" using sz assms(4,5) by simp
    then have h: "unat h = unat old + unat k + 12"
      using 2(1) k12 unat_add_small [of old "k + 12"] by (simp add: add.assoc)
    then show ?thesis using 2 sz assms(4,6) by (simp add: word_less_nat_alt)
  qed
qed

lemma shared_round_swap:
  assumes "shared_round e c old n m = Some (n', Swap h p st, m')"
    "chunk_ok c" "chunk_hi c \<le> unat old" "unat old \<le> heap_end e" "heap_end e < 2 ^ 62"
    "unat n < 2 ^ 62" "unat (allocChunkSize e) < 2 ^ 62"
  shows "pc_ok e old c (Swapping n' old h p st) \<and> n \<le> n'"
proof -
  define k where "k = (if n < allocChunkSize e then allocChunkSize e else n)"
  have k: "n' = k" "\<not> n \<le> ch_limitPlusSlop c - ch_frontier c"
    and d: "chunk_decide e c old k m = Some (Swap h p st, m')"
    using assms(1) by (auto simp: shared_round_def k_def Let_def split: if_splits)
  have "unat k < 2 ^ 62" "n \<le> k" using assms(6,7) by (auto simp: k_def)
  moreover have "\<not> k \<le> ch_limitPlusSlop c - ch_frontier c" using k(2) calculation(2) by (meson order_trans)
  ultimately show ?thesis using chunk_decide_ok [OF d assms(2-5)] k(1) by simp
qed

lemma shared_round_satisfied:
  "shared_round e c old n m = Some (n', Satisfied, m') \<Longrightarrow> n' = n \<and> n \<le> ch_limitPlusSlop c - ch_frontier c"
  by (auto simp: shared_round_def chunk_decide_def Let_def split: if_splits)

text \<open>A swap gives the chunk from its start to the new frontier.\<close>

lemma swapped_chunk:
  assumes "pc_ok e F c (Swapping n F h p st)" "chunk_ok c" "heap_end e < 2 ^ 62"
  shows "chunk_ok (take_chunk h p st)" "chunk_hi (take_chunk h p st) = unat h"
    "chunk_lo (take_chunk h p st) = chunk_lo c \<and> chunk_hi c = unat F \<or> chunk_lo (take_chunk h p st) = unat F"
    "n \<le> ch_limitPlusSlop (take_chunk h p st) - ch_frontier (take_chunk h p st)"
proof -
  have b: "unat h = unat p + unat n + 12" "unat h \<le> heap_end e"
    and st: "st = ch_start c \<and> p = ch_frontier c \<and> unat F = chunk_hi c \<or> st = F \<and> p = F"
    using assms(1) by simp_all
  have "12 \<le> h" using b by (simp add: word_le_nat_alt)
  then have l: "unat (h - 12) = unat p + unat n" using b(1) by (simp add: unat_room)
  then have pl: "p \<le> h - 12" by (simp add: word_le_nat_alt)
  moreover have "st \<le> p" using st assms(2) by (auto simp: chunk_ok_def)
  ultimately show "chunk_ok (take_chunk h p st)" by (simp add: chunk_ok_def take_chunk_def)
  show "chunk_hi (take_chunk h p st) = unat h" using b(1) l by (simp add: chunk_hi_def take_chunk_def)
  show "chunk_lo (take_chunk h p st) = chunk_lo c \<and> chunk_hi c = unat F \<or> chunk_lo (take_chunk h p st) = unat F"
    using st by (auto simp: chunk_lo_def take_chunk_def)
  show "n \<le> ch_limitPlusSlop (take_chunk h p st) - ch_frontier (take_chunk h p st)"
    using l pl by (simp add: take_chunk_def word_le_nat_alt unat_room)
qed

text \<open>The state of another processor stays right when the frontier of the heap grows.\<close>

lemma pc_ok_mono: "pc_ok e F c l \<Longrightarrow> F \<le> F' \<Longrightarrow> pc_ok e F' c l"
  by (cases l) auto

lemma apart_sym: "apart c d \<Longrightarrow> apart d c"
  by (auto simp: apart_def)

text \<open>A step that changes the processor \<open>i\<close> only.\<close>

lemma alloc_inv_update:
  assumes "alloc_inv e N s" "i < N" "gfrontier s \<le> F" "unat F \<le> heap_end e"
    "chunk_ok c" "chunk_hi c \<le> unat F" "pc_ok e F c l"
    "\<And>j. j < N \<Longrightarrow> j \<noteq> i \<Longrightarrow> apart c (chunks s j)"
    "gfrontier s' = F" "chunks s' = (chunks s)(i := c)" "apc s' = (apc s)(i := l)"
  shows "alloc_inv e N s'"
proof -
  have old: "chunk_ok (chunks s j)" "chunk_hi (chunks s j) \<le> unat (gfrontier s)"
      "pc_ok e (gfrontier s) (chunks s j) (apc s j)" if "j < N" for j
    using assms(1) that by (simp_all add: alloc_inv_def)
  have "chunk_hi (chunks s j) \<le> unat F" if "j < N" for j
    using old(2) [OF that] assms(3) by (simp add: word_le_nat_alt)
  moreover have "apart (chunks s j) (chunks s k)" if "j < N" "k < N" "j \<noteq> k" for j k
    using assms(1) that by (simp add: alloc_inv_def)
  ultimately show ?thesis
    unfolding alloc_inv_def assms(9-11)
    using old assms(2,4-8) pc_ok_mono [OF _ assms(3)] apart_sym by (auto simp: fun_upd_def)
qed

lemma alloc_step_inv:
  assumes "alloc_inv e N s" "i < N" "env_ok e base needs" "alloc_step e i s s'"
  shows "alloc_inv e N s'"
proof -
  let ?c = "chunks s i" and ?F = "gfrontier s"
  have c: "chunk_ok ?c" "chunk_hi ?c \<le> unat ?F" "pc_ok e ?F ?c (apc s i)" "unat ?F \<le> heap_end e"
    using assms(1,2) by (simp_all add: alloc_inv_def)
  have e: "heap_end e < 2 ^ 62" "unat (allocChunkSize e) < 2 ^ 62" using assms(3) by (simp_all add: env_ok_def)
  have ap: "apart ?c (chunks s j)" if "j < N" "j \<noteq> i" for j
    using assms(1,2) that by (simp add: alloc_inv_def)
  note upd = alloc_inv_update [OF assms(1,2)]
  from assms(4) show ?thesis
  proof cases
    case (alloc_call n)
    then show ?thesis using c ap by (intro upd [of ?F ?c "Trying n"]) (simp_all add: at_pc_def)
  next
    case (alloc_use n f m)
    then show ?thesis
      using c ap by (intro upd [of ?F "?c\<lparr>ch_frontier := f\<rparr>" Mutator])
        (auto simp: at_pc_def chunk_ok_def chunk_hi_def chunk_lo_def apart_def)
  next
    case (alloc_satisfied n n' m)
    then show ?thesis
      using c ap shared_round_satisfied [of e ?c ?F n "amem s" n' m]
      by (intro upd [of ?F ?c "Got n'"]) (simp_all add: at_pc_def)
  next
    case (alloc_no_space n n' m)
    then show ?thesis
      using c ap by (intro upd [of ?F ?c "Collecting (n' + GC_BONUS_SLOP)"]) (simp_all add: at_pc_def)
  next
    case (alloc_try n n' h p st m)
    then have "pc_ok e ?F ?c (Swapping n' ?F h p st)"
      using shared_round_swap [of e ?c ?F n "amem s" n' h p st m] c e by simp
    then show ?thesis
      using alloc_try c ap by (intro upd [of ?F ?c "Swapping n' ?F h p st"]) (simp_all add: at_pc_def)
  next
    case (alloc_swapped n old h p st)
    then have sw: "pc_ok e ?F ?c (Swapping n ?F h p st)" using c(3) by simp
    note t = swapped_chunk [OF sw c(1) e(1)]
    have hi: "?F \<le> h" "unat h \<le> heap_end e" using sw by auto
    have "apart (take_chunk h p st) (chunks s j)" if "j < N" "j \<noteq> i" for j
    proof -
      have "chunk_hi (chunks s j) \<le> unat ?F" using assms(1) that by (simp add: alloc_inv_def)
      moreover have "chunk_lo (chunks s j) < chunk_hi (chunks s j)"
        using assms(1) that by (auto simp: alloc_inv_def chunk_ok_def chunk_lo_def chunk_hi_def word_le_nat_alt)
      ultimately show ?thesis using ap [OF that] t(2,3) by (auto simp: apart_def)
    qed
    then show ?thesis
      using alloc_swapped t hi by (intro upd [of h "take_chunk h p st" "Got n"]) (simp_all add: at_pc_def)
  next
    case (alloc_contended n old h p st)
    then have "unat n < 2 ^ 62" using c(3) by simp
    then show ?thesis
      using alloc_contended c ap by (intro upd [of ?F ?c "Trying n"]) (simp_all add: at_pc_def)
  qed
qed

text \<open>The first chunks.\<close>

lemma place_chunks_inv:
  assumes "place_chunks f needs = (cs, F)" "unat f + sum_list (map (\<lambda>n. unat n + 12) needs) \<le> E" "E < 2 ^ 62"
  shows "length cs = length needs \<and> unat f \<le> unat F \<and> unat F \<le> E \<and>
    (\<forall>i<length needs. chunk_ok (cs ! i) \<and> unat f \<le> chunk_lo (cs ! i) \<and> chunk_hi (cs ! i) \<le> unat F) \<and>
    (\<forall>i<length needs. \<forall>j<length needs. i < j \<longrightarrow> chunk_hi (cs ! i) \<le> chunk_lo (cs ! j))"
  using assms(1,2)
proof (induction needs arbitrary: f cs)
  case (Cons n needs)
  let ?l = "f + n" and ?d = "\<lparr> ch_start = f, ch_frontier = f, ch_limitPlusSlop = f + n,
     ch_limit = f + n - GC_HEAP_LIMIT_SLOP \<rparr>"
  obtain ds where ds: "place_chunks (f + n + 12) needs = (ds, F)" "cs = ?d # ds"
    using Cons.prems(1) by (auto simp: Let_def split: prod.splits)
  have le: "unat f + unat n + 12 \<le> E" using Cons.prems(2) by simp
  then have l: "unat ?l = unat f + unat n" "unat (?l + 12) = unat f + unat n + 12"
    using assms(3) unat_add_small [of f n] unat_add_small [of "f + n" 12] by simp_all
  note IH = Cons.IH [OF ds(1)]
  have IH: "length ds = length needs" "unat (?l + 12) \<le> unat F" "unat F \<le> E"
    "\<And>i. i < length needs \<Longrightarrow> chunk_ok (ds ! i) \<and> unat (?l + 12) \<le> chunk_lo (ds ! i) \<and> chunk_hi (ds ! i) \<le> unat F"
    "\<And>i j. j < length needs \<Longrightarrow> i < j \<Longrightarrow> chunk_hi (ds ! i) \<le> chunk_lo (ds ! j)"
    using IH Cons.prems(2) l by (simp_all add: add.assoc)
  have d: "chunk_ok ?d" "chunk_lo ?d = unat f" "chunk_hi ?d = unat (?l + 12)"
    using l by (simp_all add: chunk_ok_def chunk_lo_def chunk_hi_def word_le_nat_alt)
  have "chunk_ok (cs ! i) \<and> unat f \<le> chunk_lo (cs ! i) \<and> chunk_hi (cs ! i) \<le> unat F" if "i < Suc (length needs)" for i
    using that IH(2) IH(4) [of "i - 1"] d l by (cases i) (auto simp: ds(2))
  moreover have "chunk_hi (cs ! i) \<le> chunk_lo (cs ! j)" if "j < Suc (length needs)" "i < j" for i j
    using that IH(5) [of "j - 1" "i - 1"] IH(4) [of "j - 1"] d by (cases i; cases j) (auto simp: ds(2))
  ultimately show ?case using IH(1-3) l ds(2) by simp
qed simp

lemma alloc_init_inv:
  assumes "env_ok e base needs"
  shows "alloc_inv e (length needs) (alloc_init base needs m)"
proof -
  obtain cs F where cs: "place_chunks base needs = (cs, F)" by fastforce
  note p = place_chunks_inv [OF cs, of "heap_end e"]
  have p: "unat F \<le> heap_end e"
    "\<And>i. i < length needs \<Longrightarrow> chunk_ok (cs ! i) \<and> chunk_hi (cs ! i) \<le> unat F"
    "\<And>i j. i < length needs \<Longrightarrow> j < length needs \<Longrightarrow> i \<noteq> j \<Longrightarrow> apart (cs ! i) (cs ! j)"
    using p assms unfolding env_ok_def apart_def by (auto simp: neq_iff)
  then show ?thesis by (simp add: alloc_inv_def alloc_init_def cs)
qed

lemma alloc_reachable_inv:
  assumes "alloc_reachable e base needs s" "env_ok e base needs"
  shows "alloc_inv e (length needs) s"
  using assms(1)
proof induction
  case (alloc_start m)
  show ?case by (rule alloc_init_inv [OF assms(2)])
next
  case (alloc_next s i s')
  then show ?case using alloc_step_inv [OF _ _ assms(2)] by blast
qed

section \<open>Memory\<close>

lemma fillGap_other:
  assumes "fillGap start end' m = Some (m', d)" "start \<le> end'" "\<not> (start \<le> x \<and> x < end')"
  shows "m' x = m x"
proof -
  have o: "unat (end' - start) \<le> off start x"
  proof (cases "start \<le> x")
    case True
    then have "end' \<le> x" using assms(3) by simp
    then show ?thesis using True assms(2) by (simp add: unat_room word_le_nat_alt)
  next
    case False
    have "unat (x - start) = 2 ^ 64 + unat x - unat start"
      using False unat_sub_if' [of x start] by (simp add: word_le_nat_alt not_le)
    moreover have "unat end' < 2 ^ 64" using unsigned_less [of end', where ?'a = nat] by simp
    ultimately show ?thesis using assms(2) by (simp add: unat_room)
  qed
  have s: "store64 m (start + of_nat k) v x = m x" if "k + 8 \<le> unat (end' - start)" "k \<le> 16" for k v m
  proof -
    have "unat (of_nat k :: u64) = k" using that(2) by (intro unat_of_nat_u64) simp
    then have "off (start + of_nat k) x = off start x - k"
      using that o unat_room [of "of_nat k" "x - start"] by (simp add: word_le_nat_alt diff_diff_eq)
    then show ?thesis using that o by (intro store64_other) linarith
  qed
  have s32: "store32 m (start + 8) v x = m x" if "12 \<le> unat (end' - start)" for v m
    using that o unat_room [of 8 "x - start"] by (intro store32_other) (simp add: word_le_nat_alt diff_diff_eq)
  note le = word_le_nat_alt
  consider "end' - start = 0" | "start = 0" | "32 \<le> end' - start" | "end' - start = 8" "start \<noteq> 0"
    | "12 \<le> end' - start" "\<not> 32 \<le> end' - start" "end' - start \<noteq> 8" "start \<noteq> 0" "end' - start \<noteq> 0"
    using assms(1) by (auto simp: fillGap_def Let_def header_sizes GC_BONUS_SLOP_def split: if_splits)
  then show ?thesis
  proof cases
    case 3
    then show ?thesis
      using assms(1) s [of 0] s [of 8] s [of 16, unfolded add.commute [of start]]
      by (auto simp: fillGap_def Let_def header_sizes le split: if_splits)
  next
    case 4
    then show ?thesis using assms(1) s [of 0] by (auto simp: fillGap_def Let_def header_sizes split: if_splits)
  next
    case 5
    then show ?thesis
      using assms(1) s [of 0] s32
      by (auto simp: fillGap_def Let_def header_sizes GC_BONUS_SLOP_def le split: if_splits)
  qed (use assms(1) in \<open>auto simp: fillGap_def Let_def split: if_splits\<close>)
qed

lemma chunk_decide_other:
  assumes "chunk_decide e c old k m = Some (d, m')" "chunk_ok c" "chunk_hi c < 2 ^ 62"
    "\<not> (ch_frontier c \<le> x \<and> unat x < chunk_hi c)"
  shows "m' x = m x"
proof -
  have l: "unat (ch_limitPlusSlop c + 12) = chunk_hi c"
    using assms(3) unat_add_small [of "ch_limitPlusSlop c" 12] by (simp add: chunk_hi_def)
  then have "ch_frontier c \<le> ch_limitPlusSlop c + 12"
    using assms(2) by (simp add: chunk_ok_def chunk_hi_def word_le_nat_alt)
  moreover have "\<not> (ch_frontier c \<le> x \<and> x < ch_limitPlusSlop c + 12)"
    using assms(4) l by (simp add: word_less_nat_alt)
  ultimately show ?thesis
    using assms(1) fillGap_other [of "ch_frontier c" "ch_limitPlusSlop c + 12" m m']
    by (auto simp: chunk_decide_def split: if_splits)
qed

lemma shared_round_other:
  assumes "shared_round e c old n m = Some (n', d, m')" "chunk_ok c" "chunk_hi c < 2 ^ 62"
    "\<not> (ch_frontier c \<le> x \<and> unat x < chunk_hi c)"
  shows "m' x = m x"
  using assms(1) chunk_decide_other [OF _ assms(2-4)] by (auto simp: shared_round_def Let_def split: if_splits)

text \<open>The gap that is filled has at least twelve bytes, so \<open>fillGap\<close> does not exit.\<close>

lemma chunk_decide_total:
  assumes "chunk_ok c" "chunk_hi c < 2 ^ 62"
  shows "\<exists>d m'. chunk_decide e c old k m = Some (d, m')"
proof -
  have l: "unat (ch_limitPlusSlop c + 12) = unat (ch_limitPlusSlop c) + 12"
    using assms(2) unat_add_small [of "ch_limitPlusSlop c" 12] by (simp add: chunk_hi_def)
  have f: "unat (ch_frontier c) \<le> unat (ch_limitPlusSlop c)"
    using assms(1) by (simp add: chunk_ok_def word_le_nat_alt)
  have "unat (ch_limitPlusSlop c + 12 - ch_frontier c) = unat (ch_limitPlusSlop c) + 12 - unat (ch_frontier c)"
    using f l by (subst unat_room) (simp_all add: word_le_nat_alt)
  then have "12 \<le> ch_limitPlusSlop c + 12 - ch_frontier c" using f by (simp add: word_le_nat_alt)
  then show ?thesis
    by (auto simp: chunk_decide_def fillGap_def Let_def GC_BONUS_SLOP_def header_sizes)
qed

lemma shared_round_total:
  assumes "chunk_ok c" "chunk_hi c < 2 ^ 62"
  shows "\<exists>n' d m'. shared_round e c old n m = Some (n', d, m') \<and> n \<le> n'"
proof (cases "n \<le> ch_limitPlusSlop c - ch_frontier c")
  case False
  let ?k = "if n < allocChunkSize e then allocChunkSize e else n"
  obtain d m' where "chunk_decide e c old ?k m = Some (d, m')"
    using chunk_decide_total [OF assms] by blast
  then have "shared_round e c old n m = Some (?k, d, m')" using False by (simp add: shared_round_def)
  moreover have "n \<le> ?k" by auto
  ultimately show ?thesis by blast
qed (simp add: shared_round_def)

section \<open>Properties\<close>

text \<open>C14: Between two collections of the shared heap the chunks of two processors never overlap,
  whatever the interleaving of their attempts, and every chunk, its bonus slop included, ends
  at or below the frontier of the heap, which stays within the available part of the heap. A
  processor whose call has returned has room for its request.\<close>

theorem shared_chunks_disjoint:
  assumes "alloc_reachable e base needs s" "env_ok e base needs" "i < length needs" "j < length needs" "i \<noteq> j"
  shows "apart (chunks s i) (chunks s j) \<and> chunk_ok (chunks s i) \<and>
    chunk_hi (chunks s i) \<le> unat (gfrontier s) \<and> unat (gfrontier s) \<le> heap_end e \<and>
    (\<forall>n. apc s i = Got n \<longrightarrow> n \<le> ch_limitPlusSlop (chunks s i) - ch_frontier (chunks s i))"
proof -
  have inv: "alloc_inv e (length needs) s" using alloc_reachable_inv [OF assms(1,2)] .
  then have "pc_ok e (gfrontier s) (chunks s i) (apc s i)" using assms(3) by (simp add: alloc_inv_def)
  then show ?thesis using inv assms(3-5) by (auto simp: alloc_inv_def)
qed

definition demo_alloc :: alloc_env where
  "demo_alloc = \<lparr> heap_start = 4096, heap_available = 65536, allocChunkSize = 1024 \<rparr>"

definition demo_alloc_state :: alloc_state where
  "demo_alloc_state = at_pc 0 (Trying 5000) (alloc_init 8192 [100, 200] (\<lambda>_. 0))"

lemma demo_alloc_chunks:
  "gfrontier demo_alloc_state = 8516" "apc demo_alloc_state 0 = Trying 5000"
  "chunks demo_alloc_state 0 = \<lparr> ch_start = 8192, ch_frontier = 8192, ch_limitPlusSlop = 8292, ch_limit = 7780 \<rparr>"
  "chunks demo_alloc_state 1 = \<lparr> ch_start = 8304, ch_frontier = 8304, ch_limitPlusSlop = 8504, ch_limit = 7992 \<rparr>"
  by (simp_all add: demo_alloc_state_def at_pc_def alloc_init_def Let_def GC_HEAP_LIMIT_SLOP_def)

lemma demo_alloc_ok: "env_ok demo_alloc 8192 [100, 200]" "alloc_reachable demo_alloc 8192 [100, 200] demo_alloc_state"
proof -
  show "env_ok demo_alloc 8192 [100, 200]" by (simp add: env_ok_def heap_end_def demo_alloc_def)
  have "alloc_step demo_alloc 0 (alloc_init 8192 [100, 200] (\<lambda>_. 0)) demo_alloc_state"
    unfolding demo_alloc_state_def by (rule alloc_call) (simp_all add: alloc_init_def Let_def)
  then show "alloc_reachable demo_alloc 8192 [100, 200] demo_alloc_state"
    by (intro alloc_next [OF alloc_start]) simp_all
qed

lemma shared_chunks_disjoint_witness:
  "apart (chunks demo_alloc_state 0) (chunks demo_alloc_state 1) \<and> chunk_hi (chunks demo_alloc_state 0) \<le> 8516"
  using shared_chunks_disjoint [OF demo_alloc_ok(2,1), of 0 1] by (simp add: demo_alloc_chunks)

text \<open>What a processor does, filling the gap that it leaves included, changes no byte of the
  chunk of another processor and none of the other's fields.\<close>

theorem shared_alloc_frame:
  assumes "alloc_reachable e base needs s" "env_ok e base needs" "i < length needs" "j < length needs" "i \<noteq> j"
    and "alloc_step e i s s'" "ch_start (chunks s j) \<le> x" "unat x < chunk_hi (chunks s j)"
  shows "amem s' x = amem s x \<and> chunks s' j = chunks s j"
proof -
  have inv: "alloc_inv e (length needs) s" using alloc_reachable_inv [OF assms(1,2)] .
  have c: "chunk_ok (chunks s i)" "chunk_hi (chunks s i) < 2 ^ 62" "apart (chunks s i) (chunks s j)"
    using inv assms(2-5) by (auto simp: alloc_inv_def env_ok_def)
  have out: "\<not> (ch_frontier (chunks s i) \<le> x \<and> unat x < chunk_hi (chunks s i))"
    using c(1,3) assms(7,8) by (auto simp: apart_def chunk_ok_def chunk_lo_def word_le_nat_alt)
  note other = shared_round_other [OF _ c(1,2) out]
  from assms(6) show ?thesis
  proof cases
    case (alloc_use n f m)
    have "f \<le> x" if "ch_frontier (chunks s i) \<le> x"
      using that out alloc_use(4) by (simp add: chunk_hi_def word_le_nat_alt)
    then have "m x = amem s x" using alloc_use(5) [of x] by fastforce
    then show ?thesis using alloc_use(1) assms(5) by (simp add: at_pc_def)
  qed (use other assms(5) in \<open>auto simp: at_pc_def\<close>)
qed

lemma shared_alloc_frame_witness:
  "\<exists>s'. alloc_step demo_alloc 0 demo_alloc_state s' \<and> amem s' 8304 = 0 \<and> chunks s' 1 = chunks demo_alloc_state 1"
proof -
  have c: "chunk_ok (chunks demo_alloc_state 0)" "chunk_hi (chunks demo_alloc_state 0) < 2 ^ 62"
    by (simp_all add: demo_alloc_chunks chunk_ok_def chunk_hi_def)
  have "shared_round demo_alloc (chunks demo_alloc_state 0) 8516 5000 (amem demo_alloc_state) =
      map_option (\<lambda>(m, _). (5000, Swap 13528 8516 8516, m)) (fillGap 8192 8304 (amem demo_alloc_state))"
    by (simp add: shared_round_def chunk_decide_def demo_alloc_chunks demo_alloc_def option.map_comp o_def case_prod_unfold)
  moreover obtain n' d m where "shared_round demo_alloc (chunks demo_alloc_state 0) 8516 5000 (amem demo_alloc_state) = Some (n', d, m)"
    using shared_round_total [OF c] by blast
  ultimately have "shared_round demo_alloc (chunks demo_alloc_state 0) (gfrontier demo_alloc_state) 5000
      (amem demo_alloc_state) = Some (5000, Swap 13528 8516 8516, m)"
    by (auto simp: demo_alloc_chunks)
  then obtain s' where s': "alloc_step demo_alloc 0 demo_alloc_state s'"
    using alloc_try [of demo_alloc_state 0 5000] demo_alloc_chunks(2) by blast
  have "amem demo_alloc_state 8304 = 0" by (simp add: demo_alloc_state_def at_pc_def alloc_init_def Let_def)
  then show ?thesis
    using s' shared_alloc_frame [OF demo_alloc_ok(2,1), of 0 1 s' 8304]
    by (intro exI [of _ s']) (simp add: demo_alloc_chunks [simplified] chunk_hi_def)
qed

text \<open>A successful swap takes a chunk: it advances the frontier, and the chunk ends there and
  has room for the request.\<close>

definition took_chunk :: "nat \<Rightarrow> alloc_state \<Rightarrow> alloc_state \<Rightarrow> bool" where
  "took_chunk j t u \<longleftrightarrow> gfrontier t < gfrontier u \<and>
    (\<exists>n old h p st. apc t j = Swapping n old h p st \<and> apc u j = Got n \<and> n \<le> ch_limitPlusSlop (chunks u j) - ch_frontier (chunks u j) \<and>
      chunk_hi (chunks u j) = unat (gfrontier u))"

text \<open>What the other processors do, step by step, while one of them waits for its next step.\<close>

inductive alloc_others ::
    "alloc_env \<Rightarrow> nat \<Rightarrow> nat \<Rightarrow> alloc_state \<Rightarrow> (nat \<times> alloc_state \<times> alloc_state) list \<Rightarrow> alloc_state \<Rightarrow> bool"
  for e N i s where
  others_none: "alloc_others e N i s [] s"
| others_step: "alloc_others e N i s tr t \<Longrightarrow> j < N \<Longrightarrow> j \<noteq> i \<Longrightarrow> alloc_step e j t u \<Longrightarrow>
    alloc_others e N i s (tr @ [(j, t, u)]) u"

lemma alloc_step_takes:
  assumes inv: "alloc_inv e N t" and e: "heap_end e < 2 ^ 62" and j: "j < N"
    and st: "alloc_step e j t u" and ch: "gfrontier u \<noteq> gfrontier t"
  shows "took_chunk j t u"
  using st
proof cases
  case (alloc_swapped n old h p st)
  have "chunk_ok (chunks t j)" "pc_ok e (gfrontier t) (chunks t j) (Swapping n (gfrontier t) h p st)"
    using inv j alloc_swapped(2,3) by (auto simp: alloc_inv_def)
  then show ?thesis
    using swapped_chunk [of e "gfrontier t" "chunks t j" n h p st] e alloc_swapped(1)
    by (simp add: took_chunk_def at_pc_def alloc_swapped(2))
qed (use ch in \<open>simp_all add: at_pc_def\<close>)

lemma alloc_others_run:
  assumes "alloc_others e N i s tr u" "alloc_inv e N s" "env_ok e base needs"
  shows "alloc_inv e N u \<and> apc u i = apc s i \<and>
    (gfrontier u \<noteq> gfrontier s \<longrightarrow> (\<exists>(j, t, t')\<in>set tr. j \<noteq> i \<and> took_chunk j t t'))"
  using assms(1)
proof induction
  case (others_step tr t j u)
  have inv: "alloc_inv e N t" using others_step.IH by simp
  have "apc u i = apc t i" using others_step(4,3) by cases (auto simp: at_pc_def)
  moreover have "alloc_inv e N u" by (rule alloc_step_inv [OF inv others_step(2) assms(3) others_step(4)])
  moreover have "took_chunk j t u" if "gfrontier u \<noteq> gfrontier t"
    using alloc_step_takes [OF inv _ others_step(2,4) that] assms(3) by (simp add: env_ok_def)
  ultimately show ?case using others_step.IH others_step(3) by (cases "gfrontier u = gfrontier t") auto
qed (use assms(2) in simp)

lemma alloc_swap_step:
  assumes "alloc_inv e N u" "heap_end e < 2 ^ 62" "i < N" "apc u i = Swapping k (gfrontier u) h p st"
  shows "\<exists>u'. alloc_step e i u u'" "alloc_step e i u u' \<Longrightarrow> took_chunk i u u' \<and> apc u' i = Got k"
proof -
  show "\<exists>u'. alloc_step e i u u'" using alloc_swapped [OF assms(4) refl] by blast
  have lt: "gfrontier u < h" using assms(1,3,4) by (auto simp: alloc_inv_def)
  assume st: "alloc_step e i u u'"
  then have "gfrontier u' = h \<and> apc u' i = Got k" using assms(4) by cases (auto simp: at_pc_def)
  then show "took_chunk i u u' \<and> apc u' i = Got k"
    using alloc_step_takes [OF assms(1,2,3) st] lt by auto
qed

lemma heap_room:
  assumes "heap_end e < 2 ^ 62" "unat n < 2 ^ 62" "unat F \<le> heap_end e"
  shows "n + 12 > heap_start e + heap_available e - F \<longleftrightarrow> heap_end e < unat F + unat n + 12"
proof -
  have "unat (heap_start e + heap_available e) = heap_end e"
    using assms(1) unat_add_small [of "heap_start e" "heap_available e"] by (simp add: heap_end_def)
  moreover have "F \<le> heap_start e + heap_available e" using calculation assms(3) by (simp add: word_le_nat_alt)
  ultimately have "unat (heap_start e + heap_available e - F) = heap_end e - unat F" by (simp add: unat_room)
  moreover have "unat (n + 12) = unat n + 12" using assms(2) unat_add_small [of n 12] by simp
  ultimately show ?thesis using assms(3) unfolding word_less_nat_alt by linarith
qed

text \<open>How a round of the loop can end.\<close>

definition round_result :: "alloc_env \<Rightarrow> nat \<Rightarrow> size_t \<Rightarrow> alloc_state \<Rightarrow> alloc_state \<Rightarrow> size_t \<Rightarrow> bool" where
  "round_result e i n s s1 k \<longleftrightarrow> n \<le> k \<and>
    (apc s1 i = Got k \<and> k \<le> ch_limitPlusSlop (chunks s1 i) - ch_frontier (chunks s1 i) \<or>
     apc s1 i = Collecting (k + GC_BONUS_SLOP) \<and> heap_end e < unat (gfrontier s) + unat k + 12 \<or>
     (\<exists>h p st. apc s1 i = Swapping k (gfrontier s) h p st))"

lemma round_ends:
  assumes inv: "alloc_inv e N s" and e: "env_ok e base needs" and i: "i < N" and t: "apc s i = Trying n"
  shows "\<exists>s1. alloc_step e i s s1"
    "alloc_step e i s s1 \<Longrightarrow> gfrontier s1 = gfrontier s \<and> (\<exists>k. round_result e i n s s1 k)"
proof -
  let ?c = "chunks s i"
  have c: "chunk_ok ?c" "chunk_hi ?c < 2 ^ 62" "unat (gfrontier s) \<le> heap_end e" "unat n < 2 ^ 62"
      "heap_end e < 2 ^ 62" "unat (allocChunkSize e) < 2 ^ 62"
    using inv e i t by (auto simp: alloc_inv_def env_ok_def)
  obtain n' d m where r: "shared_round e ?c (gfrontier s) n (amem s) = Some (n', d, m)" and n': "n \<le> n'"
    using shared_round_total [OF c(1,2)] by blast
  show "\<exists>s1. alloc_step e i s s1"
    using alloc_satisfied [OF t] alloc_no_space [OF t] alloc_try [OF t] r by (cases d) blast+
  assume st: "alloc_step e i s s1"
  have no: "heap_end e < unat (gfrontier s) + unat n' + 12" if "d = No_space"
  proof -
    have "unat n' < 2 ^ 62" "n' + 12 > heap_start e + heap_available e - gfrontier s"
      using r c(4,6) that by (auto simp: shared_round_def chunk_decide_def Let_def split: if_splits)
    then show ?thesis using heap_room [OF c(5) _ c(3)] by blast
  qed
  from st show "gfrontier s1 = gfrontier s \<and> (\<exists>k. round_result e i n s s1 k)"
  proof cases
    case (alloc_satisfied n2 n3 m2)
    then have "n3 = n'" "n' = n" "n \<le> ch_limitPlusSlop ?c - ch_frontier ?c"
      using r t shared_round_satisfied [of e ?c "gfrontier s" n "amem s" n3 m2] by auto
    then show ?thesis using alloc_satisfied(1) by (auto simp: round_result_def at_pc_def)
  next
    case (alloc_no_space n2 n3 m2)
    then show ?thesis using r t no n' by (auto simp: round_result_def at_pc_def)
  next
    case (alloc_try n2 n3 h p st m2)
    then show ?thesis using r t n' by (auto simp: round_result_def at_pc_def)
  qed (use t in \<open>auto simp: at_pc_def\<close>)
qed

text \<open>C21: The allocation is lock-free. A round of the loop always ends: the call returns with room
  for its request, or there is no room in the heap for it and a collection is started, or the
  processor goes to the compare-and-swap with the frontier that it has read. Whatever the
  others do before it, either the frontier is still the same, and then the swap succeeds, advances
  the frontier, and the call returns with a chunk that ends there and has room for the request; or
  one of their steps has taken a chunk with room for that processor's request and
  advanced the frontier: a swap fails only when another one has succeeded.\<close>

theorem shared_alloc_lock_free:
  assumes "alloc_reachable e base needs s" "env_ok e base needs" "i < length needs" "apc s i = Trying n"
  shows "(\<exists>s1. alloc_step e i s s1) \<and>
    (\<forall>s1. alloc_step e i s s1 \<longrightarrow> (\<exists>k. round_result e i n s s1 k \<and>
      (\<forall>h p st tr u. apc s1 i = Swapping k (gfrontier s) h p st \<longrightarrow> alloc_others e (length needs) i s1 tr u \<longrightarrow>
        (if gfrontier u = gfrontier s
         then (\<exists>u'. alloc_step e i u u') \<and> (\<forall>u'. alloc_step e i u u' \<longrightarrow> took_chunk i u u' \<and> apc u' i = Got k)
         else \<exists>(j, t, t')\<in>set tr. j \<noteq> i \<and> took_chunk j t t'))))"
proof (intro conjI allI impI)
  let ?N = "length needs"
  have inv: "alloc_inv e ?N s" using alloc_reachable_inv [OF assms(1,2)] .
  have he: "heap_end e < 2 ^ 62" using assms(2) by (simp add: env_ok_def)
  note ends = round_ends [OF inv assms(2-4)]
  show "\<exists>s1. alloc_step e i s s1" by (rule ends(1))
  fix s1 assume st: "alloc_step e i s s1"
  obtain k where k: "gfrontier s1 = gfrontier s" "round_result e i n s s1 k" using ends(2) [OF st] by blast
  have inv1: "alloc_inv e ?N s1" by (rule alloc_step_inv [OF inv assms(3,2) st])
  have "if gfrontier u = gfrontier s
      then (\<exists>u'. alloc_step e i u u') \<and> (\<forall>u'. alloc_step e i u u' \<longrightarrow> took_chunk i u u' \<and> apc u' i = Got k)
      else \<exists>(j, t, t')\<in>set tr. j \<noteq> i \<and> took_chunk j t t'"
    if sw: "apc s1 i = Swapping k (gfrontier s) h p st" and run: "alloc_others e ?N i s1 tr u" for h p st tr u
  proof -
    note r = alloc_others_run [OF run inv1 assms(2)]
    show ?thesis
    proof (cases "gfrontier u = gfrontier s")
      case True
      then have "apc u i = Swapping k (gfrontier u) h p st" using r sw by simp
      then show ?thesis using True alloc_swap_step [of e ?N u i k h p st] r he assms(3) by auto
    next
      case False
      then show ?thesis using r k(1) by simp
    qed
  qed
  with k(2) show "\<exists>k. round_result e i n s s1 k \<and>
      (\<forall>h p st tr u. apc s1 i = Swapping k (gfrontier s) h p st \<longrightarrow> alloc_others e ?N i s1 tr u \<longrightarrow>
        (if gfrontier u = gfrontier s
         then (\<exists>u'. alloc_step e i u u') \<and> (\<forall>u'. alloc_step e i u u' \<longrightarrow> took_chunk i u u' \<and> apc u' i = Got k)
         else \<exists>(j, t, t')\<in>set tr. j \<noteq> i \<and> took_chunk j t t'))"
    by blast
qed

lemma shared_alloc_lock_free_witness:
  "\<exists>s1 k. alloc_step demo_alloc 0 demo_alloc_state s1 \<and> round_result demo_alloc 0 5000 demo_alloc_state s1 k"
  using shared_alloc_lock_free [OF demo_alloc_ok(2,1), of 0 5000] demo_alloc_chunks(2) by fastforce

text \<open>C22: \<open>maybeSatisfyAllocationRequestLocally\<close> returns. When the bytes are not there and the
  heap has room for them, they are there afterwards, in a chunk that continues the old one or
  starts at the old frontier of the heap and ends below the new one; otherwise nothing changes.
  No byte outside the free part of the old chunk is written.\<close>

theorem maybeSatisfyAllocationRequestLocally_correct:
  assumes "heap_end e < 2 ^ 62" "unat n < 2 ^ 62" "chunk_ok c" "chunk_hi c \<le> unat F" "unat F \<le> heap_end e"
  shows "\<exists>F' c' m'. maybeSatisfyAllocationRequestLocally e n (F, c, m) = Some (F', c', m') \<and>
    (if n \<le> ch_limitPlusSlop c - ch_frontier c \<or> heap_end e < unat F + unat n + 12
     then F' = F \<and> c' = c \<and> m' = m
     else n \<le> ch_limitPlusSlop c' - ch_frontier c' \<and> chunk_ok c' \<and> F \<le> F' \<and> unat F' \<le> heap_end e \<and>
       chunk_hi c' = unat F' \<and> (chunk_lo c' = chunk_lo c \<and> chunk_hi c = unat F \<or> chunk_lo c' = unat F)) \<and>
    (\<forall>x. \<not> (ch_frontier c \<le> x \<and> unat x < chunk_hi c) \<longrightarrow> m' x = m x)"
proof (cases "n \<le> ch_limitPlusSlop c - ch_frontier c")
  case True
  then show ?thesis by (simp add: maybeSatisfyAllocationRequestLocally_def)
next
  case False
  have hi: "chunk_hi c < 2 ^ 62" using assms(1,4,5) by linarith
  note room = heap_room [OF assms(1,2,5)]
  obtain d m' where d: "chunk_decide e c F n m = Some (d, m')"
    using chunk_decide_total [OF assms(3) hi] by blast
  show ?thesis
  proof (cases "heap_end e < unat F + unat n + 12")
    case True
    then have "d = No_space" "m' = m" using d room by (simp_all add: chunk_decide_def)
    then show ?thesis using True False d by (simp add: maybeSatisfyAllocationRequestLocally_def)
  next
    case f: False
    then obtain h p st where sw: "d = Swap h p st"
      using d room by (auto simp: chunk_decide_def split: if_splits)
    have pc: "pc_ok e F c (Swapping n F h p st)"
      using chunk_decide_ok [OF d [unfolded sw] assms(3-5,1,2) False] .
    have "\<forall>x. \<not> (ch_frontier c \<le> x \<and> unat x < chunk_hi c) \<longrightarrow> m' x = m x"
      using chunk_decide_other [OF d assms(3) hi] by blast
    moreover have "maybeSatisfyAllocationRequestLocally e n (F, c, m) = Some (h, take_chunk h p st, m')"
      using False d sw by (simp add: maybeSatisfyAllocationRequestLocally_def)
    moreover have "F \<le> h" "unat h \<le> heap_end e" using pc by auto
    ultimately show ?thesis
      using swapped_chunk [OF pc assms(3,1)] False f
      by (intro exI [of _ h] exI [of _ "take_chunk h p st"] exI [of _ m'] conjI) (simp_all only: if_False simp_thms)
  qed
qed

lemma maybeSatisfyAllocationRequestLocally_correct_witness:
  "\<exists>F' c' m'. maybeSatisfyAllocationRequestLocally demo_alloc 4000
      (8304, \<lparr> ch_start = 8192, ch_frontier = 8200, ch_limitPlusSlop = 8292, ch_limit = 7780 \<rparr>, \<lambda>_. 0) =
      Some (F', c', m') \<and> 4000 \<le> ch_limitPlusSlop c' - ch_frontier c'"
proof -
  let ?c = "\<lparr> ch_start = 8192, ch_frontier = 8200, ch_limitPlusSlop = 8292, ch_limit = 7780 \<rparr> :: chunk"
  have "heap_end demo_alloc < 2 ^ 62" "unat (4000 :: size_t) < 2 ^ 62" "chunk_ok ?c" "chunk_hi ?c \<le> unat (8304 :: pointer)"
    "unat (8304 :: pointer) \<le> heap_end demo_alloc"
    by (simp_all add: heap_end_def demo_alloc_def chunk_ok_def chunk_hi_def)
  from maybeSatisfyAllocationRequestLocally_correct [OF this, of "\<lambda>_. 0"] show ?thesis
    by (auto simp: heap_end_def demo_alloc_def)
qed

end
