(* ===== verification/Threads.thy ===== *)
theory Threads
  imports Generational Allocation
begin

text \<open>
  Threads: the current thread and its stack (\<open>gc/current.c\<close>, \<open>gc/atomic.c\<close>, parts of
  \<open>gc/gc_state.c\<close>, \<open>gc/enter_leave.c\<close>), switching and copying threads (\<open>gc/switch-thread.c\<close>,
  \<open>gc/copy-thread.c\<close>). Statistics and messages are left out.
\<close>

section \<open>State\<close>

text \<open>The fields of \<open>GC_state\<close> that the mutator and these functions share, beside those of
  \<open>Heap.GC_state\<close>, and the memory.\<close>

record machine =
  gcs :: GC_state
  mm :: mem
  currentThread :: objptr
  savedThread :: objptr
  exnStack :: size_t
  stackBottom :: pointer
  stackTop :: pointer
  stackLimit :: pointer
  atomicState :: u32
  mlimit :: pointer
  signalIsPending :: bool
  copiedSize :: "32 word"
  sessionStart :: pointer

text \<open>\<open>ensureHasHeapBytesFreeAndOrInvariantForMutator\<close>: whether the invariants of the mutator are
  ensured, the bytes of the nursery, the bytes of a forced growth of the stack.\<close>

type_synonym ensure_fun = "bool \<Rightarrow> size_t \<Rightarrow> size_t \<Rightarrow> machine \<Rightarrow> machine"

abbreviation base :: "machine \<Rightarrow> pointer" where "base M \<equiv> h_start (heap (gcs M))"

section \<open>gc/current.c, gc/atomic.c\<close>

definition GC_forwardBase :: "GC_state \<Rightarrow> mem \<Rightarrow> pointer \<Rightarrow> pointer" where
  "GC_forwardBase s m p =
    (if \<not> isPointer p \<or> p = cardMapAbsolute (generationalMaps s) then p
     else if load64 m (p - GC_HEADER_SIZE) = GC_FORWARDED then load64 m p
     else p)"

definition getThreadCurrentObjptr :: "machine \<Rightarrow> machine \<times> objptr" where
  "getThreadCurrentObjptr M =
    (let p = objptrToPointer (currentThread M) (base M);
         newP = GC_forwardBase (gcs M) (mm M) p in
     if p \<noteq> newP then
       (let M = M\<lparr>currentThread := pointerToObjptr newP (base M)\<rparr>;
            stk = objptrToPointer (load64 (mm M) (p + 16)) (base M);
            M = (if stack_thread (mm M) stk = pointerToObjptr p (h_start (sharedHeap (gcs M)))
              then M\<lparr>mm := store64 (mm M) (stk + 32) (currentThread M)\<rparr> else M) in
        (M, currentThread M))
     else (M, currentThread M))"

definition getThreadCurrent :: "gc_static \<Rightarrow> machine \<Rightarrow> machine \<times> pointer" where
  "getThreadCurrent g M =
    (let (M, op) = getThreadCurrentObjptr M in (M, objptrToPointer op (base M) + offsetofThread g))"

definition getStackCurrentObjptr :: "gc_static \<Rightarrow> machine \<Rightarrow> machine \<times> objptr" where
  "getStackCurrentObjptr g M =
    (let (M, thread) = getThreadCurrent g M in (M, load64 (mm M) (thread + 16)))"

definition getStackCurrent :: "gc_static \<Rightarrow> machine \<Rightarrow> machine \<times> pointer" where
  "getStackCurrent g M =
    (let (M, op) = getStackCurrentObjptr g M in (M, objptrToPointer op (base M)))"

definition beginAtomic :: "machine \<Rightarrow> machine" where
  "beginAtomic M =
    (let M = M\<lparr>atomicState := atomicState M + 1\<rparr> in
     if 0 = mlimit M then M\<lparr>mlimit := limitPlusSlop (gcs M) - 512\<rparr> else M)"

definition endAtomic :: "machine \<Rightarrow> machine" where
  "endAtomic M =
    (let M = M\<lparr>atomicState := atomicState M - 1\<rparr> in
     if 0 = atomicState M \<and> signalIsPending M then M\<lparr>mlimit := 0\<rparr> else M)"

section \<open>gc/gc_state.c\<close>

definition sizeofGCStateCurrentStackUsed :: "machine \<Rightarrow> size_t" where
  "sizeofGCStateCurrentStackUsed M = stackTop M - stackBottom M"

text \<open>The two assignments that every entry from compiled code starts with: the mutator keeps the
  top of the stack and the exception stack in the state.\<close>

definition save_thread :: "gc_static \<Rightarrow> machine \<Rightarrow> machine" where
  "save_thread g M =
    (let (M, stk) = getStackCurrent g M;
         M = M\<lparr>mm := store64 (mm M) (stk + 24) (sizeofGCStateCurrentStackUsed M)\<rparr>;
         (M, thread) = getThreadCurrent g M in
     M\<lparr>mm := store64 (mm M) (thread + 8) (exnStack M)\<rparr>)"

definition setGCStateCurrentThreadAndStack :: "gc_static \<Rightarrow> machine \<Rightarrow> machine" where
  "setGCStateCurrentThreadAndStack g M =
    (let (M, thread) = getThreadCurrent g M;
         M = M\<lparr>exnStack := load64 (mm M) (thread + 8)\<rparr>;
         (M, stack) = getStackCurrent g M;
         M = M\<lparr>stackBottom := getStackBottom stack, stackTop := getStackTop (mm M) stack,
               stackLimit := getStackLimit g (mm M) stack\<rparr> in
     M\<lparr>mm := markCard (gcs M) (mm M) stack\<rparr>)"

section \<open>gc/switch-thread.c\<close>

definition switchToThread :: "gc_static \<Rightarrow> machine \<Rightarrow> objptr \<Rightarrow> machine" where
  "switchToThread g M op =
    setGCStateCurrentThreadAndStack g (M\<lparr>currentThread := op, sessionStart := frontier (gcs M)\<rparr>)"

definition GC_switchToThread :: "ensure_fun \<Rightarrow> gc_static \<Rightarrow> machine \<Rightarrow> pointer \<Rightarrow> size_t \<Rightarrow> machine" where
  "GC_switchToThread ensure g M p ensureBytesFree =
    (let M = beginAtomic (save_thread g M);
         (M, thread) = getThreadCurrent g M;
         M = M\<lparr>mm := store64 (mm M) thread ensureBytesFree\<rparr>;
         M = switchToThread g M (pointerToObjptr p (base M));
         M = M\<lparr>atomicState := atomicState M - 1\<rparr> in
     endAtomic (ensure True 0 0 M))"

section \<open>gc/new-object.c, gc/copy-thread.c\<close>

definition newThread :: "ensure_fun \<Rightarrow> gc_static \<Rightarrow> size_t \<Rightarrow> machine \<Rightarrow> (pointer \<times> machine) option" where
  "newThread ensure g reserved M =
    (let M = ensure False (sizeofStackWithHeader (alignStackReserved g reserved) + sizeofThread g) 0 M in
     map_option (\<lambda>(thread, s, m). (thread, M\<lparr>gcs := s, mm := m\<rparr>))
       (newThread_objects g reserved (gcs M, mm M)))"

text \<open>The arguments of \<open>GC_memcpy\<close> are its source and its destination.\<close>

definition copyStack :: "mem \<Rightarrow> pointer \<Rightarrow> pointer \<Rightarrow> mem" where
  "copyStack m src dst =
    GC_memcpy (getStackBottom src) (getStackBottom dst) (stack_used m src)
      (store64 m (dst + 24) (stack_used m src))"

text \<open>\<open>copyThread\<close> for the processor itself (\<open>s == target\<close>).\<close>

definition copyThread :: "ensure_fun \<Rightarrow> gc_static \<Rightarrow> pointer \<Rightarrow> size_t \<Rightarrow> machine \<Rightarrow> (pointer \<times> machine) option" where
  "copyThread ensure g src used M = do {
     let M = M\<lparr>savedThread := pointerToObjptr (src - offsetofThread g) (base M)\<rparr>;
     (dst, M) \<leftarrow> newThread ensure g (alignStackReserved g used) M;
     let src = objptrToPointer (savedThread M) (base M) + offsetofThread g;
     let m = copyStack (mm M) (objptrToPointer (load64 (mm M) (src + 16)) (base M))
       (objptrToPointer (load64 (mm M) (dst + 16)) (base M));
     let m = store64 m dst (load64 m src);
     let m = store64 m (dst + 8) (load64 m (src + 8));
     Some (dst, M\<lparr>savedThread := BOGUS_OBJPTR, mm := m\<rparr>) }"

definition GC_copyCurrentThread :: "ensure_fun \<Rightarrow> gc_static \<Rightarrow> machine \<Rightarrow> machine option" where
  "GC_copyCurrentThread ensure g M = do {
     let M = save_thread g M;
     let fromThread = objptrToPointer (currentThread M) (base M) + offsetofThread g;
     let fromStack = objptrToPointer (load64 (mm M) (fromThread + 16)) (base M);
     (toThread, M) \<leftarrow> copyThread ensure g fromThread (stack_reserved (mm M) fromStack) M;
     Some (M\<lparr>savedThread := pointerToObjptr (toThread - offsetofThread g) (base M)\<rparr>) }"

definition GC_copyThread :: "ensure_fun \<Rightarrow> gc_static \<Rightarrow> pointer \<Rightarrow> machine \<Rightarrow> (pointer \<times> machine) option" where
  "GC_copyThread ensure g p M = do {
     let M = save_thread g M;
     let fromThread = p + offsetofThread g;
     let fromStack = objptrToPointer (load64 (mm M) (fromThread + 16)) (base M);
     (toThread, M) \<leftarrow> copyThread ensure g fromThread (stack_reserved (mm M) fromStack) M;
     Some (toThread - offsetofThread g, M) }"

section \<open>New threads: lemmas\<close>

text \<open>The compiler emits an alignment of 4 or 8; a thread then has no padding.\<close>

definition align48 :: "gc_static \<Rightarrow> bool" where
  "align48 g \<longleftrightarrow> alignment g = 4 \<or> alignment g = 8"

lemma thread_sizes [simp]: "align48 g \<Longrightarrow> sizeofThread g = 32" "align48 g \<Longrightarrow> offsetofThread g = 0"
  by (auto simp: align48_def sizeofThread_def offsetofThread_def header_sizes sizeof_GC_thread_def align_def)

text \<open>An address at a distance from a base, kept folded so that the simplifier compares distances.\<close>

definition plus_at :: "pointer \<Rightarrow> nat \<Rightarrow> pointer" where "plus_at f i = f + of_nat i"

lemma load64_store64_at:
  assumes "i + 8 \<le> j \<or> j + 8 \<le> i" "i + 8 \<le> 2 ^ 64" "j + 8 \<le> 2 ^ 64"
  shows "load64 (store64 m (plus_at f i) v) (plus_at f j) = load64 m (plus_at f j)"
  using assms disjnt_offsets [of i 8 j 8 f] disjnt_offsets [of j 8 i 8 f]
  by (auto simp: plus_at_def intro!: load64_store64_disjnt)

lemma load64_byte_at:
  assumes "i + 1 \<le> j \<or> j + 8 \<le> i" "i + 1 \<le> 2 ^ 64" "j + 8 \<le> 2 ^ 64"
  shows "load64 (m(plus_at f i := b)) (plus_at f j) = load64 m (plus_at f j)"
proof (rule load64_frame)
  show "disjnt_regions (plus_at f i) 1 (plus_at f j) 8"
    using assms disjnt_offsets [of i 1 j 8 f] disjnt_offsets [of j 8 i 1 f] by (auto simp: plus_at_def)
qed auto

lemma off_plus_at: "i \<le> off f x \<Longrightarrow> off (plus_at f i) x = off f x - i"
  by (simp add: plus_at_def off_plus)

lemma store64_at_other: "i + 8 \<le> off f x \<Longrightarrow> store64 m (plus_at f i) v x = m x"
  by (simp add: store64_other off_plus_at)

lemma byte_at_other:
  assumes "i + 1 \<le> off f x"
  shows "(m(plus_at f i := b)) x = m x"
proof -
  have "0 < off (plus_at f i) x" using assms by (simp add: off_plus_at)
  then have "x \<noteq> plus_at f i" by auto
  then show ?thesis by simp
qed

text \<open>The memory after \<open>newThread_objects\<close> at \<open>f\<close> with \<open>r\<close> bytes reserved.\<close>

definition new_thread_mem :: "mem \<Rightarrow> pointer \<Rightarrow> nat \<Rightarrow> mem" where
  "new_thread_mem m f r =
    (let m1 = store64 m (plus_at f 0) GC_STACK_HEADER;
         m2 = store64 (store64 (store64 m1 (plus_at f 24) (of_nat r)) (plus_at f 32) 0) (plus_at f 40) BOGUS_OBJPTR;
         m3 = store64 (m2(plus_at f 48 := 0)) (plus_at f (56 + r)) GC_THREAD_HEADER;
         m4 = store64 (store64 m3 (plus_at f (64 + r)) 0) (plus_at f (72 + r)) BOGUS_EXN_STACK in
     store64 (store64 m4 (plus_at f (80 + r)) (plus_at f 8)) (plus_at f 40) (plus_at f (64 + r)))"

lemma newThread_objects_eq:
  assumes "align48 g"
  shows "newThread_objects g r (s, m) = Some (plus_at (frontier s) (64 + unat r),
    s\<lparr>frontier := plus_at (frontier s) (88 + unat r)\<rparr>, new_thread_mem m (frontier s) (unat r))"
  using assms
  by (simp add: newThread_objects_def newStack_def newObject_def Let_def new_thread_mem_def header_sizes plus_at_def
      sizeofStackWithHeader_def GC_STACK_HEADER_SIZE_def sizeof_GC_stack_def algebra_simps)

lemma new_thread_mem_loads:
  assumes "88 + r \<le> 2 ^ 64"
  shows "load64 (new_thread_mem m f r) (plus_at f 0) = GC_STACK_HEADER"
    "load64 (new_thread_mem m f r) (plus_at f 24) = of_nat r"
    "load64 (new_thread_mem m f r) (plus_at f 32) = 0"
    "load64 (new_thread_mem m f r) (plus_at f 40) = plus_at f (64 + r)"
    "load64 (new_thread_mem m f r) (plus_at f (56 + r)) = GC_THREAD_HEADER"
    "load64 (new_thread_mem m f r) (plus_at f (64 + r)) = 0"
    "load64 (new_thread_mem m f r) (plus_at f (72 + r)) = BOGUS_EXN_STACK"
    "load64 (new_thread_mem m f r) (plus_at f (80 + r)) = plus_at f 8"
  using assms by (simp_all add: new_thread_mem_def Let_def load64_store64_at load64_byte_at)

lemma new_thread_mem_other:
  assumes "88 + r \<le> off f x"
  shows "new_thread_mem m f r x = m x"
  using assms by (simp add: new_thread_mem_def Let_def store64_at_other byte_at_other del: fun_upd_apply)

section \<open>The current thread: lemmas\<close>

definition cur_stack :: "machine \<Rightarrow> pointer" where
  "cur_stack M = load64 (mm M) (currentThread M + 16)"

text \<open>The current thread has not been forwarded, and does not overlap its stack object.\<close>

definition thread_ok :: "machine \<Rightarrow> bool" where
  "thread_ok M \<longleftrightarrow> load64 (mm M) (currentThread M - 8) \<noteq> GC_FORWARDED \<and>
    disjnt_regions (currentThread M - 8) 32 (cur_stack M - 8) 56"

lemma forwardBase_id: "load64 m (p - 8) \<noteq> GC_FORWARDED \<Longrightarrow> GC_forwardBase s m p = p"
  by (simp add: GC_forwardBase_def header_sizes)

lemma current_eqs:
  assumes "align48 g" "load64 (mm M) (currentThread M - 8) \<noteq> GC_FORWARDED"
  shows "getThreadCurrent g M = (M, currentThread M)" "getStackCurrent g M = (M, cur_stack M)"
  using assms
  by (simp_all add: getThreadCurrent_def getThreadCurrentObjptr_def forwardBase_id getStackCurrent_def
      getStackCurrentObjptr_def cur_stack_def Let_def)

lemma header_field:
  assumes "disjnt_regions (t - 8) 32 (k - 8) 56" "i \<le> 24" "j \<le> 48"
  shows "disjnt_regions (t - 8 + of_nat i) 8 (k - 8 + of_nat j) 8"
  using assms by (intro disjnt_sub [OF assms(1)]) auto

lemma save_thread_eq:
  assumes "align48 g" "thread_ok M"
  shows "save_thread g M = M\<lparr>mm := store64 (store64 (mm M) (cur_stack M + 24) (stackTop M - stackBottom M))
    (currentThread M + 8) (exnStack M)\<rparr>"
proof -
  let ?t = "currentThread M" and ?k = "cur_stack M"
  have "disjnt_regions (?t - 8 + of_nat 0) 8 (?k - 8 + of_nat 32) 8"
    using assms(2) by (intro header_field) (auto simp: thread_ok_def)
  then have "disjnt_regions (?k + 24) 8 (?t - 8) 8" by (simp add: disjnt_sym [of "?k + 24"] add.commute)
  then have "load64 (store64 (mm M) (?k + 24) v) (?t - 8) = load64 (mm M) (?t - 8)" for v
    by (rule load64_store64_disjnt)
  then show ?thesis
    using assms by (simp add: save_thread_def current_eqs Let_def sizeofGCStateCurrentStackUsed_def thread_ok_def)
qed

section \<open>Switching: lemmas\<close>

text \<open>Objects, given by their first byte and length, that do not overlap, and a card of a stack
  that lies in none of them.\<close>

definition apart_regions :: "(pointer \<times> nat) list \<Rightarrow> bool" where
  "apart_regions = sorted_wrt (\<lambda>(a, n) (b, k). disjnt_regions a n b k)"

definition card_outside :: "GC_state \<Rightarrow> pointer \<Rightarrow> (pointer \<times> nat) list \<Rightarrow> bool" where
  "card_outside s stk rs \<longleftrightarrow> (\<forall>(a, n)\<in>set rs. disjnt_regions (pointerToCardMapAddr s stk) 1 a n)"

lemma load_other_object:
  "disjnt_regions a n b k \<Longrightarrow> i + 8 \<le> n \<Longrightarrow> j + 8 \<le> k \<Longrightarrow>
    load64 (store64 m (plus_at a i) v) (plus_at b j) = load64 m (plus_at b j)"
  unfolding plus_at_def by (intro load64_store64_disjnt disjnt_sub) auto

lemma load_other_object':
  "disjnt_regions b k a n \<Longrightarrow> i + 8 \<le> n \<Longrightarrow> j + 8 \<le> k \<Longrightarrow>
    load64 (store64 m (plus_at a i) v) (plus_at b j) = load64 m (plus_at b j)"
  by (rule load_other_object [of a n b k]) (simp_all add: disjnt_sym)

lemma load_markCard:
  assumes "disjnt_regions (pointerToCardMapAddr s stk) 1 a n" "j + 8 \<le> n"
  shows "load64 (markCard s m stk) (plus_at a j) = load64 m (plus_at a j)"
proof -
  have "disjnt_regions (pointerToCardMapAddr s stk + of_nat 0) 1 (a + of_nat j) 8"
    using assms by (intro disjnt_sub) auto
  then have "load64 (m(pointerToCardMapAddr s stk := 1)) (plus_at a j) = load64 m (plus_at a j)"
    unfolding plus_at_def by (intro load64_frame [of 1 "pointerToCardMapAddr s stk"]) auto
  then show ?thesis by (simp add: markCard_def)
qed

lemmas object_loads = load_other_object load_other_object' load64_store64_at load_markCard

text \<open>The four objects of a switch from the current thread to \<open>p\<close>.\<close>

definition switch_regions :: "machine \<Rightarrow> pointer \<Rightarrow> (pointer \<times> nat) list" where
  "switch_regions M p = [(currentThread M - 8, 32), (cur_stack M - 8, 56), (p - 8, 32),
    (load64 (mm M) (p + 16) - 8, 56)]"

definition switch_ok :: "machine \<Rightarrow> pointer \<Rightarrow> bool" where
  "switch_ok M p \<longleftrightarrow> load64 (mm M) (currentThread M - 8) \<noteq> GC_FORWARDED \<and> load64 (mm M) (p - 8) \<noteq> GC_FORWARDED \<and>
    apart_regions (switch_regions M p) \<and> card_outside (gcs M) (cur_stack M) (switch_regions M p) \<and>
    card_outside (gcs M) (load64 (mm M) (p + 16)) (switch_regions M p)"

definition switched :: "gc_static \<Rightarrow> machine \<Rightarrow> pointer \<Rightarrow> size_t \<Rightarrow> machine" where
  "switched g M p n =
    (let k = cur_stack M; q = load64 (mm M) (p + 16);
         m = store64 (store64 (store64 (mm M) (k + 24) (stackTop M - stackBottom M))
           (currentThread M + 8) (exnStack M)) (currentThread M) n in
     M\<lparr>mm := markCard (gcs M) m q, currentThread := p, exnStack := load64 (mm M) (p + 8),
       stackBottom := q + 48, stackTop := q + 48 + stack_used (mm M) q,
       stackLimit := getStackLimit g (mm M) q, sessionStart := frontier (gcs M),
       mlimit := (if mlimit M = 0 then limitPlusSlop (gcs M) - 512 else mlimit M)\<rparr>)"

definition saved_mem :: "mem \<Rightarrow> pointer \<Rightarrow> pointer \<Rightarrow> size_t \<Rightarrow> size_t \<Rightarrow> size_t \<Rightarrow> mem" where
  "saved_mem m t k u x n = store64 (store64 (store64 m (k + 24) u) (t + 8) x) t n"

lemma saved_mem_loads:
  assumes "disjnt_regions (t - 8) 32 (k - 8) 56"
  shows "load64 (saved_mem m t k u x n) (t - 8) = load64 m (t - 8)" "load64 (saved_mem m t k u x n) t = n"
    "load64 (saved_mem m t k u x n) (t + 8) = x" "load64 (saved_mem m t k u x n) (t + 16) = load64 m (t + 16)"
    "load64 (saved_mem m t k u x n) (k + 24) = u" "load64 (saved_mem m t k u x n) (k + 16) = load64 m (k + 16)"
proof -
  define c e where "c = t - 8" and "e = k - 8"
  have d: "disjnt_regions c 32 e 56" using assms by (simp add: c_def e_def)
  have eqs: "t - 8 = plus_at c 0" "t = plus_at c 8" "t + 8 = plus_at c 16" "t + 16 = plus_at c 24"
    "k + 24 = plus_at e 32" "k + 16 = plus_at e 24"
    by (simp_all add: c_def e_def plus_at_def)
  have m: "saved_mem m t k u x n = store64 (store64 (store64 m (plus_at e 32) u) (plus_at c 16) x) (plus_at c 8) n"
    by (simp only: saved_mem_def eqs [symmetric])
  show "load64 (saved_mem m t k u x n) (t - 8) = load64 m (t - 8)" "load64 (saved_mem m t k u x n) t = n"
    "load64 (saved_mem m t k u x n) (t + 8) = x" "load64 (saved_mem m t k u x n) (t + 16) = load64 m (t + 16)"
    "load64 (saved_mem m t k u x n) (k + 24) = u" "load64 (saved_mem m t k u x n) (k + 16) = load64 m (k + 16)"
    unfolding m unfolding eqs(1,3-6) unfolding eqs(2) using d by (simp_all add: object_loads)
qed

lemma saved_mem_other:
  assumes "disjnt_regions (t - 8) 32 d r" "disjnt_regions (k - 8) 56 d r" "b = d + of_nat j" "j + 8 \<le> r"
  shows "load64 (saved_mem m t k u x n) b = load64 m b"
proof -
  have "saved_mem m t k u x n = store64 (store64 (store64 m (plus_at (k - 8) 32) u) (plus_at (t - 8) 16) x) (plus_at (t - 8) 8) n"
    by (simp add: saved_mem_def plus_at_def algebra_simps)
  then show ?thesis using assms by (simp add: plus_at_def [symmetric] object_loads)
qed

lemma regions_of:
  assumes "switch_ok M p" "q = load64 (mm M) (p + 16)"
  shows "disjnt_regions (currentThread M - 8) 32 (cur_stack M - 8) 56" "disjnt_regions (currentThread M - 8) 32 (p - 8) 32"
    "disjnt_regions (currentThread M - 8) 32 (q - 8) 56" "disjnt_regions (cur_stack M - 8) 56 (p - 8) 32"
    "disjnt_regions (cur_stack M - 8) 56 (q - 8) 56" "disjnt_regions (p - 8) 32 (q - 8) 56"
    "load64 (mm M) (currentThread M - 8) \<noteq> GC_FORWARDED" "load64 (mm M) (p - 8) \<noteq> GC_FORWARDED"
  using assms by (simp_all add: switch_ok_def switch_regions_def apart_regions_def)

lemma save_then_needed:
  assumes "align48 g" "thread_ok M"
  shows "(let M = beginAtomic (save_thread g M); (M, thread) = getThreadCurrent g M in
      M\<lparr>mm := store64 (mm M) thread n\<rparr>) =
    M\<lparr>mm := saved_mem (mm M) (currentThread M) (cur_stack M) (stackTop M - stackBottom M) (exnStack M) n,
      atomicState := atomicState M + 1,
      mlimit := (if mlimit M = 0 then limitPlusSlop (gcs M) - 512 else mlimit M)\<rparr>"
proof -
  have "disjnt_regions (currentThread M - 8) 32 (cur_stack M - 8) 56" using assms(2) by (simp add: thread_ok_def)
  from saved_mem_loads(1) [OF this, of "mm M" "stackTop M - stackBottom M" "exnStack M" "load64 (store64 (store64 (mm M) (cur_stack M + 24) (stackTop M - stackBottom M)) (currentThread M + 8) (exnStack M)) (currentThread M)"]
  have "load64 (store64 (store64 (mm M) (cur_stack M + 24) (stackTop M - stackBottom M)) (currentThread M + 8) (exnStack M))
      (currentThread M - 8) \<noteq> GC_FORWARDED"
    using assms(2) by (simp add: saved_mem_def thread_ok_def)
  then show ?thesis
    using assms(1) by (simp add: save_thread_eq [OF assms] beginAtomic_def Let_def current_eqs saved_mem_def)
qed

lemma setCurrent_eq:
  assumes "align48 g" "load64 (mm M) (currentThread M - 8) \<noteq> GC_FORWARDED"
  shows "setGCStateCurrentThreadAndStack g M = (let q = load64 (mm M) (currentThread M + 16) in
    M\<lparr>exnStack := load64 (mm M) (currentThread M + 8), stackBottom := q + 48,
      stackTop := q + 48 + load64 (mm M) (q + 24), stackLimit := q + 48 + load64 (mm M) (q + 16) - sizeofStackSlop g,
      mm := markCard (gcs M) (mm M) q\<rparr>)"
  using assms by (simp add: setGCStateCurrentThreadAndStack_def current_eqs Let_def cur_stack_def getStackTop_def getStackLimit_def
      getStackBottom_def sizeof_GC_stack_def getStackLimitPlusSlop_def stack_used_def stack_reserved_def)

lemma GC_switchToThread_eq:
  assumes "align48 g" "switch_ok M p"
  shows "GC_switchToThread ensure g M p n = endAtomic (ensure True 0 0 (switched g M p n))"
proof -
  let ?t = "currentThread M" and ?k = "cur_stack M" and ?q = "load64 (mm M) (p + 16)"
  let ?m = "saved_mem (mm M) ?t ?k (stackTop M - stackBottom M) (exnStack M) n"
  note r = regions_of [OF assms(2) refl]
  have ok: "thread_ok M" using r by (simp add: thread_ok_def)
  have p: "load64 ?m (p - 8) = load64 (mm M) (p - 8)" "load64 ?m (p + 8) = load64 (mm M) (p + 8)"
    "load64 ?m (p + 16) = ?q"
    using saved_mem_other [OF r(2,4), of "p - 8" 0] saved_mem_other [OF r(2,4), of "p + 8" 16]
      saved_mem_other [OF r(2,4), of "p + 16" 24] by simp_all
  have q: "load64 ?m (?q + 16) = load64 (mm M) (?q + 16)" "load64 ?m (?q + 24) = load64 (mm M) (?q + 24)"
    using saved_mem_other [OF r(3,5), of "?q + 16" 24] saved_mem_other [OF r(3,5), of "?q + 24" 32] by simp_all
  have "switchToThread g (let M = beginAtomic (save_thread g M); (M, thread) = getThreadCurrent g M in
      M\<lparr>mm := store64 (mm M) thread n\<rparr>) p = (switched g M p n)\<lparr>atomicState := atomicState M + 1\<rparr>"
    unfolding save_then_needed [OF assms(1) ok]
    by (rule machine.equality) (use r(8) p q in \<open>simp_all add: switchToThread_def setCurrent_eq [OF assms(1)] switched_def
      Let_def getStackLimit_def getStackBottom_def sizeof_GC_stack_def getStackLimitPlusSlop_def stack_used_def
      stack_reserved_def saved_mem_def\<close>)
  moreover have "(switched g M p n)\<lparr>atomicState := atomicState M\<rparr> = switched g M p n"
    by (simp add: switched_def Let_def)
  ultimately show ?thesis by (simp add: GC_switchToThread_def Let_def split: prod.splits)
qed

lemma switched_loads:
  assumes "switch_ok M p" "(a, n) \<in> set (switch_regions M p)" "x = a + of_nat j" "j + 8 \<le> n"
  shows "load64 (mm (switched g M p b)) x = load64 (saved_mem (mm M) (currentThread M) (cur_stack M)
    (stackTop M - stackBottom M) (exnStack M) b) x"
proof -
  have "disjnt_regions (pointerToCardMapAddr (gcs M) (load64 (mm M) (p + 16))) 1 a n"
    using assms(1,2) by (auto simp: switch_ok_def card_outside_def)
  from load_markCard [OF this assms(4)] show ?thesis
    by (simp add: switched_def Let_def saved_mem_def assms(3) plus_at_def)
qed

text \<open>What a switch to \<open>p\<close> leaves in the four objects.\<close>

lemma switched_mem:
  assumes "switch_ok M p" "q = load64 (mm M) (p + 16)" "M1 = switched g M p n"
  shows "load64 (mm M1) (currentThread M - 8) = load64 (mm M) (currentThread M - 8)"
    "load64 (mm M1) (currentThread M) = n" "load64 (mm M1) (currentThread M + 8) = exnStack M"
    "load64 (mm M1) (currentThread M + 16) = cur_stack M"
    "stack_used (mm M1) (cur_stack M) = stackTop M - stackBottom M"
    "stack_reserved (mm M1) (cur_stack M) = stack_reserved (mm M) (cur_stack M)"
    "load64 (mm M1) (p - 8) = load64 (mm M) (p - 8)" "load64 (mm M1) p = load64 (mm M) p"
    "load64 (mm M1) (p + 8) = load64 (mm M) (p + 8)" "load64 (mm M1) (p + 16) = q"
    "stack_used (mm M1) q = stack_used (mm M) q" "stack_reserved (mm M1) q = stack_reserved (mm M) q"
proof -
  let ?t = "currentThread M" and ?k = "cur_stack M"
  note r = regions_of [OF assms(1,2)] and l = switched_loads [OF assms(1)]
  have mem: "(?t - 8, 32) \<in> set (switch_regions M p)" "(?k - 8, 56) \<in> set (switch_regions M p)"
    "(p - 8, 32) \<in> set (switch_regions M p)" "(q - 8, 56) \<in> set (switch_regions M p)"
    using assms(2) by (simp_all add: switch_regions_def)
  note s = saved_mem_loads [OF r(1)]
  let ?m = "saved_mem (mm M) ?t ?k (stackTop M - stackBottom M) (exnStack M) n"
  have f: "load64 (mm M1) x = load64 ?m x"
    if "(a, n) \<in> set (switch_regions M p)" "x = a \<or> x = a + 8 \<or> x = a + 16 \<or> x = a + 24 \<or> x = a + 32 \<and> n = 56"
      "n = 32 \<or> n = 56" for a n x
    using that l [OF that(1), of x 0] l [OF that(1), of x 8] l [OF that(1), of x 16] l [OF that(1), of x 24]
      l [OF that(1), of x 32] by (auto simp: assms(3))
  have ks: "load64 ?m (?t + 16) = ?k" unfolding s by (simp add: cur_stack_def)
  show "load64 (mm M1) (?t - 8) = load64 (mm M) (?t - 8)" "load64 (mm M1) ?t = n" "load64 (mm M1) (?t + 8) = exnStack M"
    "load64 (mm M1) (?t + 16) = ?k"
    using f [OF mem(1), of "?t - 8"] f [OF mem(1), of ?t] f [OF mem(1), of "?t + 8"] f [OF mem(1), of "?t + 16"] s ks
    by simp_all
  show "stack_used (mm M1) ?k = stackTop M - stackBottom M" "stack_reserved (mm M1) ?k = stack_reserved (mm M) ?k"
    using f [OF mem(2), of "?k + 16"] f [OF mem(2), of "?k + 24"] s by (simp_all add: stack_used_def stack_reserved_def)
  have o1: "load64 ?m x = load64 (mm M) x" if "x = p - 8 \<or> x = p \<or> x = p + 8 \<or> x = p + 16" for x
    using that saved_mem_other [OF r(2,4), of x 0] saved_mem_other [OF r(2,4), of x 8]
      saved_mem_other [OF r(2,4), of x 16] saved_mem_other [OF r(2,4), of x 24] by (auto simp: add.commute)
  have o2: "load64 ?m x = load64 (mm M) x" if "x = q + 16 \<or> x = q + 24" for x
    using that saved_mem_other [OF r(3,5), of x 24] saved_mem_other [OF r(3,5), of x 32] by (auto simp: add.commute)
  show "load64 (mm M1) (p - 8) = load64 (mm M) (p - 8)" "load64 (mm M1) p = load64 (mm M) p"
    "load64 (mm M1) (p + 8) = load64 (mm M) (p + 8)" "load64 (mm M1) (p + 16) = q"
    using f [OF mem(3), of "p - 8"] f [OF mem(3), of p] f [OF mem(3), of "p + 8"] f [OF mem(3), of "p + 16"]
      o1 [of "p - 8"] o1 [of p] o1 [of "p + 8"] o1 [of "p + 16"] assms(2) by simp_all
  show "stack_used (mm M1) q = stack_used (mm M) q" "stack_reserved (mm M1) q = stack_reserved (mm M) q"
    using f [OF mem(4), of "q + 16"] f [OF mem(4), of "q + 24"] o2 [of "q + 16"] o2 [of "q + 24"]
    by (simp_all add: stack_used_def stack_reserved_def)
qed

lemma switched_fields [simp]:
  "currentThread (switched g M p n) = p" "gcs (switched g M p n) = gcs M" "atomicState (switched g M p n) = atomicState M"
  "exnStack (switched g M p n) = load64 (mm M) (p + 8)" "stackBottom (switched g M p n) = load64 (mm M) (p + 16) + 48"
  "stackTop (switched g M p n) = load64 (mm M) (p + 16) + 48 + stack_used (mm M) (load64 (mm M) (p + 16))"
  "stackLimit (switched g M p n) = getStackLimit g (mm M) (load64 (mm M) (p + 16))"
  by (simp_all add: switched_def Let_def)

lemma endAtomic_fields [simp]:
  "currentThread (endAtomic M) = currentThread M" "gcs (endAtomic M) = gcs M" "atomicState (endAtomic M) = atomicState M - 1"
  "exnStack (endAtomic M) = exnStack M" "stackBottom (endAtomic M) = stackBottom M" "stackTop (endAtomic M) = stackTop M"
  "stackLimit (endAtomic M) = stackLimit M" "mm (endAtomic M) = mm M" "cur_stack (endAtomic M) = cur_stack M"
  by (simp_all add: endAtomic_def Let_def cur_stack_def)

lemma switch_ok_back:
  assumes "switch_ok M p" "M1 = endAtomic (switched g M p n)"
  shows "switch_ok M1 (currentThread M)" "cur_stack M1 = load64 (mm M) (p + 16)"
    "load64 (mm M1) (currentThread M + 16) = cur_stack M"
proof -
  let ?t = "currentThread M" and ?k = "cur_stack M" and ?q = "load64 (mm M) (p + 16)"
  note m = switched_mem [OF assms(1) refl refl, of g n] and r = regions_of [OF assms(1) refl]
  have ks: "cur_stack M1 = ?q" "load64 (mm M1) (?t + 16) = ?k" using m by (simp_all add: assms(2) cur_stack_def)
  then show "cur_stack M1 = ?q" "load64 (mm M1) (?t + 16) = ?k" by auto
  have regs: "switch_regions M1 ?t = [(p - 8, 32), (?q - 8, 56), (?t - 8, 32), (?k - 8, 56)]"
    using ks by (simp add: switch_regions_def assms(2))
  have "set (switch_regions M1 ?t) = set (switch_regions M p)"
    unfolding regs by (auto simp: switch_regions_def)
  moreover have "apart_regions (switch_regions M1 ?t)"
    unfolding regs using r by (simp add: apart_regions_def disjnt_sym)
  ultimately show "switch_ok M1 ?t"
    using assms(1) m(1,7) ks r by (simp add: switch_ok_def card_outside_def assms(2))
qed

section \<open>Properties of switching\<close>

text \<open>C16: A thread that gives up the processor finds itself as it was: switching to another
  thread and back, without a collection, restores the current thread, the bottom, top and limit
  of its stack and its exception stack. Each switch records the bytes that the thread it leaves
  needs, and lowers \<open>atomicState\<close> by one. The stack of the other thread keeps its top.\<close>

theorem GC_switchToThread_round_trip:
  assumes "align48 g" "switch_ok M p" "\<And>M. ensure True 0 0 M = M"
    "stackBottom M = getStackBottom (cur_stack M)" "stackLimit M = getStackLimit g (mm M) (cur_stack M)"
    "M' = GC_switchToThread ensure g (GC_switchToThread ensure g M p n) (currentThread M) n'"
  shows "currentThread M' = currentThread M \<and> stackBottom M' = stackBottom M \<and> stackTop M' = stackTop M \<and>
    stackLimit M' = stackLimit M \<and> exnStack M' = exnStack M \<and> atomicState M' = atomicState M - 2 \<and>
    load64 (mm M') (currentThread M) = n \<and> load64 (mm M') p = n' \<and>
    getStackTop (mm M') (load64 (mm M) (p + 16)) = getStackTop (mm M) (load64 (mm M) (p + 16))"
proof -
  let ?t = "currentThread M" and ?k = "cur_stack M" and ?q = "load64 (mm M) (p + 16)"
  define M1 where "M1 = endAtomic (switched g M p n)"
  note b = switch_ok_back [OF assms(2) M1_def] and m = switched_mem [OF assms(2) refl refl, of g n]
  have M': "M' = endAtomic (switched g M1 ?t n')"
    using GC_switchToThread_eq [OF assms(1,2)] GC_switchToThread_eq [OF assms(1) b(1)] assms(3,6) by (simp add: M1_def)
  note m' = switched_mem [OF b(1) b(3) [symmetric] refl, of g n']
  show ?thesis
    using assms(4,5) m m' b
    by (simp add: M' M1_def getStackBottom_def sizeof_GC_stack_def getStackLimit_def getStackLimitPlusSlop_def getStackTop_def)
qed

section \<open>Copying frames: lemmas\<close>

definition stack_frames :: "mem \<Rightarrow> pointer \<Rightarrow> 8 word list" where
  "stack_frames m stk = load_bytes m (stk + 48) (unat (stack_used m stk))"

lemma load_bytes_region:
  assumes "\<And>x. k \<le> off f x \<Longrightarrow> m' x = m x" "disjnt_regions f k b n" "a = b + of_nat j" "j + l \<le> n"
  shows "load_bytes m' a l = load_bytes m a l"
proof (cases "l = 0 \<or> k = 0")
  case True
  then show ?thesis using assms(1) by (auto simp: load_bytes_def)
next
  case False
  then have "disjnt_regions (f + of_nat 0) k (b + of_nat j) l" using assms(2,4) by (intro disjnt_sub) auto
  then show ?thesis using assms(1,3) by (intro load_bytes_frame [of k f]) auto
qed

lemma load64_region:
  assumes "\<And>x. k \<le> off f x \<Longrightarrow> m' x = m x" "disjnt_regions f k b n" "a = b + of_nat j" "j + 8 \<le> n"
  shows "load64 m' a = load64 m a"
  using load_bytes_region [of k f m' m b n a j 8] assms by (simp add: load64_def)

lemma memcpy_at_other: "i + unat n \<le> off f x \<Longrightarrow> memcpy m (plus_at f i) s n x = m x"
  by (simp add: memcpy_other off_plus_at)

lemma load64_memcpy_at:
  assumes "j + 8 \<le> i \<or> i + unat n \<le> j" "i + unat n \<le> 2 ^ 64" "j + 8 \<le> 2 ^ 64"
  shows "load64 (memcpy m (plus_at f i) s n) (plus_at f j) = load64 m (plus_at f j)"
proof (cases "n = 0")
  case False
  then have "disjnt_regions (plus_at f i) (unat n) (plus_at f j) 8"
    using assms disjnt_offsets [of i "unat n" j 8 f] disjnt_offsets [of j 8 i "unat n" f]
    by (auto simp: plus_at_def unat_gt_0)
  then show ?thesis by (rule load64_memcpy)
qed (simp add: memcpy_def)

lemma load_bytes_store_at:
  assumes "i + 8 \<le> j \<or> j + n \<le> i" "i + 8 \<le> 2 ^ 64" "j + n \<le> 2 ^ 64"
  shows "load_bytes (store64 m (plus_at f i) v) (plus_at f j) n = load_bytes m (plus_at f j) n"
proof (cases "n = 0")
  case False
  then have "disjnt_regions (plus_at f i) 8 (plus_at f j) n"
    using assms disjnt_offsets [of i 8 j n f] disjnt_offsets [of j n i 8 f] by (auto simp: plus_at_def)
  then show ?thesis by (intro load_bytes_frame [of 8 "plus_at f i"] store64_other)
qed (simp add: load_bytes_def)

text \<open>The frames of a stack of \<open>n\<close> bytes are copied to the new stack at \<open>f\<close>.\<close>

definition copied_mem :: "mem \<Rightarrow> pointer \<Rightarrow> nat \<Rightarrow> pointer \<Rightarrow> size_t \<Rightarrow> mem" where
  "copied_mem m f r src n = memcpy (store64 (new_thread_mem m f r) (plus_at f 32) n) (plus_at f 56) src n"

lemma copied_mem_loads:
  assumes "88 + r \<le> 2 ^ 64" "unat n \<le> r"
  shows "load64 (copied_mem m f r src n) (plus_at f 24) = of_nat r"
    "load64 (copied_mem m f r src n) (plus_at f 32) = n"
    "load64 (copied_mem m f r src n) (plus_at f 40) = plus_at f (64 + r)"
    "load64 (copied_mem m f r src n) (plus_at f (64 + r)) = 0"
    "load64 (copied_mem m f r src n) (plus_at f (72 + r)) = BOGUS_EXN_STACK"
    "load64 (copied_mem m f r src n) (plus_at f (80 + r)) = plus_at f 8"
  using assms
  by (simp_all add: copied_mem_def load64_memcpy_at load64_store64_at new_thread_mem_loads)

lemma copied_mem_other:
  "88 + r \<le> off f x \<Longrightarrow> unat n \<le> r \<Longrightarrow> copied_mem m f r src n x = m x"
  by (simp add: copied_mem_def memcpy_at_other store64_at_other new_thread_mem_other)

lemma copied_mem_frames:
  assumes "unat n \<le> r" "disjnt_regions f (88 + r) b k" "src = b + of_nat j" "j + unat n \<le> k"
  shows "load_bytes (copied_mem m f r src n) (plus_at f 56) (unat n) = load_bytes m src (unat n)"
  unfolding copied_mem_def load_bytes_memcpy
  by (rule load_bytes_region [OF _ assms(2-4)]) (simp add: store64_at_other new_thread_mem_other)

section \<open>Copying threads\<close>

text \<open>\<open>copyThread\<close> after the collection that \<open>newThread\<close> asks for, with the frontier at \<open>f\<close> and
  the thread to copy at \<open>t\<close> with its stack \<open>k\<close>.\<close>

definition copy_thread_mem :: "mem \<Rightarrow> pointer \<Rightarrow> nat \<Rightarrow> pointer \<Rightarrow> pointer \<Rightarrow> mem" where
  "copy_thread_mem m f r t k =
    store64 (store64 (copied_mem m f r (k + 48) (stack_used m k)) (plus_at f (64 + r)) (load64 m t))
      (plus_at f (72 + r)) (load64 m (t + 8))"

lemma copyThread_eq:
  assumes "align48 g" "M1 = ensure False (sizeofStackWithHeader (alignStackReserved g r) + 32) 0 (M\<lparr>savedThread := t0\<rparr>)"
    "r = alignStackReserved g u" "f = frontier (gcs M1)" "t = savedThread M1" "k = load64 (mm M1) (t + 16)"
    "unat (stack_used (mm M1) k) \<le> unat r" "88 + unat r \<le> 2 ^ 64"
    "disjnt_regions f (88 + unat r) (t - 8) 32"
    "disjnt_regions f (88 + unat r) (k - 8) (56 + unat (stack_used (mm M1) k))"
  shows "copyThread ensure g t0 u M = Some (plus_at f (64 + unat r),
    M1\<lparr>gcs := gcs M1\<lparr>frontier := plus_at f (88 + unat r)\<rparr>, savedThread := BOGUS_OBJPTR,
      mm := copy_thread_mem (mm M1) f (unat r) t k\<rparr>)"
proof -
  let ?m = "new_thread_mem (mm M1) f (unat r)" and ?n = "stack_used (mm M1) k"
  let ?c = "copied_mem (mm M1) f (unat r) (k + 48) ?n"
  have t: "load64 m' (t + 16) = load64 (mm M1) (t + 16)" "load64 m' t = load64 (mm M1) t"
    "load64 m' (t + 8) = load64 (mm M1) (t + 8)" if "\<And>x. 88 + unat r \<le> off f x \<Longrightarrow> m' x = mm M1 x" for m'
    using load64_region [OF that assms(9), where a = "t + 16" and j = 24] load64_region [OF that assms(9), where a = "t + 8" and j = 16]
      load64_region [OF that assms(9), where a = t and j = 8] by simp_all
  have "stack_used ?m k = ?n"
    unfolding stack_used_def
    by (rule load64_region [OF new_thread_mem_other assms(10), where j = 32]) simp_all
  moreover have "load64 ?m (plus_at f (64 + unat r) + 16) = plus_at f 8"
    using new_thread_mem_loads(8) [OF assms(8), of "mm M1" f] by (simp add: plus_at_def algebra_simps)
  moreover have "k \<noteq> plus_at f 8"
  proof
    assume "k = plus_at f 8"
    then have "k - 8 = f" by (simp add: plus_at_def)
    then show False using assms(10) by (auto simp: disjnt_regions_def)
  qed
  ultimately have "copyStack ?m k (plus_at f 8) = ?c"
    by (simp add: copyStack_def GC_memcpy_def copied_mem_def getStackBottom_def sizeof_GC_stack_def)
      (simp add: plus_at_def algebra_simps)
  moreover have "load64 ?c t = load64 (mm M1) t" "load64 (store64 ?c (plus_at f (64 + unat r)) v) (t + 8) = load64 (mm M1) (t + 8)" for v
    by (rule t; simp add: copied_mem_other store64_at_other assms(7))+
  ultimately show ?thesis
    using t(1) [of ?m] \<open>load64 ?m (plus_at f (64 + unat r) + 16) = plus_at f 8\<close>
    by (simp add: copyThread_def Let_def newThread_def assms(1) newThread_objects_eq assms(2) [symmetric] assms(3) [symmetric]
        assms(4,5) [symmetric] assms(6) [symmetric] copy_thread_mem_def new_thread_mem_other)
      (simp add: plus_at_def algebra_simps)
qed

lemma copy_thread_mem_loads:
  assumes "88 + r \<le> 2 ^ 64" "unat (stack_used m k) \<le> r" "disjnt_regions f (88 + r) (k - 8) (56 + unat (stack_used m k))"
  shows "load64 (copy_thread_mem m f r t k) (plus_at f 24) = of_nat r"
    "load64 (copy_thread_mem m f r t k) (plus_at f 32) = stack_used m k"
    "load64 (copy_thread_mem m f r t k) (plus_at f 40) = plus_at f (64 + r)"
    "load64 (copy_thread_mem m f r t k) (plus_at f (64 + r)) = load64 m t"
    "load64 (copy_thread_mem m f r t k) (plus_at f (72 + r)) = load64 m (t + 8)"
    "load64 (copy_thread_mem m f r t k) (plus_at f (80 + r)) = plus_at f 8"
    "load_bytes (copy_thread_mem m f r t k) (plus_at f 56) (unat (stack_used m k)) = stack_frames m k"
    "88 + r \<le> off f x \<Longrightarrow> copy_thread_mem m f r t k x = m x"
  using assms copied_mem_frames [OF assms(2,3), of "k + 48" 56]
  by (simp_all add: copy_thread_mem_def copied_mem_loads load64_store64_at load_bytes_store_at stack_frames_def
      store64_at_other copied_mem_other)

text \<open>C20: A copied thread has the frames, the exception stack and the bytes needed of the
  thread it was copied from, wherever the collection that \<open>newThread\<close> runs has moved that
  thread; its own stack is linked to it, with the reserve aligned. Nothing outside the new objects
  changes after the collection.\<close>

theorem GC_copyThread_correct:
  assumes "align48 g" "S = save_thread g M"
    "r = alignStackReserved g (stack_reserved (mm S) (load64 (mm S) (p + 16)))"
    "M1 = ensure False (sizeofStackWithHeader (alignStackReserved g r) + 32) 0 (S\<lparr>savedThread := p\<rparr>)"
    "t = savedThread M1" "k = load64 (mm M1) (t + 16)" "f = frontier (gcs M1)"
    "unat (stack_used (mm M1) k) \<le> unat r" "88 + unat r \<le> 2 ^ 64"
    "disjnt_regions f (88 + unat r) (t - 8) 32"
    "disjnt_regions f (88 + unat r) (k - 8) (56 + unat (stack_used (mm M1) k))"
  shows "\<exists>d k' M'. GC_copyThread ensure g p M = Some (d, M') \<and> k' = load64 (mm M') (d + 16) \<and>
    stack_frames (mm M') k' = stack_frames (mm M1) k \<and> stack_reserved (mm M') k' = r \<and> stack_thread (mm M') k' = d \<and>
    load64 (mm M') d = load64 (mm M1) t \<and> load64 (mm M') (d + 8) = load64 (mm M1) (t + 8) \<and>
    savedThread M' = BOGUS_OBJPTR \<and> currentThread M' = currentThread M1 \<and> frontier (gcs M') = d + 24 \<and>
    (\<forall>x. 88 + unat r \<le> off f x \<longrightarrow> mm M' x = mm M1 x)"
proof -
  let ?d = "plus_at f (64 + unat r)" and ?m = "copy_thread_mem (mm M1) f (unat r) t k"
  note l = copy_thread_mem_loads [OF assms(9,8,11), where t = t]
  have copy: "GC_copyThread ensure g p M = Some (?d, M1\<lparr>gcs := gcs M1\<lparr>frontier := plus_at f (88 + unat r)\<rparr>,
      savedThread := BOGUS_OBJPTR, mm := ?m\<rparr>)"
    using copyThread_eq [where M = S and ensure = ensure and ?t0.0 = p, OF assms(1,4,3,7,5,6,8-11)] assms(1) by (simp add: GC_copyThread_def Let_def assms(2))
  have at: "?d + 16 = plus_at f (80 + unat r)" "?d + 8 = plus_at f (72 + unat r)" "?d + 24 = plus_at f (88 + unat r)"
    "plus_at f 8 + 48 = plus_at f 56" "plus_at f 8 + 16 = plus_at f 24" "plus_at f 8 + 24 = plus_at f 32"
    "plus_at f 8 + 32 = plus_at f 40"
    by (simp_all add: plus_at_def algebra_simps)
  show ?thesis
    by (rule exI [of _ ?d], rule exI [of _ "plus_at f 8"], rule exI, intro conjI, rule copy)
      (use l in \<open>simp_all add: at stack_frames_def stack_reserved_def stack_used_def stack_thread_def\<close>)
qed

section \<open>Witnesses\<close>

text \<open>Two threads at 1000 and 3000 with their stacks at 2000 and 4000.\<close>

definition demo_thread_mem :: mem where
  "demo_thread_mem = store64 (store64 (store64 (store64 (store64 (store64 (\<lambda>_. 0) 1016 2000) 2016 400)
    3008 24) 3016 4000) 4016 400) 4024 40"

definition demo_machine :: machine where
  "demo_machine = \<lparr> gcs = demo_state, mm = demo_thread_mem, currentThread = 1000, savedThread = BOGUS_OBJPTR,
     exnStack = 16, stackBottom = 2048, stackTop = 2080, stackLimit = 2248, atomicState = 2, mlimit = 4608,
     signalIsPending = False, copiedSize = 0, sessionStart = 0 \<rparr>"

lemma demo_thread_loads:
  "load64 demo_thread_mem 992 = 0" "load64 demo_thread_mem 1016 = 2000" "load64 demo_thread_mem 2016 = 400"
  "load64 demo_thread_mem 2992 = 0" "load64 demo_thread_mem 3000 = 0" "load64 demo_thread_mem 3008 = 24"
  "load64 demo_thread_mem 3016 = 4000" "load64 demo_thread_mem 4016 = 400" "load64 demo_thread_mem 4024 = 40"
  by (simp_all add: demo_thread_mem_def load64_store64_disjnt disjnt_regions_def demo_zero_load)

lemma demo_machine_fields:
  "mm demo_machine = demo_thread_mem" "currentThread demo_machine = 1000" "cur_stack demo_machine = 2000"
  "stackBottom demo_machine = 2048" "stackTop demo_machine = 2080" "stackLimit demo_machine = 2248"
  "gcs demo_machine = demo_state" "exnStack demo_machine = 16" "atomicState demo_machine = 2"
  by (simp_all add: demo_machine_def cur_stack_def demo_thread_loads)

lemma demo_align48: "align48 demo_static"
  by (simp add: align48_def demo_static_def)

lemma demo_switch_ok: "switch_ok demo_machine 3000"
  by (simp add: switch_ok_def demo_machine_fields demo_thread_loads switch_regions_def apart_regions_def card_outside_def
      disjnt_regions_def pointerToCardMapAddr_def pointerToCardMapIndexAbsolute_def CARD_SIZE_LOG2_def demo_state_def
      GC_FORWARDED_def CARD_MAP_ELEM_SIZE_def)

lemma GC_switchToThread_round_trip_witness:
  "\<exists>M'. GC_switchToThread (\<lambda>_ _ _ M. M) demo_static
      (GC_switchToThread (\<lambda>_ _ _ M. M) demo_static demo_machine 3000 64) 1000 128 = M' \<and>
    currentThread M' = 1000 \<and> stackTop M' = 2080 \<and> stackBottom M' = 2048 \<and> exnStack M' = 16 \<and> atomicState M' = 0"
proof -
  have "stackBottom demo_machine = getStackBottom (cur_stack demo_machine)"
    "stackLimit demo_machine = getStackLimit demo_static (mm demo_machine) (cur_stack demo_machine)"
    by (simp_all add: demo_machine_fields getStackBottom_def sizeof_GC_stack_def getStackLimit_def getStackLimitPlusSlop_def
        stack_reserved_def demo_thread_loads sizeofStackSlop_def demo_static_def)
  from GC_switchToThread_round_trip [OF demo_align48 demo_switch_ok _ this refl, of "\<lambda>_ _ _ M. M" 64 128]
  show ?thesis by (simp add: demo_machine_fields)
qed

lemma demo_saved: "save_thread demo_static demo_machine = demo_machine\<lparr>mm := store64 (store64 demo_thread_mem 2024 32) 1008 16\<rparr>"
proof -
  have "thread_ok demo_machine"
    by (simp add: thread_ok_def demo_machine_fields demo_thread_loads disjnt_regions_def GC_FORWARDED_def)
  from save_thread_eq [OF demo_align48 this] show ?thesis by (simp add: demo_machine_fields)
qed

lemma GC_copyThread_correct_witness:
  "\<exists>d k' M'. GC_copyThread (\<lambda>_ _ _ M. M) demo_static 3000 demo_machine = Some (d, M') \<and> k' = load64 (mm M') (d + 16) \<and>
    stack_frames (mm M') k' = load_bytes (store64 (store64 demo_thread_mem 2024 32) 1008 16) 4048 40 \<and>
    stack_reserved (mm M') k' = 400 \<and> load64 (mm M') (d + 8) = 24"
proof -
  let ?S = "save_thread demo_static demo_machine" and ?m = "store64 (store64 demo_thread_mem 2024 32) 1008 16"
  let ?M1 = "?S\<lparr>savedThread := 3000\<rparr>"
  have l: "load64 ?m 3016 = 4000" "load64 ?m 4016 = 400" "load64 ?m 4024 = 40" "load64 ?m 3008 = 24"
    by (simp_all add: load64_store64_disjnt disjnt_regions_def demo_thread_loads)
  have f: "frontier (gcs ?S) = 5120" "savedThread ?M1 = 3000" "mm ?S = ?m" "mm ?M1 = ?m"
    by (simp_all add: demo_saved demo_machine_fields demo_state_def)
  have r: "alignStackReserved demo_static 400 = 400"
    by (simp add: alignStackReserved_def alignWithExtra_def align_def demo_static_def GC_STACK_HEADER_SIZE_def header_sizes
        sizeof_GC_stack_def)
  have "\<exists>d k' M'. GC_copyThread (\<lambda>_ _ _ M. M) demo_static 3000 demo_machine = Some (d, M') \<and> k' = load64 (mm M') (d + 16) \<and>
    stack_frames (mm M') k' = stack_frames (mm ?M1) 4000 \<and> stack_reserved (mm M') k' = 400 \<and> stack_thread (mm M') k' = d \<and>
    load64 (mm M') d = load64 (mm ?M1) 3000 \<and> load64 (mm M') (d + 8) = load64 (mm ?M1) (3000 + 8) \<and>
    savedThread M' = BOGUS_OBJPTR \<and> currentThread M' = currentThread ?M1 \<and> frontier (gcs M') = d + 24 \<and>
    (\<forall>x. 88 + unat (400 :: u64) \<le> off 5120 x \<longrightarrow> mm M' x = mm ?M1 x)"
    by (rule GC_copyThread_correct [OF demo_align48 refl, where t = 3000 and f = 5120])
      (simp_all add: f l r stack_used_def stack_reserved_def disjnt_regions_def)
  then show ?thesis by (auto simp: f l stack_frames_def stack_used_def)
qed

end
