(* ===== verification/Stacks.thy ===== *)
theory Stacks
  imports Foreach
begin

text \<open>
  Stacks that grow and shrink, and the dangling stacks, whose thread has moved to the shared
  heap (\<open>gc/stack.c\<close>). The products of a ratio (a \<open>float\<close>) and a size, computed as
  \<open>double\<close>, are a parameter: their integer part.
\<close>

section \<open>The sizes of stacks\<close>

record stack_ratios =
  stackCurrentGrow :: "size_t \<Rightarrow> nat"
  stackCurrentMaxReserved :: "size_t \<Rightarrow> nat"
  stackCurrentPermitReserved :: "size_t \<Rightarrow> nat"
  stackCurrentShrink :: "size_t \<Rightarrow> nat"
  stackMaxReserved :: "size_t \<Rightarrow> nat"
  stackShrink :: "size_t \<Rightarrow> nat"

definition RESERVED_MAX :: size_t where "RESERVED_MAX = drop_bit 2 (- 1)"

text \<open>\<open>(double)RESERVED_MAX\<close> is rounded up to \<open>2 ^ 62\<close>.\<close>

definition saturate :: "nat \<Rightarrow> size_t" where
  "saturate n = (if n > 2 ^ 62 then RESERVED_MAX else of_nat n)"

text \<open>A cast of a \<open>double\<close> that \<open>size_t\<close> cannot represent is undefined.\<close>

definition to_size :: "nat \<Rightarrow> size_t option" where
  "to_size n = (if n < 2 ^ 64 then Some (of_nat n) else None)"

definition sizeofStackGrowReserved :: "stack_ratios \<Rightarrow> gc_static \<Rightarrow> mem \<Rightarrow> pointer \<Rightarrow> size_t option" where
  "sizeofStackGrowReserved ratios g m stack =
    (let reservedGrow = saturate (stackCurrentGrow ratios (stack_reserved m stack)) in
     map_option (\<lambda>reservedMin. alignStackReserved g (max reservedGrow reservedMin))
       (sizeofStackMinimumReserved g m stack))"

definition sizeofStackShrinkReserved ::
    "stack_ratios \<Rightarrow> gc_static \<Rightarrow> mem \<Rightarrow> pointer \<Rightarrow> bool \<Rightarrow> size_t option" where
  "sizeofStackShrinkReserved ratios g m stack current = do {
     let reserved = stack_reserved m stack;
     let used = stack_used m stack;
     (reservedMax, reservedShrink, reservedMin) \<leftarrow>
       (if current then do {
          let reservedMax = saturate (stackCurrentMaxReserved ratios used);
          let reservedPermit = saturate (stackCurrentPermitReserved ratios used);
          reservedShrink \<leftarrow> (if reserved \<le> reservedPermit then Some reserved
            else to_size (stackCurrentShrink ratios reserved));
          reservedMin \<leftarrow> sizeofStackMinimumReserved g m stack;
          Some (reservedMax, reservedShrink, reservedMin) }
        else do {
          reservedShrink \<leftarrow> to_size (stackShrink ratios reserved);
          Some (saturate (stackMaxReserved ratios used), reservedShrink, used) });
     let reservedNew = alignStackReserved g (max (min reservedMax reservedShrink) reservedMin);
     Some (min reserved reservedNew) }"

section \<open>Dangling stacks\<close>

text \<open>The array of the dangling stacks, and \<open>danglingStackListMaxSize\<close>, the length it was
  allocated with. \<open>None\<close>: a write behind the array, or a maximum that overflows an \<open>int32_t\<close>.\<close>

record dangling =
  danglingStackList :: "objptr list"
  danglingStackListMaxSize :: int

definition clearDanglingStackList :: "dangling \<Rightarrow> dangling" where
  "clearDanglingStackList d = d\<lparr>danglingStackList := []\<rparr>"

definition addToDanglingStackList :: "dangling \<Rightarrow> objptr \<Rightarrow> dangling option" where
  "addToDanglingStackList d op =
    (let sz = int (length (danglingStackList d)) + 1;
         mx = (if sz > danglingStackListMaxSize d then danglingStackListMaxSize d * 2 else danglingStackListMaxSize d) in
     if sz \<le> mx \<and> mx < 2 ^ 31
     then Some \<lparr> danglingStackList = danglingStackList d @ [op], danglingStackListMaxSize = mx \<rparr> else None)"

text \<open>The client \<open>f\<close> gets the value of a slot, which it may replace.\<close>

fun foreach_dangling :: "(objptr \<Rightarrow> 'w \<Rightarrow> (objptr \<times> 'w) option) \<Rightarrow> objptr list \<Rightarrow> 'w \<Rightarrow> (objptr list \<times> 'w) option" where
  "foreach_dangling f [] w = Some ([], w)"
| "foreach_dangling f (op # ops) w = do {
     (op, w) \<leftarrow> (if isObjptr op then f op w else Some (op, w));
     (ops, w) \<leftarrow> foreach_dangling f ops w;
     Some (op # ops, w) }"

definition foreachObjptrInDanglingStackList ::
    "(objptr \<Rightarrow> 'w \<Rightarrow> (objptr \<times> 'w) option) \<Rightarrow> dangling \<Rightarrow> 'w \<Rightarrow> (dangling \<times> 'w) option" where
  "foreachObjptrInDanglingStackList f d w =
    map_option (\<lambda>(l, w). (d\<lparr>danglingStackList := l\<rparr>, w)) (foreach_dangling f (danglingStackList d) w)"

fun update_first :: "objptr \<Rightarrow> objptr \<Rightarrow> objptr list \<Rightarrow> bool \<times> objptr list" where
  "update_first old new [] = (False, [])"
| "update_first old new (op # ops) =
    (if op = old then (True, new # ops) else (let (b, l) = update_first old new ops in (b, op # l)))"

definition updateStackIfDangling :: "objptr \<Rightarrow> objptr \<Rightarrow> dangling \<Rightarrow> bool \<times> dangling" where
  "updateStackIfDangling old new d =
    (let (b, l) = update_first old new (danglingStackList d) in (b, d\<lparr>danglingStackList := l\<rparr>))"

fun refresh_loop :: "GC_heap \<Rightarrow> objptr list \<Rightarrow> mem \<Rightarrow> (objptr list \<times> mem) option" where
  "refresh_loop h [] m = Some ([], m)"
| "refresh_loop h (op # ops) m = do {
     let stk = objptrToPointer op (h_start h);
     m \<leftarrow> fixFwdObjptr m (h_start h) (stk + 32);
     let keep = \<not> isPointerInHeap h (stack_thread m stk);
     (l, m) \<leftarrow> refresh_loop h ops m;
     Some (if keep then op # l else l, m) }"

definition refreshDanglingStackList :: "GC_heap \<Rightarrow> dangling \<Rightarrow> mem \<Rightarrow> (dangling \<times> mem) option" where
  "refreshDanglingStackList h d m =
    map_option (\<lambda>(l, m). (d\<lparr>danglingStackList := l\<rparr>, m)) (refresh_loop h (danglingStackList d) m)"

definition isInDanglingStackList :: "dangling \<Rightarrow> objptr \<Rightarrow> bool" where
  "isInDanglingStackList d p \<longleftrightarrow> List.member (danglingStackList d) p"

section \<open>Sizes of stacks: lemmas\<close>

text \<open>No size comes near the limit \<open>2 ^ 62\<close>.\<close>

definition small_stack :: "gc_static \<Rightarrow> mem \<Rightarrow> pointer \<Rightarrow> bool" where
  "small_stack g m stk \<longleftrightarrow> align_arg (alignment g) \<and> unat (alignment g) \<le> 2 ^ 12 \<and>
    isStackReservedAligned g (stack_reserved m stk) \<and> stack_used m stk \<le> stack_reserved m stk \<and>
    unat (stack_reserved m stk) \<le> 2 ^ 62 \<and> unat (sizeofStackSlop g) \<le> 2 ^ 33"

lemma saturate_le: "unat (saturate n) \<le> 2 ^ 62"
  by (auto simp: saturate_def RESERVED_MAX_def unat_of_nat_small unat_drop_bit_eq unsigned_minus_1_eq_mask
      mask_eq_exp_minus_1)

lemma alignStackReserved_spec:
  assumes "align_arg (alignment g)" "unat (alignment g) \<le> 2 ^ 12" "unat n \<le> 2 ^ 63"
  shows "isStackReservedAligned g (alignStackReserved g n)" "n \<le> alignStackReserved g n"
    "unat (alignStackReserved g n) < unat n + unat (alignment g)"
proof -
  have "unat n + unat (GC_STACK_HEADER_SIZE + sizeof_GC_stack) + unat (alignment g) \<le> 2 ^ 64"
    using assms(2,3) by (simp add: GC_STACK_HEADER_SIZE_def GC_HEADER_SIZE_def sizeof_GC_stack_def)
  from alignWithExtra_spec [OF assms(1) this]
  show "isStackReservedAligned g (alignStackReserved g n)" "n \<le> alignStackReserved g n"
    "unat (alignStackReserved g n) < unat n + unat (alignment g)"
    by (simp_all add: alignStackReserved_def isStackReservedAligned_def add.commute)
qed

lemma minimum_reserved:
  assumes "small_stack g m stk" "getStackTopFrameSize g m stk = Some fs" "unat (fs :: u16) \<le> unat (stack_used m stk)"
  shows "\<exists>R. sizeofStackMinimumReserved g m stk = Some R \<and> isStackReservedAligned g R \<and>
    unat (stack_used m stk) + unat (sizeofStackSlop g) \<le> unat R + unat fs \<and> unat R \<le> 2 ^ 62 + 2 ^ 33 + 2 ^ 12"
proof -
  let ?u = "stack_used m stk" and ?s = "sizeofStackSlop g"
  let ?n = "?u + ?s - ucast fs"
  have sz: "unat ?u \<le> 2 ^ 62" "unat ?s \<le> 2 ^ 33"
    using assms(1) by (auto simp: small_stack_def word_le_nat_alt)
  have us: "unat (?u + ?s) = unat ?u + unat ?s" using sz unat_add_lem [of ?u ?s] by simp
  have f: "unat (ucast fs :: u64) = unat fs"
    using unsigned_less [of fs, where ?'a = nat] by (simp add: unsigned_ucast_eq take_bit_nat_eq_self)
  then have "(ucast fs :: u64) \<le> ?u + ?s" using assms(3) by (simp add: word_le_nat_alt us)
  then have n: "unat ?n = unat ?u + unat ?s - unat fs" by (simp add: unat_sub us f)
  then have "unat ?n \<le> 2 ^ 62 + 2 ^ 33" "unat ?n \<le> 2 ^ 63" using sz by simp_all
  moreover have a: "align_arg (alignment g)" "unat (alignment g) \<le> 2 ^ 12" using assms(1) by (auto simp: small_stack_def)
  ultimately show ?thesis
    using alignStackReserved_spec [OF a, of ?n] n assms(2)
    by (auto simp: sizeofStackMinimumReserved_def word_le_nat_alt)
qed

section \<open>Properties of the sizes\<close>

text \<open>C27: The reserve that \<open>sizeofStackGrowReserved\<close> computes keeps the stack object aligned,
  leaves the slop above the bytes in use but the topmost frame, so that the mutator's invariant
  holds after the growth, and is at least the product of the ratio and the old reserve, up
  to \<open>RESERVED_MAX\<close>.\<close>

theorem sizeofStackGrowReserved_correct:
  assumes "small_stack g m stk" "getStackTopFrameSize g m stk = Some fs" "unat (fs :: u16) \<le> unat (stack_used m stk)"
  shows "\<exists>R. sizeofStackGrowReserved ratios g m stk = Some R \<and> isStackReservedAligned g R \<and>
    unat (stack_used m stk) + unat (sizeofStackSlop g) \<le> unat R + unat fs \<and>
    min (stackCurrentGrow ratios (stack_reserved m stk)) (2 ^ 62 - 1) \<le> unat R"
proof -
  let ?g = "saturate (stackCurrentGrow ratios (stack_reserved m stk))"
  obtain R where R: "sizeofStackMinimumReserved g m stk = Some R"
    "unat (stack_used m stk) + unat (sizeofStackSlop g) \<le> unat R + unat fs" "unat R \<le> 2 ^ 62 + 2 ^ 33 + 2 ^ 12"
    using minimum_reserved [OF assms] by auto
  have mx: "unat (max ?g R) \<le> 2 ^ 63" "unat R \<le> unat (max ?g R)" "unat ?g \<le> unat (max ?g R)"
    using saturate_le [of "stackCurrentGrow ratios (stack_reserved m stk)"] R(3)
    by (auto simp: max_def word_le_nat_alt)
  have a: "align_arg (alignment g)" "unat (alignment g) \<le> 2 ^ 12" using assms(1) by (auto simp: small_stack_def)
  note al = alignStackReserved_spec [OF a mx(1)]
  have "min (stackCurrentGrow ratios (stack_reserved m stk)) (2 ^ 62 - 1) \<le> unat ?g"
    by (auto simp: saturate_def RESERVED_MAX_def unat_of_nat_small unat_drop_bit_eq unsigned_minus_1_eq_mask
        mask_eq_exp_minus_1)
  then have "min (stackCurrentGrow ratios (stack_reserved m stk)) (2 ^ 62 - 1) \<le> unat (alignStackReserved g (max ?g R))"
    using mx(3) al(2) by (simp add: word_le_nat_alt)
  moreover have "unat (stack_used m stk) + unat (sizeofStackSlop g) \<le> unat (alignStackReserved g (max ?g R)) + unat fs"
    using R(2) mx(2) al(2) by (simp add: word_le_nat_alt)
  ultimately show ?thesis using al(1) by (simp add: sizeofStackGrowReserved_def R(1) Let_def)
qed

definition demo_ratios :: stack_ratios where
  "demo_ratios = \<lparr> stackCurrentGrow = (\<lambda>n. 2 * unat n), stackCurrentMaxReserved = (\<lambda>n. 32 * unat n),
     stackCurrentPermitReserved = (\<lambda>n. 4 * unat n), stackCurrentShrink = (\<lambda>n. unat n div 2),
     stackMaxReserved = (\<lambda>n. 8 * unat n), stackShrink = (\<lambda>n. unat n div 2) \<rparr>"

definition demo_stack_mem :: mem where "demo_stack_mem = store64 (store64 (\<lambda>_. 0) 1016 400) 1024 96"

lemma demo_stack: "stack_used demo_stack_mem 1000 = 96" "stack_reserved demo_stack_mem 1000 = 400"
  "getStackTopFrameSize demo_static demo_stack_mem 1000 = Some 24" "unat (sizeofStackSlop demo_static) = 200"
  by (simp_all add: demo_stack_mem_def stack_used_def stack_reserved_def load64_store64_disjnt disjnt_regions_def
      demo_static_def getStackTopFrameSize_def getStackTopFrameLayout_def getFrameLayoutFromFrameIndex_def
      getStackTopFrameIndex_def getFrameIndexFromReturnAddress_def sizeofStackSlop_def)

lemma demo_small_stack: "small_stack demo_static demo_stack_mem 1000"
proof -
  have "align_arg (alignment demo_static)" "alignment demo_static = 8" by (simp_all add: demo_static_def align_arg_def)
  then show ?thesis
    by (simp add: small_stack_def demo_stack isStackReservedAligned_def GC_STACK_HEADER_SIZE_def GC_HEADER_SIZE_def
        sizeof_GC_stack_def isAligned_def)
qed

lemma sizeofStackGrowReserved_correct_witness:
  "\<exists>R. sizeofStackGrowReserved demo_ratios demo_static demo_stack_mem 1000 = Some R \<and> 800 \<le> unat R"
  using sizeofStackGrowReserved_correct [OF demo_small_stack demo_stack(3), of demo_ratios]
  by (auto simp: demo_stack demo_ratios_def)

text \<open>C23: Shrinking a stack whose ratios of shrinking are at most one gives a reserve, still
  aligned, between the bytes in use and the old reserve. The current stack, if it has the slop
  that the mutator relies on, keeps it.\<close>

theorem sizeofStackShrinkReserved_correct:
  assumes "small_stack g m stk" "\<And>n. stackShrink ratios n \<le> unat n" "\<And>n. stackCurrentShrink ratios n \<le> unat n"
    "getStackTopFrameSize g m stk = Some fs" "unat (fs :: u16) \<le> unat (stack_used m stk)"
    "unat fs \<le> unat (sizeofStackSlop g)"
  shows "\<exists>R. sizeofStackShrinkReserved ratios g m stk current = Some R \<and> isStackReservedAligned g R \<and>
    stack_used m stk \<le> R \<and> R \<le> stack_reserved m stk \<and>
    (current \<and> unat (stack_used m stk) + unat (sizeofStackSlop g) \<le> unat (stack_reserved m stk) + unat fs \<longrightarrow>
      unat (stack_used m stk) + unat (sizeofStackSlop g) \<le> unat R + unat fs)"
proof -
  let ?u = "stack_used m stk" and ?r = "stack_reserved m stk"
  have a: "align_arg (alignment g)" "unat (alignment g) \<le> 2 ^ 12" and st: "?u \<le> ?r" "isStackReservedAligned g ?r" "unat ?r \<le> 2 ^ 62"
    using assms(1) by (auto simp: small_stack_def)
  have shrink: "\<exists>x. to_size n = Some x \<and> unat x \<le> 2 ^ 62" if "n \<le> unat ?r" for n
  proof -
    have "n \<le> 2 ^ 62" using that st(3) by (rule le_trans)
    then show ?thesis by (simp add: to_size_def unat_of_nat_small)
  qed
  obtain x where x: "to_size (stackShrink ratios ?r) = Some x" "unat x \<le> 2 ^ 62" using shrink [OF assms(2)] by auto
  obtain y where y: "to_size (stackCurrentShrink ratios ?r) = Some y" "unat y \<le> 2 ^ 62" using shrink [OF assms(3)] by auto
  obtain R where R: "sizeofStackMinimumReserved g m stk = Some R"
    "unat ?u + unat (sizeofStackSlop g) \<le> unat R + unat fs" "unat R \<le> 2 ^ 62 + 2 ^ 33 + 2 ^ 12"
    using minimum_reserved [OF assms(1,4,5)] by auto
  define mx where "mx = (if current then saturate (stackCurrentMaxReserved ratios ?u) else saturate (stackMaxReserved ratios ?u))"
  define sh where "sh = (if current then if ?r \<le> saturate (stackCurrentPermitReserved ratios ?u) then ?r else y else x)"
  define mn where "mn = (if current then R else ?u)"
  define n where "n = max (min mx sh) mn"
  have eq: "sizeofStackShrinkReserved ratios g m stk current = Some (min ?r (alignStackReserved g n))"
    by (simp add: sizeofStackShrinkReserved_def Let_def x(1) y(1) R(1) mx_def sh_def mn_def n_def)
  have u: "unat ?u \<le> 2 ^ 62" using st(1,3) by (simp add: word_le_nat_alt)
  have "unat mn \<le> 2 ^ 63" using R(3) u by (simp add: mn_def)
  moreover have "unat mx \<le> 2 ^ 62" unfolding mx_def using saturate_le by (simp split: if_split)
  then have "unat (min mx sh) \<le> 2 ^ 63" by (simp add: min_def word_le_nat_alt)
  ultimately have n: "unat n \<le> 2 ^ 63" by (simp add: n_def max_def)
  have mn_n: "mn \<le> n" unfolding n_def by (rule max.cobounded2)
  note al = alignStackReserved_spec [OF a n]
  have mn: "mn \<le> alignStackReserved g n" using mn_n al(2) by (rule order_trans)
  show ?thesis
  proof (cases "?r \<le> alignStackReserved g n")
    case True
    then show ?thesis using st by (simp add: eq min_def)
  next
    case False
    then have m: "min ?r (alignStackReserved g n) = alignStackReserved g n" by (simp add: min_def)
    have "unat ?u + unat (sizeofStackSlop g) \<le> unat (alignStackReserved g n) + unat fs" if current
      using mn R(2) that by (simp add: mn_def word_le_nat_alt)
    moreover have "?u \<le> alignStackReserved g n"
    proof (cases current)
      case True
      then show ?thesis using mn R(2) assms(6) by (simp add: mn_def word_le_nat_alt)
    qed (use mn in \<open>simp add: mn_def\<close>)
    ultimately show ?thesis using al(1) False by (simp add: eq m)
  qed
qed

lemma sizeofStackShrinkReserved_correct_witness:
  "\<exists>R. sizeofStackShrinkReserved demo_ratios demo_static demo_stack_mem 1000 True = Some R \<and> R \<le> 400 \<and> 296 \<le> unat R + 24"
  using sizeofStackShrinkReserved_correct [OF demo_small_stack _ _ demo_stack(3), of demo_ratios True]
  by (auto simp: demo_stack demo_ratios_def)

section \<open>Dangling stacks: lemmas\<close>

text \<open>Every thread field leads to the end of a path of forwarded objects, in objects apart from
  all thread fields of the list.\<close>

definition dangling_ok :: "mem \<Rightarrow> objptr list \<Rightarrow> bool" where
  "dangling_ok m l \<longleftrightarrow> sorted_wrt (\<lambda>j k. disjnt_regions (j + 32) 8 (k + 32) 8) l \<and>
    (\<forall>k\<in>set l. isObjptr (stack_thread m k) \<and> stack_thread m k \<noteq> 0 \<and>
      (\<exists>n r. fwd_path m n (stack_thread m k) r \<and> (\<forall>j\<in>set l. path_apart m (j + 32) n (stack_thread m k))))"

lemma path_store:
  "fwd_path m n op r \<Longrightarrow> path_apart m opp n op \<Longrightarrow> fwd_path (store64 m opp v) n op r"
  by (induction n arbitrary: op) (auto simp: forwarded_def getHeader_store_apart load64_store64_disjnt)

lemma path_apart_store:
  "path_apart m opp n op \<Longrightarrow> path_apart m opp' n op \<Longrightarrow> path_apart (store64 m opp v) opp' n op"
  by (induction n arbitrary: op) (auto simp: load64_store64_disjnt)

lemma fwd_path_unique: "fwd_path m n op r \<Longrightarrow> fwd_path m n' op r' \<Longrightarrow> r' = r"
  using fixFwd_val_loop_path [of m n op r] fixFwd_val_loop_path [of m n' op r'] by simp

lemma dangling_ok_step:
  assumes "dangling_ok m (op # ops)"
  shows "\<exists>n r. fwd_path m n (stack_thread m op) r \<and> fixFwdObjptr m B (op + 32) = Some (store64 m (op + 32) r) \<and>
    dangling_ok (store64 m (op + 32) r) ops \<and>
    (\<forall>k\<in>set ops. stack_thread (store64 m (op + 32) r) k = stack_thread m k \<and>
      (\<forall>n x. fwd_path (store64 m (op + 32) r) n (stack_thread m k) x \<longrightarrow> (\<exists>n. fwd_path m n (stack_thread m k) x)))"
proof -
  obtain n r where nr: "fwd_path m n (stack_thread m op) r" "path_apart m (op + 32) n (stack_thread m op)"
    using assms by (auto simp: dangling_ok_def)
  let ?m = "store64 m (op + 32) r"
  have fx: "fixFwdObjptr m B (op + 32) = Some ?m"
    using assms nr by (intro fixFwdObjptr_path [of m "op + 32" n r]) (auto simp: dangling_ok_def stack_thread_def)
  have same: "stack_thread ?m k = stack_thread m k" if "k \<in> set ops" for k
    using assms that by (simp add: dangling_ok_def stack_thread_def load64_store64_disjnt)
  have paths: "\<exists>n x. fwd_path m n (stack_thread m k) x \<and> fwd_path ?m n (stack_thread m k) x \<and>
      (\<forall>j\<in>set ops. path_apart ?m (j + 32) n (stack_thread m k))" if "k \<in> set ops" for k
  proof -
    obtain n x where "fwd_path m n (stack_thread m k) x" "\<forall>j\<in>set (op # ops). path_apart m (j + 32) n (stack_thread m k)"
      using assms \<open>k \<in> set ops\<close> by (auto simp: dangling_ok_def)
    then show ?thesis by (auto intro: path_store path_apart_store)
  qed
  have "dangling_ok ?m ops"
    unfolding dangling_ok_def
  proof (intro conjI ballI)
    show "sorted_wrt (\<lambda>j k. disjnt_regions (j + 32) 8 (k + 32) 8) ops" using assms by (simp add: dangling_ok_def)
  next
    fix k assume k: "k \<in> set ops"
    then show "isObjptr (stack_thread ?m k)" "stack_thread ?m k \<noteq> 0" using assms same by (auto simp: dangling_ok_def)
    show "\<exists>n r'. fwd_path ?m n (stack_thread ?m k) r' \<and> (\<forall>j\<in>set ops. path_apart ?m (j + 32) n (stack_thread ?m k))"
      using paths [OF k] same [OF k] by metis
  qed
  moreover have "\<exists>n. fwd_path m n (stack_thread m k) x" if "k \<in> set ops" "fwd_path ?m n' (stack_thread m k) x" for k n' x
    using paths [OF that(1)] that(2) fwd_path_unique by metis
  ultimately show ?thesis using nr(1) fx same by blast
qed

lemma refresh_loop_correct:
  "dangling_ok m l \<Longrightarrow> \<exists>l' m'. refresh_loop h l m = Some (l', m') \<and>
    l' = filter (\<lambda>k. \<not> isPointerInHeap h (stack_thread m' k)) l \<and>
    (\<forall>k\<in>set l. \<exists>n. fwd_path m n (stack_thread m k) (stack_thread m' k)) \<and>
    (\<forall>x. (\<forall>k\<in>set l. 8 \<le> off (k + 32) x) \<longrightarrow> m' x = m x)"
proof (induction l arbitrary: m)
  case (Cons op ops)
  obtain n r where s: "fwd_path m n (stack_thread m op) r" "fixFwdObjptr m (h_start h) (op + 32) = Some (store64 m (op + 32) r)"
    "dangling_ok (store64 m (op + 32) r) ops" "\<forall>k\<in>set ops. stack_thread (store64 m (op + 32) r) k = stack_thread m k"
    "\<And>k n x. k \<in> set ops \<Longrightarrow> fwd_path (store64 m (op + 32) r) n (stack_thread m k) x \<Longrightarrow> \<exists>n. fwd_path m n (stack_thread m k) x"
    using dangling_ok_step [OF Cons.prems] by metis
  let ?m = "store64 m (op + 32) r"
  obtain l' m' where i: "refresh_loop h ops ?m = Some (l', m')"
    "l' = filter (\<lambda>k. \<not> isPointerInHeap h (stack_thread m' k)) ops"
    "\<forall>k\<in>set ops. \<exists>n. fwd_path ?m n (stack_thread ?m k) (stack_thread m' k)"
    "\<forall>x. (\<forall>k\<in>set ops. 8 \<le> off (k + 32) x) \<longrightarrow> m' x = ?m x"
    using Cons.IH [OF s(3)] by blast
  have "stack_thread m' op = stack_thread ?m op"
    unfolding stack_thread_def
  proof (rule load64_cong)
    fix i :: nat assume "i < 8"
    then show "m' (op + 32 + of_nat i) = ?m (op + 32 + of_nat i)"
      using i(4) Cons.prems off_offset [of i 8 _ 8 "op + 32"] by (auto simp: dangling_ok_def disjnt_sym [of "op + 32"])
  qed
  then have op: "stack_thread m' op = r" by (simp add: stack_thread_def)
  have "refresh_loop h (op # ops) m = Some (if \<not> isPointerInHeap h r then op # l' else l', m')"
    by (simp add: s(2) i(1) stack_thread_def)
  moreover have "\<exists>n. fwd_path m n (stack_thread m k) (stack_thread m' k)" if "k \<in> set (op # ops)" for k
    using that s(1,4,5) i(3) op by (metis set_ConsD)
  moreover have "m' x = m x" if "\<forall>k\<in>set (op # ops). 8 \<le> off (k + 32) x" for x
    using i(4) that by (simp add: store64_other)
  ultimately show ?case using i(2) op by (intro exI conjI) auto
qed simp

text \<open>C19: Refreshing the list of dangling stacks ends, leaves in the thread field of every
  stack the thread at the end of its path of forwarded objects, and keeps exactly the
  stacks, in their order, whose thread is then outside the local heap. Nothing else changes.\<close>

theorem refreshDanglingStackList_correct:
  assumes "dangling_ok m (danglingStackList d)"
  shows "\<exists>m'. refreshDanglingStackList h d m =
      Some (d\<lparr>danglingStackList := filter (\<lambda>k. \<not> isPointerInHeap h (stack_thread m' k)) (danglingStackList d)\<rparr>, m') \<and>
    (\<forall>k\<in>set (danglingStackList d). \<exists>n. fwd_path m n (stack_thread m k) (stack_thread m' k)) \<and>
    (\<forall>x. (\<forall>k\<in>set (danglingStackList d). 8 \<le> off (k + 32) x) \<longrightarrow> m' x = m x)"
  using refresh_loop_correct [OF assms, of h] by (auto simp: refreshDanglingStackList_def)

text \<open>The thread of the stack at 6000 is forwarded from 1000 to 2000, that of 7000 is at 3000 in
  the local heap.\<close>

definition demo_dangling_mem :: mem where
  "demo_dangling_mem = store64 (store64 demo_fwd_mem 6032 1000) 7032 3000"

definition demo_dangling :: dangling where
  "demo_dangling = \<lparr> danglingStackList = [6000, 7000], danglingStackListMaxSize = 2 \<rparr>"

lemma demo_dangling_loads:
  "load64 demo_dangling_mem 6032 = 1000" "load64 demo_dangling_mem 7032 = 3000" "load64 demo_dangling_mem 992 = GC_FORWARDED"
  "load64 demo_dangling_mem 1000 = 2000" "load64 demo_dangling_mem 1992 = 0" "load64 demo_dangling_mem 2992 = 0"
  by (simp_all add: demo_dangling_mem_def demo_fwd_mem_def load64_store64_disjnt disjnt_regions_def demo_zero_load)

lemma demo_dangling_paths: "fwd_path demo_dangling_mem 1 1000 2000" "fwd_path demo_dangling_mem 0 3000 3000"
  by (simp_all add: forwarded_def getHeader_def getHeaderp_def GC_HEADER_SIZE_def isObjptr_eq demo_dangling_loads GC_FORWARDED_def)

lemma refreshDanglingStackList_correct_witness:
  "\<exists>m'. refreshDanglingStackList (demo_heap LOCAL_HEAP 2504 1000) demo_dangling demo_dangling_mem =
      Some (demo_dangling\<lparr>danglingStackList := [6000]\<rparr>, m') \<and> stack_thread m' 6000 = 2000"
proof -
  let ?h = "demo_heap LOCAL_HEAP 2504 1000"
  have "\<exists>n r. fwd_path demo_dangling_mem n 1000 r \<and>
      (\<forall>j\<in>set (danglingStackList demo_dangling). path_apart demo_dangling_mem (j + 32) n 1000)"
    using demo_dangling_paths(1)
    by (intro exI [of _ 1] exI [of _ 2000]) (simp add: demo_dangling_def demo_dangling_loads disjnt_regions_def)
  moreover have "\<exists>n r. fwd_path demo_dangling_mem n 3000 r \<and>
      (\<forall>j\<in>set (danglingStackList demo_dangling). path_apart demo_dangling_mem (j + 32) n 3000)"
    using demo_dangling_paths(2)
    by (intro exI [of _ 0] exI [of _ 3000]) (simp add: demo_dangling_def disjnt_regions_def)
  ultimately have "dangling_ok demo_dangling_mem (danglingStackList demo_dangling)"
    by (simp add: dangling_ok_def demo_dangling_def stack_thread_def demo_dangling_loads isObjptr_eq disjnt_regions_def)
  from refreshDanglingStackList_correct [OF this, of ?h] obtain m' where m':
    "refreshDanglingStackList ?h demo_dangling demo_dangling_mem = Some (demo_dangling\<lparr>danglingStackList :=
      filter (\<lambda>k. \<not> isPointerInHeap ?h (stack_thread m' k)) (danglingStackList demo_dangling)\<rparr>, m')"
    "\<exists>n. fwd_path demo_dangling_mem n 1000 (stack_thread m' 6000)"
    "\<exists>n. fwd_path demo_dangling_mem n 3000 (stack_thread m' 7000)"
    by (auto simp: demo_dangling_def stack_thread_def demo_dangling_loads)
  then have t: "stack_thread m' 6000 = 2000" "stack_thread m' 7000 = 3000"
    using demo_dangling_paths fwd_path_unique by blast+
  have "isPointer 2000" "isPointer 3000" by (simp_all add: isPointer_def GC_MODEL_MINALIGN_SHIFT_def GC_MODEL_OBJPTR_SHIFT_def mask_eq_exp_minus_1)
  then have "\<not> isPointerInHeap ?h 2000" "isPointerInHeap ?h 3000" by (simp_all add: isPointerInHeap_def demo_heap_def)
  then show ?thesis using m'(1) t by (auto simp: demo_dangling_def)
qed

end
