(* ===== verification/Threadlets.thy ===== *)
theory Threadlets
  imports Threads Stacks
begin

text \<open>
  Threadlets (\<open>gc/threadlet.c\<close>): parasites run on the stack of a host thread; their frames
  are copied or moved into a stack of their own and later put back on top of a host. An
  \<open>int\<close> offset is a 32-bit word that is sign-extended; a failed \<open>die\<close> is \<open>None\<close>.
\<close>

section \<open>gc/threadlet.c\<close>

definition GC_getFrameBottom :: "gc_static \<Rightarrow> machine \<Rightarrow> pointer option" where
  "GC_getFrameBottom g M =
    (let returnAddress = load64 (mm M) (stackTop M - GC_RETURNADDRESS_SIZE);
         findex = getFrameIndexFromReturnAddress g returnAddress in
     if unat findex < length (frameLayouts g)
     then Some (stackTop M - ucast (size (frameLayouts g ! unat findex))) else None)"

definition GC_getFrameBottomAsOffset :: "gc_static \<Rightarrow> machine \<Rightarrow> 32 word option" where
  "GC_getFrameBottomAsOffset g M = map_option (\<lambda>p. ucast (p - stackBottom M)) (GC_getFrameBottom g M)"

definition GC_getCopiedSize :: "machine \<Rightarrow> 32 word" where
  "GC_getCopiedSize M = copiedSize M"

definition GC_copyParasite :: "ensure_fun \<Rightarrow> gc_static \<Rightarrow> 32 word \<Rightarrow> machine \<Rightarrow> (pointer \<times> machine) option" where
  "GC_copyParasite ensure g startOffset M = do {
     let start = stackBottom M + scast startOffset;
     bottom \<leftarrow> GC_getFrameBottom g M;
     let M = save_thread g M;
     (th, M) \<leftarrow> newThread ensure g (bottom - start) M;
     let stk = objptrToPointer (load64 (mm M) (th + 16)) (base M);
     let m = (mm M)(stk + 40 := 1);
     let m = store64 m (th + 8) (exnStack M - scast startOffset);
     let M = M\<lparr>mm := m\<rparr>;
     let start = stackBottom M + scast startOffset;
     bottom \<leftarrow> GC_getFrameBottom g M;
     let numBytes = bottom - start;
     let m = store64 (mm M) (stk + 24) numBytes;
     Some (th, M\<lparr>copiedSize := ucast numBytes, mm := memcpy m (getStackBottom stk) start numBytes\<rparr>) }"

definition GC_jumpDown :: "machine \<Rightarrow> 32 word \<Rightarrow> machine" where
  "GC_jumpDown M offset = M\<lparr>stackTop := stackBottom M + scast offset, atomicState := atomicState M - 1\<rparr>"

definition GC_proceedToExtract :: "gc_static \<Rightarrow> machine \<Rightarrow> pointer \<Rightarrow> 32 word \<Rightarrow> bool" where
  "GC_proceedToExtract g M p startOffset \<longleftrightarrow>
    (let oriThrd = p + offsetofThread g;
         oriStk = objptrToPointer (load64 (mm M) (oriThrd + 16)) (base M);
         sz = sint (stack_used (mm M) oriStk - scast startOffset) in
     \<not> sz \<le> 0)"

definition GC_extractParasite ::
    "ensure_fun \<Rightarrow> gc_static \<Rightarrow> pointer \<Rightarrow> 32 word \<Rightarrow> machine \<Rightarrow> (pointer \<times> machine) option" where
  "GC_extractParasite ensure g p startOffset M = do {
     let oriThrd = p + offsetofThread g;
     let oriStk = objptrToPointer (load64 (mm M) (oriThrd + 16)) (base M);
     let sz = stack_used (mm M) oriStk - scast startOffset;
     let M = save_thread g M;
     let M = M\<lparr>savedThread := pointerToObjptr (oriThrd - offsetofThread g) (base M)\<rparr>;
     (th, M) \<leftarrow> newThread ensure g sz M;
     let oriThrd = objptrToPointer (savedThread M) (base M) + offsetofThread g;
     let M = M\<lparr>savedThread := BOGUS_OBJPTR\<rparr>;
     let stk = objptrToPointer (load64 (mm M) (th + 16)) (base M);
     let m = (mm M)(stk + 40 := 1);
     let oriStk = objptrToPointer (load64 m (oriThrd + 16)) (base M);
     let start = getStackBottom oriStk + scast startOffset;
     let numBytes = getStackBottom oriStk + stack_used m oriStk - start;
     let m = store64 m (stk + 24) numBytes;
     let m = memcpy m (getStackBottom stk) start numBytes;
     let m = store64 m (oriStk + 24) (scast startOffset);
     Some (th, M\<lparr>copiedSize := ucast numBytes, mm := m\<rparr>) }"

text \<open>The loop that grows the stack runs at most once: a second round breaks. It yields the
  parasite, which a collection may have moved.\<close>

definition prefix_room ::
    "stack_ratios \<Rightarrow> ensure_fun \<Rightarrow> gc_static \<Rightarrow> machine \<Rightarrow> pointer \<Rightarrow> machine \<times> pointer" where
  "prefix_room ratios ensure g M thrd =
    (let used = stack_used (mm M) (objptrToPointer (load64 (mm M) (thrd + 16)) (base M)) in
     if stackLimit M < stackTop M + used then
       (let reservedNew = alignStackReserved g (saturate (stackCurrentGrow ratios
              (stackTop M - stackBottom M + used + sizeofStackSlop g)));
            M = save_thread g M;
            (M, thread) = getThreadCurrent g M;
            M = M\<lparr>mm := store64 (mm M) thread 0,
                  savedThread := pointerToObjptr (thrd - offsetofThread g) (base M)\<rparr>;
            M = ensure True 0 reservedNew M in
        (M\<lparr>savedThread := BOGUS_OBJPTR\<rparr>, objptrToPointer (savedThread M) (base M) + offsetofThread g))
     else (M, thrd))"

definition GC_prefixAndSwitchTo ::
    "stack_ratios \<Rightarrow> ensure_fun \<Rightarrow> gc_static \<Rightarrow> machine \<Rightarrow> pointer \<Rightarrow> machine option" where
  "GC_prefixAndSwitchTo ratios ensure g M p = do {
     let (M, thrd) = prefix_room ratios ensure g M (p + offsetofThread g);
     let stk = objptrToPointer (load64 (mm M) (thrd + 16)) (base M);
     start \<leftarrow> GC_getFrameBottom g M;
     let m = memcpy (mm M) start (getStackBottom stk) (stack_used (mm M) stk);
     let M = M\<lparr>mm := m, stackTop := start + stack_used m stk\<rparr>;
     let (M, curThread) = getThreadCurrent g M;
     let e = (start - stackBottom M) + load64 (mm M) (thrd + 8);
     Some (M\<lparr>mm := store64 (mm M) (curThread + 8) e, exnStack := e, atomicState := atomicState M - 1\<rparr>) }"

section \<open>Extracting: lemmas\<close>

text \<open>What \<open>GC_extractParasite\<close> writes after the collection, with the frontier at \<open>f\<close> and the
  frames from offset \<open>i\<close> up of the stack at \<open>k\<close>, \<open>n\<close> bytes.\<close>

definition extract_mem :: "mem \<Rightarrow> pointer \<Rightarrow> pointer \<Rightarrow> size_t \<Rightarrow> size_t \<Rightarrow> mem" where
  "extract_mem m f k i n =
    store64 (memcpy (store64 ((new_thread_mem m f (unat n))(plus_at f 48 := 1)) (plus_at f 32) n)
      (plus_at f 56) (k + 48 + i) n) (k + 24) i"

lemma load64_outside:
  "disjnt_regions a 8 f N \<Longrightarrow> j + 8 \<le> N \<Longrightarrow> load64 (store64 m a v) (plus_at f j) = load64 m (plus_at f j)"
  using disjnt_sub [of a 8 f N 0 8 j 8] by (simp add: plus_at_def load64_store64_disjnt)

lemma load_bytes_outside:
  "disjnt_regions a 8 f N \<Longrightarrow> j + l \<le> N \<Longrightarrow> load_bytes (store64 m a v) (plus_at f j) l = load_bytes m (plus_at f j) l"
  by (rule load_bytes_region [of 8 a _ m f N _ j]) (auto simp: store64_other plus_at_def)

lemma extract_mem_loads:
  assumes "88 + unat n \<le> 2 ^ 64" "disjnt_regions f (88 + unat n) (k - 8) (56 + u)" "unat i + unat n \<le> u"
  shows "load64 (extract_mem m f k i n) (plus_at f 24) = n" "load64 (extract_mem m f k i n) (plus_at f 32) = n"
    "load64 (extract_mem m f k i n) (plus_at f 40) = plus_at f (64 + unat n)"
    "extract_mem m f k i n (plus_at f 48) = 1"
    "load64 (extract_mem m f k i n) (plus_at f (64 + unat n)) = 0"
    "load64 (extract_mem m f k i n) (plus_at f (72 + unat n)) = BOGUS_EXN_STACK"
    "load64 (extract_mem m f k i n) (plus_at f (80 + unat n)) = plus_at f 8"
    "load_bytes (extract_mem m f k i n) (plus_at f 56) (unat n) = load_bytes m (k + 48 + i) (unat n)"
    "load64 (extract_mem m f k i n) (k + 24) = i"
    "88 + unat n \<le> off f x \<Longrightarrow> 8 \<le> off (k + 24) x \<Longrightarrow> extract_mem m f k i n x = m x"
proof -
  have d: "disjnt_regions (k + 24) 8 f (88 + unat n)"
    using disjnt_sub [OF assms(2), of 0 "88 + unat n" 32 8] by (simp add: disjnt_sym [of f] add.commute)
  note l = load64_outside [OF d] load_bytes_outside [OF d]
  note at = load64_memcpy_at load64_store64_at load64_byte_at new_thread_mem_loads
  show "load64 (extract_mem m f k i n) (plus_at f 24) = n" "load64 (extract_mem m f k i n) (plus_at f 32) = n"
    "load64 (extract_mem m f k i n) (plus_at f 40) = plus_at f (64 + unat n)"
    "load64 (extract_mem m f k i n) (plus_at f (64 + unat n)) = 0"
    "load64 (extract_mem m f k i n) (plus_at f (72 + unat n)) = BOGUS_EXN_STACK"
    "load64 (extract_mem m f k i n) (plus_at f (80 + unat n)) = plus_at f 8"
    using assms(1) by (simp_all add: extract_mem_def l at del: fun_upd_apply)
  show "load64 (extract_mem m f k i n) (k + 24) = i" by (simp add: extract_mem_def)
  let ?b = "store64 ((new_thread_mem m f (unat n))(plus_at f 48 := 1)) (plus_at f 32) n"
  have b: "?b x = m x" if "88 + unat n \<le> off f x" for x
    using that by (simp add: store64_at_other byte_at_other new_thread_mem_other del: fun_upd_apply)
  have "load_bytes ?b (k + 48 + i) (unat n) = load_bytes m (k + 48 + i) (unat n)"
    by (rule load_bytes_region [OF b assms(2), where j = "56 + unat i"]) (use assms(3) in simp_all)
  then show "load_bytes (extract_mem m f k i n) (plus_at f 56) (unat n) = load_bytes m (k + 48 + i) (unat n)"
    by (simp add: extract_mem_def l load_bytes_memcpy)
  show "extract_mem m f k i n x = m x" if "88 + unat n \<le> off f x" "8 \<le> off (k + 24) x"
    using that b [OF that(1)] by (simp add: extract_mem_def store64_other memcpy_at_other)
  show "extract_mem m f k i n (plus_at f 48) = 1"
  proof -
    have "8 \<le> off (k + 24) (plus_at f 48)" using off_offset [OF _ d, of 48] by (simp add: plus_at_def)
    moreover have "unat n \<le> off (plus_at f 56) (plus_at f 48)"
    proof (cases "n = 0")
      case False
      then have "disjnt_regions (plus_at f 56) (unat n) (plus_at f 48) 1"
        using disjnt_offsets(2) [of 48 1 56 "unat n" f] assms(1) by (simp add: plus_at_def unat_gt_0)
      then show ?thesis by (simp add: disjnt_regions_def)
    qed simp
    moreover have "8 \<le> off (plus_at f 32) (plus_at f 48)" by (simp add: plus_at_def)
    ultimately show ?thesis by (simp add: extract_mem_def store64_other memcpy_other)
  qed
qed

text \<open>The state after the collection that \<open>newThread\<close> asks for: the thread at \<open>savedThread\<close> with
  its stack \<open>k\<close> still has the bytes in use, \<open>i\<close> below the frames to extract and \<open>n\<close> of
  those, and the free area of the nursery overlaps neither.\<close>

definition extract_ready :: "machine \<Rightarrow> pointer \<Rightarrow> size_t \<Rightarrow> size_t \<Rightarrow> bool" where
  "extract_ready M1 k i n \<longleftrightarrow> k = load64 (mm M1) (savedThread M1 + 16) \<and>
    unat (stack_used (mm M1) k) = unat i + unat n \<and> 88 + unat n \<le> 2 ^ 64 \<and>
    disjnt_regions (frontier (gcs M1)) (88 + unat n) (savedThread M1 - 8) 32 \<and>
    disjnt_regions (frontier (gcs M1)) (88 + unat n) (k - 8) (56 + unat (stack_used (mm M1) k))"

lemma GC_extractParasite_eq:
  assumes "align48 g" "i = scast startOffset" "n = stack_used (mm M) (load64 (mm M) (p + 16)) - i"
    "M1 = ensure False (sizeofStackWithHeader (alignStackReserved g n) + 32) 0 ((save_thread g M)\<lparr>savedThread := p\<rparr>)"
    "extract_ready M1 k i n" "f = frontier (gcs M1)"
  shows "GC_extractParasite ensure g p startOffset M = Some (plus_at f (64 + unat n),
    M1\<lparr>gcs := gcs M1\<lparr>frontier := plus_at f (88 + unat n)\<rparr>, savedThread := BOGUS_OBJPTR,
      copiedSize := ucast n, mm := extract_mem (mm M1) f k i n\<rparr>)"
proof -
  let ?m = "new_thread_mem (mm M1) f (unat n)" and ?t = "savedThread M1"
  let ?b = "?m(plus_at f 48 := 1)"
  have r: "k = load64 (mm M1) (?t + 16)" "unat (stack_used (mm M1) k) = unat i + unat n" "88 + unat n \<le> 2 ^ 64"
    "disjnt_regions f (88 + unat n) (?t - 8) 32" "disjnt_regions f (88 + unat n) (k - 8) (56 + unat (stack_used (mm M1) k))"
    using assms(5) unfolding extract_ready_def assms(6) by blast+
  have b: "?b x = mm M1 x" if "88 + unat n \<le> off f x" for x
    using that by (simp add: byte_at_other new_thread_mem_other del: fun_upd_apply)
  have t: "load64 ?b (?t + 16) = k"
    unfolding r(1) by (rule load64_region [OF b r(4), where j = 24]) simp_all
  have u: "stack_used ?b k = stack_used (mm M1) k"
    unfolding stack_used_def by (rule load64_region [OF b r(5), where j = 32]) simp_all
  have stk: "load64 ?m (plus_at f (64 + unat n) + 16) = plus_at f 8"
    using new_thread_mem_loads(8) [OF r(3), of "mm M1" f] by (simp add: plus_at_def algebra_simps)
  have used: "stack_used (mm M1) k = i + n"
    using r(2) unat_add_lem [of i n] unsigned_less [of "stack_used (mm M1) k", where ?'a = nat]
    by (simp add: word_unat_eq_iff)
  have at: "plus_at f 8 + 40 = plus_at f 48" "plus_at f 8 + 24 = plus_at f 32" "getStackBottom (plus_at f 8) = plus_at f 56"
    by (simp_all add: plus_at_def getStackBottom_def sizeof_GC_stack_def)
  have "newThread ensure g n ((save_thread g M)\<lparr>savedThread := p\<rparr>) =
      Some (plus_at f (64 + unat n), M1\<lparr>gcs := gcs M1\<lparr>frontier := plus_at f (88 + unat n)\<rparr>, mm := ?m\<rparr>)"
    using assms(1) by (simp add: newThread_def Let_def newThread_objects_eq assms(4) [symmetric] assms(6) [symmetric])
  then show ?thesis
    using assms(1) t u stk
    by (simp add: GC_extractParasite_def Let_def assms(2) [symmetric] assms(3) [symmetric] at used extract_mem_def del: fun_upd_apply)
      (simp add: getStackBottom_def sizeof_GC_stack_def)
qed

lemma GC_extractParasite_frames:
  assumes "align48 g" "i = scast startOffset" "n = stack_used (mm M) (load64 (mm M) (p + 16)) - i"
    "M1 = ensure False (sizeofStackWithHeader (alignStackReserved g n) + 32) 0 ((save_thread g M)\<lparr>savedThread := p\<rparr>)"
    "extract_ready M1 k i n" "f = frontier (gcs M1)"
  shows "\<exists>th k' M'. GC_extractParasite ensure g p startOffset M = Some (th, M') \<and> k' = load64 (mm M') (th + 16) \<and>
    stack_frames (mm M') k' = drop (unat i) (stack_frames (mm M1) k) \<and>
    stack_frames (mm M') k = take (unat i) (stack_frames (mm M1) k) \<and>
    stack_reserved (mm M') k' = n \<and> stack_thread (mm M') k' = th \<and> mm M' (k' + 40) = 1 \<and>
    load64 (mm M') (th + 8) = BOGUS_EXN_STACK \<and> savedThread M' = BOGUS_OBJPTR \<and>
    (\<forall>x. 88 + unat n \<le> off f x \<and> 8 \<le> off (k + 24) x \<longrightarrow> mm M' x = mm M1 x)"
proof -
  let ?m = "extract_mem (mm M1) f k i n" and ?th = "plus_at f (64 + unat n)" and ?u = "unat (stack_used (mm M1) k)"
  have r: "?u = unat i + unat n" "88 + unat n \<le> 2 ^ 64" "disjnt_regions f (88 + unat n) (k - 8) (56 + ?u)"
    using assms(5) unfolding extract_ready_def assms(6) by blast+
  note l = extract_mem_loads [OF r(2,3), of i, folded r(1), OF order_refl]
  have at: "?th + 16 = plus_at f (80 + unat n)" "?th + 8 = plus_at f (72 + unat n)" "plus_at f 8 + 48 = plus_at f 56"
    "plus_at f 8 + 16 = plus_at f 24" "plus_at f 8 + 24 = plus_at f 32" "plus_at f 8 + 32 = plus_at f 40"
    "plus_at f 8 + 40 = plus_at f 48"
    by (simp_all add: plus_at_def algebra_simps)
  have "load_bytes ?m (k + 48) (unat i) = load_bytes (mm M1) (k + 48) (unat i)"
  proof (rule load_bytes_cong)
    fix j assume j: "j < unat i"
    have "88 + unat n \<le> off f (k - 8 + of_nat (56 + j))" by (rule off_offset [OF _ r(3)]) (use r(1) j in simp)
    moreover have "56 + ?u \<le> off (k - 8) f" using r(3) by (simp add: disjnt_regions_def)
    then have "24 + j < 2 ^ 64" using j r(1) unsigned_less [of "f - (k - 8)", where ?'a = nat] by simp
    then have "unat (of_nat (24 + j) :: u64) = 24 + j" by (rule unat_of_nat_small)
    then have "8 \<le> off (k + 24) (k + 48 + of_nat j)" by (simp add: algebra_simps)
    ultimately show "?m (k + 48 + of_nat j) = mm M1 (k + 48 + of_nat j)"
      using l(10) [of "k + 48 + of_nat j"] by (simp add: algebra_simps)
  qed
  then have low: "stack_frames ?m k = take (unat i) (stack_frames (mm M1) k)"
    using l(9) by (simp add: stack_frames_def stack_used_def load_bytes_take r(1) [unfolded stack_used_def])
  have high: "load_bytes (mm M1) (k + 48 + i) (unat n) = drop (unat i) (stack_frames (mm M1) k)"
    by (simp add: stack_frames_def load_bytes_drop r(1))
  show ?thesis
    by (rule exI [of _ ?th], rule exI [of _ "plus_at f 8"], rule exI, intro conjI, rule GC_extractParasite_eq [where ensure = ensure and M = M, OF assms])
      (use l low high in \<open>simp_all add: at stack_frames_def [of _ "plus_at f 8"] stack_reserved_def stack_used_def stack_thread_def\<close>)
qed

section \<open>Prefixing\<close>

text \<open>With room for the parasite's frames: \<open>n\<close> bytes of the stack \<open>k\<close> of \<open>thrd\<close>, which do not
  overlap the place of the host's topmost frame where they go, nor does the host's thread.\<close>

definition prefix_ready :: "gc_static \<Rightarrow> machine \<Rightarrow> pointer \<Rightarrow> pointer \<Rightarrow> pointer \<Rightarrow> bool" where
  "prefix_ready g M thrd k start \<longleftrightarrow> k = load64 (mm M) (thrd + 16) \<and> GC_getFrameBottom g M = Some start \<and>
    load64 (mm M) (currentThread M - 8) \<noteq> GC_FORWARDED \<and>
    disjnt_regions start (unat (stack_used (mm M) k)) (k - 8) (56 + unat (stack_used (mm M) k)) \<and>
    disjnt_regions start (unat (stack_used (mm M) k)) (thrd - 8) 32 \<and>
    disjnt_regions start (unat (stack_used (mm M) k)) (currentThread M - 8) 32"

lemma GC_prefixAndSwitchTo_eq:
  assumes "align48 g" "prefix_room ratios ensure g M p = (M1, thrd)" "prefix_ready g M1 thrd k start"
    "n = stack_used (mm M1) k" "e = start - stackBottom M1 + load64 (mm M1) (thrd + 8)"
  shows "\<exists>M'. GC_prefixAndSwitchTo ratios ensure g M p = Some M' \<and>
    load_bytes (mm M') start (unat n) = stack_frames (mm M1) k \<and> stackTop M' = start + n \<and>
    exnStack M' = e \<and> load64 (mm M') (currentThread M' + 8) = e \<and> currentThread M' = currentThread M1 \<and>
    stackBottom M' = stackBottom M1 \<and> atomicState M' = atomicState M1 - 1 \<and>
    (\<forall>x. unat n \<le> off start x \<and> 8 \<le> off (currentThread M1 + 8) x \<longrightarrow> mm M' x = mm M1 x)"
proof -
  have r: "k = load64 (mm M1) (thrd + 16)" "GC_getFrameBottom g M1 = Some start"
    "load64 (mm M1) (currentThread M1 - 8) \<noteq> GC_FORWARDED" "disjnt_regions start (unat n) (k - 8) (56 + unat n)"
    "disjnt_regions start (unat n) (thrd - 8) 32" "disjnt_regions start (unat n) (currentThread M1 - 8) 32"
    using assms(3) unfolding prefix_ready_def assms(4) by blast+
  let ?m = "memcpy (mm M1) start (k + 48) n" and ?c = "currentThread M1"
  note keep = memcpy_other [of n _ start "mm M1" "k + 48"]
  have "load64 ?m (thrd + 8) = load64 (mm M1) (thrd + 8)" "load64 ?m (?c - 8) = load64 (mm M1) (?c - 8)"
    "stack_used ?m k = n"
    unfolding assms(4) stack_used_def
    using load64_region [OF keep r(5), where a = "thrd + 8" and j = 16] load64_region [OF keep r(6), where a = "?c - 8" and j = 0]
      load64_region [OF keep r(4), where a = "k + 24" and j = 32] by (simp_all add: assms(4) stack_used_def)
  then have pre: "GC_prefixAndSwitchTo ratios ensure g M p = Some (M1\<lparr>mm := store64 ?m (?c + 8) e, stackTop := start + n,
      exnStack := e, atomicState := atomicState M1 - 1\<rparr>)"
    using assms(1,2,5) r(2,3)
    by (simp add: r(1) [symmetric] GC_prefixAndSwitchTo_def Let_def current_eqs getStackBottom_def sizeof_GC_stack_def assms(4) [symmetric])
  have frames: "load_bytes (store64 ?m (?c + 8) e) start (unat n) = load_bytes ?m start (unat n)"
  proof (cases "n = 0")
    case False
    then have "disjnt_regions (?c + 8) 8 start (unat n)"
      using disjnt_sub [OF r(6), of 0 "unat n" 16 8] by (simp add: disjnt_sym unat_gt_0 add.commute)
    then show ?thesis by (intro load_bytes_frame [of 8 "?c + 8"] store64_other)
  qed (simp add: load_bytes_def)
  have others: "store64 ?m (?c + 8) e x = mm M1 x" if "unat n \<le> off start x" "8 \<le> off (?c + 8) x" for x
    using that by (simp add: store64_other keep)
  show ?thesis
    by (intro exI conjI, rule pre)
      (use frames others in \<open>simp_all add: load_bytes_memcpy stack_frames_def assms(4) [symmetric]\<close>)
qed

section \<open>Properties\<close>

text \<open>C17: Extracting a parasite splits the frames of the thread's stack: those from the offset
  up go, in order, to a stack of their own that is marked parasitic, those below stay. Neither the
  place of the thread before the collection nor the old frames above the offset matter, and
  nothing else changes. The new thread's exception stack is left bogus.\<close>

theorem GC_extractParasite_correct:
  assumes "align48 g" "i = scast startOffset" "n = stack_used (mm M) (load64 (mm M) (p + 16)) - i"
    "M1 = ensure False (sizeofStackWithHeader (alignStackReserved g n) + 32) 0 ((save_thread g M)\<lparr>savedThread := p\<rparr>)"
    "extract_ready M1 k i n" "f = frontier (gcs M1)"
  shows "\<exists>th k' M'. GC_extractParasite ensure g p startOffset M = Some (th, M') \<and> k' = load64 (mm M') (th + 16) \<and>
    stack_frames (mm M') k' = drop (unat i) (stack_frames (mm M1) k) \<and>
    stack_frames (mm M') k = take (unat i) (stack_frames (mm M1) k) \<and>
    stack_reserved (mm M') k' = n \<and> stack_thread (mm M') k' = th \<and> mm M' (k' + 40) = 1 \<and>
    load64 (mm M') (th + 8) = BOGUS_EXN_STACK \<and> savedThread M' = BOGUS_OBJPTR \<and>
    (\<forall>x. 88 + unat n \<le> off f x \<and> 8 \<le> off (k + 24) x \<longrightarrow> mm M' x = mm M1 x)"
  by (rule GC_extractParasite_frames [where ensure = ensure and M = M, OF assms])

lemma demo_frame_bottom: "GC_getFrameBottom demo_static demo_machine = Some 2056"
  by (simp add: GC_getFrameBottom_def Let_def demo_machine_fields getFrameIndexFromReturnAddress_def demo_static_def)

lemma GC_extractParasite_correct_witness:
  "\<exists>th k' M'. GC_extractParasite (\<lambda>_ _ _ M. M) demo_static 3000 16 demo_machine = Some (th, M') \<and>
    k' = load64 (mm M') (th + 16) \<and> stack_reserved (mm M') k' = 24 \<and> load64 (mm M') (th + 8) = BOGUS_EXN_STACK"
proof -
  let ?S = "save_thread demo_static demo_machine" and ?m = "store64 (store64 demo_thread_mem 2024 32) 1008 16"
  have l: "load64 ?m 3016 = 4000" "load64 ?m 4024 = 40"
    by (simp_all add: load64_store64_disjnt disjnt_regions_def demo_thread_loads)
  have "mm ?S = ?m" "gcs ?S = demo_state" by (simp_all add: demo_saved demo_machine_fields)
  then have "extract_ready (?S\<lparr>savedThread := 3000\<rparr>) 4000 16 24"
    by (simp add: extract_ready_def l stack_used_def disjnt_regions_def demo_state_def)
  moreover have "(24 :: size_t) = stack_used (mm demo_machine) (load64 (mm demo_machine) (3000 + 16)) - 16"
    by (simp add: stack_used_def demo_machine_fields demo_thread_loads)
  ultimately show ?thesis
    using GC_extractParasite_correct [OF demo_align48, of 16 16 24 demo_machine 3000 _ "\<lambda>_ _ _ M. M" 4000, OF _ _ refl _ refl]
    by auto
qed

text \<open>C18: \<open>GC_prefixAndSwitchTo\<close> puts the frames of the parasite in the place of the topmost
  frame of the current stack and makes their end the top; the exception stack is the parasite's,
  relative to where its frames now begin. The frames of the host below that, and all else
  but the exception stack of the current thread, stay, and \<open>atomicState\<close> is lowered. That
  holds wherever a collection that grew the stack left the parasite.\<close>

theorem GC_prefixAndSwitchTo_correct:
  assumes "align48 g" "prefix_room ratios ensure g M p = (M1, thrd)" "prefix_ready g M1 thrd k start"
    "n = stack_used (mm M1) k" "e = start - stackBottom M1 + load64 (mm M1) (thrd + 8)"
  shows "\<exists>M'. GC_prefixAndSwitchTo ratios ensure g M p = Some M' \<and>
    load_bytes (mm M') start (unat n) = stack_frames (mm M1) k \<and> stackTop M' = start + n \<and>
    exnStack M' = e \<and> load64 (mm M') (currentThread M' + 8) = e \<and> currentThread M' = currentThread M1 \<and>
    stackBottom M' = stackBottom M1 \<and> atomicState M' = atomicState M1 - 1 \<and>
    (\<forall>x. unat n \<le> off start x \<and> 8 \<le> off (currentThread M1 + 8) x \<longrightarrow> mm M' x = mm M1 x)"
  by (rule GC_prefixAndSwitchTo_eq [OF assms])

lemma GC_prefixAndSwitchTo_correct_witness:
  "\<exists>M'. GC_prefixAndSwitchTo demo_ratios (\<lambda>_ _ _ M. M) demo_static demo_machine 3000 = Some M' \<and>
    load_bytes (mm M') 2056 40 = stack_frames demo_thread_mem 4000 \<and> stackTop M' = 2096 \<and> exnStack M' = 32"
proof -
  have room: "prefix_room demo_ratios (\<lambda>_ _ _ M. M) demo_static demo_machine 3000 = (demo_machine, 3000)"
    by (simp add: prefix_room_def demo_machine_fields demo_thread_loads stack_used_def)
  have ready: "prefix_ready demo_static demo_machine 3000 4000 2056"
    by (simp add: prefix_ready_def demo_frame_bottom demo_machine_fields demo_thread_loads stack_used_def disjnt_regions_def
        GC_FORWARDED_def)
  from GC_prefixAndSwitchTo_correct [OF demo_align48 room ready refl refl]
  show ?thesis by (auto simp: demo_machine_fields demo_thread_loads stack_used_def)
qed

section \<open>From one stack to another\<close>

text \<open>The threads \<open>p\<close> with stack \<open>k\<close> and the current one with stack \<open>h\<close>, the free area of the
  nursery, the word of the return address on top of the current stack and the place of the
  topmost frame, in which the \<open>n\<close> bytes of frames fit.\<close>

definition transfer_regions :: "machine \<Rightarrow> pointer \<Rightarrow> pointer \<Rightarrow> size_t \<Rightarrow> (pointer \<times> nat) list" where
  "transfer_regions M p start n =
    (let k = load64 (mm M) (p + 16) in
     [(frontier (gcs M), 88 + unat n), (p - 8, 32), (k - 8, 56 + unat (stack_used (mm M) k)),
      (currentThread M - 8, 32), (cur_stack M - 8, 56)])"

definition transfer_ok :: "gc_static \<Rightarrow> machine \<Rightarrow> pointer \<Rightarrow> size_t \<Rightarrow> pointer \<Rightarrow> bool" where
  "transfer_ok g M p i start \<longleftrightarrow>
    (let k = load64 (mm M) (p + 16); u = stack_used (mm M) k; n = u - i; rs = transfer_regions M p start n in
     load64 (mm M) (currentThread M - 8) \<noteq> GC_FORWARDED \<and> GC_getFrameBottom g M = Some start \<and> i \<le> u \<and>
     88 + unat n \<le> 2 ^ 64 \<and> \<not> stackLimit M < stackTop M + n \<and> apart_regions rs \<and>
     (\<forall>(a, l)\<in>set rs. disjnt_regions (stackTop M - 8) 8 a l \<and> disjnt_regions start (unat n) a l))"

lemma disjnt_part:
  assumes "disjnt_regions a n b k" "j + l \<le> k" "0 < l" "c = b + of_nat j"
  shows "disjnt_regions a n c l"
proof -
  have "off a (b + of_nat j) = off a b + j" using assms by (intro off_shift [of j k]) auto
  moreover have "off (b + of_nat j) a = off b a - j"
    using assms(1,2) by (intro off_plus) (auto simp: disjnt_regions_def)
  ultimately show ?thesis using assms by (auto simp: disjnt_regions_def)
qed

text \<open>Writing a field of one object leaves the bytes of another alone.\<close>

lemma load_bytes_store_region:
  assumes "disjnt_regions a n b k" "i + 8 \<le> n" "w = a + of_nat i" "x = b + of_nat j" "j + l \<le> k"
  shows "load_bytes (store64 m w v) x l = load_bytes m x l"
proof (cases "l = 0")
  case False
  then have "disjnt_regions (a + of_nat i) 8 (b + of_nat j) l" using assms by (intro disjnt_sub) auto
  then show ?thesis unfolding assms(3,4) by (intro load_bytes_frame [of 8 "a + of_nat i"] store64_other)
qed (simp add: load_bytes_def)

lemma save_thread_other:
  assumes "align48 g" "thread_ok M" "disjnt_regions (currentThread M - 8) 32 a l" "disjnt_regions (cur_stack M - 8) 56 a l"
    "b = a + of_nat j" "j + l' \<le> l"
  shows "load_bytes (mm (save_thread g M)) b l' = load_bytes (mm M) b l'"
  using load_bytes_store_region [OF assms(3), of 16 "currentThread M + 8" b j l'] assms(5,6)
    load_bytes_store_region [OF assms(4), of 32 "cur_stack M + 24" b j l']
  by (simp add: save_thread_eq [OF assms(1,2)])

lemma save_thread_fields [simp]:
  assumes "align48 g" "thread_ok M"
  shows "gcs (save_thread g M) = gcs M" "currentThread (save_thread g M) = currentThread M"
    "stackTop (save_thread g M) = stackTop M" "stackBottom (save_thread g M) = stackBottom M"
    "stackLimit (save_thread g M) = stackLimit M"
  by (simp_all add: save_thread_eq [OF assms])

lemma save_thread_header:
  assumes "align48 g" "thread_ok M"
  shows "load64 (mm (save_thread g M)) (currentThread M - 8) = load64 (mm M) (currentThread M - 8)"
proof -
  let ?c = "plus_at (currentThread M - 8)" and ?h = "plus_at (cur_stack M - 8)"
  have "disjnt_regions (currentThread M - 8) 32 (cur_stack M - 8) 56" using assms(2) by (simp add: thread_ok_def)
  then have "load64 (store64 (store64 (mm M) (?h 32) u) (?c 16) v) (?c 0) = load64 (mm M) (?c 0)" for u v
    by (simp add: object_loads)
  moreover have "?h 32 = cur_stack M + 24" "?c 16 = currentThread M + 8" "?c 0 = currentThread M - 8"
    by (simp_all add: plus_at_def)
  ultimately show ?thesis by (simp add: save_thread_eq [OF assms])
qed

lemma extract_mem_region:
  assumes "88 + unat n \<le> 2 ^ 64" "disjnt_regions f (88 + unat n) (k - 8) (56 + u)" "unat i + unat n \<le> u"
    "disjnt_regions f (88 + unat n) a l" "disjnt_regions (k - 8) (56 + u) a l" "b = a + of_nat j" "j + l' \<le> l"
  shows "load_bytes (extract_mem m f k i n) b l' = load_bytes m b l'"
proof (rule load_bytes_cong)
  fix x assume x: "x < l'"
  have b: "b + of_nat x = a + of_nat (j + x)" by (simp add: assms(6))
  have "88 + unat n \<le> off f (b + of_nat x)" unfolding b by (rule off_offset [OF _ assms(4)]) (use x assms(7) in simp)
  moreover have k: "56 + u \<le> off (k - 8) (b + of_nat x)" unfolding b by (rule off_offset [OF _ assms(5)]) (use x assms(7) in simp)
  then have "off (k - 8 + of_nat 32) (b + of_nat x) = off (k - 8) (b + of_nat x) - 32" by (intro off_plus) simp
  then have "8 \<le> off (k + 24) (b + of_nat x)" using k by (simp add: add.commute)
  ultimately show "extract_mem m f k i n (b + of_nat x) = m (b + of_nat x)"
    using extract_mem_loads(10) [OF assms(1-3)] by simp
qed

text \<open>The state in which a parasite has been extracted, while its new host runs.\<close>

lemma transfer_extract:
  assumes "align48 g" "transfer_ok g M p i start" "i = scast startOffset" "\<And>b n r M. ensure b n r M = M"
    "k = load64 (mm M) (p + 16)" "n = stack_used (mm M) k - i"
  shows "\<exists>th k' M1. GC_extractParasite ensure g p startOffset M = Some (th, M1) \<and>
    stack_frames (mm M1) k' = drop (unat i) (stack_frames (mm M) k) \<and> stack_used (mm M1) k' = n \<and>
    stack_frames (mm M1) k = take (unat i) (stack_frames (mm M) k) \<and> stack_used (mm M1) k = i \<and>
    prefix_room ratios ensure g M1 th = (M1, th) \<and> prefix_ready g M1 th k' start \<and> currentThread M1 = currentThread M"
proof -
  let ?c = "currentThread M" and ?h = "cur_stack M" and ?f = "frontier (gcs M)" and ?u = "stack_used (mm M) k"
  have ok: "load64 (mm M) (?c - 8) \<noteq> GC_FORWARDED" "GC_getFrameBottom g M = Some start" "i \<le> ?u" "88 + unat n \<le> 2 ^ 64"
    "\<not> stackLimit M < stackTop M + n"
    using assms(2) by (simp_all add: transfer_ok_def Let_def assms(5,6))
  have d: "disjnt_regions ?f (88 + unat n) (p - 8) 32" "disjnt_regions ?f (88 + unat n) (k - 8) (56 + unat ?u)"
    "disjnt_regions ?f (88 + unat n) (?c - 8) 32" "disjnt_regions (?c - 8) 32 (p - 8) 32" "disjnt_regions (?h - 8) 56 (p - 8) 32"
    "disjnt_regions (?c - 8) 32 (k - 8) (56 + unat ?u)" "disjnt_regions (?h - 8) 56 (k - 8) (56 + unat ?u)"
    "disjnt_regions (?c - 8) 32 (?h - 8) 56"
    using assms(2) by (simp_all add: transfer_ok_def transfer_regions_def Let_def apart_regions_def assms(5,6) disjnt_sym)
  have w: "disjnt_regions (stackTop M - 8) 8 ?f (88 + unat n)" "disjnt_regions (stackTop M - 8) 8 (k - 8) (56 + unat ?u)"
    "disjnt_regions (stackTop M - 8) 8 (?c - 8) 32" "disjnt_regions (stackTop M - 8) 8 (?h - 8) 56"
    "disjnt_regions start (unat n) ?f (88 + unat n)" "disjnt_regions start (unat n) (?c - 8) 32"
    using assms(2) by (simp_all add: transfer_ok_def transfer_regions_def Let_def assms(5,6))
  have thr: "thread_ok M" using ok(1) d(8) by (simp add: thread_ok_def)
  note sv = save_thread_other [OF assms(1) thr]
  define M0 where "M0 = (save_thread g M)\<lparr>savedThread := p\<rparr>"
  have used0: "stack_used (mm M0) k = ?u"
    using sv [OF d(6,7), of "k + 24" 32 8] by (simp add: M0_def stack_used_def load64_def)
  have frames0: "stack_frames (mm M0) k = stack_frames (mm M) k"
    using sv [OF d(6,7), of "k + 48" 56 "unat ?u"] used0 by (simp add: M0_def stack_frames_def)
  have p0: "load64 (mm M0) (p + 16) = k"
    using sv [OF d(4,5), of "p + 16" 24 8] by (simp add: M0_def assms(5) load64_def)
  have top0: "load64 (mm M0) (stackTop M - 8) = load64 (mm M) (stackTop M - 8)"
    using sv [of "stackTop M - 8" 8 "stackTop M - 8" 0 8] w(3,4) by (simp add: M0_def load64_def disjnt_sym)
  have hdr0: "load64 (mm M0) (?c - 8) = load64 (mm M) (?c - 8)"
    using save_thread_header [OF assms(1) thr] by (simp add: M0_def)
  have fields0: "gcs M0 = gcs M" "savedThread M0 = p" "stackTop M0 = stackTop M" "stackLimit M0 = stackLimit M" "currentThread M0 = ?c"
    by (simp_all add: M0_def save_thread_fields [OF assms(1) thr])
  have un: "unat ?u = unat i + unat n" using ok(3) by (simp add: assms(6) unat_sub word_le_nat_alt)
  have ready: "extract_ready M0 k i n"
    unfolding extract_ready_def using d(1,2) ok(4) by (simp add: fields0 p0 used0 un [symmetric])
  have M0: "M0 = ensure False (sizeofStackWithHeader (alignStackReserved g n) + 32) 0 ((save_thread g M)\<lparr>savedThread := p\<rparr>)"
    by (simp add: assms(4) M0_def)
  have n: "n = stack_used (mm M) (load64 (mm M) (p + 16)) - i" by (simp add: assms(5,6))
  let ?th = "plus_at ?f (64 + unat n)" and ?k = "plus_at ?f 8" and ?m = "extract_mem (mm M0) ?f k i n"
  define M1 where "M1 = M0\<lparr>gcs := gcs M0\<lparr>frontier := plus_at ?f (88 + unat n)\<rparr>, savedThread := BOGUS_OBJPTR,
      copiedSize := ucast n, mm := ?m\<rparr>"
  note ex = GC_extractParasite_eq [where ensure = ensure and M = M, OF assms(1,3) n M0 ready refl, unfolded fields0(1), folded M1_def]
  obtain k' where fr: "k' = load64 ?m (?th + 16)" "stack_frames ?m k' = drop (unat i) (stack_frames (mm M) k)"
    "stack_frames ?m k = take (unat i) (stack_frames (mm M) k)"
    using GC_extractParasite_frames [where ensure = ensure and M = M, OF assms(1,3) n M0 ready refl] frames0
    unfolding ex by (auto simp: M1_def)
  note l = extract_mem_loads [OF ok(4) d(2), of i, unfolded un, OF order_refl, where m = "mm M0", folded un]
  have th: "?th + 16 = plus_at ?f (80 + unat n)" "?k - 8 = ?f" "?th - 8 = ?f + of_nat (56 + unat n)" "?k + 24 = plus_at ?f 32"
    by (simp_all add: plus_at_def algebra_simps)
  then have k': "k' = ?k" using fr(1) l(7) by simp
  then have used1: "stack_used ?m k' = n" "stack_used ?m k = i" using l(2,9) th by (simp_all add: stack_used_def)
  note reg = extract_mem_region [OF ok(4) d(2) eq_refl [OF un [symmetric]], where m = "mm M0"]
  have hdr1: "load64 ?m (?c - 8) = load64 (mm M) (?c - 8)"
    using reg [where a = "?c - 8" and l = 32 and b = "?c - 8" and j = 0 and l' = 8] d(3,6) hdr0 by (simp add: load64_def disjnt_sym [of "k - 8"])
  have top1: "load64 ?m (stackTop M - 8) = load64 (mm M) (stackTop M - 8)"
    using reg [where a = "stackTop M - 8" and l = 8 and b = "stackTop M - 8" and j = 0 and l' = 8] w(1,2) top0 by (simp add: load64_def disjnt_sym)
  have fields1: "mm M1 = ?m" "stackTop M1 = stackTop M" "stackLimit M1 = stackLimit M" "currentThread M1 = ?c"
    by (simp_all add: M1_def fields0)
  have room: "prefix_room ratios ensure g M1 ?th = (M1, ?th)"
    using ok(5) fr(1) used1(1) by (simp add: prefix_room_def fields1)
  have bottom: "GC_getFrameBottom g M1 = Some start"
    using ok(2) unfolding GC_getFrameBottom_def fields1 GC_RETURNADDRESS_SIZE_def top1 .
  have "disjnt_regions start (unat n) (k' - 8) (56 + unat n)" "disjnt_regions start (unat n) (?th - 8) 32"
    unfolding k' th(2,3)
    using disjnt_part [OF w(5), of 0 "56 + unat n" ?f] disjnt_part [OF w(5), of "56 + unat n" 32] by simp_all
  then have pr: "prefix_ready g M1 ?th k' start"
    unfolding prefix_ready_def fields1 using fr(1) bottom hdr1 ok(1) used1(1) w(6) by simp
  have "GC_extractParasite ensure g p startOffset M = Some (?th, M1)" using ex by (simp add: M1_def fields0)
  then show ?thesis
    using fr(2,3) used1 room pr fields1 by (intro exI [of _ ?th] exI [of _ k'] exI [of _ M1]) simp
qed

text \<open>C15: A parasite moves from one stack to another whole: extracting the frames above an
  offset and prefixing them to the current thread, without a collection in between, leaves
  them in their order on top of the current stack and the frames below the offset on the old one.\<close>

theorem parasite_transfer:
  assumes "align48 g" "transfer_ok g M p i start" "i = scast startOffset" "\<And>b n r M. ensure b n r M = M"
    "k = load64 (mm M) (p + 16)" "n = stack_used (mm M) k - i"
    "disjnt_regions start (unat n) (k - 8) (56 + unat (stack_used (mm M) k))"
  shows "\<exists>th M1 M2. GC_extractParasite ensure g p startOffset M = Some (th, M1) \<and>
    GC_prefixAndSwitchTo ratios ensure g M1 th = Some M2 \<and> stackTop M2 = start + n \<and>
    load_bytes (mm M2) start (unat n) = drop (unat i) (stack_frames (mm M) k) \<and>
    stack_frames (mm M2) k = take (unat i) (stack_frames (mm M) k)"
proof -
  obtain th k' M1 where x: "GC_extractParasite ensure g p startOffset M = Some (th, M1)"
    "stack_frames (mm M1) k' = drop (unat i) (stack_frames (mm M) k)" "stack_used (mm M1) k' = n"
    "stack_frames (mm M1) k = take (unat i) (stack_frames (mm M) k)" "stack_used (mm M1) k = i"
    "prefix_room ratios ensure g M1 th = (M1, th)" "prefix_ready g M1 th k' start" "currentThread M1 = currentThread M"
    using transfer_extract [where ensure = ensure and ratios = ratios, OF assms(1-6)] by blast
  obtain M2 where y: "GC_prefixAndSwitchTo ratios ensure g M1 th = Some M2" "stackTop M2 = start + n"
    "load_bytes (mm M2) start (unat n) = stack_frames (mm M1) k'"
    "\<forall>x. unat n \<le> off start x \<and> 8 \<le> off (currentThread M1 + 8) x \<longrightarrow> mm M2 x = mm M1 x"
    using GC_prefixAndSwitchTo_eq [OF assms(1) x(6,7) x(3) [symmetric] refl] by blast
  have "unat i \<le> unat (stack_used (mm M) k)" "disjnt_regions (currentThread M - 8) 32 (k - 8) (56 + unat (stack_used (mm M) k))"
    using assms(2) by (simp_all add: transfer_ok_def transfer_regions_def Let_def apart_regions_def assms(5) disjnt_sym word_le_nat_alt)
  moreover from this(2) have "disjnt_regions (currentThread M + 8) 8 (k - 8) (56 + unat (stack_used (mm M) k))"
    using disjnt_sub [of "currentThread M - 8" 32 "k - 8" _ 16 8 0] by (simp add: add.commute)
  ultimately have keep: "load_bytes (mm M2) b l = load_bytes (mm M1) b l"
    if "b = k - 8 + of_nat j" "j + l \<le> 56 + unat i" for b j l
  proof -
    assume *: "unat i \<le> unat (stack_used (mm M) k)"
      "disjnt_regions (currentThread M + 8) 8 (k - 8) (56 + unat (stack_used (mm M) k))"
    show ?thesis
    proof (rule load_bytes_cong)
      fix y0 assume "y0 < l"
      then have lt: "j + y0 < 56 + unat (stack_used (mm M) k)" using that(2) *(1) by linarith
      show "mm M2 (b + of_nat y0) = mm M1 (b + of_nat y0)"
        using off_offset [OF lt assms(7)] off_offset [OF lt *(2)] y(4) by (simp add: that(1) x(8) add.assoc)
    qed
  qed
  have "stack_used (mm M2) k = i"
    using keep [of "k + 24" 32 8] x(5) by (simp add: stack_used_def load64_def)
  then have "stack_frames (mm M2) k = stack_frames (mm M1) k"
    using keep [of "k + 48" 56 "unat i"] x(5) by (simp add: stack_frames_def)
  then show ?thesis using x(1,2,4) y(1-3) by auto
qed

lemma parasite_transfer_witness:
  "\<exists>th M1 M2. GC_extractParasite (\<lambda>_ _ _ M. M) demo_static 3000 16 demo_machine = Some (th, M1) \<and>
    GC_prefixAndSwitchTo demo_ratios (\<lambda>_ _ _ M. M) demo_static M1 th = Some M2 \<and> stackTop M2 = 2080 \<and>
    load_bytes (mm M2) 2056 24 = drop 16 (stack_frames demo_thread_mem 4000) \<and>
    stack_frames (mm M2) 4000 = take 16 (stack_frames demo_thread_mem 4000)"
proof -
  have f: "frontier demo_state = 5120" by (simp add: demo_state_def)
  have ok: "transfer_ok demo_static demo_machine 3000 16 2056"
    by (simp add: transfer_ok_def transfer_regions_def Let_def demo_frame_bottom demo_machine_fields demo_thread_loads f
        stack_used_def apart_regions_def disjnt_regions_def GC_FORWARDED_def)
  have k: "4000 = load64 (mm demo_machine) (3000 + 16)" "24 = stack_used (mm demo_machine) 4000 - 16"
    "disjnt_regions 2056 (unat (24 :: size_t)) (4000 - 8) (56 + unat (stack_used (mm demo_machine) 4000))"
    "(16 :: size_t) = scast (16 :: 32 word)"
    by (simp_all add: demo_machine_fields demo_thread_loads stack_used_def disjnt_regions_def)
  from parasite_transfer [OF demo_align48 ok k(4) _ k(1-3), of "\<lambda>_ _ _ M. M" demo_ratios]
  show ?thesis by (simp add: demo_machine_fields(1))
qed

end
