(* ===== verification/Forward.thy ===== *)
theory Forward
  imports Threads Stacks
begin

text \<open>
  Copying of objects between heaps (\<open>gc/forward.c\<close>), the walks over the roots
  (\<open>foreachGlobalObjptr\<close> and \<open>foreachGlobalObjptrInScope\<close> of \<open>gc/foreach.c\<close>). The clients get the address of a slot, so the
  fields of \<open>GC_state\<close> that are roots lie in memory, at addresses that are parameters. Counters,
  timing and messages are left out.
\<close>

section \<open>State\<close>

text \<open>The addresses of the roots of one processor; \<open>scheduler_keys\<close> are the slots that
  \<open>foreachObjptrInSQ\<close> visits, in its order. An array is given by its address and length.\<close>

record root_slots =
  callFromCHandlerThread_slot :: pointer
  currentThread_slot :: pointer
  savedThread_slot :: pointer
  signalHandlerThread_slot :: pointer
  savedClosure_slot :: pointer
  pacmlThreadId_slot :: pointer
  liftingObject_slot :: pointer
  roots_array :: pointer
  rootsLength :: nat
  dangling_array :: pointer
  danglingSize :: nat
  moveOnWBA_array :: pointer
  moveOnWBASize :: nat
  preemptOnWBA_array :: pointer
  preemptOnWBASize :: nat
  spawnOnWBA_array :: pointer
  spawnOnWBASize :: nat
  scheduler_keys :: "pointer list"

text \<open>What is constant during a collection: the static tables and the walk's environment, the
  roots, the ratios of the stacks and the processor's number.\<close>

record fwd_env =
  fenv :: foreach_env
  globals_array :: pointer
  globalsLength :: nat
  proc_roots :: "root_slots list"
  fratios :: stack_ratios
  procId :: nat

text \<open>\<open>GC_forwardState\<close> without its list of ranges, which is in the \<open>world\<close>, and the fields of
  \<open>GC_state\<close> that copying reads or changes. Of \<open>fmach\<close> the memory is that of the world, and
  the current thread is the word at \<open>currentThread_slot\<close>.\<close>

record fwd =
  fmach :: machine
  amInMinorGC :: bool
  fwd_back :: pointer
  toStart :: pointer
  toLimit :: pointer
  forceStackForwarding :: bool
  copyImmutable :: bool
  weaks :: pointer
  copyObjectMap :: "pointer \<rightharpoonup> pointer"

abbreviation fstatic :: "fwd_env \<Rightarrow> gc_static" where "fstatic e \<equiv> static (fenv e)"
abbreviation own_roots :: "fwd_env \<Rightarrow> root_slots" where "own_roots e \<equiv> proc_roots e ! procId e"
abbreviation fgc :: "fwd world \<Rightarrow> GC_state" where "fgc w \<equiv> gcs (fmach (rest w))"
abbreviation on_mem :: "(mem \<Rightarrow> mem) \<Rightarrow> 'a world \<Rightarrow> 'a world" where "on_mem h w \<equiv> w\<lparr>wmem := h (wmem w)\<rparr>"
abbreviation on_fwd :: "(fwd \<Rightarrow> fwd) \<Rightarrow> fwd world \<Rightarrow> fwd world" where "on_fwd h w \<equiv> w\<lparr>rest := h (rest w)\<rparr>"

section \<open>Roots\<close>

definition array_of :: "pointer \<Rightarrow> u64 \<Rightarrow> nat \<Rightarrow> pointer list" where
  "array_of a stride n = map (\<lambda>i. a + of_nat i * stride) [0..<n]"

text \<open>The three arrays of the write barrier: \<open>objptr\<close>s, \<open>PreemptThread\<close>s and \<open>SpawnThread\<close>s, both of
  16 bytes with the object pointer first.\<close>

definition foreachObjptrInWBAs :: "root_slots \<Rightarrow> 'a foreachObjptrFun \<Rightarrow> 'a world \<Rightarrow> 'a world option" where
  "foreachObjptrInWBAs r f =
    foreach_slots (callIfIsObjptr f) (array_of (moveOnWBA_array r) 8 (moveOnWBASize r) @
      array_of (preemptOnWBA_array r) 16 (preemptOnWBASize r) @ array_of (spawnOnWBA_array r) 16 (spawnOnWBASize r))"

definition foreachObjptrInExportableWBAs :: "root_slots \<Rightarrow> 'a foreachObjptrFun \<Rightarrow> 'a world \<Rightarrow> 'a world option" where
  "foreachObjptrInExportableWBAs r f =
    foreach_slots (callIfIsObjptr f) (array_of (moveOnWBA_array r) 8 (moveOnWBASize r) @
      array_of (spawnOnWBA_array r) 16 (spawnOnWBASize r))"

text \<open>One dangling stack: its slot in the list, then the stack field of its thread, which is
  looked up before the slot is changed unless a translation is going on.\<close>

definition dangling_roots :: "foreach_env \<Rightarrow> 'a foreachObjptrFun \<Rightarrow> 'a foreachObjptrFun" where
  "dangling_roots e f slot w =
    (let stk = objptrToPointer (load64 (wmem w) slot) (h_start (local_heap e));
         thrd = objptrToPointer (stack_thread (wmem w) stk) (shared_start e);
         translated = (tr_from (translateState e) \<noteq> BOGUS_POINTER) in
     do {
       w \<leftarrow> callIfIsObjptr f slot w;
       let thrd = (if translated
         then objptrToPointer (stack_thread (wmem w) (objptrToPointer (load64 (wmem w) slot) (h_start (local_heap e))))
           (shared_start e) else thrd);
       callIfIsObjptr f (thrd + 16) w })"

definition proc_objptrs :: "foreach_env \<Rightarrow> root_slots \<Rightarrow> 'a foreachObjptrFun \<Rightarrow> 'a world \<Rightarrow> 'a world option" where
  "proc_objptrs e r f w = do {
     w \<leftarrow> foreach_slots (callIfIsObjptr f) [callFromCHandlerThread_slot r, currentThread_slot r, savedThread_slot r,
       signalHandlerThread_slot r, savedClosure_slot r, pacmlThreadId_slot r] w;
     w \<leftarrow> (if roots_array r \<noteq> 0 then foreach_slots (callIfIsObjptr f) (array_of (roots_array r) 8 (rootsLength r)) w
       else Some w);
     w \<leftarrow> foreach_slots (dangling_roots e f) (array_of (dangling_array r) 8 (danglingSize r)) w;
     w \<leftarrow> foreachObjptrInWBAs r f w;
     w \<leftarrow> foreach_slots (callIfIsObjptr f) (scheduler_keys r) w;
     callIfIsObjptr f (liftingObject_slot r) w }"

fun all_procs :: "foreach_env \<Rightarrow> root_slots list \<Rightarrow> 'a foreachObjptrFun \<Rightarrow> 'a world \<Rightarrow> 'a world option" where
  "all_procs e [] f w = Some w"
| "all_procs e (r # rs) f w = do { w \<leftarrow> proc_objptrs e r f w; all_procs e rs f w }"

definition foreachGlobalObjptr :: "fwd_env \<Rightarrow> 'a foreachObjptrFun \<Rightarrow> 'a world \<Rightarrow> 'a world option" where
  "foreachGlobalObjptr e f w = do {
     w \<leftarrow> foreach_slots (callIfIsObjptr f) (array_of (globals_array e) 8 (globalsLength e)) w;
     all_procs (fenv e) (proc_roots e) f w }"

definition foreachGlobalObjptrInScope :: "fwd_env \<Rightarrow> 'a foreachObjptrFun \<Rightarrow> 'a world \<Rightarrow> 'a world option" where
  "foreachGlobalObjptrInScope e f w = do {
     w \<leftarrow> foreach_slots (callIfIsObjptr f) (array_of (globals_array e) 8 (globalsLength e)) w;
     proc_objptrs (fenv e) (own_roots e) f w }"

section \<open>The object that is copied\<close>

definition isPointerInToSpace :: "fwd \<Rightarrow> pointer \<Rightarrow> bool" where
  "isPointerInToSpace s p \<longleftrightarrow> \<not> isPointer p \<or> (toStart s \<le> p \<and> p < toLimit s)"

definition isObjptrInToSpace :: "fwd \<Rightarrow> objptr \<Rightarrow> bool" where
  "isObjptrInToSpace s op \<longleftrightarrow>
    (if \<not> isObjptr op then True else isPointerInToSpace s (objptrToPointer op (toStart s)))"

text \<open>\<open>getStackCurrent\<close>, which may move \<open>currentThread\<close> on.\<close>

definition getStackCurrent_slot :: "fwd_env \<Rightarrow> fwd world \<Rightarrow> fwd world \<times> pointer" where
  "getStackCurrent_slot e w =
    (let slot = currentThread_slot (own_roots e);
         M = (fmach (rest w))\<lparr>mm := wmem w, currentThread := load64 (wmem w) slot\<rparr>;
         (M, stk) = getStackCurrent (fstatic e) M in
     (w\<lparr>wmem := store64 (mm M) slot (currentThread M)\<rparr>, stk))"

text \<open>Bytes of the header, bytes of the body, bytes to skip behind it, and for a stack that
  shrinks its old \<open>reserved\<close>.\<close>

definition forward_stack :: "fwd_env \<Rightarrow> pointer \<Rightarrow> fwd world \<Rightarrow> (size_t \<times> size_t \<times> size_t \<times> size_t \<times> fwd world) option" where
  "forward_stack e p w = do {
     let (w, current) = getStackCurrent_slot e w;
     let isCurrentStack = (current = p \<and> \<not> isStackEmpty (wmem w) p);
     reservedNew \<leftarrow> sizeofStackShrinkReserved (fratios e) (fstatic e) (wmem w) p isCurrentStack;
     let reserved = stack_reserved (wmem w) p;
     let oldReserved = (if reservedNew < reserved then reserved else 0);
     let w = (if reservedNew < reserved then on_mem (\<lambda>m. store64 m (p + 16) reservedNew) w else w);
     let objectBytes = sizeof_GC_stack + stack_used (wmem w) p;
     let skip = stack_reserved (wmem w) p - stack_used (wmem w) p;
     let thrd = objptrToPointer (stack_thread (wmem w) p) (h_start (heap (fgc w)));
     let w = (if getHeader (wmem w) thrd = GC_FORWARDED
       then on_mem (\<lambda>m. store64 m (p + 32) (load64 m thrd)) w else w);
     Some (GC_STACK_HEADER_SIZE, objectBytes, skip, oldReserved, w) }"

definition forward_size ::
    "fwd_env \<Rightarrow> GC_objectType \<Rightarrow> pointer \<Rightarrow> fwd world \<Rightarrow> (size_t \<times> size_t \<times> size_t \<times> size_t \<times> fwd world) option" where
  "forward_size e ty p w =
    (if tag ty = NORMAL_TAG \<or> tag ty = WEAK_TAG then Some (GC_NORMAL_HEADER_SIZE, elementBytes ty, 0, 0, w)
     else if tag ty = ARRAY_TAG
     then Some (GC_ARRAY_HEADER_SIZE, sizeofArrayNoHeader (fstatic e) (getArrayLength (wmem w) p) ty, 0, 0, w)
     else forward_stack e p w)"

definition link_weak :: "fwd_env \<Rightarrow> GC_objectType \<Rightarrow> fwd world \<Rightarrow> fwd world" where
  "link_weak e ty w =
    (let weak = fwd_back (rest w) + GC_NORMAL_HEADER_SIZE + offsetofWeak (fstatic e);
         op = load64 (wmem w) (weak + 8) in
     if tag ty = WEAK_TAG \<and> numObjptrs ty = 1 \<and> isObjptr op \<and>
       (\<not> amInMinorGC (rest w) \<or> isObjptrInNursery (fgc w) (heap (fgc w)) op)
     then on_fwd (\<lambda>s. s\<lparr>weaks := weak\<rparr>) (on_mem (\<lambda>m. store64 m weak (weaks (rest w))) w)
     else w)"

text \<open>The object at \<open>p\<close>, whose header has not been overwritten yet, goes to the back of the
  to-space. Running out of space makes the program exit (\<open>None\<close>).\<close>

definition forward_object :: "fwd_env \<Rightarrow> pointer \<Rightarrow> fwd world \<Rightarrow> fwd world option" where
  "forward_object e p w = do {
     ty \<leftarrow> splitHeader (objectTypes (fstatic e)) (getHeader (wmem w) p);
     (headerBytes, objectBytes, skip, oldReserved, w) \<leftarrow> forward_size e ty p w;
     let bytes = headerBytes + objectBytes;
     let b = fwd_back (rest w);
     if b + bytes + skip > toLimit (rest w) then None
     else do {
       let w = on_mem (GC_memcpy (p - headerBytes) b bytes) w;
       let w = (if oldReserved \<noteq> 0 then on_mem (\<lambda>m. store64 m (p + 16) oldReserved) w else w);
       let w = link_weak e ty w;
       let w = on_mem (\<lambda>m. store64 m (p - GC_HEADER_SIZE) GC_FORWARDED) w;
       let w = on_mem (\<lambda>m. store64 m p (pointerToObjptr (b + headerBytes) (toStart (rest w)))) w;
       Some (on_fwd (\<lambda>s. s\<lparr>fwd_back := b + (bytes + skip)\<rparr>) w) } }"

section \<open>forwardObjptr\<close>

text \<open>The call (\<open>loop\<close> is false), and the loop at its end, which calls again.\<close>

partial_function (option) forward_loop :: "fwd_env \<Rightarrow> bool \<Rightarrow> pointer \<Rightarrow> fwd world \<Rightarrow> fwd world option" where
  "forward_loop e loop opp w =
    (if loop
     then (if isObjptrInFromSpace (fgc w) (heap (fgc w)) (load64 (wmem w) opp)
       then do { w \<leftarrow> forward_loop e False opp w; forward_loop e True opp w }
       else Some w)
     else (let p = objptrToPointer (load64 (wmem w) opp) (h_start (heap (fgc w))) in
       if isObjectLifted (getHeader (wmem w) p) then Some w
       else do {
         w \<leftarrow> (if getHeader (wmem w) p \<noteq> GC_FORWARDED then forward_object e p w else Some w);
         forward_loop e True opp (on_mem (\<lambda>m. store64 m opp (load64 m p)) w) }))"

definition forwardObjptr :: "fwd_env \<Rightarrow> fwd foreachObjptrFun" where
  "forwardObjptr e opp w = forward_loop e False opp w"

definition forwardObjptrIfInNursery :: "fwd_env \<Rightarrow> fwd foreachObjptrFun" where
  "forwardObjptrIfInNursery e opp w =
    (let p = objptrToPointer (load64 (wmem w) opp) (h_start (heap (fgc w))) in
     if p < nursery (heap (fgc w)) \<or> isPointerInHeap (sharedHeap (fgc w)) p then Some w
     else forwardObjptr e opp w)"

definition forwardObjptrIfInLocalHeap :: "fwd_env \<Rightarrow> fwd foreachObjptrFun" where
  "forwardObjptrIfInLocalHeap e opp w =
    (let p = objptrToPointer (load64 (wmem w) opp) (h_start (heap (fgc w))) in
     if \<not> isPointerInHeap (heap (fgc w)) p then Some w else forwardObjptr e opp w)"

section \<open>copyObjptr\<close>

text \<open>The original is left alone; \<open>copyObjectMap\<close> remembers its copy. A stack, or a lack of
  space, makes the program exit.\<close>

definition copyObjptr :: "fwd_env \<Rightarrow> fwd foreachObjptrFun" where
  "copyObjptr e opp w = do {
     m \<leftarrow> fixFwdObjptr (wmem w) (h_start (heap (fgc w))) opp;
     let w = w\<lparr>wmem := m\<rparr>;
     let op = load64 m opp;
     let p = objptrToPointer op (h_start (heap (fgc w)));
     if isObjectLifted (getHeader m p) then Some w
     else (case copyObjectMap (rest w) p of
       Some newP \<Rightarrow> Some (on_mem (\<lambda>m. store64 m opp newP) w)
     | None \<Rightarrow> do {
         ty \<leftarrow> splitHeader (objectTypes (fstatic e)) (getHeader m p);
         (headerBytes, objectBytes) \<leftarrow>
           (if tag ty = NORMAL_TAG \<or> tag ty = WEAK_TAG then Some (GC_NORMAL_HEADER_SIZE, elementBytes ty)
            else if tag ty = ARRAY_TAG
            then Some (GC_ARRAY_HEADER_SIZE, sizeofArrayNoHeader (fstatic e) (getArrayLength m p) ty)
            else None);
         let bytes = headerBytes + objectBytes;
         let b = fwd_back (rest w);
         if b + bytes > toLimit (rest w) then None
         else do {
           let w = on_mem (GC_memcpy (p - headerBytes) b bytes) w;
           let weak = b + GC_NORMAL_HEADER_SIZE + offsetofWeak (fstatic e);
           let w = (if tag ty = WEAK_TAG \<and> numObjptrs ty = 1
             then on_mem (\<lambda>m. store64 (store64 m (getHeaderp (weak - offsetofWeak (fstatic e))) GC_WEAK_GONE_HEADER)
               (weak + 8) BOGUS_OBJPTR) w else w);
           let w = on_fwd (\<lambda>s. s\<lparr>copyObjectMap := (copyObjectMap s)(load64 (wmem w) opp \<mapsto> b + headerBytes)\<rparr>) w;
           let w = (if isPointerInToSpace (rest w) opp
             then on_mem (\<lambda>m. store64 m opp (pointerToObjptr (b + headerBytes) (toStart (rest w)))) w else w);
           Some (on_fwd (\<lambda>s. s\<lparr>fwd_back := b + bytes\<rparr>) w) } }) }"

section \<open>Cards\<close>

text \<open>The two labels \<open>checkAll\<close> (\<open>all\<close> holds) and \<open>checkCard\<close>.\<close>

partial_function (option) card_loop ::
    "fwd_env \<Rightarrow> pointer \<Rightarrow> pointer \<Rightarrow> size_t \<Rightarrow> bool \<Rightarrow> size_t \<Rightarrow> pointer \<Rightarrow> pointer \<Rightarrow> fwd world \<Rightarrow> fwd world option" where
  "card_loop e oldGenStart oldGenEnd maxCardIndex all cardIndex cardStart objectStart w =
    (if all \<and> cardIndex = maxCardIndex then Some w
     else if wmem w (cardMap (generationalMaps (fgc w)) + cardIndex) \<noteq> 0
     then do {
       let cardEnd = cardStart + CARD_SIZE;
       let cardEnd = (if oldGenEnd < cardEnd then oldGenEnd else cardEnd);
       (objectStart, w) \<leftarrow> foreachObjptrInRange (fenv e) (forwardObjptrIfInNursery e) False (\<lambda>_. cardEnd) objectStart w;
       if objectStart = oldGenEnd then Some w
       else (let cardIndex = sizeToCardMapIndex (objectStart - oldGenStart) in
         card_loop e oldGenStart oldGenEnd maxCardIndex False cardIndex
           (oldGenStart + cardMapIndexToSize cardIndex) objectStart w) }
     else (let x = crossMap_get (fgc w) (wmem w) cardIndex;
         objectStart = (if CROSS_MAP_EMPTY = x then objectStart else cardStart + ucast x * CROSS_MAP_OFFSET_SCALE) in
       card_loop e oldGenStart oldGenEnd maxCardIndex True (cardIndex + 1) (cardStart + CARD_SIZE) objectStart w))"

definition forwardInterGenerationalObjptrs :: "fwd_env \<Rightarrow> fwd world \<Rightarrow> fwd world option" where
  "forwardInterGenerationalObjptrs e w = do {
     (s, m) \<leftarrow> updateCrossMap (fstatic e) (fgc w) (wmem w);
     let w = on_fwd (\<lambda>f. f\<lparr>fmach := (fmach f)\<lparr>gcs := s\<rparr>\<rparr>) (w\<lparr>wmem := m\<rparr>);
     let h = heap s;
     card_loop e (h_start h) (h_start h + oldGenSize h)
       (sizeToCardMapIndex (align (oldGenSize h) CARD_SIZE)) True 0 (h_start h)
       (alignFrontier (alignment (fstatic e)) (h_start h)) w }"

section \<open>The remaining operations\<close>

definition saveForwardState :: "fwd \<Rightarrow> bool" where
  "saveForwardState s = forceStackForwarding s"

definition restoreForwardState :: "bool \<Rightarrow> fwd \<Rightarrow> fwd" where
  "restoreForwardState saved s = s\<lparr>forceStackForwarding := saved\<rparr>"

end
