(* ===== verification/Cheney.thy ===== *)
theory Cheney
  imports Forward
begin

text \<open>
  The copying collections of a local heap (\<open>gc/cheney-copy.c\<close>). Statistics, timing and messages
  are left out.
\<close>

section \<open>Operations\<close>

abbreviation on_gc :: "(GC_state \<Rightarrow> GC_state) \<Rightarrow> fwd world \<Rightarrow> fwd world" where
  "on_gc h w \<equiv> on_fwd (\<lambda>s. s\<lparr>fmach := (fmach s)\<lparr>gcs := h (gcs (fmach s))\<rparr>\<rparr>) w"

partial_function (option) updateWeaks_loop :: "gc_static \<Rightarrow> pointer \<Rightarrow> pointer \<Rightarrow> mem \<Rightarrow> mem option" where
  "updateWeaks_loop g B w m =
    (if w = 0 then Some m
     else if load64 m (w + 8) = BOGUS_OBJPTR then updateWeaks_loop g B (load64 m w) m
     else (let p = objptrToPointer (load64 m (w + 8)) B;
         m = (if getHeader m p = GC_FORWARDED then store64 m (w + 8) (load64 m p)
           else store64 (store64 m (getHeaderp (w - offsetofWeak g)) GC_WEAK_GONE_HEADER) (w + 8) BOGUS_OBJPTR) in
       updateWeaks_loop g B (load64 m w) m))"

definition updateWeaksForCheneyCopy :: "fwd_env \<Rightarrow> fwd world \<Rightarrow> fwd world option" where
  "updateWeaksForCheneyCopy e w =
    map_option (\<lambda>m. on_fwd (\<lambda>s. s\<lparr>weaks := 0\<rparr>) (w\<lparr>wmem := m\<rparr>))
      (updateWeaks_loop (fstatic e) (h_start (heap (fgc w))) (weaks (rest w)) (wmem w))"

definition swapHeapsForCheneyCopy :: "GC_state \<Rightarrow> GC_state" where
  "swapHeapsForCheneyCopy s =
    setCardMapAbsolute (s\<lparr>secondaryLocalHeap := heap s, heap := secondaryLocalHeap s\<rparr>)"

definition swapHeapsForSharedCheneyCopy :: "GC_state list \<Rightarrow> GC_state list" where
  "swapHeapsForSharedCheneyCopy procStates =
    map (\<lambda>r. r\<lparr>secondarySharedHeap := sharedHeap r, sharedHeap := secondarySharedHeap r\<rparr>) procStates"

definition majorCheneyCopyGC :: "fwd_env \<Rightarrow> fwd world \<Rightarrow> fwd world option" where
  "majorCheneyCopyGC e w = do {
     let to = secondaryLocalHeap (fgc w);
     let front = alignFrontier (alignment (fstatic e)) (h_start to);
     let w = on_fwd (\<lambda>s. s\<lparr>amInMinorGC := False, toStart := h_start to, toLimit := h_start to + h_size to,
       forceStackForwarding := False, fwd_back := front\<rparr>) w;
     w \<leftarrow> foreachGlobalObjptrInScope e (forwardObjptrIfInLocalHeap e) w;
     (_, w) \<leftarrow> foreachObjptrInRange (fenv e) (forwardObjptrIfInLocalHeap e) True (\<lambda>w. fwd_back (rest w)) front w;
     w \<leftarrow> updateWeaksForCheneyCopy e w;
     let w = on_gc (\<lambda>s. s\<lparr>secondaryLocalHeap := (secondaryLocalHeap s)\<lparr>oldGenSize :=
       fwd_back (rest w) - h_start (secondaryLocalHeap s)\<rparr>\<rparr>) w;
     Some (on_gc swapHeapsForCheneyCopy w) }"

text \<open>Without \<open>canMinor\<close> the allocated part of the nursery becomes part of the old generation
  when it ends the heap, and the gap behind it is filled otherwise.\<close>

definition minorCheneyCopyGC :: "fwd_env \<Rightarrow> fwd world \<Rightarrow> fwd world option" where
  "minorCheneyCopyGC e w =
    (let s = fgc w; bytesAllocated = frontier s - nursery (heap s) in
     if bytesAllocated = 0 then Some w
     else if \<not> canMinor s
     then (if limitPlusSlop s \<noteq> h_frontier (heap s)
       then map_option (\<lambda>(m, bytesFilled). w\<lparr>wmem := m\<rparr>) (fillGap (frontier s) (limitPlusSlop s) (wmem w))
       else Some (on_gc (\<lambda>s. s\<lparr>heap := (heap s)\<lparr>oldGenSize := frontier s - h_start (heap s)\<rparr>\<rparr>) w))
     else do {
       let front = h_start (heap s) + oldGenSize (heap s);
       let w = on_fwd (\<lambda>f. f\<lparr>amInMinorGC := True, toStart := front, toLimit := front + bytesAllocated,
         forceStackForwarding := False, fwd_back := front\<rparr>) w;
       w \<leftarrow> foreachGlobalObjptrInScope e (forwardObjptrIfInNursery e) w;
       w \<leftarrow> forwardInterGenerationalObjptrs e w;
       (_, w) \<leftarrow> foreachObjptrInRange (fenv e) (forwardObjptrIfInNursery e) True (\<lambda>w. fwd_back (rest w)) front w;
       w \<leftarrow> updateWeaksForCheneyCopy e w;
       Some (on_gc (\<lambda>s. s\<lparr>heap := (heap s)\<lparr>oldGenSize := oldGenSize (heap s) + (fwd_back (rest w) - toStart (rest w))\<rparr>\<rparr>) w) })"

end
