(* ===== verification/Dfs_Mark.thy ===== *)
theory Dfs_Mark
  imports Generational Hash_Cons Allocation
begin

text \<open>
  Depth-first marking with pointer reversal (\<open>gc/dfs-mark.c\<close>), the functions that it is given to
  apply to the objects (\<open>gc/object-cleanliness.c\<close>, \<open>gc/reclaim.c\<close>); its callers are in
  \<open>Mark_Clients\<close>. The labels of \<open>dfsMarkByMode\<close> are the states
  of a machine; between two labels the code runs straight. \<open>None\<close> is an index out of a
  static table, or a run that does not end.
\<close>

section \<open>State\<close>

datatype GC_markMode = MARK_MODE | UNMARK_MODE

datatype GC_foreachObjectDfsFun =
  emptyForeachObjectFun | isWriteCleanMark | isWriteCleanUnmark | isSpawnCleanMark | isSpawnCleanUnmark |
  addToReachableArray

datatype GC_numReferences = ZERO | ONE | LOCAL_MANY | GLOBAL_MANY

text \<open>What marking reads of \<open>GC_state\<close> and does not change; \<open>mark_calloc\<close> says which sizes of the
  hash table \<open>calloc\<close> can provide, \<open>probes\<close> bounds a search in it.\<close>

record mark_env =
  mark_static :: gc_static
  mark_gc :: GC_state
  mark_sessionStart :: pointer
  useIdentityForCleanliness :: bool
  mark_calloc :: "u32 \<Rightarrow> bool"
  probes :: nat

text \<open>What it changes: the memory, and the fields of \<open>GC_state\<close> below.\<close>

record marker =
  mark_mem :: mem
  mark_weaks :: pointer
  objectHashTable :: hashTable
  bytesHashConsed :: size_t
  tmpPointer :: pointer
  tmpBool :: bool
  tmpInt :: "32 word"
  reachable_array :: "pointer list"

record mark_args =
  visitor :: GC_foreachObjectDfsFun
  mode :: GC_markMode
  shouldHashCons :: bool
  shouldLinkWeaks :: bool
  ignoreSharedHeap :: bool
  sizeEstimationForLifting :: bool

abbreviation mark_base :: "mark_env \<Rightarrow> pointer" where "mark_base e \<equiv> h_start (heap (mark_gc e))"
abbreviation on_mark_mem :: "(mem \<Rightarrow> mem) \<Rightarrow> marker \<Rightarrow> marker" where "on_mark_mem h s \<equiv> s\<lparr>mark_mem := h (mark_mem s)\<rparr>"

section \<open>Headers\<close>

definition isPointerMarked :: "mem \<Rightarrow> pointer \<Rightarrow> bool" where
  "isPointerMarked m p \<longleftrightarrow> MARK_MASK AND getHeader m p \<noteq> 0"

definition isPointerMarkedByMode :: "mem \<Rightarrow> pointer \<Rightarrow> GC_markMode \<Rightarrow> bool" where
  "isPointerMarkedByMode m p md =
    (case md of MARK_MODE \<Rightarrow> isPointerMarked m p | UNMARK_MODE \<Rightarrow> \<not> isPointerMarked m p)"

text \<open>The numbers of the enumeration.\<close>

definition numReferences_code :: "GC_numReferences \<Rightarrow> GC_header" where
  "numReferences_code n = (case n of ZERO \<Rightarrow> 0 | ONE \<Rightarrow> 1 | LOCAL_MANY \<Rightarrow> 2 | GLOBAL_MANY \<Rightarrow> 3)"

definition getNumReferences :: "GC_header \<Rightarrow> GC_numReferences" where
  "getNumReferences header =
    (if header = GC_FORWARDED then GLOBAL_MANY
     else let n = drop_bit VIRGIN_SHIFT (header AND VIRGIN_MASK) in
       if n = 0 then ZERO else if n = 1 then ONE else if n = 2 then LOCAL_MANY else GLOBAL_MANY)"

definition setNumReferences :: "mem \<Rightarrow> pointer \<Rightarrow> GC_numReferences \<Rightarrow> mem" where
  "setNumReferences m headerp n =
    store64 m headerp ((load64 m headerp AND NOT VIRGIN_MASK) OR push_bit VIRGIN_SHIFT (numReferences_code n))"

definition numReferencesToString :: "GC_numReferences \<Rightarrow> string" where
  "numReferencesToString n = (case n of
     ZERO \<Rightarrow> ''ZERO'' | ONE \<Rightarrow> ''ONE'' | LOCAL_MANY \<Rightarrow> ''LOCAL_MANY'' | GLOBAL_MANY \<Rightarrow> ''GLOBAL_MANY'')"

section \<open>The functions that are applied\<close>

text \<open>The end of both cleanliness tests.\<close>

definition clean_result :: "mark_env \<Rightarrow> bool \<Rightarrow> GC_header \<Rightarrow> marker \<Rightarrow> (bool \<times> marker) option" where
  "clean_result e isClean h s = do {
     isClean \<leftarrow> (if isClean then Some True
       else map_option (\<lambda>i. \<not> i \<and> useIdentityForCleanliness e) (objectHasIdentity (objectTypes (mark_static e)) h));
     let b = (tmpBool s \<and> isClean);
     Some (b, s\<lparr>tmpBool := b\<rparr>) }"

definition isWriteCleanMark_fun :: "mark_env \<Rightarrow> pointer \<Rightarrow> marker \<Rightarrow> (bool \<times> marker) option" where
  "isWriteCleanMark_fun e p s =
    (let h = getHeader (mark_mem s) p; n = getNumReferences h in
     clean_result e (if tmpPointer s = p then n = ZERO else n = ZERO \<or> n = ONE) h s)"

definition isSpawnCleanMark_fun :: "mark_env \<Rightarrow> pointer \<Rightarrow> marker \<Rightarrow> (bool \<times> marker) option" where
  "isSpawnCleanMark_fun e p s =
    (let h = getHeader (mark_mem s) p in
     clean_result e (case getNumReferences h of
         ZERO \<Rightarrow> True
       | ONE \<Rightarrow> p \<noteq> tmpPointer s
       | LOCAL_MANY \<Rightarrow> mark_sessionStart e < p \<and> p < frontier (mark_gc e)
       | GLOBAL_MANY \<Rightarrow> False) h s)"

definition addToReachableArray_fun :: "mark_env \<Rightarrow> pointer \<Rightarrow> marker \<Rightarrow> marker" where
  "addToReachableArray_fun e p s =
    (if isPointerInHeap (sharedHeap (mark_gc e)) p
     then if getHeader (mark_mem s) p AND NOT (LIFT_MASK OR VIRGIN_MASK) = 3 then s
       else s\<lparr>reachable_array := reachable_array s @ [p]\<rparr>
     else s)"

definition apply_visitor :: "mark_env \<Rightarrow> GC_foreachObjectDfsFun \<Rightarrow> pointer \<Rightarrow> marker \<Rightarrow> (bool \<times> marker) option" where
  "apply_visitor e f p s = (case f of
     emptyForeachObjectFun \<Rightarrow> Some (True, s)
   | isWriteCleanMark \<Rightarrow> isWriteCleanMark_fun e p s
   | isWriteCleanUnmark \<Rightarrow> Some (True, s)
   | isSpawnCleanMark \<Rightarrow> isSpawnCleanMark_fun e p s
   | isSpawnCleanUnmark \<Rightarrow> Some (True, s)
   | addToReachableArray \<Rightarrow> Some (True, addToReachableArray_fun e p s))"

section \<open>dfsMarkByMode\<close>

text \<open>\<open>headerp\<close> is always the header of \<open>cur\<close> and \<open>otype\<close> holds what \<open>splitHeader\<close> found for it;
  \<open>frameTop\<close> is \<open>top\<close>.\<close>

record mark_locals =
  total_size :: size_t
  cur :: pointer
  prev :: pointer
  nextp :: pointer
  nextHeader :: GC_header
  todo :: pointer
  header :: GC_header
  otype :: GC_objectType
  objptrIndex :: u32
  arrayIndex :: u64
  frameTop :: pointer
  frameLayout :: GC_frameLayout
  toContinue :: bool

datatype mark_label =
  markNext | mark_cur | normalDone | markInNormal | markNextInNormal | arrayDone | markArrayElt | markInArray |
  markNextInArray | markInStack | markInFrame | ret

datatype mark_outcome = Goto mark_label mark_locals marker | Returns size_t marker

definition mark_bit :: "mark_args \<Rightarrow> GC_header" where
  "mark_bit a = (if MARK_MODE = mode a then MARK_MASK else 0)"

text \<open>The index of the pointer is shifted as a 32-bit word into the counter of the header.\<close>

definition put_counter :: "GC_header \<Rightarrow> u32 \<Rightarrow> GC_header" where
  "put_counter h i = (h AND NOT COUNTER_MASK) OR ucast (push_bit COUNTER_SHIFT i)"

definition get_counter :: "GC_header \<Rightarrow> u32" where
  "get_counter h = ucast (drop_bit COUNTER_SHIFT (h AND COUNTER_MASK))"

definition step_markNext :: "mark_env \<Rightarrow> mark_locals \<Rightarrow> marker \<Rightarrow> mark_outcome option" where
  "step_markNext e l s =
    Some (Goto mark_cur (l\<lparr>header := nextHeader l, prev := cur l, cur := nextp l\<rparr>)
      (on_mark_mem (\<lambda>m. storeObjptrFromPointer m (todo l) (prev l) (mark_base e)) s))"

text \<open>An object outside the shared heap, or any object if no estimate is made, counts.\<close>

definition counted :: "mark_env \<Rightarrow> mark_args \<Rightarrow> pointer \<Rightarrow> bool" where
  "counted e a p \<longleftrightarrow> \<not> sizeEstimationForLifting a \<or> \<not> isPointerInHeap (sharedHeap (mark_gc e)) p"

definition mark_normal :: "mark_env \<Rightarrow> mark_args \<Rightarrow> mark_locals \<Rightarrow> marker \<Rightarrow> mark_outcome option" where
  "mark_normal e a l s =
    (let ty = otype l;
         l = (if counted e a (cur l) then l\<lparr>total_size := total_size l + (GC_NORMAL_HEADER_SIZE + elementBytes ty)\<rparr> else l) in
     if \<not> toContinue l then Some (Goto ret l s)
     else if 0 = numObjptrs ty then Some (Goto normalDone l s)
     else Some (Goto markInNormal (l\<lparr>todo := cur l + ucast (bytesNonObjptrs ty), objptrIndex := 0\<rparr>) s))"

definition mark_weak :: "mark_env \<Rightarrow> mark_args \<Rightarrow> mark_locals \<Rightarrow> marker \<Rightarrow> mark_outcome option" where
  "mark_weak e a l s =
    (let w = cur l + offsetofWeak (mark_static e) in
     Some (Goto ret l
       (if shouldLinkWeaks a \<and> isObjptr (load64 (mark_mem s) (w + 8))
        then (on_mark_mem (\<lambda>m. store64 m w (mark_weaks s)) s)\<lparr>mark_weaks := w\<rparr> else s)))"

definition mark_array :: "mark_env \<Rightarrow> mark_args \<Rightarrow> mark_locals \<Rightarrow> marker \<Rightarrow> mark_outcome option" where
  "mark_array e a l s =
    (let ty = otype l; len = getArrayLength (mark_mem s) (cur l);
         l = (if counted e a (cur l)
           then l\<lparr>total_size := total_size l + (GC_ARRAY_HEADER_SIZE + sizeofArrayNoHeader (mark_static e) len ty)\<rparr> else l) in
     if \<not> toContinue l then Some (Goto ret l s)
     else if 0 = numObjptrs ty \<or> 0 = len then Some (Goto arrayDone l s)
     else Some (Goto markArrayElt (l\<lparr>arrayIndex := 0, todo := cur l\<rparr>) s))"

text \<open>The byte \<open>isParasitic\<close> of a stack.\<close>

definition stack_isParasitic :: "mem \<Rightarrow> pointer \<Rightarrow> bool" where
  "stack_isParasitic m stk \<longleftrightarrow> m (stk + 40) \<noteq> 0"

definition mark_stack :: "mark_env \<Rightarrow> mark_args \<Rightarrow> mark_locals \<Rightarrow> marker \<Rightarrow> mark_outcome option" where
  "mark_stack e a l s =
    (let m = mark_mem s;
         l = (if \<not> sizeEstimationForLifting a \<or>
             (\<not> isPointerInHeap (sharedHeap (mark_gc e)) (cur l) \<and> stack_isParasitic m (cur l))
           then l\<lparr>total_size := total_size l + (GC_STACK_HEADER_SIZE + sizeof_GC_stack + stack_reserved m (cur l))\<rparr> else l) in
     Some (Goto markInStack (l\<lparr>frameTop := getStackTop m (cur l)\<rparr>) s))"

definition step_mark :: "mark_env \<Rightarrow> mark_args \<Rightarrow> mark_locals \<Rightarrow> marker \<Rightarrow> mark_outcome option" where
  "step_mark e a l s = do {
     (toContinue, s) \<leftarrow> apply_visitor e (visitor a) (cur l) s;
     let header = header l XOR MARK_MASK;
     let s = on_mark_mem (\<lambda>m. store64 m (getHeaderp (cur l)) header) s;
     ty \<leftarrow> splitHeader (objectTypes (mark_static e)) header;
     let l = l\<lparr>toContinue := toContinue, header := header, otype := ty\<rparr>;
     if tag ty = NORMAL_TAG then mark_normal e a l s
     else if tag ty = WEAK_TAG then mark_weak e a l s
     else if tag ty = ARRAY_TAG then mark_array e a l s
     else mark_stack e a l s }"

text \<open>\<open>normalDone\<close> and \<open>arrayDone\<close>.\<close>

definition step_done :: "mark_env \<Rightarrow> mark_args \<Rightarrow> mark_locals \<Rightarrow> marker \<Rightarrow> mark_outcome option" where
  "step_done e a l s =
    (if shouldHashCons a
     then do {
       (res, t, n) \<leftarrow> hashConsPointer (mark_calloc e) (probes e) (mark_static e) (mark_mem s) (cur l) True (objectHashTable s);
       Some (Goto ret (l\<lparr>cur := res\<rparr>) (s\<lparr>objectHashTable := t, bytesHashConsed := bytesHashConsed s + n\<rparr>)) }
     else Some (Goto ret l s))"

definition shareObjptr :: "mark_env \<Rightarrow> pointer \<Rightarrow> marker \<Rightarrow> marker option" where
  "shareObjptr e opp s = do {
     let p = objptrToPointer (load64 (mark_mem s) opp) (mark_base e);
     (p, t, n) \<leftarrow> hashConsPointer (mark_calloc e) (probes e) (mark_static e) (mark_mem s) p False (objectHashTable s);
     let m = store64 (mark_mem s) opp (pointerToObjptr p (mark_base e));
     Some (s\<lparr>objectHashTable := t, bytesHashConsed := bytesHashConsed s + n,
       mark_mem := markIntergenerationalObjptr (mark_gc e) m opp\<rparr>) }"

text \<open>The pointer in the slot \<open>todo\<close>, whether it is left alone, and the sharing of a slot that leads to a marked object.\<close>

definition skipped :: "mark_env \<Rightarrow> mark_args \<Rightarrow> pointer \<Rightarrow> bool" where
  "skipped e a next \<longleftrightarrow> \<not> isPointer next \<or> (ignoreSharedHeap a \<and> isPointerInHeap (sharedHeap (mark_gc e)) next)"

definition share_slot :: "mark_env \<Rightarrow> mark_args \<Rightarrow> pointer \<Rightarrow> marker \<Rightarrow> marker option" where
  "share_slot e a opp s = (if shouldHashCons a then shareObjptr e opp s else Some s)"

definition step_markInNormal :: "mark_env \<Rightarrow> mark_args \<Rightarrow> mark_locals \<Rightarrow> marker \<Rightarrow> mark_outcome option" where
  "step_markInNormal e a l s = do {
     (m, next) \<leftarrow> fetchObjptrToPointer (mark_mem s) (todo l) (mark_base e);
     let s = s\<lparr>mark_mem := m\<rparr>;
     let l = l\<lparr>nextp := next\<rparr>;
     if skipped e a next then Some (Goto markNextInNormal l s)
     else do {
       let l = l\<lparr>nextHeader := getHeader m next\<rparr>;
       if mark_bit a = nextHeader l AND MARK_MASK
       then do { s \<leftarrow> share_slot e a (todo l) s; Some (Goto markNextInNormal l s) }
       else Some (Goto markNext l
         (on_mark_mem (\<lambda>m. store64 m (getHeaderp (cur l)) (put_counter (header l) (objptrIndex l))) s)) } }"

definition step_markNextInNormal :: "mark_locals \<Rightarrow> marker \<Rightarrow> mark_outcome option" where
  "step_markNextInNormal l s =
    (let l = l\<lparr>objptrIndex := objptrIndex l + 1\<rparr> in
     if objptrIndex l = ucast (numObjptrs (otype l))
     then Some (Goto normalDone l (on_mark_mem (\<lambda>m. store64 m (getHeaderp (cur l)) (header l AND NOT COUNTER_MASK)) s))
     else Some (Goto markInNormal (l\<lparr>todo := todo l + OBJPTR_SIZE\<rparr>) s))"

definition step_markArrayElt :: "mark_locals \<Rightarrow> marker \<Rightarrow> mark_outcome option" where
  "step_markArrayElt l s =
    Some (Goto markInArray (l\<lparr>objptrIndex := 0, todo := todo l + ucast (bytesNonObjptrs (otype l))\<rparr>) s)"

definition step_markInArray :: "mark_env \<Rightarrow> mark_args \<Rightarrow> mark_locals \<Rightarrow> marker \<Rightarrow> mark_outcome option" where
  "step_markInArray e a l s = do {
     (m, next) \<leftarrow> fetchObjptrToPointer (mark_mem s) (todo l) (mark_base e);
     let s = s\<lparr>mark_mem := m\<rparr>;
     let l = l\<lparr>nextp := next\<rparr>;
     if skipped e a next then Some (Goto markNextInArray l s)
     else do {
       let l = l\<lparr>nextHeader := getHeader m next\<rparr>;
       if mark_bit a = nextHeader l AND MARK_MASK
       then do { s \<leftarrow> share_slot e a (todo l) s; Some (Goto markNextInArray l s) }
       else Some (Goto markNext l (on_mark_mem (\<lambda>m. store64 (store64 m (getArrayCounterp (cur l)) (arrayIndex l))
         (getHeaderp (cur l)) (put_counter (header l) (objptrIndex l))) s)) } }"

definition step_markNextInArray :: "mark_locals \<Rightarrow> marker \<Rightarrow> mark_outcome option" where
  "step_markNextInArray l s =
    (let l = l\<lparr>todo := todo l + OBJPTR_SIZE, objptrIndex := objptrIndex l + 1\<rparr> in
     if objptrIndex l < ucast (numObjptrs (otype l)) then Some (Goto markInArray l s)
     else (let l = l\<lparr>arrayIndex := arrayIndex l + 1\<rparr> in
       if arrayIndex l < getArrayLength (mark_mem s) (cur l) then Some (Goto markArrayElt l s)
       else Some (Goto arrayDone l (on_mark_mem (\<lambda>m. store64 (store64 m (getArrayCounterp (cur l)) 0)
         (getHeaderp (cur l)) (header l AND NOT COUNTER_MASK)) s))))"

text \<open>The frame whose return address ends at \<open>frameTop\<close>.\<close>

definition frame_at :: "mark_env \<Rightarrow> mem \<Rightarrow> pointer \<Rightarrow> GC_frameLayout option" where
  "frame_at e m t = getFrameLayoutFromReturnAddress (mark_static e) (load64 m (t - GC_RETURNADDRESS_SIZE))"

definition frameOffset :: "GC_frameLayout \<Rightarrow> nat \<Rightarrow> u16 option" where
  "frameOffset fl i = (if i < length (offsets fl) then Some (offsets fl ! i) else None)"

definition step_markInStack :: "mark_env \<Rightarrow> mark_args \<Rightarrow> mark_locals \<Rightarrow> marker \<Rightarrow> mark_outcome option" where
  "step_markInStack e a l s =
    (if \<not> toContinue l \<or> frameTop l = getStackBottom (cur l) then Some (Goto ret l s)
     else if visitor a \<in> {isWriteCleanMark, isWriteCleanUnmark, isSpawnCleanMark, isSpawnCleanUnmark}
     then Some (Goto ret l (s\<lparr>tmpBool := False\<rparr>))
     else do {
       fl \<leftarrow> frame_at e (mark_mem s) (frameTop l);
       Some (Goto markInFrame (l\<lparr>objptrIndex := 0, frameLayout := fl\<rparr>)
         (on_mark_mem (\<lambda>m. store64 m (cur l) (frameTop l)) s)) })"

definition step_markInFrame :: "mark_env \<Rightarrow> mark_args \<Rightarrow> mark_locals \<Rightarrow> marker \<Rightarrow> mark_outcome option" where
  "step_markInFrame e a l s = do {
     let fl = frameLayout l;
     n \<leftarrow> frameOffset fl 0;
     if objptrIndex l = ucast n
     then Some (Goto markInStack (l\<lparr>frameTop := frameTop l - ucast (size fl)\<rparr>) s)
     else do {
       offset \<leftarrow> frameOffset fl (unat (objptrIndex l + 1));
       let l = l\<lparr>todo := frameTop l - ucast (size fl) + ucast offset\<rparr>;
       (m, next) \<leftarrow> fetchObjptrToPointer (mark_mem s) (todo l) (mark_base e);
       let s = s\<lparr>mark_mem := m\<rparr>;
       let l = l\<lparr>nextp := next\<rparr>;
       if skipped e a next \<or> (sizeEstimationForLifting a \<and> \<not> stack_isParasitic m (cur l))
       then Some (Goto markInFrame (l\<lparr>objptrIndex := objptrIndex l + 1\<rparr>) s)
       else do {
         let l = l\<lparr>nextHeader := getHeader m next\<rparr>;
         if mark_bit a = nextHeader l AND MARK_MASK
         then do {
           s \<leftarrow> share_slot e a (todo l) s;
           Some (Goto markInFrame (l\<lparr>objptrIndex := objptrIndex l + 1\<rparr>) s) }
         else Some (Goto markNext l (on_mark_mem (\<lambda>m. store32 m (cur l + 8) (objptrIndex l)) s)) } } }"

text \<open>The slot of the parent gets its pointer back, and the local variables are recovered from it.\<close>

definition restore_slot :: "mark_env \<Rightarrow> mark_args \<Rightarrow> mark_label \<Rightarrow> mark_locals \<Rightarrow> marker \<Rightarrow> mark_outcome option" where
  "restore_slot e a lab l s = do {
     (m, prev) \<leftarrow> fetchObjptrToPointer (mark_mem s) (todo l) (mark_base e);
     let m = storeObjptrFromPointer m (todo l) (nextp l) (mark_base e);
     let m = (if shouldHashCons a then markIntergenerationalPointer (mark_gc e) m (todo l) else m);
     Some (Goto lab (l\<lparr>prev := prev\<rparr>) (s\<lparr>mark_mem := m\<rparr>)) }"

definition ret_frame :: "mark_env \<Rightarrow> mark_args \<Rightarrow> mark_locals \<Rightarrow> marker \<Rightarrow> mark_outcome option" where
  "ret_frame e a l s = do {
     let l = l\<lparr>objptrIndex := load32 (mark_mem s) (cur l + 8), frameTop := load64 (mark_mem s) (cur l)\<rparr>;
     fl \<leftarrow> frame_at e (mark_mem s) (frameTop l);
     offset \<leftarrow> frameOffset fl (unat (objptrIndex l + 1));
     let l = l\<lparr>frameLayout := fl, todo := frameTop l - ucast (size fl) + ucast offset, objptrIndex := objptrIndex l + 1\<rparr>;
     restore_slot e a markInFrame l s }"

definition step_ret :: "mark_env \<Rightarrow> mark_args \<Rightarrow> mark_locals \<Rightarrow> marker \<Rightarrow> mark_outcome option" where
  "step_ret e a l s =
    (if prev l = 0 then Some (Returns (total_size l) s)
     else do {
       let l = l\<lparr>nextp := cur l, cur := prev l\<rparr>;
       let m = mark_mem s;
       let header = getHeader m (cur l);
       ty \<leftarrow> splitHeader (objectTypes (mark_static e)) header;
       let l = l\<lparr>header := header, otype := ty\<rparr>;
       if tag ty = NORMAL_TAG
       then restore_slot e a markNextInNormal
         (l\<lparr>objptrIndex := get_counter header,
            todo := cur l + ucast (bytesNonObjptrs ty) + ucast (get_counter header) * OBJPTR_SIZE\<rparr>) s
       else if tag ty = ARRAY_TAG
       then restore_slot e a markNextInArray
         (l\<lparr>arrayIndex := getArrayCounter m (cur l), objptrIndex := get_counter header,
            todo := cur l + getArrayCounter m (cur l) * elementBytes ty +
              (ucast (bytesNonObjptrs ty) + ucast (get_counter header) * OBJPTR_SIZE)\<rparr>) s
       else ret_frame e a l s })"

definition mark_step :: "mark_env \<Rightarrow> mark_args \<Rightarrow> mark_label \<Rightarrow> mark_locals \<Rightarrow> marker \<Rightarrow> mark_outcome option" where
  "mark_step e a lab l s = (case lab of
     markNext \<Rightarrow> step_markNext e l s
   | mark_cur \<Rightarrow> step_mark e a l s
   | normalDone \<Rightarrow> step_done e a l s
   | markInNormal \<Rightarrow> step_markInNormal e a l s
   | markNextInNormal \<Rightarrow> step_markNextInNormal l s
   | arrayDone \<Rightarrow> step_done e a l s
   | markArrayElt \<Rightarrow> step_markArrayElt l s
   | markInArray \<Rightarrow> step_markInArray e a l s
   | markNextInArray \<Rightarrow> step_markNextInArray l s
   | markInStack \<Rightarrow> step_markInStack e a l s
   | markInFrame \<Rightarrow> step_markInFrame e a l s
   | ret \<Rightarrow> step_ret e a l s)"

partial_function (option) mark_run :: "mark_env \<Rightarrow> mark_args \<Rightarrow> mark_label \<Rightarrow> mark_locals \<Rightarrow> marker \<Rightarrow> (size_t \<times> marker) option" where
  "mark_run e a lab l s =
    Option.bind (mark_step e a lab l s) (\<lambda>r. case r of
      Goto lab l s \<Rightarrow> mark_run e a lab l s
    | Returns n s \<Rightarrow> Some (n, s))"

definition start_locals :: "pointer \<Rightarrow> GC_header \<Rightarrow> mark_locals" where
  "start_locals root h = \<lparr> total_size = 0, cur = root, prev = 0, nextp = 0, nextHeader = 0, todo = 0, header = h,
     otype = \<lparr> tag = NORMAL_TAG, hasIdentity = False, bytesNonObjptrs = 0, numObjptrs = 0,
       hasIdentityTransitive = False, isUnbounded = False \<rparr>,
     objptrIndex = 0, arrayIndex = 0, frameTop = 0, frameLayout = \<lparr> kind = C_FRAME, offsets = [], size = 0 \<rparr>, toContinue = False \<rparr>"

definition dfsMarkByMode :: "mark_env \<Rightarrow> mark_args \<Rightarrow> pointer \<Rightarrow> marker \<Rightarrow> (size_t \<times> marker) option" where
  "dfsMarkByMode e a root s =
    (if isPointerMarkedByMode (mark_mem s) root (mode a) then Some (0, s)
     else do {
       root \<leftarrow> (if getHeader (mark_mem s) root = GC_FORWARDED
         then fixFwdObjptr_val (mark_mem s) (mark_base e) (pointerToObjptr root (mark_base e)) else Some root);
       if ignoreSharedHeap a \<and> isPointerInHeap (sharedHeap (mark_gc e)) root then Some (0, s)
       else mark_run e a mark_cur (start_locals root (getHeader (mark_mem s) root)) s })"

end
