(* ===== verification/Layout.thy ===== *)
theory Layout
  imports Foreach Allocation
begin

text \<open>
  The layout of a normal object or an array in memory, as its header and length give it: what
  the theories about copying and marking share.
\<close>

section \<open>Layout of an object\<close>

text \<open>Bytes of the header, bytes of the body and the offsets of the pointers in the body.\<close>

record layout =
  hb :: nat
  bb :: nat
  ptrs :: "nat list"

abbreviation bytes_of :: "layout \<Rightarrow> nat" where "bytes_of l \<equiv> hb l + bb l"

definition layout_of :: "gc_static \<Rightarrow> mem \<Rightarrow> pointer \<Rightarrow> layout option" where
  "layout_of g m p = Option.bind (splitHeader (objectTypes g) (getHeader m p)) (\<lambda>ty.
    if tag ty = NORMAL_TAG
    then Some \<lparr> hb = 8, bb = unat (elementBytes ty),
      ptrs = map (\<lambda>i. unat (bytesNonObjptrs ty) + 8 * i) [0..<unat (numObjptrs ty)] \<rparr>
    else if tag ty = ARRAY_TAG
    then Some \<lparr> hb = 24, bb = unat (sizeofArrayNoHeader g (getArrayLength m p) ty),
      ptrs = array_offsets (unat (bytesNonObjptrs ty)) (unat (numObjptrs ty)) (unat (getArrayLength m p)) \<rparr>
    else None)"

text \<open>The elements of an array do not overflow the body.\<close>

definition array_fits :: "gc_static \<Rightarrow> mem \<Rightarrow> pointer \<Rightarrow> layout \<Rightarrow> bool" where
  "array_fits g m p l \<longleftrightarrow> (case splitHeader (objectTypes g) (getHeader m p) of
     Some ty \<Rightarrow> tag ty = ARRAY_TAG \<longrightarrow> unat (getArrayLength m p) * unat (elementBytes ty) \<le> bb l
   | None \<Rightarrow> True)"

lemma ptr_slots_offsets: "ptr_slots (p + of_nat k) n = map (\<lambda>i. p + of_nat (k + 8 * i)) [0..<n]"
  by (simp add: ptr_slots_def add.assoc)

lemma object_walk_layout:
  assumes "layout_of (static e) (wmem w) p = Some l"
    "array_fits (static e) (wmem w) p l" "unat p + bb l < 2 ^ 64"
  shows "foreachObjptrInObject e f skipWeaks p w =
    map_option (Pair (p + of_nat (bb l))) (foreach_slots (callIfIsObjptr f) (map (\<lambda>i. p + of_nat i) (ptrs l)) w)"
proof -
  obtain ty where ty: "splitHeader (objectTypes (static e)) (getHeader (wmem w) p) = Some ty"
    using assms(1) by (auto simp: layout_of_def bind_eq_Some_conv)
  show ?thesis
  proof (cases "tag ty = NORMAL_TAG")
    case True
    then have l: "l = \<lparr> hb = 8, bb = unat (elementBytes ty),
      ptrs = map (\<lambda>i. unat (bytesNonObjptrs ty) + 8 * i) [0..<unat (numObjptrs ty)] \<rparr>"
      using assms(1) ty by (simp add: layout_of_def)
    then have "unat (p + ucast (bytesNonObjptrs ty)) + 8 * unat (numObjptrs ty) < 2 ^ 64"
      using assms(3) unat_step [of p "unat (bytesNonObjptrs ty)"] by (simp add: elementBytes_unat)
    then show ?thesis
      using True ty l ptr_loop_slots [of "p + ucast (bytesNonObjptrs ty)" "unat (numObjptrs ty)" "callIfIsObjptr f" w]
        ptr_slots_offsets [of p "unat (bytesNonObjptrs ty)" "unat (numObjptrs ty)"]
      by (simp add: foreachObjptrInObject_def Let_def OBJPTR_SIZE_def elementBytes_nat mult.commute add.assoc comp_def)
  next
    case False
    then have a: "tag ty = ARRAY_TAG" and l: "l = \<lparr> hb = 24, bb = unat (sizeofArrayNoHeader (static e) (getArrayLength (wmem w) p) ty),
      ptrs = array_offsets (unat (bytesNonObjptrs ty)) (unat (numObjptrs ty)) (unat (getArrayLength (wmem w) p)) \<rparr>"
      using assms(1) ty by (simp_all add: layout_of_def split: if_splits)
    then show ?thesis
      using ty assms(2,3) foreach_array_slots [OF refl, of p w ty "static e" f]
      by (simp add: foreachObjptrInObject_def array_slots_offsets array_fits_def)
  qed
qed

lemma layout_hb: "layout_of g m p = Some l \<Longrightarrow> hb l = 8 \<or> hb l = 24"
  by (auto simp: layout_of_def bind_eq_Some_conv split: if_splits)

lemma load64_shift:
  assumes "\<And>i. i < n \<Longrightarrow> m' (a + of_nat i) = m (b + of_nat i)" "k + 8 \<le> n"
  shows "load64 m' (a + of_nat k) = load64 m (b + of_nat k)"
proof -
  have "m' (a + of_nat k + of_nat i) = m (b + of_nat k + of_nat i)" if "i < 8" for i
    using assms(1) [of "k + i"] assms(2) that by (simp add: add.assoc)
  then show ?thesis
    unfolding load64_def load_bytes_def by (intro arg_cong [of _ _ word_of_bytes] map_cong) auto
qed

lemma layout_ptrs_bound:
  assumes "layout_of g m p = Some l" "array_fits g m p l" "i \<in> set (ptrs l)"
  shows "i + 8 \<le> bb l"
proof -
  obtain ty where ty: "splitHeader (objectTypes g) (getHeader m p) = Some ty" "tag ty = NORMAL_TAG \<or> tag ty = ARRAY_TAG"
    using assms(1) by (auto simp: layout_of_def bind_eq_Some_conv split: if_splits)
  then show ?thesis
    using assms array_offsets_bound [of i "unat (bytesNonObjptrs ty)" "unat (numObjptrs ty)" "unat (getArrayLength m p)"]
    by (auto simp: layout_of_def array_fits_def elementBytes_unat mult.commute [of 8])
qed

lemma layout_ptrs_apart:
  assumes "layout_of g m p = Some l"
  shows "sorted_wrt (\<lambda>i j. i + 8 \<le> j) (ptrs l)"
proof -
  obtain ty where ty: "splitHeader (objectTypes g) (getHeader m p) = Some ty" "tag ty = NORMAL_TAG \<or> tag ty = ARRAY_TAG"
    using assms(1) by (auto simp: layout_of_def bind_eq_Some_conv split: if_splits)
  then show ?thesis
    using assms array_offsets_apart by (auto simp: layout_of_def sorted_wrt_iff_nth_less)
qed

section \<open>Regions\<close>

lemma disjnt_off: "disjnt_regions a k b n \<Longrightarrow> off b x < n \<Longrightarrow> k \<le> off a x"
  using off_offset [of "off b x" n a k b] by simp

lemma sorted_gap:
  fixes xs :: "nat list"
  shows "sorted_wrt (\<lambda>i j. i + 8 \<le> j) xs \<Longrightarrow> i \<in> set xs \<Longrightarrow> j \<in> set xs \<Longrightarrow> i \<noteq> j \<Longrightarrow> i + 8 \<le> j \<or> j + 8 \<le> i"
  by (induction xs) auto

end
