(* ===== verification/Dfs_Graph.thy ===== *)
theory Dfs_Graph
  imports Dfs_Mark Layout
begin

text \<open>
  What \<open>dfsMarkByMode\<close> does to a graph of normal objects, arrays and weak objects, for any
  function it applies.
\<close>

section \<open>Bits of a header\<close>

lemma bit_masks:
  "bit MARK_MASK n \<longleftrightarrow> n = 31" "bit COUNTER_MASK n \<longleftrightarrow> 20 \<le> n \<and> n < 31" "bit TYPE_INDEX_MASK n \<longleftrightarrow> 1 \<le> n \<and> n < 17"
proof -
  have m: "MARK_MASK = push_bit 31 1" "COUNTER_MASK = push_bit 20 (mask 11)" "TYPE_INDEX_MASK = push_bit 1 (mask 16)"
    by (simp_all add: MARK_MASK_def COUNTER_MASK_def TYPE_INDEX_MASK_def mask_eq_exp_minus_1 push_bit_eq_mult)
  show "bit MARK_MASK n \<longleftrightarrow> n = 31" unfolding m(1) by (auto simp only: bit_simps) auto
  show "bit COUNTER_MASK n \<longleftrightarrow> 20 \<le> n \<and> n < 31" unfolding m(2) by (auto simp: bit_simps)
  show "bit TYPE_INDEX_MASK n \<longleftrightarrow> 1 \<le> n \<and> n < 17" unfolding m(3) by (auto simp only: bit_simps) auto
qed

lemma counter_bit:
  fixes i :: u32
  assumes "unat i < 2048" shows "bit i n \<Longrightarrow> n < 11"
proof (rule ccontr)
  assume "bit i n" "\<not> n < 11"
  moreover have "take_bit 11 i = i"
    using assms by (simp add: word_unat_eq_iff unsigned_take_bit_eq take_bit_nat_eq_self)
  ultimately show False by (metis bit_take_bit_iff)
qed

lemma put_counter_bits:
  assumes "unat i < 2048"
  shows "put_counter h i AND MARK_MASK = h AND MARK_MASK" "put_counter h i AND NOT COUNTER_MASK = h AND NOT COUNTER_MASK"
    "get_counter (put_counter h i) = i" "put_counter h i AND TYPE_INDEX_MASK = h AND TYPE_INDEX_MASK"
proof -
  note c = counter_bit [OF assms]
  show "put_counter h i AND MARK_MASK = h AND MARK_MASK"
    by (rule bit_eqI) (auto simp: put_counter_def bit_simps bit_masks COUNTER_SHIFT_def dest: c)
  show "put_counter h i AND NOT COUNTER_MASK = h AND NOT COUNTER_MASK"
    by (rule bit_eqI) (auto simp: put_counter_def bit_simps bit_masks COUNTER_SHIFT_def dest: c)
  show "get_counter (put_counter h i) = i"
    by (rule bit_eqI) (auto simp: get_counter_def put_counter_def bit_simps bit_masks COUNTER_SHIFT_def dest: c)
  show "put_counter h i AND TYPE_INDEX_MASK = h AND TYPE_INDEX_MASK"
    by (rule bit_eqI) (auto simp: put_counter_def bit_simps bit_masks COUNTER_SHIFT_def dest: c)
qed

lemma objectTypeIndex_mask: "objectTypeIndex h = unat (ucast (drop_bit TYPE_INDEX_SHIFT (h AND TYPE_INDEX_MASK)) :: u32)"
proof -
  have "(h AND NOT (LIFT_MASK OR VIRGIN_MASK)) AND TYPE_INDEX_MASK = h AND TYPE_INDEX_MASK"
  proof -
    have "NOT (LIFT_MASK OR VIRGIN_MASK) AND TYPE_INDEX_MASK = TYPE_INDEX_MASK"
      by (simp add: LIFT_MASK_def VIRGIN_MASK_def TYPE_INDEX_MASK_def)
    then show ?thesis by (simp add: and.assoc)
  qed
  then show ?thesis by (simp only: objectTypeIndex_def Let_def)
qed

lemma splitHeader_mask: "h AND TYPE_INDEX_MASK = h' AND TYPE_INDEX_MASK \<Longrightarrow> splitHeader types h = splitHeader types h'"
  by (simp add: splitHeader_def objectTypeIndex_mask)

lemma splitHeader_marked [simp]: "splitHeader types (h XOR MARK_MASK) = splitHeader types h"
  by (rule splitHeader_mask, rule bit_eqI) (auto simp: bit_simps bit_masks)

lemma splitHeader_counter: "unat i < 2048 \<Longrightarrow> splitHeader types (put_counter h i) = splitHeader types h"
  by (rule splitHeader_mask) (simp add: put_counter_bits)

lemma splitHeader_no_counter: "h AND NOT COUNTER_MASK = h' AND NOT COUNTER_MASK \<Longrightarrow> splitHeader types h = splitHeader types h'"
proof (rule splitHeader_mask, rule bit_eqI)
  fix n assume "h AND NOT COUNTER_MASK = h' AND NOT COUNTER_MASK" "possible_bit TYPE(64 word) n"
  then have "bit (h AND NOT COUNTER_MASK) n = bit (h' AND NOT COUNTER_MASK) n" by simp
  then show "bit (h AND TYPE_INDEX_MASK) n = bit (h' AND TYPE_INDEX_MASK) n" by (auto simp: bit_simps bit_masks)
qed

text \<open>The upper half of a header is clear, so a header is not \<open>GC_FORWARDED\<close>.\<close>

definition short_header :: "GC_header \<Rightarrow> bool" where
  "short_header h \<longleftrightarrow> \<not> bit h 32"

lemma short_header_bits:
  "short_header h \<Longrightarrow> h \<noteq> GC_FORWARDED" "short_header (h XOR MARK_MASK) = short_header h"
  "unat i < 2048 \<Longrightarrow> short_header (put_counter h i) = short_header h"
  "short_header (h AND NOT COUNTER_MASK) = short_header h"
  by (auto simp: short_header_def bit_simps bit_masks put_counter_def GC_FORWARDED_def COUNTER_SHIFT_def)

lemma mark_flip:
  "(h XOR MARK_MASK) AND MARK_MASK = 0 \<longleftrightarrow> h AND MARK_MASK \<noteq> 0" "h AND MARK_MASK = 0 \<or> h AND MARK_MASK = MARK_MASK"
  "(h XOR MARK_MASK) XOR MARK_MASK = h" "MARK_MASK \<noteq> 0"
proof -
  have z: "x AND MARK_MASK = (if bit x 31 then MARK_MASK else 0)" for x :: GC_header
    by (rule bit_eqI) (auto simp: bit_simps bit_masks)
  have n: "MARK_MASK \<noteq> 0" by (simp add: MARK_MASK_def)
  have *: "x AND MARK_MASK = 0 \<longleftrightarrow> \<not> bit x 31" for x :: GC_header
    using z [of x] n by simp
  show "(h XOR MARK_MASK) AND MARK_MASK = 0 \<longleftrightarrow> h AND MARK_MASK \<noteq> 0" by (simp add: * bit_simps bit_masks)
  show "h AND MARK_MASK = 0 \<or> h AND MARK_MASK = MARK_MASK"
    using z [of h] by simp
  show "MARK_MASK \<noteq> 0" by (rule n)
qed (simp add: xor.assoc)

section \<open>Flipping mark bits\<close>

lemma header_at: "getHeader m p = load64 m (p - 8)" "getHeaderp p = p - 8" "getArrayCounterp p = p - 24"
  "getArrayCounter m p = load64 m (p - 24)" "getArrayLength m p = load64 m (p - 16)"
  by (simp_all add: getHeader_def getHeaderp_def getArrayCounterp_def getArrayCounter_def getArrayLength_def
    getArrayLengthp_def GC_HEADER_SIZE_def GC_ARRAY_LENGTH_SIZE_def GC_ARRAY_COUNTER_SIZE_def)

primrec flips :: "pointer list \<Rightarrow> mem \<Rightarrow> mem" where
  "flips [] m = m"
| "flips (p # ps) m = flips ps (store64 m (p - 8) (load64 m (p - 8) XOR MARK_MASK))"

definition headers_apart :: "pointer set \<Rightarrow> bool" where
  "headers_apart F \<longleftrightarrow> (\<forall>p\<in>F. \<forall>q\<in>F. p \<noteq> q \<longrightarrow> disjnt_regions (p - 8) 8 (q - 8) 8)"

definition clear_of :: "pointer set \<Rightarrow> pointer \<Rightarrow> bool" where
  "clear_of F x \<longleftrightarrow> (\<forall>p\<in>F. disjnt_regions (p - 8) 8 x 8)"

lemma clear_of_simps [simp]:
  "clear_of {} x" "clear_of (insert p F) x \<longleftrightarrow> disjnt_regions (p - 8) 8 x 8 \<and> clear_of F x"
  "clear_of (F \<union> G) x \<longleftrightarrow> clear_of F x \<and> clear_of G x"
  by (auto simp: clear_of_def)

lemma clear_of_mono: "clear_of G x \<Longrightarrow> F \<subseteq> G \<Longrightarrow> clear_of F x"
  by (auto simp: clear_of_def)

lemma store64_commute:
  assumes "disjnt_regions a 8 b 8"
  shows "store64 (store64 m a v) b w = store64 (store64 m b w) a v"
proof
  fix x
  have "8 \<le> off a x \<or> 8 \<le> off b x" using assms disjnt_off [of a 8 b 8 x] by force
  moreover have "store64 (store64 m a v) b w x = store64 (store64 m b w) a v x" if "8 \<le> off a x"
  proof (cases "8 \<le> off b x")
    case True
    then show ?thesis using that by (simp add: store64_other)
  next
    case False
    define i where "i = off b x"
    then have "i < 8" "x = b + of_nat i" using False by auto
    then show ?thesis
      using that store_bytes_nth [of i "bytes_of_word 8 w" _ b] by (simp add: store64_other) (simp add: store64_def)
  qed
  moreover have "store64 (store64 m a v) b w x = store64 (store64 m b w) a v x" if "8 \<le> off b x" "\<not> 8 \<le> off a x"
  proof -
    define i where "i = off a x"
    then have "i < 8" "x = a + of_nat i" using that by auto
    then show ?thesis
      using that store_bytes_nth [of i "bytes_of_word 8 v" _ a] by (simp add: store64_other) (simp add: store64_def)
  qed
  ultimately show "store64 (store64 m a v) b w x = store64 (store64 m b w) a v x" by blast
qed

lemma flips_load: "clear_of (set ds) x \<Longrightarrow> load64 (flips ds m) x = load64 m x"
  by (induction ds arbitrary: m) (simp_all add: load64_store64_disjnt)

lemma flips_store: "clear_of (set ds) x \<Longrightarrow> flips ds (store64 m x v) = store64 (flips ds m) x v"
proof (induction ds arbitrary: m)
  case (Cons d ds)
  then have "disjnt_regions x 8 (d - 8) 8" by (simp add: disjnt_sym)
  then show ?case using Cons by (simp add: store64_commute [of x] load64_store64_disjnt)
qed simp

lemma flips_append: "flips (ps @ qs) m = flips qs (flips ps m)"
  by (induction ps arbitrary: m) simp_all

lemma headers_apart_clear: "headers_apart F \<Longrightarrow> ds \<subseteq> F \<Longrightarrow> p \<in> F \<Longrightarrow> p \<notin> ds \<Longrightarrow> clear_of ds (p - 8)"
  by (auto simp: headers_apart_def clear_of_def)

lemma flips_header:
  "headers_apart F \<Longrightarrow> set ds \<subseteq> F \<Longrightarrow> distinct ds \<Longrightarrow> p \<in> F \<Longrightarrow>
    load64 (flips ds m) (p - 8) = (if p \<in> set ds then load64 m (p - 8) XOR MARK_MASK else load64 m (p - 8))"
proof (induction ds arbitrary: m)
  case (Cons d ds)
  show ?case
  proof (cases "p = d")
    case True
    then have "clear_of (set ds) (d - 8)" using Cons.prems headers_apart_clear [of F "set ds" d] by simp
    then show ?thesis using True by (simp add: flips_load)
  next
    case False
    then have "disjnt_regions (d - 8) 8 (p - 8) 8" using Cons.prems by (auto simp: headers_apart_def)
    then show ?thesis using False Cons by (simp add: load64_store64_disjnt)
  qed
qed simp

lemma flips_remove:
  assumes "headers_apart F" "set qs \<subseteq> F" "distinct qs" "p \<in> set qs"
  shows "flips qs m = flips (remove1 p qs) (store64 m (p - 8) (load64 m (p - 8) XOR MARK_MASK))"
  using assms
proof (induction qs arbitrary: m)
  case (Cons q qs)
  show ?case
  proof (cases "p = q")
    case False
    then have "disjnt_regions (q - 8) 8 (p - 8) 8" using Cons.prems by (auto simp: headers_apart_def)
    then show ?thesis
      using False Cons by (simp add: load64_store64_disjnt store64_commute disjnt_sym [of "p - 8" 8 "q - 8"])
  qed simp
qed simp

lemma flips_undo:
  "headers_apart F \<Longrightarrow> set ps \<subseteq> F \<Longrightarrow> distinct ps \<Longrightarrow> distinct qs \<Longrightarrow> set qs = set ps \<Longrightarrow> flips qs (flips ps m) = m"
proof (induction ps arbitrary: qs m)
  case (Cons p ps)
  define m1 where "m1 = flips ps (store64 m (p - 8) (load64 m (p - 8) XOR MARK_MASK))"
  have c: "clear_of (set ps) (p - 8)" using Cons.prems headers_apart_clear [of F "set ps" p] by simp
  have "flips qs m1 = flips (remove1 p qs) (store64 m1 (p - 8) (load64 m1 (p - 8) XOR MARK_MASK))"
    using Cons.prems by (intro flips_remove [of F]) auto
  also have "load64 m1 (p - 8) = load64 m (p - 8) XOR MARK_MASK"
    using c by (simp add: m1_def flips_load)
  also have "store64 m1 (p - 8) ((load64 m (p - 8) XOR MARK_MASK) XOR MARK_MASK) = flips ps m"
    using c store64_load64 [of "flips ps m" "p - 8"] by (simp add: m1_def flips_store flips_load mark_flip(3))
  also have "flips (remove1 p qs) (flips ps m) = m"
    using Cons.prems by (intro Cons.IH) (auto simp: set_remove1_eq)
  finally show ?case by (simp add: m1_def)
qed simp

section \<open>The graph\<close>

text \<open>A weak object has no pointers that are followed.\<close>

definition mark_layout :: "gc_static \<Rightarrow> mem \<Rightarrow> pointer \<Rightarrow> layout option" where
  "mark_layout g m p = Option.bind (splitHeader (objectTypes g) (getHeader m p)) (\<lambda>ty.
    if tag ty = WEAK_TAG then Some \<lparr> hb = 8, bb = unat (elementBytes ty), ptrs = [] \<rparr> else layout_of g m p)"

definition start_of :: "(pointer \<Rightarrow> layout) \<Rightarrow> pointer \<Rightarrow> pointer" where
  "start_of L p = p - of_nat (hb (L p))"

definition areas_ok :: "pointer set \<Rightarrow> (pointer \<Rightarrow> layout) \<Rightarrow> bool" where
  "areas_ok F L \<longleftrightarrow> (\<forall>p\<in>F. (hb (L p) = 8 \<or> hb (L p) = 24) \<and> bytes_of (L p) < 2 ^ 64) \<and>
    (\<forall>p\<in>F. \<forall>q\<in>F. p \<noteq> q \<longrightarrow> disjnt_regions (start_of L p) (bytes_of (L p)) (start_of L q) (bytes_of (L q)))"

text \<open>A pointer that is not followed must not lead the read barrier on, nor into an object.\<close>

definition slot_ok :: "mark_env \<Rightarrow> mark_args \<Rightarrow> pointer set \<Rightarrow> (pointer \<Rightarrow> layout) \<Rightarrow> mem \<Rightarrow> objptr \<Rightarrow> bool" where
  "slot_ok e a F L m v \<longleftrightarrow> v \<in> F \<or>
    (skipped e a v \<and> (isObjptr v \<and> v \<noteq> 0 \<longrightarrow> getHeader m v \<noteq> GC_FORWARDED \<and>
       (\<forall>p\<in>F. disjnt_regions (start_of L p) (bytes_of (L p)) (v - 8) 8)))"

definition intact :: "mark_env \<Rightarrow> mark_args \<Rightarrow> pointer set \<Rightarrow> (pointer \<Rightarrow> layout) \<Rightarrow> mem \<Rightarrow> pointer \<Rightarrow> bool" where
  "intact e a F L m p \<longleftrightarrow>
    mark_layout (mark_static e) m p = Some (L p) \<and> array_fits (mark_static e) m p (L p) \<and>
    getHeader m p AND COUNTER_MASK = 0 \<and> (hb (L p) = 24 \<longrightarrow> getArrayCounter m p = 0) \<and>
    (case splitHeader (objectTypes (mark_static e)) (getHeader m p) of
       Some ty \<Rightarrow> unat (numObjptrs ty) \<le> 2048 \<and> (tag ty = WEAK_TAG \<longrightarrow> \<not> shouldLinkWeaks a)
     | None \<Rightarrow> False) \<and>
    (\<forall>i\<in>set (ptrs (L p)). slot_ok e a F L m (load64 m (p + of_nat i)))"

text \<open>The objects \<open>F\<close>, of which \<open>U\<close> have not been visited yet.\<close>

definition graph_ok :: "mark_env \<Rightarrow> mark_args \<Rightarrow> pointer set \<Rightarrow> (pointer \<Rightarrow> layout) \<Rightarrow> pointer set \<Rightarrow> mem \<Rightarrow> bool" where
  "graph_ok e a F L U m \<longleftrightarrow> finite F \<and> 0 \<notin> F \<and> U \<subseteq> F \<and> areas_ok F L \<and>
    (\<forall>p\<in>F. isPointer p \<and> short_header (getHeader m p) \<and> (p \<in> U \<longleftrightarrow> getHeader m p AND MARK_MASK \<noteq> mark_bit a)) \<and>
    (\<forall>p\<in>U. intact e a F L m p)"

inductive_set mark_reach :: "mark_env \<Rightarrow> mark_args \<Rightarrow> (pointer \<Rightarrow> layout) \<Rightarrow> mem \<Rightarrow> pointer set \<Rightarrow> pointer \<Rightarrow> pointer set"
  for e a L m U p where
  mark_reach_self: "p \<in> mark_reach e a L m U p"
| mark_reach_slot: "o' \<in> mark_reach e a L m U p \<Longrightarrow> o' \<in> U \<Longrightarrow> i \<in> set (ptrs (L o')) \<Longrightarrow>
    \<not> skipped e a (load64 m (o' + of_nat i)) \<Longrightarrow> load64 m (o' + of_nat i) \<in> mark_reach e a L m U p"

section \<open>Words of an object\<close>

definition word_of_object :: "(pointer \<Rightarrow> layout) \<Rightarrow> pointer \<Rightarrow> pointer \<Rightarrow> bool" where
  "word_of_object L p x \<longleftrightarrow> (\<exists>k. k + 8 \<le> bytes_of (L p) \<and> x = start_of L p + of_nat k)"

lemma areas_okD:
  assumes "areas_ok F L" "p \<in> F"
  shows "hb (L p) = 8 \<or> hb (L p) = 24" "bytes_of (L p) < 2 ^ 64"
    "q \<in> F \<Longrightarrow> p \<noteq> q \<Longrightarrow> disjnt_regions (start_of L p) (bytes_of (L p)) (start_of L q) (bytes_of (L q))"
  using assms unfolding areas_ok_def by blast+

lemma graph_object_words:
  assumes "areas_ok F L" "p \<in> F"
  shows "word_of_object L p (p - 8)" "hb (L p) = 24 \<Longrightarrow> word_of_object L p (p - 24)"
    "hb (L p) = 24 \<Longrightarrow> word_of_object L p (p - 16)" "i + 8 \<le> bb (L p) \<Longrightarrow> word_of_object L p (p + of_nat i)"
proof -
  note h = areas_okD(1) [OF assms]
  show "word_of_object L p (p - 8)"
    unfolding word_of_object_def start_of_def using h by (intro exI [of _ "hb (L p) - 8"]) auto
  show "word_of_object L p (p - 24)" if "hb (L p) = 24"
    unfolding word_of_object_def start_of_def using that by (intro exI [of _ 0]) auto
  show "word_of_object L p (p - 16)" if "hb (L p) = 24"
    unfolding word_of_object_def start_of_def using that by (intro exI [of _ 8]) auto
  show "word_of_object L p (p + of_nat i)" if "i + 8 \<le> bb (L p)"
    unfolding word_of_object_def start_of_def using that by (intro exI [of _ "hb (L p) + i"]) auto
qed

lemma words_apart:
  assumes "areas_ok F L" "p \<in> F" "q \<in> F" "p \<noteq> q" "word_of_object L p x" "word_of_object L q y"
  shows "disjnt_regions x 8 y 8"
  using assms(5,6) disjnt_sub [OF areas_okD(3) [OF assms(1-4)]] by (auto simp: word_of_object_def)

lemma outside_word:
  assumes "disjnt_regions (start_of L p) (bytes_of (L p)) y 8" "word_of_object L p x"
  shows "disjnt_regions x 8 y 8"
  using assms(2) disjnt_sub [OF assms(1), of _ 8 0 8] by (auto simp: word_of_object_def)

lemma areas_headers_apart: "areas_ok F L \<Longrightarrow> headers_apart F"
  unfolding headers_apart_def using words_apart graph_object_words(1) by blast

lemma own_words_apart:
  assumes "areas_ok F L" "p \<in> F" "hb (L p) = 24"
  shows "disjnt_regions (p - 24) 8 (p - 8) 8" "disjnt_regions (p - 24) 8 (p - 16) 8" "disjnt_regions (p - 8) 8 (p - 16) 8"
  using disjnt_offsets [of 0 8 16 8 "p - 24"] disjnt_offsets [of 0 8 8 8 "p - 24"] disjnt_offsets [of 8 8 16 8 "p - 24"]
  by simp_all

lemma own_slots_apart:
  assumes ok: "areas_ok F L" "p \<in> F" and i: "i + 8 \<le> bb (L p)"
  shows "disjnt_regions (p - 8) 8 (p + of_nat i) 8"
    "hb (L p) = 24 \<Longrightarrow> disjnt_regions (p - 24) 8 (p + of_nat i) 8"
    "hb (L p) = 24 \<Longrightarrow> disjnt_regions (p - 16) 8 (p + of_nat i) 8"
    "j + 8 \<le> bb (L p) \<Longrightarrow> i + 8 \<le> j \<or> j + 8 \<le> i \<Longrightarrow> disjnt_regions (p + of_nat i) 8 (p + of_nat j) 8"
proof -
  have b: "bytes_of (L p) < 2 ^ 64" "8 \<le> hb (L p)" using areas_okD [OF ok] by auto
  show "disjnt_regions (p - 8) 8 (p + of_nat i) 8"
    using disjnt_offsets [of 0 8 "8 + i" 8 "p - 8"] b i by simp
  show "disjnt_regions (p - 24) 8 (p + of_nat i) 8" if "hb (L p) = 24"
    using disjnt_offsets [of 0 8 "24 + i" 8 "p - 24"] b i that by simp
  show "disjnt_regions (p - 16) 8 (p + of_nat i) 8" if "hb (L p) = 24"
    using disjnt_offsets [of 0 8 "16 + i" 8 "p - 16"] b i that by simp
  show "disjnt_regions (p + of_nat i) 8 (p + of_nat j) 8" if "j + 8 \<le> bb (L p)" "i + 8 \<le> j \<or> j + 8 \<le> i"
    using that disjnt_offsets [of i 8 j 8 p] disjnt_offsets [of j 8 i 8 p] b i by auto
qed

section \<open>The memory while an object is scanned\<close>

text \<open>The counters of the object have arbitrary values.\<close>

definition with_counters :: "(pointer \<Rightarrow> layout) \<Rightarrow> pointer \<Rightarrow> u64 \<Rightarrow> GC_header \<Rightarrow> mem \<Rightarrow> mem" where
  "with_counters L p c h m = store64 (if hb (L p) = 24 then store64 m (p - 24) c else m) (p - 8) h"

definition scan_mem :: "(pointer \<Rightarrow> layout) \<Rightarrow> pointer \<Rightarrow> pointer list \<Rightarrow> u64 \<Rightarrow> GC_header \<Rightarrow> mem \<Rightarrow> mem" where
  "scan_mem L p ds c h m = flips ds (with_counters L p c h m)"

lemma with_counters_load:
  "disjnt_regions (p - 8) 8 y 8 \<Longrightarrow> (hb (L p) = 24 \<Longrightarrow> disjnt_regions (p - 24) 8 y 8) \<Longrightarrow>
    load64 (with_counters L p c h m) y = load64 m y"
  by (simp add: with_counters_def load64_store64_disjnt)

lemma clear_of_words:
  assumes "areas_ok F L" "ds \<subseteq> F" "p \<in> F" "p \<notin> ds" "word_of_object L p x"
  shows "clear_of ds x"
  unfolding clear_of_def
proof
  fix d assume "d \<in> ds"
  then show "disjnt_regions (d - 8) 8 x 8"
    using assms by (intro words_apart [where F = F and L = L and p = d and q = p] graph_object_words(1) [where F = F]) auto
qed

lemma clear_of_outside:
  assumes "areas_ok F L" "ds \<subseteq> F" "\<And>p. p \<in> F \<Longrightarrow> disjnt_regions (start_of L p) (bytes_of (L p)) y 8"
  shows "clear_of ds y"
  unfolding clear_of_def using assms outside_word graph_object_words(1) by blast

text \<open>The objects \<open>ds\<close> have been visited from \<open>p\<close>.\<close>

definition scanned :: "pointer set \<Rightarrow> (pointer \<Rightarrow> layout) \<Rightarrow> pointer \<Rightarrow> pointer list \<Rightarrow> bool" where
  "scanned F L p ds \<longleftrightarrow> areas_ok F L \<and> p \<in> F \<and> set ds \<subseteq> F \<and> p \<notin> set ds \<and> distinct ds"

lemma scannedD:
  assumes "scanned F L p ds"
  shows "areas_ok F L" "p \<in> F" "set ds \<subseteq> F" "p \<notin> set ds" "distinct ds"
  using assms by (auto simp: scanned_def)

lemma scan_mem_object:
  assumes sc: "scanned F L p ds" and assms: "q \<in> F" "q \<noteq> p" "q \<notin> set ds" "word_of_object L q y"
  shows "load64 (scan_mem L p ds c h m) y = load64 m y"
proof -
  note ok = scannedD [OF sc]
  have "clear_of (set ds) y" using assms ok by (intro clear_of_words [where F = F and L = L and p = q]) auto
  moreover have "disjnt_regions (p - 8) 8 y 8" "hb (L p) = 24 \<Longrightarrow> disjnt_regions (p - 24) 8 y 8"
    using assms ok words_apart [of F L p q _ y] graph_object_words by blast+
  ultimately show ?thesis by (simp add: scan_mem_def flips_load with_counters_load)
qed

lemma scan_mem_outside:
  assumes sc: "scanned F L p ds" and assms: "\<And>p. p \<in> F \<Longrightarrow> disjnt_regions (start_of L p) (bytes_of (L p)) y 8"
  shows "load64 (scan_mem L p ds c h m) y = load64 m y"
proof -
  note ok = scannedD [OF sc]
  have "clear_of (set ds) y" using assms ok by (intro clear_of_outside [where F = F and L = L]) auto
  moreover have "disjnt_regions (p - 8) 8 y 8" "hb (L p) = 24 \<Longrightarrow> disjnt_regions (p - 24) 8 y 8"
    using assms ok outside_word graph_object_words by blast+
  ultimately show ?thesis by (simp add: scan_mem_def flips_load with_counters_load)
qed

lemma scan_mem_header:
  assumes sc: "scanned F L p ds" and assms: "q \<in> F" "q \<noteq> p"
  shows "load64 (scan_mem L p ds c h m) (q - 8) = (if q \<in> set ds then load64 m (q - 8) XOR MARK_MASK else load64 m (q - 8))"
proof -
  note ok = scannedD [OF sc]
  have "disjnt_regions (p - 8) 8 (q - 8) 8" "hb (L p) = 24 \<Longrightarrow> disjnt_regions (p - 24) 8 (q - 8) 8"
    using assms ok words_apart [of F L p q _ "q - 8"] graph_object_words by blast+
  then show ?thesis
    using flips_header [OF areas_headers_apart [OF ok(1)] ok(3,5) assms(2), of "with_counters L p c h m"]
    by (simp add: scan_mem_def with_counters_load)
qed

lemma scan_mem_own:
  assumes sc: "scanned F L p ds"
  shows "load64 (scan_mem L p ds c h m) (p - 8) = h"
    "hb (L p) = 24 \<Longrightarrow> load64 (scan_mem L p ds c h m) (p - 24) = c"
    "hb (L p) = 24 \<Longrightarrow> load64 (scan_mem L p ds c h m) (p - 16) = load64 m (p - 16)"
    "i + 8 \<le> bb (L p) \<Longrightarrow> load64 (scan_mem L p ds c h m) (p + of_nat i) = load64 m (p + of_nat i)"
proof -
  note ok = scannedD [OF sc]
  have c: "word_of_object L p x \<Longrightarrow> load64 (scan_mem L p ds c h m) x = load64 (with_counters L p c h m) x" for x
    using ok clear_of_words [of F L "set ds" p x] by (simp add: scan_mem_def flips_load)
  note w = graph_object_words [OF ok(1,2)]
  show "load64 (scan_mem L p ds c h m) (p - 8) = h" using c w(1) by (simp add: with_counters_def)
  show "load64 (scan_mem L p ds c h m) (p - 24) = c" if "hb (L p) = 24"
    using that c w(2) own_words_apart [OF ok(1,2)]
    by (simp add: with_counters_def load64_store64_disjnt disjnt_sym [of "p - 8" _ "p - 24"])
  show "load64 (scan_mem L p ds c h m) (p - 16) = load64 m (p - 16)" if "hb (L p) = 24"
    using that c w(3) own_words_apart [OF ok(1,2)] by (simp add: with_counters_load)
  show "load64 (scan_mem L p ds c h m) (p + of_nat i) = load64 m (p + of_nat i)" if "i + 8 \<le> bb (L p)"
    using that c w(4) own_slots_apart [OF ok(1,2) that] by (simp add: with_counters_load)
qed

section \<open>Calls for the objects that an object points to\<close>

lemma mark_bit_flip: "h AND MARK_MASK \<noteq> mark_bit a \<longleftrightarrow> (h XOR MARK_MASK) AND MARK_MASK = mark_bit a"
proof -
  have "h AND MARK_MASK = 0 \<or> h AND MARK_MASK = MARK_MASK" "MARK_MASK \<noteq> 0" by (rule mark_flip)+
  moreover have "(h XOR MARK_MASK) AND MARK_MASK = 0 \<or> (h XOR MARK_MASK) AND MARK_MASK = MARK_MASK" by (rule mark_flip)
  ultimately show ?thesis using mark_flip(1) [of h] by (auto simp: mark_bit_def)
qed

text \<open>The header of an object that is being scanned.\<close>

definition scan_header :: "GC_header \<Rightarrow> GC_header \<Rightarrow> bool" where
  "scan_header h0 h \<longleftrightarrow> h AND NOT COUNTER_MASK = (h0 XOR MARK_MASK) AND NOT COUNTER_MASK"

lemma scan_header_bits:
  assumes "scan_header h0 h"
  shows "h AND MARK_MASK = (h0 XOR MARK_MASK) AND MARK_MASK" "short_header h = short_header h0"
    "splitHeader types h = splitHeader types h0"
proof -
  have b: "bit h n = bit (h0 XOR MARK_MASK) n" if "\<not> (20 \<le> n \<and> n < 31)" "n < 64" for n
  proof -
    have "bit (h AND NOT COUNTER_MASK) n = bit ((h0 XOR MARK_MASK) AND NOT COUNTER_MASK) n"
      using assms by (simp add: scan_header_def)
    then show ?thesis using that by (simp add: bit_and_iff bit_not_iff bit_masks(2))
  qed
  show "h AND MARK_MASK = (h0 XOR MARK_MASK) AND MARK_MASK"
  proof (rule bit_eqI)
    fix n show "bit (h AND MARK_MASK) n = bit ((h0 XOR MARK_MASK) AND MARK_MASK) n"
      using b [of n] by (cases "n = 31") (simp_all add: bit_and_iff bit_masks(1))
  qed
  have "short_header h = short_header (h0 XOR MARK_MASK)" using b [of 32] by (simp add: short_header_def)
  then show "short_header h = short_header h0" by (simp add: short_header_bits)
  show "splitHeader types h = splitHeader types h0"
    using splitHeader_no_counter [of h "h0 XOR MARK_MASK" types] assms by (simp add: scan_header_def)
qed

lemma graph_okD:
  assumes "graph_ok e a F L U m"
  shows "finite F" "0 \<notin> F" "U \<subseteq> F" "areas_ok F L" "p \<in> F \<Longrightarrow> isPointer p" "p \<in> F \<Longrightarrow> short_header (load64 m (p - 8))"
    "p \<in> F \<Longrightarrow> p \<in> U \<longleftrightarrow> load64 m (p - 8) AND MARK_MASK \<noteq> mark_bit a" "p \<in> U \<Longrightarrow> intact e a F L m p"
  using assms unfolding graph_ok_def header_at by blast+

lemma mark_layout_bound:
  assumes "mark_layout g m p = Some l" "array_fits g m p l"
  shows "i \<in> set (ptrs l) \<Longrightarrow> i + 8 \<le> bb l" "sorted_wrt (\<lambda>i j. i + 8 \<le> j) (ptrs l)"
  using assms layout_ptrs_bound layout_ptrs_apart by (auto simp: mark_layout_def bind_eq_Some_conv split: if_splits)

lemma intact_ptrs:
  assumes "intact e a F L m p"
  shows "i \<in> set (ptrs (L p)) \<Longrightarrow> i + 8 \<le> bb (L p)" "sorted_wrt (\<lambda>i j. i + 8 \<le> j) (ptrs (L p))"
  using assms mark_layout_bound [of "mark_static e" m p "L p"] by (auto simp: intact_def)

lemma mark_layout_array: "mark_layout g m p = Some l \<Longrightarrow> hb l \<noteq> 24 \<Longrightarrow> splitHeader (objectTypes g) (getHeader m p) = Some ty \<Longrightarrow> tag ty \<noteq> ARRAY_TAG"
  by (auto simp: mark_layout_def layout_of_def split: if_splits)

lemma intact_cong:
  assumes i: "intact e a F L m p"
    and w: "load64 m' (p - 8) = load64 m (p - 8)" "hb (L p) = 24 \<Longrightarrow> load64 m' (p - 16) = load64 m (p - 16)"
      "hb (L p) = 24 \<Longrightarrow> load64 m' (p - 24) = load64 m (p - 24)"
      "\<And>i. i \<in> set (ptrs (L p)) \<Longrightarrow> load64 m' (p + of_nat i) = load64 m (p + of_nat i)"
    and o: "\<And>v. (\<And>p. p \<in> F \<Longrightarrow> disjnt_regions (start_of L p) (bytes_of (L p)) (v - 8) 8) \<Longrightarrow> load64 m' (v - 8) = load64 m (v - 8)"
  shows "intact e a F L m' p"
proof -
  have l: "mark_layout (mark_static e) m p = Some (L p)" using i by (simp add: intact_def)
  obtain ty where ty: "splitHeader (objectTypes (mark_static e)) (load64 m (p - 8)) = Some ty"
    using l by (auto simp: mark_layout_def bind_eq_Some_conv header_at)
  have len: "load64 m' (p - 16) = load64 m (p - 16)" if "tag ty = ARRAY_TAG"
    using that mark_layout_array [OF l] ty w(2) by (auto simp: header_at)
  have l': "mark_layout (mark_static e) m' p = Some (L p)" "array_fits (mark_static e) m' p (L p)"
    using i l ty w(1) len
    by (auto simp: intact_def mark_layout_def layout_of_def array_fits_def header_at split: if_splits)
  moreover have "slot_ok e a F L m' v" if "slot_ok e a F L m v" for v
    using that o [of v] unfolding slot_ok_def header_at by auto
  ultimately show ?thesis using i w by (auto simp: intact_def header_at)
qed

text \<open>The object \<open>p\<close> is being scanned, \<open>ds\<close> have been visited from it, and one of its slots holds \<open>q\<close>.\<close>

lemma scan_child:
  assumes g: "graph_ok e a F L U m" and p: "p \<in> U" and ds: "set ds \<subseteq> U - {p}" "distinct ds"
    and h: "scan_header (load64 m (p - 8)) h" and i: "i + 8 \<le> bb (L p)"
    and M: "M = store64 (scan_mem L p ds c h m) (p + of_nat i) q"
  shows "graph_ok e a F L (U - {p} - set ds) M"
    "o' \<in> U - {p} - set ds \<Longrightarrow> word_of_object L o' y \<Longrightarrow> load64 M y = load64 m y"
proof -
  note gD = graph_okD [OF g]
  have sc: "scanned F L p ds" using gD(3,4) p ds by (auto simp: scanned_def)
  note ok = scannedD [OF sc]
  have slot: "word_of_object L p (p + of_nat i)" using graph_object_words(4) [OF ok(1,2)] i by blast
  have o_word: "load64 M y = load64 m y" if "o' \<in> U - {p} - set ds" "word_of_object L o' y" for o' y
  proof -
    have "disjnt_regions (p + of_nat i) 8 y 8"
      using that words_apart [OF ok(1,2) _ _ slot] gD(3) by blast
    then show ?thesis
      using that gD(3) scan_mem_object [OF sc] by (auto simp: M load64_store64_disjnt)
  qed
  then show "o' \<in> U - {p} - set ds \<Longrightarrow> word_of_object L o' y \<Longrightarrow> load64 M y = load64 m y" .
  have hdr: "load64 M (o' - 8) = (if o' = p then h else if o' \<in> set ds then load64 m (o' - 8) XOR MARK_MASK else load64 m (o' - 8))"
    if "o' \<in> F" for o'
  proof (cases "o' = p")
    case True
    then show ?thesis
      using scan_mem_own(1) [OF sc] own_slots_apart(1) [OF ok(1,2) i] by (simp add: M load64_store64_disjnt disjnt_sym [of "p + _"])
  next
    case False
    then have "disjnt_regions (p + of_nat i) 8 (o' - 8) 8"
      using that words_apart [OF ok(1,2) _ _ slot] graph_object_words(1) [OF ok(1)] by blast
    then show ?thesis using False that scan_mem_header [OF sc] by (simp add: M load64_store64_disjnt)
  qed
  have out: "load64 M y = load64 m y" if "\<And>p. p \<in> F \<Longrightarrow> disjnt_regions (start_of L p) (bytes_of (L p)) y 8" for y
    using scan_mem_outside [OF sc that] outside_word [OF that [OF ok(2)] slot] by (simp add: M load64_store64_disjnt)
  have b: "short_header (load64 M (o' - 8))" "o' \<in> U - {p} - set ds \<longleftrightarrow> load64 M (o' - 8) AND MARK_MASK \<noteq> mark_bit a" if "o' \<in> F" for o'
  proof -
    have p0: "(load64 m (p - 8) XOR MARK_MASK) AND MARK_MASK = mark_bit a"
      using gD(7) [OF ok(2)] p mark_bit_flip by blast
    show "short_header (load64 M (o' - 8))"
      using hdr [OF that] gD(6) that ok(2) scan_header_bits(2) [OF h] by (simp add: short_header_bits)
    show "o' \<in> U - {p} - set ds \<longleftrightarrow> load64 M (o' - 8) AND MARK_MASK \<noteq> mark_bit a"
      using hdr [OF that] gD(7) [OF that] p0 scan_header_bits(1) [OF h] ds(1) mark_bit_flip [of "load64 m (o' - 8)" a]
      by auto
  qed
  have "intact e a F L M o'" if o': "o' \<in> U - {p} - set ds" for o'
  proof (rule intact_cong [OF gD(8)])
    have F: "o' \<in> F" using o' gD(3) by blast
    note w = graph_object_words [OF ok(1) F]
    show "o' \<in> U" using o' by blast
    show "load64 M (o' - 8) = load64 m (o' - 8)" using o_word [OF o'] w by blast
    show "load64 M (o' - 16) = load64 m (o' - 16)" if "hb (L o') = 24" using that o_word [OF o'] w by blast
    show "load64 M (o' - 24) = load64 m (o' - 24)" if "hb (L o') = 24" using that o_word [OF o'] w by blast
    show "load64 M (o' + of_nat i) = load64 m (o' + of_nat i)" if "i \<in> set (ptrs (L o'))" for i
      using that o_word [OF o'] w intact_ptrs(1) [OF gD(8)] o' by blast
  qed (rule out)
  then show "graph_ok e a F L (U - {p} - set ds) M"
    unfolding graph_ok_def header_at using gD b by blast
qed

end
