(* ===== verification/Dfs_Steps.thy ===== *)
theory Dfs_Steps
  imports Dfs_Graph
begin

section \<open>Steps of the machine\<close>

lemma run_step: "mark_step e a lab l s = Some (Goto lab' l' s') \<Longrightarrow> mark_run e a lab l s = mark_run e a lab' l' s'"
  by (subst mark_run.simps) simp

lemma length_array_offsets [simp]: "length (array_offsets b q n) = n * q"
  by (induction n) simp_all

lemma array_offsets_nth:
  "i < n \<Longrightarrow> j < q \<Longrightarrow> array_offsets b q n ! (i * q + j) = i * (b + 8 * q) + b + 8 * j"
proof (induction n arbitrary: i)
  case (Suc n)
  show ?case
  proof (cases i)
    case 0
    then show ?thesis using Suc.prems by (simp add: nth_append)
  next
    case (Suc i')
    have b: "i' * q + j < n * q"
    proof -
      have "i' * q + j < i' * q + q" using Suc.prems by simp
      also have "\<dots> \<le> n * q" using Suc Suc.prems mult_le_mono1 [of "Suc i'" n q] by simp
      finally show ?thesis .
    qed
    then show ?thesis using Suc Suc.IH [of i'] Suc.prems by (simp add: nth_append)
  qed
qed simp

lemma fetch_plain:
  "(isObjptr (load64 M x) \<Longrightarrow> load64 M x \<noteq> 0 \<Longrightarrow> load64 M (load64 M x - 8) \<noteq> GC_FORWARDED) \<Longrightarrow>
    fetchObjptrToPointer M x B = Some (M, load64 M x)"
  by (auto simp: fetchObjptrToPointer_def fixFwdObjptr_def fixFwd_loop.simps header_at)

text \<open>The object \<open>p\<close> with the layout \<open>l\<close> has the type \<open>ty\<close>; \<open>len\<close> is its length, of an array.\<close>

definition typed :: "gc_static \<Rightarrow> layout \<Rightarrow> GC_objectType \<Rightarrow> u64 \<Rightarrow> bool" where
  "typed g l ty len \<longleftrightarrow> unat (numObjptrs ty) \<le> 2048 \<and> bytes_of l < 2 ^ 64 \<and>
    (if tag ty = NORMAL_TAG
     then l = \<lparr> hb = 8, bb = unat (elementBytes ty), ptrs = map (\<lambda>i. unat (bytesNonObjptrs ty) + 8 * i) [0..<unat (numObjptrs ty)] \<rparr>
     else if tag ty = WEAK_TAG then l = \<lparr> hb = 8, bb = unat (elementBytes ty), ptrs = [] \<rparr>
     else tag ty = ARRAY_TAG \<and> unat len * unat (elementBytes ty) \<le> bb l \<and>
       l = \<lparr> hb = 24, bb = unat (sizeofArrayNoHeader g len ty),
         ptrs = array_offsets (unat (bytesNonObjptrs ty)) (unat (numObjptrs ty)) (unat len) \<rparr>)"

text \<open>Before and after the slot number \<open>k\<close> of \<open>p\<close>.\<close>

definition at_slot :: "mark_label \<Rightarrow> mark_label \<Rightarrow> GC_header \<Rightarrow> layout \<Rightarrow> GC_objectType \<Rightarrow> pointer \<Rightarrow> nat \<Rightarrow> mark_label \<Rightarrow> mark_locals \<Rightarrow> bool" where
  "at_slot nl al h0 ly ty p k lab l \<longleftrightarrow> k < length (ptrs ly) \<and> cur l = p \<and> otype l = ty \<and> scan_header h0 (header l) \<and>
    todo l = p + of_nat (ptrs ly ! k) \<and>
    (if tag ty = NORMAL_TAG then lab = nl \<and> objptrIndex l = of_nat k
     else tag ty = ARRAY_TAG \<and> lab = al \<and> arrayIndex l = of_nat (k div unat (numObjptrs ty)) \<and>
       objptrIndex l = of_nat (k mod unat (numObjptrs ty)))"

abbreviation before_slot :: "GC_header \<Rightarrow> layout \<Rightarrow> GC_objectType \<Rightarrow> pointer \<Rightarrow> nat \<Rightarrow> mark_label \<Rightarrow> mark_locals \<Rightarrow> bool" where
  "before_slot \<equiv> at_slot markInNormal markInArray"

abbreviation after_slot :: "GC_header \<Rightarrow> layout \<Rightarrow> GC_objectType \<Rightarrow> pointer \<Rightarrow> nat \<Rightarrow> mark_label \<Rightarrow> mark_locals \<Rightarrow> bool" where
  "after_slot \<equiv> at_slot markNextInNormal markNextInArray"

definition same_call :: "mark_locals \<Rightarrow> mark_locals \<Rightarrow> bool" where
  "same_call l l' \<longleftrightarrow> prev l' = prev l \<and> total_size l' = total_size l"

lemma skip_slot:
  assumes hc: "\<not> shouldHashCons a" and b: "before_slot h0 ly ty p k lab l"
    and v: "v = load64 (mark_mem s) (p + of_nat (ptrs ly ! k))"
    and f: "isObjptr v \<Longrightarrow> v \<noteq> 0 \<Longrightarrow> load64 (mark_mem s) (v - 8) \<noteq> GC_FORWARDED"
    and skip: "skipped e a v \<or> load64 (mark_mem s) (v - 8) AND MARK_MASK = mark_bit a"
  shows "\<exists>lab' l'. mark_run e a lab l s = mark_run e a lab' l' s \<and> after_slot h0 ly ty p k lab' l' \<and> same_call l l'"
proof -
  have D: "cur l = p" "todo l = p + of_nat (ptrs ly ! k)" "lab = (if tag ty = NORMAL_TAG then markInNormal else markInArray)"
    using b by (auto simp: at_slot_def split: if_splits)
  have fetch: "fetchObjptrToPointer (mark_mem s) (p + of_nat (ptrs ly ! k)) (mark_base e) = Some (mark_mem s, v)"
    using f fetch_plain [of "mark_mem s"] by (auto simp: v)
  let ?l = "if skipped e a v then l\<lparr>nextp := v\<rparr> else l\<lparr>nextp := v, nextHeader := load64 (mark_mem s) (v - 8)\<rparr>"
  let ?lab = "if tag ty = NORMAL_TAG then markNextInNormal else markNextInArray"
  have "mark_step e a lab l s = Some (Goto ?lab ?l s)"
    using skip hc by (auto simp: mark_step_def step_markInNormal_def step_markInArray_def fetch D share_slot_def header_at)
  moreover have "after_slot h0 ly ty p k ?lab ?l" "same_call l ?l"
    using b by (auto simp: at_slot_def same_call_def)
  ultimately show ?thesis using run_step by blast
qed

text \<open>What the counters say when the object \<open>p\<close> is left at its slot number \<open>k\<close>.\<close>

definition slot_header :: "GC_objectType \<Rightarrow> nat \<Rightarrow> GC_header \<Rightarrow> GC_header" where
  "slot_header ty k h = put_counter h (if tag ty = NORMAL_TAG then of_nat k else of_nat (k mod unat (numObjptrs ty)))"

definition slot_count :: "GC_objectType \<Rightarrow> nat \<Rightarrow> u64" where
  "slot_count ty k = of_nat (k div unat (numObjptrs ty))"

lemma slot_index:
  assumes "typed g ly ty len" "k < length (ptrs ly)"
  shows "unat (of_nat (if tag ty = NORMAL_TAG then k else k mod unat (numObjptrs ty)) :: u32) < 2048"
    "tag ty = NORMAL_TAG \<or> (tag ty = ARRAY_TAG \<and> 0 < numObjptrs ty \<and> k div unat (numObjptrs ty) < unat len)"
proof -
  have *: "tag ty = NORMAL_TAG \<and> k < unat (numObjptrs ty) \<or>
    tag ty = ARRAY_TAG \<and> k < unat len * unat (numObjptrs ty)"
    using assms by (auto simp: typed_def split: if_splits)
  then have n: "0 < unat (numObjptrs ty)" by (cases "unat (numObjptrs ty)") auto
  have "(if tag ty = NORMAL_TAG then k else k mod unat (numObjptrs ty)) < unat (numObjptrs ty)" (is "?i < _")
    using * n by auto
  then have "?i < 2048" using assms(1) by (simp add: typed_def)
  then show "unat (of_nat ?i :: u32) < 2048" by (simp add: unat_of_nat)
  show "tag ty = NORMAL_TAG \<or> (tag ty = ARRAY_TAG \<and> 0 < numObjptrs ty \<and> k div unat (numObjptrs ty) < unat len)"
    using * n by (auto simp: less_mult_imp_div_less unat_gt_0 word_neq_0_conv)
qed

lemma slot_header_facts:
  assumes "typed g ly ty len" "k < length (ptrs ly)"
  shows "scan_header h0 h \<Longrightarrow> scan_header h0 (slot_header ty k h)"
    "get_counter (slot_header ty k h) = (if tag ty = NORMAL_TAG then of_nat k else of_nat (k mod unat (numObjptrs ty)))"
  using put_counter_bits [OF slot_index(1) [OF assms]] by (auto simp: slot_header_def scan_header_def)

lemma descend:
  assumes b: "before_slot h0 (L p) ty p k lab l" and t: "typed g (L p) ty len"
    and v: "v = load64 (mark_mem s) (p + of_nat (ptrs (L p) ! k))"
    and f: "isObjptr v \<Longrightarrow> v \<noteq> 0 \<Longrightarrow> load64 (mark_mem s) (v - 8) \<noteq> GC_FORWARDED"
    and go: "\<not> skipped e a v" "load64 (mark_mem s) (v - 8) AND MARK_MASK \<noteq> mark_bit a"
  shows "\<exists>l'. mark_run e a lab l s = mark_run e a mark_cur l' (s\<lparr>mark_mem := store64
      (with_counters L p (slot_count ty k) (slot_header ty k (header l)) (mark_mem s)) (p + of_nat (ptrs (L p) ! k)) (prev l)\<rparr>) \<and>
    cur l' = v \<and> prev l' = p \<and> header l' = load64 (mark_mem s) (v - 8) \<and> total_size l' = total_size l"
proof -
  have D: "cur l = p" "todo l = p + of_nat (ptrs (L p) ! k)" "lab = (if tag ty = NORMAL_TAG then markInNormal else markInArray)"
    using b by (auto simp: at_slot_def split: if_splits)
  have fetch: "fetchObjptrToPointer (mark_mem s) (p + of_nat (ptrs (L p) ! k)) (mark_base e) = Some (mark_mem s, v)"
    using f fetch_plain [of "mark_mem s"] by (auto simp: v)
  have i: "tag ty = NORMAL_TAG \<Longrightarrow> objptrIndex l = of_nat k"
    "tag ty \<noteq> NORMAL_TAG \<Longrightarrow> objptrIndex l = of_nat (k mod unat (numObjptrs ty)) \<and> arrayIndex l = slot_count ty k"
    using b by (auto simp: at_slot_def slot_count_def)
  have hb: "hb (L p) = (if tag ty = NORMAL_TAG then 8 else 24)"
    using b t by (auto simp: typed_def at_slot_def split: if_splits)
  let ?l = "l\<lparr>nextp := v, nextHeader := load64 (mark_mem s) (v - 8)\<rparr>"
  have step: "mark_step e a lab l s = Some (Goto markNext ?l
    (s\<lparr>mark_mem := with_counters L p (slot_count ty k) (slot_header ty k (header l)) (mark_mem s)\<rparr>))"
    using go i hb by (auto simp: mark_step_def step_markInNormal_def step_markInArray_def fetch D header_at with_counters_def slot_header_def)
  have step2: "mark_step e a markNext ?l s' = Some (Goto mark_cur (?l\<lparr>header := load64 (mark_mem s) (v - 8), prev := p, cur := v\<rparr>)
    (s'\<lparr>mark_mem := store64 (mark_mem s') (p + of_nat (ptrs (L p) ! k)) (prev l)\<rparr>))" for s'
    by (simp add: mark_step_def step_markNext_def storeObjptrFromPointer_def D)
  show ?thesis
    unfolding run_step [OF step] run_step [OF step2] by (intro exI conjI, rule arg_cong [of _ _ "mark_run e a mark_cur _"]) simp_all
qed

lemma typed_normal:
  assumes "typed g ly ty len" "tag ty = NORMAL_TAG"
  shows "length (ptrs ly) = unat (numObjptrs ty)" "unat (numObjptrs ty) \<le> 2048" "hb ly = 8"
    "k < length (ptrs ly) \<Longrightarrow> ptrs ly ! k = unat (bytesNonObjptrs ty) + 8 * k"
  using assms by (auto simp: typed_def)

lemma typed_array:
  assumes "typed g ly ty len" "tag ty = ARRAY_TAG"
  shows "length (ptrs ly) = unat len * unat (numObjptrs ty)" "unat (numObjptrs ty) \<le> 2048" "hb ly = 24"
    "k < length (ptrs ly) \<Longrightarrow> ptrs ly ! k = k div unat (numObjptrs ty) * (unat (bytesNonObjptrs ty) + 8 * unat (numObjptrs ty)) +
      unat (bytesNonObjptrs ty) + 8 * (k mod unat (numObjptrs ty))"
proof -
  let ?n = "unat (numObjptrs ty)"
  have l: "ptrs ly = array_offsets (unat (bytesNonObjptrs ty)) ?n (unat len)" "?n \<le> 2048" "hb ly = 24"
    using assms by (auto simp: typed_def)
  then show "length (ptrs ly) = unat len * ?n" "?n \<le> 2048" "hb ly = 24" by simp_all
  assume "k < length (ptrs ly)"
  then have k: "k < unat len * ?n" using l by simp
  then have n: "0 < ?n" by (cases ?n) auto
  have "ptrs ly ! (k div ?n * ?n + k mod ?n) = k div ?n * (unat (bytesNonObjptrs ty) + 8 * ?n) + unat (bytesNonObjptrs ty) + 8 * (k mod ?n)"
    unfolding l(1) using k n by (intro array_offsets_nth) (auto simp: less_mult_imp_div_less)
  then show "ptrs ly ! k = k div ?n * (unat (bytesNonObjptrs ty) + 8 * ?n) + unat (bytesNonObjptrs ty) + 8 * (k mod ?n)"
    by simp
qed

lemma u32_index: "i < 2048 \<Longrightarrow> n \<le> 2048 \<Longrightarrow> unat (n' :: u16) = n \<Longrightarrow> (of_nat i + 1 :: u32) = ucast n' \<longleftrightarrow> Suc i = n"
  "i < 2048 \<Longrightarrow> n \<le> 2048 \<Longrightarrow> unat n' = n \<Longrightarrow> (of_nat i + 1 :: u32) < ucast n' \<longleftrightarrow> Suc i < n"
proof -
  assume a: "i < 2048" "n \<le> 2048" "unat n' = n"
  have "unat (of_nat (Suc i) :: u32) = Suc i"
    using a take_bit_nat_eq_self [of "Suc i" 32] by (simp add: unsigned_of_nat del: of_nat_Suc)
  then have 1: "unat (of_nat i + 1 :: u32) = Suc i" by (simp add: add.commute)
  have 2: "unat (ucast n' :: u32) = n" using a take_bit_nat_eq_self [of n 32] by (simp add: unsigned_ucast_eq)
  show "(of_nat i + 1 :: u32) = ucast n' \<longleftrightarrow> Suc i = n" using 1 2 by (simp add: word_unat_eq_iff)
  show "(of_nat i + 1 :: u32) < ucast n' \<longleftrightarrow> Suc i < n" using 1 2 by (simp add: word_less_nat_alt)
qed

lemma ucast_nat: "(ucast (x :: u16) :: u64) = of_nat (unat x)"
  by simp

lemma scan_next_slot:
  assumes t: "typed g ly ty len" and b: "after_slot h0 ly ty p k lab l" and k: "Suc k < length (ptrs ly)"
    and len: "hb ly = 24 \<Longrightarrow> load64 (mark_mem s) (p - 16) = len"
  shows "\<exists>lab' l'. mark_run e a lab l s = mark_run e a lab' l' s \<and> before_slot h0 ly ty p (Suc k) lab' l' \<and> same_call l l'"
proof (cases "tag ty = NORMAL_TAG")
  case True
  note n = typed_normal [OF t True]
  have D: "cur l = p" "todo l = p + of_nat (ptrs ly ! k)" "lab = markNextInNormal" "objptrIndex l = of_nat k" "otype l = ty"
    "scan_header h0 (header l)"
    using b True by (auto simp: at_slot_def)
  have "objptrIndex l + 1 \<noteq> ucast (numObjptrs (otype l))"
    using u32_index(1) [OF _ n(2) refl, of k] k n(1,2) by (simp add: D)
  then have "mark_step e a lab l s = Some (Goto markInNormal (l\<lparr>objptrIndex := objptrIndex l + 1, todo := todo l + OBJPTR_SIZE\<rparr>) s)"
    by (simp add: mark_step_def step_markNextInNormal_def D(3))
  moreover have "before_slot h0 ly ty p (Suc k) markInNormal (l\<lparr>objptrIndex := objptrIndex l + 1, todo := todo l + OBJPTR_SIZE\<rparr>)"
    using True k D n(4) by (simp add: at_slot_def OBJPTR_SIZE_def add.commute)
  ultimately show ?thesis using run_step by (fastforce simp: same_call_def)
next
  case False
  let ?n = "unat (numObjptrs ty)"
  have a: "tag ty = ARRAY_TAG" using b False by (simp add: at_slot_def)
  note n = typed_array [OF t a]
  have D: "cur l = p" "todo l = p + of_nat (ptrs ly ! k)" "lab = markNextInArray" "objptrIndex l = of_nat (k mod ?n)"
    "arrayIndex l = of_nat (k div ?n)" "otype l = ty" "scan_header h0 (header l)"
    using b False by (auto simp: at_slot_def)
  have n0: "0 < ?n" using k n(1) by (cases ?n) auto
  then have "k mod ?n < ?n" by simp
  then have m2: "k mod ?n < 2048" using n(2) by linarith
  have sk: "Suc k < unat len * ?n" using k n(1) by simp
  define l1 where "l1 = l\<lparr>todo := todo l + OBJPTR_SIZE, objptrIndex := objptrIndex l + 1\<rparr>"
  show ?thesis
  proof (cases "Suc (k mod ?n) < ?n")
    case True
    have dm: "Suc k div ?n = k div ?n" "Suc k mod ?n = Suc (k mod ?n)" using True by (simp_all add: div_Suc mod_Suc)
    have "mark_step e a lab l s = Some (Goto markInArray l1 s)"
      using u32_index(2) [OF m2 n(2) refl] True by (simp add: mark_step_def step_markNextInArray_def D l1_def)
    moreover have "before_slot h0 ly ty p (Suc k) markInArray l1"
      using False a k D n(4) dm by (simp add: at_slot_def OBJPTR_SIZE_def l1_def algebra_simps)
    moreover have "same_call l l1" by (simp add: l1_def same_call_def)
    ultimately show ?thesis using run_step by blast
  next
    case end_elt: False
    then have e: "Suc (k mod ?n) = ?n" using \<open>k mod ?n < ?n\<close> by linarith
    then have dm: "Suc k div ?n = Suc (k div ?n)" "Suc k mod ?n = 0" by (simp_all add: div_Suc mod_Suc)
    have lt: "Suc (k div ?n) < unat len" using sk dm(1) less_mult_imp_div_less [of "Suc k" "unat len" ?n] by simp
    have "unat (of_nat (k div ?n) + 1 :: u64) = Suc (k div ?n)"
      using unat_of_nat_lt [of "Suc (k div ?n)" len] lt by (simp add: add.commute)
    then have lt': "of_nat (k div ?n) + 1 < len" using lt by (simp add: word_less_nat_alt)
    define l2 where "l2 = l1\<lparr>arrayIndex := arrayIndex l1 + 1\<rparr>"
    define l3 where "l3 = l2\<lparr>objptrIndex := 0, todo := todo l2 + ucast (bytesNonObjptrs ty)\<rparr>"
    have s1: "mark_step e a lab l s = Some (Goto markArrayElt l2 s)"
      using u32_index(2) [OF m2 n(2) refl] end_elt lt' len n(3)
      by (simp add: mark_step_def step_markNextInArray_def D l1_def l2_def header_at)
    have s2: "mark_step e a markArrayElt l2 s = Some (Goto markInArray l3 s)"
      by (simp add: mark_step_def step_markArrayElt_def l3_def) (simp add: l2_def l1_def D)
    have "ptrs ly ! Suc k = ptrs ly ! k + 8 + unat (bytesNonObjptrs ty)"
    proof -
      have "ptrs ly ! Suc k = Suc (k div ?n) * (unat (bytesNonObjptrs ty) + 8 * ?n) + unat (bytesNonObjptrs ty)"
        using n(4) [OF k] dm by simp
      moreover have "ptrs ly ! k = k div ?n * (unat (bytesNonObjptrs ty) + 8 * ?n) + unat (bytesNonObjptrs ty) + 8 * (k mod ?n)"
        using n(4) k by simp
      moreover have "8 * ?n = 8 * (k mod ?n) + 8" using e by simp
      ultimately show ?thesis by (simp add: algebra_simps)
    qed
    then have "before_slot h0 ly ty p (Suc k) markInArray l3"
      using False a k D dm by (simp add: at_slot_def OBJPTR_SIZE_def l1_def l2_def l3_def add.commute add.left_commute)
    moreover have "same_call l l3" by (simp add: l1_def l2_def l3_def same_call_def)
    ultimately show ?thesis unfolding run_step [OF s1] run_step [OF s2] by blast
  qed
qed

lemma last_slot:
  assumes t: "typed g (L p) ty len" and b: "after_slot h0 (L p) ty p k lab l" and k: "Suc k = length (ptrs (L p))"
    and hc: "\<not> shouldHashCons a" and len: "hb (L p) = 24 \<Longrightarrow> load64 (mark_mem s) (p - 16) = len"
  shows "\<exists>l'. mark_run e a lab l s = mark_run e a ret l'
      (s\<lparr>mark_mem := with_counters L p 0 (header l AND NOT COUNTER_MASK) (mark_mem s)\<rparr>) \<and> cur l' = p \<and> same_call l l'"
proof (cases "tag ty = NORMAL_TAG")
  case True
  note n = typed_normal [OF t True]
  have D: "cur l = p" "lab = markNextInNormal" "objptrIndex l = of_nat k" "otype l = ty"
    using b True by (auto simp: at_slot_def)
  have "objptrIndex l + 1 = ucast (numObjptrs (otype l))"
    using u32_index(1) [OF _ n(2) refl, of k] k n(1,2) by (simp add: D)
  then have s1: "mark_step e a lab l s = Some (Goto normalDone (l\<lparr>objptrIndex := objptrIndex l + 1\<rparr>)
      (s\<lparr>mark_mem := with_counters L p 0 (header l AND NOT COUNTER_MASK) (mark_mem s)\<rparr>))"
    using n(3) by (simp add: mark_step_def step_markNextInNormal_def D with_counters_def header_at)
  have s2: "mark_step e a normalDone l' s' = Some (Goto ret l' s')" for l' s'
    using hc by (simp add: mark_step_def step_done_def)
  show ?thesis
    unfolding run_step [OF s1] run_step [OF s2] by (intro exI conjI, rule refl) (simp_all add: D same_call_def)
next
  case False
  let ?n = "unat (numObjptrs ty)"
  have a: "tag ty = ARRAY_TAG" using b False by (simp add: at_slot_def)
  note n = typed_array [OF t a]
  have D: "cur l = p" "lab = markNextInArray" "objptrIndex l = of_nat (k mod ?n)" "arrayIndex l = of_nat (k div ?n)" "otype l = ty"
    using b False by (auto simp: at_slot_def)
  have n0: "0 < ?n" using k n(1) by (cases ?n) auto
  then have "k mod ?n < ?n" by simp
  then have m2: "k mod ?n < 2048" using n(2) by linarith
  have sk: "Suc k = unat len * ?n" using k n(1) by simp
  have "Suc k mod ?n = 0" "Suc k div ?n = unat len" using sk n0 by simp_all
  then have e: "\<not> Suc (k mod ?n) < ?n" "Suc (k div ?n) = unat len" by (auto simp: mod_Suc div_Suc split: if_splits)
  have "(of_nat (k div ?n) + 1 :: u64) = of_nat (Suc (k div ?n))" by simp
  then have e': "(of_nat (k div ?n) + 1 :: u64) = len" unfolding e(2) by simp
  define l2 where "l2 = l\<lparr>todo := todo l + OBJPTR_SIZE, objptrIndex := objptrIndex l + 1, arrayIndex := arrayIndex l + 1\<rparr>"
  have s1: "mark_step e a lab l s = Some (Goto arrayDone l2
      (s\<lparr>mark_mem := with_counters L p 0 (header l AND NOT COUNTER_MASK) (mark_mem s)\<rparr>))"
    using u32_index(2) [OF m2 n(2) refl] e(1) e' len n(3)
    by (simp add: mark_step_def step_markNextInArray_def D with_counters_def header_at l2_def)
  have s2: "mark_step e a arrayDone l' s' = Some (Goto ret l' s')" for l' s'
    using hc by (simp add: mark_step_def step_done_def)
  show ?thesis
    unfolding run_step [OF s1] run_step [OF s2] by (intro exI conjI, rule refl) (simp_all add: D same_call_def l2_def)
qed

lemma u32_u64: "i < 2048 \<Longrightarrow> (ucast (of_nat i :: u32) :: u64) = of_nat i"
proof -
  assume "i < 2048"
  then have "unat (of_nat i :: u32) = i"
    using take_bit_nat_eq_self [of i 32] by (simp add: unsigned_of_nat)
  moreover have "(ucast (of_nat i :: u32) :: u64) = of_nat (unat (of_nat i :: u32))" by simp
  ultimately show ?thesis by simp
qed

lemma slot_address:
  assumes t: "typed g ly ty len" and k: "k < length (ptrs ly)"
  shows "tag ty = NORMAL_TAG \<Longrightarrow> p + ucast (bytesNonObjptrs ty) + ucast (of_nat k :: u32) * OBJPTR_SIZE = p + of_nat (ptrs ly ! k)"
    "tag ty = ARRAY_TAG \<Longrightarrow> p + slot_count ty k * elementBytes ty +
      (ucast (bytesNonObjptrs ty) + ucast (of_nat (k mod unat (numObjptrs ty)) :: u32) * OBJPTR_SIZE) = p + of_nat (ptrs ly ! k)"
proof -
  show "p + ucast (bytesNonObjptrs ty) + ucast (of_nat k :: u32) * OBJPTR_SIZE = p + of_nat (ptrs ly ! k)" if n: "tag ty = NORMAL_TAG"
  proof -
    have "ptrs ly ! k = unat (bytesNonObjptrs ty) + 8 * k" "k < 2048"
      using typed_normal [OF t n] k by auto
    then show ?thesis by (simp add: u32_u64 OBJPTR_SIZE_def)
  qed
  show "p + slot_count ty k * elementBytes ty +
      (ucast (bytesNonObjptrs ty) + ucast (of_nat (k mod unat (numObjptrs ty)) :: u32) * OBJPTR_SIZE) = p + of_nat (ptrs ly ! k)"
    if a: "tag ty = ARRAY_TAG"
  proof -
    let ?n = "unat (numObjptrs ty)"
    note n = typed_array [OF t a]
    have "0 < ?n" using k n(1) by (cases ?n) auto
    then have "k mod ?n < ?n" by simp
    then have "k mod ?n < 2048" using n(2) by linarith
    then have i: "(ucast (of_nat (k mod ?n) :: u32) :: u64) = of_nat (k mod ?n)" by (rule u32_u64)
    show ?thesis unfolding n(4) [OF k] i elementBytes_nat slot_count_def OBJPTR_SIZE_def by (simp add: algebra_simps)
  qed
qed

lemma return_slot:
  assumes t: "typed g (L p) ty len" and k: "k < length (ptrs (L p))" and hc: "\<not> shouldHashCons a"
    and l: "cur l = v" "prev l = p" "p \<noteq> 0"
    and h: "load64 (mark_mem s) (p - 8) = slot_header ty k h" "scan_header h0 h"
      "splitHeader (objectTypes (mark_static e)) h0 = Some ty"
      "hb (L p) = 24 \<Longrightarrow> load64 (mark_mem s) (p - 24) = slot_count ty k"
    and q: "load64 (mark_mem s) (p + of_nat (ptrs (L p) ! k)) = q" "q = 0 \<or> load64 (mark_mem s) (q - 8) \<noteq> GC_FORWARDED"
  shows "\<exists>lab' l'. mark_run e a ret l s = mark_run e a lab' l' (s\<lparr>mark_mem := store64 (mark_mem s) (p + of_nat (ptrs (L p) ! k)) v\<rparr>) \<and>
    after_slot h0 (L p) ty p k lab' l' \<and> prev l' = q \<and> total_size l' = total_size l"
proof -
  have sh: "scan_header h0 (slot_header ty k h)" by (rule slot_header_facts(1) [OF t k h(2)])
  then have split: "splitHeader (objectTypes (mark_static e)) (slot_header ty k h) = Some ty"
    using scan_header_bits(3) h(3) by metis
  have fetch: "fetchObjptrToPointer (mark_mem s) (p + of_nat (ptrs (L p) ! k)) (mark_base e) = Some (mark_mem s, q)"
    using q fetch_plain [of "mark_mem s" "p + of_nat (ptrs (L p) ! k)"] by auto
  note gc = slot_header_facts(2) [OF t k]
  consider (normal) "tag ty = NORMAL_TAG" | (array) "tag ty = ARRAY_TAG" using slot_index(2) [OF t k] by blast
  then show ?thesis
  proof cases
    case normal
    let ?x = "p + of_nat (ptrs (L p) ! k)"
    have ad: "p + ucast (bytesNonObjptrs ty) + ucast (get_counter (slot_header ty k h)) * OBJPTR_SIZE = ?x"
      using slot_address(1) [OF t k normal] gc normal by simp
    define l' where "l' = l\<lparr>nextp := v, cur := p, header := slot_header ty k h, otype := ty,
      objptrIndex := get_counter (slot_header ty k h), todo := ?x, prev := q\<rparr>"
    have "mark_step e a ret l s = Some (Goto markNextInNormal l' (s\<lparr>mark_mem := store64 (mark_mem s) ?x v\<rparr>))"
      using normal hc by (simp add: mark_step_def step_ret_def l header_at h(1) split restore_slot_def ad fetch
        storeObjptrFromPointer_def l'_def Let_def)
    moreover have "after_slot h0 (L p) ty p k markNextInNormal l'"
      using normal k sh gc by (simp add: at_slot_def l'_def)
    ultimately show ?thesis using run_step by (intro exI [of _ markNextInNormal] exI [of _ l']) (simp add: l'_def)
  next
    case array
    let ?x = "p + of_nat (ptrs (L p) ! k)"
    have ad: "p + slot_count ty k * elementBytes ty +
        (ucast (bytesNonObjptrs ty) + ucast (get_counter (slot_header ty k h)) * OBJPTR_SIZE) = ?x"
      using slot_address(2) [OF t k array] gc array by simp
    have c: "load64 (mark_mem s) (p - 24) = slot_count ty k" using h(4) typed_array(3) [OF t array] by blast
    define l' where "l' = l\<lparr>nextp := v, cur := p, header := slot_header ty k h, otype := ty, arrayIndex := slot_count ty k,
      objptrIndex := get_counter (slot_header ty k h), todo := ?x, prev := q\<rparr>"
    have "mark_step e a ret l s = Some (Goto markNextInArray l' (s\<lparr>mark_mem := store64 (mark_mem s) ?x v\<rparr>))"
      using array hc by (simp add: mark_step_def step_ret_def l header_at h(1) split restore_slot_def ad fetch c
        storeObjptrFromPointer_def l'_def Let_def)
    moreover have "after_slot h0 (L p) ty p k markNextInArray l'"
      using array k sh gc by (simp add: at_slot_def l'_def slot_count_def)
    ultimately show ?thesis using run_step by (intro exI [of _ markNextInArray] exI [of _ l']) (simp add: l'_def)
  qed
qed

section \<open>The function that is applied\<close>

text \<open>\<open>visits\<close> is the effect of the function on the objects \<open>ps\<close>, in this order, whose headers are in \<open>m\<close>.\<close>

definition visits :: "(mark_env \<Rightarrow> GC_header \<Rightarrow> pointer \<Rightarrow> marker \<Rightarrow> bool \<times> marker) \<Rightarrow> mark_env \<Rightarrow> mem \<Rightarrow> pointer list \<Rightarrow> marker \<Rightarrow> marker" where
  "visits visit e m ps = fold (\<lambda>p s. snd (visit e (getHeader m p) p s)) ps"

lemma visits_simps [simp]:
  "visits visit e m [] s = s" "visits visit e m (p # ps) s = visits visit e m ps (snd (visit e (getHeader m p) p s))"
  "visits visit e m (ps @ qs) s = visits visit e m qs (visits visit e m ps s)"
  by (simp_all add: visits_def)

lemma visits_cong: "(\<And>p. p \<in> set ps \<Longrightarrow> getHeader m p = getHeader m' p) \<Longrightarrow> visits visit e m ps s = visits visit e m' ps s"
  by (induction ps arbitrary: s) simp_all

text \<open>What marking relies on: the function looks at the header of the object only and leaves the
  memory alone; \<open>good\<close> states are those in which it has let marking continue everywhere.\<close>

locale dfs_visitor =
  fixes f :: GC_foreachObjectDfsFun
    and visit :: "mark_env \<Rightarrow> GC_header \<Rightarrow> pointer \<Rightarrow> marker \<Rightarrow> bool \<times> marker"
    and good :: "marker \<Rightarrow> bool"
  assumes apply_visit: "splitHeader (objectTypes (mark_static e)) (getHeader (mark_mem s) p) = Some ty \<Longrightarrow>
      apply_visitor e f p s = Some (visit e (getHeader (mark_mem s) p) p s)"
    and visit_mem: "visit e h p (s\<lparr>mark_mem := m\<rparr>) = (fst (visit e h p s), (snd (visit e h p s))\<lparr>mark_mem := m\<rparr>)"
    and visit_good: "good (snd (visit e h p s)) \<Longrightarrow> fst (visit e h p s) \<and> good s"
    and good_mem: "good (s\<lparr>mark_mem := m\<rparr>) = good s"
begin

lemma visits_mem: "visits visit e m ps (s\<lparr>mark_mem := M\<rparr>) = (visits visit e m ps s)\<lparr>mark_mem := M\<rparr>"
  by (induction ps arbitrary: s) (simp_all add: visit_mem)

lemma visits_good: "good (visits visit e m ps s) \<Longrightarrow> good s"
  by (induction ps arbitrary: s) (auto dest: visit_good)

end

text \<open>What is added to the size for an object: nothing for a weak object, and nothing for an object
  of the shared heap where the size is estimated for lifting.\<close>

definition is_weak :: "mark_env \<Rightarrow> mem \<Rightarrow> pointer \<Rightarrow> bool" where
  "is_weak e m p \<longleftrightarrow> map_option tag (splitHeader (objectTypes (mark_static e)) (getHeader m p)) = Some WEAK_TAG"

definition counted_bytes :: "mark_env \<Rightarrow> mark_args \<Rightarrow> (pointer \<Rightarrow> layout) \<Rightarrow> mem \<Rightarrow> pointer \<Rightarrow> size_t" where
  "counted_bytes e a L m p = (if is_weak e m p \<or> \<not> counted e a p then 0 else of_nat (bytes_of (L p)))"

lemma enter_object:
  assumes t: "typed (mark_static e) (L p) ty (load64 m (p - 16))" and l: "cur l = p" "header l = load64 m (p - 8)"
    and s: "mark_mem s = m" and ty: "splitHeader (objectTypes (mark_static e)) (load64 m (p - 8)) = Some ty"
    and app: "apply_visitor e (visitor a) p s = Some (c, s')"
    and a: "\<not> shouldHashCons a" "tag ty = WEAK_TAG \<Longrightarrow> \<not> shouldLinkWeaks a"
    and ar: "hb (L p) = 24 \<Longrightarrow> disjnt_regions (p - 8) 8 (p - 16) 8" and s': "mark_mem s' = m"
  shows "\<exists>lab' l'. mark_run e a mark_cur l s =
      mark_run e a lab' l' (s'\<lparr>mark_mem := store64 m (p - 8) (load64 m (p - 8) XOR MARK_MASK)\<rparr>) \<and>
    prev l' = prev l \<and> total_size l' = total_size l + counted_bytes e a L m p \<and>
    (if c \<and> ptrs (L p) \<noteq> [] then before_slot (load64 m (p - 8)) (L p) ty p 0 lab' l' else lab' = ret \<and> cur l' = p)"
proof -
  let ?h = "load64 m (p - 8)" and ?s = "s'\<lparr>mark_mem := store64 m (p - 8) (load64 m (p - 8) XOR MARK_MASK)\<rparr>"
  let ?l = "l\<lparr>toContinue := c, header := ?h XOR MARK_MASK, otype := ty\<rparr>"
  have len: "hb (L p) = 24 \<Longrightarrow> getArrayLength (mark_mem ?s) p = load64 m (p - 16)"
    using ar by (simp add: header_at load64_store64_disjnt)
  have step: "mark_step e a mark_cur l s =
    (if tag ty = NORMAL_TAG then mark_normal e a ?l ?s else if tag ty = WEAK_TAG then mark_weak e a ?l ?s
     else if tag ty = ARRAY_TAG then mark_array e a ?l ?s else mark_stack e a ?l ?s)"
    using app l s s' ty by (simp add: mark_step_def step_mark_def Let_def header_at)
  have dn: "mark_run e a normalDone l' s'' = mark_run e a ret l' s''" "mark_run e a arrayDone l' s'' = mark_run e a ret l' s''" for l' s''
    using a by (simp_all add: run_step mark_step_def step_done_def)
  have sh: "scan_header ?h (?h XOR MARK_MASK)" by (simp add: scan_header_def)
  consider (normal) "tag ty = NORMAL_TAG" | (weak) "tag ty = WEAK_TAG" | (array) "tag ty = ARRAY_TAG"
    using t by (auto simp: typed_def split: if_splits)
  then show ?thesis
  proof cases
    case normal
    note n = typed_normal [OF t normal]
    let ?l1 = "?l\<lparr>total_size := total_size l + counted_bytes e a L m p\<rparr>"
    have cb: "counted_bytes e a L m p = (if counted e a p then GC_NORMAL_HEADER_SIZE + elementBytes ty else 0)"
      using t normal ty by (auto simp: counted_bytes_def is_weak_def header_at typed_def GC_NORMAL_HEADER_SIZE_def GC_HEADER_SIZE_def)
    have st: "mark_step e a mark_cur l s = (if \<not> c then Some (Goto ret ?l1 ?s) else if numObjptrs ty = 0 then Some (Goto normalDone ?l1 ?s)
      else Some (Goto markInNormal (?l1\<lparr>todo := p + ucast (bytesNonObjptrs ty), objptrIndex := 0\<rparr>) ?s))"
      using normal by (simp add: step mark_normal_def Let_def cb l)
    consider "\<not> c" | "c" "numObjptrs ty = 0" | "c" "numObjptrs ty \<noteq> 0" by blast
    then show ?thesis
    proof cases
      case 1
      then show ?thesis using st by (intro exI [of _ ret] exI [of _ ?l1]) (simp add: run_step l)
    next
      case 2
      then show ?thesis using st dn n(1) by (intro exI [of _ ret] exI [of _ ?l1]) (simp add: run_step l)
    next
      case 3
      then have "0 < unat (numObjptrs ty)" by (simp add: unat_gt_0)
      then have "ptrs (L p) ! 0 = unat (bytesNonObjptrs ty)" "ptrs (L p) \<noteq> []" using n(1) n(4) [of 0] by auto
      then show ?thesis
        using st 3 normal sh by (intro exI [of _ markInNormal] exI [of _ "?l1\<lparr>todo := p + ucast (bytesNonObjptrs ty), objptrIndex := 0\<rparr>"])
          (simp add: run_step l at_slot_def)
    qed
  next
    case weak
    then have "ptrs (L p) = []" "mark_step e a mark_cur l s = Some (Goto ret ?l ?s)" "counted_bytes e a L m p = 0"
      using t a ty by (auto simp: typed_def step mark_weak_def counted_bytes_def is_weak_def header_at)
    then show ?thesis by (intro exI [of _ ret] exI [of _ ?l]) (simp add: run_step l)
  next
    case array
    note n = typed_array [OF t array]
    let ?l1 = "?l\<lparr>total_size := total_size l + counted_bytes e a L m p\<rparr>" and ?len = "load64 m (p - 16)"
    have cb: "counted_bytes e a L m p = (if counted e a p then GC_ARRAY_HEADER_SIZE + sizeofArrayNoHeader (mark_static e) ?len ty else 0)"
      using t array ty by (auto simp: counted_bytes_def is_weak_def header_at typed_def GC_ARRAY_HEADER_SIZE_def GC_HEADER_SIZE_def
        GC_ARRAY_LENGTH_SIZE_def GC_ARRAY_COUNTER_SIZE_def)
    have st: "mark_step e a mark_cur l s = (if \<not> c then Some (Goto ret ?l1 ?s) else if numObjptrs ty = 0 \<or> ?len = 0 then Some (Goto arrayDone ?l1 ?s)
      else Some (Goto markArrayElt (?l1\<lparr>arrayIndex := 0, todo := p\<rparr>) ?s))"
      using array len n(3) by (simp add: step mark_array_def Let_def cb l)
    consider "\<not> c" | "c" "numObjptrs ty = 0 \<or> ?len = 0" | "c" "\<not> (numObjptrs ty = 0 \<or> ?len = 0)" by blast
    then show ?thesis
    proof cases
      case 1
      then show ?thesis using st by (intro exI [of _ ret] exI [of _ ?l1]) (simp add: run_step l)
    next
      case 2
      then have "ptrs (L p) = []" using n(1) by auto
      then show ?thesis using 2 st dn by (intro exI [of _ ret] exI [of _ ?l1]) (simp add: run_step l)
    next
      case 3
      then have "0 < unat ?len * unat (numObjptrs ty)" by (simp add: unat_gt_0)
      then have p0: "ptrs (L p) ! 0 = unat (bytesNonObjptrs ty)" "ptrs (L p) \<noteq> []" using n(1) n(4) [of 0] by auto
      let ?l2 = "?l1\<lparr>arrayIndex := 0, todo := p\<rparr>"
      let ?l3 = "?l2\<lparr>objptrIndex := 0, todo := p + ucast (bytesNonObjptrs ty)\<rparr>"
      have s2: "mark_step e a markArrayElt ?l2 ?s = Some (Goto markInArray ?l3 ?s)"
        by (simp add: mark_step_def step_markArrayElt_def)
      have s1: "mark_step e a mark_cur l s = Some (Goto markArrayElt ?l2 ?s)" using st 3 by simp
      have "before_slot ?h (L p) ty p 0 markInArray ?l3" using p0 array sh l by (simp add: at_slot_def)
      then show ?thesis
        unfolding run_step [OF s1] run_step [OF s2] using 3 p0
        by (intro exI [of _ markInArray] exI [of _ ?l3]) simp
    qed
  qed
qed

end
