(* ===== verification/Dfs_Mark_Graph.thy ===== *)
theory Dfs_Mark_Graph
  imports Dfs_Steps
begin

section \<open>Scanning one object\<close>

lemma flips_with_counters:
  assumes "scanned F L p ds"
  shows "with_counters L p c' h' (flips ds m) = flips ds (with_counters L p c' h' m)"
proof -
  note ok = scannedD [OF assms]
  have "clear_of (set ds) (p - 8)" "hb (L p) = 24 \<Longrightarrow> clear_of (set ds) (p - 24)"
    using ok graph_object_words [OF ok(1,2)] clear_of_words [of F L "set ds" p] by blast+
  then show ?thesis by (simp add: with_counters_def flips_store)
qed

lemma scan_mem_counters:
  assumes "scanned F L p ds"
  shows "with_counters L p c' h' (scan_mem L p ds c h m) = scan_mem L p ds c' h' m"
proof -
  note ok = scannedD [OF assms]
  have "with_counters L p c' h' (with_counters L p c h m) = with_counters L p c' h' m"
  proof (cases "hb (L p) = 24")
    case True
    have "store64 (store64 (store64 (store64 m (p - 24) c) (p - 8) h) (p - 24) c') (p - 8) h' =
        store64 (store64 (store64 (store64 m (p - 24) c) (p - 24) c') (p - 8) h) (p - 8) h'"
      using own_words_apart(1) [OF ok(1,2) True] by (simp only: store64_commute [of "p - 24" "p - 8"])
    then show ?thesis using True by (simp add: with_counters_def)
  qed (simp add: with_counters_def)
  then show ?thesis unfolding scan_mem_def flips_with_counters [OF assms] by simp
qed

lemma scan_mem_append: "flips es (scan_mem L p ds c h m) = scan_mem L p (ds @ es) c h m"
  by (simp add: scan_mem_def flips_append)

lemma header_no_counter: "h AND COUNTER_MASK = 0 \<Longrightarrow> (h XOR MARK_MASK) AND NOT COUNTER_MASK = h XOR MARK_MASK"
proof (rule bit_word_eqI)
  fix n assume "h AND COUNTER_MASK = 0" "n < LENGTH(64)"
  then have "bit (h AND COUNTER_MASK) n = bit 0 n" by simp
  with \<open>n < LENGTH(64)\<close> show "bit ((h XOR MARK_MASK) AND NOT COUNTER_MASK) n = bit (h XOR MARK_MASK) n"
    by (auto simp: bit_simps bit_masks)
qed

lemma store64_same: "load64 m x = v \<Longrightarrow> store64 m x v = m"
  using store64_load64 [of m x] by simp

lemma scan_mem_finish:
  assumes "intact e a F L m p" "scan_header (load64 m (p - 8)) h"
  shows "scan_mem L p ds 0 (h AND NOT COUNTER_MASK) m = flips (p # ds) m"
proof -
  have "h AND NOT COUNTER_MASK = load64 m (p - 8) XOR MARK_MASK"
    using assms header_no_counter [of "load64 m (p - 8)"] by (simp add: intact_def header_at scan_header_def)
  moreover have "with_counters L p 0 x m = store64 m (p - 8) x" for x
    using assms(1) by (auto simp: with_counters_def intact_def header_at store64_same)
  ultimately show ?thesis by (simp add: scan_mem_def)
qed

lemma scan_mem_begin:
  assumes "intact e a F L m p"
  shows "scan_mem L p [] 0 (load64 m (p - 8) XOR MARK_MASK) m = store64 m (p - 8) (load64 m (p - 8) XOR MARK_MASK)"
  using assms by (auto simp: scan_mem_def with_counters_def intact_def header_at store64_same)

lemma intact_typed:
  assumes "intact e a F L m p" "bytes_of (L p) < 2 ^ 64"
  obtains ty where "splitHeader (objectTypes (mark_static e)) (load64 m (p - 8)) = Some ty"
    "typed (mark_static e) (L p) ty (load64 m (p - 16))" "tag ty = WEAK_TAG \<Longrightarrow> \<not> shouldLinkWeaks a"
  using assms by (auto simp: intact_def mark_layout_def layout_of_def array_fits_def typed_def header_at bind_eq_Some_conv
    split: if_splits option.splits)

text \<open>A slot of \<open>p\<close> does not lead to a forwarded object while \<open>p\<close> is scanned.\<close>

lemma scan_fetch:
  assumes sc: "scanned F L p ds" and g: "graph_ok e a F L U' M" and M: "M = scan_mem L p ds c h m"
    and v: "slot_ok e a F L m v" "isObjptr v" "v \<noteq> 0"
  shows "load64 M (v - 8) \<noteq> GC_FORWARDED"
proof (cases "v \<in> F")
  case True
  then show ?thesis using graph_okD(6) [OF g] short_header_bits(1) by blast
next
  case False
  then show ?thesis using v scan_mem_outside [OF sc, of "v - 8"] by (simp add: slot_ok_def M header_at)
qed

definition succs :: "mark_env \<Rightarrow> mark_args \<Rightarrow> (pointer \<Rightarrow> layout) \<Rightarrow> mem \<Rightarrow> pointer \<Rightarrow> pointer set" where
  "succs e a L m p = {v. \<exists>i\<in>set (ptrs (L p)). v = load64 m (p + of_nat i) \<and> \<not> skipped e a v}"

lemma mark_reach_mono:
  assumes "q \<in> mark_reach e a L m U p" "U \<subseteq> U'" "\<And>o' i. o' \<in> U \<Longrightarrow> i \<in> set (ptrs (L o')) \<Longrightarrow> load64 m' (o' + of_nat i) = load64 m (o' + of_nat i)"
  shows "q \<in> mark_reach e a L m' U' p"
  using assms(1)
proof induction
  case (mark_reach_slot o' i)
  then show ?case using mark_reach.mark_reach_slot [of o' e a L m' U' p i] assms(2,3) by auto
qed (rule mark_reach_self)

lemma mark_reach_trans:
  assumes "q \<in> mark_reach e a L m U v" "v \<in> mark_reach e a L m U p"
  shows "q \<in> mark_reach e a L m U p"
  using assms by induction (auto intro: mark_reach.intros)

section \<open>The whole graph\<close>

text \<open>What is known of the objects \<open>ps\<close> that have been visited from \<open>p\<close>, of those in \<open>U\<close>.\<close>

definition visited :: "mark_env \<Rightarrow> mark_args \<Rightarrow> pointer set \<Rightarrow> (pointer \<Rightarrow> layout) \<Rightarrow> pointer set \<Rightarrow> mem \<Rightarrow> pointer \<Rightarrow> bool \<Rightarrow> pointer list \<Rightarrow> bool" where
  "visited e a F L U m p all ps \<longleftrightarrow> distinct ps \<and> p \<in> set ps \<and> set ps \<subseteq> U \<and>
    set ps \<subseteq> mark_reach e a L m (set ps) p \<and> (all \<longrightarrow> (\<forall>o'\<in>set ps. succs e a L m o' \<subseteq> (F - U) \<union> set ps))"

text \<open>The slots of \<open>p\<close> from the number \<open>k\<close> on: \<open>ds\<close> have been visited before, \<open>es\<close> are visited now.\<close>

definition scanned_from :: "mark_env \<Rightarrow> mark_args \<Rightarrow> pointer set \<Rightarrow> (pointer \<Rightarrow> layout) \<Rightarrow> pointer set \<Rightarrow> mem \<Rightarrow> pointer \<Rightarrow> nat \<Rightarrow>
    pointer list \<Rightarrow> bool \<Rightarrow> pointer list \<Rightarrow> bool" where
  "scanned_from e a F L U m p k ds all es \<longleftrightarrow> distinct (ds @ es) \<and> set es \<subseteq> U - {p} \<and>
    set es \<subseteq> mark_reach e a L m (insert p (set es)) p \<and>
    (all \<longrightarrow> (\<forall>o'\<in>set es. succs e a L m o' \<subseteq> (F - U) \<union> insert p (set ds \<union> set es)) \<and>
      (\<forall>j<length (ptrs (L p)). k \<le> j \<and> \<not> skipped e a (load64 m (p + of_nat (ptrs (L p) ! j))) \<longrightarrow>
        load64 m (p + of_nat (ptrs (L p) ! j)) \<in> (F - U) \<union> insert p (set ds \<union> set es)))"

context dfs_visitor
begin

definition visits_graph :: "mark_env \<Rightarrow> mark_args \<Rightarrow> pointer set \<Rightarrow> (pointer \<Rightarrow> layout) \<Rightarrow> nat \<Rightarrow> bool" where
  "visits_graph e a F L n \<longleftrightarrow> (\<forall>U m p q l s. card U < n \<longrightarrow> graph_ok e a F L U m \<longrightarrow> p \<in> U \<longrightarrow> q = 0 \<or> q \<in> F - U \<longrightarrow>
    cur l = p \<longrightarrow> prev l = q \<longrightarrow> header l = load64 m (p - 8) \<longrightarrow> mark_mem s = m \<longrightarrow>
    (\<exists>ps l'. mark_run e a mark_cur l s = mark_run e a ret l' ((visits visit e m ps s)\<lparr>mark_mem := flips ps m\<rparr>) \<and>
      cur l' = p \<and> prev l' = q \<and> total_size l' = total_size l + sum_list (map (counted_bytes e a L m) ps) \<and>
      visited e a F L U m p (good (visits visit e m ps s)) ps))"

lemma visits_graphD:
  assumes "visits_graph e a F L n" "card U < n" "graph_ok e a F L U m" "p \<in> U" "q = 0 \<or> q \<in> F - U"
    "cur l = p" "prev l = q" "header l = load64 m (p - 8)" "mark_mem s = m"
  obtains ps l' where "mark_run e a mark_cur l s = mark_run e a ret l' ((visits visit e m ps s)\<lparr>mark_mem := flips ps m\<rparr>)"
    "cur l' = p" "prev l' = q" "total_size l' = total_size l + sum_list (map (counted_bytes e a L m) ps)"
    "visited e a F L U m p (good (visits visit e m ps s)) ps"
  using assms unfolding visits_graph_def by metis

lemma scan_call:
  assumes ih: "visits_graph e a F L n" and n: "card U \<le> n" and hc: "\<not> shouldHashCons a"
    and g: "graph_ok e a F L U m" and p: "p \<in> U" and q: "q = 0 \<or> q \<in> F - U"
    and ty: "splitHeader (objectTypes (mark_static e)) (load64 m (p - 8)) = Some ty"
    and t: "typed (mark_static e) (L p) ty (load64 m (p - 16))"
    and ds: "set ds \<subseteq> U - {p}" "distinct ds" and M: "mark_mem s = scan_mem L p ds c h m"
    and b: "before_slot (load64 m (p - 8)) (L p) ty p k lab l" and l: "prev l = q"
    and h: "scan_header (load64 m (p - 8)) h"
    and v: "v = load64 m (p + of_nat (ptrs (L p) ! k))" and go: "\<not> skipped e a v" "load64 (mark_mem s) (v - 8) AND MARK_MASK \<noteq> mark_bit a"
  shows "\<exists>es lab' l' c' h'. mark_run e a lab l s =
      mark_run e a lab' l' ((visits visit e m es s)\<lparr>mark_mem := scan_mem L p (ds @ es) c' h' m\<rparr>) \<and>
    after_slot (load64 m (p - 8)) (L p) ty p k lab' l' \<and> prev l' = q \<and> scan_header (load64 m (p - 8)) h' \<and>
    total_size l' = total_size l + sum_list (map (counted_bytes e a L m) es) \<and>
    distinct (ds @ es) \<and> set es \<subseteq> U - {p} \<and> v \<in> set es \<and> set es \<subseteq> mark_reach e a L m (insert p (set es)) p \<and>
    (good (visits visit e m es s) \<longrightarrow> (\<forall>o'\<in>set es. succs e a L m o' \<subseteq> (F - U) \<union> insert p (set ds \<union> set es)))"
proof -
  note gD = graph_okD [OF g]
  have sc: "scanned F L p ds" using gD(3,4) p ds by (auto simp: scanned_def)
  note ok = scannedD [OF sc]
  let ?i = "ptrs (L p) ! k" and ?x = "p + of_nat (ptrs (L p) ! k)"
  have k: "k < length (ptrs (L p))" using b by (simp add: at_slot_def)
  then have mem: "?i \<in> set (ptrs (L p))" by simp
  have i: "?i + 8 \<le> bb (L p)" using intact_ptrs(1) [OF gD(8) [OF p] mem] .
  have slotv: "slot_ok e a F L m v" using gD(8) [OF p] mem by (simp add: intact_def v)
  let ?U = "U - {p} - set ds"
  have x: "load64 (scan_mem L p ds c h m) ?x = v" for c h using scan_mem_own(4) [OF sc i] v by simp
  then have triv: "store64 (scan_mem L p ds c h m) ?x v = scan_mem L p ds c h m" for c h
    by (rule store64_same)
  have g0: "graph_ok e a F L ?U (mark_mem s)"
    using scan_child(1) [OF g p ds h i, of "mark_mem s" c v] M triv by simp
  have vU: "v \<in> ?U" using slotv go graph_okD(7) [OF g0, of v] by (auto simp: slot_ok_def)
  define h1 where "h1 = slot_header ty k (header l)"
  have hl: "scan_header (load64 m (p - 8)) (header l)" using b by (simp add: at_slot_def)
  have h1: "scan_header (load64 m (p - 8)) h1" using slot_header_facts(1) [OF t k hl] by (simp add: h1_def)
  define M0 where "M0 = scan_mem L p ds (slot_count ty k) h1 m"
  define M1 where "M1 = store64 M0 ?x q"
  have f: "load64 (mark_mem s) (v - 8) \<noteq> GC_FORWARDED" if "isObjptr v" "v \<noteq> 0"
    using scan_fetch [OF sc g0 M slotv that] .
  obtain l1 where l1: "mark_run e a lab l s = mark_run e a mark_cur l1 (s\<lparr>mark_mem := M1\<rparr>)" "cur l1 = v" "prev l1 = p"
    "header l1 = load64 (mark_mem s) (v - 8)" "total_size l1 = total_size l"
    using descend [where L = L and p = p, OF b t _ _ go] x f M l scan_mem_counters [OF sc] unfolding M1_def M0_def h1_def by auto
  have g1: "graph_ok e a F L ?U M1" and w1: "o' \<in> ?U \<Longrightarrow> word_of_object L o' y \<Longrightarrow> load64 M1 y = load64 m y" for o' y
    using scan_child [OF g p ds h1 i M1_def [unfolded M0_def]] by blast+
  have w0: "load64 (mark_mem s) (v - 8) = load64 m (v - 8)"
    using scan_mem_object [OF sc, of v "v - 8"] vU gD(3) graph_object_words(1) [OF gD(4), of v] M by auto
  have wv: "load64 M1 (o' - 8) = load64 m (o' - 8)" if "o' \<in> ?U" for o'
    using w1 [OF that graph_object_words(1)] gD(3,4) that by blast
  have wi: "load64 M1 (o' + of_nat i) = load64 m (o' + of_nat i)" if "o' \<in> ?U" "i \<in> set (ptrs (L o'))" for o' i
    using w1 [OF that(1) graph_object_words(4)] gD(3,4) that intact_ptrs(1) [OF gD(8)] by blast
  have cd: "card ?U < n"
  proof -
    have "finite U" using finite_subset [OF gD(3) gD(1)] .
    moreover have "?U \<subset> U" using p by auto
    ultimately have "card ?U < card U" by (rule psubset_card_mono)
    then show ?thesis using n by linarith
  qed
  have pq: "p = 0 \<or> p \<in> F - ?U" using ok(2) by blast
  have hdr1: "header l1 = load64 M1 (v - 8)" using l1(4) w0 wv [OF vU] by simp
  have mm: "mark_mem (s\<lparr>mark_mem := M1\<rparr>) = M1" by simp
  obtain es l2 where run2: "mark_run e a mark_cur l1 (s\<lparr>mark_mem := M1\<rparr>) =
      mark_run e a ret l2 ((visits visit e M1 es (s\<lparr>mark_mem := M1\<rparr>))\<lparr>mark_mem := flips es M1\<rparr>)" and l2: "cur l2 = v" "prev l2 = p"
      "total_size l2 = total_size l1 + sum_list (map (counted_bytes e a L M1) es)"
    and vis: "visited e a F L ?U M1 v (good (visits visit e M1 es (s\<lparr>mark_mem := M1\<rparr>))) es"
    by (rule visits_graphD [OF ih cd g1 vU pq l1(2,3) hdr1 mm])
  have es: "distinct es" "set es \<subseteq> ?U" "v \<in> set es" using vis by (auto simp: visited_def)
  have esF: "set es \<subseteq> F" using es(2) gD(3) by blast
  have sc2: "scanned F L p (ds @ es)" using ok es esF by (auto simp: scanned_def)
  have we: "getHeader M1 o' = getHeader m o'" if "o' \<in> set es" for o'
    unfolding header_at by (rule wv) (use that es(2) in blast)
  have veq: "visits visit e M1 es (s\<lparr>mark_mem := M\<rparr>) = (visits visit e m es s)\<lparr>mark_mem := M\<rparr>" for M
  proof -
    have "visits visit e M1 es s = visits visit e m es s" using we by (rule visits_cong)
    then show ?thesis by (simp add: visits_mem)
  qed
  have ceq: "map (counted_bytes e a L M1) es = map (counted_bytes e a L m) es"
    using we by (simp add: counted_bytes_def is_weak_def)
  have clx: "clear_of (set es) ?x"
    using clear_of_words [OF ok(1) esF ok(2) _ graph_object_words(4) [OF ok(1,2) i]] es(2) by blast
  define M2 where "M2 = scan_mem L p (ds @ es) (slot_count ty k) h1 m"
  have fl: "flips es M1 = store64 M2 ?x q"
    by (simp add: M1_def M0_def M2_def flips_store [OF clx] scan_mem_append)
  have x2: "load64 M2 ?x = v" using scan_mem_own(4) [OF sc2 i] v by (simp add: M2_def)
  have restored: "store64 M2 ?x v = M2" using x2 by (rule store64_same)
  have hdr: "load64 (store64 M2 ?x q) (p - 8) = h1" "hb (L p) = 24 \<Longrightarrow> load64 (store64 M2 ?x q) (p - 24) = slot_count ty k"
    using scan_mem_own(1,2) [OF sc2] own_slots_apart(1,2) [OF ok(1,2) i]
    by (simp_all add: M2_def load64_store64_disjnt disjnt_sym [of ?x])
  have qf: "q = 0 \<or> load64 (store64 M2 ?x q) (q - 8) \<noteq> GC_FORWARDED"
  proof (cases "q = 0")
    case False
    then have qF: "q \<in> F - U" using q by blast
    then have "load64 (flips es M1) (q - 8) = load64 M1 (q - 8)"
      using flips_header [OF areas_headers_apart [OF ok(1)] esF es(1), of q] es(2) by auto
    then show ?thesis using graph_okD(6) [OF g1, of q] qF short_header_bits(1) fl by fastforce
  qed simp
  let ?s2 = "(visits visit e m es s)\<lparr>mark_mem := store64 M2 ?x q\<rparr>"
  have "\<exists>lab' l'. mark_run e a ret l2 ?s2 = mark_run e a lab' l' (?s2\<lparr>mark_mem := store64 (mark_mem ?s2) ?x v\<rparr>) \<and>
    after_slot (load64 m (p - 8)) (L p) ty p k lab' l' \<and> prev l' = q \<and> total_size l' = total_size l2"
    using gD(2) ok(2) hdr qf
    by (intro return_slot [where L = L and p = p, OF t k hc l2(1,2) _ _ hl ty]) (auto simp: h1_def)
  then obtain lab' l' where fin: "mark_run e a ret l2 ?s2 = mark_run e a lab' l' ((visits visit e m es s)\<lparr>mark_mem := M2\<rparr>)"
    "after_slot (load64 m (p - 8)) (L p) ty p k lab' l'" "prev l' = q" "total_size l' = total_size l2"
    by (auto simp: restored)
  have run: "mark_run e a lab l s = mark_run e a lab' l' ((visits visit e m es s)\<lparr>mark_mem := M2\<rparr>)"
    using l1(1) run2 fin(1) veq by (simp add: fl)
  have reach: "set es \<subseteq> mark_reach e a L m (insert p (set es)) p"
  proof
    fix o' assume "o' \<in> set es"
    then have "o' \<in> mark_reach e a L M1 (set es) v" using vis by (auto simp: visited_def)
    then have "o' \<in> mark_reach e a L m (insert p (set es)) v"
      by (rule mark_reach_mono) (use es(2) in \<open>auto intro!: wi [symmetric]\<close>)
    moreover have "v \<in> mark_reach e a L m (insert p (set es)) p"
      unfolding v by (intro mark_reach_slot mark_reach_self mem) (use go v in auto)
    ultimately show "o' \<in> mark_reach e a L m (insert p (set es)) p" by (rule mark_reach_trans)
  qed
  have closed: "succs e a L m o' \<subseteq> (F - U) \<union> insert p (set ds \<union> set es)" if "good (visits visit e m es s)" "o' \<in> set es" for o'
  proof -
    have "succs e a L M1 o' \<subseteq> (F - ?U) \<union> set es"
      using vis that veq by (simp add: visited_def good_mem)
    moreover have "succs e a L M1 o' = succs e a L m o'"
    proof -
      have "o' \<in> ?U" using es(2) that(2) by blast
      from wi [OF this] show ?thesis unfolding succs_def by (intro Collect_cong bex_cong refl) simp
    qed
    ultimately show ?thesis by blast
  qed
  show ?thesis
    using run fin l2 l1 ceq es ok(5) h1 reach closed unfolding M2_def
    by (intro exI [of _ es] exI [of _ lab'] exI [of _ l'] exI [of _ "slot_count ty k"] exI [of _ h1]) auto
qed

lemma scan_from:
  assumes ih: "visits_graph e a F L n" and n: "card U \<le> n" and hc: "\<not> shouldHashCons a"
    and g: "graph_ok e a F L U m" and p: "p \<in> U" and q: "q = 0 \<or> q \<in> F - U"
    and ty: "splitHeader (objectTypes (mark_static e)) (load64 m (p - 8)) = Some ty"
    and t: "typed (mark_static e) (L p) ty (load64 m (p - 16))"
  shows "\<lbrakk>N = length (ptrs (L p)) - k; set ds \<subseteq> U - {p}; distinct ds; mark_mem s = scan_mem L p ds c h m;
      scan_header (load64 m (p - 8)) h; before_slot (load64 m (p - 8)) (L p) ty p k lab l; prev l = q\<rbrakk> \<Longrightarrow>
    \<exists>es l'. mark_run e a lab l s = mark_run e a ret l' ((visits visit e m es s)\<lparr>mark_mem := flips (p # ds @ es) m\<rparr>) \<and>
      cur l' = p \<and> prev l' = q \<and> total_size l' = total_size l + sum_list (map (counted_bytes e a L m) es) \<and>
      scanned_from e a F L U m p k ds (good (visits visit e m es s)) es"
proof (induction N arbitrary: k ds s c h lab l)
  case 0
  then show ?case by (simp add: at_slot_def)
next
  case (Suc N)
  note gD = graph_okD [OF g]
  have sc: "scanned F L p ds" using gD(3,4) p Suc.prems by (auto simp: scanned_def)
  note ok = scannedD [OF sc]
  note intp = gD(8) [OF p]
  define v where "v = load64 m (p + of_nat (ptrs (L p) ! k))"
  have k: "k < length (ptrs (L p))" using Suc.prems by (simp add: at_slot_def)
  then have mem: "ptrs (L p) ! k \<in> set (ptrs (L p))" by simp
  have i: "ptrs (L p) ! k + 8 \<le> bb (L p)" by (rule intact_ptrs(1) [OF intp mem])
  have slotv: "slot_ok e a F L m v" using intp mem by (simp add: intact_def v_def)
  have x: "load64 (mark_mem s) (p + of_nat (ptrs (L p) ! k)) = v"
    unfolding Suc.prems(4) v_def by (rule scan_mem_own(4) [OF sc i])
  have g0: "graph_ok e a F L (U - {p} - set ds) (mark_mem s)"
  proof (rule scan_child(1) [OF g p Suc.prems(2,3,5) i])
    show "mark_mem s = store64 (scan_mem L p ds c h m) (p + of_nat (ptrs (L p) ! k)) v"
      using store64_same [OF x] Suc.prems(4) by simp
  qed
  \<comment> \<open>The slot itself.\<close>
  have "\<exists>es lab' l' c' h'. mark_run e a lab l s =
      mark_run e a lab' l' ((visits visit e m es s)\<lparr>mark_mem := scan_mem L p (ds @ es) c' h' m\<rparr>) \<and>
    after_slot (load64 m (p - 8)) (L p) ty p k lab' l' \<and> prev l' = q \<and> scan_header (load64 m (p - 8)) h' \<and>
    total_size l' = total_size l + sum_list (map (counted_bytes e a L m) es) \<and>
    distinct (ds @ es) \<and> set es \<subseteq> U - {p} \<and> set es \<subseteq> mark_reach e a L m (insert p (set es)) p \<and>
    (good (visits visit e m es s) \<longrightarrow> (\<forall>o'\<in>set es. succs e a L m o' \<subseteq> (F - U) \<union> insert p (set ds \<union> set es)) \<and>
      (\<not> skipped e a v \<longrightarrow> v \<in> (F - U) \<union> insert p (set ds \<union> set es)))" (is ?slot)
  proof (cases "skipped e a v \<or> load64 (mark_mem s) (v - 8) AND MARK_MASK = mark_bit a")
    case True
    have f: "load64 (mark_mem s) (v - 8) \<noteq> GC_FORWARDED" if "isObjptr v" "v \<noteq> 0"
      by (rule scan_fetch [OF sc g0 Suc.prems(4) slotv that])
    obtain lab' l' where l': "mark_run e a lab l s = mark_run e a lab' l' s" "after_slot (load64 m (p - 8)) (L p) ty p k lab' l'" "same_call l l'"
      using skip_slot [OF hc Suc.prems(6) x [symmetric] f True] by auto
    have vm: "v \<in> (F - U) \<union> insert p (set ds)" if "\<not> skipped e a v"
      using that True slotv graph_okD(7) [OF g0, of v] by (auto simp: slot_ok_def)
    have s0: "s\<lparr>mark_mem := scan_mem L p ds c h m\<rparr> = s" using Suc.prems(4) [symmetric] by simp
    have A: "mark_run e a lab l s = mark_run e a lab' l' ((visits visit e m [] s)\<lparr>mark_mem := scan_mem L p (ds @ []) c h m\<rparr>)"
      using l'(1) by (simp only: visits_simps append_Nil2 s0)
    have B: "prev l' = q" "total_size l' = total_size l + sum_list (map (counted_bytes e a L m) [])"
      using l'(3) Suc.prems(7) by (simp_all add: same_call_def)
    have C: "distinct (ds @ [])" "set [] \<subseteq> U - {p}" "set [] \<subseteq> mark_reach e a L m (insert p (set [])) p"
      "\<forall>o'\<in>set []. succs e a L m o' \<subseteq> (F - U) \<union> insert p (set ds \<union> set [])"
      using Suc.prems(3) by simp_all
    have D: "\<not> skipped e a v \<longrightarrow> v \<in> (F - U) \<union> insert p (set ds \<union> set [])" using vm by simp
    show ?thesis
      by (rule exI [of _ "[]"], rule exI [of _ lab'], rule exI [of _ l'], rule exI [of _ c], rule exI [of _ h])
        (intro conjI impI A B C D l'(2) Suc.prems(5))
  next
    case False
    then have go: "\<not> skipped e a v" "load64 (mark_mem s) (v - 8) AND MARK_MASK \<noteq> mark_bit a" by auto
    show ?thesis
      using scan_call [OF ih n hc g p q ty t Suc.prems(2,3,4,6,7,5) v_def go] by blast
  qed
  then obtain es lab' l' c' h' where run: "mark_run e a lab l s =
      mark_run e a lab' l' ((visits visit e m es s)\<lparr>mark_mem := scan_mem L p (ds @ es) c' h' m\<rparr>)"
    and af: "after_slot (load64 m (p - 8)) (L p) ty p k lab' l'" and l': "prev l' = q" "scan_header (load64 m (p - 8)) h'"
      "total_size l' = total_size l + sum_list (map (counted_bytes e a L m) es)"
    and es: "distinct (ds @ es)" "set es \<subseteq> U - {p}" "set es \<subseteq> mark_reach e a L m (insert p (set es)) p"
    and cl: "good (visits visit e m es s) \<Longrightarrow> (\<forall>o'\<in>set es. succs e a L m o' \<subseteq> (F - U) \<union> insert p (set ds \<union> set es)) \<and>
      (\<not> skipped e a v \<longrightarrow> v \<in> (F - U) \<union> insert p (set ds \<union> set es))"
    by blast
  let ?s = "(visits visit e m es s)\<lparr>mark_mem := scan_mem L p (ds @ es) c' h' m\<rparr>"
  have ds2: "set (ds @ es) \<subseteq> U - {p}" using es(2) Suc.prems(2) by simp
  have sc2: "scanned F L p (ds @ es)" using ds2 es(1) ok gD(3) by (auto simp: scanned_def)
  have len: "load64 (mark_mem ?s) (p - 16) = load64 m (p - 16)" if "hb (L p) = 24"
    using scan_mem_own(3) [OF sc2 that] by simp
  show ?case
  proof (cases "Suc k < length (ptrs (L p))")
    case False
    then have last: "Suc k = length (ptrs (L p))" using k by simp
    obtain l2 where l2: "mark_run e a lab' l' ?s = mark_run e a ret l2
        (?s\<lparr>mark_mem := with_counters L p 0 (header l' AND NOT COUNTER_MASK) (mark_mem ?s)\<rparr>)" "cur l2 = p" "same_call l' l2"
      using last_slot [where L = L and p = p, OF t af last hc len] by auto
    have hl: "scan_header (load64 m (p - 8)) (header l')" using af by (simp add: at_slot_def)
    have fin: "with_counters L p 0 (header l' AND NOT COUNTER_MASK) (scan_mem L p (ds @ es) c' h' m) = flips (p # ds @ es) m"
      using scan_mem_counters [OF sc2] scan_mem_finish [OF intp hl] by simp
    have "scanned_from e a F L U m p k ds (good (visits visit e m es s)) es"
      unfolding scanned_from_def
    proof (intro conjI impI allI)
      show "\<forall>o'\<in>set es. succs e a L m o' \<subseteq> (F - U) \<union> insert p (set ds \<union> set es)" if "good (visits visit e m es s)"
        using cl [OF that] by blast
      fix j assume a: "good (visits visit e m es s)" "j < length (ptrs (L p))"
        "k \<le> j \<and> \<not> skipped e a (load64 m (p + of_nat (ptrs (L p) ! j)))"
      then have "j = k" using last by linarith
      then show "load64 m (p + of_nat (ptrs (L p) ! j)) \<in> (F - U) \<union> insert p (set ds \<union> set es)"
        using cl [OF a(1)] a(3) unfolding v_def by blast
    qed (rule es)+
    then show ?thesis
      using run l2 l' fin by (intro exI [of _ es] exI [of _ l2]) (simp add: same_call_def)
  next
    case True
    obtain lab2 l2 where l2: "mark_run e a lab' l' ?s = mark_run e a lab2 l2 ?s"
        "before_slot (load64 m (p - 8)) (L p) ty p (Suc k) lab2 l2" "same_call l' l2"
      using scan_next_slot [where s = ?s and e = e and a = a, OF t af True len] by blast
    have N: "N = length (ptrs (L p)) - Suc k" using Suc.prems(1) by simp
    obtain es2 l3 where l3: "mark_run e a lab2 l2 ?s =
        mark_run e a ret l3 ((visits visit e m es2 ?s)\<lparr>mark_mem := flips (p # (ds @ es) @ es2) m\<rparr>)" "cur l3 = p" "prev l3 = q"
        "total_size l3 = total_size l2 + sum_list (map (counted_bytes e a L m) es2)"
        "scanned_from e a F L U m p (Suc k) (ds @ es) (good (visits visit e m es2 ?s)) es2"
      using Suc.IH [OF N ds2 es(1) _ l'(2) l2(2), of ?s c'] l2(3) l'(1) by (auto simp: same_call_def)
    have v2: "visits visit e m es2 ?s = (visits visit e m (es @ es2) s)\<lparr>mark_mem := scan_mem L p (ds @ es) c' h' m\<rparr>"
      by (simp add: visits_mem)
    have "scanned_from e a F L U m p k ds (good (visits visit e m (es @ es2) s)) (es @ es2)"
    proof -
      have d: "distinct (ds @ es @ es2)" "set (es @ es2) \<subseteq> U - {p}"
        using l3(5) es by (auto simp: scanned_from_def)
      have r: "set (es @ es2) \<subseteq> mark_reach e a L m (insert p (set (es @ es2))) p"
      proof
        fix o' assume "o' \<in> set (es @ es2)"
        then consider "o' \<in> mark_reach e a L m (insert p (set es)) p" | "o' \<in> mark_reach e a L m (insert p (set es2)) p"
          using es(3) l3(5) by (auto simp: scanned_from_def)
        then show "o' \<in> mark_reach e a L m (insert p (set (es @ es2))) p"
          by cases (erule mark_reach_mono, auto)+
      qed
      have c: "succs e a L m o' \<subseteq> (F - U) \<union> insert p (set ds \<union> set (es @ es2))"
        if a: "good (visits visit e m (es @ es2) s)" "o' \<in> set (es @ es2)" for o'
      proof -
        have g1: "good (visits visit e m es s)" using a(1) visits_good by auto
        have g2: "good (visits visit e m es2 ?s)" using a(1) v2 by (simp add: good_mem)
        consider "o' \<in> set es" | "o' \<in> set es2" using a(2) by auto
        then show ?thesis
        proof cases
          case 1
          then have "succs e a L m o' \<subseteq> (F - U) \<union> insert p (set ds \<union> set es)" using cl [OF g1] by blast
          then show ?thesis by auto
        next
          case 2
          then have "succs e a L m o' \<subseteq> (F - U) \<union> insert p (set (ds @ es) \<union> set es2)"
            using l3(5) g2 unfolding scanned_from_def by blast
          then show ?thesis by (simp add: Un_assoc)
        qed
      qed
      have w: "load64 m (p + of_nat (ptrs (L p) ! j)) \<in> (F - U) \<union> insert p (set ds \<union> set (es @ es2))"
        if a: "good (visits visit e m (es @ es2) s)" "j < length (ptrs (L p))" "k \<le> j" "\<not> skipped e a (load64 m (p + of_nat (ptrs (L p) ! j)))" for j
      proof (cases "j = k")
        case True
        have "good (visits visit e m es s)" using a(1) visits_good by auto
        then show ?thesis using a(4) cl True by (auto simp: v_def)
      next
        case False
        then have "Suc k \<le> j" using a(3) by simp
        moreover have "good (visits visit e m es2 ?s)" using a(1) v2 by (simp add: good_mem)
        ultimately have "load64 m (p + of_nat (ptrs (L p) ! j)) \<in> (F - U) \<union> insert p (set (ds @ es) \<union> set es2)"
          using l3(5) a(2,4) unfolding scanned_from_def by blast
        then show ?thesis by (simp add: Un_assoc)
      qed
      show ?thesis unfolding scanned_from_def using d r c w by blast
    qed
    moreover have "mark_run e a lab l s = mark_run e a ret l3 ((visits visit e m (es @ es2) s)\<lparr>mark_mem := flips (p # ds @ es @ es2) m\<rparr>)"
      using run l2(1) l3(1) v2 by simp
    ultimately show ?thesis
      using l3(2,3,4) l2(3) l'(3) by (intro exI [of _ "es @ es2"] exI [of _ l3]) (simp add: same_call_def add.assoc)
  qed
qed

lemma visits_graph_step:
  assumes ih: "visits_graph e a F L n" and n: "card U \<le> n" and hc: "\<not> shouldHashCons a" and vf: "visitor a = f"
    and g: "graph_ok e a F L U m" and p: "p \<in> U" and q: "q = 0 \<or> q \<in> F - U"
    and l: "cur l = p" "prev l = q" "header l = load64 m (p - 8)" and s: "mark_mem s = m"
  shows "\<exists>ps l'. mark_run e a mark_cur l s = mark_run e a ret l' ((visits visit e m ps s)\<lparr>mark_mem := flips ps m\<rparr>) \<and>
      cur l' = p \<and> prev l' = q \<and> total_size l' = total_size l + sum_list (map (counted_bytes e a L m) ps) \<and>
      visited e a F L U m p (good (visits visit e m ps s)) ps"
proof -
  note gD = graph_okD [OF g]
  have pF: "p \<in> F" using p gD(3) by blast
  note intp = gD(8) [OF p]
  obtain ty where ty: "splitHeader (objectTypes (mark_static e)) (load64 m (p - 8)) = Some ty"
    and t: "typed (mark_static e) (L p) ty (load64 m (p - 16))" and w: "tag ty = WEAK_TAG \<Longrightarrow> \<not> shouldLinkWeaks a"
    using intact_typed [OF intp areas_okD(2) [OF gD(4) pF]] by blast
  obtain c s' where v: "visit e (load64 m (p - 8)) p s = (c, s')" by fastforce
  have app: "apply_visitor e (visitor a) p s = Some (c, s')"
    using apply_visit [of e s p ty] ty s v vf by (simp add: header_at)
  have s': "s'\<lparr>mark_mem := m\<rparr> = s'"
    using visit_mem [where e = e and h = "load64 m (p - 8)" and p = p and s = s and m = m] s v by auto
  then have ms': "mark_mem s' = m" by (metis marker.select_convs(1) marker.surjective marker.update_convs(1))
  let ?h = "load64 m (p - 8) XOR MARK_MASK"
  let ?s = "s'\<lparr>mark_mem := store64 m (p - 8) ?h\<rparr>"
  obtain lab l1 where l1: "mark_run e a mark_cur l s = mark_run e a lab l1 ?s" "prev l1 = prev l"
    "total_size l1 = total_size l + counted_bytes e a L m p"
    "if c \<and> ptrs (L p) \<noteq> [] then before_slot (load64 m (p - 8)) (L p) ty p 0 lab l1 else lab = ret \<and> cur l1 = p"
    using enter_object [where L = L and p = p, OF t l(1,3) s ty app hc w own_words_apart(3) [OF gD(4) pF] ms'] by blast
  show ?thesis
  proof (cases "c \<and> ptrs (L p) \<noteq> []")
    case False
    have "succs e a L m p = {}" if "good s'"
      using that False visit_good [of e "load64 m (p - 8)" p s] v by (auto simp: succs_def)
    then have "visited e a F L U m p (good (visits visit e m [p] s)) [p]"
      using p v by (simp add: visited_def header_at mark_reach_self)
    then show ?thesis
      using l1 l False v s' by (intro exI [of _ "[p]"] exI [of _ l1]) (simp add: header_at)
  next
    case True
    have b: "before_slot (load64 m (p - 8)) (L p) ty p 0 lab l1" using l1(4) True by simp
    have M: "mark_mem ?s = scan_mem L p [] 0 ?h m" using scan_mem_begin [OF intp] by simp
    have h: "scan_header (load64 m (p - 8)) ?h" by (simp add: scan_header_def)
    have pq: "prev l1 = q" using l1(2) l(2) by simp
    obtain es l2 where l2: "mark_run e a lab l1 ?s = mark_run e a ret l2 ((visits visit e m es ?s)\<lparr>mark_mem := flips (p # [] @ es) m\<rparr>)"
      "cur l2 = p" "prev l2 = q" "total_size l2 = total_size l1 + sum_list (map (counted_bytes e a L m) es)"
      "scanned_from e a F L U m p 0 [] (good (visits visit e m es ?s)) es"
      using scan_from [OF ih n hc g p q ty t refl _ _ M h b pq] by auto
    have ve: "visits visit e m (p # es) s = visits visit e m es s'" using v by (simp add: header_at)
    have gd: "good (visits visit e m es ?s) = good (visits visit e m es s')" by (simp add: visits_mem good_mem)
    have "visited e a F L U m p (good (visits visit e m (p # es) s)) (p # es)"
      unfolding visited_def
    proof (intro conjI impI)
      show "distinct (p # es)" "set (p # es) \<subseteq> U" using l2(5) p by (auto simp: scanned_from_def)
      show "set (p # es) \<subseteq> mark_reach e a L m (set (p # es)) p"
        using l2(5) by (auto simp: scanned_from_def mark_reach_self)
      assume "good (visits visit e m (p # es) s)"
      then have g': "good (visits visit e m es ?s)" using ve gd by simp
      show "\<forall>o'\<in>set (p # es). succs e a L m o' \<subseteq> F - U \<union> set (p # es)"
      proof
        fix o' assume "o' \<in> set (p # es)"
        then consider "o' = p" | "o' \<in> set es" by auto
        then show "succs e a L m o' \<subseteq> F - U \<union> set (p # es)"
        proof cases
          case 1
          have sl: "\<forall>j<length (ptrs (L p)). 0 \<le> j \<and> \<not> skipped e a (load64 m (p + of_nat (ptrs (L p) ! j))) \<longrightarrow>
              load64 m (p + of_nat (ptrs (L p) ! j)) \<in> (F - U) \<union> insert p (set [] \<union> set es)"
            using l2(5) g' unfolding scanned_from_def by blast
          show ?thesis
          proof
            fix v assume "v \<in> succs e a L m o'"
            then obtain i where i: "i \<in> set (ptrs (L p))" "v = load64 m (p + of_nat i)" "\<not> skipped e a v"
              unfolding succs_def 1 by blast
            then obtain j where "j < length (ptrs (L p))" "i = ptrs (L p) ! j" by (metis in_set_conv_nth)
            then show "v \<in> F - U \<union> set (p # es)" using sl i(2,3) by auto
          qed
        next
          case 2
          then show ?thesis using l2(5) g' by (auto simp: scanned_from_def)
        qed
      qed
    qed simp
    moreover have "mark_run e a mark_cur l s = mark_run e a ret l2 ((visits visit e m (p # es) s)\<lparr>mark_mem := flips (p # es) m\<rparr>)"
      using l1(1) l2(1) ve by (simp add: visits_mem)
    ultimately show ?thesis
      using l2(2,3,4) l1(3) by (intro exI [of _ "p # es"] exI [of _ l2]) (simp add: add.assoc)
  qed
qed

lemma visits_graph_all: "\<not> shouldHashCons a \<Longrightarrow> visitor a = f \<Longrightarrow> visits_graph e a F L n"
proof (induction n)
  case 0
  then show ?case by (simp add: visits_graph_def)
next
  case (Suc n)
  show ?case
    unfolding visits_graph_def
    by (intro allI impI, rule visits_graph_step [OF Suc.IH [OF Suc.prems] _ Suc.prems]) auto
qed

section \<open>A call\<close>

lemma dfsMarkByMode_visited:
  assumes hc: "\<not> shouldHashCons a" "visitor a = f" and g: "graph_ok e a F L U (mark_mem s)" and p: "p \<in> U"
    and sh: "\<not> (ignoreSharedHeap a \<and> isPointerInHeap (sharedHeap (mark_gc e)) p)"
  shows "\<exists>ps. dfsMarkByMode e a p s = Some (sum_list (map (counted_bytes e a L (mark_mem s)) ps),
      (visits visit e (mark_mem s) ps s)\<lparr>mark_mem := flips ps (mark_mem s)\<rparr>) \<and>
    visited e a F L U (mark_mem s) p (good (visits visit e (mark_mem s) ps s)) ps"
proof -
  note gD = graph_okD [OF g]
  have pF: "p \<in> F" using p gD(3) by blast
  let ?h = "load64 (mark_mem s) (p - 8)"
  have m: "\<not> isPointerMarkedByMode (mark_mem s) p (mode a)"
    using gD(7) [OF pF] p mark_flip(2) [of ?h]
    by (auto simp: isPointerMarkedByMode_def isPointerMarked_def header_at mark_bit_def and.commute split: GC_markMode.splits)
  have fwd: "getHeader (mark_mem s) p \<noteq> GC_FORWARDED" using gD(6) [OF pF] short_header_bits(1) by (simp add: header_at)
  obtain ps l' where run: "mark_run e a mark_cur (start_locals p ?h) s = mark_run e a ret l' ((visits visit e (mark_mem s) ps s)\<lparr>mark_mem := flips ps (mark_mem s)\<rparr>)"
    "cur l' = p" "prev l' = 0" "total_size l' = total_size (start_locals p ?h) + sum_list (map (counted_bytes e a L (mark_mem s)) ps)"
    "visited e a F L U (mark_mem s) p (good (visits visit e (mark_mem s) ps s)) ps"
    by (rule visits_graphD [OF visits_graph_all [OF hc] lessI g p, where q = 0 and l = "start_locals p ?h" and s = s])
      (simp_all add: start_locals_def)
  have "mark_run e a ret l' s' = Some (total_size l', s')" for s'
    by (subst mark_run.simps) (simp add: mark_step_def step_ret_def run(3))
  then have "dfsMarkByMode e a p s = Some (sum_list (map (counted_bytes e a L (mark_mem s)) ps),
      (visits visit e (mark_mem s) ps s)\<lparr>mark_mem := flips ps (mark_mem s)\<rparr>)"
    using m fwd sh run(1,4) by (auto simp: dfsMarkByMode_def header_at start_locals_def)
  then show ?thesis using run(5) by blast
qed

end

end
