(* ===== verification/Mark_Clients.thy ===== *)
theory Mark_Clients
  imports Dfs_Mark_Graph Threads
begin

text \<open>
  The callers of \<open>dfsMarkByMode\<close>: sizes of object graphs (\<open>gc/size.c\<close>),
  cleanliness of closures (\<open>gc/object-cleanliness.c\<close>) and the functions applied to roots
  (\<open>gc/dfs-mark.c\<close>, \<open>gc/reclaim.c\<close>); entering and leaving the runtime (\<open>gc/enter_leave.c\<close>,
  \<open>gc/statistics.c\<close>).
\<close>

section \<open>Entering and leaving the runtime\<close>

datatype sync_reason =
  SYNC_NONE | SYNC_OLD_GEN_ARRAY | SYNC_NEW_GEN_ARRAY | SYNC_STACK | SYNC_HEAP | SYNC_LIFT | SYNC_FORCE | SYNC_PACK |
  SYNC_SAVE_WORLD | SYNC_SIGNALS | SYNC_LIFT_NO_GC | SYNC_MISC | SYNC_HELP

record sync_state =
  syncReason :: sync_reason
  syncForOldGenArray :: u64
  syncForNewGenArray :: u64
  syncForStack :: u64
  syncForHeap :: u64
  syncForce :: u64
  syncForLift :: u64
  syncMisc :: u64
  syncForLiftNoGC :: u64

text \<open>Without a reason the program exits.\<close>

definition incSync :: "sync_state \<Rightarrow> sync_state option" where
  "incSync y = (case syncReason y of
     SYNC_NONE \<Rightarrow> None
   | SYNC_SIGNALS \<Rightarrow> Some y
   | SYNC_OLD_GEN_ARRAY \<Rightarrow> Some (y\<lparr>syncForOldGenArray := syncForOldGenArray y + 1\<rparr>)
   | SYNC_NEW_GEN_ARRAY \<Rightarrow> Some (y\<lparr>syncForNewGenArray := syncForNewGenArray y + 1\<rparr>)
   | SYNC_STACK \<Rightarrow> Some (y\<lparr>syncForStack := syncForStack y + 1\<rparr>)
   | SYNC_HEAP \<Rightarrow> Some (y\<lparr>syncForHeap := syncForHeap y + 1\<rparr>)
   | SYNC_FORCE \<Rightarrow> Some (y\<lparr>syncForce := syncForce y + 1\<rparr>)
   | SYNC_LIFT \<Rightarrow> Some (y\<lparr>syncForLift := syncForLift y + 1\<rparr>)
   | SYNC_PACK \<Rightarrow> Some (y\<lparr>syncMisc := syncMisc y + 1\<rparr>)
   | SYNC_SAVE_WORLD \<Rightarrow> Some (y\<lparr>syncMisc := syncMisc y + 1\<rparr>)
   | SYNC_MISC \<Rightarrow> Some (y\<lparr>syncMisc := syncMisc y + 1\<rparr>)
   | SYNC_LIFT_NO_GC \<Rightarrow> Some (y\<lparr>syncForLiftNoGC := syncForLiftNoGC y + 1\<rparr>)
   | SYNC_HELP \<Rightarrow> Some y)"

text \<open>The state of the callers. The memory is that of \<open>rmachine\<close>.\<close>

record runtime =
  rmachine :: machine
  rsync :: sync_state
  rmark :: marker

definition enter_local :: "gc_static \<Rightarrow> runtime \<Rightarrow> runtime option" where
  "enter_local g r =
    map_option (\<lambda>y. r\<lparr>rmachine := beginAtomic (save_thread g (rmachine r)), rsync := y\<rparr>) (incSync (rsync r))"

definition leave_local :: "runtime \<Rightarrow> runtime" where
  "leave_local r = r\<lparr>rsync := (rsync r)\<lparr>syncReason := SYNC_NONE\<rparr>, rmachine := endAtomic (rmachine r)\<rparr>"

definition env_at :: "mark_env \<Rightarrow> runtime \<Rightarrow> mark_env" where
  "env_at e r = e\<lparr>mark_gc := gcs (rmachine r), mark_sessionStart := sessionStart (rmachine r)\<rparr>"

definition mark_in :: "mark_env \<Rightarrow> mark_args \<Rightarrow> pointer \<Rightarrow> runtime \<Rightarrow> (size_t \<times> runtime) option" where
  "mark_in e a root r =
    map_option (\<lambda>(n, s). (n, r\<lparr>rmark := s, rmachine := (rmachine r)\<lparr>mm := mark_mem s\<rparr>\<rparr>))
      (dfsMarkByMode (env_at e r) a root ((rmark r)\<lparr>mark_mem := mm (rmachine r)\<rparr>))"

section \<open>Operations\<close>

text \<open>The arguments in their order in the code.\<close>

definition margs :: "GC_foreachObjectDfsFun \<Rightarrow> GC_markMode \<Rightarrow> bool \<Rightarrow> bool \<Rightarrow> bool \<Rightarrow> bool \<Rightarrow> mark_args" where
  "margs f m shc slw ish est = \<lparr> visitor = f, mode = m, shouldHashCons = shc, shouldLinkWeaks = slw,
    ignoreSharedHeap = ish, sizeEstimationForLifting = est \<rparr>"

text \<open>The functions that are applied to the slot \<open>opp\<close> of a root.\<close>

definition mark_root :: "mark_env \<Rightarrow> mark_args \<Rightarrow> pointer \<Rightarrow> marker \<Rightarrow> marker option" where
  "mark_root e a opp s = do {
     m \<leftarrow> fixFwdObjptr (mark_mem s) (mark_base e) opp;
     let p = objptrToPointer (load64 m opp) (mark_base e);
     map_option snd (dfsMarkByMode e a p (s\<lparr>mark_mem := m\<rparr>)) }"

definition dfsMarkWithHashConsWithLinkWeaks :: "mark_env \<Rightarrow> pointer \<Rightarrow> marker \<Rightarrow> marker option" where
  "dfsMarkWithHashConsWithLinkWeaks e = mark_root e (margs emptyForeachObjectFun MARK_MODE True True True False)"

definition dfsMarkWithoutHashConsWithLinkWeaks :: "mark_env \<Rightarrow> pointer \<Rightarrow> marker \<Rightarrow> marker option" where
  "dfsMarkWithoutHashConsWithLinkWeaks e = mark_root e (margs emptyForeachObjectFun MARK_MODE False True True False)"

definition dfsMarkTraceShared :: "mark_env \<Rightarrow> pointer \<Rightarrow> marker \<Rightarrow> marker option" where
  "dfsMarkTraceShared e = mark_root e (margs emptyForeachObjectFun MARK_MODE False True False False)"

definition dfsUnmark :: "mark_env \<Rightarrow> pointer \<Rightarrow> marker \<Rightarrow> marker option" where
  "dfsUnmark e opp s =
    map_option snd (dfsMarkByMode e (margs emptyForeachObjectFun UNMARK_MODE False False True False)
      (objptrToPointer (load64 (mark_mem s) opp) (mark_base e)) s)"

definition dfsMarkReachable :: "mark_env \<Rightarrow> pointer \<Rightarrow> marker \<Rightarrow> marker option" where
  "dfsMarkReachable e = mark_root e (margs addToReachableArray MARK_MODE False True False False)"

definition dfsUnmarkReachable :: "mark_env \<Rightarrow> pointer \<Rightarrow> marker \<Rightarrow> marker option" where
  "dfsUnmarkReachable e = mark_root e (margs emptyForeachObjectFun UNMARK_MODE False True False False)"

text \<open>The sizes: mark, then unmark; \<open>ish\<close> and \<open>est\<close> are the last two arguments.\<close>

definition mark_and_unmark :: "mark_env \<Rightarrow> bool \<Rightarrow> bool \<Rightarrow> pointer \<Rightarrow> runtime \<Rightarrow> (size_t \<times> runtime) option" where
  "mark_and_unmark e ish est root r = do {
     r \<leftarrow> enter_local (mark_static e) (r\<lparr>rsync := (rsync r)\<lparr>syncReason := SYNC_MISC\<rparr>\<rparr>);
     (res, r) \<leftarrow> mark_in e (margs emptyForeachObjectFun MARK_MODE False False ish est) root r;
     (_, r) \<leftarrow> mark_in e (margs emptyForeachObjectFun UNMARK_MODE False False ish est) root r;
     Some (res, leave_local r) }"

definition GC_sizeInLocalHeap :: "mark_env \<Rightarrow> pointer \<Rightarrow> runtime \<Rightarrow> (size_t \<times> runtime) option" where
  "GC_sizeInLocalHeap e = mark_and_unmark e True False"

definition GC_size :: "mark_env \<Rightarrow> pointer \<Rightarrow> runtime \<Rightarrow> (size_t \<times> runtime) option" where
  "GC_size e root r = GC_sizeInLocalHeap e root r"

definition estimateSizeForLifting :: "mark_env \<Rightarrow> pointer \<Rightarrow> runtime \<Rightarrow> (size_t \<times> runtime) option" where
  "estimateSizeForLifting e = mark_and_unmark e False True"

definition GC_isObjectClosureClean :: "mark_env \<Rightarrow> pointer \<Rightarrow> marker \<Rightarrow> (bool \<times> marker) option" where
  "GC_isObjectClosureClean e p s = do {
     ty \<leftarrow> splitHeader (objectTypes (mark_static e)) (getHeader (mark_mem s) p);
     if tag ty = STACK_TAG then Some (False, s)
     else do {
       (_, s) \<leftarrow> dfsMarkByMode e (margs isWriteCleanMark MARK_MODE False False True False) p (s\<lparr>tmpBool := True, tmpPointer := p\<rparr>);
       let isClosureVirgin = tmpBool s;
       (_, s) \<leftarrow> dfsMarkByMode e (margs isWriteCleanUnmark UNMARK_MODE False False True False) p s;
       Some (isClosureVirgin, s\<lparr>tmpPointer := BOGUS_POINTER\<rparr>) } }"

text \<open>The out-parameter \<open>size\<close> is left alone for a stack.\<close>

definition isThreadClosureClean :: "mark_env \<Rightarrow> pointer \<Rightarrow> size_t \<Rightarrow> marker \<Rightarrow> (bool \<times> size_t \<times> marker) option" where
  "isThreadClosureClean e p sz s = do {
     ty \<leftarrow> splitHeader (objectTypes (mark_static e)) (getHeader (mark_mem s) p);
     if tag ty = STACK_TAG then Some (False, sz, s)
     else do {
       (sz, s) \<leftarrow> dfsMarkByMode e (margs isSpawnCleanMark MARK_MODE False False True False) p (s\<lparr>tmpBool := True, tmpPointer := p\<rparr>);
       let isClosureVirgin = tmpBool s;
       (_, s) \<leftarrow> dfsMarkByMode e (margs isSpawnCleanUnmark UNMARK_MODE False False True False) p s;
       Some (isClosureVirgin, sz, s\<lparr>tmpPointer := BOGUS_POINTER, tmpBool := True, tmpInt := 0\<rparr>) } }"

definition GC_isThreadClosureClean :: "mark_env \<Rightarrow> pointer \<Rightarrow> size_t \<Rightarrow> marker \<Rightarrow> (bool \<times> marker) option" where
  "GC_isThreadClosureClean e p sz s = map_option (\<lambda>(b, _, s). (b, s)) (isThreadClosureClean e p sz s)"

text \<open>Counting pointers to marked objects.\<close>

definition doesPointToMarkedObject :: "mark_env \<Rightarrow> pointer \<Rightarrow> marker \<Rightarrow> marker option" where
  "doesPointToMarkedObject e opp s = (let p = objptrToPointer (load64 (mark_mem s) opp) (mark_base e) in
    if isPointerMarked (mark_mem s) p
    then map_option (\<lambda>i. if i then s\<lparr>tmpInt := tmpInt s + 1\<rparr> else s)
      (objectHasIdentityTransitive (objectTypes (mark_static e)) (getHeader (mark_mem s) p))
    else Some s)"

definition doesCurrentStackPointToMarkedObject :: "mark_env \<Rightarrow> pointer \<Rightarrow> marker \<Rightarrow> marker option" where
  "doesCurrentStackPointToMarkedObject e opp s = (let p = objptrToPointer (load64 (mark_mem s) opp) (mark_base e) in
    if isPointerMarked (mark_mem s) p \<and> p \<noteq> tmpPointer s
    then map_option (\<lambda>i. if i then s\<lparr>tmpInt := tmpInt s + 1\<rparr> else s)
      (objectHasIdentityTransitive (objectTypes (mark_static e)) (getHeader (mark_mem s) p))
    else Some s)"

section \<open>The functions that are applied are visitors\<close>

text \<open>What the two tests say of an object with the header \<open>h\<close>; \<open>root\<close> is the root of the closure.\<close>

definition excused :: "mark_env \<Rightarrow> GC_header \<Rightarrow> bool" where
  "excused e h \<longleftrightarrow> objectHasIdentity (objectTypes (mark_static e)) h = Some False \<and> useIdentityForCleanliness e"

definition write_clean :: "mark_env \<Rightarrow> pointer \<Rightarrow> GC_header \<Rightarrow> pointer \<Rightarrow> bool" where
  "write_clean e root h p \<longleftrightarrow> getNumReferences h = ZERO \<or> (getNumReferences h = ONE \<and> p \<noteq> root) \<or> excused e h"

definition spawn_clean :: "mark_env \<Rightarrow> pointer \<Rightarrow> GC_header \<Rightarrow> pointer \<Rightarrow> bool" where
  "spawn_clean e root h p \<longleftrightarrow> getNumReferences h = ZERO \<or> (getNumReferences h = ONE \<and> p \<noteq> root) \<or>
    (getNumReferences h = LOCAL_MANY \<and> mark_sessionStart e < p \<and> p < frontier (mark_gc e)) \<or> excused e h"

definition test_visit :: "(mark_env \<Rightarrow> pointer \<Rightarrow> GC_header \<Rightarrow> pointer \<Rightarrow> bool) \<Rightarrow> mark_env \<Rightarrow> GC_header \<Rightarrow> pointer \<Rightarrow> marker \<Rightarrow> bool \<times> marker" where
  "test_visit test e h p s = (let b = (tmpBool s \<and> test e (tmpPointer s) h p) in (b, s\<lparr>tmpBool := b\<rparr>))"

definition plain_visit :: "mark_env \<Rightarrow> GC_header \<Rightarrow> pointer \<Rightarrow> marker \<Rightarrow> bool \<times> marker" where
  "plain_visit e h p s = (True, s)"

definition reachable_visit :: "mark_env \<Rightarrow> GC_header \<Rightarrow> pointer \<Rightarrow> marker \<Rightarrow> bool \<times> marker" where
  "reachable_visit e h p s =
    (True, if isPointerInHeap (sharedHeap (mark_gc e)) p \<and> h AND NOT (LIFT_MASK OR VIRGIN_MASK) \<noteq> 3
      then s\<lparr>reachable_array := reachable_array s @ [p]\<rparr> else s)"

lemma objectHasIdentity_Some: "splitHeader types h = Some ty \<Longrightarrow> objectHasIdentity types h = Some (hasIdentity ty)"
  by (auto simp: splitHeader_def objectHasIdentity_def Let_def split: if_splits)

interpretation empty_fun: dfs_visitor emptyForeachObjectFun plain_visit "\<lambda>_. True"
  by unfold_locales (simp_all add: plain_visit_def apply_visitor_def)

interpretation write_unmark: dfs_visitor isWriteCleanUnmark plain_visit "\<lambda>_. True"
  by unfold_locales (simp_all add: plain_visit_def apply_visitor_def)

interpretation spawn_unmark: dfs_visitor isSpawnCleanUnmark plain_visit "\<lambda>_. True"
  by unfold_locales (simp_all add: plain_visit_def apply_visitor_def)

interpretation collect: dfs_visitor addToReachableArray reachable_visit "\<lambda>_. True"
  by unfold_locales (auto simp: reachable_visit_def apply_visitor_def addToReachableArray_fun_def)

interpretation write_mark: dfs_visitor isWriteCleanMark "test_visit write_clean" tmpBool
proof unfold_locales
  fix e :: mark_env and s :: marker and p ty assume "splitHeader (objectTypes (mark_static e)) (getHeader (mark_mem s) p) = Some ty"
  then show "apply_visitor e isWriteCleanMark p s = Some (test_visit write_clean e (getHeader (mark_mem s) p) p s)"
    by (auto simp: apply_visitor_def isWriteCleanMark_fun_def clean_result_def test_visit_def write_clean_def excused_def Let_def
      objectHasIdentity_Some)
qed (auto simp: test_visit_def Let_def)

interpretation spawn_mark: dfs_visitor isSpawnCleanMark "test_visit spawn_clean" tmpBool
proof unfold_locales
  fix e :: mark_env and s :: marker and p ty assume "splitHeader (objectTypes (mark_static e)) (getHeader (mark_mem s) p) = Some ty"
  then show "apply_visitor e isSpawnCleanMark p s = Some (test_visit spawn_clean e (getHeader (mark_mem s) p) p s)"
    by (cases "getNumReferences (getHeader (mark_mem s) p)")
      (auto simp: apply_visitor_def isSpawnCleanMark_fun_def clean_result_def test_visit_def spawn_clean_def excused_def Let_def
        objectHasIdentity_Some)
qed (auto simp: test_visit_def Let_def)

lemma visits_plain: "visits plain_visit e m ps s = s"
  by (induction ps arbitrary: s) (simp_all add: plain_visit_def)

lemma visits_test: "visits (test_visit test) e m ps s =
    s\<lparr>tmpBool := tmpBool s \<and> (\<forall>p\<in>set ps. test e (tmpPointer s) (getHeader m p) p)\<rparr>"
  by (induction ps arbitrary: s) (auto simp: test_visit_def Let_def)

section \<open>Marking, and marking back\<close>

lemma visited_all:
  assumes "visited e a F L F m p True ps"
  shows "set ps = mark_reach e a L m F p"
proof
  show "set ps \<subseteq> mark_reach e a L m F p"
    using assms mark_reach_mono [of _ e a L m "set ps" p F m] by (auto simp: visited_def)
  show "mark_reach e a L m F p \<subseteq> set ps"
  proof
    fix q assume "q \<in> mark_reach e a L m F p"
    then show "q \<in> set ps"
    proof induction
      case mark_reach_self
      then show ?case using assms by (simp add: visited_def)
    next
      case (mark_reach_slot o' i)
      then have "load64 m (o' + of_nat i) \<in> succs e a L m o'" by (auto simp: succs_def)
      then show ?case using assms mark_reach_slot.IH by (auto simp: visited_def)
    qed
  qed
qed

lemma flips_outside: "(\<And>p. p \<in> set ps \<Longrightarrow> 8 \<le> off (p - 8) x) \<Longrightarrow> flips ps m x = m x"
  by (induction ps arbitrary: m) (simp_all add: store64_other)

text \<open>The graph after marking, in the opposite mode.\<close>

definition opposite :: "mark_args \<Rightarrow> mark_args \<Rightarrow> bool" where
  "opposite a a' \<longleftrightarrow> mode a \<noteq> mode a' \<and> ignoreSharedHeap a' = ignoreSharedHeap a \<and> shouldLinkWeaks a' = shouldLinkWeaks a \<and>
    sizeEstimationForLifting a' = sizeEstimationForLifting a"

lemma opposite_bit: "opposite a a' \<Longrightarrow> h AND MARK_MASK = mark_bit a \<longleftrightarrow> h AND MARK_MASK \<noteq> mark_bit a'"
  using mark_flip(2) [of h] mark_flip(4)
  by (cases "mode a"; cases "mode a'") (auto simp: opposite_def mark_bit_def)

lemma intact_flip:
  assumes i: "intact e a F L m p" and o: "opposite a a'"
    and h: "load64 m' (p - 8) = load64 m (p - 8) \<or> load64 m' (p - 8) = load64 m (p - 8) XOR MARK_MASK"
    and w: "hb (L p) = 24 \<Longrightarrow> load64 m' (p - 16) = load64 m (p - 16)"
      "hb (L p) = 24 \<Longrightarrow> load64 m' (p - 24) = load64 m (p - 24)"
      "\<And>i. i \<in> set (ptrs (L p)) \<Longrightarrow> load64 m' (p + of_nat i) = load64 m (p + of_nat i)"
    and out: "\<And>v. (\<And>p. p \<in> F \<Longrightarrow> disjnt_regions (start_of L p) (bytes_of (L p)) (v - 8) 8) \<Longrightarrow> load64 m' (v - 8) = load64 m (v - 8)"
  shows "intact e a' F L m' p"
proof -
  have l: "mark_layout (mark_static e) m p = Some (L p)" using i by (simp add: intact_def)
  obtain ty where ty: "splitHeader (objectTypes (mark_static e)) (load64 m (p - 8)) = Some ty"
    using l by (auto simp: mark_layout_def bind_eq_Some_conv header_at)
  have ty': "splitHeader (objectTypes (mark_static e)) (load64 m' (p - 8)) = Some ty"
    using h ty by auto
  have cnt: "load64 m' (p - 8) AND COUNTER_MASK = load64 m (p - 8) AND COUNTER_MASK"
    using h
  proof
    assume "load64 m' (p - 8) = load64 m (p - 8) XOR MARK_MASK"
    then show ?thesis by (simp only:) (rule bit_eqI, auto simp: bit_simps bit_masks)
  qed simp
  have len: "load64 m' (p - 16) = load64 m (p - 16)" if "tag ty = ARRAY_TAG"
    using that mark_layout_array [OF l] ty w(1) by (auto simp: header_at)
  have "mark_layout (mark_static e) m' p = Some (L p)" "array_fits (mark_static e) m' p (L p)"
    using i l ty ty' len
    by (auto simp: intact_def mark_layout_def layout_of_def array_fits_def header_at split: if_splits)
  moreover have "slot_ok e a' F L m' v" if "slot_ok e a F L m v" for v
    using that out [of v] o unfolding slot_ok_def header_at skipped_def opposite_def by auto
  ultimately show ?thesis using i w cnt ty ty' o by (auto simp: intact_def header_at opposite_def)
qed

lemma graph_marked:
  assumes g: "graph_ok e a F L F m" and ps: "set ps \<subseteq> F" "distinct ps" and o: "opposite a a'"
  shows "graph_ok e a' F L (set ps) (flips ps m)"
proof -
  note gD = graph_okD [OF g]
  have hdr: "load64 (flips ps m) (p - 8) = (if p \<in> set ps then load64 m (p - 8) XOR MARK_MASK else load64 m (p - 8))" if "p \<in> F" for p
    by (rule flips_header [OF areas_headers_apart [OF gD(4)] ps that])
  have w: "load64 (flips ps m) y = load64 m y" if "p \<in> F" "word_of_object L p y" "disjnt_regions (p - 8) 8 y 8" for p y
  proof (rule flips_load)
    show "clear_of (set ps) y"
      unfolding clear_of_def using ps(1) that words_apart [OF gD(4) _ that(1) _ graph_object_words(1) that(2)] gD(4) by blast
  qed
  have "intact e a' F L (flips ps m) p" if p: "p \<in> F" for p
  proof (rule intact_flip [OF gD(8) [OF p] o])
    note ow = graph_object_words [OF gD(4) p] and hb = own_words_apart [OF gD(4) p] and sl = own_slots_apart [OF gD(4) p]
    show "load64 (flips ps m) (p - 8) = load64 m (p - 8) \<or> load64 (flips ps m) (p - 8) = load64 m (p - 8) XOR MARK_MASK"
      using hdr [OF p] by auto
    show "load64 (flips ps m) (p - 16) = load64 m (p - 16)" if "hb (L p) = 24" using that w [OF p ow(3) hb(3)] by blast
    show "load64 (flips ps m) (p - 24) = load64 m (p - 24)" if "hb (L p) = 24"
      using that w [OF p ow(2)] hb(1) by (simp add: disjnt_sym)
    show "load64 (flips ps m) (p + of_nat j) = load64 m (p + of_nat j)" if "j \<in> set (ptrs (L p))" for j
      using w [OF p ow(4) sl(1)] intact_ptrs(1) [OF gD(8) [OF p] that] by blast
    show "load64 (flips ps m) (v - 8) = load64 m (v - 8)"
      if "\<And>p. p \<in> F \<Longrightarrow> disjnt_regions (start_of L p) (bytes_of (L p)) (v - 8) 8" for v
      using flips_load [OF clear_of_outside [OF gD(4) ps(1) that]] .
  qed
  moreover have "short_header (load64 (flips ps m) (p - 8))"
      "p \<in> set ps \<longleftrightarrow> load64 (flips ps m) (p - 8) AND MARK_MASK \<noteq> mark_bit a'" if "p \<in> F" for p
  proof -
    show "short_header (load64 (flips ps m) (p - 8))" using hdr [OF that] gD(6) [OF that] by (simp add: short_header_bits)
    show "p \<in> set ps \<longleftrightarrow> load64 (flips ps m) (p - 8) AND MARK_MASK \<noteq> mark_bit a'"
    proof -
      have n: "load64 m (p - 8) AND MARK_MASK \<noteq> mark_bit a" using gD(7) [OF that] that by blast
      then have "load64 m (p - 8) AND MARK_MASK = mark_bit a'" using opposite_bit [OF o] by blast
      moreover have "(load64 m (p - 8) XOR MARK_MASK) AND MARK_MASK \<noteq> mark_bit a'"
        using n mark_bit_flip opposite_bit [OF o] by blast
      ultimately show ?thesis using hdr [OF that] by simp
    qed
  qed
  ultimately show ?thesis
    using gD ps(1) unfolding graph_ok_def header_at by blast
qed

text \<open>The second call visits the objects that the first has visited.\<close>

lemma visited_back:
  assumes v: "visited e a F L F m p b ps" and v2: "visited e a' F L (set ps) (flips ps m) p True qs" and o: "opposite a a'"
    and sl: "\<And>o' i. o' \<in> F \<Longrightarrow> i \<in> set (ptrs (L o')) \<Longrightarrow> load64 (flips ps m) (o' + of_nat i) = load64 m (o' + of_nat i)"
  shows "set qs = set ps"
proof
  show "set qs \<subseteq> set ps" using v2 by (simp add: visited_def)
  have F: "set ps \<subseteq> F" using v by (simp add: visited_def)
  have sk: "skipped e a' = skipped e a" using o by (auto simp: skipped_def opposite_def)
  have "q \<in> set ps \<longrightarrow> q \<in> set qs" if "q \<in> mark_reach e a L m (set ps) p" for q
    using that
  proof induction
    case mark_reach_self
    then show ?case using v2 by (simp add: visited_def)
  next
    case (mark_reach_slot o' i)
    have e1: "load64 m (o' + of_nat i) = load64 (flips ps m) (o' + of_nat i)"
      using sl [of o' i] F mark_reach_slot by auto
    have "load64 m (o' + of_nat i) \<in> succs e a' L (flips ps m) o'"
      unfolding succs_def using mark_reach_slot e1 sk by auto
    moreover have "succs e a' L (flips ps m) o' \<subseteq> (F - set ps) \<union> set qs"
      using v2 mark_reach_slot by (auto simp: visited_def)
    ultimately show ?case by blast
  qed
  then show "set ps \<subseteq> set qs" using v by (auto simp: visited_def)
qed

lemma graph_slots:
  assumes g: "graph_ok e a F L F m" and ps: "set ps \<subseteq> F" and o: "o' \<in> F" "i \<in> set (ptrs (L o'))"
  shows "load64 (flips ps m) (o' + of_nat i) = load64 m (o' + of_nat i)"
proof (rule flips_load)
  note gD = graph_okD [OF g]
  have i: "i + 8 \<le> bb (L o')" by (rule intact_ptrs(1) [OF gD(8) [OF o(1)] o(2)])
  show "clear_of (set ps) (o' + of_nat i)"
    unfolding clear_of_def
  proof
    fix d assume "d \<in> set ps"
    then show "disjnt_regions (d - 8) 8 (o' + of_nat i) 8"
      using ps own_slots_apart(1) [OF gD(4) o(1) i]
        words_apart [OF gD(4) _ o(1) _ graph_object_words(1) graph_object_words(4) [OF gD(4) o(1) i]] gD(4) by (cases "d = o'") blast+
  qed
qed

lemma second_pass:
  assumes g: "graph_ok e a F L F m" and v: "visited e a F L F m p b ps" and o: "opposite a a'" and hc: "\<not> shouldHashCons a'"
    and f: "visitor a' \<in> {emptyForeachObjectFun, isWriteCleanUnmark, isSpawnCleanUnmark}"
    and sh: "\<not> (ignoreSharedHeap a' \<and> isPointerInHeap (sharedHeap (mark_gc e)) p)" and s: "mark_mem s = flips ps m"
  shows "\<exists>n. dfsMarkByMode e a' p s = Some (n, s\<lparr>mark_mem := m\<rparr>)"
proof -
  have ps: "distinct ps" "set ps \<subseteq> F" "p \<in> set ps" using v by (auto simp: visited_def)
  have g2: "graph_ok e a' F L (set ps) (mark_mem s)" unfolding s by (rule graph_marked [OF g ps(2,1) o])
  obtain qs n where qs: "dfsMarkByMode e a' p s = Some (n, s\<lparr>mark_mem := flips qs (mark_mem s)\<rparr>)"
    "visited e a' F L (set ps) (mark_mem s) p True qs"
    using f empty_fun.dfsMarkByMode_visited [OF hc _ g2 ps(3) sh] write_unmark.dfsMarkByMode_visited [OF hc _ g2 ps(3) sh]
      spawn_unmark.dfsMarkByMode_visited [OF hc _ g2 ps(3) sh] by (auto simp: visits_plain)
  have "set qs = set ps"
    by (rule visited_back [OF v _ o]) (use qs s graph_slots [OF g ps(2)] in auto)
  moreover have "distinct qs" using qs(2) by (simp add: visited_def)
  ultimately have "flips qs (mark_mem s) = m"
    unfolding s using flips_undo [OF areas_headers_apart [OF graph_okD(4) [OF g]] ps(2,1)] by blast
  then show ?thesis using qs(1) by auto
qed

lemma test_answer:
  assumes v: "visited e a F L F m p b ps" and b: "b \<longleftrightarrow> (\<forall>q\<in>set ps. T q)"
  shows "b \<longleftrightarrow> (\<forall>q\<in>mark_reach e a L m F p. T q)"
proof (cases b)
  case True
  then have "set ps = mark_reach e a L m F p" using visited_all [of e a F L m p ps] v by simp
  then show ?thesis using b by simp
next
  case False
  have "set ps \<subseteq> mark_reach e a L m F p"
    using v mark_reach_mono [of _ e a L m "set ps" p F m] by (auto simp: visited_def)
  then show ?thesis using b False by blast
qed

lemma sum_visited: "visited e a F L F m p True ps \<Longrightarrow> sum_list (map h ps) = (\<Sum>q\<in>mark_reach e a L m F p. h q)" for h :: "pointer \<Rightarrow> u64"
proof -
  assume v: "visited e a F L F m p True ps"
  then have "distinct ps" unfolding visited_def by blast
  then show ?thesis unfolding visited_all [OF v, symmetric] by (rule sum_list_distinct_conv_sum_set)
qed

section \<open>Marking\<close>

text \<open>Everything that can be reached from the root, and nothing else, changes its mark; the result
  is the sum of the sizes.\<close>

lemma marks_reachable:
  assumes g: "graph_ok e a F L F (mark_mem s)" and p: "p \<in> F" and a: "\<not> shouldHashCons a" "visitor a = emptyForeachObjectFun"
    and sh: "\<not> (ignoreSharedHeap a \<and> isPointerInHeap (sharedHeap (mark_gc e)) p)"
    and R: "R = mark_reach e a L (mark_mem s) F p"
  shows "\<exists>m. dfsMarkByMode e a p s = Some (\<Sum>q\<in>R. counted_bytes e a L (mark_mem s) q, s\<lparr>mark_mem := m\<rparr>) \<and>
    (\<forall>q\<in>F. isPointerMarkedByMode m q (mode a) \<longleftrightarrow> q \<in> R) \<and>
    (\<forall>q\<in>R. getHeader m q = getHeader (mark_mem s) q XOR MARK_MASK) \<and>
    (\<forall>x. (\<forall>q\<in>R. 8 \<le> off (q - 8) x) \<longrightarrow> m x = mark_mem s x)"
proof -
  note gD = graph_okD [OF g]
  obtain ps where ps: "dfsMarkByMode e a p s = Some (sum_list (map (counted_bytes e a L (mark_mem s)) ps), s\<lparr>mark_mem := flips ps (mark_mem s)\<rparr>)"
    and v: "visited e a F L F (mark_mem s) p True ps"
    using empty_fun.dfsMarkByMode_visited [OF a g p sh] by (auto simp: visits_plain)
  have R': "set ps = R" "set ps \<subseteq> F" "distinct ps" using visited_all [OF v] v R by (auto simp: visited_def)
  have hdr: "load64 (flips ps (mark_mem s)) (q - 8) = (if q \<in> R then load64 (mark_mem s) (q - 8) XOR MARK_MASK else load64 (mark_mem s) (q - 8))"
    if "q \<in> F" for q
    using flips_header [OF areas_headers_apart [OF gD(4)] R'(2,3) that] R'(1) by simp
  have "isPointerMarkedByMode (flips ps (mark_mem s)) q (mode a) \<longleftrightarrow> q \<in> R" if "q \<in> F" for q
  proof -
    have n: "load64 (mark_mem s) (q - 8) AND MARK_MASK \<noteq> mark_bit a" using gD(7) [OF that] that by blast
    have "isPointerMarkedByMode m q (mode a) \<longleftrightarrow> load64 m (q - 8) AND MARK_MASK = mark_bit a" for m
      using mark_flip(2) [of "load64 m (q - 8)"] mark_flip(4)
      by (auto simp: isPointerMarkedByMode_def isPointerMarked_def header_at mark_bit_def and.commute split: GC_markMode.splits)
    then show ?thesis using hdr [OF that] n mark_bit_flip by auto
  qed
  moreover have "getHeader (flips ps (mark_mem s)) q = getHeader (mark_mem s) q XOR MARK_MASK" if "q \<in> R" for q
    using hdr [of q] that R' by (auto simp: header_at)
  moreover have "flips ps (mark_mem s) x = mark_mem s x" if "\<forall>q\<in>R. 8 \<le> off (q - 8) x" for x
    using that R' by (intro flips_outside) auto
  ultimately show ?thesis using ps sum_visited [OF v] R by (intro exI [of _ "flips ps (mark_mem s)"]) auto
qed

section \<open>Cleanliness of closures\<close>

lemma graph_tag:
  assumes g: "graph_ok e a F L F m" and p: "p \<in> F"
  shows "\<exists>ty. splitHeader (objectTypes (mark_static e)) (getHeader m p) = Some ty \<and> tag ty \<noteq> STACK_TAG"
proof -
  note gD = graph_okD [OF g]
  obtain ty where ty: "splitHeader (objectTypes (mark_static e)) (load64 m (p - 8)) = Some ty"
    and t: "typed (mark_static e) (L p) ty (load64 m (p - 16))"
    using intact_typed [OF gD(8) [OF p] areas_okD(2) [OF gD(4) p]] by blast
  have "tag ty \<noteq> STACK_TAG" using t by (auto simp: typed_def split: if_splits)
  then show ?thesis using ty by (simp add: header_at)
qed

lemma object_closure_clean:
  assumes g: "graph_ok e a F L F (mark_mem s)" and p: "p \<in> F" and a: "a = margs isWriteCleanMark MARK_MODE False False True False"
    and sh: "\<not> isPointerInHeap (sharedHeap (mark_gc e)) p"
  shows "GC_isObjectClosureClean e p s =
    Some (\<forall>q\<in>mark_reach e a L (mark_mem s) F p. write_clean e p (getHeader (mark_mem s) q) q,
      s\<lparr>tmpBool := (\<forall>q\<in>mark_reach e a L (mark_mem s) F p. write_clean e p (getHeader (mark_mem s) q) q), tmpPointer := BOGUS_POINTER\<rparr>)"
proof -
  note gD = graph_okD [OF g]
  let ?s = "s\<lparr>tmpBool := True, tmpPointer := p\<rparr>" and ?a' = "margs isWriteCleanUnmark UNMARK_MODE False False True False"
  have g': "graph_ok e a F L F (mark_mem ?s)" using g by simp
  obtain ps n where ps: "dfsMarkByMode e a p ?s = Some (n, (visits (test_visit write_clean) e (mark_mem ?s) ps ?s)\<lparr>mark_mem := flips ps (mark_mem ?s)\<rparr>)"
    and v: "visited e a F L F (mark_mem ?s) p (tmpBool (visits (test_visit write_clean) e (mark_mem ?s) ps ?s)) ps"
    using write_mark.dfsMarkByMode_visited [OF _ _ g' p] a sh by (auto simp: margs_def)
  define B where "B \<longleftrightarrow> (\<forall>q\<in>set ps. write_clean e p (getHeader (mark_mem s) q) q)"
  let ?s1 = "s\<lparr>tmpBool := B, tmpPointer := p, mark_mem := flips ps (mark_mem s)\<rparr>"
  have v': "visited e a F L F (mark_mem s) p B ps" using v by (simp add: visits_test B_def)
  have ps1: "dfsMarkByMode e a p ?s = Some (n, ?s1)" using ps by (simp add: visits_test B_def)
  have b: "B \<longleftrightarrow> (\<forall>q\<in>mark_reach e a L (mark_mem s) F p. write_clean e p (getHeader (mark_mem s) q) q)"
    by (rule test_answer [OF v' B_def])
  have "\<exists>n. dfsMarkByMode e ?a' p ?s1 = Some (n, ?s1\<lparr>mark_mem := mark_mem s\<rparr>)"
    by (rule second_pass [OF g v']) (simp_all add: a margs_def opposite_def sh)
  then obtain n' where n': "dfsMarkByMode e ?a' p ?s1 = Some (n', s\<lparr>tmpBool := B, tmpPointer := p\<rparr>)" by auto
  obtain ty where ty: "splitHeader (objectTypes (mark_static e)) (getHeader (mark_mem s) p) = Some ty" "tag ty \<noteq> STACK_TAG"
    using graph_tag [OF g p] by blast
  have "GC_isObjectClosureClean e p s = Some (B, s\<lparr>tmpBool := B, tmpPointer := BOGUS_POINTER\<rparr>)"
    unfolding GC_isObjectClosureClean_def using ps1 ty n' by (simp add: a)
  then show ?thesis unfolding b .
qed

lemma thread_closure_clean:
  assumes g: "graph_ok e a F L F (mark_mem s)" and p: "p \<in> F" and a: "a = margs isSpawnCleanMark MARK_MODE False False True False"
    and sh: "\<not> isPointerInHeap (sharedHeap (mark_gc e)) p"
  shows "\<exists>n. isThreadClosureClean e p sz s =
    Some (\<forall>q\<in>mark_reach e a L (mark_mem s) F p. spawn_clean e p (getHeader (mark_mem s) q) q, n,
      s\<lparr>tmpBool := True, tmpPointer := BOGUS_POINTER, tmpInt := 0\<rparr>) \<and>
    ((\<forall>q\<in>mark_reach e a L (mark_mem s) F p. spawn_clean e p (getHeader (mark_mem s) q) q) \<longrightarrow>
      n = (\<Sum>q\<in>mark_reach e a L (mark_mem s) F p. counted_bytes e a L (mark_mem s) q))"
proof -
  note gD = graph_okD [OF g]
  let ?s = "s\<lparr>tmpBool := True, tmpPointer := p\<rparr>" and ?a' = "margs isSpawnCleanUnmark UNMARK_MODE False False True False"
  have g': "graph_ok e a F L F (mark_mem ?s)" using g by simp
  obtain ps where ps: "dfsMarkByMode e a p ?s = Some (sum_list (map (counted_bytes e a L (mark_mem ?s)) ps),
      (visits (test_visit spawn_clean) e (mark_mem ?s) ps ?s)\<lparr>mark_mem := flips ps (mark_mem ?s)\<rparr>)"
    and v: "visited e a F L F (mark_mem ?s) p (tmpBool (visits (test_visit spawn_clean) e (mark_mem ?s) ps ?s)) ps"
    using spawn_mark.dfsMarkByMode_visited [OF _ _ g' p] a sh by (auto simp: margs_def)
  define B where "B \<longleftrightarrow> (\<forall>q\<in>set ps. spawn_clean e p (getHeader (mark_mem s) q) q)"
  let ?s1 = "s\<lparr>tmpBool := B, tmpPointer := p, mark_mem := flips ps (mark_mem s)\<rparr>"
  let ?n = "sum_list (map (counted_bytes e a L (mark_mem s)) ps)"
  have v': "visited e a F L F (mark_mem s) p B ps" using v by (simp add: visits_test B_def)
  have ps1: "dfsMarkByMode e a p ?s = Some (?n, ?s1)" using ps by (simp add: visits_test B_def)
  have b: "B \<longleftrightarrow> (\<forall>q\<in>mark_reach e a L (mark_mem s) F p. spawn_clean e p (getHeader (mark_mem s) q) q)"
    by (rule test_answer [OF v' B_def])
  have "\<exists>n. dfsMarkByMode e ?a' p ?s1 = Some (n, ?s1\<lparr>mark_mem := mark_mem s\<rparr>)"
    by (rule second_pass [OF g v']) (simp_all add: a margs_def opposite_def sh)
  then obtain n' where n': "dfsMarkByMode e ?a' p ?s1 = Some (n', s\<lparr>tmpBool := B, tmpPointer := p\<rparr>)" by auto
  obtain ty where ty: "splitHeader (objectTypes (mark_static e)) (getHeader (mark_mem s) p) = Some ty" "tag ty \<noteq> STACK_TAG"
    using graph_tag [OF g p] by blast
  have "isThreadClosureClean e p sz s = Some (B, ?n, s\<lparr>tmpBool := True, tmpPointer := BOGUS_POINTER, tmpInt := 0\<rparr>)"
    unfolding isThreadClosureClean_def using ps1 ty n' by (simp add: a)
  moreover have "?n = (\<Sum>q\<in>mark_reach e a L (mark_mem s) F p. counted_bytes e a L (mark_mem s) q)" if B
    using that v' by (intro sum_visited) simp
  ultimately show ?thesis unfolding b by blast
qed

section \<open>Sizes\<close>

lemma mark_and_unmark_size:
  assumes g: "graph_ok (env_at e r1) a F L F (mm (rmachine r1))" and p: "p \<in> F"
    and r: "enter_local (mark_static e) (r\<lparr>rsync := (rsync r)\<lparr>syncReason := SYNC_MISC\<rparr>\<rparr>) = Some r1"
    and a: "a = margs emptyForeachObjectFun MARK_MODE False False ish est"
    and sh: "\<not> (ish \<and> isPointerInHeap (sharedHeap (gcs (rmachine r1))) p)"
  shows "mark_and_unmark e ish est p r = Some (\<Sum>q\<in>mark_reach (env_at e r1) a L (mm (rmachine r1)) F p.
      counted_bytes (env_at e r1) a L (mm (rmachine r1)) q,
    leave_local (r1\<lparr>rmark := (rmark r1)\<lparr>mark_mem := mm (rmachine r1)\<rparr>\<rparr>))"
proof -
  let ?e = "env_at e r1" and ?m = "mm (rmachine r1)" and ?a' = "margs emptyForeachObjectFun UNMARK_MODE False False ish est"
  let ?s = "(rmark r1)\<lparr>mark_mem := ?m\<rparr>"
  have g': "graph_ok ?e a F L F (mark_mem ?s)" using g by simp
  have sh': "\<not> (ignoreSharedHeap a \<and> isPointerInHeap (sharedHeap (mark_gc ?e)) p)" using sh by (simp add: a margs_def env_at_def)
  have ex: "\<exists>ps. dfsMarkByMode ?e a p ?s = Some (sum_list (map (counted_bytes ?e a L ?m) ps), ?s\<lparr>mark_mem := flips ps ?m\<rparr>) \<and>
      visited ?e a F L F ?m p True ps"
    using empty_fun.dfsMarkByMode_visited [OF _ _ g' p sh'] a by (simp add: visits_plain margs_def)
  then obtain ps where ps: "dfsMarkByMode ?e a p ?s = Some (sum_list (map (counted_bytes ?e a L ?m) ps), (rmark r1)\<lparr>mark_mem := flips ps ?m\<rparr>)"
    and v: "visited ?e a F L F ?m p True ps" by auto
  let ?s1 = "(rmark r1)\<lparr>mark_mem := flips ps ?m\<rparr>"
  have "\<exists>n. dfsMarkByMode ?e ?a' p ?s1 = Some (n, ?s1\<lparr>mark_mem := ?m\<rparr>)"
    by (rule second_pass [OF g v]) (use sh in \<open>simp_all add: a margs_def opposite_def env_at_def\<close>)
  then obtain n' where n': "dfsMarkByMode ?e ?a' p ?s1 = Some (n', ?s)" by auto
  let ?r2 = "r1\<lparr>rmark := ?s1, rmachine := (rmachine r1)\<lparr>mm := flips ps ?m\<rparr>\<rparr>"
  have 1: "mark_in e a p r1 = Some (sum_list (map (counted_bytes ?e a L ?m) ps), ?r2)"
    using ps by (simp add: mark_in_def)
  have "env_at e ?r2 = ?e" by (simp add: env_at_def)
  then have 2: "mark_in e ?a' p ?r2 = Some (n', r1\<lparr>rmark := ?s\<rparr>)"
    using n' by (simp add: mark_in_def)
  show ?thesis
    unfolding mark_and_unmark_def sum_visited [OF v, symmetric] using r 1 2 by (simp add: a)
qed

section \<open>A graph with a cycle, and an object that cannot be reached\<close>

text \<open>An object at 4104 that points to itself and to the array at 4144, which points back; the
  object at 4168 points to the first one.\<close>

definition demo_node_type :: GC_objectType where
  "demo_node_type = \<lparr> tag = NORMAL_TAG, hasIdentity = True, bytesNonObjptrs = 0, numObjptrs = 2,
      hasIdentityTransitive = True, isUnbounded = False \<rparr>"

definition demo_vector_type :: GC_objectType where
  "demo_vector_type = \<lparr> tag = ARRAY_TAG, hasIdentity = True, bytesNonObjptrs = 0, numObjptrs = 1,
      hasIdentityTransitive = True, isUnbounded = False \<rparr>"

definition demo_mark_types :: "GC_objectType list" where
  "demo_mark_types = [demo_node_type, demo_vector_type]"

definition demo_mark_env :: mark_env where
  "demo_mark_env = \<lparr> mark_static = demo_static\<lparr>objectTypes := demo_mark_types\<rparr>, mark_gc = demo_state, mark_sessionStart = 4096,
     useIdentityForCleanliness = False, mark_calloc = (\<lambda>_. True), probes = 0 \<rparr>"

definition demo_graph_mem :: mem where
  "demo_graph_mem = store64 (store64 (store64 (store64 (store64 (store64 (store64 (store64 (store64 (store64 (store64 (store64
    (\<lambda>_. 0) 4096 1) 4104 4144) 4112 4104) 4128 2) 4136 3) 4144 4104) 4152 1) 4160 1) 4168 4104) 4176 1) 16400 20480) 16384 0"

definition demo_marker :: marker where
  "demo_marker = \<lparr> mark_mem = demo_graph_mem, mark_weaks = 0,
     objectHashTable = \<lparr> elements = [], elementsIsInHeap = False, elementsLengthCur = 0, elementsLengthMax = 0,
       elementsLengthMaxLog2 = 0, mayInsert = True \<rparr>,
     bytesHashConsed = 0, tmpPointer = 1, tmpBool = False, tmpInt = 0, reachable_array = [] \<rparr>"

definition demo_words :: "mem \<Rightarrow> bool" where
  "demo_words m \<longleftrightarrow> load64 m 4096 = 1 \<and> load64 m 4104 = 4144 \<and> load64 m 4112 = 4104 \<and> load64 m 4120 = 0 \<and>
    load64 m 4128 = 2 \<and> load64 m 4136 = 3 \<and> load64 m 4144 = 4104 \<and> load64 m 4152 = 1 \<and> load64 m 4160 = 1 \<and>
    load64 m 4168 = 4104 \<and> load64 m 4176 = 1"

lemma demo_graph_words: "demo_words demo_graph_mem"
  by (simp add: demo_words_def demo_graph_mem_def load64_store64_disjnt disjnt_regions_def demo_zero_load)

definition demo_layouts :: "pointer \<Rightarrow> layout" where
  "demo_layouts p = (if p = 4144 then \<lparr> hb = 24, bb = 16, ptrs = [0, 8] \<rparr> else \<lparr> hb = 8, bb = 16, ptrs = [0, 8] \<rparr>)"

abbreviation "demo_marked \<equiv> {4104, 4144, 4168} :: pointer set"

abbreviation demo_args :: "GC_foreachObjectDfsFun \<Rightarrow> mark_args" where
  "demo_args f \<equiv> margs f MARK_MODE False False True False"

lemma demo_split_mark:
  "splitHeader demo_mark_types 1 = Some demo_node_type" "splitHeader demo_mark_types 3 = Some demo_vector_type"
  by (simp_all add: splitHeader_def objectTypeIndex_eq demo_mark_types_def)

lemma demo_mark_layout:
  assumes "demo_words m" "p \<in> demo_marked"
  shows "mark_layout (mark_static demo_mark_env) m p = Some (demo_layouts p)" "array_fits (mark_static demo_mark_env) m p (demo_layouts p)"
proof -
  have s: "sizeofArrayNoHeader (demo_static\<lparr>objectTypes := demo_mark_types\<rparr>) 2 demo_vector_type = 16"
    by (simp add: sizeofArrayNoHeader_def Let_def alignWithExtra_def align_def demo_static_def demo_vector_type_def elementBytes_def
      OBJPTR_SIZE_def header_sizes)
  have h: "load64 m 4096 = 1" "load64 m 4136 = 3" "load64 m 4128 = 2" "load64 m 4160 = 1" using assms(1) by (simp_all add: demo_words_def)
  have t: "objectTypes (mark_static demo_mark_env) = demo_mark_types" "mark_static demo_mark_env = demo_static\<lparr>objectTypes := demo_mark_types\<rparr>"
    by (simp_all add: demo_mark_env_def)
  have ty: "tag demo_node_type = NORMAL_TAG" "tag demo_vector_type = ARRAY_TAG" "elementBytes demo_node_type = 16"
    "elementBytes demo_vector_type = 8" "bytesNonObjptrs demo_node_type = 0" "bytesNonObjptrs demo_vector_type = 0"
    "numObjptrs demo_node_type = 2" "numObjptrs demo_vector_type = 1"
    by (simp_all add: demo_node_type_def demo_vector_type_def elementBytes_def OBJPTR_SIZE_def)
  have ao: "array_offsets 0 (Suc 0) 2 = [0, 8]" "[0..<2] = [0, Suc 0]" by (simp_all add: numeral_2_eq_2)
  show "mark_layout (mark_static demo_mark_env) m p = Some (demo_layouts p)"
    using assms(2) by (elim insertE emptyE)
      (simp_all add: mark_layout_def layout_of_def header_at h t demo_split_mark ty s demo_layouts_def ao)
  show "array_fits (mark_static demo_mark_env) m p (demo_layouts p)"
    using assms(2) by (elim insertE emptyE)
      (simp_all add: array_fits_def header_at h t demo_split_mark ty demo_layouts_def)
qed

lemma demo_areas: "areas_ok demo_marked demo_layouts"
  by (simp add: areas_ok_def demo_layouts_def start_of_def disjnt_regions_def)

lemma demo_skipped: "skipped demo_mark_env (demo_args f) v \<longleftrightarrow> \<not> isPointer v" "h_size (sharedHeap demo_state) = 0"
  by (auto simp: skipped_def isPointerInHeap_def demo_mark_env_def demo_state_def demo_heap_def margs_def)

lemma demo_graph_ok:
  assumes "demo_words m"
  shows "graph_ok demo_mark_env (demo_args f) demo_marked demo_layouts demo_marked m"
  unfolding graph_ok_def
proof (intro conjI ballI)
  note w = assms [unfolded demo_words_def]
  fix p assume p: "p \<in> demo_marked"
  show "isPointer p" using p by (auto simp: isPointer_isObjptr isObjptr_eq)
  have h: "getHeader m p = 1 \<or> getHeader m p = 3" using p w by (auto simp: header_at)
  have n: "\<not> bit (1 :: 64 word) 32" "\<not> bit (3 :: 64 word) 32" by simp_all
  show "short_header (getHeader m p)" using h n by (auto simp: short_header_def)
  show "p \<in> demo_marked \<longleftrightarrow> getHeader m p AND MARK_MASK \<noteq> mark_bit (demo_args f)"
    using h p by (auto simp: mark_bit_def margs_def MARK_MASK_def)
  show "intact demo_mark_env (demo_args f) demo_marked demo_layouts m p"
    unfolding intact_def
  proof (intro conjI ballI impI)
    show "getHeader m p AND COUNTER_MASK = 0" using h by (auto simp: COUNTER_MASK_def)
    show "getArrayCounter m p = 0" if "hb (demo_layouts p) = 24"
      using that p w by (auto simp: header_at demo_layouts_def split: if_splits)
    show "case splitHeader (objectTypes (mark_static demo_mark_env)) (getHeader m p) of None \<Rightarrow> False
      | Some ty \<Rightarrow> unat (numObjptrs ty) \<le> 2048 \<and> (tag ty = WEAK_TAG \<longrightarrow> \<not> shouldLinkWeaks (demo_args f))"
      using h by (auto simp: demo_mark_env_def demo_split_mark demo_node_type_def demo_vector_type_def margs_def)
    show "slot_ok demo_mark_env (demo_args f) demo_marked demo_layouts m (load64 m (p + of_nat i))"
      if "i \<in> set (ptrs (demo_layouts p))" for i
    proof -
      have "load64 m (p + of_nat i) \<in> {4104, 4144, 1}" using that p w by (auto simp: demo_layouts_def split: if_splits)
      moreover have "\<not> isPointer 1" "\<not> isObjptr 1" by (simp_all add: isPointer_isObjptr isObjptr_eq)
      ultimately show ?thesis by (auto simp: slot_ok_def demo_skipped)
    qed
  qed (rule demo_mark_layout [OF assms p])+
qed (use demo_areas in auto)

lemma demo_reach:
  assumes "demo_words m"
  shows "mark_reach demo_mark_env (demo_args f) demo_layouts m demo_marked 4104 = {4104, 4144}"
proof
  note w = assms [unfolded demo_words_def]
  have pt: "isPointer 4104" "isPointer 4144" "\<not> isPointer 1" by (simp_all add: isPointer_isObjptr isObjptr_eq)
  show "{4104, 4144} \<subseteq> mark_reach demo_mark_env (demo_args f) demo_layouts m demo_marked 4104"
    using mark_reach_slot [OF mark_reach_self, of 4104 demo_marked 0 demo_layouts demo_mark_env "demo_args f" m] w pt
    by (simp add: mark_reach_self demo_skipped demo_layouts_def)
  show "mark_reach demo_mark_env (demo_args f) demo_layouts m demo_marked 4104 \<subseteq> {4104, 4144}"
  proof
    fix q assume "q \<in> mark_reach demo_mark_env (demo_args f) demo_layouts m demo_marked 4104"
    then show "q \<in> {4104, 4144}"
      by induction (use w pt in \<open>auto simp: demo_skipped demo_layouts_def split: if_splits\<close>)
  qed
qed

lemma demo_sizes:
  assumes "demo_words m"
  shows "(\<Sum>q\<in>{4104, 4144}. if is_weak demo_mark_env m q then 0 else of_nat (bytes_of (demo_layouts q)) :: size_t) = 64"
    and "(\<Sum>q\<in>{4104, 4144}. if is_weak demo_mark_env m q \<or> \<not> counted demo_mark_env (demo_args f) q then 0
      else of_nat (bytes_of (demo_layouts q)) :: size_t) = 64"
proof -
  have "getHeader m 4104 = 1" "getHeader m 4144 = 3" using assms by (simp_all add: demo_words_def header_at)
  then have "\<not> is_weak demo_mark_env m 4104" "\<not> is_weak demo_mark_env m 4144"
    by (simp_all add: is_weak_def demo_mark_env_def demo_split_mark demo_node_type_def demo_vector_type_def)
  then show "(\<Sum>q\<in>{4104, 4144}. if is_weak demo_mark_env m q then 0 else of_nat (bytes_of (demo_layouts q)) :: size_t) = 64"
    and "(\<Sum>q\<in>{4104, 4144}. if is_weak demo_mark_env m q \<or> \<not> counted demo_mark_env (demo_args f) q then 0
      else of_nat (bytes_of (demo_layouts q)) :: size_t) = 64"
    by (simp_all add: counted_def margs_def demo_layouts_def)
qed

lemma demo_local: "\<not> isPointerInHeap (sharedHeap demo_state) 4104"
  by (simp add: isPointerInHeap_def isPointer_isObjptr isObjptr_eq demo_state_def demo_heap_def)

definition demo_runtime :: runtime where
  "demo_runtime = \<lparr> rmachine = demo_machine\<lparr>gcs := demo_state, mm := demo_graph_mem, currentThread := 16384, sessionStart := 4096\<rparr>,
     rsync = \<lparr> syncReason = SYNC_NONE, syncForOldGenArray = 0, syncForNewGenArray = 0, syncForStack = 0, syncForHeap = 0,
       syncForce = 0, syncForLift = 0, syncMisc = 0, syncForLiftNoGC = 0 \<rparr>,
     rmark = demo_marker \<rparr>"

lemma demo_enter:
  "\<exists>r1. enter_local (mark_static demo_mark_env) (demo_runtime\<lparr>rsync := (rsync demo_runtime)\<lparr>syncReason := SYNC_MISC\<rparr>\<rparr>) = Some r1 \<and>
    demo_words (mm (rmachine r1)) \<and> gcs (rmachine r1) = demo_state \<and>
    sessionStart (rmachine r1) = 4096"
proof -
  have o: "offsetofThread (demo_static\<lparr>objectTypes := demo_mark_types\<rparr>) = 0"
    by (simp add: offsetofThread_def sizeofThread_def sizeof_GC_thread_def align_def demo_static_def header_sizes)
  have m: "load64 demo_graph_mem 16376 = 0" "load64 demo_graph_mem 16400 = 20480"
    by (simp_all add: demo_graph_mem_def load64_store64_disjnt disjnt_regions_def demo_zero_load)
  have w: "demo_words (store64 (store64 demo_graph_mem 20504 u) 16392 v)" for u v
    using demo_graph_words by (simp add: demo_words_def load64_store64_disjnt disjnt_regions_def)
  let ?g = "demo_static\<lparr>objectTypes := demo_mark_types\<rparr>"
  have tc: "getThreadCurrent ?g M = (M, 16384)" if "currentThread M = 16384" "load64 (mm M) 16376 = 0" for M
    using that by (simp add: getThreadCurrent_def getThreadCurrentObjptr_def GC_forwardBase_def GC_HEADER_SIZE_def GC_FORWARDED_def o Let_def)
  define M where "M = rmachine demo_runtime"
  have M: "currentThread M = 16384" "mm M = demo_graph_mem" "gcs M = demo_state" "sessionStart M = 4096"
    by (simp_all add: M_def demo_runtime_def)
  have st: "getStackCurrent ?g M = (M, 20480)"
    using tc [of M] m M by (simp add: getStackCurrent_def getStackCurrentObjptr_def Let_def)
  let ?M = "M\<lparr>mm := store64 demo_graph_mem 20504 (sizeofGCStateCurrentStackUsed M)\<rparr>"
  have "load64 (mm ?M) 16376 = 0" using m by (simp add: load64_store64_disjnt disjnt_regions_def)
  then have "getThreadCurrent ?g ?M = (?M, 16384)" using M by (intro tc) simp_all
  then have sv: "save_thread ?g M = M\<lparr>mm := store64 (store64 demo_graph_mem 20504 (sizeofGCStateCurrentStackUsed M)) 16392 (exnStack M)\<rparr>"
    using st M by (simp add: save_thread_def Let_def)
  have g: "mark_static demo_mark_env = ?g" by (simp add: demo_mark_env_def)
  let ?r = "demo_runtime\<lparr>rsync := (rsync demo_runtime)\<lparr>syncReason := SYNC_MISC\<rparr>\<rparr>"
  have en: "enter_local ?g ?r = Some (?r\<lparr>rmachine := beginAtomic (save_thread ?g M),
      rsync := (rsync ?r)\<lparr>syncMisc := syncMisc (rsync ?r) + 1\<rparr>\<rparr>)"
    by (simp add: enter_local_def incSync_def M_def)
  show ?thesis
    unfolding g en using w M by (simp add: sv beginAtomic_def Let_def)
qed

section \<open>Properties\<close>









text \<open>The mask of the counter of a header has 11 bits and ends right below the mark bit, but the index of a
  pointer in an object can be as large as 65535. The index that is stored is read back modulo 2048; the mark
  bit is set if bit 11 of the index is set (as from 2048 to 4095) and else kept (at 4096 the
  counter reads 0 and the mark is as it was), and the type of the object is never disturbed.\<close>

theorem put_counter_spill:
  "get_counter (put_counter h i) = take_bit 11 i \<and>
    put_counter h i AND MARK_MASK = (if bit i 11 then MARK_MASK else h AND MARK_MASK) \<and>
    splitHeader types (put_counter h i) = splitHeader types h"
proof (intro conjI)
  have b: "bit i n \<Longrightarrow> n < 32" for n using bit_imp_le_length [of i n] by simp
  show "get_counter (put_counter h i) = take_bit 11 i"
    by (rule bit_eqI) (auto simp: get_counter_def put_counter_def bit_simps bit_masks COUNTER_SHIFT_def dest: b)
  show "put_counter h i AND MARK_MASK = (if bit i 11 then MARK_MASK else h AND MARK_MASK)"
    by (rule bit_eqI) (auto simp: put_counter_def bit_simps bit_masks COUNTER_SHIFT_def dest: b)
  show "splitHeader types (put_counter h i) = splitHeader types h"
    by (rule splitHeader_mask, rule bit_eqI) (auto simp: put_counter_def bit_simps bit_masks COUNTER_SHIFT_def dest: b)
qed

text \<open>C25: A root that has been lifted to the shared heap is never followed when marking: its
  header is \<open>GC_FORWARDED\<close>, all ones, which passes for a marked object in the test that comes before
  the one for forwarded objects. The call returns 0 and changes nothing.\<close>

theorem dfsMarkByMode_forwarded_root:
  assumes "getHeader (mark_mem s) root = GC_FORWARDED" "mode a = MARK_MODE"
  shows "dfsMarkByMode e a root s = Some (0, s)"
  using assms by (simp add: dfsMarkByMode_def isPointerMarkedByMode_def isPointerMarked_def GC_FORWARDED_def mark_flip(4))

lemma dfsMarkByMode_forwarded_root_witness:
  "dfsMarkByMode demo_mark_env (demo_args emptyForeachObjectFun) 1008 (demo_marker\<lparr>mark_mem := store64 demo_graph_mem 1000 (NOT 0)\<rparr>) =
    Some (0, demo_marker\<lparr>mark_mem := store64 demo_graph_mem 1000 (NOT 0)\<rparr>)"
  by (rule dfsMarkByMode_forwarded_root) (simp_all add: header_at GC_FORWARDED_def margs_def)

text \<open>C26: The number of references of a header can be read back after it has been set, and the
  mark bit, the counter and the type of the object are kept.\<close>

theorem setNumReferences_roundtrip:
  "getNumReferences (load64 (setNumReferences m headerp n) headerp) = n \<and>
    load64 (setNumReferences m headerp n) headerp AND NOT VIRGIN_MASK = load64 m headerp AND NOT VIRGIN_MASK"
proof -
  let ?h = "(load64 m headerp AND NOT VIRGIN_MASK) OR push_bit VIRGIN_SHIFT (numReferences_code n)"
  have k: "bit (numReferences_code n) j \<Longrightarrow> j < 2" for j
  proof -
    assume b: "bit (numReferences_code n) j"
    have "numReferences_code n = take_bit 2 (numReferences_code n)" by (cases n) (simp_all add: numReferences_code_def)
    then have "bit (take_bit 2 (numReferences_code n)) j" using b by simp
    then show "j < 2" by (simp add: bit_take_bit_iff)
  qed
  have v: "bit VIRGIN_MASK j \<longleftrightarrow> 17 \<le> j \<and> j < 19" for j
  proof -
    have v: "VIRGIN_MASK = push_bit 17 (mask 2)" by (simp add: VIRGIN_MASK_def mask_eq_exp_minus_1 push_bit_eq_mult)
    then show ?thesis by (simp only: v bit_simps) auto
  qed
  have d: "drop_bit VIRGIN_SHIFT (?h AND VIRGIN_MASK) = numReferences_code n"
    by (rule bit_eqI) (auto simp: VIRGIN_SHIFT_def bit_simps v dest: k bit_imp_possible_bit)
  have f: "?h = GC_FORWARDED \<Longrightarrow> n = GLOBAL_MANY"
  proof -
    assume "?h = GC_FORWARDED"
    then have "drop_bit VIRGIN_SHIFT (GC_FORWARDED AND VIRGIN_MASK) = numReferences_code n" using d by simp
    then show ?thesis by (cases n) (simp_all add: GC_FORWARDED_def VIRGIN_SHIFT_def VIRGIN_MASK_def numReferences_code_def)
  qed
  have "getNumReferences ?h = n"
    using f d by (cases n) (auto simp: getNumReferences_def numReferences_code_def Let_def)
  moreover have "?h AND NOT VIRGIN_MASK = load64 m headerp AND NOT VIRGIN_MASK"
    by (rule bit_eqI) (auto simp: VIRGIN_SHIFT_def bit_simps v dest: k)
  ultimately show ?thesis by (simp add: setNumReferences_def store64_same)
qed

end
