(* ===== verification/Mark_Compact.thy ===== *)
theory Mark_Compact
  imports Cheney Mark_Clients
begin

text \<open>
  The mark-compact collection of Jonkers (\<open>gc/mark-compact.c\<close>). An object that pointers lead to
  holds in its header the first of a chain of the slots with these pointers; each slot holds
  the next, and the last one the header. The first pass over the heap turns the pointers to
  later objects into their new addresses, the second the others, and moves the objects.
  Both passes serve the local and the shared collection. Statistics, timing and messages are left out.
\<close>

section \<open>Threading\<close>

text \<open>In the model \<open>NATIVE64\<close> an object pointer is as big as a header, so that one word is copied.\<close>

definition copyForThreadInternal :: "pointer \<Rightarrow> pointer \<Rightarrow> mem \<Rightarrow> mem" where
  "copyForThreadInternal dst src m = store64 m dst (load64 m src)"

definition threadInternalObjptr :: "pointer \<Rightarrow> pointer \<Rightarrow> mem \<Rightarrow> mem" where
  "threadInternalObjptr B opp m =
    (let opop = pointerToObjptr opp B;
         headerp = getHeaderp (objptrToPointer (load64 m opp) B);
         m = copyForThreadInternal opp headerp m in
     store64 m headerp opop)"

definition threadInternalObjptrIfInLocalHeap :: "fwd foreachObjptrFun" where
  "threadInternalObjptrIfInLocalHeap opp w = do {
     let B = h_start (heap (fgc w));
     m \<leftarrow> fixFwdObjptr (wmem w) B opp;
     let p = objptrToPointer (load64 m opp) B;
     Some (w\<lparr>wmem := if isPointerInHeap (heap (fgc w)) p then threadInternalObjptr B opp m else m\<rparr>) }"

definition threadInternalObjptrIfInSharedHeap :: "fwd foreachObjptrFun" where
  "threadInternalObjptrIfInSharedHeap opp w = do {
     m \<leftarrow> fixFwdObjptr (wmem w) (h_start (heap (fgc w))) opp;
     let p = objptrToPointer (load64 m opp) (h_start (sharedHeap (fgc w)));
     Some (w\<lparr>wmem := if isPointerInHeap (sharedHeap (fgc w)) p
       then threadInternalObjptr (h_start (heap (fgc w))) opp m else m\<rparr>) }"

text \<open>The \<open>do\<close> loop that takes the slots out of the chain at \<open>headerp\<close>, storing \<open>newObjptr\<close>
  in each, until the header is back.\<close>

partial_function (option) unthread :: "pointer \<Rightarrow> objptr \<Rightarrow> pointer \<Rightarrow> mem \<Rightarrow> mem option" where
  "unthread B newObjptr headerp m =
    (let cur = objptrToPointer (load64 m headerp) B;
         m = copyForThreadInternal headerp cur m;
         m = store64 m cur newObjptr in
     if load64 m headerp AND 1 = 0 then unthread B newObjptr headerp m else Some m)"

section \<open>Weak objects\<close>

partial_function (option) updateWeaks_mark_loop :: "gc_static \<Rightarrow> pointer \<Rightarrow> pointer \<Rightarrow> mem \<Rightarrow> mem option" where
  "updateWeaks_mark_loop g B w m =
    (if w = 0 then Some m
     else if load64 m (w + 8) = BOGUS_OBJPTR then updateWeaks_mark_loop g B (load64 m w) m
     else (let m = (if isPointerMarked m (objptrToPointer (load64 m (w + 8)) B) then m
       else store64 (store64 m (getHeaderp (w - offsetofWeak g)) (GC_WEAK_GONE_HEADER OR MARK_MASK)) (w + 8) BOGUS_OBJPTR) in
       updateWeaks_mark_loop g B (load64 m w) m))"

definition updateWeaksForMarkCompact :: "fwd_env \<Rightarrow> fwd world \<Rightarrow> fwd world option" where
  "updateWeaksForMarkCompact e w =
    map_option (\<lambda>m. on_fwd (\<lambda>s. s\<lparr>weaks := 0\<rparr>) (w\<lparr>wmem := m\<rparr>))
      (updateWeaks_mark_loop (fstatic e) (h_start (heap (fgc w))) (weaks (rest w)) (wmem w))"

section \<open>The passes\<close>

text \<open>The arguments that the passes share: whether the shared heap is collected, whether the heap
  of the pass is the shared one, its start, and the current stacks (one when a local heap is
  collected).\<close>

record mc_env =
  sharedCollection :: bool
  heap_is_shared :: bool
  mc_start :: pointer
  currentStacks :: "pointer list"

text \<open>The objects of the heap of the pass that are not marked are dead.\<close>

definition compacts :: "mc_env \<Rightarrow> bool" where
  "compacts c \<longleftrightarrow> \<not> sharedCollection c \<or> heap_is_shared c"

text \<open>What a stack will keep of \<open>reserved\<close>, the bytes of its header and of its part in use, and the
  bytes to skip in front and in the gap.\<close>

definition shrunk_stack :: "fwd_env \<Rightarrow> mc_env \<Rightarrow> mem \<Rightarrow> pointer \<Rightarrow> (size_t \<times> size_t \<times> size_t \<times> size_t \<times> size_t) option" where
  "shrunk_stack e c m stack = do {
     let reservedOld = stack_reserved m stack;
     reservedNew \<leftarrow> sizeofStackShrinkReserved (fratios e) (fstatic e) m stack (stack \<in> set (currentStacks c));
     Some (reservedNew, GC_STACK_HEADER_SIZE, sizeof_GC_stack + stack_used m stack,
       reservedOld - stack_used m stack, reservedOld - reservedNew) }"

definition forward_sizes ::
    "fwd_env \<Rightarrow> mc_env \<Rightarrow> mem \<Rightarrow> GC_objectType \<Rightarrow> pointer \<Rightarrow> (size_t \<times> size_t \<times> size_t \<times> size_t) option" where
  "forward_sizes e c m ty p =
    (if tag ty = NORMAL_TAG \<or> tag ty = WEAK_TAG then Some (GC_NORMAL_HEADER_SIZE, elementBytes ty, 0, 0)
     else if tag ty = ARRAY_TAG
     then Some (GC_ARRAY_HEADER_SIZE, sizeofArrayNoHeader (fstatic e) (getArrayLength m p) ty, 0, 0)
     else if \<not> compacts c then Some (GC_STACK_HEADER_SIZE, sizeof_GC_stack + stack_reserved m p, 0, 0)
     else map_option snd (shrunk_stack e c m p))"

text \<open>The dead objects between two live ones become one vector of bytes.\<close>

definition compress_dead :: "pointer \<Rightarrow> pointer \<Rightarrow> mem \<Rightarrow> mem" where
  "compress_dead endOfLastMarked front m =
    (let newArray = endOfLastMarked;
         m = store64 m newArray 0;
         newArray = newArray + GC_ARRAY_COUNTER_SIZE;
         m = store64 m newArray (front - endOfLastMarked - GC_ARRAY_HEADER_SIZE);
         newArray = newArray + GC_ARRAY_LENGTH_SIZE in
     store64 m newArray GC_WORD8_VECTOR_HEADER)"

text \<open>The local variables \<open>front\<close>, \<open>gap\<close> and \<open>endOfLastMarked\<close>.\<close>

type_synonym forward_state = "pointer \<times> size_t \<times> pointer"

text \<open>An unmarked or forwarded object. In a local heap that is walked for the shared collection it
  is filled.\<close>

definition forward_dead :: "fwd_env \<Rightarrow> mc_env \<Rightarrow> pointer \<Rightarrow> forward_state \<Rightarrow> fwd world \<Rightarrow> (forward_state \<times> fwd world) option" where
  "forward_dead e c p = (\<lambda>(front, gap, endOfLastMarked) w. do {
     n \<leftarrow> sizeofObject (fstatic e) (h_start (sharedHeap (fgc w))) (wmem w) p;
     if compacts c then Some ((front + n, gap + n, endOfLastMarked), w)
     else map_option (\<lambda>(m, _). ((front + n, gap, endOfLastMarked), w\<lparr>wmem := m\<rparr>)) (fillGap front (front + n) (wmem w)) })"

text \<open>The label \<open>thread\<close>.\<close>

definition forward_thread :: "fwd_env \<Rightarrow> mc_env \<Rightarrow> pointer \<Rightarrow> forward_state \<Rightarrow> fwd world \<Rightarrow> (forward_state \<times> fwd world) option" where
  "forward_thread e c p = (\<lambda>(front, gap, endOfLastMarked) w.
    if getHeader (wmem w) p = GC_FORWARDED then forward_dead e c p (front, gap, endOfLastMarked) w
    else do {
      ty \<leftarrow> splitHeader (objectTypes (fstatic e)) (getHeader (wmem w) p);
      (headerBytes, objectBytes, skipFront, skipGap) \<leftarrow> forward_sizes e c (wmem w) ty p;
      let n = headerBytes + objectBytes;
      let w = (if front - endOfLastMarked \<ge> GC_ARRAY_HEADER_SIZE + OBJPTR_SIZE \<and> compacts c
        then on_mem (compress_dead endOfLastMarked front) w else w);
      let front = front + (n + skipFront);
      (_, w) \<leftarrow> foreachObjptrInObject (fenv e)
        (if sharedCollection c then threadInternalObjptrIfInSharedHeap else threadInternalObjptrIfInLocalHeap) False p w;
      Some ((front, gap + skipGap, front), w) })"

text \<open>The label \<open>updateObject\<close>.\<close>

definition forward_step :: "fwd_env \<Rightarrow> mc_env \<Rightarrow> forward_state \<Rightarrow> fwd world \<Rightarrow> (forward_state \<times> fwd world) option" where
  "forward_step e c = (\<lambda>(front, gap, endOfLastMarked) w.
    let p = advanceToObjectData (wmem w) front; header = getHeader (wmem w) p in
    if GC_VALID_HEADER_MASK AND header \<noteq> 0
    then (if MARK_MASK AND header \<noteq> 0 then forward_thread e c p (front, gap, endOfLastMarked) w
      else forward_dead e c p (front, gap, endOfLastMarked) w)
    else do {
      m \<leftarrow> unthread (mc_start c) (pointerToObjptr (p - gap) (mc_start c)) (getHeaderp p) (wmem w);
      forward_thread e c p (front, gap, endOfLastMarked) (w\<lparr>wmem := m\<rparr>) })"

partial_function (option) forward_pass ::
    "fwd_env \<Rightarrow> mc_env \<Rightarrow> pointer \<Rightarrow> forward_state \<Rightarrow> fwd world \<Rightarrow> fwd world option" where
  "forward_pass e c back st w =
    (if fst st = back then Some w
     else do { (st, w) \<leftarrow> forward_step e c st w; forward_pass e c back st w })"

definition updateForwardPointersForMarkCompact ::
    "fwd_env \<Rightarrow> mc_env \<Rightarrow> pointer \<Rightarrow> pointer \<Rightarrow> fwd world \<Rightarrow> fwd world option" where
  "updateForwardPointersForMarkCompact e c front back w = forward_pass e c back (front, 0, front) w"

text \<open>In the second pass a stack shrinks, and the pointer from it to its thread is brought up to
  date when the thread has been lifted.\<close>

definition backward_stack :: "fwd_env \<Rightarrow> mc_env \<Rightarrow> pointer \<Rightarrow> mem \<Rightarrow> (size_t \<times> size_t \<times> size_t \<times> size_t \<times> mem) option" where
  "backward_stack e c p m = do {
     (reservedNew, headerBytes, objectBytes, skipFront, skipGap) \<leftarrow> shrunk_stack e c m p;
     let m = (if reservedNew < stack_reserved m p then store64 m (p + 16) reservedNew else m);
     let thrd = objptrToPointer (stack_thread m p) (mc_start c);
     let m = (if getHeader m thrd = GC_FORWARDED then store64 m (p + 32) (load64 m thrd) else m);
     Some (headerBytes, objectBytes, skipFront, skipGap, m) }"

definition backward_sizes ::
    "fwd_env \<Rightarrow> mc_env \<Rightarrow> GC_objectType \<Rightarrow> pointer \<Rightarrow> mem \<Rightarrow> (size_t \<times> size_t \<times> size_t \<times> size_t \<times> mem) option" where
  "backward_sizes e c ty p m =
    (if tag ty = NORMAL_TAG \<or> tag ty = WEAK_TAG then Some (GC_NORMAL_HEADER_SIZE, elementBytes ty, 0, 0, m)
     else if tag ty = ARRAY_TAG
     then Some (GC_ARRAY_HEADER_SIZE, sizeofArrayNoHeader (fstatic e) (getArrayLength m p) ty, 0, 0, m)
     else backward_stack e c p m)"

type_synonym backward_state = "pointer \<times> size_t"

definition backward_dead :: "fwd_env \<Rightarrow> pointer \<Rightarrow> backward_state \<Rightarrow> fwd world \<Rightarrow> (backward_state \<times> fwd world) option" where
  "backward_dead e p = (\<lambda>(front, gap) w.
    map_option (\<lambda>n. ((front + n, gap + n), w)) (sizeofObject (fstatic e) (h_start (sharedHeap (fgc w))) (wmem w) p))"

text \<open>The label \<open>unmark\<close>.\<close>

definition backward_unmark :: "fwd_env \<Rightarrow> mc_env \<Rightarrow> pointer \<Rightarrow> backward_state \<Rightarrow> fwd world \<Rightarrow> (backward_state \<times> fwd world) option" where
  "backward_unmark e c p = (\<lambda>(front, gap) w.
    let header = getHeader (wmem w) p in
    if header = GC_FORWARDED then backward_dead e p (front, gap) w
    else do {
      ty \<leftarrow> splitHeader (objectTypes (fstatic e)) header;
      (headerBytes, objectBytes, skipFront, skipGap, m) \<leftarrow> backward_sizes e c ty p (wmem w);
      let n = headerBytes + objectBytes;
      let m = store64 m (getHeaderp p) (header AND NOT MARK_MASK);
      let m = GC_memcpy front (front - gap) n m;
      Some ((front + (n + skipFront), gap + skipGap), w\<lparr>wmem := m\<rparr>) })"

definition backward_step :: "fwd_env \<Rightarrow> mc_env \<Rightarrow> backward_state \<Rightarrow> fwd world \<Rightarrow> (backward_state \<times> fwd world) option" where
  "backward_step e c = (\<lambda>(front, gap) w.
    let p = advanceToObjectData (wmem w) front; header = getHeader (wmem w) p in
    if GC_VALID_HEADER_MASK AND header \<noteq> 0
    then (if MARK_MASK AND header \<noteq> 0 then backward_unmark e c p (front, gap) w else backward_dead e p (front, gap) w)
    else do {
      m \<leftarrow> unthread (mc_start c) (pointerToObjptr (p - gap) (mc_start c)) (getHeaderp p) (wmem w);
      backward_unmark e c p (front, gap) (w\<lparr>wmem := m\<rparr>) })"

partial_function (option) backward_pass ::
    "fwd_env \<Rightarrow> mc_env \<Rightarrow> pointer \<Rightarrow> backward_state \<Rightarrow> fwd world \<Rightarrow> (backward_state \<times> fwd world) option" where
  "backward_pass e c back st w =
    (if fst st = back then Some (st, w)
     else do { (st, w) \<leftarrow> backward_step e c st w; backward_pass e c back st w })"

definition mc_heap :: "mc_env \<Rightarrow> fwd world \<Rightarrow> GC_heap" where
  "mc_heap c w = (if heap_is_shared c then sharedHeap (fgc w) else heap (fgc w))"

definition set_oldGenSize :: "mc_env \<Rightarrow> size_t \<Rightarrow> fwd world \<Rightarrow> fwd world" where
  "set_oldGenSize c n = on_gc (\<lambda>s. if heap_is_shared c then s\<lparr>sharedHeap := (sharedHeap s)\<lparr>oldGenSize := n\<rparr>\<rparr>
    else s\<lparr>heap := (heap s)\<lparr>oldGenSize := n\<rparr>\<rparr>)"

definition updateBackwardPointersAndSlideForMarkCompact :: "fwd_env \<Rightarrow> mc_env \<Rightarrow> fwd world \<Rightarrow> fwd world option" where
  "updateBackwardPointersAndSlideForMarkCompact e c w = do {
     let front = alignFrontier (alignment (fstatic e)) (mc_start c);
     ((front, gap), w) \<leftarrow> backward_pass e c (mc_start c + oldGenSize (mc_heap c w)) (front, 0) w;
     Some (set_oldGenSize c (front - gap - mc_start c) w) }"

section \<open>The collection of a local heap\<close>

text \<open>A function of the marker as the client of a walk, and the walk over the roots with it.\<close>

definition mark_client :: "(pointer \<Rightarrow> marker \<Rightarrow> marker option) \<Rightarrow> marker foreachObjptrFun" where
  "mark_client f opp w =
    map_option (\<lambda>s. w\<lparr>wmem := mark_mem s, rest := s\<rparr>) (f opp ((rest w)\<lparr>mark_mem := wmem w\<rparr>))"

definition mark_roots ::
    "fwd_env \<Rightarrow> (pointer \<Rightarrow> marker \<Rightarrow> marker option) \<Rightarrow> fwd world \<Rightarrow> marker \<Rightarrow> (fwd world \<times> marker) option" where
  "mark_roots e f w s = do {
     v \<leftarrow> foreachGlobalObjptrInScope e (mark_client f)
       \<lparr> wmem = wmem w, rangeListCurrent = rangeListCurrent w, rest = s\<lparr>mark_weaks := weaks (rest w)\<rparr> \<rparr>;
     Some (on_fwd (\<lambda>f. f\<lparr>weaks := mark_weaks (rest v)\<rparr>) (w\<lparr>wmem := wmem v, rangeListCurrent := rangeListCurrent v\<rparr>),
       rest v) }"

text \<open>Where the hash table goes.\<close>

definition hash_region :: "bool \<Rightarrow> GC_state \<Rightarrow> pointer \<times> pointer" where
  "hash_region amInGC s =
    (if \<not> isHeapInit (secondaryLocalHeap s)
     then (h_start (secondaryLocalHeap s), h_start (secondaryLocalHeap s) + h_size (secondaryLocalHeap s))
     else if amInGC \<or> \<not> canMinor s then (frontier s, limitPlusSlop s)
     else (h_start (heap s) + oldGenSize (heap s), nursery (heap s)))"

text \<open>\<open>junk\<close> is what the region of the hash table holds.\<close>

definition mark_local ::
    "fwd_env \<Rightarrow> mark_env \<Rightarrow> bool \<Rightarrow> (nat \<Rightarrow> GC_hash) \<Rightarrow> fwd world \<Rightarrow> marker \<Rightarrow> (fwd world \<times> marker) option" where
  "mark_local e me hashConsDuringGC junk w s =
    (let me = me\<lparr>mark_static := fstatic e, mark_gc := fgc w\<rparr> in
     if hashConsDuringGC
     then (let (regionStart, regionEnd) = hash_region True (fgc w) in do {
       t \<leftarrow> allocHashTable 27 junk regionStart regionEnd;
       mark_roots e (dfsMarkWithHashConsWithLinkWeaks me) w (s\<lparr>bytesHashConsed := 0, objectHashTable := t\<rparr>) })
     else mark_roots e (dfsMarkWithoutHashConsWithLinkWeaks me) w s)"

definition majorMarkCompactGC ::
    "fwd_env \<Rightarrow> mark_env \<Rightarrow> bool \<Rightarrow> (nat \<Rightarrow> GC_hash) \<Rightarrow> fwd world \<Rightarrow> marker \<Rightarrow> (fwd world \<times> marker) option" where
  "majorMarkCompactGC e me hashConsDuringGC junk w s = do {
     let (w, currentStack) = getStackCurrent_slot e w;
     (w, s) \<leftarrow> mark_local e me hashConsDuringGC junk w s;
     w \<leftarrow> updateWeaksForMarkCompact e w;
     w \<leftarrow> foreachGlobalObjptrInScope e threadInternalObjptrIfInLocalHeap w;
     let h = heap (fgc w);
     let c = \<lparr> sharedCollection = False, heap_is_shared = False, mc_start = h_start h, currentStacks = [currentStack] \<rparr>;
     w \<leftarrow> updateForwardPointersForMarkCompact e c (alignFrontier (alignment (fstatic e)) (h_start h)) (h_start h + oldGenSize h) w;
     w \<leftarrow> updateBackwardPointersAndSlideForMarkCompact e c w;
     Some (w, s) }"

text \<open>A slot whose object has not been lifted is left alone by the read barrier.\<close>

lemma fixFwd_still:
  assumes "isObjptr (load64 m c)" "load64 m c \<noteq> 0 \<Longrightarrow> getHeader m (load64 m c) \<noteq> GC_FORWARDED"
  shows "fixFwdObjptr m B c = Some m"
  using assms by (auto simp: fixFwdObjptr_def fixFwd_loop.simps)

end
