(* ===== verification/Cheney_Graph.thy ===== *)
theory Cheney_Graph
  imports Cheney Layout
begin

text \<open>
  What a major copying collection does to a heap of normal objects and arrays.
\<close>

section \<open>Objects that can be copied\<close>

text \<open>What the copying collector relies on.\<close>

definition object_ok :: "gc_static \<Rightarrow> mem \<Rightarrow> pointer \<Rightarrow> layout \<Rightarrow> bool" where
  "object_ok g m p l \<longleftrightarrow> layout_of g m p = Some l \<and> array_fits g m p l \<and> 8 \<le> bb l \<and> 4 dvd bytes_of l \<and>
    getHeader m p \<noteq> GC_FORWARDED \<and> getHeader m p AND LIFT_MASK = 0 \<and>
    advanceToObjectData m (p - of_nat (hb l)) = p"

lemma object_ok_ptrs:
  assumes "object_ok g m p l"
  shows "i \<in> set (ptrs l) \<Longrightarrow> i + 8 \<le> bb l" "sorted_wrt (\<lambda>i j. i + 8 \<le> j) (ptrs l)"
  using assms layout_ptrs_bound layout_ptrs_apart by (auto simp: object_ok_def)

text \<open>An object is determined by its header: a copy of the header makes an object of the same layout.\<close>

lemma object_ok_copy:
  assumes ok: "object_ok g m p l" and h: "\<And>i. i < hb l \<Longrightarrow> m' (q - of_nat (hb l) + of_nat i) = m (p - of_nat (hb l) + of_nat i)"
  shows "object_ok g m' q l"
proof -
  have word: "load64 m' (q - of_nat (hb l) + of_nat k) = load64 m (p - of_nat (hb l) + of_nat k)" if "k + 8 \<le> hb l" for k
    using h that by (intro load64_shift [where n = "hb l"])
  have hb: "hb l = 8 \<or> hb l = 24" using ok layout_hb by (auto simp: object_ok_def)
  then have header: "getHeader m' q = getHeader m p"
    using word [of "hb l - 8"] by (auto simp: getHeader_def getHeaderp_def GC_HEADER_SIZE_def)
  have first: "load64 m' (q - of_nat (hb l)) = load64 m (p - of_nat (hb l))" using word [of 0] hb by auto
  have adv: "advanceToObjectData m' (q - of_nat (hb l)) = q"
    using ok first by (auto simp: object_ok_def advanceToObjectData_def Let_def split: if_splits)
  have len: "getArrayLength m' q = getArrayLength m p" if "hb l = 24"
    using word [of 8] that by (simp add: getArrayLength_def getArrayLengthp_def GC_HEADER_SIZE_def GC_ARRAY_LENGTH_SIZE_def)
  have "layout_of g m' q = Some l" "array_fits g m' q l"
    using ok header len by (auto simp: object_ok_def layout_of_def array_fits_def bind_eq_Some_conv split: if_splits option.splits)
  then show ?thesis using ok header adv by (simp add: object_ok_def)
qed

section \<open>Places in the to-space\<close>

definition total :: "(pointer \<Rightarrow> layout) \<Rightarrow> pointer list \<Rightarrow> nat" where
  "total S ps = sum_list (map (\<lambda>p. bytes_of (S p)) ps)"

text \<open>Where the copy of \<open>p\<close> starts, behind the copies of the objects before it in \<open>ps\<close>, and
  where its body is in a to-space at \<open>a\<close>.\<close>

definition pos :: "(pointer \<Rightarrow> layout) \<Rightarrow> pointer list \<Rightarrow> pointer \<Rightarrow> nat" where
  "pos S ps p = total S (takeWhile (\<lambda>x. x \<noteq> p) ps)"

definition new_at :: "(pointer \<Rightarrow> layout) \<Rightarrow> pointer \<Rightarrow> pointer list \<Rightarrow> pointer \<Rightarrow> pointer" where
  "new_at S a ps p = a + of_nat (pos S ps p + hb (S p))"

lemma total_simps [simp]: "total S [] = 0" "total S (p # ps) = bytes_of (S p) + total S ps"
  "total S (ps @ qs) = total S ps + total S qs"
  by (simp_all add: total_def)

lemma pos_append: "p \<in> set ps \<Longrightarrow> pos S (ps @ qs) p = pos S ps p"
  by (simp add: pos_def takeWhile_append1)

lemma pos_snoc: "p \<notin> set ps \<Longrightarrow> pos S (ps @ p # qs) p = total S ps"
  unfolding pos_def by (subst takeWhile_append2) auto

lemma pos_le: "p \<in> set ps \<Longrightarrow> pos S ps p + bytes_of (S p) \<le> total S ps"
  by (induction ps) (auto simp: pos_def)

lemma pos_apart:
  "p \<in> set ps \<Longrightarrow> p' \<in> set ps \<Longrightarrow> p \<noteq> p' \<Longrightarrow>
    pos S ps p + bytes_of (S p) \<le> pos S ps p' \<or> pos S ps p' + bytes_of (S p') \<le> pos S ps p"
  by (induction ps) (auto simp: pos_def)

lemma new_at_append: "p \<in> set ps \<Longrightarrow> new_at S a (ps @ qs) p = new_at S a ps p"
  by (simp add: new_at_def pos_append)

lemma total_le: "distinct ps \<Longrightarrow> set ps \<subseteq> F \<Longrightarrow> finite F \<Longrightarrow> total S ps \<le> (\<Sum>p\<in>F. bytes_of (S p))"
  unfolding total_def by (simp add: sum_list_distinct_conv_sum_set sum_mono2)

section \<open>The invariant\<close>

abbreviation lay :: "fwd_env \<Rightarrow> fwd world \<Rightarrow> pointer \<Rightarrow> layout" where
  "lay e w0 p \<equiv> the (layout_of (fstatic e) (wmem w0) p)"

abbreviation to_space :: "fwd world \<Rightarrow> pointer" where "to_space w0 \<equiv> fwd_back (rest w0)"

definition foot :: "fwd_env \<Rightarrow> fwd world \<Rightarrow> pointer \<Rightarrow> pointer" where
  "foot e w0 p = p - of_nat (hb (lay e w0 p))"

definition capacity :: "fwd_env \<Rightarrow> fwd world \<Rightarrow> pointer set \<Rightarrow> nat" where
  "capacity e w0 F = (\<Sum>p\<in>F. bytes_of (lay e w0 p))"

text \<open>The objects \<open>F\<close> of the local heap and the slots \<open>R\<close> of the roots before a collection: every
  pointer into the heap leads to one of the objects, objects, slots and the to-space lie apart,
  and the to-space is big enough for all objects.\<close>

definition heap_ok :: "fwd_env \<Rightarrow> fwd world \<Rightarrow> pointer set \<Rightarrow> pointer list \<Rightarrow> bool" where
  "heap_ok e w0 F R \<longleftrightarrow>
    finite F \<and>
    (\<forall>p\<in>F. object_ok (fstatic e) (wmem w0) p (lay e w0 p) \<and> isObjptr p \<and> isPointerInHeap (heap (fgc w0)) p) \<and>
    (\<forall>p\<in>F. \<forall>p'\<in>F. p \<noteq> p' \<longrightarrow>
      disjnt_regions (foot e w0 p) (bytes_of (lay e w0 p)) (foot e w0 p') (bytes_of (lay e w0 p'))) \<and>
    (\<forall>p\<in>F. disjnt_regions (foot e w0 p) (bytes_of (lay e w0 p)) (to_space w0) (capacity e w0 F)) \<and>
    (\<forall>p\<in>F. \<forall>r\<in>set R. disjnt_regions (foot e w0 p) (bytes_of (lay e w0 p)) r 8) \<and>
    (\<forall>r\<in>set R. disjnt_regions r 8 (to_space w0) (capacity e w0 F)) \<and>
    sorted_wrt (\<lambda>r r'. disjnt_regions r 8 r' 8) R \<and>
    (\<forall>r\<in>set R. isObjptr (load64 (wmem w0) r) \<and> isPointerInHeap (heap (fgc w0)) (load64 (wmem w0) r) \<longrightarrow>
      load64 (wmem w0) r \<in> F) \<and>
    (\<forall>p\<in>F. \<forall>i\<in>set (ptrs (lay e w0 p)).
      isObjptr (load64 (wmem w0) (p + of_nat i)) \<and> isPointerInHeap (heap (fgc w0)) (load64 (wmem w0) (p + of_nat i)) \<longrightarrow>
      load64 (wmem w0) (p + of_nat i) \<in> F) \<and>
    isObjptr (to_space w0) \<and> unat (to_space w0) + capacity e w0 F \<le> unat (toLimit (rest w0)) \<and>
    (\<forall>k<capacity e w0 F. 4 dvd k \<longrightarrow> \<not> isObjptrInFromSpace (fgc w0) (heap (fgc w0)) (to_space w0 + of_nat k)) \<and>
    rangeListCurrent w0 = []"

text \<open>The slots to rename, with the values they had: the roots, and the pointers in the copies.\<close>

definition slots :: "fwd_env \<Rightarrow> fwd world \<Rightarrow> pointer list \<Rightarrow> pointer list \<Rightarrow> (pointer \<times> objptr) set" where
  "slots e w0 R ps = (\<lambda>r. (r, load64 (wmem w0) r)) ` set R \<union>
    (\<Union>p\<in>set ps. (\<lambda>i. (new_at (lay e w0) (to_space w0) ps p + of_nat i, load64 (wmem w0) (p + of_nat i))) `
      set (ptrs (lay e w0 p)))"

text \<open>The objects that the program can get at.\<close>

inductive_set reachable :: "fwd_env \<Rightarrow> fwd world \<Rightarrow> pointer set \<Rightarrow> pointer list \<Rightarrow> pointer set"
  for e w0 F R where
  reach_root: "r \<in> set R \<Longrightarrow> load64 (wmem w0) r \<in> F \<Longrightarrow> load64 (wmem w0) r \<in> reachable e w0 F R"
| reach_object: "p \<in> reachable e w0 F R \<Longrightarrow> i \<in> set (ptrs (lay e w0 p)) \<Longrightarrow> load64 (wmem w0) (p + of_nat i) \<in> F \<Longrightarrow>
    load64 (wmem w0) (p + of_nat i) \<in> reachable e w0 F R"

text \<open>The objects \<open>ps\<close> have been copied, in this order, and the slots \<open>D\<close> have been renamed.\<close>

definition copying :: "fwd_env \<Rightarrow> fwd world \<Rightarrow> pointer set \<Rightarrow> pointer list \<Rightarrow> pointer list \<Rightarrow> pointer set \<Rightarrow> fwd world \<Rightarrow> bool" where
  "copying e w0 F R ps D w \<longleftrightarrow>
    distinct ps \<and> set ps \<subseteq> F \<inter> reachable e w0 F R \<and> D \<subseteq> fst ` slots e w0 R ps \<and>
    rest w = (rest w0)\<lparr>fwd_back := to_space w0 + of_nat (total (lay e w0) ps)\<rparr> \<and> rangeListCurrent w = [] \<and>
    (\<forall>p\<in>F - set ps. \<forall>i<bytes_of (lay e w0 p). wmem w (foot e w0 p + of_nat i) = wmem w0 (foot e w0 p + of_nat i)) \<and>
    (\<forall>p\<in>set ps. getHeader (wmem w) p = GC_FORWARDED \<and> load64 (wmem w) p = new_at (lay e w0) (to_space w0) ps p) \<and>
    (\<forall>p\<in>set ps. \<forall>i<bytes_of (lay e w0 p). (\<forall>k\<in>set (ptrs (lay e w0 p)). i < hb (lay e w0 p) + k \<or> hb (lay e w0 p) + k + 8 \<le> i) \<longrightarrow>
      wmem w (to_space w0 + of_nat (pos (lay e w0) ps p + i)) = wmem w0 (foot e w0 p + of_nat i)) \<and>
    (\<forall>(x, v)\<in>slots e w0 R ps. load64 (wmem w) x =
      (if x \<in> D \<and> v \<in> F then new_at (lay e w0) (to_space w0) ps v else v)) \<and>
    (\<forall>(x, v)\<in>slots e w0 R ps. x \<in> D \<and> v \<in> F \<longrightarrow> v \<in> set ps) \<and>
    (\<forall>x. (\<forall>p\<in>F. bytes_of (lay e w0 p) \<le> off (foot e w0 p) x) \<and> capacity e w0 F \<le> off (to_space w0) x \<and>
      (\<forall>r\<in>set R. 8 \<le> off r x) \<longrightarrow> wmem w x = wmem w0 x)"

section \<open>One object\<close>

text \<open>The memory after a copy to \<open>b\<close>: the object, and the header and first word of the original.\<close>

definition copied :: "pointer \<Rightarrow> pointer \<Rightarrow> layout \<Rightarrow> mem \<Rightarrow> mem" where
  "copied b p l m = store64 (store64 (memcpy m b (p - of_nat (hb l)) (of_nat (bytes_of l))) (p - 8) GC_FORWARDED) p (b + of_nat (hb l))"

lemma forward_object_eq:
  assumes ok: "object_ok (fstatic e) (wmem w) p l" and b: "b = fwd_back (rest w)"
    and room: "unat b + bytes_of l \<le> unat (toLimit (rest w))" and ne: "p - of_nat (hb l) \<noteq> b"
  shows "forward_object e p w =
    Some (w\<lparr>wmem := copied b p l (wmem w), rest := (rest w)\<lparr>fwd_back := b + of_nat (bytes_of l)\<rparr>\<rparr>)"
proof -
  obtain ty where ty: "splitHeader (objectTypes (fstatic e)) (getHeader (wmem w) p) = Some ty" "tag ty = NORMAL_TAG \<or> tag ty = ARRAY_TAG"
    using ok by (auto simp: object_ok_def layout_of_def bind_eq_Some_conv split: if_splits)
  have fs: "forward_size e ty p v = Some (of_nat (hb l), of_nat (bb l), 0, 0, v)" if "wmem v = wmem w" for v
    using ok ty that by (auto simp: object_ok_def layout_of_def forward_size_def GC_NORMAL_HEADER_SIZE_def GC_HEADER_SIZE_def
      GC_ARRAY_HEADER_SIZE_def GC_ARRAY_COUNTER_SIZE_def GC_ARRAY_LENGTH_SIZE_def)
  have lim: "\<not> b + of_nat (bytes_of l) > toLimit (rest w)"
    using room unat_step [of b "bytes_of l"] unsigned_less [of "toLimit (rest w)", where ?'a = nat]
    by (simp add: word_less_nat_alt)
  have weak: "link_weak e ty v = v" for v using ty(2) by (auto simp: link_weak_def Let_def)
  show ?thesis
    using lim ne by (simp add: forward_object_def ty(1) fs b [symmetric] Let_def weak GC_memcpy_def copied_def
      GC_HEADER_SIZE_def)
qed

lemma copied_facts:
  assumes "hb l = 8 \<or> hb l = 24" "8 \<le> bb l" "bytes_of l < 2 ^ 64" "a = p - of_nat (hb l)"
    "disjnt_regions a (bytes_of l) b (bytes_of l)"
  shows "bytes_of l \<le> off a x \<Longrightarrow> bytes_of l \<le> off b x \<Longrightarrow> copied b p l m x = m x"
    "i < bytes_of l \<Longrightarrow> copied b p l m (b + of_nat i) = m (a + of_nat i)"
    "getHeader (copied b p l m) p = GC_FORWARDED" "load64 (copied b p l m) p = b + of_nat (hb l)"
proof -
  have p: "p = a + of_nat (hb l)" "p - 8 = a + of_nat (hb l - 8)" using assms(1,4) by auto
  have n: "unat (of_nat (bytes_of l) :: u64) = bytes_of l" using assms(3) by (rule unat_of_nat_small)
  have far: "8 \<le> off p x" "8 \<le> off (p - 8) x" if "bytes_of l \<le> off a x" for x
    using that assms(1,2) off_plus [of "hb l" x a] off_plus [of "hb l - 8" x a] by (auto simp: p add.commute [of _ a])
  show "copied b p l m x = m x" if "bytes_of l \<le> off a x" "bytes_of l \<le> off b x"
    using that far n by (simp add: copied_def store64_other memcpy_other)
  show "copied b p l m (b + of_nat i) = m (a + of_nat i)" if "i < bytes_of l"
  proof -
    have "unat (of_nat i :: u64) = i" using that assms(3) by (intro unat_of_nat_small) simp
    then have "off b (b + of_nat i) < bytes_of l" using that by simp
    then have "bytes_of l \<le> off a (b + of_nat i)" using assms(5) disjnt_off by blast
    moreover have "(of_nat i :: u64) < of_nat (bytes_of l)"
      using that n \<open>unat (of_nat i :: u64) = i\<close> by (simp add: word_less_nat_alt)
    ultimately show ?thesis using far by (simp add: copied_def store64_other memcpy_def assms(4))
  qed
  show "load64 (copied b p l m) p = b + of_nat (hb l)" by (simp add: copied_def)
  have "disjnt_regions p 8 (p - 8) 8" using disjnt_offsets [of 0 8 8 8 "p - 8"] by simp
  then show "getHeader (copied b p l m) p = GC_FORWARDED"
    by (simp add: copied_def getHeader_def getHeaderp_def GC_HEADER_SIZE_def load64_store64_disjnt)
qed

section \<open>Slots\<close>

lemma slots_iff:
  "(x, v) \<in> slots e w0 R ps \<longleftrightarrow> (x \<in> set R \<and> v = load64 (wmem w0) x) \<or>
    (\<exists>p\<in>set ps. \<exists>i\<in>set (ptrs (lay e w0 p)).
      x = to_space w0 + of_nat (pos (lay e w0) ps p + hb (lay e w0 p) + i) \<and> v = load64 (wmem w0) (p + of_nat i))"
  by (auto simp: slots_def new_at_def add.assoc)

lemma slots_snoc:
  assumes "p \<notin> set ps"
  shows "slots e w0 R (ps @ [p]) = slots e w0 R ps \<union>
    (\<lambda>i. (to_space w0 + of_nat (total (lay e w0) ps + hb (lay e w0 p) + i), load64 (wmem w0) (p + of_nat i))) ` set (ptrs (lay e w0 p))"
    (is "?L = ?R")
proof (rule set_eqI)
  fix s
  show "s \<in> ?L \<longleftrightarrow> s \<in> ?R"
    using assms by (cases s) (auto simp: slots_iff pos_append pos_snoc)
qed

lemma heap_okD:
  assumes "heap_ok e w0 F R"
  shows "finite F" "p \<in> F \<Longrightarrow> object_ok (fstatic e) (wmem w0) p (lay e w0 p)" "p \<in> F \<Longrightarrow> isObjptr p"
    "p \<in> F \<Longrightarrow> isPointerInHeap (heap (fgc w0)) p"
    "p \<in> F \<Longrightarrow> p' \<in> F \<Longrightarrow> p \<noteq> p' \<Longrightarrow>
      disjnt_regions (foot e w0 p) (bytes_of (lay e w0 p)) (foot e w0 p') (bytes_of (lay e w0 p'))"
    "p \<in> F \<Longrightarrow> disjnt_regions (foot e w0 p) (bytes_of (lay e w0 p)) (to_space w0) (capacity e w0 F)"
    "p \<in> F \<Longrightarrow> r \<in> set R \<Longrightarrow> disjnt_regions (foot e w0 p) (bytes_of (lay e w0 p)) r 8"
    "r \<in> set R \<Longrightarrow> disjnt_regions r 8 (to_space w0) (capacity e w0 F)"
    "sorted_wrt (\<lambda>r r'. disjnt_regions r 8 r' 8) R"
    "isObjptr (to_space w0)" "unat (to_space w0) + capacity e w0 F \<le> unat (toLimit (rest w0))"
    "k < capacity e w0 F \<Longrightarrow> 4 dvd k \<Longrightarrow> \<not> isObjptrInFromSpace (fgc w0) (heap (fgc w0)) (to_space w0 + of_nat k)"
    "rangeListCurrent w0 = []"
  using assms unfolding heap_ok_def by blast+

lemma objectD:
  assumes "heap_ok e w0 F R" "p \<in> F"
  shows "hb (lay e w0 p) = 8 \<or> hb (lay e w0 p) = 24" "8 \<le> bb (lay e w0 p)" "4 dvd bytes_of (lay e w0 p)"
    "i \<in> set (ptrs (lay e w0 p)) \<Longrightarrow> i + 8 \<le> bb (lay e w0 p)"
    "sorted_wrt (\<lambda>i j. i + 8 \<le> j) (ptrs (lay e w0 p))" "p = foot e w0 p + of_nat (hb (lay e w0 p))"
  using heap_okD(2) [OF assms] object_ok_ptrs [OF heap_okD(2) [OF assms]] layout_hb by (auto simp: object_ok_def foot_def)

lemma capacity_less: "heap_ok e w0 F R \<Longrightarrow> capacity e w0 F < 2 ^ 64"
  using heap_okD(11) unsigned_less [of "toLimit (rest w0)", where ?'a = nat] by fastforce

lemma capacity_le: "heap_ok e w0 F R \<Longrightarrow> distinct ps \<Longrightarrow> set ps \<subseteq> F \<Longrightarrow> total (lay e w0) ps \<le> capacity e w0 F"
  unfolding capacity_def using heap_okD(1) total_le by blast

text \<open>A part of the to-space that the copies so far do not reach lies apart from every slot, as
  the objects do.\<close>

lemma slot_apart:
  assumes ok: "heap_ok e w0 F R" and ps: "distinct ps" "set ps \<subseteq> F" and s: "(x, v) \<in> slots e w0 R ps"
    and n: "total (lay e w0) ps \<le> n" "n + k \<le> capacity e w0 F" "0 < k"
  shows "disjnt_regions (to_space w0 + of_nat n) k x 8"
  using s unfolding slots_iff
proof (elim disjE conjE bexE)
  assume "x \<in> set R"
  then show ?thesis
    using disjnt_sub [OF heap_okD(8) [OF ok], of x 0 8 n k] n by (simp add: disjnt_sym)
next
  fix p i
  assume p: "p \<in> set ps" "i \<in> set (ptrs (lay e w0 p))" "x = to_space w0 + of_nat (pos (lay e w0) ps p + hb (lay e w0 p) + i)"
  have "pos (lay e w0) ps p + hb (lay e w0 p) + i + 8 \<le> n"
    using pos_le [OF p(1), of "lay e w0"] objectD(4) [OF ok _ p(2)] p(1) ps n by fastforce
  then show ?thesis
    using disjnt_offsets(2) [of "pos (lay e w0) ps p + hb (lay e w0 p) + i" 8 n k "to_space w0"] n capacity_less [OF ok]
    by (simp add: p(3))
qed

lemma slot_object:
  assumes ok: "heap_ok e w0 F R" and ps: "distinct ps" "set ps \<subseteq> F" and s: "(x, v) \<in> slots e w0 R ps" and o: "o' \<in> F"
  shows "disjnt_regions (foot e w0 o') (bytes_of (lay e w0 o')) x 8"
  using s unfolding slots_iff
proof (elim disjE conjE bexE)
  assume "x \<in> set R"
  then show ?thesis using heap_okD(7) [OF ok o] by blast
next
  fix p i
  assume p: "p \<in> set ps" "i \<in> set (ptrs (lay e w0 p))" "x = to_space w0 + of_nat (pos (lay e w0) ps p + hb (lay e w0 p) + i)"
  have "pos (lay e w0) ps p + hb (lay e w0 p) + i + 8 \<le> capacity e w0 F"
    using pos_le [OF p(1), of "lay e w0"] objectD(4) [OF ok _ p(2)] p(1) ps capacity_le [OF ok ps] by fastforce
  then show ?thesis
    using disjnt_sub [OF heap_okD(6) [OF ok o], of 0 "bytes_of (lay e w0 o')"
      "pos (lay e w0) ps p + hb (lay e w0 p) + i" 8] objectD(2) [OF ok o] by (simp add: p(3))
qed

lemma sorted_disjnt:
  "sorted_wrt (\<lambda>r r'. disjnt_regions r 8 r' 8) R \<Longrightarrow> x \<in> set R \<Longrightarrow> y \<in> set R \<Longrightarrow> x \<noteq> y \<Longrightarrow> disjnt_regions x 8 y 8"
  by (induction R) (auto simp: disjnt_sym)

text \<open>A word of the to-space at a position of a copy, and a slot.\<close>

lemma slot_position:
  assumes ok: "heap_ok e w0 F R" and ps: "distinct ps" "set ps \<subseteq> F" and s: "(x, v) \<in> slots e w0 R ps"
    and p: "p \<in> set ps" and i: "i + n \<le> bytes_of (lay e w0 p)" "0 < n"
    and free: "\<And>k. k \<in> set (ptrs (lay e w0 p)) \<Longrightarrow>
      x = to_space w0 + of_nat (pos (lay e w0) ps p + hb (lay e w0 p) + k) \<Longrightarrow> v = load64 (wmem w0) (p + of_nat k) \<Longrightarrow>
      i + n \<le> hb (lay e w0 p) + k \<or> hb (lay e w0 p) + k + 8 \<le> i"
  shows "disjnt_regions x 8 (to_space w0 + of_nat (pos (lay e w0) ps p + i)) n"
  using s unfolding slots_iff
proof (elim disjE conjE bexE)
  let ?k = "pos (lay e w0) ps p + i"
  have k: "?k + n \<le> capacity e w0 F"
    using pos_le [OF p, of "lay e w0"] capacity_le [OF ok ps] i by simp
  {
    assume "x \<in> set R"
    then show ?thesis using disjnt_sub [OF heap_okD(8) [OF ok], of x 0 8 ?k n] k i by simp
  next
    fix p' j
    assume j: "p' \<in> set ps" "j \<in> set (ptrs (lay e w0 p'))"
      "x = to_space w0 + of_nat (pos (lay e w0) ps p' + hb (lay e w0 p') + j)" "v = load64 (wmem w0) (p' + of_nat j)"
    let ?j = "pos (lay e w0) ps p' + hb (lay e w0 p') + j"
    have j8: "?j + 8 \<le> pos (lay e w0) ps p' + bytes_of (lay e w0 p')"
      using objectD(4) [OF ok _ j(2)] j(1) ps by fastforce
    then have jc: "?j + 8 \<le> capacity e w0 F"
      using pos_le [OF j(1), of "lay e w0"] capacity_le [OF ok ps] by simp
    have "?k + n \<le> ?j \<or> ?j + 8 \<le> ?k"
    proof (cases "p' = p")
      case True
      then show ?thesis using free [of j] j by auto
    next
      case False
      then show ?thesis using pos_apart [OF p j(1), of "lay e w0"] j8 i by auto
    qed
    moreover have "?k + n \<le> 2 ^ 64" "?j + 8 \<le> 2 ^ 64" using k jc capacity_less [OF ok] by linarith+
    ultimately show ?thesis
      unfolding j(3) using i(2) by (elim disjE) (simp_all only: disjnt_offsets zero_less_numeral)
  }
qed

lemma slots_disjnt:
  assumes ok: "heap_ok e w0 F R" and ps: "distinct ps" "set ps \<subseteq> F"
    and s: "(x, v) \<in> slots e w0 R ps" "(y, u) \<in> slots e w0 R ps" "(x, v) \<noteq> (y, u)"
  shows "disjnt_regions x 8 y 8"
  using s(2) unfolding slots_iff
proof (elim disjE conjE bexE)
  assume y: "y \<in> set R" "u = load64 (wmem w0) y"
  from s(1) show ?thesis unfolding slots_iff
  proof (elim disjE conjE bexE)
    assume "x \<in> set R" "v = load64 (wmem w0) x"
    then show ?thesis using sorted_disjnt [OF heap_okD(9) [OF ok]] y s(3) by auto
  next
    fix p i
    assume p: "p \<in> set ps" "i \<in> set (ptrs (lay e w0 p))" "x = to_space w0 + of_nat (pos (lay e w0) ps p + hb (lay e w0 p) + i)"
    have "pos (lay e w0) ps p + hb (lay e w0 p) + i + 8 \<le> capacity e w0 F"
      using pos_le [OF p(1), of "lay e w0"] objectD(4) [OF ok _ p(2)] p(1) ps capacity_le [OF ok ps] by fastforce
    then show ?thesis
      using disjnt_sub [OF heap_okD(8) [OF ok y(1)], of 0 8 "pos (lay e w0) ps p + hb (lay e w0 p) + i" 8]
      by (simp add: p(3) disjnt_sym)
  qed
next
  fix p i
  assume p: "p \<in> set ps" "i \<in> set (ptrs (lay e w0 p))"
    "y = to_space w0 + of_nat (pos (lay e w0) ps p + hb (lay e w0 p) + i)" "u = load64 (wmem w0) (p + of_nat i)"
  have F: "p \<in> F" using p(1) ps by auto
  have "hb (lay e w0 p) + i + 8 \<le> hb (lay e w0 p) + k \<or> hb (lay e w0 p) + k + 8 \<le> hb (lay e w0 p) + i"
    if k: "k \<in> set (ptrs (lay e w0 p))" "x = to_space w0 + of_nat (pos (lay e w0) ps p + hb (lay e w0 p) + k)"
      "v = load64 (wmem w0) (p + of_nat k)" for k
  proof -
    have "k \<noteq> i" using k p s(3) by auto
    then show ?thesis using sorted_gap [OF objectD(5) [OF ok F] k(1) p(2)] by auto
  qed
  then show ?thesis
    unfolding p(3) add.assoc [of "pos (lay e w0) ps p"]
    using objectD(4) [OF ok F p(2)] by (intro slot_position [OF ok ps s(1) p(1)]) simp_all
qed

section \<open>The steps of the collector\<close>

lemma copyingD:
  assumes "copying e w0 F R ps D w"
  shows "distinct ps" "set ps \<subseteq> F" "set ps \<subseteq> reachable e w0 F R" "D \<subseteq> fst ` slots e w0 R ps"
    "rest w = (rest w0)\<lparr>fwd_back := to_space w0 + of_nat (total (lay e w0) ps)\<rparr>" "rangeListCurrent w = []"
    "p \<in> F \<Longrightarrow> p \<notin> set ps \<Longrightarrow> i < bytes_of (lay e w0 p) \<Longrightarrow> wmem w (foot e w0 p + of_nat i) = wmem w0 (foot e w0 p + of_nat i)"
    "p \<in> set ps \<Longrightarrow> getHeader (wmem w) p = GC_FORWARDED"
    "p \<in> set ps \<Longrightarrow> load64 (wmem w) p = new_at (lay e w0) (to_space w0) ps p"
    "p \<in> set ps \<Longrightarrow> i < bytes_of (lay e w0 p) \<Longrightarrow>
      (\<And>k. k \<in> set (ptrs (lay e w0 p)) \<Longrightarrow> i < hb (lay e w0 p) + k \<or> hb (lay e w0 p) + k + 8 \<le> i) \<Longrightarrow>
      wmem w (to_space w0 + of_nat (pos (lay e w0) ps p + i)) = wmem w0 (foot e w0 p + of_nat i)"
    "(x, v) \<in> slots e w0 R ps \<Longrightarrow> load64 (wmem w) x =
      (if x \<in> D \<and> v \<in> F then new_at (lay e w0) (to_space w0) ps v else v)"
    "(x, v) \<in> slots e w0 R ps \<Longrightarrow> x \<in> D \<Longrightarrow> v \<in> F \<Longrightarrow> v \<in> set ps"
    "(\<And>p. p \<in> F \<Longrightarrow> bytes_of (lay e w0 p) \<le> off (foot e w0 p) x) \<Longrightarrow> capacity e w0 F \<le> off (to_space w0) x \<Longrightarrow>
      (\<And>r. r \<in> set R \<Longrightarrow> 8 \<le> off r x) \<Longrightarrow> wmem w x = wmem w0 x"
  using assms unfolding copying_def by blast+

text \<open>The words of an original that has been forwarded.\<close>

lemma object_words:
  assumes "heap_ok e w0 F R" "p \<in> F"
  shows "getHeader m p = load64 m (foot e w0 p + of_nat (hb (lay e w0 p) - 8))"
    "load64 m p = load64 m (foot e w0 p + of_nat (hb (lay e w0 p)))"
  using objectD(1) [OF assms] by (auto simp: foot_def getHeader_def getHeaderp_def GC_HEADER_SIZE_def)

lemma object_word_apart:
  assumes "heap_ok e w0 F R" "p \<in> F" "disjnt_regions a n (foot e w0 p) (bytes_of (lay e w0 p))" "0 < n"
  shows "disjnt_regions a n (foot e w0 p + of_nat (hb (lay e w0 p) - 8)) 8"
    "disjnt_regions a n (foot e w0 p + of_nat (hb (lay e w0 p))) 8"
  using disjnt_sub [OF assms(3), of 0 n "hb (lay e w0 p) - 8" 8] disjnt_sub [OF assms(3), of 0 n "hb (lay e w0 p)" 8]
    objectD(1,2) [OF assms(1,2)] assms(4) by auto

lemma rename_step:
  assumes ok: "heap_ok e w0 F R" and c: "copying e w0 F R ps D w" and s: "(x, v) \<in> slots e w0 R ps"
    and x: "x \<notin> D" and v: "v \<in> set ps"
  shows "copying e w0 F R ps (insert x D) (w\<lparr>wmem := store64 (wmem w) x (new_at (lay e w0) (to_space w0) ps v)\<rparr>)"
proof -
  note ps = copyingD(1,2) [OF c]
  let ?m = "store64 (wmem w) x (new_at (lay e w0) (to_space w0) ps v)"
  have far: "8 \<le> off x y" if "p \<in> F" "off (foot e w0 p) y < bytes_of (lay e w0 p)" for p y
    using slot_object [OF ok ps s that(1)] that(2) by (metis disjnt_off disjnt_sym)
  have words: "load64 ?m (foot e w0 p + of_nat (hb (lay e w0 p) - 8)) = load64 (wmem w) (foot e w0 p + of_nat (hb (lay e w0 p) - 8))"
    "load64 ?m (foot e w0 p + of_nat (hb (lay e w0 p))) = load64 (wmem w) (foot e w0 p + of_nat (hb (lay e w0 p)))"
    if "p \<in> F" for p
    using object_word_apart [OF ok that, of x 8] slot_object [OF ok ps s that]
    by (simp_all add: disjnt_sym load64_store64_disjnt)
  show ?thesis
    unfolding copying_def
  proof (intro conjI allI impI ballI)
    show "insert x D \<subseteq> fst ` slots e w0 R ps" using copyingD(4) [OF c] s by force
    show "wmem (w\<lparr>wmem := ?m\<rparr>) (foot e w0 p + of_nat i) = wmem w0 (foot e w0 p + of_nat i)"
      if "p \<in> F - set ps" "i < bytes_of (lay e w0 p)" for p i
    proof -
      have "bytes_of (lay e w0 p) \<le> capacity e w0 F"
        unfolding capacity_def using that(1) heap_okD(1) [OF ok] by (intro member_le_sum) auto
      then have "off (foot e w0 p) (foot e w0 p + of_nat i) = i"
        using that(2) capacity_less [OF ok] by (simp add: unat_of_nat_small)
      then show ?thesis
        using far [of p "foot e w0 p + of_nat i"] copyingD(7) [OF c, of p i] that by (simp add: store64_other)
    qed
    show "getHeader (wmem (w\<lparr>wmem := ?m\<rparr>)) p = GC_FORWARDED"
      "load64 (wmem (w\<lparr>wmem := ?m\<rparr>)) p = new_at (lay e w0) (to_space w0) ps p" if "p \<in> set ps" for p
      using that ps words [of p] copyingD(8,9) [OF c that] object_words [OF ok, of p] by auto
    show "wmem (w\<lparr>wmem := ?m\<rparr>) (to_space w0 + of_nat (pos (lay e w0) ps p + i)) = wmem w0 (foot e w0 p + of_nat i)"
      if p: "p \<in> set ps" "i < bytes_of (lay e w0 p)"
        "\<forall>k\<in>set (ptrs (lay e w0 p)). i < hb (lay e w0 p) + k \<or> hb (lay e w0 p) + k + 8 \<le> i" for p i
    proof -
      have "disjnt_regions x 8 (to_space w0 + of_nat (pos (lay e w0) ps p + i)) 1"
        using p by (intro slot_position [OF ok ps s p(1)]) auto
      then show ?thesis
        using copyingD(10) [OF c p(1,2)] p(3) by (simp add: disjnt_regions_def store64_other)
    qed
    show "case t of (y, u) \<Rightarrow> load64 (wmem (w\<lparr>wmem := ?m\<rparr>)) y =
        (if y \<in> insert x D \<and> u \<in> F then new_at (lay e w0) (to_space w0) ps u else u)" if t: "t \<in> slots e w0 R ps" for t
    proof (cases "t = (x, v)")
      case True
      then show ?thesis using v ps by auto
    next
      case False
      obtain y u where t': "t = (y, u)" by force
      then have d: "disjnt_regions x 8 y 8" using slots_disjnt [OF ok ps s, of y u] t False by auto
      then have "y \<noteq> x" by (auto simp: disjnt_regions_def)
      then show ?thesis using d copyingD(11) [OF c, of y u] t t' by (simp add: load64_store64_disjnt)
    qed
    show "case t of (y, u) \<Rightarrow> y \<in> insert x D \<and> u \<in> F \<longrightarrow> u \<in> set ps" if t: "t \<in> slots e w0 R ps" for t
    proof (cases "t = (x, v)")
      case False
      obtain y u where t': "t = (y, u)" by force
      then have "disjnt_regions x 8 y 8" using slots_disjnt [OF ok ps s, of y u] t False by auto
      then have "y \<noteq> x" by (auto simp: disjnt_regions_def)
      then show ?thesis using copyingD(12) [OF c, of y u] t t' by auto
    qed (use v in simp)
    show "wmem (w\<lparr>wmem := ?m\<rparr>) y = wmem w0 y"
      if "(\<forall>p\<in>F. bytes_of (lay e w0 p) \<le> off (foot e w0 p) y) \<and> capacity e w0 F \<le> off (to_space w0) y \<and> (\<forall>r\<in>set R. 8 \<le> off r y)" for y
    proof -
      have "8 \<le> off x y" using s unfolding slots_iff
      proof (elim disjE conjE bexE)
        fix p i
        assume p: "p \<in> set ps" "i \<in> set (ptrs (lay e w0 p))" "x = to_space w0 + of_nat (pos (lay e w0) ps p + hb (lay e w0 p) + i)"
        have "pos (lay e w0) ps p + hb (lay e w0 p) + i + 8 \<le> capacity e w0 F"
          using pos_le [OF p(1), of "lay e w0"] objectD(4) [OF ok _ p(2)] p(1) ps capacity_le [OF ok ps] by fastforce
        then show ?thesis
          using that off_plus [of "pos (lay e w0) ps p + hb (lay e w0 p) + i" y "to_space w0"] unfolding p(3) by linarith
      qed (use that in simp)
      then show ?thesis using copyingD(13) [OF c, of y] that by (simp add: store64_other)
    qed
  qed (use copyingD(1-3,5,6) [OF c] in auto)
qed

lemma copy_step:
  assumes ok: "heap_ok e w0 F R" and c: "copying e w0 F R ps D w" and p: "p \<in> F" "p \<notin> set ps" "p \<in> reachable e w0 F R"
  obtains w' where "forward_object e p w = Some w'" "copying e w0 F R (ps @ [p]) D w'"
proof -
  note ps = copyingD(1,2) [OF c]
  let ?l = "lay e w0 p" and ?n = "total (lay e w0) ps" and ?T = "to_space w0"
  let ?b = "?T + of_nat ?n" and ?a = "foot e w0 p"
  let ?m = "copied ?b p ?l (wmem w)"
  let ?w = "w\<lparr>wmem := ?m, rest := (rest w)\<lparr>fwd_back := ?b + of_nat (bytes_of ?l)\<rparr>\<rparr>"
  note obj = objectD [OF ok p(1)]
  have room: "?n + bytes_of ?l \<le> capacity e w0 F" using capacity_le [OF ok, of "ps @ [p]"] ps p by simp
  note cap = capacity_less [OF ok]
  have ab: "disjnt_regions ?a (bytes_of ?l) ?b (bytes_of ?l)"
    using disjnt_sub [OF heap_okD(6) [OF ok p(1)], of 0 "bytes_of ?l" ?n "bytes_of ?l"] room obj(2) by simp
  have step: "?n + 0 < 2 ^ 64" "bytes_of ?l < 2 ^ 64" using room cap by linarith+
  have fa: "?a = p - of_nat (hb ?l)" by (simp add: foot_def)
  note facts = copied_facts [where m = "wmem w", OF obj(1,2) step(2) fa ab]
  have old: "wmem w (?a + of_nat i) = wmem w0 (?a + of_nat i)" if "i < bytes_of ?l" for i
    using copyingD(7) [OF c p(1,2) that] .
  have "object_ok (fstatic e) (wmem w) p ?l"
    using object_ok_copy [OF heap_okD(2) [OF ok p(1)], of "wmem w" p] old fa obj(2) by simp
  moreover have "unat ?b + bytes_of ?l \<le> unat (toLimit (rest w))"
    using heap_okD(11) [OF ok] room copyingD(5) [OF c] unat_step [of ?T ?n] unsigned_less [of "toLimit (rest w0)", where ?'a = nat]
    by simp
  moreover have "p - of_nat (hb ?l) \<noteq> ?b" using ab obj(2) by (auto simp: disjnt_regions_def fa)
  ultimately have "forward_object e p w = Some ?w"
    using forward_object_eq [of e w p ?l ?b] copyingD(5) [OF c] by simp
  moreover have "copying e w0 F R (ps @ [p]) D ?w"
    unfolding copying_def
  proof (intro conjI allI impI ballI)
    have region: "wmem ?w x = wmem w x" if "bytes_of ?l \<le> off ?a x" "bytes_of ?l \<le> off ?b x" for x
      using facts(1) that by simp
    have word: "load64 (wmem ?w) x = load64 (wmem w) x" if "disjnt_regions ?a (bytes_of ?l) x 8" "disjnt_regions ?b (bytes_of ?l) x 8" for x
      using that by (intro load64_cong) (metis region off_offset)
    have object: "disjnt_regions ?b (bytes_of ?l) (foot e w0 p') (bytes_of (lay e w0 p'))" if "p' \<in> F" for p'
      using disjnt_sub [OF heap_okD(6) [OF ok that], of 0 "bytes_of (lay e w0 p')" ?n "bytes_of ?l"]
        room obj(2) objectD(2) [OF ok that] by (simp add: disjnt_sym)
    show "D \<subseteq> fst ` slots e w0 R (ps @ [p])"
      using copyingD(4) [OF c] by (auto simp: slots_snoc [OF p(2)])
    show "wmem ?w (foot e w0 p' + of_nat i) = wmem w0 (foot e w0 p' + of_nat i)"
      if "p' \<in> F - set (ps @ [p])" "i < bytes_of (lay e w0 p')" for p' i
      using region off_offset [OF that(2) object] off_offset [OF that(2) heap_okD(5) [OF ok p(1), of p']] that
        copyingD(7) [OF c, of p' i] by auto
    show "getHeader (wmem ?w) p' = GC_FORWARDED" "load64 (wmem ?w) p' = new_at (lay e w0) ?T (ps @ [p]) p'"
      if p': "p' \<in> set (ps @ [p])" for p'
    proof -
      have "load64 (wmem ?w) (foot e w0 p' + of_nat (hb (lay e w0 p') - 8)) = load64 (wmem w) (foot e w0 p' + of_nat (hb (lay e w0 p') - 8))"
        "load64 (wmem ?w) (foot e w0 p' + of_nat (hb (lay e w0 p'))) = load64 (wmem w) (foot e w0 p' + of_nat (hb (lay e w0 p')))"
        if "p' \<noteq> p" "p' \<in> F"
        using word object_word_apart [OF ok that(2) heap_okD(5) [OF ok p(1) that(2)]] object_word_apart [OF ok that(2) object [OF that(2)]]
          that obj(2) by auto
      note others = this
      have "getHeader (wmem ?w) p' = GC_FORWARDED \<and> load64 (wmem ?w) p' = new_at (lay e w0) ?T (ps @ [p]) p'"
      proof (cases "p' = p")
        case True
        then show ?thesis using facts(3,4) p(2) by (simp add: new_at_def pos_snoc add.assoc)
      next
        case False
        then have q: "p' \<in> set ps" "p' \<in> F" using p' ps by auto
        show ?thesis
          using others [OF False q(2)] copyingD(8,9) [OF c q(1)] unfolding object_words [OF ok q(2)]
          by (simp only: new_at_append [OF q(1)])
      qed
      then show "getHeader (wmem ?w) p' = GC_FORWARDED" "load64 (wmem ?w) p' = new_at (lay e w0) ?T (ps @ [p]) p'"
        by blast+
    qed
    show "wmem ?w (?T + of_nat (pos (lay e w0) (ps @ [p]) p' + i)) = wmem w0 (foot e w0 p' + of_nat i)"
      if p': "p' \<in> set (ps @ [p])" "i < bytes_of (lay e w0 p')"
        "\<forall>k\<in>set (ptrs (lay e w0 p')). i < hb (lay e w0 p') + k \<or> hb (lay e w0 p') + k + 8 \<le> i" for p' i
    proof (cases "p' = p")
      case True
      then show ?thesis using facts(2) old that(2) p(2) by (simp add: pos_snoc add.assoc)
    next
      case False
      then have q: "p' \<in> set ps" using p' by simp
      let ?k = "pos (lay e w0) ps p' + i"
      have k: "?k + 1 \<le> ?n" using pos_le [OF q, of "lay e w0"] p'(2) by simp
      then have "disjnt_regions ?b (bytes_of ?l) (?T + of_nat ?k) 1"
        using disjnt_offsets(2) [of ?k 1 ?n "bytes_of ?l" ?T] room cap obj(2) by simp
      moreover have "disjnt_regions ?a (bytes_of ?l) (?T + of_nat ?k) 1"
        using disjnt_sub [OF heap_okD(6) [OF ok p(1)], of 0 "bytes_of ?l" ?k 1] room k obj(2) by simp
      ultimately show ?thesis
        using region copyingD(10) [OF c q p'(2)] p'(3) q by (simp add: disjnt_regions_def pos_append)
    qed
    have kept: "load64 (wmem ?w) x = load64 (wmem w) x" if "(x, v) \<in> slots e w0 R ps" for x v
      using word slot_object [OF ok ps that p(1)] slot_apart [OF ok ps that order_refl room] obj(2) by simp
    have fresh: "?T + of_nat (?n + hb ?l + i) \<notin> D" if "i \<in> set (ptrs ?l)" for i
    proof
      assume "?T + of_nat (?n + hb ?l + i) \<in> D"
      then obtain v where v: "(?T + of_nat (?n + hb ?l + i), v) \<in> slots e w0 R ps" using copyingD(4) [OF c] by auto
      have "?n + hb ?l + i + 8 \<le> capacity e w0 F" using obj(4) [OF that] room by simp
      then have "disjnt_regions (?T + of_nat (?n + hb ?l + i)) 8 (?T + of_nat (?n + hb ?l + i)) 8"
        using slot_apart [OF ok ps v, of "?n + hb ?l + i" 8] by simp
      then show False by (simp add: disjnt_regions_def)
    qed
    have new: "load64 (wmem ?w) (?T + of_nat (?n + hb ?l + i)) = load64 (wmem w0) (p + of_nat i)" if "i \<in> set (ptrs ?l)" for i
    proof -
      have "load64 (wmem ?w) (?b + of_nat (hb ?l + i)) = load64 (wmem w0) (?a + of_nat (hb ?l + i))"
        using facts(2) old obj(4) [OF that] by (intro load64_shift [where n = "bytes_of ?l"]) simp_all
      moreover have "p + of_nat i = ?a + of_nat (hb ?l + i)" by (simp add: foot_def)
      ultimately show ?thesis by (simp only: add.assoc of_nat_add)
    qed
    show "case t of (x, v) \<Rightarrow> load64 (wmem ?w) x = (if x \<in> D \<and> v \<in> F then new_at (lay e w0) ?T (ps @ [p]) v else v)"
      if "t \<in> slots e w0 R (ps @ [p])" for t
      using that kept copyingD(11,12) [OF c] new fresh unfolding slots_snoc [OF p(2)]
      by (auto simp: new_at_append)
    show "case t of (x, v) \<Rightarrow> x \<in> D \<and> v \<in> F \<longrightarrow> v \<in> set (ps @ [p])" if "t \<in> slots e w0 R (ps @ [p])" for t
      using that copyingD(12) [OF c] fresh unfolding slots_snoc [OF p(2)] by auto
    show "wmem ?w y = wmem w0 y"
      if "(\<forall>p\<in>F. bytes_of (lay e w0 p) \<le> off (foot e w0 p) y) \<and> capacity e w0 F \<le> off ?T y \<and> (\<forall>r\<in>set R. 8 \<le> off r y)" for y
    proof -
      have "bytes_of ?l \<le> off ?b y" using that off_plus [of ?n y ?T] room by linarith
      then show ?thesis using region [of y] copyingD(13) [OF c, of y] that p(1) by simp
    qed
  qed (use copyingD(1-3,5,6) [OF c] p in \<open>auto simp: add.assoc\<close>)
  ultimately show thesis by (rule that)
qed

lemma slots_mono: "slots e w0 R ps \<subseteq> slots e w0 R (ps @ qs)"
  unfolding slots_def by (intro Un_mono UN_mono subset_refl) (auto simp: new_at_append)

lemma slots_unique: 
  assumes "heap_ok e w0 F R" "distinct ps" "set ps \<subseteq> F" "(x, v) \<in> slots e w0 R ps" "(x, u) \<in> slots e w0 R ps"
  shows "u = v"
  using slots_disjnt [OF assms] by (auto simp: disjnt_regions_def)

lemma slot_closed:
  assumes "heap_ok e w0 F R" "set ps \<subseteq> F" "(x, v) \<in> slots e w0 R ps" "isObjptr v" "isPointerInHeap (heap (fgc w0)) v"
  shows "v \<in> F"
  using assms unfolding slots_iff heap_ok_def by blast

lemma slot_reachable:
  assumes "set ps \<subseteq> reachable e w0 F R" "(x, v) \<in> slots e w0 R ps" "v \<in> F"
  shows "v \<in> reachable e w0 F R"
  using assms unfolding slots_iff by (auto intro: reach_root reach_object)

lemma keep_step:
  assumes ok: "heap_ok e w0 F R" and c: "copying e w0 F R ps D w" and s: "(x, v) \<in> slots e w0 R ps" and v: "v \<notin> F"
  shows "copying e w0 F R ps (insert x D) w"
proof -
  have "u = v" if "(x, u) \<in> slots e w0 R ps" for u
    using slots_unique [OF ok copyingD(1,2) [OF c] s that] .
  moreover have "x \<in> fst ` slots e w0 R ps" using s by force
  ultimately show ?thesis using c v unfolding copying_def by auto
qed

lemma total_dvd: "heap_ok e w0 F R \<Longrightarrow> set ps \<subseteq> F \<Longrightarrow> 4 dvd total (lay e w0) ps"
  by (induction ps) (auto simp: objectD(3))

lemma new_outside:
  assumes ok: "heap_ok e w0 F R" and ps: "distinct ps" "set ps \<subseteq> F" and p: "p \<in> set ps"
  shows "\<not> isObjptrInFromSpace (fgc w0) (heap (fgc w0)) (new_at (lay e w0) (to_space w0) ps p)"
proof -
  have F: "p \<in> F" using ps p by blast
  have "set (takeWhile (\<lambda>x. x \<noteq> p) ps) \<subseteq> F" using ps(2) set_takeWhileD by fastforce
  then have "4 dvd pos (lay e w0) ps p + hb (lay e w0 p)"
    unfolding pos_def using total_dvd [OF ok] objectD(1) [OF ok F] by auto
  moreover have "pos (lay e w0) ps p + hb (lay e w0 p) < capacity e w0 F"
    using pos_le [OF p, of "lay e w0"] objectD(2) [OF ok F] capacity_le [OF ok ps] by linarith
  ultimately show ?thesis unfolding new_at_def using heap_okD(12) [OF ok] by blast
qed

lemma original_header:
  assumes ok: "heap_ok e w0 F R" and c: "copying e w0 F R ps D w" and p: "p \<in> F" "p \<notin> set ps"
  shows "getHeader (wmem w) p = getHeader (wmem w0) p"
proof -
  have "load64 (wmem w) (foot e w0 p + of_nat (hb (lay e w0 p) - 8)) = load64 (wmem w0) (foot e w0 p + of_nat (hb (lay e w0 p) - 8))"
    using copyingD(7) [OF c p] objectD(1,2) [OF ok p(1)]
    by (intro load64_shift [where n = "bytes_of (lay e w0 p)"]) auto
  then show ?thesis by (simp add: object_words [OF ok p(1)])
qed

text \<open>The call on one slot.\<close>

lemma forward_slot:
  assumes ok: "heap_ok e w0 F R" and c: "copying e w0 F R ps D w" and s: "(x, v) \<in> slots e w0 R ps" "x \<notin> D"
    and v: "v \<in> F"
  shows "\<exists>w' qs. forwardObjptr e x w = Some w' \<and> copying e w0 F R (ps @ qs) (insert x D) w'"
proof -
  have val: "load64 (wmem w) x = v" using copyingD(11) [OF c s(1)] s(2) by simp
  obtain w1 qs where w1: "(if getHeader (wmem w) v \<noteq> GC_FORWARDED then forward_object e v w else Some w) = Some w1"
    "copying e w0 F R (ps @ qs) D w1" "v \<in> set (ps @ qs)"
  proof (cases "v \<in> set ps")
    case True
    then show thesis using that [of w "[]"] c copyingD(8) [OF c True] by simp
  next
    case False
    then have "getHeader (wmem w) v \<noteq> GC_FORWARDED"
      using original_header [OF ok c v] heap_okD(2) [OF ok v] by (simp add: object_ok_def)
    moreover obtain w1 where "forward_object e v w = Some w1" "copying e w0 F R (ps @ [v]) D w1"
      using copy_step [OF ok c v False slot_reachable [OF copyingD(3) [OF c] s(1) v]] .
    ultimately show thesis using that [of w1 "[v]"] by simp
  qed
  have "\<not> isObjectLifted (getHeader (wmem w) v)"
    using copyingD(8) [OF c, of v] original_header [OF ok c v] heap_okD(2) [OF ok v]
    by (cases "v \<in> set ps") (auto simp: object_ok_def isObjectLifted_def)
  moreover have s1: "(x, v) \<in> slots e w0 R (ps @ qs)" using s(1) slots_mono by blast
  let ?new = "new_at (lay e w0) (to_space w0) (ps @ qs) v"
  let ?w = "w1\<lparr>wmem := store64 (wmem w1) x ?new\<rparr>"
  have "load64 (wmem w1) v = ?new" using copyingD(9) [OF w1(2,3)] .
  moreover have "fgc w1 = fgc w0" "fgc w = fgc w0" using copyingD(5) [OF w1(2)] copyingD(5) [OF c] by simp_all
  moreover have "forward_loop e True x ?w = Some ?w"
    using new_outside [OF ok copyingD(1,2) [OF w1(2)] w1(3)] \<open>fgc w1 = fgc w0\<close> by (subst forward_loop.simps) simp
  ultimately have "forwardObjptr e x w = Some ?w"
    unfolding forwardObjptr_def using w1(1) val
    by (subst forward_loop.simps) (simp add: Let_def)
  moreover have "copying e w0 F R (ps @ qs) (insert x D) ?w" by (rule rename_step [OF ok w1(2) s1 s(2) w1(3)])
  ultimately show ?thesis by blast
qed

lemma call_slot:
  assumes ok: "heap_ok e w0 F R" and c: "copying e w0 F R ps D w" and s: "(x, v) \<in> slots e w0 R ps" "x \<notin> D"
  shows "\<exists>w' qs. callIfIsObjptr (forwardObjptrIfInLocalHeap e) x w = Some w' \<and> copying e w0 F R (ps @ qs) (insert x D) w'"
proof -
  have val: "load64 (wmem w) x = v" using copyingD(11) [OF c s(1)] s(2) by simp
  have s0: "fgc w = fgc w0" using copyingD(5) [OF c] by simp
  show ?thesis
  proof (cases "v \<in> F")
    case True
    then show ?thesis
      using forward_slot [OF ok c s True] heap_okD(3,4) [OF ok True] val s0
      by (simp add: callIfIsObjptr_def forwardObjptrIfInLocalHeap_def)
  next
    case False
    then have "callIfIsObjptr (forwardObjptrIfInLocalHeap e) x w = Some w"
      using slot_closed [OF ok copyingD(2) [OF c] s(1)] val s0
      by (auto simp: callIfIsObjptr_def forwardObjptrIfInLocalHeap_def)
    moreover have "copying e w0 F R (ps @ []) (insert x D) w" using keep_step [OF ok c s(1) False] by simp
    ultimately show ?thesis by blast
  qed
qed

lemma call_slots:
  assumes ok: "heap_ok e w0 F R"
  shows "copying e w0 F R ps D w \<Longrightarrow> set xs \<subseteq> fst ` slots e w0 R ps \<Longrightarrow> distinct xs \<Longrightarrow> set xs \<inter> D = {} \<Longrightarrow>
    \<exists>w' qs. foreach_slots (callIfIsObjptr (forwardObjptrIfInLocalHeap e)) xs w = Some w' \<and>
      copying e w0 F R (ps @ qs) (D \<union> set xs) w'"
proof (induction xs arbitrary: ps D w)
  case Nil
  then show ?case by (intro exI [of _ w] exI [of _ "[]"]) simp
next
  case (Cons x xs)
  obtain v where s: "(x, v) \<in> slots e w0 R ps" using Cons.prems(2) by auto
  obtain w1 qs where w1: "callIfIsObjptr (forwardObjptrIfInLocalHeap e) x w = Some w1" "copying e w0 F R (ps @ qs) (insert x D) w1"
    using call_slot [OF ok Cons.prems(1) s] Cons.prems(4) by auto
  moreover have "set xs \<subseteq> fst ` slots e w0 R (ps @ qs)" using Cons.prems(2) slots_mono by fastforce
  ultimately obtain w2 qs' where "foreach_slots (callIfIsObjptr (forwardObjptrIfInLocalHeap e)) xs w1 = Some w2"
    "copying e w0 F R ((ps @ qs) @ qs') (insert x D \<union> set xs) w2"
    using Cons.IH [of "ps @ qs" "insert x D" w1] Cons.prems(3,4) by auto
  then show ?case using w1(1) by (intro exI [of _ w2] exI [of _ "qs @ qs'"]) simp
qed

section \<open>The scan of the to-space\<close>

abbreviation scanned :: "fwd_env \<Rightarrow> fwd world \<Rightarrow> pointer list \<Rightarrow> pointer list \<Rightarrow> pointer set" where
  "scanned e w0 R ps \<equiv> fst ` slots e w0 R ps"

lemma copy_object_ok:
  assumes ok: "heap_ok e w0 F R" and c: "copying e w0 F R ps D w" and p: "p \<in> set ps"
  shows "object_ok (fstatic e) (wmem w) (new_at (lay e w0) (to_space w0) ps p) (lay e w0 p)"
proof -
  have F: "p \<in> F" using copyingD(2) [OF c] p by blast
  have "wmem w (to_space w0 + of_nat (pos (lay e w0) ps p + i)) = wmem w0 (foot e w0 p + of_nat i)" if "i < hb (lay e w0 p)" for i
    using copyingD(10) [OF c p, of i] that by simp
  then show ?thesis
    using object_ok_copy [OF heap_okD(2) [OF ok F], of "wmem w" "new_at (lay e w0) (to_space w0) ps p"]
    by (simp add: new_at_def foot_def add.assoc)
qed

lemma distinct_offsets:
  fixes q :: pointer
  assumes "sorted_wrt (\<lambda>i j. i + 8 \<le> j) xs" "\<forall>i\<in>set xs. i + 8 \<le> n" "n < 2 ^ 64"
  shows "distinct (map (\<lambda>i. q + of_nat i) xs)"
proof -
  have "distinct xs" using assms(1) by (induction xs) auto
  moreover have "inj_on (\<lambda>i. q + of_nat i) (set xs)"
  proof (rule inj_onI)
    fix i j assume "i \<in> set xs" "j \<in> set xs" "q + of_nat i = q + of_nat j"
    then have "unat (of_nat i :: u64) = unat (of_nat j :: u64)" "i < 2 ^ 64" "j < 2 ^ 64" using assms(2,3) by auto
    then show "i = j" by (simp add: unat_of_nat_small)
  qed
  ultimately show ?thesis by (simp add: distinct_map)
qed

lemma scan_object:
  assumes ok: "heap_ok e w0 F R" and c: "copying e w0 F R (ps1 @ p # ps2) (scanned e w0 R ps1) w"
  shows "\<exists>w' qs. range_step (fenv e) (forwardObjptrIfInLocalHeap e) skipWeaks False (to_space w0 + of_nat (total (lay e w0) ps1)) w =
      Some (to_space w0 + of_nat (total (lay e w0) (ps1 @ [p])), w') \<and>
    copying e w0 F R ((ps1 @ [p]) @ ps2 @ qs) (scanned e w0 R (ps1 @ [p])) w'"
proof -
  let ?ps = "ps1 @ p # ps2" and ?l = "lay e w0 p" and ?n = "total (lay e w0) ps1"
  note ps = copyingD(1,2) [OF c]
  have F: "p \<in> F" and p: "p \<in> set ?ps" "p \<notin> set ps1" using ps by auto
  note obj = objectD [OF ok F]
  let ?q = "to_space w0 + of_nat (?n + hb ?l)"
  have q: "new_at (lay e w0) (to_space w0) ?ps p = ?q" using p(2) by (simp add: new_at_def pos_snoc)
  have room: "?n + bytes_of ?l \<le> capacity e w0 F" using capacity_le [OF ok ps] by simp
  note cap = capacity_less [OF ok]
  have qok: "object_ok (fstatic e) (wmem w) ?q ?l" using copy_object_ok [OF ok c p(1)] q by simp
  have front: "?q - of_nat (hb ?l) = to_space w0 + of_nat ?n" by simp
  have adv: "advanceToObjectData (wmem w) (to_space w0 + of_nat ?n) = ?q"
    using qok unfolding object_ok_def front by blast
  have "unat (to_space w0) + capacity e w0 F < 2 ^ 64"
    using heap_okD(11) [OF ok] unsigned_less [of "toLimit (rest w0)", where ?'a = nat] by simp
  then have "unat ?q + bb ?l < 2 ^ 64" using room unat_step [of "to_space w0" "?n + hb ?l"] by simp
  then have walk: "foreachObjptrInObject (fenv e) (forwardObjptrIfInLocalHeap e) skipWeaks ?q w =
      map_option (Pair (?q + of_nat (bb ?l))) (foreach_slots (callIfIsObjptr (forwardObjptrIfInLocalHeap e)) (map (\<lambda>i. ?q + of_nat i) (ptrs ?l)) w)"
    using qok by (intro object_walk_layout) (auto simp: object_ok_def)
  have slot: "?q + of_nat i \<in> scanned e w0 R ?ps" "?q + of_nat i \<notin> scanned e w0 R ps1" if i: "i \<in> set (ptrs ?l)" for i
  proof -
    have "(?q + of_nat i, load64 (wmem w0) (p + of_nat i)) \<in> slots e w0 R ?ps"
      unfolding slots_def using i by (auto simp: q)
    then show "?q + of_nat i \<in> scanned e w0 R ?ps" by force
    show "?q + of_nat i \<notin> scanned e w0 R ps1"
    proof
      assume "?q + of_nat i \<in> scanned e w0 R ps1"
      then obtain v where "(to_space w0 + of_nat (?n + hb ?l + i), v) \<in> slots e w0 R ps1" by (auto simp: add.assoc)
      then have "disjnt_regions (to_space w0 + of_nat (?n + hb ?l + i)) 8 (to_space w0 + of_nat (?n + hb ?l + i)) 8"
        using ps room obj(4) [OF i] by (intro slot_apart [OF ok]) auto
      then show False by (simp add: disjnt_regions_def)
    qed
  qed
  have sub: "set (map (\<lambda>i. ?q + of_nat i) (ptrs ?l)) \<subseteq> scanned e w0 R ?ps"
    and apart: "set (map (\<lambda>i. ?q + of_nat i) (ptrs ?l)) \<inter> scanned e w0 R ps1 = {}"
    using slot unfolding set_map by blast+
  have dist: "distinct (map (\<lambda>i. ?q + of_nat i) (ptrs ?l))"
    using distinct_offsets [OF obj(5), of "bb ?l" ?q] obj(4) room cap by simp
  obtain w' qs where w': "foreach_slots (callIfIsObjptr (forwardObjptrIfInLocalHeap e)) (map (\<lambda>i. ?q + of_nat i) (ptrs ?l)) w = Some w'"
    "copying e w0 F R (?ps @ qs) (scanned e w0 R ps1 \<union> set (map (\<lambda>i. ?q + of_nat i) (ptrs ?l))) w'"
    using call_slots [OF ok c sub dist apart] by blast
  have "scanned e w0 R ps1 \<union> set (map (\<lambda>i. ?q + of_nat i) (ptrs ?l)) = scanned e w0 R (ps1 @ [p])"
    unfolding slots_snoc [OF p(2)] by (auto simp: image_Un image_image add.assoc)
  moreover have "?q + of_nat (bb ?l) = to_space w0 + of_nat (total (lay e w0) (ps1 @ [p]))" by simp
  ultimately show ?thesis
    using w' walk copyingD(6) [OF c] qok
    by (intro exI [of _ w'] exI [of _ qs]) (simp add: range_step_def skip_range_def adv object_ok_def)
qed

lemma scan:
  assumes ok: "heap_ok e w0 F R"
  shows "copying e w0 F R (ps1 @ ps2 @ ps3) (scanned e w0 R ps1) w \<Longrightarrow>
    \<exists>w' ps. range_loop (fenv e) (forwardObjptrIfInLocalHeap e) skipWeaks False (\<lambda>w. fwd_back (rest w))
        (to_space w0 + of_nat (total (lay e w0) (ps1 @ ps2))) (to_space w0 + of_nat (total (lay e w0) ps1)) w =
      Some (fwd_back (rest w'), w') \<and> copying e w0 F R ps (scanned e w0 R ps) w'"
proof (induction "2 * (card F - length ps1) + (if ps2 = [] then 1 else 0)" arbitrary: ps1 ps2 ps3 w rule: less_induct)
  case less
  note c = less.prems
  let ?at = "\<lambda>ps. to_space w0 + of_nat (total (lay e w0) ps)"
  let ?loop = "range_loop (fenv e) (forwardObjptrIfInLocalHeap e) skipWeaks False (\<lambda>w. fwd_back (rest w))"
  note ps = copyingD(1,2) [OF c]
  have lt: "?at qs < ?at (qs @ qs')" if a: "set (qs @ qs') \<subseteq> F" "distinct (qs @ qs')" "qs' \<noteq> []" for qs qs'
  proof -
    have "total (lay e w0) (qs @ qs') \<le> capacity e w0 F" using capacity_le [OF ok a(2,1)] .
    moreover obtain p where "p \<in> F" "p \<in> set qs'" using a(1,3) by (cases qs') auto
    then have "0 < total (lay e w0) qs'" using objectD(2) [OF ok, of p] pos_le [of p qs' "lay e w0"] by linarith
    ultimately show ?thesis
      using heap_okD(11) [OF ok] unsigned_less [of "toLimit (rest w0)", where ?'a = nat]
        unat_step [of "to_space w0" "total (lay e w0) qs"] unat_step [of "to_space w0" "total (lay e w0) (qs @ qs')"]
      by (simp add: word_less_nat_alt)
  qed
  have limit: "fwd_back (rest w) = ?at (ps1 @ ps2 @ ps3)" using copyingD(5) [OF c] by simp
  have card: "length ps1 + length ps2 + length ps3 \<le> card F"
    using ps heap_okD(1) [OF ok] by (metis card_mono distinct_card length_append add.assoc)
  show ?case
  proof (cases ps2)
    case (Cons p ps2')
    have p: "?at ps1 < ?at (ps1 @ ps2)" by (rule lt) (use ps Cons in auto)
    obtain w1 qs where w1: "range_step (fenv e) (forwardObjptrIfInLocalHeap e) skipWeaks False (?at ps1) w = Some (?at (ps1 @ [p]), w1)"
      "copying e w0 F R ((ps1 @ [p]) @ (ps2' @ ps3) @ qs) (scanned e w0 R (ps1 @ [p])) w1"
      using scan_object [OF ok, of ps1 p "ps2' @ ps3" w skipWeaks] c Cons by auto
    have c1: "copying e w0 F R ((ps1 @ [p]) @ ps2' @ ps3 @ qs) (scanned e w0 R (ps1 @ [p])) w1" using w1(2) by simp
    have "2 * (card F - length (ps1 @ [p])) + (if ps2' = [] then 1 else 0) < 2 * (card F - length ps1) + (if ps2 = [] then 1 else 0)"
      using card Cons by auto
    from less.hyps [OF this c1] obtain w' ps where
      "?loop (?at ((ps1 @ [p]) @ ps2')) (?at (ps1 @ [p])) w1 = Some (fwd_back (rest w'), w')"
      "copying e w0 F R ps (scanned e w0 R ps) w'" by blast
    moreover have "?at ((ps1 @ [p]) @ ps2') = ?at (ps1 @ ps2)" using Cons by simp
    moreover have "?loop (?at (ps1 @ ps2)) (?at ps1) w = ?loop (?at (ps1 @ ps2)) (?at (ps1 @ [p])) w1"
      using p w1(1) by (subst range_loop.simps) simp
    ultimately show ?thesis by metis
  next
    case Nil
    show ?thesis
    proof (cases ps3)
      case Cons2: (Cons p ps3')
      have "?at ps1 < ?at (ps1 @ ps3)" by (rule lt) (use ps Nil Cons2 in auto)
      then have "?loop (?at (ps1 @ ps2)) (?at ps1) w = ?loop (?at (ps1 @ ps3)) (?at ps1) w"
        using Nil limit by (subst range_loop.simps) simp
      then show ?thesis using less.hyps [of ps1 ps3 "[]" w] c Nil Cons2 by simp
    next
      case Nil2: Nil
      then have "?loop (?at (ps1 @ ps2)) (?at ps1) w = Some (fwd_back (rest w), w)"
        using Nil limit by (subst range_loop.simps) simp
      then show ?thesis using c Nil Nil2 by (intro exI [of _ w] exI [of _ ps1]) simp
    qed
  qed
qed

section \<open>The collection\<close>

definition root_list :: "fwd_env \<Rightarrow> pointer list" where
  "root_list e = (let r = own_roots e in array_of (globals_array e) 8 (globalsLength e) @
    [callFromCHandlerThread_slot r, currentThread_slot r, savedThread_slot r, signalHandlerThread_slot r,
     savedClosure_slot r, pacmlThreadId_slot r] @
    (if roots_array r \<noteq> 0 then array_of (roots_array r) 8 (rootsLength r) else []) @
    array_of (moveOnWBA_array r) 8 (moveOnWBASize r) @ array_of (preemptOnWBA_array r) 16 (preemptOnWBASize r) @
    array_of (spawnOnWBA_array r) 16 (spawnOnWBASize r) @ scheduler_keys r @ [liftingObject_slot r])"

lemma foreachGlobalObjptrInScope_slots:
  assumes "danglingSize (own_roots e) = 0"
  shows "foreachGlobalObjptrInScope e f w = foreach_slots (callIfIsObjptr f) (root_list e) w"
proof -
  have "foreach_slots g (array_of a n 0) v = Some v" for g :: "'a foreachObjptrFun" and a n v by (simp add: array_of_def)
  then show ?thesis
    using assms by (simp add: foreachGlobalObjptrInScope_def proc_objptrs_def root_list_def Let_def foreachObjptrInWBAs_def
      foreach_slots_append)
qed

text \<open>The state in which the walk over the roots starts.\<close>

definition major_start :: "fwd_env \<Rightarrow> fwd world \<Rightarrow> fwd world" where
  "major_start e w = (let to = secondaryLocalHeap (fgc w) in
    on_fwd (\<lambda>s. s\<lparr>amInMinorGC := False, toStart := h_start to, toLimit := h_start to + h_size to,
      forceStackForwarding := False, fwd_back := alignFrontier (alignment (fstatic e)) (h_start to)\<rparr>) w)"

definition renamed :: "pointer set \<Rightarrow> (pointer \<Rightarrow> pointer) \<Rightarrow> objptr \<Rightarrow> objptr" where
  "renamed F \<phi> v = (if v \<in> F then \<phi> v else v)"

text \<open>The memory \<open>m\<close> holds at \<open>\<phi> p\<close> a copy of every reachable object \<open>p\<close>, in which the pointers are
  renamed, as they are in the roots. The copies do not overlap and fill the start of the to-space.\<close>

definition graph_copied :: "fwd_env \<Rightarrow> fwd world \<Rightarrow> pointer set \<Rightarrow> pointer list \<Rightarrow> (pointer \<Rightarrow> pointer) \<Rightarrow> mem \<Rightarrow> bool" where
  "graph_copied e w0 F R \<phi> m \<longleftrightarrow>
    (\<forall>r\<in>set R. load64 m r = renamed F \<phi> (load64 (wmem w0) r)) \<and>
    (\<forall>p\<in>reachable e w0 F R.
      (\<forall>i<bytes_of (lay e w0 p). (\<forall>k\<in>set (ptrs (lay e w0 p)). i < hb (lay e w0 p) + k \<or> hb (lay e w0 p) + k + 8 \<le> i) \<longrightarrow>
        m (\<phi> p - of_nat (hb (lay e w0 p)) + of_nat i) = wmem w0 (p - of_nat (hb (lay e w0 p)) + of_nat i)) \<and>
      (\<forall>k\<in>set (ptrs (lay e w0 p)). load64 m (\<phi> p + of_nat k) = renamed F \<phi> (load64 (wmem w0) (p + of_nat k)))) \<and>
    (\<forall>p\<in>reachable e w0 F R. \<forall>p'\<in>reachable e w0 F R. p \<noteq> p' \<longrightarrow>
      disjnt_regions (\<phi> p - of_nat (hb (lay e w0 p))) (bytes_of (lay e w0 p))
        (\<phi> p' - of_nat (hb (lay e w0 p'))) (bytes_of (lay e w0 p'))) \<and>
    (\<forall>p\<in>reachable e w0 F R. off (to_space w0) (\<phi> p - of_nat (hb (lay e w0 p))) + bytes_of (lay e w0 p) \<le>
      (\<Sum>p\<in>reachable e w0 F R. bytes_of (lay e w0 p))) \<and>
    (\<forall>x. (\<forall>p\<in>F. bytes_of (lay e w0 p) \<le> off (foot e w0 p) x) \<and> capacity e w0 F \<le> off (to_space w0) x \<and>
      (\<forall>r\<in>set R. 8 \<le> off r x) \<longrightarrow> m x = wmem w0 x)"

lemma graph_copiedD:
  assumes "graph_copied e w0 F R \<phi> m"
  shows "r \<in> set R \<Longrightarrow> load64 m r = renamed F \<phi> (load64 (wmem w0) r)"
    "p \<in> reachable e w0 F R \<Longrightarrow> k \<in> set (ptrs (lay e w0 p)) \<Longrightarrow>
      load64 m (\<phi> p + of_nat k) = renamed F \<phi> (load64 (wmem w0) (p + of_nat k))"
    "p \<in> reachable e w0 F R \<Longrightarrow> p' \<in> reachable e w0 F R \<Longrightarrow> p \<noteq> p' \<Longrightarrow>
      disjnt_regions (\<phi> p - of_nat (hb (lay e w0 p))) (bytes_of (lay e w0 p))
        (\<phi> p' - of_nat (hb (lay e w0 p'))) (bytes_of (lay e w0 p'))"
  using assms unfolding graph_copied_def by blast+

lemma copied_reachable:
  assumes ok: "heap_ok e w0 F R" and c: "copying e w0 F R ps (scanned e w0 R ps) w"
  shows "set ps = reachable e w0 F R"
proof
  show "reachable e w0 F R \<subseteq> set ps"
  proof
    fix p assume "p \<in> reachable e w0 F R"
    then show "p \<in> set ps"
    proof induction
      case (reach_root r)
      then have "(r, load64 (wmem w0) r) \<in> slots e w0 R ps" by (auto simp: slots_def)
      then show ?case using copyingD(12) [OF c] reach_root by force
    next
      case (reach_object p i)
      then have s: "(new_at (lay e w0) (to_space w0) ps p + of_nat i, load64 (wmem w0) (p + of_nat i)) \<in> slots e w0 R ps"
        unfolding slots_def by blast
      show ?case using copyingD(12) [OF c s] s reach_object(3) by force
    qed
  qed
qed (rule copyingD(3) [OF c])

lemma copying_graph:
  assumes ok: "heap_ok e w0 F R" and c: "copying e w0 F R ps (scanned e w0 R ps) w"
  shows "graph_copied e w0 F R (new_at (lay e w0) (to_space w0) ps) (wmem w)"
proof -
  let ?\<phi> = "new_at (lay e w0) (to_space w0) ps"
  note ps = copyingD(1,2) [OF c]
  have slot: "load64 (wmem w) x = renamed F ?\<phi> v" if "(x, v) \<in> slots e w0 R ps" for x v
    using copyingD(11) [OF c that] that by (force simp: renamed_def)
  have foot: "?\<phi> p - of_nat (hb (lay e w0 p)) = to_space w0 + of_nat (pos (lay e w0) ps p)" for p
    by (simp add: new_at_def)
  have le: "pos (lay e w0) ps p + bytes_of (lay e w0 p) \<le> capacity e w0 F" if "p \<in> set ps" for p
    using pos_le [OF that, of "lay e w0"] capacity_le [OF ok ps] by simp
  have sum: "(\<Sum>p\<in>set ps. bytes_of (lay e w0 p)) = total (lay e w0) ps"
    unfolding total_def using ps(1) by (simp add: sum_list_distinct_conv_sum_set)
  show ?thesis
    unfolding graph_copied_def copied_reachable [OF ok c, symmetric] foot
  proof (intro conjI ballI allI impI)
    show "load64 (wmem w) r = renamed F ?\<phi> (load64 (wmem w0) r)" if "r \<in> set R" for r
      using that by (intro slot) (auto simp: slots_def)
    show "load64 (wmem w) (?\<phi> p + of_nat k) = renamed F ?\<phi> (load64 (wmem w0) (p + of_nat k))"
      if "p \<in> set ps" "k \<in> set (ptrs (lay e w0 p))" for p k
      using that by (intro slot) (auto simp: slots_def)
    show "wmem w (to_space w0 + of_nat (pos (lay e w0) ps p) + of_nat i) = wmem w0 (p - of_nat (hb (lay e w0 p)) + of_nat i)"
      if "p \<in> set ps" "i < bytes_of (lay e w0 p)"
        "\<forall>k\<in>set (ptrs (lay e w0 p)). i < hb (lay e w0 p) + k \<or> hb (lay e w0 p) + k + 8 \<le> i" for p i
      using copyingD(10) [OF c that(1,2)] that(3) by (simp add: foot_def add.assoc)
    show "disjnt_regions (to_space w0 + of_nat (pos (lay e w0) ps p)) (bytes_of (lay e w0 p))
        (to_space w0 + of_nat (pos (lay e w0) ps p')) (bytes_of (lay e w0 p'))"
      if p: "p \<in> set ps" "p' \<in> set ps" "p \<noteq> p'" for p p'
    proof -
      have "pos (lay e w0) ps p + bytes_of (lay e w0 p) \<le> 2 ^ 64" "pos (lay e w0) ps p' + bytes_of (lay e w0 p') \<le> 2 ^ 64"
        using le p(1,2) capacity_less [OF ok] by fastforce+
      moreover have "0 < bytes_of (lay e w0 p)" "0 < bytes_of (lay e w0 p')" using objectD(2) [OF ok] p ps by fastforce+
      ultimately show ?thesis
        using pos_apart [OF p, of "lay e w0"] by (elim disjE) (simp_all only: disjnt_offsets)
    qed
    show "off (to_space w0) (to_space w0 + of_nat (pos (lay e w0) ps p)) + bytes_of (lay e w0 p) \<le> (\<Sum>p\<in>set ps. bytes_of (lay e w0 p))"
      if "p \<in> set ps" for p
      using pos_le [OF that, of "lay e w0"] le [OF that] capacity_less [OF ok] unfolding sum by (simp add: unat_of_nat_small)
    show "wmem w x = wmem w0 x"
      if "(\<forall>p\<in>F. bytes_of (lay e w0 p) \<le> off (foot e w0 p) x) \<and> capacity e w0 F \<le> off (to_space w0) x \<and> (\<forall>r\<in>set R. 8 \<le> off r x)" for x
      using copyingD(13) [OF c, of x] that by blast
  qed
qed

lemma collect_graph:
  assumes ok: "heap_ok e w0 F (root_list e)" and d: "danglingSize (own_roots e) = 0"
  shows "\<exists>w1 w2 \<phi>. foreachGlobalObjptrInScope e (forwardObjptrIfInLocalHeap e) w0 = Some w1 \<and>
    foreachObjptrInRange (fenv e) (forwardObjptrIfInLocalHeap e) skipWeaks (\<lambda>w. fwd_back (rest w)) (to_space w0) w1 =
      Some (fwd_back (rest w2), w2) \<and> graph_copied e w0 F (root_list e) \<phi> (wmem w2) \<and>
    rest w2 = (rest w0)\<lparr>fwd_back := to_space w0 + of_nat (\<Sum>p\<in>reachable e w0 F (root_list e). bytes_of (lay e w0 p))\<rparr>"
proof -
  let ?R = "root_list e"
  have start: "copying e w0 F ?R [] {} w0"
    using heap_okD(13) [OF ok] by (auto simp: copying_def slots_def)
  have roots: "scanned e w0 ?R [] = set ?R" by (force simp: slots_def)
  have "distinct ?R"
  proof -
    have "sorted_wrt (\<lambda>r r'. disjnt_regions r 8 r' 8) xs \<Longrightarrow> distinct xs" for xs
      by (induction xs) (auto simp: disjnt_regions_def)
    then show ?thesis using heap_okD(9) [OF ok] .
  qed
  then obtain w1 qs where w1: "foreachGlobalObjptrInScope e (forwardObjptrIfInLocalHeap e) w0 = Some w1"
    "copying e w0 F ?R qs (scanned e w0 ?R []) w1"
    using call_slots [OF ok start, of ?R] roots by (auto simp: foreachGlobalObjptrInScope_slots [OF d])
  obtain w2 ps where w2: "range_loop (fenv e) (forwardObjptrIfInLocalHeap e) skipWeaks False (\<lambda>w. fwd_back (rest w))
      (to_space w0 + of_nat (total (lay e w0) qs)) (to_space w0) w1 = Some (fwd_back (rest w2), w2)"
    "copying e w0 F ?R ps (scanned e w0 ?R ps) w2"
    using scan [OF ok, of "[]" qs "[]" w1 skipWeaks] w1(2) by auto
  have "total (lay e w0) ps = (\<Sum>p\<in>reachable e w0 F ?R. bytes_of (lay e w0 p))"
    unfolding total_def copied_reachable [OF ok w2(2), symmetric] using copyingD(1) [OF w2(2)]
    by (simp add: sum_list_distinct_conv_sum_set)
  then have "rest w2 = (rest w0)\<lparr>fwd_back := to_space w0 + of_nat (\<Sum>p\<in>reachable e w0 F ?R. bytes_of (lay e w0 p))\<rparr>"
    using copyingD(5) [OF w2(2)] by simp
  moreover have "foreachObjptrInRange (fenv e) (forwardObjptrIfInLocalHeap e) skipWeaks (\<lambda>w. fwd_back (rest w)) (to_space w0) w1 =
      Some (fwd_back (rest w2), w2)"
    using w2(1) copyingD(5) [OF w1(2)] by (simp add: foreachObjptrInRange_def foreachObjptrInRangeWithFill_def)
  ultimately show ?thesis using w1(1) copying_graph [OF ok w2(2)] by blast
qed

lemma majorCheneyCopyGC_graph:
  assumes "heap_ok e (major_start e w) F (root_list e)" "danglingSize (own_roots e) = 0" "weaks (rest w) = 0"
  shows "\<exists>w' \<phi>. majorCheneyCopyGC e w = Some w' \<and> graph_copied e (major_start e w) F (root_list e) \<phi> (wmem w') \<and>
    secondaryLocalHeap (fgc w') = heap (fgc w) \<and>
    heap (fgc w') = (secondaryLocalHeap (fgc w))\<lparr>oldGenSize := to_space (major_start e w) +
      of_nat (\<Sum>p\<in>reachable e (major_start e w) F (root_list e). bytes_of (lay e (major_start e w) p)) -
      h_start (secondaryLocalHeap (fgc w))\<rparr>"
proof -
  let ?w0 = "major_start e w"
  obtain w1 w2 \<phi> where w2: "foreachGlobalObjptrInScope e (forwardObjptrIfInLocalHeap e) ?w0 = Some w1"
    "foreachObjptrInRange (fenv e) (forwardObjptrIfInLocalHeap e) True (\<lambda>w. fwd_back (rest w)) (to_space ?w0) w1 =
      Some (fwd_back (rest w2), w2)" "graph_copied e ?w0 F (root_list e) \<phi> (wmem w2)"
    "rest w2 = (rest ?w0)\<lparr>fwd_back := to_space ?w0 + of_nat (\<Sum>p\<in>reachable e ?w0 F (root_list e). bytes_of (lay e ?w0 p))\<rparr>"
    using collect_graph [OF assms(1,2), of True] by blast
  have "updateWeaksForCheneyCopy e w2 = Some (on_fwd (\<lambda>s. s\<lparr>weaks := 0\<rparr>) w2)"
    using w2(4) assms(3)
    by (subst updateWeaksForCheneyCopy_def, subst updateWeaks_loop.simps) (simp add: major_start_def Let_def)
  moreover have "to_space ?w0 = alignFrontier (alignment (fstatic e)) (h_start (secondaryLocalHeap (fgc w)))"
    by (simp add: major_start_def Let_def)
  moreover define w3 where "w3 = on_gc swapHeapsForCheneyCopy (on_gc (\<lambda>s. s\<lparr>secondaryLocalHeap :=
      (secondaryLocalHeap s)\<lparr>oldGenSize := fwd_back (rest w2) - h_start (secondaryLocalHeap s)\<rparr>\<rparr>) (on_fwd (\<lambda>s. s\<lparr>weaks := 0\<rparr>) w2))"
  ultimately have "majorCheneyCopyGC e w = Some w3"
    using w2(1,2) unfolding majorCheneyCopyGC_def by (simp add: major_start_def Let_def)
  moreover have "fgc w2 = fgc w" using w2(4) by (simp add: major_start_def Let_def)
  then have "wmem w3 = wmem w2" "secondaryLocalHeap (fgc w3) = heap (fgc w)"
    "heap (fgc w3) = (secondaryLocalHeap (fgc w))\<lparr>oldGenSize := fwd_back (rest w2) - h_start (secondaryLocalHeap (fgc w))\<rparr>"
    unfolding w3_def by (simp_all add: swapHeapsForCheneyCopy_def setCardMapAbsolute_def)
  moreover have "fwd_back (rest w2) = to_space ?w0 + of_nat (\<Sum>p\<in>reachable e ?w0 F (root_list e). bytes_of (lay e ?w0 p))"
    unfolding w2(4) by simp
  ultimately show ?thesis using w2(3) by metis
qed

text \<open>C2: A major copying collection of a local heap of normal objects and arrays returns, and moves
  the graph of the objects reachable from the roots to the other semispace: every one of them has
  one copy, no two copies overlap, all words but the pointers are copied as they are, and the
  pointers in the copies and in the roots lead to the copies of what they led to. The old
  generation then holds exactly the reachable objects, the two semispaces have changed
  places, and no other byte of memory changes.\<close>

theorem majorCheneyCopyGC_correct:
  assumes "heap_ok e (major_start e w) F (root_list e)" "danglingSize (own_roots e) = 0" "weaks (rest w) = 0"
  shows "\<exists>w' \<phi>. majorCheneyCopyGC e w = Some w' \<and> graph_copied e (major_start e w) F (root_list e) \<phi> (wmem w') \<and>
    secondaryLocalHeap (fgc w') = heap (fgc w) \<and>
    heap (fgc w') = (secondaryLocalHeap (fgc w))\<lparr>oldGenSize := to_space (major_start e w) +
      of_nat (\<Sum>p\<in>reachable e (major_start e w) F (root_list e). bytes_of (lay e (major_start e w) p)) -
      h_start (secondaryLocalHeap (fgc w))\<rparr>"
  by (rule majorCheneyCopyGC_graph [OF assms])

section \<open>Witness\<close>

text \<open>Three cells of two words: the first two lead to each other, the third is garbage.\<close>

definition demo_cell_static :: gc_static where
  "demo_cell_static = demo_static\<lparr>objectTypes :=
    [\<lparr> tag = NORMAL_TAG, hasIdentity = True, bytesNonObjptrs = 0, numObjptrs = 2,
      hasIdentityTransitive = True, isUnbounded = False \<rparr>]\<rparr>"

definition demo_cell_mem :: mem where
  "demo_cell_mem = store64 (store64 (store64 (store64 (store64 (store64 (store64 (store64 (\<lambda>_. 0) 4096 1) 4104 4128) 4112 4104)
    4120 1) 4128 4104) 4136 3) 4144 1) 16384 4104"

definition demo_fwd_env :: fwd_env where
  "demo_fwd_env = \<lparr> fenv = demo_env\<lparr>static := demo_cell_static\<rparr>, globals_array = 0, globalsLength = 0,
     proc_roots = [\<lparr> callFromCHandlerThread_slot = 16384, currentThread_slot = 16392, savedThread_slot = 16400,
       signalHandlerThread_slot = 16408, savedClosure_slot = 16416, pacmlThreadId_slot = 16424, liftingObject_slot = 16432,
       roots_array = 0, rootsLength = 0, dangling_array = 0, danglingSize = 0, moveOnWBA_array = 0, moveOnWBASize = 0,
       preemptOnWBA_array = 0, preemptOnWBASize = 0, spawnOnWBA_array = 0, spawnOnWBASize = 0, scheduler_keys = [] \<rparr>],
     fratios = demo_ratios, procId = 0 \<rparr>"

definition demo_fwd_world :: "fwd world" where
  "demo_fwd_world = \<lparr> wmem = demo_cell_mem, rangeListCurrent = [],
     rest = \<lparr> fmach = demo_machine\<lparr>gcs := demo_state\<lparr>secondaryLocalHeap := demo_heap LOCAL_HEAP 8192 1024\<rparr>\<rparr>,
       amInMinorGC = True, fwd_back = 0, toStart = 0, toLimit = 0, forceStackForwarding = True, copyImmutable = False,
       weaks = 0, copyObjectMap = Map.empty \<rparr> \<rparr>"

lemma demo_cell_loads:
  "load64 demo_cell_mem 4096 = 1" "load64 demo_cell_mem 4104 = 4128" "load64 demo_cell_mem 4112 = 4104"
  "load64 demo_cell_mem 4120 = 1" "load64 demo_cell_mem 4128 = 4104" "load64 demo_cell_mem 4136 = 3"
  "load64 demo_cell_mem 4144 = 1" "load64 demo_cell_mem 4152 = 0" "load64 demo_cell_mem 4160 = 0"
  "load64 demo_cell_mem 16384 = 4104" "load64 demo_cell_mem 16392 = 0" "load64 demo_cell_mem 16400 = 0"
  "load64 demo_cell_mem 16408 = 0" "load64 demo_cell_mem 16416 = 0" "load64 demo_cell_mem 16424 = 0"
  "load64 demo_cell_mem 16432 = 0"
  by (simp_all add: demo_cell_mem_def load64_store64_disjnt disjnt_regions_def demo_zero_load)

abbreviation "demo_start \<equiv> major_start demo_fwd_env demo_fwd_world"

lemma demo_start_fields:
  "wmem demo_start = demo_cell_mem" "to_space demo_start = 8192" "toLimit (rest demo_start) = 9216"
  "heap (fgc demo_start) = demo_heap LOCAL_HEAP 4096 1024" "rangeListCurrent demo_start = []"
  "fstatic demo_fwd_env = demo_cell_static"
  by (simp_all add: major_start_def Let_def demo_fwd_world_def demo_fwd_env_def demo_state_def demo_heap_def demo_cell_static_def
      demo_static_def alignFrontier_def alignWithExtra_def align_def header_sizes demo_env_def)

lemma demo_cell_layout:
  assumes "p \<in> {4104, 4128, 4152}"
  shows "layout_of demo_cell_static demo_cell_mem p = Some \<lparr> hb = 8, bb = 16, ptrs = [0, 8] \<rparr>"
  using assms by (auto simp: layout_of_def getHeader_def getHeaderp_def header_sizes demo_cell_loads splitHeader_def
    objectTypeIndex_eq demo_cell_static_def elementBytes_def OBJPTR_SIZE_def upt_rec)

lemma demo_roots: "root_list demo_fwd_env = [16384, 16392, 16400, 16408, 16416, 16424, 16432]"
  by (simp add: root_list_def demo_fwd_env_def array_of_def)

lemma demo_outside:
  assumes "k < 72" "4 dvd k"
  shows "\<not> isObjptrInFromSpace (fgc demo_start) (demo_heap LOCAL_HEAP 4096 1024) (8192 + of_nat k)"
proof -
  have "unat (of_nat k :: u64) = k" using assms by (intro unat_of_nat_small) simp
  moreover from this have "unat (8192 + of_nat k :: u64) = 8192 + k" using assms unat_step [of 8192 k] by simp
  ultimately show ?thesis
    using assms by (simp add: isObjptrInFromSpace_def isObjptrInOldGen_def isObjptrInNursery_def isPointerInOldGen_def
      isPointerInNursery_def isObjptr_eq isPointer_isObjptr demo_start_fields demo_heap_def word_le_nat_alt word_less_nat_alt
      major_start_def Let_def demo_fwd_world_def demo_state_def)
qed

abbreviation "demo_objects \<equiv> {4104, 4128, 4152} :: pointer set"

lemma demo_object_ok:
  "p \<in> demo_objects \<Longrightarrow> object_ok demo_cell_static demo_cell_mem p (the (layout_of demo_cell_static demo_cell_mem p))"
proof -
  assume p: "p \<in> demo_objects"
  have "getHeader demo_cell_mem p = 1" "load64 demo_cell_mem (p - 8) = 1"
    using p by (auto simp: getHeader_def getHeaderp_def header_sizes demo_cell_loads)
  then show ?thesis
    unfolding object_ok_def demo_cell_layout [OF p] array_fits_def
    by (simp add: splitHeader_def objectTypeIndex_eq demo_cell_static_def GC_FORWARDED_def LIFT_MASK_def advanceToObjectData_def
      header_sizes)
qed

lemma demo_regions:
  "\<forall>p\<in>demo_objects. \<forall>p'\<in>demo_objects. p \<noteq> p' \<longrightarrow> disjnt_regions (p - 8) 24 (p' - 8) 24"
  "\<forall>p\<in>demo_objects. disjnt_regions (p - 8) 24 8192 72"
  "\<forall>r\<in>set (root_list demo_fwd_env). disjnt_regions r 8 8192 72"
  "sorted_wrt (\<lambda>r r'. disjnt_regions r 8 r' 8) (root_list demo_fwd_env)"
  "\<forall>p\<in>demo_objects. \<forall>r\<in>set (root_list demo_fwd_env). disjnt_regions (p - 8) 24 r 8"
  by (simp_all add: disjnt_regions_def demo_roots)

lemma demo_heap_ok: "heap_ok demo_fwd_env demo_start demo_objects (root_list demo_fwd_env)"
proof -
  have l: "lay demo_fwd_env demo_start p = \<lparr> hb = 8, bb = 16, ptrs = [0, 8] \<rparr>" if "p \<in> demo_objects" for p
    using demo_cell_layout [OF that] by (simp add: demo_start_fields)
  have f: "foot demo_fwd_env demo_start p = p - 8" if "p \<in> demo_objects" for p using l [OF that] by (simp add: foot_def)
  have c: "capacity demo_fwd_env demo_start demo_objects = 72" by (simp add: capacity_def l)
  show ?thesis
    unfolding heap_ok_def
  proof (intro conjI ballI allI impI)
    fix p assume p: "p \<in> demo_objects"
    show "object_ok (fstatic demo_fwd_env) (wmem demo_start) p (lay demo_fwd_env demo_start p)"
      using demo_object_ok [OF p] by (simp add: demo_start_fields)
    show "isObjptr p" "isPointerInHeap (heap (fgc demo_start)) p"
      using p by (auto simp: isObjptr_eq isPointerInHeap_def demo_heap_def demo_start_fields)
    show "disjnt_regions (foot demo_fwd_env demo_start p) (bytes_of (lay demo_fwd_env demo_start p)) (to_space demo_start)
        (capacity demo_fwd_env demo_start demo_objects)"
      using p demo_regions(2) unfolding f [OF p] l [OF p] c demo_start_fields(2) by auto
    show "disjnt_regions (foot demo_fwd_env demo_start p) (bytes_of (lay demo_fwd_env demo_start p)) r 8"
      if "r \<in> set (root_list demo_fwd_env)" for r
      using p demo_regions(5) that unfolding f [OF p] l [OF p] by auto
    show "disjnt_regions (foot demo_fwd_env demo_start p) (bytes_of (lay demo_fwd_env demo_start p))
        (foot demo_fwd_env demo_start q) (bytes_of (lay demo_fwd_env demo_start q))" if "q \<in> demo_objects" "p \<noteq> q" for q
      using demo_regions(1) p that unfolding f [OF p] l [OF p] f [OF that(1)] l [OF that(1)] by auto
    show "load64 (wmem demo_start) (p + of_nat i) \<in> demo_objects"
      if "i \<in> set (ptrs (lay demo_fwd_env demo_start p))"
        "isObjptr (load64 (wmem demo_start) (p + of_nat i)) \<and> isPointerInHeap (heap (fgc demo_start)) (load64 (wmem demo_start) (p + of_nat i))" for i
      using p that unfolding l [OF p] unfolding demo_start_fields
      by (auto simp: demo_cell_loads isPointerInHeap_def isPointer_isObjptr isObjptr_eq demo_heap_def)
  next
    fix r assume "r \<in> set (root_list demo_fwd_env)" 
    then show "isObjptr (load64 (wmem demo_start) r) \<and> isPointerInHeap (heap (fgc demo_start)) (load64 (wmem demo_start) r) \<Longrightarrow>
        load64 (wmem demo_start) r \<in> demo_objects"
      "disjnt_regions r 8 (to_space demo_start) (capacity demo_fwd_env demo_start demo_objects)"
      using demo_regions(3) unfolding c unfolding demo_start_fields
      by (auto simp: demo_roots demo_cell_loads isPointerInHeap_def isPointer_isObjptr isObjptr_eq demo_heap_def)
  next
    fix k assume "k < capacity demo_fwd_env demo_start demo_objects" "4 dvd k"
    then show "\<not> isObjptrInFromSpace (fgc demo_start) (heap (fgc demo_start)) (to_space demo_start + of_nat k)"
      unfolding c using demo_outside [of k] by (simp only: demo_start_fields not_False_eq_True)
  qed (simp_all add: demo_regions(4) demo_start_fields c isObjptr_eq)
qed

lemma majorCheneyCopyGC_correct_witness:
  "\<exists>w' \<phi>. majorCheneyCopyGC demo_fwd_env demo_fwd_world = Some w' \<and> load64 (wmem w') 16384 = \<phi> 4104 \<and>
    load64 (wmem w') (\<phi> 4104) = \<phi> (4128 :: pointer) \<and> load64 (wmem w') (\<phi> 4128) = \<phi> 4104 \<and>
    load64 (wmem w') (\<phi> 4128 + 8) = 3 \<and> disjnt_regions (\<phi> 4104 - 8) 24 (\<phi> 4128 - 8) 24 \<and>
    h_start (heap (fgc w')) = 8192"
proof -
  let ?F = "{4104, 4128, 4152} :: pointer set"
  let ?R = "root_list demo_fwd_env"
  have "danglingSize (own_roots demo_fwd_env) = 0" "weaks (rest demo_fwd_world) = 0"
    by (simp_all add: demo_fwd_env_def demo_fwd_world_def)
  from majorCheneyCopyGC_correct [OF demo_heap_ok this]
  obtain w' \<phi> where w': "majorCheneyCopyGC demo_fwd_env demo_fwd_world = Some w'"
    "graph_copied demo_fwd_env demo_start ?F ?R \<phi> (wmem w')"
    "heap (fgc w') = (secondaryLocalHeap (fgc demo_fwd_world))\<lparr>oldGenSize := to_space demo_start +
      of_nat (\<Sum>p\<in>reachable demo_fwd_env demo_start ?F ?R. bytes_of (lay demo_fwd_env demo_start p)) -
      h_start (secondaryLocalHeap (fgc demo_fwd_world))\<rparr>"
    by blast
  have a: "4104 \<in> reachable demo_fwd_env demo_start ?F ?R"
    using reach_root [of 16384 ?R demo_start ?F demo_fwd_env] by (simp add: demo_roots demo_start_fields demo_cell_loads)
  then have b: "4128 \<in> reachable demo_fwd_env demo_start ?F ?R"
    using reach_object [OF a, of 0] by (simp add: demo_start_fields demo_cell_layout demo_cell_loads)
  have l: "lay demo_fwd_env demo_start p = \<lparr> hb = 8, bb = 16, ptrs = [0, 8] \<rparr>" if "p \<in> ?F" for p
    using demo_cell_layout [OF that] by (simp add: demo_start_fields)
  note copy = graph_copiedD [OF w'(2)]
  have root: "load64 (wmem w') 16384 = \<phi> 4104"
    using copy(1) [of 16384] by (simp add: demo_roots demo_start_fields demo_cell_loads renamed_def)
  have ab: "load64 (wmem w') (\<phi> 4104) = \<phi> 4128" 
    using copy(2) [OF a, of 0] by (simp add: demo_start_fields demo_cell_layout demo_cell_loads renamed_def)
  have ba: "load64 (wmem w') (\<phi> 4128) = \<phi> 4104" "load64 (wmem w') (\<phi> 4128 + 8) = 3"
    using copy(2) [OF b, of 0] copy(2) [OF b, of 8] by (simp_all add: demo_start_fields demo_cell_layout demo_cell_loads renamed_def)
  have apart: "disjnt_regions (\<phi> 4104 - 8) 24 (\<phi> 4128 - 8) 24"
    using copy(3) [OF a b] by (simp add: l)
  have "h_start (secondaryLocalHeap (fgc demo_fwd_world)) = 8192"
    by (simp add: demo_fwd_world_def demo_heap_def)
  then have "h_start (heap (fgc w')) = 8192" using w'(3) by simp
  then show ?thesis using w'(1) root ab ba apart by blast
qed

end
