(* ===== verification/Thread_Chain.thy ===== *)
theory Thread_Chain
  imports Mark_Compact Cheney_Graph
begin

text \<open>
  Threading: the chain of slots at the header of an object, and what threading one slot and
  unthreading one object do to the chains of all objects.
\<close>

section \<open>Chains\<close>

text \<open>The word at \<open>x\<close> leads through the slots \<open>cs\<close> to the header \<open>h\<close>.\<close>

primrec threaded :: "mem \<Rightarrow> pointer \<Rightarrow> pointer list \<Rightarrow> GC_header \<Rightarrow> bool" where
  "threaded m x [] h \<longleftrightarrow> load64 m x = h"
| "threaded m x (c # cs) h \<longleftrightarrow> load64 m x = c \<and> threaded m c cs h"

lemma threaded_cong:
  "threaded m x cs h \<Longrightarrow> load64 m' x' = load64 m x \<Longrightarrow> (\<And>c. c \<in> set cs \<Longrightarrow> load64 m' c = load64 m c) \<Longrightarrow> threaded m' x' cs h"
  by (induction cs arbitrary: x x') auto

lemma threaded_first: "threaded m x cs h \<Longrightarrow> load64 m x = (case cs of [] \<Rightarrow> h | c # _ \<Rightarrow> c)"
  by (cases cs) simp_all

lemma unthread_chain:
  assumes "threaded m x (c # cs) h" "distinct (c # cs)" "\<And>y. y \<in> set (c # cs) \<Longrightarrow> disjnt_regions x 8 y 8 \<and> y AND 1 = 0"
    "\<And>y z. y \<in> set (c # cs) \<Longrightarrow> z \<in> set (c # cs) \<Longrightarrow> y \<noteq> z \<Longrightarrow> disjnt_regions y 8 z 8" "h AND 1 \<noteq> 0"
  shows "\<exists>m'. unthread B v x m = Some m' \<and> load64 m' x = h \<and> (\<forall>y\<in>set (c # cs). load64 m' y = v) \<and>
    (\<forall>z. 8 \<le> off x z \<and> (\<forall>y\<in>set (c # cs). 8 \<le> off y z) \<longrightarrow> m' z = m z)"
  using assms
proof (induction cs arbitrary: m c)
  case Nil
  define m1 where "m1 = store64 (store64 m x (load64 m c)) c v"
  have d: "disjnt_regions x 8 c 8" "disjnt_regions c 8 x 8" using Nil.prems(3) by (auto simp: disjnt_sym)
  then have l: "load64 m1 x = h" using Nil.prems(1) by (simp add: m1_def load64_store64_disjnt)
  have "unthread B v x m = Some m1"
    using Nil.prems l by (subst unthread.simps) (simp add: copyForThreadInternal_def Let_def m1_def)
  moreover have "m1 z = m z" if "8 \<le> off x z" "8 \<le> off c z" for z
    using that by (simp add: m1_def store64_other)
  ultimately show ?case using l by (auto simp: m1_def)
next
  case (Cons c' cs)
  define m1 where "m1 = store64 (store64 m x (load64 m c)) c v"
  have d: "disjnt_regions x 8 y 8" "disjnt_regions y 8 x 8" if "y \<in> set (c # c' # cs)" for y
    using Cons.prems(3) [OF that] disjnt_sym [of x 8 y 8] by blast+
  have lx: "load64 m1 x = c'" using Cons.prems(1) d(2) [of c] by (simp add: m1_def load64_store64_disjnt)
  have ly: "load64 m1 y = load64 m y" if "y \<in> set (c' # cs)" for y
  proof -
    have "disjnt_regions c 8 y 8" using Cons.prems(2,4) that by auto
    then show ?thesis using d [of y] that by (simp add: m1_def load64_store64_disjnt)
  qed
  have t: "threaded m1 x (c' # cs) h"
    using Cons.prems(1) lx ly [of c'] by (auto intro!: threaded_cong [of m c' cs h] ly)
  obtain m' where m': "unthread B v x m1 = Some m'" "load64 m' x = h" "\<forall>y\<in>set (c' # cs). load64 m' y = v"
      "\<forall>z. 8 \<le> off x z \<and> (\<forall>y\<in>set (c' # cs). 8 \<le> off y z) \<longrightarrow> m' z = m1 z"
    using Cons.IH [OF t] Cons.prems by auto
  have "unthread B v x m = Some m'"
    using Cons.prems(1,3) lx m'(1) by (subst unthread.simps) (simp add: copyForThreadInternal_def Let_def m1_def)
  moreover have "load64 m' c = load64 m1 c"
  proof (rule load64_cong)
    fix i :: nat assume "i < 8"
    then have "off c (c + of_nat i) < 8" by (simp add: unat_of_nat_small)
    then have "8 \<le> off x (c + of_nat i)" "\<And>y. y \<in> set (c' # cs) \<Longrightarrow> 8 \<le> off y (c + of_nat i)"
      using d(1) [of c] Cons.prems(2,4) disjnt_off [of _ 8 c 8 "c + of_nat i"] by auto
    then show "m' (c + of_nat i) = m1 (c + of_nat i)" using m'(4) by blast
  qed
  moreover have "m' z = m z" if "8 \<le> off x z" "\<forall>y\<in>set (c # c' # cs). 8 \<le> off y z" for z
    using that m'(4) by (simp add: m1_def store64_other)
  ultimately show ?case using m' by (auto simp: m1_def)
qed

section \<open>All chains\<close>

text \<open>The objects \<open>A\<close> and the slots \<open>S\<close> that are in their old places.\<close>

definition words_ok :: "pointer set \<Rightarrow> pointer set \<Rightarrow> bool" where
  "words_ok A S \<longleftrightarrow> (\<forall>p\<in>A. \<forall>q\<in>A. p \<noteq> q \<longrightarrow> disjnt_regions (p - 8) 8 (q - 8) 8) \<and>
    (\<forall>p\<in>A. \<forall>c\<in>S. disjnt_regions (p - 8) 8 c 8) \<and> (\<forall>c\<in>S. \<forall>d\<in>S. c \<noteq> d \<longrightarrow> disjnt_regions c 8 d 8) \<and>
    (\<forall>c\<in>S. c AND 1 = 0)"

text \<open>The memory \<open>m0\<close> from before threading has become \<open>m\<close>: \<open>ch p\<close> is the chain at \<open>p\<close>, and the
  slots \<open>D\<close> have their final values, by \<open>N\<close>.\<close>

definition threading ::
    "pointer set \<Rightarrow> pointer set \<Rightarrow> (pointer \<Rightarrow> pointer) \<Rightarrow> mem \<Rightarrow> (pointer \<Rightarrow> pointer list) \<Rightarrow> pointer set \<Rightarrow> mem \<Rightarrow> bool" where
  "threading A S N m0 ch D m \<longleftrightarrow>
    (\<forall>p\<in>A. threaded m (p - 8) (ch p) (load64 m0 (p - 8)) \<and> distinct (ch p) \<and>
      (\<forall>c\<in>set (ch p). c \<in> S \<and> load64 m0 c = p \<and> c \<notin> D)) \<and>
    (\<forall>c\<in>S. c \<in> D \<longrightarrow> load64 m c = N (load64 m0 c)) \<and>
    (\<forall>c\<in>S. c \<notin> D \<and> (load64 m0 c \<in> A \<longrightarrow> c \<notin> set (ch (load64 m0 c))) \<longrightarrow> load64 m c = load64 m0 c)"

lemma threadingD:
  assumes "threading A S N m0 ch D m"
  shows "p \<in> A \<Longrightarrow> threaded m (p - 8) (ch p) (load64 m0 (p - 8))" "p \<in> A \<Longrightarrow> distinct (ch p)"
    "p \<in> A \<Longrightarrow> c \<in> set (ch p) \<Longrightarrow> c \<in> S \<and> load64 m0 c = p \<and> c \<notin> D"
    "c \<in> S \<Longrightarrow> c \<in> D \<Longrightarrow> load64 m c = N (load64 m0 c)"
    "c \<in> S \<Longrightarrow> c \<notin> D \<Longrightarrow> (load64 m0 c \<in> A \<Longrightarrow> c \<notin> set (ch (load64 m0 c))) \<Longrightarrow> load64 m c = load64 m0 c"
  using assms unfolding threading_def by blast+

lemma words_okD:
  assumes "words_ok A S"
  shows "p \<in> A \<Longrightarrow> q \<in> A \<Longrightarrow> p \<noteq> q \<Longrightarrow> disjnt_regions (p - 8) 8 (q - 8) 8"
    "p \<in> A \<Longrightarrow> c \<in> S \<Longrightarrow> disjnt_regions (p - 8) 8 c 8"
    "c \<in> S \<Longrightarrow> d \<in> S \<Longrightarrow> c \<noteq> d \<Longrightarrow> disjnt_regions c 8 d 8" "c \<in> S \<Longrightarrow> c AND 1 = 0"
  using assms unfolding words_ok_def by blast+

text \<open>The chains read only the headers and the slots.\<close>

lemma threading_cong:
  assumes t: "threading A S N m0 ch D m" and h: "\<And>p. p \<in> A \<Longrightarrow> load64 m' (p - 8) = load64 m (p - 8)"
    and s: "\<And>c. c \<in> S \<Longrightarrow> load64 m' c = load64 m c"
  shows "threading A S N m0 ch D m'"
  unfolding threading_def
proof (intro conjI ballI impI)
  fix p assume p: "p \<in> A"
  show "threaded m' (p - 8) (ch p) (load64 m0 (p - 8))"
    by (rule threaded_cong [OF threadingD(1) [OF t p] h [OF p]]) (use threadingD(3) [OF t p] s in blast)
  show "distinct (ch p)" by (rule threadingD(2) [OF t p])
next
  fix p c assume "p \<in> A" "c \<in> set (ch p)"
  then show "c \<in> S" "load64 m0 c = p" "c \<notin> D" using threadingD(3) [OF t] by blast+
next
  fix c assume "c \<in> S" "c \<in> D" then show "load64 m' c = N (load64 m0 c)" using s threadingD(4) [OF t] by simp
next
  fix c assume "c \<in> S" "c \<notin> D \<and> (load64 m0 c \<in> A \<longrightarrow> c \<notin> set (ch (load64 m0 c)))"
  then show "load64 m' c = load64 m0 c" using s threadingD(5) [OF t] by simp
qed

lemma threading_start: "threading A S N m (\<lambda>_. []) {} m"
  by (simp add: threading_def)

text \<open>One slot joins a chain.\<close>

lemma thread_slot:
  assumes t: "threading A S N m0 ch D m" and w: "words_ok A S"
    and c: "c \<in> S" "load64 m0 c = p" "p \<in> A" "c \<notin> D" "c \<notin> set (ch p)"
  shows "threading A S N m0 (ch(p := c # ch p)) D (threadInternalObjptr B c m)"
    "8 \<le> off (p - 8) x \<Longrightarrow> 8 \<le> off c x \<Longrightarrow> threadInternalObjptr B c m x = m x"
proof -
  define h where "h = load64 m (p - 8)"
  have lc: "load64 m c = p" using threadingD(5) [OF t c(1,4)] c by simp
  have m': "threadInternalObjptr B c m = store64 (store64 m c h) (p - 8) c"
    by (simp add: threadInternalObjptr_def lc copyForThreadInternal_def Let_def getHeaderp_def GC_HEADER_SIZE_def h_def)
  have d: "disjnt_regions (p - 8) 8 c 8" "disjnt_regions c 8 (p - 8) 8"
    using words_okD(2) [OF w c(3,1)] by (simp_all add: disjnt_sym)
  show "8 \<le> off (p - 8) x \<Longrightarrow> 8 \<le> off c x \<Longrightarrow> threadInternalObjptr B c m x = m x"
    unfolding m' by (simp add: store64_other)
  let ?m = "store64 (store64 m c h) (p - 8) c"
  have other: "load64 ?m y = load64 m y" if "disjnt_regions (p - 8) 8 y 8" "disjnt_regions c 8 y 8" for y
    using that by (simp add: load64_store64_disjnt)
  have slot: "load64 ?m y = load64 m y" if "y \<in> S" "y \<noteq> c" for y
    using that words_okD [OF w] c(1,3) by (intro other) auto
  have head: "load64 ?m (q - 8) = load64 m (q - 8)" if "q \<in> A" "q \<noteq> p" for q
    using that words_okD [OF w] c(1,3) by (intro other) (auto simp: disjnt_sym [of c])
  show "threading A S N m0 (ch(p := c # ch p)) D (threadInternalObjptr B c m)"
    unfolding m' threading_def
  proof (intro conjI ballI impI)
    fix q assume q: "q \<in> A"
    show "threaded ?m (q - 8) ((ch(p := c # ch p)) q) (load64 m0 (q - 8))"
    proof (cases "q = p")
      case True
      have "threaded ?m c (ch p) (load64 m0 (p - 8))"
      proof (rule threaded_cong [OF threadingD(1) [OF t c(3)]])
        show "load64 ?m c = load64 m (p - 8)" using d by (simp add: load64_store64_disjnt h_def)
        show "load64 ?m y = load64 m y" if "y \<in> set (ch p)" for y
          using that c(5) threadingD(3) [OF t c(3) that] by (intro slot) auto
      qed
      then show ?thesis using True by simp
    next
      case False
      have "threaded ?m (q - 8) (ch q) (load64 m0 (q - 8))"
      proof (rule threaded_cong [OF threadingD(1) [OF t q] head [OF q False]])
        show "load64 ?m y = load64 m y" if "y \<in> set (ch q)" for y
          using threadingD(3) [OF t q that] False c(2) by (intro slot) auto
      qed
      then show ?thesis using False by simp
    qed
    show "distinct ((ch(p := c # ch p)) q)" using threadingD(2) [OF t q] c(5) by (cases "q = p") simp_all
  next
    fix q y assume "q \<in> A" "y \<in> set ((ch(p := c # ch p)) q)"
    then show "y \<in> S" "load64 m0 y = q" "y \<notin> D" using threadingD(3) [OF t, of q y] c by (auto split: if_splits)
  next
    fix y assume y: "y \<in> S" "y \<in> D"
    then show "load64 ?m y = N (load64 m0 y)" using slot [of y] threadingD(4) [OF t y] c(4) by auto
  next
    fix y assume y: "y \<in> S" "y \<notin> D \<and> (load64 m0 y \<in> A \<longrightarrow> y \<notin> set ((ch(p := c # ch p)) (load64 m0 y)))"
    then have "y \<noteq> c" using c by auto
    moreover have "load64 m y = load64 m0 y" using y by (intro threadingD(5) [OF t]) (auto split: if_splits)
    ultimately show "load64 ?m y = load64 m0 y" using slot [OF y(1)] by simp
  qed
qed

text \<open>The slots of a chain get the new address.\<close>

lemma unthread_object:
  assumes t: "threading A S N m0 ch D m" and w: "words_ok A S" and p: "p \<in> A" "ch p \<noteq> []" "load64 m0 (p - 8) AND 1 \<noteq> 0"
  shows "\<exists>m'. unthread B (N p) (p - 8) m = Some m' \<and> threading A S N m0 (ch(p := [])) (D \<union> set (ch p)) m' \<and>
    (\<forall>x. 8 \<le> off (p - 8) x \<and> (\<forall>c\<in>set (ch p). 8 \<le> off c x) \<longrightarrow> m' x = m x)"
proof -
  obtain c cs where cs: "ch p = c # cs" using p(2) by (cases "ch p") auto
  have S: "set (c # cs) \<subseteq> S" using threadingD(3) [OF t p(1)] cs by auto
  have 1: "threaded m (p - 8) (c # cs) (load64 m0 (p - 8))" using threadingD(1) [OF t p(1)] cs by simp
  have 2: "distinct (c # cs)" using threadingD(2) [OF t p(1)] cs by simp
  have 3: "disjnt_regions (p - 8) 8 y 8 \<and> y AND 1 = 0" if "y \<in> set (c # cs)" for y
    using words_okD(2,4) [OF w] p(1) S that by blast
  have 4: "disjnt_regions y 8 z 8" if "y \<in> set (c # cs)" "z \<in> set (c # cs)" "y \<noteq> z" for y z
    using words_okD(3) [OF w] S that by blast
  obtain m' where m': "unthread B (N p) (p - 8) m = Some m'" "load64 m' (p - 8) = load64 m0 (p - 8)"
      "\<forall>y\<in>set (c # cs). load64 m' y = N p"
      "\<forall>z. 8 \<le> off (p - 8) z \<and> (\<forall>y\<in>set (c # cs). 8 \<le> off y z) \<longrightarrow> m' z = m z"
    using unthread_chain [OF 1 2 3 4 p(3), of B "N p"] by blast
  have other: "load64 m' y = load64 m y" if y: "disjnt_regions (p - 8) 8 y 8" "\<And>d. d \<in> set (ch p) \<Longrightarrow> disjnt_regions d 8 y 8" for y
  proof (rule load64_cong)
    fix i :: nat assume "i < 8"
    then have "off y (y + of_nat i) < 8" by (simp add: unat_of_nat_small)
    then have "8 \<le> off (p - 8) (y + of_nat i)" "\<forall>d\<in>set (c # cs). 8 \<le> off d (y + of_nat i)"
      using y disjnt_off [of _ 8 y 8 "y + of_nat i"] cs by auto
    then show "m' (y + of_nat i) = m (y + of_nat i)" using m'(4) by blast
  qed
  have slot: "load64 m' y = load64 m y" if "y \<in> S" "y \<notin> set (ch p)" for y
    using that words_okD(2) [OF w p(1)] words_okD(3) [OF w _ that(1)] S cs by (intro other) auto
  have head: "load64 m' (q - 8) = load64 m (q - 8)" if "q \<in> A" "q \<noteq> p" for q
    using that words_okD(1) [OF w p(1) that(1)] words_okD(2) [OF w that(1)] S cs
    by (intro other) (auto simp: disjnt_sym [of "q - 8"])
  have "threading A S N m0 (ch(p := [])) (D \<union> set (ch p)) m'"
    unfolding threading_def
  proof (intro conjI ballI impI)
    fix q assume q: "q \<in> A"
    show "threaded m' (q - 8) ((ch(p := [])) q) (load64 m0 (q - 8))"
    proof (cases "q = p")
      case False
      have "threaded m' (q - 8) (ch q) (load64 m0 (q - 8))"
      proof (rule threaded_cong [OF threadingD(1) [OF t q] head [OF q False]])
        show "load64 m' y = load64 m y" if y: "y \<in> set (ch q)" for y
          using threadingD(3) [OF t q y] threadingD(3) [OF t p(1), of y] False by (intro slot) auto
      qed
      then show ?thesis using False by simp
    qed (simp add: m'(2))
    show "distinct ((ch(p := [])) q)" using threadingD(2) [OF t q] by simp
  next
    fix q y assume "q \<in> A" "y \<in> set ((ch(p := [])) q)"
    then show "y \<in> S" "load64 m0 y = q" "y \<notin> D \<union> set (ch p)"
      using threadingD(3) [OF t, of q y] threadingD(3) [OF t p(1), of y] by (auto split: if_splits)
  next
    fix y assume y: "y \<in> S" "y \<in> D \<union> set (ch p)"
    show "load64 m' y = N (load64 m0 y)"
    proof (cases "y \<in> set (ch p)")
      case True
      then show ?thesis using m'(3) cs threadingD(3) [OF t p(1)] by auto
    next
      case False
      then show ?thesis using slot [OF y(1)] threadingD(4) [OF t y(1)] y(2) by simp
    qed
  next
    fix y assume y: "y \<in> S" "y \<notin> D \<union> set (ch p) \<and> (load64 m0 y \<in> A \<longrightarrow> y \<notin> set ((ch(p := [])) (load64 m0 y)))"
    then have "load64 m y = load64 m0 y" by (intro threadingD(5) [OF t]) (auto split: if_splits)
    then show "load64 m' y = load64 m0 y" using slot [OF y(1)] y(2) by simp
  qed
  then show ?thesis using m' cs by auto
qed

end
