(* ===== verification/Compact_Heap.thy ===== *)
theory Compact_Heap
  imports Thread_Chain
begin

text \<open>
  The heap that the mark-compact collection works on: live objects one behind the other with
  gaps of dead objects between them.
\<close>

section \<open>Dead objects\<close>

abbreviation region :: "pointer \<Rightarrow> nat \<Rightarrow> pointer set" where "region x n \<equiv> {y. off x y < n}"

text \<open>A dead object of \<open>k\<close> bytes at \<open>x\<close>: it is not marked, or has been lifted, and its size depends only on
  its own bytes and those of \<open>Out\<close>, which is outside the heap.\<close>

definition dead_object :: "gc_static \<Rightarrow> pointer \<Rightarrow> pointer set \<Rightarrow> mem \<Rightarrow> pointer \<Rightarrow> nat \<Rightarrow> bool" where
  "dead_object g B Out m x k \<longleftrightarrow> 0 < k \<and> (\<forall>m'. agree (Out \<union> region x k) m m' \<longrightarrow>
    (let p = advanceToObjectData m' x; header = getHeader m' p in
     GC_VALID_HEADER_MASK AND header \<noteq> 0 \<and> (header = GC_FORWARDED \<or> MARK_MASK AND header = 0) \<and>
     sizeofObject g B m' p = Some (of_nat k)))"

inductive dead_run :: "gc_static \<Rightarrow> pointer \<Rightarrow> pointer set \<Rightarrow> mem \<Rightarrow> pointer \<Rightarrow> nat \<Rightarrow> bool" for g B Out m where
  dead_none: "dead_run g B Out m x 0"
| dead_some: "dead_object g B Out m x k \<Longrightarrow> dead_run g B Out m (x + of_nat k) n \<Longrightarrow> dead_run g B Out m x (k + n)"

lemma dead_object_agree:
  assumes "dead_object g B Out m x k" "agree (Out \<union> region x k) m m'"
  shows "dead_object g B Out m' x k"
  using assms unfolding dead_object_def by (blast intro: agree_trans)

lemma region_offset:
  assumes "k + n \<le> 2 ^ 64"
  shows "off (a + of_nat k) x < n \<longleftrightarrow> k \<le> off a x \<and> off a x < k + n"
proof (cases "k \<le> off a x")
  case True
  then show ?thesis using off_plus [of k x a] by auto
next
  case False
  define j where "j = off a x"
  have j: "x = a + of_nat j" "j < k" using False by (simp_all add: j_def)
  have "n \<le> off (a + of_nat k) x" if n: "0 < n"
  proof -
    have "disjnt_regions (a + of_nat j) 1 (a + of_nat k) n"
      using j(2) assms n by (intro disjnt_offsets) simp_all
    then show ?thesis using j(1) by (simp add: disjnt_regions_def)
  qed
  then show ?thesis using False by fastforce
qed

lemma agree_sym: "agree S m m' \<Longrightarrow> agree S m' m"
  by (simp add: agree_def)

lemma dead_run_agree:
  "dead_run g B Out m x n \<Longrightarrow> n \<le> 2 ^ 64 \<Longrightarrow> agree (Out \<union> region x n) m m' \<Longrightarrow> dead_run g B Out m' x n"
proof (induction rule: dead_run.induct)
  case (dead_some x k n)
  have "region x k \<subseteq> region x (k + n)" by auto
  moreover have "region (x + of_nat k) n \<subseteq> region x (k + n)"
    using dead_some.prems(1) by (auto simp: region_offset)
  ultimately have "agree (Out \<union> region x k) m m'" "agree (Out \<union> region (x + of_nat k) n) m m'"
    using dead_some.prems(2) by (auto simp: agree_def)
  then show ?case
    using dead_some dead_object_agree by (intro dead_run.dead_some) auto
qed (rule dead_none)

text \<open>The passes skip a run of dead objects.\<close>

lemma dead_object_header:
  assumes "dead_object g B Out m x k"
  shows "\<exists>p. advanceToObjectData m x = p \<and> GC_VALID_HEADER_MASK AND getHeader m p \<noteq> 0 \<and>
    (getHeader m p = GC_FORWARDED \<or> MARK_MASK AND getHeader m p = 0) \<and> sizeofObject g B m p = Some (of_nat k)"
  using assms agree_refl [of "Out \<union> region x k" m] unfolding dead_object_def Let_def by blast

lemma forward_dead_step:
  assumes "dead_object (fstatic e) (h_start (sharedHeap (fgc w))) Out (wmem w) x k" "compacts c"
  shows "forward_step e c (x, gap, el) w = Some ((x + of_nat k, gap + of_nat k, el), w)"
  using dead_object_header [OF assms(1)] assms(2)
  by (auto simp: forward_step_def forward_thread_def forward_dead_def Let_def)

lemma backward_dead_step:
  assumes "dead_object (fstatic e) (h_start (sharedHeap (fgc w))) Out (wmem w) x k"
  shows "backward_step e c (x, gap) w = Some ((x + of_nat k, gap + of_nat k), w)"
  using dead_object_header [OF assms(1)]
  by (auto simp: backward_step_def backward_unmark_def backward_dead_def Let_def)

lemma run_step_ends:
  assumes "\<forall>j<k + n. x + of_nat j \<noteq> (y :: pointer)" "j < n"
  shows "x + of_nat k + of_nat j \<noteq> y"
proof -
  have "k + j < k + n" using assms(2) by simp
  then have "x + of_nat (k + j) \<noteq> y" using assms(1) by blast
  then show ?thesis by (simp add: add.assoc)
qed

lemma forward_dead_run:
  "dead_run (fstatic e) (h_start (sharedHeap (fgc w))) Out (wmem w) x n \<Longrightarrow> compacts c \<Longrightarrow>
    \<forall>j<n. x + of_nat j \<noteq> y \<Longrightarrow>
    forward_pass e c y (x, gap, el) w = forward_pass e c y (x + of_nat n, gap + of_nat n, el) w"
proof (induction arbitrary: gap rule: dead_run.induct)
  case (dead_some x k n)
  have "0 < k" using dead_some.hyps(1) by (simp add: dead_object_def)
  then have "x \<noteq> y" using dead_some.prems(2) by force
  then have "forward_pass e c y (x, gap, el) w = forward_pass e c y (x + of_nat k, gap + of_nat k, el) w"
    by (subst forward_pass.simps) (simp add: forward_dead_step [OF dead_some.hyps(1) dead_some.prems(1)])
  then show ?case
    using dead_some.IH [of "gap + of_nat k"] dead_some.prems run_step_ends [OF dead_some.prems(2)]
    by (simp add: add.assoc)
qed simp

lemma backward_dead_run:
  "dead_run (fstatic e) (h_start (sharedHeap (fgc w))) Out (wmem w) x n \<Longrightarrow> \<forall>j<n. x + of_nat j \<noteq> y \<Longrightarrow>
    backward_pass e c y (x, gap) w = backward_pass e c y (x + of_nat n, gap + of_nat n) w"
proof (induction arbitrary: gap rule: dead_run.induct)
  case (dead_some x k n)
  have "0 < k" using dead_some.hyps(1) by (simp add: dead_object_def)
  then have "x \<noteq> y" using dead_some.prems(1) by force
  then have "backward_pass e c y (x, gap) w = backward_pass e c y (x + of_nat k, gap + of_nat k) w"
    by (subst backward_pass.simps) (simp add: backward_dead_step [OF dead_some.hyps(1)])
  then show ?case
    using dead_some.IH [of "gap + of_nat k"] dead_some.prems run_step_ends [OF dead_some.prems(1)]
    by (simp add: add.assoc)
qed simp

text \<open>A dead run of 32 bytes or more is compressed to one array.\<close>

lemma compress_dead_other: "n = off x z \<Longrightarrow> 32 \<le> n \<Longrightarrow> compress_dead x y m z = m z"
proof -
  assume n: "n = off x z" "32 \<le> n"
  then have "8 \<le> off (x + of_nat 8) z" "8 \<le> off (x + of_nat 16) z" "8 \<le> off x z"
    using off_plus [of 8 z x] off_plus [of 16 z x] by simp_all
  then show ?thesis
    by (simp add: compress_dead_def Let_def store64_other header_sizes add.commute [of _ x])
qed

lemma compress_dead_run:
  assumes std: "std_types g" and al: "align_arg (alignment g)" "unat (alignment g) dvd n" "unat (alignment g) \<le> 8"
    and n: "32 \<le> n" "n < 2 ^ 63"
  shows "dead_run g B Out (compress_dead x (x + of_nat n) m) x n"
proof -
  obtain ty where ty: "splitHeader (objectTypes g) GC_WORD8_VECTOR_HEADER = Some ty" "tag ty = ARRAY_TAG"
      "bytesNonObjptrs ty = 1" "numObjptrs ty = 0"
    using std by (auto simp: std_types_def)
  let ?m = "compress_dead x (x + of_nat n) m"
  have u: "unat (of_nat n :: u64) = n" using n by (intro unat_of_nat_small) simp
  have "dead_object g B Out ?m x n"
    unfolding dead_object_def
  proof (intro conjI allI impI)
    show "0 < n" using n by simp
    fix m' assume ag: "agree (Out \<union> region x n) ?m m'"
    have w: "load64 m' (x + of_nat i) = load64 ?m (x + of_nat i)" if "i + 8 \<le> n" for i
    proof (rule load64_cong)
      fix j :: nat assume "j < 8"
      then have "off x (x + of_nat (i + j)) < n"
        using that n unat_of_nat_small [of "i + j"] by (simp del: of_nat_add)
      moreover have "x + of_nat i + of_nat j = x + of_nat (i + j)" by (simp add: add.assoc)
      ultimately show "m' (x + of_nat i + of_nat j) = ?m (x + of_nat i + of_nat j)"
        using ag by (simp add: agree_def)
    qed
    have d: "disjnt_regions (x + of_nat 8) 8 x 8" "disjnt_regions (x + of_nat 16) 8 x 8" "disjnt_regions (x + of_nat 16) 8 (x + of_nat 8) 8"
      using disjnt_offsets(2) [of 0 8 8 8 x] disjnt_offsets(2) [of 0 8 16 8 x] disjnt_offsets(2) [of 8 8 16 8 x] by simp_all
    have l: "load64 m' x = 0" "load64 m' (x + 8) = of_nat n - 24" "load64 m' (x + 16) = GC_WORD8_VECTOR_HEADER"
      using w [of 0] w [of 8] w [of 16] n d
      by (simp_all add: compress_dead_def Let_def header_sizes load64_store64_disjnt add.commute [of _ x])
    have p: "advanceToObjectData m' x = x + 24" using l by (simp add: advanceToObjectData_def header_sizes)
    have h: "getHeader m' (x + 24) = GC_WORD8_VECTOR_HEADER" "getArrayLength m' (x + 24) = of_nat n - 24"
      using l by (simp_all add: getHeader_def getHeaderp_def getArrayLength_def getArrayLengthp_def header_sizes add.commute)
    have "isAligned (of_nat n) (alignment g)"
      using al(2) u by (simp add: isAligned_def word_arith_nat_mod)
    then have s: "sizeofArrayNoHeader g (of_nat n - 24) ty = of_nat n - 24"
      using al(1,3) n u ty by (intro byte_vector_size) (simp_all add: word_le_nat_alt)
    have "sizeofObject g B m' (x + 24) = Some (of_nat n)"
      using h ty s by (simp add: sizeofObject_def skipForwarded_end skipThreaded_end objectBytesByTag_def header_sizes filler_headers)
    then show "let p = advanceToObjectData m' x; header = getHeader m' p in
      GC_VALID_HEADER_MASK AND header \<noteq> 0 \<and> (header = GC_FORWARDED \<or> MARK_MASK AND header = 0) \<and>
      sizeofObject g B m' p = Some (of_nat n)"
      unfolding p Let_def h(1) by (simp add: filler_headers GC_VALID_HEADER_MASK_def MARK_MASK_def)
  qed
  then show ?thesis using dead_some [OF _ dead_none] by fastforce
qed

end
