(* ===== verification/Compact_Slots.thy ===== *)
theory Compact_Slots
  imports Compact_Heap
begin

text \<open>
  The live objects, their slots and the roots, and the threading of a list of slots.
\<close>

section \<open>The heap\<close>

text \<open>From \<open>lh_start\<close> on: the live objects in their order, dead bytes in front of each and behind the
  last; and the slots of the roots.\<close>

record live_heap =
  lh_start :: pointer
  lh_live :: "pointer list"
  lh_lay :: "pointer \<Rightarrow> layout"
  lh_dead :: "pointer \<Rightarrow> nat"
  lh_behind :: nat
  lh_roots :: "pointer set"

definition gapped :: "live_heap \<Rightarrow> pointer \<Rightarrow> layout" where
  "gapped H p = (lh_lay H p)\<lparr>hb := lh_dead H p + hb (lh_lay H p)\<rparr>"

text \<open>Where an object starts, in bytes from the start of the heap, and where its body will be.\<close>

definition place :: "live_heap \<Rightarrow> pointer \<Rightarrow> nat" where
  "place H p = pos (gapped H) (lh_live H) p + lh_dead H p"

definition slid_to :: "live_heap \<Rightarrow> pointer \<Rightarrow> pointer" where
  "slid_to H p = new_at (lh_lay H) (lh_start H) (lh_live H) p"

definition extent :: "live_heap \<Rightarrow> nat" where
  "extent H = total (gapped H) (lh_live H) + lh_behind H"

definition outside :: "live_heap \<Rightarrow> pointer set" where
  "outside H = {x. extent H \<le> off (lh_start H) x \<and> (\<forall>r\<in>lh_roots H. 8 \<le> off r x)}"

definition obj_slots :: "live_heap \<Rightarrow> pointer list \<Rightarrow> pointer set" where
  "obj_slots H ps = (\<Union>p\<in>set ps. (\<lambda>i. p + of_nat i) ` set (ptrs (lh_lay H p)))"

abbreviation all_slots :: "live_heap \<Rightarrow> pointer list \<Rightarrow> pointer set" where
  "all_slots H ps \<equiv> lh_roots H \<union> obj_slots H ps"

definition live_object :: "gc_static \<Rightarrow> GC_heap \<Rightarrow> mem \<Rightarrow> pointer \<Rightarrow> layout \<Rightarrow> bool" where
  "live_object g h m p l \<longleftrightarrow> layout_of g m p = Some l \<and> array_fits g m p l \<and> isObjptr p \<and> isPointerInHeap h p \<and>
    GC_VALID_HEADER_MASK AND getHeader m p \<noteq> 0 \<and> MARK_MASK AND getHeader m p \<noteq> 0 \<and> getHeader m p \<noteq> GC_FORWARDED \<and>
    (hb l = 24 \<longrightarrow> getArrayCounter m p = 0)"

text \<open>A pointer leads to a live object, or out of the heap.\<close>

definition slot_value :: "GC_heap \<Rightarrow> pointer set \<Rightarrow> pointer set \<Rightarrow> mem \<Rightarrow> objptr \<Rightarrow> bool" where
  "slot_value h A Out m v \<longleftrightarrow> v \<in> A \<or> (isObjptr v \<longrightarrow> \<not> isPointerInHeap h v \<and>
    (v \<noteq> 0 \<longrightarrow> getHeader m v \<noteq> GC_FORWARDED \<and> word8 (v - 8) \<subseteq> Out))"

definition compact_ok :: "gc_static \<Rightarrow> pointer \<Rightarrow> GC_heap \<Rightarrow> live_heap \<Rightarrow> mem \<Rightarrow> bool" where
  "compact_ok g B h H m \<longleftrightarrow>
    distinct (lh_live H) \<and> unat (lh_start H) + extent H < 2 ^ 63 \<and>
    (\<forall>p\<in>set (lh_live H). p = lh_start H + of_nat (place H p + hb (lh_lay H p)) \<and> live_object g h m p (lh_lay H p) \<and>
      dead_run g B (outside H) m (lh_start H + of_nat (place H p - lh_dead H p)) (lh_dead H p) \<and>
      unat (alignment g) dvd lh_dead H p) \<and>
    dead_run g B (outside H) m (lh_start H + of_nat (extent H - lh_behind H)) (lh_behind H) \<and>
    (\<forall>r\<in>lh_roots H. disjnt_regions (lh_start H) (extent H) r 8) \<and>
    (\<forall>r\<in>lh_roots H. \<forall>r'\<in>lh_roots H. r \<noteq> r' \<longrightarrow> disjnt_regions r 8 r' 8) \<and>
    (\<forall>c\<in>all_slots H (lh_live H). c \<noteq> 0 \<and> c AND 1 = 0 \<and> slot_value h (set (lh_live H)) (outside H) m (load64 m c))"

lemma compact_okD:
  assumes "compact_ok g B h H m"
  shows "distinct (lh_live H)" "extent H < 2 ^ 63"
    "p \<in> set (lh_live H) \<Longrightarrow> p = lh_start H + of_nat (place H p + hb (lh_lay H p))"
    "p \<in> set (lh_live H) \<Longrightarrow> live_object g h m p (lh_lay H p)"
    "p \<in> set (lh_live H) \<Longrightarrow> dead_run g B (outside H) m (lh_start H + of_nat (place H p - lh_dead H p)) (lh_dead H p)"
    "p \<in> set (lh_live H) \<Longrightarrow> unat (alignment g) dvd lh_dead H p"
    "dead_run g B (outside H) m (lh_start H + of_nat (extent H - lh_behind H)) (lh_behind H)"
    "r \<in> lh_roots H \<Longrightarrow> disjnt_regions (lh_start H) (extent H) r 8"
    "r \<in> lh_roots H \<Longrightarrow> r' \<in> lh_roots H \<Longrightarrow> r \<noteq> r' \<Longrightarrow> disjnt_regions r 8 r' 8"
    "c \<in> all_slots H (lh_live H) \<Longrightarrow> c \<noteq> 0" "c \<in> all_slots H (lh_live H) \<Longrightarrow> c AND 1 = 0"
    "c \<in> all_slots H (lh_live H) \<Longrightarrow> slot_value h (set (lh_live H)) (outside H) m (load64 m c)"
  using assms add_leD2 [of "unat (lh_start H)" "extent H" "2 ^ 63 - 1"] unfolding compact_ok_def by (blast, simp, blast+)

lemma compact_ok_end: "compact_ok g B h H m \<Longrightarrow> unat (lh_start H) + extent H < 2 ^ 63"
  by (simp add: compact_ok_def)

section \<open>Places\<close>

lemma bytes_gapped [simp]: "bytes_of (gapped H p) = lh_dead H p + bytes_of (lh_lay H p)"
  by (simp add: gapped_def)

lemma place_le: "p \<in> set (lh_live H) \<Longrightarrow> place H p + bytes_of (lh_lay H p) + lh_behind H \<le> extent H"
  using pos_le [of p "lh_live H" "gapped H"] by (simp add: place_def extent_def)

lemma place_apart:
  assumes "p \<in> set (lh_live H)" "q \<in> set (lh_live H)" "p \<noteq> q"
  shows "place H p + bytes_of (lh_lay H p) + lh_dead H q \<le> place H q \<or> place H q + bytes_of (lh_lay H q) + lh_dead H p \<le> place H p"
  using pos_apart [OF assms, of "gapped H"] by (auto simp: place_def)

lemma live_layout:
  assumes "compact_ok g B h H m" "p \<in> set (lh_live H)"
  shows "hb (lh_lay H p) = 8 \<or> hb (lh_lay H p) = 24" "i \<in> set (ptrs (lh_lay H p)) \<Longrightarrow> i + 8 \<le> bb (lh_lay H p)"
    "sorted_wrt (\<lambda>i j. i + 8 \<le> j) (ptrs (lh_lay H p))" "distinct (ptrs (lh_lay H p))"
proof -
  have l: "layout_of g m p = Some (lh_lay H p)" "array_fits g m p (lh_lay H p)"
    using compact_okD(4) [OF assms] by (auto simp: live_object_def)
  show "hb (lh_lay H p) = 8 \<or> hb (lh_lay H p) = 24" using layout_hb [OF l(1)] .
  show "i \<in> set (ptrs (lh_lay H p)) \<Longrightarrow> i + 8 \<le> bb (lh_lay H p)" using layout_ptrs_bound [OF l] .
  show s: "sorted_wrt (\<lambda>i j. i + 8 \<le> j) (ptrs (lh_lay H p))" using layout_ptrs_apart [OF l(1)] .
  have "sorted_wrt (\<lambda>i j. i + 8 \<le> j) xs \<Longrightarrow> distinct xs" for xs :: "nat list"
    by (induction xs) auto
  then show "distinct (ptrs (lh_lay H p))" using s by blast
qed

text \<open>The addresses of a word of an object, by their distance from the start of the heap.\<close>

lemma object_word:
  assumes "compact_ok g B h H m" "p \<in> set (lh_live H)" "k + n \<le> bytes_of (lh_lay H p)"
  shows "off (lh_start H + of_nat (place H p + k)) x < n \<longleftrightarrow>
    place H p + k \<le> off (lh_start H) x \<and> off (lh_start H) x < place H p + k + n"
  using place_le [OF assms(2)] compact_okD(2) [OF assms(1)] assms(3) by (intro region_offset) simp

lemma header_place:
  assumes "compact_ok g B h H m" "p \<in> set (lh_live H)"
  shows "p - 8 = lh_start H + of_nat (place H p + (hb (lh_lay H p) - 8))"
    "p + of_nat i = lh_start H + of_nat (place H p + (hb (lh_lay H p) + i))"
    "p - of_nat (hb (lh_lay H p)) = lh_start H + of_nat (place H p)"
proof -
  define a where "a = lh_start H + of_nat (place H p)"
  define b where "b = hb (lh_lay H p)"
  have p: "p = a + of_nat b" using compact_okD(3) [OF assms] by (simp add: a_def b_def add.assoc)
  have b: "b = 8 \<or> b = 24" using live_layout(1) [OF assms] by (simp add: b_def)
  have "p - 8 = a + of_nat (b - 8)" "p + of_nat i = a + of_nat (b + i)" "p - of_nat b = a"
    using p b by auto
  then show "p - 8 = lh_start H + of_nat (place H p + (hb (lh_lay H p) - 8))"
    "p + of_nat i = lh_start H + of_nat (place H p + (hb (lh_lay H p) + i))"
    "p - of_nat (hb (lh_lay H p)) = lh_start H + of_nat (place H p)"
    by (simp_all add: a_def b_def add.assoc)
qed

lemma header_word:
  assumes "compact_ok g B h H m" "p \<in> set (lh_live H)"
  shows "x \<in> word8 (p - 8) \<longleftrightarrow> place H p + (hb (lh_lay H p) - 8) \<le> off (lh_start H) x \<and> off (lh_start H) x < place H p + hb (lh_lay H p)"
  unfolding header_place(1) [OF assms] word8_def
  using object_word [OF assms, of "hb (lh_lay H p) - 8" 8 x] live_layout(1) [OF assms] by auto

lemma slot_word:
  assumes "compact_ok g B h H m" "p \<in> set (lh_live H)" "i + 8 \<le> bb (lh_lay H p)"
  shows "x \<in> word8 (p + of_nat i) \<longleftrightarrow> place H p + hb (lh_lay H p) + i \<le> off (lh_start H) x \<and>
    off (lh_start H) x < place H p + hb (lh_lay H p) + i + 8"
  unfolding header_place(2) [OF assms(1,2)] word8_def
  using object_word [OF assms(1,2), of "hb (lh_lay H p) + i" 8 x] assms(3) by (auto simp: add.assoc)

lemma root_word: "compact_ok g B h H m \<Longrightarrow> r \<in> lh_roots H \<Longrightarrow> x \<in> word8 r \<Longrightarrow> extent H \<le> off (lh_start H) x"
  using compact_okD(8) disjnt_off [of "lh_start H" "extent H" r 8 x] by (auto simp: word8_def)

lemma obj_slotsE:
  assumes "c \<in> obj_slots H ps"
  obtains p i where "p \<in> set ps" "i \<in> set (ptrs (lh_lay H p))" "c = p + of_nat i"
  using assms by (auto simp: obj_slots_def)

lemma obj_slots_simps [simp]:
  "obj_slots H [] = {}" "obj_slots H (p # ps) = (\<lambda>i. p + of_nat i) ` set (ptrs (lh_lay H p)) \<union> obj_slots H ps"
  "obj_slots H (ps @ qs) = obj_slots H ps \<union> obj_slots H qs"
  by (auto simp: obj_slots_def)

lemma obj_slots_mono: "set ps \<subseteq> set qs \<Longrightarrow> obj_slots H ps \<subseteq> obj_slots H qs"
  by (auto simp: obj_slots_def)

text \<open>Slots of different objects, or with different offsets, lie apart, and so do the headers and the roots.\<close>

lemma slots_apart_in:
  assumes ok: "compact_ok g B h H m" and p: "p \<in> set (lh_live H)" "i \<in> set (ptrs (lh_lay H p))"
    and q: "q \<in> set (lh_live H)" "j \<in> set (ptrs (lh_lay H q))" and ne: "p \<noteq> q \<or> i \<noteq> j"
  shows "word8 (p + of_nat i) \<inter> word8 (q + of_nat j) = {}"
proof -
  note i = live_layout(2) [OF ok p] and j = live_layout(2) [OF ok q]
  have "False" if x: "x \<in> word8 (p + of_nat i)" "x \<in> word8 (q + of_nat j)" for x
  proof (cases "p = q")
    case True
    then have "i + 8 \<le> j \<or> j + 8 \<le> i"
      using sorted_gap [OF live_layout(3) [OF ok p(1)] p(2)] q(2) ne by simp
    then show ?thesis using x True slot_word [OF ok p(1) i] slot_word [OF ok q(1) j] by auto
  next
    case False
    then show ?thesis using x place_apart [OF p(1) q(1)] slot_word [OF ok p(1) i] slot_word [OF ok q(1) j] i j by auto
  qed
  then show ?thesis by blast
qed

lemma header_slot_disjnt:
  assumes ok: "compact_ok g B h H m" and p: "p \<in> set (lh_live H)" and q: "q \<in> set (lh_live H)" "j \<in> set (ptrs (lh_lay H q))"
  shows "word8 (p - 8) \<inter> word8 (q + of_nat j) = {}"
proof -
  note j = live_layout(2) [OF ok q] and hb = live_layout(1) [OF ok p]
  have "False" if x: "x \<in> word8 (p - 8)" "x \<in> word8 (q + of_nat j)" for x
    using x place_apart [OF p(1) q(1)] header_word [OF ok p(1)] slot_word [OF ok q(1) j] j hb by (cases "p = q") auto
  then show ?thesis by blast
qed

lemma root_disjnt:
  assumes ok: "compact_ok g B h H m" and r: "r \<in> lh_roots H" and q: "q \<in> set (lh_live H)"
  shows "j \<in> set (ptrs (lh_lay H q)) \<Longrightarrow> word8 r \<inter> word8 (q + of_nat j) = {}" "word8 r \<inter> word8 (q - 8) = {}"
proof -
  have e: "place H q + bytes_of (lh_lay H q) \<le> extent H" using place_le [OF q] by simp
  show "word8 r \<inter> word8 (q - 8) = {}"
    using root_word [OF ok r] header_word [OF ok q] e by fastforce
  assume j: "j \<in> set (ptrs (lh_lay H q))"
  show "word8 r \<inter> word8 (q + of_nat j) = {}"
    using root_word [OF ok r] slot_word [OF ok q live_layout(2) [OF ok q j]] live_layout(2) [OF ok q j] e by fastforce
qed

lemma words_ok_live:
  assumes ok: "compact_ok g B h H m"
  shows "words_ok (set (lh_live H)) (all_slots H (lh_live H))"
  unfolding words_ok_def
proof (intro conjI ballI impI)
  fix p q assume pq: "p \<in> set (lh_live H)" "q \<in> set (lh_live H)" "p \<noteq> q"
  have "False" if x: "x \<in> word8 (p - 8)" "x \<in> word8 (q - 8)" for x
    using x place_apart [OF pq] header_word [OF ok pq(1)] header_word [OF ok pq(2)] by auto
  then show "disjnt_regions (p - 8) 8 (q - 8) 8" unfolding word8_disjnt by blast
next
  fix p c assume p: "p \<in> set (lh_live H)" and c: "c \<in> all_slots H (lh_live H)"
  then show "disjnt_regions (p - 8) 8 c 8" unfolding word8_disjnt
    using root_disjnt(2) [OF ok _ p] header_slot_disjnt [OF ok p] by (auto simp: obj_slots_def)
next
  fix c d assume cd: "c \<in> all_slots H (lh_live H)" "d \<in> all_slots H (lh_live H)" "c \<noteq> d"
  show "disjnt_regions c 8 d 8"
  proof (cases "c \<in> lh_roots H"; cases "d \<in> lh_roots H")
    assume "c \<in> lh_roots H" "d \<in> lh_roots H"
    then show ?thesis using compact_okD(9) [OF ok] cd(3) by blast
  next
    assume "c \<in> lh_roots H" "d \<notin> lh_roots H"
    then show ?thesis unfolding word8_disjnt using root_disjnt(1) [OF ok] cd(2) by (auto simp: obj_slots_def)
  next
    assume "c \<notin> lh_roots H" "d \<in> lh_roots H"
    then show ?thesis unfolding word8_disjnt using root_disjnt(1) [OF ok] cd(1) by (fastforce simp: obj_slots_def)
  next
    assume r: "c \<notin> lh_roots H" "d \<notin> lh_roots H"
    then obtain p i q j where "p \<in> set (lh_live H)" "i \<in> set (ptrs (lh_lay H p))" "c = p + of_nat i"
        "q \<in> set (lh_live H)" "j \<in> set (ptrs (lh_lay H q))" "d = q + of_nat j"
      using cd by (auto simp: obj_slots_def)
    then show ?thesis unfolding word8_disjnt using slots_apart_in [OF ok, of p i q j] cd(3) by auto
  qed
next
  fix c assume "c \<in> all_slots H (lh_live H)"
  then show "c AND 1 = 0" using compact_okD(11) [OF ok] by blast
qed

lemma words_ok_mono: "words_ok A S \<Longrightarrow> A' \<subseteq> A \<Longrightarrow> S' \<subseteq> S \<Longrightarrow> words_ok A' S'"
  unfolding words_ok_def by blast

text \<open>The addresses that threading changes.\<close>

definition words :: "pointer set \<Rightarrow> pointer set \<Rightarrow> pointer set" where
  "words A S = (\<Union>p\<in>A. word8 (p - 8)) \<union> (\<Union>c\<in>S. word8 c)"

section \<open>Threading a list of slots\<close>

lemma chain_header:
  assumes "threading A S N m0 ch D m" "words_ok A S" "p \<in> A" "getHeader m0 p \<noteq> GC_FORWARDED"
  shows "getHeader m p \<noteq> GC_FORWARDED"
proof (cases "ch p")
  case Nil
  then show ?thesis using threadingD(1) [OF assms(1,3)] assms(4) by (simp add: header_at)
next
  case (Cons c cs)
  then have "load64 m (p - 8) = c" "c \<in> S" using threadingD(1,3) [OF assms(1,3)] by auto
  moreover have "c AND 1 = 0" using words_okD(4) [OF assms(2) \<open>c \<in> S\<close>] .
  ultimately show ?thesis by (auto simp: header_at GC_FORWARDED_def)
qed

lemma thread_client:
  assumes t: "threading A S N m0 ch D (wmem w)" and wo: "words_ok A S" and c: "c \<in> S" "c \<notin> D" "\<And>p. p \<in> A \<Longrightarrow> c \<notin> set (ch p)"
    and v: "slot_value (heap (fgc w)) A Out m0 (load64 m0 c)" and K: "agree Out (wmem w) m0"
    and A: "\<And>p. p \<in> A \<Longrightarrow> isObjptr p \<and> isPointerInHeap (heap (fgc w)) p \<and> getHeader m0 p \<noteq> GC_FORWARDED"
  shows "\<exists>m' ch'. callIfIsObjptr threadInternalObjptrIfInLocalHeap c w = Some (w\<lparr>wmem := m'\<rparr>) \<and> threading A S N m0 ch' D m' \<and>
    (\<forall>p\<in>A. ch' p = (if load64 m0 c = p then c # ch p else ch p)) \<and> agree (- words A S) m' (wmem w)"
proof -
  have lc: "load64 (wmem w) c = load64 m0 c" using threadingD(5) [OF t c(1,2)] c(3) by blast
  show ?thesis
  proof (cases "load64 m0 c \<in> A")
    case True
    let ?p = "load64 m0 c" and ?m = "threadInternalObjptr (h_start (heap (fgc w))) c (wmem w)"
    have "getHeader (wmem w) ?p \<noteq> GC_FORWARDED" using chain_header [OF t wo True] A [OF True] by blast
    then have "callIfIsObjptr threadInternalObjptrIfInLocalHeap c w = Some (w\<lparr>wmem := ?m\<rparr>)"
      using fixFwd_still [of "wmem w" c] A [OF True] lc by (simp add: callIfIsObjptr_def threadInternalObjptrIfInLocalHeap_def Let_def)
    moreover have "threading A S N m0 (ch(?p := c # ch ?p)) D ?m"
      by (rule thread_slot(1) [OF t wo c(1) refl True c(2) c(3) [OF True]])
    moreover have "agree (- words A S) ?m (wmem w)"
      using thread_slot(2) [OF t wo c(1) refl True c(2) c(3) [OF True]] c(1) True
      by (auto simp: agree_def words_def word8_def not_less)
    ultimately show ?thesis by (intro exI [of _ ?m] exI [of _ "ch(?p := c # ch ?p)"]) auto
  next
    case False
    have "callIfIsObjptr threadInternalObjptrIfInLocalHeap c w = Some (w\<lparr>wmem := wmem w\<rparr>)"
    proof (cases "isObjptr (load64 m0 c)")
      case True
      have h: "getHeader (wmem w) (load64 m0 c) \<noteq> GC_FORWARDED" if nz: "load64 m0 c \<noteq> 0"
      proof -
        have o: "getHeader m0 (load64 m0 c) \<noteq> GC_FORWARDED" "word8 (load64 m0 c - 8) \<subseteq> Out"
          using v False True nz by (auto simp: slot_value_def)
        then have "getHeader (wmem w) (load64 m0 c) = getHeader m0 (load64 m0 c)"
          using K by (intro getHeader_agree agree_mono [OF K])
        then show ?thesis using o by simp
      qed
      have "\<not> isPointerInHeap (heap (fgc w)) (load64 m0 c)" using v False True by (auto simp: slot_value_def)
      then show ?thesis
        using fixFwd_still [of "wmem w" c] True lc h by (simp add: callIfIsObjptr_def threadInternalObjptrIfInLocalHeap_def Let_def)
    qed (simp add: callIfIsObjptr_def lc)
    then show ?thesis using False t by (intro exI [of _ "wmem w"] exI [of _ ch]) auto
  qed
qed

lemma thread_slots:
  assumes "threading A S N m0 ch D (wmem w)" "words_ok A S" "set cs \<subseteq> S - D" "distinct cs"
    "\<And>p. p \<in> A \<Longrightarrow> set cs \<inter> set (ch p) = {}"
    "\<And>c. c \<in> set cs \<Longrightarrow> slot_value (heap (fgc w)) A Out m0 (load64 m0 c)" "agree Out (wmem w) m0" "Out \<inter> words A S = {}"
    "\<And>p. p \<in> A \<Longrightarrow> isObjptr p \<and> isPointerInHeap (heap (fgc w)) p \<and> getHeader m0 p \<noteq> GC_FORWARDED"
  shows "\<exists>m' ch'. foreach_slots (callIfIsObjptr threadInternalObjptrIfInLocalHeap) cs w = Some (w\<lparr>wmem := m'\<rparr>) \<and>
    threading A S N m0 ch' D m' \<and> (\<forall>p\<in>A. set (ch' p) = set (ch p) \<union> {c \<in> set cs. load64 m0 c = p}) \<and>
    agree (- words A S) m' (wmem w)"
  using assms
proof (induction cs arbitrary: ch w)
  case Nil
  then show ?case by (intro exI [of _ "wmem w"] exI [of _ ch]) auto
next
  case (Cons c cs)
  have c: "c \<in> S" "c \<notin> D" "\<And>p. p \<in> A \<Longrightarrow> c \<notin> set (ch p)" using Cons.prems(3,5) by auto
  obtain m1 ch1 where 1: "callIfIsObjptr threadInternalObjptrIfInLocalHeap c w = Some (w\<lparr>wmem := m1\<rparr>)"
      "threading A S N m0 ch1 D m1" "\<forall>p\<in>A. ch1 p = (if load64 m0 c = p then c # ch p else ch p)" "agree (- words A S) m1 (wmem w)"
    using thread_client [OF Cons.prems(1,2) c Cons.prems(6) Cons.prems(7,9)] by auto
  have K: "agree Out m1 m0" by (rule agree_trans [OF agree_mono [OF 1(4)] Cons.prems(7)]) (use Cons.prems(8) in blast)
  have d: "set cs \<inter> set (ch1 p) = {}" if "p \<in> A" for p
    using 1(3) that Cons.prems(4) Cons.prems(5) [OF that] by auto
  have v: "slot_value (heap (fgc (w\<lparr>wmem := m1\<rparr>))) A Out m0 (load64 m0 c')" if "c' \<in> set cs" for c'
    using Cons.prems(6) [of c'] that by simp
  have cs: "set cs \<subseteq> S - D" "distinct cs" using Cons.prems(3,4) by auto
  obtain m2 ch2 where 2: "foreach_slots (callIfIsObjptr threadInternalObjptrIfInLocalHeap) cs (w\<lparr>wmem := m1\<rparr>) = Some (w\<lparr>wmem := m2\<rparr>)"
      "threading A S N m0 ch2 D m2" "\<forall>p\<in>A. set (ch2 p) = set (ch1 p) \<union> {c \<in> set cs. load64 m0 c = p}" "agree (- words A S) m2 m1"
    using Cons.IH [of ch1 "w\<lparr>wmem := m1\<rparr>"] 1(2) Cons.prems(2,8,9) cs d v K by auto
  have "agree (- words A S) m2 (wmem w)" by (rule agree_trans [OF 2(4) 1(4)])
  then show ?case using 1 2 by (intro exI [of _ m2] exI [of _ ch2]) auto
qed

end
