(* ===== verification/Compact_Forward.thy ===== *)
theory Compact_Forward
  imports Compact_Slots
begin

text \<open>The first pass of the mark-compact collection.\<close>

section \<open>Regions\<close>

definition obj_region :: "live_heap \<Rightarrow> pointer \<Rightarrow> pointer set" where
  "obj_region H p = region (lh_start H + of_nat (place H p)) (bytes_of (lh_lay H p))"

definition gap_region :: "live_heap \<Rightarrow> pointer \<Rightarrow> pointer set" where
  "gap_region H p = region (lh_start H + of_nat (place H p - lh_dead H p)) (lh_dead H p)"

definition tail_region :: "live_heap \<Rightarrow> pointer set" where
  "tail_region H = region (lh_start H + of_nat (extent H - lh_behind H)) (lh_behind H)"

abbreviation live_words :: "live_heap \<Rightarrow> pointer set" where
  "live_words H \<equiv> words (set (lh_live H)) (all_slots H (lh_live H))"

text \<open>The bytes that keep their contents while the objects \<open>ahead\<close> are still ahead.\<close>

definition kept :: "live_heap \<Rightarrow> pointer list \<Rightarrow> pointer set" where
  "kept H ahead = outside H \<union> ((\<Union>p\<in>set (lh_live H). obj_region H p) - live_words H) \<union>
    (\<Union>p\<in>set ahead. gap_region H p) \<union> tail_region H"

lemma regions:
  assumes "compact_ok g B h H m"
  shows "p \<in> set (lh_live H) \<Longrightarrow> x \<in> obj_region H p \<longleftrightarrow> place H p \<le> off (lh_start H) x \<and> off (lh_start H) x < place H p + bytes_of (lh_lay H p)"
    "p \<in> set (lh_live H) \<Longrightarrow> x \<in> gap_region H p \<longleftrightarrow> place H p - lh_dead H p \<le> off (lh_start H) x \<and> off (lh_start H) x < place H p"
    "x \<in> tail_region H \<longleftrightarrow> extent H - lh_behind H \<le> off (lh_start H) x \<and> off (lh_start H) x < extent H"
proof -
  note e = compact_okD(2) [OF assms]
  have d: "lh_dead H p \<le> place H p" for p by (simp add: place_def)
  have b: "lh_behind H \<le> extent H" by (simp add: extent_def)
  show "p \<in> set (lh_live H) \<Longrightarrow> x \<in> obj_region H p \<longleftrightarrow> place H p \<le> off (lh_start H) x \<and> off (lh_start H) x < place H p + bytes_of (lh_lay H p)"
    using object_word [OF assms, of p 0 "bytes_of (lh_lay H p)" x] by (simp add: obj_region_def)
  show "x \<in> gap_region H p \<longleftrightarrow> place H p - lh_dead H p \<le> off (lh_start H) x \<and> off (lh_start H) x < place H p" if p: "p \<in> set (lh_live H)"
  proof -
    have "place H p \<le> extent H" using place_le [OF p] by simp
    then show ?thesis using d [of p] e unfolding gap_region_def mem_Collect_eq by (subst region_offset) auto
  qed
  show "x \<in> tail_region H \<longleftrightarrow> extent H - lh_behind H \<le> off (lh_start H) x \<and> off (lh_start H) x < extent H"
    unfolding tail_region_def mem_Collect_eq using e b by (subst region_offset) auto
qed

text \<open>A word that threading changes is in an object, or the slot of a root.\<close>

lemma live_wordsE:
  assumes ok: "compact_ok g B h H m" and x: "x \<in> live_words H"
  shows "(\<exists>p\<in>set (lh_live H). x \<in> obj_region H p) \<or> (\<exists>r\<in>lh_roots H. x \<in> word8 r)"
proof -
  consider p where "p \<in> set (lh_live H)" "x \<in> word8 (p - 8)" | r where "r \<in> lh_roots H" "x \<in> word8 r"
    | p i where "p \<in> set (lh_live H)" "i \<in> set (ptrs (lh_lay H p))" "x \<in> word8 (p + of_nat i)"
    using x by (auto simp: words_def obj_slots_def)
  then show ?thesis
  proof cases
    case 1
    then have "x \<in> obj_region H p" using header_word [OF ok 1(1)] regions(1) [OF ok 1(1)] by auto
    then show ?thesis using 1(1) by blast
  next
    case 3
    note b = live_layout(2) [OF ok 3(1,2)]
    then have "x \<in> obj_region H p" using slot_word [OF ok 3(1) b] regions(1) [OF ok 3(1)] 3(3) by auto
    then show ?thesis using 3(1) by blast
  qed blast
qed

lemma live_words_off:
  assumes ok: "compact_ok g B h H m" and x: "x \<in> live_words H"
  shows "x \<notin> outside H" "p \<in> set (lh_live H) \<Longrightarrow> x \<notin> gap_region H p" "x \<notin> tail_region H"
proof -
  from live_wordsE [OF assms] consider q where "q \<in> set (lh_live H)" "x \<in> obj_region H q" | r where "r \<in> lh_roots H" "x \<in> word8 r"
    by blast
  then have "x \<notin> outside H \<and> (p \<in> set (lh_live H) \<longrightarrow> x \<notin> gap_region H p) \<and> x \<notin> tail_region H" for p
  proof cases
    case 1
    note q = regions(1) [OF ok 1(1), of x] place_le [OF 1(1)]
    have "x \<notin> outside H" using 1 q by (auto simp: outside_def)
    moreover have "x \<notin> tail_region H" using 1 q regions(3) [OF ok, of x] by auto
    moreover have "x \<notin> gap_region H p" if p: "p \<in> set (lh_live H)"
      using 1(2) q regions(2) [OF ok p, of x] place_apart [OF p 1(1)] by (cases "p = q") auto
    ultimately show ?thesis by blast
  next
    case 2
    have e: "extent H \<le> off (lh_start H) x" using root_word [OF ok 2] .
    have "x \<notin> outside H" using 2 by (fastforce simp: outside_def word8_def)
    moreover have "x \<notin> tail_region H" using e regions(3) [OF ok, of x] by auto
    moreover have "x \<notin> gap_region H p" if p: "p \<in> set (lh_live H)"
      using e regions(2) [OF ok p, of x] place_le [OF p] by auto
    ultimately show ?thesis by blast
  qed
  then show "x \<notin> outside H" "p \<in> set (lh_live H) \<Longrightarrow> x \<notin> gap_region H p" "x \<notin> tail_region H" by blast+
qed

lemma kept_words: "compact_ok g B h H m \<Longrightarrow> set ahead \<subseteq> set (lh_live H) \<Longrightarrow> kept H ahead \<inter> live_words H = {}"
  using live_words_off by (fastforce simp: kept_def)

lemma gap_apart:
  assumes ok: "compact_ok g B h H m" and p: "p \<in> set (lh_live H)"
  shows "q \<in> set (lh_live H) \<Longrightarrow> q \<noteq> p \<Longrightarrow> gap_region H p \<inter> gap_region H q = {}" "gap_region H p \<inter> tail_region H = {}"
    "gap_region H p \<inter> outside H = {}" "q \<in> set (lh_live H) \<Longrightarrow> gap_region H p \<inter> obj_region H q = {}"
proof -
  show "gap_region H p \<inter> gap_region H q = {}" if q: "q \<in> set (lh_live H)" "q \<noteq> p"
    using place_apart [OF p q(1)] q(2) regions(2) [OF ok p] regions(2) [OF ok q(1)] by fastforce
  show "gap_region H p \<inter> tail_region H = {}"
    using place_le [OF p] regions(2) [OF ok p] regions(3) [OF ok] by fastforce
  show "gap_region H p \<inter> outside H = {}"
    using place_le [OF p] regions(2) [OF ok p] by (fastforce simp: outside_def)
  show "gap_region H p \<inter> obj_region H q = {}" if q: "q \<in> set (lh_live H)"
    using place_apart [OF p q] regions(2) [OF ok p] regions(1) [OF ok q] by (cases "p = q") fastforce+
qed

lemma kept_gap:
  assumes ok: "compact_ok g B h H m" and p: "p \<in> set (lh_live H)" and a: "set ahead \<subseteq> set (lh_live H)" "p \<notin> set ahead"
  shows "kept H ahead \<inter> gap_region H p = {}"
proof -
  have 1: "gap_region H p \<inter> outside H = {}" "gap_region H p \<inter> tail_region H = {}" using gap_apart(2,3) [OF ok p] by blast+
  have 2: "gap_region H p \<inter> (\<Union>q\<in>set (lh_live H). obj_region H q) = {}" using gap_apart(4) [OF ok p] by blast
  have "gap_region H p \<inter> gap_region H q = {}" if "q \<in> set ahead" for q
    using gap_apart(1) [OF ok p, of q] that a by blast
  then have 3: "gap_region H p \<inter> (\<Union>q\<in>set ahead. gap_region H q) = {}" by blast
  show ?thesis using 1 2 3 unfolding kept_def by blast
qed

section \<open>One object\<close>

lemma layout_same:
  assumes "layout_of g m0 p = Some l" "getHeader m p = getHeader m0 p" "hb l = 24 \<Longrightarrow> getArrayLength m p = getArrayLength m0 p"
  shows "layout_of g m p = Some l" "array_fits g m0 p l \<Longrightarrow> array_fits g m p l"
  using assms by (auto simp: layout_of_def array_fits_def bind_eq_Some_conv split: if_splits option.splits)

text \<open>The words of a live object that are neither its header nor a slot.\<close>

lemma object_meta:
  assumes ok: "compact_ok g B h H m0" and p: "p \<in> set (lh_live H)" "hb (lh_lay H p) = 24"
  shows "word8 (p - 24) \<subseteq> obj_region H p - live_words H" "word8 (p - 16) \<subseteq> obj_region H p - live_words H"
proof -
  have a: "p - 24 = lh_start H + of_nat (place H p + 0)" "p - 16 = lh_start H + of_nat (place H p + 8)"
    using header_place(3) [OF ok p(1)] p(2) by (auto simp: algebra_simps)
  have w: "x \<in> word8 (p - 24) \<longleftrightarrow> place H p \<le> off (lh_start H) x \<and> off (lh_start H) x < place H p + 8"
    "x \<in> word8 (p - 16) \<longleftrightarrow> place H p + 8 \<le> off (lh_start H) x \<and> off (lh_start H) x < place H p + 16" for x
    unfolding a word8_def using object_word [OF ok p(1), of 0 8 x] object_word [OF ok p(1), of 8 8 x] p(2) by auto
  have n: "x \<notin> live_words H" if x: "place H p \<le> off (lh_start H) x" "off (lh_start H) x < place H p + 16" for x
  proof
    assume "x \<in> live_words H"
    then consider q where "q \<in> set (lh_live H)" "x \<in> word8 (q - 8)" | r where "r \<in> lh_roots H" "x \<in> word8 r"
      | q i where "q \<in> set (lh_live H)" "i \<in> set (ptrs (lh_lay H q))" "x \<in> word8 (q + of_nat i)"
      by (auto simp: words_def obj_slots_def)
    then show False
    proof cases
      case 1
      then show ?thesis
        using x p place_apart [OF p(1) 1(1)] header_word [OF ok 1(1)] live_layout(1) [OF ok 1(1)] by (cases "p = q") auto
    next
      case 2
      then show ?thesis using x p root_word [OF ok 2] place_le [OF p(1)] by auto
    next
      case 3
      note b = live_layout(2) [OF ok 3(1,2)]
      show ?thesis
        using x p 3(3) place_apart [OF p(1) 3(1)] slot_word [OF ok 3(1) b] b by (cases "p = q") auto
    qed
  qed
  have o: "x \<in> obj_region H p" if "place H p \<le> off (lh_start H) x" "off (lh_start H) x < place H p + 16" for x
    using that regions(1) [OF ok p(1)] p(2) by auto
  show "word8 (p - 24) \<subseteq> obj_region H p - live_words H" "word8 (p - 16) \<subseteq> obj_region H p - live_words H"
    using n o by (auto simp: w)
qed

text \<open>What the passes do first at an object: its header comes back.\<close>

lemma unthread_first:
  assumes t: "threading A S N m0 ch D m" and wo: "words_ok A S" and p: "p \<in> A"
    and h: "GC_VALID_HEADER_MASK AND getHeader m0 p \<noteq> 0" "MARK_MASK AND getHeader m0 p \<noteq> 0"
  shows "\<exists>m1. (if GC_VALID_HEADER_MASK AND getHeader m p \<noteq> 0 then Some m else unthread B (N p) (getHeaderp p) m) = Some m1 \<and>
    (GC_VALID_HEADER_MASK AND getHeader m p \<noteq> 0 \<longrightarrow> MARK_MASK AND getHeader m p \<noteq> 0) \<and>
    threading A S N m0 (ch(p := [])) (D \<union> set (ch p)) m1 \<and> agree (- words A S) m1 m \<and> getHeader m1 p = getHeader m0 p"
proof (cases "ch p")
  case Nil
  then have "getHeader m p = getHeader m0 p" using threadingD(1) [OF t p] by (simp add: header_at)
  moreover have "ch(p := []) = ch" using Nil by auto
  ultimately show ?thesis using h t Nil by (intro exI [of _ m]) simp
next
  case (Cons c cs)
  have c: "getHeader m p = c" "c \<in> S" using threadingD(1,3) [OF t p] Cons by (auto simp: header_at)
  have "c AND 1 = 0" using words_okD(4) [OF wo c(2)] .
  then have v: "\<not> GC_VALID_HEADER_MASK AND getHeader m p \<noteq> 0" using c(1) by (simp add: GC_VALID_HEADER_MASK_def and.commute)
  have ne: "ch p \<noteq> []" using Cons by simp
  have odd: "load64 m0 (p - 8) AND 1 \<noteq> 0" using h(1) by (simp add: GC_VALID_HEADER_MASK_def header_at and.commute)
  obtain m1 where m1: "unthread B (N p) (p - 8) m = Some m1" "threading A S N m0 (ch(p := [])) (D \<union> set (ch p)) m1"
      "\<forall>x. 8 \<le> off (p - 8) x \<and> (\<forall>c\<in>set (ch p). 8 \<le> off c x) \<longrightarrow> m1 x = m x"
    using unthread_object [OF t wo p ne odd, of B] by blast
  have "agree (- words A S) m1 m"
    unfolding agree_def
  proof
    fix x assume x: "x \<in> - words A S"
    then have "8 \<le> off (p - 8) x" using p by (auto simp: words_def word8_def)
    moreover have "8 \<le> off c' x" if "c' \<in> set (ch p)" for c'
      using x threadingD(3) [OF t p that] by (auto simp: words_def word8_def)
    ultimately show "m1 x = m x" using m1(3) by blast
  qed
  moreover have "getHeader m1 p = getHeader m0 p" using threadingD(1) [OF m1(2) p] by (simp add: header_at)
  ultimately show ?thesis using m1(1,2) v by (intro exI [of _ m1]) (simp add: getHeaderp_def GC_HEADER_SIZE_def)
qed

lemma live_advance:
  assumes ok: "compact_ok g B h H m0" and p: "p \<in> set (lh_live H)"
    and t: "threading A S N m0 ch D m" and S: "S \<subseteq> all_slots H (lh_live H)" "p \<in> A" and K: "agree (obj_region H p - live_words H) m m0"
  shows "advanceToObjectData m (p - of_nat (hb (lh_lay H p))) = p"
proof -
  note l = compact_okD(4) [OF ok p]
  from live_layout(1) [OF ok p] show ?thesis
  proof
    assume hb: "hb (lh_lay H p) = 8"
    have "load64 m (p - 8) \<noteq> 0"
    proof (cases "ch p")
      case Nil
      then show ?thesis using threadingD(1) [OF t S(2)] l by (auto simp: live_object_def header_at)
    next
      case (Cons c cs)
      then have "c \<in> S" "load64 m (p - 8) = c" using threadingD(1,3) [OF t S(2)] by auto
      then show ?thesis using compact_okD(10) [OF ok] S(1) by blast
    qed
    then show ?thesis using hb by (simp add: advanceToObjectData_def header_sizes)
  next
    assume hb: "hb (lh_lay H p) = 24"
    have "load64 m (p - 24) = load64 m0 (p - 24)"
      by (rule agree_load64 [OF agree_mono [OF K object_meta(1) [OF ok p hb]]])
    also have "\<dots> = 0" using l hb by (simp add: live_object_def getArrayCounter_def getArrayCounterp_def getArrayLengthp_def header_sizes)
    finally show ?thesis using hb by (simp add: advanceToObjectData_def header_sizes)
  qed
qed

section \<open>The invariant of the first pass\<close>

text \<open>The objects \<open>passed\<close> have been passed, \<open>ahead\<close> are still to come. The slots met so far are in
  chains or have their final values, and the chain of an object that has been passed has slots only
  of that object and of later ones.\<close>

definition forward_inv :: "gc_static \<Rightarrow> pointer \<Rightarrow> live_heap \<Rightarrow> mem \<Rightarrow> pointer list \<Rightarrow> pointer list \<Rightarrow> mem \<Rightarrow> bool" where
  "forward_inv g B H m0 passed ahead m \<longleftrightarrow> lh_live H = passed @ ahead \<and>
    (\<exists>ch D. threading (set (lh_live H)) (all_slots H (lh_live H)) (slid_to H) m0 ch D m \<and>
      D \<subseteq> {c \<in> all_slots H passed. load64 m0 c \<in> set (lh_live H)} \<and>
      (\<forall>p\<in>set (lh_live H). \<forall>c\<in>all_slots H (lh_live H). load64 m0 c = p \<longrightarrow>
        (c \<in> all_slots H passed \<longleftrightarrow> c \<in> D \<or> c \<in> set (ch p))) \<and>
      (\<forall>x y p. passed = x @ p # y \<longrightarrow> set (ch p) \<subseteq> obj_slots H (p # y))) \<and>
    agree (kept H ahead) m m0 \<and>
    (\<forall>p\<in>set passed. dead_run g B (outside H) m (lh_start H + of_nat (place H p - lh_dead H p)) (lh_dead H p))"

lemma dead_runs_words:
  assumes ok: "compact_ok g B h H m0" and p: "p \<in> set (lh_live H)" and a: "agree (- live_words H) m' m"
    and d: "dead_run g B (outside H) m (lh_start H + of_nat (place H p - lh_dead H p)) (lh_dead H p)"
  shows "dead_run g B (outside H) m' (lh_start H + of_nat (place H p - lh_dead H p)) (lh_dead H p)"
proof -
  have "outside H \<union> gap_region H p \<subseteq> - live_words H" using live_words_off [OF ok] p by blast
  then have "agree (outside H \<union> gap_region H p) m m'" using agree_sym [OF agree_mono [OF a]] by blast
  moreover have "lh_dead H p \<le> 2 ^ 64" using place_le [OF p] compact_okD(2) [OF ok] by (simp add: place_def)
  ultimately show ?thesis using dead_run_agree [OF d] by (simp add: gap_region_def)
qed

text \<open>At the next object, once the dead objects in front of it have been skipped: its header.\<close>

lemma forward_header:
  assumes ok: "compact_ok g B h H m0" and inv: "forward_inv g B H m0 passed (p # ahead) m"
  shows "\<exists>m1. advanceToObjectData m (p - of_nat (hb (lh_lay H p))) = p \<and>
    (if GC_VALID_HEADER_MASK AND getHeader m p \<noteq> 0 then Some m else unthread B' (slid_to H p) (getHeaderp p) m) = Some m1 \<and>
    (GC_VALID_HEADER_MASK AND getHeader m p \<noteq> 0 \<longrightarrow> MARK_MASK AND getHeader m p \<noteq> 0) \<and>
    forward_inv g B H m0 passed (p # ahead) m1 \<and> getHeader m1 p = getHeader m0 p \<and>
    (\<exists>ch D. threading (set (lh_live H)) (all_slots H (lh_live H)) (slid_to H) m0 ch D m1 \<and>
      D \<subseteq> {c \<in> all_slots H passed. load64 m0 c \<in> set (lh_live H)} \<and>
      (\<forall>q\<in>set (lh_live H). \<forall>c\<in>all_slots H (lh_live H). load64 m0 c = q \<longrightarrow>
        (c \<in> all_slots H passed \<longleftrightarrow> c \<in> D \<or> c \<in> set (ch q))) \<and>
      (\<forall>x y q. passed = x @ q # y \<longrightarrow> set (ch q) \<subseteq> obj_slots H (q # y)) \<and> ch p = [])"
proof -
  let ?A = "set (lh_live H)" and ?S = "all_slots H (lh_live H)"
  have live: "lh_live H = passed @ p # ahead" and K: "agree (kept H (p # ahead)) m m0"
    and dr: "\<forall>p\<in>set passed. dead_run g B (outside H) m (lh_start H + of_nat (place H p - lh_dead H p)) (lh_dead H p)"
    using inv by (simp_all add: forward_inv_def)
  obtain ch D where t: "threading ?A ?S (slid_to H) m0 ch D m" and D: "D \<subseteq> {c \<in> all_slots H passed. load64 m0 c \<in> set (lh_live H)}"
    and met: "\<forall>q\<in>?A. \<forall>c\<in>?S. load64 m0 c = q \<longrightarrow> (c \<in> all_slots H passed \<longleftrightarrow> c \<in> D \<or> c \<in> set (ch q))"
    and late: "\<forall>x y q. passed = x @ q # y \<longrightarrow> set (ch q) \<subseteq> obj_slots H (q # y)"
    using inv by (auto simp: forward_inv_def)
  have p: "p \<in> ?A" using live by simp
  have dist: "p \<notin> set passed" using compact_okD(1) [OF ok] live by auto
  note l = compact_okD(4) [OF ok p]
  have h: "GC_VALID_HEADER_MASK AND getHeader m0 p \<noteq> 0" "MARK_MASK AND getHeader m0 p \<noteq> 0"
    using l by (simp_all add: live_object_def)
  note wo = words_ok_live [OF ok]
  obtain m1 where m1: "(if GC_VALID_HEADER_MASK AND getHeader m p \<noteq> 0 then Some m else unthread B' (slid_to H p) (getHeaderp p) m) = Some m1"
      "GC_VALID_HEADER_MASK AND getHeader m p \<noteq> 0 \<longrightarrow> MARK_MASK AND getHeader m p \<noteq> 0"
      "threading ?A ?S (slid_to H) m0 (ch(p := [])) (D \<union> set (ch p)) m1" "agree (- live_words H) m1 m" "getHeader m1 p = getHeader m0 p"
    using unthread_first [OF t wo p h, of B'] by blast
  have D': "D \<union> set (ch p) \<subseteq> {c \<in> all_slots H passed. load64 m0 c \<in> set (lh_live H)}"
    using D met threadingD(3) [OF t p] p by blast
  have met': "\<forall>q\<in>?A. \<forall>c\<in>?S. load64 m0 c = q \<longrightarrow>
      (c \<in> all_slots H passed \<longleftrightarrow> c \<in> D \<union> set (ch p) \<or> c \<in> set ((ch(p := [])) q))"
    using met threadingD(3) [OF t p] by (metis Un_iff empty_iff fun_upd_apply list.set(1))
  have late': "\<forall>x y q. passed = x @ q # y \<longrightarrow> set ((ch(p := [])) q) \<subseteq> obj_slots H (q # y)"
    using late dist by auto
  have K1: "agree (kept H (p # ahead)) m1 m0"
    by (rule agree_trans [OF agree_mono [OF m1(4)] K]) (use kept_words [OF ok, of "p # ahead"] live in auto)
  have dr1: "\<forall>p\<in>set passed. dead_run g B (outside H) m1 (lh_start H + of_nat (place H p - lh_dead H p)) (lh_dead H p)"
    using dr dead_runs_words [OF ok _ m1(4)] live by simp
  have adv: "advanceToObjectData m (p - of_nat (hb (lh_lay H p))) = p"
    by (rule live_advance [OF ok p t subset_refl p]) (rule agree_mono [OF K], use p in \<open>auto simp: kept_def\<close>)
  have inv1: "forward_inv g B H m0 passed (p # ahead) m1"
    unfolding forward_inv_def using live m1(3) D' met' late' K1 dr1 by blast
  show ?thesis
    using adv m1 inv1 D' met' late'
    by (intro exI [of _ m1] conjI exI [of _ "ch(p := [])"] exI [of _ "D \<union> set (ch p)"]) (assumption | simp)+
qed

text \<open>The gap in front of the object, compressed when it is big enough.\<close>

lemma compress_gap:
  assumes ok: "compact_ok g B h H m0" and std: "std_types g" "align_arg (alignment g)" "unat (alignment g) \<le> 8"
    and p: "p \<in> set (lh_live H)" and d: "lh_dead H p = d" and x: "x = lh_start H + of_nat (place H p - d)"
    and run: "dead_run g B (outside H) m x d"
    and m': "m' = (if 32 \<le> d then compress_dead x (x + of_nat d) m else m)"
  shows "dead_run g B (outside H) m' x d" "agree (- gap_region H p) m' m"
proof -
  have lt: "d < 2 ^ 63" using place_le [OF p] compact_okD(2) [OF ok] d by (simp add: place_def)
  show "dead_run g B (outside H) m' x d"
    using run compress_dead_run [OF std(1,2) _ std(3), of d] compact_okD(6) [OF ok p] d lt by (simp add: m')
  show "agree (- gap_region H p) m' m"
    unfolding agree_def
  proof
    fix z assume "z \<in> - gap_region H p"
    then have "d \<le> off x z" by (auto simp: gap_region_def x d)
    then show "m' z = m z" using compress_dead_other [OF refl, where x = x and z = z] by (simp add: m')
  qed
qed

lemma foreach_live:
  assumes ok: "compact_ok (static f) B h H m0" and p: "p \<in> set (lh_live H)"
    and m: "getHeader (wmem w) p = getHeader m0 p" "agree (obj_region H p - live_words H) (wmem w) m0"
  shows "foreachObjptrInObject f client skipWeaks p w =
    map_option (Pair (p + of_nat (bb (lh_lay H p))))
      (foreach_slots (callIfIsObjptr client) (map (\<lambda>i. p + of_nat i) (ptrs (lh_lay H p))) w)"
    "layout_of (static f) (wmem w) p = Some (lh_lay H p)"
proof -
  have l: "layout_of (static f) m0 p = Some (lh_lay H p)" "array_fits (static f) m0 p (lh_lay H p)"
    using compact_okD(4) [OF ok p] by (auto simp: live_object_def)
  have len: "getArrayLength (wmem w) p = getArrayLength m0 p" if "hb (lh_lay H p) = 24"
    by (rule getArrayLength_agree [OF agree_mono [OF m(2) object_meta(2) [OF ok p that]]])
  note same = layout_same [OF l(1) m(1) len]
  show "layout_of (static f) (wmem w) p = Some (lh_lay H p)" by (rule same(1))
  have "unat p + bb (lh_lay H p) < 2 ^ 64"
  proof -
    have "place H p + bytes_of (lh_lay H p) \<le> extent H" using place_le [OF p] by simp
    moreover have "unat p = unat (lh_start H) + (place H p + hb (lh_lay H p))"
      using compact_okD(3) [OF ok p] compact_ok_end [OF ok] calculation
        unat_step [of "lh_start H" "place H p + hb (lh_lay H p)"] by simp
    ultimately show ?thesis using compact_ok_end [OF ok] by simp
  qed
  then show "foreachObjptrInObject f client skipWeaks p w =
    map_option (Pair (p + of_nat (bb (lh_lay H p))))
      (foreach_slots (callIfIsObjptr client) (map (\<lambda>i. p + of_nat i) (ptrs (lh_lay H p))) w)"
    using same(1) same(2) [OF _ l(2)] by (intro object_walk_layout)
qed

lemma forward_object_sizes:
  assumes "layout_of (fstatic e) m p = Some l"
  shows "\<exists>ty. splitHeader (objectTypes (fstatic e)) (getHeader m p) = Some ty \<and>
    forward_sizes e c m ty p = Some (of_nat (hb l), of_nat (bb l), 0, 0) \<and>
    backward_sizes e c ty p m = Some (of_nat (hb l), of_nat (bb l), 0, 0, m)"
  using assms
  by (auto simp: layout_of_def bind_eq_Some_conv forward_sizes_def backward_sizes_def header_sizes split: if_splits)

lemma passed_slots:
  assumes ok: "compact_ok g B h H m0" and live: "lh_live H = passed @ p # ahead" and i: "i \<in> set (ptrs (lh_lay H p))"
  shows "p + of_nat i \<in> all_slots H (lh_live H)" "p + of_nat i \<notin> all_slots H passed"
proof -
  have p: "p \<in> set (lh_live H)" using live by simp
  show "p + of_nat i \<in> all_slots H (lh_live H)" using p i by (auto simp: obj_slots_def)
  have self: "p + of_nat i \<in> word8 (p + of_nat i)" by (simp add: word8_def)
  have "p + of_nat i \<notin> lh_roots H"
  proof
    assume r: "p + of_nat i \<in> lh_roots H"
    show False using root_disjnt(1) [OF ok r p i] self by simp
  qed
  moreover have "p + of_nat i \<notin> obj_slots H passed"
  proof
    assume "p + of_nat i \<in> obj_slots H passed"
    then obtain q j where q: "q \<in> set passed" "j \<in> set (ptrs (lh_lay H q))" "p + of_nat i = q + of_nat j"
      by (auto simp: obj_slots_def)
    have "q \<in> set (lh_live H)" "p \<noteq> q" using q(1) live compact_okD(1) [OF ok] by auto
    then show False using slots_apart_in [OF ok p i _ q(2)] self q(3) by auto
  qed
  ultimately show "p + of_nat i \<notin> all_slots H passed" by blast
qed

lemma forward_object:
  assumes ok: "compact_ok (fstatic e) (h_start (sharedHeap (fgc w))) (heap (fgc w)) H m0"
    and std: "std_types (fstatic e)" "align_arg (alignment (fstatic e))" "unat (alignment (fstatic e)) \<le> 8"
    and c: "\<not> sharedCollection c" "mc_start c = B'"
    and inv: "forward_inv (fstatic e) (h_start (sharedHeap (fgc w))) H m0 passed (p # ahead) (wmem w)"
    and fr: "fr = lh_start H + of_nat (place H p)" and gap: "p - gap = slid_to H p"
  shows "\<exists>m'. forward_step e c (fr, gap, fr - of_nat (lh_dead H p)) w =
      Some ((fr + of_nat (bytes_of (lh_lay H p)), gap, fr + of_nat (bytes_of (lh_lay H p))), w\<lparr>wmem := m'\<rparr>) \<and>
    forward_inv (fstatic e) (h_start (sharedHeap (fgc w))) H m0 (passed @ [p]) ahead m'"
proof -
  let ?A = "set (lh_live H)" and ?S = "all_slots H (lh_live H)" and ?l = "lh_lay H p" and ?B = "h_start (sharedHeap (fgc w))"
  define d where "d = lh_dead H p"
  have live: "lh_live H = passed @ p # ahead" using inv by (simp add: forward_inv_def)
  have p: "p \<in> ?A" using live by simp
  have foot: "p - of_nat (hb ?l) = fr" unfolding fr by (rule header_place(3) [OF ok p])
  have dist: "distinct (passed @ p # ahead)" using compact_okD(1) [OF ok] live by simp
  note wo = words_ok_live [OF ok]
  obtain m1 ch D where adv: "advanceToObjectData (wmem w) fr = p"
    and run: "(if GC_VALID_HEADER_MASK AND getHeader (wmem w) p \<noteq> 0 then Some (wmem w) else unthread B' (slid_to H p) (getHeaderp p) (wmem w)) = Some m1"
    and mk: "GC_VALID_HEADER_MASK AND getHeader (wmem w) p \<noteq> 0 \<longrightarrow> MARK_MASK AND getHeader (wmem w) p \<noteq> 0"
    and inv1: "forward_inv (fstatic e) ?B H m0 passed (p # ahead) m1" and hd1: "getHeader m1 p = getHeader m0 p"
    and t1: "threading ?A ?S (slid_to H) m0 ch D m1" and D: "D \<subseteq> {c \<in> all_slots H passed. load64 m0 c \<in> set (lh_live H)}"
    and met: "\<forall>q\<in>?A. \<forall>c\<in>?S. load64 m0 c = q \<longrightarrow> (c \<in> all_slots H passed \<longleftrightarrow> c \<in> D \<or> c \<in> set (ch q))"
    and late: "\<forall>x y q. passed = x @ q # y \<longrightarrow> set (ch q) \<subseteq> obj_slots H (q # y)" and chp: "ch p = []"
    using forward_header [OF ok inv, of B'] unfolding foot by blast
  have K1: "agree (kept H (p # ahead)) m1 m0" and dr1: "\<forall>q\<in>set passed. dead_run (fstatic e) (?B) (outside H) m1 (lh_start H + of_nat (place H q - lh_dead H q)) (lh_dead H q)"
    using inv1 by (simp_all add: forward_inv_def)
  have step: "forward_step e c (fr, gap, fr - of_nat d) w = forward_thread e c p (fr, gap, fr - of_nat d) (w\<lparr>wmem := m1\<rparr>)"
    using run mk c(2) gap adv by (auto simp: forward_step_def Let_def split: if_splits)
  \<comment> \<open>the gap\<close>
  define x where "x = fr - of_nat d"
  have dle: "d \<le> place H p" by (simp add: d_def place_def)
  have x: "x = lh_start H + of_nat (place H p - d)" "x + of_nat d = fr" using dle by (simp_all add: x_def fr of_nat_diff)
  have run0: "dead_run (fstatic e) ?B (outside H) m1 x d"
  proof -
    have "outside H \<union> gap_region H p \<subseteq> kept H (p # ahead)" by (auto simp: kept_def)
    then have "agree (outside H \<union> region x d) m0 m1"
      using agree_sym [OF agree_mono [OF K1]] by (simp add: gap_region_def x(1) d_def)
    moreover have "d \<le> 2 ^ 64" using place_le [OF p] compact_okD(2) [OF ok] dle by simp
    ultimately show ?thesis using dead_run_agree compact_okD(5) [OF ok p] by (simp add: x(1) d_def)
  qed
  define m2 where "m2 = (if 32 \<le> d then compress_dead x (x + of_nat d) m1 else m1)"
  note comp = compress_gap [OF ok std p d_def [symmetric] x(1) run0 m2_def]
  have words2: "word8 y \<subseteq> - gap_region H p \<Longrightarrow> load64 m2 y = load64 m1 y" for y
    by (rule agree_load64 [OF agree_mono [OF comp(2)]])
  have off: "live_words H \<subseteq> - gap_region H p" using live_words_off(2) [OF ok _ p] by blast
  have t2: "threading ?A ?S (slid_to H) m0 ch D m2"
    by (rule threading_cong [OF t1]) (intro words2 subset_trans [OF _ off], fastforce simp: words_def)+
  have K2: "agree (kept H ahead) m2 m0"
  proof (rule agree_trans [OF agree_mono [OF comp(2)] agree_mono [OF K1]])
    show "kept H ahead \<subseteq> - gap_region H p"
      using kept_gap [OF ok p, of ahead] dist live by auto
    show "kept H ahead \<subseteq> kept H (p # ahead)" by (auto simp: kept_def)
  qed
  have hd2: "getHeader m2 p = getHeader m0 p"
    using words2 [of "p - 8"] off p hd1 by (auto simp: header_at words_def)
  have dr2: "\<forall>q\<in>set (passed @ [p]). dead_run (fstatic e) ?B (outside H) m2 (lh_start H + of_nat (place H q - lh_dead H q)) (lh_dead H q)"
  proof
    fix q assume q: "q \<in> set (passed @ [p])"
    show "dead_run (fstatic e) ?B (outside H) m2 (lh_start H + of_nat (place H q - lh_dead H q)) (lh_dead H q)"
    proof (cases "q = p")
      case True
      then show ?thesis using comp(1) by (simp add: x(1) d_def)
    next
      case False
      then have q': "q \<in> set passed" "q \<in> ?A" using q live by auto
      have "outside H \<union> gap_region H q \<subseteq> - gap_region H p"
        using gap_apart(1) [OF ok p q'(2) False] gap_apart(3) [OF ok p] by blast
      then have a: "agree (outside H \<union> gap_region H q) m1 m2" by (rule agree_sym [OF agree_mono [OF comp(2)]])
      have le: "lh_dead H q \<le> 2 ^ 64" using place_le [OF q'(2)] compact_okD(2) [OF ok] by (simp add: place_def)
      have dr: "dead_run (fstatic e) ?B (outside H) m1 (lh_start H + of_nat (place H q - lh_dead H q)) (lh_dead H q)"
        using dr1 q'(1) by blast
      show ?thesis by (rule dead_run_agree [OF dr le a [unfolded gap_region_def]])
    qed
  qed
  \<comment> \<open>the slots\<close>
  define cs where "cs = map (\<lambda>i. p + of_nat i) (ptrs ?l)"
  have cs: "set cs = (\<lambda>i. p + of_nat i) ` set (ptrs ?l)" by (simp add: cs_def)
  have cs1: "y \<in> ?S \<and> y \<notin> all_slots H passed" if y: "y \<in> set cs" for y
  proof -
    obtain i where "i \<in> set (ptrs ?l)" "y = p + of_nat i" using y cs by auto
    then show ?thesis using passed_slots [OF ok live] by simp
  qed
  then have csS: "set cs \<subseteq> ?S - D" using D by fastforce
  have csd: "distinct cs"
    unfolding cs_def distinct_map
  proof (intro conjI inj_onI live_layout(4) [OF ok p])
    fix i j assume ij: "i \<in> set (ptrs ?l)" "j \<in> set (ptrs ?l)" "p + of_nat i = p + of_nat j"
    show "i = j"
    proof (rule ccontr)
      assume "i \<noteq> j"
      then have "word8 (p + of_nat i) \<inter> word8 (p + of_nat j) = {}" using slots_apart_in [OF ok p ij(1) p ij(2)] by blast
      moreover have "p + of_nat i \<in> word8 (p + of_nat i)" by (simp add: word8_def)
      ultimately show False using ij(3) by auto
    qed
  qed
  have csch: "set cs \<inter> set (ch q) = {}" if q: "q \<in> ?A" for q
  proof -
    have "y \<notin> set (ch q)" if y: "y \<in> set cs" for y
    proof
      assume "y \<in> set (ch q)"
      then have "y \<in> ?S" "load64 m0 y = q" using threadingD(3) [OF t2 q] by blast+
      then have "y \<in> all_slots H passed" using met q \<open>y \<in> set (ch q)\<close> by blast
      then show False using cs1 [OF y] by blast
    qed
    then show ?thesis by blast
  qed
  have A: "isObjptr q \<and> isPointerInHeap (heap (fgc (w\<lparr>wmem := m2\<rparr>))) q \<and> getHeader m0 q \<noteq> GC_FORWARDED" if "q \<in> ?A" for q
    using compact_okD(4) [OF ok that] by (simp add: live_object_def)
  have sv: "slot_value (heap (fgc (w\<lparr>wmem := m2\<rparr>))) ?A (outside H) m0 (load64 m0 y)" if "y \<in> set cs" for y
    using compact_okD(12) [OF ok, of y] csS that by auto
  have out: "agree (outside H) (wmem (w\<lparr>wmem := m2\<rparr>)) m0" by (simp, rule agree_mono [OF K2]) (auto simp: kept_def)
  have t2': "threading ?A ?S (slid_to H) m0 ch D (wmem (w\<lparr>wmem := m2\<rparr>))" using t2 by simp
  have outw: "outside H \<inter> live_words H = {}" using live_words_off(1) [OF ok] by blast
  obtain m3 ch3 where m3: "foreach_slots (callIfIsObjptr threadInternalObjptrIfInLocalHeap) cs (w\<lparr>wmem := m2\<rparr>) = Some (w\<lparr>wmem := m3\<rparr>)"
      "threading ?A ?S (slid_to H) m0 ch3 D m3" "\<forall>q\<in>?A. set (ch3 q) = set (ch q) \<union> {y \<in> set cs. load64 m0 y = q}" "agree (- live_words H) m3 m2"
    using thread_slots [OF t2' wo csS csd csch sv out outw A] by auto
  have own: "obj_region H p - live_words H \<subseteq> kept H ps" for ps using p by (auto simp: kept_def)
  have walk: "foreachObjptrInObject (fenv e) threadInternalObjptrIfInLocalHeap False p (w\<lparr>wmem := m2\<rparr>) = Some (p + of_nat (bb ?l), w\<lparr>wmem := m3\<rparr>)"
    and lay: "layout_of (fstatic e) m2 p = Some ?l"
    using foreach_live [OF ok p, of "w\<lparr>wmem := m2\<rparr>"] hd2 agree_mono [OF K2 own] m3(1) by (simp_all add: cs_def)
  have lay1: "layout_of (fstatic e) m1 p = Some ?l"
    using foreach_live(2) [OF ok p, of "w\<lparr>wmem := m1\<rparr>"] hd1 agree_mono [OF K1 own] by simp
  obtain ty where ty: "splitHeader (objectTypes (fstatic e)) (getHeader m1 p) = Some ty" "forward_sizes e c m1 ty p = Some (of_nat (hb ?l), of_nat (bb ?l), 0, 0)"
    using forward_object_sizes [OF lay1] by blast
  have u: "unat (of_nat d :: u64) = d"
    using dle place_le [OF p] compact_okD(2) [OF ok] by (intro unat_of_nat_small) simp
  have big: "GC_ARRAY_HEADER_SIZE + OBJPTR_SIZE \<le> of_nat d \<longleftrightarrow> 32 \<le> d"
    using u by (simp add: header_sizes word_le_nat_alt)
  have cc: "compacts c" using c(1) by (simp add: compacts_def)
  have m2e: "32 \<le> d \<Longrightarrow> compress_dead (fr - of_nat d) fr m1 = m2" "\<not> 32 \<le> d \<Longrightarrow> m1 = m2"
    by (simp_all add: m2_def x_def)
  have nf: "getHeader m1 p \<noteq> GC_FORWARDED" using A [OF p] hd1 by simp
  have "forward_thread e c p (fr, gap, fr - of_nat d) (w\<lparr>wmem := m1\<rparr>) =
      Some ((fr + of_nat (bytes_of ?l), gap, fr + of_nat (bytes_of ?l)), w\<lparr>wmem := m3\<rparr>)"
  proof (cases "32 \<le> d")
    case True
    then show ?thesis using nf ty walk c(1) big cc by (simp add: forward_thread_def Let_def m2e(1))
  next
    case False
    then show ?thesis using nf ty walk c(1) big by (simp add: forward_thread_def Let_def m2e(2) [symmetric])
  qed
  moreover have "forward_inv (fstatic e) ?B H m0 (passed @ [p]) ahead m3"
    unfolding forward_inv_def
  proof (intro conjI exI)
    show "lh_live H = (passed @ [p]) @ ahead" using live by simp
    show "threading ?A ?S (slid_to H) m0 ch3 D m3" by (rule m3(2))
    show "D \<subseteq> {c \<in> all_slots H (passed @ [p]). load64 m0 c \<in> set (lh_live H)}" using D by auto
    show "\<forall>q\<in>?A. \<forall>y\<in>?S. load64 m0 y = q \<longrightarrow> (y \<in> all_slots H (passed @ [p]) \<longleftrightarrow> y \<in> D \<or> y \<in> set (ch3 q))"
    proof (intro ballI impI)
      fix q y assume q: "q \<in> ?A" and y: "y \<in> ?S" "load64 m0 y = q"
      have "y \<in> all_slots H (passed @ [p]) \<longleftrightarrow> y \<in> all_slots H passed \<or> y \<in> set cs" unfolding cs by auto
      moreover have "y \<in> set (ch3 q) \<longleftrightarrow> y \<in> set (ch q) \<or> y \<in> set cs" using m3(3) q y(2) by auto
      moreover have "y \<in> all_slots H passed \<longleftrightarrow> y \<in> D \<or> y \<in> set (ch q)" using met q y by blast
      ultimately show "y \<in> all_slots H (passed @ [p]) \<longleftrightarrow> y \<in> D \<or> y \<in> set (ch3 q)" by blast
    qed
    show "\<forall>x y q. passed @ [p] = x @ q # y \<longrightarrow> set (ch3 q) \<subseteq> obj_slots H (q # y)"
    proof (intro allI impI)
      fix x y q assume eq: "passed @ [p] = x @ q # y"
      have q: "q \<in> ?A" using arg_cong [OF eq, of set] live by auto
      show "set (ch3 q) \<subseteq> obj_slots H (q # y)"
      proof (cases y rule: rev_cases)
        case Nil
        then have "q = p" using eq by simp
        then have "set (ch3 q) \<subseteq> set cs" using m3(3) p chp by auto
        then show ?thesis using \<open>q = p\<close> Nil cs by simp
      next
        case (snoc y' z)
        then have "passed = x @ q # y'" "z = p" using eq by auto
        then have "set (ch q) \<subseteq> obj_slots H (q # y')" using late by blast
        moreover have "obj_slots H (q # y) = obj_slots H (q # y') \<union> set cs"
          unfolding snoc \<open>z = p\<close> cs by auto
        moreover have "set (ch3 q) \<subseteq> set (ch q) \<union> set cs" using m3(3) q by auto
        ultimately show ?thesis by blast
      qed
    qed
    show "agree (kept H ahead) m3 m0"
      by (rule agree_trans [OF agree_mono [OF m3(4)] K2]) (use kept_words [OF ok, of ahead] live in auto)
    show "\<forall>q\<in>set (passed @ [p]). dead_run (fstatic e) ?B (outside H) m3 (lh_start H + of_nat (place H q - lh_dead H q)) (lh_dead H q)"
      using dr2 dead_runs_words [OF ok _ m3(4)] live by simp
  qed
  ultimately show ?thesis using step by (auto simp: d_def)
qed

section \<open>The pass\<close>

lemma place_passed:
  assumes ok: "compact_ok g B h H m" and live: "lh_live H = passed @ p # ahead"
  shows "place H p = sum_list (map (lh_dead H) passed) + total (lh_lay H) passed + lh_dead H p"
    "p - of_nat (sum_list (map (lh_dead H) (passed @ [p]))) = slid_to H p"
    "slid_to H p = lh_start H + of_nat (total (lh_lay H) passed + hb (lh_lay H p))"
proof -
  have n: "p \<notin> set passed" using compact_okD(1) [OF ok] live by simp
  have t: "total (gapped H) ps = sum_list (map (lh_dead H) ps) + total (lh_lay H) ps" for ps
    by (induction ps) simp_all
  show 1: "place H p = sum_list (map (lh_dead H) passed) + total (lh_lay H) passed + lh_dead H p"
    by (simp add: place_def live pos_snoc [OF n] t)
  show 2: "slid_to H p = lh_start H + of_nat (total (lh_lay H) passed + hb (lh_lay H p))"
    by (simp add: slid_to_def new_at_def live pos_snoc [OF n])
  have "p = lh_start H + of_nat (place H p + hb (lh_lay H p))" using compact_okD(3) [OF ok] live by simp
  then show "p - of_nat (sum_list (map (lh_dead H) (passed @ [p]))) = slid_to H p"
    unfolding 2 1 by (simp add: algebra_simps)
qed

lemma before_end:
  assumes "compact_ok g B h H m" "k < extent H"
  shows "lh_start H + of_nat k \<noteq> lh_start H + of_nat (extent H)"
proof
  assume eq: "lh_start H + of_nat k = lh_start H + of_nat (extent H)"
  have "unat (lh_start H + of_nat k) = unat (lh_start H) + k" "unat (lh_start H + of_nat (extent H)) = unat (lh_start H) + extent H"
    using compact_ok_end [OF assms(1)] assms(2) by (intro unat_step; simp)+
  then show False using eq assms(2) by simp
qed

lemma extent_passed: "extent H = sum_list (map (lh_dead H) (lh_live H)) + total (lh_lay H) (lh_live H) + lh_behind H"
proof -
  have "total (gapped H) ps = sum_list (map (lh_dead H) ps) + total (lh_lay H) ps" for ps
    by (induction ps) simp_all
  then show ?thesis by (simp add: extent_def)
qed

lemma forward_pass_inv:
  assumes ok: "compact_ok (fstatic e) (h_start (sharedHeap (gcs (fmach r)))) (heap (gcs (fmach r))) H m0"
    and std: "std_types (fstatic e)" "align_arg (alignment (fstatic e))" "unat (alignment (fstatic e)) \<le> 8"
    and c: "\<not> sharedCollection c" "mc_start c = B'"
    and inv: "forward_inv (fstatic e) (h_start (sharedHeap (gcs (fmach r)))) H m0 passed ahead (wmem w)" "rest w = r"
    and fr: "fr = lh_start H + of_nat (sum_list (map (lh_dead H) passed) + total (lh_lay H) passed)"
  shows "\<exists>m'. forward_pass e c (lh_start H + of_nat (extent H)) (fr, of_nat (sum_list (map (lh_dead H) passed)), fr) w = Some (w\<lparr>wmem := m'\<rparr>) \<and>
    forward_inv (fstatic e) (h_start (sharedHeap (gcs (fmach r)))) H m0 (lh_live H) [] m'"
  using inv fr
proof (induction ahead arbitrary: passed w fr)
  case Nil
  let ?y = "lh_start H + of_nat (extent H)"
  have live: "lh_live H = passed" and K: "agree (kept H []) (wmem w) m0" using Nil.prems(1) by (simp_all add: forward_inv_def)
  have e: "extent H = sum_list (map (lh_dead H) passed) + total (lh_lay H) passed + lh_behind H"
    using extent_passed [of H] live by simp
  have fr: "fr = lh_start H + of_nat (extent H - lh_behind H)" "fr + of_nat (lh_behind H) = ?y"
    using Nil.prems(3) e by simp_all
  have "outside H \<union> region fr (lh_behind H) \<subseteq> kept H []" by (auto simp: kept_def tail_region_def fr(1))
  then have "agree (outside H \<union> region fr (lh_behind H)) m0 (wmem w)" using agree_sym [OF agree_mono [OF K]] by blast
  then have run: "dead_run (fstatic e) (h_start (sharedHeap (fgc w))) (outside H) (wmem w) fr (lh_behind H)"
    using dead_run_agree [OF compact_okD(7) [OF ok]] compact_okD(2) [OF ok] e Nil.prems(2) by (simp add: fr(1))
  have "fr + of_nat j \<noteq> ?y" if "j < lh_behind H" for j
  proof -
    have "fr + of_nat j = lh_start H + of_nat (extent H - lh_behind H + j)" unfolding fr(1) by (simp add: add.assoc)
    then show ?thesis using before_end [OF ok, of "extent H - lh_behind H + j"] that e by simp
  qed
  then have "forward_pass e c ?y (fr, gap, el) w = forward_pass e c ?y (?y, gap + of_nat (lh_behind H), el) w" for gap el
    using forward_dead_run [OF run] c(1) by (simp add: compacts_def fr(2))
  moreover have "forward_pass e c ?y (?y, gap, el) w = Some w" for gap el by (subst forward_pass.simps) simp
  ultimately show ?case using Nil.prems(1) live by (intro exI [of _ "wmem w"]) simp
next
  case (Cons p ahead)
  let ?y = "lh_start H + of_nat (extent H)" and ?d = "lh_dead H p"
  have live: "lh_live H = passed @ p # ahead" and K: "agree (kept H (p # ahead)) (wmem w) m0"
    using Cons.prems(1) by (simp_all add: forward_inv_def)
  have p: "p \<in> set (lh_live H)" using live by simp
  note pl = place_passed [OF ok live]
  define x where "x = lh_start H + of_nat (place H p)"
  have fr: "fr = lh_start H + of_nat (place H p - ?d)" "fr + of_nat ?d = x" "fr = x - of_nat ?d"
    using Cons.prems(3) pl(1) by (simp_all add: x_def)
  have "outside H \<union> region fr ?d \<subseteq> kept H (p # ahead)" by (auto simp: kept_def gap_region_def fr(1))
  then have "agree (outside H \<union> region fr ?d) m0 (wmem w)" using agree_sym [OF agree_mono [OF K]] by blast
  then have run: "dead_run (fstatic e) (h_start (sharedHeap (fgc w))) (outside H) (wmem w) fr ?d"
    using dead_run_agree [OF compact_okD(5) [OF ok p]] place_le [OF p] compact_okD(2) [OF ok] pl(1) Cons.prems(2)
    by (simp add: fr(1))
  have ends: "fr + of_nat j \<noteq> ?y" if "j < ?d + 1" for j
  proof -
    have eq: "fr + of_nat j = lh_start H + of_nat (place H p - ?d + j)" unfolding fr(1) by (simp add: add.assoc)
    have "place H p - ?d + j < extent H"
      using place_le [OF p] pl(1) that live_layout(1) [OF ok p] by auto
    then show ?thesis unfolding eq by (rule before_end [OF ok])
  qed
  let ?gap = "of_nat (sum_list (map (lh_dead H) (passed @ [p]))) :: size_t"
  have skip: "forward_pass e c ?y (fr, of_nat (sum_list (map (lh_dead H) passed)), fr) w = forward_pass e c ?y (x, ?gap, fr) w"
    using forward_dead_run [OF run, of c ?y] ends c(1) by (simp add: compacts_def fr(2))
  have inv': "forward_inv (fstatic e) (h_start (sharedHeap (fgc w))) H m0 passed (p # ahead) (wmem w)"
    using Cons.prems(1,2) by simp
  have ok': "compact_ok (fstatic e) (h_start (sharedHeap (fgc w))) (heap (fgc w)) H m0" using ok Cons.prems(2) by simp
  let ?x = "x + of_nat (bytes_of (lh_lay H p))"
  obtain m1 where m1: "forward_step e c (x, ?gap, fr) w = Some ((?x, ?gap, ?x), w\<lparr>wmem := m1\<rparr>)"
      "forward_inv (fstatic e) (h_start (sharedHeap (fgc w))) H m0 (passed @ [p]) ahead m1"
    using forward_object [OF ok' std c inv' x_def pl(2)] by (auto simp: fr(3))
  have "x \<noteq> ?y" using ends [of ?d] fr(2) by simp
  then have go: "forward_pass e c ?y (x, ?gap, fr) w = forward_pass e c ?y (?x, ?gap, ?x) (w\<lparr>wmem := m1\<rparr>)"
    using m1(1) by (subst forward_pass.simps) simp
  have x': "?x = lh_start H + of_nat (sum_list (map (lh_dead H) (passed @ [p])) + total (lh_lay H) (passed @ [p]))"
    using pl(1) by (simp add: x_def algebra_simps)
  have "\<exists>m'. forward_pass e c ?y (?x, ?gap, ?x) (w\<lparr>wmem := m1\<rparr>) = Some ((w\<lparr>wmem := m1\<rparr>)\<lparr>wmem := m'\<rparr>) \<and>
      forward_inv (fstatic e) (h_start (sharedHeap (gcs (fmach r)))) H m0 (lh_live H) [] m'"
    using m1(2) Cons.prems(2) by (intro Cons.IH [OF _ _ x']) simp_all
  then show ?case unfolding skip go by simp
qed

end
