(* ===== verification/Compact_Backward.thy ===== *)
theory Compact_Backward
  imports Compact_Forward
begin

text \<open>The second pass of the mark-compact collection.\<close>

section \<open>Objects that have been moved\<close>

definition slid_place :: "live_heap \<Rightarrow> pointer \<Rightarrow> nat" where
  "slid_place H p = pos (lh_lay H) (lh_live H) p"

definition slid_value :: "live_heap \<Rightarrow> objptr \<Rightarrow> objptr" where
  "slid_value H v = (if v \<in> set (lh_live H) then slid_to H v else v)"

text \<open>The object that was at \<open>p\<close> in \<open>m0\<close> is at its new place, not marked, with its pointers renamed and
  its other bytes as they were.\<close>

definition slid :: "live_heap \<Rightarrow> mem \<Rightarrow> mem \<Rightarrow> pointer \<Rightarrow> bool" where
  "slid H m0 m p \<longleftrightarrow> getHeader m (slid_to H p) = getHeader m0 p AND NOT MARK_MASK \<and>
    (\<forall>i\<in>set (ptrs (lh_lay H p)). load64 m (slid_to H p + of_nat i) = slid_value H (load64 m0 (p + of_nat i))) \<and>
    (\<forall>i<bytes_of (lh_lay H p). (i < hb (lh_lay H p) - 8 \<or> hb (lh_lay H p) \<le> i) \<and>
      (\<forall>k\<in>set (ptrs (lh_lay H p)). i < hb (lh_lay H p) + k \<or> hb (lh_lay H p) + k + 8 \<le> i) \<longrightarrow>
      m (slid_to H p - of_nat (hb (lh_lay H p)) + of_nat i) = m0 (p - of_nat (hb (lh_lay H p)) + of_nat i))"

lemma slid_to_place: "slid_to H p = lh_start H + of_nat (slid_place H p + hb (lh_lay H p))"
  by (simp add: slid_to_def new_at_def slid_place_def)

lemma slid_place_passed:
  assumes ok: "compact_ok g B h H m" and live: "lh_live H = passed @ p # ahead"
  shows "slid_place H p = total (lh_lay H) passed" "slid_place H p \<le> place H p"
    "q \<in> set passed \<Longrightarrow> slid_place H q + bytes_of (lh_lay H q) \<le> slid_place H p"
proof -
  have n: "p \<notin> set passed" using compact_okD(1) [OF ok] live by simp
  show 1: "slid_place H p = total (lh_lay H) passed" by (simp add: slid_place_def live pos_snoc [OF n])
  show "slid_place H p \<le> place H p" using place_passed(1) [OF ok live] 1 by simp
  assume "q \<in> set passed"
  then show "slid_place H q + bytes_of (lh_lay H q) \<le> slid_place H p"
    using pos_le [of q passed "lh_lay H"] 1 by (simp add: slid_place_def live pos_append)
qed

text \<open>The bytes below the address at distance \<open>n\<close>, and the moved objects there.\<close>

abbreviation below :: "live_heap \<Rightarrow> nat \<Rightarrow> pointer set" where "below H n \<equiv> {x. off (lh_start H) x < n}"

lemma slid_cong:
  assumes ok: "compact_ok g B h H m0" and p: "p \<in> set (lh_live H)" and s: "slid H m0 m p"
    and a: "agree (below H n) m' m" and n: "slid_place H p + bytes_of (lh_lay H p) \<le> n" "n \<le> 2 ^ 64"
  shows "slid H m0 m' p"
proof -
  let ?l = "lh_lay H p" and ?f = "lh_start H + of_nat (slid_place H p)"
  have hb: "hb ?l = 8 \<or> hb ?l = 24" by (rule live_layout(1) [OF ok p])
  have byte: "m' (?f + of_nat i) = m (?f + of_nat i)" if "i < bytes_of ?l" for i
  proof -
    have "?f + of_nat i = lh_start H + of_nat (slid_place H p + i)" by (simp add: add.assoc)
    moreover have "off (lh_start H) (lh_start H + of_nat (slid_place H p + i)) < n"
      using that n unat_of_nat_small [of "slid_place H p + i"] by (simp del: of_nat_add)
    ultimately show ?thesis using a by (simp add: agree_def)
  qed
  have w: "load64 m' (?f + of_nat i) = load64 m (?f + of_nat i)" if "i + 8 \<le> bytes_of ?l" for i
    by (rule load64_shift [where n = "bytes_of ?l"]) (use byte that in auto)
  have at: "slid_to H p - 8 = ?f + of_nat (hb ?l - 8)" "slid_to H p + of_nat i = ?f + of_nat (hb ?l + i)"
    "slid_to H p - of_nat (hb ?l) = ?f" for i
    using hb by (auto simp: slid_to_place add.assoc)
  have "getHeader m' (slid_to H p) = getHeader m (slid_to H p)"
    using w [of "hb ?l - 8"] hb by (auto simp: header_at at)
  moreover have "load64 m' (slid_to H p + of_nat i) = load64 m (slid_to H p + of_nat i)" if "i \<in> set (ptrs ?l)" for i
    unfolding at using live_layout(2) [OF ok p that] by (intro w) simp
  ultimately show ?thesis using s byte unfolding slid_def at(3) by metis
qed

section \<open>The invariant of the second pass\<close>

text \<open>The objects \<open>passed\<close> have been moved, \<open>ahead\<close> are in their old places.\<close>

definition backward_inv :: "gc_static \<Rightarrow> pointer \<Rightarrow> live_heap \<Rightarrow> mem \<Rightarrow> pointer list \<Rightarrow> pointer list \<Rightarrow> mem \<Rightarrow> bool" where
  "backward_inv g B H m0 passed ahead m \<longleftrightarrow> lh_live H = passed @ ahead \<and>
    (\<exists>ch D. threading (set ahead) (all_slots H ahead) (slid_to H) m0 ch D m \<and>
      (\<forall>c\<in>all_slots H ahead. c \<in> D \<longrightarrow> load64 m0 c \<in> set (lh_live H)) \<and>
      (\<forall>c\<in>all_slots H ahead. load64 m0 c \<in> set (lh_live H) \<longrightarrow>
        c \<in> D \<or> (load64 m0 c \<in> set ahead \<and> c \<in> set (ch (load64 m0 c)))) \<and>
      (\<forall>x y p. ahead = x @ p # y \<longrightarrow> set (ch p) \<subseteq> obj_slots H (p # y))) \<and>
    agree (outside H \<union> ((\<Union>p\<in>set ahead. obj_region H p) - live_words H)) m m0 \<and>
    (\<forall>p\<in>set ahead. dead_run g B (outside H) m (lh_start H + of_nat (place H p - lh_dead H p)) (lh_dead H p)) \<and>
    dead_run g B (outside H) m (lh_start H + of_nat (extent H - lh_behind H)) (lh_behind H) \<and>
    (\<forall>p\<in>set passed. slid H m0 m p)"

lemma backward_start:
  assumes ok: "compact_ok g B h H m0" and inv: "forward_inv g B H m0 (lh_live H) [] m"
  shows "backward_inv g B H m0 [] (lh_live H) m"
proof -
  let ?A = "set (lh_live H)" and ?S = "all_slots H (lh_live H)"
  obtain ch D where t: "threading ?A ?S (slid_to H) m0 ch D m" and D: "D \<subseteq> {c \<in> ?S. load64 m0 c \<in> ?A}"
    and met: "\<forall>p\<in>?A. \<forall>c\<in>?S. load64 m0 c = p \<longrightarrow> (c \<in> ?S \<longleftrightarrow> c \<in> D \<or> c \<in> set (ch p))"
    and late: "\<forall>x y p. lh_live H = x @ p # y \<longrightarrow> set (ch p) \<subseteq> obj_slots H (p # y)"
    using inv unfolding forward_inv_def by blast
  have K: "agree (kept H []) m m0" and dr: "\<forall>p\<in>?A. dead_run g B (outside H) m (lh_start H + of_nat (place H p - lh_dead H p)) (lh_dead H p)"
    using inv by (simp_all add: forward_inv_def)
  have "outside H \<union> tail_region H \<subseteq> kept H []" by (auto simp: kept_def)
  then have "agree (outside H \<union> tail_region H) m0 m" using agree_sym [OF agree_mono [OF K]] by blast
  moreover have "lh_behind H \<le> 2 ^ 64" using compact_okD(2) [OF ok] by (simp add: extent_def)
  ultimately have tail: "dead_run g B (outside H) m (lh_start H + of_nat (extent H - lh_behind H)) (lh_behind H)"
    unfolding tail_region_def by (intro dead_run_agree [OF compact_okD(7) [OF ok]])
  have K': "agree (outside H \<union> ((\<Union>p\<in>?A. obj_region H p) - live_words H)) m m0"
    by (rule agree_mono [OF K]) (auto simp: kept_def)
  show ?thesis
    unfolding backward_inv_def using t D met late dr tail K'
    by (intro conjI exI [of _ ch] exI [of _ D]) (blast | simp)+
qed

lemma threading_restrict:
  assumes t: "threading A S N m0 ch D m" and sub: "A' \<subseteq> A" "S' \<subseteq> S"
    and ch: "\<And>p. p \<in> A' \<Longrightarrow> set (ch p) \<subseteq> S'" "\<And>p. p \<in> A - A' \<Longrightarrow> ch p = []"
  shows "threading A' S' N m0 ch D m"
  unfolding threading_def
proof (intro conjI ballI impI)
  fix p assume p: "p \<in> A'"
  then have "p \<in> A" using sub by blast
  then show "threaded m (p - 8) (ch p) (load64 m0 (p - 8))" "distinct (ch p)" using threadingD(1,2) [OF t] by blast+
next
  fix p c assume "p \<in> A'" "c \<in> set (ch p)"
  then show "c \<in> S'" "load64 m0 c = p" "c \<notin> D" using threadingD(3) [OF t, of p c] sub ch(1) [of p] by blast+
next
  fix c assume "c \<in> S'" "c \<in> D"
  then show "load64 m c = N (load64 m0 c)" using threadingD(4) [OF t] sub by blast
next
  fix c assume c: "c \<in> S'" "c \<notin> D \<and> (load64 m0 c \<in> A' \<longrightarrow> c \<notin> set (ch (load64 m0 c)))"
  have "c \<notin> set (ch (load64 m0 c))" if "load64 m0 c \<in> A"
    using c that ch(2) [of "load64 m0 c"] by (cases "load64 m0 c \<in> A'") auto
  then show "load64 m c = load64 m0 c" using c sub by (intro threadingD(5) [OF t]) auto
qed

lemma GC_memcpy_bytes:
  assumes "n < 2 ^ 64"
  shows "i < n \<Longrightarrow> GC_memcpy src dst (of_nat n) m (dst + of_nat i) = m (src + of_nat i)"
    "n \<le> off dst x \<Longrightarrow> GC_memcpy src dst (of_nat n) m x = m x"
proof -
  have u: "unat (of_nat n :: u64) = n" using assms by (rule unat_of_nat_small)
  show "GC_memcpy src dst (of_nat n) m (dst + of_nat i) = m (src + of_nat i)" if "i < n"
  proof -
    have "unat (of_nat i :: u64) = i" using that assms by (intro unat_of_nat_small) simp
    then show ?thesis using that u by (simp add: GC_memcpy_def memcpy_def word_less_nat_alt)
  qed
  show "GC_memcpy src dst (of_nat n) m x = m x" if "n \<le> off dst x"
    using that u by (simp add: GC_memcpy_def memcpy_other)
qed

section \<open>One object\<close>

text \<open>What is ahead, or not in the heap, lies behind the object that is moved.\<close>

lemma behind_object:
  assumes ok: "compact_ok g B h H m" and live: "lh_live H = passed @ p # ahead"
    and q: "q \<in> set ahead"
  shows "x \<in> obj_region H q \<or> x \<in> gap_region H q \<Longrightarrow> place H p + bytes_of (lh_lay H p) \<le> off (lh_start H) x"
proof -
  have p: "p \<in> set (lh_live H)" "q \<in> set (lh_live H)" "p \<noteq> q" using live q compact_okD(1) [OF ok] by auto
  obtain qs rs where a: "ahead = qs @ q # rs" using q by (auto simp: in_set_conv_decomp)
  have live2: "lh_live H = (passed @ p # qs) @ q # rs" using live a by simp
  have "place H p + bytes_of (lh_lay H p) + lh_dead H q \<le> place H q"
    using place_passed(1) [OF ok live] place_passed(1) [OF ok live2] by simp
  then show "place H p + bytes_of (lh_lay H p) \<le> off (lh_start H) x" if "x \<in> obj_region H q \<or> x \<in> gap_region H q"
    using that regions(1,2) [OF ok p(2), of x] by auto
qed

lemma words_ahead:
  assumes ok: "compact_ok g B h H m" and sub: "set ahead \<subseteq> set (lh_live H)" and x: "x \<in> words (set ahead) (all_slots H ahead)"
  shows "x \<in> live_words H" "(\<exists>q\<in>set ahead. x \<in> obj_region H q) \<or> extent H \<le> off (lh_start H) x"
proof -
  show "x \<in> live_words H" using x sub obj_slots_mono [OF sub, of H] by (fastforce simp: words_def)
  consider q where "q \<in> set ahead" "x \<in> word8 (q - 8)" | r where "r \<in> lh_roots H" "x \<in> word8 r"
    | q i where "q \<in> set ahead" "i \<in> set (ptrs (lh_lay H q))" "x \<in> word8 (q + of_nat i)"
    using x by (auto simp: words_def obj_slots_def)
  then show "(\<exists>q\<in>set ahead. x \<in> obj_region H q) \<or> extent H \<le> off (lh_start H) x"
  proof cases
    case 1
    then have "q \<in> set (lh_live H)" using sub by blast
    then have "x \<in> obj_region H q" using header_word [OF ok _, of q x] regions(1) [OF ok, of q x] 1(2) by auto
    then show ?thesis using 1(1) by blast
  next
    case 2
    then show ?thesis using root_word [OF ok] by blast
  next
    case 3
    then have q: "q \<in> set (lh_live H)" using sub by blast
    note b = live_layout(2) [OF ok q 3(2)]
    have "x \<in> obj_region H q" using slot_word [OF ok q b] regions(1) [OF ok q, of x] 3(3) b by auto
    then show ?thesis using 3(1) by blast
  qed
qed

text \<open>The header comes back, and then all slots of the object have their final values.\<close>

lemma backward_header:
  assumes ok: "compact_ok g B h H m0" and inv: "backward_inv g B H m0 passed (p # ahead) m"
  shows "\<exists>m1 ch D. advanceToObjectData m (p - of_nat (hb (lh_lay H p))) = p \<and>
    (if GC_VALID_HEADER_MASK AND getHeader m p \<noteq> 0 then Some m else unthread B' (slid_to H p) (getHeaderp p) m) = Some m1 \<and>
    (GC_VALID_HEADER_MASK AND getHeader m p \<noteq> 0 \<longrightarrow> MARK_MASK AND getHeader m p \<noteq> 0) \<and>
    getHeader m1 p = getHeader m0 p \<and> agree (- words (set (p # ahead)) (all_slots H (p # ahead))) m1 m \<and>
    (\<forall>i\<in>set (ptrs (lh_lay H p)). load64 m1 (p + of_nat i) = slid_value H (load64 m0 (p + of_nat i))) \<and>
    threading (set ahead) (all_slots H ahead) (slid_to H) m0 ch D m1 \<and>
    (\<forall>c\<in>all_slots H ahead. c \<in> D \<longrightarrow> load64 m0 c \<in> set (lh_live H)) \<and>
    (\<forall>c\<in>all_slots H ahead. load64 m0 c \<in> set (lh_live H) \<longrightarrow>
      c \<in> D \<or> (load64 m0 c \<in> set ahead \<and> c \<in> set (ch (load64 m0 c)))) \<and>
    (\<forall>x y q. ahead = x @ q # y \<longrightarrow> set (ch q) \<subseteq> obj_slots H (q # y))"
proof -
  let ?A = "set (p # ahead)" and ?S = "all_slots H (p # ahead)"
  have live: "lh_live H = passed @ p # ahead"
    and K: "agree (outside H \<union> ((\<Union>q\<in>?A. obj_region H q) - live_words H)) m m0"
    using inv unfolding backward_inv_def by blast+
  obtain ch D where t: "threading ?A ?S (slid_to H) m0 ch D m"
    and Dl: "\<forall>c\<in>?S. c \<in> D \<longrightarrow> load64 m0 c \<in> set (lh_live H)"
    and met: "\<forall>c\<in>?S. load64 m0 c \<in> set (lh_live H) \<longrightarrow> c \<in> D \<or> (load64 m0 c \<in> ?A \<and> c \<in> set (ch (load64 m0 c)))"
    and late: "\<forall>x y q. p # ahead = x @ q # y \<longrightarrow> set (ch q) \<subseteq> obj_slots H (q # y)"
    using inv unfolding backward_inv_def by blast
  have p: "p \<in> set (lh_live H)" "p \<in> ?A" using live by simp_all
  have sub: "?A \<subseteq> set (lh_live H)" "?S \<subseteq> all_slots H (lh_live H)" using live by auto
  have dist: "p \<notin> set ahead" using compact_okD(1) [OF ok] live by simp
  have wo: "words_ok ?A ?S" by (rule words_ok_mono [OF words_ok_live [OF ok] sub])
  have h: "GC_VALID_HEADER_MASK AND getHeader m0 p \<noteq> 0" "MARK_MASK AND getHeader m0 p \<noteq> 0"
    using compact_okD(4) [OF ok p(1)] by (simp_all add: live_object_def)
  have adv: "advanceToObjectData m (p - of_nat (hb (lh_lay H p))) = p"
    by (rule live_advance [OF ok p(1) t sub(2) p(2)]) (rule agree_mono [OF K], use p in auto)
  let ?ch = "ch(p := [])" and ?D = "D \<union> set (ch p)"
  obtain m1 where m1: "(if GC_VALID_HEADER_MASK AND getHeader m p \<noteq> 0 then Some m else unthread B' (slid_to H p) (getHeaderp p) m) = Some m1"
      "GC_VALID_HEADER_MASK AND getHeader m p \<noteq> 0 \<longrightarrow> MARK_MASK AND getHeader m p \<noteq> 0"
      "threading ?A ?S (slid_to H) m0 ?ch ?D m1" "agree (- words ?A ?S) m1 m" "getHeader m1 p = getHeader m0 p"
    using unthread_first [OF t wo p(2) h, of B'] by blast
  have chp: "load64 m0 c = p" if "c \<in> set (ch p)" for c using threadingD(3) [OF t p(2) that] by blast
  \<comment> \<open>no slot of \<open>p\<close> is in the chain of a later object\<close>
  have own: "p + of_nat i \<notin> set (ch q)" if i: "i \<in> set (ptrs (lh_lay H p))" and q: "q \<in> set ahead" for i q
  proof
    assume c: "p + of_nat i \<in> set (ch q)"
    obtain x y where xy: "ahead = x @ q # y" using q by (auto simp: in_set_conv_decomp)
    then have "p # ahead = (p # x) @ q # y" by simp
    then have "set (ch q) \<subseteq> obj_slots H (q # y)" using late by blast
    then have "p + of_nat i \<in> obj_slots H (q # y)" using c by blast
    then obtain q' j where q': "q' \<in> set (q # y)" "j \<in> set (ptrs (lh_lay H q'))" "p + of_nat i = q' + of_nat j"
      by (rule obj_slotsE)
    have "q' \<in> set (lh_live H)" "p \<noteq> q'" using q' xy live dist by auto
    then have "word8 (p + of_nat i) \<inter> word8 (q' + of_nat j) = {}" using slots_apart_in [OF ok p(1) i _ q'(2)] by blast
    moreover have "p + of_nat i \<in> word8 (p + of_nat i)" by (simp add: word8_def)
    ultimately show False using q'(3) by auto
  qed
  have slots: "load64 m1 (p + of_nat i) = slid_value H (load64 m0 (p + of_nat i))" if i: "i \<in> set (ptrs (lh_lay H p))" for i
  proof -
    let ?c = "p + of_nat i"
    have c: "?c \<in> ?S" using i by simp
    show ?thesis
    proof (cases "load64 m0 ?c \<in> set (lh_live H)")
      case True
      have "?c \<in> ?D"
      proof (rule ccontr)
        assume n: "?c \<notin> ?D"
        then have "load64 m0 ?c \<in> ?A" "?c \<in> set (ch (load64 m0 ?c))" using met c True by blast+
        then show False using own [OF i] n by auto
      qed
      then show ?thesis using threadingD(4) [OF m1(3) c] True by (simp add: slid_value_def)
    next
      case False
      have "?c \<notin> D" using Dl c False by blast
      moreover have "?c \<notin> set (ch p)" using chp [of ?c] False p(1) by auto
      ultimately have "?c \<notin> ?D" by simp
      moreover have "load64 m0 ?c \<notin> ?A" using False sub(1) by blast
      ultimately show ?thesis using threadingD(5) [OF m1(3) c] False by (simp add: slid_value_def)
    qed
  qed
  have late': "set (?ch q) \<subseteq> obj_slots H (q # y)" if "ahead = x @ q # y" for x y q
  proof -
    have "p # ahead = (p # x) @ q # y" using that by simp
    moreover have "q \<noteq> p" using dist that by auto
    ultimately show ?thesis using late by simp
  qed
  have sub': "set (?ch q) \<subseteq> all_slots H ahead" if "q \<in> set ahead" for q
  proof -
    obtain x y where xy: "ahead = x @ q # y" using \<open>q \<in> set ahead\<close> by (auto simp: in_set_conv_decomp)
    then have "obj_slots H (q # y) \<subseteq> obj_slots H ahead" by (intro obj_slots_mono) auto
    then show ?thesis using late' [OF xy] by blast
  qed
  have t': "threading (set ahead) (all_slots H ahead) (slid_to H) m0 ?ch ?D m1"
    by (rule threading_restrict [OF m1(3) _ _ sub']) auto
  have Dl': "\<forall>c\<in>all_slots H ahead. c \<in> ?D \<longrightarrow> load64 m0 c \<in> set (lh_live H)"
    using Dl chp p(1) by auto
  have met': "\<forall>c\<in>all_slots H ahead. load64 m0 c \<in> set (lh_live H) \<longrightarrow>
      c \<in> ?D \<or> (load64 m0 c \<in> set ahead \<and> c \<in> set (?ch (load64 m0 c)))"
  proof (intro ballI impI)
    fix c assume c: "c \<in> all_slots H ahead" "load64 m0 c \<in> set (lh_live H)"
    then have "c \<in> D \<or> (load64 m0 c \<in> ?A \<and> c \<in> set (ch (load64 m0 c)))" using met by auto
    then show "c \<in> ?D \<or> (load64 m0 c \<in> set ahead \<and> c \<in> set (?ch (load64 m0 c)))"
      by (cases "load64 m0 c = p") auto
  qed
  show ?thesis
    using adv m1(1,2,4,5) slots t' Dl' met' late'
    by (intro exI [of _ m1] exI [of _ ?ch] exI [of _ ?D] conjI) (blast | simp)+
qed

lemma backward_object:
  assumes ok: "compact_ok (fstatic e) (h_start (sharedHeap (fgc w))) (heap (fgc w)) H m0"
    and c: "mc_start c = B'"
    and inv: "backward_inv (fstatic e) (h_start (sharedHeap (fgc w))) H m0 passed (p # ahead) (wmem w)"
    and fr: "fr = lh_start H + of_nat (place H p)" and gap: "p - gap = slid_to H p"
  shows "\<exists>m'. backward_step e c (fr, gap) w = Some ((fr + of_nat (bytes_of (lh_lay H p)), gap), w\<lparr>wmem := m'\<rparr>) \<and>
    backward_inv (fstatic e) (h_start (sharedHeap (fgc w))) H m0 (passed @ [p]) ahead m'"
proof -
  let ?l = "lh_lay H p" and ?B = "h_start (sharedHeap (fgc w))" and ?m = "wmem w" and ?A = "set (p # ahead)" and ?S = "all_slots H (p # ahead)"
  have live: "lh_live H = passed @ p # ahead"
    and K: "agree (outside H \<union> ((\<Union>q\<in>?A. obj_region H q) - live_words H)) ?m m0"
    and dr: "\<forall>q\<in>?A. dead_run (fstatic e) ?B (outside H) ?m (lh_start H + of_nat (place H q - lh_dead H q)) (lh_dead H q)"
    and tail: "dead_run (fstatic e) ?B (outside H) ?m (lh_start H + of_nat (extent H - lh_behind H)) (lh_behind H)"
    and sl: "\<forall>q\<in>set passed. slid H m0 ?m q"
    using inv unfolding backward_inv_def by blast+
  have p: "p \<in> set (lh_live H)" using live by simp
  have sub: "set ahead \<subseteq> set (lh_live H)" "?A \<subseteq> set (lh_live H)" using live by auto
  have foot: "p - of_nat (hb ?l) = fr" unfolding fr by (rule header_place(3) [OF ok p])
  note hb = live_layout(1) [OF ok p] and e = compact_okD(2) [OF ok]
  note pl = place_le [OF p] and sp = slid_place_passed [OF ok live]
  obtain m1 ch D where adv: "advanceToObjectData ?m fr = p"
    and run: "(if GC_VALID_HEADER_MASK AND getHeader ?m p \<noteq> 0 then Some ?m else unthread B' (slid_to H p) (getHeaderp p) ?m) = Some m1"
    and mk: "GC_VALID_HEADER_MASK AND getHeader ?m p \<noteq> 0 \<longrightarrow> MARK_MASK AND getHeader ?m p \<noteq> 0"
    and hd1: "getHeader m1 p = getHeader m0 p" and a1: "agree (- words ?A ?S) m1 ?m"
    and slots1: "\<forall>i\<in>set (ptrs ?l). load64 m1 (p + of_nat i) = slid_value H (load64 m0 (p + of_nat i))"
    and t1: "threading (set ahead) (all_slots H ahead) (slid_to H) m0 ch D m1"
    and Dl: "\<forall>c\<in>all_slots H ahead. c \<in> D \<longrightarrow> load64 m0 c \<in> set (lh_live H)"
    and met: "\<forall>c\<in>all_slots H ahead. load64 m0 c \<in> set (lh_live H) \<longrightarrow>
      c \<in> D \<or> (load64 m0 c \<in> set ahead \<and> c \<in> set (ch (load64 m0 c)))"
    and late: "\<forall>x y q. ahead = x @ q # y \<longrightarrow> set (ch q) \<subseteq> obj_slots H (q # y)"
    using backward_header [OF ok inv, of B'] unfolding foot by blast
  have step: "backward_step e c (fr, gap) w = backward_unmark e c p (fr, gap) (w\<lparr>wmem := m1\<rparr>)"
    using run mk c gap adv by (auto simp: backward_step_def Let_def split: if_splits)
  \<comment> \<open>what threading has left alone\<close>
  have wA: "x \<in> live_words H" "place H p \<le> off (lh_start H) x" if "x \<in> words ?A ?S" for x
  proof -
    show "x \<in> live_words H" by (rule words_ahead(1) [OF ok sub(2) that])
    from words_ahead(2) [OF ok sub(2) that] show "place H p \<le> off (lh_start H) x"
      using regions(1) [OF ok p, of x] behind_object [OF ok live, of _ x] pl by force
  qed
  have K1: "agree (outside H \<union> ((\<Union>q\<in>?A. obj_region H q) - live_words H)) m1 m0"
    by (rule agree_trans [OF agree_mono [OF a1] K]) (use wA(1) live_words_off(1) [OF ok] in blast)
  have own: "obj_region H p - live_words H \<subseteq> outside H \<union> ((\<Union>q\<in>?A. obj_region H q) - live_words H)" by auto
  have lay: "layout_of (fstatic e) m1 p = Some ?l"
    using foreach_live(2) [OF ok p, of "w\<lparr>wmem := m1\<rparr>"] hd1 agree_mono [OF K1 own] by simp
  obtain ty where ty: "splitHeader (objectTypes (fstatic e)) (getHeader m1 p) = Some ty"
      "backward_sizes e c ty p m1 = Some (of_nat (hb ?l), of_nat (bb ?l), 0, 0, m1)"
    using forward_object_sizes [OF lay] by blast
  have nf: "getHeader m1 p \<noteq> GC_FORWARDED" using compact_okD(4) [OF ok p] hd1 by (simp add: live_object_def)
  define f where "f = lh_start H + of_nat (slid_place H p)"
  have fg: "fr - gap = f"
    using gap unfolding foot [symmetric] f_def slid_to_place by (simp add: algebra_simps)
  define m2 where "m2 = store64 m1 (p - 8) (getHeader m1 p AND NOT MARK_MASK)"
  define m3 where "m3 = GC_memcpy fr f (of_nat (bytes_of ?l)) m2"
  have un: "backward_unmark e c p (fr, gap) (w\<lparr>wmem := m1\<rparr>) = Some ((fr + of_nat (bytes_of ?l), gap), w\<lparr>wmem := m3\<rparr>)"
    using nf ty by (simp add: backward_unmark_def Let_def m3_def m2_def fg getHeaderp_def GC_HEADER_SIZE_def)
  have lt: "bytes_of ?l < 2 ^ 64" using pl e by simp
  note copy = GC_memcpy_bytes [OF lt]
  \<comment> \<open>the object\<close>
  have moved: "load64 m3 (f + of_nat i) = load64 m2 (fr + of_nat i)" if "i + 8 \<le> bytes_of ?l" for i
    by (rule load64_shift [where n = "bytes_of ?l"]) (use copy(1) that in \<open>auto simp: m3_def\<close>)
  have at: "p - 8 = fr + of_nat (hb ?l - 8)" "p + of_nat i = fr + of_nat (hb ?l + i)"
      "slid_to H p - 8 = f + of_nat (hb ?l - 8)" "slid_to H p + of_nat i = f + of_nat (hb ?l + i)" "slid_to H p - of_nat (hb ?l) = f" for i
  proof -
    have "p = fr + of_nat (hb ?l)" using foot by auto
    then show "p - 8 = fr + of_nat (hb ?l - 8)" "p + of_nat i = fr + of_nat (hb ?l + i)"
      using hb by (auto simp: add.assoc)
    show "slid_to H p - 8 = f + of_nat (hb ?l - 8)" "slid_to H p + of_nat i = f + of_nat (hb ?l + i)" "slid_to H p - of_nat (hb ?l) = f"
      using hb by (auto simp: slid_to_place f_def add.assoc)
  qed
  have slidp: "slid H m0 m3 p"
    unfolding slid_def
  proof (intro conjI ballI allI impI)
    have "getHeader m3 (slid_to H p) = load64 m2 (p - 8)"
      using moved [of "hb ?l - 8"] hb by (auto simp: header_at at(1,3))
    then show "getHeader m3 (slid_to H p) = getHeader m0 p AND NOT MARK_MASK" using hd1 by (simp add: m2_def)
  next
    fix i assume i: "i \<in> set (ptrs ?l)"
    have b: "i + 8 \<le> bb ?l" by (rule live_layout(2) [OF ok p i])
    have "load64 m3 (slid_to H p + of_nat i) = load64 m2 (p + of_nat i)"
      unfolding at(2,4) using moved [of "hb ?l + i"] b by simp
    also have "\<dots> = load64 m1 (p + of_nat i)"
      using header_slot_disjnt [OF ok p p i] by (simp add: m2_def load64_store64_disjnt word8_disjnt)
    finally show "load64 m3 (slid_to H p + of_nat i) = slid_value H (load64 m0 (p + of_nat i))" using slots1 i by simp
  next
    fix i assume i: "i < bytes_of ?l" and free: "(i < hb ?l - 8 \<or> hb ?l \<le> i) \<and> (\<forall>k\<in>set (ptrs ?l). i < hb ?l + k \<or> hb ?l + k + 8 \<le> i)"
    have o: "off (lh_start H) (fr + of_nat i) = place H p + i"
    proof -
      have "fr + of_nat i = lh_start H + of_nat (place H p + i)" by (simp add: fr add.assoc)
      then show ?thesis using i pl e unat_of_nat_small [of "place H p + i"] by (simp del: of_nat_add)
    qed
    have "fr + of_nat i \<notin> word8 (p - 8)" using header_word [OF ok p, of "fr + of_nat i"] o free hb by auto
    then have h8: "8 \<le> off (p - 8) (fr + of_nat i)" by (simp add: word8_def)
    have "fr + of_nat i \<notin> live_words H"
    proof
      assume "fr + of_nat i \<in> live_words H"
      then consider q where "q \<in> set (lh_live H)" "fr + of_nat i \<in> word8 (q - 8)" | r where "r \<in> lh_roots H" "fr + of_nat i \<in> word8 r"
        | q k where "q \<in> set (lh_live H)" "k \<in> set (ptrs (lh_lay H q))" "fr + of_nat i \<in> word8 (q + of_nat k)"
        unfolding words_def obj_slots_def by blast
      then show False
      proof cases
        case 1
        then show ?thesis
          using header_word [OF ok 1(1)] o place_apart [OF p 1(1)] i hb live_layout(1) [OF ok 1(1)] free
          by (cases "q = p") auto
      next
        case 2
        then show ?thesis using root_word [OF ok 2] o i pl by simp
      next
        case 3
        note b = live_layout(2) [OF ok 3(1,2)]
        show ?thesis
          using slot_word [OF ok 3(1) b, of "fr + of_nat i"] 3 o place_apart [OF p 3(1)] i b free by (cases "q = p") auto
      qed
    qed
    moreover have "fr + of_nat i \<in> obj_region H p" using regions(1) [OF ok p] o i by simp
    ultimately have "m1 (fr + of_nat i) = m0 (fr + of_nat i)" using K1 by (auto simp: agree_def)
    then show "m3 (slid_to H p - of_nat (hb ?l) + of_nat i) = m0 (p - of_nat (hb ?l) + of_nat i)"
      unfolding at(5) foot using copy(1) [OF i] h8 by (simp add: m3_def m2_def store64_other)
  qed
  \<comment> \<open>the rest\<close>
  have chg: "m3 x = m1 x" if "x \<notin> region f (bytes_of ?l)" "x \<notin> word8 (p - 8)" for x
    using that copy(2) by (simp add: m3_def m2_def word8_def not_less store64_other)
  have rf: "x \<in> region f (bytes_of ?l) \<longleftrightarrow> slid_place H p \<le> off (lh_start H) x \<and> off (lh_start H) x < slid_place H p + bytes_of ?l" for x
    unfolding f_def mem_Collect_eq using sp(2) pl e by (intro region_offset) simp
  define U where "U = {x. place H p + bytes_of ?l \<le> off (lh_start H) x}"
  have aU: "agree U m3 m1"
    unfolding agree_def
  proof
    fix x assume x: "x \<in> U"
    have "x \<notin> region f (bytes_of ?l)" using x sp(2) unfolding rf U_def by auto
    moreover have "x \<notin> word8 (p - 8)" using x header_word [OF ok p, of x] hb by (auto simp: U_def)
    ultimately show "m3 x = m1 x" by (rule chg)
  qed
  have U: "obj_region H q \<subseteq> U" "gap_region H q \<subseteq> U" if "q \<in> set ahead" for q
    using behind_object [OF ok live that] by (auto simp: U_def)
  have U': "tail_region H \<subseteq> U" "outside H \<subseteq> U" "r \<in> lh_roots H \<Longrightarrow> word8 r \<subseteq> U" for r
    using regions(3) [OF ok] pl root_word [OF ok, of r] by (fastforce simp: U_def outside_def)+
  have wU: "words (set ahead) (all_slots H ahead) \<subseteq> U"
  proof
    fix x assume x: "x \<in> words (set ahead) (all_slots H ahead)"
    from words_ahead(2) [OF ok sub(1) this] show "x \<in> U" using U(1) pl by (auto simp: U_def)
  qed
  have wload: "load64 m3 y = load64 m1 y" if "word8 y \<subseteq> words (set ahead) (all_slots H ahead)" for y
    by (rule agree_load64 [OF agree_mono [OF aU]]) (use that wU in blast)
  have t3: "threading (set ahead) (all_slots H ahead) (slid_to H) m0 ch D m3"
    by (rule threading_cong [OF t1]; rule wload) (fastforce simp: words_def)+
  have K3: "agree (outside H \<union> ((\<Union>q\<in>set ahead. obj_region H q) - live_words H)) m3 m0"
    by (rule agree_trans [OF agree_mono [OF aU] agree_mono [OF K1]]) (use U U' in auto)
  have gone: "agree (outside H \<union> gap_region H q) ?m m3" if q: "q \<in> set ahead" for q
  proof -
    have ql: "q \<in> set (lh_live H)" using q sub(1) by blast
    have "agree (outside H \<union> gap_region H q) m3 m1" by (rule agree_mono [OF aU]) (use U [OF q] U' in blast)
    moreover have "agree (outside H \<union> gap_region H q) m1 ?m"
      by (rule agree_mono [OF a1]) (use wA(1) live_words_off(1) [OF ok] live_words_off(2) [OF ok _ ql] in blast)
    ultimately show ?thesis by (rule agree_sym [OF agree_trans])
  qed
  have tailm: "agree (outside H \<union> tail_region H) ?m m3"
  proof -
    have "agree (outside H \<union> tail_region H) m3 m1" by (rule agree_mono [OF aU]) (use U' in blast)
    moreover have "agree (outside H \<union> tail_region H) m1 ?m"
      by (rule agree_mono [OF a1]) (use wA(1) live_words_off(1,3) [OF ok] in blast)
    ultimately show ?thesis by (rule agree_sym [OF agree_trans])
  qed
  have dr3: "dead_run (fstatic e) ?B (outside H) m3 (lh_start H + of_nat (place H q - lh_dead H q)) (lh_dead H q)" if q: "q \<in> set ahead" for q
  proof -
    have d: "dead_run (fstatic e) ?B (outside H) ?m (lh_start H + of_nat (place H q - lh_dead H q)) (lh_dead H q)" using dr q by simp
    have "q \<in> set (lh_live H)" using q sub(1) by blast
    then have le: "lh_dead H q \<le> 2 ^ 64" using place_le [of q H] e by (simp add: place_def)
    show ?thesis by (rule dead_run_agree [OF d le gone [OF q, unfolded gap_region_def]])
  qed
  have tl3: "dead_run (fstatic e) ?B (outside H) m3 (lh_start H + of_nat (extent H - lh_behind H)) (lh_behind H)"
  proof (rule dead_run_agree [OF tail _ tailm [unfolded tail_region_def]])
    show "lh_behind H \<le> 2 ^ 64" using e by (simp add: extent_def)
  qed
  have low: "agree (below H (slid_place H p)) m3 ?m"
    unfolding agree_def
  proof
    fix x assume x: "x \<in> below H (slid_place H p)"
    have "x \<notin> region f (bytes_of ?l)" using x unfolding rf by simp
    moreover have "x \<notin> word8 (p - 8)" using x sp(2) header_word [OF ok p, of x] by auto
    moreover have "x \<notin> words ?A ?S" using wA(2) [of x] x sp(2) by auto
    ultimately show "m3 x = ?m x" using chg a1 by (simp add: agree_def)
  qed
  have sl3: "slid H m0 m3 q" if q: "q \<in> set (passed @ [p])" for q
  proof (cases "q = p")
    case False
    then have q': "q \<in> set passed" using q by simp
    show ?thesis
      by (rule slid_cong [OF ok _ _ low sp(3) [OF q']]) (use q' sl live sp(2) pl e in auto)
  qed (simp add: slidp)
  have "backward_inv (fstatic e) ?B H m0 (passed @ [p]) ahead m3"
    unfolding backward_inv_def
    by (intro conjI exI [of _ ch] exI [of _ D] t3 Dl met late K3 tl3 ballI dr3 sl3) (simp_all add: live)
  then show ?thesis using step un by (intro exI [of _ m3]) simp
qed

end
