(* ===== verification/Compact_Passes.thy ===== *)
theory Compact_Passes
  imports Compact_Backward
begin

text \<open>The roots are threaded, and the two passes compact the heap.\<close>

section \<open>The second pass\<close>

lemma backward_pass_inv:
  assumes ok: "compact_ok (fstatic e) (h_start (sharedHeap (gcs (fmach r)))) (heap (gcs (fmach r))) H m0"
    and c: "mc_start c = B'"
    and inv: "backward_inv (fstatic e) (h_start (sharedHeap (gcs (fmach r)))) H m0 passed ahead (wmem w)" "rest w = r"
    and fr: "fr = lh_start H + of_nat (sum_list (map (lh_dead H) passed) + total (lh_lay H) passed)"
  shows "\<exists>m'. backward_pass e c (lh_start H + of_nat (extent H)) (fr, of_nat (sum_list (map (lh_dead H) passed))) w =
      Some ((lh_start H + of_nat (extent H), of_nat (sum_list (map (lh_dead H) (lh_live H)) + lh_behind H)), w\<lparr>wmem := m'\<rparr>) \<and>
    backward_inv (fstatic e) (h_start (sharedHeap (gcs (fmach r)))) H m0 (lh_live H) [] m'"
  using inv fr
proof (induction ahead arbitrary: passed w fr)
  case Nil
  let ?y = "lh_start H + of_nat (extent H)"
  have live: "lh_live H = passed" using Nil.prems(1) by (simp add: backward_inv_def)
  have e: "extent H = sum_list (map (lh_dead H) passed) + total (lh_lay H) passed + lh_behind H"
    using extent_passed [of H] live by simp
  have fr: "fr = lh_start H + of_nat (extent H - lh_behind H)" "fr + of_nat (lh_behind H) = ?y"
    using Nil.prems(3) e by simp_all
  have run: "dead_run (fstatic e) (h_start (sharedHeap (fgc w))) (outside H) (wmem w) fr (lh_behind H)"
    using Nil.prems(1,2) by (simp add: backward_inv_def fr(1))
  have "fr + of_nat j \<noteq> ?y" if "j < lh_behind H" for j
  proof -
    have "fr + of_nat j = lh_start H + of_nat (extent H - lh_behind H + j)" unfolding fr(1) by (simp add: add.assoc)
    then show ?thesis using before_end [OF ok, of "extent H - lh_behind H + j"] that e by simp
  qed
  then have "backward_pass e c ?y (fr, gap) w = backward_pass e c ?y (?y, gap + of_nat (lh_behind H)) w" for gap
    using backward_dead_run [OF run] by (simp add: fr(2))
  moreover have "backward_pass e c ?y (?y, gap) w = Some ((?y, gap), w)" for gap by (subst backward_pass.simps) simp
  ultimately show ?case using Nil.prems(1) live by (intro exI [of _ "wmem w"]) simp
next
  case (Cons p ahead)
  let ?y = "lh_start H + of_nat (extent H)" and ?d = "lh_dead H p"
  have live: "lh_live H = passed @ p # ahead" using Cons.prems(1) by (simp add: backward_inv_def)
  have p: "p \<in> set (lh_live H)" using live by simp
  note pl = place_passed [OF ok live]
  define x where "x = lh_start H + of_nat (place H p)"
  have fr: "fr = lh_start H + of_nat (place H p - ?d)" "fr + of_nat ?d = x"
    using Cons.prems(3) pl(1) by (simp_all add: x_def)
  have run: "dead_run (fstatic e) (h_start (sharedHeap (fgc w))) (outside H) (wmem w) fr ?d"
    using Cons.prems(1,2) by (simp add: backward_inv_def fr(1))
  have ends: "fr + of_nat j \<noteq> ?y" if "j < ?d + 1" for j
  proof -
    have eq: "fr + of_nat j = lh_start H + of_nat (place H p - ?d + j)" unfolding fr(1) by (simp add: add.assoc)
    have "place H p - ?d + j < extent H"
      using place_le [OF p] pl(1) that live_layout(1) [OF ok p] by auto
    then show ?thesis unfolding eq by (rule before_end [OF ok])
  qed
  let ?gap = "of_nat (sum_list (map (lh_dead H) (passed @ [p]))) :: size_t"
  have skip: "backward_pass e c ?y (fr, of_nat (sum_list (map (lh_dead H) passed))) w = backward_pass e c ?y (x, ?gap) w"
    using backward_dead_run [OF run, of ?y] ends by (simp add: fr(2))
  have inv': "backward_inv (fstatic e) (h_start (sharedHeap (fgc w))) H m0 passed (p # ahead) (wmem w)"
    using Cons.prems(1,2) by simp
  have ok': "compact_ok (fstatic e) (h_start (sharedHeap (fgc w))) (heap (fgc w)) H m0" using ok Cons.prems(2) by simp
  let ?x = "x + of_nat (bytes_of (lh_lay H p))"
  obtain m1 where m1: "backward_step e c (x, ?gap) w = Some ((?x, ?gap), w\<lparr>wmem := m1\<rparr>)"
      "backward_inv (fstatic e) (h_start (sharedHeap (fgc w))) H m0 (passed @ [p]) ahead m1"
    using backward_object [OF ok' c inv' x_def pl(2)] by auto
  have "x \<noteq> ?y" using ends [of ?d] fr(2) by simp
  then have go: "backward_pass e c ?y (x, ?gap) w = backward_pass e c ?y (?x, ?gap) (w\<lparr>wmem := m1\<rparr>)"
    using m1(1) by (subst backward_pass.simps) simp
  have x': "?x = lh_start H + of_nat (sum_list (map (lh_dead H) (passed @ [p])) + total (lh_lay H) (passed @ [p]))"
    using pl(1) by (simp add: x_def algebra_simps)
  have "\<exists>m'. backward_pass e c ?y (?x, ?gap) (w\<lparr>wmem := m1\<rparr>) =
        Some ((?y, of_nat (sum_list (map (lh_dead H) (lh_live H)) + lh_behind H)), (w\<lparr>wmem := m1\<rparr>)\<lparr>wmem := m'\<rparr>) \<and>
      backward_inv (fstatic e) (h_start (sharedHeap (gcs (fmach r)))) H m0 (lh_live H) [] m'"
    using m1(2) Cons.prems(2) by (intro Cons.IH [OF _ _ x']) simp_all
  then show ?case unfolding skip go by simp
qed

section \<open>Compaction\<close>

text \<open>The roots are threaded.\<close>

lemma roots_threaded:
  assumes ok: "compact_ok (fstatic e) (h_start (sharedHeap (fgc w))) (heap (fgc w)) H (wmem w)"
    and roots: "lh_roots H = set (root_list e)" "distinct (root_list e)" "danglingSize (own_roots e) = 0"
  shows "\<exists>m'. foreachGlobalObjptrInScope e threadInternalObjptrIfInLocalHeap w = Some (w\<lparr>wmem := m'\<rparr>) \<and>
    forward_inv (fstatic e) (h_start (sharedHeap (fgc w))) H (wmem w) [] (lh_live H) m'"
proof -
  let ?A = "set (lh_live H)" and ?S = "all_slots H (lh_live H)"
  have off: "Out \<inter> words ?A ?S = {}" if "Out \<subseteq> outside H" for Out
    using live_words_off(1) [OF ok] that by blast
  have v: "slot_value (heap (fgc w)) ?A (outside H) (wmem w) (load64 (wmem w) c)" if "c \<in> set (root_list e)" for c
    using compact_okD(12) [OF ok, of c] that roots(1) by simp
  have l: "isObjptr p \<and> isPointerInHeap (heap (fgc w)) p \<and> getHeader (wmem w) p \<noteq> GC_FORWARDED" if "p \<in> ?A" for p
    using compact_okD(4) [OF ok that] by (simp add: live_object_def)
  obtain m' ch' where m': "foreach_slots (callIfIsObjptr threadInternalObjptrIfInLocalHeap) (root_list e) w = Some (w\<lparr>wmem := m'\<rparr>)"
      "threading ?A ?S (slid_to H) (wmem w) ch' {} m'"
      "\<forall>p\<in>?A. set (ch' p) = {c \<in> set (root_list e). load64 (wmem w) c = p}" "agree (- words ?A ?S) m' (wmem w)"
    using thread_slots [OF threading_start words_ok_live [OF ok], of "root_list e" w "outside H" "slid_to H"]
      roots off [OF order_refl] v l agree_refl [of "outside H" "wmem w"] by auto
  have K: "agree (kept H (lh_live H)) m' (wmem w)"
    by (rule agree_mono [OF m'(4)]) (use kept_words [OF ok order_refl] in blast)
  have "forward_inv (fstatic e) (h_start (sharedHeap (fgc w))) H (wmem w) [] (lh_live H) m'"
    unfolding forward_inv_def using m'(2,3) K roots(1)
    by (intro conjI exI [of _ ch'] exI [of _ "{}"]) auto
  then show ?thesis unfolding foreachGlobalObjptrInScope_slots [OF roots(3)] using m'(1) by (intro exI [of _ m']) simp
qed

definition local_mc :: "GC_heap \<Rightarrow> pointer \<Rightarrow> mc_env" where
  "local_mc h currentStack =
    \<lparr> sharedCollection = False, heap_is_shared = False, mc_start = h_start h, currentStacks = [currentStack] \<rparr>"

text \<open>The heap after the collection: the live objects side by side, and all pointers renamed.\<close>

definition compacted :: "live_heap \<Rightarrow> mem \<Rightarrow> mem \<Rightarrow> bool" where
  "compacted H m0 m \<longleftrightarrow> (\<forall>p\<in>set (lh_live H). slid H m0 m p) \<and>
    (\<forall>r\<in>lh_roots H. load64 m r = slid_value H (load64 m0 r)) \<and> agree (outside H) m m0"

lemma backward_end:
  assumes "backward_inv g B H m0 (lh_live H) [] m"
  shows "compacted H m0 m"
proof -
  obtain ch D where t: "threading {} (lh_roots H) (slid_to H) m0 ch D m"
      and l: "\<forall>c\<in>lh_roots H. c \<in> D \<longrightarrow> load64 m0 c \<in> set (lh_live H)"
      and d: "\<forall>c\<in>lh_roots H. load64 m0 c \<in> set (lh_live H) \<longrightarrow> c \<in> D"
    using assms unfolding backward_inv_def list.set obj_slots_simps Un_empty_right empty_iff simp_thms by blast
  have "load64 m r = slid_value H (load64 m0 r)" if r: "r \<in> lh_roots H" for r
  proof (cases "r \<in> D")
    case True
    then have "load64 m0 r \<in> set (lh_live H)" using l r by blast
    then show ?thesis using threadingD(4) [OF t r True] by (simp add: slid_value_def)
  next
    case False
    then have "load64 m0 r \<notin> set (lh_live H)" using d r by blast
    then show ?thesis using threadingD(5) [OF t r False] by (simp add: slid_value_def)
  qed
  then show ?thesis using assms by (simp add: compacted_def backward_inv_def)
qed

lemma passes_compact:
  assumes ok: "compact_ok (fstatic e) (h_start (sharedHeap (fgc w))) (heap (fgc w)) H (wmem w)"
    and std: "std_types (fstatic e)" "align_arg (alignment (fstatic e))" "unat (alignment (fstatic e)) \<le> 8"
    and roots: "lh_roots H = set (root_list e)" "distinct (root_list e)" "danglingSize (own_roots e) = 0"
    and start: "lh_start H = alignFrontier (alignment (fstatic e)) (h_start (heap (fgc w)))"
      "lh_start H + of_nat (extent H) = h_start (heap (fgc w)) + oldGenSize (heap (fgc w))"
    and c: "c = local_mc (heap (fgc w)) stack"
  shows "\<exists>m'. (do { w \<leftarrow> foreachGlobalObjptrInScope e threadInternalObjptrIfInLocalHeap w;
      let h = heap (fgc w);
      let c = local_mc h stack;
      w \<leftarrow> updateForwardPointersForMarkCompact e c (alignFrontier (alignment (fstatic e)) (h_start h)) (h_start h + oldGenSize h) w;
      updateBackwardPointersAndSlideForMarkCompact e c w }) =
    Some (set_oldGenSize c (lh_start H + of_nat (total (lh_lay H) (lh_live H)) - h_start (heap (fgc w))) (w\<lparr>wmem := m'\<rparr>)) \<and>
    compacted H (wmem w) m'"
proof -
  let ?h = "heap (fgc w)" and ?y = "lh_start H + of_nat (extent H)"
  have c': "\<not> sharedCollection c" "mc_start c = h_start ?h" "\<not> heap_is_shared c" by (simp_all add: c local_mc_def)
  obtain m1 where m1: "foreachGlobalObjptrInScope e threadInternalObjptrIfInLocalHeap w = Some (w\<lparr>wmem := m1\<rparr>)"
      "forward_inv (fstatic e) (h_start (sharedHeap (fgc w))) H (wmem w) [] (lh_live H) m1"
    using roots_threaded [OF ok roots] by blast
  obtain m2 where m2: "forward_pass e c ?y (lh_start H, 0, lh_start H) (w\<lparr>wmem := m1\<rparr>) = Some (w\<lparr>wmem := m2\<rparr>)"
      "forward_inv (fstatic e) (h_start (sharedHeap (fgc w))) H (wmem w) (lh_live H) [] m2"
    using forward_pass_inv [of e "rest w" H "wmem w" c "h_start ?h" "[]" "lh_live H" "w\<lparr>wmem := m1\<rparr>" "lh_start H"]
      ok std c' m1(2) by auto
  have b: "backward_inv (fstatic e) (h_start (sharedHeap (fgc w))) H (wmem w) [] (lh_live H) m2"
    by (rule backward_start [OF ok m2(2)])
  obtain m3 where m3: "backward_pass e c ?y (lh_start H, 0) (w\<lparr>wmem := m2\<rparr>) =
      Some ((?y, of_nat (sum_list (map (lh_dead H) (lh_live H)) + lh_behind H)), w\<lparr>wmem := m3\<rparr>)"
      "backward_inv (fstatic e) (h_start (sharedHeap (fgc w))) H (wmem w) (lh_live H) [] m3"
    using backward_pass_inv [of e "rest w" H "wmem w" c "h_start ?h" "[]" "lh_live H" "w\<lparr>wmem := m2\<rparr>" "lh_start H"]
      ok c' b by auto
  have n: "?y - of_nat (sum_list (map (lh_dead H) (lh_live H)) + lh_behind H) - h_start ?h =
      lh_start H + of_nat (total (lh_lay H) (lh_live H)) - h_start ?h"
    unfolding extent_passed [of H] by simp
  have "updateBackwardPointersAndSlideForMarkCompact e c (w\<lparr>wmem := m2\<rparr>) =
      Some (set_oldGenSize c (lh_start H + of_nat (total (lh_lay H) (lh_live H)) - h_start ?h) (w\<lparr>wmem := m3\<rparr>))"
    using m3(1) start c' n
    by (simp add: updateBackwardPointersAndSlideForMarkCompact_def mc_heap_def del: of_nat_add)
  then show ?thesis
    using m1(1) m2(1) backward_end [OF m3(2)] start
    by (intro exI [of _ m3]) (simp add: updateForwardPointersForMarkCompact_def c Let_def)
qed

end
