(* ===== verification/Mark_Roots.thy ===== *)
theory Mark_Roots
  imports Mark_Compact Cheney_Graph
begin

text \<open>
  Marking from all roots of a processor: what the client of the walk over the roots does, and
  which objects are marked in the end.
\<close>

section \<open>The graph when some objects are marked\<close>

lemma graph_rest:
  assumes g: "graph_ok e a F L U m" and ps: "set ps \<subseteq> U" "distinct ps"
  shows "graph_ok e a F L (U - set ps) (flips ps m)"
proof -
  note gD = graph_okD [OF g]
  have psF: "set ps \<subseteq> F" using ps(1) gD(3) by blast
  have hdr: "load64 (flips ps m) (p - 8) = (if p \<in> set ps then load64 m (p - 8) XOR MARK_MASK else load64 m (p - 8))" if "p \<in> F" for p
    by (rule flips_header [OF areas_headers_apart [OF gD(4)] psF ps(2) that])
  have "intact e a F L (flips ps m) p" if p: "p \<in> U - set ps" for p
  proof -
    have pF: "p \<in> F" and n: "p \<notin> set ps" using p gD(3) by auto
    have w: "load64 (flips ps m) y = load64 m y" if "word_of_object L p y" for y
    proof (rule flips_load)
      show "clear_of (set ps) y"
        unfolding clear_of_def using psF n words_apart [OF gD(4) _ pF _ graph_object_words(1) that] gD(4) by blast
    qed
    note ow = graph_object_words [OF gD(4) pF]
    show ?thesis
    proof (rule intact_cong [OF gD(8)])
      show "p \<in> U" using p by simp
      show "load64 (flips ps m) (p - 8) = load64 m (p - 8)" using hdr [OF pF] n by simp
      show "load64 (flips ps m) (p - 16) = load64 m (p - 16)" if "hb (L p) = 24" using w [OF ow(3) [OF that]] .
      show "load64 (flips ps m) (p - 24) = load64 m (p - 24)" if "hb (L p) = 24" using w [OF ow(2) [OF that]] .
      show "load64 (flips ps m) (p + of_nat i) = load64 m (p + of_nat i)" if "i \<in> set (ptrs (L p))" for i
        using w [OF ow(4)] intact_ptrs(1) [OF gD(8) that] p by blast
      show "load64 (flips ps m) (v - 8) = load64 m (v - 8)"
        if "\<And>p. p \<in> F \<Longrightarrow> disjnt_regions (start_of L p) (bytes_of (L p)) (v - 8) 8" for v
        using flips_load [OF clear_of_outside [OF gD(4) psF that]] .
    qed
  qed
  moreover have "short_header (load64 (flips ps m) (p - 8))"
      "p \<in> U - set ps \<longleftrightarrow> load64 (flips ps m) (p - 8) AND MARK_MASK \<noteq> mark_bit a" if "p \<in> F" for p
  proof -
    show "short_header (load64 (flips ps m) (p - 8))" using hdr [OF that] gD(6) [OF that] by (simp add: short_header_bits)
    show "p \<in> U - set ps \<longleftrightarrow> load64 (flips ps m) (p - 8) AND MARK_MASK \<noteq> mark_bit a"
      using hdr [OF that] gD(7) [OF that] ps(1) mark_bit_flip [of "load64 m (p - 8)" a] by auto
  qed
  ultimately show ?thesis
    using gD unfolding graph_ok_def header_at by blast
qed

section \<open>One root\<close>

text \<open>A root leads to an object, or is not followed.\<close>

definition root_value :: "mark_env \<Rightarrow> pointer set \<Rightarrow> mem \<Rightarrow> objptr \<Rightarrow> bool" where
  "root_value e F m v \<longleftrightarrow> v \<in> F \<or> (isObjptr v \<longrightarrow> isPointerInHeap (sharedHeap (mark_gc e)) v \<and>
    getHeader m v \<noteq> GC_FORWARDED \<and> clear_of F (v - 8))"

definition mc_args :: mark_args where
  "mc_args = margs emptyForeachObjectFun MARK_MODE False True True False"

text \<open>What the roots \<open>R\<close> lead to.\<close>

definition marked_from :: "mark_env \<Rightarrow> mark_args \<Rightarrow> pointer set \<Rightarrow> (pointer \<Rightarrow> layout) \<Rightarrow> mem \<Rightarrow> pointer set \<Rightarrow> pointer set" where
  "marked_from e a F L m R = (\<Union>r\<in>{r \<in> R. load64 m r \<in> F}. mark_reach e a L m F (load64 m r))"

text \<open>What holds when the roots \<open>R\<close> have been met and the objects \<open>ps\<close> are marked.\<close>

definition roots_met :: "mark_env \<Rightarrow> mark_args \<Rightarrow> pointer set \<Rightarrow> (pointer \<Rightarrow> layout) \<Rightarrow> mem \<Rightarrow> pointer set \<Rightarrow> pointer list \<Rightarrow> bool" where
  "roots_met e a F L m R ps \<longleftrightarrow> distinct ps \<and> set ps \<subseteq> F \<and> set ps \<subseteq> marked_from e a F L m R \<and>
    (\<forall>p\<in>set ps. succs e a L m p \<subseteq> set ps) \<and> (\<forall>r\<in>R. load64 m r \<in> F \<longrightarrow> load64 m r \<in> set ps)"

lemma roots_met_all:
  assumes "roots_met e a F L m R ps"
  shows "set ps = marked_from e a F L m R"
proof
  show "set ps \<subseteq> marked_from e a F L m R" using assms by (simp add: roots_met_def)
  show "marked_from e a F L m R \<subseteq> set ps"
  proof
    fix q assume "q \<in> marked_from e a F L m R"
    then obtain r where r: "r \<in> R" "load64 m r \<in> F" "q \<in> mark_reach e a L m F (load64 m r)" by (auto simp: marked_from_def)
    from r(3) show "q \<in> set ps"
    proof induction
      case mark_reach_self
      then show ?case using assms r by (simp add: roots_met_def)
    next
      case (mark_reach_slot o' i)
      then have "load64 m (o' + of_nat i) \<in> succs e a L m o'" by (auto simp: succs_def)
      then show ?case using assms mark_reach_slot.IH by (auto simp: roots_met_def)
    qed
  qed
qed

lemma root_step:
  assumes g: "graph_ok e mc_args F L F m" and met: "roots_met e mc_args F L m R ps"
    and c: "clear_of F c" "root_value e F m (load64 m c)" and sh: "\<And>p. p \<in> F \<Longrightarrow> \<not> isPointerInHeap (sharedHeap (mark_gc e)) p"
    and w: "wmem v = flips ps m"
  shows "\<exists>qs. callIfIsObjptr (mark_client (dfsMarkWithoutHashConsWithLinkWeaks e)) c v =
      Some (v\<lparr>wmem := flips (ps @ qs) m, rest := (if isObjptr (load64 m c) then (rest v)\<lparr>mark_mem := flips (ps @ qs) m\<rparr> else rest v)\<rparr>) \<and>
    roots_met e mc_args F L m (insert c R) (ps @ qs)"
proof -
  note gD = graph_okD [OF g]
  have ps: "set ps \<subseteq> F" "distinct ps" using met by (simp_all add: roots_met_def)
  have lc: "load64 (wmem v) c = load64 m c" unfolding w by (rule flips_load [OF clear_of_mono [OF c(1) ps(1)]])
  have out: "roots_met e mc_args F L m (insert c R) ps" if "load64 m c \<in> F \<Longrightarrow> load64 m c \<in> set ps"
    using met that unfolding roots_met_def marked_from_def by auto
  consider (none) "\<not> isObjptr (load64 m c)" | (skip) "isObjptr (load64 m c)" "load64 m c \<notin> F"
    | (obj) "isObjptr (load64 m c)" "load64 m c \<in> F" by blast
  then show ?thesis
  proof cases
    case none
    have "load64 m c \<notin> F" using none gD(5) isPointer_isObjptr by blast
    then show ?thesis using none out lc w by (intro exI [of _ "[]"]) (simp add: callIfIsObjptr_def)
  next
    case skip
    let ?p = "load64 m c"
    have s: "isPointerInHeap (sharedHeap (mark_gc e)) ?p" "getHeader m ?p \<noteq> GC_FORWARDED" "clear_of F (?p - 8)"
      using c(2) skip by (auto simp: root_value_def)
    have h: "getHeader (wmem v) ?p \<noteq> GC_FORWARDED"
      using s(2) flips_load [OF clear_of_mono [OF s(3) ps(1)], of m] w by (simp add: header_at)
    have "fixFwdObjptr (wmem v) B c = Some (wmem v)" for B by (rule fixFwd_still) (use skip lc h in auto)
    then have "callIfIsObjptr (mark_client (dfsMarkWithoutHashConsWithLinkWeaks e)) c v = Some (v\<lparr>rest := (rest v)\<lparr>mark_mem := wmem v\<rparr>\<rparr>)"
      using skip lc h s(1)
      by (simp add: callIfIsObjptr_def mark_client_def dfsMarkWithoutHashConsWithLinkWeaks_def mark_root_def dfsMarkByMode_def margs_def Let_def)
    then show ?thesis using skip out w by (intro exI [of _ "[]"]) simp
  next
    case obj
    let ?p = "load64 m c" and ?a = mc_args
    have h: "getHeader (wmem v) ?p \<noteq> GC_FORWARDED"
    proof -
      have "short_header (getHeader (wmem v) ?p)"
        using graph_okD(6) [OF graph_rest [OF g ps] obj(2)] w by (simp add: header_at)
      then show ?thesis by (rule short_header_bits(1))
    qed
    have fx: "fixFwdObjptr (wmem v) B c = Some (wmem v)" for B by (rule fixFwd_still) (use obj lc h in auto)
    let ?s = "(rest v)\<lparr>mark_mem := wmem v\<rparr>"
    have run: "callIfIsObjptr (mark_client (dfsMarkWithoutHashConsWithLinkWeaks e)) c v =
        map_option (\<lambda>(n, s). v\<lparr>wmem := mark_mem s, rest := s\<rparr>) (dfsMarkByMode e ?a ?p ?s)"
      using obj lc fx by (simp add: callIfIsObjptr_def mark_client_def dfsMarkWithoutHashConsWithLinkWeaks_def mark_root_def
        mc_args_def Let_def option.map_comp comp_def case_prod_unfold)
    show ?thesis
    proof (cases "?p \<in> set ps")
      case True
      have "isPointerMarkedByMode (wmem v) ?p (mode ?a)"
      proof -
        have "load64 (wmem v) (?p - 8) AND MARK_MASK = mark_bit ?a"
          using graph_okD(7) [OF graph_rest [OF g ps] obj(2)] True w by simp
        then show ?thesis
          using mark_flip(4) by (simp add: isPointerMarkedByMode_def isPointerMarked_def header_at mc_args_def margs_def mark_bit_def and.commute)
      qed
      then have "dfsMarkByMode e ?a ?p ?s = Some (0, ?s)" by (simp add: dfsMarkByMode_def)
      then show ?thesis using run out True obj w by (intro exI [of _ "[]"]) simp
    next
      case False
      have g2: "graph_ok e ?a F L (F - set ps) (mark_mem ?s)" using graph_rest [OF g ps] w by simp
      have a: "\<not> shouldHashCons ?a" "visitor ?a = emptyForeachObjectFun" by (simp_all add: mc_args_def margs_def)
      obtain n qs where qs: "dfsMarkByMode e ?a ?p ?s = Some (n, ?s\<lparr>mark_mem := flips qs (mark_mem ?s)\<rparr>)"
        "visited e ?a F L (F - set ps) (mark_mem ?s) ?p True qs"
        using empty_fun.dfsMarkByMode_visited [OF a g2, of "load64 m c"] False obj(2) sh [OF obj(2)] by (auto simp: visits_plain)
      have sl: "load64 (flips ps m) (o' + of_nat i) = load64 m (o' + of_nat i)" if "o' \<in> F" "i \<in> set (ptrs (L o'))" for o' i
        by (rule graph_slots [OF g ps(1) that])
      have su: "succs e ?a L (flips ps m) o' = succs e ?a L m o'" if "o' \<in> F" for o'
        using sl [OF that] by (auto simp: succs_def)
      have q: "distinct qs" "?p \<in> set qs" "set qs \<subseteq> F - set ps" "set qs \<subseteq> mark_reach e ?a L (flips ps m) (set qs) ?p"
        using qs(2) w by (auto simp: visited_def)
      have q5: "\<forall>o'\<in>set qs. succs e ?a L m o' \<subseteq> set ps \<union> set qs"
      proof
        fix o' assume o': "o' \<in> set qs"
        have "succs e ?a L (flips ps m) o' \<subseteq> (F - (F - set ps)) \<union> set qs" using qs(2) w o' by (simp add: visited_def)
        moreover have "F - (F - set ps) = set ps" using ps(1) by blast
        moreover have "o' \<in> F" using o' q(3) by blast
        ultimately show "succs e ?a L m o' \<subseteq> set ps \<union> set qs" using su by simp
      qed
      have "set qs \<subseteq> mark_reach e ?a L m F ?p"
      proof
        fix x assume "x \<in> set qs"
        then have "x \<in> mark_reach e ?a L (flips ps m) (set qs) ?p" using q(4) by blast
        then show "x \<in> mark_reach e ?a L m F ?p"
          by (rule mark_reach_mono) (use q(3) sl in auto)
      qed
      then have "roots_met e ?a F L m (insert c R) (ps @ qs)"
        using met q(1,2,3) q5 obj(2) unfolding roots_met_def marked_from_def by auto
      moreover have "flips qs (flips ps m) = flips (ps @ qs) m" by (simp add: flips_append)
      ultimately show ?thesis using run qs(1) obj w by (intro exI [of _ qs]) simp
    qed
  qed
qed

section \<open>All roots\<close>

lemma mark_slots:
  assumes "graph_ok e mc_args F L F m" "roots_met e mc_args F L m R ps"
    "\<And>c. c \<in> set cs \<Longrightarrow> clear_of F c \<and> root_value e F m (load64 m c)" "\<And>p. p \<in> F \<Longrightarrow> \<not> isPointerInHeap (sharedHeap (mark_gc e)) p"
    "wmem v = flips ps m"
  shows "\<exists>qs s. foreach_slots (callIfIsObjptr (mark_client (dfsMarkWithoutHashConsWithLinkWeaks e))) cs v =
      Some (v\<lparr>wmem := flips qs m, rest := s\<rparr>) \<and> (\<exists>M. s = (rest v)\<lparr>mark_mem := M\<rparr>) \<and> roots_met e mc_args F L m (R \<union> set cs) qs"
  using assms
proof (induction cs arbitrary: R ps v)
  case Nil
  have "rest v = (rest v)\<lparr>mark_mem := mark_mem (rest v)\<rparr>" by simp
  then show ?case using Nil by (intro exI [of _ ps] exI [of _ "rest v"] conjI exI [of _ "mark_mem (rest v)"]) auto
next
  case (Cons c cs)
  let ?f = "callIfIsObjptr (mark_client (dfsMarkWithoutHashConsWithLinkWeaks e))"
  have c: "clear_of F c" "root_value e F m (load64 m c)" using Cons.prems(3) [of c] by auto
  obtain qs where qs: "?f c v = Some (v\<lparr>wmem := flips (ps @ qs) m,
        rest := (if isObjptr (load64 m c) then (rest v)\<lparr>mark_mem := flips (ps @ qs) m\<rparr> else rest v)\<rparr>)"
      "roots_met e mc_args F L m (insert c R) (ps @ qs)"
    using root_step [OF Cons.prems(1,2) c Cons.prems(4,5)] by blast
  obtain v' where v': "?f c v = Some v'" "wmem v' = flips (ps @ qs) m" "rangeListCurrent v' = rangeListCurrent v"
      "\<exists>M. rest v' = (rest v)\<lparr>mark_mem := M\<rparr>"
  proof (rule that [OF qs(1)])
    have "rest v = (rest v)\<lparr>mark_mem := mark_mem (rest v)\<rparr>" by simp
    then show "\<exists>M. rest (v\<lparr>wmem := flips (ps @ qs) m,
        rest := (if isObjptr (load64 m c) then (rest v)\<lparr>mark_mem := flips (ps @ qs) m\<rparr> else rest v)\<rparr>) = (rest v)\<lparr>mark_mem := M\<rparr>"
      by (intro exI [of _ "if isObjptr (load64 m c) then flips (ps @ qs) m else mark_mem (rest v)"]) simp
  qed simp_all
  obtain rs s where rs: "foreach_slots ?f cs v' = Some (v'\<lparr>wmem := flips rs m, rest := s\<rparr>)" "\<exists>M. s = (rest v')\<lparr>mark_mem := M\<rparr>"
      "roots_met e mc_args F L m (insert c R \<union> set cs) rs"
    using Cons.IH [OF Cons.prems(1) qs(2) _ Cons.prems(4) v'(2)] Cons.prems(3) by auto
  have v'': "v'\<lparr>wmem := flips rs m, rest := s\<rparr> = v\<lparr>wmem := flips rs m, rest := s\<rparr>" using v'(3) by simp
  have "foreach_slots ?f (c # cs) v = Some (v\<lparr>wmem := flips rs m, rest := s\<rparr>)" using v'(1) rs(1) v'' by simp
  moreover have "\<exists>M. s = (rest v)\<lparr>mark_mem := M\<rparr>" using rs(2) v'(4) by auto
  moreover have "roots_met e mc_args F L m (R \<union> set (c # cs)) rs" using rs(3) by simp
  ultimately show ?case by blast
qed

lemma mark_local_marks:
  assumes g: "graph_ok (me\<lparr>mark_static := fstatic e, mark_gc := fgc w\<rparr>) mc_args F L F (wmem w)"
    and roots: "\<And>r. r \<in> set (root_list e) \<Longrightarrow> clear_of F r \<and> root_value (me\<lparr>mark_static := fstatic e, mark_gc := fgc w\<rparr>) F (wmem w) (load64 (wmem w) r)"
    and sh: "\<And>p. p \<in> F \<Longrightarrow> \<not> isPointerInHeap (sharedHeap (fgc w)) p" and d: "danglingSize (own_roots e) = 0"
  shows "\<exists>ps s'. mark_local e me False junk w s = Some (w\<lparr>wmem := flips ps (wmem w)\<rparr>, s') \<and> distinct ps \<and>
    set ps = marked_from (me\<lparr>mark_static := fstatic e, mark_gc := fgc w\<rparr>) mc_args F L (wmem w) (set (root_list e))"
proof -
  let ?e = "me\<lparr>mark_static := fstatic e, mark_gc := fgc w\<rparr>"
  let ?v = "\<lparr> wmem = wmem w, rangeListCurrent = rangeListCurrent w, rest = s\<lparr>mark_weaks := weaks (rest w)\<rparr> \<rparr>"
  have met: "roots_met ?e mc_args F L (wmem w) {} []" by (simp add: roots_met_def)
  obtain ps s' where ps: "foreach_slots (callIfIsObjptr (mark_client (dfsMarkWithoutHashConsWithLinkWeaks ?e))) (root_list e) ?v =
      Some (?v\<lparr>wmem := flips ps (wmem w), rest := s'\<rparr>)" "\<exists>M. s' = (rest ?v)\<lparr>mark_mem := M\<rparr>"
      "roots_met ?e mc_args F L (wmem w) (set (root_list e)) ps"
    using mark_slots [OF g met, of "root_list e" ?v] roots sh by auto
  have "mark_weaks s' = weaks (rest w)" using ps(2) by auto
  then have "mark_local e me False junk w s = Some (w\<lparr>wmem := flips ps (wmem w)\<rparr>, s')"
    using ps(1) by (simp add: mark_local_def mark_roots_def Let_def foreachGlobalObjptrInScope_slots [OF d])
  moreover have "distinct ps" using ps(3) by (simp add: roots_met_def)
  ultimately show ?thesis using roots_met_all [OF ps(3)] by blast
qed

end
