(* ===== verification/Compact_Graph.thy ===== *)
theory Compact_Graph
  imports Compact_Passes Mark_Roots
begin

text \<open>
  A heap that is full of objects, some of them marked, is ready for the passes.
\<close>

section \<open>Dead bytes\<close>

text \<open>The bytes of the unmarked objects right in front of \<open>p\<close>, or at the end, when \<open>n\<close> come before.\<close>

fun gap_before :: "(pointer \<Rightarrow> layout) \<Rightarrow> pointer set \<Rightarrow> pointer option \<Rightarrow> nat \<Rightarrow> pointer list \<Rightarrow> nat" where
  "gap_before L M p n [] = n"
| "gap_before L M p n (q # qs) =
    (if p = Some q then n else gap_before L M p (if q \<in> M then 0 else n + bytes_of (L q)) qs)"

definition heap_after :: "pointer \<Rightarrow> (pointer \<Rightarrow> layout) \<Rightarrow> pointer list \<Rightarrow> pointer set \<Rightarrow> pointer set \<Rightarrow> live_heap" where
  "heap_after st L os M R = \<lparr> lh_start = st, lh_live = filter (\<lambda>p. p \<in> M) os, lh_lay = L,
    lh_dead = (\<lambda>p. gap_before L M (Some p) 0 os), lh_behind = gap_before L M None 0 os, lh_roots = R \<rparr>"

lemma pos_Cons: "pos S (q # ps) p = (if q = p then 0 else bytes_of (S q) + pos S ps p)"
  by (simp add: pos_def)

lemma gap_pos:
  "distinct os \<Longrightarrow> (\<And>q. q \<in> set os \<Longrightarrow> q \<in> M \<Longrightarrow> bytes_of (G q) = gap_before L M (Some q) n os + bytes_of (L q)) \<Longrightarrow>
    (p \<in> set os \<and> p \<in> M \<longrightarrow> pos G (filter (\<lambda>p. p \<in> M) os) p + gap_before L M (Some p) n os = n + pos L os p) \<and>
    total G (filter (\<lambda>p. p \<in> M) os) + gap_before L M None n os = n + total L os"
proof (induction os arbitrary: n)
  case (Cons q os)
  let ?n = "if q \<in> M then 0 else n + bytes_of (L q)"
  have g: "bytes_of (G r) = gap_before L M (Some r) ?n os + bytes_of (L r)" if "r \<in> set os" "r \<in> M" for r
    using Cons.prems(2) [of r] that Cons.prems(1) by auto
  have ih: "(p \<in> set os \<and> p \<in> M \<longrightarrow> pos G (filter (\<lambda>p. p \<in> M) os) p + gap_before L M (Some p) ?n os = ?n + pos L os p) \<and>
      total G (filter (\<lambda>p. p \<in> M) os) + gap_before L M None ?n os = ?n + total L os"
    by (rule Cons.IH [OF _ g]) (use Cons.prems(1) in auto)
  have "bytes_of (G q) = n + bytes_of (L q)" if "q \<in> M" using Cons.prems(2) [of q] that by simp
  then show ?case using ih Cons.prems(1) by (auto simp: pos_Cons)
qed (simp add: pos_def)

lemma gap_dvd: "(\<And>q. q \<in> set os \<Longrightarrow> k dvd bytes_of (L q)) \<Longrightarrow> k dvd n \<Longrightarrow> k dvd gap_before L M p n os"
proof (induction os arbitrary: n)
  case (Cons q os)
  have "k dvd (if q \<in> M then 0 else n + bytes_of (L q))" using Cons.prems by (simp add: dvd_add)
  then show ?case using Cons.IH Cons.prems by auto
qed simp

lemma dead_run_snoc:
  "dead_run g B Out m x n \<Longrightarrow> dead_object g B Out m (x + of_nat n) k \<Longrightarrow> dead_run g B Out m x (n + k)"
proof (induction rule: dead_run.induct)
  case (dead_none x)
  then have "dead_object g B Out m x k" by simp
  from dead_run.dead_some [OF this dead_run.dead_none] show ?case by simp
next
  case (dead_some x j n)
  have "dead_run g B Out m (x + of_nat j) (n + k)" using dead_some.IH dead_some.prems by (simp add: add.assoc)
  with dead_some.hyps(1) have "dead_run g B Out m x (j + (n + k))" by (rule dead_run.dead_some)
  then show ?case by (simp add: add.assoc)
qed

lemma gap_runs:
  "distinct os \<Longrightarrow> (\<And>q. q \<in> set os \<Longrightarrow> q \<notin> M \<Longrightarrow> dead_object g B Out m (a + of_nat (b + pos L os q)) (bytes_of (L q))) \<Longrightarrow>
    n \<le> b \<Longrightarrow> dead_run g B Out m (a + of_nat (b - n)) n \<Longrightarrow>
    (p \<in> set os \<and> p \<in> M \<longrightarrow> dead_run g B Out m (a + of_nat (b + pos L os p - gap_before L M (Some p) n os)) (gap_before L M (Some p) n os)) \<and>
    dead_run g B Out m (a + of_nat (b + total L os - gap_before L M None n os)) (gap_before L M None n os)"
proof (induction os arbitrary: n b)
  case (Cons q os)
  let ?n = "if q \<in> M then 0 else n + bytes_of (L q)" and ?b = "b + bytes_of (L q)"
  have d: "dead_object g B Out m (a + of_nat (?b + pos L os r)) (bytes_of (L r))" if "r \<in> set os" "r \<notin> M" for r
  proof -
    have "q \<noteq> r" using Cons.prems(1) that by auto
    then show ?thesis using Cons.prems(2) [of r] that by (simp add: pos_Cons add.assoc)
  qed
  have r: "dead_run g B Out m (a + of_nat (?b - ?n)) ?n"
  proof (cases "q \<in> M")
    case False
    have "dead_object g B Out m (a + of_nat (b - n) + of_nat n) (bytes_of (L q))"
      using Cons.prems(2) [of q] Cons.prems(3) False by (simp add: pos_Cons)
    then show ?thesis using dead_run_snoc [OF Cons.prems(4)] False by simp
  qed (simp add: dead_none)
  have ih: "(p \<in> set os \<and> p \<in> M \<longrightarrow> dead_run g B Out m (a + of_nat (?b + pos L os p - gap_before L M (Some p) ?n os)) (gap_before L M (Some p) ?n os)) \<and>
      dead_run g B Out m (a + of_nat (?b + total L os - gap_before L M None ?n os)) (gap_before L M None ?n os)"
    by (rule Cons.IH [OF _ d _ r]) (use Cons.prems(1,3) in auto)
  then show ?case using Cons.prems(1,4) by (auto simp: pos_Cons add.assoc)
qed simp

section \<open>A dead object\<close>

lemma layout_dead:
  assumes l: "layout_of g m p = Some l" and b: "bytes_of l < 2 ^ 64"
    and h: "GC_VALID_HEADER_MASK AND getHeader m p \<noteq> 0" "getHeader m p \<noteq> GC_FORWARDED" "MARK_MASK AND getHeader m p = 0"
    and c: "hb l = 24 \<Longrightarrow> getArrayCounter m p = 0"
  shows "dead_object g B Out m (p - of_nat (hb l)) (bytes_of l)"
  unfolding dead_object_def
proof (intro conjI allI impI)
  let ?x = "p - of_nat (hb l)"
  have hb: "hb l = 8 \<or> hb l = 24" by (rule layout_hb [OF l])
  show "0 < bytes_of l" using hb by auto
  fix m' assume ag: "agree (Out \<union> region ?x (bytes_of l)) m m'"
  have w: "load64 m' (?x + of_nat i) = load64 m (?x + of_nat i)" if "i + 8 \<le> bytes_of l" for i
  proof (rule load64_cong)
    fix j :: nat assume "j < 8"
    then have "off ?x (?x + of_nat (i + j)) < bytes_of l"
      using that b unat_of_nat_small [of "i + j"] by (simp del: of_nat_add)
    moreover have "?x + of_nat i + of_nat j = ?x + of_nat (i + j)" by (simp add: add.assoc)
    ultimately show "m' (?x + of_nat i + of_nat j) = m (?x + of_nat i + of_nat j)"
      using ag by (simp add: agree_def)
  qed
  have h': "getHeader m' p = getHeader m p" using w [of "hb l - 8"] hb by (auto simp: header_at)
  have len: "getArrayLength m' p = getArrayLength m p" if "hb l = 24" using w [of 8] that by (simp add: header_at)
  have l': "layout_of g m' p = Some l" by (rule layout_same(1) [OF l h' len])
  have nz: "load64 m' (p - 8) \<noteq> 0" using h(1) h' by (auto simp: header_at)
  have p: "advanceToObjectData m' ?x = p"
    using hb
  proof
    assume "hb l = 8"
    then show ?thesis using nz by (simp add: advanceToObjectData_def header_sizes)
  next
    assume 24: "hb l = 24"
    then have "load64 m' ?x = 0" using w [of 0] c by (simp add: header_at)
    then show ?thesis using 24 by (simp add: advanceToObjectData_def header_sizes)
  qed
  have "getHeader m' p AND 1 \<noteq> 0" using h(1) h' by (simp add: GC_VALID_HEADER_MASK_def and.commute)
  then have "sizeofObject g B m' p = Some (of_nat (bytes_of l))"
    using l' h(2) h'
    by (auto simp: layout_of_def bind_eq_Some_conv sizeofObject_def skipForwarded_end skipThreaded_end objectBytesByTag_def header_sizes
      split: if_splits)
  then show "let p = advanceToObjectData m' ?x; header = getHeader m' p in
      GC_VALID_HEADER_MASK AND header \<noteq> 0 \<and> (header = GC_FORWARDED \<or> MARK_MASK AND header = 0) \<and>
      sizeofObject g B m' p = Some (of_nat (bytes_of l))"
    unfolding p Let_def using h h' by simp
qed

section \<open>The heap before the collection\<close>

definition mark_env_at :: "fwd_env \<Rightarrow> mark_env \<Rightarrow> fwd world \<Rightarrow> mark_env" where
  "mark_env_at e me w = me\<lparr>mark_static := fstatic e, mark_gc := fgc w\<rparr>"

text \<open>The bytes that are neither in the heap nor in a root.\<close>

definition beyond :: "pointer \<Rightarrow> nat \<Rightarrow> pointer set \<Rightarrow> pointer set" where
  "beyond st n R = {x. n \<le> off st x \<and> (\<forall>r\<in>R. 8 \<le> off r x)}"

text \<open>A pointer leads to an object of the heap, or to one of the shared heap that has not been lifted.\<close>

definition pointer_ok :: "fwd world \<Rightarrow> pointer list \<Rightarrow> pointer set \<Rightarrow> objptr \<Rightarrow> bool" where
  "pointer_ok w os Out v \<longleftrightarrow> v \<in> set os \<or> (isObjptr v \<longrightarrow> isPointerInHeap (sharedHeap (fgc w)) v \<and>
    \<not> isPointerInHeap (heap (fgc w)) v \<and> getHeader (wmem w) v \<noteq> GC_FORWARDED \<and> word8 (v - 8) \<subseteq> Out)"

definition object_slots :: "(pointer \<Rightarrow> layout) \<Rightarrow> pointer list \<Rightarrow> pointer set" where
  "object_slots L os = (\<Union>p\<in>set os. (\<lambda>i. p + of_nat i) ` set (ptrs (L p)))"

text \<open>The objects \<open>os\<close> with the layouts \<open>L\<close> fill the heap from \<open>st\<close> on.\<close>

definition mc_heap_ok :: "fwd_env \<Rightarrow> mark_env \<Rightarrow> fwd world \<Rightarrow> pointer \<Rightarrow> (pointer \<Rightarrow> layout) \<Rightarrow> pointer list \<Rightarrow> bool" where
  "mc_heap_ok e me w st L os \<longleftrightarrow>
    distinct os \<and> unat st + total L os < 2 ^ 63 \<and>
    graph_ok (mark_env_at e me w) mc_args (set os) L (set os) (wmem w) \<and>
    (\<forall>p\<in>set os. p = st + of_nat (pos L os p + hb (L p)) \<and> isPointerInHeap (heap (fgc w)) p \<and>
      \<not> isPointerInHeap (sharedHeap (fgc w)) p \<and> GC_VALID_HEADER_MASK AND getHeader (wmem w) p \<noteq> 0 \<and>
      unat (alignment (fstatic e)) dvd bytes_of (L p)) \<and>
    distinct (root_list e) \<and> (\<forall>r\<in>set (root_list e). disjnt_regions st (total L os) r 8) \<and>
    (\<forall>r\<in>set (root_list e). \<forall>r'\<in>set (root_list e). r \<noteq> r' \<longrightarrow> disjnt_regions r 8 r' 8) \<and>
    (\<forall>c\<in>set (root_list e) \<union> object_slots L os. c \<noteq> 0 \<and> c AND 1 = 0 \<and>
      pointer_ok w os (beyond st (total L os) (set (root_list e))) (load64 (wmem w) c))"

lemma mc_heap_okD:
  assumes "mc_heap_ok e me w st L os"
  shows "distinct os" "unat st + total L os < 2 ^ 63" "graph_ok (mark_env_at e me w) mc_args (set os) L (set os) (wmem w)"
    "p \<in> set os \<Longrightarrow> p = st + of_nat (pos L os p + hb (L p))" "p \<in> set os \<Longrightarrow> isPointerInHeap (heap (fgc w)) p"
    "p \<in> set os \<Longrightarrow> \<not> isPointerInHeap (sharedHeap (fgc w)) p" "p \<in> set os \<Longrightarrow> GC_VALID_HEADER_MASK AND getHeader (wmem w) p \<noteq> 0"
    "p \<in> set os \<Longrightarrow> unat (alignment (fstatic e)) dvd bytes_of (L p)" "distinct (root_list e)"
    "r \<in> set (root_list e) \<Longrightarrow> disjnt_regions st (total L os) r 8"
    "r \<in> set (root_list e) \<Longrightarrow> r' \<in> set (root_list e) \<Longrightarrow> r \<noteq> r' \<Longrightarrow> disjnt_regions r 8 r' 8"
    "c \<in> set (root_list e) \<union> object_slots L os \<Longrightarrow> c \<noteq> 0" "c \<in> set (root_list e) \<union> object_slots L os \<Longrightarrow> c AND 1 = 0"
    "c \<in> set (root_list e) \<union> object_slots L os \<Longrightarrow> pointer_ok w os (beyond st (total L os) (set (root_list e))) (load64 (wmem w) c)"
  using assms unfolding mc_heap_ok_def by blast+

text \<open>Without weak objects the layouts are those of \<open>layout_of\<close>.\<close>

lemma mc_object:
  assumes ok: "mc_heap_ok e me w st L os" and p: "p \<in> set os"
  shows "layout_of (fstatic e) (wmem w) p = Some (L p)" "array_fits (fstatic e) (wmem w) p (L p)"
    "hb (L p) = 24 \<Longrightarrow> getArrayCounter (wmem w) p = 0" "short_header (getHeader (wmem w) p)" "isObjptr p"
    "getHeader (wmem w) p AND MARK_MASK = 0" "i \<in> set (ptrs (L p)) \<Longrightarrow> i + 8 \<le> bb (L p)" "hb (L p) = 8 \<or> hb (L p) = 24"
proof -
  note g = graph_okD [OF mc_heap_okD(3) [OF ok]]
  have i: "intact (mark_env_at e me w) mc_args (set os) L (wmem w) p" using g(8) p by blast
  then show "layout_of (fstatic e) (wmem w) p = Some (L p)" "array_fits (fstatic e) (wmem w) p (L p)"
      "hb (L p) = 24 \<Longrightarrow> getArrayCounter (wmem w) p = 0"
    by (auto simp: intact_def mark_layout_def bind_eq_Some_conv mark_env_at_def mc_args_def margs_def split: if_splits option.splits)
  show "short_header (getHeader (wmem w) p)" using g(6) [OF p] by (simp add: header_at)
  show "isObjptr p" using g(5) [OF p] by (simp add: isPointer_isObjptr)
  have "load64 (wmem w) (p - 8) AND MARK_MASK \<noteq> mark_bit mc_args" using g(7) [OF p] p by blast
  then show "getHeader (wmem w) p AND MARK_MASK = 0"
    using mark_flip(2) [of "load64 (wmem w) (p - 8)"] by (auto simp: header_at mc_args_def margs_def mark_bit_def)
  show "i \<in> set (ptrs (L p)) \<Longrightarrow> i + 8 \<le> bb (L p)" by (rule intact_ptrs(1) [OF i])
  show "hb (L p) = 8 \<or> hb (L p) = 24" by (rule areas_okD(1) [OF g(4) p])
qed

lemma header_area:
  assumes ok: "mc_heap_ok e me w st L os" and p: "p \<in> set os" and x: "x \<in> word8 (p - 8)"
  shows "off st x < total L os"
proof -
  have hb: "hb (L p) = 8 \<or> hb (L p) = 24" by (rule mc_object(8) [OF ok p])
  have le: "pos L os p + bytes_of (L p) \<le> total L os" by (rule pos_le [OF p])
  have "p - 8 = st + of_nat (pos L os p + (hb (L p) - 8))"
    using mc_heap_okD(4) [OF ok p] hb by (auto simp: algebra_simps)
  then have "off (st + of_nat (pos L os p + (hb (L p) - 8))) x < 8" using x by (simp add: word8_def)
  moreover have k: "pos L os p + (hb (L p) - 8) + 8 \<le> total L os" using le hb by auto
  moreover have "pos L os p + (hb (L p) - 8) + 8 \<le> 2 ^ 64" using k mc_heap_okD(2) [OF ok] by simp
  ultimately show ?thesis using region_offset [of "pos L os p + (hb (L p) - 8)" 8 x st] by linarith
qed

text \<open>What marking leaves alone.\<close>

lemma flips_beyond:
  assumes ok: "mc_heap_ok e me w st L os" and ps: "set ps \<subseteq> set os"
  shows "agree (beyond st (total L os) R) (flips ps (wmem w)) (wmem w)"
    "r \<in> set (root_list e) \<Longrightarrow> load64 (flips ps (wmem w)) r = load64 (wmem w) r"
    "r \<in> set (root_list e) \<Longrightarrow> clear_of (set os) r"
proof -
  have out: "flips ps (wmem w) x = wmem w x" if "total L os \<le> off st x" for x
  proof (rule flips_outside)
    fix p assume "p \<in> set ps"
    then have "x \<notin> word8 (p - 8)" using header_area [OF ok, of p x] ps that by fastforce
    then show "8 \<le> off (p - 8) x" by (simp add: word8_def)
  qed
  then show "agree (beyond st (total L os) R) (flips ps (wmem w)) (wmem w)" by (auto simp: agree_def beyond_def)
  assume r: "r \<in> set (root_list e)"
  have far: "total L os \<le> off st x" if "x \<in> word8 r" for x
    using disjnt_off [of st "total L os" r 8 x] mc_heap_okD(10) [OF ok r] that by (auto simp: word8_def)
  then show "load64 (flips ps (wmem w)) r = load64 (wmem w) r"
    using out by (intro agree_load64) (auto simp: agree_def)
  show "clear_of (set os) r"
    unfolding clear_of_def word8_disjnt using far header_area [OF ok] by fastforce
qed

section \<open>The marked heap\<close>

text \<open>What is marked is closed under pointers.\<close>

lemma marked_closed:
  assumes ok: "mc_heap_ok e me w st L os"
    and M: "M = marked_from (mark_env_at e me w) mc_args (set os) L (wmem w) (set (root_list e))"
  shows "r \<in> set (root_list e) \<Longrightarrow> load64 (wmem w) r \<in> set os \<Longrightarrow> load64 (wmem w) r \<in> M"
    "p \<in> M \<Longrightarrow> p \<in> set os \<Longrightarrow> i \<in> set (ptrs (L p)) \<Longrightarrow> load64 (wmem w) (p + of_nat i) \<in> set os \<Longrightarrow> load64 (wmem w) (p + of_nat i) \<in> M"
proof -
  show "r \<in> set (root_list e) \<Longrightarrow> load64 (wmem w) r \<in> set os \<Longrightarrow> load64 (wmem w) r \<in> M"
    unfolding M marked_from_def by (blast intro: mark_reach_self)
  assume p: "p \<in> M" "p \<in> set os" "i \<in> set (ptrs (L p))" and v: "load64 (wmem w) (p + of_nat i) \<in> set os"
  have "\<not> skipped (mark_env_at e me w) mc_args (load64 (wmem w) (p + of_nat i))"
    using mc_object(5) [OF ok v] mc_heap_okD(6) [OF ok v] by (simp add: skipped_def isPointer_isObjptr mark_env_at_def)
  then show "load64 (wmem w) (p + of_nat i) \<in> M"
    using p unfolding M marked_from_def by (blast intro: mark_reach_slot)
qed

lemma heap_after_simps [simp]:
  "lh_start (heap_after st L os M R) = st" "lh_live (heap_after st L os M R) = filter (\<lambda>p. p \<in> M) os"
  "lh_lay (heap_after st L os M R) = L" "lh_roots (heap_after st L os M R) = R"
  by (simp_all add: heap_after_def)

lemma heap_after_place:
  assumes "distinct os"
  shows "p \<in> set os \<Longrightarrow> p \<in> M \<Longrightarrow> place (heap_after st L os M R) p = pos L os p"
    "extent (heap_after st L os M R) = total L os"
proof -
  let ?H = "heap_after st L os M R"
  have "bytes_of (gapped ?H q) = gap_before L M (Some q) 0 os + bytes_of (L q)" for q
    by (simp add: gapped_def heap_after_def)
  note g = gap_pos [OF assms, of M "gapped ?H" L 0, OF this]
  show "p \<in> set os \<Longrightarrow> p \<in> M \<Longrightarrow> place ?H p = pos L os p"
    using g [of p] by (simp add: place_def heap_after_def)
  show "extent ?H = total L os" using g by (simp add: extent_def heap_after_def)
qed

lemma outside_after:
  assumes "distinct os"
  shows "outside (heap_after st L os M R) = beyond st (total L os) R"
  by (simp add: outside_def beyond_def heap_after_place(2) [OF assms])

lemma marked_compact_ok:
  assumes ok: "mc_heap_ok e me w st L os" and ps: "distinct ps" "set ps \<subseteq> set os"
    and closed: "\<And>r. r \<in> set (root_list e) \<Longrightarrow> load64 (wmem w) r \<in> set os \<Longrightarrow> load64 (wmem w) r \<in> set ps"
      "\<And>p i. p \<in> set ps \<Longrightarrow> i \<in> set (ptrs (L p)) \<Longrightarrow> load64 (wmem w) (p + of_nat i) \<in> set os \<Longrightarrow> load64 (wmem w) (p + of_nat i) \<in> set ps"
  shows "compact_ok (fstatic e) B (heap (fgc w)) (heap_after st L os (set ps) (set (root_list e))) (flips ps (wmem w))"
proof -
  let ?M = "set ps" and ?R = "set (root_list e)" and ?m = "wmem w" and ?m' = "flips ps (wmem w)" and ?g = "fstatic e"
  let ?H = "heap_after st L os ?M ?R" and ?Out = "beyond st (total L os) (set (root_list e))"
  note D = mc_heap_okD [OF ok] and O = mc_object [OF ok]
  note g = D(3) and gD = graph_okD [OF D(3)]
  have live: "set (lh_live ?H) = ?M" "distinct (lh_live ?H)" using ps(2) D(1) by auto
  have hdr: "getHeader ?m' p = (if p \<in> ?M then getHeader ?m p XOR MARK_MASK else getHeader ?m p)" if "p \<in> set os" for p
    using flips_header [OF areas_headers_apart [OF gD(4)] ps(2,1) that] by (simp add: header_at)
  have w: "load64 ?m' y = load64 ?m y" if "p \<in> set os" "word_of_object L p y" "disjnt_regions (p - 8) 8 y 8" for p y
  proof (rule flips_load)
    show "clear_of ?M y"
      unfolding clear_of_def using ps(2) that words_apart [OF gD(4) _ that(1) _ graph_object_words(1) that(2)] gD(4) by blast
  qed
  have len: "getArrayLength ?m' p = getArrayLength ?m p" "getArrayCounter ?m' p = getArrayCounter ?m p"
    if p: "p \<in> set os" "hb (L p) = 24" for p
    using w [OF p(1) graph_object_words(3) [OF gD(4) p]] w [OF p(1) graph_object_words(2) [OF gD(4) p]] own_words_apart [OF gD(4) p]
    by (simp_all add: header_at disjnt_sym)
  have types: "splitHeader (objectTypes ?g) (getHeader ?m' p) = splitHeader (objectTypes ?g) (getHeader ?m p)" if "p \<in> set os" for p
    using hdr [OF that] by simp
  have lay: "layout_of ?g ?m' p = Some (L p)" "array_fits ?g ?m' p (L p)" if p: "p \<in> set os" for p
  proof -
    obtain ty where ty: "splitHeader (objectTypes ?g) (getHeader ?m p) = Some ty"
      using O(1) [OF p] by (auto simp: layout_of_def bind_eq_Some_conv)
    have "hb (L p) = 24" if "tag ty = ARRAY_TAG" using O(1) [OF p] ty that by (auto simp: layout_of_def dest: arg_cong [where f = hb])
    then have "tag ty = ARRAY_TAG \<longrightarrow> getArrayLength ?m' p = getArrayLength ?m p" using len(1) [OF p] by blast
    then show "layout_of ?g ?m' p = Some (L p)" "array_fits ?g ?m' p (L p)"
      using O(1,2) [OF p] ty types [OF p] by (simp_all add: layout_of_def array_fits_def split: if_splits)
  qed
  have bits: "GC_VALID_HEADER_MASK AND getHeader ?m' p \<noteq> 0" "getHeader ?m' p \<noteq> GC_FORWARDED"
      "MARK_MASK AND getHeader ?m' p = 0 \<longleftrightarrow> p \<notin> ?M" if p: "p \<in> set os" for p
  proof -
    have v: "GC_VALID_HEADER_MASK AND (h XOR MARK_MASK) = GC_VALID_HEADER_MASK AND h" for h
      by (rule bit_eqI) (auto simp: bit_simps bit_masks GC_VALID_HEADER_MASK_def)
    show "GC_VALID_HEADER_MASK AND getHeader ?m' p \<noteq> 0" using hdr [OF p] D(7) [OF p] v by simp
    show "getHeader ?m' p \<noteq> GC_FORWARDED" using hdr [OF p] O(4) [OF p] short_header_bits(1,2) by auto
    show "MARK_MASK AND getHeader ?m' p = 0 \<longleftrightarrow> p \<notin> ?M"
      using hdr [OF p] O(6) [OF p] mark_flip(1) [of "getHeader ?m p"] by (auto simp: and.commute)
  qed
  have foot: "p - of_nat (hb (L p)) = st + of_nat (pos L os p)" if "p \<in> set os" for p
    using arg_cong [OF D(4) [OF that], of "\<lambda>x. x - of_nat (hb (L p))"] by simp
  have dead: "dead_object ?g B ?Out ?m' (st + of_nat (0 + pos L os q)) (bytes_of (L q))" if q: "q \<in> set os" "q \<notin> ?M" for q
  proof -
    have "bytes_of (L q) < 2 ^ 64" using pos_le [OF q(1), of L] D(2) by simp
    then have "dead_object ?g B ?Out ?m' (q - of_nat (hb (L q))) (bytes_of (L q))"
      using layout_dead [OF lay(1) [OF q(1)] _ bits(1,2) [OF q(1)]] bits(3) [OF q(1)] q(2) len(2) [OF q(1)] O(3) [OF q(1)] by simp
    then show ?thesis using foot [OF q(1)] by simp
  qed
  have runs: "(p \<in> set os \<and> p \<in> ?M \<longrightarrow> dead_run ?g B ?Out ?m' (st + of_nat (0 + pos L os p - gap_before L ?M (Some p) 0 os)) (gap_before L ?M (Some p) 0 os)) \<and>
      dead_run ?g B ?Out ?m' (st + of_nat (0 + total L os - gap_before L ?M None 0 os)) (gap_before L ?M None 0 os)" for p
    by (rule gap_runs [OF D(1) dead]) (simp_all add: dead_none)
  have out: "outside ?H = ?Out" and ext: "extent ?H = total L os"
    using outside_after [OF D(1)] heap_after_place(2) [OF D(1)] by auto
  have obj: "p = st + of_nat (place ?H p + hb (L p)) \<and> live_object ?g (heap (fgc w)) ?m' p (L p) \<and>
      dead_run ?g B (outside ?H) ?m' (st + of_nat (place ?H p - lh_dead ?H p)) (lh_dead ?H p) \<and>
      unat (alignment ?g) dvd lh_dead ?H p" if "p \<in> ?M" for p
  proof -
    have p: "p \<in> set os" using that ps(2) by blast
    have pl: "place ?H p = pos L os p" by (rule heap_after_place(1) [OF D(1) p that])
    have "unat (alignment ?g) dvd gap_before L ?M (Some p) 0 os" by (rule gap_dvd) (use D(8) in auto)
    moreover have "live_object ?g (heap (fgc w)) ?m' p (L p)"
      unfolding live_object_def using lay [OF p] bits [OF p] that O(5) [OF p] D(5) [OF p] len(2) [OF p] O(3) [OF p] by simp
    moreover have "lh_dead ?H p = gap_before L ?M (Some p) 0 os" by (simp add: heap_after_def)
    ultimately show ?thesis using runs [of p] p that D(4) [OF p] pl out by simp
  qed
  have slots: "obj_slots ?H (lh_live ?H) \<subseteq> object_slots L os" using ps(2) by (auto simp: obj_slots_def object_slots_def)
  have val: "slot_value (heap (fgc w)) ?M ?Out ?m' (load64 ?m' c)" if c: "c \<in> all_slots ?H (lh_live ?H)" for c
  proof -
    have c': "c \<in> ?R \<union> object_slots L os" using c slots by auto
    have same: "load64 ?m' c = load64 ?m c" and cl: "load64 ?m c \<in> set os \<Longrightarrow> load64 ?m c \<in> ?M"
    proof -
      consider "c \<in> ?R" | p i where "p \<in> ?M" "i \<in> set (ptrs (L p))" "c = p + of_nat i"
        using c ps(2) by (auto simp: obj_slots_def)
      then have "load64 ?m' c = load64 ?m c \<and> (load64 ?m c \<in> set os \<longrightarrow> load64 ?m c \<in> ?M)"
      proof cases
        case 1
        then show ?thesis using flips_beyond(2) [OF ok ps(2)] closed(1) by blast
      next
        case 2
        then have "load64 ?m' c = load64 ?m c" using graph_slots [OF g ps(2)] ps(2) by blast
        then show ?thesis using closed(2) [OF 2(1,2)] 2(3) by simp
      qed
      then show "load64 ?m' c = load64 ?m c" "load64 ?m c \<in> set os \<Longrightarrow> load64 ?m c \<in> ?M" by auto
    qed
    show ?thesis
    proof (cases "load64 ?m c \<in> set os")
      case True
      then show ?thesis using same cl by (simp add: slot_value_def)
    next
      case False
      then have v: "isObjptr (load64 ?m c) \<longrightarrow> \<not> isPointerInHeap (heap (fgc w)) (load64 ?m c) \<and>
          getHeader ?m (load64 ?m c) \<noteq> GC_FORWARDED \<and> word8 (load64 ?m c - 8) \<subseteq> ?Out"
        using D(14) [OF c'] by (simp add: pointer_ok_def)
      have "getHeader ?m' (load64 ?m c) = getHeader ?m (load64 ?m c)" if "word8 (load64 ?m c - 8) \<subseteq> ?Out"
        by (rule getHeader_agree [OF agree_mono [OF flips_beyond(1) [OF ok ps(2)] that]])
      then show ?thesis using v same by (auto simp: slot_value_def)
    qed
  qed
  show ?thesis
    unfolding compact_ok_def out ext live(1)
  proof (intro conjI ballI)
    show "distinct (lh_live ?H)" by (rule live(2))
    show "unat (lh_start ?H) + total L os < 2 ^ 63" using D(2) by simp
    show "dead_run ?g B ?Out ?m' (lh_start ?H + of_nat (total L os - lh_behind ?H)) (lh_behind ?H)"
      using runs by (simp add: heap_after_def)
    show "disjnt_regions (lh_start ?H) (total L os) r 8" if "r \<in> lh_roots ?H" for r using D(10) that by simp
    show "r \<noteq> r' \<longrightarrow> disjnt_regions r 8 r' 8" if "r \<in> lh_roots ?H" "r' \<in> lh_roots ?H" for r r' using D(11) that by simp
    show "c \<noteq> 0" "c AND 1 = 0" if "c \<in> all_slots ?H (lh_live ?H)" for c using D(12,13) that slots by auto
    show "slot_value (heap (fgc w)) ?M ?Out ?m' (load64 ?m' c)" if "c \<in> all_slots ?H (lh_live ?H)" for c by (rule val [OF that])
  qed (use obj out in auto)
qed

end
