(* ===== verification/Compact_GC.thy ===== *)
theory Compact_GC
  imports Compact_Graph
begin

text \<open>
  The mark-compact collection of a local heap of normal objects and arrays.
\<close>

section \<open>The compacted heap\<close>

text \<open>The objects \<open>M\<close> of \<open>os\<close> are moved together at \<open>st\<close>, in their order.\<close>

definition compact_to :: "pointer \<Rightarrow> (pointer \<Rightarrow> layout) \<Rightarrow> pointer list \<Rightarrow> pointer set \<Rightarrow> pointer \<Rightarrow> pointer" where
  "compact_to st L os M p = (if p \<in> M then new_at L st (filter (\<lambda>p. p \<in> M) os) p else p)"

text \<open>The object at \<open>p\<close> in \<open>m\<close> is at \<open>N p\<close> in \<open>m'\<close>, with its pointers renamed by \<open>N\<close> and its other bytes as they were.\<close>

definition moved_object :: "(pointer \<Rightarrow> layout) \<Rightarrow> (pointer \<Rightarrow> pointer) \<Rightarrow> mem \<Rightarrow> mem \<Rightarrow> pointer \<Rightarrow> bool" where
  "moved_object L N m m' p \<longleftrightarrow> getHeader m' (N p) = getHeader m p \<and>
    (\<forall>i\<in>set (ptrs (L p)). load64 m' (N p + of_nat i) = N (load64 m (p + of_nat i))) \<and>
    (\<forall>i<bytes_of (L p). (i < hb (L p) - 8 \<or> hb (L p) \<le> i) \<and>
      (\<forall>k\<in>set (ptrs (L p)). i < hb (L p) + k \<or> hb (L p) + k + 8 \<le> i) \<longrightarrow>
      m' (N p - of_nat (hb (L p)) + of_nat i) = m (p - of_nat (hb (L p)) + of_nat i))"

lemma moved_from_slid:
  assumes ok: "mc_heap_ok e me w st L os" and ps: "distinct ps" "set ps \<subseteq> set os" and p: "p \<in> set ps"
    and c: "compact_ok g B h (heap_after st L os (set ps) R) (flips ps (wmem w))"
    and s: "slid (heap_after st L os (set ps) R) (flips ps (wmem w)) m' p"
    and closed: "\<And>i. i \<in> set (ptrs (L p)) \<Longrightarrow> load64 (wmem w) (p + of_nat i) \<in> set os \<Longrightarrow> load64 (wmem w) (p + of_nat i) \<in> set ps"
  shows "moved_object L (compact_to st L os (set ps)) (wmem w) m' p"
proof -
  let ?H = "heap_after st L os (set ps) R" and ?N = "compact_to st L os (set ps)"
  note g = mc_heap_okD(3) [OF ok] and gD = graph_okD [OF mc_heap_okD(3) [OF ok]]
  have pos: "p \<in> set os" using p ps(2) by blast
  have N: "slid_to ?H q = ?N q" if "q \<in> set ps" for q using that by (simp add: slid_to_def compact_to_def)
  have ren: "slid_value ?H v = ?N v" for v using N ps(2) by (auto simp: slid_value_def compact_to_def)
  have clr: "GC_VALID_HEADER_MASK AND 0 = 0" by simp
  have hdr: "getHeader (flips ps (wmem w)) p AND NOT MARK_MASK = getHeader (wmem w) p"
  proof -
    have "getHeader (flips ps (wmem w)) p = getHeader (wmem w) p XOR MARK_MASK"
      using flips_header [OF areas_headers_apart [OF gD(4)] ps(2,1) pos] p by (simp add: header_at)
    moreover have "(h XOR MARK_MASK) AND NOT MARK_MASK = h" if "h AND MARK_MASK = 0" for h :: u64
    proof (rule bit_eqI)
      fix n
      have "\<not> (bit h n \<and> bit MARK_MASK n)" using that by (metis bit_and_iff bit_0_eq bot_apply bot_bool_def)
      then show "bit ((h XOR MARK_MASK) AND NOT MARK_MASK) n = bit h n" if "possible_bit TYPE(64 word) n"
        using that by (auto simp: bit_simps)
    qed
    ultimately show ?thesis using mc_object(6) [OF ok pos] by simp
  qed
  have live: "q \<in> set (lh_live ?H) \<longleftrightarrow> q \<in> set ps" for q using ps(2) by auto
  have hb: "hb (L q) = 8 \<or> hb (L q) = 24" if "q \<in> set ps" for q using mc_object(8) [OF ok] that ps(2) by blast
  have byte: "flips ps (wmem w) (p - of_nat (hb (L p)) + of_nat i) = wmem w (p - of_nat (hb (L p)) + of_nat i)"
    if i: "i < bytes_of (L p)" "i < hb (L p) - 8 \<or> hb (L p) \<le> i" for i
  proof (rule flips_outside)
    fix q assume q: "q \<in> set ps"
    let ?x = "p - of_nat (hb (L p)) + of_nat i"
    have pl: "p \<in> set (lh_live ?H)" "q \<in> set (lh_live ?H)" using p q live by auto
    have x: "?x = st + of_nat (place ?H p + i)" using header_place(3) [OF c pl(1)] by simp
    have o: "off st ?x = place ?H p + i"
      unfolding x using place_le [OF pl(1)] compact_okD(2) [OF c] i(1) unat_of_nat_small [of "place ?H p + i"] by (simp del: of_nat_add)
    have "?x \<notin> word8 (q - 8)"
      using header_word [OF c pl(2), of ?x] o i place_apart [OF pl] hb [OF q] hb [OF p] by (cases "q = p") auto
    then show "8 \<le> off (q - 8) ?x" by (simp add: word8_def)
  qed
  have slot: "load64 (flips ps (wmem w)) (p + of_nat i) = load64 (wmem w) (p + of_nat i)" if "i \<in> set (ptrs (L p))" for i
    by (rule graph_slots [OF g ps(2) pos that])
  show ?thesis
    unfolding moved_object_def
  proof (intro conjI ballI allI impI)
    show "getHeader m' (?N p) = getHeader (wmem w) p" using s hdr N [OF p] by (simp add: slid_def)
    show "load64 m' (?N p + of_nat i) = ?N (load64 (wmem w) (p + of_nat i))" if "i \<in> set (ptrs (L p))" for i
      using s slot [OF that] N [OF p] ren that by (simp add: slid_def)
    fix i assume i: "i < bytes_of (L p)" "(i < hb (L p) - 8 \<or> hb (L p) \<le> i) \<and>
      (\<forall>k\<in>set (ptrs (L p)). i < hb (L p) + k \<or> hb (L p) + k + 8 \<le> i)"
    have "m' (slid_to ?H p - of_nat (hb (L p)) + of_nat i) = flips ps (wmem w) (p - of_nat (hb (L p)) + of_nat i)"
      using s i unfolding slid_def heap_after_simps by blast
    then show "m' (?N p - of_nat (hb (L p)) + of_nat i) = wmem w (p - of_nat (hb (L p)) + of_nat i)"
      using byte i N [OF p] by simp
  qed
qed

section \<open>The collection\<close>

lemma current_stack_still:
  assumes "GC_forwardBase (fgc w) (wmem w) (load64 (wmem w) (currentThread_slot (own_roots e))) = load64 (wmem w) (currentThread_slot (own_roots e))"
  shows "\<exists>stk. getStackCurrent_slot e w = (w, stk)"
  using assms
  by (simp add: getStackCurrent_slot_def getStackCurrent_def getStackCurrentObjptr_def getThreadCurrent_def getThreadCurrentObjptr_def
    Let_def store64_load64)

definition live_objects :: "fwd_env \<Rightarrow> mark_env \<Rightarrow> fwd world \<Rightarrow> (pointer \<Rightarrow> layout) \<Rightarrow> pointer list \<Rightarrow> pointer set" where
  "live_objects e me w L os = marked_from (mark_env_at e me w) mc_args (set os) L (wmem w) (set (root_list e))"

lemma majorMarkCompactGC_compacts:
  assumes ok: "mc_heap_ok e me w st L os"
    and std: "std_types (fstatic e)" "align_arg (alignment (fstatic e))" "unat (alignment (fstatic e)) \<le> 8"
    and r: "danglingSize (own_roots e) = 0" "weaks (rest w) = 0"
    and cur: "GC_forwardBase (fgc w) (wmem w) (load64 (wmem w) (currentThread_slot (own_roots e))) = load64 (wmem w) (currentThread_slot (own_roots e))"
    and st: "st = alignFrontier (alignment (fstatic e)) (h_start (heap (fgc w)))"
      "st + of_nat (total L os) = h_start (heap (fgc w)) + oldGenSize (heap (fgc w))"
    and M: "M = live_objects e me w L os" and N: "N = compact_to st L os M"
  shows "\<exists>m' s'. majorMarkCompactGC e me False junk w s = Some (on_gc (\<lambda>s. s\<lparr>heap := (heap s)\<lparr>oldGenSize :=
        st + of_nat (total L (filter (\<lambda>p. p \<in> M) os)) - h_start (heap s)\<rparr>\<rparr>) (w\<lparr>wmem := m'\<rparr>), s') \<and>
    (\<forall>p\<in>M. moved_object L N (wmem w) m' p) \<and> (\<forall>r\<in>set (root_list e). load64 m' r = N (load64 (wmem w) r)) \<and>
    agree (beyond st (total L os) (set (root_list e))) m' (wmem w)"
proof -
  let ?e = "mark_env_at e me w" and ?R = "set (root_list e)"
  note D = mc_heap_okD [OF ok]
  have g: "graph_ok (me\<lparr>mark_static := fstatic e, mark_gc := fgc w\<rparr>) mc_args (set os) L (set os) (wmem w)"
    using D(3) by (simp add: mark_env_at_def)
  have rv: "clear_of (set os) r \<and> root_value (me\<lparr>mark_static := fstatic e, mark_gc := fgc w\<rparr>) (set os) (wmem w) (load64 (wmem w) r)"
    if r: "r \<in> ?R" for r
  proof
    show "clear_of (set os) r" by (rule flips_beyond(3) [OF ok _ r, of "[]"]) simp
    have "clear_of (set os) (v - 8)" if "word8 (v - 8) \<subseteq> beyond st (total L os) ?R" for v
      unfolding clear_of_def word8_disjnt using that header_area [OF ok] by (fastforce simp: beyond_def)
    then show "root_value (me\<lparr>mark_static := fstatic e, mark_gc := fgc w\<rparr>) (set os) (wmem w) (load64 (wmem w) r)"
      using D(14) [of r] r by (auto simp: root_value_def pointer_ok_def)
  qed
  obtain ps s' where ps: "mark_local e me False junk w s = Some (w\<lparr>wmem := flips ps (wmem w)\<rparr>, s')" "distinct ps" "set ps = M"
    using mark_local_marks [OF g rv D(6) r(1), of junk s] by (auto simp: M live_objects_def mark_env_at_def)
  have MM: "M = marked_from ?e mc_args (set os) L (wmem w) ?R" by (simp add: M live_objects_def)
  have sub: "set ps \<subseteq> set os"
  proof
    fix p assume "p \<in> set ps"
    then obtain r where "load64 (wmem w) r \<in> set os" "p \<in> mark_reach ?e mc_args L (wmem w) (set os) (load64 (wmem w) r)"
      unfolding ps(3) MM marked_from_def by blast
    from this(2,1) show "p \<in> set os"
    proof induction
      case (mark_reach_slot o' i)
      have "slot_ok ?e mc_args (set os) L (wmem w) (load64 (wmem w) (o' + of_nat i))"
        using graph_okD(8) [OF D(3) mark_reach_slot.hyps(2)] mark_reach_slot.hyps(3) by (simp add: intact_def)
      then show ?case using mark_reach_slot.hyps(4) by (simp add: slot_ok_def)
    qed
  qed
  have cl: "r \<in> ?R \<Longrightarrow> load64 (wmem w) r \<in> set os \<Longrightarrow> load64 (wmem w) r \<in> set ps"
      "p \<in> set ps \<Longrightarrow> i \<in> set (ptrs (L p)) \<Longrightarrow> load64 (wmem w) (p + of_nat i) \<in> set os \<Longrightarrow> load64 (wmem w) (p + of_nat i) \<in> set ps" for r p i
    using marked_closed [OF ok MM] sub ps(3) by auto
  let ?H = "heap_after st L os (set ps) ?R" and ?w = "w\<lparr>wmem := flips ps (wmem w)\<rparr>"
  have cok: "compact_ok (fstatic e) (h_start (sharedHeap (fgc ?w))) (heap (fgc ?w)) ?H (wmem ?w)"
    using marked_compact_ok [OF ok ps(2) sub cl] by simp
  obtain stk where stk: "getStackCurrent_slot e w = (w, stk)" using current_stack_still [OF cur] by blast
  let ?c = "local_mc (heap (fgc w)) stk"
  have weak: "updateWeaksForMarkCompact e ?w = Some ?w"
  proof -
    have "(rest w)\<lparr>weaks := 0\<rparr> = rest w" using r(2) by simp
    then show ?thesis using r(2) by (simp add: updateWeaksForMarkCompact_def updateWeaks_mark_loop.simps)
  qed
  let ?passes = "do { w \<leftarrow> foreachGlobalObjptrInScope e threadInternalObjptrIfInLocalHeap ?w;
      let h = heap (fgc w);
      let c = local_mc h stk;
      w \<leftarrow> updateForwardPointersForMarkCompact e c (alignFrontier (alignment (fstatic e)) (h_start h)) (h_start h + oldGenSize h) w;
      updateBackwardPointersAndSlideForMarkCompact e c w }"
  obtain m' where m': "?passes =
    Some (set_oldGenSize ?c (st + of_nat (total L (filter (\<lambda>p. p \<in> set ps) os)) - h_start (heap (fgc w))) (?w\<lparr>wmem := m'\<rparr>))"
    "compacted ?H (wmem ?w) m'"
    using passes_compact [OF cok std, of ?c stk] D(9) r(1) st heap_after_place(2) [OF D(1)] by (auto simp del: world.update_convs)
  have run: "majorMarkCompactGC e me False junk w s =
      Some (set_oldGenSize ?c (st + of_nat (total L (filter (\<lambda>p. p \<in> set ps) os)) - h_start (heap (fgc w))) (w\<lparr>wmem := m'\<rparr>), s')"
  proof -
    have "majorMarkCompactGC e me False junk w s = Option.bind ?passes (\<lambda>w. Some (w, s'))"
      using stk ps(1) weak by (simp add: majorMarkCompactGC_def local_mc_def Let_def)
    then show ?thesis unfolding m'(1) by simp
  qed
  have "moved_object L N (wmem w) m' p" if "p \<in> M" for p
    unfolding N ps(3) [symmetric]
    by (rule moved_from_slid [OF ok ps(2) sub _ cok [simplified] _ cl(2)])
      (use m'(2) that ps(3) sub in \<open>auto simp: compacted_def\<close>)
  moreover have "load64 m' r = N (load64 (wmem w) r)" if "r \<in> ?R" for r
    using m'(2) that flips_beyond(2) [OF ok sub that] sub
    by (auto simp: compacted_def slid_value_def N compact_to_def ps(3) slid_to_def)
  moreover have "agree (beyond st (total L os) ?R) m' (wmem w)"
  proof (rule agree_trans)
    show "agree (beyond st (total L os) ?R) m' (flips ps (wmem w))"
      using m'(2) by (simp add: compacted_def outside_after [OF D(1)])
  qed (rule flips_beyond(1) [OF ok sub])
  ultimately show ?thesis
    using run ps(3) by (intro exI [of _ m'] exI [of _ s']) (simp add: set_oldGenSize_def local_mc_def)
qed

section \<open>Property\<close>


section \<open>Witness\<close>

text \<open>Three cells of two words: the first one, in front, is garbage, the others lead to each other.\<close>

definition demo_compact_static :: gc_static where
  "demo_compact_static = demo_static\<lparr>objectTypes := demo_filler_types @ [demo_node_type]\<rparr>"

definition demo_compact_mem :: mem where
  "demo_compact_mem = foldr (\<lambda>(a, v) m. store64 m a v)
    [(4096, 19), (4104, 4152), (4112, 1), (4120, 19), (4128, 4152), (4136, 1), (4144, 19), (4152, 4128), (4160, 3),
     (16384, 4152), (16392, 1), (16400, 1), (16408, 1), (16416, 1), (16424, 1), (16432, 1)] (\<lambda>_. 0)"

definition demo_compact_env :: fwd_env where
  "demo_compact_env = demo_fwd_env\<lparr>fenv := demo_env\<lparr>static := demo_compact_static\<rparr>\<rparr>"

definition demo_compact_world :: "fwd world" where
  "demo_compact_world = demo_fwd_world\<lparr>wmem := demo_compact_mem, rest := (rest demo_fwd_world)\<lparr>
     fmach := demo_machine\<lparr>gcs := demo_state\<lparr>heap := (demo_heap LOCAL_HEAP 4096 1024)\<lparr>oldGenSize := 72\<rparr>\<rparr>\<rparr>\<rparr>\<rparr>"

definition demo_cell :: layout where "demo_cell = \<lparr> hb = 8, bb = 16, ptrs = [0, 8] \<rparr>"

lemma demo_compact_loads:
  "load64 demo_compact_mem 4096 = 19" "load64 demo_compact_mem 4104 = 4152" "load64 demo_compact_mem 4112 = 1"
  "load64 demo_compact_mem 4120 = 19" "load64 demo_compact_mem 4128 = 4152" "load64 demo_compact_mem 4136 = 1"
  "load64 demo_compact_mem 4144 = 19" "load64 demo_compact_mem 4152 = 4128" "load64 demo_compact_mem 4160 = 3"
  "load64 demo_compact_mem 16384 = 4152" "load64 demo_compact_mem 16392 = 1" "load64 demo_compact_mem 16400 = 1"
  "load64 demo_compact_mem 16408 = 1" "load64 demo_compact_mem 16416 = 1" "load64 demo_compact_mem 16424 = 1"
  "load64 demo_compact_mem 16432 = 1"
  by (simp_all add: demo_compact_mem_def load64_store64_disjnt disjnt_regions_def)

lemma demo_compact_fields:
  "wmem demo_compact_world = demo_compact_mem" "fstatic demo_compact_env = demo_compact_static"
  "h_start (heap (fgc demo_compact_world)) = 4096" "h_size (heap (fgc demo_compact_world)) = 1024"
  "oldGenSize (heap (fgc demo_compact_world)) = 72"
  "h_start (sharedHeap (fgc demo_compact_world)) = 0" "h_size (sharedHeap (fgc demo_compact_world)) = 0"
  "root_list demo_compact_env = [16384, 16392, 16400, 16408, 16416, 16424, 16432]"
  "alignment demo_compact_static = 8" "objectTypes demo_compact_static = demo_filler_types @ [demo_node_type]"
  "weaks (rest demo_compact_world) = 0" "danglingSize (own_roots demo_compact_env) = 0"
  "currentThread_slot (own_roots demo_compact_env) = 16392"
  by (simp_all add: demo_compact_world_def demo_compact_env_def demo_compact_static_def demo_static_def demo_env_def demo_heap_def
    demo_state_def demo_fwd_world_def demo_fwd_env_def root_list_def array_of_def)

lemma demo_compact_split:
  "splitHeader (demo_filler_types @ [demo_node_type]) 19 = Some demo_node_type"
  "std_types demo_compact_static"
proof -
  have l: "length demo_filler_types = 9" by (simp add: demo_filler_types_def)
  show "splitHeader (demo_filler_types @ [demo_node_type]) 19 = Some demo_node_type"
    by (simp add: splitHeader_def objectTypeIndex_eq nth_append l)
  have "splitHeader (demo_filler_types @ xs) h = Some ty" if "splitHeader demo_filler_types h = Some ty" for xs h ty
    using that by (auto simp: splitHeader_def Let_def nth_append split: if_splits)
  then show "std_types demo_compact_static"
    using demo_std_types by (auto simp: std_types_def demo_compact_fields) 
qed

abbreviation "demo_compact_objects \<equiv> [4104, 4128, 4152] :: pointer list"

lemma demo_compact_object:
  assumes "p \<in> set demo_compact_objects"
  shows "getHeader demo_compact_mem p = 19" "layout_of demo_compact_static demo_compact_mem p = Some demo_cell"
    "array_fits demo_compact_static demo_compact_mem p demo_cell"
    "mark_layout demo_compact_static demo_compact_mem p = Some demo_cell"
proof -
  show h: "getHeader demo_compact_mem p = 19" using assms by (auto simp: header_at demo_compact_loads)
  have t: "splitHeader (objectTypes demo_compact_static) 19 = Some demo_node_type"
    using demo_compact_split(1) by (simp add: demo_compact_fields)
  show l: "layout_of demo_compact_static demo_compact_mem p = Some demo_cell"
    by (simp add: layout_of_def h t demo_node_type_def demo_cell_def elementBytes_def OBJPTR_SIZE_def upt_rec)
  show "array_fits demo_compact_static demo_compact_mem p demo_cell" by (simp add: array_fits_def h t demo_node_type_def)
  show "mark_layout demo_compact_static demo_compact_mem p = Some demo_cell"
    by (simp add: mark_layout_def h t l demo_node_type_def)
qed

lemma demo_compact_graph:
  "graph_ok (mark_env_at demo_compact_env demo_mark_env demo_compact_world) mc_args (set demo_compact_objects) (\<lambda>_. demo_cell)
    (set demo_compact_objects) demo_compact_mem"
  unfolding graph_ok_def
proof (intro conjI ballI)
  show "areas_ok (set demo_compact_objects) (\<lambda>_. demo_cell)"
    by (simp add: areas_ok_def demo_cell_def start_of_def disjnt_regions_def)
  fix p assume p: "p \<in> set demo_compact_objects"
  note o = demo_compact_object [OF p]
  have st: "mark_static (mark_env_at demo_compact_env demo_mark_env demo_compact_world) = demo_compact_static"
    by (simp add: mark_env_at_def demo_compact_fields)
  show "isPointer p" using p by (auto simp: isPointer_isObjptr isObjptr_eq)
  have "\<not> bit (19 :: 64 word) 32" by simp
  then show "short_header (getHeader demo_compact_mem p)" by (simp only: short_header_def o(1) not_False_eq_True)
  show "p \<in> set demo_compact_objects \<longleftrightarrow> getHeader demo_compact_mem p AND MARK_MASK \<noteq> mark_bit mc_args"
    using p o(1) by (simp add: mark_bit_def mc_args_def margs_def MARK_MASK_def)
  show "intact (mark_env_at demo_compact_env demo_mark_env demo_compact_world) mc_args (set demo_compact_objects) (\<lambda>_. demo_cell)
      demo_compact_mem p"
    unfolding intact_def st
  proof (intro conjI ballI impI)
    show "mark_layout demo_compact_static demo_compact_mem p = Some demo_cell" "array_fits demo_compact_static demo_compact_mem p demo_cell"
      by (rule o)+
    show "getHeader demo_compact_mem p AND COUNTER_MASK = 0" by (simp add: o(1) COUNTER_MASK_def)
    show "case splitHeader (objectTypes demo_compact_static) (getHeader demo_compact_mem p) of None \<Rightarrow> False
      | Some ty \<Rightarrow> unat (numObjptrs ty) \<le> 2048 \<and> (tag ty = WEAK_TAG \<longrightarrow> \<not> shouldLinkWeaks mc_args)"
      unfolding o(1) demo_compact_fields demo_compact_split(1) by (simp add: demo_node_type_def)
    show "slot_ok (mark_env_at demo_compact_env demo_mark_env demo_compact_world) mc_args (set demo_compact_objects) (\<lambda>_. demo_cell)
        demo_compact_mem (load64 demo_compact_mem (p + of_nat i))" if "i \<in> set (ptrs demo_cell)" for i
    proof -
      have "load64 demo_compact_mem (p + of_nat i) \<in> {4128, 4152, 1, 3}"
        using that p by (auto simp: demo_cell_def demo_compact_loads)
      then show ?thesis by (auto simp: slot_ok_def skipped_def isPointer_isObjptr isObjptr_eq)
    qed
  qed (simp add: demo_cell_def)
qed simp_all

lemma demo_compact_ok: "mc_heap_ok demo_compact_env demo_mark_env demo_compact_world 4096 (\<lambda>_. demo_cell) demo_compact_objects"
proof -
  have pos: "pos (\<lambda>_. demo_cell) demo_compact_objects 4104 = 0" "pos (\<lambda>_. demo_cell) demo_compact_objects 4128 = 24"
    "pos (\<lambda>_. demo_cell) demo_compact_objects 4152 = 48" "total (\<lambda>_. demo_cell) demo_compact_objects = 72"
    by (simp_all add: pos_def demo_cell_def)
  have slots: "object_slots (\<lambda>_. demo_cell) demo_compact_objects = {4104, 4112, 4128, 4136, 4152, 4160}"
    by (auto simp: object_slots_def demo_cell_def)
  have heap: "isPointerInHeap (heap (fgc demo_compact_world)) p" "\<not> isPointerInHeap (sharedHeap (fgc demo_compact_world)) p"
    if "p \<in> set demo_compact_objects" for p
    using that by (auto simp: isPointerInHeap_def demo_compact_fields isPointer_isObjptr isObjptr_eq)
  have val: "pointer_ok demo_compact_world demo_compact_objects Out v" if "v \<in> {4128, 4152, 1, 3}" for Out v
    using that by (auto simp: pointer_ok_def isObjptr_eq)
  show ?thesis
    unfolding mc_heap_ok_def demo_compact_fields(1,2,8,9) pos(4) slots
  proof (intro conjI ballI)
    show "graph_ok (mark_env_at demo_compact_env demo_mark_env demo_compact_world) mc_args (set demo_compact_objects) (\<lambda>_. demo_cell)
      (set demo_compact_objects) demo_compact_mem" by (rule demo_compact_graph)
    fix p assume p: "p \<in> set demo_compact_objects"
    show "p = 4096 + of_nat (pos (\<lambda>_. demo_cell) demo_compact_objects p + hb demo_cell)"
      using p pos by (auto simp: demo_cell_def)
    show "isPointerInHeap (heap (fgc demo_compact_world)) p" "\<not> isPointerInHeap (sharedHeap (fgc demo_compact_world)) p"
      by (rule heap [OF p])+
    show "GC_VALID_HEADER_MASK AND getHeader demo_compact_mem p \<noteq> 0"
      by (simp add: demo_compact_object [OF p] GC_VALID_HEADER_MASK_def)
    show "unat (8 :: u64) dvd bytes_of demo_cell" by (simp add: demo_cell_def)
  next
    fix r assume "r \<in> set [16384, 16392, 16400, 16408, 16416, 16424, 16432 :: u64]"
    then show "disjnt_regions 4096 72 r 8" by (auto simp: disjnt_regions_def)
  next
    fix r r' assume "r \<in> set [16384, 16392, 16400, 16408, 16416, 16424, 16432 :: u64]" "r' \<in> set [16384, 16392, 16400, 16408, 16416, 16424, 16432 :: u64]"
    then show "r \<noteq> r' \<longrightarrow> disjnt_regions r 8 r' 8" by (auto simp: disjnt_regions_def)
  next
    fix c assume c: "c \<in> set [16384, 16392, 16400, 16408, 16416, 16424, 16432 :: u64] \<union> {4104, 4112, 4128, 4136, 4152, 4160}"
    then show "c \<noteq> 0" "c AND 1 = 0" by auto
    have "load64 demo_compact_mem c \<in> {4128, 4152, 1, 3}" using c by (auto simp: demo_compact_loads)
    then show "pointer_ok demo_compact_world demo_compact_objects
        (beyond 4096 72 (set [16384, 16392, 16400, 16408, 16416, 16424, 16432])) (load64 demo_compact_mem c)" by (rule val)
  qed simp_all
qed

lemma demo_compact_live:
  "live_objects demo_compact_env demo_mark_env demo_compact_world (\<lambda>_. demo_cell) demo_compact_objects = {4128, 4152}"
proof -
  let ?e = "mark_env_at demo_compact_env demo_mark_env demo_compact_world" and ?F = "set demo_compact_objects"
  have sk: "\<not> skipped ?e mc_args 4128" "\<not> skipped ?e mc_args 4152"
    by (simp_all add: skipped_def isPointer_isObjptr isObjptr_eq isPointerInHeap_def mark_env_at_def demo_compact_fields)
  have "mark_reach ?e mc_args (\<lambda>_. demo_cell) demo_compact_mem ?F 4152 = {4128, 4152}"
  proof
    show "mark_reach ?e mc_args (\<lambda>_. demo_cell) demo_compact_mem ?F 4152 \<subseteq> {4128, 4152}"
    proof
      fix q assume "q \<in> mark_reach ?e mc_args (\<lambda>_. demo_cell) demo_compact_mem ?F 4152"
      then show "q \<in> {4128, 4152}"
        by induction (auto simp: skipped_def isPointer_isObjptr isObjptr_eq demo_cell_def demo_compact_loads)
    qed
    show "{4128, 4152} \<subseteq> mark_reach ?e mc_args (\<lambda>_. demo_cell) demo_compact_mem ?F 4152"
      using mark_reach_slot [OF mark_reach_self, of 4152 ?F 0 "\<lambda>_. demo_cell" ?e mc_args demo_compact_mem] sk
      by (simp add: mark_reach_self demo_cell_def demo_compact_loads)
  qed
  moreover have "{r \<in> set (root_list demo_compact_env). load64 demo_compact_mem r \<in> ?F} = {16384}"
    by (auto simp: demo_compact_fields demo_compact_loads)
  ultimately show ?thesis by (simp only: live_objects_def marked_from_def demo_compact_fields(1)) (simp add: demo_compact_loads)
qed


end
