(* ===== verification/Spec2Isabelle.thy ===== *)
theory Spec2Isabelle
  imports Word_Arith To_String Sched_Ops Hash_Cons Generational Heap_Resize Critical_Section Int_Inf
    Shared_Alloc Threadlets Compact_GC
begin

text \<open>
  The run-time system of MultiMLton (\<open>src/runtime\<close>), a Standard ML implementation with one
  heap for each processor and a heap that all processors share.

  The parts of the program. Compiled code allocates objects in the local heap of its processor;
  an object that another processor can reach is lifted to the shared heap and its old place
  forwarded to the new one, so that every use of a pointer goes through a read barrier. Each
  processor has queues of user-level threads; all processors meet in a critical section when
  the shared heap is collected. Below the collectors are the heap manager, which gets memory
  from the operating system, the maps that say which parts of the old generation were
  written and where objects start there, and the walks that visit every object pointer of an
  object, of a range of objects and of a stack. Beside them stand hash consing, arbitrary-precision
  integers, and the fixed-width arithmetic that the basis library calls.

  The machine. Addresses and sizes are 64-bit words and an object pointer is an address (the
  model \<open>NATIVE64\<close> of \<open>gc/model.h\<close>). Memory is a function from addresses to bytes, read and
  written as little-endian words (\<open>load64\<close>, \<open>store64\<close>); addresses wrap around as in C, and a
  theorem that needs them not to says so with a bound. A failed assertion and a call of \<open>die\<close>
  are an error value; what C leaves undefined is \<open>None\<close>; a loop without an evident bound is a
  \<open>partial_function (option)\<close>, where \<open>None\<close> is a loop that does not end, and the theorems
  about such a loop say that it returns. Only the loops of \<open>Hash_Cons\<close> over 32-bit lengths take
  fuel: as many probes as the table has slots, and 27 doublings, are enough. Functions of the operating system,
  the C library's \<open>malloc\<close>, GMP and the collections that an allocation may start are arguments;
  theorems state what they need of them, and the witnesses instantiate them.

  The theories, the code they model and what they show.

  \<^item> \<open>Prelude\<close>: bytes, words and memory, lemmas on regions of addresses (\<open>disjnt_regions\<close>).
  \<^item> \<open>Align\<close> (\<open>util/align.h\<close>, \<open>gc/align.c\<close>): rounding, with its bounds.
  \<^item> \<open>Word_Arith\<close> (\<open>basis/Word\<close>, \<open>basis/coerce.h\<close>): the operations at every width; the overflow
    tests are exact, division truncates, rotations are inverse, the fetch and store of a
    misaligned 64-bit word agree with the aligned ones.
  \<^item> \<open>To_String\<close> (\<open>util/to-string.c\<close>): numbers printed with commas into rotating static buffers.
  \<^item> \<open>Object_Model\<close> (\<open>gc/object.c\<close>, \<open>gc/objptr.c\<close>, \<open>gc/array.c\<close>, \<open>gc/frame.c\<close>, \<open>gc/stack.c\<close>,
    \<open>gc/thread.c\<close>, \<open>gc/weak.c\<close>, \<open>gc/object-size.c\<close>, the read barrier of \<open>gc/forward.c\<close>): headers,
    layouts and sizes; the read barrier returns exactly when the path of forwarded objects
    ends, and then yields its end.
  \<^item> \<open>Sched_Queue\<close>, \<open>Sched_Ops\<close> (\<open>gc/scheduler-queue.c\<close>): ring buffers refine lists (locale
    \<open>queue\<close>), growing keeps the contents, the queues of several processors and priorities.
  \<^item> \<open>Hash_Cons\<close> (\<open>gc/hash-cons.c\<close>): double hashing ends and finds an equal entry if there is one
    (\<open>findable\<close>: no search misses an entry), else inserts; growing the table keeps its
    entries; when the allocation loop does not end.
  \<^item> \<open>Heap\<close>, \<open>Heap_Resize\<close> (\<open>gc/heap.c\<close>, \<open>gc/heap_predicates.c\<close>, \<open>gc/virtual-memory.c\<close>):
    creating, growing, shrinking and resizing heaps; the live bytes survive growing, also
    when it copies in pieces while shrinking the old heap, or writes them to the disk. The system
    calls are parameters; \<open>vm_ok\<close> and \<open>os_ok\<close> state what they do.
  \<^item> \<open>Generational\<close> (\<open>gc/generational.c\<close>): card and cross maps; a mark marks one card; the
    incremental update of the cross map agrees with the direct computation.
  \<^item> \<open>Foreach\<close> (\<open>gc/foreach.c\<close>, \<open>gc/translate.c\<close>, \<open>gc/call-stack.c\<close>, \<open>fillGap\<close>): the walks
    visit exactly the slots that the shape of the objects gives (\<open>object_shape\<close>,
    \<open>objects_shape\<close>, \<open>frames_shape\<close>), for any client that changes its own slot only (locale
    \<open>slot_local\<close>, extended by \<open>slot_update\<close>); the locales are interpreted for the relocation
    and read-barrier clients.
  \<^item> \<open>Allocation\<close> (\<open>gc/new-object.c\<close>, \<open>gc/array-allocate.c\<close>): new objects, stacks, threads and
    arrays; an array is initialised whole, and when its size wraps around.
  \<^item> \<open>Int_Inf\<close> (\<open>gc/int-inf.c\<close>): conversion between tagged and boxed integers and GMP's; the
    binary operations return the representation of the result, a small one when it fits; the
    unary operations, the shifts and the conversion to strings are modelled, without such a theorem.
  \<^item> \<open>Critical_Section\<close> (\<open>gc/processor.c\<close>, \<open>gc/parallel.c\<close>): the steps of interleaved processors;
    the invariant of the four phases, mutual exclusion, no deadlock, locks.

  \<^item> \<open>Shared_Alloc\<close> (\<open>allocChunkInSharedHeap\<close> and \<open>maybeSatisfyAllocationRequestLocally\<close> of
    \<open>gc/garbage-collection.c\<close>): the processors take chunks of the shared heap with one
    compare-and-swap; chunks are disjoint in every interleaving, and a swap fails only when
    another processor has taken a chunk since the frontier was read (\<open>alloc_others\<close>).
  \<^item> \<open>Threads\<close> (\<open>gc/current.c\<close>, \<open>gc/atomic.c\<close>, \<open>gc/switch-thread.c\<close>, \<open>gc/copy-thread.c\<close>): the
    current thread, switching there and back, copying.
  \<^item> \<open>Stacks\<close> (\<open>gc/stack.c\<close>): the sizes of growing and shrinking stacks, the dangling stacks.
  \<^item> \<open>Threadlets\<close> (\<open>gc/threadlet.c\<close>): frames extracted from one stack and prefixed to another.
  \<^item> \<open>Forward\<close>, \<open>Cheney\<close> (\<open>gc/forward.c\<close>, the walks over the roots of \<open>gc/foreach.c\<close>,
    \<open>gc/cheney-copy.c\<close>): copying one object, the marked cards, the minor and major collections.
  \<^item> \<open>Cheney_Graph\<close>: a major collection copies the graph of the reachable objects. The invariant
    \<open>copying\<close> describes the heap by the list of the objects copied so far and the set of the
    slots renamed so far; \<open>forward_slot\<close> and \<open>scan\<close> preserve it, and the scan ends because it
    passes every copy once.
  \<^item> \<open>Layout\<close>: the extent of one object and of the objects of a heap, shared by the two graph proofs.
  \<^item> \<open>Dfs_Mark\<close> (\<open>gc/dfs-mark.c\<close>, the functions of \<open>gc/object-cleanliness.c\<close> and \<open>gc/reclaim.c\<close>
    that are applied to each object): the marker as a program of labels, one definition for each,
    with the pointers reversed in memory as in the code.
  \<^item> \<open>Dfs_Graph\<close>, \<open>Dfs_Steps\<close>, \<open>Dfs_Mark_Graph\<close>: the well-formed graph (\<open>graph_ok\<close>), the memory while an
    object is scanned (\<open>scan_mem\<close>), one lemma for each kind of step, and the induction that
    composes them (\<open>visits_graph_all\<close>) for any function applied to the objects (locale \<open>dfs_visitor\<close>).
  \<^item> \<open>Mark_Clients\<close> (\<open>gc/size.c\<close>, \<open>gc/object-cleanliness.c\<close>, \<open>gc/enter_leave.c\<close>): marking followed by
    unmarking restores the memory; the sizes and the cleanliness of closures without stacks.
  \<^item> \<open>Mark_Compact\<close> (\<open>gc/mark-compact.c\<close>): the collection of Jonkers, one definition for each label
    of the two passes; \<open>Thread_Chain\<close>, \<open>Compact_Heap\<close>, \<open>Compact_Slots\<close>: the chains of slots that the headers hold
    and what the live and the dead objects look like during the passes; \<open>Compact_Forward\<close>, \<open>Compact_Backward\<close>,
    \<open>Compact_Passes\<close>: the invariant of each pass, and the heap at the end; \<open>Mark_Roots\<close>, \<open>Compact_Graph\<close>,
    \<open>Compact_GC\<close>: marking from the roots gives the live objects, and the collection of a heap of normal
    objects and arrays is correct. The passes for stacks, weak objects and the shared heap are
    modelled without a theorem.

  The bounds. Sizes: a region of memory must not wrap around, and a rounded size must be
  representable; both are hypotheses in bytes below \<open>2 ^ 64\<close>. Queues: fewer than \<open>2 ^ 27\<close> keys
  before a growth, as above that the byte count overflows an \<open>int\<close>. Hash tables: fewer than
  \<open>2 ^ 31\<close> slots. Processors: fewer than \<open>2 ^ 31\<close>, so that the shared counters do not wrap around.

  Not modelled. The compiler and the tools are Standard ML. Bindings to the operating system
  (\<open>platform\<close>, \<open>basis/Posix\<close>, \<open>basis/Net\<close>), floating point (\<open>basis/Real\<close>, the ratios of
  \<open>sizeofHeapDesired\<close>), printing, profiling and signal handling are effects outside
  the program's own logic. Vendored code (\<open>uthash.h\<close>, \<open>utarray.h\<close>, \<open>plpa\<close>) and generated tables are
  not the program's. The bytecode interpreter takes its opcodes from a file that the compiler
  writes. The decisions when to collect and how much (\<open>gc/garbage-collection.c\<close>) and the start-up of
  the run-time system (\<open>gc/init.c\<close>) read clocks, floating-point ratios and the command line.
\<close>

end
